(* ===== verification/Prelude.thy ===== *)
theory Prelude
  imports Main "HOL-Library.Word" "HOL-Library.Monad_Syntax" "HOL-Library.Signed_Division"
    "HOL-Library.Code_Target_Numeral" "HOL-Library.Multiset"
begin

text \<open>
  What every theory of the development shares: Rust's machine integers, the crash monad in which
  every operation that can panic is written, indexing with Rust's bounds checks, and the contract
  of a state machine with an invariant.

  A Rust integer is a HOL number of unbounded size together with the operation that brings a
  result back to the width of its type: a plain \<open>+\<close>, \<open>-\<close> or \<open>*\<close> of the release profile wraps around
  (\<open>Cargo.toml\<close> does not turn overflow checks on), \<open>saturating_*\<close> clamps, \<open>checked_*\<close> is an option.
  \<open>i64\<close> and \<open>i128\<close> are HOL \<open>int\<close>; \<open>u8\<close>, \<open>u32\<close>, \<open>u64\<close> and \<open>usize\<close> are HOL \<open>nat\<close>; bit masks are
  HOL words. \<open>/\<close> and \<open>%\<close> truncate towards zero (\<open>sdiv\<close>, \<open>smod\<close>).
\<close>

named_theorems machine_arith \<open>operations whose result is in range are the mathematical ones\<close>
named_theorems run_simps \<open>unfolding of the crash monad\<close>

section \<open>Machine integers\<close>

type_synonym i64 = int
type_synonym i128 = int
type_synonym u8 = nat
type_synonym u32 = nat
type_synonym u64 = nat
type_synonym usize = nat

definition i64_min :: i64 where "i64_min = -9223372036854775808"
definition i64_max :: i64 where "i64_max = 9223372036854775807"
definition u32_max :: u32 where "u32_max = 4294967295"
definition u64_max :: u64 where "u64_max = 18446744073709551615"

definition in_i64 :: "int \<Rightarrow> bool" where
  "in_i64 x \<longleftrightarrow> i64_min \<le> x \<and> x \<le> i64_max"

definition in_i128 :: "int \<Rightarrow> bool" where
  "in_i128 x \<longleftrightarrow> - (2 ^ 127) \<le> x \<and> x < 2 ^ 127"

definition wrap64 :: "int \<Rightarrow> i64" where
  "wrap64 x = (x + 9223372036854775808) mod 18446744073709551616 - 9223372036854775808"

definition wrap128 :: "int \<Rightarrow> i128" where
  "wrap128 x = (x + 2 ^ 127) mod 2 ^ 128 - 2 ^ 127"

definition i64_add :: "i64 \<Rightarrow> i64 \<Rightarrow> i64" where "i64_add a b = wrap64 (a + b)"
definition i64_sub :: "i64 \<Rightarrow> i64 \<Rightarrow> i64" where "i64_sub a b = wrap64 (a - b)"
definition i64_mul :: "i64 \<Rightarrow> i64 \<Rightarrow> i64" where "i64_mul a b = wrap64 (a * b)"
definition i64_neg :: "i64 \<Rightarrow> i64" where "i64_neg a = wrap64 (- a)"
definition i64_abs :: "i64 \<Rightarrow> i64" where "i64_abs a = wrap64 \<bar>a\<bar>"

definition i128_mul :: "i128 \<Rightarrow> i128 \<Rightarrow> i128" where "i128_mul a b = wrap128 (a * b)"
definition i128_add :: "i128 \<Rightarrow> i128 \<Rightarrow> i128" where "i128_add a b = wrap128 (a + b)"
definition i128_sub :: "i128 \<Rightarrow> i128 \<Rightarrow> i128" where "i128_sub a b = wrap128 (a - b)"

text \<open>\<open>v.clamp(i64::MIN as i128, i64::MAX as i128) as i64\<close>, and the saturating operations.\<close>

definition clamp64 :: "int \<Rightarrow> i64" where
  "clamp64 x = max i64_min (min i64_max x)"

definition sat_add :: "i64 \<Rightarrow> i64 \<Rightarrow> i64" where "sat_add a b = clamp64 (a + b)"
definition sat_sub :: "i64 \<Rightarrow> i64 \<Rightarrow> i64" where "sat_sub a b = clamp64 (a - b)"
definition sat_mul :: "i64 \<Rightarrow> i64 \<Rightarrow> i64" where "sat_mul a b = clamp64 (a * b)"
definition sat_neg :: "i64 \<Rightarrow> i64" where "sat_neg a = clamp64 (- a)"
definition sat_abs :: "i64 \<Rightarrow> i64" where "sat_abs a = clamp64 \<bar>a\<bar>"

text \<open>\<open>i64::try_from\<close>, \<open>checked_mul\<close> and \<open>checked_add\<close>.\<close>

definition try64 :: "int \<Rightarrow> i64 option" where
  "try64 x = (if in_i64 x then Some x else None)"

definition checked_mul :: "i64 \<Rightarrow> i64 \<Rightarrow> i64 option" where "checked_mul a b = try64 (a * b)"
definition checked_add :: "i64 \<Rightarrow> i64 \<Rightarrow> i64 option" where "checked_add a b = try64 (a + b)"

definition u32_add :: "u32 \<Rightarrow> u32 \<Rightarrow> u32" where "u32_add a b = (a + b) mod 4294967296"
definition u32_sub :: "u32 \<Rightarrow> u32 \<Rightarrow> u32" where "u32_sub a b = (a + 4294967296 - b) mod 4294967296"
definition u64_add :: "u64 \<Rightarrow> u64 \<Rightarrow> u64" where "u64_add a b = (a + b) mod 18446744073709551616"
definition u64_sat_add :: "u64 \<Rightarrow> u64 \<Rightarrow> u64" where "u64_sat_add a b = min u64_max (a + b)"
definition u64_sat_mul :: "u64 \<Rightarrow> u64 \<Rightarrow> u64" where "u64_sat_mul a b = min u64_max (a * b)"

text \<open>The casts \<open>x as u32\<close> from \<open>i64\<close> and from \<open>u64\<close> keep the low 32 bits.\<close>

definition i64_as_u32 :: "i64 \<Rightarrow> u32" where "i64_as_u32 x = nat (x mod 4294967296)"
definition u64_as_u32 :: "u64 \<Rightarrow> u32" where "u64_as_u32 x = x mod 4294967296"

text \<open>\<open>x.unsigned_abs().min(i64::MAX as u64) as i64\<close>: the magnitude, with the least integer mapped to the largest.\<close>

definition abs_capped :: "i64 \<Rightarrow> i64" where "abs_capped x = min \<bar>x\<bar> i64_max"

lemmas i64_bounds = i64_min_def i64_max_def

lemma in_i64_iff: "in_i64 x \<longleftrightarrow> -9223372036854775808 \<le> x \<and> x \<le> 9223372036854775807"
  by (simp add: in_i64_def i64_bounds)

lemma wrap64_id [machine_arith]: "in_i64 x \<Longrightarrow> wrap64 x = x"
  by (simp add: wrap64_def in_i64_iff mod_pos_pos_trivial)

lemma in_i64_wrap64 [simp, intro]: "in_i64 (wrap64 x)"
proof -
  let ?m = "(x + 9223372036854775808) mod 18446744073709551616"
  have "0 \<le> ?m" "?m < 18446744073709551616" by simp_all
  then show ?thesis unfolding wrap64_def in_i64_iff by linarith
qed

lemma wrap128_id [machine_arith]: "in_i128 x \<Longrightarrow> wrap128 x = x"
  by (simp add: wrap128_def in_i128_def mod_pos_pos_trivial)

lemma i64_add_id [machine_arith]: "in_i64 (a + b) \<Longrightarrow> i64_add a b = a + b"
  by (simp add: i64_add_def wrap64_id)

lemma i64_sub_id [machine_arith]: "in_i64 (a - b) \<Longrightarrow> i64_sub a b = a - b"
  by (simp add: i64_sub_def wrap64_id)

lemma i64_mul_id [machine_arith]: "in_i64 (a * b) \<Longrightarrow> i64_mul a b = a * b"
  by (simp add: i64_mul_def wrap64_id)

lemma in_i64_clamp64 [simp, intro]: "in_i64 (clamp64 x)"
  by (simp add: clamp64_def in_i64_def i64_bounds)

lemma clamp64_id [machine_arith]: "in_i64 x \<Longrightarrow> clamp64 x = x"
  by (simp add: clamp64_def in_i64_def)

lemma clamp64_mono: "x \<le> y \<Longrightarrow> clamp64 x \<le> clamp64 y"
  by (auto simp: clamp64_def)

lemma sat_add_id [machine_arith]: "in_i64 (a + b) \<Longrightarrow> sat_add a b = a + b"
  by (simp add: sat_add_def clamp64_id)

lemma sat_sub_id [machine_arith]: "in_i64 (a - b) \<Longrightarrow> sat_sub a b = a - b"
  by (simp add: sat_sub_def clamp64_id)

lemma try64_Some_iff [simp]: "try64 x = Some y \<longleftrightarrow> in_i64 x \<and> y = x"
  by (auto simp: try64_def)

lemma u32_add_id [machine_arith]: "a + b < 4294967296 \<Longrightarrow> u32_add a b = a + b"
  by (simp add: u32_add_def)

lemma u32_sub_id [machine_arith]:
  assumes "b \<le> a" and "a < 4294967296" shows "u32_sub a b = a - b"
proof -
  have "a + 4294967296 - b = (a - b) + 4294967296" using assms(1) by simp
  then have "u32_sub a b = ((a - b) + 4294967296) mod 4294967296" by (simp only: u32_sub_def)
  then show ?thesis using assms(2) by simp
qed

lemma u64_add_id [machine_arith]: "a + b < 18446744073709551616 \<Longrightarrow> u64_add a b = a + b"
  by (simp add: u64_add_def)

lemma i64_as_u32_id [machine_arith]: "0 \<le> x \<Longrightarrow> x < 4294967296 \<Longrightarrow> i64_as_u32 x = nat x"
  by (simp add: i64_as_u32_def mod_pos_pos_trivial)

lemma i64_as_u32_bound: "i64_as_u32 x < 4294967296"
  by (simp add: i64_as_u32_def nat_less_iff)

text \<open>Truncating division by a positive number, where the dividend's sign is known.\<close>

lemma sdiv_nonneg: "0 \<le> a \<Longrightarrow> 0 < b \<Longrightarrow> (a::int) sdiv b = a div b"
  by (cases "a = 0") (auto simp: signed_divide_int_def sgn_if)

lemma smod_nonneg: "0 \<le> a \<Longrightarrow> 0 < b \<Longrightarrow> (a::int) smod b = a mod b"
  by (cases "a = 0") (auto simp: signed_modulo_int_def signed_divide_int_def sgn_if minus_div_mult_eq_mod)

lemma div_times_le: "0 < b \<Longrightarrow> a div b * b \<le> (a::int)"
  using div_mult_mod_eq [of a b] pos_mod_sign [of b a] by linarith

lemma div_less_of_less_mult: "a < k * b \<Longrightarrow> 0 < b \<Longrightarrow> a div b < (k::int)"
  by (meson div_times_le linorder_not_le mult_le_cancel_right order_trans not_less_iff_gr_or_eq)

lemma smod_zero_dvd: "(a::int) smod b = 0 \<longleftrightarrow> b dvd a"
proof -
  have "a smod b = 0 \<longleftrightarrow> \<bar>a\<bar> mod \<bar>b\<bar> = 0"
    by (cases "a = 0") (auto simp: smod_int_alt_def sgn_if)
  then show ?thesis by (simp add: dvd_eq_mod_eq_0 [symmetric])
qed

section \<open>The crash monad\<close>

text \<open>
  A panic aborts the process (\<open>panic = "abort"\<close>) and a loop may run forever; an operation that can
  do either has type \<open>'a option\<close> and \<open>None\<close> is "does not return". A theorem that the result is
  \<open>Some\<close> therefore shows both that no assertion, bounds check or \<open>expect\<close> fires and that every loop ends.
\<close>

definition assert_that :: "bool \<Rightarrow> unit option" where
  "assert_that c = (if c then Some () else None)"

text \<open>\<open>xs[i]\<close> and \<open>xs[i] = v\<close>: Rust checks the bound and panics outside it.\<close>

definition index_of :: "'a list \<Rightarrow> nat \<Rightarrow> 'a option" where
  "index_of xs i = (if i < length xs then Some (xs ! i) else None)"

definition store_at :: "'a list \<Rightarrow> nat \<Rightarrow> 'a \<Rightarrow> 'a list option" where
  "store_at xs i v = (if i < length xs then Some (xs[i := v]) else None)"

lemma assert_that_Some [simp, run_simps]: "assert_that c = Some u \<longleftrightarrow> c"
  by (simp add: assert_that_def)

lemma assert_that_True [simp, run_simps]: "assert_that True = Some ()"
  by (simp add: assert_that_def)

lemma index_of_Some [run_simps]: "i < length xs \<Longrightarrow> index_of xs i = Some (xs ! i)"
  by (simp add: index_of_def)

lemma index_of_eq_Some [simp]: "index_of xs i = Some x \<longleftrightarrow> i < length xs \<and> x = xs ! i"
  by (auto simp: index_of_def)

lemma store_at_Some [run_simps]: "i < length xs \<Longrightarrow> store_at xs i v = Some (xs[i := v])"
  by (simp add: store_at_def)

lemma store_at_eq_Some [simp]: "store_at xs i v = Some ys \<longleftrightarrow> i < length xs \<and> ys = xs[i := v]"
  by (auto simp: store_at_def)

lemmas [run_simps] = Option.bind.simps

section \<open>State machines with an invariant\<close>

text \<open>
  The contract several components share: a step function over events and a predicate every step
  keeps. A component interprets it on its own step function; the run lemma is proved once here.
\<close>

locale transition_invariant =
  fixes step :: "'s \<Rightarrow> 'e \<Rightarrow> 's" and good :: "'s \<Rightarrow> bool"
  assumes step_good: "good s \<Longrightarrow> good (step s e)"
begin

lemma run_good: "good s \<Longrightarrow> good (foldl step s es)"
  by (induction es arbitrary: s) (auto intro: step_good)

lemma every_prefix_good: "good s \<Longrightarrow> good (foldl step s (take n es))"
  by (rule run_good)

end

text \<open>
  A ledger: as long as every event is admissible where it happens, a step keeps the invariant and adds a known
  amount to a measure of the state. The measure of a run is then the sum of its events, whatever the order.
\<close>

locale ledger =
  fixes step :: "'s \<Rightarrow> 'e \<Rightarrow> 's" and good :: "'s \<Rightarrow> bool" and admissible :: "'s \<Rightarrow> 'e \<Rightarrow> bool"
    and measure_of :: "'s \<Rightarrow> int" and amount :: "'e \<Rightarrow> int"
  assumes step_keeps: "good s \<Longrightarrow> admissible s e \<Longrightarrow> good (step s e)"
    and step_adds: "good s \<Longrightarrow> admissible s e \<Longrightarrow> measure_of (step s e) = measure_of s + amount e"
begin

lemma run_adds:
  assumes "good s" and "\<And>k. k < length es \<Longrightarrow> admissible (foldl step s (take k es)) (es ! k)"
  shows "good (foldl step s es) \<and> measure_of (foldl step s es) = measure_of s + (\<Sum>e\<leftarrow>es. amount e)"
  using assms(2)
proof (induction es rule: rev_induct)
  case (snoc e es)
  have "admissible (foldl step s (take k es)) (es ! k)" if "k < length es" for k
    using snoc.prems [of k] that by (simp add: nth_append)
  then have IH: "good (foldl step s es)" "measure_of (foldl step s es) = measure_of s + (\<Sum>e\<leftarrow>es. amount e)" using snoc.IH by blast+
  have "admissible (foldl step s es) e" using snoc.prems [of "length es"] by simp
  then show ?case using step_keeps [OF IH(1)] step_adds [OF IH(1)] IH(2) by simp
qed (simp add: assms(1))

end

lemma sort_key_unique:
  assumes "distinct xs" "set xs = set ys" "sorted_wrt (<) (map f ys)"
  shows "sort_key f xs = ys"
proof (rule sort_key_inj_key_eq)
  have dist: "distinct (map f ys)" and sorted: "sorted (map f ys)" using assms(3) strict_sorted_iff by blast+
  then have "distinct ys" by (simp add: distinct_map)
  then show "mset xs = mset ys" using assms(1,2) set_eq_iff_mset_eq_distinct by metis
  show "inj_on f (set xs)" using dist assms(2) by (simp add: distinct_map)
  show "sorted (map f ys)" by (rule sorted)
qed

end
