(* ===== verification/Rsx_Types.thy ===== *)
theory Rsx_Types
  imports Prelude
begin

text \<open>
  The leaf crate \<open>rsx-types\<close>: the order enums with their wire discriminants, the symbol
  configuration and its alignment gate, the fee calculation every other crate uses, and the client
  order ids and minimum quantities of the order generators. Prices and quantities are \<open>i64\<close>
  newtypes and appear as plain \<open>i64\<close> here.
\<close>

section \<open>Definitions\<close>

subsection \<open>Order enums\<close>

datatype side = Buy | Sell

fun side_u8 :: "side \<Rightarrow> u8" where
  "side_u8 Buy = 0"
| "side_u8 Sell = 1"

datatype time_in_force = GTC | IOC | FOK

fun tif_u8 :: "time_in_force \<Rightarrow> u8" where
  "tif_u8 GTC = 0"
| "tif_u8 IOC = 1"
| "tif_u8 FOK = 2"

datatype final_status = FsFilled | FsResting | FsCancelled

fun final_status_u8 :: "final_status \<Rightarrow> u8" where
  "final_status_u8 FsFilled = 0"
| "final_status_u8 FsResting = 1"
| "final_status_u8 FsCancelled = 2"

datatype order_status = OsFilled | OsResting | OsCancelled | OsFailed

fun order_status_u8 :: "order_status \<Rightarrow> u8" where
  "order_status_u8 OsFilled = 0"
| "order_status_u8 OsResting = 1"
| "order_status_u8 OsCancelled = 2"
| "order_status_u8 OsFailed = 3"

datatype failure_reason =
    InvalidTickSize | InvalidLotSize | SymbolNotFound | DuplicateOrderId | InsufficientMargin
  | Overloaded | InternalError | ReduceOnlyViolation | NetworkError | RateLimit | Timeout
  | UserInLiquidation | WrongShard | FrFillOrKill | OrderTooSmall

fun failure_reason_u8 :: "failure_reason \<Rightarrow> u8" where
  "failure_reason_u8 InvalidTickSize = 0"
| "failure_reason_u8 InvalidLotSize = 1"
| "failure_reason_u8 SymbolNotFound = 2"
| "failure_reason_u8 DuplicateOrderId = 3"
| "failure_reason_u8 InsufficientMargin = 4"
| "failure_reason_u8 Overloaded = 5"
| "failure_reason_u8 InternalError = 6"
| "failure_reason_u8 ReduceOnlyViolation = 7"
| "failure_reason_u8 NetworkError = 8"
| "failure_reason_u8 RateLimit = 9"
| "failure_reason_u8 Timeout = 10"
| "failure_reason_u8 UserInLiquidation = 11"
| "failure_reason_u8 WrongShard = 12"
| "failure_reason_u8 FrFillOrKill = 13"
| "failure_reason_u8 OrderTooSmall = 14"

text \<open>The "no index" sentinel of the linked lists, \<open>u32::MAX\<close>.\<close>

definition NONE :: u32 where "NONE = 4294967295"

subsection \<open>Symbol configuration\<close>

record symbol_config =
  sc_symbol_id :: u32
  sc_price_decimals :: u8
  sc_qty_decimals :: u8
  sc_tick_size :: i64
  sc_lot_size :: i64

text \<open>A remainder by zero panics; the conjunction short-circuits, so it is reached only for a positive price and quantity.\<close>

definition rem_by :: "i64 \<Rightarrow> i64 \<Rightarrow> i64 option" where
  "rem_by a b = (if b = 0 then None else Some (a smod b))"

definition validate_order :: "symbol_config \<Rightarrow> i64 \<Rightarrow> i64 \<Rightarrow> bool option" where
  "validate_order config price qty =
     (if \<not> (price > 0 \<and> qty > 0) then Some False
      else do {
        r \<leftarrow> rem_by price (sc_tick_size config);
        if r \<noteq> 0 then Some False
        else do {
          s \<leftarrow> rem_by qty (sc_lot_size config);
          Some (s = 0)
        }
      })"

subsection \<open>Fees\<close>

definition calculate_fee :: "i64 \<Rightarrow> i64 \<Rightarrow> i64 \<Rightarrow> i64" where
  "calculate_fee qty price fee_bps =
     (let notional = i128_mul qty price;
          fee_128 = i128_mul notional fee_bps;
          result = fee_128 div 10000
      in case try64 result of
           Some v \<Rightarrow> v
         | None \<Rightarrow> (if result < 0 then i64_min else i64_max))"

subsection \<open>Client order ids and minimum quantities\<close>

definition base36_digits :: string where
  "base36_digits = ''0123456789abcdefghijklmnopqrstuvwxyz''"

text \<open>The loop of \<open>base36\<close> pushes the lowest digit first; the result is reversed once at the end.\<close>

fun base36_reversed :: "u64 \<Rightarrow> string" where
  "base36_reversed number =
     (base36_digits ! (number mod 36)) #
     (if number div 36 = 0 then [] else base36_reversed (number div 36))"

declare base36_reversed.simps [simp del]

definition base36 :: "u64 \<Rightarrow> string" where
  "base36 number = rev (base36_reversed number)"

record cid_mint =
  cm_session :: string
  cm_counter :: u64

definition session_chars :: nat where "session_chars = 8"

text \<open>\<open>format!("{digits:0>width$}")\<close>: pad on the left with zeros.\<close>

definition pad_left_zero :: "nat \<Rightarrow> string \<Rightarrow> string" where
  "pad_left_zero width s = replicate (width - length s) (CHR ''0'') @ s"

definition with_seed :: "u64 \<Rightarrow> cid_mint" where
  "with_seed seed = \<lparr>cm_session = pad_left_zero session_chars (base36 (seed mod 36 ^ session_chars)), cm_counter = 0\<rparr>"

definition cid_next :: "cid_mint \<Rightarrow> string \<times> cid_mint" where
  "cid_next m = (let c = u64_add (cm_counter m) 1 in
     (cm_session m @ base36 c, m\<lparr>cm_counter := c\<rparr>))"

fun cid_take :: "nat \<Rightarrow> cid_mint \<Rightarrow> string list" where
  "cid_take 0 m = []"
| "cid_take (Suc n) m = (case cid_next m of (cid, m') \<Rightarrow> cid # cid_take n m')"

definition one_usd_notional :: "u32 \<Rightarrow> u32 \<Rightarrow> i64" where
  "one_usd_notional price_decimals qty_decimals =
     (case try64 (10 ^ u32_add price_decimals qty_decimals) of Some v \<Rightarrow> v | None \<Rightarrow> i64_max)"

definition min_order_qty :: "i64 \<Rightarrow> i64 \<Rightarrow> i64 \<Rightarrow> i64" where
  "min_order_qty min_notional price lot0 =
     (let lot = max lot0 1;
          per_lot = max price 1 * lot;
          lots = (max min_notional 0 + per_lot - 1) sdiv per_lot;
          lots' = max 1 (min (i64_max sdiv lot) lots)
      in i64_mul lots' lot)"

section \<open>Lemmas\<close>

lemma side_u8_inject [simp]: "side_u8 s = side_u8 t \<longleftrightarrow> s = t"
  by (cases s; cases t) auto

lemma side_u8_eq [simp]: "side_u8 s = 0 \<longleftrightarrow> s = Buy" "side_u8 s = Suc 0 \<longleftrightarrow> s = Sell"
  by (cases s; simp)+

lemma rem_by_pos [simp]: "0 < b \<Longrightarrow> rem_by a b = Some (a smod b)"
  by (simp add: rem_by_def)

lemma mult_in_i128: "in_i64 a \<Longrightarrow> in_i64 b \<Longrightarrow> in_i128 (a * b)"
proof -
  assume "in_i64 a" "in_i64 b"
  then have "\<bar>a\<bar> \<le> 2 ^ 63" "\<bar>b\<bar> \<le> 2 ^ 63"
    by (auto simp: in_i64_iff)
  then have "\<bar>a\<bar> * \<bar>b\<bar> \<le> 2 ^ 63 * 2 ^ 63"
    by (intro mult_mono) auto
  then have "\<bar>a * b\<bar> \<le> 2 ^ 126"
    by (simp add: abs_mult flip: power_add)
  then show ?thesis by (auto simp: in_i128_def)
qed

text \<open>The digits of a number, most significant first, and their value.\<close>

definition digit_value :: "char \<Rightarrow> nat" where
  "digit_value c = length (takeWhile (\<lambda>d. d \<noteq> c) base36_digits)"

fun value36 :: "nat \<Rightarrow> string \<Rightarrow> nat" where
  "value36 acc [] = acc"
| "value36 acc (c # cs) = value36 (acc * 36 + digit_value c) cs"

lemma value36_append: "value36 acc (xs @ ys) = value36 (value36 acc xs) ys"
  by (induction xs arbitrary: acc) auto

lemma digit_value_nth:
  assumes "d < 36" shows "digit_value (base36_digits ! d) = d"
proof -
  have "\<forall>d \<in> set [0..<36]. digit_value (base36_digits ! d) = d" by code_simp
  with assms show ?thesis by simp
qed

lemma value36_base36: "value36 0 (base36 n) = n"
proof (induction n rule: base36_reversed.induct)
  case (1 n)
  show ?case
  proof (cases "n div 36 = 0")
    case True
    then show ?thesis
      by (simp add: base36_def base36_reversed.simps [of n] digit_value_nth div_eq_0_iff)
  next
    case False
    then have "value36 0 (rev (base36_reversed (n div 36))) = n div 36"
      using "1.IH" by (simp add: base36_def)
    with False show ?thesis
      by (simp add: base36_def base36_reversed.simps [of n] value36_append digit_value_nth)
  qed
qed

lemma base36_inj: "base36 m = base36 n \<Longrightarrow> m = n"
  by (metis value36_base36)

lemma length_base36_le: "n < 36 ^ Suc k \<Longrightarrow> length (base36 n) \<le> Suc k"
proof (induction k arbitrary: n)
  case 0
  then show ?case by (simp add: base36_def base36_reversed.simps [of n] div_eq_0_iff)
next
  case (Suc k)
  have "n div 36 < 36 ^ Suc k"
    using Suc.prems by (simp add: less_mult_imp_div_less mult.commute)
  from Suc.IH [OF this] show ?case
    by (simp add: base36_def base36_reversed.simps [of n])
qed

lemma base36_nonempty: "base36 n \<noteq> []"
  by (simp add: base36_def base36_reversed.simps [of n])

lemma length_session: "length (cm_session (with_seed seed)) = session_chars"
proof -
  have "length (base36 (seed mod 36 ^ session_chars)) \<le> session_chars"
    using length_base36_le [of "seed mod 36 ^ 8" 7] by (simp add: session_chars_def)
  then show ?thesis by (simp add: with_seed_def pad_left_zero_def)
qed

lemma cid_take_counter:
  "cm_counter m + n < 18446744073709551616 \<Longrightarrow>
   cid_take n m = map (\<lambda>i. cm_session m @ base36 (cm_counter m + Suc i)) [0..<n]"
proof (induction n arbitrary: m)
  case 0
  then show ?case by simp
next
  case (Suc n)
  let ?m = "m\<lparr>cm_counter := cm_counter m + 1\<rparr>"
  have "cid_take n ?m = map (\<lambda>i. cm_session m @ base36 (cm_counter m + Suc (Suc i))) [0..<n]"
    using Suc.prems by (subst Suc.IH) auto
  moreover have "cid_take (Suc n) m = (cm_session m @ base36 (Suc (cm_counter m))) # cid_take n ?m"
    using Suc.prems by (simp add: cid_next_def Let_def u64_add_id)
  ultimately show ?case
    by (simp add: map_upt_Suc del: upt_Suc)
qed

section \<open>Properties\<close>

text \<open>the alignment gate \<open>validate_order\<close> never panics on a configured symbol (positive tick and
  lot size) and accepts exactly the orders with a positive price that is a multiple of the tick and
  a positive quantity that is a multiple of the lot.\<close>

theorem validate_order_iff:
  assumes "0 < sc_tick_size config" and "0 < sc_lot_size config"
  shows "validate_order config price qty =
     Some (0 < price \<and> 0 < qty \<and> sc_tick_size config dvd price \<and> sc_lot_size config dvd qty)"
  using assms by (auto simp: validate_order_def smod_zero_dvd)

theorem validate_order_iff_witness:
  "validate_order \<lparr>sc_symbol_id = 1, sc_price_decimals = 2, sc_qty_decimals = 0, sc_tick_size = 5, sc_lot_size = 10\<rparr> 1005 30 = Some True"
  by (subst validate_order_iff) (simp_all add: dvd_def)

text \<open>within the range of the 128-bit product the fee is exact: \<open>calculate_fee\<close> is the floor of
  \<open>qty * price * bps / 10000\<close> (a rebate for negative \<open>bps\<close>), clamped to an \<open>i64\<close> with the right sign.\<close>

theorem calculate_fee_exact:
  assumes "in_i64 qty" and "in_i64 price" and "in_i128 (qty * price * bps)"
  shows "calculate_fee qty price bps = clamp64 (qty * price * bps div 10000)"
proof -
  have "i128_mul qty price = qty * price" using mult_in_i128 [OF assms(1,2)] by (simp add: i128_mul_def wrap128_id)
  moreover have "i128_mul (qty * price) bps = qty * price * bps" using assms(3) by (simp add: i128_mul_def wrap128_id)
  ultimately show ?thesis by (auto simp: calculate_fee_def Let_def try64_def in_i64_def clamp64_def i64_bounds)
qed

theorem calculate_fee_exact_witness: "calculate_fee 3 (-5000) 7 = -11"
  by (subst calculate_fee_exact) (simp_all add: in_i64_iff in_i128_def clamp64_def i64_bounds)

text \<open>\<open>min_order_qty\<close> is the smallest quantity that is a positive multiple of the lot and whose
  notional reaches the minimum, whenever such a quantity fits an \<open>i64\<close>.\<close>

theorem min_order_qty_least:
  assumes "0 < price" and "0 < lot" and "0 \<le> min_notional" and "0 < q" and "q \<le> i64_max" and "lot dvd q" and "min_notional \<le> price * q"
  shows "lot dvd min_order_qty min_notional price lot \<and> 0 < min_order_qty min_notional price lot \<and>
    min_notional \<le> price * min_order_qty min_notional price lot \<and> min_order_qty min_notional price lot \<le> q"
proof -
  define pl where "pl = price * lot"
  define k where "k = (min_notional + pl - 1) div pl"
  have pl: "0 < pl" using assms(1,2) by (simp add: pl_def)
  obtain m where m: "q = lot * m" using assms(6) by (auto simp: dvd_def)
  have m0: "0 < m" using m assms(2,4) by (simp add: zero_less_mult_iff)
  have "min_notional \<le> pl * m" using assms(7) by (simp add: m pl_def algebra_simps)
  then have "min_notional + pl - 1 < pl * (m + 1)" by (simp add: algebra_simps)
  then have "k < m + 1" unfolding k_def using pl by (intro div_less_of_less_mult) (simp_all add: mult.commute)
  then have km: "k \<le> m" by simp
  have k0: "0 \<le> k" unfolding k_def using pl assms(3) by (simp add: pos_imp_zdiv_nonneg_iff)
  have "min_notional + pl - 1 = pl * k + (min_notional + pl - 1) mod pl" unfolding k_def by simp
  moreover have "(min_notional + pl - 1) mod pl \<le> pl - 1" using pl pos_mod_bound [of pl "min_notional + pl - 1"] by linarith
  ultimately have kn: "min_notional \<le> pl * k" by linarith
  have mx: "m \<le> i64_max sdiv lot"
    using assms(2,5) m by (simp add: sdiv_nonneg i64_max_def pos_imp_zdiv_nonneg_iff zdiv_mono1 [of "lot * m" 9223372036854775807 lot, simplified]) 
  have kk: "max 1 (min (i64_max sdiv lot) k) = max 1 k" using mx km by simp
  have le: "max 1 k * lot \<le> q" unfolding m using km m0 assms(2) by (subst mult.commute, intro mult_left_mono) auto
  have pos: "0 < max 1 k * lot" using assms(2) by simp
  have mul: "i64_mul (max 1 k) lot = max 1 k * lot"
  proof (rule i64_mul_id)
    show "in_i64 (max 1 k * lot)" unfolding in_i64_def
      using order_trans [OF le assms(5)] order_trans [OF _ less_imp_le [OF pos], of i64_min] by (simp add: i64_min_def)
  qed
  have r: "min_order_qty min_notional price lot = max 1 k * lot"
  proof -
    have mx: "max lot 1 = lot" "max price 1 = price" "max min_notional 0 = min_notional" using assms(1-3) by simp_all
    have "(min_notional + pl - 1) sdiv pl = k" unfolding k_def using pl assms(3) by (intro sdiv_nonneg) simp_all
    then show ?thesis unfolding min_order_qty_def Let_def mx pl_def [symmetric] using kk mul by simp
  qed
  have "pl * k \<le> price * (max 1 k * lot)" using pl assms(1,2) by (simp add: pl_def mult.assoc mult.left_commute mult_le_cancel_left_pos)
  then show ?thesis unfolding r using kn le pos order_trans [of min_notional "pl * k"] by simp
qed

theorem min_order_qty_least_witness: "min_order_qty 1000 7 5 \<le> 145 \<and> 1000 \<le> 7 * min_order_qty 1000 7 5"
  using min_order_qty_least [of 7 5 1000 145] by (simp add: i64_max_def)

text \<open>client order ids are unique within a session. The first \<open>n\<close> ids of a minter are pairwise
  distinct, start with its eight session characters, and have at most 20 characters while the counter
  is below \<open>36 ^ 12\<close>.\<close>

theorem client_ids_unique:
  assumes "n < 36 ^ 12"
  shows "distinct (cid_take n (with_seed seed)) \<and>
    (\<forall>cid\<in>set (cid_take n (with_seed seed)). take 8 cid = cm_session (with_seed seed) \<and> 9 \<le> length cid \<and> length cid \<le> 20)"
proof -
  let ?m = "with_seed seed"
  have c0: "cm_counter ?m = 0" by (simp add: with_seed_def)
  have t: "cid_take n ?m = map (\<lambda>i. cm_session ?m @ base36 (Suc i)) [0..<n]"
    using cid_take_counter [of ?m n] assms c0 by simp
  have "distinct (cid_take n ?m)" unfolding t by (auto simp: distinct_map inj_on_def dest: base36_inj)
  moreover have "length (base36 (Suc i)) \<le> 12" if "i < n" for i
    using length_base36_le [of "Suc i" 11] that assms by simp
  moreover have "0 < length (base36 i)" for i using base36_nonempty by simp
  ultimately show ?thesis using length_session [of seed] unfolding t by (auto simp: session_chars_def Suc_le_eq)
qed

theorem client_ids_unique_witness: "distinct (cid_take 1000 (with_seed 42))"
  using client_ids_unique [of 1000 42] by simp

end
