(* ===== verification/Compression.thy ===== *)
theory Compression
  imports Rsx_Types
begin

text \<open>
  \<open>rsx-book/src/compression.rs\<close> and the price-ordered ranges of \<open>rsx-book/src/book.rs\<close>: the map
  from a raw price to a slot index. Around the mid price one slot holds one tick (zone 0); further
  out a slot holds 10, 100 or 1000 ticks, and everything beyond half of the mid shares one slot
  per side (zone 4). The index is a sawtooth, so the book walks the ranges of \<open>build_price_asc\<close>.

  The arrays of the Rust struct have four or five elements by type; here they are lists, and
  \<open>comp_ok\<close> records their lengths. The promise to the order book is the locale \<open>price_ladder\<close>:
  the ranges are disjoint, every price falls in the range of its region, and both the region and
  the slot inside a region grow with the price.
\<close>

section \<open>Definitions\<close>

record compression_map =
  cp_mid_price :: i64
  cp_thresholds :: "i64 list"
  cp_compressions :: "u32 list"
  cp_base_indices :: "u32 list"
  cp_zone_slots :: "u32 list"
  cp_tick_size :: i64

text \<open>\<open>a / b\<close> on \<open>i64\<close>: panics on a zero divisor and on the one quotient that does not fit.\<close>

definition div_by :: "i64 \<Rightarrow> i64 \<Rightarrow> i64 option" where
  "div_by a b = (if b = 0 \<or> (a = i64_min \<and> b = -1) then None else Some (a sdiv b))"

definition pct_of :: "i64 \<Rightarrow> i64 \<Rightarrow> i64" where
  "pct_of mid_price p =
     (case checked_mul mid_price p of Some v \<Rightarrow> v sdiv 100 | None \<Rightarrow> i64_max sdiv 100)"

definition compression_new :: "i64 \<Rightarrow> i64 \<Rightarrow> compression_map option" where
  "compression_new mid_price tick_size = do {
     let pct_5 = pct_of mid_price 5;
     let pct_15 = pct_of mid_price 15;
     let pct_30 = pct_of mid_price 30;
     let pct_50 = pct_of mid_price 50;
     let t = max tick_size 1;
     half0 \<leftarrow> div_by (i64_sub (i64_add (max pct_5 0) t) 1) t;
     let z0 = i64_as_u32 (max (i64_mul half0 2) 0);
     q1 \<leftarrow> div_by (i64_mul (i64_sub pct_15 pct_5) 2) (i64_mul 10 t);
     let z1 = i64_as_u32 (max q1 0);
     q2 \<leftarrow> div_by (i64_mul (i64_sub pct_30 pct_15) 2) (i64_mul 100 t);
     let z2 = i64_as_u32 (max q2 0);
     q3 \<leftarrow> div_by (i64_mul (i64_sub pct_50 pct_30) 2) (i64_mul 1000 t);
     let z3 = i64_as_u32 (max q3 0);
     let z4 = 2;
     Some \<lparr>cp_mid_price = mid_price,
           cp_thresholds = [pct_5, pct_15, pct_30, pct_50],
           cp_compressions = [1, 10, 100, 1000, 1],
           cp_base_indices = [0, z0, u32_add z0 z1, u32_add (u32_add z0 z1) z2,
                              u32_add (u32_add (u32_add z0 z1) z2) z3],
           cp_zone_slots = [z0, z1, z2, z3, z4],
           cp_tick_size = t\<rparr>
   }"

definition zone_of :: "compression_map \<Rightarrow> i64 \<Rightarrow> nat" where
  "zone_of c distance =
     (if distance < cp_thresholds c ! 1
      then (if distance < cp_thresholds c ! 0 then 0 else 1)
      else if distance < cp_thresholds c ! 2 then 2
      else if distance < cp_thresholds c ! 3 then 3
      else 4)"

text \<open>The \<open>zone_start\<close> of \<open>price_to_index\<close>.\<close>

definition zone_start_of :: "compression_map \<Rightarrow> nat \<Rightarrow> i64" where
  "zone_start_of c z = (if z = 0 then 0 else cp_thresholds c ! (z - 1))"

definition price_to_index :: "compression_map \<Rightarrow> i64 \<Rightarrow> u32 option" where
  "price_to_index c price = do {
     let signed = i64_sub price (cp_mid_price c);
     let distance = abs_capped signed;
     let side = (if signed \<ge> 0 then 0 else 1);
     let zone = zone_of c distance;
     if zone = 4 then Some (u32_add (cp_base_indices c ! 4) side)
     else do {
       let zone_start = zone_start_of c zone;
       let half = cp_zone_slots c ! zone div 2;
       if half = 0 then Some (cp_base_indices c ! zone)
       else do {
         let raw_per_slot = i64_mul (int (cp_compressions c ! zone)) (cp_tick_size c);
         q \<leftarrow> div_by (i64_sub distance zone_start) raw_per_slot;
         let local_offset = min (i64_as_u32 q) (half - 1);
         if side = 0 then Some (u32_add (u32_add (cp_base_indices c ! zone) half) local_offset)
         else Some (u32_sub (u32_sub (u32_add (cp_base_indices c ! zone) half) 1) local_offset)
       }
     }
   }"

definition total_slots :: "compression_map \<Rightarrow> u32" where
  "total_slots c = fold u32_add (cp_zone_slots c) 0"

definition min_price :: "compression_map \<Rightarrow> i64" where
  "min_price c = i64_sub (cp_mid_price c) (cp_thresholds c ! 3)"

definition max_price :: "compression_map \<Rightarrow> i64" where
  "max_price c = i64_add (cp_mid_price c) (cp_thresholds c ! 3)"

definition bid_region :: "compression_map \<Rightarrow> nat \<Rightarrow> u32 \<times> u32" where
  "bid_region c z =
     (let base = cp_base_indices c ! z; slots = cp_zone_slots c ! z in
      if z = 4 then (u32_add base 1, u32_add base slots)
      else let half = slots div 2 in
        if half = 0 then (base, u32_add base slots) else (base, u32_add base half))"

definition ask_region :: "compression_map \<Rightarrow> nat \<Rightarrow> u32 \<times> u32" where
  "ask_region c z =
     (let base = cp_base_indices c ! z; slots = cp_zone_slots c ! z in
      if z = 4 then (base, u32_add base 1)
      else let half = slots div 2 in
        if half = 0 then (base, u32_add base slots) else (u32_add base half, u32_add base slots))"

definition build_price_asc :: "compression_map \<Rightarrow> (u32 \<times> u32) list" where
  "build_price_asc c =
     filter (\<lambda>(lo, hi). lo < hi) (map (bid_region c) (rev [0..<5])) @
     filter (\<lambda>(lo, hi). lo < hi) (map (ask_region c) [0..<5])"

section \<open>Regular maps\<close>

text \<open>
  A map is regular when no zone degenerates, no count or offset loses bits in a cast, and zone 0 is
  wide enough for its own threshold. \<open>compression_new\<close> builds a regular map for every mid price of
  at least 5000 ticks (below that zone 3 has no slots of its own).
\<close>

definition raw_of :: "compression_map \<Rightarrow> nat \<Rightarrow> i64" where
  "raw_of c z = [1, 10, 100, 1000] ! z * cp_tick_size c"

definition half_of :: "compression_map \<Rightarrow> nat \<Rightarrow> nat" where
  "half_of c z = cp_zone_slots c ! z div 2"

definition comp_ok :: "compression_map \<Rightarrow> bool" where
  "comp_ok c \<longleftrightarrow>
     length (cp_thresholds c) = 4 \<and> length (cp_base_indices c) = 5 \<and> length (cp_zone_slots c) = 5 \<and>
     cp_compressions c = [1, 10, 100, 1000, 1] \<and>
     0 < cp_tick_size c \<and> 1000 * cp_tick_size c \<le> i64_max \<and>
     0 < cp_mid_price c \<and> cp_mid_price c \<le> i64_max \<and>
     0 < cp_thresholds c ! 0 \<and> cp_thresholds c ! 0 < cp_thresholds c ! 1 \<and>
     cp_thresholds c ! 1 < cp_thresholds c ! 2 \<and> cp_thresholds c ! 2 < cp_thresholds c ! 3 \<and>
     cp_thresholds c ! 3 \<le> i64_max \<and>
     (\<forall>z\<in>{..<4}. 2 \<le> cp_zone_slots c ! z) \<and> cp_zone_slots c ! 4 = 2 \<and>
     cp_base_indices c ! 0 = 0 \<and>
     (\<forall>z\<in>{..<4}. cp_base_indices c ! Suc z = cp_base_indices c ! z + cp_zone_slots c ! z) \<and>
     cp_base_indices c ! 4 + 2 < NONE \<and>
     (\<forall>z\<in>{..<4}. (cp_thresholds c ! z - zone_start_of c z) div raw_of c z < 4294967296) \<and>
     cp_thresholds c ! 0 \<le> int (half_of c 0) * cp_tick_size c"

text \<open>The slot of a price in a regular map, without the machine arithmetic.\<close>

definition dist_of :: "compression_map \<Rightarrow> i64 \<Rightarrow> i64" where
  "dist_of c p = \<bar>p - cp_mid_price c\<bar>"

definition offset_of :: "compression_map \<Rightarrow> nat \<Rightarrow> i64 \<Rightarrow> nat" where
  "offset_of c z d = min (nat ((d - zone_start_of c z) div raw_of c z)) (half_of c z - 1)"

definition slot_index :: "compression_map \<Rightarrow> i64 \<Rightarrow> nat" where
  "slot_index c p =
     (let z = zone_of c (dist_of c p); b = cp_base_indices c ! z; h = half_of c z; k = offset_of c z (dist_of c p)
      in if z = 4 then b + (if cp_mid_price c \<le> p then 0 else 1)
         else if cp_mid_price c \<le> p then b + h + k else b + (h - 1 - k))"

definition region_of :: "compression_map \<Rightarrow> i64 \<Rightarrow> nat" where
  "region_of c p = (if cp_mid_price c \<le> p then 5 + zone_of c (dist_of c p) else 4 - zone_of c (dist_of c p))"

definition price_range :: "i64 \<Rightarrow> bool" where
  "price_range p \<longleftrightarrow> 0 < p \<and> p \<le> i64_max"

section \<open>Zones and offsets\<close>

lemma zone_of_le4: "zone_of c d \<le> 4"
  by (simp add: zone_of_def)

lemma zone_of_cases:
  assumes "comp_ok c"
  shows "(zone_of c d = 0 \<and> d < cp_thresholds c ! 0) \<or>
    (zone_of c d = 1 \<and> cp_thresholds c ! 0 \<le> d \<and> d < cp_thresholds c ! 1) \<or>
    (zone_of c d = 2 \<and> cp_thresholds c ! 1 \<le> d \<and> d < cp_thresholds c ! 2) \<or>
    (zone_of c d = 3 \<and> cp_thresholds c ! 2 \<le> d \<and> d < cp_thresholds c ! 3) \<or>
    (zone_of c d = 4 \<and> cp_thresholds c ! 3 \<le> d)"
  using assms by (auto simp: comp_ok_def zone_of_def)

lemma zone_of_mono: "comp_ok c \<Longrightarrow> d \<le> e \<Longrightarrow> zone_of c d \<le> zone_of c e"
  by (auto simp: zone_of_def comp_ok_def)

lemma zone_bounds:
  assumes "comp_ok c" and "0 \<le> d" and "zone_of c d = z" and "z < 4"
  shows "zone_start_of c z \<le> d" and "d < cp_thresholds c ! z"
  using zone_of_cases [OF assms(1), of d] assms by (auto simp: zone_start_of_def)

lemma raw_of_pos: "comp_ok c \<Longrightarrow> z < 4 \<Longrightarrow> 0 < raw_of c z \<and> raw_of c z \<le> 1000 * cp_tick_size c"
  by (auto simp: raw_of_def comp_ok_def less_Suc_eq numeral_eq_Suc)

lemma less4_cases: "z < 4 \<Longrightarrow> z = 0 \<or> z = 1 \<or> z = 2 \<or> z = (3::nat)"
  by auto

lemma half_pos: "comp_ok c \<Longrightarrow> z < 4 \<Longrightarrow> 1 \<le> half_of c z"
  by (auto simp: comp_ok_def half_of_def dest!: bspec [where x = z])

lemma offset_lt_half: "comp_ok c \<Longrightarrow> z < 4 \<Longrightarrow> offset_of c z d < half_of c z"
  using half_pos [of c z] by (simp add: offset_of_def)

lemma offset_mono:
  assumes "comp_ok c" "z < 4" "d \<le> e"
  shows "offset_of c z d \<le> offset_of c z e"
proof -
  have "(d - zone_start_of c z) div raw_of c z \<le> (e - zone_start_of c z) div raw_of c z"
    using raw_of_pos [OF assms(1,2)] assms(3) by (intro zdiv_mono1) auto
  then show ?thesis by (auto simp: offset_of_def)
qed

lemma bases:
  assumes "comp_ok c"
  shows "cp_base_indices c ! 0 = 0"
    and "cp_base_indices c ! 1 = cp_base_indices c ! 0 + cp_zone_slots c ! 0"
    and "cp_base_indices c ! 2 = cp_base_indices c ! 1 + cp_zone_slots c ! 1"
    and "cp_base_indices c ! 3 = cp_base_indices c ! 2 + cp_zone_slots c ! 2"
    and "cp_base_indices c ! 4 = cp_base_indices c ! 3 + cp_zone_slots c ! 3"
  using assms by (auto simp: comp_ok_def numeral_eq_Suc lessThan_Suc)

lemma base_top:
  assumes "comp_ok c" and "z \<le> 4"
  shows "cp_base_indices c ! z + cp_zone_slots c ! z \<le> cp_base_indices c ! 4 + 2"
    and "cp_base_indices c ! 4 + 2 < NONE"
proof -
  show "cp_base_indices c ! 4 + 2 < NONE" using assms by (simp add: comp_ok_def)
  have "cp_zone_slots c ! 4 = 2" using assms by (simp add: comp_ok_def)
  moreover have "z = 0 \<or> z = 1 \<or> z = 2 \<or> z = 3 \<or> z = 4" using assms(2) by auto
  ultimately show "cp_base_indices c ! z + cp_zone_slots c ! z \<le> cp_base_indices c ! 4 + 2"
    using bases [OF assms(1)] by auto
qed

section \<open>The index computes the slot\<close>

lemma dist_facts:
  assumes "comp_ok c" and "price_range p"
  shows "i64_sub p (cp_mid_price c) = p - cp_mid_price c"
    and "abs_capped (p - cp_mid_price c) = dist_of c p"
    and "0 \<le> dist_of c p" and "dist_of c p \<le> i64_max"
proof -
  have mid: "0 < cp_mid_price c" "cp_mid_price c \<le> i64_max" using assms(1) by (simp_all add: comp_ok_def)
  show "i64_sub p (cp_mid_price c) = p - cp_mid_price c"
    using mid assms(2) by (intro i64_sub_id) (auto simp: price_range_def in_i64_def i64_bounds)
  show "0 \<le> dist_of c p" by (simp add: dist_of_def)
  show le: "dist_of c p \<le> i64_max" using mid assms(2) by (auto simp: dist_of_def price_range_def)
  then show "abs_capped (p - cp_mid_price c) = dist_of c p"
    by (simp add: abs_capped_def dist_of_def min_def)
qed

lemma offset_machine:
  assumes "comp_ok c" and "0 \<le> d" and "zone_of c d = z" and "z < 4"
  shows "div_by (i64_sub d (zone_start_of c z)) (i64_mul (int (cp_compressions c ! z)) (cp_tick_size c)) =
      Some ((d - zone_start_of c z) div raw_of c z)"
    and "min (i64_as_u32 ((d - zone_start_of c z) div raw_of c z)) (half_of c z - 1) = offset_of c z d"
proof -
  have raw: "0 < raw_of c z" "raw_of c z \<le> i64_max"
    using raw_of_pos [OF assms(1,4)] assms(1) by (auto simp: comp_ok_def)
  have comp: "int (cp_compressions c ! z) * cp_tick_size c = raw_of c z"
    using assms(1) less4_cases [OF assms(4)] by (auto simp: comp_ok_def raw_of_def)
  have d: "zone_start_of c z \<le> d" "d < cp_thresholds c ! z" using zone_bounds [OF assms] by auto
  have st: "0 \<le> zone_start_of c z" "cp_thresholds c ! z \<le> i64_max"
    using less4_cases [OF assms(4)] assms(1) by (auto simp: zone_start_of_def comp_ok_def)
  have sub: "i64_sub d (zone_start_of c z) = d - zone_start_of c z"
    using d st assms(2) by (intro i64_sub_id) (auto simp: in_i64_def i64_bounds)
  have mul: "i64_mul (int (cp_compressions c ! z)) (cp_tick_size c) = raw_of c z"
    using raw comp by (subst i64_mul_id) (auto simp: in_i64_def i64_bounds)
  show "div_by (i64_sub d (zone_start_of c z)) (i64_mul (int (cp_compressions c ! z)) (cp_tick_size c)) =
      Some ((d - zone_start_of c z) div raw_of c z)"
    using raw d by (simp add: sub mul div_by_def sdiv_nonneg)
  have "(d - zone_start_of c z) div raw_of c z \<le> (cp_thresholds c ! z - zone_start_of c z) div raw_of c z"
    using raw d by (intro zdiv_mono1) auto
  also have "\<dots> < 4294967296" using assms(1,4) by (simp add: comp_ok_def)
  finally have "(d - zone_start_of c z) div raw_of c z < 4294967296" .
  then show "min (i64_as_u32 ((d - zone_start_of c z) div raw_of c z)) (half_of c z - 1) = offset_of c z d"
    using raw d by (simp add: offset_of_def i64_as_u32_id pos_imp_zdiv_nonneg_iff)
qed

lemma price_to_index_slot:
  assumes "comp_ok c" and "price_range p"
  shows "price_to_index c p = Some (slot_index c p)"
proof (cases "zone_of c (dist_of c p) = 4")
  case True
  have "cp_base_indices c ! 4 + 1 < 4294967296"
    using base_top(2) [OF assms(1), of 0] by (simp add: NONE_def)
  with True show ?thesis
    using dist_facts [OF assms] by (auto simp: price_to_index_def slot_index_def u32_add_id Let_def)
next
  case False
  define z where "z = zone_of c (dist_of c p)"
  have z: "z < 4" using False zone_of_le4 [of c "dist_of c p"] by (simp add: z_def)
  note off = offset_machine [OF assms(1) dist_facts(3) [OF assms] z_def [symmetric] z]
  have h: "1 \<le> half_of c z" "offset_of c z (dist_of c p) < half_of c z"
    using half_pos [OF assms(1) z] offset_lt_half [OF assms(1) z] by auto
  have top: "cp_base_indices c ! z + 2 * half_of c z < 4294967295"
    using base_top [OF assms(1), of z] z by (simp add: half_of_def NONE_def)
  have up: "u32_add (u32_add (cp_base_indices c ! z) (half_of c z)) (offset_of c z (dist_of c p)) =
      cp_base_indices c ! z + half_of c z + offset_of c z (dist_of c p)"
    using top h by (simp add: u32_add_def)
  have down: "u32_sub (u32_sub (u32_add (cp_base_indices c ! z) (half_of c z)) 1) (offset_of c z (dist_of c p)) =
      cp_base_indices c ! z + (half_of c z - 1 - offset_of c z (dist_of c p))"
    using top h by (simp add: u32_add_id u32_sub_id)
  show ?thesis
    using z h dist_facts [OF assms] off up down
    by (simp add: price_to_index_def slot_index_def Let_def z_def [symmetric] half_of_def [symmetric])
qed

lemma slot_index_bound:
  assumes "comp_ok c"
  shows "slot_index c p < cp_base_indices c ! 4 + 2"
proof -
  define z where "z = zone_of c (dist_of c p)"
  have "z \<le> 4" by (simp add: z_def zone_of_le4)
  then consider "z = 4" | "z < 4" by linarith
  then show ?thesis
  proof cases
    case 1 then show ?thesis by (simp add: slot_index_def z_def [symmetric] Let_def)
  next
    case 2
    have "cp_base_indices c ! z + 2 * half_of c z \<le> cp_base_indices c ! 4 + 2"
      using base_top [OF assms, of z] \<open>z \<le> 4\<close> by (simp add: half_of_def)
    then show ?thesis
      using 2 offset_lt_half [OF assms 2, of "dist_of c p"]
      by (auto simp: slot_index_def z_def [symmetric] Let_def)
  qed
qed

lemma total_slots_ok: "comp_ok c \<Longrightarrow> total_slots c = cp_base_indices c ! 4 + 2"
proof -
  assume ok: "comp_ok c"
  have "length (cp_zone_slots c) = 5" using ok by (simp add: comp_ok_def)
  then obtain a b d e f where zs: "cp_zone_slots c = [a, b, d, e, f]"
    by (auto simp: length_Suc_conv numeral_eq_Suc)
  have "f = 2" using ok zs by (simp add: comp_ok_def)
  then show ?thesis using bases [OF ok] base_top(2) [OF ok, of 0] zs
    by (simp add: total_slots_def u32_add_def NONE_def)
qed

section \<open>The ladder contract\<close>

text \<open>
  What the book needs of a price map: the ranges are disjoint and in price order. The two client
  lemmas say that the first occupied slot in range order holds the lowest price and the last one
  the highest, whatever the map.
\<close>

locale price_ladder =
  fixes ok :: "'c \<Rightarrow> bool"
    and ranges :: "'c \<Rightarrow> (nat \<times> nat) list"
    and slot :: "'c \<Rightarrow> int \<Rightarrow> nat"
    and region :: "'c \<Rightarrow> int \<Rightarrow> nat"
  assumes region_bound: "ok c \<Longrightarrow> region c p < length (ranges c)"
    and slot_in_region: "ok c \<Longrightarrow>
      fst (ranges c ! region c p) \<le> slot c p \<and> slot c p < snd (ranges c ! region c p)"
    and ranges_disjoint: "ok c \<Longrightarrow> i < length (ranges c) \<Longrightarrow> j < length (ranges c) \<Longrightarrow>
      fst (ranges c ! i) \<le> x \<Longrightarrow> x < snd (ranges c ! i) \<Longrightarrow>
      fst (ranges c ! j) \<le> x \<Longrightarrow> x < snd (ranges c ! j) \<Longrightarrow> i = j"
    and region_mono: "ok c \<Longrightarrow> p \<le> q \<Longrightarrow> region c p \<le> region c q"
    and slot_mono: "ok c \<Longrightarrow> p \<le> q \<Longrightarrow> region c p = region c q \<Longrightarrow> slot c p \<le> slot c q"
begin

lemma region_unique:
  assumes "ok c" "i < length (ranges c)" "fst (ranges c ! i) \<le> slot c p" "slot c p < snd (ranges c ! i)"
  shows "region c p = i"
  using ranges_disjoint [OF assms(1) region_bound [OF assms(1)] assms(2), of p "slot c p"]
    slot_in_region [OF assms(1)] assms by auto

lemma lowest_slot_lowest_price:
  assumes "ok c" and "i < length (ranges c)"
    and "fst (ranges c ! i) \<le> slot c p" and "slot c p < snd (ranges c ! i)"
    and earlier: "\<And>j. j < i \<Longrightarrow> \<not> (fst (ranges c ! j) \<le> slot c q \<and> slot c q < snd (ranges c ! j))"
    and least: "fst (ranges c ! i) \<le> slot c q \<Longrightarrow> slot c q < snd (ranges c ! i) \<Longrightarrow> slot c p \<le> slot c q"
    and "slot c q \<noteq> slot c p"
  shows "p < q"
proof (rule ccontr)
  assume "\<not> p < q"
  then have "q \<le> p" by simp
  have p: "region c p = i" by (rule region_unique [OF assms(1-4)])
  have "region c q \<le> i" using region_mono [OF assms(1) \<open>q \<le> p\<close>] p by simp
  moreover have "\<not> region c q < i" using earlier slot_in_region [OF assms(1), of q] by blast
  ultimately have "region c q = i" by simp
  then have "slot c q \<le> slot c p" "slot c p \<le> slot c q"
    using slot_mono [OF assms(1) \<open>q \<le> p\<close>] least slot_in_region [OF assms(1), of q] p by auto
  with assms(7) show False by simp
qed

lemma highest_slot_highest_price:
  assumes "ok c" and "i < length (ranges c)"
    and "fst (ranges c ! i) \<le> slot c p" and "slot c p < snd (ranges c ! i)"
    and later: "\<And>j. i < j \<Longrightarrow> j < length (ranges c) \<Longrightarrow>
      \<not> (fst (ranges c ! j) \<le> slot c q \<and> slot c q < snd (ranges c ! j))"
    and greatest: "fst (ranges c ! i) \<le> slot c q \<Longrightarrow> slot c q < snd (ranges c ! i) \<Longrightarrow> slot c q \<le> slot c p"
    and "slot c q \<noteq> slot c p"
  shows "q < p"
proof (rule ccontr)
  assume "\<not> q < p"
  then have "p \<le> q" by simp
  have p: "region c p = i" by (rule region_unique [OF assms(1-4)])
  have "i \<le> region c q" using region_mono [OF assms(1) \<open>p \<le> q\<close>] p by simp
  moreover have "\<not> i < region c q"
    using later slot_in_region [OF assms(1), of q] region_bound [OF assms(1), of q] by blast
  ultimately have "region c q = i" by simp
  then have "slot c p \<le> slot c q" "slot c q \<le> slot c p"
    using slot_mono [OF assms(1) \<open>p \<le> q\<close>] greatest slot_in_region [OF assms(1), of q] p by auto
  with assms(7) show False by simp
qed

end

text \<open>The ten ranges of a regular map.\<close>

definition region_range :: "compression_map \<Rightarrow> nat \<Rightarrow> nat \<times> nat" where
  "region_range c r =
     (if r = 0 then (cp_base_indices c ! 4 + 1, cp_base_indices c ! 4 + 2)
      else if r < 5 then (cp_base_indices c ! (4 - r), cp_base_indices c ! (4 - r) + half_of c (4 - r))
      else if r < 9 then (cp_base_indices c ! (r - 5) + half_of c (r - 5), cp_base_indices c ! (r - 5) + cp_zone_slots c ! (r - 5))
      else (cp_base_indices c ! 4, cp_base_indices c ! 4 + 1))"

lemma upt_0_10: "[0..<10] = [0, 1, 2, 3, 4, 5, 6, 7, 8, 9::nat]"
  by code_simp

lemma half_slots: "comp_ok c \<Longrightarrow> z < 4 \<Longrightarrow> half_of c z < cp_zone_slots c ! z"
  by (auto simp: comp_ok_def half_of_def dest!: bspec [where x = z])

lemma half_twice: "2 * half_of c z \<le> cp_zone_slots c ! z"
  by (simp add: half_of_def)

lemma u32_add_base:
  assumes "comp_ok c" "z \<le> 4" "k \<le> cp_zone_slots c ! z"
  shows "u32_add (cp_base_indices c ! z) k = cp_base_indices c ! z + k"
  using base_top [OF assms(1,2)] assms(3) by (simp add: u32_add_id NONE_def)

lemma bid_region_ok: "comp_ok c \<Longrightarrow> z < 4 \<Longrightarrow> bid_region c z = (cp_base_indices c ! z, cp_base_indices c ! z + half_of c z)"
  using half_pos [of c z] half_slots [of c z]
  by (simp add: bid_region_def Let_def half_of_def [symmetric] u32_add_base)

lemma ask_region_ok: "comp_ok c \<Longrightarrow> z < 4 \<Longrightarrow>
  ask_region c z = (cp_base_indices c ! z + half_of c z, cp_base_indices c ! z + cp_zone_slots c ! z)"
  using half_pos [of c z] half_slots [of c z]
  by (simp add: ask_region_def Let_def half_of_def [symmetric] u32_add_base)

lemma region4_ok:
  assumes "comp_ok c"
  shows "bid_region c 4 = (cp_base_indices c ! 4 + 1, cp_base_indices c ! 4 + 2)"
    and "ask_region c 4 = (cp_base_indices c ! 4, cp_base_indices c ! 4 + 1)"
proof -
  have "cp_zone_slots c ! 4 = 2" using assms by (simp add: comp_ok_def)
  then show "bid_region c 4 = (cp_base_indices c ! 4 + 1, cp_base_indices c ! 4 + 2)"
    and "ask_region c 4 = (cp_base_indices c ! 4, cp_base_indices c ! 4 + 1)"
    using u32_add_base [OF assms, of 4] by (simp_all add: bid_region_def ask_region_def Let_def)
qed

lemma build_price_asc_ok:
  assumes "comp_ok c"
  shows "build_price_asc c = map (region_range c) [0..<10]"
proof -
  have h: "0 < half_of c 0" "0 < half_of c 1" "0 < half_of c 2" "0 < half_of c 3"
    using half_pos [OF assms] by (auto simp: Suc_le_eq)
  have s: "half_of c 0 < cp_zone_slots c ! 0" "half_of c 1 < cp_zone_slots c ! 1"
    "half_of c 2 < cp_zone_slots c ! 2" "half_of c 3 < cp_zone_slots c ! 3"
    using half_slots [OF assms] by auto
  have five: "[0..<5] = [0, 1, 2, 3, 4::nat]" by code_simp
  show ?thesis
    using h s unfolding build_price_asc_def upt_0_10 five
    by (simp add: region_range_def region4_ok [OF assms] bid_region_ok [OF assms] ask_region_ok [OF assms])
qed

lemma less10_cases: "r < 10 \<Longrightarrow> r = 0 \<or> r = 1 \<or> r = 2 \<or> r = 3 \<or> r = 4 \<or> r = 5 \<or> r = 6 \<or> r = 7 \<or> r = 8 \<or> r = (9::nat)"
  by auto

lemma region_ranges_disjoint:
  assumes "comp_ok c" "i < 10" "j < 10"
    and "fst (region_range c i) \<le> x" "x < snd (region_range c i)"
    and "fst (region_range c j) \<le> x" "x < snd (region_range c j)"
  shows "i = j"
  using less10_cases [OF assms(2)] less10_cases [OF assms(3)] assms(4-) bases [OF assms(1)]
    half_twice [of c 0] half_twice [of c 1] half_twice [of c 2] half_twice [of c 3]
  by (elim disjE) (simp_all add: region_range_def)

lemma region_of_lt: "region_of c p < 10"
  using zone_of_le4 [of c "dist_of c p"] by (auto simp: region_of_def)

lemma slot_index_in_range:
  assumes "comp_ok c"
  shows "fst (region_range c (region_of c p)) \<le> slot_index c p \<and> slot_index c p < snd (region_range c (region_of c p))"
proof -
  define z where "z = zone_of c (dist_of c p)"
  have "z \<le> 4" by (simp add: z_def zone_of_le4)
  then consider "z = 4" | "z < 4" by linarith
  then show ?thesis
  proof cases
    case 1
    then show ?thesis by (simp add: slot_index_def region_of_def region_range_def z_def [symmetric] Let_def)
  next
    case 2
    have k: "offset_of c z (dist_of c p) < half_of c z" by (rule offset_lt_half [OF assms 2])
    with 2 half_twice [of c z] show ?thesis
      by (auto simp: slot_index_def region_of_def region_range_def z_def [symmetric] Let_def)
  qed
qed

lemma region_of_mono:
  assumes "comp_ok c" "p \<le> q"
  shows "region_of c p \<le> region_of c q"
proof -
  consider "q < cp_mid_price c" | "cp_mid_price c \<le> p" | "p < cp_mid_price c" "cp_mid_price c \<le> q"
    using assms(2) by linarith
  then show ?thesis
  proof cases
    case 1
    then have "dist_of c q \<le> dist_of c p" using assms(2) by (simp add: dist_of_def)
    from zone_of_mono [OF assms(1) this] show ?thesis using 1 assms(2) by (simp add: region_of_def)
  next
    case 2
    then have "dist_of c p \<le> dist_of c q" using assms(2) by (simp add: dist_of_def)
    from zone_of_mono [OF assms(1) this] show ?thesis using 2 assms(2) by (simp add: region_of_def)
  qed (simp add: region_of_def)
qed

lemma slot_index_mono:
  assumes "comp_ok c" "p \<le> q" "region_of c p = region_of c q"
  shows "slot_index c p \<le> slot_index c q"
proof -
  have le4: "zone_of c (dist_of c p) \<le> 4" "zone_of c (dist_of c q) \<le> 4" by (simp_all add: zone_of_le4)
  then have side: "cp_mid_price c \<le> p \<longleftrightarrow> cp_mid_price c \<le> q" and z: "zone_of c (dist_of c p) = zone_of c (dist_of c q)"
    using assms(3) by (auto simp: region_of_def split: if_splits)
  define z where "z = zone_of c (dist_of c q)"
  consider "z = 4" | "z < 4" using le4 by (fastforce simp: z_def)
  then show ?thesis
  proof cases
    case 1
    then show ?thesis using side z by (simp add: slot_index_def z_def Let_def)
  next
    case 2
    show ?thesis
    proof (cases "cp_mid_price c \<le> q")
      case True
      then have "offset_of c z (dist_of c p) \<le> offset_of c z (dist_of c q)"
        using assms(2) side by (intro offset_mono [OF assms(1) 2]) (simp add: dist_of_def)
      with True 2 side z show ?thesis by (simp add: slot_index_def z_def Let_def)
    next
      case False
      then have "offset_of c z (dist_of c q) \<le> offset_of c z (dist_of c p)"
        using assms(2) side by (intro offset_mono [OF assms(1) 2]) (simp add: dist_of_def)
      with False 2 side z show ?thesis by (simp add: slot_index_def z_def Let_def)
    qed
  qed
qed

interpretation comp_ladder: price_ladder comp_ok build_price_asc slot_index region_of
proof unfold_locales
  fix c p q i j x
  assume ok: "comp_ok c"
  note asc = build_price_asc_ok [OF ok]
  have nth: "r < 10 \<Longrightarrow> map (region_range c) [0..<10] ! r = region_range c r" for r by simp
  show "region_of c p < length (build_price_asc c)" by (simp add: asc region_of_lt)
  show "fst (build_price_asc c ! region_of c p) \<le> slot_index c p \<and> slot_index c p < snd (build_price_asc c ! region_of c p)"
    using slot_index_in_range [OF ok, of p] by (simp only: asc nth [OF region_of_lt])
  show "i < length (build_price_asc c) \<Longrightarrow> j < length (build_price_asc c) \<Longrightarrow>
      fst (build_price_asc c ! i) \<le> x \<Longrightarrow> x < snd (build_price_asc c ! i) \<Longrightarrow>
      fst (build_price_asc c ! j) \<le> x \<Longrightarrow> x < snd (build_price_asc c ! j) \<Longrightarrow> i = j"
    using region_ranges_disjoint [OF ok, of i j x] by (simp add: asc)
  show "p \<le> q \<Longrightarrow> region_of c p \<le> region_of c q" by (rule region_of_mono [OF ok])
  show "p \<le> q \<Longrightarrow> region_of c p = region_of c q \<Longrightarrow> slot_index c p \<le> slot_index c q"
    by (rule slot_index_mono [OF ok])
qed

section \<open>Construction\<close>

text \<open>The mid prices for which \<open>CompressionMap::new\<close> builds a regular map, in ticks and in raw units.\<close>

definition regular_mid :: "i64 \<Rightarrow> i64 \<Rightarrow> bool" where
  "regular_mid mid_price tick_size \<longleftrightarrow>
     0 < tick_size \<and> 5000 * tick_size \<le> mid_price \<and> mid_price \<le> 10000000000 * tick_size \<and>
     mid_price \<le> 184467440737095516"

lemma pct_of_regular:
  assumes "regular_mid mid tick" and "0 < p" and "p \<le> 50"
  shows "pct_of mid p = mid * p div 100"
proof -
  have mid: "0 < mid" "mid \<le> 184467440737095516" using assms(1) by (auto simp: regular_mid_def)
  have "mid * p \<le> 184467440737095516 * 50" using mid assms(2,3) by (intro mult_mono) auto
  moreover have "0 \<le> mid * p" using mid assms(2) by simp
  ultimately have "in_i64 (mid * p)" by (simp add: in_i64_iff)
  then show ?thesis using mid assms(2) by (simp add: pct_of_def checked_mul_def try64_def sdiv_nonneg)
qed

text \<open>The slot counts of the zones as mathematical integers.\<close>

lemma compression_new_regular_counts:
  fixes mid t :: int
  assumes "regular_mid mid t"
  defines "p0 \<equiv> mid * 5 div 100" and "p1 \<equiv> mid * 15 div 100" and "p2 \<equiv> mid * 30 div 100" and "p3 \<equiv> mid * 50 div 100"
  defines "z0 \<equiv> (p0 + t - 1) div t * 2" and "z1 \<equiv> (p1 - p0) * 2 div (10 * t)"
    and "z2 \<equiv> (p2 - p1) * 2 div (100 * t)" and "z3 \<equiv> (p3 - p2) * 2 div (1000 * t)"
  shows "250 * t \<le> p0" "p0 < p1" "p1 < p2" "p2 < p3" "p3 \<le> 5000000000 * t" "p3 < 100000000000000000" "p0 \<le> 500000000 * t"
    and "2 \<le> z0" "2 \<le> z1" "2 \<le> z2" "2 \<le> z3"
    and "z0 + z1 + z2 + z3 + 2 < 4294967295" and "2 * p0 \<le> z0 * t"
proof -
  have t: "0 < t" "5000 * t \<le> mid" "mid \<le> 10000000000 * t" "mid \<le> 184467440737095516"
    using assms(1) by (auto simp: regular_mid_def)
  show p: "250 * t \<le> p0" "p0 < p1" "p1 < p2" "p2 < p3" "p3 \<le> 5000000000 * t" "p3 < 100000000000000000" "p0 \<le> 500000000 * t"
    using t unfolding p0_def p1_def p2_def p3_def by linarith+
  have q: "100 * p0 \<le> mid * 5" "mid * 5 < 100 * p0 + 100" "100 * p1 \<le> mid * 15" "mid * 15 < 100 * p1 + 100"
    "100 * p2 \<le> mid * 30" "mid * 30 < 100 * p2 + 100" "100 * p3 \<le> mid * 50" "mid * 50 < 100 * p3 + 100"
    unfolding p0_def p1_def p2_def p3_def by linarith+
  have d1: "500 * t \<le> p1 - p0" and d2: "750 * t \<le> p2 - p1" and d3: "1000 * t \<le> p3 - p2"
    using t(1,2) q by linarith+
  have h0: "p0 \<le> (p0 + t - 1) div t * t" "(p0 + t - 1) div t * t \<le> p0 + t - 1"
    using t(1) div_mult_mod_eq [of "p0 + t - 1" t] pos_mod_bound [of t "p0 + t - 1"]
      pos_mod_sign [of t "p0 + t - 1"] by linarith+
  show "2 * p0 \<le> z0 * t" using h0(1) by (simp add: z0_def algebra_simps)
  have "1 * t \<le> (p0 + t - 1) div t * t" using h0(1) p(1) t(1) by linarith
  then have "1 \<le> (p0 + t - 1) div t" using t(1) mult_right_le_imp_le by blast
  then show z0: "2 \<le> z0" by (simp add: z0_def)
  show z1: "2 \<le> z1" using d1 t(1) zdiv_mono1 [of "2 * (10 * t)" "(p1 - p0) * 2" "10 * t"] by (simp add: z1_def)
  show z2: "2 \<le> z2" using d2 t(1) zdiv_mono1 [of "2 * (100 * t)" "(p2 - p1) * 2" "100 * t"] by (simp add: z2_def)
  show z3: "2 \<le> z3" using d3 t(1) zdiv_mono1 [of "2 * (1000 * t)" "(p3 - p2) * 2" "1000 * t"] by (simp add: z3_def)
  have "z1 * (10 * t) \<le> (p1 - p0) * 2" "z2 * (100 * t) \<le> (p2 - p1) * 2" "z3 * (1000 * t) \<le> (p3 - p2) * 2"
    unfolding z1_def z2_def z3_def using t(1) by (intro div_times_le; simp)+
  then have u: "z0 * t \<le> 2 * p0 + 2 * t" "10 * (z1 * t) \<le> (p1 - p0) * 2" "100 * (z2 * t) \<le> (p2 - p1) * 2"
    "1000 * (z3 * t) \<le> (p3 - p2) * 2"
    using h0(2) by (simp_all add: z0_def algebra_simps)
  have "p1 - p0 \<le> 1000000000 * t + 1" "p2 - p1 \<le> 1500000000 * t + 1" "p3 - p2 \<le> 2000000000 * t + 1"
    using t unfolding p0_def p1_def p2_def p3_def by linarith+
  then have "(z0 + z1 + z2 + z3) * t < 2000000000 * t"
    using u p(7) t(1) by (simp add: distrib_right)
  then have "z0 + z1 + z2 + z3 < 2000000000"
    using t(1) by (simp add: mult_less_cancel_right)
  then show "z0 + z1 + z2 + z3 + 2 < 4294967295" by simp
qed

lemma div_by_pos: "0 \<le> a \<Longrightarrow> 0 < b \<Longrightarrow> div_by a b = Some (a div b)"
  by (simp add: div_by_def sdiv_nonneg)

lemma compression_new_regular:
  assumes "regular_mid mid t"
  shows "\<exists>c. compression_new mid t = Some c \<and> comp_ok c \<and> cp_mid_price c = mid \<and> cp_tick_size c = t"
proof -
  define p0 p1 p2 p3 where p_def: "p0 = mid * 5 div 100" "p1 = mid * 15 div 100" "p2 = mid * 30 div 100" "p3 = mid * 50 div 100"
  define z0 z1 z2 z3 where z_def: "z0 = (p0 + t - 1) div t * 2" "z1 = (p1 - p0) * 2 div (10 * t)"
    "z2 = (p2 - p1) * 2 div (100 * t)" "z3 = (p3 - p2) * 2 div (1000 * t)"
  note cnt = compression_new_regular_counts [OF assms, folded p_def, folded z_def]
  have t: "0 < t" "5000 * t \<le> mid" "mid \<le> 184467440737095516" using assms by (auto simp: regular_mid_def)
  have pct: "pct_of mid 5 = p0" "pct_of mid 15 = p1" "pct_of mid 30 = p2" "pct_of mid 50 = p3"
    using pct_of_regular [OF assms] by (simp_all add: p_def)
  have i64: "i64_add p0 t = p0 + t" "i64_sub (p0 + t) 1 = p0 + t - 1" "i64_mul ((p0 + t - 1) div t) 2 = z0"
    "i64_sub p1 p0 = p1 - p0" "i64_mul (p1 - p0) 2 = (p1 - p0) * 2" "i64_mul 10 t = 10 * t"
    "i64_sub p2 p1 = p2 - p1" "i64_mul (p2 - p1) 2 = (p2 - p1) * 2" "i64_mul 100 t = 100 * t"
    "i64_sub p3 p2 = p3 - p2" "i64_mul (p3 - p2) 2 = (p3 - p2) * 2" "i64_mul 1000 t = 1000 * t"
    using cnt t by (simp_all add: i64_add_id i64_sub_id i64_mul_id in_i64_iff z_def(1) del: mult_2_right)
  define c where "c = \<lparr>cp_mid_price = mid, cp_thresholds = [p0, p1, p2, p3], cp_compressions = [1, 10, 100, 1000, 1],
    cp_base_indices = [0, nat z0, nat z0 + nat z1, nat z0 + nat z1 + nat z2, nat z0 + nat z1 + nat z2 + nat z3],
    cp_zone_slots = [nat z0, nat z1, nat z2, nat z3, 2], cp_tick_size = t\<rparr>"
  have casts: "i64_as_u32 z0 = nat z0" "i64_as_u32 z1 = nat z1" "i64_as_u32 z2 = nat z2" "i64_as_u32 z3 = nat z3"
    using cnt by (simp_all add: i64_as_u32_id)
  have adds: "u32_add (nat z0) (nat z1) = nat z0 + nat z1" "u32_add (nat z0 + nat z1) (nat z2) = nat z0 + nat z1 + nat z2"
    "u32_add (nat z0 + nat z1 + nat z2) (nat z3) = nat z0 + nat z1 + nat z2 + nat z3"
    using cnt by (simp_all add: u32_add_id nat_add_distrib [symmetric] nat_less_iff)
  have divs: "div_by (p0 + t - 1) t = Some ((p0 + t - 1) div t)" "div_by ((p1 - p0) * 2) (10 * t) = Some z1"
    "div_by ((p2 - p1) * 2) (100 * t) = Some z2" "div_by ((p3 - p2) * 2) (1000 * t) = Some z3"
    using cnt t by (simp_all add: div_by_pos z_def)
  have maxes: "max t 1 = t" "max p0 0 = p0" "max z0 0 = z0" "max z1 0 = z1" "max z2 0 = z2" "max z3 0 = z3"
    using t cnt by simp_all
  have new: "compression_new mid t = Some c"
    by (simp only: compression_new_def pct maxes i64 divs casts adds c_def Let_def Option.bind.simps)
  have "4 = Suc (Suc (Suc (Suc 0)))" by simp
  then have four: "{..<4} = {0, 1, 2, 3::nat}" by (auto simp: lessThan_Suc)
  have bound: "p0 div t < 4294967296" "(p1 - p0) div (10 * t) < 4294967296" "(p2 - p1) div (100 * t) < 4294967296"
    "(p3 - p2) div (1000 * t) < 4294967296"
    using cnt t(1) by (intro div_less_of_less_mult; linarith)+
  have half: "p0 \<le> int (nat z0 div 2) * t"
  proof -
    have "int (nat z0 div 2) = (p0 + t - 1) div t"
      using cnt by (simp add: z_def(1) nat_mult_distrib zdiv_int)
    then show ?thesis using cnt(13) by (simp add: z_def(1))
  qed
  have nats: "Suc (Suc 0) \<le> nat z0" "Suc (Suc 0) \<le> nat z1" "Suc (Suc 0) \<le> nat z2" "Suc (Suc 0) \<le> nat z3"
    "nat z0 + nat z1 + nat z2 + nat z3 < 4294967293"
    using cnt by linarith+
  have "comp_ok c"
    using cnt t bound half nats
    by (simp add: comp_ok_def c_def four zone_start_of_def raw_of_def half_of_def i64_max_def NONE_def nat_le_iff
        numeral_2_eq_2 numeral_3_eq_3)
  with new show ?thesis by (auto simp: c_def)
qed

section \<open>Zone 0 is one price per slot\<close>

lemma zone0_slot:
  assumes "comp_ok c" and "slot_index c p < cp_zone_slots c ! 0"
  shows "zone_of c (dist_of c p) = 0"
proof (rule ccontr)
  let ?z = "zone_of c (dist_of c p)"
  assume "?z \<noteq> 0"
  then have "cp_base_indices c ! 1 \<le> cp_base_indices c ! ?z"
    using zone_of_le4 [of c "dist_of c p"] bases [OF assms(1)] by (auto simp: le_Suc_eq numeral_eq_Suc)
  moreover have "cp_base_indices c ! ?z \<le> slot_index c p"
    by (auto simp: slot_index_def Let_def)
  ultimately show False using assms(2) bases(1,2) [OF assms(1)] by simp
qed

lemma zone0_offset:
  assumes "comp_ok c" and "0 \<le> d" and "zone_of c d = 0"
  shows "offset_of c 0 d = nat (d div cp_tick_size c)"
proof -
  have t: "0 < cp_tick_size c" "cp_thresholds c ! 0 \<le> int (half_of c 0) * cp_tick_size c"
    using assms(1) by (simp_all add: comp_ok_def)
  have "d < cp_thresholds c ! 0" using zone_bounds(2) [OF assms] by simp
  then have "d div cp_tick_size c < int (half_of c 0)"
    using t by (intro div_less_of_less_mult) auto
  moreover have "0 \<le> d div cp_tick_size c" using assms(2) t by (simp add: pos_imp_zdiv_nonneg_iff)
  ultimately show ?thesis by (simp add: offset_of_def zone_start_of_def raw_of_def min_def nat_le_iff)
qed

lemma eq_of_div_eq_dvd:
  assumes "0 < t" and "a div t = b div t" and "t dvd a - b" shows "a = (b::int)"
proof -
  have "a mod t = b mod t" using assms(3) by (simp add: mod_eq_dvd_iff)
  then show ?thesis using assms(2) div_mult_mod_eq [of a t] div_mult_mod_eq [of b t] by metis
qed

lemma zone0_inj:
  assumes "comp_ok c" and "slot_index c p < cp_zone_slots c ! 0" and "slot_index c p = slot_index c q"
    and "cp_tick_size c dvd p" and "cp_tick_size c dvd q"
  shows "p = q"
proof -
  have z: "zone_of c (dist_of c p) = 0" "zone_of c (dist_of c q) = 0"
    using zone0_slot [OF assms(1)] assms(2,3) by auto
  have reg: "region_of c p = region_of c q"
    using comp_ladder.region_unique [OF assms(1) comp_ladder.region_bound [OF assms(1), of p], of q]
      comp_ladder.slot_in_region [OF assms(1), of p] assms(3) by simp
  then have side: "cp_mid_price c \<le> p \<longleftrightarrow> cp_mid_price c \<le> q"
    using z by (auto simp: region_of_def split: if_splits)
  have t: "0 < cp_tick_size c" using assms(1) by (simp add: comp_ok_def)
  have d: "0 \<le> dist_of c p" "0 \<le> dist_of c q" by (simp_all add: dist_of_def)
  have lt: "offset_of c 0 (dist_of c p) < half_of c 0" "offset_of c 0 (dist_of c q) < half_of c 0"
    using offset_lt_half [OF assms(1)] by auto
  have "offset_of c 0 (dist_of c p) = offset_of c 0 (dist_of c q)"
    using assms(3) side z lt by (auto simp: slot_index_def Let_def split: if_splits)
  then have "dist_of c p div cp_tick_size c = dist_of c q div cp_tick_size c"
    using zone0_offset [OF assms(1)] z d t by (simp add: eq_nat_nat_iff pos_imp_zdiv_nonneg_iff)
  moreover have "cp_tick_size c dvd dist_of c p - dist_of c q"
    using side assms(4,5) by (auto simp: dist_of_def)
  ultimately have "dist_of c p = dist_of c q" by (rule eq_of_div_eq_dvd [OF t])
  with side show ?thesis by (auto simp: dist_of_def)
qed

section \<open>Properties\<close>

text \<open>\<open>CompressionMap::new\<close> does not panic and loses no bits in its casts for a mid price between
  5000 and ten billion ticks, and then every positive price has a slot: \<open>price_to_index\<close> returns an
  index below \<open>total_slots\<close>, which is below the sentinel.\<close>

theorem price_to_index_total:
  assumes "regular_mid mid tick" and "0 < price" and "price \<le> i64_max"
  shows "\<exists>c i. compression_new mid tick = Some c \<and> price_to_index c price = Some i \<and>
    i < total_slots c \<and> total_slots c < NONE"
proof -
  obtain c where c: "compression_new mid tick = Some c" "comp_ok c"
    using compression_new_regular [OF assms(1)] by blast
  have "price_to_index c price = Some (slot_index c price)"
    using assms(2,3) by (intro price_to_index_slot [OF c(2)]) (simp add: price_range_def)
  then show ?thesis
    using c slot_index_bound [OF c(2), of price] base_top(2) [OF c(2), of 0] by (simp add: total_slots_ok)
qed

theorem price_to_index_total_witness:
  "\<exists>c i. compression_new 5000000 100 = Some c \<and> price_to_index c 7 = Some i \<and> i < total_slots c \<and> total_slots c < NONE"
  by (rule price_to_index_total) (simp_all add: regular_mid_def i64_max_def)

text \<open>near the mid a slot holds one price. In zone 0 two tick-aligned prices that share a slot are
  equal, so the FIFO queue of a zone-0 slot is the queue of one price.\<close>

theorem zone0_one_price_per_slot:
  assumes "regular_mid mid tick" and "compression_new mid tick = Some c"
    and "0 < p" "p \<le> i64_max" "tick dvd p" and "0 < q" "q \<le> i64_max" "tick dvd q"
    and "price_to_index c p = Some i" and "price_to_index c q = Some i" and "i < cp_zone_slots c ! 0"
  shows "p = q"
proof -
  have ok: "comp_ok c" "cp_tick_size c = tick" using compression_new_regular [OF assms(1)] assms(2) by auto
  have "slot_index c p = i" "slot_index c q = i"
    using price_to_index_slot [OF ok(1)] assms by (auto simp: price_range_def)
  then show ?thesis using zone0_inj [OF ok(1), of p q] ok(2) assms by simp
qed

theorem zone0_one_price_per_slot_witness:
  "\<exists>c i. compression_new 5000 1 = Some c \<and> price_to_index c 5003 = Some i \<and> i < cp_zone_slots c ! 0 \<and>
     (\<forall>q \<in> {5003}. price_to_index c q = Some i \<and> (5003::int) = q)"
proof -
  have reg: "regular_mid 5000 1" by (simp add: regular_mid_def)
  obtain c where c: "compression_new 5000 1 = Some c" using compression_new_regular [OF reg] by blast
  have "case compression_new 5000 1 of None \<Rightarrow> False | Some c \<Rightarrow> price_to_index c 5003 = Some 253 \<and> 253 < cp_zone_slots c ! 0"
    by code_simp
  then have i: "price_to_index c 5003 = Some 253" "253 < cp_zone_slots c ! 0" using c by auto
  have "(5003::int) = 5003"
    by (rule zone0_one_price_per_slot [OF reg c _ _ _ _ _ _ i(1) i(1) i(2)]) (simp_all add: i64_max_def)
  with c i show ?thesis by blast
qed

text \<open>the ranges of \<open>build_price_asc\<close> are in price order despite the sawtooth. If the first
  range that contains the slot of \<open>q\<close> comes after the range of the slot of \<open>p\<close>, or they share the range
  and the slot of \<open>p\<close> is lower, then \<open>p < q\<close>: walking the ranges forwards visits prices in ascending order.\<close>

theorem price_asc_orders_prices:
  assumes "regular_mid mid tick" and "compression_new mid tick = Some c"
    and "0 < p" "p \<le> i64_max" and "0 < q" "q \<le> i64_max"
    and "price_to_index c p = Some s" and "price_to_index c q = Some t"
    and "i \<le> j" and "j < length (build_price_asc c)"
    and "fst (build_price_asc c ! i) \<le> s" "s < snd (build_price_asc c ! i)"
    and "fst (build_price_asc c ! j) \<le> t" "t < snd (build_price_asc c ! j)"
    and "i = j \<longrightarrow> s < t"
  shows "p < q"
proof -
  have ok: "comp_ok c" using compression_new_regular [OF assms(1)] assms(2) by auto
  have s: "slot_index c p = s" "slot_index c q = t"
    using price_to_index_slot [OF ok] assms by (auto simp: price_range_def)
  have r: "region_of c p = i" "region_of c q = j"
    using comp_ladder.region_unique [OF ok] assms(9-14) s by auto
  show ?thesis
  proof (rule ccontr)
    assume "\<not> p < q"
    then have "q \<le> p" by simp
    then have "j \<le> i" using comp_ladder.region_mono [OF ok, of q p] r by simp
    with assms(9,15) have "i = j" "s < t" by auto
    with comp_ladder.slot_mono [OF ok \<open>q \<le> p\<close>] r s show False by simp
  qed
qed

theorem price_asc_orders_prices_witness:
  "\<exists>c. compression_new 5000 1 = Some c \<and> price_to_index c 3000 = Some 615 \<and> price_to_index c 5003 = Some 253 \<and>
     (3000::int) < 5003"
proof -
  have reg: "regular_mid 5000 1" by (simp add: regular_mid_def)
  obtain c where c: "compression_new 5000 1 = Some c" using compression_new_regular [OF reg] by blast
  have "case compression_new 5000 1 of None \<Rightarrow> False | Some c \<Rightarrow>
      price_to_index c 3000 = Some 615 \<and> price_to_index c 5003 = Some 253 \<and>
      build_price_asc c ! 1 = (615, 616) \<and> build_price_asc c ! 5 = (250, 500) \<and> 5 < length (build_price_asc c)"
    by code_simp
  then have i: "price_to_index c 3000 = Some 615" "price_to_index c 5003 = Some 253"
    "build_price_asc c ! 1 = (615, 616)" "build_price_asc c ! 5 = (250, 500)" "5 < length (build_price_asc c)"
    using c by auto
  have "(3000::int) < 5003"
    by (rule price_asc_orders_prices [OF reg c _ _ _ _ i(1,2), of 1 5]) (simp_all add: i64_max_def i [simplified])
  with c i show ?thesis by blast
qed

end
