(* ===== verification/Occupancy.thy ===== *)
theory Occupancy
  imports Compression
begin

text \<open>
  \<open>rsx-book/src/occupancy.rs\<close>: a set of slots as a bitmap of 64-bit words with summary levels, so
  that the next or previous set slot is found by climbing to a summary word and descending again.
  \<open>chain_ok\<close> is the representation invariant (bit \<open>w\<close> of a level is set iff word \<open>w\<close> of the level below
  is not zero; the top level is one word), \<open>members\<close> the set it stands for. The promise to the book is
  the locale \<open>slot_set\<close>; together with \<open>price_ladder\<close> it gives \<open>best_slot\<close>, in which the scan for the
  best price is proved once for both sides.

  \<open>i >> 6\<close> and \<open>i & 63\<close> on an index are written as quotient and remainder by 64.
\<close>

unbundle bit_operations_syntax

section \<open>Definitions\<close>

type_synonym word_row = "64 word list"

record occupancy =
  occ_levels :: "word_row list"
  occ_n :: u32

definition words_for :: "nat \<Rightarrow> nat" where
  "words_for cnt = max ((cnt + 63) div 64) 1"

function occ_build :: "nat \<Rightarrow> word_row list" where
  "occ_build cnt =
     (let words = words_for cnt
      in replicate words 0 # (if words = 1 then [] else occ_build words))"
  by pat_completeness auto
termination
  by (relation "measure id") (auto simp: words_for_def)

declare occ_build.simps [simp del]

definition occupancy_new :: "u32 \<Rightarrow> occupancy" where
  "occupancy_new n = \<lparr>occ_levels = occ_build n, occ_n = n\<rparr>"

definition occ_len :: "occupancy \<Rightarrow> u32" where "occ_len oc = occ_n oc"
definition occ_is_empty :: "occupancy \<Rightarrow> bool" where "occ_is_empty oc \<longleftrightarrow> occ_n oc = 0"

text \<open>The masks \<open>1u64 << bit\<close>, \<open>u64::MAX << off\<close> and the one of \<open>find_prev\<close> with the bits up to \<open>off\<close>.\<close>

definition bit_at :: "nat \<Rightarrow> 64 word" where "bit_at k = push_bit k 1"
definition mask_from :: "nat \<Rightarrow> 64 word" where "mask_from k = push_bit k (-1)"
definition mask_upto :: "nat \<Rightarrow> 64 word" where
  "mask_upto off = (if off = 63 then -1 else push_bit (off + 1) 1 - 1)"

fun set_levels :: "word_row list \<Rightarrow> nat \<Rightarrow> word_row list option" where
  "set_levels [] i = Some []"
| "set_levels (level # rest) i = do {
     let w = i div 64;
     prev \<leftarrow> index_of level w;
     let level' = level[w := prev OR bit_at (i mod 64)];
     if prev \<noteq> 0 then Some (level' # rest)
     else do { rest' \<leftarrow> set_levels rest w; Some (level' # rest') }
   }"

definition occ_set :: "occupancy \<Rightarrow> u32 \<Rightarrow> occupancy option" where
  "occ_set oc i = do { ls \<leftarrow> set_levels (occ_levels oc) i; Some (oc\<lparr>occ_levels := ls\<rparr>) }"

fun clear_levels :: "word_row list \<Rightarrow> nat \<Rightarrow> word_row list option" where
  "clear_levels [] i = Some []"
| "clear_levels (level # rest) i = do {
     let w = i div 64;
     prev \<leftarrow> index_of level w;
     let now = prev AND NOT (bit_at (i mod 64));
     let level' = level[w := now];
     if now \<noteq> 0 then Some (level' # rest)
     else do { rest' \<leftarrow> clear_levels rest w; Some (level' # rest') }
   }"

definition occ_clear :: "occupancy \<Rightarrow> u32 \<Rightarrow> occupancy option" where
  "occ_clear oc i = do { ls \<leftarrow> clear_levels (occ_levels oc) i; Some (oc\<lparr>occ_levels := ls\<rparr>) }"

text \<open>\<open>u64::trailing_zeros\<close> and \<open>u64::leading_zeros\<close>.\<close>

definition trailing_zeros :: "64 word \<Rightarrow> nat" where
  "trailing_zeros w = length (takeWhile (\<lambda>i. \<not> bit w i) [0..<64])"

definition leading_zeros :: "64 word \<Rightarrow> nat" where
  "leading_zeros w = length (takeWhile (\<lambda>i. \<not> bit w (63 - i)) [0..<64])"

text \<open>
  The climb of \<open>find_next\<close> from level \<open>lvl\<close> on; its result is the level and the bit index where a
  candidate was found. \<open>Some None\<close> is "no set slot", the outer \<open>None\<close> a failed bounds check.
\<close>

fun climb_next :: "word_row list \<Rightarrow> nat \<Rightarrow> nat \<Rightarrow> (nat \<times> nat) option option" where
  "climb_next [] lvl idx = Some None"
| "climb_next (level # rest) lvl idx =
     (let w = idx div 64 in
      if w \<ge> length level then Some None
      else let masked = (level ! w) AND mask_from (idx mod 64) in
        if masked \<noteq> 0 then Some (Some (lvl, w * 64 + trailing_zeros masked))
        else climb_next rest (Suc lvl) (w + 1))"

fun descend_next :: "word_row list \<Rightarrow> nat \<Rightarrow> nat \<Rightarrow> nat option" where
  "descend_next levels 0 pos = Some pos"
| "descend_next levels (Suc lvl) pos = do {
     level \<leftarrow> index_of levels lvl;
     w \<leftarrow> index_of level pos;
     descend_next levels lvl (pos * 64 + trailing_zeros w)
   }"

definition find_next :: "occupancy \<Rightarrow> u32 \<Rightarrow> u32 option option" where
  "find_next oc from =
     (if from \<ge> occ_n oc then Some None
      else do {
        found \<leftarrow> climb_next (occ_levels oc) 0 from;
        case found of
          None \<Rightarrow> Some None
        | Some (lvl, pos) \<Rightarrow> do { p \<leftarrow> descend_next (occ_levels oc) lvl pos; Some (Some p) }
      })"

fun climb_prev :: "word_row list \<Rightarrow> nat \<Rightarrow> nat \<Rightarrow> (nat \<times> nat) option option" where
  "climb_prev [] lvl idx = Some None"
| "climb_prev (level # rest) lvl idx = do {
     let w = idx div 64;
     let off = idx mod 64;
     word \<leftarrow> index_of level w;
     let masked = word AND mask_upto off;
     if masked \<noteq> 0 then Some (Some (lvl, w * 64 + (63 - leading_zeros masked)))
     else if w = 0 then Some None
     else climb_prev rest (Suc lvl) (w - 1)
   }"

fun descend_prev :: "word_row list \<Rightarrow> nat \<Rightarrow> nat \<Rightarrow> nat option" where
  "descend_prev levels 0 pos = Some pos"
| "descend_prev levels (Suc lvl) pos = do {
     level \<leftarrow> index_of levels lvl;
     w \<leftarrow> index_of level pos;
     descend_prev levels lvl (pos * 64 + (63 - leading_zeros w))
   }"

definition find_prev :: "occupancy \<Rightarrow> u32 \<Rightarrow> u32 option option" where
  "find_prev oc from =
     (if occ_n oc = 0 then Some None
      else do {
        found \<leftarrow> climb_prev (occ_levels oc) 0 (min from (occ_n oc - 1));
        case found of
          None \<Rightarrow> Some None
        | Some (lvl, pos) \<Rightarrow> do { p \<leftarrow> descend_prev (occ_levels oc) lvl pos; Some (Some p) }
      })"

definition find_first_in :: "occupancy \<Rightarrow> u32 \<Rightarrow> u32 \<Rightarrow> u32 option option" where
  "find_first_in oc lo hi =
     (if lo \<ge> hi then Some None
      else do {
        r \<leftarrow> find_next oc lo;
        Some (case r of Some b \<Rightarrow> (if b < hi then Some b else None) | None \<Rightarrow> None)
      })"

definition find_last_in :: "occupancy \<Rightarrow> u32 \<Rightarrow> u32 \<Rightarrow> u32 option option" where
  "find_last_in oc lo hi =
     (if lo \<ge> hi then Some None
      else do {
        r \<leftarrow> find_prev oc (hi - 1);
        Some (case r of Some b \<Rightarrow> (if b \<ge> lo then Some b else None) | None \<Rightarrow> None)
      })"

section \<open>Bits of a row\<close>

definition bits_of :: "word_row \<Rightarrow> nat set" where
  "bits_of L = {x. x div 64 < length L \<and> bit (L ! (x div 64)) (x mod 64)}"

definition nonzero_words :: "word_row \<Rightarrow> nat set" where
  "nonzero_words L = {w. w < length L \<and> L ! w \<noteq> 0}"

fun chain_ok :: "word_row list \<Rightarrow> bool" where
  "chain_ok [] \<longleftrightarrow> False"
| "chain_ok [L] \<longleftrightarrow> length L = 1"
| "chain_ok (L # M # rest) \<longleftrightarrow>
     length M = words_for (length L) \<and> bits_of M = nonzero_words L \<and> chain_ok (M # rest)"

definition members :: "occupancy \<Rightarrow> nat set" where
  "members oc = bits_of (hd (occ_levels oc))"

definition occ_ok :: "occupancy \<Rightarrow> bool" where
  "occ_ok oc \<longleftrightarrow> chain_ok (occ_levels oc) \<and> length (hd (occ_levels oc)) = words_for (occ_n oc) \<and>
     members oc \<subseteq> {..<occ_n oc}"

lemma words_for_bound: "i < n \<Longrightarrow> i div 64 < words_for n"
  by (simp add: words_for_def)

lemma word_neq_0_bit: "w \<noteq> 0 \<longleftrightarrow> (\<exists>b<64. bit w b)" for w :: "64 word"
proof -
  have "w = 0" if "\<forall>b<64. \<not> bit w b" using that by (intro bit_word_eqI) simp
  then show ?thesis by auto
qed

lemma bit_bit_at: "bit (bit_at k) b \<longleftrightarrow> b = k \<and> b < 64"
  by (auto simp: bit_at_def bit_simps)

lemma bit_mask_from: "bit (w AND mask_from k) b \<longleftrightarrow> bit w b \<and> k \<le> b"
  using bit_imp_le_length [of w b] by (auto simp: mask_from_def bit_simps)

lemma bit_mask_upto:
  assumes "k < 64"
  shows "bit (w AND mask_upto k) b \<longleftrightarrow> bit w b \<and> b \<le> k"
proof -
  have "bit w b \<Longrightarrow> b < 64" using bit_imp_le_length [of w b] by simp
  moreover have "push_bit (k + 1) 1 - 1 = (mask (k + 1) :: 64 word)"
    by (simp add: mask_eq_exp_minus_1 push_bit_eq_mult)
  ultimately show ?thesis using assms by (auto simp: mask_upto_def bit_simps less_Suc_eq_le simp del: push_bit_of_1)
qed

lemma bits_of_I: "w < length L \<Longrightarrow> b < 64 \<Longrightarrow> bit (L ! w) b \<Longrightarrow> w * 64 + b \<in> bits_of L"
  by (simp add: bits_of_def)

lemma nonzero_words_bits: "w \<in> nonzero_words L \<longleftrightarrow> (\<exists>b<64. w * 64 + b \<in> bits_of L)"
  by (auto simp: nonzero_words_def word_neq_0_bit bits_of_def)

lemma bits_of_div: "x \<in> bits_of L \<Longrightarrow> x div 64 \<in> nonzero_words L"
  by (auto simp: bits_of_def nonzero_words_def)

lemma bits_of_bound: "x \<in> bits_of L \<Longrightarrow> x < 64 * length L"
  by (auto simp: bits_of_def)

lemma bits_of_replicate [simp]: "bits_of (replicate n 0) = {}"
  by (auto simp: bits_of_def)

lemma div_mod_64_eq: "x = i \<longleftrightarrow> x div 64 = i div 64 \<and> x mod 64 = i mod (64::nat)"
  by (metis div_mult_mod_eq)

lemma bits_of_set:
  assumes "i div 64 < length L"
  shows "bits_of (L[i div 64 := (L ! (i div 64)) OR bit_at (i mod 64)]) = insert i (bits_of L)"
  using assms by (auto simp: bits_of_def nth_list_update bit_simps bit_bit_at div_mod_64_eq [of _ i])

lemma bits_of_clear:
  assumes "i div 64 < length L"
  shows "bits_of (L[i div 64 := (L ! (i div 64)) AND NOT (bit_at (i mod 64))]) = bits_of L - {i}"
  using assms by (auto simp: bits_of_def nth_list_update bit_simps bit_bit_at div_mod_64_eq [of _ i])

section \<open>Set and clear\<close>

lemma set_levels_ok:
  assumes "chain_ok (L # R)" and "i < 64 * length L"
  shows "\<exists>L' R'. set_levels (L # R) i = Some (L' # R') \<and> chain_ok (L' # R') \<and>
    bits_of L' = insert i (bits_of L) \<and> length L' = length L"
  using assms
proof (induction R arbitrary: L i)
  case Nil
  let ?L = "L[i div 64 := (L ! (i div 64)) OR bit_at (i mod 64)]"
  have w: "i div 64 < length L" using Nil by auto
  have "set_levels [L] i = Some [?L]" by (simp add: Let_def index_of_Some [OF w])
  with bits_of_set [OF w] Nil.prems(1) show ?case by simp
next
  case (Cons M R)
  let ?w = "i div 64" and ?L = "L[i div 64 := (L ! (i div 64)) OR bit_at (i mod 64)]"
  have w: "?w < length L" using Cons.prems by auto
  have L: "bits_of ?L = insert i (bits_of L)" "length ?L = length L" using bits_of_set [OF w] by auto
  have nz: "nonzero_words ?L = insert ?w (nonzero_words L)"
    by (auto simp: nonzero_words_bits L(1)) (metis div_mult_mod_eq mod_less_divisor zero_less_numeral)
  show ?case
  proof (cases "L ! ?w = 0")
    case False
    then have "?w \<in> nonzero_words L" using w by (simp add: nonzero_words_def)
    with False w L nz Cons.prems show ?thesis by (auto simp: Let_def index_of_Some insert_absorb)
  next
    case True
    have "?w < 64 * length M" using Cons.prems w words_for_bound [OF w] by auto
    then obtain M' R' where "set_levels (M # R) ?w = Some (M' # R')" "chain_ok (M' # R')"
      "bits_of M' = insert ?w (bits_of M)" "length M' = length M"
      using Cons.IH [of M ?w] Cons.prems by auto
    with True w L nz Cons.prems show ?thesis by (auto simp: Let_def index_of_Some)
  qed
qed

lemma clear_levels_ok:
  assumes "chain_ok (L # R)" and "i < 64 * length L"
  shows "\<exists>L' R'. clear_levels (L # R) i = Some (L' # R') \<and> chain_ok (L' # R') \<and>
    bits_of L' = bits_of L - {i} \<and> length L' = length L"
  using assms
proof (induction R arbitrary: L i)
  case Nil
  let ?L = "L[i div 64 := (L ! (i div 64)) AND NOT (bit_at (i mod 64))]"
  have w: "i div 64 < length L" using Nil by auto
  have "clear_levels [L] i = Some [?L]" by (simp add: Let_def index_of_Some [OF w])
  with bits_of_clear [OF w] Nil.prems(1) show ?case by simp
next
  case (Cons M R)
  let ?w = "i div 64" and ?now = "(L ! (i div 64)) AND NOT (bit_at (i mod 64))"
  let ?L = "L[i div 64 := ?now]"
  have w: "?w < length L" using Cons.prems by auto
  have L: "bits_of ?L = bits_of L - {i}" "length ?L = length L" using bits_of_clear [OF w] by auto
  show ?case
  proof (cases "?now = 0")
    case False
    then have "nonzero_words ?L = nonzero_words L"
      using w by (auto simp: nonzero_words_def nth_list_update split: if_splits)
    with False w L Cons.prems show ?thesis by (auto simp: Let_def index_of_Some)
  next
    case True
    then have nz: "nonzero_words ?L = nonzero_words L - {?w}"
      using w by (auto simp: nonzero_words_def nth_list_update split: if_splits)
    have "?w < 64 * length M" using Cons.prems w words_for_bound [OF w] by auto
    then obtain M' R' where "clear_levels (M # R) ?w = Some (M' # R')" "chain_ok (M' # R')"
      "bits_of M' = bits_of M - {?w}" "length M' = length M"
      using Cons.IH [of M ?w] Cons.prems by auto
    with True w L nz Cons.prems show ?thesis by (auto simp: Let_def index_of_Some)
  qed
qed

lemma occ_ok_Cons: "occ_ok oc \<Longrightarrow> \<exists>L R. occ_levels oc = L # R"
  by (cases "occ_levels oc") (auto simp: occ_ok_def)

lemma words_for_covers: "i < n \<Longrightarrow> i < 64 * words_for n"
  by (simp add: words_for_def)

lemma occ_set_ok:
  assumes "occ_ok oc" and "i < occ_n oc"
  shows "\<exists>oc'. occ_set oc i = Some oc' \<and> occ_ok oc' \<and> members oc' = insert i (members oc) \<and> occ_n oc' = occ_n oc"
proof -
  obtain L R where LR: "occ_levels oc = L # R" using occ_ok_Cons [OF assms(1)] by blast
  have "i < 64 * length L" using assms LR words_for_covers by (auto simp: occ_ok_def)
  from set_levels_ok [OF _ this, of R] assms LR show ?thesis
    by (auto simp: occ_ok_def occ_set_def members_def)
qed

lemma occ_clear_ok:
  assumes "occ_ok oc" and "i < occ_n oc"
  shows "\<exists>oc'. occ_clear oc i = Some oc' \<and> occ_ok oc' \<and> members oc' = members oc - {i} \<and> occ_n oc' = occ_n oc"
proof -
  obtain L R where LR: "occ_levels oc = L # R" using occ_ok_Cons [OF assms(1)] by blast
  have "i < 64 * length L" using assms LR words_for_covers by (auto simp: occ_ok_def)
  from clear_levels_ok [OF _ this, of R] assms LR show ?thesis
    by (auto simp: occ_ok_def occ_clear_def members_def)
qed

lemma chain_ok_build: "chain_ok (occ_build n) \<and> hd (occ_build n) = replicate (words_for n) 0"
proof (induction n rule: occ_build.induct)
  case (1 n)
  show ?case
  proof (cases "words_for n = 1")
    case True
    then show ?thesis by (simp add: occ_build.simps [of n] Let_def)
  next
    case False
    then have IH: "chain_ok (occ_build (words_for n))" "hd (occ_build (words_for n)) = replicate (words_for (words_for n)) 0"
      using "1.IH" by auto
    then obtain R where "occ_build (words_for n) = replicate (words_for (words_for n)) 0 # R"
      by (cases "occ_build (words_for n)") auto
    with False IH(1) show ?thesis
      by (simp add: occ_build.simps [of n] Let_def) (auto simp: nonzero_words_def)
  qed
qed

lemma occupancy_new_ok: "occ_ok (occupancy_new n)" "members (occupancy_new n) = {}" "occ_n (occupancy_new n) = n"
  using chain_ok_build [of n] by (simp_all add: occ_ok_def occupancy_new_def members_def)

section \<open>Finding the next set slot\<close>

definition is_next :: "nat set \<Rightarrow> nat \<Rightarrow> nat option \<Rightarrow> bool" where
  "is_next S from r \<longleftrightarrow> (case r of
     None \<Rightarrow> \<forall>x\<in>S. x < from
   | Some p \<Rightarrow> p \<in> S \<and> from \<le> p \<and> (\<forall>x\<in>S. from \<le> x \<longrightarrow> p \<le> x))"

definition is_prev :: "nat set \<Rightarrow> nat \<Rightarrow> nat option \<Rightarrow> bool" where
  "is_prev S from r \<longleftrightarrow> (case r of
     None \<Rightarrow> \<forall>x\<in>S. from < x
   | Some p \<Rightarrow> p \<in> S \<and> p \<le> from \<and> (\<forall>x\<in>S. x \<le> from \<longrightarrow> x \<le> p))"

lemma takeWhile_upt_first:
  assumes "\<exists>i<n. P i"
  shows "length (takeWhile (\<lambda>i. \<not> P i) [0..<n]) < n \<and> P (length (takeWhile (\<lambda>i. \<not> P i) [0..<n])) \<and>
    (\<forall>i < length (takeWhile (\<lambda>i. \<not> P i) [0..<n]). \<not> P i)"
proof -
  let ?t = "takeWhile (\<lambda>i. \<not> P i) [0..<n]"
  have "?t \<noteq> [0..<n]" using assms by (metis atLeast0LessThan lessThan_iff set_takeWhileD set_upt)
  then have lt: "length ?t < n"
    by (metis diff_zero length_takeWhile_le length_upt less_le takeWhile_eq_take take_all_iff order_refl)
  then have "P ([0..<n] ! length ?t)"
    using nth_length_takeWhile [of "\<lambda>i. \<not> P i" "[0..<n]"] by simp
  moreover have "\<not> P i" if "i < length ?t" for i
  proof -
    have "[0..<n] ! i = ?t ! i" using that by (simp add: takeWhile_nth)
    then show ?thesis using that lt nth_mem [OF that] set_takeWhileD by fastforce
  qed
  ultimately show ?thesis using lt by simp
qed

lemma trailing_zeros_least:
  assumes "w \<noteq> 0"
  shows "trailing_zeros w < 64" "bit w (trailing_zeros w)" "\<And>b. bit w b \<Longrightarrow> trailing_zeros w \<le> b"
proof -
  have "\<exists>i<64. bit w i" using assms word_neq_0_bit [of w] by blast
  note first = takeWhile_upt_first [OF this, folded trailing_zeros_def]
  then show "trailing_zeros w < 64" "bit w (trailing_zeros w)" by blast+
  fix b assume "bit w b"
  with first show "trailing_zeros w \<le> b" using not_le by blast
qed

lemma leading_zeros_greatest:
  assumes "w \<noteq> 0"
  shows "bit w (63 - leading_zeros w)" "\<And>b. bit w b \<Longrightarrow> b \<le> 63 - leading_zeros w"
proof -
  obtain b where "b < 64" "bit w b" using assms word_neq_0_bit [of w] by auto
  then have "\<exists>i<64. bit w (63 - i)" by (intro exI [of _ "63 - b"]) simp
  note first = takeWhile_upt_first [OF this, folded leading_zeros_def]
  then show "bit w (63 - leading_zeros w)" by simp
  fix b assume b: "bit w b"
  then have "b < 64" using bit_imp_le_length [of w b] by simp
  show "b \<le> 63 - leading_zeros w"
  proof (rule ccontr)
    assume "\<not> b \<le> 63 - leading_zeros w"
    then have "63 - b < leading_zeros w" using \<open>b < 64\<close> by linarith
    with first have "\<not> bit w (63 - (63 - b))" by blast
    with b \<open>b < 64\<close> show False by simp
  qed
qed

text \<open>Climb and descent as one recursion over the levels.\<close>

fun next_from :: "word_row list \<Rightarrow> nat \<Rightarrow> nat option" where
  "next_from [] idx = None"
| "next_from (level # rest) idx =
     (if idx div 64 \<ge> length level then None
      else if (level ! (idx div 64)) AND mask_from (idx mod 64) \<noteq> 0
      then Some (idx div 64 * 64 + trailing_zeros ((level ! (idx div 64)) AND mask_from (idx mod 64)))
      else case next_from rest (idx div 64 + 1) of
        None \<Rightarrow> None
      | Some p \<Rightarrow> Some (p * 64 + trailing_zeros (level ! p)))"

lemma div_64_less: "x < y \<Longrightarrow> x div 64 \<noteq> y div 64 \<Longrightarrow> x div 64 < y div (64::nat)"
  by (simp add: div_le_mono le_neq_implies_less)

lemma row_next:
  assumes "idx div 64 < length L" and "(L ! (idx div 64)) AND mask_from (idx mod 64) \<noteq> 0"
  shows "is_next (bits_of L) idx
    (Some (idx div 64 * 64 + trailing_zeros ((L ! (idx div 64)) AND mask_from (idx mod 64))))"
proof -
  let ?m = "(L ! (idx div 64)) AND mask_from (idx mod 64)"
  note tz = trailing_zeros_least [OF assms(2)]
  have "bit (L ! (idx div 64)) (trailing_zeros ?m)" "idx mod 64 \<le> trailing_zeros ?m"
    using tz(2) by (simp_all add: bit_mask_from)
  then have mem: "idx div 64 * 64 + trailing_zeros ?m \<in> bits_of L" and le: "idx \<le> idx div 64 * 64 + trailing_zeros ?m"
    using assms(1) tz(1) bits_of_I div_mult_mod_eq [of idx 64] by (auto, linarith)
  have "idx div 64 * 64 + trailing_zeros ?m \<le> x" if "x \<in> bits_of L" "idx \<le> x" for x
  proof (cases "x div 64 = idx div 64")
    case True
    then have "idx mod 64 \<le> x mod 64" using that(2) by (metis div_mult_mod_eq add_le_cancel_left)
    then have "bit ?m (x mod 64)" using True that(1) by (auto simp: bit_mask_from bits_of_def)
    then have "trailing_zeros ?m \<le> x mod 64" by (rule tz(3))
    then show ?thesis using True div_mult_mod_eq [of x 64] by linarith
  next
    case False
    then have "idx div 64 + 1 \<le> x div 64" using that(2) div_le_mono [of idx x 64] by simp
    then show ?thesis using tz(1) div_mult_mod_eq [of x 64] by linarith
  qed
  with mem le show ?thesis by (simp add: is_next_def)
qed

lemma row_next_skip:
  assumes "(L ! (idx div 64)) AND mask_from (idx mod 64) = 0" and "x \<in> bits_of L" and "idx \<le> x"
  shows "idx div 64 + 1 \<le> x div 64"
proof (rule ccontr)
  assume "\<not> idx div 64 + 1 \<le> x div 64"
  then have eq: "x div 64 = idx div 64" using assms(3) div_le_mono [of idx x 64] by simp
  then have "idx mod 64 \<le> x mod 64" using assms(3) by (metis div_mult_mod_eq add_le_cancel_left)
  then have "bit ((L ! (idx div 64)) AND mask_from (idx mod 64)) (x mod 64)"
    using eq assms(2) by (auto simp: bit_mask_from bits_of_def)
  with assms(1) show False by simp
qed

lemma lift_next:
  assumes skip: "\<And>x. x \<in> bits_of L \<Longrightarrow> idx \<le> x \<Longrightarrow> idx div 64 + 1 \<le> x div 64"
    and "is_next (nonzero_words L) (idx div 64 + 1) r"
  shows "is_next (bits_of L) idx (case r of None \<Rightarrow> None | Some p \<Rightarrow> Some (p * 64 + trailing_zeros (L ! p)))"
proof (cases r)
  case None
  then show ?thesis using assms bits_of_div [of _ L] by (fastforce simp: is_next_def not_less [symmetric])
next
  case (Some p)
  then have p: "p < length L" "L ! p \<noteq> 0" "idx div 64 + 1 \<le> p"
    and least: "\<And>w. w \<in> nonzero_words L \<Longrightarrow> idx div 64 + 1 \<le> w \<Longrightarrow> p \<le> w"
    using assms(2) by (auto simp: is_next_def nonzero_words_def)
  note tz = trailing_zeros_least [OF p(2)]
  have "p * 64 + trailing_zeros (L ! p) \<le> x" if x: "x \<in> bits_of L" "idx \<le> x" for x
  proof -
    have le: "p \<le> x div 64" using least [OF bits_of_div [OF x(1)] skip [OF x]] .
    show ?thesis
    proof (cases "x div 64 = p")
      case True
      then have "trailing_zeros (L ! p) \<le> x mod 64" using x(1) tz(3) by (auto simp: bits_of_def)
      then show ?thesis using True div_mult_mod_eq [of x 64] by linarith
    next
      case False
      with le have "p + 1 \<le> x div 64" by simp
      then show ?thesis using tz(1) div_mult_mod_eq [of x 64] by linarith
    qed
  qed
  moreover have "idx \<le> p * 64 + trailing_zeros (L ! p)"
    using p(3) div_mult_mod_eq [of idx 64] mod_less_divisor [of 64 idx] by linarith
  moreover have "p * 64 + trailing_zeros (L ! p) \<in> bits_of L" using p tz by (intro bits_of_I) auto
  ultimately show ?thesis using Some by (simp add: is_next_def)
qed

lemma next_from_ok: "chain_ok (L # R) \<Longrightarrow> is_next (bits_of L) idx (next_from (L # R) idx)"
proof (induction R arbitrary: L idx)
  case Nil
  show ?case
  proof (cases "idx div 64 \<ge> length L \<or> (L ! (idx div 64)) AND mask_from (idx mod 64) \<noteq> 0")
    case True
    then show ?thesis
      using row_next [of idx L] by (auto simp: is_next_def bits_of_def not_le dest: div_le_mono [of idx _ 64])
  next
    case False
    then show ?thesis using Nil row_next_skip [of L idx] by (fastforce simp: is_next_def bits_of_def not_less [symmetric])
  qed
next
  case (Cons M R)
  then have M: "bits_of M = nonzero_words L" "chain_ok (M # R)" by auto
  consider "idx div 64 \<ge> length L"
    | "idx div 64 < length L" "(L ! (idx div 64)) AND mask_from (idx mod 64) \<noteq> 0"
    | "idx div 64 < length L" "(L ! (idx div 64)) AND mask_from (idx mod 64) = 0"
    by linarith
  then show ?case
  proof cases
    case 1
    then show ?thesis by (auto simp: is_next_def bits_of_def not_le dest: div_le_mono [of idx _ 64])
  next
    case 2
    then show ?thesis using row_next [of idx L] by simp
  next
    case 3
    have "is_next (nonzero_words L) (idx div 64 + 1) (next_from (M # R) (idx div 64 + 1))"
      using Cons.IH [OF M(2), of "idx div 64 + 1"] M(1) by simp
    from lift_next [OF row_next_skip [OF 3(2)] this] 3 show ?thesis
      by (simp del: next_from.simps(2) add: next_from.simps(2) [of L])
  qed
qed

lemma next_from_word:
  assumes "chain_ok (L # M # R)" and "next_from (M # R) j = Some p"
  shows "p < length L"
proof -
  have "p \<in> bits_of M" using next_from_ok [of M R j] assms by (auto simp: is_next_def)
  then show ?thesis using assms(1) by (auto simp: nonzero_words_def)
qed

lemma climb_descend_next:
  assumes "chain_ok (L # R)" and "levels = pre @ L # R" and "k = length pre"
  shows "\<exists>f. climb_next (L # R) k idx = Some f \<and>
    (case f of None \<Rightarrow> next_from (L # R) idx = None
     | Some (lvl, pos) \<Rightarrow> \<exists>p. next_from (L # R) idx = Some p \<and>
         descend_next levels lvl pos = descend_next levels k p)"
  using assms
proof (induction R arbitrary: L pre k idx)
  case Nil
  then show ?case by (auto simp: Let_def)
next
  case (Cons M R)
  have IH: "\<exists>f. climb_next (M # R) (Suc k) j = Some f \<and>
    (case f of None \<Rightarrow> next_from (M # R) j = None
     | Some (lvl, pos) \<Rightarrow> \<exists>p. next_from (M # R) j = Some p \<and>
         descend_next levels lvl pos = descend_next levels (Suc k) p)" for j
    using Cons.IH [of M "pre @ [L]" "Suc k" j] Cons.prems by auto
  have step: "descend_next levels (Suc k) p = descend_next levels k (p * 64 + trailing_zeros (L ! p))"
    if "next_from (M # R) j = Some p" for j p
    using next_from_word [OF Cons.prems(1) that] Cons.prems(2,3) by (simp add: index_of_Some nth_append)
  show ?case
  proof (cases "idx div 64 < length L \<and> (L ! (idx div 64)) AND mask_from (idx mod 64) = 0")
    case False
    then show ?thesis by (auto simp: Let_def)
  next
    case True
    from IH [of "idx div 64 + 1"] obtain f where f: "climb_next (M # R) (Suc k) (idx div 64 + 1) = Some f"
      "case f of None \<Rightarrow> next_from (M # R) (idx div 64 + 1) = None
       | Some (lvl, pos) \<Rightarrow> \<exists>p. next_from (M # R) (idx div 64 + 1) = Some p \<and>
         descend_next levels lvl pos = descend_next levels (Suc k) p" by blast
    have "climb_next (L # M # R) k idx = Some f"
      using True f(1) by (simp add: Let_def del: climb_next.simps(2) add: climb_next.simps(2) [of L])
    moreover have "next_from (L # M # R) idx =
      (case next_from (M # R) (idx div 64 + 1) of None \<Rightarrow> None | Some p \<Rightarrow> Some (p * 64 + trailing_zeros (L ! p)))"
      using True by (simp del: next_from.simps(2) add: next_from.simps(2) [of L])
    ultimately show ?thesis using f(2) step [of "idx div 64 + 1"]
      by (auto simp del: climb_next.simps next_from.simps descend_next.simps split: option.splits)
  qed
qed

lemma find_next_ok:
  assumes "occ_ok oc"
  shows "\<exists>r. find_next oc from = Some r \<and> is_next (members oc) from r"
proof (cases "from < occ_n oc")
  case False
  then have "is_next (members oc) from None" using assms by (auto simp: is_next_def occ_ok_def)
  with False show ?thesis by (simp add: find_next_def)
next
  case True
  obtain L R where LR: "occ_levels oc = L # R" using occ_ok_Cons [OF assms] by blast
  then have ok: "chain_ok (L # R)" using assms by (simp add: occ_ok_def)
  have m: "is_next (members oc) from (next_from (L # R) from)"
    using next_from_ok [OF ok, of "from"] LR by (simp add: members_def)
  obtain f where f: "climb_next (L # R) 0 from = Some f"
    "case f of None \<Rightarrow> next_from (L # R) from = None
     | Some (lvl, pos) \<Rightarrow> \<exists>p. next_from (L # R) from = Some p \<and> descend_next (L # R) lvl pos = descend_next (L # R) 0 p"
    using climb_descend_next [OF ok, of "L # R" "[]" 0 "from"] by fastforce
  have "find_next oc from = Some (next_from (L # R) from)"
    using True LR f by (auto simp: find_next_def simp del: climb_next.simps next_from.simps split: option.splits)
  with m show ?thesis by blast
qed

section \<open>Finding the previous set slot\<close>

fun prev_from :: "word_row list \<Rightarrow> nat \<Rightarrow> nat option" where
  "prev_from [] idx = None"
| "prev_from (level # rest) idx =
     (if (level ! (idx div 64)) AND mask_upto (idx mod 64) \<noteq> 0
      then Some (idx div 64 * 64 + (63 - leading_zeros ((level ! (idx div 64)) AND mask_upto (idx mod 64))))
      else if idx div 64 = 0 then None
      else case prev_from rest (idx div 64 - 1) of
        None \<Rightarrow> None
      | Some p \<Rightarrow> Some (p * 64 + (63 - leading_zeros (level ! p))))"

lemma row_prev:
  assumes "idx div 64 < length L" and "(L ! (idx div 64)) AND mask_upto (idx mod 64) \<noteq> 0"
  shows "is_prev (bits_of L) idx
    (Some (idx div 64 * 64 + (63 - leading_zeros ((L ! (idx div 64)) AND mask_upto (idx mod 64)))))"
proof -
  let ?m = "(L ! (idx div 64)) AND mask_upto (idx mod 64)"
  let ?b = "63 - leading_zeros ?m"
  note lz = leading_zeros_greatest [OF assms(2)]
  have b: "bit (L ! (idx div 64)) ?b" "?b \<le> idx mod 64"
    using lz(1) by (simp_all add: bit_mask_upto)
  then have "idx div 64 * 64 + ?b \<in> bits_of L" using assms(1) by (intro bits_of_I) auto
  moreover have "idx div 64 * 64 + ?b \<le> idx" using b(2) div_mult_mod_eq [of idx 64] by linarith
  moreover have "x \<le> idx div 64 * 64 + ?b" if "x \<in> bits_of L" "x \<le> idx" for x
  proof (cases "x div 64 = idx div 64")
    case True
    then have "x mod 64 \<le> idx mod 64" using that(2) by (metis div_mult_mod_eq add_le_cancel_left)
    then have "bit ?m (x mod 64)" using True that(1) by (auto simp: bit_mask_upto bits_of_def)
    then have "x mod 64 \<le> ?b" by (rule lz(2))
    then show ?thesis using True div_mult_mod_eq [of x 64] by linarith
  next
    case False
    then have "x div 64 + 1 \<le> idx div 64" using that(2) div_le_mono [of x idx 64] by simp
    then show ?thesis using div_mult_mod_eq [of x 64] mod_less_divisor [of 64 x] by linarith
  qed
  ultimately show ?thesis by (simp add: is_prev_def)
qed

lemma row_prev_skip:
  assumes "(L ! (idx div 64)) AND mask_upto (idx mod 64) = 0" and "x \<in> bits_of L" and "x \<le> idx"
  shows "x div 64 < idx div 64"
proof (rule ccontr)
  assume "\<not> x div 64 < idx div 64"
  then have eq: "x div 64 = idx div 64" using assms(3) div_le_mono [of x idx 64] by simp
  then have "x mod 64 \<le> idx mod 64" using assms(3) by (metis div_mult_mod_eq add_le_cancel_left)
  then have "bit ((L ! (idx div 64)) AND mask_upto (idx mod 64)) (x mod 64)"
    using eq assms(2) by (auto simp: bit_mask_upto bits_of_def)
  with assms(1) show False by simp
qed

lemma lift_prev:
  assumes skip: "\<And>x. x \<in> bits_of L \<Longrightarrow> x \<le> idx \<Longrightarrow> x div 64 \<le> j" and j: "j < idx div 64"
    and "is_prev (nonzero_words L) j r"
  shows "is_prev (bits_of L) idx (case r of None \<Rightarrow> None | Some p \<Rightarrow> Some (p * 64 + (63 - leading_zeros (L ! p))))"
proof (cases r)
  case None
  then show ?thesis using assms bits_of_div [of _ L] by (fastforce simp: is_prev_def not_le [symmetric])
next
  case (Some p)
  then have p: "p < length L" "L ! p \<noteq> 0" "p \<le> j"
    and greatest: "\<And>w. w \<in> nonzero_words L \<Longrightarrow> w \<le> j \<Longrightarrow> w \<le> p"
    using assms(3) by (auto simp: is_prev_def nonzero_words_def)
  note lz = leading_zeros_greatest [OF p(2)]
  have "x \<le> p * 64 + (63 - leading_zeros (L ! p))" if x: "x \<in> bits_of L" "x \<le> idx" for x
  proof -
    have le: "x div 64 \<le> p" using greatest [OF bits_of_div [OF x(1)] skip [OF x]] .
    show ?thesis
    proof (cases "x div 64 = p")
      case True
      then have "x mod 64 \<le> 63 - leading_zeros (L ! p)" using x(1) lz(2) by (auto simp: bits_of_def)
      then show ?thesis using True div_mult_mod_eq [of x 64] by linarith
    next
      case False
      with le have "x div 64 + 1 \<le> p" by simp
      then show ?thesis using div_mult_mod_eq [of x 64] mod_less_divisor [of 64 x] by linarith
    qed
  qed
  moreover have "p * 64 + (63 - leading_zeros (L ! p)) \<le> idx"
    using p(3) j div_mult_mod_eq [of idx 64] by linarith
  moreover have "p * 64 + (63 - leading_zeros (L ! p)) \<in> bits_of L" using p lz(1) by (intro bits_of_I) auto
  ultimately show ?thesis using Some by (simp add: is_prev_def)
qed

lemma prev_from_ok: "chain_ok (L # R) \<Longrightarrow> idx div 64 < length L \<Longrightarrow> is_prev (bits_of L) idx (prev_from (L # R) idx)"
proof (induction R arbitrary: L idx)
  case Nil
  show ?case
  proof (cases "(L ! (idx div 64)) AND mask_upto (idx mod 64) = 0")
    case False
    then show ?thesis using row_prev [OF Nil.prems(2)] by simp
  next
    case True
    have "idx div 64 = 0" using Nil.prems by simp
    then have "\<forall>x\<in>bits_of L. \<not> x \<le> idx" using row_prev_skip [OF True] by fastforce
    with True \<open>idx div 64 = 0\<close> show ?thesis by (auto simp: is_prev_def not_le)
  qed
next
  case (Cons M R)
  then have M: "bits_of M = nonzero_words L" "chain_ok (M # R)" "length M = words_for (length L)" by auto
  consider "(L ! (idx div 64)) AND mask_upto (idx mod 64) \<noteq> 0"
    | "(L ! (idx div 64)) AND mask_upto (idx mod 64) = 0" "idx div 64 = 0"
    | "(L ! (idx div 64)) AND mask_upto (idx mod 64) = 0" "0 < idx div 64"
    by linarith
  then show ?case
  proof cases
    case 1
    then show ?thesis using row_prev [OF Cons.prems(2)] by simp
  next
    case 2
    then have "\<forall>x\<in>bits_of L. \<not> x \<le> idx" using row_prev_skip [OF 2(1)] by fastforce
    with 2 show ?thesis by (auto simp: is_prev_def not_le)
  next
    case 3
    let ?j = "idx div 64 - 1"
    have "?j div 64 < length M" using M(3) Cons.prems(2) by (auto intro!: words_for_bound)
    then have IH: "is_prev (nonzero_words L) ?j (prev_from (M # R) ?j)"
      using Cons.IH [OF M(2)] M(1) by simp
    have skip: "x \<in> bits_of L \<Longrightarrow> x \<le> idx \<Longrightarrow> x div 64 \<le> ?j" for x
      using row_prev_skip [OF 3(1)] by fastforce
    from lift_prev [OF skip _ IH] 3 show ?thesis
      by (simp del: prev_from.simps(2) add: prev_from.simps(2) [of L])
  qed
qed

lemma climb_descend_prev:
  assumes "chain_ok (L # R)" and "levels = pre @ L # R" and "k = length pre" and "idx div 64 < length L"
  shows "\<exists>f. climb_prev (L # R) k idx = Some f \<and>
    (case f of None \<Rightarrow> prev_from (L # R) idx = None
     | Some (lvl, pos) \<Rightarrow> \<exists>p. prev_from (L # R) idx = Some p \<and>
         descend_prev levels lvl pos = descend_prev levels k p)"
  using assms
proof (induction R arbitrary: L pre k idx)
  case Nil
  then have "climb_prev [L] k idx =
    Some (if (L ! (idx div 64)) AND mask_upto (idx mod 64) \<noteq> 0
      then Some (k, idx div 64 * 64 + (63 - leading_zeros ((L ! (idx div 64)) AND mask_upto (idx mod 64))))
      else None)" by (simp add: Let_def index_of_Some)
  then show ?case by auto
next
  case (Cons M R)
  let ?j = "idx div 64 - 1"
  have M: "chain_ok (M # R)" "length M = words_for (length L)" using Cons.prems(1) by auto
  have "?j div 64 < length M" using M(2) Cons.prems(4) by (auto intro!: words_for_bound)
  note IH = Cons.IH [OF M(1), of "pre @ [L]" "Suc k" ?j] and okM = prev_from_ok [OF M(1) this]
  have step: "descend_prev levels (Suc k) p = descend_prev levels k (p * 64 + (63 - leading_zeros (L ! p)))"
    if "prev_from (M # R) ?j = Some p" for p
  proof -
    have "p < length L" using that okM Cons.prems(1) by (auto simp: is_prev_def nonzero_words_def)
    then show ?thesis using Cons.prems(2,3) by (simp add: index_of_Some nth_append)
  qed
  show ?case
  proof (cases "(L ! (idx div 64)) AND mask_upto (idx mod 64) = 0 \<and> idx div 64 \<noteq> 0")
    case False
    then show ?thesis using Cons.prems(4) by (auto simp: Let_def index_of_Some)
  next
    case True
    from IH obtain f where f: "climb_prev (M # R) (Suc k) ?j = Some f"
      "case f of None \<Rightarrow> prev_from (M # R) ?j = None
       | Some (lvl, pos) \<Rightarrow> \<exists>p. prev_from (M # R) ?j = Some p \<and>
         descend_prev levels lvl pos = descend_prev levels (Suc k) p"
      using \<open>?j div 64 < length M\<close> Cons.prems(2,3) by auto
    have "climb_prev (L # M # R) k idx = Some f"
      using True f(1) Cons.prems(4)
      by (simp add: Let_def index_of_Some del: climb_prev.simps(2) add: climb_prev.simps(2) [of L])
    moreover have "prev_from (L # M # R) idx =
      (case prev_from (M # R) ?j of None \<Rightarrow> None | Some p \<Rightarrow> Some (p * 64 + (63 - leading_zeros (L ! p))))"
      using True by (simp del: prev_from.simps(2) add: prev_from.simps(2) [of L])
    ultimately show ?thesis using f(2) step
      by (auto simp del: climb_prev.simps prev_from.simps descend_prev.simps split: option.splits)
  qed
qed

lemma is_prev_cong:
  assumes "is_prev S f r" and "\<And>x. x \<in> S \<Longrightarrow> x \<le> f \<longleftrightarrow> x \<le> f'"
  shows "is_prev S f' r"
  using assms by (cases r) (auto simp: is_prev_def not_le [symmetric])

lemma find_prev_ok:
  assumes "occ_ok oc"
  shows "\<exists>r. find_prev oc from = Some r \<and> is_prev (members oc) from r"
proof (cases "occ_n oc = 0")
  case True
  then show ?thesis using assms by (auto simp: find_prev_def is_prev_def occ_ok_def)
next
  case False
  let ?f = "min from (occ_n oc - 1)"
  obtain L R where LR: "occ_levels oc = L # R" using occ_ok_Cons [OF assms] by blast
  then have ok: "chain_ok (L # R)" "length L = words_for (occ_n oc)" "members oc = bits_of L" "members oc \<subseteq> {..<occ_n oc}"
    using assms by (auto simp: occ_ok_def members_def)
  have len: "?f div 64 < length L" using False by (simp add: ok(2) words_for_bound)
  have "is_prev (members oc) ?f (prev_from (L # R) ?f)"
    using prev_from_ok [OF ok(1) len] by (simp only: ok(3))
  then have m: "is_prev (members oc) from (prev_from (L # R) ?f)"
    by (rule is_prev_cong) (use ok(4) in auto)
  obtain f where f: "climb_prev (L # R) 0 ?f = Some f"
    "case f of None \<Rightarrow> prev_from (L # R) ?f = None
     | Some (lvl, pos) \<Rightarrow> \<exists>p. prev_from (L # R) ?f = Some p \<and> descend_prev (L # R) lvl pos = descend_prev (L # R) 0 p"
    using climb_descend_prev [OF ok(1), of "L # R" "[]" 0 ?f] len by fastforce
  have "find_prev oc from = Some (prev_from (L # R) ?f)"
    using False LR f by (auto simp: find_prev_def simp del: climb_prev.simps prev_from.simps split: option.splits)
  with m show ?thesis by blast
qed

section \<open>The contract of a slot set\<close>

text \<open>The least and the greatest element of a set of slots, as an option.\<close>

definition is_least :: "nat set \<Rightarrow> nat option \<Rightarrow> bool" where
  "is_least S r \<longleftrightarrow> (case r of None \<Rightarrow> S = {} | Some b \<Rightarrow> b \<in> S \<and> (\<forall>x\<in>S. b \<le> x))"

definition is_greatest :: "nat set \<Rightarrow> nat option \<Rightarrow> bool" where
  "is_greatest S r \<longleftrightarrow> (case r of None \<Rightarrow> S = {} | Some b \<Rightarrow> b \<in> S \<and> (\<forall>x\<in>S. x \<le> b))"

lemma find_first_in_ok:
  assumes "occ_ok oc"
  shows "\<exists>r. find_first_in oc lo hi = Some r \<and> is_least (members oc \<inter> {lo..<hi}) r"
proof (cases "lo < hi")
  case False
  then show ?thesis by (simp add: find_first_in_def is_least_def)
next
  case True
  from find_next_ok [OF assms, of lo] obtain r where "find_next oc lo = Some r" "is_next (members oc) lo r" by blast
  with True show ?thesis
    by (fastforce simp: find_first_in_def is_next_def is_least_def split: option.splits)
qed

lemma find_last_in_ok:
  assumes "occ_ok oc"
  shows "\<exists>r. find_last_in oc lo hi = Some r \<and> is_greatest (members oc \<inter> {lo..<hi}) r"
proof (cases "lo < hi")
  case False
  then show ?thesis by (simp add: find_last_in_def is_greatest_def)
next
  case True
  from find_prev_ok [OF assms, of "hi - 1"] obtain r
    where r: "find_prev oc (hi - 1) = Some r" "is_prev (members oc) (hi - 1) r" by blast
  have "x \<le> hi - 1 \<longleftrightarrow> x < hi" for x using True by auto
  with True r show ?thesis
    by (fastforce simp: find_last_in_def is_prev_def is_greatest_def not_less split: option.splits)
qed

locale slot_set =
  fixes sok :: "'s \<Rightarrow> bool" and mem :: "'s \<Rightarrow> nat set" and size_of :: "'s \<Rightarrow> nat"
    and put_slot :: "'s \<Rightarrow> nat \<Rightarrow> 's option" and drop_slot :: "'s \<Rightarrow> nat \<Rightarrow> 's option"
    and first_in :: "'s \<Rightarrow> nat \<Rightarrow> nat \<Rightarrow> nat option option"
    and last_in :: "'s \<Rightarrow> nat \<Rightarrow> nat \<Rightarrow> nat option option"
  assumes put_law: "sok s \<Longrightarrow> i < size_of s \<Longrightarrow>
      \<exists>s'. put_slot s i = Some s' \<and> sok s' \<and> mem s' = insert i (mem s) \<and> size_of s' = size_of s"
    and drop_law: "sok s \<Longrightarrow> i < size_of s \<Longrightarrow>
      \<exists>s'. drop_slot s i = Some s' \<and> sok s' \<and> mem s' = mem s - {i} \<and> size_of s' = size_of s"
    and mem_bound: "sok s \<Longrightarrow> mem s \<subseteq> {..<size_of s}"
    and first_law: "sok s \<Longrightarrow> \<exists>r. first_in s lo hi = Some r \<and> is_least (mem s \<inter> {lo..<hi}) r"
    and last_law: "sok s \<Longrightarrow> \<exists>r. last_in s lo hi = Some r \<and> is_greatest (mem s \<inter> {lo..<hi}) r"
begin

text \<open>A run of insertions and removals stands for the same run on the abstract set.\<close>

definition change :: "bool \<times> nat \<Rightarrow> 's \<Rightarrow> 's option" where
  "change c s = (if fst c then put_slot s (snd c) else drop_slot s (snd c))"

fun changes :: "(bool \<times> nat) list \<Rightarrow> 's \<Rightarrow> 's option" where
  "changes [] s = Some s"
| "changes (c # cs) s = do { s' \<leftarrow> change c s; changes cs s' }"

lemma changes_refine:
  assumes "sok s" and "\<forall>c\<in>set cs. snd c < size_of s"
  shows "\<exists>s'. changes cs s = Some s' \<and> sok s' \<and> size_of s' = size_of s \<and>
    mem s' = foldl (\<lambda>S c. if fst c then insert (snd c) S else S - {snd c}) (mem s) cs"
  using assms
proof (induction cs arbitrary: s)
  case Nil
  then show ?case by simp
next
  case (Cons c cs)
  have "\<exists>s'. change c s = Some s' \<and> sok s' \<and> size_of s' = size_of s \<and>
    mem s' = (if fst c then insert (snd c) (mem s) else mem s - {snd c})"
    using Cons.prems put_law [of s "snd c"] drop_law [of s "snd c"] by (auto simp: change_def)
  then obtain s1 where s1: "change c s = Some s1" "sok s1" "size_of s1 = size_of s"
    "mem s1 = (if fst c then insert (snd c) (mem s) else mem s - {snd c})" by blast
  with Cons.IH [of s1] Cons.prems show ?case by auto
qed

end

interpretation occ_slots: slot_set occ_ok members occ_n occ_set occ_clear find_first_in find_last_in
proof unfold_locales
  show "members s \<subseteq> {..<occ_n s}" if "occ_ok s" for s using that by (simp add: occ_ok_def)
qed (fact occ_set_ok occ_clear_ok find_first_in_ok find_last_in_ok)+

section \<open>The best slot of a side\<close>

text \<open>The loop of \<open>scan_next_bid\<close> and \<open>scan_next_ask\<close>: the first hit over a list of index ranges.\<close>

fun scan_ranges :: "(nat \<Rightarrow> nat \<Rightarrow> nat option option) \<Rightarrow> (nat \<times> nat) list \<Rightarrow> nat option option" where
  "scan_ranges probe [] = Some None"
| "scan_ranges probe ((lo, hi) # rs) = do {
     r \<leftarrow> probe lo hi;
     case r of Some b \<Rightarrow> Some (Some b) | None \<Rightarrow> scan_ranges probe rs
   }"

lemma scan_ranges_ok:
  assumes "\<And>lo hi. \<exists>r. probe lo hi = Some r \<and> good (S \<inter> {lo..<hi}) r"
    and "\<And>A. good A None \<longleftrightarrow> A = {}"
  shows "\<exists>r. scan_ranges probe rs = Some r \<and> (case r of
      None \<Rightarrow> \<forall>x\<in>S. \<forall>(lo, hi)\<in>set rs. \<not> (lo \<le> x \<and> x < hi)
    | Some b \<Rightarrow> \<exists>i<length rs. good (S \<inter> {fst (rs ! i)..<snd (rs ! i)}) (Some b) \<and>
        (\<forall>j<i. \<forall>x\<in>S. \<not> (fst (rs ! j) \<le> x \<and> x < snd (rs ! j))))"
proof (induction rs)
  case Nil
  then show ?case by simp
next
  case (Cons q rs)
  obtain lo hi where q: "q = (lo, hi)" by (cases q)
  from assms(1) [of lo hi] obtain r where r: "probe lo hi = Some r" "good (S \<inter> {lo..<hi}) r" by blast
  show ?case
  proof (cases r)
    case (Some b)
    then show ?thesis using q r by (auto intro!: exI [of _ 0])
  next
    case None
    then have empty: "S \<inter> {lo..<hi} = {}" using r assms(2) by simp
    from Cons.IH obtain r' where r': "scan_ranges probe rs = Some r'" "case r' of
        None \<Rightarrow> \<forall>x\<in>S. \<forall>(lo, hi)\<in>set rs. \<not> (lo \<le> x \<and> x < hi)
      | Some b \<Rightarrow> \<exists>i<length rs. good (S \<inter> {fst (rs ! i)..<snd (rs ! i)}) (Some b) \<and>
        (\<forall>j<i. \<forall>x\<in>S. \<not> (fst (rs ! j) \<le> x \<and> x < snd (rs ! j)))" by blast
    show ?thesis
    proof (cases r')
      case None
      with r' r \<open>r = None\<close> q empty show ?thesis by auto
    next
      case (Some b)
      with r'(2) obtain i where "i < length rs" "good (S \<inter> {fst (rs ! i)..<snd (rs ! i)}) (Some b)"
        "\<forall>j<i. \<forall>x\<in>S. \<not> (fst (rs ! j) \<le> x \<and> x < snd (rs ! j))" by auto
      then have "\<exists>i<length (q # rs). good (S \<inter> {fst ((q # rs) ! i)..<snd ((q # rs) ! i)}) (Some b) \<and>
        (\<forall>j<i. \<forall>x\<in>S. \<not> (fst ((q # rs) ! j) \<le> x \<and> x < snd ((q # rs) ! j)))"
        using empty q by (intro exI [of _ "Suc i"]) (auto simp: less_Suc_eq_0_disj)
      with Some r'(1) r \<open>r = None\<close> q show ?thesis by auto
    qed
  qed
qed

locale best_slot = price_ladder ok ranges slot region + slot_set sok mem size_of put_slot drop_slot first_in last_in
  for ok :: "'c \<Rightarrow> bool" and ranges slot region
    and sok :: "'s \<Rightarrow> bool" and mem size_of put_slot drop_slot first_in last_in
begin

lemma in_some_range: "ok c \<Longrightarrow> \<exists>i<length (ranges c). fst (ranges c ! i) \<le> slot c p \<and> slot c p < snd (ranges c ! i)"
  using region_bound slot_in_region by blast

text \<open>The ascending scan finds the slot of the lowest prices, the descending one that of the highest.\<close>

lemma scan_lowest:
  assumes "ok c" and "sok s" and "mem s \<subseteq> range (slot c)"
  shows "\<exists>r. scan_ranges (first_in s) (ranges c) = Some r \<and> (case r of
      None \<Rightarrow> mem s = {}
    | Some t \<Rightarrow> t \<in> mem s \<and> (\<forall>p q. slot c p = t \<longrightarrow> slot c q \<in> mem s \<longrightarrow> slot c q \<noteq> t \<longrightarrow> p < q))"
proof -
  from scan_ranges_ok [of "first_in s" is_least "mem s" "ranges c", OF first_law [OF assms(2)]]
  obtain r where r: "scan_ranges (first_in s) (ranges c) = Some r" and case_r: "case r of
      None \<Rightarrow> \<forall>x\<in>mem s. \<forall>(lo, hi)\<in>set (ranges c). \<not> (lo \<le> x \<and> x < hi)
    | Some b \<Rightarrow> \<exists>i<length (ranges c). is_least (mem s \<inter> {fst (ranges c ! i)..<snd (ranges c ! i)}) (Some b) \<and>
        (\<forall>j<i. \<forall>x\<in>mem s. \<not> (fst (ranges c ! j) \<le> x \<and> x < snd (ranges c ! j)))"
    by (auto simp: is_least_def)
  show ?thesis
  proof (cases r)
    case None
    have "x \<notin> mem s" for x
    proof
      assume "x \<in> mem s"
      moreover obtain p where "x = slot c p" using \<open>x \<in> mem s\<close> assms(3) by auto
      ultimately show False using case_r None in_some_range [OF assms(1), of p] by (fastforce dest: nth_mem)
    qed
    with r None show ?thesis by auto
  next
    case (Some t)
    then obtain i where i: "i < length (ranges c)" "is_least (mem s \<inter> {fst (ranges c ! i)..<snd (ranges c ! i)}) (Some t)"
      "\<forall>j<i. \<forall>x\<in>mem s. \<not> (fst (ranges c ! j) \<le> x \<and> x < snd (ranges c ! j))" using case_r by auto
    have "p < q" if "slot c p = t" "slot c q \<in> mem s" "slot c q \<noteq> t" for p q
      by (rule lowest_slot_lowest_price [OF assms(1) i(1)]) (use that i in \<open>auto simp: is_least_def\<close>)
    then show ?thesis using r Some i(2) by (auto simp: is_least_def)
  qed
qed

lemma scan_highest:
  assumes "ok c" and "sok s" and "mem s \<subseteq> range (slot c)"
  shows "\<exists>r. scan_ranges (last_in s) (rev (ranges c)) = Some r \<and> (case r of
      None \<Rightarrow> mem s = {}
    | Some t \<Rightarrow> t \<in> mem s \<and> (\<forall>p q. slot c p = t \<longrightarrow> slot c q \<in> mem s \<longrightarrow> slot c q \<noteq> t \<longrightarrow> q < p))"
proof -
  let ?R = "rev (ranges c)"
  from scan_ranges_ok [of "last_in s" is_greatest "mem s" ?R, OF last_law [OF assms(2)]]
  obtain r where r: "scan_ranges (last_in s) ?R = Some r" and case_r: "case r of
      None \<Rightarrow> \<forall>x\<in>mem s. \<forall>(lo, hi)\<in>set ?R. \<not> (lo \<le> x \<and> x < hi)
    | Some b \<Rightarrow> \<exists>i<length ?R. is_greatest (mem s \<inter> {fst (?R ! i)..<snd (?R ! i)}) (Some b) \<and>
        (\<forall>j<i. \<forall>x\<in>mem s. \<not> (fst (?R ! j) \<le> x \<and> x < snd (?R ! j)))"
    by (auto simp: is_greatest_def)
  show ?thesis
  proof (cases r)
    case None
    have "x \<notin> mem s" for x
    proof
      assume "x \<in> mem s"
      moreover obtain p where "x = slot c p" using \<open>x \<in> mem s\<close> assms(3) by auto
      ultimately show False using case_r None in_some_range [OF assms(1), of p] by (fastforce dest: nth_mem)
    qed
    with r None show ?thesis by auto
  next
    case (Some t)
    then obtain i where i: "i < length ?R" "is_greatest (mem s \<inter> {fst (?R ! i)..<snd (?R ! i)}) (Some t)"
      "\<forall>j<i. \<forall>x\<in>mem s. \<not> (fst (?R ! j) \<le> x \<and> x < snd (?R ! j))" using case_r by auto
    let ?k = "length (ranges c) - Suc i"
    have k: "?k < length (ranges c)" "?R ! i = ranges c ! ?k" using i(1) by (auto simp: rev_nth)
    have later: "\<not> (fst (ranges c ! j) \<le> x \<and> x < snd (ranges c ! j))"
      if "?k < j" "j < length (ranges c)" "x \<in> mem s" for j x
    proof -
      have "length (ranges c) - Suc j < i" "?R ! (length (ranges c) - Suc j) = ranges c ! j"
        using that by (auto simp: rev_nth)
      with i(3) that(3) show ?thesis by metis
    qed
    have "q < p" if "slot c p = t" "slot c q \<in> mem s" "slot c q \<noteq> t" for p q
      by (rule highest_slot_highest_price [OF assms(1) k(1)])
        (use that i(2) later k(2) in \<open>auto simp: is_greatest_def\<close>)
    then show ?thesis using r Some i(2) by (auto simp: is_greatest_def)
  qed
qed

end

interpretation book_scan: best_slot comp_ok build_price_asc slot_index region_of
    occ_ok members occ_n occ_set occ_clear find_first_in find_last_in
  by unfold_locales

section \<open>Properties\<close>

text \<open>A sequence of \<open>set\<close> (True) and \<open>clear\<close> (False) calls.\<close>

fun occ_run :: "(bool \<times> u32) list \<Rightarrow> occupancy \<Rightarrow> occupancy option" where
  "occ_run [] oc = Some oc"
| "occ_run (c # cs) oc = do { oc' \<leftarrow> (if fst c then occ_set oc (snd c) else occ_clear oc (snd c)); occ_run cs oc' }"

lemma occ_run_changes: "occ_run cs oc = occ_slots.changes cs oc"
  by (induction cs arbitrary: oc) (auto simp: occ_slots.change_def split: bind_split)

definition set_run :: "(bool \<times> u32) list \<Rightarrow> nat set \<Rightarrow> nat set" where
  "set_run cs S = foldl (\<lambda>S c. if fst c then insert (snd c) S else S - {snd c}) S cs"

text \<open>C40: the layered bitmap is a set. After any sequence of \<open>set\<close> and \<open>clear\<close> calls within its size, none of
  which panics, \<open>find_next\<close>, \<open>find_prev\<close>, \<open>find_first_in\<close> and \<open>find_last_in\<close> return exactly the next,
  previous, least and greatest element of the set those calls describe.\<close>

theorem occupancy_tracks_set:
  assumes "\<forall>c\<in>set cs. snd c < n"
  shows "\<exists>oc. occ_run cs (occupancy_new n) = Some oc \<and> (let S = set_run cs {} in
    (\<forall>i. \<exists>r. find_next oc i = Some r \<and> is_next S i r) \<and> (\<forall>i. \<exists>r. find_prev oc i = Some r \<and> is_prev S i r) \<and>
    (\<forall>lo hi. \<exists>r. find_first_in oc lo hi = Some r \<and> is_least (S \<inter> {lo..<hi}) r) \<and>
    (\<forall>lo hi. \<exists>r. find_last_in oc lo hi = Some r \<and> is_greatest (S \<inter> {lo..<hi}) r))"
proof -
  have n: "occ_ok (occupancy_new n)" "occ_n (occupancy_new n) = n" "members (occupancy_new n) = {}"
    using occupancy_new_ok by auto
  obtain oc where oc: "occ_run cs (occupancy_new n) = Some oc" "occ_ok oc" "members oc = set_run cs {}"
    using occ_slots.changes_refine [OF n(1), of cs] n(2,3) assms by (auto simp: occ_run_changes set_run_def)
  show ?thesis using oc(1) find_next_ok [OF oc(2)] find_prev_ok [OF oc(2)] find_first_in_ok [OF oc(2)] find_last_in_ok [OF oc(2)]
    unfolding Let_def oc(3) [symmetric] by blast
qed

theorem occupancy_tracks_set_witness:
  "\<exists>oc r. occ_run [(True, 3), (True, 129), (True, 70), (False, 3)] (occupancy_new 130) = Some oc \<and>
     find_first_in oc 0 130 = Some r \<and> is_least {70, 129} r"
proof -
  have s: "set_run [(True, 3), (True, 129), (True, 70), (False, 3)] {} \<inter> {0..<130} = {70, 129}"
    by (auto simp: set_run_def)
  from occupancy_tracks_set [of "[(True, 3), (True, 129), (True, 70), (False, 3)]" 130]
  obtain oc where oc: "occ_run [(True, 3), (True, 129), (True, 70), (False, 3)] (occupancy_new 130) = Some oc"
    "\<forall>lo hi. \<exists>r. find_first_in oc lo hi = Some r \<and> is_least (set_run [(True, 3), (True, 129), (True, 70), (False, 3)] {} \<inter> {lo..<hi}) r"
    by (auto simp: Let_def)
  from oc(2) [rule_format, of 0 130] oc(1) show ?thesis unfolding s by blast
qed

end
