(* ===== verification/Order_Slab.thy ===== *)
theory Order_Slab
  imports Rsx_Types
begin

text \<open>
  The order slot of \<open>rsx-book/src/order.rs\<close> and the fixed-capacity slab of
  \<open>rsx-book/src/slab.rs\<close>: a vector of slots, a free list threaded through the slots' \<open>next\<close> field
  and a bump index. \<open>slab_rel s F\<close> says that the free list of \<open>s\<close> is \<open>F\<close>; the slab's promise to its
  client, the order book, is the locale \<open>arena\<close>: an allocated handle is not live, freeing it takes
  exactly it back, and neither touches another slot.
\<close>

section \<open>Definitions\<close>

subsection \<open>Order slots\<close>

record order_slot =
  os_price :: i64
  os_remaining_qty :: i64
  os_side :: u8
  os_flags :: "8 word"
  os_tif :: u8
  os_next :: u32
  os_prev :: u32
  os_tick_index :: u32
  os_user_id :: u32
  os_sequence :: u32
  os_original_qty :: i64
  os_timestamp_ns :: u64
  os_order_id_hi :: u64
  os_order_id_lo :: u64

definition ORDER_ACTIVE :: "8 word" where "ORDER_ACTIVE = push_bit 0 1"
definition ORDER_REDUCE_ONLY :: "8 word" where "ORDER_REDUCE_ONLY = push_bit 1 1"

unbundle bit_operations_syntax

definition is_active :: "order_slot \<Rightarrow> bool" where
  "is_active slot \<longleftrightarrow> os_flags slot AND ORDER_ACTIVE \<noteq> 0"

definition set_active :: "order_slot \<Rightarrow> bool \<Rightarrow> order_slot" where
  "set_active slot active =
     (if active then slot\<lparr>os_flags := os_flags slot OR ORDER_ACTIVE\<rparr>
      else slot\<lparr>os_flags := os_flags slot AND NOT ORDER_ACTIVE\<rparr>)"

definition is_reduce_only :: "order_slot \<Rightarrow> bool" where
  "is_reduce_only slot \<longleftrightarrow> os_flags slot AND ORDER_REDUCE_ONLY \<noteq> 0"

definition order_slot_default :: order_slot where
  "order_slot_default =
     \<lparr>os_price = 0, os_remaining_qty = 0, os_side = 0, os_flags = 0, os_tif = 0,
      os_next = NONE, os_prev = NONE, os_tick_index = 0, os_user_id = 0, os_sequence = 0,
      os_original_qty = 0, os_timestamp_ns = 0, os_order_id_hi = 0, os_order_id_lo = 0\<rparr>"

subsection \<open>The slab\<close>

record slab =
  slots :: "order_slot list"
  free_head :: u32
  bump_next :: u32

definition slab_new :: "u32 \<Rightarrow> slab" where
  "slab_new capacity = \<lparr>slots = replicate capacity order_slot_default, free_head = NONE, bump_next = 0\<rparr>"

definition alloc :: "slab \<Rightarrow> (u32 \<times> slab) option" where
  "alloc s =
     (if free_head s \<noteq> NONE then do {
        let idx = free_head s;
        slot \<leftarrow> index_of (slots s) idx;
        Some (idx, s\<lparr>free_head := os_next slot\<rparr>)
      } else do {
        assert_that (bump_next s < length (slots s));
        let idx = bump_next s;
        Some (idx, s\<lparr>bump_next := u32_add (bump_next s) 1\<rparr>)
      })"

text \<open>The two \<open>debug_assert!\<close> checks of \<open>free\<close> are compiled out in release and are not part of the model.\<close>

definition free :: "slab \<Rightarrow> u32 \<Rightarrow> slab option" where
  "free s idx = do {
     assert_that (idx < length (slots s));
     slot \<leftarrow> index_of (slots s) idx;
     xs \<leftarrow> store_at (slots s) idx (slot\<lparr>os_next := free_head s\<rparr>);
     Some (s\<lparr>slots := xs, free_head := idx\<rparr>)
   }"

definition slab_get :: "slab \<Rightarrow> u32 \<Rightarrow> order_slot option" where
  "slab_get s idx = index_of (slots s) idx"

text \<open>A write through \<open>get_mut\<close>.\<close>

definition slab_put :: "slab \<Rightarrow> u32 \<Rightarrow> order_slot \<Rightarrow> slab option" where
  "slab_put s idx slot = do { xs \<leftarrow> store_at (slots s) idx slot; Some (s\<lparr>slots := xs\<rparr>) }"

definition slab_len :: "slab \<Rightarrow> u32" where "slab_len s = bump_next s"
definition slab_is_empty :: "slab \<Rightarrow> bool" where "slab_is_empty s \<longleftrightarrow> slab_len s = 0"
definition slab_capacity :: "slab \<Rightarrow> u32" where "slab_capacity s = length (slots s) mod 4294967296"

text \<open>The walks along the free list.\<close>

partial_function (option) is_free_from :: "order_slot list \<Rightarrow> u32 \<Rightarrow> u32 \<Rightarrow> bool option" where
  "is_free_from xs idx cur =
     (if cur = NONE then Some False
      else if cur = idx then Some True
      else do { slot \<leftarrow> index_of xs cur; is_free_from xs idx (os_next slot) })"

declare is_free_from.simps [code]

definition is_free :: "slab \<Rightarrow> u32 \<Rightarrow> bool option" where
  "is_free s idx = is_free_from (slots s) idx (free_head s)"

partial_function (option) free_handles_from :: "order_slot list \<Rightarrow> u32 \<Rightarrow> u32 list option" where
  "free_handles_from xs cur =
     (if cur = NONE then Some []
      else do { slot \<leftarrow> index_of xs cur; rest \<leftarrow> free_handles_from xs (os_next slot); Some (cur # rest) })"

declare free_handles_from.simps [code]

definition free_handles :: "slab \<Rightarrow> u32 list option" where
  "free_handles s = free_handles_from (slots s) (free_head s)"

partial_function (option) free_count_from :: "order_slot list \<Rightarrow> u32 \<Rightarrow> u32 \<Rightarrow> u32 option" where
  "free_count_from xs n cur =
     (if cur = NONE then Some n
      else do { slot \<leftarrow> index_of xs cur; free_count_from xs (u32_add n 1) (os_next slot) })"

declare free_count_from.simps [code]

definition free_count :: "slab \<Rightarrow> u32 option" where
  "free_count s = free_count_from (slots s) 0 (free_head s)"

fun restore_handles :: "u32 list \<Rightarrow> slab \<Rightarrow> slab option" where
  "restore_handles [] s = Some s"
| "restore_handles (idx # rest) s = do {
     slot \<leftarrow> slab_get s idx;
     s' \<leftarrow> slab_put s idx (slot\<lparr>os_next := free_head s\<rparr>);
     restore_handles rest (s'\<lparr>free_head := idx\<rparr>)
   }"

definition restore_free_handles :: "slab \<Rightarrow> u32 list \<Rightarrow> slab option" where
  "restore_free_handles s handles = restore_handles (rev handles) (s\<lparr>free_head := NONE\<rparr>)"

definition set_bump_next :: "slab \<Rightarrow> u32 \<Rightarrow> slab" where
  "set_bump_next s val = s\<lparr>bump_next := val\<rparr>"

section \<open>Flags\<close>

lemma flag_bits: "ORDER_ACTIVE = 1" "ORDER_REDUCE_ONLY = 2"
  by (simp_all add: ORDER_ACTIVE_def ORDER_REDUCE_ONLY_def)

lemma and_1_neq_0: "(w AND 1 \<noteq> 0) = bit w 0" for w :: "8 word"
  by (simp add: and_one_eq odd_iff_mod_2_eq_one [symmetric] bit_0)

lemma is_active_bit: "is_active slot \<longleftrightarrow> bit (os_flags slot) 0"
  by (simp add: is_active_def flag_bits and_1_neq_0)

lemma is_active_set_active [simp]: "is_active (set_active slot a) = a"
  by (simp add: is_active_bit set_active_def flag_bits bit_simps)

lemma is_active_flags [simp]:
  "os_flags slot = ORDER_ACTIVE \<Longrightarrow> is_active slot"
  "os_flags slot = ORDER_ACTIVE OR ORDER_REDUCE_ONLY \<Longrightarrow> is_active slot"
  by (simp_all add: is_active_bit flag_bits bit_simps)

lemma is_active_default [simp]: "\<not> is_active order_slot_default"
  by (simp add: is_active_def order_slot_default_def)

lemma set_active_sel [simp]:
  "os_price (set_active s a) = os_price s" "os_remaining_qty (set_active s a) = os_remaining_qty s"
  "os_side (set_active s a) = os_side s" "os_next (set_active s a) = os_next s"
  "os_prev (set_active s a) = os_prev s" "os_tick_index (set_active s a) = os_tick_index s"
  "os_user_id (set_active s a) = os_user_id s" "os_original_qty (set_active s a) = os_original_qty s"
  by (simp_all add: set_active_def)

lemma is_active_upd [simp]:
  "is_active (s\<lparr>os_next := x\<rparr>) = is_active s" "is_active (s\<lparr>os_prev := x\<rparr>) = is_active s"
  "is_active (s\<lparr>os_remaining_qty := q\<rparr>) = is_active s" "is_active (s\<lparr>os_tick_index := x\<rparr>) = is_active s"
  by (simp_all add: is_active_def)

section \<open>The free list\<close>

fun free_chain :: "order_slot list \<Rightarrow> u32 \<Rightarrow> u32 list \<Rightarrow> bool" where
  "free_chain xs h [] \<longleftrightarrow> h = NONE"
| "free_chain xs h (x # F) \<longleftrightarrow> h = x \<and> x \<noteq> NONE \<and> x < length xs \<and> free_chain xs (os_next (xs ! x)) F"

definition slab_rel :: "slab \<Rightarrow> u32 list \<Rightarrow> bool" where
  "slab_rel s F \<longleftrightarrow> free_chain (slots s) (free_head s) F \<and> distinct F \<and>
     set F \<subseteq> {..<bump_next s} \<and> bump_next s \<le> length (slots s) \<and> length (slots s) \<le> NONE"

definition slab_ok :: "slab \<Rightarrow> bool" where
  "slab_ok s \<longleftrightarrow> (\<exists>F. slab_rel s F)"

text \<open>The live handles: every handle ever bumped that is not on the free list.\<close>

definition live :: "slab \<Rightarrow> u32 set" where
  "live s = {..<bump_next s} - set (the (free_handles s))"

lemma free_chain_cong:
  "(\<And>x. x \<in> set F \<Longrightarrow> os_next (ys ! x) = os_next (xs ! x)) \<Longrightarrow> length ys = length xs \<Longrightarrow>
   free_chain ys h F = free_chain xs h F"
  by (induction F arbitrary: h) auto

lemma free_chain_bounds: "free_chain xs h F \<Longrightarrow> x \<in> set F \<Longrightarrow> x < length xs"
  by (induction F arbitrary: h) auto

lemma free_handles_from_chain: "free_chain xs h F \<Longrightarrow> free_handles_from xs h = Some F"
  by (induction F arbitrary: h) (simp_all add: free_handles_from.simps index_of_Some)

lemma free_handles_rel: "slab_rel s F \<Longrightarrow> free_handles s = Some F"
  by (simp add: slab_rel_def free_handles_def free_handles_from_chain)

lemma live_rel: "slab_rel s F \<Longrightarrow> live s = {..<bump_next s} - set F"
  by (simp add: live_def free_handles_rel)

lemma is_free_from_chain: "free_chain xs h F \<Longrightarrow> is_free_from xs idx h = Some (idx \<in> set F)"
  by (induction F arbitrary: h) (auto simp: is_free_from.simps index_of_Some)

lemma free_count_from_chain:
  "free_chain xs h F \<Longrightarrow> n + length F < 4294967296 \<Longrightarrow> free_count_from xs n h = Some (n + length F)"
  by (induction F arbitrary: h n) (auto simp: free_count_from.simps index_of_Some u32_add_id)

lemma slab_rel_length: "slab_rel s F \<Longrightarrow> length F \<le> bump_next s"
  using card_mono [of "{..<bump_next s}" "set F"] by (auto simp: slab_rel_def distinct_card)

section \<open>Allocation and release\<close>

lemma alloc_rel_pop:
  assumes "slab_rel s (h # F)"
  shows "alloc s = Some (h, s\<lparr>free_head := os_next (slots s ! h)\<rparr>)"
    and "slab_rel (s\<lparr>free_head := os_next (slots s ! h)\<rparr>) F"
  using assms by (auto simp: slab_rel_def alloc_def index_of_Some)

lemma alloc_rel_bump:
  assumes "slab_rel s []" and "bump_next s < length (slots s)"
  shows "alloc s = Some (bump_next s, s\<lparr>bump_next := Suc (bump_next s)\<rparr>)"
    and "slab_rel (s\<lparr>bump_next := Suc (bump_next s)\<rparr>) []"
  using assms by (auto simp: slab_rel_def alloc_def u32_add_def NONE_def)

lemma alloc_rel_full:
  assumes "slab_rel s []" and "bump_next s = length (slots s)"
  shows "alloc s = None"
  using assms by (simp add: slab_rel_def alloc_def assert_that_def)

text \<open>A handle that was live, or that has just been unlinked, goes to the front of the free list.\<close>

lemma free_rel:
  assumes "slab_rel s F" and "h < bump_next s" and "h \<notin> set F"
  shows "free s h = Some (s\<lparr>slots := (slots s)[h := (slots s ! h)\<lparr>os_next := free_head s\<rparr>], free_head := h\<rparr>)"
    and "slab_rel (s\<lparr>slots := (slots s)[h := (slots s ! h)\<lparr>os_next := free_head s\<rparr>], free_head := h\<rparr>) (h # F)"
proof -
  from assms have h: "h < length (slots s)" "h \<noteq> NONE" by (auto simp: slab_rel_def)
  then show "free s h = Some (s\<lparr>slots := (slots s)[h := (slots s ! h)\<lparr>os_next := free_head s\<rparr>], free_head := h\<rparr>)"
    by (simp add: free_def index_of_Some store_at_Some)
  have "free_chain ((slots s)[h := (slots s ! h)\<lparr>os_next := free_head s\<rparr>]) (free_head s) F"
    using assms by (subst free_chain_cong [of F _ "slots s"]) (auto simp: slab_rel_def nth_list_update)
  with assms h show "slab_rel (s\<lparr>slots := (slots s)[h := (slots s ! h)\<lparr>os_next := free_head s\<rparr>], free_head := h\<rparr>) (h # F)"
    by (auto simp: slab_rel_def)
qed

lemma slab_new_rel: "capacity \<le> NONE \<Longrightarrow> slab_rel (slab_new capacity) []"
  by (simp add: slab_rel_def slab_new_def)

section \<open>The arena contract\<close>

locale arena =
  fixes take_handle :: "'s \<Rightarrow> ('h \<times> 's) option"
    and give_back :: "'s \<Rightarrow> 'h \<Rightarrow> 's option"
    and in_use :: "'s \<Rightarrow> 'h set"
    and capacity_of :: "'s \<Rightarrow> nat"
    and ok :: "'s \<Rightarrow> bool"
  assumes finite_in_use: "ok s \<Longrightarrow> finite (in_use s)"
    and take_some: "ok s \<Longrightarrow> card (in_use s) < capacity_of s \<Longrightarrow> \<exists>h s'. take_handle s = Some (h, s')"
    and take_fresh: "ok s \<Longrightarrow> take_handle s = Some (h, s') \<Longrightarrow>
      ok s' \<and> h \<notin> in_use s \<and> in_use s' = insert h (in_use s) \<and> capacity_of s' = capacity_of s"
    and give_back_some: "ok s \<Longrightarrow> h \<in> in_use s \<Longrightarrow>
      \<exists>s'. give_back s h = Some s' \<and> ok s' \<and> in_use s' = in_use s - {h} \<and> capacity_of s' = capacity_of s"
begin

lemma take_give_back:
  assumes "ok s" and "take_handle s = Some (h, s')"
  shows "\<exists>s''. give_back s' h = Some s'' \<and> ok s'' \<and> in_use s'' = in_use s"
  using take_fresh [OF assms] give_back_some [of s' h] by auto

lemma take_twice_distinct:
  assumes "ok s" and "take_handle s = Some (h, s')" and "take_handle s' = Some (h', s'')"
  shows "h \<noteq> h'"
  using take_fresh [OF assms(1,2)] take_fresh [of s' h' s''] assms(3) by auto

end

text \<open>\<open>n\<close> allocations in a row.\<close>

fun take_many :: "('s \<Rightarrow> ('h \<times> 's) option) \<Rightarrow> nat \<Rightarrow> 's \<Rightarrow> ('h list \<times> 's) option" where
  "take_many f 0 s = Some ([], s)"
| "take_many f (Suc n) s = do {
     (h, s') \<leftarrow> f s;
     (hs, s'') \<leftarrow> take_many f n s';
     Some (h # hs, s'')
   }"

context arena
begin

lemma take_many_fresh:
  assumes "ok s" and "card (in_use s) + n \<le> capacity_of s"
  shows "\<exists>hs s'. take_many take_handle n s = Some (hs, s') \<and> length hs = n \<and> distinct hs \<and>
    set hs \<inter> in_use s = {} \<and> in_use s' = in_use s \<union> set hs \<and> ok s'"
  using assms
proof (induction n arbitrary: s)
  case 0
  then show ?case by simp
next
  case (Suc n)
  obtain h s1 where h: "take_handle s = Some (h, s1)"
    using take_some [OF Suc.prems(1)] Suc.prems(2) by auto
  from take_fresh [OF Suc.prems(1) h]
  have s1: "ok s1" "h \<notin> in_use s" "in_use s1 = insert h (in_use s)" "capacity_of s1 = capacity_of s"
    by auto
  have "card (in_use s1) + n \<le> capacity_of s1"
    using s1 finite_in_use [OF Suc.prems(1)] Suc.prems(2) by simp
  from Suc.IH [OF s1(1) this] h s1 show ?case by auto
qed

end

lemma live_bump_Suc:
  "slab_rel s [] \<Longrightarrow> bump_next s < length (slots s) \<Longrightarrow>
   live (s\<lparr>bump_next := Suc (bump_next s)\<rparr>) = insert (bump_next s) (live s)"
  using live_rel [OF alloc_rel_bump(2), of s] live_rel [of s "[]"] by auto

lemma alloc_cases:
  assumes "slab_ok s" and "alloc s = Some (h, s')"
  shows "slab_ok s' \<and> h \<notin> live s \<and> live s' = insert h (live s) \<and> slots s' = slots s"
proof -
  obtain F where F: "slab_rel s F" using assms(1) by (auto simp: slab_ok_def)
  show ?thesis
  proof (cases F)
    case (Cons x F')
    then have rel: "slab_rel (s\<lparr>free_head := os_next (slots s ! x)\<rparr>) F'" and "h = x"
      and s': "s' = s\<lparr>free_head := os_next (slots s ! x)\<rparr>"
      using alloc_rel_pop [of s x F'] F assms(2) by auto
    have "x < bump_next s" "x \<notin> set F'" using F Cons by (auto simp: slab_rel_def)
    with rel Cons s' \<open>h = x\<close> show ?thesis
      using live_rel [OF F] live_rel [OF rel] by (auto simp: slab_ok_def)
  next
    case Nil
    then have "bump_next s < length (slots s)"
      using alloc_rel_full [of s] F assms(2) by (force simp: slab_rel_def)
    then have bump: "alloc s = Some (bump_next s, s\<lparr>bump_next := Suc (bump_next s)\<rparr>)"
      "slab_rel (s\<lparr>bump_next := Suc (bump_next s)\<rparr>) []"
      "live (s\<lparr>bump_next := Suc (bump_next s)\<rparr>) = insert (bump_next s) (live s)"
      using alloc_rel_bump [of s] live_bump_Suc [of s] F Nil by simp_all
    moreover have "bump_next s \<notin> live s" by (simp add: live_def)
    ultimately show ?thesis using assms(2) by (auto simp: slab_ok_def)
  qed
qed

lemma alloc_some:
  assumes "slab_ok s" and "card (live s) < length (slots s)"
  shows "\<exists>h s'. alloc s = Some (h, s')"
proof -
  obtain F where F: "slab_rel s F" using assms(1) by (auto simp: slab_ok_def)
  show ?thesis
  proof (cases F)
    case Nil
    then have "live s = {..<bump_next s}" using live_rel [OF F] by simp
    then have "bump_next s < length (slots s)" using assms(2) by simp
    then show ?thesis using alloc_rel_bump(1) [of s] F Nil by auto
  qed (use alloc_rel_pop(1) F in auto)
qed

lemma free_some:
  assumes "slab_ok s" and "h \<in> live s"
  shows "\<exists>s'. free s h = Some s' \<and> slab_ok s' \<and> live s' = live s - {h} \<and> length (slots s') = length (slots s)"
proof -
  obtain F where F: "slab_rel s F" using assms(1) by (auto simp: slab_ok_def)
  then have h: "h < bump_next s" "h \<notin> set F" using assms(2) live_rel [OF F] by auto
  note fr = free_rel [OF F h]
  let ?s = "s\<lparr>slots := (slots s)[h := (slots s ! h)\<lparr>os_next := free_head s\<rparr>], free_head := h\<rparr>"
  have "live ?s = live s - {h}"
    using live_rel [OF F] live_rel [OF fr(2)] by auto
  with fr show ?thesis by (auto simp: slab_ok_def)
qed

interpretation order_arena: arena alloc free live "\<lambda>s. length (slots s)" slab_ok
proof unfold_locales
  fix s h s'
  show "slab_ok s \<Longrightarrow> finite (live s)" by (simp add: live_def)
  show "slab_ok s \<Longrightarrow> card (live s) < length (slots s) \<Longrightarrow> \<exists>h s'. alloc s = Some (h, s')"
    by (rule alloc_some)
  show "slab_ok s \<Longrightarrow> alloc s = Some (h, s') \<Longrightarrow>
    slab_ok s' \<and> h \<notin> live s \<and> live s' = insert h (live s) \<and> length (slots s') = length (slots s)"
    by (frule (1) alloc_cases) simp
  show "slab_ok s \<Longrightarrow> h \<in> live s \<Longrightarrow>
    \<exists>s'. free s h = Some s' \<and> slab_ok s' \<and> live s' = live s - {h} \<and> length (slots s') = length (slots s)"
    by (rule free_some)
qed

lemma free_chain_restore:
  assumes "distinct hs" and "\<forall>h\<in>set hs. h < length (slots s)" and "length (slots s) \<le> NONE"
    and "free_chain (slots s) (free_head s) F" and "set hs \<inter> set F = {}"
  shows "\<exists>s'. restore_handles hs s = Some s' \<and> free_chain (slots s') (free_head s') (rev hs @ F) \<and>
     bump_next s' = bump_next s \<and> length (slots s') = length (slots s) \<and>
     (\<forall>x. x \<notin> set hs \<longrightarrow> slots s' ! x = slots s ! x)"
  using assms
proof (induction hs arbitrary: s F)
  case Nil
  then show ?case by simp
next
  case (Cons h hs)
  let ?s = "s\<lparr>slots := (slots s)[h := (slots s ! h)\<lparr>os_next := free_head s\<rparr>], free_head := h\<rparr>"
  have "free_chain (slots ?s) (free_head s) F"
    using Cons.prems by (subst free_chain_cong [of F _ "slots s"]) (auto simp: nth_list_update)
  then have "free_chain (slots ?s) (free_head ?s) (h # F)"
    using Cons.prems by auto
  then obtain s' where "restore_handles hs ?s = Some s'" "free_chain (slots s') (free_head s') (rev hs @ h # F)"
    "bump_next s' = bump_next ?s" "length (slots s') = length (slots ?s)"
    "\<forall>x. x \<notin> set hs \<longrightarrow> slots s' ! x = slots ?s ! x"
    using Cons.IH [of ?s "h # F"] Cons.prems by auto
  with Cons.prems show ?case
    by (auto simp: slab_get_def slab_put_def index_of_Some store_at_Some nth_list_update)
qed

section \<open>Properties\<close>

text \<open>no two allocations alias. From a well-formed slab with room for \<open>n\<close> more orders, \<open>n\<close> calls of
  \<open>alloc\<close> all return, the handles are pairwise distinct, none of them was live before, and afterwards
  the live handles are the old ones and the new ones.\<close>

theorem alloc_never_aliases:
  assumes "slab_ok s" and "card (live s) + n \<le> length (slots s)"
  shows "\<exists>hs s'. take_many alloc n s = Some (hs, s') \<and> length hs = n \<and> distinct hs \<and>
    set hs \<inter> live s = {} \<and> live s' = live s \<union> set hs \<and> slab_ok s'"
  using assms by (rule order_arena.take_many_fresh)

theorem alloc_never_aliases_witness:
  "\<exists>hs s'. take_many alloc 3 (slab_new 4) = Some (hs, s') \<and> length hs = 3 \<and> distinct hs \<and>
    set hs \<inter> live (slab_new 4) = {} \<and> live s' = live (slab_new 4) \<union> set hs \<and> slab_ok s'"
proof -
  have rel: "slab_rel (slab_new 4) []" by (rule slab_new_rel) (simp add: NONE_def)
  then have "slab_ok (slab_new 4)" by (auto simp: slab_ok_def)
  moreover have "card (live (slab_new 4)) + 3 \<le> length (slots (slab_new 4))"
    using live_rel [OF rel] by (simp add: slab_new_def)
  ultimately show ?thesis by (rule alloc_never_aliases)
qed

text \<open>no slot leaks. In a well-formed slab the live handles and the free list split the bumped
  prefix: \<open>len() == free_count() + active\<close>, the cross-check the source states as invariant 8.\<close>

theorem slab_no_leak:
  assumes "slab_ok s"
  shows "\<exists>k. free_count s = Some k \<and> slab_len s = k + card (live s)"
proof -
  obtain F where F: "slab_rel s F" using assms by (auto simp: slab_ok_def)
  have len: "length F \<le> bump_next s" by (rule slab_rel_length [OF F])
  then have "length F < 4294967296" using F by (auto simp: slab_rel_def NONE_def)
  then have count: "free_count s = Some (length F)"
    using F free_count_from_chain [of "slots s" "free_head s" F 0] by (simp add: free_count_def slab_rel_def)
  have "card (live s) = bump_next s - length F"
    using F by (subst live_rel [OF F], subst card_Diff_subset) (auto simp: slab_rel_def distinct_card)
  with count len show ?thesis by (auto simp: slab_len_def)
qed

theorem slab_no_leak_witness:
  "\<exists>k. free_count (slab_new 2) = Some k \<and> slab_len (slab_new 2) = k + card (live (slab_new 2))"
proof (rule slab_no_leak)
  show "slab_ok (slab_new 2)" using slab_new_rel [of 2] by (auto simp: slab_ok_def NONE_def)
qed

text \<open>the free-list round trip of a snapshot. Reading the free handles and restoring them leaves
  the allocation order as it was: the restored slab lists the same handles in the same order.\<close>

theorem free_handles_roundtrip:
  assumes "distinct hs" and "set hs \<subseteq> {..<length (slots s)}" and "length (slots s) \<le> NONE"
  shows "\<exists>s'. restore_free_handles s hs = Some s' \<and> free_handles s' = Some hs \<and> bump_next s' = bump_next s"
  using free_chain_restore [of "rev hs" "s\<lparr>free_head := NONE\<rparr>" "[]"] assms
  by (fastforce simp: restore_free_handles_def free_handles_def intro: free_handles_from_chain)

theorem free_handles_roundtrip_witness:
  "\<exists>s'. restore_free_handles (slab_new 5) [3, 0, 4] = Some s' \<and> free_handles s' = Some [3, 0, 4] \<and>
     bump_next s' = bump_next (slab_new 5)"
  by (rule free_handles_roundtrip) (auto simp: slab_new_def NONE_def)

end
