(* ===== verification/User_Registry.thy ===== *)
theory User_Registry
  imports Rsx_Types
begin

text \<open>
  \<open>rsx-book/src/user.rs\<close>: net position and resting-order count per user, kept in reusable slots.
  Two views abstract the registry: \<open>position_of\<close> and \<open>resting_of\<close>, total functions of the user id
  in which an unknown user has zero of both. Every operation is specified by its effect on the views;
  reclaiming idle users is invisible in them.
\<close>

section \<open>Definitions\<close>

definition RECLAIM_GRACE_NS :: u64 where "RECLAIM_GRACE_NS = 60000000000"

record user_state =
  us_user_id :: u32
  us_net_qty :: i64
  us_order_count :: u32
  us_zero_since_ns :: u64

definition user_state_new :: "u32 \<Rightarrow> user_state" where
  "user_state_new uid = \<lparr>us_user_id = uid, us_net_qty = 0, us_order_count = 0, us_zero_since_ns = 0\<rparr>"

definition user_state_default :: user_state where
  "user_state_default = user_state_new 0"

definition is_idle :: "user_state \<Rightarrow> bool" where
  "is_idle s \<longleftrightarrow> us_net_qty s = 0 \<and> us_order_count s = 0"

definition mark_zero_if_idle :: "user_state \<Rightarrow> u64 \<Rightarrow> user_state" where
  "mark_zero_if_idle s now_ns = (if is_idle s \<and> us_zero_since_ns s = 0 then s\<lparr>us_zero_since_ns := now_ns\<rparr> else s)"

definition clear_zero_mark :: "user_state \<Rightarrow> user_state" where
  "clear_zero_mark s = s\<lparr>us_zero_since_ns := 0\<rparr>"

record user_registry =
  ur_states :: "user_state list"
  ur_map :: "u32 \<rightharpoonup> u32"
  ur_free_list :: "u32 list"
  ur_bump :: u32
  ur_cursor :: u32

definition user_registry_new :: user_registry where
  "user_registry_new = \<lparr>ur_states = [], ur_map = Map.empty, ur_free_list = [], ur_bump = 0, ur_cursor = 0\<rparr>"

definition get_or_assign :: "user_registry \<Rightarrow> u32 \<Rightarrow> (u32 \<times> user_registry) option" where
  "get_or_assign u uid = (case ur_map u uid of
     Some idx \<Rightarrow> do {
       s \<leftarrow> index_of (ur_states u) idx;
       Some (idx, u\<lparr>ur_states := (ur_states u)[idx := clear_zero_mark s]\<rparr>)
     }
   | None \<Rightarrow> do {
       (idx, u') \<leftarrow> (if ur_free_list u \<noteq> [] then do {
           let idx = last (ur_free_list u);
           states \<leftarrow> store_at (ur_states u) idx (user_state_new uid);
           Some (idx, u\<lparr>ur_states := states, ur_free_list := butlast (ur_free_list u)\<rparr>)
         } else do {
           let idx = ur_bump u;
           assert_that (idx < u32_max);
           let states = (if idx \<ge> length (ur_states u) then ur_states u @ [user_state_new uid]
                         else (ur_states u)[idx := user_state_new uid]);
           Some (idx, u\<lparr>ur_states := states, ur_bump := idx + 1\<rparr>)
         });
       Some (idx, u'\<lparr>ur_map := (ur_map u')(uid \<mapsto> idx)\<rparr>)
     })"

definition maintain_one :: "user_registry \<Rightarrow> u64 \<Rightarrow> bool \<Rightarrow> (u32 option \<times> user_registry) option" where
  "maintain_one u now_ns replay_mode =
     (if replay_mode \<or> ur_bump u = 0 then Some (None, u)
      else do {
        let i = ur_cursor u mod ur_bump u;
        let u1 = u\<lparr>ur_cursor := u32_add (ur_cursor u) 1 mod ur_bump u\<rparr>;
        s \<leftarrow> index_of (ur_states u1) i;
        if us_user_id s = 0 then Some (None, u1)
        else if \<not> is_idle s then Some (None, u1\<lparr>ur_states := (ur_states u1)[i := clear_zero_mark s]\<rparr>)
        else if us_zero_since_ns s = 0
        then Some (None, u1\<lparr>ur_states := (ur_states u1)[i := mark_zero_if_idle s now_ns]\<rparr>)
        else if now_ns - us_zero_since_ns s < RECLAIM_GRACE_NS then Some (None, u1)
        else Some (Some (us_user_id s),
          u1\<lparr>ur_map := (ur_map u1)(us_user_id s := None),
             ur_states := (ur_states u1)[i := user_state_default],
             ur_free_list := ur_free_list u1 @ [i]\<rparr>)
      })"

definition ur_contains :: "user_registry \<Rightarrow> u32 \<Rightarrow> bool" where
  "ur_contains u uid \<longleftrightarrow> ur_map u uid \<noteq> None"

definition net_qty :: "user_registry \<Rightarrow> u32 \<Rightarrow> i64 option option" where
  "net_qty u uid = (case ur_map u uid of
     None \<Rightarrow> Some None
   | Some idx \<Rightarrow> do { s \<leftarrow> index_of (ur_states u) idx; Some (Some (us_net_qty s)) })"

definition user_order_count :: "user_registry \<Rightarrow> u32 \<Rightarrow> u32 option option" where
  "user_order_count u uid = (case ur_map u uid of
     None \<Rightarrow> Some None
   | Some idx \<Rightarrow> do { s \<leftarrow> index_of (ur_states u) idx; Some (Some (us_order_count s)) })"

definition add_order :: "user_registry \<Rightarrow> u32 \<Rightarrow> user_registry option" where
  "add_order u uid = do {
     (idx, u') \<leftarrow> get_or_assign u uid;
     s \<leftarrow> index_of (ur_states u') idx;
     Some (u'\<lparr>ur_states := (ur_states u')[idx := s\<lparr>us_order_count := u32_add (us_order_count s) 1\<rparr>]\<rparr>)
   }"

definition remove_order :: "user_registry \<Rightarrow> u32 \<Rightarrow> user_registry option" where
  "remove_order u uid = (case ur_map u uid of
     None \<Rightarrow> Some u
   | Some idx \<Rightarrow> do {
       s \<leftarrow> index_of (ur_states u) idx;
       Some (u\<lparr>ur_states := (ur_states u)[idx := s\<lparr>us_order_count := us_order_count s - 1\<rparr>]\<rparr>)
     })"

definition add_net :: "user_registry \<Rightarrow> u32 \<Rightarrow> i64 \<Rightarrow> user_registry option" where
  "add_net u uid d = do {
     (idx, u') \<leftarrow> get_or_assign u uid;
     s \<leftarrow> index_of (ur_states u') idx;
     Some (u'\<lparr>ur_states := (ur_states u')[idx := s\<lparr>us_net_qty := sat_add (us_net_qty s) d\<rparr>]\<rparr>)
   }"

definition users_apply_fill :: "user_registry \<Rightarrow> u32 \<Rightarrow> u32 \<Rightarrow> side \<Rightarrow> i64 \<Rightarrow> user_registry option" where
  "users_apply_fill u taker maker taker_side qty = do {
     let sign = (case taker_side of Buy \<Rightarrow> 1 | Sell \<Rightarrow> -1);
     u1 \<leftarrow> add_net u taker (i64_mul sign qty);
     add_net u1 maker (i64_neg (i64_mul sign qty))
   }"

section \<open>Invariant and views\<close>

definition users_ok :: "user_registry \<Rightarrow> bool" where
  "users_ok u \<longleftrightarrow> ur_bump u \<le> length (ur_states u) \<and> distinct (ur_free_list u) \<and>
     (\<forall>uid i. ur_map u uid = Some i \<longleftrightarrow>
        i < ur_bump u \<and> i \<notin> set (ur_free_list u) \<and> us_user_id (ur_states u ! i) = uid) \<and>
     (\<forall>i\<in>set (ur_free_list u). i < ur_bump u \<and> ur_states u ! i = user_state_default)"

definition users_room :: "user_registry \<Rightarrow> bool" where
  "users_room u \<longleftrightarrow> ur_free_list u \<noteq> [] \<or> ur_bump u < u32_max"

definition position_of :: "user_registry \<Rightarrow> u32 \<Rightarrow> i64" where
  "position_of u uid = (case ur_map u uid of None \<Rightarrow> 0 | Some i \<Rightarrow> us_net_qty (ur_states u ! i))"

definition resting_of :: "user_registry \<Rightarrow> u32 \<Rightarrow> u32" where
  "resting_of u uid = (case ur_map u uid of None \<Rightarrow> 0 | Some i \<Rightarrow> us_order_count (ur_states u ! i))"

lemma users_okD:
  assumes "users_ok u"
  shows "ur_bump u \<le> length (ur_states u)" "distinct (ur_free_list u)"
    "ur_map u uid = Some i \<longleftrightarrow> i < ur_bump u \<and> i \<notin> set (ur_free_list u) \<and> us_user_id (ur_states u ! i) = uid"
    "i \<in> set (ur_free_list u) \<Longrightarrow> i < ur_bump u \<and> ur_states u ! i = user_state_default"
  using assms by (auto simp: users_ok_def)

lemma mapped_bound: "users_ok u \<Longrightarrow> ur_map u uid = Some i \<Longrightarrow> i < length (ur_states u)"
  using users_okD(1,3) order_less_le_trans by blast

lemma users_new_ok: "users_ok user_registry_new" "position_of user_registry_new uid = 0" "resting_of user_registry_new uid = 0"
  by (simp_all add: users_ok_def user_registry_new_def position_of_def resting_of_def)

lemma net_qty_view: "users_ok u \<Longrightarrow> net_qty u uid = Some (if ur_contains u uid then Some (position_of u uid) else None)"
  by (cases "ur_map u uid")
    (auto simp: net_qty_def ur_contains_def position_of_def index_of_def dest: mapped_bound)

text \<open>A state rewritten in place under the same user id.\<close>

definition poke :: "user_registry \<Rightarrow> u32 \<Rightarrow> user_state \<Rightarrow> user_registry" where
  "poke u i s = u\<lparr>ur_states := (ur_states u)[i := s]\<rparr>"

lemma poke_ok:
  assumes "users_ok u" and "ur_map u uid = Some i" and "us_user_id s = uid"
  shows "users_ok (poke u i s)" "ur_map (poke u i s) = ur_map u" "users_room (poke u i s) = users_room u"
    "position_of (poke u i s) = (position_of u)(uid := us_net_qty s)"
    "resting_of (poke u i s) = (resting_of u)(uid := us_order_count s)"
proof -
  have i: "i < ur_bump u" "i \<notin> set (ur_free_list u)" "us_user_id (ur_states u ! i) = uid" "i < length (ur_states u)"
    using assms(2) users_okD(3) [OF assms(1)] mapped_bound [OF assms(1,2)] by auto
  show "ur_map (poke u i s) = ur_map u" "users_room (poke u i s) = users_room u"
    by (simp_all add: poke_def users_room_def)
  have same: "ur_map u v = Some j \<Longrightarrow> (ur_states u)[i := s] ! j = (if v = uid then s else ur_states u ! j)" for v j
    using i(3,4) assms(2) users_okD(3) [OF assms(1), of v j] by (auto simp: nth_list_update)
  then show "position_of (poke u i s) = (position_of u)(uid := us_net_qty s)"
    "resting_of (poke u i s) = (resting_of u)(uid := us_order_count s)"
    using assms(2) by (auto simp: poke_def position_of_def resting_of_def fun_eq_iff split: option.split)
  have "us_user_id ((ur_states u)[i := s] ! j) = us_user_id (ur_states u ! j)" for j
    using i assms(3) by (auto simp: nth_list_update)
  moreover have "(ur_states u)[i := s] ! j = ur_states u ! j" if "j \<in> set (ur_free_list u)" for j
    using that i by (auto simp: nth_list_update)
  ultimately show "users_ok (poke u i s)" using assms(1) by (simp add: users_ok_def poke_def)
qed

section \<open>Assignment of slots\<close>

definition same_view :: "user_registry \<Rightarrow> user_registry \<Rightarrow> bool" where
  "same_view u u' \<longleftrightarrow> position_of u' = position_of u \<and> resting_of u' = resting_of u"

lemma get_known:
  assumes "users_ok u" and "ur_map u uid = Some i"
  shows "get_or_assign u uid = Some (i, poke u i (clear_zero_mark (ur_states u ! i)))"
    "same_view u (poke u i (clear_zero_mark (ur_states u ! i)))"
proof -
  have i: "i < length (ur_states u)" "us_user_id (ur_states u ! i) = uid"
    using assms(2) users_okD(3) [OF assms(1)] mapped_bound [OF assms] by auto
  then show "get_or_assign u uid = Some (i, poke u i (clear_zero_mark (ur_states u ! i)))"
    using assms by (simp add: get_or_assign_def index_of_Some poke_def)
  show "same_view u (poke u i (clear_zero_mark (ur_states u ! i)))"
    using poke_ok(4,5) [OF assms, of "clear_zero_mark (ur_states u ! i)"] i assms(2)
    by (simp add: same_view_def clear_zero_mark_def position_of_def resting_of_def fun_eq_iff)
qed

text \<open>A fresh slot \<open>i\<close> taken by a user that had none.\<close>

lemma fresh_slot_ok:
  assumes "users_ok u" and "ur_map u uid = None"
    and "i < bump'" and "bump' \<le> length states'" and "distinct free'" and "i \<notin> set free'"
    and "states' ! i = user_state_new uid"
    and "\<And>j. j \<noteq> i \<Longrightarrow> j < bump' \<Longrightarrow> j < ur_bump u \<and> states' ! j = ur_states u ! j"
    and "\<And>j. j < ur_bump u \<Longrightarrow> j < bump'"
    and "\<And>j. j \<noteq> i \<Longrightarrow> j \<in> set free' \<longleftrightarrow> j \<in> set (ur_free_list u)"
    and "\<And>v. ur_map u v \<noteq> Some i"
  shows "users_ok (u\<lparr>ur_states := states', ur_map := (ur_map u)(uid \<mapsto> i), ur_free_list := free', ur_bump := bump'\<rparr>)"
    "same_view u (u\<lparr>ur_states := states', ur_map := (ur_map u)(uid \<mapsto> i), ur_free_list := free', ur_bump := bump'\<rparr>)"
proof -
  note u = users_okD [OF assms(1)]
  have old: "ur_map u v = Some j \<Longrightarrow> states' ! j = ur_states u ! j" for v j
    using u(3) assms(8,9,11) by metis
  have "((ur_map u)(uid \<mapsto> i)) v = Some j \<longleftrightarrow> j < bump' \<and> j \<notin> set free' \<and> us_user_id (states' ! j) = v" for v j
  proof (cases "j = i")
    case True
    then show ?thesis using assms(3,6,7,11) by (auto simp: user_state_new_def)
  next
    case False
    then have "((ur_map u)(uid \<mapsto> i)) v = Some j \<longleftrightarrow> ur_map u v = Some j" using assms(2) by auto
    also have "\<dots> \<longleftrightarrow> j < bump' \<and> j \<notin> set free' \<and> us_user_id (states' ! j) = v"
      using False u(3) assms(8,9,10) by metis
    finally show ?thesis .
  qed
  moreover have "\<forall>j\<in>set free'. j < bump' \<and> states' ! j = user_state_default"
    using assms(6,8,9,10) u(4) by metis
  ultimately show "users_ok (u\<lparr>ur_states := states', ur_map := (ur_map u)(uid \<mapsto> i), ur_free_list := free', ur_bump := bump'\<rparr>)"
    using assms(4,5) by (simp add: users_ok_def)
  show "same_view u (u\<lparr>ur_states := states', ur_map := (ur_map u)(uid \<mapsto> i), ur_free_list := free', ur_bump := bump'\<rparr>)"
    using assms(2,7) old
    by (auto simp: same_view_def position_of_def resting_of_def fun_eq_iff user_state_new_def split: option.split)
qed

lemma get_or_assign_ok:
  assumes "users_ok u" and "ur_contains u uid \<or> users_room u"
  shows "\<exists>i u'. get_or_assign u uid = Some (i, u') \<and> users_ok u' \<and> ur_map u' = (ur_map u)(uid \<mapsto> i) \<and> same_view u u'"
proof (cases "ur_map u uid")
  case (Some i)
  let ?s = "clear_zero_mark (ur_states u ! i)"
  have "us_user_id ?s = uid" using Some users_okD(3) [OF assms(1)] by (simp add: clear_zero_mark_def)
  with get_known [OF assms(1) Some] poke_ok(1,2) [OF assms(1) Some, of ?s] Some show ?thesis
    by (auto simp: fun_upd_idem)
next
  case None
  note u = users_okD [OF assms(1)]
  show ?thesis
  proof (cases "ur_free_list u = []")
    case False
    then obtain F i where F: "ur_free_list u = F @ [i]" by (cases "ur_free_list u" rule: rev_cases) auto
    let ?i = i and ?F = F
    let ?u = "u\<lparr>ur_states := (ur_states u)[?i := user_state_new uid], ur_map := (ur_map u)(uid \<mapsto> ?i),
      ur_free_list := ?F, ur_bump := ur_bump u\<rparr>"
    have i: "?i \<in> set (ur_free_list u)" "?i \<notin> set ?F" "distinct ?F" using F u(2) by auto
    then have b: "?i < ur_bump u" "?i < length (ur_states u)" using u(1,4) order_less_le_trans by blast+
    have mem: "j \<noteq> ?i \<Longrightarrow> j \<in> set ?F \<longleftrightarrow> j \<in> set (ur_free_list u)" for j by (simp add: F)
    have "users_ok ?u \<and> same_view u ?u"
      using fresh_slot_ok [OF assms(1) None, of ?i "ur_bump u" "(ur_states u)[?i := user_state_new uid]" ?F]
        i b mem u(1,3) by auto
    moreover have "get_or_assign u uid = Some (?i, ?u)"
      using None b by (simp add: get_or_assign_def Let_def store_at_Some F)
    ultimately show ?thesis by auto
  next
    case True
    let ?i = "ur_bump u"
    let ?st = "if ?i \<ge> length (ur_states u) then ur_states u @ [user_state_new uid] else (ur_states u)[?i := user_state_new uid]"
    let ?u = "u\<lparr>ur_states := ?st, ur_map := (ur_map u)(uid \<mapsto> ?i), ur_free_list := [], ur_bump := ?i + 1\<rparr>"
    have st: "?i + 1 \<le> length ?st" "?st ! ?i = user_state_new uid" "\<And>j. j < ?i \<Longrightarrow> ?st ! j = ur_states u ! j"
      using u(1) by (auto simp: nth_append)
    have "users_ok ?u \<and> same_view u ?u"
      using fresh_slot_ok [OF assms(1) None, of ?i "?i + 1" ?st "[]"] st u(3) True
      by (auto simp: less_Suc_eq simp del: nth_list_update_eq split del: if_split)
    moreover have "get_or_assign u uid = Some (?i, ?u)"
      using True None assms(2) by (simp add: get_or_assign_def Let_def users_room_def ur_contains_def)
    ultimately show ?thesis by auto
  qed
qed

text \<open>The operations that assign a slot and then rewrite it, in one lemma.\<close>

lemma assign_and_poke:
  assumes "users_ok u" and "ur_contains u uid \<or> users_room u"
    and keep: "\<And>s. us_user_id (f s) = us_user_id s"
    and net: "\<And>s. us_net_qty (f s) = g (us_net_qty s)" and cnt: "\<And>s. us_order_count (f s) = k (us_order_count s)"
  shows "\<exists>u'. do { (idx, u') \<leftarrow> get_or_assign u uid; s \<leftarrow> index_of (ur_states u') idx;
        Some (u'\<lparr>ur_states := (ur_states u')[idx := f s]\<rparr>) } = Some u' \<and> users_ok u' \<and>
      position_of u' = (position_of u)(uid := g (position_of u uid)) \<and>
      resting_of u' = (resting_of u)(uid := k (resting_of u uid)) \<and>
      dom (ur_map u') = insert uid (dom (ur_map u))"
proof -
  obtain i u1 where u1: "get_or_assign u uid = Some (i, u1)" "users_ok u1" "ur_map u1 = (ur_map u)(uid \<mapsto> i)" "same_view u u1"
    using get_or_assign_ok [OF assms(1,2)] by blast
  let ?s = "ur_states u1 ! i"
  have m: "ur_map u1 uid = Some i" using u1(3) by simp
  have id: "us_user_id (f ?s) = uid" using users_okD(3) [OF u1(2)] m keep by auto
  have "position_of u uid = us_net_qty ?s" "resting_of u uid = us_order_count ?s"
    using u1(4) m by (auto simp: same_view_def position_of_def resting_of_def dest!: fun_cong [of _ _ uid])
  with poke_ok [OF u1(2) m id] u1 net cnt mapped_bound [OF u1(2) m] show ?thesis
    by (auto simp: index_of_Some poke_def same_view_def)
qed

lemma add_order_ok:
  assumes "users_ok u" and "ur_contains u uid \<or> users_room u" and "resting_of u uid < u32_max"
  shows "\<exists>u'. add_order u uid = Some u' \<and> users_ok u' \<and> position_of u' = position_of u \<and>
    resting_of u' = (resting_of u)(uid := resting_of u uid + 1) \<and> dom (ur_map u') = insert uid (dom (ur_map u))"
proof -
  have "u32_add (resting_of u uid) 1 = resting_of u uid + 1" using assms(3) by (simp add: u32_add_id u32_max_def)
  with assign_and_poke [OF assms(1,2), of "\<lambda>s. s\<lparr>us_order_count := u32_add (us_order_count s) 1\<rparr>" id "\<lambda>c. u32_add c 1"]
  show ?thesis by (auto simp: add_order_def)
qed

lemma add_net_ok:
  assumes "users_ok u" and "ur_contains u uid \<or> users_room u"
  shows "\<exists>u'. add_net u uid d = Some u' \<and> users_ok u' \<and>
    position_of u' = (position_of u)(uid := sat_add (position_of u uid) d) \<and> resting_of u' = resting_of u \<and>
    dom (ur_map u') = insert uid (dom (ur_map u))"
  using assign_and_poke [OF assms, of "\<lambda>s. s\<lparr>us_net_qty := sat_add (us_net_qty s) d\<rparr>" "\<lambda>n. sat_add n d" id]
  by (auto simp: add_net_def)

lemma remove_order_ok:
  assumes "users_ok u"
  shows "\<exists>u'. remove_order u uid = Some u' \<and> users_ok u' \<and> position_of u' = position_of u \<and>
    resting_of u' = (resting_of u)(uid := resting_of u uid - 1) \<and> ur_map u' = ur_map u"
proof (cases "ur_map u uid")
  case None
  then show ?thesis using assms by (auto simp: remove_order_def resting_of_def fun_eq_iff)
next
  case (Some i)
  let ?s = "(ur_states u ! i)\<lparr>us_order_count := us_order_count (ur_states u ! i) - 1\<rparr>"
  have "us_user_id ?s = uid" using users_okD(3) [OF assms] Some by auto
  from poke_ok [OF assms Some this] Some mapped_bound [OF assms Some] show ?thesis
    by (auto simp: remove_order_def poke_def index_of_Some position_of_def resting_of_def fun_upd_idem fun_eq_iff)
qed

text \<open>The signed quantity of a fill, for the taker; the maker gets its negation.\<close>

definition signed_qty :: "side \<Rightarrow> i64 \<Rightarrow> i64" where
  "signed_qty sd q = (case sd of Buy \<Rightarrow> q | Sell \<Rightarrow> - q)"

lemma users_apply_fill_ok:
  assumes "users_ok u" and "ur_contains u taker \<or> users_room u" and "ur_contains u maker" and "0 \<le> q" and "q \<le> i64_max"
  shows "\<exists>u'. users_apply_fill u taker maker sd q = Some u' \<and> users_ok u' \<and> resting_of u' = resting_of u \<and>
    position_of u' = (let P = (position_of u)(taker := sat_add (position_of u taker) (signed_qty sd q))
                      in P(maker := sat_add (P maker) (- signed_qty sd q))) \<and>
    dom (ur_map u') = insert taker (dom (ur_map u))"
proof -
  have d: "i64_mul (case sd of Buy \<Rightarrow> 1 | Sell \<Rightarrow> -1) q = signed_qty sd q"
    "i64_neg (signed_qty sd q) = - signed_qty sd q"
    using assms(4,5) by (cases sd; simp add: i64_mul_def i64_neg_def signed_qty_def wrap64_id in_i64_iff i64_max_def)+
  obtain u1 where u1: "add_net u taker (signed_qty sd q) = Some u1" "users_ok u1" "resting_of u1 = resting_of u"
    "position_of u1 = (position_of u)(taker := sat_add (position_of u taker) (signed_qty sd q))"
    "dom (ur_map u1) = insert taker (dom (ur_map u))" using add_net_ok [OF assms(1,2)] by blast
  have m: "ur_contains u1 maker" using u1(5) assms(3) by (auto simp: ur_contains_def)
  from add_net_ok [OF u1(2) disjI1 [OF m], of "- signed_qty sd q"] u1 m assms(3) show ?thesis
    by (auto simp: users_apply_fill_def d Let_def ur_contains_def)
qed

section \<open>Reclaiming idle users\<close>

lemma reclaim_ok:
  assumes "users_ok u" and "ur_map u uid = Some i" and "is_idle (ur_states u ! i)"
  defines "u' \<equiv> u\<lparr>ur_map := (ur_map u)(uid := None), ur_states := (ur_states u)[i := user_state_default],
    ur_free_list := ur_free_list u @ [i]\<rparr>"
  shows "users_ok u' \<and> same_view u u'"
proof
  note u = users_okD [OF assms(1)]
  have i: "i < ur_bump u" "i \<notin> set (ur_free_list u)" "us_user_id (ur_states u ! i) = uid" "i < length (ur_states u)"
    using assms(2) u(3) mapped_bound [OF assms(1,2)] by auto
  have "((ur_map u)(uid := None)) v = Some j \<longleftrightarrow> j < ur_bump u \<and> j \<notin> set (ur_free_list u @ [i]) \<and>
      us_user_id ((ur_states u)[i := user_state_default] ! j) = v" for v j
    using i u(3) [of v j] u(3) [of uid j] assms(2) by (cases "j = i") (auto simp: nth_list_update)
  with i u show "users_ok u'" by (auto simp: users_ok_def u'_def nth_list_update)
  have "ur_map u v = Some j \<Longrightarrow> v \<noteq> uid \<Longrightarrow> (ur_states u)[i := user_state_default] ! j = ur_states u ! j" for v j
    using i u(3) by (auto simp: nth_list_update)
  then show "same_view u u'"
    using assms(2,3) by (auto simp: same_view_def u'_def position_of_def resting_of_def is_idle_def fun_eq_iff split: option.split)
qed

lemma cursor_upd [simp]:
  "position_of (u\<lparr>ur_cursor := k\<rparr>) = position_of u" "resting_of (u\<lparr>ur_cursor := k\<rparr>) = resting_of u"
  "users_ok (u\<lparr>ur_cursor := k\<rparr>) = users_ok u"
  by (rule ext, simp add: position_of_def resting_of_def split: option.split)+ (simp add: users_ok_def)

lemma maintain_one_ok:
  assumes "users_ok u"
  shows "\<exists>r u'. maintain_one u now_ns rp = Some (r, u') \<and> users_ok u' \<and> same_view u u' \<and>
    (case r of None \<Rightarrow> ur_map u' = ur_map u
     | Some uid \<Rightarrow> ur_contains u uid \<and> position_of u uid = 0 \<and> resting_of u uid = 0 \<and> ur_map u' = (ur_map u)(uid := None))"
proof (cases "rp \<or> ur_bump u = 0")
  case True
  then show ?thesis using assms by (simp add: maintain_one_def same_view_def)
next
  case False
  define i where "i = ur_cursor u mod ur_bump u"
  define u1 where "u1 = u\<lparr>ur_cursor := u32_add (ur_cursor u) 1 mod ur_bump u\<rparr>"
  let ?s = "ur_states u ! i"
  have u1: "users_ok u1" "same_view u u1" "ur_map u1 = ur_map u" "ur_states u1 = ur_states u"
    using assms by (simp_all add: u1_def same_view_def)
  have "i < ur_bump u" using False by (simp add: i_def)
  then have i: "i < ur_bump u" "i < length (ur_states u)" using users_okD(1) [OF assms] by simp_all
  have run: "maintain_one u now_ns rp =
    (if us_user_id ?s = 0 then Some (None, u1)
     else if \<not> is_idle ?s then Some (None, poke u1 i (clear_zero_mark ?s))
     else if us_zero_since_ns ?s = 0 then Some (None, poke u1 i (mark_zero_if_idle ?s now_ns))
     else if now_ns - us_zero_since_ns ?s < RECLAIM_GRACE_NS then Some (None, u1)
     else Some (Some (us_user_id ?s), u1\<lparr>ur_map := (ur_map u1)(us_user_id ?s := None),
             ur_states := (ur_states u1)[i := user_state_default], ur_free_list := ur_free_list u1 @ [i]\<rparr>))"
    using False i(2) by (simp add: maintain_one_def Let_def i_def [symmetric] u1_def index_of_Some poke_def)
  show ?thesis
  proof (cases "us_user_id ?s = 0")
    case True
    then show ?thesis using run u1 by simp
  next
    case False
    then have m: "ur_map u1 (us_user_id ?s) = Some i"
      using i users_okD(3,4) [OF assms] u1(3) by (fastforce simp: user_state_default_def user_state_new_def)
    have poked: "users_ok (poke u1 i s) \<and> same_view u (poke u1 i s) \<and> ur_map (poke u1 i s) = ur_map u"
      if "us_user_id s = us_user_id ?s" "us_net_qty s = us_net_qty ?s" "us_order_count s = us_order_count ?s" for s
      using poke_ok [OF u1(1) m that(1)] u1 that m
      by (auto simp: same_view_def position_of_def resting_of_def fun_eq_iff)
    have gone: "is_idle ?s \<Longrightarrow> ur_contains u (us_user_id ?s) \<and> position_of u (us_user_id ?s) = 0 \<and> resting_of u (us_user_id ?s) = 0"
      using m u1(3) by (auto simp: ur_contains_def position_of_def resting_of_def is_idle_def)
    note rec = reclaim_ok [OF u1(1) m, unfolded u1(4)]
    have "same_view u u2" if "same_view u1 u2" for u2 using that u1(2) by (simp add: same_view_def)
    with False run u1 poked [of "clear_zero_mark ?s"] poked [of "mark_zero_if_idle ?s now_ns"] gone rec
    show ?thesis by (auto simp: clear_zero_mark_def mark_zero_if_idle_def)
  qed
qed

definition maintain_step :: "user_registry \<Rightarrow> u64 \<Rightarrow> user_registry" where
  "maintain_step u now_ns = (case maintain_one u now_ns False of Some (r, u') \<Rightarrow> u' | None \<Rightarrow> u)"

interpretation upkeep: transition_invariant maintain_step
    "\<lambda>u. users_ok u \<and> position_of u = P \<and> resting_of u = R" for P R
proof
  fix u now_ns assume "users_ok u \<and> position_of u = P \<and> resting_of u = R"
  with maintain_one_ok [of u now_ns False]
  show "users_ok (maintain_step u now_ns) \<and> position_of (maintain_step u now_ns) = P \<and> resting_of (maintain_step u now_ns) = R"
    by (auto simp: maintain_step_def same_view_def)
qed

section \<open>The contract of a ledger of positions\<close>

type_synonym fill_entry = "u32 \<times> u32 \<times> side \<times> i64"

fun entry_delta :: "fill_entry \<Rightarrow> u32 \<Rightarrow> int" where
  "entry_delta (taker, maker, sd, q) uid =
     (if uid = taker then signed_qty sd q else 0) - (if uid = maker then signed_qty sd q else 0)"

fun entry_qty :: "fill_entry \<Rightarrow> i64" where
  "entry_qty (taker, maker, sd, q) = q"

fun entry_users :: "fill_entry \<Rightarrow> u32 set" where
  "entry_users (taker, maker, sd, q) = {taker, maker}"

locale fill_ledger =
  fixes lok :: "'u \<Rightarrow> bool" and knows :: "'u \<Rightarrow> u32 \<Rightarrow> bool" and pos :: "'u \<Rightarrow> u32 \<Rightarrow> i64"
    and book_fill :: "'u \<Rightarrow> u32 \<Rightarrow> u32 \<Rightarrow> side \<Rightarrow> i64 \<Rightarrow> 'u option"
  assumes fill_law: "lok u \<Longrightarrow> knows u taker \<Longrightarrow> knows u maker \<Longrightarrow> 0 \<le> q \<Longrightarrow> q \<le> i64_max \<Longrightarrow>
      \<exists>u'. book_fill u taker maker sd q = Some u' \<and> lok u' \<and> knows u' = knows u \<and>
        pos u' = (let P = (pos u)(taker := sat_add (pos u taker) (signed_qty sd q))
                  in P(maker := sat_add (P maker) (- signed_qty sd q)))"
begin

fun book_fills :: "'u \<Rightarrow> fill_entry list \<Rightarrow> 'u option" where
  "book_fills u [] = Some u"
| "book_fills u ((taker, maker, sd, q) # es) = do { u' \<leftarrow> book_fill u taker maker sd q; book_fills u' es }"

text \<open>While no position can reach the limits of \<open>i64\<close>, the positions are the sums of the fills.\<close>

lemma book_fills_exact:
  assumes "lok u" and "\<forall>e\<in>set es. 0 \<le> entry_qty e \<and> (\<forall>x\<in>entry_users e. knows u x)"
    and "\<forall>x. \<bar>pos u x\<bar> + (\<Sum>e\<leftarrow>es. entry_qty e) \<le> i64_max"
  shows "\<exists>u'. book_fills u es = Some u' \<and> lok u' \<and> (\<forall>x. pos u' x = pos u x + (\<Sum>e\<leftarrow>es. entry_delta e x))"
  using assms
proof (induction es arbitrary: u)
  case Nil
  then show ?case by simp
next
  case (Cons e es)
  obtain t m sd q where e: "e = (t, m, sd, q)" by (cases e)
  have q: "0 \<le> q" "knows u t" "knows u m" using Cons.prems(2) e by auto
  have rest: "0 \<le> (\<Sum>e\<leftarrow>es. entry_qty e)" using Cons.prems(2) by (intro sum_list_nonneg) auto
  have bound: "\<bar>pos u x\<bar> + q + (\<Sum>e\<leftarrow>es. entry_qty e) \<le> i64_max" for x
    using Cons.prems(3) e by (simp add: algebra_simps)
  have "q \<le> i64_max" using bound [of t] rest by linarith
  from fill_law [OF Cons.prems(1) q(2,3,1) this, of sd] obtain u1 where u1: "book_fill u t m sd q = Some u1" "lok u1"
    "knows u1 = knows u" "pos u1 = (let P = (pos u)(t := sat_add (pos u t) (signed_qty sd q))
                  in P(m := sat_add (P m) (- signed_qty sd q)))" by blast
  have sq: "\<bar>signed_qty sd q\<bar> = q" using q(1) by (cases sd) (auto simp: signed_qty_def)
  have near: "\<bar>a\<bar> \<le> i64_max \<Longrightarrow> in_i64 a" for a by (auto simp: in_i64_iff i64_max_def)
  have t: "sat_add (pos u t) (signed_qty sd q) = pos u t + signed_qty sd q"
    using bound [of t] rest sq by (intro sat_add_id near) linarith
  have m: "sat_add (pos u m) (- signed_qty sd q) = pos u m - signed_qty sd q"
    using bound [of m] rest sq by (subst sat_add_id) (auto intro!: near)
  have tt: "sat_add (pos u t + signed_qty sd q) (- signed_qty sd q) = pos u t"
    using bound [of t] rest q(1) by (subst sat_add_id) (auto intro!: near)
  have p1: "pos u1 x = pos u x + entry_delta e x" for x
    using u1(4) t m tt e by (auto simp: Let_def)
  have "\<bar>pos u1 x\<bar> + (\<Sum>e\<leftarrow>es. entry_qty e) \<le> i64_max" for x
  proof -
    have "\<bar>entry_delta e x\<bar> \<le> q" using e sq q(1) by auto
    then show ?thesis using bound [of x] p1 [of x] by linarith
  qed
  with Cons.IH [OF u1(2)] Cons.prems(2) u1(3) obtain u2 where
    "book_fills u1 es = Some u2" "lok u2" "\<forall>x. pos u2 x = pos u1 x + (\<Sum>e\<leftarrow>es. entry_delta e x)" by auto
  with u1(1) e p1 show ?case by auto
qed

lemma entry_zero_sum:
  assumes "finite U" and "entry_users e \<subseteq> U" shows "(\<Sum>x\<in>U. entry_delta e x) = 0"
  using assms by (cases e) (auto simp: sum_subtractf sum.delta)

lemma book_fills_zero_sum:
  assumes "lok u" and "\<forall>e\<in>set es. 0 \<le> entry_qty e \<and> (\<forall>x\<in>entry_users e. knows u x)"
    and "\<forall>x. \<bar>pos u x\<bar> + (\<Sum>e\<leftarrow>es. entry_qty e) \<le> i64_max"
    and "finite U" and "\<forall>e\<in>set es. entry_users e \<subseteq> U"
  shows "\<exists>u'. book_fills u es = Some u' \<and> (\<Sum>x\<in>U. pos u' x) = (\<Sum>x\<in>U. pos u x)"
proof -
  obtain u' where u': "book_fills u es = Some u'" "\<forall>x. pos u' x = pos u x + (\<Sum>e\<leftarrow>es. entry_delta e x)"
    using book_fills_exact [OF assms(1-3)] by blast
  have "(\<Sum>x\<in>U. \<Sum>e\<leftarrow>es. entry_delta e x) = 0"
    using assms(5)
  proof (induction es)
    case (Cons e es)
    then show ?case using entry_zero_sum [OF assms(4), of e] by (simp add: sum.distrib)
  qed simp
  with u' show ?thesis by (auto simp: sum.distrib)
qed

end

interpretation user_ledger: fill_ledger users_ok ur_contains position_of users_apply_fill
proof
  fix u taker maker sd and q :: int
  assume "users_ok u" "ur_contains u taker" "ur_contains u maker" "0 \<le> q" "q \<le> i64_max"
  with users_apply_fill_ok [of u taker maker q sd]
  show "\<exists>u'. users_apply_fill u taker maker sd q = Some u' \<and> users_ok u' \<and> ur_contains u' = ur_contains u \<and>
    position_of u' = (let P = (position_of u)(taker := sat_add (position_of u taker) (signed_qty sd q))
                  in P(maker := sat_add (P maker) (- signed_qty sd q)))"
    by (fastforce simp: ur_contains_def fun_eq_iff dom_def insert_absorb)
qed

section \<open>Properties\<close>

text \<open>
  Fills are zero-sum. Any sequence of fills between known users runs without a panic, every
  user ends with exactly the signed sum of its fills added to its position, and the sum of all
  positions is unchanged, as long as no position could reach the limit at which \<open>saturating_add\<close> clamps.
\<close>

theorem fills_zero_sum:
  assumes "users_ok u" and "\<forall>e\<in>set es. 0 \<le> entry_qty e \<and> (\<forall>x\<in>entry_users e. ur_contains u x)"
    and "\<forall>x. \<bar>position_of u x\<bar> + (\<Sum>e\<leftarrow>es. entry_qty e) \<le> i64_max"
    and "finite U" and "\<forall>e\<in>set es. entry_users e \<subseteq> U"
  shows "\<exists>u'. user_ledger.book_fills u es = Some u' \<and> users_ok u' \<and>
    (\<forall>x. position_of u' x = position_of u x + (\<Sum>e\<leftarrow>es. entry_delta e x)) \<and>
    (\<Sum>x\<in>U. position_of u' x) = (\<Sum>x\<in>U. position_of u x)"
  using user_ledger.book_fills_exact [OF assms(1-3)] user_ledger.book_fills_zero_sum [OF assms] by auto

definition two_users :: user_registry where
  "two_users = \<lparr>ur_states = [user_state_new 7, user_state_new 9], ur_map = [7 \<mapsto> 0, 9 \<mapsto> 1],
     ur_free_list = [], ur_bump = 2, ur_cursor = 0\<rparr>"

lemma two_users_ok: "users_ok two_users" "position_of two_users = (\<lambda>x. 0)" "resting_of two_users = (\<lambda>x. 0)"
  by (auto simp: two_users_def users_ok_def position_of_def resting_of_def user_state_new_def nth_Cons' fun_eq_iff)

theorem fills_zero_sum_witness:
  "\<exists>u'. user_ledger.book_fills two_users [(7, 9, Buy, 5), (9, 7, Buy, 2)] = Some u' \<and>
    position_of u' 7 = 3 \<and> position_of u' 9 = -3 \<and> (\<Sum>x\<in>{7, 9}. position_of u' x) = 0"
  using fills_zero_sum [of two_users "[(7, 9, Buy, 5), (9, 7, Buy, 2)]" "{7, 9}"] two_users_ok
  by (auto simp: two_users_def ur_contains_def signed_qty_def i64_max_def)

text \<open>
  Reclaiming idle users is invisible. Whatever the sequence of maintenance steps and their clock
  readings, no user's position or resting-order count changes; and a step that reclaims a user reclaims
  one that was registered, flat and without resting orders.
\<close>

theorem maintenance_invisible:
  assumes "users_ok u"
  shows "users_ok (foldl maintain_step u nows) \<and> position_of (foldl maintain_step u nows) = position_of u \<and>
      resting_of (foldl maintain_step u nows) = resting_of u \<and>
      (\<exists>r u'. maintain_one u now_ns rp = Some (r, u') \<and>
        (\<forall>uid. r = Some uid \<longrightarrow> ur_contains u uid \<and> position_of u uid = 0 \<and> resting_of u uid = 0 \<and> \<not> ur_contains u' uid))"
proof -
  have "\<exists>r u'. maintain_one u now_ns rp = Some (r, u') \<and>
        (\<forall>uid. r = Some uid \<longrightarrow> ur_contains u uid \<and> position_of u uid = 0 \<and> resting_of u uid = 0 \<and> \<not> ur_contains u' uid)"
    using maintain_one_ok [OF assms, of now_ns rp] by (fastforce simp: ur_contains_def)
  with upkeep.run_good [of u "position_of u" "resting_of u" nows] assms show ?thesis by blast
qed

theorem maintenance_invisible_witness:
  "position_of (foldl maintain_step two_users [5, 6, 70000000000]) 7 = 0 \<and>
   ur_map (foldl maintain_step two_users [5, 6, 70000000000]) 7 = None \<and>
   ur_map (foldl maintain_step two_users [5, 6, 70000000000]) 9 = Some 1"
proof -
  have "position_of (foldl maintain_step two_users [5, 6, 70000000000]) 7 = 0"
    using maintenance_invisible [OF two_users_ok(1), of "[5, 6, 70000000000]"] two_users_ok(2) by metis
  moreover have "ur_map (foldl maintain_step two_users [5, 6, 70000000000]) 7 = None \<and>
    ur_map (foldl maintain_step two_users [5, 6, 70000000000]) 9 = Some 1" by code_simp
  ultimately show ?thesis by blast
qed

end
