(* ===== verification/Book.thy ===== *)
theory Book
  imports Occupancy Order_Slab User_Registry
begin

text \<open>
  The order book of \<open>rsx-book\<close>: \<open>level.rs\<close>, \<open>event.rs\<close> and \<open>book.rs\<close>. A price level is the head of a
  doubly-linked list of orders threaded through the slab, with its total quantity and its counts per
  side. The loops that walk a level are instances of \<open>walk\<close>, a fold along the \<open>next\<close> links that may
  run forever on a cyclic list.
\<close>

section \<open>Definitions\<close>

subsection \<open>Levels and events\<close>

record price_level =
  pl_head :: u32
  pl_tail :: u32
  pl_total_qty :: i64
  pl_order_count :: u32
  pl_bid_count :: u32
  pl_ask_count :: u32

definition price_level_default :: price_level where
  "price_level_default = \<lparr>pl_head = NONE, pl_tail = NONE, pl_total_qty = 0, pl_order_count = 0,
     pl_bid_count = 0, pl_ask_count = 0\<rparr>"

definition MAX_EVENTS :: usize where "MAX_EVENTS = 65536"
definition MAX_MAKERS_PER_ORDER :: usize where "MAX_MAKERS_PER_ORDER = (MAX_EVENTS - 4) div 2"

datatype order_done_reason = Filled | UserCancel | Expired | PostOnly | MatchLimit

datatype order_failure_reason = InvalidTick | ReduceOnly | FillOrKill | Duplicate | InvalidLot

datatype event =
    Fill (fill_maker_handle: u32) (fill_maker_tif: u8) (fill_maker_reduce_only: bool) (fill_maker_user_id: u32)
      (fill_taker_user_id: u32) (fill_price: i64) (fill_qty: i64) (fill_side: u8)
      (fill_maker_order_id_hi: u64) (fill_maker_order_id_lo: u64)
      (fill_taker_order_id_hi: u64) (fill_taker_order_id_lo: u64) (fill_gw_in_ns: u64)
  | OrderInserted (ins_handle: u32) (ins_user_id: u32) (ins_side: u8) (ins_price: i64) (ins_qty: i64)
      (ins_order_id_hi: u64) (ins_order_id_lo: u64)
  | OrderCancelled (can_handle: u32) (can_user_id: u32) (can_remaining_qty: i64)
      (can_order_id_hi: u64) (can_order_id_lo: u64)
  | OrderDone (done_handle: u32) (done_tif: u8) (done_reduce_only: bool) (done_user_id: u32)
      (done_reason: order_done_reason) (done_filled_qty: i64) (done_remaining_qty: i64)
      (done_order_id_hi: u64) (done_order_id_lo: u64)
  | OrderFailed (fail_user_id: u32) (fail_reason: order_failure_reason)
      (fail_order_id_hi: u64) (fail_order_id_lo: u64)
  | BBO (bbo_event_bid_px: i64) (bbo_event_bid_qty: i64) (bbo_event_ask_px: i64) (bbo_event_ask_qty: i64)

subsection \<open>The book\<close>

datatype book_state = Normal | Migrating

record bbo =
  bbo_bid_px :: i64
  bbo_bid_qty :: i64
  bbo_ask_px :: i64
  bbo_ask_qty :: i64

record book_config =
  bc_symbol_id :: u32
  bc_tick_size :: i64
  bc_lot_size :: i64

definition book_config_from :: "symbol_config \<Rightarrow> book_config" where
  "book_config_from config =
     \<lparr>bc_symbol_id = sc_symbol_id config, bc_tick_size = sc_tick_size config, bc_lot_size = sc_lot_size config\<rparr>"

record orderbook =
  ob_active_levels :: "price_level list"
  ob_staging_levels :: "price_level list"
  ob_orders :: slab
  ob_best_bid_tick :: u32
  ob_best_ask_tick :: u32
  ob_best_bid_px :: i64
  ob_best_ask_px :: i64
  ob_compression :: compression_map
  ob_bid_occ :: occupancy
  ob_ask_occ :: occupancy
  ob_price_asc :: "(u32 \<times> u32) list"
  ob_state :: book_state
  ob_config :: book_config
  ob_sequence :: u64
  ob_event_buf :: "event list"
  ob_users :: user_registry
  ob_old_levels :: "price_level list option"
  ob_old_compression :: "compression_map option"
  ob_bid_frontier :: i64
  ob_ask_frontier :: i64
  ob_old_min_price :: i64
  ob_old_max_price :: i64

definition orderbook_new :: "book_config \<Rightarrow> u32 \<Rightarrow> i64 \<Rightarrow> orderbook option" where
  "orderbook_new config capacity mid_price = do {
     compression \<leftarrow> compression_new mid_price (bc_tick_size config);
     let total = total_slots compression;
     Some \<lparr>ob_active_levels = replicate total price_level_default,
           ob_staging_levels = replicate total price_level_default,
           ob_orders = slab_new capacity,
           ob_best_bid_tick = NONE, ob_best_ask_tick = NONE, ob_best_bid_px = 0, ob_best_ask_px = 0,
           ob_compression = compression,
           ob_bid_occ = occupancy_new total, ob_ask_occ = occupancy_new total,
           ob_price_asc = build_price_asc compression,
           ob_state = Normal, ob_config = config, ob_sequence = 0, ob_event_buf = [],
           ob_users = user_registry_new, ob_old_levels = None, ob_old_compression = None,
           ob_bid_frontier = mid_price, ob_ask_frontier = mid_price,
           ob_old_min_price = 0, ob_old_max_price = 0\<rparr>
   }"

definition emit :: "orderbook \<Rightarrow> event \<Rightarrow> orderbook option" where
  "emit b e = do {
     assert_that (length (ob_event_buf b) < MAX_EVENTS);
     Some (b\<lparr>ob_event_buf := ob_event_buf b @ [e]\<rparr>)
   }"

definition maintain_users :: "orderbook \<Rightarrow> u64 \<Rightarrow> bool \<Rightarrow> (u32 option \<times> orderbook) option" where
  "maintain_users b now_ns replay_mode = do {
     (r, u) \<leftarrow> maintain_one (ob_users b) now_ns replay_mode;
     Some (r, b\<lparr>ob_users := u\<rparr>)
   }"

definition is_migrating :: "orderbook \<Rightarrow> bool" where
  "is_migrating b \<longleftrightarrow> ob_state b = Migrating"

definition update_config :: "orderbook \<Rightarrow> book_config \<Rightarrow> orderbook" where
  "update_config b new_config = b\<lparr>ob_config := new_config\<rparr>"

subsection \<open>Inserting\<close>

text \<open>The level part of \<open>insert_resting\<close>: link the handle behind the tail.\<close>

definition link_tail :: "slab \<Rightarrow> price_level \<Rightarrow> u32 \<Rightarrow> (slab \<times> price_level) option" where
  "link_tail orders level handle =
     (if pl_order_count level = 0 then Some (orders, level\<lparr>pl_head := handle, pl_tail := handle\<rparr>)
      else do {
        let old_tail = pl_tail level;
        t \<leftarrow> slab_get orders old_tail;
        orders1 \<leftarrow> slab_put orders old_tail (t\<lparr>os_next := handle\<rparr>);
        s \<leftarrow> slab_get orders1 handle;
        orders2 \<leftarrow> slab_put orders1 handle (s\<lparr>os_prev := old_tail\<rparr>);
        Some (orders2, level\<lparr>pl_tail := handle\<rparr>)
      })"

text \<open>The counters of a level when an order of side \<open>sd\<close> (a wire byte) joins; the flag is \<open>side_was_empty\<close>.\<close>

definition count_in :: "price_level \<Rightarrow> u8 \<Rightarrow> i64 \<Rightarrow> bool \<times> price_level" where
  "count_in level sd qty =
     (let level1 = level\<lparr>pl_total_qty := i64_add (pl_total_qty level) qty,
                         pl_order_count := u32_add (pl_order_count level) 1\<rparr>
      in if sd = side_u8 Buy
         then (pl_bid_count level1 = 0, level1\<lparr>pl_bid_count := u32_add (pl_bid_count level1) 1\<rparr>)
         else (pl_ask_count level1 = 0, level1\<lparr>pl_ask_count := u32_add (pl_ask_count level1) 1\<rparr>))"

definition occ_mark :: "orderbook \<Rightarrow> u8 \<Rightarrow> u32 \<Rightarrow> orderbook option" where
  "occ_mark b sd tick =
     (if sd = side_u8 Buy then do { oc \<leftarrow> occ_set (ob_bid_occ b) tick; Some (b\<lparr>ob_bid_occ := oc\<rparr>) }
      else do { oc \<leftarrow> occ_set (ob_ask_occ b) tick; Some (b\<lparr>ob_ask_occ := oc\<rparr>) })"

definition occ_unmark :: "orderbook \<Rightarrow> u8 \<Rightarrow> u32 \<Rightarrow> orderbook option" where
  "occ_unmark b sd tick =
     (if sd = side_u8 Buy then do { oc \<leftarrow> occ_clear (ob_bid_occ b) tick; Some (b\<lparr>ob_bid_occ := oc\<rparr>) }
      else do { oc \<leftarrow> occ_clear (ob_ask_occ b) tick; Some (b\<lparr>ob_ask_occ := oc\<rparr>) })"

definition raise_best :: "orderbook \<Rightarrow> side \<Rightarrow> i64 \<Rightarrow> u32 \<Rightarrow> orderbook" where
  "raise_best b sd price tick = (case sd of
     Buy \<Rightarrow> if ob_best_bid_tick b = NONE \<or> price > ob_best_bid_px b
            then b\<lparr>ob_best_bid_tick := tick, ob_best_bid_px := price\<rparr> else b
   | Sell \<Rightarrow> if ob_best_ask_tick b = NONE \<or> price < ob_best_ask_px b
            then b\<lparr>ob_best_ask_tick := tick, ob_best_ask_px := price\<rparr> else b)"

definition new_slot :: "order_slot \<Rightarrow> i64 \<Rightarrow> i64 \<Rightarrow> side \<Rightarrow> u8 \<Rightarrow> u32 \<Rightarrow> bool \<Rightarrow> u64 \<Rightarrow> u64 \<Rightarrow> u64 \<Rightarrow> u32 \<Rightarrow> u64 \<Rightarrow> order_slot" where
  "new_slot slot price qty sd tif user_id reduce_only timestamp_ns order_id_hi order_id_lo tick sequence =
     slot\<lparr>os_price := price, os_remaining_qty := qty, os_original_qty := qty, os_side := side_u8 sd,
          os_tif := tif, os_flags := (if reduce_only then ORDER_ACTIVE OR ORDER_REDUCE_ONLY else ORDER_ACTIVE),
          os_user_id := user_id, os_tick_index := tick, os_timestamp_ns := timestamp_ns,
          os_order_id_hi := order_id_hi, os_order_id_lo := order_id_lo,
          os_next := NONE, os_prev := NONE, os_sequence := u64_as_u32 sequence\<rparr>"

definition insert_resting ::
  "orderbook \<Rightarrow> i64 \<Rightarrow> i64 \<Rightarrow> side \<Rightarrow> u8 \<Rightarrow> u32 \<Rightarrow> bool \<Rightarrow> u64 \<Rightarrow> u64 \<Rightarrow> u64 \<Rightarrow> (u32 \<times> orderbook) option" where
  "insert_resting b price qty sd tif user_id reduce_only timestamp_ns order_id_hi order_id_lo = do {
     tick \<leftarrow> price_to_index (ob_compression b) price;
     (handle, orders0) \<leftarrow> alloc (ob_orders b);
     slot \<leftarrow> slab_get orders0 handle;
     let sequence = u64_add (ob_sequence b) 1;
     orders1 \<leftarrow> slab_put orders0 handle
       (new_slot slot price qty sd tif user_id reduce_only timestamp_ns order_id_hi order_id_lo tick sequence);
     level \<leftarrow> index_of (ob_active_levels b) tick;
     (orders2, level1) \<leftarrow> link_tail orders1 level handle;
     let (side_was_empty, level2) = count_in level1 (side_u8 sd) qty;
     let b1 = b\<lparr>ob_orders := orders2, ob_sequence := sequence,
                ob_active_levels := (ob_active_levels b)[tick := level2]\<rparr>;
     b2 \<leftarrow> (if side_was_empty then occ_mark b1 (side_u8 sd) tick else Some b1);
     let b3 = raise_best b2 sd price tick;
     users \<leftarrow> add_order (ob_users b3) user_id;
     Some (handle, b3\<lparr>ob_users := users\<rparr>)
   }"

subsection \<open>Unlinking\<close>

definition unlink_order :: "orderbook \<Rightarrow> u32 \<Rightarrow> orderbook option" where
  "unlink_order b handle = do {
     slot \<leftarrow> slab_get (ob_orders b) handle;
     let tick = os_tick_index slot;
     let sd = os_side slot;
     let qty = os_remaining_qty slot;
     let prev = os_prev slot;
     let next = os_next slot;
     level \<leftarrow> index_of (ob_active_levels b) tick;
     (orders1, level1) \<leftarrow> (if prev \<noteq> NONE then do {
         p \<leftarrow> slab_get (ob_orders b) prev;
         orders1 \<leftarrow> slab_put (ob_orders b) prev (p\<lparr>os_next := next\<rparr>);
         Some (orders1, level)
       } else Some (ob_orders b, level\<lparr>pl_head := next\<rparr>));
     (orders2, level2) \<leftarrow> (if next \<noteq> NONE then do {
         n \<leftarrow> slab_get orders1 next;
         orders2 \<leftarrow> slab_put orders1 next (n\<lparr>os_prev := prev\<rparr>);
         Some (orders2, level1)
       } else Some (orders1, level1\<lparr>pl_tail := prev\<rparr>));
     let level3 = level2\<lparr>pl_total_qty := sat_sub (pl_total_qty level2) qty,
                         pl_order_count := pl_order_count level2 - 1\<rparr>;
     let (side_now_empty, level4) =
       (if sd = side_u8 Buy
        then (pl_bid_count level3 - 1 = 0, level3\<lparr>pl_bid_count := pl_bid_count level3 - 1\<rparr>)
        else (pl_ask_count level3 - 1 = 0, level3\<lparr>pl_ask_count := pl_ask_count level3 - 1\<rparr>));
     let b1 = b\<lparr>ob_orders := orders2, ob_active_levels := (ob_active_levels b)[tick := level4]\<rparr>;
     if side_now_empty then occ_unmark b1 sd tick else Some b1
   }"

subsection \<open>Walks along a level\<close>

partial_function (option) walk :: "order_slot list \<Rightarrow> (order_slot \<Rightarrow> 'a \<Rightarrow> 'a) \<Rightarrow> 'a \<Rightarrow> u32 \<Rightarrow> 'a option" where
  "walk xs f acc cursor =
     (if cursor = NONE then Some acc
      else do { slot \<leftarrow> index_of xs cursor; walk xs f (f slot acc) (os_next slot) })"

declare walk.simps [code]

text \<open>The body of the loops of \<open>bid_top_at\<close> and \<open>ask_top_at\<close>.\<close>

definition bid_top_step :: "order_slot \<Rightarrow> i64 \<times> i64 \<Rightarrow> i64 \<times> i64" where
  "bid_top_step order acc = (case acc of (px, qty) \<Rightarrow>
     if os_side order = side_u8 Buy
     then (if os_price order > px then (os_price order, os_remaining_qty order)
           else if os_price order = px then (px, i64_add qty (os_remaining_qty order)) else (px, qty))
     else (px, qty))"

definition ask_top_step :: "order_slot \<Rightarrow> i64 \<times> i64 \<Rightarrow> i64 \<times> i64" where
  "ask_top_step order acc = (case acc of (px, qty) \<Rightarrow>
     if os_side order = side_u8 Sell
     then (if os_price order < px then (os_price order, os_remaining_qty order)
           else if os_price order = px then (px, i64_add qty (os_remaining_qty order)) else (px, qty))
     else (px, qty))"

definition bid_top_at :: "orderbook \<Rightarrow> u32 \<Rightarrow> (i64 \<times> i64) option" where
  "bid_top_at b tick =
     (if tick = NONE then Some (0, 0)
      else do {
        lvl \<leftarrow> index_of (ob_active_levels b) tick;
        if pl_bid_count lvl = 0 then Some (0, 0)
        else if tick < cp_zone_slots (ob_compression b) ! 0 then do {
          order \<leftarrow> slab_get (ob_orders b) (pl_head lvl);
          Some (os_price order, pl_total_qty lvl)
        }
        else walk (slots (ob_orders b)) bid_top_step (i64_min, 0) (pl_head lvl)
      })"

definition ask_top_at :: "orderbook \<Rightarrow> u32 \<Rightarrow> (i64 \<times> i64) option" where
  "ask_top_at b tick =
     (if tick = NONE then Some (0, 0)
      else do {
        lvl \<leftarrow> index_of (ob_active_levels b) tick;
        if pl_ask_count lvl = 0 then Some (0, 0)
        else if tick < cp_zone_slots (ob_compression b) ! 0 then do {
          order \<leftarrow> slab_get (ob_orders b) (pl_head lvl);
          Some (os_price order, pl_total_qty lvl)
        }
        else walk (slots (ob_orders b)) ask_top_step (i64_max, 0) (pl_head lvl)
      })"

definition scan_next_bid :: "orderbook \<Rightarrow> u32 option" where
  "scan_next_bid b = do {
     r \<leftarrow> scan_ranges (find_last_in (ob_bid_occ b)) (rev (ob_price_asc b));
     Some (case r of Some t \<Rightarrow> t | None \<Rightarrow> NONE)
   }"

definition scan_next_ask :: "orderbook \<Rightarrow> u32 option" where
  "scan_next_ask b = do {
     r \<leftarrow> scan_ranges (find_first_in (ob_ask_occ b)) (ob_price_asc b);
     Some (case r of Some t \<Rightarrow> t | None \<Rightarrow> NONE)
   }"

definition refresh_best_bid :: "orderbook \<Rightarrow> orderbook option" where
  "refresh_best_bid b = do {
     tick \<leftarrow> scan_next_bid b;
     let b1 = b\<lparr>ob_best_bid_tick := tick\<rparr>;
     (px, qty) \<leftarrow> bid_top_at b1 (ob_best_bid_tick b1);
     Some (b1\<lparr>ob_best_bid_px := px\<rparr>)
   }"

definition refresh_best_ask :: "orderbook \<Rightarrow> orderbook option" where
  "refresh_best_ask b = do {
     tick \<leftarrow> scan_next_ask b;
     let b1 = b\<lparr>ob_best_ask_tick := tick\<rparr>;
     (px, qty) \<leftarrow> ask_top_at b1 (ob_best_ask_tick b1);
     Some (b1\<lparr>ob_best_ask_px := px\<rparr>)
   }"

definition current_bbo :: "orderbook \<Rightarrow> bbo option" where
  "current_bbo b = do {
     (bid_px, bid_qty) \<leftarrow> bid_top_at b (ob_best_bid_tick b);
     (ask_px, ask_qty) \<leftarrow> ask_top_at b (ob_best_ask_tick b);
     Some \<lparr>bbo_bid_px = bid_px, bbo_bid_qty = bid_qty, bbo_ask_px = ask_px, bbo_ask_qty = ask_qty\<rparr>
   }"

subsection \<open>Cancelling and modifying\<close>

definition cancel_order :: "orderbook \<Rightarrow> u32 \<Rightarrow> (bool \<times> orderbook) option" where
  "cancel_order b handle = do {
     slot \<leftarrow> slab_get (ob_orders b) handle;
     if \<not> is_active slot then Some (False, b)
     else do {
       let tick = os_tick_index slot;
       let sd = os_side slot;
       b1 \<leftarrow> unlink_order b handle;
       b2 \<leftarrow> (if sd = side_u8 Buy
             then (if tick = ob_best_bid_tick b1 then refresh_best_bid b1 else Some b1)
             else (if tick = ob_best_ask_tick b1 then refresh_best_ask b1 else Some b1));
       s \<leftarrow> slab_get (ob_orders b2) handle;
       orders1 \<leftarrow> slab_put (ob_orders b2) handle (set_active s False);
       orders2 \<leftarrow> free orders1 handle;
       users \<leftarrow> remove_order (ob_users b2) (os_user_id slot);
       Some (True, b2\<lparr>ob_orders := orders2, ob_users := users\<rparr>)
     }
   }"

definition order_matches :: "orderbook \<Rightarrow> u32 \<Rightarrow> u32 \<Rightarrow> u64 \<Rightarrow> u64 \<Rightarrow> bool option" where
  "order_matches b handle user_id order_id_hi order_id_lo =
     (if handle \<ge> slab_capacity (ob_orders b) then Some False
      else do {
        slot \<leftarrow> slab_get (ob_orders b) handle;
        Some (is_active slot \<and> os_user_id slot = user_id \<and>
              os_order_id_hi slot = order_id_hi \<and> os_order_id_lo slot = order_id_lo)
      })"

definition cancel_order_checked :: "orderbook \<Rightarrow> u32 \<Rightarrow> u32 \<Rightarrow> u64 \<Rightarrow> u64 \<Rightarrow> (bool \<times> orderbook) option" where
  "cancel_order_checked b handle user_id order_id_hi order_id_lo = do {
     m \<leftarrow> order_matches b handle user_id order_id_hi order_id_lo;
     if \<not> m then Some (False, b) else cancel_order b handle
   }"

definition modify_order_price ::
  "orderbook \<Rightarrow> u32 \<Rightarrow> i64 \<Rightarrow> side \<Rightarrow> u8 \<Rightarrow> u32 \<Rightarrow> bool \<Rightarrow> u64 \<Rightarrow> u64 \<Rightarrow> u64 \<Rightarrow> (u32 option \<times> orderbook) option" where
  "modify_order_price b handle new_price sd tif user_id reduce_only timestamp_ns order_id_hi order_id_lo = do {
     m \<leftarrow> order_matches b handle user_id order_id_hi order_id_lo;
     if \<not> m then Some (None, b)
     else do {
       slot \<leftarrow> slab_get (ob_orders b) handle;
       (r, b1) \<leftarrow> cancel_order b handle;
       (h, b2) \<leftarrow> insert_resting b1 new_price (os_remaining_qty slot) sd tif user_id reduce_only
                   timestamp_ns order_id_hi order_id_lo;
       Some (Some h, b2)
     }
   }"

definition modify_order_qty_down :: "orderbook \<Rightarrow> u32 \<Rightarrow> i64 \<Rightarrow> u32 \<Rightarrow> u64 \<Rightarrow> u64 \<Rightarrow> (bool \<times> orderbook) option" where
  "modify_order_qty_down b handle new_qty user_id order_id_hi order_id_lo = do {
     m \<leftarrow> order_matches b handle user_id order_id_hi order_id_lo;
     if \<not> m then Some (False, b)
     else do {
       slot \<leftarrow> slab_get (ob_orders b) handle;
       if new_qty = 0 then cancel_order b handle
       else do {
         let old_qty = os_remaining_qty slot;
         if new_qty \<ge> old_qty then Some (False, b)
         else do {
           let tick = os_tick_index slot;
           let diff = i64_sub old_qty new_qty;
           orders \<leftarrow> slab_put (ob_orders b) handle (slot\<lparr>os_remaining_qty := new_qty\<rparr>);
           level \<leftarrow> index_of (ob_active_levels b) tick;
           Some (True, b\<lparr>ob_orders := orders,
             ob_active_levels := (ob_active_levels b)[tick := level\<lparr>pl_total_qty := sat_sub (pl_total_qty level) diff\<rparr>]\<rparr>)
         }
       }
     }
   }"

subsection \<open>Rebuilding the occupancy\<close>

text \<open>The body of the loop over one level: \<open>(bid_count, ask_count)\<close>.\<close>

definition count_step :: "order_slot \<Rightarrow> u32 \<times> u32 \<Rightarrow> u32 \<times> u32" where
  "count_step order acc = (case acc of (bids, asks) \<Rightarrow>
     if os_side order = side_u8 Buy then (u32_add bids 1, asks) else (bids, u32_add asks 1))"

definition rebuild_level :: "orderbook \<Rightarrow> nat \<Rightarrow> orderbook option" where
  "rebuild_level b i = do {
     level \<leftarrow> index_of (ob_active_levels b) i;
     (bids, asks) \<leftarrow> walk (slots (ob_orders b)) count_step (0, 0) (pl_head level);
     let b1 = b\<lparr>ob_active_levels := (ob_active_levels b)[i := level\<lparr>pl_bid_count := bids, pl_ask_count := asks\<rparr>]\<rparr>;
     b2 \<leftarrow> (if bids > 0 then occ_mark b1 (side_u8 Buy) i else Some b1);
     (if asks > 0 then occ_mark b2 (side_u8 Sell) i else Some b2)
   }"

fun rebuild_levels :: "nat list \<Rightarrow> orderbook \<Rightarrow> orderbook option" where
  "rebuild_levels [] b = Some b"
| "rebuild_levels (i # is) b = do { b' \<leftarrow> rebuild_level b i; rebuild_levels is b' }"

definition rebuild_occupancy :: "orderbook \<Rightarrow> orderbook option" where
  "rebuild_occupancy b =
     (let n = length (ob_active_levels b)
      in rebuild_levels [0..<n]
        (b\<lparr>ob_bid_occ := occupancy_new (u64_as_u32 n), ob_ask_occ := occupancy_new (u64_as_u32 n)\<rparr>))"

end
