(* ===== verification/Book_Lists.thy ===== *)
theory Book_Lists
  imports Book
begin

text \<open>
  The linked lists of the price levels. \<open>seg xs p hs n\<close> says that the slots \<open>hs\<close> of \<open>xs\<close> form a
  doubly-linked segment from a predecessor \<open>p\<close> to a successor \<open>n\<close>; a level is a segment between two
  \<open>NONE\<close>s. The pointer surgery of \<open>unlink_order\<close> and \<open>insert_resting\<close> is shown to remove and to append
  one handle, and every walk along a level to be a fold over its handles.
\<close>

section \<open>Segments\<close>

fun first :: "u32 list \<Rightarrow> u32 \<Rightarrow> u32" where
  "first [] n = n"
| "first (h # hs) n = h"

fun lastp :: "u32 \<Rightarrow> u32 list \<Rightarrow> u32" where
  "lastp p [] = p"
| "lastp p (h # hs) = lastp h hs"

fun seg :: "order_slot list \<Rightarrow> u32 \<Rightarrow> u32 list \<Rightarrow> u32 \<Rightarrow> bool" where
  "seg xs p [] n \<longleftrightarrow> True"
| "seg xs p (h # hs) n \<longleftrightarrow> os_prev (xs ! h) = p \<and> os_next (xs ! h) = first hs n \<and> seg xs h hs n"

lemma first_append: "first (as @ bs) n = first as (first bs n)"
  by (cases as) auto

lemma lastp_append: "lastp p (as @ bs) = lastp (lastp p as) bs"
  by (induction as arbitrary: p) auto

lemma seg_append: "seg xs p (as @ bs) n \<longleftrightarrow> seg xs p as (first bs n) \<and> seg xs (lastp p as) bs n"
  by (induction as arbitrary: p) (auto simp: first_append)

lemma seg_cong:
  "(\<And>h. h \<in> set hs \<Longrightarrow> os_prev (ys ! h) = os_prev (xs ! h) \<and> os_next (ys ! h) = os_next (xs ! h)) \<Longrightarrow>
   seg ys p hs n = seg xs p hs n"
  by (induction hs arbitrary: p) auto

lemma lastp_last: "hs \<noteq> [] \<Longrightarrow> lastp p hs = last hs"
  by (induction hs arbitrary: p) auto

lemma first_hd: "hs \<noteq> [] \<Longrightarrow> first hs n = hd hs"
  by (cases hs) auto

lemma seg_set_next:
  assumes "seg xs p hs n" and "distinct hs" and "hs \<noteq> []" and "set hs \<subseteq> {..<length xs}"
  shows "seg (xs[last hs := (xs ! last hs)\<lparr>os_next := m\<rparr>]) p hs m"
proof -
  obtain as h where hs: "hs = as @ [h]" using assms(3) by (metis append_butlast_last_id)
  have "seg (xs[h := (xs ! h)\<lparr>os_next := m\<rparr>]) p as h = seg xs p as h"
    using assms(2) hs by (intro seg_cong) (metis distinct_append disjoint_iff list.set_intros(1) nth_list_update_neq)
  with assms hs show ?thesis by (auto simp: seg_append)
qed

lemma seg_set_prev:
  assumes "seg xs p hs n" and "distinct hs" and "hs \<noteq> []" and "set hs \<subseteq> {..<length xs}"
  shows "seg (xs[hd hs := (xs ! hd hs)\<lparr>os_prev := q\<rparr>]) q hs n"
proof -
  obtain h bs where hs: "hs = h # bs" using assms(3) by (cases hs) auto
  have "seg (xs[h := (xs ! h)\<lparr>os_prev := q\<rparr>]) h bs n = seg xs h bs n"
    using assms(2) hs by (intro seg_cong) (metis distinct.simps(2) nth_list_update_neq)
  with assms hs show ?thesis by auto
qed

text \<open>An order without its links: what a list operation leaves alone.\<close>

definition strip :: "order_slot \<Rightarrow> order_slot" where
  "strip s = s\<lparr>os_next := NONE, os_prev := NONE\<rparr>"

lemma strip_upd [simp]: "strip (s\<lparr>os_next := x\<rparr>) = strip s" "strip (s\<lparr>os_prev := x\<rparr>) = strip s"
  by (cases s; simp add: strip_def)+

lemma strip_eqD:
  assumes "strip s = strip t"
  shows "os_price s = os_price t" "os_remaining_qty s = os_remaining_qty t" "os_side s = os_side t"
    "os_flags s = os_flags t" "os_tif s = os_tif t" "os_tick_index s = os_tick_index t" "os_user_id s = os_user_id t"
    "os_original_qty s = os_original_qty t" "os_order_id_hi s = os_order_id_hi t" "os_order_id_lo s = os_order_id_lo t"
    "is_active s = is_active t" "os_sequence s = os_sequence t" "os_timestamp_ns s = os_timestamp_ns t"
  using assms by (cases s; cases t; simp add: strip_def is_active_def)+

section \<open>Unlinking and appending\<close>

definition set_next :: "order_slot list \<Rightarrow> u32 \<Rightarrow> u32 \<Rightarrow> order_slot list" where
  "set_next xs p n = (if p \<noteq> NONE then xs[p := (xs ! p)\<lparr>os_next := n\<rparr>] else xs)"

definition set_prev :: "order_slot list \<Rightarrow> u32 \<Rightarrow> u32 \<Rightarrow> order_slot list" where
  "set_prev xs n p = (if n \<noteq> NONE then xs[n := (xs ! n)\<lparr>os_prev := p\<rparr>] else xs)"

definition unlinked :: "order_slot list \<Rightarrow> u32 \<Rightarrow> order_slot list" where
  "unlinked xs h = set_prev (set_next xs (os_prev (xs ! h)) (os_next (xs ! h))) (os_next (xs ! h)) (os_prev (xs ! h))"

lemma set_links_other:
  "x \<noteq> p \<Longrightarrow> set_next xs p n ! x = xs ! x" "x \<noteq> n \<Longrightarrow> set_prev xs n p ! x = xs ! x"
  "length (set_next xs p n) = length xs" "length (set_prev xs n p) = length xs"
  by (simp_all add: set_next_def set_prev_def)

lemma strip_update: "strip v = strip (xs ! i) \<Longrightarrow> strip (xs[i := v] ! x) = strip (xs ! x)"
  by (cases "x = i"; cases "i < length xs") (simp_all add: list_update_beyond)

lemma strip_set_links: "strip (set_next xs p n ! x) = strip (xs ! x)" "strip (set_prev xs n p ! x) = strip (xs ! x)"
  by (simp_all add: set_next_def set_prev_def strip_update)

lemma unlinked_strip [simp]: "strip (unlinked xs h ! x) = strip (xs ! x)" "length (unlinked xs h) = length xs"
  by (simp_all add: unlinked_def strip_set_links set_links_other)

lemma unlinked_other: "x \<noteq> os_prev (xs ! h) \<Longrightarrow> x \<noteq> os_next (xs ! h) \<Longrightarrow> unlinked xs h ! x = xs ! x"
  by (simp add: unlinked_def set_links_other)

lemma seg_ends:
  assumes "seg xs NONE (as @ h # bs) NONE"
  shows "os_prev (xs ! h) = lastp NONE as" "os_next (xs ! h) = first bs NONE"
  using assms by (auto simp: seg_append)

lemma seg_set_next_lastp:
  assumes "seg xs NONE as n" "distinct as" "set as \<subseteq> {..<length xs}" "NONE \<notin> set as"
  shows "seg (set_next xs (lastp NONE as) m) NONE as m"
proof (cases "as = []")
  case False
  then have "lastp NONE as = last as" "last as \<noteq> NONE" using assms(4) False by (auto simp: lastp_last) (metis last_in_set)
  with seg_set_next [OF assms(1,2) False assms(3), of m] show ?thesis by (simp add: set_next_def)
qed simp

lemma seg_set_prev_first:
  assumes "seg xs p bs NONE" "distinct bs" "set bs \<subseteq> {..<length xs}" "NONE \<notin> set bs"
  shows "seg (set_prev xs (first bs NONE) q) q bs NONE"
proof (cases "bs = []")
  case False
  then have "first bs NONE = hd bs" "hd bs \<noteq> NONE" using assms(4) False by (auto simp: first_hd) (metis hd_in_set)
  with seg_set_prev [OF assms(1,2) False assms(3), of q] show ?thesis by (simp add: set_prev_def)
qed simp

lemma lastp_mem: "lastp NONE as = NONE \<or> lastp NONE as \<in> set as"
  by (cases "as = []") (auto simp: lastp_last)

lemma first_mem: "first bs NONE = NONE \<or> first bs NONE \<in> set bs"
  by (cases bs) auto

lemma ends_NONE_iff: "NONE \<notin> set as \<Longrightarrow> lastp NONE as = NONE \<longleftrightarrow> as = []" "NONE \<notin> set as \<Longrightarrow> first as NONE = NONE \<longleftrightarrow> as = []"
  by (cases "as = []"; metis lastp.simps(1) lastp_last last_in_set) (cases as; auto)

lemma seg_unlink:
  assumes s: "seg xs NONE (as @ h # bs) NONE" and d: "distinct (as @ h # bs)"
    and b: "set (as @ h # bs) \<subseteq> {..<length xs}" and N: "NONE \<notin> set (as @ h # bs)"
  shows "seg (unlinked xs h) NONE (as @ bs) NONE"
    and "x \<notin> set (as @ bs) \<Longrightarrow> x \<noteq> NONE \<Longrightarrow> unlinked xs h ! x = xs ! x"
proof -
  let ?p = "lastp NONE as" and ?n = "first bs NONE"
  let ?ys = "set_next xs ?p ?n"
  have u: "unlinked xs h = set_prev ?ys ?n ?p" by (simp add: unlinked_def seg_ends [OF s])
  have p: "?p \<notin> set bs" "?n \<notin> set as" using lastp_mem [of as] first_mem [of bs] d N by auto
  have "seg ?ys NONE as ?n"
    by (rule seg_set_next_lastp [where n = h]) (use s d b N in \<open>auto simp: seg_append\<close>)
  moreover have "seg (set_prev ?ys ?n ?p) NONE as ?n = seg ?ys NONE as ?n"
    using p by (intro seg_cong) (metis set_links_other(2))
  moreover have "seg ?ys h bs NONE = seg xs h bs NONE"
    using p by (intro seg_cong) (metis set_links_other(1))
  then have "seg ?ys h bs NONE" using s by (simp add: seg_append)
  then have "seg (set_prev ?ys ?n ?p) ?p bs NONE"
    by (rule seg_set_prev_first) (use d b N in \<open>auto simp: set_links_other\<close>)
  ultimately show "seg (unlinked xs h) NONE (as @ bs) NONE" by (simp add: u seg_append)
  assume "x \<notin> set (as @ bs)" "x \<noteq> NONE"
  then show "unlinked xs h ! x = xs ! x"
    using lastp_mem [of as] first_mem [of bs] by (intro unlinked_other) (auto simp: seg_ends [OF s])
qed

text \<open>Appending a handle whose own links are \<open>NONE\<close>.\<close>

definition appended :: "order_slot list \<Rightarrow> u32 \<Rightarrow> u32 \<Rightarrow> order_slot list" where
  "appended xs tail h = (if tail = NONE then xs else set_prev (set_next xs tail h) h tail)"

lemma appended_strip [simp]: "strip (appended xs tail h ! x) = strip (xs ! x)" "length (appended xs tail h) = length xs"
  by (simp_all add: appended_def strip_set_links set_links_other)

lemma seg_append_one:
  assumes s: "seg xs NONE hs NONE" and d: "distinct hs" "h \<notin> set hs"
    and b: "set hs \<subseteq> {..<length xs}" "h < length xs" and N: "NONE \<notin> set hs" "h \<noteq> NONE"
    and links: "os_next (xs ! h) = NONE" "os_prev (xs ! h) = NONE"
  shows "seg (appended xs (lastp NONE hs) h) NONE (hs @ [h]) NONE"
    and "x \<notin> set hs \<Longrightarrow> x \<noteq> h \<Longrightarrow> appended xs (lastp NONE hs) h ! x = xs ! x"
proof -
  let ?t = "lastp NONE hs"
  show "seg (appended xs ?t h) NONE (hs @ [h]) NONE"
  proof (cases "hs = []")
    case False
    then have t: "?t \<noteq> NONE" "?t \<in> set hs" using False N by (auto simp: lastp_last) (metis last_in_set)
    have "seg (set_next xs ?t h) NONE hs h" by (rule seg_set_next_lastp [OF s]) (use d b N in auto)
    moreover have "seg (set_prev (set_next xs ?t h) h ?t) NONE hs h = seg (set_next xs ?t h) NONE hs h"
      using d(2) by (intro seg_cong) (metis set_links_other(2))
    moreover have "set_prev (set_next xs ?t h) h ?t ! h = (xs ! h)\<lparr>os_prev := ?t\<rparr>"
      using N b t d by (auto simp: set_prev_def set_links_other) (metis set_links_other(1))
    ultimately show ?thesis using t links by (simp add: appended_def seg_append)
  qed (use links in \<open>simp add: appended_def\<close>)
  assume "x \<notin> set hs" "x \<noteq> h"
  then show "appended xs ?t h ! x = xs ! x"
    using lastp_mem [of hs] by (auto simp: appended_def set_links_other) (metis set_links_other(1))
qed

section \<open>Walks\<close>

lemma walk_seg:
  assumes "seg xs p hs NONE" and "set hs \<subseteq> {..<length xs}" and "NONE \<notin> set hs"
  shows "walk xs f acc (first hs NONE) = Some (fold (\<lambda>h. f (xs ! h)) hs acc)"
  using assms
proof (induction hs arbitrary: p acc)
  case Nil
  then show ?case by (simp add: walk.simps)
next
  case (Cons h hs)
  have "walk xs f (f (xs ! h) acc) (first hs NONE) = Some (fold (\<lambda>h. f (xs ! h)) hs (f (xs ! h) acc))"
    using Cons.prems by (intro Cons.IH [of h]) auto
  with Cons.prems show ?case by (subst walk.simps) (simp add: index_of_Some)
qed

end
