(* ===== verification/Book_Inv.thy ===== *)
theory Book_Inv
  imports Book_Lists
begin

text \<open>
  The representation invariant of the order book. \<open>Q t\<close> is the queue of handles resting in slot \<open>t\<close>,
  \<open>F\<close> the free list of the slab, \<open>D\<close> the handles that are allocated but on no queue (one, in the middle
  of a cancel or of a completed maker). \<open>book_rel\<close> ties the slab, the levels and the two occupancy
  bitmaps to \<open>Q\<close>; \<open>best_ok\<close> says that the tracked best of a side is the best resting price;
  \<open>users_rel\<close> that the registry counts each user's resting orders. \<open>wf\<close> is their conjunction.
\<close>

section \<open>The invariant\<close>

abbreviation ord :: "orderbook \<Rightarrow> u32 \<Rightarrow> order_slot" where
  "ord b h \<equiv> slots (ob_orders b) ! h"

definition is_buy :: "order_slot \<Rightarrow> bool" where "is_buy s \<longleftrightarrow> os_side s = side_u8 Buy"

definition qty_sum :: "order_slot list \<Rightarrow> u32 list \<Rightarrow> int" where
  "qty_sum xs hs = (\<Sum>h\<leftarrow>hs. os_remaining_qty (xs ! h))"

definition level_ok :: "order_slot list \<Rightarrow> price_level \<Rightarrow> u32 list \<Rightarrow> bool" where
  "level_ok xs l hs \<longleftrightarrow> seg xs NONE hs NONE \<and> pl_head l = first hs NONE \<and> pl_tail l = lastp NONE hs \<and>
     pl_total_qty l = qty_sum xs hs \<and> qty_sum xs hs \<le> i64_max \<and> pl_order_count l = length hs \<and>
     pl_bid_count l = length (filter (\<lambda>h. is_buy (xs ! h)) hs) \<and>
     pl_ask_count l = length (filter (\<lambda>h. \<not> is_buy (xs ! h)) hs)"

definition slot_ok :: "compression_map \<Rightarrow> nat \<Rightarrow> order_slot \<Rightarrow> bool" where
  "slot_ok c t s \<longleftrightarrow> is_active s \<and> os_tick_index s = t \<and> os_side s \<le> 1 \<and> price_range (os_price s) \<and>
     slot_index c (os_price s) = t \<and> cp_tick_size c dvd os_price s \<and> 0 \<le> os_remaining_qty s"

type_synonym queues = "nat \<Rightarrow> u32 list"

definition queued :: "queues \<Rightarrow> u32 set" where
  "queued Q = (\<Union>t. set (Q t))"

definition book_rel :: "orderbook \<Rightarrow> queues \<Rightarrow> u32 list \<Rightarrow> u32 set \<Rightarrow> bool" where
  "book_rel b Q F D \<longleftrightarrow>
     slab_rel (ob_orders b) F \<and>
     comp_ok (ob_compression b) \<and> ob_price_asc b = build_price_asc (ob_compression b) \<and>
     length (ob_active_levels b) = total_slots (ob_compression b) \<and>
     occ_ok (ob_bid_occ b) \<and> occ_n (ob_bid_occ b) = length (ob_active_levels b) \<and>
     occ_ok (ob_ask_occ b) \<and> occ_n (ob_ask_occ b) = length (ob_active_levels b) \<and>
     (\<forall>t. t < length (ob_active_levels b) \<longrightarrow> level_ok (slots (ob_orders b)) (ob_active_levels b ! t) (Q t)) \<and>
     (\<forall>t. length (ob_active_levels b) \<le> t \<longrightarrow> Q t = []) \<and>
     (\<forall>t. distinct (Q t)) \<and>
     (\<forall>t. \<forall>h\<in>set (Q t). slot_ok (ob_compression b) t (ord b h)) \<and>
     {..<bump_next (ob_orders b)} = set F \<union> D \<union> queued Q \<and>
     set F \<inter> D = {} \<and> set F \<inter> queued Q = {} \<and> D \<inter> queued Q = {} \<and>
     members (ob_bid_occ b) = {t. \<exists>h\<in>set (Q t). is_buy (ord b h)} \<and>
     members (ob_ask_occ b) = {t. \<exists>h\<in>set (Q t). \<not> is_buy (ord b h)} \<and>
     (\<forall>h<length (slots (ob_orders b)). h \<notin> queued Q \<union> D \<longrightarrow> \<not> is_active (ord b h))"

definition on_side :: "side \<Rightarrow> order_slot \<Rightarrow> bool" where
  "on_side sd s \<longleftrightarrow> (case sd of Buy \<Rightarrow> is_buy s | Sell \<Rightarrow> \<not> is_buy s)"

text \<open>\<open>better sd p q\<close>: a maker of side \<open>sd\<close> at \<open>p\<close> is filled no later than one at \<open>q\<close>.\<close>

definition better :: "side \<Rightarrow> i64 \<Rightarrow> i64 \<Rightarrow> bool" where
  "better sd p q \<longleftrightarrow> (case sd of Buy \<Rightarrow> q \<le> p | Sell \<Rightarrow> p \<le> q)"

definition resting :: "orderbook \<Rightarrow> queues \<Rightarrow> side \<Rightarrow> u32 set" where
  "resting b Q sd = {h \<in> queued Q. on_side sd (ord b h)}"

definition best_tick :: "orderbook \<Rightarrow> side \<Rightarrow> u32" where
  "best_tick b sd = (case sd of Buy \<Rightarrow> ob_best_bid_tick b | Sell \<Rightarrow> ob_best_ask_tick b)"

definition best_px :: "orderbook \<Rightarrow> side \<Rightarrow> i64" where
  "best_px b sd = (case sd of Buy \<Rightarrow> ob_best_bid_px b | Sell \<Rightarrow> ob_best_ask_px b)"

definition best_ok :: "orderbook \<Rightarrow> queues \<Rightarrow> side \<Rightarrow> bool" where
  "best_ok b Q sd \<longleftrightarrow>
     (if resting b Q sd = {} then best_tick b sd = NONE \<and> best_px b sd = 0
      else best_tick b sd = slot_index (ob_compression b) (best_px b sd) \<and>
        (\<exists>h\<in>resting b Q sd. os_price (ord b h) = best_px b sd) \<and>
        (\<forall>h\<in>resting b Q sd. better sd (best_px b sd) (os_price (ord b h))))"

definition positive :: "orderbook \<Rightarrow> queues \<Rightarrow> bool" where
  "positive b Q \<longleftrightarrow> (\<forall>h\<in>queued Q. 0 < os_remaining_qty (ord b h))"

definition users_rel :: "orderbook \<Rightarrow> queues \<Rightarrow> bool" where
  "users_rel b Q \<longleftrightarrow> users_ok (ob_users b) \<and>
     (\<forall>uid. resting_of (ob_users b) uid = card {h \<in> queued Q. os_user_id (ord b h) = uid})"

definition wf :: "orderbook \<Rightarrow> queues \<Rightarrow> u32 list \<Rightarrow> bool" where
  "wf b Q F \<longleftrightarrow> book_rel b Q F {} \<and> positive b Q \<and> best_ok b Q Buy \<and> best_ok b Q Sell \<and> users_rel b Q"

section \<open>Consequences\<close>

lemma book_relD:
  assumes "book_rel b Q F D"
  shows "slab_rel (ob_orders b) F" "comp_ok (ob_compression b)" "ob_price_asc b = build_price_asc (ob_compression b)"
    "length (ob_active_levels b) = total_slots (ob_compression b)"
    "occ_ok (ob_bid_occ b)" "occ_n (ob_bid_occ b) = length (ob_active_levels b)"
    "occ_ok (ob_ask_occ b)" "occ_n (ob_ask_occ b) = length (ob_active_levels b)"
    "t < length (ob_active_levels b) \<Longrightarrow> level_ok (slots (ob_orders b)) (ob_active_levels b ! t) (Q t)"
    "distinct (Q t)" "h \<in> set (Q t) \<Longrightarrow> slot_ok (ob_compression b) t (ord b h)"
    "{..<bump_next (ob_orders b)} = set F \<union> D \<union> queued Q" "set F \<inter> D = {}" "set F \<inter> queued Q = {}" "D \<inter> queued Q = {}"
    "members (ob_bid_occ b) = {t. \<exists>h\<in>set (Q t). is_buy (ord b h)}"
    "members (ob_ask_occ b) = {t. \<exists>h\<in>set (Q t). \<not> is_buy (ord b h)}"
    "h < length (slots (ob_orders b)) \<Longrightarrow> h \<notin> queued Q \<Longrightarrow> h \<notin> D \<Longrightarrow> \<not> is_active (ord b h)"
    "length (ob_active_levels b) \<le> t \<Longrightarrow> Q t = []"
  using assms by (auto simp: book_rel_def)

lemma free_below: "slab_rel s F \<Longrightarrow> x \<in> set F \<Longrightarrow> x < bump_next s \<and> x < length (slots s) \<and> x < NONE"
  by (force simp: slab_rel_def)

lemma in_queued: "h \<in> set (Q t) \<Longrightarrow> h \<in> queued Q"
  by (auto simp: queued_def)

lemma queue_tick:
  assumes "book_rel b Q F D" and "h \<in> set (Q t)"
  shows "t < length (ob_active_levels b)" "os_tick_index (ord b h) = t"
    "t < NONE" "h < bump_next (ob_orders b)" "h < length (slots (ob_orders b))" "h < NONE"
proof -
  show t: "t < length (ob_active_levels b)" using book_relD(19) [OF assms(1), of t] assms(2) not_le by fastforce
  show "os_tick_index (ord b h) = t" using book_relD(11) [OF assms] by (simp add: slot_ok_def)
  have "comp_ok (ob_compression b)" by (rule book_relD(2) [OF assms(1)])
  then show "t < NONE" using t book_relD(4) [OF assms(1)] total_slots_ok [of "ob_compression b"] base_top(2) by (auto simp: comp_ok_def)
  have "h \<in> {..<bump_next (ob_orders b)}" using book_relD(12) [OF assms(1)] in_queued [of h Q t] assms(2) by auto
  then show h: "h < bump_next (ob_orders b)" by simp
  then show "h < length (slots (ob_orders b))" "h < NONE" using book_relD(1) [OF assms(1)] by (auto simp: slab_rel_def)
qed

lemma queues_disjoint: "book_rel b Q F D \<Longrightarrow> h \<in> set (Q t) \<Longrightarrow> h \<in> set (Q t') \<Longrightarrow> t = t'"
  using queue_tick(2) by metis

lemma queued_cases: "h \<in> queued Q \<Longrightarrow> (\<And>t. h \<in> set (Q t) \<Longrightarrow> P) \<Longrightarrow> P"
  by (auto simp: queued_def)

lemma queue_set_facts:
  assumes "book_rel b Q F D"
  shows "set (Q t) \<subseteq> {..<length (slots (ob_orders b))}" "NONE \<notin> set (Q t)"
  using queue_tick(5,6) [OF assms] by auto

text \<open>A level depends only on the slots of its own handles.\<close>

lemma level_ok_cong:
  assumes "\<And>h. h \<in> set hs \<Longrightarrow> ys ! h = xs ! h"
  shows "level_ok ys l hs = level_ok xs l hs"
proof -
  have "seg ys NONE hs NONE = seg xs NONE hs NONE" using assms by (intro seg_cong) simp
  moreover have "qty_sum ys hs = qty_sum xs hs" using assms by (simp add: qty_sum_def cong: map_cong)
  moreover have "filter (\<lambda>h. is_buy (ys ! h)) hs = filter (\<lambda>h. is_buy (xs ! h)) hs"
    "filter (\<lambda>h. \<not> is_buy (ys ! h)) hs = filter (\<lambda>h. \<not> is_buy (xs ! h)) hs" using assms by (auto intro: filter_cong)
  ultimately show ?thesis by (simp add: level_ok_def)
qed

lemma strip_sides:
  assumes "strip s = strip s'" shows "is_buy s = is_buy s'" "slot_ok c t s = slot_ok c t s'" "on_side sd s = on_side sd s'"
  using strip_eqD [OF assms] by (cases sd; simp add: is_buy_def slot_ok_def on_side_def)+

lemma qty_sum_nonneg:
  assumes "book_rel b Q F D" and "set hs \<subseteq> set (Q t)" shows "0 \<le> qty_sum (slots (ob_orders b)) hs"
  unfolding qty_sum_def using book_relD(11) [OF assms(1)] assms(2) by (intro sum_list_nonneg) (auto simp: slot_ok_def)

lemma level_at:
  assumes "book_rel b Q F D" and "h \<in> set (Q t)"
  shows "level_ok (slots (ob_orders b)) (ob_active_levels b ! t) (Q t)"
  by (rule book_relD(9) [OF assms(1) queue_tick(1) [OF assms]])

section \<open>Unlinking\<close>

text \<open>The level record after an unlink, and whether the side of the order became empty.\<close>

definition level_out :: "order_slot \<Rightarrow> price_level \<Rightarrow> price_level" where
  "level_out s l =
     (let l1 = (if os_prev s = NONE then l\<lparr>pl_head := os_next s\<rparr> else l);
          l2 = (if os_next s = NONE then l1\<lparr>pl_tail := os_prev s\<rparr> else l1);
          l3 = l2\<lparr>pl_total_qty := sat_sub (pl_total_qty l2) (os_remaining_qty s), pl_order_count := pl_order_count l2 - 1\<rparr>
      in if is_buy s then l3\<lparr>pl_bid_count := pl_bid_count l3 - 1\<rparr> else l3\<lparr>pl_ask_count := pl_ask_count l3 - 1\<rparr>)"

definition emptied :: "order_slot \<Rightarrow> price_level \<Rightarrow> bool" where
  "emptied s l \<longleftrightarrow> (if is_buy s then pl_bid_count l - 1 = 0 else pl_ask_count l - 1 = 0)"

lemma link_bounds:
  assumes "book_rel b Q F D" and "h \<in> set (Q t)"
  shows "os_prev (ord b h) = NONE \<or> os_prev (ord b h) < length (slots (ob_orders b))"
    "os_next (ord b h) = NONE \<or> os_next (ord b h) < length (slots (ob_orders b))"
proof -
  obtain as bs where Q: "Q t = as @ h # bs" using assms(2) by (metis split_list)
  have "seg (slots (ob_orders b)) NONE (as @ h # bs) NONE" using level_at [OF assms] Q by (simp add: level_ok_def)
  note e = seg_ends [OF this]
  show "os_prev (ord b h) = NONE \<or> os_prev (ord b h) < length (slots (ob_orders b))"
    "os_next (ord b h) = NONE \<or> os_next (ord b h) < length (slots (ob_orders b))"
    using lastp_mem [of as] first_mem [of bs] queue_set_facts(1) [OF assms(1), of t] Q by (auto simp: e)
qed

lemma unlink_run:
  assumes "book_rel b Q F D" and "h \<in> set (Q t)"
  shows "unlink_order b h =
    (let l = ob_active_levels b ! t;
         b1 = b\<lparr>ob_orders := (ob_orders b)\<lparr>slots := unlinked (slots (ob_orders b)) h\<rparr>,
                ob_active_levels := (ob_active_levels b)[t := level_out (ord b h) l]\<rparr>
     in if emptied (ord b h) l then occ_unmark b1 (os_side (ord b h)) t else Some b1)"
proof -
  note q = queue_tick [OF assms] and lb = link_bounds [OF assms]
  have "slab_get (ob_orders b) h = Some (ord b h)" using q(5) by (simp add: slab_get_def index_of_Some)
  moreover have "index_of (ob_active_levels b) (os_tick_index (ord b h)) = Some (ob_active_levels b ! t)"
    using q(1,2) by (simp add: index_of_Some)
  moreover have "ob_orders b = (ob_orders b)\<lparr>slots := slots (ob_orders b)\<rparr>" by simp
  ultimately show ?thesis
    using lb q(2)
    by (cases "os_prev (ord b h) = NONE"; cases "os_next (ord b h) = NONE")
      (auto simp: unlink_order_def slab_get_def slab_put_def index_of_Some store_at_Some Let_def level_out_def emptied_def
        is_buy_def unlinked_def set_next_def set_prev_def)
qed

lemma level_out_ok:
  assumes "book_rel b Q F D" and "h \<in> set (Q t)"
  shows "level_ok (unlinked (slots (ob_orders b)) h) (level_out (ord b h) (ob_active_levels b ! t)) (remove1 h (Q t))"
    and "emptied (ord b h) (ob_active_levels b ! t) \<longleftrightarrow>
      (\<forall>x\<in>set (remove1 h (Q t)). is_buy (ord b x) \<noteq> is_buy (ord b h))"
proof -
  obtain as bs where Q: "Q t = as @ h # bs" using assms(2) by (metis split_list)
  let ?xs = "slots (ob_orders b)" and ?l = "ob_active_levels b ! t"
  have d: "distinct (as @ h # bs)" using book_relD(10) [OF assms(1), of t] Q by simp
  then have r: "remove1 h (Q t) = as @ bs" by (simp add: Q remove1_append)
  have lo: "level_ok ?xs ?l (as @ h # bs)" using level_at [OF assms] Q by simp
  then have s: "seg ?xs NONE (as @ h # bs) NONE" by (simp add: level_ok_def)
  note e = seg_ends [OF s]
  have b: "set (as @ h # bs) \<subseteq> {..<length ?xs}" "NONE \<notin> set (as @ h # bs)"
    using queue_set_facts [OF assms(1), of t] Q by auto
  have seg: "seg (unlinked ?xs h) NONE (as @ bs) NONE" by (rule seg_unlink(1) [OF s d b])
  have buy: "is_buy (unlinked ?xs h ! x) = is_buy (?xs ! x)" for x by (rule strip_sides(1)) simp
  have qty: "os_remaining_qty (unlinked ?xs h ! x) = os_remaining_qty (?xs ! x)" for x by (rule strip_eqD(2)) simp
  have sum: "qty_sum ?xs (as @ h # bs) = os_remaining_qty (?xs ! h) + qty_sum ?xs (as @ bs)"
    by (simp add: qty_sum_def)
  have pos: "0 \<le> qty_sum ?xs (as @ bs)" "0 \<le> os_remaining_qty (?xs ! h)"
    using qty_sum_nonneg [OF assms(1), of "as @ bs" t] book_relD(11) [OF assms] Q by (auto simp: slot_ok_def)
  have total: "sat_sub (pl_total_qty ?l) (os_remaining_qty (?xs ! h)) = qty_sum ?xs (as @ bs)"
    using lo sum pos by (subst sat_sub_id) (auto simp: level_ok_def in_i64_def i64_bounds)
  have ends: "os_prev (?xs ! h) = NONE \<longleftrightarrow> as = []" "os_next (?xs ! h) = NONE \<longleftrightarrow> bs = []"
    using e b ends_NONE_iff(1) [of as] ends_NONE_iff(2) [of bs] by auto
  have hd: "pl_head ?l = first (as @ h # bs) NONE" "pl_tail ?l = lastp NONE (as @ h # bs)"
    using lo by (simp_all add: level_ok_def)
  have "first (as @ bs) NONE = (if as = [] then os_next (?xs ! h) else pl_head ?l)"
    "lastp NONE (as @ bs) = (if bs = [] then os_prev (?xs ! h) else pl_tail ?l)"
    using hd e by (auto simp: first_append lastp_append lastp_last first_hd)
  with seg lo total sum pos ends e buy qty
  show "level_ok (unlinked ?xs h) (level_out (?xs ! h) ?l) (remove1 h (Q t))"
    by (auto simp: level_ok_def level_out_def Let_def r qty_sum_def)
  show "emptied (ord b h) ?l \<longleftrightarrow> (\<forall>x\<in>set (remove1 h (Q t)). is_buy (ord b x) \<noteq> is_buy (ord b h))"
    using lo by (auto simp: emptied_def r level_ok_def filter_empty_conv)
qed

lemma queued_remove:
  assumes "book_rel b Q F D" and "h \<in> set (Q t)"
  shows "queued (Q(t := remove1 h (Q t))) = queued Q - {h}"
proof -
  have "set (remove1 h (Q t)) = set (Q t) - {h}" using book_relD(10) [OF assms(1)] by simp
  moreover have "h \<notin> set (Q t')" if "t' \<noteq> t" for t' using queues_disjoint [OF assms(1)] assms(2) that by blast
  ultimately show ?thesis by (auto simp: queued_def split: if_splits)
qed

text \<open>One bit of the occupancy of the order's side is cleared when the side of its slot empties.\<close>

lemma occ_unmark_ok:
  assumes "occ_ok (ob_bid_occ b)" "occ_ok (ob_ask_occ b)" "t < occ_n (ob_bid_occ b)" "t < occ_n (ob_ask_occ b)" "os_side s \<le> 1"
  shows "\<exists>x y. occ_unmark b (os_side s) t = Some (b\<lparr>ob_bid_occ := x, ob_ask_occ := y\<rparr>) \<and>
    occ_ok x \<and> occ_n x = occ_n (ob_bid_occ b) \<and> members x = members (ob_bid_occ b) - (if is_buy s then {t} else {}) \<and>
    occ_ok y \<and> occ_n y = occ_n (ob_ask_occ b) \<and> members y = members (ob_ask_occ b) - (if is_buy s then {} else {t})"
proof (cases "is_buy s")
  case True
  obtain x where "occ_clear (ob_bid_occ b) t = Some x" "occ_ok x" "members x = members (ob_bid_occ b) - {t}" "occ_n x = occ_n (ob_bid_occ b)"
    using occ_slots.drop_law [OF assms(1,3)] by blast
  with True assms(2) show ?thesis
    by (intro exI [of _ x] exI [of _ "ob_ask_occ b"]) (simp add: occ_unmark_def is_buy_def)
next
  case False
  obtain y where "occ_clear (ob_ask_occ b) t = Some y" "occ_ok y" "members y = members (ob_ask_occ b) - {t}" "occ_n y = occ_n (ob_ask_occ b)"
    using occ_slots.drop_law [OF assms(2,4)] by blast
  with False assms(1) show ?thesis
    by (intro exI [of _ "ob_bid_occ b"] exI [of _ y]) (simp add: occ_unmark_def is_buy_def)
qed

lemma unlink_ok:
  assumes rel: "book_rel b Q F D" and h: "h \<in> set (Q t)"
  defines "Q' \<equiv> Q(t := remove1 h (Q t))"
  shows "\<exists>ls x y. unlink_order b h =
      Some (b\<lparr>ob_orders := (ob_orders b)\<lparr>slots := unlinked (slots (ob_orders b)) h\<rparr>, ob_active_levels := ls, ob_bid_occ := x, ob_ask_occ := y\<rparr>) \<and>
    book_rel (b\<lparr>ob_orders := (ob_orders b)\<lparr>slots := unlinked (slots (ob_orders b)) h\<rparr>, ob_active_levels := ls, ob_bid_occ := x, ob_ask_occ := y\<rparr>)
      Q' F (insert h D)"
proof -
  let ?xs = "slots (ob_orders b)" and ?l = "ob_active_levels b ! t" and ?s = "ord b h"
  let ?ys = "unlinked ?xs h"
  note R = book_relD [OF rel] and q = queue_tick [OF rel h] and lo = level_out_ok [OF rel h]
  define ls where "ls = (ob_active_levels b)[t := level_out ?s ?l]"
  let ?b1 = "b\<lparr>ob_orders := (ob_orders b)\<lparr>slots := ?ys\<rparr>, ob_active_levels := ls\<rparr>"
  have side: "os_side ?s \<le> 1" using R(11) [OF h] by (simp add: slot_ok_def)
  have strip: "is_buy (?ys ! x) = is_buy (?xs ! x)" "slot_ok c u (?ys ! x) = slot_ok c u (?xs ! x)"
    "is_active (?ys ! x) = is_active (?xs ! x)" for x c u
    by (rule strip_sides(1) strip_sides(2) strip_eqD(11), simp)+
  have rem: "set (Q' u) = (if u = t then set (Q t) - {h} else set (Q u))" "h \<in> set (Q' u) \<longleftrightarrow> False" "distinct (Q' u)" for u
    using R(10) [of t] R(10) [of u] queues_disjoint [OF rel h, of u] by (auto simp: Q'_def)
  have occ: "\<exists>x y. unlink_order b h = Some (?b1\<lparr>ob_bid_occ := x, ob_ask_occ := y\<rparr>) \<and>
    occ_ok x \<and> occ_n x = length (ob_active_levels b) \<and> members x = {u. \<exists>z\<in>set (Q' u). is_buy (?xs ! z)} \<and>
    occ_ok y \<and> occ_n y = length (ob_active_levels b) \<and> members y = {u. \<exists>z\<in>set (Q' u). \<not> is_buy (?xs ! z)}"
  proof (cases "emptied ?s ?l")
    case True
    then have e: "\<forall>x\<in>set (Q t) - {h}. is_buy (?xs ! x) \<noteq> is_buy ?s" using lo(2) R(10) [of t] by simp
    have "{u. \<exists>z\<in>set (Q' u). is_buy (?xs ! z)} = members (ob_bid_occ b) - (if is_buy ?s then {t} else {})"
      "{u. \<exists>z\<in>set (Q' u). \<not> is_buy (?xs ! z)} = members (ob_ask_occ b) - (if is_buy ?s then {} else {t})"
      using e h unfolding R(16,17) rem(1) by auto
    with True occ_unmark_ok [of ?b1 t ?s] R(5-8) q(1) side show ?thesis
      by (simp add: unlink_run [OF rel h] Let_def ls_def [symmetric])
  next
    case False
    then obtain x where x: "x \<in> set (Q t) - {h}" "is_buy (?xs ! x) = is_buy ?s" using lo(2) R(10) [of t] by auto
    have "{u. \<exists>z\<in>set (Q' u). is_buy (?xs ! z)} = members (ob_bid_occ b)"
      "{u. \<exists>z\<in>set (Q' u). \<not> is_buy (?xs ! z)} = members (ob_ask_occ b)"
      using x h unfolding R(16,17) rem(1) by auto
    with False R(5-8) show ?thesis
      by (intro exI [of _ "ob_bid_occ b"] exI [of _ "ob_ask_occ b"]) (simp add: unlink_run [OF rel h] Let_def ls_def [symmetric])
  qed
  have levels: "level_ok ?ys (ls ! u) (Q' u)" if "u < length (ob_active_levels b)" for u
  proof (cases "u = t")
    case True
    then show ?thesis using lo(1) q(1) by (simp add: ls_def Q'_def)
  next
    case False
    obtain as bs where Q: "Q t = as @ h # bs" using h by (metis split_list)
    have "seg ?xs NONE (as @ h # bs) NONE" using level_at [OF rel h] Q by (simp add: level_ok_def)
    moreover have "x \<notin> set (as @ h # bs) \<and> x \<noteq> NONE" if "x \<in> set (Q u)" for x
      using that False queues_disjoint [OF rel that] queue_set_facts(2) [OF rel] Q by metis
    ultimately have "?ys ! x = ?xs ! x" if "x \<in> set (Q u)" for x
      using that seg_unlink(2) [of ?xs as h bs x] R(10) [of t] queue_set_facts [OF rel, of t] Q by auto
    then show ?thesis using level_ok_cong [of "Q u" ?ys ?xs] R(9) [OF that] False by (simp add: ls_def Q'_def)
  qed
  have "slab_rel ((ob_orders b)\<lparr>slots := ?ys\<rparr>) F"
  proof -
    have "os_next (?ys ! x) = os_next (?xs ! x)" if "x \<in> set F" for x
    proof -
      obtain as bs where Q: "Q t = as @ h # bs" using h by (metis split_list)
      have "seg ?xs NONE (as @ h # bs) NONE" using level_at [OF rel h] Q by (simp add: level_ok_def)
      moreover have "x \<notin> set (Q t)" "x \<noteq> NONE" using that R(14) free_below [OF R(1) that] by (auto simp: queued_def)
      ultimately show ?thesis
        using seg_unlink(2) [of ?xs as h bs x] R(10) [of t] queue_set_facts [OF rel, of t] Q by auto
    qed
    then have "free_chain ?ys (free_head (ob_orders b)) F = free_chain ?xs (free_head (ob_orders b)) F"
      by (intro free_chain_cong) auto
    then show ?thesis using R(1) by (simp add: slab_rel_def)
  qed
  moreover have qd: "queued Q' = queued Q - {h}" unfolding Q'_def by (rule queued_remove [OF rel h])
  moreover have hq: "h \<in> queued Q" using h by (rule in_queued)
  have "{..<bump_next (ob_orders b)} = set F \<union> insert h D \<union> queued Q'" "set F \<inter> insert h D = {}"
    "set F \<inter> queued Q' = {}" "insert h D \<inter> queued Q' = {}" using R(12-15) hq unfolding qd by auto
  moreover have "\<not> is_active (?ys ! z)" if "z < length ?ys" "z \<notin> queued Q' \<union> insert h D" for z
    using that R(18) by (auto simp: qd strip)
  moreover have "Q' u = []" if "length (ob_active_levels b) \<le> u" for u using R(19) [OF that] q(1) that by (auto simp: Q'_def)
  moreover obtain x y where xy: "unlink_order b h = Some (?b1\<lparr>ob_bid_occ := x, ob_ask_occ := y\<rparr>)"
    "occ_ok x" "occ_n x = length (ob_active_levels b)" "members x = {u. \<exists>z\<in>set (Q' u). is_buy (?xs ! z)}"
    "occ_ok y" "occ_n y = length (ob_active_levels b)" "members y = {u. \<exists>z\<in>set (Q' u). \<not> is_buy (?xs ! z)}"
    using occ by blast
  moreover have "length ls = length (ob_active_levels b)" by (simp add: ls_def)
  moreover have "slot_ok (ob_compression b) u (?xs ! z)" if "z \<in> set (Q' u)" for u z
    using that R(11) rem(1) by (auto split: if_splits)
  ultimately have "book_rel (?b1\<lparr>ob_bid_occ := x, ob_ask_occ := y\<rparr>) Q' F (insert h D)"
    using levels R(2-4) rem(3) unfolding book_rel_def by (intro conjI allI impI ballI) (simp_all add: strip)
  with xy(1) show ?thesis by blast
qed

section \<open>Detached slots\<close>

text \<open>Writing a slot that is on no queue and not free.\<close>

lemma detached_facts:
  assumes "book_rel b Q F D" and "h \<in> D"
  shows "h < bump_next (ob_orders b)" "h < length (slots (ob_orders b))" "h \<noteq> NONE" "h \<notin> queued Q" "h \<notin> set F" "h \<notin> set (Q t)"
proof -
  have "h \<in> {..<bump_next (ob_orders b)}" using book_relD(12) [OF assms(1)] assms(2) by auto
  then show "h < bump_next (ob_orders b)" "h < length (slots (ob_orders b))" "h \<noteq> NONE"
    using book_relD(1) [OF assms(1)] by (auto simp: slab_rel_def)
  show "h \<notin> queued Q" "h \<notin> set F" "h \<notin> set (Q t)"
    using book_relD(13,15) [OF assms(1)] assms(2) by (auto simp: queued_def)
qed

lemma book_rel_write:
  assumes rel: "book_rel b Q F D" and h: "h \<in> D"
  shows "book_rel (b\<lparr>ob_orders := (ob_orders b)\<lparr>slots := (slots (ob_orders b))[h := v]\<rparr>\<rparr>) Q F D"
proof -
  note R = book_relD [OF rel] and dt = detached_facts [OF rel h]
  let ?xs = "slots (ob_orders b)" and ?ys = "(slots (ob_orders b))[h := v]"
  have same: "?ys ! x = ?xs ! x" if "x \<in> set (Q u)" for x u using that dt(6) by (metis nth_list_update_neq)
  have "free_chain ?ys (free_head (ob_orders b)) F = free_chain ?xs (free_head (ob_orders b)) F"
    using dt(5) by (intro free_chain_cong) (metis nth_list_update_neq, simp)
  then have "slab_rel ((ob_orders b)\<lparr>slots := ?ys\<rparr>) F" using R(1) by (simp add: slab_rel_def)
  moreover have "level_ok ?ys (ob_active_levels b ! u) (Q u)" if "u < length (ob_active_levels b)" for u
    using R(9) [OF that] level_ok_cong [of "Q u" ?ys ?xs] same by blast
  moreover have "slot_ok (ob_compression b) u (?ys ! z)" if "z \<in> set (Q u)" for u z
    using R(11) [OF that] same [OF that] by simp
  moreover have "(\<exists>z\<in>set (Q u). is_buy (?ys ! z)) = (\<exists>z\<in>set (Q u). is_buy (?xs ! z))"
    "(\<exists>z\<in>set (Q u). \<not> is_buy (?ys ! z)) = (\<exists>z\<in>set (Q u). \<not> is_buy (?xs ! z))" for u using same by auto
  moreover have "\<not> is_active (?ys ! z)" if "z < length ?ys" "z \<notin> queued Q \<union> D" for z
    using that R(18) [of z] h by (metis Un_iff length_list_update nth_list_update_neq)
  ultimately show ?thesis
    using R(2-8,10,12-17,19) unfolding book_rel_def by (intro conjI allI impI ballI) simp_all
qed

text \<open>Giving a detached slot back to the slab, as a cancel or a completed maker does.\<close>

definition release :: "slab \<Rightarrow> u32 \<Rightarrow> slab option" where
  "release orders h = do {
     s \<leftarrow> slab_get orders h;
     orders1 \<leftarrow> slab_put orders h (set_active s False);
     free orders1 h
   }"

lemma release_ok:
  assumes rel: "book_rel b Q F D" and h: "h \<in> D"
  shows "\<exists>orders'. release (ob_orders b) h = Some orders' \<and> book_rel (b\<lparr>ob_orders := orders'\<rparr>) Q (h # F) (D - {h}) \<and>
    (\<forall>x. x \<noteq> h \<longrightarrow> slots orders' ! x = ord b x)"
proof -
  note dt = detached_facts [OF rel h]
  let ?xs = "slots (ob_orders b)" and ?v = "set_active (ord b h) False"
  let ?o1 = "(ob_orders b)\<lparr>slots := ?xs[h := ?v]\<rparr>" and ?b1 = "b\<lparr>ob_orders := (ob_orders b)\<lparr>slots := ?xs[h := ?v]\<rparr>\<rparr>"
  let ?o2 = "?o1\<lparr>slots := ?xs[h := ?v\<lparr>os_next := free_head (ob_orders b)\<rparr>], free_head := h\<rparr>"
  have rel1: "book_rel ?b1 Q F D" by (rule book_rel_write [OF rel h])
  have put: "release (ob_orders b) h = free ?o1 h"
    using dt(2) by (simp add: release_def slab_get_def slab_put_def index_of_Some store_at_Some)
  have f: "free ?o1 h = Some ?o2" "slab_rel ?o2 (h # F)"
    using free_rel [OF book_relD(1) [OF rel1], of h] dt(1,2,5) by simp_all
  have rel2: "book_rel (b\<lparr>ob_orders := (ob_orders b)\<lparr>slots := ?xs[h := ?v\<lparr>os_next := free_head (ob_orders b)\<rparr>]\<rparr>\<rparr>) Q F D"
    by (rule book_rel_write [OF rel h])
  note R = book_relD [OF rel2]
  have "{..<bump_next ?o2} = set (h # F) \<union> (D - {h}) \<union> queued Q" "set (h # F) \<inter> (D - {h}) = {}"
    "set (h # F) \<inter> queued Q = {}" "(D - {h}) \<inter> queued Q = {}"
    using R(12-15) h by auto
  moreover have "\<not> is_active (slots ?o2 ! z)" if "z < length (slots ?o2)" "z \<notin> queued Q \<union> (D - {h})" for z
    using that R(18) [of z] dt(2) by (cases "z = h") auto
  ultimately have "book_rel (b\<lparr>ob_orders := ?o2\<rparr>) Q (h # F) (D - {h})"
    using f(2) R(2-11,16,17,19) unfolding book_rel_def by (intro conjI allI impI ballI) simp_all
  moreover have "slots ?o2 ! x = ord b x" if "x \<noteq> h" for x using that by simp
  ultimately show ?thesis using put f(1) by metis
qed

lemma alloc_ok:
  assumes rel: "book_rel b Q F D" and room: "F \<noteq> [] \<or> bump_next (ob_orders b) < length (slots (ob_orders b))"
  shows "\<exists>h orders' F'. alloc (ob_orders b) = Some (h, orders') \<and> slots orders' = slots (ob_orders b) \<and>
    h \<notin> queued Q \<and> h \<notin> D \<and> book_rel (b\<lparr>ob_orders := orders'\<rparr>) Q F' (insert h D)"
proof (cases F)
  case (Cons h F')
  note R = book_relD [OF rel]
  note a = alloc_rel_pop [of "ob_orders b" h F'] R(1)
  let ?o = "(ob_orders b)\<lparr>free_head := os_next (slots (ob_orders b) ! h)\<rparr>"
  have d: "distinct F" using R(1) by (simp add: slab_rel_def)
  have nq: "h \<notin> queued Q" "h \<notin> D" using R(13,14) Cons by auto
  have "{..<bump_next ?o} = set F' \<union> insert h D \<union> queued Q" "set F' \<inter> insert h D = {}"
    "set F' \<inter> queued Q = {}" "insert h D \<inter> queued Q = {}"
    using R(12-15) nq d unfolding Cons by auto
  then have "book_rel (b\<lparr>ob_orders := ?o\<rparr>) Q F' (insert h D)"
    using a Cons R(2-11,16-19) unfolding book_rel_def by (intro conjI allI impI ballI) simp_all
  then show ?thesis using a Cons nq
    by (intro exI [of _ h] exI [of _ ?o] exI [of _ F']) simp
next
  case Nil
  note R = book_relD [OF rel]
  let ?h = "bump_next (ob_orders b)"
  let ?o = "(ob_orders b)\<lparr>bump_next := Suc ?h\<rparr>"
  have "?h < length (slots (ob_orders b))" using room Nil by simp
  note a = alloc_rel_bump [OF _ this]
  have "?h \<notin> {..<?h}" by simp
  then have nq: "?h \<notin> queued Q" "?h \<notin> D" using R(12) by auto
  have "{..<bump_next ?o} = set [] \<union> insert ?h D \<union> queued Q"
    using R(12) Nil by (auto simp: lessThan_Suc)
  moreover have "insert ?h D \<inter> queued Q = {}" using nq R(15) by auto
  ultimately have "book_rel (b\<lparr>ob_orders := ?o\<rparr>) Q [] (insert ?h D)"
    using a R(1) Nil R(2-11,16-19) unfolding book_rel_def by (intro conjI allI impI ballI) simp_all
  then show ?thesis using a R(1) Nil nq
    by (intro exI [of _ ?h] exI [of _ ?o] exI [of _ "[]"]) simp
qed

section \<open>Attaching\<close>

lemma book_rel_other [simp]:
  "book_rel (b\<lparr>ob_sequence := n\<rparr>) Q F D = book_rel b Q F D" "book_rel (b\<lparr>ob_users := u\<rparr>) Q F D = book_rel b Q F D"
  "book_rel (b\<lparr>ob_event_buf := e\<rparr>) Q F D = book_rel b Q F D"
  "book_rel (b\<lparr>ob_best_bid_tick := n\<rparr>) Q F D = book_rel b Q F D" "book_rel (b\<lparr>ob_best_bid_px := p\<rparr>) Q F D = book_rel b Q F D"
  "book_rel (b\<lparr>ob_best_ask_tick := n\<rparr>) Q F D = book_rel b Q F D" "book_rel (b\<lparr>ob_best_ask_px := p\<rparr>) Q F D = book_rel b Q F D"
  "book_rel (b\<lparr>ob_state := st\<rparr>) Q F D = book_rel b Q F D" "book_rel (b\<lparr>ob_config := cf\<rparr>) Q F D = book_rel b Q F D"
  by (simp_all add: book_rel_def)

definition level_in :: "price_level \<Rightarrow> u32 \<Rightarrow> order_slot \<Rightarrow> price_level" where
  "level_in l h s =
     (let l1 = (if pl_order_count l = 0 then l\<lparr>pl_head := h, pl_tail := h\<rparr> else l\<lparr>pl_tail := h\<rparr>)
      in snd (count_in l1 (os_side s) (os_remaining_qty s)))"

lemma queue_length:
  assumes "book_rel b Q F D" and "h \<in> D" shows "length (Q t) + 1 < 4294967296"
proof -
  note R = book_relD [OF assms(1)]
  have "insert h (set (Q t)) \<subseteq> {..<bump_next (ob_orders b)}" using R(12) assms(2) by (auto simp: queued_def)
  from card_mono [OF finite_lessThan this] have "length (Q t) + 1 \<le> bump_next (ob_orders b)"
    using detached_facts(6) [OF assms, of t] distinct_card [OF R(10) [of t]] by simp
  then show ?thesis using R(1) by (simp add: slab_rel_def NONE_def)
qed

lemma link_tail_run:
  assumes "book_rel b Q F D" and "h \<in> D" and "t < length (ob_active_levels b)"
  defines "l \<equiv> ob_active_levels b ! t"
  shows "link_tail (ob_orders b) l h =
    Some ((ob_orders b)\<lparr>slots := appended (slots (ob_orders b)) (lastp NONE (Q t)) h\<rparr>,
          if pl_order_count l = 0 then l\<lparr>pl_head := h, pl_tail := h\<rparr> else l\<lparr>pl_tail := h\<rparr>)"
proof -
  note lo = book_relD(9) [OF assms(1,3)] and dt = detached_facts [OF assms(1,2)]
  show ?thesis
  proof (cases "Q t = []")
    case True
    then show ?thesis using lo by (simp add: link_tail_def level_ok_def appended_def l_def)
  next
    case False
    have N: "NONE \<notin> set (Q t)" using queue_set_facts(2) [OF assms(1)] by blast
    have t: "lastp NONE (Q t) \<in> set (Q t)" "lastp NONE (Q t) \<noteq> NONE"
      using False ends_NONE_iff(1) [OF N] lastp_mem [of "Q t"] by auto
    have lt: "lastp NONE (Q t) < length (slots (ob_orders b))" by (rule queue_tick(5) [OF assms(1) t(1)])
    have "pl_tail l = lastp NONE (Q t)" "pl_order_count l \<noteq> 0" using lo False by (auto simp: level_ok_def l_def)
    then show ?thesis using lt t dt(2,3)
      by (simp add: link_tail_def Let_def slab_get_def slab_put_def index_of_Some store_at_Some appended_def set_next_def set_prev_def)
  qed
qed

lemma level_in_ok:
  assumes rel: "book_rel b Q F D" and h: "h \<in> D" and t: "t < length (ob_active_levels b)"
    and s: "slot_ok (ob_compression b) t (ord b h)" and links: "os_next (ord b h) = NONE" "os_prev (ord b h) = NONE"
    and room: "qty_sum (slots (ob_orders b)) (Q t) + os_remaining_qty (ord b h) \<le> i64_max"
  shows "level_ok (appended (slots (ob_orders b)) (lastp NONE (Q t)) h) (level_in (ob_active_levels b ! t) h (ord b h)) (Q t @ [h])"
proof -
  let ?xs = "slots (ob_orders b)" and ?l = "ob_active_levels b ! t"
  let ?ys = "appended ?xs (lastp NONE (Q t)) h"
  note R = book_relD [OF rel] and lo = book_relD(9) [OF rel t] and dt = detached_facts [OF rel h]
  have seg: "seg ?ys NONE (Q t @ [h]) NONE"
    by (rule seg_append_one(1)) (use lo R(10) dt queue_set_facts [OF rel] links in \<open>auto simp: level_ok_def\<close>)
  have buy: "is_buy (?ys ! x) = is_buy (?xs ! x)" for x by (rule strip_sides(1)) simp
  have qty: "os_remaining_qty (?ys ! x) = os_remaining_qty (?xs ! x)" for x by (rule strip_eqD(2)) simp
  have len: "length (Q t) + 1 < 4294967296" by (rule queue_length [OF rel h])
  have fl: "length (filter P (Q t)) + 1 < 4294967296" for P using length_filter_le [of P "Q t"] len by linarith
  have pos: "0 \<le> qty_sum ?xs (Q t)" "0 \<le> os_remaining_qty (?xs ! h)"
    using qty_sum_nonneg [OF rel, of "Q t" t] s by (auto simp: slot_ok_def)
  have "i64_add (qty_sum ?xs (Q t)) (os_remaining_qty (?xs ! h)) = qty_sum ?xs (Q t) + os_remaining_qty (?xs ! h)"
    using pos room by (intro i64_add_id) (auto simp: in_i64_def i64_bounds)
  with seg lo buy qty len room u32_add_id [OF fl] u32_add_id [OF len] ends_NONE_iff [of "Q t"] queue_set_facts(2) [OF rel, of t]
  show ?thesis
    by (auto simp: level_ok_def level_in_def count_in_def Let_def qty_sum_def is_buy_def first_append lastp_append first_hd)
qed

lemma occ_mark_ok:
  assumes "occ_ok (ob_bid_occ b)" "occ_ok (ob_ask_occ b)" "t < occ_n (ob_bid_occ b)" "t < occ_n (ob_ask_occ b)"
  shows "\<exists>x y. (\<forall>b1. ob_bid_occ b1 = ob_bid_occ b \<longrightarrow> ob_ask_occ b1 = ob_ask_occ b \<longrightarrow>
      occ_mark b1 (os_side s) t = Some (b1\<lparr>ob_bid_occ := x, ob_ask_occ := y\<rparr>)) \<and>
    occ_ok x \<and> occ_n x = occ_n (ob_bid_occ b) \<and> members x = members (ob_bid_occ b) \<union> (if is_buy s then {t} else {}) \<and>
    occ_ok y \<and> occ_n y = occ_n (ob_ask_occ b) \<and> members y = members (ob_ask_occ b) \<union> (if is_buy s then {} else {t})"
proof (cases "is_buy s")
  case True
  obtain x where x: "occ_set (ob_bid_occ b) t = Some x" "occ_ok x" "members x = insert t (members (ob_bid_occ b))" "occ_n x = occ_n (ob_bid_occ b)"
    using occ_slots.put_law [OF assms(1,3)] by blast
  moreover have "occ_mark b1 (os_side s) t = Some (b1\<lparr>ob_bid_occ := x, ob_ask_occ := ob_ask_occ b\<rparr>)"
    if "ob_bid_occ b1 = ob_bid_occ b" "ob_ask_occ b1 = ob_ask_occ b" for b1 :: orderbook
    using True x(1) that(1) unfolding that(2) [symmetric] by (simp add: occ_mark_def is_buy_def)
  ultimately show ?thesis using True assms(2) by (intro exI [of _ x] exI [of _ "ob_ask_occ b"]) simp
next
  case False
  obtain y where y: "occ_set (ob_ask_occ b) t = Some y" "occ_ok y" "members y = insert t (members (ob_ask_occ b))" "occ_n y = occ_n (ob_ask_occ b)"
    using occ_slots.put_law [OF assms(2,4)] by blast
  moreover have "occ_mark b1 (os_side s) t = Some (b1\<lparr>ob_bid_occ := ob_bid_occ b, ob_ask_occ := y\<rparr>)"
    if "ob_bid_occ b1 = ob_bid_occ b" "ob_ask_occ b1 = ob_ask_occ b" for b1 :: orderbook
    using False y(1) that(2) unfolding that(1) [symmetric] by (simp add: occ_mark_def is_buy_def)
  ultimately show ?thesis using False assms(1) by (intro exI [of _ "ob_bid_occ b"] exI [of _ y]) simp
qed

definition was_empty_side :: "price_level \<Rightarrow> order_slot \<Rightarrow> bool" where
  "was_empty_side l s \<longleftrightarrow> (if is_buy s then pl_bid_count l = 0 else pl_ask_count l = 0)"

lemma attach_ok:
  assumes rel: "book_rel b Q F D" and h: "h \<in> D"
    and s: "slot_ok (ob_compression b) t (ord b h)" and links: "os_next (ord b h) = NONE" "os_prev (ord b h) = NONE"
    and room: "qty_sum (slots (ob_orders b)) (Q t) + os_remaining_qty (ord b h) \<le> i64_max"
  defines "o' \<equiv> (ob_orders b)\<lparr>slots := appended (slots (ob_orders b)) (lastp NONE (Q t)) h\<rparr>"
    and "ls \<equiv> (ob_active_levels b)[t := level_in (ob_active_levels b ! t) h (ord b h)]"
  shows "\<exists>x y. (\<forall>b1. ob_bid_occ b1 = ob_bid_occ b \<longrightarrow> ob_ask_occ b1 = ob_ask_occ b \<longrightarrow>
      (if was_empty_side (ob_active_levels b ! t) (ord b h) then occ_mark b1 (os_side (ord b h)) t else Some b1) =
        Some (b1\<lparr>ob_bid_occ := x, ob_ask_occ := y\<rparr>)) \<and>
    book_rel (b\<lparr>ob_orders := o', ob_active_levels := ls, ob_bid_occ := x, ob_ask_occ := y\<rparr>) (Q(t := Q t @ [h])) F (D - {h})"
proof -
  let ?xs = "slots (ob_orders b)" and ?l = "ob_active_levels b ! t" and ?s = "ord b h" and ?Q = "Q(t := Q t @ [h])"
  let ?ys = "appended ?xs (lastp NONE (Q t)) h"
  note R = book_relD [OF rel] and dt = detached_facts [OF rel h]
  have t: "t < length (ob_active_levels b)"
    using s slot_index_bound [OF R(2), of "os_price (ord b h)"] total_slots_ok [OF R(2)] R(4) by (simp add: slot_ok_def)
  note lo = book_relD(9) [OF rel t]
  have strip: "is_buy (?ys ! x) = is_buy (?xs ! x)" "slot_ok c u (?ys ! x) = slot_ok c u (?xs ! x)"
    "is_active (?ys ! x) = is_active (?xs ! x)" for x c u
    by (rule strip_sides(1) strip_sides(2) strip_eqD(11), simp)+
  have bids: "{u. \<exists>z\<in>set (?Q u). is_buy (?xs ! z)} = members (ob_bid_occ b) \<union> (if is_buy ?s then {t} else {})"
    "{u. \<exists>z\<in>set (?Q u). \<not> is_buy (?xs ! z)} = members (ob_ask_occ b) \<union> (if is_buy ?s then {} else {t})"
    unfolding R(16,17) by auto
  have already: "(if is_buy ?s then t \<in> members (ob_bid_occ b) else t \<in> members (ob_ask_occ b))"
    if "\<not> was_empty_side ?l ?s"
    using that lo unfolding R(16,17) was_empty_side_def level_ok_def by (auto simp: filter_empty_conv split: if_splits)
  have "\<exists>x y. (\<forall>b1. ob_bid_occ b1 = ob_bid_occ b \<longrightarrow> ob_ask_occ b1 = ob_ask_occ b \<longrightarrow>
      (if was_empty_side ?l ?s then occ_mark b1 (os_side ?s) t else Some b1) = Some (b1\<lparr>ob_bid_occ := x, ob_ask_occ := y\<rparr>)) \<and>
    occ_ok x \<and> occ_n x = length (ob_active_levels b) \<and> members x = {u. \<exists>z\<in>set (?Q u). is_buy (?xs ! z)} \<and>
    occ_ok y \<and> occ_n y = length (ob_active_levels b) \<and> members y = {u. \<exists>z\<in>set (?Q u). \<not> is_buy (?xs ! z)}"
  proof (cases "was_empty_side ?l ?s")
    case True
    then show ?thesis using occ_mark_ok [OF R(5,7), of t ?s] R(6,8) t unfolding bids by simp
  next
    case False
    have "b1 = b1\<lparr>ob_bid_occ := ob_bid_occ b, ob_ask_occ := ob_ask_occ b\<rparr>"
      if "ob_bid_occ b1 = ob_bid_occ b" "ob_ask_occ b1 = ob_ask_occ b" for b1 :: orderbook
      unfolding that [symmetric] by simp
    with False already [OF False] R(5-8) show ?thesis unfolding bids
      by (intro exI [of _ "ob_bid_occ b"] exI [of _ "ob_ask_occ b"] conjI allI impI) (simp_all add: insert_absorb split: if_splits)
  qed
  then obtain x y where xy: "\<forall>b1. ob_bid_occ b1 = ob_bid_occ b \<longrightarrow> ob_ask_occ b1 = ob_ask_occ b \<longrightarrow>
      (if was_empty_side ?l ?s then occ_mark b1 (os_side ?s) t else Some b1) = Some (b1\<lparr>ob_bid_occ := x, ob_ask_occ := y\<rparr>)"
    "occ_ok x" "occ_n x = length (ob_active_levels b)" "members x = {u. \<exists>z\<in>set (?Q u). is_buy (?xs ! z)}"
    "occ_ok y" "occ_n y = length (ob_active_levels b)" "members y = {u. \<exists>z\<in>set (?Q u). \<not> is_buy (?xs ! z)}"
    by blast
  have other: "?ys ! z = ?xs ! z" if "z \<notin> set (Q t)" "z \<noteq> h" for z
    using seg_append_one(2) [of ?xs "Q t" h z] lo R(10) dt queue_set_facts [OF rel, of t] links that by (auto simp: level_ok_def)
  have levels: "level_ok ?ys (ls ! u) (?Q u)" if "u < length (ob_active_levels b)" for u
  proof (cases "u = t")
    case True
    then show ?thesis using level_in_ok [OF rel h t s links room] t by (simp add: ls_def)
  next
    case False
    have "?ys ! z = ?xs ! z" if "z \<in> set (Q u)" for z
      using that False queues_disjoint [OF rel that] dt(6) by (intro other) blast+
    then show ?thesis using level_ok_cong [of "Q u" ?ys ?xs] R(9) [OF that] False by (simp add: ls_def)
  qed
  have "free_chain ?ys (free_head (ob_orders b)) F = free_chain ?xs (free_head (ob_orders b)) F"
    using other R(14) dt(5) by (intro free_chain_cong) (metis IntI empty_iff in_queued, simp)
  then have "slab_rel o' F" using R(1) by (simp add: slab_rel_def o'_def)
  moreover have qd: "queued ?Q = insert h (queued Q)" by (auto simp: queued_def split: if_splits)
  then have "{..<bump_next o'} = set F \<union> (D - {h}) \<union> queued ?Q" "set F \<inter> (D - {h}) = {}"
    "set F \<inter> queued ?Q = {}" "(D - {h}) \<inter> queued ?Q = {}" using R(12-15) h dt(5) by (auto simp: o'_def)
  moreover have "\<not> is_active (?ys ! z)" if "z < length ?ys" "z \<notin> queued ?Q \<union> (D - {h})" for z
    using that R(18) by (auto simp: qd strip)
  moreover have "slot_ok (ob_compression b) u (?xs ! z)" if "z \<in> set (?Q u)" for u z
    using that R(11) s by (auto split: if_splits)
  moreover have "distinct (?Q u)" for u using R(10) dt(6) by auto
  moreover have "length ls = length (ob_active_levels b)" by (simp add: ls_def)
  moreover have "?Q u = []" if "length (ob_active_levels b) \<le> u" for u using R(19) [OF that] t that by auto
  ultimately have "book_rel (b\<lparr>ob_orders := o', ob_active_levels := ls, ob_bid_occ := x, ob_ask_occ := y\<rparr>) ?Q F (D - {h})"
    using levels R(2-4) xy(2-) unfolding book_rel_def by (intro conjI allI impI ballI) (simp_all add: strip o'_def)
  with xy(1) show ?thesis by blast
qed

end
