(* ===== verification/Book_Best.thy ===== *)
theory Book_Best
  imports Book_Inv
begin

text \<open>
  The top of the book: \<open>bid_top_at\<close> and \<open>ask_top_at\<close> return the best price of a slot and the exact
  quantity resting at it, and \<open>refresh_best_bid\<close> and \<open>refresh_best_ask\<close> re-establish \<open>best_ok\<close> from any
  state that satisfies \<open>book_rel\<close>. Both sides are instances of one argument, with the price negated for asks.
\<close>

section \<open>The best price of a list of orders\<close>

definition key :: "side \<Rightarrow> i64 \<Rightarrow> i64" where
  "key sd p = (case sd of Buy \<Rightarrow> p | Sell \<Rightarrow> - p)"

lemma better_key: "better sd p q \<longleftrightarrow> key sd q \<le> key sd p"
  by (cases sd) (auto simp: better_def key_def)

lemma key_inj [simp]: "key sd p = key sd q \<longleftrightarrow> p = q"
  by (cases sd) (auto simp: key_def)

definition top_step :: "side \<Rightarrow> order_slot \<Rightarrow> i64 \<times> i64 \<Rightarrow> i64 \<times> i64" where
  "top_step sd s acc = (case acc of (px, qty) \<Rightarrow>
     if on_side sd s
     then (if key sd px < key sd (os_price s) then (os_price s, os_remaining_qty s)
           else if os_price s = px then (px, i64_add qty (os_remaining_qty s)) else (px, qty))
     else (px, qty))"

lemma top_step_eq: "top_step sd s (px, qty) =
    (if on_side sd s
     then (if key sd px < key sd (os_price s) then (os_price s, os_remaining_qty s)
           else if os_price s = px then (px, i64_add qty (os_remaining_qty s)) else (px, qty))
     else (px, qty))"
  by (simp add: top_step_def)

lemma top_steps:
  "bid_top_step s acc = top_step Buy s acc" "os_side s \<le> 1 \<Longrightarrow> ask_top_step s acc = top_step Sell s acc"
  by (auto simp: bid_top_step_def ask_top_step_def top_step_def on_side_def is_buy_def key_def split: prod.splits)

definition at_price :: "order_slot list \<Rightarrow> side \<Rightarrow> u32 list \<Rightarrow> i64 \<Rightarrow> u32 list" where
  "at_price xs sd hs p = filter (\<lambda>h. on_side sd (xs ! h) \<and> os_price (xs ! h) = p) hs"

definition top_of :: "order_slot list \<Rightarrow> side \<Rightarrow> u32 list \<Rightarrow> i64 \<times> i64 \<Rightarrow> bool" where
  "top_of xs sd hs r \<longleftrightarrow> (\<exists>h\<in>set hs. on_side sd (xs ! h) \<and> os_price (xs ! h) = fst r) \<and>
     (\<forall>h\<in>set hs. on_side sd (xs ! h) \<longrightarrow> better sd (fst r) (os_price (xs ! h))) \<and>
     snd r = qty_sum xs (at_price xs sd hs (fst r))"

lemma qty_sum_le:
  assumes "\<forall>h\<in>set hs. 0 \<le> os_remaining_qty (xs ! h)"
  shows "0 \<le> qty_sum xs (filter P hs)" "qty_sum xs (filter P hs) \<le> qty_sum xs hs"
  using assms by (induction hs) (auto simp: qty_sum_def)

lemma qty_sum_append [simp]: "qty_sum xs (as @ bs) = qty_sum xs as + qty_sum xs bs"
  "qty_sum xs (h # bs) = os_remaining_qty (xs ! h) + qty_sum xs bs" "qty_sum xs [] = 0"
  by (simp_all add: qty_sum_def)

lemma top_fold:
  assumes "\<forall>h\<in>set hs. 0 \<le> os_remaining_qty (xs ! h) \<and> key sd p0 \<le> key sd (os_price (xs ! h))"
    and "qty_sum xs hs \<le> i64_max"
  shows "if \<exists>h\<in>set hs. on_side sd (xs ! h) then top_of xs sd hs (fold (\<lambda>h. top_step sd (xs ! h)) hs (p0, 0))
    else fold (\<lambda>h. top_step sd (xs ! h)) hs (p0, 0) = (p0, 0)"
  using assms
proof (induction hs rule: rev_induct)
  case Nil
  then show ?case by simp
next
  case (snoc h hs)
  obtain px qty where r: "fold (\<lambda>h. top_step sd (xs ! h)) hs (p0, 0) = (px, qty)" by fastforce
  have pos: "\<forall>h\<in>set hs. 0 \<le> os_remaining_qty (xs ! h)" "0 \<le> os_remaining_qty (xs ! h)" using snoc.prems(1) by auto
  have IH: "if \<exists>h\<in>set hs. on_side sd (xs ! h) then top_of xs sd hs (px, qty) else (px, qty) = (p0, 0)"
    using snoc.IH snoc.prems pos(2) unfolding r by simp
  show ?case
  proof (cases "on_side sd (xs ! h)")
    case False
    then show ?thesis using IH r
      by (cases "\<exists>h\<in>set hs. on_side sd (xs ! h)") (auto simp: top_step_eq top_of_def at_price_def)
  next
    case True
    have below: "key sd p0 \<le> key sd (os_price (xs ! h))" using snoc.prems(1) by simp
    have zero: "i64_add 0 (os_remaining_qty (xs ! h)) = os_remaining_qty (xs ! h)"
      using pos snoc.prems(2) qty_sum_le(1) [OF pos(1), of "\<lambda>x. True"] by (subst i64_add_id) (auto simp: in_i64_def i64_bounds)
    show ?thesis
    proof (cases "\<exists>h\<in>set hs. on_side sd (xs ! h)")
      case False
      then have "(px, qty) = (p0, 0)" "\<And>p. at_price xs sd hs p = []" using IH by (auto simp: at_price_def filter_empty_conv)
      with r True below zero False show ?thesis
        by (cases "os_price (xs ! h) = p0") (auto simp: top_step_eq top_of_def better_key at_price_def less_le)
    next
      case some: True
      then have top: "top_of xs sd hs (px, qty)" using IH by simp
      have q: "qty = qty_sum xs (at_price xs sd hs px)" using top by (simp add: top_of_def)
      have "0 \<le> qty" "qty + os_remaining_qty (xs ! h) \<le> i64_max"
        using qty_sum_le [OF pos(1)] snoc.prems(2) q by (auto simp: at_price_def intro: order_trans [rotated])
      then have add: "i64_add qty (os_remaining_qty (xs ! h)) = qty + os_remaining_qty (xs ! h)"
        using pos(2) by (intro i64_add_id) (simp add: in_i64_def i64_bounds)
      consider "key sd px < key sd (os_price (xs ! h))" | "os_price (xs ! h) = px" | "key sd (os_price (xs ! h)) < key sd px"
        by (metis key_inj linorder_less_linear)
      then show ?thesis
      proof cases
        case 1
        have "at_price xs sd hs (os_price (xs ! h)) = []"
          using top 1 by (auto simp: top_of_def better_key at_price_def filter_empty_conv)
        with 1 r True top show ?thesis by (auto simp: top_step_eq top_of_def better_key at_price_def)
      next
        case 2
        then show ?thesis using r True top add by (auto simp: top_step_eq top_of_def better_key at_price_def)
      next
        case 3
        then show ?thesis using r True top by (auto simp: top_step_eq top_of_def better_key at_price_def)
      qed
    qed
  qed
qed

section \<open>The top of a slot\<close>

lemma compressed_top:
  assumes rel: "book_rel b Q F D" and t: "t < length (ob_active_levels b)"
    and some: "\<exists>h\<in>set (Q t). on_side sd (ord b h)"
  shows "\<exists>r. walk (slots (ob_orders b)) (case sd of Buy \<Rightarrow> bid_top_step | Sell \<Rightarrow> ask_top_step)
      (case sd of Buy \<Rightarrow> i64_min | Sell \<Rightarrow> i64_max, 0) (pl_head (ob_active_levels b ! t)) = Some r \<and>
    top_of (slots (ob_orders b)) sd (Q t) r"
proof -
  let ?xs = "slots (ob_orders b)" and ?p0 = "case sd of Buy \<Rightarrow> i64_min | Sell \<Rightarrow> i64_max"
  note lo = book_relD(9) [OF rel t] and so = book_relD(11) [OF rel]
  let ?r = "fold (\<lambda>h. top_step sd (?xs ! h)) (Q t) (?p0, 0)"
  have w: "walk ?xs f acc (pl_head (ob_active_levels b ! t)) = Some (fold (\<lambda>h. f (?xs ! h)) (Q t) acc)" for f and acc :: "i64 \<times> i64"
    using walk_seg [of ?xs NONE "Q t"] lo queue_set_facts [OF rel, of t] by (simp add: level_ok_def)
  have "fold (\<lambda>h. (case sd of Buy \<Rightarrow> bid_top_step | Sell \<Rightarrow> ask_top_step) (?xs ! h)) (Q t) (?p0, 0) = ?r"
    using so by (intro fold_cong) (auto simp: top_steps slot_ok_def split: side.split)
  with w have run: "walk ?xs (case sd of Buy \<Rightarrow> bid_top_step | Sell \<Rightarrow> ask_top_step) (?p0, 0) (pl_head (ob_active_levels b ! t)) = Some ?r"
    by simp
  have "0 \<le> os_remaining_qty (?xs ! h) \<and> key sd ?p0 \<le> key sd (os_price (?xs ! h))" if h: "h \<in> set (Q t)" for h
    using so [OF h] by (cases sd) (auto simp: slot_ok_def price_range_def key_def i64_min_def)
  with top_fold [of "Q t" ?xs sd ?p0] lo some run show ?thesis by (auto simp: level_ok_def)
qed

definition top_at :: "orderbook \<Rightarrow> side \<Rightarrow> u32 \<Rightarrow> (i64 \<times> i64) option" where
  "top_at b sd t = (case sd of Buy \<Rightarrow> bid_top_at b t | Sell \<Rightarrow> ask_top_at b t)"

definition top_price :: "order_slot list \<Rightarrow> side \<Rightarrow> u32 list \<Rightarrow> i64 \<Rightarrow> bool" where
  "top_price xs sd hs p \<longleftrightarrow> (\<exists>h\<in>set hs. on_side sd (xs ! h) \<and> os_price (xs ! h) = p) \<and>
     (\<forall>h\<in>set hs. on_side sd (xs ! h) \<longrightarrow> better sd p (os_price (xs ! h)))"

lemma top_of_price: "top_of xs sd hs r \<longleftrightarrow> top_price xs sd hs (fst r) \<and> snd r = qty_sum xs (at_price xs sd hs (fst r))"
  by (auto simp: top_of_def top_price_def)

text \<open>In zone 0 every order of a slot has the same price.\<close>

lemma zone0_same_price:
  assumes "book_rel b Q F D" and "t < cp_zone_slots (ob_compression b) ! 0" and "h \<in> set (Q t)" "g \<in> set (Q t)"
  shows "os_price (ord b h) = os_price (ord b g)"
  using book_relD(11) [OF assms(1,3)] book_relD(11) [OF assms(1,4)] assms(2)
  by (intro zone0_inj [OF book_relD(2) [OF assms(1)]]) (auto simp: slot_ok_def)

lemma top_at_ok:
  assumes rel: "book_rel b Q F D" and some: "\<exists>h\<in>set (Q t). on_side sd (ord b h)"
  shows "\<exists>r. top_at b sd t = Some r \<and> top_price (slots (ob_orders b)) sd (Q t) (fst r) \<and>
    (t < cp_zone_slots (ob_compression b) ! 0 \<longrightarrow> (\<forall>h\<in>set (Q t). on_side sd (ord b h)) \<longrightarrow> top_of (slots (ob_orders b)) sd (Q t) r) \<and>
    (cp_zone_slots (ob_compression b) ! 0 \<le> t \<longrightarrow> top_of (slots (ob_orders b)) sd (Q t) r)"
proof -
  let ?xs = "slots (ob_orders b)" and ?l = "ob_active_levels b ! t"
  obtain h where h: "h \<in> set (Q t)" "on_side sd (?xs ! h)" using some by blast
  note q = queue_tick [OF rel h(1)] and lo = level_at [OF rel h(1)]
  have c: "pl_bid_count ?l \<noteq> 0" if "sd = Buy" using lo h that by (auto simp: level_ok_def on_side_def filter_empty_conv)
  have c': "pl_ask_count ?l \<noteq> 0" if "sd = Sell" using lo h that by (auto simp: level_ok_def on_side_def filter_empty_conv)
  show ?thesis
  proof (cases "t < cp_zone_slots (ob_compression b) ! 0")
    case True
    let ?g = "pl_head ?l"
    have g: "?g \<in> set (Q t)" using lo h(1) by (cases "Q t") (auto simp: level_ok_def)
    have px: "os_price (?xs ! x) = os_price (?xs ! ?g)" if "x \<in> set (Q t)" for x
      by (rule zone0_same_price [OF rel True that g])
    have run: "top_at b sd t = Some (os_price (?xs ! ?g), pl_total_qty ?l)"
      using True q(1,3) c c' queue_tick(5) [OF rel g]
      by (cases sd) (simp_all add: top_at_def bid_top_at_def ask_top_at_def index_of_Some slab_get_def)
    have "at_price ?xs sd (Q t) (os_price (?xs ! ?g)) = Q t" if "\<forall>h\<in>set (Q t). on_side sd (?xs ! h)"
      unfolding at_price_def using px that by (intro filter_True) blast
    with run True px h lo show ?thesis by (auto simp: top_price_def top_of_price better_key level_ok_def)
  next
    case False
    then have "top_at b sd t = walk ?xs (case sd of Buy \<Rightarrow> bid_top_step | Sell \<Rightarrow> ask_top_step)
      (case sd of Buy \<Rightarrow> i64_min | Sell \<Rightarrow> i64_max, 0) (pl_head ?l)"
      using q(1,3) c c' by (cases sd) (simp_all add: top_at_def bid_top_at_def ask_top_at_def index_of_Some)
    with compressed_top [OF rel q(1) some] False show ?thesis by (auto simp: top_of_price)
  qed
qed

section \<open>Refreshing the best\<close>

lemma occ_members:
  assumes "book_rel b Q F D"
  shows "members (case sd of Buy \<Rightarrow> ob_bid_occ b | Sell \<Rightarrow> ob_ask_occ b) = {t. \<exists>h\<in>set (Q t). on_side sd (ord b h)}"
    "members (case sd of Buy \<Rightarrow> ob_bid_occ b | Sell \<Rightarrow> ob_ask_occ b) \<subseteq> range (slot_index (ob_compression b))"
    "resting b Q sd = {} \<longleftrightarrow> members (case sd of Buy \<Rightarrow> ob_bid_occ b | Sell \<Rightarrow> ob_ask_occ b) = {}"
proof -
  show m: "members (case sd of Buy \<Rightarrow> ob_bid_occ b | Sell \<Rightarrow> ob_ask_occ b) = {t. \<exists>h\<in>set (Q t). on_side sd (ord b h)}"
    using book_relD(16,17) [OF assms] by (cases sd) (simp_all add: on_side_def)
  show "members (case sd of Buy \<Rightarrow> ob_bid_occ b | Sell \<Rightarrow> ob_ask_occ b) \<subseteq> range (slot_index (ob_compression b))"
  proof
    fix t assume "t \<in> members (case sd of Buy \<Rightarrow> ob_bid_occ b | Sell \<Rightarrow> ob_ask_occ b)"
    then obtain h where "h \<in> set (Q t)" unfolding m by blast
    then have "t = slot_index (ob_compression b) (os_price (ord b h))"
      using book_relD(11) [OF assms, of h t] by (simp add: slot_ok_def)
    then show "t \<in> range (slot_index (ob_compression b))" by blast
  qed
  show "resting b Q sd = {} \<longleftrightarrow> members (case sd of Buy \<Rightarrow> ob_bid_occ b | Sell \<Rightarrow> ob_ask_occ b) = {}"
    unfolding m by (auto simp: resting_def queued_def)
qed

definition scan_next :: "orderbook \<Rightarrow> side \<Rightarrow> u32 option" where
  "scan_next b sd = (case sd of Buy \<Rightarrow> scan_next_bid b | Sell \<Rightarrow> scan_next_ask b)"

lemma scan_next_ok:
  assumes rel: "book_rel b Q F D"
  shows "\<exists>t. scan_next b sd = Some t \<and>
    (if resting b Q sd = {} then t = NONE
     else (\<exists>h\<in>set (Q t). on_side sd (ord b h)) \<and>
       (\<forall>p. slot_index (ob_compression b) p = t \<longrightarrow> (\<forall>h\<in>resting b Q sd. h \<notin> set (Q t) \<longrightarrow> better sd p (os_price (ord b h)))))"
proof -
  let ?oc = "case sd of Buy \<Rightarrow> ob_bid_occ b | Sell \<Rightarrow> ob_ask_occ b"
  note R = book_relD [OF rel] and m = occ_members [OF rel, of sd]
  have ok: "occ_ok ?oc" using R(5,7) by (cases sd) auto
  have "\<exists>r. scan_next b sd = Some (case r of Some t \<Rightarrow> t | None \<Rightarrow> NONE) \<and> (case r of None \<Rightarrow> members ?oc = {}
    | Some t \<Rightarrow> t \<in> members ?oc \<and> (\<forall>p q. slot_index (ob_compression b) p = t \<longrightarrow> slot_index (ob_compression b) q \<in> members ?oc \<longrightarrow>
        slot_index (ob_compression b) q \<noteq> t \<longrightarrow> better sd p q))"
  proof (cases sd)
    case Buy
    obtain r where "scan_ranges (find_last_in ?oc) (rev (build_price_asc (ob_compression b))) = Some r" "case r of None \<Rightarrow> members ?oc = {}
      | Some t \<Rightarrow> t \<in> members ?oc \<and> (\<forall>p q. slot_index (ob_compression b) p = t \<longrightarrow> slot_index (ob_compression b) q \<in> members ?oc \<longrightarrow>
        slot_index (ob_compression b) q \<noteq> t \<longrightarrow> q < p)"
      using book_scan.scan_highest [OF R(2) ok m(2)] by blast
    then show ?thesis using Buy R(3)
      by (intro exI [of _ r]) (auto simp: scan_next_def scan_next_bid_def better_def less_imp_le split: option.split_asm)
  next
    case Sell
    obtain r where "scan_ranges (find_first_in ?oc) (build_price_asc (ob_compression b)) = Some r" "case r of None \<Rightarrow> members ?oc = {}
      | Some t \<Rightarrow> t \<in> members ?oc \<and> (\<forall>p q. slot_index (ob_compression b) p = t \<longrightarrow> slot_index (ob_compression b) q \<in> members ?oc \<longrightarrow>
        slot_index (ob_compression b) q \<noteq> t \<longrightarrow> p < q)"
      using book_scan.scan_lowest [OF R(2) ok m(2)] by blast
    then show ?thesis using Sell R(3)
      by (intro exI [of _ r]) (auto simp: scan_next_def scan_next_ask_def better_def less_imp_le split: option.split_asm)
  qed
  then obtain r where r: "scan_next b sd = Some (case r of Some t \<Rightarrow> t | None \<Rightarrow> NONE)" and cr: "case r of None \<Rightarrow> members ?oc = {}
    | Some t \<Rightarrow> t \<in> members ?oc \<and> (\<forall>p q. slot_index (ob_compression b) p = t \<longrightarrow> slot_index (ob_compression b) q \<in> members ?oc \<longrightarrow>
        slot_index (ob_compression b) q \<noteq> t \<longrightarrow> better sd p q)" by blast
  show ?thesis
  proof (cases r)
    case None
    then show ?thesis using r cr m(3) by simp
  next
    case (Some t)
    have "better sd p (os_price (ord b h))"
      if sp: "slot_index (ob_compression b) p = t" and hr: "h \<in> resting b Q sd" and hn: "h \<notin> set (Q t)" for p h
    proof -
      obtain u where u: "h \<in> set (Q u)" "on_side sd (ord b h)" using hr by (auto simp: resting_def queued_def)
      have s: "slot_index (ob_compression b) (os_price (ord b h)) = u" using R(11) [OF u(1)] by (simp add: slot_ok_def)
      have "u \<in> members ?oc" "u \<noteq> t" using u hn m(1) by auto
      then show ?thesis using cr Some s sp by auto
    qed
    moreover have "resting b Q sd \<noteq> {}" "\<exists>h\<in>set (Q t). on_side sd (ord b h)" using cr Some m(1,3) by auto
    ultimately show ?thesis using r Some by auto
  qed
qed

definition refresh :: "orderbook \<Rightarrow> side \<Rightarrow> orderbook option" where
  "refresh b sd = (case sd of Buy \<Rightarrow> refresh_best_bid b | Sell \<Rightarrow> refresh_best_ask b)"

definition set_best :: "orderbook \<Rightarrow> side \<Rightarrow> u32 \<Rightarrow> i64 \<Rightarrow> orderbook" where
  "set_best b sd t p = (case sd of
     Buy \<Rightarrow> b\<lparr>ob_best_bid_tick := t, ob_best_bid_px := p\<rparr>
   | Sell \<Rightarrow> b\<lparr>ob_best_ask_tick := t, ob_best_ask_px := p\<rparr>)"

lemma set_best_sel [simp]:
  "best_tick (set_best b sd t p) sd = t" "best_px (set_best b sd t p) sd = p"
  "ob_orders (set_best b sd t p) = ob_orders b" "ob_compression (set_best b sd t p) = ob_compression b"
  "ob_users (set_best b sd t p) = ob_users b" "ob_event_buf (set_best b sd t p) = ob_event_buf b"
  "ob_active_levels (set_best b sd t p) = ob_active_levels b" "ob_config (set_best b sd t p) = ob_config b"
  "book_rel (set_best b sd t p) Q F D = book_rel b Q F D"
  "resting (set_best b sd t p) Q sd' = resting b Q sd'"
  by (cases sd; simp add: set_best_def best_tick_def best_px_def resting_def)+

lemma set_best_other [simp]:
  "sd' \<noteq> sd \<Longrightarrow> best_tick (set_best b sd t p) sd' = best_tick b sd'"
  "sd' \<noteq> sd \<Longrightarrow> best_px (set_best b sd t p) sd' = best_px b sd'"
  by (cases sd; cases sd'; simp add: set_best_def best_tick_def best_px_def)+

lemma best_ok_other [simp]: "sd' \<noteq> sd \<Longrightarrow> best_ok (set_best b sd t p) Q sd' = best_ok b Q sd'"
  by (simp add: best_ok_def)

lemma top_at_tick_upd:
  "bid_top_at (b\<lparr>ob_best_bid_tick := t\<rparr>) u = bid_top_at b u" "ask_top_at (b\<lparr>ob_best_ask_tick := t\<rparr>) u = ask_top_at b u"
  by (simp_all add: bid_top_at_def ask_top_at_def cong: if_cong)

lemma refresh_run:
  assumes "scan_next b sd = Some t" and "top_at b sd t = Some r"
  shows "refresh b sd = Some (set_best b sd t (fst r))"
  using assms
  by (cases sd; cases r) (simp_all add: refresh_def refresh_best_bid_def refresh_best_ask_def scan_next_def set_best_def
      top_at_def top_at_tick_upd Let_def)

lemma refresh_ok:
  assumes rel: "book_rel b Q F D"
  shows "\<exists>t p. refresh b sd = Some (set_best b sd t p) \<and> best_ok (set_best b sd t p) Q sd"
proof -
  obtain t where t: "scan_next b sd = Some t" and ct: "if resting b Q sd = {} then t = NONE
     else (\<exists>h\<in>set (Q t). on_side sd (ord b h)) \<and>
       (\<forall>p. slot_index (ob_compression b) p = t \<longrightarrow> (\<forall>h\<in>resting b Q sd. h \<notin> set (Q t) \<longrightarrow> better sd p (os_price (ord b h))))"
    using scan_next_ok [OF rel] by blast
  show ?thesis
  proof (cases "resting b Q sd = {}")
    case True
    then have "top_at b sd t = Some (0, 0)" using ct by (cases sd) (simp_all add: top_at_def bid_top_at_def ask_top_at_def)
    from refresh_run [OF t this] True ct show ?thesis by (intro exI [of _ NONE] exI [of _ 0]) (simp add: best_ok_def)
  next
    case False
    then obtain r where r: "top_at b sd t = Some r" "top_price (slots (ob_orders b)) sd (Q t) (fst r)"
      using top_at_ok [OF rel, of t sd] ct by auto
    obtain g where g: "g \<in> set (Q t)" "on_side sd (ord b g)" "os_price (ord b g) = fst r" using r(2) by (auto simp: top_price_def)
    have sl: "slot_index (ob_compression b) (fst r) = t" using book_relD(11) [OF rel g(1)] g(3) by (simp add: slot_ok_def)
    have "better sd (fst r) (os_price (ord b h))" if "h \<in> resting b Q sd" for h
      using that r(2) sl ct False by (cases "h \<in> set (Q t)") (auto simp: top_price_def resting_def)
    moreover have "g \<in> resting b Q sd" using g in_queued [of g Q t] by (simp add: resting_def)
    ultimately have "best_ok (set_best b sd t (fst r)) Q sd" using False sl g(3) by (auto simp: best_ok_def)
    with refresh_run [OF t r(1)] show ?thesis by blast
  qed
qed

end
