(* ===== verification/Book_Ops.thy ===== *)
theory Book_Ops
  imports Book_Best
begin

text \<open>
  The operations of \<open>book.rs\<close> on a well-formed book: \<open>insert_resting\<close> appends to one queue,
  \<open>cancel_order\<close> removes from one, the two modify operations combine them, and none of them panics,
  loops or disturbs another order. \<open>book_sig\<close> bundles what an operation leaves alone.
\<close>

section \<open>Transfer between states\<close>

lemma best_ok_transfer:
  assumes "resting b' Q' sd = resting b Q sd" and "\<And>h. h \<in> resting b Q sd \<Longrightarrow> os_price (ord b' h) = os_price (ord b h)"
    and "ob_compression b' = ob_compression b" and "best_tick b' sd = best_tick b sd" and "best_px b' sd = best_px b sd"
  shows "best_ok b' Q' sd = best_ok b Q sd"
  using assms by (auto simp: best_ok_def)

lemma finite_queued: "book_rel b Q F D \<Longrightarrow> finite (queued Q)"
  using book_relD(12) [of b Q F D] finite_lessThan [of "bump_next (ob_orders b)"] by (metis finite_Un)

lemma queued_bound:
  assumes "book_rel b Q F D" and "h \<in> D" shows "card (queued Q) < u32_max"
proof -
  have "insert h (queued Q) \<subseteq> {..<bump_next (ob_orders b)}" using book_relD(12) [OF assms(1)] assms(2) by auto
  from card_mono [OF finite_lessThan this] have "card (queued Q) + 1 \<le> bump_next (ob_orders b)"
    using finite_queued [OF assms(1)] detached_facts(4) [OF assms] by simp
  then show ?thesis using book_relD(1) [OF assms(1)] by (simp add: slab_rel_def NONE_def u32_max_def)
qed

definition user_orders :: "orderbook \<Rightarrow> queues \<Rightarrow> u32 \<Rightarrow> u32 set" where
  "user_orders b Q uid = {h \<in> queued Q. os_user_id (ord b h) = uid}"

lemma users_rel_alt: "users_rel b Q \<longleftrightarrow> users_ok (ob_users b) \<and> (\<forall>uid. resting_of (ob_users b) uid = card (user_orders b Q uid))"
  by (simp add: users_rel_def user_orders_def)

lemma user_orders_add:
  assumes "\<And>x. x \<in> queued Q \<Longrightarrow> os_user_id (ord b' x) = os_user_id (ord b x)"
    and "queued Q' = insert h (queued Q)" and "h \<notin> queued Q" and "finite (queued Q)"
  shows "card (user_orders b' Q' uid) = card (user_orders b Q uid) + (if os_user_id (ord b' h) = uid then 1 else 0)"
proof -
  have "user_orders b' Q' uid = (if os_user_id (ord b' h) = uid then insert h (user_orders b Q uid) else user_orders b Q uid)"
    using assms(1-3) by (auto simp: user_orders_def)
  moreover have "finite (user_orders b Q uid)" "h \<notin> user_orders b Q uid" using assms(3,4) by (auto simp: user_orders_def)
  ultimately show ?thesis by simp
qed

text \<open>A resting order's owner is registered.\<close>

lemma owner_known:
  assumes "users_rel b Q" and "book_rel b Q F D" and "h \<in> queued Q"
  shows "ur_contains (ob_users b) (os_user_id (ord b h))"
proof -
  let ?u = "os_user_id (ord b h)"
  have "h \<in> user_orders b Q ?u" "finite (user_orders b Q ?u)"
    using assms(3) finite_queued [OF assms(2)] by (auto simp: user_orders_def)
  then have "resting_of (ob_users b) ?u \<noteq> 0" using assms(1) by (auto simp: users_rel_alt)
  then show ?thesis by (auto simp: ur_contains_def resting_of_def split: option.splits)
qed

section \<open>Inserting\<close>

definition fresh_order :: "order_slot \<Rightarrow> i64 \<Rightarrow> i64 \<Rightarrow> side \<Rightarrow> u8 \<Rightarrow> u32 \<Rightarrow> bool \<Rightarrow> u64 \<Rightarrow> u64 \<Rightarrow> bool" where
  "fresh_order s price qty sd tif uid ro hi lo \<longleftrightarrow> os_price s = price \<and> os_remaining_qty s = qty \<and> os_original_qty s = qty \<and>
     os_side s = side_u8 sd \<and> os_tif s = tif \<and> os_user_id s = uid \<and> is_reduce_only s = ro \<and> is_active s \<and>
     os_order_id_hi s = hi \<and> os_order_id_lo s = lo"

lemma new_slot_facts:
  "fresh_order (new_slot s price qty sd tif uid ro ts hi lo tick n) price qty sd tif uid ro hi lo"
  "os_next (new_slot s price qty sd tif uid ro ts hi lo tick n) = NONE"
  "os_prev (new_slot s price qty sd tif uid ro ts hi lo tick n) = NONE"
  "os_tick_index (new_slot s price qty sd tif uid ro ts hi lo tick n) = tick"
  "on_side sd (new_slot s price qty sd tif uid ro ts hi lo tick n)"
  "sd' \<noteq> sd \<Longrightarrow> \<not> on_side sd' (new_slot s price qty sd tif uid ro ts hi lo tick n)"
  by (cases sd; cases sd'; auto simp: new_slot_def fresh_order_def is_reduce_only_def flag_bits is_active_bit bit_simps on_side_def is_buy_def)+

lemma fresh_strip: "strip s = strip s' \<Longrightarrow> fresh_order s p q sd tif uid ro hi lo = fresh_order s' p q sd tif uid ro hi lo"
  using strip_eqD [of s s'] by (simp add: fresh_order_def is_reduce_only_def)

definition same_users :: "orderbook \<Rightarrow> orderbook \<Rightarrow> bool" where
  "same_users b b' \<longleftrightarrow> position_of (ob_users b') = position_of (ob_users b)"

text \<open>What no operation on orders touches.\<close>

definition book_sig :: "orderbook \<Rightarrow> orderbook \<Rightarrow> bool" where
  "book_sig b b' \<longleftrightarrow> ob_event_buf b' = ob_event_buf b \<and> ob_config b' = ob_config b \<and> ob_compression b' = ob_compression b \<and>
     ob_state b' = ob_state b \<and> length (slots (ob_orders b')) = length (slots (ob_orders b))"

lemma raise_best_ok:
  assumes best: "best_ok b Q sd" and comp: "ob_compression b1 = ob_compression b"
    and rest: "resting b1 Q' sd = insert h (resting b Q sd)" "h \<notin> resting b Q sd"
    and px: "\<And>x. x \<in> resting b Q sd \<Longrightarrow> os_price (ord b1 x) = os_price (ord b x)"
    and h: "os_price (ord b1 h) = price" "t = slot_index (ob_compression b) price"
    and tick: "best_tick b1 sd = best_tick b sd" "best_px b1 sd = best_px b sd"
    and bound: "\<And>x. x \<in> resting b Q sd \<Longrightarrow> slot_index (ob_compression b) (os_price (ord b x)) \<noteq> NONE"
  shows "best_ok (raise_best b1 sd price t) Q' sd"
proof -
  let ?b = "raise_best b1 sd price t"
  have o: "ob_orders ?b = ob_orders b1" "ob_compression ?b = ob_compression b1" by (auto simp: raise_best_def split: side.split)
  then have r: "resting ?b Q' sd = insert h (resting b Q sd)" using rest(1) by (simp add: resting_def)
  have bt: "best_tick ?b sd = (if best_tick b sd = NONE \<or> key sd (best_px b sd) < key sd price then t else best_tick b sd)"
    "best_px ?b sd = (if best_tick b sd = NONE \<or> key sd (best_px b sd) < key sd price then price else best_px b sd)"
    using tick by (cases sd; auto simp: raise_best_def best_tick_def best_px_def key_def)+
  show ?thesis
  proof (cases "resting b Q sd = {}")
    case True
    then have "best_tick b sd = NONE" using best by (simp add: best_ok_def)
    then show ?thesis using True bt r o h comp by (simp add: best_ok_def better_key)
  next
    case False
    then have bo: "best_tick b sd = slot_index (ob_compression b) (best_px b sd)"
      "\<exists>x\<in>resting b Q sd. os_price (ord b x) = best_px b sd" "\<forall>x\<in>resting b Q sd. better sd (best_px b sd) (os_price (ord b x))"
      using best by (auto simp: best_ok_def)
    then have n: "best_tick b sd \<noteq> NONE" using bound by metis
    show ?thesis
    proof (cases "key sd (best_px b sd) < key sd price")
      case True
      then have "\<forall>x\<in>insert h (resting b Q sd). better sd price (os_price (ord b1 x))"
        using bo(3) px h(1) by (auto simp: better_key)
      with True bt n r o h comp show ?thesis by (auto simp: best_ok_def)
    next
      case False
      then have "\<forall>x\<in>insert h (resting b Q sd). better sd (best_px b sd) (os_price (ord b1 x))"
        using bo(3) px h(1) by (auto simp: better_key)
      moreover have "\<exists>x\<in>insert h (resting b Q sd). os_price (ord b1 x) = best_px b sd" using bo(2) px by auto
      ultimately show ?thesis using False bt n r o bo(1) comp by (simp add: best_ok_def)
    qed
  qed
qed

lemma resting_bound:
  assumes "book_rel b Q F D" and "x \<in> resting b Q sd"
  shows "slot_index (ob_compression b) (os_price (ord b x)) \<noteq> NONE"
proof -
  obtain t where t: "x \<in> set (Q t)" using assms(2) by (auto simp: resting_def queued_def)
  then show ?thesis using book_relD(11) [OF assms(1) t] queue_tick(3) [OF assms(1) t] by (simp add: slot_ok_def)
qed

lemma raise_best_sel [simp]:
  "ob_orders (raise_best b sd p t) = ob_orders b" "ob_compression (raise_best b sd p t) = ob_compression b"
  "ob_users (raise_best b sd p t) = ob_users b" "ob_event_buf (raise_best b sd p t) = ob_event_buf b"
  "ob_config (raise_best b sd p t) = ob_config b" "ob_state (raise_best b sd p t) = ob_state b"
  "book_rel (raise_best b sd p t) Q F D = book_rel b Q F D"
  by (auto simp: raise_best_def split: side.split)

lemma resting_raise [simp]: "resting (raise_best b sd p t) Q s = resting b Q s"
  by (simp add: resting_def)

lemma side_upd [simp]:
  "best_tick (b\<lparr>ob_users := u\<rparr>) sd = best_tick b sd" "best_px (b\<lparr>ob_users := u\<rparr>) sd = best_px b sd"
  "best_tick (b\<lparr>ob_event_buf := e\<rparr>) sd = best_tick b sd" "best_px (b\<lparr>ob_event_buf := e\<rparr>) sd = best_px b sd"
  "best_tick (b\<lparr>ob_orders := s\<rparr>) sd = best_tick b sd" "best_px (b\<lparr>ob_orders := s\<rparr>) sd = best_px b sd"
  by (cases sd; simp add: best_tick_def best_px_def)+

lemma resting_upd [simp]:
  "resting (b\<lparr>ob_users := u\<rparr>) Q sd = resting b Q sd" "resting (b\<lparr>ob_event_buf := e\<rparr>) Q sd = resting b Q sd"
  by (simp_all add: resting_def)

lemma best_ok_upd [simp]:
  "best_ok (b\<lparr>ob_users := u\<rparr>) Q sd = best_ok b Q sd" "best_ok (b\<lparr>ob_event_buf := e\<rparr>) Q sd = best_ok b Q sd"
  by (simp_all add: best_ok_def)

lemma raise_best_other:
  "sd' \<noteq> sd \<Longrightarrow> best_tick (raise_best b sd p t) sd' = best_tick b sd'" "sd' \<noteq> sd \<Longrightarrow> best_px (raise_best b sd p t) sd' = best_px b sd'"
  by (cases sd; cases sd'; simp add: raise_best_def best_tick_def best_px_def)+

text \<open>The shape of a run of \<open>insert_resting\<close>, up to the user registry.\<close>

lemma insert_run:
  assumes rel: "book_rel b Q F {}" and room: "F \<noteq> [] \<or> bump_next (ob_orders b) < length (slots (ob_orders b))"
    and p: "price_range price" "cp_tick_size (ob_compression b) dvd price" and q: "0 < qty"
    and sum: "qty_sum (slots (ob_orders b)) (Q (slot_index (ob_compression b) price)) + qty \<le> i64_max"
  defines "t \<equiv> slot_index (ob_compression b) price"
  shows "\<exists>h F' b1. insert_resting b price qty sd tif uid ro ts hi lo =
        do { users \<leftarrow> add_order (ob_users b) uid; Some (h, (raise_best b1 sd price t)\<lparr>ob_users := users\<rparr>) } \<and>
      book_rel b1 (Q(t := Q t @ [h])) F' {} \<and> h \<notin> queued Q \<and> card (queued Q) < u32_max \<and>
      fresh_order (ord b1 h) price qty sd tif uid ro hi lo \<and>
      (\<forall>x\<in>queued Q. strip (ord b1 x) = strip (ord b x)) \<and> book_sig b b1 \<and> ob_users b1 = ob_users b \<and>
      (\<forall>s. best_tick b1 s = best_tick b s \<and> best_px b1 s = best_px b s)"
proof -
  note ok = book_relD(2) [OF rel]
  obtain h o1 F' where a: "alloc (ob_orders b) = Some (h, o1)" "slots o1 = slots (ob_orders b)" "h \<notin> queued Q"
    and rel1: "book_rel (b\<lparr>ob_orders := o1\<rparr>) Q F' (insert h {})" using alloc_ok [OF rel room] by blast
  define sq where "sq = u64_add (ob_sequence b) 1"
  define v where "v = new_slot (slots o1 ! h) price qty sd tif uid ro ts hi lo t sq"
  let ?o2 = "o1\<lparr>slots := (slots o1)[h := v]\<rparr>"
  define b2 where "b2 = b\<lparr>ob_orders := ?o2\<rparr>"
  have rel2: "book_rel b2 Q F' {h}" using book_rel_write [OF rel1, of h v] by (simp add: b2_def)
  have hl: "h < length (slots o1)" using detached_facts(2) [OF rel1] by simp
  have vh: "ord b2 h = v" using hl by (simp add: b2_def)
  have fo: "fresh_order v price qty sd tif uid ro hi lo" unfolding v_def by (rule new_slot_facts)
  have s: "slot_ok (ob_compression b2) t (ord b2 h)"
    using fo p q new_slot_facts(4) unfolding vh v_def by (cases sd) (auto simp: slot_ok_def fresh_order_def t_def b2_def)
  have same: "slots (ob_orders b2) ! x = ord b x" if "x \<in> queued Q" for x using that a(2,3) by (cases "x = h") (auto simp: b2_def)
  have "qty_sum (slots (ob_orders b2)) (Q t) = qty_sum (slots (ob_orders b)) (Q t)"
    using same by (simp add: qty_sum_def in_queued cong: map_cong)
  then have sum2: "qty_sum (slots (ob_orders b2)) (Q t) + os_remaining_qty (ord b2 h) \<le> i64_max"
    using sum fo unfolding vh by (simp add: fresh_order_def t_def)
  have ln: "os_next (ord b2 h) = NONE" "os_prev (ord b2 h) = NONE" unfolding vh v_def by (rule new_slot_facts)+
  let ?l = "ob_active_levels b2 ! t"
  obtain x y where mark: "\<forall>b1. ob_bid_occ b1 = ob_bid_occ b2 \<longrightarrow> ob_ask_occ b1 = ob_ask_occ b2 \<longrightarrow>
      (if was_empty_side ?l (ord b2 h) then occ_mark b1 (os_side (ord b2 h)) t else Some b1) = Some (b1\<lparr>ob_bid_occ := x, ob_ask_occ := y\<rparr>)"
    and rel3: "book_rel (b2\<lparr>ob_orders := (ob_orders b2)\<lparr>slots := appended (slots (ob_orders b2)) (lastp NONE (Q t)) h\<rparr>,
      ob_active_levels := (ob_active_levels b2)[t := level_in ?l h (ord b2 h)], ob_bid_occ := x, ob_ask_occ := y\<rparr>) (Q(t := Q t @ [h])) F' ({h} - {h})"
    using attach_ok [OF rel2 insertI1 s ln sum2] by blast
  have t: "t < length (ob_active_levels b)"
    using slot_index_bound [OF ok, of price] total_slots_ok [OF ok] book_relD(4) [OF rel] by (simp add: t_def)
  define b3 where "b3 = b2\<lparr>ob_orders := (ob_orders b2)\<lparr>slots := appended (slots (ob_orders b2)) (lastp NONE (Q t)) h\<rparr>,
      ob_sequence := sq,
      ob_active_levels := (ob_active_levels b2)[t := level_in ?l h (ord b2 h)], ob_bid_occ := x, ob_ask_occ := y\<rparr>"
  have rel3': "book_rel b3 (Q(t := Q t @ [h])) F' {}" using rel3 unfolding book_rel_def b3_def by simp
  have side: "os_side v = side_u8 sd" "os_remaining_qty v = qty" using fo by (simp_all add: fresh_order_def)
  have link: "link_tail ?o2 ?l h = Some ((ob_orders b2)\<lparr>slots := appended (slots (ob_orders b2)) (lastp NONE (Q t)) h\<rparr>,
      if pl_order_count ?l = 0 then ?l\<lparr>pl_head := h, pl_tail := h\<rparr> else ?l\<lparr>pl_tail := h\<rparr>)"
    using link_tail_run [OF rel2 insertI1, of t] t by (simp add: b2_def)
  let ?l1 = "if pl_order_count ?l = 0 then ?l\<lparr>pl_head := h, pl_tail := h\<rparr> else ?l\<lparr>pl_tail := h\<rparr>"
  have cnt: "count_in ?l1 (side_u8 sd) qty = (was_empty_side ?l (ord b2 h), level_in ?l h (ord b2 h))"
    using side unfolding vh level_in_def Let_def by (cases sd) (auto simp: count_in_def was_empty_side_def is_buy_def Let_def)
  have "insert_resting b price qty sd tif uid ro ts hi lo =
     do { users \<leftarrow> add_order (ob_users b) uid; Some (h, (raise_best b3 sd price t)\<lparr>ob_users := users\<rparr>) }"
  proof -
    have pi: "price_to_index (ob_compression b) price = Some t" using price_to_index_slot [OF ok p(1)] by (simp add: t_def)
    have lv: "index_of (ob_active_levels b) t = Some ?l" using t by (simp add: index_of_Some b2_def)
    let ?b1 = "b\<lparr>ob_orders := (ob_orders b2)\<lparr>slots := appended (slots (ob_orders b2)) (lastp NONE (Q t)) h\<rparr>,
      ob_sequence := sq, ob_active_levels := (ob_active_levels b)[t := level_in ?l h (ord b2 h)]\<rparr>"
    have mk: "(if was_empty_side ?l (ord b2 h) then occ_mark ?b1 (side_u8 sd) t else Some ?b1) = Some b3"
    proof -
      have "(if was_empty_side ?l (ord b2 h) then occ_mark ?b1 (os_side (ord b2 h)) t else Some ?b1) = Some (?b1\<lparr>ob_bid_occ := x, ob_ask_occ := y\<rparr>)"
        by (rule mark [rule_format]) (simp_all add: b2_def)
      moreover have "?b1\<lparr>ob_bid_occ := x, ob_ask_occ := y\<rparr> = b3" by (simp add: b3_def b2_def)
      ultimately show ?thesis using side(1) vh by (simp only:)
    qed
    have gp: "slab_get o1 h = Some (slots o1 ! h)" "slab_put o1 h v = Some ?o2"
      using hl by (simp_all add: slab_get_def slab_put_def index_of_Some store_at_Some)
    show ?thesis
      by (simp only: insert_resting_def pi a(1) sq_def [symmetric] v_def [symmetric] gp lv link cnt Let_def Option.bind.simps split_conv mk) (simp add: b3_def b2_def)
  qed
  moreover have "fresh_order (ord b3 h) price qty sd tif uid ro hi lo"
    using fo fresh_strip [of "ord b3 h" "ord b2 h"] vh by (simp add: b3_def)
  moreover have "strip (ord b3 z) = strip (ord b z)" if "z \<in> queued Q" for z using same [OF that] by (simp add: b3_def)
  moreover have "book_sig b b3" using a(2) by (simp add: book_sig_def b3_def b2_def)
  moreover have "ob_users b3 = ob_users b" "\<forall>s. best_tick b3 s = best_tick b s \<and> best_px b3 s = best_px b s"
    by (auto simp: b3_def b2_def best_tick_def best_px_def split: side.split)
  moreover have "card (queued Q) < u32_max" by (rule queued_bound [OF rel1 insertI1])
  ultimately show ?thesis using rel3' a(3) by blast
qed

lemma wfD:
  assumes "wf b Q F"
  shows "book_rel b Q F {}" "positive b Q" "best_ok b Q sd" "users_rel b Q"
  using assms by (cases sd; simp add: wf_def)+

lemma queued_append: "queued (Q(t := Q t @ [h])) = insert h (queued Q)"
  by (auto simp: queued_def split: if_splits)

lemma insert_resting_ok:
  assumes wf: "wf b Q F" and room: "F \<noteq> [] \<or> bump_next (ob_orders b) < length (slots (ob_orders b))"
    and p: "price_range price" "cp_tick_size (ob_compression b) dvd price" and q: "0 < qty"
    and sum: "qty_sum (slots (ob_orders b)) (Q (slot_index (ob_compression b) price)) + qty \<le> i64_max"
    and user: "ur_contains (ob_users b) uid \<or> users_room (ob_users b)"
  shows "\<exists>h b' F'. insert_resting b price qty sd tif uid ro ts hi lo = Some (h, b') \<and>
      wf b' (Q(slot_index (ob_compression b) price := Q (slot_index (ob_compression b) price) @ [h])) F' \<and>
      h \<notin> queued Q \<and> fresh_order (ord b' h) price qty sd tif uid ro hi lo \<and>
      (\<forall>x\<in>queued Q. strip (ord b' x) = strip (ord b x)) \<and> book_sig b b' \<and> same_users b b' \<and>
      (\<forall>s. s \<noteq> sd \<longrightarrow> best_tick b' s = best_tick b s \<and> best_px b' s = best_px b s)"
proof -
  let ?t = "slot_index (ob_compression b) price"
  note W = wfD [OF wf]
  obtain h F' b1 where run: "insert_resting b price qty sd tif uid ro ts hi lo =
        do { users \<leftarrow> add_order (ob_users b) uid; Some (h, (raise_best b1 sd price ?t)\<lparr>ob_users := users\<rparr>) }"
    and rel: "book_rel b1 (Q(?t := Q ?t @ [h])) F' {}" and h: "h \<notin> queued Q" "card (queued Q) < u32_max"
    and fo: "fresh_order (ord b1 h) price qty sd tif uid ro hi lo"
    and st: "\<forall>x\<in>queued Q. strip (ord b1 x) = strip (ord b x)" and sg: "book_sig b b1" and us: "ob_users b1 = ob_users b"
    and bt: "\<forall>s. best_tick b1 s = best_tick b s \<and> best_px b1 s = best_px b s"
    using insert_run [where Q = Q, OF W(1) room p q sum] by blast
  let ?Q = "Q(?t := Q ?t @ [h])"
  have fin: "finite (queued Q)" by (rule finite_queued [OF W(1)])
  have "resting_of (ob_users b) uid \<le> card (queued Q)"
    using W(4) card_mono [OF fin, of "user_orders b Q uid"] by (auto simp: users_rel_alt user_orders_def)
  then obtain u where u: "add_order (ob_users b) uid = Some u" "users_ok u" "position_of u = position_of (ob_users b)"
    "resting_of u = (resting_of (ob_users b))(uid := resting_of (ob_users b) uid + 1)"
    using add_order_ok [OF _ user] W(4) h(2) by (auto simp: users_rel_def)
  let ?b = "(raise_best b1 sd price ?t)\<lparr>ob_users := u\<rparr>"
  have ord: "ord ?b x = ord b1 x" for x by simp
  have rs: "resting b1 ?Q s = (if s = sd then insert h (resting b Q s) else resting b Q s)" for s
  proof -
    have "on_side s (ord b1 h) \<longleftrightarrow> s = sd" using fo by (cases s; cases sd) (auto simp: fresh_order_def on_side_def is_buy_def)
    moreover have "on_side s (ord b1 x) = on_side s (ord b x)" if "x \<in> queued Q" for x using st that strip_sides(3) by blast
    ultimately show ?thesis unfolding resting_def queued_append by auto
  qed
  have px: "os_price (ord b1 x) = os_price (ord b x)" "os_remaining_qty (ord b1 x) = os_remaining_qty (ord b x)"
    "os_user_id (ord b1 x) = os_user_id (ord b x)" if "x \<in> queued Q" for x using st that strip_eqD by blast+
  have sub: "x \<in> resting b Q s \<Longrightarrow> x \<in> queued Q" for x s by (simp add: resting_def)
  have "best_ok (raise_best b1 sd price ?t) ?Q sd"
    by (rule raise_best_ok [OF W(3) [of sd], where h = h])
      (use rs h(1) sub px bt fo sg resting_bound [OF W(1)] in \<open>auto simp: book_sig_def fresh_order_def\<close>)
  moreover have "best_ok (raise_best b1 sd price ?t) ?Q s" if "s \<noteq> sd" for s
  proof -
    have "best_ok (raise_best b1 sd price ?t) ?Q s = best_ok b Q s"
    proof (rule best_ok_transfer)
      show "resting (raise_best b1 sd price ?t) ?Q s = resting b Q s" using rs that by simp
      show "ob_compression (raise_best b1 sd price ?t) = ob_compression b" using sg by (simp add: book_sig_def)
    qed (use px(1) sub bt raise_best_other [OF that] in auto)
    then show ?thesis using W(3) by simp
  qed
  ultimately have best: "best_ok ?b ?Q s" for s by (cases "s = sd") simp_all
  have "users_rel ?b ?Q"
  proof -
    have "card (user_orders ?b ?Q v) = card (user_orders b Q v) + (if uid = v then 1 else 0)" for v
      using user_orders_add [of Q ?b b "?Q" h v] px queued_append h(1) fin fo by (auto simp: fresh_order_def)
    then show ?thesis using W(4) u by (auto simp: users_rel_alt)
  qed
  moreover have "positive ?b ?Q" using W(2) px(2) fo q unfolding positive_def queued_append by (auto simp: fresh_order_def)
  ultimately have "wf ?b ?Q F'" using rel best by (simp add: wf_def)
  moreover have "\<forall>s. s \<noteq> sd \<longrightarrow> best_tick ?b s = best_tick b s \<and> best_px ?b s = best_px b s"
    using bt raise_best_other by simp
  ultimately show ?thesis using run u(1,3) h(1) fo st sg us
    by (intro exI [of _ h] exI [of _ ?b] exI [of _ F']) (auto simp: book_sig_def same_users_def)
qed

section \<open>Cancelling\<close>

lemma cancel_run:
  assumes "slab_get (ob_orders b) h = Some s" and "is_active s" and "unlink_order b h = Some b1"
    and "(if os_side s = side_u8 Buy
             then (if os_tick_index s = ob_best_bid_tick b1 then refresh_best_bid b1 else Some b1)
             else (if os_tick_index s = ob_best_ask_tick b1 then refresh_best_ask b1 else Some b1)) = Some b2"
    and "release (ob_orders b2) h = Some o2" and "remove_order (ob_users b2) (os_user_id s) = Some u"
  shows "cancel_order b h = Some (True, b2\<lparr>ob_orders := o2, ob_users := u\<rparr>)"
proof -
  obtain z o1 where "slab_get (ob_orders b2) h = Some z" "slab_put (ob_orders b2) h (set_active z False) = Some o1" "free o1 h = Some o2"
    using assms(5) by (auto simp: release_def bind_eq_Some_conv)
  then show ?thesis using assms unfolding cancel_order_def by (simp del: side_u8.simps)
qed

text \<open>After the unlink the tracked best of the order's side is either refreshed or still right.\<close>

lemma refresh_if_touched:
  assumes rel: "book_rel b1 Q' F D" and c: "ob_compression b1 = ob_compression b"
    and best: "best_ok b Q sd" "best_ok b Q sd'" and ne: "sd' \<noteq> sd"
    and bt: "\<And>s. best_tick b1 s = best_tick b s \<and> best_px b1 s = best_px b s"
    and rs: "resting b1 Q' sd = resting b Q sd - {h}" "resting b1 Q' sd' = resting b Q sd'"
    and px: "\<And>x. x \<in> queued Q \<Longrightarrow> os_price (ord b1 x) = os_price (ord b x)"
    and h: "h \<in> resting b Q sd" "os_tick_index s = slot_index (ob_compression b) (os_price (ord b h))"
  shows "\<exists>t p. (if os_tick_index s = best_tick b1 sd then refresh b1 sd else Some b1) = Some (set_best b1 sd t p) \<and>
    best_ok (set_best b1 sd t p) Q' sd \<and> best_ok (set_best b1 sd t p) Q' sd'"
proof -
  have other: "best_ok b1 Q' sd'"
    using best_ok_transfer [OF rs(2) _ c] best(2) bt px by (auto simp: resting_def)
  show ?thesis
  proof (cases "os_tick_index s = best_tick b1 sd")
    case True
    then show ?thesis using refresh_ok [OF rel, of sd] other ne by fastforce
  next
    case False
    have ne: "resting b Q sd \<noteq> {}" using h(1) by blast
    then have bo: "best_tick b sd = slot_index (ob_compression b) (best_px b sd)"
      "\<exists>x\<in>resting b Q sd. os_price (ord b x) = best_px b sd" "\<forall>x\<in>resting b Q sd. better sd (best_px b sd) (os_price (ord b x))"
      using best(1) by (auto simp: best_ok_def)
    have "os_price (ord b h) \<noteq> best_px b sd" using False h(2) bo(1) bt by auto
    then have "\<exists>x\<in>resting b1 Q' sd. os_price (ord b1 x) = best_px b1 sd"
      using bo(2) rs(1) px bt unfolding resting_def by auto
    moreover have "\<forall>x\<in>resting b1 Q' sd. better sd (best_px b1 sd) (os_price (ord b1 x))"
      using bo(3) rs(1) px bt unfolding resting_def by auto
    ultimately have "best_ok b1 Q' sd" using bo(1) bt c by (auto simp: best_ok_def)
    moreover have "set_best b1 sd (best_tick b1 sd) (best_px b1 sd) = b1"
      by (cases sd) (simp_all add: set_best_def best_tick_def best_px_def)
    ultimately show ?thesis using False other by metis
  qed
qed

lemma user_orders_remove:
  assumes "\<And>x. x \<in> queued Q \<Longrightarrow> x \<noteq> h \<Longrightarrow> os_user_id (ord b' x) = os_user_id (ord b x)"
    and "queued Q' = queued Q - {h}" and "h \<in> queued Q" and "finite (queued Q)"
  shows "card (user_orders b' Q' uid) = card (user_orders b Q uid) - (if os_user_id (ord b h) = uid then 1 else 0)"
proof -
  have "x \<in> user_orders b' Q' uid \<longleftrightarrow> x \<in> user_orders b Q uid - {h}" for x
    using assms(1) [of x] by (auto simp: user_orders_def assms(2))
  then have "user_orders b' Q' uid = user_orders b Q uid - {h}" by blast
  then show ?thesis using assms(3) by (simp add: card_Diff_singleton_if user_orders_def)
qed

definition side_of :: "order_slot \<Rightarrow> side" where
  "side_of s = (if is_buy s then Buy else Sell)"

lemma on_side_of: "on_side sd s \<longleftrightarrow> sd = side_of s"
  by (cases sd) (simp_all add: on_side_def side_of_def)

text \<open>Dropping a detached order: its slot is freed and its owner's count reduced.\<close>

lemma drop_detached:
  assumes rel: "book_rel b2 Q' F {h}" and us: "users_rel b0 Q" and h: "h \<in> queued Q" "queued Q' = queued Q - {h}"
    and fin: "finite (queued Q)" and users: "ob_users b2 = ob_users b0"
    and st: "\<And>x. x \<in> queued Q \<Longrightarrow> os_user_id (ord b2 x) = os_user_id (ord b0 x)"
  shows "\<exists>o2 u. release (ob_orders b2) h = Some o2 \<and> remove_order (ob_users b2) (os_user_id (ord b0 h)) = Some u \<and>
    book_rel (b2\<lparr>ob_orders := o2, ob_users := u\<rparr>) Q' (h # F) {} \<and> users_rel (b2\<lparr>ob_orders := o2, ob_users := u\<rparr>) Q' \<and>
    position_of u = position_of (ob_users b0) \<and> ur_map u = ur_map (ob_users b0) \<and>
    (\<forall>x. x \<noteq> h \<longrightarrow> slots o2 ! x = ord b2 x) \<and> length (slots o2) = length (slots (ob_orders b2))"
proof -
  obtain o2 where o2: "release (ob_orders b2) h = Some o2" "book_rel (b2\<lparr>ob_orders := o2\<rparr>) Q' (h # F) ({h} - {h})"
    "\<forall>x. x \<noteq> h \<longrightarrow> slots o2 ! x = ord b2 x" using release_ok [OF rel insertI1] by blast
  have len: "length (slots o2) = length (slots (ob_orders b2))"
    using o2(1) by (auto simp: release_def bind_eq_Some_conv slab_put_def free_def)
  have uk: "users_ok (ob_users b0)" using us by (simp add: users_rel_def)
  obtain u where u: "remove_order (ob_users b0) (os_user_id (ord b0 h)) = Some u" "users_ok u" "position_of u = position_of (ob_users b0)"
    "resting_of u = (resting_of (ob_users b0))(os_user_id (ord b0 h) := resting_of (ob_users b0) (os_user_id (ord b0 h)) - 1)"
    "ur_map u = ur_map (ob_users b0)" using remove_order_ok [OF uk] by blast
  let ?b = "b2\<lparr>ob_orders := o2, ob_users := u\<rparr>"
  have "card (user_orders ?b Q' v) = card (user_orders b0 Q v) - (if os_user_id (ord b0 h) = v then 1 else 0)" for v
    using user_orders_remove [of Q h ?b b0 Q' v] st h fin o2(3) by auto
  then have "users_rel ?b Q'" using us u by (auto simp: users_rel_alt)
  with o2 u users len show ?thesis by auto
qed

lemma unlinked_facts:
  assumes rel: "book_rel b Q F D" and h: "h \<in> set (Q t)"
    and b1: "b1 = b\<lparr>ob_orders := (ob_orders b)\<lparr>slots := unlinked (slots (ob_orders b)) h\<rparr>, ob_active_levels := ls, ob_bid_occ := x, ob_ask_occ := y\<rparr>"
  shows "\<And>z. strip (ord b1 z) = strip (ord b z)" "book_sig b b1" "ob_users b1 = ob_users b"
    "\<And>s. best_tick b1 s = best_tick b s \<and> best_px b1 s = best_px b s"
    "\<And>s. resting b1 (Q(t := remove1 h (Q t))) s = resting b Q s - (if s = side_of (ord b h) then {h} else {})"
proof -
  show st: "strip (ord b1 z) = strip (ord b z)" for z by (simp add: b1)
  show "book_sig b b1" "ob_users b1 = ob_users b" by (simp_all add: b1 book_sig_def)
  show "best_tick b1 s = best_tick b s \<and> best_px b1 s = best_px b s" for s
    by (cases s) (simp_all add: b1 best_tick_def best_px_def)
  have "on_side s (ord b1 z) = on_side s (ord b z)" for s z using strip_sides(3) [OF st] .
  then show "resting b1 (Q(t := remove1 h (Q t))) s = resting b Q s - (if s = side_of (ord b h) then {h} else {})" for s
    unfolding resting_def queued_remove [of b Q F D h t, OF rel h] by (auto simp: on_side_of)
qed

lemma cancel_order_ok:
  assumes wf: "wf b Q F" and h: "h \<in> set (Q t)"
  shows "\<exists>b'. cancel_order b h = Some (True, b') \<and> wf b' (Q(t := remove1 h (Q t))) (h # F) \<and>
    (\<forall>x\<in>queued Q - {h}. strip (ord b' x) = strip (ord b x)) \<and> book_sig b b' \<and> same_users b b' \<and> ur_map (ob_users b') = ur_map (ob_users b)"
proof -
  let ?s = "ord b h" and ?sd = "side_of (ord b h)" and ?Q = "Q(t := remove1 h (Q t))"
  let ?sd' = "if ?sd = Buy then Sell else Buy"
  note W = wfD [OF wf] and q = queue_tick [OF W(1) h]
  obtain ls x y where run: "unlink_order b h = Some (b\<lparr>ob_orders := (ob_orders b)\<lparr>slots := unlinked (slots (ob_orders b)) h\<rparr>,
      ob_active_levels := ls, ob_bid_occ := x, ob_ask_occ := y\<rparr>)"
    and rel1: "book_rel (b\<lparr>ob_orders := (ob_orders b)\<lparr>slots := unlinked (slots (ob_orders b)) h\<rparr>,
      ob_active_levels := ls, ob_bid_occ := x, ob_ask_occ := y\<rparr>) ?Q F (insert h {})" using unlink_ok [OF W(1) h] by blast
  define b1 where "b1 = b\<lparr>ob_orders := (ob_orders b)\<lparr>slots := unlinked (slots (ob_orders b)) h\<rparr>,
      ob_active_levels := ls, ob_bid_occ := x, ob_ask_occ := y\<rparr>"
  note U = unlinked_facts [of b Q F "{}", OF W(1) h b1_def] and rel1 = rel1 [folded b1_def] and run = run [folded b1_def]
  have hq: "h \<in> queued Q" using h by (rule in_queued)
  have s: "slot_ok (ob_compression b) t ?s" by (rule book_relD(11) [OF W(1) h])
  have hr: "h \<in> resting b Q ?sd" using hq by (simp add: resting_def on_side_of)
  have ti: "os_tick_index ?s = slot_index (ob_compression b) (os_price ?s)" using s by (simp add: slot_ok_def)
  have px: "os_price (ord b1 z) = os_price (ord b z)" "os_user_id (ord b1 z) = os_user_id (ord b z)"
    "os_remaining_qty (ord b1 z) = os_remaining_qty (ord b z)" for z using strip_eqD [OF U(1)] by blast+
  have c: "ob_compression b1 = ob_compression b" using U(2) by (simp add: book_sig_def)
  have ne: "?sd' \<noteq> ?sd" by simp
  obtain tk p where re: "(if os_tick_index ?s = best_tick b1 ?sd then refresh b1 ?sd else Some b1) = Some (set_best b1 ?sd tk p)"
    and best: "best_ok (set_best b1 ?sd tk p) ?Q ?sd" "best_ok (set_best b1 ?sd tk p) ?Q ?sd'"
    using refresh_if_touched [OF rel1 c W(3) W(3) ne U(4) _ _ px(1) hr ti] U(5) by (auto simp: ne)
  let ?b2 = "set_best b1 ?sd tk p"
  have rel2: "book_rel ?b2 ?Q F {h}" using rel1 by simp
  have qd: "queued ?Q = queued Q - {h}" by (rule queued_remove [of b Q F "{}", OF W(1) h])
  obtain o2 u where o2: "release (ob_orders ?b2) h = Some o2" "remove_order (ob_users ?b2) (os_user_id ?s) = Some u"
    and fin: "book_rel (?b2\<lparr>ob_orders := o2, ob_users := u\<rparr>) ?Q (h # F) {}" "users_rel (?b2\<lparr>ob_orders := o2, ob_users := u\<rparr>) ?Q"
    "position_of u = position_of (ob_users b)" "ur_map u = ur_map (ob_users b)"
    "\<forall>x. x \<noteq> h \<longrightarrow> slots o2 ! x = ord ?b2 x" "length (slots o2) = length (slots (ob_orders ?b2))"
    using drop_detached [OF rel2 W(4) hq qd finite_queued [OF W(1)]] U(3) px(2) by auto
  let ?b = "?b2\<lparr>ob_orders := o2, ob_users := u\<rparr>"
  have "(if os_side ?s = side_u8 Buy
         then (if os_tick_index ?s = ob_best_bid_tick b1 then refresh_best_bid b1 else Some b1)
         else (if os_tick_index ?s = ob_best_ask_tick b1 then refresh_best_ask b1 else Some b1)) = Some ?b2"
    using re by (auto simp: side_of_def is_buy_def refresh_def best_tick_def)
  from cancel_run [OF _ _ run this o2] q(5) s have c_run: "cancel_order b h = Some (True, ?b)"
    by (simp add: slab_get_def index_of_Some slot_ok_def)
  have ordb: "ord ?b z = ord b1 z" if "z \<in> queued ?Q" for z using that fin(5) qd by auto
  have rs: "resting ?b ?Q s = resting ?b2 ?Q s" for s using ordb unfolding resting_def by auto
  have "best_ok ?b ?Q s" for s
  proof -
    have "best_ok ?b ?Q s = best_ok ?b2 ?Q s"
      by (rule best_ok_transfer) (use rs ordb in \<open>auto simp: resting_def\<close>)
    then show ?thesis using best by (cases "s = ?sd") (auto split: if_splits, (metis side.exhaust)+)
  qed
  moreover have "positive ?b ?Q" using W(2) ordb px(3) qd unfolding positive_def by auto
  ultimately have "wf ?b ?Q (h # F)" using fin(1,2) by (simp add: wf_def)
  moreover have "\<forall>x\<in>queued Q - {h}. strip (ord ?b x) = strip (ord b x)" using ordb qd U(1) by auto
  moreover have "book_sig b ?b" using U(2) fin(6) by (cases "side_of (ord b h)") (auto simp: book_sig_def set_best_def)
  ultimately show ?thesis using c_run fin(3,4) by (auto simp: same_users_def)
qed

lemma cancel_order_inactive:
  assumes wf: "wf b Q F" and h: "h < length (slots (ob_orders b))" "h \<notin> queued Q"
  shows "cancel_order b h = Some (False, b)"
  using book_relD(18) [OF wfD(1) [OF wf] h] h(1) by (simp add: cancel_order_def slab_get_def index_of_Some)

section \<open>Reducing a resting quantity\<close>

text \<open>Shared by \<open>modify_order_qty_down\<close> and by a fill: an order keeps its place and loses \<open>d\<close>.\<close>

definition reduce_order :: "orderbook \<Rightarrow> u32 \<Rightarrow> nat \<Rightarrow> i64 \<Rightarrow> orderbook" where
  "reduce_order b h t d =
     b\<lparr>ob_orders := (ob_orders b)\<lparr>slots := (slots (ob_orders b))[h := (ord b h)\<lparr>os_remaining_qty := os_remaining_qty (ord b h) - d\<rparr>]\<rparr>,
       ob_active_levels := (ob_active_levels b)[t := (ob_active_levels b ! t)\<lparr>pl_total_qty := sat_sub (pl_total_qty (ob_active_levels b ! t)) d\<rparr>]\<rparr>"

lemma qty_sum_update:
  assumes "distinct hs" and "h \<in> set hs" and "h < length xs"
  shows "qty_sum (xs[h := (xs ! h)\<lparr>os_remaining_qty := q\<rparr>]) hs = qty_sum xs hs - os_remaining_qty (xs ! h) + q"
  using assms
proof (induction hs)
  case (Cons a hs)
  have same: "qty_sum (xs[h := v]) hs = qty_sum xs hs" if "h \<notin> set hs" for v
    unfolding qty_sum_def using that by (intro arg_cong [where f = sum_list] map_cong) (auto, metis nth_list_update_neq)
  show ?case
  proof (cases "a = h")
    case True
    then show ?thesis using Cons.prems same by simp
  next
    case False
    then show ?thesis using Cons by auto
  qed
qed simp

lemma reduce_order_facts:
  assumes "book_rel b Q F D" and "h \<in> set (Q t)"
  shows "ord (reduce_order b h t d) x = (if x = h then (ord b h)\<lparr>os_remaining_qty := os_remaining_qty (ord b h) - d\<rparr> else ord b x)"
    "book_sig b (reduce_order b h t d)" "ob_users (reduce_order b h t d) = ob_users b"
    "best_tick (reduce_order b h t d) s = best_tick b s" "best_px (reduce_order b h t d) s = best_px b s"
  using queue_tick(5) [OF assms] by (auto simp: reduce_order_def book_sig_def best_tick_def best_px_def split: side.split)

lemma reduce_order_rel:
  assumes rel: "book_rel b Q F D" and h: "h \<in> set (Q t)" and d: "0 \<le> d" "d \<le> os_remaining_qty (ord b h)"
  shows "book_rel (reduce_order b h t d) Q F D"
proof -
  let ?xs = "slots (ob_orders b)" and ?l = "ob_active_levels b ! t" and ?b = "reduce_order b h t d"
  let ?ys = "slots (ob_orders ?b)"
  note R = book_relD [OF rel] and q = queue_tick [OF rel h] and f = reduce_order_facts(1) [OF rel h, of d]
  have ys: "?ys = ?xs[h := (?xs ! h)\<lparr>os_remaining_qty := os_remaining_qty (?xs ! h) - d\<rparr>]"
    and ls: "ob_active_levels ?b = (ob_active_levels b)[t := ?l\<lparr>pl_total_qty := sat_sub (pl_total_qty ?l) d\<rparr>]"
    by (simp_all add: reduce_order_def)
  have buy: "is_buy (?ys ! x) = is_buy (?xs ! x)" "is_active (?ys ! x) = is_active (?xs ! x)" for x
    using f by (auto simp: is_buy_def)
  have slot: "slot_ok c u (?ys ! x)" if "slot_ok c u (?xs ! x)" for c u x
    using that d f by (auto simp: slot_ok_def)
  have lo: "level_ok ?xs ?l (Q t)" by (rule level_at [OF rel h])
  have sum: "qty_sum ?ys (Q t) = qty_sum ?xs (Q t) - d" unfolding ys using qty_sum_update [OF R(10) h q(5)] by simp
  have "0 \<le> qty_sum ?ys (Q t)"
    unfolding qty_sum_def using slot R(11) [where t = t] by (intro sum_list_nonneg) (auto simp: slot_ok_def)
  then have sub: "sat_sub (pl_total_qty ?l) d = qty_sum ?ys (Q t)"
    using lo sum d by (subst sat_sub_id) (auto simp: level_ok_def in_i64_def i64_bounds)
  have seg: "seg ?ys NONE (Q t) NONE = seg ?xs NONE (Q t) NONE" by (rule seg_cong) (simp add: f)
  have levels: "level_ok ?ys (ob_active_levels ?b ! u) (Q u)" if "u < length (ob_active_levels b)" for u
  proof (cases "u = t")
    case True
    then show ?thesis using lo sub sum d seg q(1) buy(1) unfolding ls by (auto simp: level_ok_def)
  next
    case False
    have "?ys ! x = ?xs ! x" if "x \<in> set (Q u)" for x using that f queues_disjoint [OF rel h, of u] False by auto
    then show ?thesis using level_ok_cong [of "Q u" ?ys ?xs] R(9) [OF that] False unfolding ls by simp
  qed
  have "free_chain ?ys (free_head (ob_orders b)) F = free_chain ?xs (free_head (ob_orders b)) F"
    by (rule free_chain_cong) (simp_all add: f, simp add: ys)
  then have "slab_rel (ob_orders ?b) F" using R(1) by (simp add: slab_rel_def reduce_order_def)
  moreover have "length (ob_active_levels ?b) = length (ob_active_levels b)" by (simp add: ls)
  moreover have "ob_compression ?b = ob_compression b" "ob_price_asc ?b = ob_price_asc b" "ob_bid_occ ?b = ob_bid_occ b"
    "ob_ask_occ ?b = ob_ask_occ b" "bump_next (ob_orders ?b) = bump_next (ob_orders b)" "length ?ys = length ?xs"
    by (simp_all add: reduce_order_def)
  ultimately show ?thesis
    using levels R(2-8,10-19) slot unfolding book_rel_def by (intro conjI allI impI ballI) (simp_all add: buy)
qed

lemma reduce_order_wf:
  assumes wf: "wf b Q F" and h: "h \<in> set (Q t)" and d: "0 \<le> d" "d < os_remaining_qty (ord b h)"
  shows "wf (reduce_order b h t d) Q F"
proof -
  let ?b = "reduce_order b h t d"
  note W = wfD [OF wf] and f = reduce_order_facts [OF wfD(1) [OF wf] h, of d]
  have fx: "os_price (ord ?b x) = os_price (ord b x)" "on_side s (ord ?b x) = on_side s (ord b x)"
    "os_user_id (ord ?b x) = os_user_id (ord b x)" for x s by (auto simp: f(1) on_side_def is_buy_def split: side.split)
  have "best_ok ?b Q s = best_ok b Q s" for s
    by (rule best_ok_transfer) (use f fx in \<open>auto simp: resting_def book_sig_def\<close>)
  moreover have "book_rel ?b Q F {}" by (rule reduce_order_rel [OF W(1) h]) (use d in auto)
  moreover have "positive ?b Q" using W(2) d by (auto simp: positive_def f(1))
  moreover have "users_rel ?b Q" using W(4) fx(3) f(3) by (simp add: users_rel_def)
  ultimately show ?thesis using W(3) by (simp add: wf_def)
qed

section \<open>A new book and the checked operations\<close>

lemma orderbook_new_ok:
  assumes "regular_mid mid (bc_tick_size config)" and "capacity \<le> NONE"
  shows "\<exists>b. orderbook_new config capacity mid = Some b \<and> wf b (\<lambda>t. []) [] \<and> ob_config b = config \<and>
    cp_tick_size (ob_compression b) = bc_tick_size config \<and> cp_mid_price (ob_compression b) = mid \<and>
    ob_users b = user_registry_new \<and> length (slots (ob_orders b)) = capacity \<and> bump_next (ob_orders b) = 0"
proof -
  obtain c where c: "compression_new mid (bc_tick_size config) = Some c" "comp_ok c" "cp_mid_price c = mid" "cp_tick_size c = bc_tick_size config"
    using compression_new_regular [OF assms(1)] by blast
  have lv: "level_ok xs price_level_default []" for xs
    by (simp add: level_ok_def price_level_default_def qty_sum_def i64_max_def)
  show ?thesis
    using c assms(2) occupancy_new_ok users_new_ok lv slab_new_rel [OF assms(2)]
    by (auto simp: orderbook_new_def Let_def wf_def book_rel_def positive_def best_ok_def users_rel_def resting_def queued_def
        best_tick_def best_px_def slab_new_def)
qed

lemma active_iff_queued:
  assumes "wf b Q F" and "h < length (slots (ob_orders b))"
  shows "is_active (ord b h) \<longleftrightarrow> h \<in> queued Q"
  using book_relD(11,18) [OF wfD(1) [OF assms(1)]] assms(2) by (auto simp: slot_ok_def elim!: queued_cases)

definition holds_order :: "orderbook \<Rightarrow> queues \<Rightarrow> u32 \<Rightarrow> u32 \<Rightarrow> u64 \<Rightarrow> u64 \<Rightarrow> bool" where
  "holds_order b Q h uid hi lo \<longleftrightarrow> h \<in> queued Q \<and> os_user_id (ord b h) = uid \<and> os_order_id_hi (ord b h) = hi \<and> os_order_id_lo (ord b h) = lo"

lemma order_matches_ok:
  assumes "wf b Q F"
  shows "order_matches b h uid hi lo = Some (holds_order b Q h uid hi lo)"
proof -
  have "length (slots (ob_orders b)) \<le> NONE" using book_relD(1) [OF wfD(1) [OF assms]] by (simp add: slab_rel_def)
  then have cap: "slab_capacity (ob_orders b) = length (slots (ob_orders b))" by (simp add: slab_capacity_def NONE_def)
  show ?thesis
  proof (cases "h < length (slots (ob_orders b))")
    case True
    then show ?thesis using active_iff_queued [OF assms True]
      by (auto simp: order_matches_def cap slab_get_def index_of_Some holds_order_def)
  next
    case False
    then have "h \<notin> queued Q" using queue_tick(5) [OF wfD(1) [OF assms]] by (auto elim!: queued_cases)
    with False show ?thesis by (simp add: order_matches_def cap holds_order_def)
  qed
qed

lemma cancel_order_checked_ok:
  assumes wf: "wf b Q F"
  shows "(\<not> holds_order b Q h uid hi lo \<longrightarrow> cancel_order_checked b h uid hi lo = Some (False, b)) \<and>
    (\<forall>t. holds_order b Q h uid hi lo \<longrightarrow> h \<in> set (Q t) \<longrightarrow>
      (\<exists>b'. cancel_order_checked b h uid hi lo = Some (True, b') \<and> wf b' (Q(t := remove1 h (Q t))) (h # F) \<and>
        (\<forall>x\<in>queued Q - {h}. strip (ord b' x) = strip (ord b x)) \<and> book_sig b b' \<and> same_users b b'))"
  using order_matches_ok [OF wf, of h uid hi lo] cancel_order_ok [OF wf, of h] by (auto simp: cancel_order_checked_def)

lemma modify_qty_down_ok:
  assumes wf: "wf b Q F" and ho: "holds_order b Q h uid hi lo" and h: "h \<in> set (Q t)" and q: "0 < new_qty"
  shows "modify_order_qty_down b h new_qty uid hi lo =
      (if new_qty < os_remaining_qty (ord b h) then Some (True, reduce_order b h t (os_remaining_qty (ord b h) - new_qty)) else Some (False, b))"
    and "new_qty < os_remaining_qty (ord b h) \<Longrightarrow> wf (reduce_order b h t (os_remaining_qty (ord b h) - new_qty)) Q F"
proof -
  note W = wfD [OF wf] and qt = queue_tick [OF wfD(1) [OF wf] h]
  have s: "slot_ok (ob_compression b) t (ord b h)" by (rule book_relD(11) [OF W(1) h])
  have le: "os_remaining_qty (ord b h) \<le> i64_max"
  proof -
    have "level_ok (slots (ob_orders b)) (ob_active_levels b ! t) (Q t)" by (rule level_at [OF W(1) h])
    moreover obtain as bs where Q: "Q t = as @ h # bs" using h by (metis split_list)
    ultimately have "os_remaining_qty (ord b h) + qty_sum (slots (ob_orders b)) (as @ bs) \<le> i64_max"
      by (simp add: level_ok_def)
    moreover have "0 \<le> qty_sum (slots (ob_orders b)) (as @ bs)" using qty_sum_nonneg [OF W(1), of "as @ bs" t] Q by auto
    ultimately show ?thesis by linarith
  qed
  have d: "i64_sub (os_remaining_qty (ord b h)) new_qty = os_remaining_qty (ord b h) - new_qty" if "new_qty < os_remaining_qty (ord b h)"
    using that q le by (intro i64_sub_id) (auto simp: in_i64_def i64_bounds)
  show "modify_order_qty_down b h new_qty uid hi lo =
      (if new_qty < os_remaining_qty (ord b h) then Some (True, reduce_order b h t (os_remaining_qty (ord b h) - new_qty)) else Some (False, b))"
    using order_matches_ok [OF wf, of h uid hi lo] ho q qt(1,2,5) d
    by (simp add: modify_order_qty_down_def slab_get_def slab_put_def index_of_Some store_at_Some Let_def reduce_order_def)
  show "new_qty < os_remaining_qty (ord b h) \<Longrightarrow> wf (reduce_order b h t (os_remaining_qty (ord b h) - new_qty)) Q F"
    using reduce_order_wf [OF wf h] q by simp
qed

lemma queued_elim: "h \<in> queued Q \<Longrightarrow> \<exists>t. h \<in> set (Q t)"
  by (auto simp: queued_def)

lemma qty_sum_strip:
  assumes "\<And>x. x \<in> set hs \<Longrightarrow> strip (ys ! x) = strip (xs ! x)" shows "qty_sum ys hs = qty_sum xs hs"
  unfolding qty_sum_def using strip_eqD(2) [OF assms] by (intro arg_cong [where f = sum_list] map_cong) auto

lemma modify_price_ok:
  assumes wf: "wf b Q F" and ho: "holds_order b Q h uid hi lo" and h: "h \<in> set (Q t)"
    and p: "price_range price" "cp_tick_size (ob_compression b) dvd price"
    and sum: "qty_sum (slots (ob_orders b)) (Q (slot_index (ob_compression b) price)) + os_remaining_qty (ord b h) \<le> i64_max"
  defines "u \<equiv> slot_index (ob_compression b) price" and "Q1 \<equiv> Q(t := remove1 h (Q t))"
  shows "\<exists>h' b' F'. modify_order_price b h price sd tif uid ro ts hi lo = Some (Some h', b') \<and>
    wf b' (Q1(u := Q1 u @ [h'])) F' \<and> fresh_order (ord b' h') price (os_remaining_qty (ord b h)) sd tif uid ro hi lo \<and>
    (\<forall>x\<in>queued Q - {h}. x \<noteq> h' \<and> strip (ord b' x) = strip (ord b x)) \<and> same_users b b' \<and> book_sig b b'"
proof -
  let ?q = "os_remaining_qty (ord b h)"
  note W = wfD [OF wf]
  obtain b1 where c: "cancel_order b h = Some (True, b1)" "wf b1 Q1 (h # F)" "\<forall>x\<in>queued Q - {h}. strip (ord b1 x) = strip (ord b x)"
    "book_sig b b1" "same_users b b1" "ur_map (ob_users b1) = ur_map (ob_users b)" using cancel_order_ok [OF wf h] unfolding Q1_def by blast
  have cc: "ob_compression b1 = ob_compression b" using c(4) by (simp add: book_sig_def)
  have q: "0 < ?q" using W(2) ho by (simp add: positive_def holds_order_def)
  have qd: "queued Q1 = queued Q - {h}" unfolding Q1_def by (rule queued_remove [OF W(1) h])
  have "qty_sum (slots (ob_orders b1)) (Q1 u) = qty_sum (slots (ob_orders b)) (Q1 u)"
    using c(3) qd in_queued [of _ Q1 u] by (intro qty_sum_strip) blast
  also have "\<dots> \<le> qty_sum (slots (ob_orders b)) (Q u)"
  proof (cases "u = t")
    case True
    obtain as bs where "Q t = as @ h # bs" using h by (metis split_list)
    then show ?thesis using True book_relD(10) [OF W(1), of t] q by (simp add: Q1_def remove1_append)
  qed (simp add: Q1_def)
  finally have sum1: "qty_sum (slots (ob_orders b1)) (Q1 u) + ?q \<le> i64_max" using sum by (simp add: u_def)
  have known: "ur_contains (ob_users b1) uid"
    using owner_known [OF W(4,1) in_queued [of h Q t, OF h]] ho c(6) by (simp add: ur_contains_def holds_order_def)
  obtain h' b2 F' where i: "insert_resting b1 price ?q sd tif uid ro ts hi lo = Some (h', b2)" "wf b2 (Q1(u := Q1 u @ [h'])) F'"
    "h' \<notin> queued Q1" "fresh_order (ord b2 h') price ?q sd tif uid ro hi lo" "\<forall>x\<in>queued Q1. strip (ord b2 x) = strip (ord b1 x)"
    "book_sig b1 b2" "same_users b1 b2"
    using insert_resting_ok [OF c(2) disjI1 p(1) _ q _ disjI1 [OF known]] p(2) sum1 unfolding cc u_def by blast
  have "modify_order_price b h price sd tif uid ro ts hi lo = Some (Some h', b2)"
    using order_matches_ok [OF wf, of h uid hi lo] ho c(1) i(1) queue_tick(5) [OF W(1) h]
    by (simp add: modify_order_price_def slab_get_def index_of_Some)
  with i c qd show ?thesis by (auto simp: same_users_def book_sig_def)
qed

section \<open>The published best bid and offer\<close>

definition uncrossed :: "orderbook \<Rightarrow> queues \<Rightarrow> bool" where
  "uncrossed b Q \<longleftrightarrow> (\<forall>x\<in>resting b Q Buy. \<forall>y\<in>resting b Q Sell. os_price (ord b x) < os_price (ord b y))"

definition side_qty :: "orderbook \<Rightarrow> queues \<Rightarrow> side \<Rightarrow> i64 \<Rightarrow> int" where
  "side_qty b Q sd p = qty_sum (slots (ob_orders b)) (at_price (slots (ob_orders b)) sd (Q (slot_index (ob_compression b) p)) p)"

lemma top_at_best:
  assumes wf: "wf b Q F" and un: "uncrossed b Q"
  shows "top_at b sd (best_tick b sd) =
    Some (best_px b sd, if resting b Q sd = {} then 0 else side_qty b Q sd (best_px b sd))"
proof (cases "resting b Q sd = {}")
  case True
  then have "best_tick b sd = NONE" "best_px b sd = 0" using wfD(3) [OF wf, of sd] by (simp_all add: best_ok_def)
  then show ?thesis using True by (cases sd) (simp_all add: top_at_def bid_top_at_def ask_top_at_def)
next
  case False
  note W = wfD [OF wf]
  let ?p = "best_px b sd" and ?t = "best_tick b sd" and ?xs = "slots (ob_orders b)"
  obtain g where g: "g \<in> resting b Q sd" "os_price (ord b g) = ?p" and t: "?t = slot_index (ob_compression b) ?p"
    and all: "\<forall>h\<in>resting b Q sd. better sd ?p (os_price (ord b h))"
    using W(3) [of sd] False by (auto simp: best_ok_def)
  obtain u where u: "g \<in> set (Q u)" using g(1) by (auto simp: resting_def queued_def)
  have ut: "u = ?t" using book_relD(11) [OF W(1) u] g(2) t by (simp add: slot_ok_def)
  have gs: "on_side sd (ord b g)" using g(1) by (simp add: resting_def)
  obtain r where r: "top_at b sd ?t = Some r" "top_price ?xs sd (Q ?t) (fst r)"
    "?t < cp_zone_slots (ob_compression b) ! 0 \<longrightarrow> (\<forall>h\<in>set (Q ?t). on_side sd (ord b h)) \<longrightarrow> top_of ?xs sd (Q ?t) r"
    "cp_zone_slots (ob_compression b) ! 0 \<le> ?t \<longrightarrow> top_of ?xs sd (Q ?t) r"
    using top_at_ok [OF W(1), of ?t sd] u ut gs by blast
  have px: "fst r = ?p"
  proof -
    obtain k where k: "k \<in> set (Q ?t)" "on_side sd (ord b k)" "os_price (ord b k) = fst r" using r(2) by (auto simp: top_price_def)
    have "better sd ?p (fst r)" using all k in_queued [of k Q ?t] by (auto simp: resting_def)
    moreover have "better sd (fst r) ?p" using r(2) u ut gs g(2) by (auto simp: top_price_def)
    ultimately show ?thesis using key_inj [of sd ?p "fst r"] by (simp add: better_key)
  qed
  have "top_of ?xs sd (Q ?t) r"
  proof (cases "?t < cp_zone_slots (ob_compression b) ! 0")
    case True
    have "on_side sd (ord b h)" if h: "h \<in> set (Q ?t)" for h
    proof (rule ccontr)
      assume n: "\<not> on_side sd (ord b h)"
      have "os_price (ord b h) = os_price (ord b g)" using zone0_same_price [OF W(1) True h] u ut by simp
      moreover have "h \<in> queued Q" "g \<in> queued Q" using h u in_queued by blast+
      ultimately show False using n gs un
        by (cases sd) (fastforce simp: uncrossed_def resting_def on_side_def)+
    qed
    with r(3) True show ?thesis by blast
  qed (use r(4) in auto)
  then have "snd r = side_qty b Q sd ?p" by (simp add: top_of_def px side_qty_def t)
  with r(1) px False show ?thesis by (cases r) simp
qed

end
