(* ===== verification/Matching.thy ===== *)
theory Matching
  imports Book_Ops
begin

text \<open>
  \<open>rsx-book/src/matching.rs\<close>: one incoming order against the book. Every loop is a partial function
  into option, so "the matcher returns" is something to prove. The two symmetric arms of the source
  stay two functions.
\<close>

section \<open>Definitions\<close>

record incoming_order =
  io_price :: i64
  io_qty :: i64
  io_remaining_qty :: i64
  io_side :: side
  io_tif :: time_in_force
  io_user_id :: u32
  io_reduce_only :: bool
  io_post_only :: bool
  io_timestamp_ns :: u64
  io_order_id_hi :: u64
  io_order_id_lo :: u64

definition is_budget_spent :: "orderbook \<Rightarrow> bool" where
  "is_budget_spent b \<longleftrightarrow> length (ob_event_buf b) \<ge> 2 * MAX_MAKERS_PER_ORDER"

definition is_match_limited :: "orderbook \<Rightarrow> incoming_order \<Rightarrow> bool" where
  "is_match_limited b oc \<longleftrightarrow> is_budget_spent b \<and> (case io_side oc of
     Buy \<Rightarrow> ob_best_ask_tick b \<noteq> NONE \<and> ob_best_ask_px b \<le> io_price oc
   | Sell \<Rightarrow> ob_best_bid_tick b \<noteq> NONE \<and> ob_best_bid_px b \<ge> io_price oc)"

definition emit_bbo :: "orderbook \<Rightarrow> orderbook option" where
  "emit_bbo b = do {
     x \<leftarrow> current_bbo b;
     emit b (BBO (bbo_bid_px x) (bbo_bid_qty x) (bbo_ask_px x) (bbo_ask_qty x))
   }"

record crossing =
  cr_best_price :: i64
  cr_qty :: i64
  cr_makers :: usize

definition is_crossing :: "u8 \<Rightarrow> i64 \<Rightarrow> side \<Rightarrow> i64 \<Rightarrow> bool" where
  "is_crossing maker_side maker_price taker_side limit \<longleftrightarrow>
     maker_side \<noteq> side_u8 taker_side \<and>
     (case taker_side of Buy \<Rightarrow> maker_price \<le> limit | Sell \<Rightarrow> maker_price \<ge> limit)"

definition crossing_step :: "incoming_order \<Rightarrow> order_slot \<Rightarrow> crossing \<Rightarrow> crossing" where
  "crossing_step taker maker cr =
     (if is_crossing (os_side maker) (os_price maker) (io_side taker) (io_price taker)
      then cr\<lparr>cr_makers := cr_makers cr + 1, cr_qty := i64_add (cr_qty cr) (os_remaining_qty maker),
              cr_best_price := (case io_side taker of
                  Buy \<Rightarrow> min (cr_best_price cr) (os_price maker)
                | Sell \<Rightarrow> max (cr_best_price cr) (os_price maker))\<rparr>
      else cr)"

definition scan_crossing :: "orderbook \<Rightarrow> u32 \<Rightarrow> incoming_order \<Rightarrow> crossing option" where
  "scan_crossing b tick taker = do {
     level \<leftarrow> index_of (ob_active_levels b) tick;
     walk (slots (ob_orders b)) (crossing_step taker)
       \<lparr>cr_best_price = io_price taker, cr_qty = 0, cr_makers = 0\<rparr> (pl_head level)
   }"

text \<open>The body of the loop of \<open>fill_level\<close> for a maker that crosses.\<close>

definition fill_maker :: "orderbook \<Rightarrow> u32 \<Rightarrow> incoming_order \<Rightarrow> u32 \<Rightarrow> (orderbook \<times> incoming_order) option" where
  "fill_maker b tick aggressor cursor = do {
     maker \<leftarrow> slab_get (ob_orders b) cursor;
     let fill_q = min (io_remaining_qty aggressor) (os_remaining_qty maker);
     let aggressor' = aggressor\<lparr>io_remaining_qty := i64_sub (io_remaining_qty aggressor) fill_q\<rparr>;
     let maker_remaining = i64_sub (os_remaining_qty maker) fill_q;
     orders \<leftarrow> slab_put (ob_orders b) cursor (maker\<lparr>os_remaining_qty := maker_remaining\<rparr>);
     level \<leftarrow> index_of (ob_active_levels b) tick;
     let b1 = b\<lparr>ob_orders := orders,
       ob_active_levels := (ob_active_levels b)[tick := level\<lparr>pl_total_qty := sat_sub (pl_total_qty level) fill_q\<rparr>]\<rparr>;
     b2 \<leftarrow> emit b1 (Fill cursor (os_tif maker) (is_reduce_only maker) (os_user_id maker) (io_user_id aggressor)
       (os_price maker) fill_q (side_u8 (io_side aggressor)) (os_order_id_hi maker) (os_order_id_lo maker)
       (io_order_id_hi aggressor) (io_order_id_lo aggressor) (io_timestamp_ns aggressor));
     users \<leftarrow> users_apply_fill (ob_users b2) (io_user_id aggressor) (os_user_id maker) (io_side aggressor) fill_q;
     let b3 = b2\<lparr>ob_users := users\<rparr>;
     if maker_remaining = 0 then do {
       b4 \<leftarrow> unlink_order b3 cursor;
       done_slot \<leftarrow> slab_get (ob_orders b4) cursor;
       b5 \<leftarrow> emit b4 (OrderDone cursor (os_tif maker) (is_reduce_only maker) (os_user_id maker) Filled
         (os_original_qty done_slot) 0 (os_order_id_hi maker) (os_order_id_lo maker));
       s \<leftarrow> slab_get (ob_orders b5) cursor;
       orders1 \<leftarrow> slab_put (ob_orders b5) cursor (set_active s False);
       orders2 \<leftarrow> free orders1 cursor;
       users' \<leftarrow> remove_order (ob_users b5) (os_user_id maker);
       Some (b5\<lparr>ob_orders := orders2, ob_users := users'\<rparr>, aggressor')
     }
     else Some (b3, aggressor')
   }"

partial_function (option) fill_from ::
  "u32 \<Rightarrow> i64 \<Rightarrow> orderbook \<Rightarrow> incoming_order \<Rightarrow> u32 \<Rightarrow> (orderbook \<times> incoming_order) option" where
  "fill_from tick limit b aggressor cursor =
     (if cursor \<noteq> NONE \<and> io_remaining_qty aggressor > 0 \<and> \<not> is_budget_spent b then do {
        maker \<leftarrow> slab_get (ob_orders b) cursor;
        if \<not> is_crossing (os_side maker) (os_price maker) (io_side aggressor) limit
        then fill_from tick limit b aggressor (os_next maker)
        else do {
          r \<leftarrow> fill_maker b tick aggressor cursor;
          fill_from tick limit (fst r) (snd r) (os_next maker)
        }
      }
      else Some (b, aggressor))"

declare fill_from.simps [code]

definition fill_level :: "orderbook \<Rightarrow> u32 \<Rightarrow> incoming_order \<Rightarrow> i64 \<Rightarrow> (orderbook \<times> incoming_order) option" where
  "fill_level b tick aggressor limit = do {
     level \<leftarrow> index_of (ob_active_levels b) tick;
     fill_from tick limit b aggressor (pl_head level)
   }"

partial_function (option) match_best_first ::
  "u32 \<Rightarrow> orderbook \<Rightarrow> incoming_order \<Rightarrow> crossing \<Rightarrow> (orderbook \<times> incoming_order) option" where
  "match_best_first tick b aggressor cr =
     (if cr_makers cr > 0 then do {
        r \<leftarrow> fill_level b tick aggressor (cr_best_price cr);
        if io_remaining_qty (snd r) = 0 \<or> is_budget_spent (fst r) then Some r
        else do {
          cr' \<leftarrow> scan_crossing (fst r) tick (snd r);
          match_best_first tick (fst r) (snd r) cr'
        }
      }
      else Some (b, aggressor))"

declare match_best_first.simps [code]

definition match_compressed_slot :: "orderbook \<Rightarrow> u32 \<Rightarrow> incoming_order \<Rightarrow> (orderbook \<times> incoming_order) option" where
  "match_compressed_slot b tick aggressor = do {
     cr \<leftarrow> scan_crossing b tick aggressor;
     let room = MAX_MAKERS_PER_ORDER - length (ob_event_buf b) div 2;
     if cr_qty cr \<le> io_remaining_qty aggressor \<and> cr_makers cr \<le> room
     then fill_level b tick aggressor (io_price aggressor)
     else match_best_first tick b aggressor cr
   }"

definition match_at_level :: "orderbook \<Rightarrow> u32 \<Rightarrow> incoming_order \<Rightarrow> (orderbook \<times> incoming_order) option" where
  "match_at_level b tick aggressor =
     (if tick < cp_zone_slots (ob_compression b) ! 0 then fill_level b tick aggressor (io_price aggressor)
      else match_compressed_slot b tick aggressor)"

text \<open>The two arms of the match loop of \<open>process_new_order\<close>.\<close>

partial_function (option) take_asks :: "orderbook \<Rightarrow> incoming_order \<Rightarrow> (orderbook \<times> incoming_order) option" where
  "take_asks b oc =
     (if io_remaining_qty oc > 0 \<and> ob_best_ask_tick b \<noteq> NONE then do {
        r \<leftarrow> match_at_level b (ob_best_ask_tick b) oc;
        b' \<leftarrow> refresh_best_ask (fst r);
        if io_remaining_qty (snd r) = io_remaining_qty oc then Some (b', snd r)
        else take_asks b' (snd r)
      }
      else Some (b, oc))"

declare take_asks.simps [code]

partial_function (option) take_bids :: "orderbook \<Rightarrow> incoming_order \<Rightarrow> (orderbook \<times> incoming_order) option" where
  "take_bids b oc =
     (if io_remaining_qty oc > 0 \<and> ob_best_bid_tick b \<noteq> NONE then do {
        r \<leftarrow> match_at_level b (ob_best_bid_tick b) oc;
        b' \<leftarrow> refresh_best_bid (fst r);
        if io_remaining_qty (snd r) = io_remaining_qty oc then Some (b', snd r)
        else take_bids b' (snd r)
      }
      else Some (b, oc))"

declare take_bids.simps [code]

subsection \<open>Fill-or-kill feasibility\<close>

text \<open>\<open>Inl r\<close> is an early \<open>return r\<close>; \<open>Inr (total, makers)\<close> falls through to the next slot or range.\<close>

fun sum_qty :: "orderbook \<Rightarrow> usize \<Rightarrow> u32 \<Rightarrow> i64 \<Rightarrow> i64 option" where
  "sum_qty b 0 cursor acc = Some acc"
| "sum_qty b (Suc n) cursor acc = do {
     resting_order \<leftarrow> slab_get (ob_orders b) cursor;
     sum_qty b n (os_next resting_order) (i64_add acc (os_remaining_qty resting_order))
   }"

partial_function (option) slot_asks ::
  "orderbook \<Rightarrow> i64 \<Rightarrow> i64 \<Rightarrow> i64 \<Rightarrow> i64 \<Rightarrow> usize \<Rightarrow> u32 \<Rightarrow> (bool + i64 \<times> usize) option" where
  "slot_asks b limit_price needed min_sell acc makers c =
     (if c \<noteq> NONE then do {
        r \<leftarrow> slab_get (ob_orders b) c;
        if os_side r = side_u8 Sell then
          let px = os_price r; min_sell' = (if px < min_sell then px else min_sell) in
          if px \<le> limit_price then
            if makers + 1 > MAX_MAKERS_PER_ORDER then Some (Inl False)
            else let acc' = i64_add acc (os_remaining_qty r) in
              if acc' \<ge> needed then Some (Inl True)
              else slot_asks b limit_price needed min_sell' acc' (makers + 1) (os_next r)
          else slot_asks b limit_price needed min_sell' acc makers (os_next r)
        else slot_asks b limit_price needed min_sell acc makers (os_next r)
      }
      else if min_sell > limit_price then Some (Inl False)
      else Some (Inr (acc, makers)))"

declare slot_asks.simps [code]

definition level_asks :: "orderbook \<Rightarrow> i64 \<Rightarrow> i64 \<Rightarrow> u32 \<Rightarrow> i64 \<Rightarrow> usize \<Rightarrow> (bool + i64 \<times> usize) option" where
  "level_asks b limit_price needed t acc makers = do {
     lvl \<leftarrow> index_of (ob_active_levels b) t;
     if t < cp_zone_slots (ob_compression b) ! 0 then do {
       h \<leftarrow> slab_get (ob_orders b) (pl_head lvl);
       if os_price h > limit_price then Some (Inl False)
       else if makers + pl_ask_count lvl > MAX_MAKERS_PER_ORDER then do {
         s \<leftarrow> sum_qty b (MAX_MAKERS_PER_ORDER - makers) (pl_head lvl) 0;
         Some (Inl (i64_add acc s \<ge> needed))
       }
       else let acc' = i64_add acc (pl_total_qty lvl) in
         if acc' \<ge> needed then Some (Inl True) else Some (Inr (acc', makers + pl_ask_count lvl))
     }
     else slot_asks b limit_price needed i64_max acc makers (pl_head lvl)
   }"

partial_function (option) range_asks ::
  "orderbook \<Rightarrow> i64 \<Rightarrow> i64 \<Rightarrow> u32 \<Rightarrow> u32 \<Rightarrow> i64 \<Rightarrow> usize \<Rightarrow> (bool + i64 \<times> usize) option" where
  "range_asks b limit_price needed cur hi acc makers = do {
     r \<leftarrow> find_first_in (ob_ask_occ b) cur hi;
     case r of
       None \<Rightarrow> Some (Inr (acc, makers))
     | Some t \<Rightarrow> do {
         x \<leftarrow> level_asks b limit_price needed t acc makers;
         case x of
           Inl res \<Rightarrow> Some (Inl res)
         | Inr y \<Rightarrow> range_asks b limit_price needed (u32_add t 1) hi (fst y) (snd y)
       }
   }"

declare range_asks.simps [code]

fun ranges_asks :: "orderbook \<Rightarrow> i64 \<Rightarrow> i64 \<Rightarrow> (u32 \<times> u32) list \<Rightarrow> i64 \<Rightarrow> usize \<Rightarrow> bool option" where
  "ranges_asks b limit_price needed [] acc makers = Some False"
| "ranges_asks b limit_price needed ((lo, hi) # rs) acc makers = do {
     x \<leftarrow> range_asks b limit_price needed lo hi acc makers;
     case x of Inl res \<Rightarrow> Some res | Inr y \<Rightarrow> ranges_asks b limit_price needed rs (fst y) (snd y)
   }"

partial_function (option) slot_bids ::
  "orderbook \<Rightarrow> i64 \<Rightarrow> i64 \<Rightarrow> i64 \<Rightarrow> i64 \<Rightarrow> usize \<Rightarrow> u32 \<Rightarrow> (bool + i64 \<times> usize) option" where
  "slot_bids b limit_price needed max_buy acc makers c =
     (if c \<noteq> NONE then do {
        r \<leftarrow> slab_get (ob_orders b) c;
        if os_side r = side_u8 Buy then
          let px = os_price r; max_buy' = (if px > max_buy then px else max_buy) in
          if px \<ge> limit_price then
            if makers + 1 > MAX_MAKERS_PER_ORDER then Some (Inl False)
            else let acc' = i64_add acc (os_remaining_qty r) in
              if acc' \<ge> needed then Some (Inl True)
              else slot_bids b limit_price needed max_buy' acc' (makers + 1) (os_next r)
          else slot_bids b limit_price needed max_buy' acc makers (os_next r)
        else slot_bids b limit_price needed max_buy acc makers (os_next r)
      }
      else if max_buy < limit_price then Some (Inl False)
      else Some (Inr (acc, makers)))"

declare slot_bids.simps [code]

definition level_bids :: "orderbook \<Rightarrow> i64 \<Rightarrow> i64 \<Rightarrow> u32 \<Rightarrow> i64 \<Rightarrow> usize \<Rightarrow> (bool + i64 \<times> usize) option" where
  "level_bids b limit_price needed t acc makers = do {
     lvl \<leftarrow> index_of (ob_active_levels b) t;
     if t < cp_zone_slots (ob_compression b) ! 0 then do {
       h \<leftarrow> slab_get (ob_orders b) (pl_head lvl);
       if os_price h < limit_price then Some (Inl False)
       else if makers + pl_bid_count lvl > MAX_MAKERS_PER_ORDER then do {
         s \<leftarrow> sum_qty b (MAX_MAKERS_PER_ORDER - makers) (pl_head lvl) 0;
         Some (Inl (i64_add acc s \<ge> needed))
       }
       else let acc' = i64_add acc (pl_total_qty lvl) in
         if acc' \<ge> needed then Some (Inl True) else Some (Inr (acc', makers + pl_bid_count lvl))
     }
     else slot_bids b limit_price needed i64_min acc makers (pl_head lvl)
   }"

partial_function (option) range_bids ::
  "orderbook \<Rightarrow> i64 \<Rightarrow> i64 \<Rightarrow> u32 \<Rightarrow> u32 \<Rightarrow> i64 \<Rightarrow> usize \<Rightarrow> (bool + i64 \<times> usize) option" where
  "range_bids b limit_price needed lo hi acc makers = do {
     r \<leftarrow> find_last_in (ob_bid_occ b) lo hi;
     case r of
       None \<Rightarrow> Some (Inr (acc, makers))
     | Some t \<Rightarrow> do {
         x \<leftarrow> level_bids b limit_price needed t acc makers;
         case x of
           Inl res \<Rightarrow> Some (Inl res)
         | Inr y \<Rightarrow> range_bids b limit_price needed lo t (fst y) (snd y)
       }
   }"

declare range_bids.simps [code]

fun ranges_bids :: "orderbook \<Rightarrow> i64 \<Rightarrow> i64 \<Rightarrow> (u32 \<times> u32) list \<Rightarrow> i64 \<Rightarrow> usize \<Rightarrow> bool option" where
  "ranges_bids b limit_price needed [] acc makers = Some False"
| "ranges_bids b limit_price needed ((lo, hi) # rs) acc makers = do {
     x \<leftarrow> range_bids b limit_price needed lo hi acc makers;
     case x of Inl res \<Rightarrow> Some res | Inr y \<Rightarrow> ranges_bids b limit_price needed rs (fst y) (snd y)
   }"

definition can_fill_fully :: "orderbook \<Rightarrow> side \<Rightarrow> i64 \<Rightarrow> i64 \<Rightarrow> bool option" where
  "can_fill_fully b sd limit_price needed = (case sd of
     Buy \<Rightarrow> ranges_asks b limit_price needed (ob_price_asc b) 0 0
   | Sell \<Rightarrow> ranges_bids b limit_price needed (rev (ob_price_asc b)) 0 0)"

subsection \<open>Processing an order\<close>

definition order_failed :: "incoming_order \<Rightarrow> order_failure_reason \<Rightarrow> event" where
  "order_failed oc reason = OrderFailed (io_user_id oc) reason (io_order_id_hi oc) (io_order_id_lo oc)"

definition order_done :: "incoming_order \<Rightarrow> order_done_reason \<Rightarrow> i64 \<Rightarrow> i64 \<Rightarrow> event" where
  "order_done oc reason filled remaining =
     OrderDone NONE (tif_u8 (io_tif oc)) (io_reduce_only oc) (io_user_id oc) reason filled remaining
       (io_order_id_hi oc) (io_order_id_lo oc)"

text \<open>The validation at the top: \<open>Some (Some reason)\<close> is a rejection, the outer \<open>None\<close> a remainder by zero.\<close>

definition check_alignment :: "orderbook \<Rightarrow> incoming_order \<Rightarrow> order_failure_reason option option" where
  "check_alignment b oc = do {
     invalid_tick \<leftarrow> (if io_price oc \<le> 0 then Some True
       else do { r \<leftarrow> rem_by (io_price oc) (bc_tick_size (ob_config b)); Some (r \<noteq> 0) });
     if invalid_tick then Some (Some InvalidTick)
     else if io_qty oc \<le> 0 then Some (Some InvalidLot)
     else do { r \<leftarrow> rem_by (io_qty oc) (bc_lot_size (ob_config b)); Some (if r \<noteq> 0 then Some InvalidLot else None) }
   }"

text \<open>The reduce-only gate: \<open>Inl\<close> a rejection, \<open>Inr\<close> the order with its quantity clamped to the position.\<close>

definition reduce_only_gate :: "orderbook \<Rightarrow> incoming_order \<Rightarrow> (order_failure_reason + incoming_order) option" where
  "reduce_only_gate b oc =
     (if \<not> io_reduce_only oc then Some (Inr oc)
      else do {
        net \<leftarrow> net_qty (ob_users b) (io_user_id oc);
        case net of
          None \<Rightarrow> Some (Inl ReduceOnly)
        | Some nq \<Rightarrow>
            if (case io_side oc of Buy \<Rightarrow> nq \<ge> 0 | Sell \<Rightarrow> nq \<le> 0) then Some (Inl ReduceOnly)
            else Some (Inr (if io_remaining_qty oc > abs_capped nq then oc\<lparr>io_remaining_qty := abs_capped nq\<rparr> else oc))
      })"

definition would_cross :: "orderbook \<Rightarrow> incoming_order \<Rightarrow> bool" where
  "would_cross b oc \<longleftrightarrow> (case io_side oc of
     Buy \<Rightarrow> ob_best_ask_tick b \<noteq> NONE \<and> io_price oc \<ge> ob_best_ask_px b
   | Sell \<Rightarrow> ob_best_bid_tick b \<noteq> NONE \<and> io_price oc \<le> ob_best_bid_px b)"

text \<open>What becomes of the residual after the match loop.\<close>

definition finish_order :: "orderbook \<Rightarrow> incoming_order \<Rightarrow> i64 \<Rightarrow> orderbook option" where
  "finish_order b oc fillable =
     (if io_remaining_qty oc > 0 then
        if is_match_limited b oc
        then emit b (order_done oc MatchLimit (i64_sub fillable (io_remaining_qty oc)) (io_remaining_qty oc))
        else (case io_tif oc of
          IOC \<Rightarrow> emit b (order_done oc Expired (i64_sub fillable (io_remaining_qty oc)) (io_remaining_qty oc))
        | FOK \<Rightarrow> emit b (order_failed oc FillOrKill)
        | GTC \<Rightarrow> do {
            r \<leftarrow> insert_resting b (io_price oc) (io_remaining_qty oc) (io_side oc) (tif_u8 (io_tif oc)) (io_user_id oc)
              (io_reduce_only oc) (io_timestamp_ns oc) (io_order_id_hi oc) (io_order_id_lo oc);
            emit (snd r) (OrderInserted (fst r) (io_user_id oc) (side_u8 (io_side oc)) (io_price oc) (io_remaining_qty oc)
              (io_order_id_hi oc) (io_order_id_lo oc))
          })
      else emit b (order_done oc Filled fillable 0))"

definition best_moved :: "orderbook \<Rightarrow> orderbook \<Rightarrow> bool" where
  "best_moved b0 b \<longleftrightarrow> ob_best_bid_tick b \<noteq> ob_best_bid_tick b0 \<or> ob_best_ask_tick b \<noteq> ob_best_ask_tick b0 \<or>
     ob_best_bid_px b \<noteq> ob_best_bid_px b0 \<or> ob_best_ask_px b \<noteq> ob_best_ask_px b0"

text \<open>The match loop and what follows it, for an order that passed every gate.\<close>

definition execute_order :: "orderbook \<Rightarrow> incoming_order \<Rightarrow> (orderbook \<times> incoming_order) option" where
  "execute_order b oc = do {
     let fillable = io_remaining_qty oc;
     r \<leftarrow> (case io_side oc of Buy \<Rightarrow> take_asks b oc | Sell \<Rightarrow> take_bids b oc);
     b2 \<leftarrow> finish_order (fst r) (snd r) fillable;
     b3 \<leftarrow> (if best_moved b b2 then emit_bbo b2 else Some b2);
     Some (b3, snd r)
   }"

definition process_new_order :: "orderbook \<Rightarrow> incoming_order \<Rightarrow> (orderbook \<times> incoming_order) option" where
  "process_new_order b0 oc = do {
     let b = b0\<lparr>ob_event_buf := []\<rparr>;
     bad \<leftarrow> check_alignment b oc;
     case bad of
       Some reason \<Rightarrow> do { b' \<leftarrow> emit b (order_failed oc reason); Some (b', oc) }
     | None \<Rightarrow> do {
         g \<leftarrow> reduce_only_gate b oc;
         case g of
           Inl reason \<Rightarrow> do { b' \<leftarrow> emit b (order_failed oc reason); Some (b', oc) }
         | Inr oc1 \<Rightarrow>
             if io_post_only oc1 \<and> would_cross b oc1
             then do { b' \<leftarrow> emit b (order_done oc1 PostOnly 0 (io_remaining_qty oc1)); Some (b', oc1) }
             else do {
               feasible \<leftarrow> (if io_tif oc1 = FOK
                 then can_fill_fully b (io_side oc1) (io_price oc1) (io_remaining_qty oc1) else Some True);
               if \<not> feasible then do { b' \<leftarrow> emit b (order_failed oc1 FillOrKill); Some (b', oc1) }
               else execute_order b oc1
             }
       }
   }"

end
