(* ===== verification/Match_Steps.thy ===== *)
theory Match_Steps
  imports Matching
begin

text \<open>
  Matching as a state machine. \<open>one_fill\<close> is the effect of one maker being hit: which maker, for how
  much, what it does to the queues, the registry and the event buffer. \<open>fills\<close> is a run of such steps, between
  which the tracked best of the makers' side may be refreshed.
  \<open>fill_maker\<close> is shown to make exactly such a step, and the loops of \<open>matching.rs\<close> to terminate and to
  be runs; everything about fills is then proved by induction on runs.
\<close>

section \<open>Steps and runs\<close>

text \<open>The invariant inside the match loop: \<open>wf\<close> without the tracked best prices.\<close>

definition mst :: "orderbook \<Rightarrow> queues \<Rightarrow> u32 list \<Rightarrow> bool" where
  "mst b Q F \<longleftrightarrow> book_rel b Q F {} \<and> positive b Q \<and> users_rel b Q"

fun opp :: "side \<Rightarrow> side" where
  "opp Buy = Sell"
| "opp Sell = Buy"

definition rem :: "orderbook \<Rightarrow> u32 \<Rightarrow> int" where
  "rem b h = os_remaining_qty (ord b h)"

definition crosses :: "orderbook \<Rightarrow> side \<Rightarrow> i64 \<Rightarrow> u32 \<Rightarrow> bool" where
  "crosses b sd limit h \<longleftrightarrow> is_crossing (os_side (ord b h)) (os_price (ord b h)) sd limit"

definition fill_event :: "incoming_order \<Rightarrow> order_slot \<Rightarrow> u32 \<Rightarrow> i64 \<Rightarrow> event" where
  "fill_event oc s h d =
     Fill h (os_tif s) (is_reduce_only s) (os_user_id s) (io_user_id oc) (os_price s) d (side_u8 (io_side oc))
       (os_order_id_hi s) (os_order_id_lo s) (io_order_id_hi oc) (io_order_id_lo oc) (io_timestamp_ns oc)"

definition maker_done :: "order_slot \<Rightarrow> u32 \<Rightarrow> event" where
  "maker_done s h =
     OrderDone h (os_tif s) (is_reduce_only s) (os_user_id s) Filled (os_original_qty s) 0 (os_order_id_hi s) (os_order_id_lo s)"

definition moved :: "(u32 \<Rightarrow> i64) \<Rightarrow> u32 \<Rightarrow> u32 \<Rightarrow> i64 \<Rightarrow> (u32 \<Rightarrow> i64)" where
  "moved P taker maker d = (let P' = P(taker := sat_add (P taker) d) in P'(maker := sat_add (P' maker) (- d)))"

definition book_frame :: "orderbook \<Rightarrow> orderbook \<Rightarrow> bool" where
  "book_frame b b' \<longleftrightarrow> ob_config b' = ob_config b \<and> ob_compression b' = ob_compression b \<and> ob_state b' = ob_state b \<and>
     length (slots (ob_orders b')) = length (slots (ob_orders b)) \<and>
     (\<forall>sd. best_tick b' sd = best_tick b sd \<and> best_px b' sd = best_px b sd)"

definition one_fill ::
  "orderbook \<Rightarrow> queues \<Rightarrow> incoming_order \<Rightarrow> u32 \<Rightarrow> i64 \<Rightarrow> orderbook \<Rightarrow> queues \<Rightarrow> incoming_order \<Rightarrow> bool" where
  "one_fill b Q oc h d b' Q' oc' \<longleftrightarrow>
     (\<exists>t. h \<in> set (Q t) \<and> Q' = (if d = rem b h then Q(t := remove1 h (Q t)) else Q)) \<and>
     crosses b (io_side oc) (io_price oc) h \<and> 0 < d \<and> d = min (io_remaining_qty oc) (rem b h) \<and>
     oc' = oc\<lparr>io_remaining_qty := io_remaining_qty oc - d\<rparr> \<and>
     ob_event_buf b' = ob_event_buf b @ fill_event oc (ord b h) h d # (if d = rem b h then [maker_done (ord b h) h] else []) \<and>
     (\<forall>x\<in>queued Q'. strip (ord b' x) =
        strip (if x = h then (ord b h)\<lparr>os_remaining_qty := rem b h - d\<rparr> else ord b x)) \<and>
     position_of (ob_users b') = moved (position_of (ob_users b)) (io_user_id oc) (os_user_id (ord b h)) (signed_qty (io_side oc) d) \<and>
     ur_contains (ob_users b') (io_user_id oc) \<and> book_frame b b'"

inductive fills ::
  "orderbook \<Rightarrow> queues \<Rightarrow> incoming_order \<Rightarrow> (u32 \<times> i64) list \<Rightarrow> orderbook \<Rightarrow> queues \<Rightarrow> incoming_order \<Rightarrow> bool" where
  fills_none: "fills b Q oc [] b Q oc"
| fills_step: "one_fill b Q oc h d b1 Q1 oc1 \<Longrightarrow> fills b1 Q1 oc1 fs b2 Q2 oc2 \<Longrightarrow> fills b Q oc ((h, d) # fs) b2 Q2 oc2"
| fills_best: "fills (set_best b (opp (io_side oc)) t p) Q oc fs b2 Q2 oc2 \<Longrightarrow> fills b Q oc fs b2 Q2 oc2"

lemma fills_append:
  "fills b Q oc fs b1 Q1 oc1 \<Longrightarrow> fills b1 Q1 oc1 gs b2 Q2 oc2 \<Longrightarrow> fills b Q oc (fs @ gs) b2 Q2 oc2"
  by (induction rule: fills.induct) (auto intro: fills_step fills_best)

section \<open>One maker\<close>

lemma emit_run: "length (ob_event_buf b) < MAX_EVENTS \<Longrightarrow> emit b e = Some (b\<lparr>ob_event_buf := ob_event_buf b @ [e]\<rparr>)"
  by (simp add: emit_def)

lemma rem_bounds:
  assumes "book_rel b Q F D" and "h \<in> set (Q t)" shows "0 \<le> rem b h" "rem b h \<le> i64_max"
proof -
  show "0 \<le> rem b h" using book_relD(11) [OF assms] by (simp add: slot_ok_def rem_def)
  obtain as bs where Q: "Q t = as @ h # bs" using assms(2) by (metis split_list)
  have "rem b h + qty_sum (slots (ob_orders b)) (as @ bs) \<le> i64_max"
    using level_at [OF assms] Q by (simp add: level_ok_def rem_def)
  moreover have "0 \<le> qty_sum (slots (ob_orders b)) (as @ bs)" using qty_sum_nonneg [OF assms(1), of "as @ bs" t] Q by auto
  ultimately show "rem b h \<le> i64_max" by linarith
qed

lemma users_rel_fill:
  assumes "users_rel b Q" and "book_rel b Q F D" and "h \<in> queued Q"
    and "ur_contains (ob_users b) taker \<or> users_room (ob_users b)" and "0 \<le> d" "d \<le> i64_max"
  shows "\<exists>u. users_apply_fill (ob_users b) taker (os_user_id (ord b h)) sd d = Some u \<and> users_ok u \<and>
    resting_of u = resting_of (ob_users b) \<and> ur_contains u taker \<and>
    position_of u = moved (position_of (ob_users b)) taker (os_user_id (ord b h)) (signed_qty sd d)"
  using users_apply_fill_ok [OF _ assms(4) owner_known [OF assms(1-3)] assms(5,6), of sd] assms(1)
  by (fastforce simp: users_rel_def moved_def ur_contains_def dom_def)

lemma fill_maker_prefix:
  assumes m: "mst b Q F" and h: "h \<in> set (Q t)" and r: "0 < io_remaining_qty oc" "io_remaining_qty oc \<le> i64_max"
    and ev: "length (ob_event_buf b) + 2 \<le> MAX_EVENTS"
    and known: "ur_contains (ob_users b) (io_user_id oc) \<or> users_room (ob_users b)"
  defines "d \<equiv> min (io_remaining_qty oc) (rem b h)"
  shows "\<exists>u. users_ok u \<and> resting_of u = resting_of (ob_users b) \<and> ur_contains u (io_user_id oc) \<and>
    position_of u = moved (position_of (ob_users b)) (io_user_id oc) (os_user_id (ord b h)) (signed_qty (io_side oc) d) \<and>
    fill_maker b t oc h =
      (let b3 = (reduce_order b h t d)\<lparr>ob_event_buf := ob_event_buf b @ [fill_event oc (ord b h) h d], ob_users := u\<rparr>;
           oc' = oc\<lparr>io_remaining_qty := io_remaining_qty oc - d\<rparr>
       in if d = rem b h then do {
            b4 \<leftarrow> unlink_order b3 h;
            done_slot \<leftarrow> slab_get (ob_orders b4) h;
            b5 \<leftarrow> emit b4 (OrderDone h (os_tif (ord b h)) (is_reduce_only (ord b h)) (os_user_id (ord b h)) Filled
              (os_original_qty done_slot) 0 (os_order_id_hi (ord b h)) (os_order_id_lo (ord b h)));
            orders2 \<leftarrow> release (ob_orders b5) h;
            users' \<leftarrow> remove_order (ob_users b5) (os_user_id (ord b h));
            Some (b5\<lparr>ob_orders := orders2, ob_users := users'\<rparr>, oc')
          } else Some (b3, oc'))"
proof -
  have rel: "book_rel b Q F {}" and us: "users_rel b Q" using m by (simp_all add: mst_def)
  note q = queue_tick [OF rel h] and rb = rem_bounds [OF rel h]
  have d: "0 \<le> d" "d \<le> i64_max" using r rb by (auto simp: d_def)
  have sub: "i64_sub (io_remaining_qty oc) d = io_remaining_qty oc - d" "i64_sub (rem b h) d = rem b h - d"
    using r rb by (auto intro!: i64_sub_id simp: in_i64_def i64_bounds d_def)
  obtain u where u: "users_apply_fill (ob_users b) (io_user_id oc) (os_user_id (ord b h)) (io_side oc) d = Some u" "users_ok u"
    "resting_of u = resting_of (ob_users b)" "ur_contains u (io_user_id oc)"
    "position_of u = moved (position_of (ob_users b)) (io_user_id oc) (os_user_id (ord b h)) (signed_qty (io_side oc) d)"
    using users_rel_fill [OF us rel in_queued [of h Q t, OF h] known d] by blast
  have e: "emit (reduce_order b h t d) (fill_event oc (ord b h) h d) =
      Some ((reduce_order b h t d)\<lparr>ob_event_buf := ob_event_buf b @ [fill_event oc (ord b h) h d]\<rparr>)"
    using ev by (subst emit_run) (simp_all add: reduce_order_def)
  have g: "slab_get (ob_orders b) h = Some (ord b h)" "index_of (ob_active_levels b) t = Some (ob_active_levels b ! t)"
    using q by (simp_all add: slab_get_def index_of_Some)
  have p: "slab_put (ob_orders b) h v = Some ((ob_orders b)\<lparr>slots := (slots (ob_orders b))[h := v]\<rparr>)" for v
    using q(5) by (simp add: slab_put_def store_at_Some)
  have z: "rem b h - d = 0 \<longleftrightarrow> d = rem b h" by auto
  have "fill_maker b t oc h =
      (let b3 = (reduce_order b h t d)\<lparr>ob_event_buf := ob_event_buf b @ [fill_event oc (ord b h) h d], ob_users := u\<rparr>;
           oc' = oc\<lparr>io_remaining_qty := io_remaining_qty oc - d\<rparr>
       in if d = rem b h then do {
            b4 \<leftarrow> unlink_order b3 h;
            done_slot \<leftarrow> slab_get (ob_orders b4) h;
            b5 \<leftarrow> emit b4 (OrderDone h (os_tif (ord b h)) (is_reduce_only (ord b h)) (os_user_id (ord b h)) Filled
              (os_original_qty done_slot) 0 (os_order_id_hi (ord b h)) (os_order_id_lo (ord b h)));
            orders2 \<leftarrow> release (ob_orders b5) h;
            users' \<leftarrow> remove_order (ob_users b5) (os_user_id (ord b h));
            Some (b5\<lparr>ob_orders := orders2, ob_users := users'\<rparr>, oc')
          } else Some (b3, oc'))"
    unfolding fill_maker_def g Option.bind.simps Let_def rem_def [symmetric] d_def [symmetric] sub p
    unfolding fill_event_def [symmetric] reduce_order_def [of b h t d, folded rem_def, symmetric] e Option.bind.simps
    using u(1) by (simp add: reduce_order_def release_def z)
  with u(2-) show ?thesis by blast
qed

lemma mstD: assumes "mst b Q F" shows "book_rel b Q F {}" "positive b Q" "users_rel b Q"
  using assms by (simp_all add: mst_def)

lemma fill_maker_ok:
  assumes m: "mst b Q F" and h: "h \<in> set (Q t)" and cr: "crosses b (io_side oc) (io_price oc) h"
    and r: "0 < io_remaining_qty oc" "io_remaining_qty oc \<le> i64_max"
    and ev: "length (ob_event_buf b) + 2 \<le> MAX_EVENTS"
    and known: "ur_contains (ob_users b) (io_user_id oc) \<or> users_room (ob_users b)"
  shows "\<exists>b' oc' d Q' F'. fill_maker b t oc h = Some (b', oc') \<and> one_fill b Q oc h d b' Q' oc' \<and> mst b' Q' F'"
proof -
  note M = mstD [OF m] and q = queue_tick [OF mstD(1) [OF m] h]
  define d where "d = min (io_remaining_qty oc) (rem b h)"
  have hq: "h \<in> queued Q" using h by (rule in_queued)
  have pos: "0 < rem b h" using M(2) hq by (simp add: positive_def rem_def)
  have dd: "0 < d" "d \<le> rem b h" using pos r(1) by (simp_all add: d_def)
  obtain u where u: "users_ok u" "resting_of u = resting_of (ob_users b)" "ur_contains u (io_user_id oc)"
    "position_of u = moved (position_of (ob_users b)) (io_user_id oc) (os_user_id (ord b h)) (signed_qty (io_side oc) d)"
    and run: "fill_maker b t oc h =
      (let b3 = (reduce_order b h t d)\<lparr>ob_event_buf := ob_event_buf b @ [fill_event oc (ord b h) h d], ob_users := u\<rparr>;
           oc' = oc\<lparr>io_remaining_qty := io_remaining_qty oc - d\<rparr>
       in if d = rem b h then do {
            b4 \<leftarrow> unlink_order b3 h;
            done_slot \<leftarrow> slab_get (ob_orders b4) h;
            b5 \<leftarrow> emit b4 (OrderDone h (os_tif (ord b h)) (is_reduce_only (ord b h)) (os_user_id (ord b h)) Filled
              (os_original_qty done_slot) 0 (os_order_id_hi (ord b h)) (os_order_id_lo (ord b h)));
            orders2 \<leftarrow> release (ob_orders b5) h;
            users' \<leftarrow> remove_order (ob_users b5) (os_user_id (ord b h));
            Some (b5\<lparr>ob_orders := orders2, ob_users := users'\<rparr>, oc')
          } else Some (b3, oc'))"
    using fill_maker_prefix [where Q = Q, OF m h r ev known, folded d_def] by (elim exE conjE) (rule that)
  let ?oc = "oc\<lparr>io_remaining_qty := io_remaining_qty oc - d\<rparr>"
  define b3 where "b3 = (reduce_order b h t d)\<lparr>ob_event_buf := ob_event_buf b @ [fill_event oc (ord b h) h d], ob_users := u\<rparr>"
  note f = reduce_order_facts [OF M(1) h, of d]
  have ord3: "ord b3 x = (if x = h then (ord b h)\<lparr>os_remaining_qty := rem b h - d\<rparr> else ord b x)" for x
    using f(1) by (simp add: b3_def rem_def)
  have rel3: "book_rel b3 Q F {}" using reduce_order_rel [OF M(1) h, of d] dd by (simp add: b3_def rem_def)
  have us3: "users_rel b3 Q"
  proof -
    have "os_user_id (ord b3 x) = os_user_id (ord b x)" for x by (simp add: ord3)
    then show ?thesis using M(3) u(1,2) by (simp add: users_rel_def b3_def)
  qed
  have fr3: "book_frame b b3" using f(2,4,5) by (simp add: book_frame_def book_sig_def b3_def)
  show ?thesis
  proof (cases "d = rem b h")
    case False
    have run': "fill_maker b t oc h = Some (b3, ?oc)" using run False by (simp add: b3_def Let_def)
    have "positive b3 Q" using M(2) dd False by (auto simp: positive_def ord3 rem_def)
    then have "mst b3 Q F" using rel3 us3 by (simp add: mst_def)
    moreover have "ob_event_buf b3 = ob_event_buf b @ fill_event oc (ord b h) h d # []" "ob_users b3 = u" by (simp_all add: b3_def)
    then have "one_fill b Q oc h d b3 Q ?oc"
      unfolding one_fill_def using False h cr dd(1) u(3,4) ord3 fr3 by (auto simp: d_def)
    ultimately show ?thesis using run' by blast
  next
    case True
    let ?Q = "Q(t := remove1 h (Q t))"
    have qd: "queued ?Q = queued Q - {h}" by (rule queued_remove [of b Q F "{}", OF M(1) h])
    obtain ls x y where un: "unlink_order b3 h = Some (b3\<lparr>ob_orders := (ob_orders b3)\<lparr>slots := unlinked (slots (ob_orders b3)) h\<rparr>,
        ob_active_levels := ls, ob_bid_occ := x, ob_ask_occ := y\<rparr>)"
      and rel4: "book_rel (b3\<lparr>ob_orders := (ob_orders b3)\<lparr>slots := unlinked (slots (ob_orders b3)) h\<rparr>,
        ob_active_levels := ls, ob_bid_occ := x, ob_ask_occ := y\<rparr>) ?Q F (insert h {})" using unlink_ok [OF rel3 h] by blast
    define b4 where "b4 = b3\<lparr>ob_orders := (ob_orders b3)\<lparr>slots := unlinked (slots (ob_orders b3)) h\<rparr>,
        ob_active_levels := ls, ob_bid_occ := x, ob_ask_occ := y\<rparr>"
    note U = unlinked_facts [of b3 Q F "{}", OF rel3 h b4_def] and un = un [folded b4_def] and rel4 = rel4 [folded b4_def]
    have oq: "os_original_qty (ord b4 h) = os_original_qty (ord b h)" using strip_eqD(8) [OF U(1)] ord3 by simp
    define b5 where "b5 = b4\<lparr>ob_event_buf := ob_event_buf b4 @ [maker_done (ord b h) h]\<rparr>"
    have ev4: "ob_event_buf b4 = ob_event_buf b @ [fill_event oc (ord b h) h d]" by (simp add: b4_def b3_def)
    have em: "emit b4 (maker_done (ord b h) h) = Some b5" using ev ev4 by (subst emit_run) (simp_all add: b5_def)
    have len4: "h < length (slots (ob_orders b4))" using detached_facts(2) [OF rel4] by simp
    have rel5: "book_rel b5 ?Q F {h}" using rel4 by (simp add: b5_def)
    have u5: "ob_users b5 = ob_users b3" using U(3) by (simp add: b5_def)
    have ord5: "ord b5 = ord b4" by (simp add: b5_def)
    have ui: "os_user_id (ord b5 z) = os_user_id (ord b3 z)" for z using strip_eqD(7) [OF U(1)] by (simp add: ord5)
    obtain o2 u2 where dr: "release (ob_orders b5) h = Some o2" "remove_order (ob_users b5) (os_user_id (ord b3 h)) = Some u2"
      "book_rel (b5\<lparr>ob_orders := o2, ob_users := u2\<rparr>) ?Q (h # F) {}" "users_rel (b5\<lparr>ob_orders := o2, ob_users := u2\<rparr>) ?Q"
      "position_of u2 = position_of (ob_users b3)" "ur_map u2 = ur_map (ob_users b3)" "\<forall>x. x \<noteq> h \<longrightarrow> slots o2 ! x = ord b5 x"
      "length (slots o2) = length (slots (ob_orders b5))"
      using drop_detached [OF rel5 us3 hq qd finite_queued [OF M(1)] u5 ui] by blast
    let ?b = "b5\<lparr>ob_orders := o2, ob_users := u2\<rparr>"
    have run': "fill_maker b t oc h = Some (?b, ?oc)"
      using run [folded b3_def] True un em dr(1,2) len4 oq ord3
      by (simp add: slab_get_def index_of_Some maker_done_def Let_def)
    have st: "strip (ord ?b z) = strip (ord b z)" if "z \<in> queued ?Q" for z
      using that dr(7) U(1) ord3 qd by (auto simp: ord5)
    then have "positive ?b ?Q" using M(2) qd strip_eqD(2) unfolding positive_def by (metis DiffD1)
    then have "mst ?b ?Q (h # F)" using dr(3,4) by (simp add: mst_def)
    moreover have "book_frame b ?b"
      using fr3 U(2,4) dr(8) by (simp add: book_frame_def book_sig_def b5_def)
    moreover have "ob_event_buf ?b = ob_event_buf b @ fill_event oc (ord b h) h d # [maker_done (ord b h) h]" by (simp add: b5_def ev4)
    moreover have "ob_users b3 = u" by (simp add: b3_def)
    ultimately have "one_fill b Q oc h d ?b ?Q ?oc"
      unfolding one_fill_def using True h cr dd(1) u(3,4) st qd dr(5,6) by (auto simp: d_def ur_contains_def)
    with run' \<open>mst ?b ?Q (h # F)\<close> show ?thesis by blast
  qed
qed

end
