(* ===== verification/Match_Loops.thy ===== *)
theory Match_Loops
  imports Match_Steps "HOL-Library.Sublist"
begin

text \<open>
  The loops of \<open>matching.rs\<close>: \<open>fill_level\<close>, \<open>match_compressed_slot\<close> and the match loop of
  \<open>process_new_order\<close> return from every well-formed book, and what they did is a run of \<open>fills\<close>.
\<close>

section \<open>What a run of fills keeps\<close>

definition core_of :: "order_slot \<Rightarrow> order_slot" where
  "core_of s = (strip s)\<lparr>os_remaining_qty := 0\<rparr>"

lemma core_of_eqD:
  assumes "core_of s = core_of t"
  shows "os_price s = os_price t" "os_side s = os_side t" "os_user_id s = os_user_id t" "os_tick_index s = os_tick_index t"
    "os_original_qty s = os_original_qty t" "os_order_id_hi s = os_order_id_hi t" "os_order_id_lo s = os_order_id_lo t"
    "on_side sd s = on_side sd t" "os_tif s = os_tif t" "os_flags s = os_flags t"
  using assms by (cases s; cases t; cases sd; simp add: core_of_def strip_def on_side_def is_buy_def)+

lemma core_of_qty [simp]: "core_of (s\<lparr>os_remaining_qty := q\<rparr>) = core_of s"
  by (cases s) (simp add: core_of_def strip_def)

lemma strip_core_of: "strip s = strip t \<Longrightarrow> core_of s = core_of t"
  by (simp add: core_of_def)

lemma subseq_remove1: "subseq (remove1 x xs) xs"
  by (induction xs) auto

lemma one_fill_facts:
  assumes "one_fill b Q oc h d b' Q' oc'"
  shows "h \<in> queued Q" "queued Q' \<subseteq> queued Q" "x \<in> queued Q - {h} \<Longrightarrow> x \<in> queued Q'"
    "x \<in> queued Q' \<Longrightarrow> core_of (ord b' x) = core_of (ord b x)"
    "x \<in> queued Q' \<Longrightarrow> rem b' x = rem b x - (if x = h then d else 0)"
    "subseq (Q' t) (Q t)" "io_remaining_qty oc' = io_remaining_qty oc - d" "0 < d" "d \<le> io_remaining_qty oc" "d \<le> rem b h"
    "io_side oc' = io_side oc" "io_price oc' = io_price oc" "io_user_id oc' = io_user_id oc" "book_frame b b'"
    "length (ob_event_buf b') \<le> length (ob_event_buf b) + 2" "crosses b (io_side oc) (io_price oc) h"
    "oc' = oc\<lparr>io_remaining_qty := io_remaining_qty oc'\<rparr>" "ur_contains (ob_users b') (io_user_id oc)"
proof -
  obtain u where u: "h \<in> set (Q u)" "Q' = (if d = rem b h then Q(u := remove1 h (Q u)) else Q)"
    and st: "\<forall>x\<in>queued Q'. strip (ord b' x) = strip (if x = h then (ord b h)\<lparr>os_remaining_qty := rem b h - d\<rparr> else ord b x)"
    using assms unfolding one_fill_def by blast
  show "h \<in> queued Q" using u(1) by (rule in_queued)
  have "set (remove1 h (Q u)) \<subseteq> set (Q u)" by (rule set_remove1_subset)
  then have "set (Q' t) \<subseteq> set (Q t)" for t unfolding u(2) by auto
  then show "queued Q' \<subseteq> queued Q" unfolding queued_def by blast
  show "x \<in> queued Q - {h} \<Longrightarrow> x \<in> queued Q'" unfolding u(2) queued_def by (auto split: if_splits)
  show "core_of (ord b' x) = core_of (ord b x)" if "x \<in> queued Q'"
    using strip_core_of [OF st [rule_format, OF that]] by (cases "x = h") simp_all
  show "rem b' x = rem b x - (if x = h then d else 0)" if "x \<in> queued Q'"
    using strip_eqD(2) [OF st [rule_format, OF that]] by (auto simp: rem_def)
  have "subseq (remove1 h (Q u)) (Q u)" by (rule subseq_remove1)
  then show "subseq (Q' t) (Q t)" unfolding u(2) by auto
qed (use assms in \<open>auto simp: one_fill_def\<close>)

lemma rem_set_best [simp]: "rem (set_best b sd t p) h = rem b h" "crosses (set_best b sd t p) s l h = crosses b s l h"
  by (simp_all add: rem_def crosses_def)

definition filled_of :: "(u32 \<times> i64) list \<Rightarrow> u32 \<Rightarrow> int" where
  "filled_of fs h = (\<Sum>f\<leftarrow>fs. if fst f = h then snd f else 0)"

text \<open>What stays the same for the taker's side: everything but the orders, the registry and the makers' best.\<close>

definition own_frame :: "side \<Rightarrow> orderbook \<Rightarrow> orderbook \<Rightarrow> bool" where
  "own_frame sd b b' \<longleftrightarrow> ob_config b' = ob_config b \<and> ob_compression b' = ob_compression b \<and> ob_state b' = ob_state b \<and>
     length (slots (ob_orders b')) = length (slots (ob_orders b)) \<and> best_tick b' sd = best_tick b sd \<and> best_px b' sd = best_px b sd"

lemma own_frame_refl [simp]: "own_frame sd b b"
  by (simp add: own_frame_def)

lemma own_frame_trans: "own_frame sd b b1 \<Longrightarrow> own_frame sd b1 b2 \<Longrightarrow> own_frame sd b b2"
  by (simp add: own_frame_def)

lemma own_frame_step: "book_frame b b' \<Longrightarrow> own_frame sd b b'"
  by (simp add: own_frame_def book_frame_def)

lemma opp_neq [simp]: "sd \<noteq> opp sd" "opp sd \<noteq> sd" "opp (opp sd) = sd"
  by (cases sd; simp)+

lemma own_frame_best [simp]: "own_frame sd b (set_best b (opp sd) t p)"
  by (cases sd) (simp_all add: own_frame_def set_best_def best_tick_def best_px_def)

lemma fills_queued: "fills b Q oc fs b' Q' oc' \<Longrightarrow> queued Q' \<subseteq> queued Q"
proof (induction rule: fills.induct)
  case (fills_step b Q oc h d b1 Q1 oc1 fs b2 Q2 oc2)
  then show ?case using one_fill_facts(2) by blast
qed simp_all

lemma fills_untouched: "fills b Q oc fs b' Q' oc' \<Longrightarrow> x \<in> queued Q \<Longrightarrow> x \<notin> fst ` set fs \<Longrightarrow> x \<in> queued Q'"
  by (induction rule: fills.induct) (auto dest: one_fill_facts(3))

lemma fills_core: "fills b Q oc fs b' Q' oc' \<Longrightarrow> x \<in> queued Q' \<Longrightarrow> core_of (ord b' x) = core_of (ord b x)"
proof (induction rule: fills.induct)
  case (fills_step b Q oc h d b1 Q1 oc1 fs b2 Q2 oc2)
  then show ?case using one_fill_facts(4) [OF fills_step(1), of x] fills_queued [OF fills_step(2)] by auto
qed simp_all

lemma fills_rem: "fills b Q oc fs b' Q' oc' \<Longrightarrow> x \<in> queued Q' \<Longrightarrow> rem b' x = rem b x - filled_of fs x"
proof (induction rule: fills.induct)
  case (fills_step b Q oc h d b1 Q1 oc1 fs b2 Q2 oc2)
  then show ?case using one_fill_facts(5) [OF fills_step(1), of x] fills_queued [OF fills_step(2)] by (auto simp: filled_of_def)
qed (simp_all add: filled_of_def)

lemma fills_subseq: "fills b Q oc fs b' Q' oc' \<Longrightarrow> subseq (Q' t) (Q t)"
  by (induction rule: fills.induct) (auto intro: subseq_order.order_trans dest: one_fill_facts(6) [where t = t])

lemma fills_taker:
  "fills b Q oc fs b' Q' oc' \<Longrightarrow> oc' = oc\<lparr>io_remaining_qty := io_remaining_qty oc - (\<Sum>f\<leftarrow>fs. snd f)\<rparr>"
proof (induction rule: fills.induct)
  case (fills_step b Q oc h d b1 Q1 oc1 fs b2 Q2 oc2)
  then show ?case using one_fill_facts(7,17) [OF fills_step(1)] by (cases oc; cases oc1) auto
qed simp_all

lemma fills_nonneg: "fills b Q oc fs b' Q' oc' \<Longrightarrow> 0 \<le> io_remaining_qty oc \<Longrightarrow> 0 \<le> io_remaining_qty oc'"
proof (induction rule: fills.induct)
  case (fills_step b Q oc h d b1 Q1 oc1 fs b2 Q2 oc2)
  then show ?case using one_fill_facts(7,9) [OF fills_step(1)] by simp
qed simp_all

lemma fills_positive: "fills b Q oc fs b' Q' oc' \<Longrightarrow> f \<in> set fs \<Longrightarrow> 0 < snd f"
  by (induction rule: fills.induct) (auto dest: one_fill_facts(8))

lemma fills_frame: "fills b Q oc fs b' Q' oc' \<Longrightarrow> own_frame (io_side oc) b b'"
proof (induction rule: fills.induct)
  case (fills_step b Q oc h d b1 Q1 oc1 fs b2 Q2 oc2)
  then show ?case using one_fill_facts(11,14) [OF fills_step(1)] own_frame_step own_frame_trans by metis
next
  case (fills_best b oc t p Q fs b2 Q2 oc2)
  then show ?case using own_frame_trans [OF own_frame_best] by blast
qed simp

lemma fills_nil: "fills b Q oc fs b' Q' oc' \<Longrightarrow> fs = [] \<Longrightarrow> Q' = Q \<and> oc' = oc \<and> ob_orders b' = ob_orders b \<and> ob_event_buf b' = ob_event_buf b \<and> ob_users b' = ob_users b"
  by (induction rule: fills.induct) simp_all

lemma fills_known:
  "fills b Q oc fs b' Q' oc' \<Longrightarrow> fs \<noteq> [] \<Longrightarrow> ur_contains (ob_users b') (io_user_id oc)"
proof (induction rule: fills.induct)
  case (fills_step b Q oc h d b1 Q1 oc1 fs b2 Q2 oc2)
  show ?case
  proof (cases "fs = []")
    case True
    then show ?thesis using fills_nil [OF fills_step.hyps(2)] one_fill_facts(18) [OF fills_step.hyps(1)] by simp
  next
    case False
    then show ?thesis using fills_step one_fill_facts(13) by metis
  qed
qed simp_all

text \<open>Every maker hit rested on the other side at a price within the taker's limit.\<close>

lemma fills_cross: "fills b Q oc fs b' Q' oc' \<Longrightarrow> (h, d) \<in> set fs \<Longrightarrow> h \<in> queued Q \<and> crosses b (io_side oc) (io_price oc) h"
proof (induction rule: fills.induct)
  case (fills_step b Q oc g e b1 Q1 oc1 fs b2 Q2 oc2)
  note F = one_fill_facts [OF fills_step(1)]
  show ?case
  proof (cases "(h, d) = (g, e)")
    case True
    then show ?thesis using F(1,16) by simp
  next
    case False
    then have IH: "h \<in> queued Q1" "crosses b1 (io_side oc) (io_price oc) h" using fills_step F(11,12) by auto
    have "core_of (ord b1 h) = core_of (ord b h)" by (rule F(4) [OF IH(1)])
    then show ?thesis using IH F(2) core_of_eqD(1,2) unfolding crosses_def by (metis subsetD)
  qed
qed simp_all

lemma fills_crosses_same:
  assumes "fills b Q oc fs b' Q' oc'" and "x \<in> queued Q'" shows "crosses b' sd limit x = crosses b sd limit x"
  using core_of_eqD(1,2) [OF fills_core [OF assms]] by (simp add: crosses_def)

lemma crosses_opposite:
  assumes "book_rel b Q F D" and "h \<in> queued Q" and "crosses b sd limit h"
  shows "on_side (opp sd) (ord b h)"
proof -
  obtain t where t: "h \<in> set (Q t)" using assms(2) by (auto simp: queued_def)
  have "os_side (ord b h) \<le> 1" using book_relD(11) [OF assms(1) t] by (simp add: slot_ok_def)
  then show ?thesis using assms(3) by (cases sd) (auto simp: crosses_def is_crossing_def on_side_def is_buy_def)
qed

lemma on_side_opp: "on_side (opp sd) s \<longleftrightarrow> \<not> on_side sd s"
  by (cases sd) (simp_all add: on_side_def)

text \<open>The taker's own side of the book is not touched.\<close>

lemma fills_own_side:
  assumes f: "fills b Q oc fs b' Q' oc'" and rel: "book_rel b Q F D"
  shows "resting b' Q' (io_side oc) = resting b Q (io_side oc)" "resting b' Q' sd \<subseteq> resting b Q sd"
proof -
  have same: "on_side sd (ord b' x) = on_side sd (ord b x)" if "x \<in> queued Q'" for x sd
    using core_of_eqD(8) [OF fills_core [OF f that]] .
  show "resting b' Q' sd \<subseteq> resting b Q sd" for sd using same fills_queued [OF f] unfolding resting_def by auto
  moreover have "x \<in> queued Q'" if "x \<in> queued Q" "on_side (io_side oc) (ord b x)" for x
  proof (rule fills_untouched [OF f that(1)])
    show "x \<notin> fst ` set fs"
    proof
      assume "x \<in> fst ` set fs"
      then obtain d where "(x, d) \<in> set fs" by auto
      then have "on_side (opp (io_side oc)) (ord b x)" using fills_cross [OF f] crosses_opposite [OF rel] by blast
      with that(2) show False by (simp add: on_side_opp)
    qed
  qed
  ultimately show "resting b' Q' (io_side oc) = resting b Q (io_side oc)" using same unfolding resting_def by auto
qed

lemma fills_best_own:
  assumes f: "fills b Q oc fs b' Q' oc'" and rel: "book_rel b Q F D" and best: "best_ok b Q (io_side oc)"
  shows "best_ok b' Q' (io_side oc)"
proof -
  have "best_ok b' Q' (io_side oc) = best_ok b Q (io_side oc)"
  proof (rule best_ok_transfer [OF fills_own_side(1) [OF f rel]])
    fix h assume "h \<in> resting b Q (io_side oc)"
    then have "h \<in> queued Q'" using fills_own_side(1) [OF f rel] by (auto simp: resting_def)
    from core_of_eqD(1) [OF fills_core [OF f this]] show "os_price (ord b' h) = os_price (ord b h)" .
  qed (use fills_frame [OF f] in \<open>auto simp: own_frame_def\<close>)
  with best show ?thesis by simp
qed

text \<open>A run that leaves the taker with something to buy has removed every maker it hit.\<close>

lemma one_fill_removes:
  assumes "one_fill b Q oc h d b' Q' oc'" and "book_rel b Q F D" and "0 < io_remaining_qty oc'"
  shows "queued Q' = queued Q - {h}"
proof -
  obtain t where t: "h \<in> set (Q t)" "Q' = (if d = rem b h then Q(t := remove1 h (Q t)) else Q)"
    and d: "d = min (io_remaining_qty oc) (rem b h)" using assms(1) unfolding one_fill_def by blast
  have "d = rem b h" using d assms(3) one_fill_facts(7) [OF assms(1)] by (auto simp: min_def split: if_splits)
  then show ?thesis using t queued_remove [OF assms(2) t(1)] by simp
qed

lemma fills_shrink:
  "fills b Q oc fs b' Q' oc' \<Longrightarrow> fs \<noteq> [] \<Longrightarrow> book_rel b Q F D \<Longrightarrow> 0 < io_remaining_qty oc' \<Longrightarrow> card (queued Q') < card (queued Q)"
proof (induction rule: fills.induct)
  case (fills_step b Q oc h d b1 Q1 oc1 fs b2 Q2 oc2)
  have "0 \<le> (\<Sum>f\<leftarrow>fs. snd f)" using fills_positive [OF fills_step(2)] by (fastforce intro!: sum_list_nonneg simp: less_imp_le)
  then have "0 < io_remaining_qty oc1" using fills_taker [OF fills_step(2)] fills_step.prems(3) by simp
  from one_fill_removes [OF fills_step(1) fills_step.prems(2) this] have "queued Q1 = queued Q - {h}" .
  moreover have "h \<in> queued Q" by (rule one_fill_facts(1) [OF fills_step(1)])
  ultimately have "queued Q2 \<subset> queued Q" using fills_queued [OF fills_step(2)] by blast
  then show ?case using finite_queued [OF fills_step.prems(2)] by (rule psubset_card_mono [rotated])
qed simp_all

section \<open>The fill loop of a slot\<close>

text \<open>What the loops need of the taker and of the event buffer.\<close>

definition taker_ok :: "orderbook \<Rightarrow> incoming_order \<Rightarrow> bool" where
  "taker_ok b oc \<longleftrightarrow> 0 \<le> io_remaining_qty oc \<and> io_remaining_qty oc \<le> i64_max \<and>
     (ur_contains (ob_users b) (io_user_id oc) \<or> users_room (ob_users b)) \<and>
     length (ob_event_buf b) \<le> 2 * MAX_MAKERS_PER_ORDER + 1"

definition within :: "side \<Rightarrow> i64 \<Rightarrow> i64 \<Rightarrow> bool" where
  "within sd limit price \<longleftrightarrow> (case sd of Buy \<Rightarrow> limit \<le> price | Sell \<Rightarrow> price \<le> limit)"

lemma crosses_within: "crosses b sd limit h \<Longrightarrow> within sd limit price \<Longrightarrow> crosses b sd price h"
  by (cases sd) (auto simp: crosses_def is_crossing_def within_def)

lemma taker_ok_step:
  assumes "taker_ok b oc" and "one_fill b Q oc h d b' Q' oc'" and "\<not> is_budget_spent b"
  shows "taker_ok b' oc'"
  using one_fill_facts(7,8,9,13,15,18) [OF assms(2)] assms(1,3)
  by (auto simp: taker_ok_def is_budget_spent_def)

text \<open>Nothing left to do in the slot: the taker is done, the budget is, or no maker within the limit is left.\<close>

definition exhausted :: "orderbook \<Rightarrow> queues \<Rightarrow> incoming_order \<Rightarrow> i64 \<Rightarrow> nat \<Rightarrow> bool" where
  "exhausted b Q oc limit t \<longleftrightarrow> io_remaining_qty oc = 0 \<or> is_budget_spent b \<or>
     (\<forall>h\<in>set (Q t). \<not> crosses b (io_side oc) limit h)"

lemma seg_next:
  assumes "book_rel b Q F D" and "Q t = as @ h # bs"
  shows "os_next (ord b h) = first bs NONE"
proof -
  have "seg (slots (ob_orders b)) NONE (as @ h # bs) NONE"
    using level_at [OF assms(1), of h t] assms(2) by (simp add: level_ok_def)
  from seg_ends(2) [OF this] show ?thesis .
qed

lemma fill_from_stop:
  assumes "cursor = NONE \<or> io_remaining_qty oc \<le> 0 \<or> is_budget_spent b"
  shows "fill_from t limit b oc cursor = Some (b, oc)"
  using assms by (subst fill_from.simps) auto

lemma fill_from_ok:
  assumes "mst b Q F" and "Q t = as @ bs" and "taker_ok b oc" and "within (io_side oc) limit (io_price oc)"
    and "\<forall>h\<in>set as. \<not> crosses b (io_side oc) limit h"
  shows "\<exists>b' oc' fs Q' F'. fill_from t limit b oc (first bs NONE) = Some (b', oc') \<and>
    fills b Q oc fs b' Q' oc' \<and> mst b' Q' F' \<and> taker_ok b' oc' \<and> exhausted b' Q' oc' limit t \<and>
    (\<forall>f\<in>set fs. crosses b (io_side oc) limit (fst f) \<and> fst f \<in> set bs)"
  using assms
proof (induction bs arbitrary: b Q F oc as)
  case Nil
  then show ?case by (intro exI [of _ b] exI [of _ oc] exI [of _ "[]"] exI [of _ Q] exI [of _ F])
    (auto simp: fill_from_stop fills_none exhausted_def)
next
  case (Cons h bs)
  note M = mstD [OF Cons.prems(1)]
  have h: "h \<in> set (Q t)" "h \<noteq> NONE" using Cons.prems(2) queue_tick(6) [OF M(1), of h t] by auto
  show ?case
  proof (cases "io_remaining_qty oc \<le> 0 \<or> is_budget_spent b")
    case True
    then have "exhausted b Q oc limit t" using Cons.prems(3) by (auto simp: exhausted_def taker_ok_def)
    with True Cons.prems(1,3) show ?thesis
      by (intro exI [of _ b] exI [of _ oc] exI [of _ "[]"] exI [of _ Q] exI [of _ F]) (auto simp: fill_from_stop fills_none)
  next
    case False
    have get: "slab_get (ob_orders b) h = Some (ord b h)" using queue_tick(5) [OF M(1) h(1)] by (simp add: slab_get_def index_of_Some)
    have nx: "os_next (ord b h) = first bs NONE" by (rule seg_next [OF M(1) Cons.prems(2)])
    show ?thesis
    proof (cases "crosses b (io_side oc) limit h")
      case no: False
      have run: "fill_from t limit b oc h = fill_from t limit b oc (first bs NONE)"
        using False no get nx h(2) by (subst fill_from.simps) (simp add: crosses_def)
      have "Q t = (as @ [h]) @ bs" "\<forall>x\<in>set (as @ [h]). \<not> crosses b (io_side oc) limit x" using Cons.prems(2,5) no by auto
      from Cons.IH [OF Cons.prems(1) this(1) Cons.prems(3,4) this(2)] show ?thesis
        unfolding first.simps(2) run list.set(2) by blast
    next
      case yes: True
      have r: "0 < io_remaining_qty oc" "io_remaining_qty oc \<le> i64_max" using False Cons.prems(3) by (auto simp: taker_ok_def)
      have ev: "length (ob_event_buf b) + 2 \<le> MAX_EVENTS"
        using False by (simp add: is_budget_spent_def MAX_MAKERS_PER_ORDER_def MAX_EVENTS_def)
      obtain b1 oc1 d Q1 F1 where one: "fill_maker b t oc h = Some (b1, oc1)" "one_fill b Q oc h d b1 Q1 oc1" "mst b1 Q1 F1"
        using fill_maker_ok [OF Cons.prems(1) h(1) crosses_within [OF yes Cons.prems(4)] r ev] Cons.prems(3)
        unfolding taker_ok_def by blast
      note O = one_fill_facts [OF one(2)]
      have tk: "taker_ok b1 oc1" using taker_ok_step [OF Cons.prems(3) one(2)] False by blast
      have run: "fill_from t limit b oc h = fill_from t limit b1 oc1 (first bs NONE)"
        using False yes get nx h(2) one(1) by (subst fill_from.simps) (simp add: crosses_def)
      have cs: "crosses b1 sd l x = crosses b sd l x" if "x \<in> queued Q1" for x sd l
        using core_of_eqD(1,2) [OF O(4) [OF that]] by (simp add: crosses_def)
      show ?thesis
      proof (cases "io_remaining_qty oc1 = 0")
        case True
        then have "fill_from t limit b oc h = Some (b1, oc1)" using run fill_from_stop by simp
        with True yes one(2,3) tk show ?thesis
          by (intro exI [of _ b1] exI [of _ oc1] exI [of _ "[(h, d)]"] exI [of _ Q1] exI [of _ F1])
            (auto simp: exhausted_def intro: fills_step fills_none)
      next
        case rest: False
        then have gone: "queued Q1 = queued Q - {h}" using one_fill_removes [OF one(2) M(1)] tk by (auto simp: taker_ok_def)
        have Q1: "Q1 t = as @ bs"
        proof -
          obtain u where u: "h \<in> set (Q u)" "Q1 = (if d = rem b h then Q(u := remove1 h (Q u)) else Q)"
            using one(2) unfolding one_fill_def by blast
          have "u = t" using queues_disjoint [OF M(1) u(1) h(1)] .
          moreover have "h \<in> queued Q" by (rule O(1))
          ultimately have "Q1 = Q(t := remove1 h (Q t))" using u gone by (auto split: if_splits)
          then show ?thesis using Cons.prems(2) book_relD(10) [OF M(1), of t] by (simp add: remove1_append)
        qed
        have qx: "x \<in> queued Q1" if "x \<in> set as \<union> set bs" for x using that in_queued [of x Q1 t] Q1 by auto
        have "\<forall>x\<in>set as. \<not> crosses b1 (io_side oc1) limit x" using Cons.prems(5) cs qx O(11) by auto
        then obtain b2 oc2 fs Q2 F2 where r2: "fill_from t limit b1 oc1 (first bs NONE) = Some (b2, oc2)"
          "fills b1 Q1 oc1 fs b2 Q2 oc2" "mst b2 Q2 F2" "taker_ok b2 oc2" "exhausted b2 Q2 oc2 limit t"
          "\<forall>f\<in>set fs. crosses b1 (io_side oc1) limit (fst f) \<and> fst f \<in> set bs"
          using Cons.IH [OF one(3) Q1 tk] Cons.prems(4) O(11,12) by auto
        have "\<forall>f\<in>set ((h, d) # fs). crosses b (io_side oc) limit (fst f) \<and> fst f \<in> set (h # bs)"
          using r2(6) yes cs qx O(11) by auto
        moreover have "fills b Q oc ((h, d) # fs) b2 Q2 oc2" using one(2) r2(2) by (rule fills_step)
        ultimately show ?thesis using r2 run by (metis first.simps(2))
      qed
    qed
  qed
qed

lemma fill_level_ok:
  assumes "mst b Q F" and "t < length (ob_active_levels b)" and "taker_ok b oc" and "within (io_side oc) limit (io_price oc)"
  shows "\<exists>b' oc' fs Q' F'. fill_level b t oc limit = Some (b', oc') \<and>
    fills b Q oc fs b' Q' oc' \<and> mst b' Q' F' \<and> taker_ok b' oc' \<and> exhausted b' Q' oc' limit t \<and>
    (\<forall>f\<in>set fs. crosses b (io_side oc) limit (fst f) \<and> fst f \<in> set (Q t))"
proof -
  have "pl_head (ob_active_levels b ! t) = first (Q t) NONE"
    using book_relD(9) [OF mstD(1) [OF assms(1)] assms(2)] by (simp add: level_ok_def)
  then have "fill_level b t oc limit = fill_from t limit b oc (first (Q t) NONE)"
    using assms(2) by (simp add: fill_level_def index_of_Some)
  with fill_from_ok [OF assms(1), of t "[]" "Q t" oc limit] assms(3,4) show ?thesis by simp
qed

section \<open>Compressed slots\<close>

definition crossers :: "orderbook \<Rightarrow> queues \<Rightarrow> incoming_order \<Rightarrow> nat \<Rightarrow> u32 list" where
  "crossers b Q oc t = filter (\<lambda>h. crosses b (io_side oc) (io_price oc) h) (Q t)"

text \<open>What \<open>scan_crossing\<close> computes.\<close>

definition scan_spec :: "orderbook \<Rightarrow> incoming_order \<Rightarrow> u32 list \<Rightarrow> crossing \<Rightarrow> bool" where
  "scan_spec b oc hs cr \<longleftrightarrow> cr_makers cr = length hs \<and> cr_qty cr = qty_sum (slots (ob_orders b)) hs \<and>
     within (io_side oc) (cr_best_price cr) (io_price oc) \<and>
     (\<forall>h\<in>set hs. better (opp (io_side oc)) (cr_best_price cr) (os_price (ord b h))) \<and>
     (if hs = [] then cr_best_price cr = io_price oc else \<exists>h\<in>set hs. os_price (ord b h) = cr_best_price cr)"

lemma scan_fold:
  assumes "\<forall>h\<in>set hs. 0 \<le> rem b h" and "qty_sum (slots (ob_orders b)) hs \<le> i64_max"
  shows "scan_spec b oc (filter (\<lambda>h. crosses b (io_side oc) (io_price oc) h) hs)
    (fold (\<lambda>h. crossing_step oc (ord b h)) hs \<lparr>cr_best_price = io_price oc, cr_qty = 0, cr_makers = 0\<rparr>)"
  using assms
proof (induction hs rule: rev_induct)
  case Nil
  then show ?case by (cases "io_side oc") (simp_all add: scan_spec_def within_def)
next
  case (snoc h hs)
  let ?i = "\<lparr>cr_best_price = io_price oc, cr_qty = 0, cr_makers = 0\<rparr>"
  define cr where "cr = fold (\<lambda>h. crossing_step oc (ord b h)) hs ?i"
  have step: "fold (\<lambda>h. crossing_step oc (ord b h)) (hs @ [h]) ?i = crossing_step oc (ord b h) cr" by (simp add: cr_def)
  let ?P = "\<lambda>h. crosses b (io_side oc) (io_price oc) h"
  have pos: "\<forall>h\<in>set hs. 0 \<le> os_remaining_qty (ord b h)" "0 \<le> rem b h" using snoc.prems(1) by (auto simp: rem_def)
  have IH: "scan_spec b oc (filter ?P hs) cr"
    unfolding cr_def by (rule snoc.IH) (use snoc.prems in \<open>auto simp: rem_def\<close>)
  show ?case
  proof (cases "?P h")
    case False
    then show ?thesis using IH unfolding step by (simp add: crossing_step_def crosses_def)
  next
    case True
    have "qty_sum (slots (ob_orders b)) (filter ?P hs) + rem b h \<le> i64_max"
      using qty_sum_le(2) [OF pos(1), of ?P] snoc.prems(2) by (simp add: rem_def)
    then have "i64_add (qty_sum (slots (ob_orders b)) (filter ?P hs)) (rem b h) = qty_sum (slots (ob_orders b)) (filter ?P hs) + rem b h"
      using qty_sum_le(1) [OF pos(1), of ?P] pos(2) by (intro i64_add_id) (simp add: in_i64_def i64_bounds)
    moreover have "is_crossing (os_side (ord b h)) (os_price (ord b h)) (io_side oc) (io_price oc)" using True by (simp add: crosses_def)
    moreover have "within (io_side oc) (os_price (ord b h)) (io_price oc)" using calculation(2) by (cases "io_side oc") (auto simp: is_crossing_def within_def)
    ultimately show ?thesis using IH True unfolding step
      by (cases "io_side oc"; cases "filter ?P hs = []")
        (auto simp: scan_spec_def crossing_step_def rem_def within_def better_def min_def max_def)
  qed
qed

lemma scan_crossing_ok:
  assumes "book_rel b Q F D" and "t < length (ob_active_levels b)"
  shows "\<exists>cr. scan_crossing b t oc = Some cr \<and> scan_spec b oc (crossers b Q oc t) cr"
proof -
  note lo = book_relD(9) [OF assms]
  have "scan_crossing b t oc =
    Some (fold (\<lambda>h. crossing_step oc (ord b h)) (Q t) \<lparr>cr_best_price = io_price oc, cr_qty = 0, cr_makers = 0\<rparr>)"
    using walk_seg [of "slots (ob_orders b)" NONE "Q t"] lo queue_set_facts [OF assms(1), of t] assms(2)
    by (simp add: scan_crossing_def index_of_Some level_ok_def)
  moreover have "\<forall>h\<in>set (Q t). 0 \<le> rem b h" using rem_bounds(1) [OF assms(1)] by blast
  ultimately show ?thesis using scan_fold [of "Q t" b oc] lo by (simp add: level_ok_def crossers_def)
qed

lemma levels_same: "mst b Q F \<Longrightarrow> mst b' Q' F' \<Longrightarrow> own_frame sd b b' \<Longrightarrow> length (ob_active_levels b') = length (ob_active_levels b)"
  using book_relD(4) by (metis mstD(1) own_frame_def)

lemma match_best_first_ok:
  assumes "mst b Q F" and "t < length (ob_active_levels b)" and "taker_ok b oc" and "0 < io_remaining_qty oc"
    and "scan_spec b oc (crossers b Q oc t) cr"
  shows "\<exists>b' oc' fs Q' F'. match_best_first t b oc cr = Some (b', oc') \<and>
    fills b Q oc fs b' Q' oc' \<and> mst b' Q' F' \<and> taker_ok b' oc' \<and> exhausted b' Q' oc' (io_price oc) t"
  using assms
proof (induction "card (queued Q)" arbitrary: b Q F oc cr rule: less_induct)
  case less
  note M = mstD [OF less.prems(1)]
  show ?case
  proof (cases "cr_makers cr > 0")
    case False
    then have "crossers b Q oc t = []" using less.prems(5) by (auto simp: scan_spec_def)
    then have "exhausted b Q oc (io_price oc) t" by (auto simp: exhausted_def crossers_def filter_empty_conv)
    with False less.prems(1,3) show ?thesis
      by (intro exI [of _ b] exI [of _ oc] exI [of _ "[]"] exI [of _ Q] exI [of _ F]) (subst match_best_first.simps, auto intro: fills_none)
  next
    case True
    let ?l = "cr_best_price cr"
    have w: "within (io_side oc) ?l (io_price oc)" using less.prems(5) by (simp add: scan_spec_def)
    obtain b1 oc1 fs Q1 F1 where r: "fill_level b t oc ?l = Some (b1, oc1)" "fills b Q oc fs b1 Q1 oc1" "mst b1 Q1 F1"
      "taker_ok b1 oc1" "exhausted b1 Q1 oc1 ?l t" using fill_level_ok [OF less.prems(1-3) w] by blast
    have oc1: "io_side oc1 = io_side oc" "io_price oc1 = io_price oc" using fills_taker [OF r(2)] by simp_all
    show ?thesis
    proof (cases "io_remaining_qty oc1 = 0 \<or> is_budget_spent b1")
      case fin: True
      then have "match_best_first t b oc cr = Some (b1, oc1)" using True r(1) by (subst match_best_first.simps) simp
      moreover have "exhausted b1 Q1 oc1 (io_price oc) t" using fin by (auto simp: exhausted_def)
      ultimately show ?thesis using r by blast
    next
      case more: False
      have pos: "0 < io_remaining_qty oc1" using more r(4) by (auto simp: taker_ok_def)
      have "fs \<noteq> []"
      proof
        assume "fs = []"
        then have same: "ord b1 h = ord b h" "Q1 = Q" "oc1 = oc" for h using fills_nil [OF r(2)] by auto
        obtain h where h: "h \<in> set (crossers b Q oc t)" "os_price (ord b h) = ?l"
          using True less.prems(5) by (auto simp: scan_spec_def)
        then have "crosses b (io_side oc) ?l h" "h \<in> set (Q t)"
          by (cases "io_side oc"; auto simp: crossers_def crosses_def is_crossing_def)+
        then show False using r(5) more same by (auto simp: exhausted_def crosses_def)
      qed
      then have "card (queued Q1) < card (queued Q)" using fills_shrink [OF r(2) _ M(1) pos] by blast
      moreover have t1: "t < length (ob_active_levels b1)" using levels_same [OF less.prems(1) r(3) fills_frame [OF r(2)]] less.prems(2) by simp
      moreover obtain cr1 where cr1: "scan_crossing b1 t oc1 = Some cr1" "scan_spec b1 oc1 (crossers b1 Q1 oc1 t) cr1"
        using scan_crossing_ok [OF mstD(1) [OF r(3)] t1] by blast
      ultimately obtain b2 oc2 gs Q2 F2 where r2: "match_best_first t b1 oc1 cr1 = Some (b2, oc2)" "fills b1 Q1 oc1 gs b2 Q2 oc2"
        "mst b2 Q2 F2" "taker_ok b2 oc2" "exhausted b2 Q2 oc2 (io_price oc) t"
        using less.hyps [of Q1 b1 F1 oc1 cr1] r(3,4) pos oc1 by auto
      have "match_best_first t b oc cr = Some (b2, oc2)"
        using True more r(1) cr1(1) r2(1) by (subst match_best_first.simps) simp
      with r2 fills_append [OF r(2) r2(2)] show ?thesis by blast
    qed
  qed
qed

lemma match_at_level_ok:
  assumes m: "mst b Q F" and t: "t < length (ob_active_levels b)" and tk: "taker_ok b oc" and r: "0 < io_remaining_qty oc"
  shows "\<exists>b' oc' fs Q' F'. match_at_level b t oc = Some (b', oc') \<and>
    fills b Q oc fs b' Q' oc' \<and> mst b' Q' F' \<and> taker_ok b' oc' \<and> exhausted b' Q' oc' (io_price oc) t"
proof -
  have w: "within (io_side oc) (io_price oc) (io_price oc)" by (cases "io_side oc") (simp_all add: within_def)
  note direct = fill_level_ok [OF m t tk w]
  obtain cr where cr: "scan_crossing b t oc = Some cr" "scan_spec b oc (crossers b Q oc t) cr"
    using scan_crossing_ok [OF mstD(1) [OF m] t] by blast
  consider "match_at_level b t oc = fill_level b t oc (io_price oc)" | "match_at_level b t oc = match_best_first t b oc cr"
    using cr(1) by (cases "t < cp_zone_slots (ob_compression b) ! 0";
      cases "cr_qty cr \<le> io_remaining_qty oc \<and> cr_makers cr \<le> MAX_MAKERS_PER_ORDER - length (ob_event_buf b) div 2")
      (simp_all add: match_at_level_def match_compressed_slot_def Let_def)
  then show ?thesis
  proof cases
    case 1
    then show ?thesis using direct by metis
  next
    case 2
    then show ?thesis using match_best_first_ok [OF m t tk r cr(2)] by metis
  qed
qed

end
