(* ===== verification/Match_Account.thy ===== *)
theory Match_Account
  imports Match_Loops
begin

text \<open>
  The books of a run of fills: quantity leaves the makers exactly as it leaves the taker, the event
  buffer is a faithful log of the run, and positions move between taker and makers.
\<close>

section \<open>Quantity\<close>

text \<open>Every order is on one queue, once.\<close>

definition linear :: "queues \<Rightarrow> bool" where
  "linear Q \<longleftrightarrow> (\<forall>t. distinct (Q t)) \<and> (\<forall>h t u. h \<in> set (Q t) \<longrightarrow> h \<in> set (Q u) \<longrightarrow> t = u)"

lemma book_rel_linear: "book_rel b Q F D \<Longrightarrow> linear Q"
  using book_relD(10) queues_disjoint unfolding linear_def by blast

lemma linear_remove:
  assumes "linear Q" and "h \<in> set (Q t)"
  shows "queued (Q(t := remove1 h (Q t))) = queued Q - {h}" "linear (Q(t := remove1 h (Q t)))"
  using assms unfolding linear_def queued_def by (auto split: if_splits)+

lemma one_fill_linear:
  assumes "one_fill b Q oc h d b' Q' oc'" and "linear Q"
  shows "linear Q'" "queued Q' = (if d = rem b h then queued Q - {h} else queued Q)"
proof -
  obtain t where t: "h \<in> set (Q t)" "Q' = (if d = rem b h then Q(t := remove1 h (Q t)) else Q)"
    using assms(1) unfolding one_fill_def by blast
  show "linear Q'" "queued Q' = (if d = rem b h then queued Q - {h} else queued Q)"
    using linear_remove [OF assms(2) t(1)] assms(2) unfolding t(2) by simp_all
qed

definition resting_qty :: "orderbook \<Rightarrow> queues \<Rightarrow> int" where
  "resting_qty b Q = (\<Sum>h\<in>queued Q. rem b h)"

definition total_filled :: "(u32 \<times> i64) list \<Rightarrow> int" where
  "total_filled fs = (\<Sum>f\<leftarrow>fs. snd f)"

lemma total_filled_simps [simp]:
  "total_filled [] = 0" "total_filled (f # fs) = snd f + total_filled fs"
  "total_filled (fs @ gs) = total_filled fs + total_filled gs"
  by (simp_all add: total_filled_def)

lemma one_fill_qty:
  assumes "one_fill b Q oc h d b' Q' oc'" and "linear Q" and "finite (queued Q)"
  shows "resting_qty b' Q' + d = resting_qty b Q"
proof -
  note f = one_fill_facts [OF assms(1)] and q = one_fill_linear(2) [OF assms(1,2)]
  have hq: "h \<in> queued Q" by (rule f(1))
  have oth: "(\<Sum>x\<in>queued Q - {h}. rem b' x) = (\<Sum>x\<in>queued Q - {h}. rem b x)"
    by (rule sum.cong) (use f(3,5) in auto)
  have all: "(\<Sum>x\<in>queued Q. rem b x) = rem b h + (\<Sum>x\<in>queued Q - {h}. rem b x)"
    by (rule sum.remove [OF assms(3) hq])
  show ?thesis
  proof (cases "d = rem b h")
    case True
    then show ?thesis using q all oth by (simp add: resting_qty_def)
  next
    case False
    then have Q': "queued Q' = queued Q" using q by simp
    have "(\<Sum>x\<in>queued Q. rem b' x) = rem b' h + (\<Sum>x\<in>queued Q - {h}. rem b' x)"
      by (rule sum.remove [OF assms(3) hq])
    then show ?thesis using all oth f(5) [of h] hq Q' by (simp add: resting_qty_def)
  qed
qed

lemma resting_qty_best [simp]: "resting_qty (set_best b sd t p) Q = resting_qty b Q"
  by (simp add: resting_qty_def)

lemma fills_qty:
  "fills b Q oc fs b' Q' oc' \<Longrightarrow> linear Q \<Longrightarrow> finite (queued Q) \<Longrightarrow>
    resting_qty b' Q' + total_filled fs = resting_qty b Q \<and> linear Q'"
proof (induction rule: fills.induct)
  case (fills_step b Q oc h d b1 Q1 oc1 fs b2 Q2 oc2)
  have "finite (queued Q1)" using one_fill_facts(2) [OF fills_step(1)] fills_step.prems(2) finite_subset by blast
  then show ?case using fills_step.IH one_fill_qty [OF fills_step(1) fills_step.prems] one_fill_linear(1) [OF fills_step(1) fills_step.prems(1)]
    by simp
qed simp_all

text \<open>A maker that leaves the book was filled for all it had; one that stays, for what it lost.\<close>

lemma filled_of_simps [simp]: "filled_of [] h = 0" "filled_of (f # fs) h = (if fst f = h then snd f else 0) + filled_of fs h"
  "filled_of (fs @ gs) h = filled_of fs h + filled_of gs h"
  by (simp_all add: filled_of_def)

lemma filled_of_none: "h \<notin> fst ` set fs \<Longrightarrow> filled_of fs h = 0"
  by (induction fs) auto

lemma fills_gone:
  "fills b Q oc fs b' Q' oc' \<Longrightarrow> linear Q \<Longrightarrow> x \<in> queued Q \<Longrightarrow> x \<notin> queued Q' \<Longrightarrow> filled_of fs x = rem b x"
proof (induction rule: fills.induct)
  case (fills_step b Q oc h d b1 Q1 oc1 fs b2 Q2 oc2)
  note f = one_fill_facts [OF fills_step(1)] and q = one_fill_linear [OF fills_step(1) fills_step.prems(1)]
  show ?case
  proof (cases "x \<in> queued Q1")
    case True
    then show ?thesis using fills_step.IH [OF q(1)] fills_step.prems(3) f(5) [of x] by auto
  next
    case False
    then have "x = h" "d = rem b h" using f(3) [of x] q(2) fills_step.prems(2) by (auto split: if_splits)
    moreover have "h \<notin> fst ` set fs" using fills_cross [OF fills_step(2)] False \<open>x = h\<close> by force
    ultimately show ?thesis by (simp add: filled_of_none)
  qed
qed simp_all

lemma rem_nonneg: "book_rel b Q F D \<Longrightarrow> h \<in> queued Q \<Longrightarrow> 0 \<le> rem b h"
  using rem_bounds(1) by (auto simp: queued_def)

lemma level_le_resting:
  assumes "book_rel b Q F D" shows "qty_sum (slots (ob_orders b)) (Q t) \<le> resting_qty b Q"
proof -
  have "qty_sum (slots (ob_orders b)) (Q t) = (\<Sum>h\<in>set (Q t). rem b h)"
    unfolding qty_sum_def rem_def by (rule sum_list_distinct_conv_sum_set [OF book_relD(10) [OF assms]])
  also have "\<dots> \<le> resting_qty b Q" unfolding resting_qty_def
    by (rule sum_mono2) (use finite_queued [OF assms] rem_nonneg [OF assms] in \<open>auto simp: queued_def\<close>)
  finally show ?thesis .
qed

section \<open>Room in the slab\<close>

lemma room_iff:
  assumes "book_rel b Q F {}" and "card (queued Q) < length (slots (ob_orders b))"
  shows "F \<noteq> [] \<or> bump_next (ob_orders b) < length (slots (ob_orders b))"
proof (cases "F = []")
  case True
  then have "queued Q = {..<bump_next (ob_orders b)}" using book_relD(12) [OF assms(1)] by simp
  then show ?thesis using assms(2) by simp
qed simp

lemma fills_card: "fills b Q oc fs b' Q' oc' \<Longrightarrow> finite (queued Q) \<Longrightarrow> card (queued Q') \<le> card (queued Q)"
  by (rule card_mono [OF _ fills_queued])

section \<open>The event log\<close>

definition fill_log :: "event list \<Rightarrow> (u32 \<times> i64) list" where
  "fill_log es = map (\<lambda>e. (fill_maker_handle e, fill_qty e)) (filter is_Fill es)"

lemma fill_log_simps [simp]:
  "fill_log [] = []" "fill_log (e # es) = (if is_Fill e then [(fill_maker_handle e, fill_qty e)] else []) @ fill_log es"
  "fill_log (es @ es') = fill_log es @ fill_log es'"
  by (simp_all add: fill_log_def)

text \<open>What a fill or a maker's completion reports, against the book before the run.\<close>

definition maker_event :: "orderbook \<Rightarrow> queues \<Rightarrow> incoming_order \<Rightarrow> event \<Rightarrow> bool" where
  "maker_event b Q oc e \<longleftrightarrow> (case e of
     Fill h tif ro mu tu px d sd mhi mlo thi tlo ts \<Rightarrow>
       h \<in> queued Q \<and> crosses b (io_side oc) (io_price oc) h \<and> 0 < d \<and> px = os_price (ord b h) \<and> mu = os_user_id (ord b h) \<and>
       mhi = os_order_id_hi (ord b h) \<and> mlo = os_order_id_lo (ord b h) \<and> tu = io_user_id oc \<and> sd = side_u8 (io_side oc) \<and>
       thi = io_order_id_hi oc \<and> tlo = io_order_id_lo oc \<and> ts = io_timestamp_ns oc
   | OrderDone h tif ro u reason fq rq hi lo \<Rightarrow>
       h \<in> queued Q \<and> u = os_user_id (ord b h) \<and> reason = Filled \<and> fq = os_original_qty (ord b h) \<and> rq = 0 \<and>
       hi = os_order_id_hi (ord b h) \<and> lo = os_order_id_lo (ord b h)
   | _ \<Rightarrow> False)"

lemma maker_event_back:
  assumes "maker_event b1 Q1 oc1 e" and "queued Q1 \<subseteq> queued Q"
    and "\<And>x. x \<in> queued Q1 \<Longrightarrow> core_of (ord b1 x) = core_of (ord b x)" and "oc1 = oc\<lparr>io_remaining_qty := q\<rparr>"
  shows "maker_event b Q oc e"
  using assms(1,2,4) core_of_eqD [OF assms(3)]
  by (cases e) (auto simp: maker_event_def crosses_def)

lemma fills_events:
  "fills b Q oc fs b' Q' oc' \<Longrightarrow>
    \<exists>es. ob_event_buf b' = ob_event_buf b @ es \<and> fill_log es = fs \<and> (\<forall>e\<in>set es. maker_event b Q oc e)"
proof (induction rule: fills.induct)
  case (fills_step b Q oc h d b1 Q1 oc1 fs b2 Q2 oc2)
  note f = one_fill_facts [OF fills_step(1)]
  obtain es where es: "ob_event_buf b2 = ob_event_buf b1 @ es" "fill_log es = fs" "\<forall>e\<in>set es. maker_event b1 Q1 oc1 e"
    using fills_step.IH by blast
  define e0 where "e0 = fill_event oc (ord b h) h d # (if d = rem b h then [maker_done (ord b h) h] else [])"
  have "ob_event_buf b1 = ob_event_buf b @ e0" using fills_step(1) unfolding one_fill_def e0_def by blast
  moreover have "maker_event b Q oc e" if "e \<in> set e0" for e
    using that f(1,8,16) by (auto simp: e0_def maker_event_def fill_event_def maker_done_def split: if_splits)
  moreover have "maker_event b Q oc e" if "e \<in> set es" for e
    using maker_event_back [OF es(3) [rule_format, OF that] f(2) f(4) f(17)] .
  moreover have "fill_log e0 = [(h, d)]" by (simp add: e0_def fill_event_def maker_done_def)
  ultimately show ?case using es(1,2) by (intro exI [of _ "e0 @ es"]) auto
next
  case (fills_best b oc t p Q fs b2 Q2 oc2)
  then show ?case by (simp add: maker_event_def cong: event.case_cong)
qed simp

section \<open>Positions\<close>

definition settle :: "orderbook \<Rightarrow> incoming_order \<Rightarrow> u32 \<times> i64 \<Rightarrow> (u32 \<Rightarrow> i64) \<Rightarrow> (u32 \<Rightarrow> i64)" where
  "settle b oc f P = moved P (io_user_id oc) (os_user_id (ord b (fst f))) (signed_qty (io_side oc) (snd f))"

lemma fills_positions:
  "fills b Q oc fs b' Q' oc' \<Longrightarrow> position_of (ob_users b') = fold (settle b oc) fs (position_of (ob_users b))"
proof (induction rule: fills.induct)
  case (fills_step b Q oc h d b1 Q1 oc1 fs b2 Q2 oc2)
  note f = one_fill_facts [OF fills_step(1)]
  have "fold (settle b1 oc1) fs P = fold (settle b oc) fs P" for P
  proof (rule fold_cong [OF refl refl])
    fix g assume "g \<in> set fs"
    then have "fst g \<in> queued Q1" using fills_cross [OF fills_step(2), of "fst g" "snd g"] by simp
    then show "settle b1 oc1 g = settle b oc g"
      using core_of_eqD(3) [OF f(4)] f(11,13) by (auto simp: settle_def fun_eq_iff)
  qed
  moreover have "position_of (ob_users b1) = settle b oc (h, d) (position_of (ob_users b))"
    using fills_step(1) by (simp add: one_fill_def settle_def)
  ultimately show ?case using fills_step.IH by simp
qed (simp_all add: settle_def [abs_def])

end
