(* ===== verification/Match_Order.thy ===== *)
theory Match_Order
  imports Match_Account
begin

text \<open>
  \<open>process_new_order\<close> on a well-formed, uncrossed book: the match loop ends with the taker done, the
  maker budget spent or no maker within the limit; the residual is reported, expired or rested; the
  result is again well-formed and uncrossed.
\<close>

section \<open>The match loop\<close>

definition match_loop :: "orderbook \<Rightarrow> incoming_order \<Rightarrow> (orderbook \<times> incoming_order) option" where
  "match_loop b oc = (case io_side oc of Buy \<Rightarrow> take_asks b oc | Sell \<Rightarrow> take_bids b oc)"

lemma match_loop_unfold:
  "match_loop b oc =
     (if 0 < io_remaining_qty oc \<and> best_tick b (opp (io_side oc)) \<noteq> NONE then do {
        r \<leftarrow> match_at_level b (best_tick b (opp (io_side oc))) oc;
        b' \<leftarrow> refresh (fst r) (opp (io_side oc));
        if io_remaining_qty (snd r) = io_remaining_qty oc then Some (b', snd r)
        else (case io_side oc of Buy \<Rightarrow> take_asks b' (snd r) | Sell \<Rightarrow> take_bids b' (snd r))
      }
      else Some (b, oc))"
proof (cases "io_side oc")
  case Buy
  then have "match_loop b oc = take_asks b oc" by (simp add: match_loop_def)
  then show ?thesis by (subst (asm) take_asks.simps) (simp add: Buy best_tick_def refresh_def cong: if_cong)
next
  case Sell
  then have "match_loop b oc = take_bids b oc" by (simp add: match_loop_def)
  then show ?thesis by (subst (asm) take_bids.simps) (simp add: Sell best_tick_def refresh_def cong: if_cong)
qed

definition side_crosses :: "orderbook \<Rightarrow> incoming_order \<Rightarrow> bool" where
  "side_crosses b oc \<longleftrightarrow> best_tick b (opp (io_side oc)) \<noteq> NONE \<and>
     (case io_side oc of Buy \<Rightarrow> best_px b Sell \<le> io_price oc | Sell \<Rightarrow> io_price oc \<le> best_px b Buy)"

text \<open>When the loop stops with something left, the best maker is out of reach or the budget is spent.\<close>

definition loop_done :: "orderbook \<Rightarrow> incoming_order \<Rightarrow> bool" where
  "loop_done b oc \<longleftrightarrow> io_remaining_qty oc = 0 \<or> is_budget_spent b \<or> \<not> side_crosses b oc"

lemma mst_best [simp]: "mst (set_best b sd t p) Q F = mst b Q F"
proof -
  have "positive (set_best b sd t p) Q = positive b Q" "users_rel (set_best b sd t p) Q = users_rel b Q"
    by (simp_all add: positive_def users_rel_def)
  then show ?thesis by (simp add: mst_def)
qed

lemma taker_ok_best [simp]: "taker_ok (set_best b sd t p) oc = taker_ok b oc"
  by (simp add: taker_ok_def)

lemma budget_best [simp]: "is_budget_spent (set_best b sd t p) = is_budget_spent b"
  by (simp add: is_budget_spent_def)

lemma best_in_slot:
  assumes rel: "book_rel b Q F D" and best: "best_ok b Q sd" and t: "best_tick b sd \<noteq> NONE"
  shows "\<exists>h\<in>set (Q (best_tick b sd)). on_side sd (ord b h) \<and> os_price (ord b h) = best_px b sd"
    "best_tick b sd < length (ob_active_levels b)"
proof -
  have "resting b Q sd \<noteq> {}" using best t by (auto simp: best_ok_def)
  then obtain h where h: "h \<in> resting b Q sd" "os_price (ord b h) = best_px b sd" "best_tick b sd = slot_index (ob_compression b) (best_px b sd)"
    using best by (auto simp: best_ok_def)
  obtain u where u: "h \<in> set (Q u)" using h(1) by (auto simp: resting_def queued_def)
  have "u = best_tick b sd" using book_relD(11) [OF rel u] h(2,3) by (simp add: slot_ok_def)
  then show "\<exists>h\<in>set (Q (best_tick b sd)). on_side sd (ord b h) \<and> os_price (ord b h) = best_px b sd"
    "best_tick b sd < length (ob_active_levels b)"
    using u h queue_tick(1) [OF rel u] by (auto simp: resting_def)
qed

lemma crossing_best:
  assumes "book_rel b Q F D" and "best_ok b Q (opp (io_side oc))" and "side_crosses b oc"
  shows "\<exists>h\<in>set (Q (best_tick b (opp (io_side oc)))). crosses b (io_side oc) (io_price oc) h"
proof -
  obtain h where h: "h \<in> set (Q (best_tick b (opp (io_side oc))))" "on_side (opp (io_side oc)) (ord b h)"
    "os_price (ord b h) = best_px b (opp (io_side oc))"
    using best_in_slot(1) [OF assms(1,2)] assms(3) by (auto simp: side_crosses_def)
  then have "crosses b (io_side oc) (io_price oc) h"
    using assms(3) by (cases "io_side oc") (auto simp: side_crosses_def crosses_def is_crossing_def on_side_def is_buy_def)
  with h(1) show ?thesis by blast
qed

lemma match_loop_ok:
  assumes "wf b Q F" and "taker_ok b oc"
  shows "\<exists>b' oc' fs Q' F'. match_loop b oc = Some (b', oc') \<and> fills b Q oc fs b' Q' oc' \<and> wf b' Q' F' \<and>
    taker_ok b' oc' \<and> loop_done b' oc'"
  using assms
proof (induction "nat (io_remaining_qty oc)" arbitrary: b Q F oc rule: less_induct)
  case less
  let ?sd = "io_side oc" and ?t = "best_tick b (opp (io_side oc))"
  note W = wfD [OF less.prems(1)]
  have m: "mst b Q F" using W by (simp add: mst_def)
  show ?case
  proof (cases "0 < io_remaining_qty oc \<and> ?t \<noteq> NONE")
    case False
    then have "match_loop b oc = Some (b, oc)" by (simp only: match_loop_unfold [of b oc] if_False)
    moreover have "loop_done b oc" using False less.prems(2) by (auto simp: loop_done_def side_crosses_def taker_ok_def)
    ultimately show ?thesis using less.prems fills_none by blast
  next
    case True
    note inslot = best_in_slot [OF W(1) W(3) [of "opp ?sd"]]
    obtain b1 oc1 fs Q1 F1 where r: "match_at_level b ?t oc = Some (b1, oc1)" "fills b Q oc fs b1 Q1 oc1" "mst b1 Q1 F1"
      "taker_ok b1 oc1" "exhausted b1 Q1 oc1 (io_price oc) ?t"
      using match_at_level_ok [OF m inslot(2) less.prems(2)] True by blast
    note M1 = mstD [OF r(3)]
    have oc1: "io_side oc1 = ?sd" "io_price oc1 = io_price oc" "io_remaining_qty oc1 \<le> io_remaining_qty oc"
    proof -
      have "0 \<le> (\<Sum>f\<leftarrow>fs. snd f)" using fills_positive [OF r(2)] by (fastforce intro!: sum_list_nonneg simp: less_imp_le)
      then show "io_side oc1 = ?sd" "io_price oc1 = io_price oc" "io_remaining_qty oc1 \<le> io_remaining_qty oc"
        using fills_taker [OF r(2)] by simp_all
    qed
    obtain tk p where re: "refresh b1 (opp ?sd) = Some (set_best b1 (opp ?sd) tk p)" "best_ok (set_best b1 (opp ?sd) tk p) Q1 (opp ?sd)"
      using refresh_ok [OF M1(1)] by blast
    let ?b2 = "set_best b1 (opp ?sd) tk p"
    have "best_ok ?b2 Q1 ?sd" using fills_best_own [OF r(2) W(1) W(3)] by simp
    then have "best_ok ?b2 Q1 s" for s using re(2) by (cases s; cases ?sd) auto
    then have wf2: "wf ?b2 Q1 F1" using r(3) mst_best [of b1 "opp ?sd" tk p Q1 F1] by (simp add: wf_def mst_def del: mst_best)
    have f2: "fills b1 Q1 oc1 [] ?b2 Q1 oc1" using fills_none fills_best oc1(1) by metis
    from fills_append [OF r(2) this] have f: "fills b Q oc fs ?b2 Q1 oc1" by simp
    have tk2: "taker_ok ?b2 oc1" using r(4) by simp
    show ?thesis
    proof (cases "io_remaining_qty oc1 = io_remaining_qty oc")
      case stop: True
      then have run: "match_loop b oc = Some (?b2, oc1)" using True r(1) re(1) by (subst match_loop_unfold) simp
      have "fs = []"
      proof (rule ccontr)
        assume "fs \<noteq> []"
        then have "0 < (\<Sum>f\<leftarrow>fs. snd f)"
          using fills_positive [OF r(2)] by (cases fs) (fastforce intro!: add_pos_nonneg sum_list_nonneg simp: less_imp_le)+
        then show False using fills_taker [OF r(2)] stop by simp
      qed
      note same = fills_nil [OF r(2) this]
      have "loop_done ?b2 oc1"
      proof (rule ccontr)
        assume nd: "\<not> loop_done ?b2 oc1"
        then have cr: "side_crosses ?b2 oc1" "\<not> is_budget_spent ?b2" "io_remaining_qty oc1 \<noteq> 0" by (auto simp: loop_done_def)
        have same_ord: "ob_orders ?b2 = ob_orders b" using same by simp
        obtain h where h: "h \<in> queued Q" "crosses b ?sd (io_price oc) h"
          using crossing_best [OF _ _ cr(1), of Q1 F1 "{}"] wfD(1,3) [OF wf2] same same_ord in_queued
          by (fastforce simp: crosses_def)
        obtain h0 where h0: "h0 \<in> set (Q ?t)" "on_side (opp ?sd) (ord b h0)" "os_price (ord b h0) = best_px b (opp ?sd)"
          using inslot(1) True by blast
        have "on_side (opp ?sd) (ord b h)" using crosses_opposite h W(1) by blast
        then have "better (opp ?sd) (best_px b (opp ?sd)) (os_price (ord b h))"
          using W(3) [of "opp ?sd"] h(1) unfolding best_ok_def resting_def by (auto split: if_splits)
        then have "crosses b ?sd (io_price oc) h0" using h0 h(2)
          by (cases ?sd) (auto simp: crosses_def is_crossing_def better_def on_side_def is_buy_def)
        moreover have "\<not> crosses b ?sd (io_price oc) h0"
          using r(5) cr(2,3) h0(1) same by (auto simp: exhausted_def crosses_def)
        ultimately show False by simp
      qed
      then show ?thesis using run f wf2 tk2 by blast
    next
      case more: False
      have "nat (io_remaining_qty oc1) < nat (io_remaining_qty oc)" using more oc1(3) True by simp
      from less.hyps [OF this wf2 tk2] obtain b3 oc3 gs Q3 F3 where g: "match_loop ?b2 oc1 = Some (b3, oc3)"
        "fills ?b2 Q1 oc1 gs b3 Q3 oc3" "wf b3 Q3 F3" "taker_ok b3 oc3" "loop_done b3 oc3" by blast
      have "match_loop b oc = match_loop ?b2 oc1"
        using True more r(1) re(1) oc1(1) by (subst match_loop_unfold) (simp add: match_loop_def split: side.split)
      with g fills_append [OF f g(2)] show ?thesis by metis
    qed
  qed
qed

section \<open>The residual\<close>

definition rests :: "orderbook \<Rightarrow> incoming_order \<Rightarrow> bool" where
  "rests b oc \<longleftrightarrow> 0 < io_remaining_qty oc \<and> \<not> is_match_limited b oc \<and> io_tif oc = GTC"

definition residual_event :: "orderbook \<Rightarrow> incoming_order \<Rightarrow> i64 \<Rightarrow> event" where
  "residual_event b oc fillable =
     (if io_remaining_qty oc = 0 then order_done oc Filled fillable 0
      else if is_match_limited b oc then order_done oc MatchLimit (fillable - io_remaining_qty oc) (io_remaining_qty oc)
      else if io_tif oc = IOC then order_done oc Expired (fillable - io_remaining_qty oc) (io_remaining_qty oc)
      else order_failed oc FillOrKill)"

text \<open>What \<open>finish_order\<close> does: one event, and at most one new resting order with the whole residual.\<close>

definition settled :: "orderbook \<Rightarrow> queues \<Rightarrow> incoming_order \<Rightarrow> i64 \<Rightarrow> orderbook \<Rightarrow> queues \<Rightarrow> event \<Rightarrow> bool" where
  "settled b Q oc fillable b' Q' e \<longleftrightarrow> ob_event_buf b' = ob_event_buf b @ [e] \<and> same_users b b' \<and>
     (if rests b oc
      then (\<exists>h. h \<notin> queued Q \<and> queued Q' = insert h (queued Q) \<and>
        Q' = Q(slot_index (ob_compression b) (io_price oc) := Q (slot_index (ob_compression b) (io_price oc)) @ [h]) \<and>
        fresh_order (ord b' h) (io_price oc) (io_remaining_qty oc) (io_side oc) (tif_u8 (io_tif oc)) (io_user_id oc)
          (io_reduce_only oc) (io_order_id_hi oc) (io_order_id_lo oc) \<and>
        e = OrderInserted h (io_user_id oc) (side_u8 (io_side oc)) (io_price oc) (io_remaining_qty oc) (io_order_id_hi oc) (io_order_id_lo oc)) \<and>
        (\<forall>x\<in>queued Q. strip (ord b' x) = strip (ord b x)) \<and> book_sig b (b'\<lparr>ob_event_buf := ob_event_buf b\<rparr>)
      else Q' = Q \<and> b' = b\<lparr>ob_event_buf := ob_event_buf b @ [e]\<rparr> \<and> e = residual_event b oc fillable)"

lemma wf_event [simp]: "wf (b\<lparr>ob_event_buf := e\<rparr>) Q F = wf b Q F"
  by (simp add: wf_def positive_def users_rel_def)

lemma uncrossed_event [simp]: "uncrossed (b\<lparr>ob_event_buf := e\<rparr>) Q = uncrossed b Q"
  by (simp add: uncrossed_def)

lemma match_limited_iff: "is_match_limited b oc \<longleftrightarrow> is_budget_spent b \<and> side_crosses b oc"
  by (cases "io_side oc") (auto simp: is_match_limited_def side_crosses_def best_tick_def best_px_def)

lemma would_cross_iff: "would_cross b oc \<longleftrightarrow> side_crosses b oc"
  by (cases "io_side oc") (auto simp: would_cross_def side_crosses_def best_tick_def best_px_def)

lemma not_crossing_opposite:
  assumes "book_rel b Q F D" and "best_ok b Q (opp (io_side oc))" and "\<not> side_crosses b oc" and "y \<in> resting b Q (opp (io_side oc))"
  shows "case io_side oc of Buy \<Rightarrow> io_price oc < os_price (ord b y) | Sell \<Rightarrow> os_price (ord b y) < io_price oc"
proof -
  have b: "best_tick b (opp (io_side oc)) \<noteq> NONE" "better (opp (io_side oc)) (best_px b (opp (io_side oc))) (os_price (ord b y))"
    using assms(2,4) resting_bound [OF assms(1)] unfolding best_ok_def by (metis empty_iff)+
  then show ?thesis using assms(3) by (cases "io_side oc") (auto simp: side_crosses_def better_def)
qed

lemma uncrossed_insert:
  assumes rel: "book_rel b Q F D" and best: "best_ok b Q (opp (io_side oc))" and nc: "\<not> side_crosses b oc" and un: "uncrossed b Q"
    and q: "queued Q' = insert h (queued Q)" "\<forall>x\<in>queued Q. strip (ord b' x) = strip (ord b x)" "h \<notin> queued Q"
    and h: "on_side (io_side oc) (ord b' h)" "os_price (ord b' h) = io_price oc"
  shows "uncrossed b' Q'"
proof -
  have st: "os_price (ord b' x) = os_price (ord b x)" "on_side sd (ord b' x) = on_side sd (ord b x)" if "x \<in> queued Q" for x sd
    using q(2) that strip_eqD(1) strip_sides(3) by blast+
  have r: "resting b' Q' (io_side oc) = insert h (resting b Q (io_side oc))"
    "resting b' Q' (opp (io_side oc)) = resting b Q (opp (io_side oc))"
    using q(1,3) h(1) st(2) on_side_opp by (auto simp: resting_def)
  have px: "os_price (ord b' x) = os_price (ord b x)" if "x \<in> resting b Q sd" for x sd
    using that st(1) by (simp add: resting_def)
  show ?thesis
  proof (cases "io_side oc")
    case Buy
    then show ?thesis using r h(2) px un not_crossing_opposite [OF rel best nc] by (auto simp: uncrossed_def)
  next
    case Sell
    then show ?thesis using r h(2) px un not_crossing_opposite [OF rel best nc] by (auto simp: uncrossed_def)
  qed
qed

text \<open>What an order has to satisfy when it reaches the match loop.\<close>

definition ready :: "orderbook \<Rightarrow> queues \<Rightarrow> incoming_order \<Rightarrow> bool" where
  "ready b Q oc \<longleftrightarrow> taker_ok b oc \<and> price_range (io_price oc) \<and> cp_tick_size (ob_compression b) dvd io_price oc \<and>
     resting_qty b Q + io_remaining_qty oc \<le> i64_max \<and> card (queued Q) < length (slots (ob_orders b))"

lemma event_room: "taker_ok b oc \<Longrightarrow> length (ob_event_buf b) + 3 \<le> MAX_EVENTS"
  by (simp add: taker_ok_def MAX_MAKERS_PER_ORDER_def MAX_EVENTS_def)

lemma finish_order_ok:
  assumes wf: "wf b Q F" and un: "uncrossed b Q" and rd: "ready b Q oc" and ld: "loop_done b oc"
    and fl: "io_remaining_qty oc \<le> fillable" "fillable \<le> i64_max"
  shows "\<exists>b' Q' F' e. finish_order b oc fillable = Some b' \<and> settled b Q oc fillable b' Q' e \<and> wf b' Q' F' \<and> uncrossed b' Q'"
proof -
  note W = wfD [OF wf]
  have tk: "taker_ok b oc" using rd by (simp add: ready_def)
  have ev: "length (ob_event_buf b) + 3 \<le> MAX_EVENTS" by (rule event_room [OF tk])
  then have em: "emit b e = Some (b\<lparr>ob_event_buf := ob_event_buf b @ [e]\<rparr>)" for e by (intro emit_run) simp
  have sub: "i64_sub fillable (io_remaining_qty oc) = fillable - io_remaining_qty oc"
    using fl tk by (intro i64_sub_id) (simp add: taker_ok_def in_i64_def i64_bounds)
  show ?thesis
  proof (cases "rests b oc")
    case False
    then have "finish_order b oc fillable = Some (b\<lparr>ob_event_buf := ob_event_buf b @ [residual_event b oc fillable]\<rparr>)"
      using tk by (cases "io_tif oc") (auto simp: finish_order_def rests_def residual_event_def em sub taker_ok_def)
    then show ?thesis using False wf un
      by (intro exI [of _ "b\<lparr>ob_event_buf := ob_event_buf b @ [residual_event b oc fillable]\<rparr>"] exI [of _ Q] exI [of _ F]
          exI [of _ "residual_event b oc fillable"]) (simp add: settled_def same_users_def)
  next
    case True
    let ?t = "slot_index (ob_compression b) (io_price oc)"
    have r: "0 < io_remaining_qty oc" "\<not> is_match_limited b oc" "io_tif oc = GTC" using True by (simp_all add: rests_def)
    have sum: "qty_sum (slots (ob_orders b)) (Q ?t) + io_remaining_qty oc \<le> i64_max"
      using level_le_resting [OF W(1), of ?t] rd by (simp add: ready_def)
    have room: "F \<noteq> [] \<or> bump_next (ob_orders b) < length (slots (ob_orders b))"
      by (rule room_iff [OF W(1)]) (use rd in \<open>simp add: ready_def\<close>)
    obtain h b1 F1 where i: "insert_resting b (io_price oc) (io_remaining_qty oc) (io_side oc) (tif_u8 (io_tif oc)) (io_user_id oc)
        (io_reduce_only oc) (io_timestamp_ns oc) (io_order_id_hi oc) (io_order_id_lo oc) = Some (h, b1)"
      "wf b1 (Q(?t := Q ?t @ [h])) F1" "h \<notin> queued Q"
      "fresh_order (ord b1 h) (io_price oc) (io_remaining_qty oc) (io_side oc) (tif_u8 (io_tif oc)) (io_user_id oc)
        (io_reduce_only oc) (io_order_id_hi oc) (io_order_id_lo oc)"
      "\<forall>x\<in>queued Q. strip (ord b1 x) = strip (ord b x)" "book_sig b b1" "same_users b b1"
      using insert_resting_ok [OF wf room _ _ r(1) sum, of "io_user_id oc" "io_side oc" "tif_u8 (io_tif oc)" "io_reduce_only oc"
          "io_timestamp_ns oc" "io_order_id_hi oc" "io_order_id_lo oc"] rd tk
      by (auto simp: ready_def taker_ok_def)
    define e where "e = OrderInserted h (io_user_id oc) (side_u8 (io_side oc)) (io_price oc) (io_remaining_qty oc) (io_order_id_hi oc) (io_order_id_lo oc)"
    have buf: "ob_event_buf b1 = ob_event_buf b" using i(6) by (simp add: book_sig_def)
    let ?b = "b1\<lparr>ob_event_buf := ob_event_buf b @ [e]\<rparr>"
    have run: "finish_order b oc fillable = Some ?b"
      using r i(1) ev buf by (simp add: finish_order_def e_def emit_def assert_that_def)
    have q: "queued (Q(?t := Q ?t @ [h])) = insert h (queued Q)" by (rule queued_append)
    have "\<not> side_crosses b oc" using ld r(1,2) by (simp add: loop_done_def match_limited_iff) blast
    moreover have "on_side (io_side oc) (ord b1 h)" "os_price (ord b1 h) = io_price oc"
      using i(4) by (simp_all add: fresh_order_def on_side_def is_buy_def split: side.split)
    ultimately have "uncrossed b1 (Q(?t := Q ?t @ [h]))" using uncrossed_insert [OF W(1) W(3) _ un q i(5,3)] by blast
    moreover have "settled b Q oc fillable ?b (Q(?t := Q ?t @ [h])) e"
      using True i(3-7) q by (simp add: settled_def e_def book_sig_def same_users_def)
    ultimately show ?thesis using run i(2) by (intro exI [of _ ?b] exI [of _ "Q(?t := Q ?t @ [h])"] exI [of _ F1] exI [of _ e]) simp
  qed
qed

section \<open>Executing an order\<close>

definition bbo_event :: "orderbook \<Rightarrow> queues \<Rightarrow> event" where
  "bbo_event b Q = BBO (best_px b Buy) (if resting b Q Buy = {} then 0 else side_qty b Q Buy (best_px b Buy))
     (best_px b Sell) (if resting b Q Sell = {} then 0 else side_qty b Q Sell (best_px b Sell))"

lemma current_bbo_exact:
  assumes "wf b Q F" and "uncrossed b Q"
  shows "current_bbo b = Some \<lparr>bbo_bid_px = best_px b Buy, bbo_bid_qty = (if resting b Q Buy = {} then 0 else side_qty b Q Buy (best_px b Buy)),
     bbo_ask_px = best_px b Sell, bbo_ask_qty = (if resting b Q Sell = {} then 0 else side_qty b Q Sell (best_px b Sell))\<rparr>"
  using top_at_best [OF assms, of Buy] top_at_best [OF assms, of Sell]
  by (simp add: current_bbo_def top_at_def best_tick_def)

lemma emit_bbo_ok:
  assumes "wf b Q F" and "uncrossed b Q" and "length (ob_event_buf b) < MAX_EVENTS"
  shows "emit_bbo b = Some (b\<lparr>ob_event_buf := ob_event_buf b @ [bbo_event b Q]\<rparr>)"
  unfolding emit_bbo_def current_bbo_exact [OF assms(1,2)] using emit_run [OF assms(3)] by (simp add: bbo_event_def)

text \<open>
  The whole effect of an order that reached the match loop: a run of fills, the residual settled, and
  the new best bid and offer reported exactly when it moved.
\<close>

definition executed ::
  "orderbook \<Rightarrow> queues \<Rightarrow> incoming_order \<Rightarrow> (u32 \<times> i64) list \<Rightarrow> event \<Rightarrow> orderbook \<Rightarrow> queues \<Rightarrow> incoming_order \<Rightarrow> bool" where
  "executed b Q oc fs e b' Q' oc' \<longleftrightarrow> (\<exists>b1 Q1 F1 b2.
     fills b Q oc fs b1 Q1 oc' \<and> wf b1 Q1 F1 \<and> loop_done b1 oc' \<and> settled b1 Q1 oc' (io_remaining_qty oc) b2 Q' e \<and>
     b' = b2\<lparr>ob_event_buf := ob_event_buf b2 @ (if best_moved b b2 then [bbo_event b2 Q'] else [])\<rparr>)"

lemma uncrossed_fills:
  assumes "fills b Q oc fs b' Q' oc'" and "book_rel b Q F D" and "uncrossed b Q"
  shows "uncrossed b' Q'"
proof -
  have "os_price (ord b' x) = os_price (ord b x) \<and> x \<in> resting b Q sd" if "x \<in> resting b' Q' sd" for x sd
    using that fills_own_side(2) [OF assms(1,2), of sd] core_of_eqD(1) [OF fills_core [OF assms(1), of x]] by (auto simp: resting_def)
  then show ?thesis using assms(3) unfolding uncrossed_def by metis
qed

lemma total_nonneg: "fills b Q oc fs b' Q' oc' \<Longrightarrow> 0 \<le> total_filled fs"
  using fills_positive unfolding total_filled_def by (fastforce intro!: sum_list_nonneg simp: less_imp_le)

lemma fills_remaining: "fills b Q oc fs b' Q' oc' \<Longrightarrow> io_remaining_qty oc' = io_remaining_qty oc - total_filled fs"
  using fills_taker [of b Q oc fs b' Q' oc'] by (cases oc') (simp add: total_filled_def)

lemma ready_fills:
  assumes f: "fills b Q oc fs b' Q' oc'" and rel: "book_rel b Q F D" and rd: "ready b Q oc" and tk: "taker_ok b' oc'"
  shows "ready b' Q' oc'"
proof -
  note fin = finite_queued [OF rel]
  have "resting_qty b' Q' + io_remaining_qty oc' \<le> resting_qty b Q + io_remaining_qty oc"
    using fills_qty [OF f book_rel_linear [OF rel] fin] fills_remaining [OF f] total_nonneg [OF f] by simp
  moreover have "io_price oc' = io_price oc" using fills_taker [OF f] by simp
  moreover have "ob_compression b' = ob_compression b" "length (slots (ob_orders b')) = length (slots (ob_orders b))"
    using fills_frame [OF f] by (simp_all add: own_frame_def)
  ultimately show ?thesis using rd tk fills_card [OF f fin] by (simp add: ready_def)
qed

lemma execute_order_ok:
  assumes wf: "wf b Q F" and un: "uncrossed b Q" and rd: "ready b Q oc"
  shows "\<exists>b' oc' Q' F' fs e. execute_order b oc = Some (b', oc') \<and> executed b Q oc fs e b' Q' oc' \<and> wf b' Q' F' \<and> uncrossed b' Q'"
proof -
  have tk: "taker_ok b oc" using rd by (simp add: ready_def)
  obtain b1 oc1 fs Q1 F1 where l: "match_loop b oc = Some (b1, oc1)" "fills b Q oc fs b1 Q1 oc1" "wf b1 Q1 F1"
    "taker_ok b1 oc1" "loop_done b1 oc1" using match_loop_ok [OF wf tk] by blast
  note W = wfD [OF wf]
  have un1: "uncrossed b1 Q1" by (rule uncrossed_fills [OF l(2) W(1) un])
  have rd1: "ready b1 Q1 oc1" by (rule ready_fills [OF l(2) W(1) rd l(4)])
  have fl: "io_remaining_qty oc1 \<le> io_remaining_qty oc" "io_remaining_qty oc \<le> i64_max"
    using fills_remaining [OF l(2)] total_nonneg [OF l(2)] tk by (simp_all add: taker_ok_def)
  obtain b2 Q2 F2 e where s: "finish_order b1 oc1 (io_remaining_qty oc) = Some b2" "settled b1 Q1 oc1 (io_remaining_qty oc) b2 Q2 e"
    "wf b2 Q2 F2" "uncrossed b2 Q2" using finish_order_ok [OF l(3) un1 rd1 l(5) fl] by blast
  let ?b = "b2\<lparr>ob_event_buf := ob_event_buf b2 @ (if best_moved b b2 then [bbo_event b2 Q2] else [])\<rparr>"
  have "length (ob_event_buf b2) < MAX_EVENTS" using s(2) event_room [OF l(4)] by (simp add: settled_def)
  then have bbo: "(if best_moved b b2 then emit_bbo b2 else Some b2) = Some ?b"
    using emit_bbo_ok [OF s(3,4)] by simp
  have "execute_order b oc = Some (?b, oc1)"
    unfolding execute_order_def match_loop_def [symmetric] Let_def l(1) using s(1) bbo by simp
  moreover have "executed b Q oc fs e ?b Q2 oc1" using l(2,3,5) s(2) unfolding executed_def by blast
  ultimately show ?thesis using s(3,4) by (intro exI conjI) (assumption | simp)+
qed

end
