(* ===== verification/Fill_Or_Kill.thy ===== *)
theory Fill_Or_Kill
  imports Match_Account
begin

text \<open>
  \<open>can_fill_fully\<close> answers the question it is asked: on a well-formed, uncrossed book with no more
  crossing makers than one order may hit, it returns, and it returns whether the quantity resting
  within the limit covers the order. The ask walk and the mirrored bid walk are both shown equal to a walk
  over the list of occupied slots in price order.
\<close>

section \<open>What is within reach\<close>

definition hits :: "orderbook \<Rightarrow> queues \<Rightarrow> side \<Rightarrow> i64 \<Rightarrow> nat \<Rightarrow> u32 list" where
  "hits b Q sd limit t = filter (crosses b sd limit) (Q t)"

definition reach :: "orderbook \<Rightarrow> queues \<Rightarrow> side \<Rightarrow> i64 \<Rightarrow> u32 set" where
  "reach b Q sd limit = {h \<in> queued Q. crosses b sd limit h}"

definition available :: "orderbook \<Rightarrow> queues \<Rightarrow> side \<Rightarrow> i64 \<Rightarrow> int" where
  "available b Q sd limit = (\<Sum>h\<in>reach b Q sd limit. rem b h)"

abbreviation hit_qty :: "orderbook \<Rightarrow> queues \<Rightarrow> side \<Rightarrow> i64 \<Rightarrow> nat \<Rightarrow> int" where
  "hit_qty b Q sd limit t \<equiv> qty_sum (slots (ob_orders b)) (hits b Q sd limit t)"

lemma hit_qty_nonneg: "book_rel b Q F D \<Longrightarrow> 0 \<le> hit_qty b Q sd limit t"
  by (rule qty_sum_nonneg [where t = t]) (auto simp: hits_def)

lemma concat_hits:
  assumes rel: "book_rel b Q F D" and ts: "distinct ts"
  shows "set (concat (map (hits b Q sd limit) ts)) \<subseteq> reach b Q sd limit" "distinct (concat (map (hits b Q sd limit) ts))"
proof -
  show "set (concat (map (hits b Q sd limit) ts)) \<subseteq> reach b Q sd limit"
    by (auto simp: hits_def reach_def queued_def)
  show "distinct (concat (map (hits b Q sd limit) ts))" using ts
  proof (induction ts)
    case (Cons t ts)
    have "set (hits b Q sd limit t) \<inter> set (concat (map (hits b Q sd limit) ts)) = {}"
    proof (rule equals0I)
      fix x assume "x \<in> set (hits b Q sd limit t) \<inter> set (concat (map (hits b Q sd limit) ts))"
      then obtain u where "u \<in> set ts" "x \<in> set (Q t)" "x \<in> set (Q u)" by (auto simp: hits_def)
      then show False using queues_disjoint [OF rel, of x t u] Cons.prems by simp
    qed
    then show ?case using Cons book_relD(10) [OF rel, of t] by (simp add: hits_def)
  qed simp
qed

lemma qty_sum_concat: "qty_sum xs (concat hss) = (\<Sum>hs\<leftarrow>hss. qty_sum xs hs)"
  by (induction hss) simp_all

lemma hits_total:
  assumes rel: "book_rel b Q F D" and ts: "distinct ts"
  shows "(\<Sum>t\<leftarrow>ts. hit_qty b Q sd limit t) \<le> available b Q sd limit"
    "(\<Sum>t\<leftarrow>ts. length (hits b Q sd limit t)) \<le> card (reach b Q sd limit)"
    "reach b Q sd limit \<subseteq> (\<Union>t\<in>set ts. set (hits b Q sd limit t)) \<Longrightarrow> (\<Sum>t\<leftarrow>ts. hit_qty b Q sd limit t) = available b Q sd limit"
proof -
  let ?c = "concat (map (hits b Q sd limit) ts)"
  note c = concat_hits [OF rel ts, of sd limit]
  have fin: "finite (reach b Q sd limit)" using finite_queued [OF rel] by (simp add: reach_def)
  have s: "(\<Sum>t\<leftarrow>ts. hit_qty b Q sd limit t) = (\<Sum>h\<in>set ?c. rem b h)"
  proof -
    have "(\<Sum>t\<leftarrow>ts. hit_qty b Q sd limit t) = (\<Sum>h\<leftarrow>?c. rem b h)" by (induction ts) (simp_all add: qty_sum_def rem_def)
    then show ?thesis using sum_list_distinct_conv_sum_set [OF c(2), of "rem b"] by simp
  qed
  show "(\<Sum>t\<leftarrow>ts. hit_qty b Q sd limit t) \<le> available b Q sd limit"
    unfolding s available_def by (rule sum_mono2 [OF fin c(1)]) (auto simp: reach_def intro: rem_nonneg [OF rel])
  have "(\<Sum>t\<leftarrow>ts. length (hits b Q sd limit t)) = card (set ?c)"
    using distinct_card [OF c(2)] by (simp add: length_concat comp_def)
  then show "(\<Sum>t\<leftarrow>ts. length (hits b Q sd limit t)) \<le> card (reach b Q sd limit)"
    using card_mono [OF fin c(1)] by simp
  show "(\<Sum>t\<leftarrow>ts. hit_qty b Q sd limit t) = available b Q sd limit" if "reach b Q sd limit \<subseteq> (\<Union>t\<in>set ts. set (hits b Q sd limit t))"
    unfolding s available_def using that c(1) by (intro sum.cong) auto
qed

section \<open>One slot\<close>

definition slot_answer :: "i64 \<Rightarrow> int \<Rightarrow> nat \<Rightarrow> bool \<Rightarrow> i64 \<Rightarrow> usize \<Rightarrow> bool + i64 \<times> usize" where
  "slot_answer needed s n stop acc makers =
     (if needed \<le> acc + s then Inl True else if stop then Inl False else Inr (acc + s, makers + n))"

lemma slot_walk:
  assumes rel: "book_rel b Q F D" and "Q t = as @ bs" and "acc < needed" and "0 \<le> acc"
    and "acc + qty_sum (slots (ob_orders b)) (filter (crosses b sd limit) bs) \<le> i64_max"
    and "makers + length (filter (crosses b sd limit) bs) \<le> MAX_MAKERS_PER_ORDER"
  shows "(case sd of Buy \<Rightarrow> slot_asks b limit needed m acc makers (first bs NONE)
      | Sell \<Rightarrow> slot_bids b limit needed m acc makers (first bs NONE)) =
    Some (slot_answer needed (qty_sum (slots (ob_orders b)) (filter (crosses b sd limit) bs))
      (length (filter (crosses b sd limit) bs))
      ((case sd of Buy \<Rightarrow> limit < m | Sell \<Rightarrow> m < limit) \<and> filter (crosses b sd limit) bs = []) acc makers)"
  using assms(2-)
proof (induction bs arbitrary: as m acc makers)
  case Nil
  then show ?case by (cases sd) (simp_all add: slot_answer_def slot_asks.simps slot_bids.simps)
next
  case (Cons h bs)
  have hq: "h \<in> set (Q t)" using Cons.prems(1) by simp
  note q = queue_tick [OF rel hq] and nx = seg_next [OF rel Cons.prems(1)]
  have g: "slab_get (ob_orders b) h = Some (ord b h)" using q by (simp add: slab_get_def index_of_Some)
  have sd1: "os_side (ord b h) \<le> 1" using book_relD(11) [OF rel hq] by (simp add: slot_ok_def)
  have split: "Q t = (as @ [h]) @ bs" using Cons.prems(1) by simp
  have nn: "0 \<le> qty_sum (slots (ob_orders b)) (filter (crosses b sd limit) bs)"
    by (rule qty_sum_nonneg [OF rel, where t = t]) (use Cons.prems(1) in auto)
  have rp: "0 \<le> os_remaining_qty (ord b h)" using rem_bounds(1) [OF rel hq] by (simp add: rem_def)
  note IH = Cons.IH [OF split]
  show ?case
  proof (cases "crosses b sd limit h")
    case True
    let ?a = "acc + os_remaining_qty (ord b h)"
    have add: "i64_add acc (os_remaining_qty (ord b h)) = ?a"
      using Cons.prems(3,4) True nn rp by (intro i64_add_id) (simp add: in_i64_def i64_bounds)
    have lim: "\<not> MAX_MAKERS_PER_ORDER < makers + 1" using Cons.prems(5) True by simp
    note IH' = IH [of ?a "makers + 1"]
    show ?thesis
    proof (cases sd)
      case Buy
      then have c: "os_side (ord b h) = side_u8 Sell" "os_price (ord b h) \<le> limit"
        using True sd1 by (auto simp: crosses_def is_crossing_def)
      show ?thesis using Cons.prems IH' [of "if os_price (ord b h) < m then os_price (ord b h) else m"] True Buy c add lim nn rp q nx g
        by (subst slot_asks.simps) (auto simp: slot_answer_def Let_def)
    next
      case Sell
      then have c: "os_side (ord b h) = side_u8 Buy" "limit \<le> os_price (ord b h)"
        using True sd1 by (auto simp: crosses_def is_crossing_def)
      show ?thesis using Cons.prems IH' [of "if m < os_price (ord b h) then os_price (ord b h) else m"] True Sell c add lim nn rp q nx g
        by (subst slot_bids.simps) (auto simp: slot_answer_def Let_def)
    qed
  next
    case False
    note IH' = IH [of acc makers, OF Cons.prems(2,3)]
    have R: "filter (crosses b sd limit) (h # bs) = filter (crosses b sd limit) bs" using False by simp
    have pre: "acc + qty_sum (slots (ob_orders b)) (filter (crosses b sd limit) bs) \<le> i64_max"
      "makers + length (filter (crosses b sd limit) bs) \<le> MAX_MAKERS_PER_ORDER" using Cons.prems(4,5) R by simp_all
    define m' where "m' = (if os_side (ord b h) = side_u8 (opp sd)
      then (case sd of Buy \<Rightarrow> if os_price (ord b h) < m then os_price (ord b h) else m
            | Sell \<Rightarrow> if os_price (ord b h) > m then os_price (ord b h) else m) else m)"
    have stop: "(case sd of Buy \<Rightarrow> limit < m' | Sell \<Rightarrow> m' < limit) = (case sd of Buy \<Rightarrow> limit < m | Sell \<Rightarrow> m < limit)"
      using False by (cases sd) (auto simp: m'_def crosses_def is_crossing_def)
    have "(case sd of Buy \<Rightarrow> slot_asks b limit needed m acc makers (first (h # bs) NONE)
        | Sell \<Rightarrow> slot_bids b limit needed m acc makers (first (h # bs) NONE)) =
      (case sd of Buy \<Rightarrow> slot_asks b limit needed m' acc makers (first bs NONE)
        | Sell \<Rightarrow> slot_bids b limit needed m' acc makers (first bs NONE))"
    proof (cases sd)
      case Buy
      have "slot_asks b limit needed m acc makers h = slot_asks b limit needed m' acc makers (first bs NONE)"
        by (subst slot_asks.simps) (use False Buy q(6) nx g in \<open>auto simp: Let_def m'_def crosses_def is_crossing_def\<close>)
      then show ?thesis using Buy by simp
    next
      case Sell
      have "slot_bids b limit needed m acc makers h = slot_bids b limit needed m' acc makers (first bs NONE)"
        by (subst slot_bids.simps) (use False Sell q(6) nx g in \<open>auto simp: Let_def m'_def crosses_def is_crossing_def\<close>)
      then show ?thesis using Sell by simp
    qed
    also note IH' [OF pre, of m']
    finally show ?thesis unfolding R stop .
  qed
qed

lemma zone0_one_side:
  assumes "book_rel b Q F D" and "uncrossed b Q" and t: "t < cp_zone_slots (ob_compression b) ! 0"
    and g: "g \<in> set (Q t)" "on_side sd (ord b g)" and h: "h \<in> set (Q t)"
  shows "on_side sd (ord b h)"
proof (rule ccontr)
  assume n: "\<not> on_side sd (ord b h)"
  have "os_price (ord b h) = os_price (ord b g)" by (rule zone0_same_price [OF assms(1) t h g(1)])
  moreover have "h \<in> queued Q" "g \<in> queued Q" using h g in_queued by blast+
  ultimately show False using n g(2) assms(2)
    by (cases sd) (fastforce simp: uncrossed_def resting_def on_side_def)+
qed

definition level_at_side where
  "level_at_side b sd limit needed t acc makers = (case sd of
     Buy \<Rightarrow> level_asks b limit needed t acc makers | Sell \<Rightarrow> level_bids b limit needed t acc makers)"

lemma level_walk:
  assumes rel: "book_rel b Q F D" and un: "uncrossed b Q" and g: "g \<in> set (Q t)" "on_side (opp sd) (ord b g)"
    and acc: "acc < needed" "0 \<le> acc" "acc + hit_qty b Q sd limit t \<le> i64_max"
    and mk: "makers + length (hits b Q sd limit t) \<le> MAX_MAKERS_PER_ORDER"
  shows "\<exists>stop. level_at_side b sd limit needed t acc makers =
      Some (slot_answer needed (hit_qty b Q sd limit t) (length (hits b Q sd limit t)) stop acc makers) \<and>
    (stop \<longrightarrow> hits b Q sd limit t = [])"
proof -
  let ?l = "ob_active_levels b ! t"
  note q = queue_tick [OF rel g(1)] and lo = level_at [OF rel g(1)]
  have hd: "pl_head ?l = first (Q t) NONE" using lo by (simp add: level_ok_def)
  show ?thesis
  proof (cases "t < cp_zone_slots (ob_compression b) ! 0")
    case False
    have "level_at_side b sd limit needed t acc makers = (case sd of
        Buy \<Rightarrow> slot_asks b limit needed i64_max acc makers (first (Q t) NONE)
      | Sell \<Rightarrow> slot_bids b limit needed i64_min acc makers (first (Q t) NONE))"
      using False q(1) hd by (cases sd) (simp_all add: level_at_side_def level_asks_def level_bids_def index_of_Some)
    also have "\<dots> = (case sd of
        Buy \<Rightarrow> slot_asks b limit needed (case sd of Buy \<Rightarrow> i64_max | Sell \<Rightarrow> i64_min) acc makers (first (Q t) NONE)
      | Sell \<Rightarrow> slot_bids b limit needed (case sd of Buy \<Rightarrow> i64_max | Sell \<Rightarrow> i64_min) acc makers (first (Q t) NONE))"
      by (cases sd) simp_all
    finally show ?thesis
      using slot_walk [OF rel, of t "[]" "Q t", OF _ acc(1,2)] acc(3) mk unfolding hits_def by auto
  next
    case True
    let ?g = "first (Q t) NONE"
    have hdq: "?g \<in> set (Q t)" using g(1) by (cases "Q t") auto
    have sg: "slab_get (ob_orders b) ?g = Some (ord b ?g)" using queue_tick(5) [OF rel hdq] by (simp add: slab_get_def index_of_Some)
    have side: "\<not> on_side sd (ord b h)" if "h \<in> set (Q t)" for h
      using zone0_one_side [OF rel un True g that] by (simp add: on_side_opp)
    have px: "os_price (ord b h) = os_price (ord b ?g)" if "h \<in> set (Q t)" for h
      by (rule zone0_same_price [OF rel True that hdq])
    have cr: "crosses b sd limit h \<longleftrightarrow> (case sd of Buy \<Rightarrow> os_price (ord b ?g) \<le> limit | Sell \<Rightarrow> limit \<le> os_price (ord b ?g))"
      if "h \<in> set (Q t)" for h
      using side [OF that] px [OF that] by (cases sd) (auto simp: crosses_def is_crossing_def on_side_def is_buy_def)
    have cnt: "pl_ask_count ?l = length (Q t)" if "sd = Buy"
      using lo side that by (simp add: level_ok_def on_side_def)
    have cnt': "pl_bid_count ?l = length (Q t)" if "sd = Sell"
      using lo side that by (simp add: level_ok_def on_side_def)
    have tot: "pl_total_qty ?l = qty_sum (slots (ob_orders b)) (Q t)" using lo by (simp add: level_ok_def)
    show ?thesis
    proof (cases "case sd of Buy \<Rightarrow> os_price (ord b ?g) \<le> limit | Sell \<Rightarrow> limit \<le> os_price (ord b ?g)")
      case out: False
      then have "hits b Q sd limit t = []" using cr by (auto simp: hits_def filter_empty_conv)
      moreover have "level_at_side b sd limit needed t acc makers = Some (Inl False)"
        using out True q(1) hd sg by (cases sd) (simp_all add: level_at_side_def level_asks_def level_bids_def index_of_Some)
      ultimately show ?thesis using acc by (intro exI [of _ True]) (simp add: slot_answer_def)
    next
      case within: True
      then have all: "hits b Q sd limit t = Q t" using cr by (auto simp: hits_def)
      have nn: "0 \<le> qty_sum (slots (ob_orders b)) (Q t)" by (rule qty_sum_nonneg [OF rel, where t = t]) simp
      have add: "i64_add acc (pl_total_qty ?l) = acc + qty_sum (slots (ob_orders b)) (Q t)"
        using acc nn unfolding all tot by (intro i64_add_id) (simp add: in_i64_def i64_bounds)
      have "level_at_side b sd limit needed t acc makers =
          Some (slot_answer needed (qty_sum (slots (ob_orders b)) (Q t)) (length (Q t)) False acc makers)"
        using within True q(1) hd sg add mk cnt cnt' unfolding all
        by (cases sd) (auto simp: level_at_side_def level_asks_def level_bids_def Let_def slot_answer_def index_of_Some)
      then show ?thesis unfolding all by blast
    qed
  qed
qed

section \<open>The walk over the occupied slots\<close>

fun visit :: "(u32 \<Rightarrow> i64 \<Rightarrow> usize \<Rightarrow> (bool + i64 \<times> usize) option) \<Rightarrow> u32 list \<Rightarrow> i64 \<Rightarrow> usize \<Rightarrow> (bool + i64 \<times> usize) option" where
  "visit f [] acc makers = Some (Inr (acc, makers))"
| "visit f (t # ts) acc makers = do {
     x \<leftarrow> f t acc makers;
     case x of Inl r \<Rightarrow> Some (Inl r) | Inr y \<Rightarrow> visit f ts (fst y) (snd y)
   }"

lemma visit_append: "visit f (ts @ us) acc makers = do {
    x \<leftarrow> visit f ts acc makers;
    case x of Inl r \<Rightarrow> Some (Inl r) | Inr y \<Rightarrow> visit f us (fst y) (snd y)
  }"
  by (induction ts arbitrary: acc makers) (auto split: sum.split bind_split)

lemma upt_split: "lo \<le> t \<Longrightarrow> t < hi \<Longrightarrow> [lo..<hi] = [lo..<t] @ t # [Suc t..<hi]"
  using upt_add_eq_append [of lo t "hi - t"] upt_conv_Cons [of t hi] by simp

lemma filter_upt_first:
  assumes "t \<in> S \<inter> {lo..<hi}" and "\<forall>x\<in>S \<inter> {lo..<hi}. t \<le> x"
  shows "filter (\<lambda>x. x \<in> S) [lo..<hi] = t # filter (\<lambda>x. x \<in> S) [Suc t..<hi]"
proof -
  have "[lo..<hi] = [lo..<t] @ t # [Suc t..<hi]"
    using assms(1) by (intro upt_split) auto
  moreover have "x \<notin> S" if "x \<in> set [lo..<t]" for x using assms(2) [rule_format, of x] assms(1) that by auto
  then have "filter (\<lambda>x. x \<in> S) [lo..<t] = []" by (simp add: filter_empty_conv)
  ultimately show ?thesis using assms(1) by simp
qed

lemma filter_upt_last:
  assumes "t \<in> S \<inter> {lo..<hi}" and "\<forall>x\<in>S \<inter> {lo..<hi}. x \<le> t"
  shows "filter (\<lambda>x. x \<in> S) [lo..<hi] = filter (\<lambda>x. x \<in> S) [lo..<t] @ [t]"
proof -
  have "[lo..<hi] = [lo..<t] @ t # [Suc t..<hi]"
    using assms(1) by (intro upt_split) auto
  moreover have "x \<notin> S" if "x \<in> set [Suc t..<hi]" for x using assms(2) [rule_format, of x] assms(1) that by auto
  then have "filter (\<lambda>x. x \<in> S) [Suc t..<hi] = []" by (simp add: filter_empty_conv)
  ultimately show ?thesis using assms(1) by simp
qed

definition slots_between :: "nat set \<Rightarrow> u32 \<times> u32 \<Rightarrow> u32 list" where
  "slots_between S r = filter (\<lambda>x. x \<in> S) [fst r..<snd r]"

lemma range_asks_visit:
  assumes ok: "occ_ok (ob_ask_occ b)" and small: "members (ob_ask_occ b) \<subseteq> {..<NONE}"
  shows "range_asks b limit needed lo hi acc makers =
    visit (level_asks b limit needed) (slots_between (members (ob_ask_occ b)) (lo, hi)) acc makers"
proof (induction "hi - lo" arbitrary: lo acc makers rule: less_induct)
  case less
  obtain r where r: "find_first_in (ob_ask_occ b) lo hi = Some r" "is_least (members (ob_ask_occ b) \<inter> {lo..<hi}) r"
    using find_first_in_ok [OF ok] by blast
  show ?case
  proof (cases r)
    case None
    then have "slots_between (members (ob_ask_occ b)) (lo, hi) = []"
      using r(2) by (auto simp: is_least_def slots_between_def filter_empty_conv)
    then show ?thesis using r(1) None by (subst range_asks.simps) simp
  next
    case (Some t)
    then have t: "t \<in> members (ob_ask_occ b) \<inter> {lo..<hi}" "\<forall>x\<in>members (ob_ask_occ b) \<inter> {lo..<hi}. t \<le> x"
      using r(2) by (auto simp: is_least_def)
    have u: "u32_add t 1 = Suc t" using t(1) small by (intro trans [OF u32_add_id]) (auto simp: NONE_def)
    have sb: "slots_between (members (ob_ask_occ b)) (lo, hi) = t # slots_between (members (ob_ask_occ b)) (Suc t, hi)"
      using filter_upt_first [OF t] by (simp add: slots_between_def)
    have "range_asks b limit needed (Suc t) hi a m = visit (level_asks b limit needed) (slots_between (members (ob_ask_occ b)) (Suc t, hi)) a m" for a m
      by (rule less) (use t(1) in auto)
    then show ?thesis unfolding sb using r(1) Some u by (subst range_asks.simps) (simp cong: option.case_cong sum.case_cong)
  qed
qed

lemma range_bids_visit:
  assumes ok: "occ_ok (ob_bid_occ b)"
  shows "range_bids b limit needed lo hi acc makers =
    visit (level_bids b limit needed) (rev (slots_between (members (ob_bid_occ b)) (lo, hi))) acc makers"
proof (induction "hi - lo" arbitrary: hi acc makers rule: less_induct)
  case less
  obtain r where r: "find_last_in (ob_bid_occ b) lo hi = Some r" "is_greatest (members (ob_bid_occ b) \<inter> {lo..<hi}) r"
    using find_last_in_ok [OF ok] by blast
  show ?case
  proof (cases r)
    case None
    then have "slots_between (members (ob_bid_occ b)) (lo, hi) = []"
      using r(2) by (auto simp: is_greatest_def slots_between_def filter_empty_conv)
    then show ?thesis using r(1) None by (subst range_bids.simps) simp
  next
    case (Some t)
    then have t: "t \<in> members (ob_bid_occ b) \<inter> {lo..<hi}" "\<forall>x\<in>members (ob_bid_occ b) \<inter> {lo..<hi}. x \<le> t"
      using r(2) by (auto simp: is_greatest_def)
    have sb: "rev (slots_between (members (ob_bid_occ b)) (lo, hi)) = t # rev (slots_between (members (ob_bid_occ b)) (lo, t))"
      using filter_upt_last [OF t] by (simp add: slots_between_def)
    have "range_bids b limit needed lo t a m = visit (level_bids b limit needed) (rev (slots_between (members (ob_bid_occ b)) (lo, t))) a m" for a m
      by (rule less) (use t(1) in auto)
    then show ?thesis unfolding sb using r(1) Some by (subst range_bids.simps) (simp cong: option.case_cong sum.case_cong)
  qed
qed

definition yes :: "bool + i64 \<times> usize \<Rightarrow> bool" where
  "yes x = (case x of Inl r \<Rightarrow> r | Inr y \<Rightarrow> False)"

lemma ranges_visit:
  assumes "\<And>lo hi a m. g lo hi a m = visit f (h (lo, hi)) a m"
    and "\<And>a m. w [] a m = Some False"
    and "\<And>lo hi rs a m. w ((lo, hi) # rs) a m = do { x \<leftarrow> g lo hi a m; case x of Inl r \<Rightarrow> Some r | Inr y \<Rightarrow> w rs (fst y) (snd y) }"
  shows "w rs acc makers = map_option yes (visit f (concat (map h rs)) acc makers)"
proof (induction rs arbitrary: acc makers)
  case (Cons r rs)
  obtain lo hi where r: "r = (lo, hi)" by (cases r)
  show ?case unfolding r assms(3) list.map concat.simps visit_append assms(1)
    by (cases "visit f (h (lo, hi)) acc makers") (auto simp: Cons.IH yes_def split: sum.split)
qed (simp add: assms(2) yes_def)

text \<open>The occupied slots of the makers, best price first.\<close>

definition visited :: "orderbook \<Rightarrow> side \<Rightarrow> u32 list" where
  "visited b sd = (case sd of
     Buy \<Rightarrow> concat (map (slots_between (members (ob_ask_occ b))) (ob_price_asc b))
   | Sell \<Rightarrow> rev (concat (map (slots_between (members (ob_bid_occ b))) (ob_price_asc b))))"

lemma can_fill_visit:
  assumes rel: "book_rel b Q F D"
  shows "can_fill_fully b sd limit needed = map_option yes (visit (level_at_side b sd limit needed) (visited b sd) 0 0)"
proof (cases sd)
  case Buy
  have small: "members (ob_ask_occ b) \<subseteq> {..<NONE}"
    using book_relD(17) [OF rel] queue_tick(3) [OF rel] by auto
  show ?thesis
    using ranges_visit [of "range_asks b limit needed" "level_asks b limit needed" "slots_between (members (ob_ask_occ b))"
        "ranges_asks b limit needed", OF range_asks_visit [OF book_relD(7) [OF rel] small], of "ob_price_asc b" 0 0] Buy
    by (simp add: can_fill_fully_def visited_def level_at_side_def [abs_def])
next
  case Sell
  have "concat (map (rev \<circ> slots_between S) (rev rs)) = rev (concat (map (slots_between S) rs))" for S rs
    by (induction rs) simp_all
  then show ?thesis
    using ranges_visit [of "range_bids b limit needed" "level_bids b limit needed" "rev \<circ> slots_between (members (ob_bid_occ b))"
        "ranges_bids b limit needed", OF _ _ _, of "rev (ob_price_asc b)" 0 0] Sell range_bids_visit [OF book_relD(5) [OF rel]]
    by (simp add: can_fill_fully_def visited_def level_at_side_def [abs_def])
qed

section \<open>Price order of the walk\<close>

lemma distinct_sorted_wrt: "sorted_wrt (\<noteq>) xs \<Longrightarrow> distinct xs"
  by (induction xs) auto

lemma sorted_wrt_concat:
  assumes "\<forall>xs\<in>set xss. sorted_wrt P xs" and "sorted_wrt (\<lambda>xs ys. \<forall>x\<in>set xs. \<forall>y\<in>set ys. P x y) xss"
  shows "sorted_wrt P (concat xss)"
  using assms by (induction xss) (auto simp: sorted_wrt_append)

definition cheaper :: "compression_map \<Rightarrow> nat \<Rightarrow> nat \<Rightarrow> bool" where
  "cheaper c t u \<longleftrightarrow> t \<noteq> u \<and> (\<forall>p q. slot_index c p = t \<longrightarrow> slot_index c q = u \<longrightarrow> p < q)"

lemma cheaper_ranges:
  assumes ok: "comp_ok c" and ij: "i \<le> j" "j < length (build_price_asc c)" "i = j \<longrightarrow> t < u"
    and t: "fst (build_price_asc c ! i) \<le> t" "t < snd (build_price_asc c ! i)"
    and u: "fst (build_price_asc c ! j) \<le> u" "u < snd (build_price_asc c ! j)"
  shows "cheaper c t u"
proof -
  have ne: "t \<noteq> u" using comp_ladder.ranges_disjoint [OF ok, of i j t] ij t u by auto
  have "p < q" if s: "slot_index c p = t" "slot_index c q = u" for p q
  proof (rule ccontr)
    assume "\<not> p < q"
    then have qp: "q \<le> p" by simp
    have r: "region_of c p = i" "region_of c q = j"
      using comp_ladder.region_unique [OF ok] ij t u s by auto
    then have "i = j" using comp_ladder.region_mono [OF ok qp] ij(1) by simp
    then have "u \<le> t" "t < u" using comp_ladder.slot_mono [OF ok qp] r s ij(3) by simp_all
    then show False by simp
  qed
  with ne show ?thesis by (simp add: cheaper_def)
qed

lemma visited_ascending:
  assumes ok: "comp_ok c" and S: "S \<subseteq> range (slot_index c)"
  shows "sorted_wrt (cheaper c) (concat (map (slots_between S) (build_price_asc c)))"
    "set (concat (map (slots_between S) (build_price_asc c))) = S"
proof -
  let ?rs = "build_price_asc c"
  show "sorted_wrt (cheaper c) (concat (map (slots_between S) ?rs))"
  proof (rule sorted_wrt_concat)
    show "\<forall>xs\<in>set (map (slots_between S) ?rs). sorted_wrt (cheaper c) xs"
    proof (clarsimp)
      fix lo hi assume "(lo, hi) \<in> set ?rs"
      then obtain i where i: "i < length ?rs" "?rs ! i = (lo, hi)" by (auto simp: in_set_conv_nth)
      have "sorted_wrt (\<lambda>t u. t < u \<and> lo \<le> t \<and> u < hi) (slots_between S (lo, hi))"
        unfolding slots_between_def by (rule sorted_wrt_filter) (auto simp: sorted_wrt_iff_nth_less)
      then show "sorted_wrt (cheaper c) (slots_between S (lo, hi))"
        by (rule sorted_wrt_mono_rel [rotated]) (use cheaper_ranges [OF ok, of i i] i in auto)
    qed
    show "sorted_wrt (\<lambda>xs ys. \<forall>x\<in>set xs. \<forall>y\<in>set ys. cheaper c x y) (map (slots_between S) ?rs)"
      unfolding sorted_wrt_iff_nth_less
    proof (clarsimp)
      fix i j x y assume "i < j" "j < length ?rs" "x \<in> set (slots_between S (?rs ! i))" "y \<in> set (slots_between S (?rs ! j))"
      then show "cheaper c x y" using cheaper_ranges [OF ok, of i j x y] by (auto simp: slots_between_def)
    qed
  qed
  show "set (concat (map (slots_between S) ?rs)) = S"
  proof (intro equalityI subsetI)
    fix t assume t: "t \<in> S"
    then obtain p where "t = slot_index c p" using S by blast
    then have "?rs ! region_of c p \<in> set ?rs" "t \<in> set (slots_between S (?rs ! region_of c p))"
      using comp_ladder.region_bound [OF ok] comp_ladder.slot_in_region [OF ok, of p] t by (auto simp: slots_between_def)
    then show "t \<in> set (concat (map (slots_between S) ?rs))" by auto
  qed (auto simp: slots_between_def)
qed

text \<open>\<open>ahead\<close>: every maker in the first slot has a strictly better price than every maker in the second.\<close>

definition ahead :: "orderbook \<Rightarrow> queues \<Rightarrow> side \<Rightarrow> nat \<Rightarrow> nat \<Rightarrow> bool" where
  "ahead b Q sd t u \<longleftrightarrow> t \<noteq> u \<and> (\<forall>x\<in>set (Q t). \<forall>y\<in>set (Q u). better (opp sd) (os_price (ord b x)) (os_price (ord b y)))"

lemma visited_ok:
  assumes rel: "book_rel b Q F D"
  shows "sorted_wrt (ahead b Q sd) (visited b sd)" "distinct (visited b sd)"
    "set (visited b sd) = {t. \<exists>h\<in>set (Q t). on_side (opp sd) (ord b h)}"
proof -
  let ?S = "members (case opp sd of Buy \<Rightarrow> ob_bid_occ b | Sell \<Rightarrow> ob_ask_occ b)"
  note m = occ_members [OF rel, of "opp sd"] and asc = book_relD(2,3) [OF rel]
  note v = visited_ascending [OF asc(1) m(2)]
  have s: "slot_index (ob_compression b) (os_price (ord b x)) = t" if "x \<in> set (Q t)" for x t
    using book_relD(11) [OF rel that] by (simp add: slot_ok_def)
  show "set (visited b sd) = {t. \<exists>h\<in>set (Q t). on_side (opp sd) (ord b h)}"
    using v(2) m(1) asc(2) by (cases sd) (simp_all add: visited_def)
  have ah: "ahead b Q Buy t u" "ahead b Q Sell u t" if "cheaper (ob_compression b) t u" for t u
    using that s unfolding cheaper_def ahead_def better_def by (force intro: less_imp_le)+
  show srt: "sorted_wrt (ahead b Q sd) (visited b sd)"
  proof (cases sd)
    case Buy
    then show ?thesis using sorted_wrt_mono_rel [OF _ v(1), of "ahead b Q Buy"] ah(1) asc(2) by (simp add: visited_def)
  next
    case Sell
    then show ?thesis using sorted_wrt_mono_rel [OF _ v(1), of "\<lambda>t u. ahead b Q Sell u t"] ah(2) asc(2)
      by (simp add: visited_def sorted_wrt_rev)
  qed
  have "sorted_wrt (\<noteq>) (visited b sd)" by (rule sorted_wrt_mono_rel [OF _ srt]) (simp add: ahead_def)
  then show "distinct (visited b sd)" by (rule distinct_sorted_wrt)
qed

section \<open>The answer\<close>

lemma later_out_of_reach:
  assumes "book_rel b Q F D" and "ahead b Q sd t u" and "g \<in> set (Q t)" "on_side (opp sd) (ord b g)" and "hits b Q sd limit t = []"
  shows "hits b Q sd limit u = []"
proof (rule ccontr)
  assume "hits b Q sd limit u \<noteq> []"
  then obtain y where y: "y \<in> set (Q u)" "crosses b sd limit y" by (auto simp: hits_def filter_empty_conv)
  have "better (opp sd) (os_price (ord b g)) (os_price (ord b y))" using assms(2,3) y(1) by (simp add: ahead_def)
  then have "crosses b sd limit g" using y(2) assms(4)
    by (cases sd) (auto simp: crosses_def is_crossing_def better_def on_side_def is_buy_def)
  then show False using assms(3,5) by (auto simp: hits_def filter_empty_conv)
qed

lemma visit_ok:
  assumes rel: "book_rel b Q F D" and un: "uncrossed b Q"
  shows "sorted_wrt (ahead b Q sd) ts \<Longrightarrow> \<forall>t\<in>set ts. \<exists>h\<in>set (Q t). on_side (opp sd) (ord b h) \<Longrightarrow>
    acc < needed \<Longrightarrow> 0 \<le> acc \<Longrightarrow> acc + (\<Sum>t\<leftarrow>ts. hit_qty b Q sd limit t) \<le> i64_max \<Longrightarrow>
    makers + (\<Sum>t\<leftarrow>ts. length (hits b Q sd limit t)) \<le> MAX_MAKERS_PER_ORDER \<Longrightarrow>
    \<exists>x. visit (level_at_side b sd limit needed) ts acc makers = Some x \<and> (yes x \<longleftrightarrow> needed \<le> acc + (\<Sum>t\<leftarrow>ts. hit_qty b Q sd limit t))"
proof (induction ts arbitrary: acc makers)
  case Nil
  then show ?case by (simp add: yes_def)
next
  case (Cons t ts)
  let ?s = "hit_qty b Q sd limit t" and ?S = "\<Sum>t\<leftarrow>ts. hit_qty b Q sd limit t"
  obtain g where g: "g \<in> set (Q t)" "on_side (opp sd) (ord b g)" using Cons.prems(2) by auto
  have nn: "0 \<le> ?s" "0 \<le> ?S" using hit_qty_nonneg [OF rel] by (auto intro!: sum_list_nonneg)
  obtain stop where l: "level_at_side b sd limit needed t acc makers =
      Some (slot_answer needed ?s (length (hits b Q sd limit t)) stop acc makers)" "stop \<longrightarrow> hits b Q sd limit t = []"
    using level_walk [OF rel un g Cons.prems(3,4), where limit = limit and makers = makers] Cons.prems(5,6) nn by auto
  show ?case
  proof (cases "needed \<le> acc + ?s")
    case True
    then show ?thesis using l(1) nn by (simp add: slot_answer_def yes_def)
  next
    case more: False
    show ?thesis
    proof (cases stop)
      case True
      then have "\<forall>u\<in>set ts. hits b Q sd limit u = []" "hits b Q sd limit t = []"
        using later_out_of_reach [OF rel _ g] l(2) Cons.prems(1) by auto
      then have "?S = 0" "?s = 0" by (induction ts) auto
      then show ?thesis using l(1) more True by (simp add: slot_answer_def yes_def)
    next
      case False
      have "\<exists>x. visit (level_at_side b sd limit needed) ts (acc + ?s) (makers + length (hits b Q sd limit t)) = Some x \<and>
          (yes x \<longleftrightarrow> needed \<le> (acc + ?s) + ?S)"
        by (rule Cons.IH) (use Cons.prems more nn in auto)
      then show ?thesis using l(1) more False by (simp add: slot_answer_def add.assoc)
    qed
  qed
qed

lemma can_fill_fully_ok:
  assumes wf: "wf b Q F" and un: "uncrossed b Q" and qty: "resting_qty b Q \<le> i64_max" and need: "0 < needed"
    and few: "card (reach b Q sd limit) \<le> MAX_MAKERS_PER_ORDER"
  shows "can_fill_fully b sd limit needed = Some (needed \<le> available b Q sd limit)"
proof -
  note rel = wfD(1) [OF wf] and v = visited_ok [OF wfD(1) [OF wf], of sd]
  note h = hits_total [OF rel v(2), of sd limit]
  have "available b Q sd limit \<le> resting_qty b Q" unfolding available_def resting_qty_def
    by (rule sum_mono2) (use finite_queued [OF rel] rem_nonneg [OF rel] in \<open>auto simp: reach_def\<close>)
  moreover have cover: "reach b Q sd limit \<subseteq> (\<Union>t\<in>set (visited b sd). set (hits b Q sd limit t))"
  proof
    fix x assume x: "x \<in> reach b Q sd limit"
    then obtain t where t: "x \<in> set (Q t)" by (auto simp: reach_def queued_def)
    have "on_side (opp sd) (ord b x)" using crosses_opposite [OF rel] x by (auto simp: reach_def)
    then show "x \<in> (\<Union>t\<in>set (visited b sd). set (hits b Q sd limit t))"
      using t x unfolding v(3) by (auto simp: hits_def reach_def)
  qed
  ultimately have "\<exists>x. visit (level_at_side b sd limit needed) (visited b sd) 0 0 = Some x \<and>
      (yes x \<longleftrightarrow> needed \<le> 0 + (\<Sum>t\<leftarrow>visited b sd. hit_qty b Q sd limit t))"
    by (intro visit_ok [OF rel un v(1)]) (use v(3) h need few qty in auto)
  then show ?thesis unfolding can_fill_visit [OF rel] using h(3) [OF cover] by auto
qed

end
