(* ===== verification/Match_Process.thy ===== *)
theory Match_Process
  imports Match_Order Fill_Or_Kill
begin

text \<open>
  \<open>process_new_order\<close> as a whole: which gate an order fails, and what happens to one that passes them all.
\<close>

section \<open>The book between orders\<close>

definition good :: "orderbook \<Rightarrow> queues \<Rightarrow> u32 list \<Rightarrow> bool" where
  "good b Q F \<longleftrightarrow> wf b Q F \<and> uncrossed b Q \<and> 0 < bc_tick_size (ob_config b) \<and> 0 < bc_lot_size (ob_config b) \<and>
     cp_tick_size (ob_compression b) = bc_tick_size (ob_config b)"

text \<open>What the matcher relies on: a machine-sized order, room for one more order and user, and no more resting
  quantity than an \<open>i64\<close> holds.\<close>

definition acceptable :: "orderbook \<Rightarrow> queues \<Rightarrow> incoming_order \<Rightarrow> bool" where
  "acceptable b Q oc \<longleftrightarrow> io_remaining_qty oc = io_qty oc \<and> io_price oc \<le> i64_max \<and>
     resting_qty b Q + max 0 (io_qty oc) \<le> i64_max \<and> card (queued Q) < length (slots (ob_orders b)) \<and>
     (ur_contains (ob_users b) (io_user_id oc) \<or> users_room (ob_users b)) \<and>
     (io_tif oc = FOK \<longrightarrow> card (reach b Q (io_side oc) (io_price oc)) \<le> MAX_MAKERS_PER_ORDER)"

lemma rem_event [simp]: "rem (b\<lparr>ob_event_buf := e\<rparr>) h = rem b h" "crosses (b\<lparr>ob_event_buf := e\<rparr>) sd l h = crosses b sd l h"
  by (simp_all add: rem_def crosses_def)

lemma resting_qty_event [simp]: "resting_qty (b\<lparr>ob_event_buf := e\<rparr>) Q = resting_qty b Q"
  "available (b\<lparr>ob_event_buf := e\<rparr>) Q sd l = available b Q sd l" "reach (b\<lparr>ob_event_buf := e\<rparr>) Q sd l = reach b Q sd l"
  by (simp_all add: resting_qty_def available_def reach_def)

lemma good_event [simp]: "good (b\<lparr>ob_event_buf := e\<rparr>) Q F = good b Q F"
  by (simp add: good_def)

lemma side_crosses_event [simp]: "side_crosses (b\<lparr>ob_event_buf := e\<rparr>) oc = side_crosses b oc"
  by (cases "io_side oc") (simp_all add: side_crosses_def)

section \<open>The gates\<close>

definition reduces :: "orderbook \<Rightarrow> incoming_order \<Rightarrow> bool" where
  "reduces b oc \<longleftrightarrow> (case io_side oc of Buy \<Rightarrow> position_of (ob_users b) (io_user_id oc) < 0
     | Sell \<Rightarrow> 0 < position_of (ob_users b) (io_user_id oc))"

definition clamped :: "orderbook \<Rightarrow> incoming_order \<Rightarrow> incoming_order" where
  "clamped b oc = (if io_reduce_only oc
     then oc\<lparr>io_remaining_qty := min (io_remaining_qty oc) (abs_capped (position_of (ob_users b) (io_user_id oc)))\<rparr> else oc)"

text \<open>The specification of everything before the match loop: \<open>Inl\<close> the event of a rejection and the order
  as the caller gets it back, \<open>Inr\<close> the order that goes to the match loop.\<close>

definition gate :: "orderbook \<Rightarrow> queues \<Rightarrow> incoming_order \<Rightarrow> event \<times> incoming_order + incoming_order" where
  "gate b Q oc =
     (if \<not> (0 < io_price oc \<and> bc_tick_size (ob_config b) dvd io_price oc) then Inl (order_failed oc InvalidTick, oc)
      else if \<not> (0 < io_qty oc \<and> bc_lot_size (ob_config b) dvd io_qty oc) then Inl (order_failed oc InvalidLot, oc)
      else if io_reduce_only oc \<and> \<not> reduces b oc then Inl (order_failed oc ReduceOnly, oc)
      else if io_post_only oc \<and> side_crosses b oc
        then Inl (order_done (clamped b oc) PostOnly 0 (io_remaining_qty (clamped b oc)), clamped b oc)
      else if io_tif oc = FOK \<and> available b Q (io_side oc) (io_price oc) < io_remaining_qty (clamped b oc)
        then Inl (order_failed (clamped b oc) FillOrKill, clamped b oc)
      else Inr (clamped b oc))"

lemma check_alignment_ok:
  assumes "0 < bc_tick_size (ob_config b)" and "0 < bc_lot_size (ob_config b)"
  shows "check_alignment b oc = Some
    (if \<not> (0 < io_price oc \<and> bc_tick_size (ob_config b) dvd io_price oc) then Some InvalidTick
     else if \<not> (0 < io_qty oc \<and> bc_lot_size (ob_config b) dvd io_qty oc) then Some InvalidLot else None)"
  using assms by (auto simp: check_alignment_def smod_zero_dvd)

lemma position_unknown: "\<not> ur_contains u uid \<Longrightarrow> position_of u uid = 0"
  by (simp add: ur_contains_def position_of_def split: option.split)

lemma reduce_only_gate_ok:
  assumes "users_ok (ob_users b)"
  shows "reduce_only_gate b oc = Some (if io_reduce_only oc \<and> \<not> reduces b oc then Inl ReduceOnly else Inr (clamped b oc))"
proof (cases "ur_contains (ob_users b) (io_user_id oc)")
  case True
  then show ?thesis using net_qty_view [OF assms, of "io_user_id oc"]
    by (cases "io_side oc") (auto simp: reduce_only_gate_def reduces_def clamped_def min_def)
next
  case False
  then show ?thesis using net_qty_view [OF assms, of "io_user_id oc"] position_unknown [OF False]
    by (cases "io_side oc") (auto simp: reduce_only_gate_def reduces_def clamped_def)
qed

lemma reduces_event [simp]:
  "reduces (b\<lparr>ob_event_buf := e\<rparr>) oc = reduces b oc" "clamped (b\<lparr>ob_event_buf := e\<rparr>) oc = clamped b oc"
  by (cases "io_side oc"; simp add: reduces_def clamped_def)+

lemma clamped_sel [simp]:
  "io_price (clamped b oc) = io_price oc" "io_side (clamped b oc) = io_side oc" "io_tif (clamped b oc) = io_tif oc"
  "io_user_id (clamped b oc) = io_user_id oc" "io_post_only (clamped b oc) = io_post_only oc"
  "io_reduce_only (clamped b oc) = io_reduce_only oc" "io_order_id_hi (clamped b oc) = io_order_id_hi oc"
  "io_order_id_lo (clamped b oc) = io_order_id_lo oc" "io_timestamp_ns (clamped b oc) = io_timestamp_ns oc"
  by (simp_all add: clamped_def)

lemma clamped_qty:
  assumes "0 < io_remaining_qty oc" and "io_reduce_only oc \<Longrightarrow> reduces b oc"
  shows "0 < io_remaining_qty (clamped b oc)" "io_remaining_qty (clamped b oc) \<le> io_remaining_qty oc"
  using assms by (cases "io_side oc"; auto simp: clamped_def reduces_def abs_capped_def i64_max_def)+

lemma process_gate:
  assumes g: "good b Q F" and a: "acceptable b Q oc"
  shows "process_new_order b oc = (case gate b Q oc of
      Inl (e, oc') \<Rightarrow> Some (b\<lparr>ob_event_buf := [e]\<rparr>, oc')
    | Inr oc' \<Rightarrow> execute_order (b\<lparr>ob_event_buf := []\<rparr>) oc')"
proof -
  let ?b = "b\<lparr>ob_event_buf := []\<rparr>"
  have wf: "wf b Q F" and un: "uncrossed b Q" and tl: "0 < bc_tick_size (ob_config b)" "0 < bc_lot_size (ob_config b)"
    using g by (simp_all add: good_def)
  have us: "users_ok (ob_users b)" using wfD(4) [OF wf] by (simp add: users_rel_def)
  have ca: "check_alignment ?b oc = check_alignment b oc" by (simp add: check_alignment_def cong: if_cong)
  have em: "emit ?b e = Some (b\<lparr>ob_event_buf := [e]\<rparr>)" for e by (simp add: emit_def assert_that_def MAX_EVENTS_def)
  have ro: "reduce_only_gate ?b oc = Some (if io_reduce_only oc \<and> \<not> reduces b oc then Inl ReduceOnly else Inr (clamped b oc))"
    using reduce_only_gate_ok [of ?b oc] us by simp
  have wc: "would_cross ?b (clamped b oc) = side_crosses b oc" by (cases "io_side oc") (simp_all add: would_cross_iff side_crosses_def)
  have qty: "resting_qty b Q \<le> i64_max" using a unfolding acceptable_def by linarith
  have fok: "can_fill_fully ?b (io_side oc) (io_price oc) (io_remaining_qty (clamped b oc)) =
      Some (io_remaining_qty (clamped b oc) \<le> available b Q (io_side oc) (io_price oc))"
    if "0 < io_qty oc" "io_reduce_only oc \<Longrightarrow> reduces b oc" "io_tif oc = FOK"
    using can_fill_fully_ok [of ?b Q F "io_remaining_qty (clamped b oc)" "io_side oc" "io_price oc"] wf un qty a
      clamped_qty(1) [of oc b] that by (simp add: acceptable_def)
  show ?thesis
    unfolding process_new_order_def Let_def ca check_alignment_ok [OF tl] ro em gate_def
    using fok by (auto simp: wc em not_less)
qed

section \<open>Orders that pass\<close>

lemma gate_Inr:
  assumes "gate b Q oc = Inr oc1"
  shows "oc1 = clamped b oc" "0 < io_price oc" "bc_tick_size (ob_config b) dvd io_price oc" "0 < io_qty oc"
    "io_reduce_only oc \<Longrightarrow> reduces b oc" "io_post_only oc \<Longrightarrow> \<not> side_crosses b oc"
    "io_tif oc = FOK \<Longrightarrow> io_remaining_qty oc1 \<le> available b Q (io_side oc) (io_price oc)"
  using assms by (auto simp: gate_def split: if_splits)

lemma gate_ready:
  assumes g: "good b Q F" and a: "acceptable b Q oc" and gt: "gate b Q oc = Inr oc1"
  shows "ready (b\<lparr>ob_event_buf := []\<rparr>) Q oc1" "0 < io_remaining_qty oc1" "io_remaining_qty oc1 \<le> io_qty oc"
proof -
  note G = gate_Inr [OF gt]
  have r: "0 < io_remaining_qty oc1" "io_remaining_qty oc1 \<le> io_qty oc"
    using clamped_qty [of oc b] G(1,4,5) a by (auto simp: acceptable_def)
  then show "0 < io_remaining_qty oc1" "io_remaining_qty oc1 \<le> io_qty oc" .
  have "0 \<le> resting_qty b Q" unfolding resting_qty_def
    using g rem_nonneg wfD(1) unfolding good_def by (blast intro: sum_nonneg)
  then show "ready (b\<lparr>ob_event_buf := []\<rparr>) Q oc1"
    using r g a G(2,3) by (auto simp: ready_def taker_ok_def acceptable_def good_def price_range_def G(1))
qed

lemma settled_config: "settled b Q oc fl b' Q' e \<Longrightarrow> ob_config b' = ob_config b \<and> ob_compression b' = ob_compression b \<and>
    length (slots (ob_orders b')) = length (slots (ob_orders b))"
  by (auto simp: settled_def book_sig_def split: if_splits)

lemma executed_config: "executed b Q oc fs e b' Q' oc' \<Longrightarrow> ob_config b' = ob_config b \<and> ob_compression b' = ob_compression b \<and>
    length (slots (ob_orders b')) = length (slots (ob_orders b))"
  using fills_frame settled_config unfolding executed_def own_frame_def by fastforce

text \<open>Everything about one order: either one rejection event and an untouched book, or a full execution.\<close>

lemma process_cases:
  assumes g: "good b Q F" and a: "acceptable b Q oc"
  shows "(\<exists>e oc'. gate b Q oc = Inl (e, oc') \<and> process_new_order b oc = Some (b\<lparr>ob_event_buf := [e]\<rparr>, oc')) \<or>
    (\<exists>fs e b' Q' oc' F'. gate b Q oc = Inr (clamped b oc) \<and> process_new_order b oc = Some (b', oc') \<and>
      executed (b\<lparr>ob_event_buf := []\<rparr>) Q (clamped b oc) fs e b' Q' oc' \<and> good b' Q' F')"
proof (cases "gate b Q oc")
  case (Inl x)
  then show ?thesis using process_gate [OF g a] by (cases x) simp
next
  case (Inr oc1)
  have oc1: "oc1 = clamped b oc" by (rule gate_Inr(1) [OF Inr])
  have "wf (b\<lparr>ob_event_buf := []\<rparr>) Q F" "uncrossed (b\<lparr>ob_event_buf := []\<rparr>) Q" using g by (simp_all add: good_def)
  from execute_order_ok [OF this gate_ready(1) [OF g a Inr]] obtain b' oc' Q' F' fs e
    where x: "execute_order (b\<lparr>ob_event_buf := []\<rparr>) oc1 = Some (b', oc')" "executed (b\<lparr>ob_event_buf := []\<rparr>) Q oc1 fs e b' Q' oc'"
      "wf b' Q' F'" "uncrossed b' Q'" by blast
  have "good b' Q' F'" using x(3,4) executed_config [OF x(2)] g by (simp add: good_def)
  with x process_gate [OF g a] Inr oc1 show ?thesis by auto
qed

section \<open>All or nothing\<close>

lemma fills_complete:
  "fills b Q oc fs b' Q' oc' \<Longrightarrow> linear Q \<Longrightarrow> 0 < io_remaining_qty oc' \<Longrightarrow>
    queued Q' = queued Q - fst ` set fs \<and> distinct (map fst fs) \<and> length (ob_event_buf b') = length (ob_event_buf b) + 2 * length fs"
proof (induction rule: fills.induct)
  case (fills_step b Q oc h d b1 Q1 oc1 fs b2 Q2 oc2)
  note f = one_fill_facts [OF fills_step(1)] and q = one_fill_linear [OF fills_step(1) fills_step.prems(1)]
  have "io_remaining_qty oc2 \<le> io_remaining_qty oc1" using fills_remaining [OF fills_step(2)] total_nonneg [OF fills_step(2)] by simp
  then have "io_remaining_qty oc \<noteq> d" using f(7) fills_step.prems(2) by simp
  moreover have "d = min (io_remaining_qty oc) (rem b h)" using fills_step(1) by (simp add: one_fill_def)
  ultimately have d: "d = rem b h" by (simp add: min_def split: if_splits)
  then have "length (ob_event_buf b1) = length (ob_event_buf b) + 2" using fills_step(1) unfolding one_fill_def by simp
  moreover have "queued Q1 = queued Q - {h}" using q(2) d by simp
  moreover have "h \<notin> fst ` set fs" using fills_cross [OF fills_step(2)] \<open>queued Q1 = queued Q - {h}\<close> by force
  ultimately show ?case using fills_step.IH [OF q(1) fills_step.prems(2)] by auto
qed simp_all

lemma filled_of_nonneg: "\<forall>f\<in>set fs. 0 < snd f \<Longrightarrow> 0 \<le> filled_of fs h"
  by (induction fs) auto

lemma available_filled:
  assumes f: "fills b Q oc fs b' Q' oc'" and rel: "book_rel b Q F D" and rel': "book_rel b' Q' F' D'"
    and gone: "reach b Q sd limit \<inter> queued Q' = {}"
  shows "available b Q sd limit \<le> total_filled fs"
proof -
  let ?R = "reach b Q sd limit"
  note fin = finite_queued [OF rel]
  have sub: "queued Q' \<subseteq> queued Q - ?R" using fills_queued [OF f] gone by auto
  have "resting_qty b Q = available b Q sd limit + (\<Sum>h\<in>queued Q - ?R. rem b h)"
    unfolding resting_qty_def available_def using sum.subset_diff [OF _ fin, of ?R "rem b"] by (simp add: reach_def add.commute)
  moreover have "resting_qty b' Q' \<le> (\<Sum>h\<in>queued Q'. rem b h)" unfolding resting_qty_def
  proof (rule sum_mono)
    fix h assume "h \<in> queued Q'"
    then show "rem b' h \<le> rem b h" using fills_rem [OF f] filled_of_nonneg [of fs h] fills_positive [OF f] by simp
  qed
  moreover have "(\<Sum>h\<in>queued Q'. rem b h) \<le> (\<Sum>h\<in>queued Q - ?R. rem b h)"
    by (rule sum_mono2 [OF _ sub]) (use fin rem_nonneg [OF rel] in auto)
  moreover have "resting_qty b' Q' + total_filled fs = resting_qty b Q" using fills_qty [OF f book_rel_linear [OF rel] fin] by simp
  ultimately show ?thesis by linarith
qed

text \<open>If what is within reach covers the taker, and can be reached in one order, the taker is filled.\<close>

lemma covered_filled:
  assumes f: "fills b Q oc fs b' Q' oc'" and rel: "book_rel b Q F {}" and wf': "wf b' Q' F'" and ld: "loop_done b' oc'"
    and buf: "ob_event_buf b = []" and few: "card (reach b Q (io_side oc) (io_price oc)) \<le> MAX_MAKERS_PER_ORDER"
    and cov: "io_remaining_qty oc \<le> available b Q (io_side oc) (io_price oc)" and nn: "0 \<le> io_remaining_qty oc"
  shows "io_remaining_qty oc' = 0"
proof (rule ccontr)
  assume "io_remaining_qty oc' \<noteq> 0"
  then have pos: "0 < io_remaining_qty oc'" using fills_nonneg [OF f nn] by simp
  let ?R = "reach b Q (io_side oc) (io_price oc)"
  note c = fills_complete [OF f book_rel_linear [OF rel] pos]
  have same: "io_side oc' = io_side oc" "io_price oc' = io_price oc" using fills_taker [OF f] by simp_all
  have fsR: "fst ` set fs \<subseteq> ?R" using fills_cross [OF f] by (force simp: reach_def)
  have finR: "finite ?R" using finite_queued [OF rel] by (simp add: reach_def)
  have gone: "?R \<inter> queued Q' = {}"
  proof (cases "is_budget_spent b'")
    case True
    then have "MAX_MAKERS_PER_ORDER \<le> length fs" using c buf by (simp add: is_budget_spent_def)
    then have "card ?R \<le> card (fst ` set fs)" using few distinct_card [of "map fst fs"] c by simp
    then have "fst ` set fs = ?R" using card_seteq [OF finR fsR] by simp
    then show ?thesis using c by auto
  next
    case False
    then have nc: "\<not> side_crosses b' oc'" using ld pos by (auto simp: loop_done_def)
    show ?thesis
    proof (rule equals0I)
      fix x assume x: "x \<in> ?R \<inter> queued Q'"
      then have cr: "crosses b' (io_side oc) (io_price oc) x" using fills_crosses_same [OF f] by (auto simp: reach_def)
      have "x \<in> resting b' Q' (opp (io_side oc'))"
        using crosses_opposite [OF wfD(1) [OF wf'] _ cr] x same by (simp add: resting_def)
      from not_crossing_opposite [OF wfD(1) [OF wf'] wfD(3) [OF wf'] nc this] cr same show False
        by (cases "io_side oc") (auto simp: crosses_def is_crossing_def)
    qed
  qed
  have "available b Q (io_side oc) (io_price oc) \<le> total_filled fs"
    by (rule available_filled [OF f rel wfD(1) [OF wf'] gone])
  then show False using fills_remaining [OF f] cov pos by simp
qed

end
