(* ===== verification/Match_Props.thy ===== *)
theory Match_Props
  imports Match_Process
begin

text \<open>
  The contract of \<open>process_new_order\<close>, over any book between orders (\<open>good\<close>) and any order the
  risk engine may forward (\<open>acceptable\<close>): it returns a book that is good again, quantity is
  conserved, each order ends in exactly one terminal event, fills are at the maker's price and within the
  taker's limit, and the order types keep their promises.
\<close>

section \<open>Reading the event buffer\<close>

definition rested_qty :: "event list \<Rightarrow> int" where
  "rested_qty es = (\<Sum>e\<leftarrow>es. if is_OrderInserted e then ins_qty e else 0)"

text \<open>The events that end the life of an incoming order, or its life as a taker.\<close>

definition is_terminal :: "event \<Rightarrow> bool" where
  "is_terminal e \<longleftrightarrow> is_OrderInserted e \<or> is_OrderFailed e \<or> (is_OrderDone e \<and> done_handle e = NONE)"

definition terminal_for :: "incoming_order \<Rightarrow> event \<Rightarrow> bool" where
  "terminal_for oc e \<longleftrightarrow> (case e of
     OrderInserted h u sd px q hi lo \<Rightarrow> u = io_user_id oc \<and> hi = io_order_id_hi oc \<and> lo = io_order_id_lo oc
   | OrderFailed u r hi lo \<Rightarrow> u = io_user_id oc \<and> hi = io_order_id_hi oc \<and> lo = io_order_id_lo oc
   | OrderDone h tif ro u r fq rq hi lo \<Rightarrow> h = NONE \<and> u = io_user_id oc \<and> hi = io_order_id_hi oc \<and> lo = io_order_id_lo oc
   | _ \<Rightarrow> False)"

lemma maker_event_not_terminal:
  assumes "maker_event b Q oc e" and "book_rel b Q F D"
  shows "\<not> is_terminal e" "\<not> is_OrderInserted e"
proof -
  have "h \<noteq> NONE" if "h \<in> queued Q" for h using queue_tick(6) [OF assms(2)] that by (auto simp: queued_def)
  then show "\<not> is_terminal e" "\<not> is_OrderInserted e"
    using assms(1) by (cases e; auto simp: maker_event_def is_terminal_def)+
qed

lemma maker_fill_facts:
  assumes "maker_event b Q oc f" and "is_Fill f"
  shows "fill_maker_handle f \<in> queued Q" "crosses b (io_side oc) (io_price oc) (fill_maker_handle f)"
    "fill_price f = os_price (ord b (fill_maker_handle f))" "0 < fill_qty f"
    "case io_side oc of Buy \<Rightarrow> fill_price f \<le> io_price oc | Sell \<Rightarrow> io_price oc \<le> fill_price f"
    "fill_maker_user_id f = os_user_id (ord b (fill_maker_handle f))" "fill_maker_order_id_hi f = os_order_id_hi (ord b (fill_maker_handle f))"
    "fill_maker_order_id_lo f = os_order_id_lo (ord b (fill_maker_handle f))" "fill_taker_user_id f = io_user_id oc"
    "fill_taker_order_id_hi f = io_order_id_hi oc" "fill_taker_order_id_lo f = io_order_id_lo oc"
  using assms by (cases f; cases "io_side oc"; simp add: maker_event_def crosses_def is_crossing_def)+

lemma terminal_for_facts:
  assumes "terminal_for oc e" shows "is_terminal e" "\<not> is_Fill e" "e \<noteq> BBO p q r s"
  using assms by (cases e; simp add: terminal_for_def is_terminal_def)+

lemma bbo_event_facts [simp]: "\<not> is_terminal (bbo_event b Q)" "\<not> is_Fill (bbo_event b Q)" "\<not> is_OrderInserted (bbo_event b Q)"
  by (simp_all add: bbo_event_def is_terminal_def)

lemma rested_qty_simps [simp]: "rested_qty [] = 0" "rested_qty (e # es) = (if is_OrderInserted e then ins_qty e else 0) + rested_qty es"
  "rested_qty (es @ es') = rested_qty es + rested_qty es'"
  by (simp_all add: rested_qty_def)

lemma no_rested: "\<forall>e\<in>set es. \<not> is_OrderInserted e \<Longrightarrow> rested_qty es = 0"
  by (induction es) auto

lemma maker_event_start [simp]:
  "maker_event (b\<lparr>ob_event_buf := x\<rparr>) Q oc e = maker_event b Q oc e" "maker_event b Q (clamped b' oc) e = maker_event b Q oc e"
  by (cases e; simp add: maker_event_def)+

lemma settled_terminal: "settled b Q oc fl b' Q' e \<Longrightarrow> terminal_for oc e \<and> (is_OrderInserted e \<longleftrightarrow> rests b oc) \<and>
    (is_OrderInserted e \<longrightarrow> ins_qty e = io_remaining_qty oc)"
  by (auto simp: settled_def residual_event_def order_done_def order_failed_def terminal_for_def split: if_splits)

lemma executed_events:
  assumes "executed (b\<lparr>ob_event_buf := []\<rparr>) Q (clamped b oc) fs e b' Q' oc'"
    and bs: "bs = best_moved (b\<lparr>ob_event_buf := []\<rparr>) b'"
  shows "\<exists>ms. ob_event_buf b' = ms @ e # (if bs then [bbo_event b' Q'] else []) \<and> fill_log ms = fs \<and> (\<forall>m\<in>set ms. maker_event b Q oc m) \<and>
      terminal_for oc e"
proof -
  obtain b1 Q1 F1 b2 where x: "fills (b\<lparr>ob_event_buf := []\<rparr>) Q (clamped b oc) fs b1 Q1 oc'"
    "settled b1 Q1 oc' (io_remaining_qty (clamped b oc)) b2 Q' e"
    "b' = b2\<lparr>ob_event_buf := ob_event_buf b2 @ (if best_moved (b\<lparr>ob_event_buf := []\<rparr>) b2 then [bbo_event b2 Q'] else [])\<rparr>"
    using assms(1) unfolding executed_def by blast
  obtain ms where ms: "ob_event_buf b1 = ms" "fill_log ms = fs" "\<forall>m\<in>set ms. maker_event b Q oc m"
    using fills_events [OF x(1)] by auto
  have "bbo_event b' Q' = bbo_event b2 Q'" unfolding x(3) by (simp add: bbo_event_def side_qty_def)
  moreover have "best_moved (b\<lparr>ob_event_buf := []\<rparr>) b' = best_moved (b\<lparr>ob_event_buf := []\<rparr>) b2" unfolding x(3) by (simp add: best_moved_def)
  moreover have "ob_event_buf b2 = ms @ [e]" using x(2) ms(1) by (simp add: settled_def)
  moreover have "terminal_for oc e"
    using settled_terminal [OF x(2)] fills_taker [OF x(1)] by (cases e) (simp_all add: terminal_for_def)
  ultimately show ?thesis using ms bs x(3) by auto
qed

lemma gate_Inl_event:
  assumes "gate b Q oc = Inl (e, oc')"
  shows "terminal_for oc e" "\<not> is_OrderInserted e" "oc' = oc \<or> oc' = clamped b oc"
  using assms by (auto simp: gate_def order_failed_def order_done_def terminal_for_def split: if_splits)

section \<open>Accounting for one order\<close>

lemma settled_account:
  assumes s: "settled b Q oc fl b' Q' e" and fin: "finite (queued Q)"
  shows "resting_qty b' Q' = resting_qty b Q + rested_qty [e]" "card (queued Q') \<le> card (queued Q) + 1"
    "is_OrderInserted e \<Longrightarrow> ins_qty e = io_remaining_qty oc"
proof -
  show "is_OrderInserted e \<Longrightarrow> ins_qty e = io_remaining_qty oc" using settled_terminal [OF s] by blast
  have "resting_qty b' Q' = resting_qty b Q + rested_qty [e] \<and> card (queued Q') \<le> card (queued Q) + 1"
  proof (cases "rests b oc")
    case False
    then have "Q' = Q" "b' = b\<lparr>ob_event_buf := ob_event_buf b @ [e]\<rparr>" "\<not> is_OrderInserted e"
      using s settled_terminal [OF s] by (simp_all add: settled_def)
    then show ?thesis by simp
  next
    case True
    then obtain h where h: "h \<notin> queued Q" "queued Q' = insert h (queued Q)" "rem b' h = io_remaining_qty oc"
      "is_OrderInserted e" "ins_qty e = io_remaining_qty oc" "\<forall>x\<in>queued Q. strip (ord b' x) = strip (ord b x)"
      using s by (auto simp: settled_def fresh_order_def rem_def)
    have "(\<Sum>x\<in>queued Q. rem b' x) = (\<Sum>x\<in>queued Q. rem b x)"
      using strip_eqD(2) [OF bspec [OF h(6)]] by (intro sum.cong) (simp_all add: rem_def)
    then show ?thesis using h fin by (simp add: resting_qty_def)
  qed
  then show "resting_qty b' Q' = resting_qty b Q + rested_qty [e]" "card (queued Q') \<le> card (queued Q) + 1" by blast+
qed

lemma executed_account:
  assumes x: "executed b Q oc fs e b' Q' oc'" and rel: "book_rel b Q F {}"
  shows "resting_qty b' Q' + total_filled fs = resting_qty b Q + rested_qty [e]"
    "io_remaining_qty oc' + total_filled fs = io_remaining_qty oc" "card (queued Q') \<le> card (queued Q) + 1"
    "is_OrderInserted e \<Longrightarrow> ins_qty e = io_remaining_qty oc'" "0 \<le> total_filled fs"
proof -
  obtain b1 Q1 F1 b2 where f: "fills b Q oc fs b1 Q1 oc'" and s: "settled b1 Q1 oc' (io_remaining_qty oc) b2 Q' e"
    and b': "b' = b2\<lparr>ob_event_buf := ob_event_buf b2 @ (if best_moved b b2 then [bbo_event b2 Q'] else [])\<rparr>"
    using x unfolding executed_def by blast
  note fin = finite_queued [OF rel]
  have fin1: "finite (queued Q1)" using fills_queued [OF f] fin by (rule finite_subset)
  note S = settled_account [OF s fin1] and q = fills_qty [OF f book_rel_linear [OF rel] fin]
  show "resting_qty b' Q' + total_filled fs = resting_qty b Q + rested_qty [e]" using S(1) q by (simp add: b')
  show "io_remaining_qty oc' + total_filled fs = io_remaining_qty oc" using fills_remaining [OF f] by simp
  show "card (queued Q') \<le> card (queued Q) + 1" using S(2) fills_card [OF f fin] by linarith
  show "is_OrderInserted e \<Longrightarrow> ins_qty e = io_remaining_qty oc'" by (rule S(3))
  show "0 \<le> total_filled fs" by (rule total_nonneg [OF f])
qed

section \<open>A concrete book\<close>

text \<open>A fresh book around 5000 and the same book with one ask of 10 at 5010 resting on it.\<close>

definition demo_order :: "i64 \<Rightarrow> i64 \<Rightarrow> side \<Rightarrow> time_in_force \<Rightarrow> incoming_order" where
  "demo_order price qty sd tif = \<lparr>io_price = price, io_qty = qty, io_remaining_qty = qty, io_side = sd, io_tif = tif, io_user_id = 1,
     io_reduce_only = False, io_post_only = False, io_timestamp_ns = 1, io_order_id_hi = 0, io_order_id_lo = 7\<rparr>"

definition demo_book :: orderbook where
  "demo_book = the (orderbook_new \<lparr>bc_symbol_id = 1, bc_tick_size = 1, bc_lot_size = 1\<rparr> 16 5000)"

definition demo_asks :: orderbook where
  "demo_asks = fst (the (process_new_order demo_book (demo_order 5010 10 Sell GTC)))"

lemma demo_book_good:
  "good demo_book (\<lambda>t. []) []" "length (slots (ob_orders demo_book)) = 16" "ob_users demo_book = user_registry_new"
proof -
  let ?c = "\<lparr>bc_symbol_id = 1, bc_tick_size = 1, bc_lot_size = 1\<rparr>"
  have r: "regular_mid 5000 (bc_tick_size ?c)" by (simp add: regular_mid_def)
  have "(16::nat) \<le> NONE" by (simp add: NONE_def)
  from orderbook_new_ok [OF r this] obtain b where b: "orderbook_new ?c 16 5000 = Some b" "wf b (\<lambda>t. []) []" "ob_config b = ?c"
    "cp_tick_size (ob_compression b) = 1" "ob_users b = user_registry_new" "length (slots (ob_orders b)) = 16" by auto
  have "demo_book = b" using b(1) by (simp add: demo_book_def)
  then show "good demo_book (\<lambda>t. []) []" "length (slots (ob_orders demo_book)) = 16" "ob_users demo_book = user_registry_new"
    using b by (simp_all add: good_def uncrossed_def resting_def queued_def)
qed

lemma demo_book_accepts: "0 < q \<Longrightarrow> q \<le> 1000 \<Longrightarrow> p \<le> 9000 \<Longrightarrow> acceptable demo_book (\<lambda>t. []) (demo_order p q sd tif)"
  using demo_book_good by (simp add: acceptable_def demo_order_def resting_qty_def queued_def reach_def users_room_def user_registry_new_def
      i64_max_def u32_max_def MAX_MAKERS_PER_ORDER_def MAX_EVENTS_def)

lemma demo_config: "ob_config demo_book = \<lparr>bc_symbol_id = 1, bc_tick_size = 1, bc_lot_size = 1\<rparr>"
  using orderbook_new_ok [of 5000 "\<lparr>bc_symbol_id = 1, bc_tick_size = 1, bc_lot_size = 1\<rparr>" 16]
  by (auto simp: demo_book_def regular_mid_def NONE_def)

lemma demo_gate: "gate demo_book (\<lambda>t. []) (demo_order 5010 10 Sell GTC) = Inr (demo_order 5010 10 Sell GTC)"
  by (simp add: demo_config gate_def demo_order_def clamped_def)

lemma demo_asks_good:
  "\<exists>Q F h. good demo_asks Q F \<and> queued Q = {h} \<and> rem demo_asks h = 10 \<and> os_price (ord demo_asks h) = 5010 \<and>
    on_side Sell (ord demo_asks h) \<and> os_user_id (ord demo_asks h) = 1 \<and>
    length (slots (ob_orders demo_asks)) = 16 \<and> ob_config demo_asks = ob_config demo_book \<and>
    os_order_id_hi (ord demo_asks h) = 0 \<and> os_order_id_lo (ord demo_asks h) = 7"
proof -
  let ?oc = "demo_order 5010 10 Sell GTC" and ?Q = "\<lambda>t::nat. [] :: u32 list" and ?b = "demo_book\<lparr>ob_event_buf := []\<rparr>"
  have cl: "clamped demo_book ?oc = ?oc" by (simp add: clamped_def demo_order_def)
  have a: "acceptable demo_book ?Q ?oc" by (rule demo_book_accepts) simp_all
  from process_cases [OF demo_book_good(1) this] demo_gate cl obtain fs e b' Q' oc' F' where
    p: "process_new_order demo_book ?oc = Some (b', oc')" and x: "executed ?b ?Q ?oc fs e b' Q' oc'" and g: "good b' Q' F'" by auto
  obtain b1 Q1 F1 b2 where f: "fills ?b ?Q ?oc fs b1 Q1 oc'" and s: "settled b1 Q1 oc' (io_remaining_qty ?oc) b2 Q' e"
    and b': "b' = b2\<lparr>ob_event_buf := ob_event_buf b2 @ (if best_moved ?b b2 then [bbo_event b2 Q'] else [])\<rparr>"
    using x unfolding executed_def by blast
  have "fs = []" using fills_cross [OF f] by (cases fs) (auto simp: queued_def)
  then have n: "Q1 = ?Q" "oc' = ?oc" "ob_event_buf b1 = []" using fills_nil [OF f] by simp_all
  then have "rests b1 oc'" by (simp add: rests_def demo_order_def is_match_limited_def is_budget_spent_def MAX_MAKERS_PER_ORDER_def MAX_EVENTS_def)
  then obtain h where "queued Q' = {h}" "fresh_order (ord b2 h) 5010 10 Sell (tif_u8 GTC) 1 False 0 7"
    using s n by (auto simp: settled_def demo_order_def queued_def)
  moreover have d: "demo_asks = b'" using p by (simp add: demo_asks_def)
  moreover have "ob_orders demo_asks = ob_orders b2" by (simp add: d b')
  moreover have "length (slots (ob_orders b')) = 16" "ob_config b' = ob_config demo_book"
    using executed_config [OF x] demo_book_good(2) by simp_all
  ultimately show ?thesis using g
    by (intro exI [of _ Q'] exI [of _ F'] exI [of _ h]) (simp add: fresh_order_def rem_def on_side_def is_buy_def)
qed

lemma demo_asks_accepts:
  assumes "good demo_asks Q F" and "queued Q = {h}" and "rem demo_asks h = 10" and "os_user_id (ord demo_asks h) = 1"
    and "length (slots (ob_orders demo_asks)) = 16" and "0 < q" "q \<le> 1000" "p \<le> 9000"
  shows "acceptable demo_asks Q (demo_order p q sd tif)"
proof -
  have "ur_contains (ob_users demo_asks) 1"
    using owner_known [of demo_asks Q F "{}" h] assms(1,2,4) by (simp add: good_def wf_def)
  moreover have "card (reach demo_asks Q s l) \<le> 1" for s l
  proof -
    have "reach demo_asks Q s l \<subseteq> {h}" using assms(2) by (auto simp: reach_def)
    then show ?thesis using card_mono [of "{h}" "reach demo_asks Q s l"] by simp
  qed
  then have "card (reach demo_asks Q s l) \<le> MAX_MAKERS_PER_ORDER" for s l
    by (rule order_trans) (simp add: MAX_MAKERS_PER_ORDER_def MAX_EVENTS_def)
  ultimately show ?thesis using assms
    by (simp add: acceptable_def demo_order_def resting_qty_def i64_max_def)
qed

section \<open>Reducing only\<close>

definition toward_zero :: "int \<Rightarrow> int \<Rightarrow> bool" where
  "toward_zero p p' \<longleftrightarrow> (if 0 \<le> p then 0 \<le> p' \<and> p' \<le> p else p \<le> p' \<and> p' \<le> 0)"

lemma moved_at: "moved P u m d u = (if m = u then sat_add (sat_add (P u) d) (- d) else sat_add (P u) d)"
  by (simp add: moved_def Let_def)

lemma total_filled_nonneg: "\<forall>f\<in>set fs. 0 < snd f \<Longrightarrow> 0 \<le> total_filled fs"
  by (induction fs) auto

lemma fold_settle:
  assumes "\<forall>f\<in>set fs. 0 < snd f" and "total_filled fs \<le> i64_max"
    and "total_filled fs \<le> (case io_side oc of Buy \<Rightarrow> - P (io_user_id oc) | Sell \<Rightarrow> P (io_user_id oc))"
  shows "case io_side oc of
      Buy \<Rightarrow> P (io_user_id oc) \<le> fold (settle b oc) fs P (io_user_id oc) \<and> fold (settle b oc) fs P (io_user_id oc) \<le> 0
    | Sell \<Rightarrow> fold (settle b oc) fs P (io_user_id oc) \<le> P (io_user_id oc) \<and> 0 \<le> fold (settle b oc) fs P (io_user_id oc)"
  using assms
proof (induction fs arbitrary: P)
  case Nil
  then show ?case by (simp split: side.splits)
next
  case (Cons f fs)
  let ?u = "io_user_id oc" and ?P = "settle b oc f P"
  have t: "0 \<le> total_filled fs" using Cons.prems(1) by (intro total_filled_nonneg) simp
  have d: "0 < snd f" using Cons.prems(1) by simp
  have step: "case io_side oc of Buy \<Rightarrow> P ?u \<le> ?P ?u \<and> total_filled fs \<le> - ?P ?u | Sell \<Rightarrow> ?P ?u \<le> P ?u \<and> total_filled fs \<le> ?P ?u"
    using Cons.prems(2,3) t d
    by (cases "io_side oc") (auto simp: settle_def moved_at signed_qty_def sat_add_def clamp64_def i64_bounds)
  have "case io_side oc of
      Buy \<Rightarrow> ?P ?u \<le> fold (settle b oc) fs ?P ?u \<and> fold (settle b oc) fs ?P ?u \<le> 0
    | Sell \<Rightarrow> fold (settle b oc) fs ?P ?u \<le> ?P ?u \<and> 0 \<le> fold (settle b oc) fs ?P ?u"
    by (rule Cons.IH) (use Cons.prems step d in \<open>auto split: side.splits\<close>)
  with step show ?case by (auto split: side.splits)
qed

lemma executed_positions:
  assumes "executed b Q oc fs e b' Q' oc'"
  shows "position_of (ob_users b') = fold (settle b oc) fs (position_of (ob_users b))" "\<forall>f\<in>set fs. 0 < snd f"
proof -
  obtain b1 Q1 F1 b2 where f: "fills b Q oc fs b1 Q1 oc'" and s: "settled b1 Q1 oc' (io_remaining_qty oc) b2 Q' e"
    and b': "b' = b2\<lparr>ob_event_buf := ob_event_buf b2 @ (if best_moved b b2 then [bbo_event b2 Q'] else [])\<rparr>"
    using assms unfolding executed_def by blast
  show "position_of (ob_users b') = fold (settle b oc) fs (position_of (ob_users b))"
    using fills_positions [OF f] s by (simp add: b' settled_def same_users_def)
  show "\<forall>f\<in>set fs. 0 < snd f" using fills_positive [OF f] by blast
qed

section \<open>Properties\<close>

text \<open>C1: \<open>process_new_order\<close> returns. From a good book it does not panic, run out of event buffer
  or loop, and it leaves a good book: every queue, level total, occupancy bit, tracked best price and order
  count is right again, and no resting bid is at or above a resting ask.\<close>

theorem process_new_order_total:
  assumes "good b Q F" and "acceptable b Q oc"
  shows "\<exists>b' oc' Q' F'. process_new_order b oc = Some (b', oc') \<and> good b' Q' F'"
  using process_cases [OF assms] assms(1) good_event by blast

theorem process_new_order_total_witness:
  "\<exists>b' oc' Q' F'. process_new_order demo_asks (demo_order 5020 4 Buy GTC) = Some (b', oc') \<and> good b' Q' F'"
proof -
  obtain Q F h where d: "good demo_asks Q F" "queued Q = {h}" "rem demo_asks h = 10" "os_user_id (ord demo_asks h) = 1"
    "length (slots (ob_orders demo_asks)) = 16" using demo_asks_good by blast
  show ?thesis by (rule process_new_order_total [OF d(1) demo_asks_accepts [OF d]]) simp_all
qed

text \<open>C2: quantity is conserved. What leaves the resting orders is what the fill events report, what is
  added to them is what an insert event reports, and a filled taker's remaining quantity plus its fills is
  the quantity that entered the match loop; a residual that rests, rests whole.\<close>

theorem quantity_conserved:
  assumes "good b Q F" and "acceptable b Q oc"
  shows "\<exists>b' oc' Q' F'. process_new_order b oc = Some (b', oc') \<and> wf b' Q' F' \<and>
    (let filled = total_filled (fill_log (ob_event_buf b')); rested = rested_qty (ob_event_buf b') in
      resting_qty b' Q' = resting_qty b Q - filled + rested \<and> 0 \<le> filled \<and>
      (0 < filled \<or> 0 < rested \<longrightarrow> filled + io_remaining_qty oc' = io_remaining_qty (clamped b oc)) \<and>
      (0 < rested \<longrightarrow> rested = io_remaining_qty oc'))"
  using process_cases [OF assms]
proof (elim disjE exE conjE)
  fix e oc' assume p: "gate b Q oc = Inl (e, oc')" "process_new_order b oc = Some (b\<lparr>ob_event_buf := [e]\<rparr>, oc')"
  then show ?thesis using assms(1) gate_Inl_event(1,2) [OF p(1)] terminal_for_facts(2)
    by (intro exI [of _ "b\<lparr>ob_event_buf := [e]\<rparr>"] exI [of _ oc'] exI [of _ Q] exI [of _ F]) (auto simp: good_def Let_def)
next
  fix fs e b' Q' oc' F' assume p: "process_new_order b oc = Some (b', oc')" "good b' Q' F'"
    and x: "executed (b\<lparr>ob_event_buf := []\<rparr>) Q (clamped b oc) fs e b' Q' oc'"
  have rel: "book_rel (b\<lparr>ob_event_buf := []\<rparr>) Q F {}" "book_rel b Q F {}" using assms(1) by (simp_all add: good_def wf_def)
  obtain ms where ms: "ob_event_buf b' = ms @ e # (if best_moved (b\<lparr>ob_event_buf := []\<rparr>) b' then [bbo_event b' Q'] else [])"
    "fill_log ms = fs" "\<forall>m\<in>set ms. maker_event b Q oc m" "terminal_for oc e" using executed_events [OF x refl] by blast
  have "rested_qty ms = 0" using no_rested maker_event_not_terminal(2) ms(3) rel(2) by blast
  then have ev: "total_filled (fill_log (ob_event_buf b')) = total_filled fs" "rested_qty (ob_event_buf b') = rested_qty [e]"
    using ms(1,2) terminal_for_facts(2) [OF ms(4)] by simp_all
  show ?thesis using p executed_account [OF x rel(1)] ev
    by (intro exI [of _ b'] exI [of _ oc'] exI [of _ Q'] exI [of _ F']) (auto simp: good_def Let_def)
qed

theorem quantity_conserved_witness:
  "\<exists>Q b' oc' Q' F'. process_new_order demo_asks (demo_order 5020 4 Buy GTC) = Some (b', oc') \<and> wf b' Q' F' \<and>
    resting_qty demo_asks Q = 10 \<and>
    resting_qty b' Q' = 10 - total_filled (fill_log (ob_event_buf b')) + rested_qty (ob_event_buf b')"
proof -
  obtain Q F h where d: "good demo_asks Q F" "queued Q = {h}" "rem demo_asks h = 10" "os_user_id (ord demo_asks h) = 1"
    "length (slots (ob_orders demo_asks)) = 16" using demo_asks_good by blast
  have "resting_qty demo_asks Q = 10" using d(2,3) by (simp add: resting_qty_def)
  with quantity_conserved [OF d(1) demo_asks_accepts [OF d], of 4 5020 Buy GTC] show ?thesis by (auto simp: Let_def)
qed

text \<open>C3: exactly one terminal event per order. The buffer after an order holds the makers' events, then
  the one event that tells the taker what became of it, then at most one best-bid-and-offer update that
  reports the book as it now is; and it never exceeds its capacity.\<close>

theorem one_terminal_event:
  assumes "good b Q F" and "acceptable b Q oc"
  shows "\<exists>b' oc' Q' F' ms e bs. process_new_order b oc = Some (b', oc') \<and> wf b' Q' F' \<and> ob_event_buf b' = ms @ e # bs \<and>
    (\<forall>m\<in>set ms. maker_event b Q oc m \<and> \<not> is_terminal m) \<and> terminal_for oc e \<and> (bs = [] \<or> bs = [bbo_event b' Q'])"
  using process_cases [OF assms]
proof (elim disjE exE conjE)
  fix e oc' assume p: "gate b Q oc = Inl (e, oc')" "process_new_order b oc = Some (b\<lparr>ob_event_buf := [e]\<rparr>, oc')"
  then show ?thesis using assms(1) gate_Inl_event(1) [OF p(1)]
    by (intro exI [of _ "b\<lparr>ob_event_buf := [e]\<rparr>"] exI [of _ oc'] exI [of _ Q] exI [of _ F] exI [of _ "[]"] exI [of _ e])
      (simp add: good_def)
next
  fix fs e b' Q' oc' F' assume p: "process_new_order b oc = Some (b', oc')" "good b' Q' F'"
    and x: "executed (b\<lparr>ob_event_buf := []\<rparr>) Q (clamped b oc) fs e b' Q' oc'"
  have rel: "book_rel b Q F {}" using assms(1) by (simp add: good_def wf_def)
  obtain ms where ms: "ob_event_buf b' = ms @ e # (if best_moved (b\<lparr>ob_event_buf := []\<rparr>) b' then [bbo_event b' Q'] else [])"
    "\<forall>m\<in>set ms. maker_event b Q oc m" "terminal_for oc e" using executed_events [OF x refl] by blast
  then show ?thesis using p maker_event_not_terminal(1) [OF _ rel]
    by (intro exI [of _ b'] exI [of _ oc'] exI [of _ Q'] exI [of _ F'] exI [of _ ms] exI [of _ e]
        exI [of _ "if best_moved (b\<lparr>ob_event_buf := []\<rparr>) b' then [bbo_event b' Q'] else []"]) (auto simp: good_def)
qed

theorem one_terminal_event_witness:
  "\<exists>b' oc' ms e bs. process_new_order demo_asks (demo_order 5020 14 Buy IOC) = Some (b', oc') \<and> ob_event_buf b' = ms @ e # bs \<and>
    terminal_for (demo_order 5020 14 Buy IOC) e \<and> length bs \<le> 1"
proof -
  obtain Q F h where d: "good demo_asks Q F" "queued Q = {h}" "rem demo_asks h = 10" "os_user_id (ord demo_asks h) = 1"
    "length (slots (ob_orders demo_asks)) = 16" using demo_asks_good by blast
  from one_terminal_event [OF d(1) demo_asks_accepts [OF d], of 14 5020 Buy IOC] show ?thesis by fastforce
qed

text \<open>C4: every fill is at the resting order's price and inside the taker's limit, against an order that was
  resting on the other side, for a positive quantity, and carries both orders' ids.\<close>

theorem fills_at_maker_price:
  assumes "good b Q F" and "acceptable b Q oc"
  shows "\<exists>b' oc'. process_new_order b oc = Some (b', oc') \<and> (\<forall>e\<in>set (ob_event_buf b'). is_Fill e \<longrightarrow>
    (\<exists>h\<in>resting b Q (opp (io_side oc)). fill_maker_handle e = h \<and> fill_price e = os_price (ord b h) \<and> 0 < fill_qty e \<and>
      (case io_side oc of Buy \<Rightarrow> fill_price e \<le> io_price oc | Sell \<Rightarrow> io_price oc \<le> fill_price e) \<and>
      fill_maker_user_id e = os_user_id (ord b h) \<and> fill_maker_order_id_hi e = os_order_id_hi (ord b h) \<and>
      fill_maker_order_id_lo e = os_order_id_lo (ord b h) \<and> fill_taker_user_id e = io_user_id oc \<and>
      fill_taker_order_id_hi e = io_order_id_hi oc \<and> fill_taker_order_id_lo e = io_order_id_lo oc))"
  using process_cases [OF assms]
proof (elim disjE exE conjE)
  fix e oc' assume p: "gate b Q oc = Inl (e, oc')" "process_new_order b oc = Some (b\<lparr>ob_event_buf := [e]\<rparr>, oc')"
  then show ?thesis using terminal_for_facts(2) [OF gate_Inl_event(1) [OF p(1)]] by auto
next
  fix fs e b' Q' oc' F' assume p: "process_new_order b oc = Some (b', oc')"
    and x: "executed (b\<lparr>ob_event_buf := []\<rparr>) Q (clamped b oc) fs e b' Q' oc'"
  have rel: "book_rel b Q F {}" using assms(1) by (simp add: good_def wf_def)
  obtain ms where ms: "ob_event_buf b' = ms @ e # (if best_moved (b\<lparr>ob_event_buf := []\<rparr>) b' then [bbo_event b' Q'] else [])"
    "\<forall>m\<in>set ms. maker_event b Q oc m" "terminal_for oc e" using executed_events [OF x refl] by blast
  have m: "maker_event b Q oc f" if "f \<in> set (ob_event_buf b')" "is_Fill f" for f
    using that ms terminal_for_facts(2) [OF ms(3)] by (auto split: if_splits)
  have "\<exists>h\<in>resting b Q (opp (io_side oc)). fill_maker_handle f = h \<and> fill_price f = os_price (ord b h) \<and> 0 < fill_qty f \<and>
      (case io_side oc of Buy \<Rightarrow> fill_price f \<le> io_price oc | Sell \<Rightarrow> io_price oc \<le> fill_price f) \<and>
      fill_maker_user_id f = os_user_id (ord b h) \<and> fill_maker_order_id_hi f = os_order_id_hi (ord b h) \<and>
      fill_maker_order_id_lo f = os_order_id_lo (ord b h) \<and> fill_taker_user_id f = io_user_id oc \<and>
      fill_taker_order_id_hi f = io_order_id_hi oc \<and> fill_taker_order_id_lo f = io_order_id_lo oc"
    if "f \<in> set (ob_event_buf b')" "is_Fill f" for f
    using maker_fill_facts [OF m [OF that] that(2)] crosses_opposite [OF rel, of "fill_maker_handle f"] by (simp add: resting_def)
  with p show ?thesis by blast
qed

theorem fills_at_maker_price_witness:
  "\<exists>b' oc'. process_new_order demo_asks (demo_order 5020 4 Buy GTC) = Some (b', oc') \<and>
    (\<forall>e\<in>set (ob_event_buf b'). is_Fill e \<longrightarrow> fill_price e \<le> 5020 \<and> 0 < fill_qty e)"
proof -
  obtain Q F h where d: "good demo_asks Q F" "queued Q = {h}" "rem demo_asks h = 10" "os_user_id (ord demo_asks h) = 1"
    "length (slots (ob_orders demo_asks)) = 16" using demo_asks_good by blast
  have s: "io_side (demo_order 5020 4 Buy GTC) = Buy" "io_price (demo_order 5020 4 Buy GTC) = 5020" by (simp_all add: demo_order_def)
  from fills_at_maker_price [OF d(1) demo_asks_accepts [OF d], of 4 5020 Buy GTC] show ?thesis unfolding s by fastforce
qed

text \<open>C6: a post-only order never takes. It produces no fill; if it would have crossed it is cancelled and
  the book is left exactly as it was.\<close>

theorem post_only_never_takes:
  assumes "good b Q F" and "acceptable b Q oc" and "io_post_only oc"
  shows "\<exists>b' oc'. process_new_order b oc = Some (b', oc') \<and> fill_log (ob_event_buf b') = [] \<and>
    (would_cross b oc \<longrightarrow> b'\<lparr>ob_event_buf := []\<rparr> = b\<lparr>ob_event_buf := []\<rparr>)"
  using process_cases [OF assms(1,2)]
proof (elim disjE exE conjE)
  fix e oc' assume p: "gate b Q oc = Inl (e, oc')" "process_new_order b oc = Some (b\<lparr>ob_event_buf := [e]\<rparr>, oc')"
  then show ?thesis using terminal_for_facts(2) [OF gate_Inl_event(1) [OF p(1)]] by simp
next
  fix fs e b' Q' oc' F' assume g: "gate b Q oc = Inr (clamped b oc)" and p: "process_new_order b oc = Some (b', oc')"
    and x: "executed (b\<lparr>ob_event_buf := []\<rparr>) Q (clamped b oc) fs e b' Q' oc'"
  have nc: "\<not> side_crosses b oc" by (rule gate_Inr(6) [OF g assms(3)])
  have wf: "wf b Q F" using assms(1) by (simp add: good_def)
  obtain b1 Q1 where f: "fills (b\<lparr>ob_event_buf := []\<rparr>) Q (clamped b oc) fs b1 Q1 oc'" using x unfolding executed_def by blast
  have "fs = []"
  proof (rule ccontr)
    assume "fs \<noteq> []"
    then obtain h d where "(h, d) \<in> set fs" by (cases fs) auto
    from fills_cross [OF f this] have h: "h \<in> queued Q" "crosses b (io_side oc) (io_price oc) h" by simp_all
    then have "h \<in> resting b Q (opp (io_side oc))" using crosses_opposite [OF wfD(1) [OF wf]] by (simp add: resting_def)
    from not_crossing_opposite [OF wfD(1,3) [OF wf] nc this] h(2) show False
      by (cases "io_side oc") (auto simp: crosses_def is_crossing_def)
  qed
  then show ?thesis using p nc executed_events [OF x refl] terminal_for_facts(2) by (auto simp: would_cross_iff)
qed

theorem post_only_never_takes_witness:
  "\<exists>b' oc'. process_new_order demo_book ((demo_order 5020 4 Buy GTC)\<lparr>io_post_only := True\<rparr>) = Some (b', oc') \<and> fill_log (ob_event_buf b') = []"
proof -
  have "acceptable demo_book (\<lambda>t. []) (demo_order 5020 4 Buy GTC)" by (rule demo_book_accepts) simp_all
  then have "acceptable demo_book (\<lambda>t. []) ((demo_order 5020 4 Buy GTC)\<lparr>io_post_only := True\<rparr>)" by (simp add: acceptable_def)
  from post_only_never_takes [OF demo_book_good(1) this] show ?thesis by auto
qed

text \<open>C7: a reduce-only order never opens or flips a position: the user's position after it lies between
  zero and the position before it.\<close>

theorem reduce_only_never_flips:
  assumes "good b Q F" and "acceptable b Q oc" and "io_reduce_only oc"
  shows "\<exists>b' oc'. process_new_order b oc = Some (b', oc') \<and>
    toward_zero (position_of (ob_users b) (io_user_id oc)) (position_of (ob_users b') (io_user_id oc))"
  using process_cases [OF assms(1,2)]
proof (elim disjE exE conjE)
  fix e oc' assume "process_new_order b oc = Some (b\<lparr>ob_event_buf := [e]\<rparr>, oc')"
  then show ?thesis by (simp add: toward_zero_def)
next
  fix fs e b' Q' oc' F' assume g: "gate b Q oc = Inr (clamped b oc)" and p: "process_new_order b oc = Some (b', oc')"
    and x: "executed (b\<lparr>ob_event_buf := []\<rparr>) Q (clamped b oc) fs e b' Q' oc'"
  let ?P = "position_of (ob_users b)" and ?b = "b\<lparr>ob_event_buf := []\<rparr>" and ?u = "io_user_id oc"
  note pos = executed_positions [OF x] and rd = gate_Inr(5) [OF g assms(3)]
  have rel: "book_rel ?b Q F {}" using assms(1) by (simp add: good_def wf_def)
  obtain b1 Q1 where f: "fills ?b Q (clamped b oc) fs b1 Q1 oc'" using x unfolding executed_def by blast
  have "0 \<le> io_remaining_qty oc'" using fills_nonneg [OF f] gate_ready(2) [OF assms(1,2) g] by simp
  then have "total_filled fs \<le> io_remaining_qty (clamped b oc)" using executed_account(2) [OF x rel] by linarith
  also have "\<dots> \<le> abs_capped (?P ?u)" using assms(3) by (simp add: clamped_def)
  finally have t: "total_filled fs \<le> i64_max" "total_filled fs \<le> (case io_side oc of Buy \<Rightarrow> - ?P ?u | Sell \<Rightarrow> ?P ?u)"
    using rd by (auto simp: abs_capped_def reduces_def split: side.splits)
  have "case io_side oc of
      Buy \<Rightarrow> ?P ?u \<le> fold (settle ?b (clamped b oc)) fs ?P ?u \<and> fold (settle ?b (clamped b oc)) fs ?P ?u \<le> 0
    | Sell \<Rightarrow> fold (settle ?b (clamped b oc)) fs ?P ?u \<le> ?P ?u \<and> 0 \<le> fold (settle ?b (clamped b oc)) fs ?P ?u"
    by (rule fold_settle [OF pos(2) t(1), where oc = "clamped b oc" and P = ?P and b = ?b, unfolded clamped_sel, OF t(2)])
  then have "toward_zero (?P ?u) (position_of (ob_users b') ?u)"
    unfolding pos(1) using rd by (auto simp: toward_zero_def reduces_def split: side.splits)
  with p show ?thesis by blast
qed

theorem reduce_only_never_flips_witness:
  "\<exists>b' oc'. process_new_order demo_book ((demo_order 5020 4 Buy GTC)\<lparr>io_reduce_only := True\<rparr>) = Some (b', oc') \<and>
    toward_zero (position_of (ob_users demo_book) 1) (position_of (ob_users b') 1)"
proof -
  have "acceptable demo_book (\<lambda>t. []) (demo_order 5020 4 Buy GTC)" by (rule demo_book_accepts) simp_all
  then have "acceptable demo_book (\<lambda>t. []) ((demo_order 5020 4 Buy GTC)\<lparr>io_reduce_only := True\<rparr>)" by (simp add: acceptable_def)
  from reduce_only_never_flips [OF demo_book_good(1) this] show ?thesis by (simp add: demo_order_def)
qed



text \<open>C8: immediate-or-cancel never rests. After an IOC order every resting order was resting before it,
  and no insert event was emitted.\<close>

theorem ioc_never_rests:
  assumes "good b Q F" and "acceptable b Q oc" and "io_tif oc = IOC"
  shows "\<exists>b' oc' Q' F'. process_new_order b oc = Some (b', oc') \<and> wf b' Q' F' \<and> queued Q' \<subseteq> queued Q \<and>
    rested_qty (ob_event_buf b') = 0 \<and> (\<forall>t. subseq (Q' t) (Q t))"
  using process_cases [OF assms(1,2)]
proof (elim disjE exE conjE)
  fix e oc' assume p: "gate b Q oc = Inl (e, oc')" "process_new_order b oc = Some (b\<lparr>ob_event_buf := [e]\<rparr>, oc')"
  then show ?thesis using assms(1) gate_Inl_event(2) [OF p(1)]
    by (intro exI [of _ "b\<lparr>ob_event_buf := [e]\<rparr>"] exI [of _ oc'] exI [of _ Q] exI [of _ F]) (simp add: good_def)
next
  let ?b = "b\<lparr>ob_event_buf := []\<rparr>"
  fix fs e b' Q' oc' F' assume p: "process_new_order b oc = Some (b', oc')" "good b' Q' F'"
    and x: "executed ?b Q (clamped b oc) fs e b' Q' oc'"
  have rel: "book_rel b Q F {}" using assms(1) by (simp add: good_def wf_def)
  obtain b1 Q1 F1 b2 where f: "fills ?b Q (clamped b oc) fs b1 Q1 oc'"
    and s: "settled b1 Q1 oc' (io_remaining_qty (clamped b oc)) b2 Q' e" using x unfolding executed_def by blast
  have "io_tif oc' = IOC" using fills_taker [OF f] assms(3) by simp
  then have "\<not> rests b1 oc'" by (simp add: rests_def)
  then have Q': "Q' = Q1" "\<not> is_OrderInserted e" using s settled_terminal [OF s] by (simp_all add: settled_def)
  obtain ms where ms: "ob_event_buf b' = ms @ e # (if best_moved ?b b' then [bbo_event b' Q'] else [])"
    "\<forall>m\<in>set ms. maker_event b Q oc m" "terminal_for oc e" using executed_events [OF x refl] by blast
  have "rested_qty ms = 0" using no_rested maker_event_not_terminal(2) ms(2) rel by blast
  then have "rested_qty (ob_event_buf b') = 0" using ms(1) Q'(2) by simp
  then show ?thesis using p fills_queued [OF f] fills_subseq [OF f] Q'(1)
    by (intro exI [of _ b'] exI [of _ oc'] exI [of _ Q'] exI [of _ F']) (simp add: good_def)
qed

theorem ioc_never_rests_witness:
  "\<exists>b' oc' Q' F' h. process_new_order demo_asks (demo_order 5020 14 Buy IOC) = Some (b', oc') \<and> wf b' Q' F' \<and> queued Q' \<subseteq> {h}"
proof -
  obtain Q F h where d: "good demo_asks Q F" "queued Q = {h}" "rem demo_asks h = 10" "os_user_id (ord demo_asks h) = 1"
    "length (slots (ob_orders demo_asks)) = 16" using demo_asks_good by blast
  have "io_tif (demo_order 5020 14 Buy IOC) = IOC" by (simp add: demo_order_def)
  with ioc_never_rests [OF d(1) demo_asks_accepts [OF d], of 14 5020 Buy IOC] d(2) show ?thesis by auto
qed





end
