(* ===== verification/Book_Props.thy ===== *)
theory Book_Props
  imports Book_Ops
begin

text \<open>
  The contract of the resting book: inserting, cancelling by handle and ids, and modifying orders, each over
  any well-formed book.
\<close>

section \<open>Lemmas\<close>

lemma best_ok_unique:
  assumes "best_ok b Q sd" and "best_ok b' Q sd" and "resting b' Q sd = resting b Q sd"
    and "\<And>h. h \<in> resting b Q sd \<Longrightarrow> os_price (ord b' h) = os_price (ord b h)" and "ob_compression b' = ob_compression b"
  shows "best_px b' sd = best_px b sd" "best_tick b' sd = best_tick b sd"
proof -
  have "best_px b' sd = best_px b sd \<and> best_tick b' sd = best_tick b sd"
  proof (cases "resting b Q sd = {}")
    case True
    then show ?thesis using assms(1-3) by (simp add: best_ok_def)
  next
    case False
    then obtain g g' where g: "g \<in> resting b Q sd" "os_price (ord b g) = best_px b sd" "g' \<in> resting b Q sd" "os_price (ord b g') = best_px b' sd"
      and t: "best_tick b sd = slot_index (ob_compression b) (best_px b sd)" "best_tick b' sd = slot_index (ob_compression b) (best_px b' sd)"
      and a: "\<forall>h\<in>resting b Q sd. better sd (best_px b sd) (os_price (ord b h))" "\<forall>h\<in>resting b Q sd. better sd (best_px b' sd) (os_price (ord b h))"
      using assms by (auto simp: best_ok_def)
    have "better sd (best_px b sd) (best_px b' sd)" "better sd (best_px b' sd) (best_px b sd)" using a g by metis+
    then have "best_px b' sd = best_px b sd" using key_inj [of sd "best_px b' sd" "best_px b sd"] by (simp add: better_key)
    then show ?thesis using t by simp
  qed
  then show "best_px b' sd = best_px b sd" "best_tick b' sd = best_tick b sd" by simp_all
qed

lemma same_strip_resting:
  assumes "\<forall>x\<in>queued Q. strip (ord b' x) = strip (ord b x)"
  shows "resting b' Q sd = resting b Q sd" "h \<in> resting b Q sd \<Longrightarrow> os_price (ord b' h) = os_price (ord b h)"
proof -
  have "on_side sd (ord b' x) = on_side sd (ord b x)" "os_price (ord b' x) = os_price (ord b x)" if "x \<in> queued Q" for x
    using strip_sides(3) [OF bspec [OF assms that]] strip_eqD(1) [OF bspec [OF assms that]] by simp_all
  then show "resting b' Q sd = resting b Q sd" "h \<in> resting b Q sd \<Longrightarrow> os_price (ord b' h) = os_price (ord b h)"
    by (auto simp: resting_def)
qed

section \<open>Properties\<close>

text \<open>cancelling undoes inserting. An order inserted into a well-formed book and cancelled by its own
  handle and ids leaves every other order where it was and as it was, the queues, the tracked best prices and the
  positions unchanged, and the book well-formed.\<close>

theorem insert_cancel_roundtrip:
  assumes wf: "wf b Q F" and room: "F \<noteq> [] \<or> bump_next (ob_orders b) < length (slots (ob_orders b))"
    and p: "price_range price" "cp_tick_size (ob_compression b) dvd price" and q: "0 < qty"
    and sum: "qty_sum (slots (ob_orders b)) (Q (slot_index (ob_compression b) price)) + qty \<le> i64_max"
    and user: "ur_contains (ob_users b) uid \<or> users_room (ob_users b)"
  shows "\<exists>h b1 b2 F'. insert_resting b price qty sd tif uid ro ts hi lo = Some (h, b1) \<and>
    cancel_order_checked b1 h uid hi lo = Some (True, b2) \<and> wf b2 Q F' \<and>
    (\<forall>x\<in>queued Q. strip (ord b2 x) = strip (ord b x)) \<and> (\<forall>s. best_px b2 s = best_px b s \<and> best_tick b2 s = best_tick b s) \<and>
    position_of (ob_users b2) = position_of (ob_users b)"
proof -
  let ?t = "slot_index (ob_compression b) price"
  obtain h b1 F1 where i: "insert_resting b price qty sd tif uid ro ts hi lo = Some (h, b1)" "wf b1 (Q(?t := Q ?t @ [h])) F1"
    "h \<notin> queued Q" "fresh_order (ord b1 h) price qty sd tif uid ro hi lo" "\<forall>x\<in>queued Q. strip (ord b1 x) = strip (ord b x)"
    "book_sig b b1" "same_users b b1" using insert_resting_ok [OF wf room p q sum user] by blast
  let ?Q1 = "Q(?t := Q ?t @ [h])"
  have q1: "queued ?Q1 = insert h (queued Q)" by (rule queued_append)
  have ho: "holds_order b1 ?Q1 h uid hi lo" using i(4) q1 by (simp add: holds_order_def fresh_order_def)
  have hn: "h \<notin> set (Q ?t)" using i(3) in_queued [of h Q ?t] by blast
  have undo: "?Q1(?t := remove1 h (?Q1 ?t)) = Q" using hn by (auto simp: remove1_append fun_eq_iff)
  have h1: "h \<in> set (?Q1 ?t)" by simp
  obtain b2 where c: "cancel_order b1 h = Some (True, b2)" "wf b2 Q (h # F1)" "\<forall>x\<in>queued ?Q1 - {h}. strip (ord b2 x) = strip (ord b1 x)"
    "book_sig b1 b2" "same_users b1 b2" using cancel_order_ok [OF i(2) h1] unfolding undo by blast
  have st: "\<forall>x\<in>queued Q. strip (ord b2 x) = strip (ord b x)" using c(3) i(3,5) q1 by auto
  have run: "cancel_order_checked b1 h uid hi lo = Some (True, b2)"
    using order_matches_ok [OF i(2), of h uid hi lo] ho c(1) by (simp add: cancel_order_checked_def)
  have "ob_compression b2 = ob_compression b" using c(4) i(6) by (simp add: book_sig_def)
  then have "best_px b2 s = best_px b s \<and> best_tick b2 s = best_tick b s" for s
    using best_ok_unique [OF wfD(3) [OF wf] wfD(3) [OF c(2)] same_strip_resting [OF st]] by simp
  moreover have "position_of (ob_users b2) = position_of (ob_users b)" using c(5) i(7) by (simp add: same_users_def)
  ultimately show ?thesis using i(1) run c(2) st by blast
qed

text \<open>C38: a stale handle is harmless. \<open>cancel_order_checked\<close> returns for every handle, even one past the
  slab; it cancels exactly when the handle holds a resting order of that user with those ids, and then
  removes that order alone, keeping every queue's order; otherwise it returns false and changes nothing, so a handle
  recycled for another order can never be cancelled by its previous owner.\<close>

theorem checked_cancel_exact:
  assumes wf: "wf b Q F"
  shows "\<exists>b'. cancel_order_checked b h uid hi lo = Some (holds_order b Q h uid hi lo, b') \<and>
    (if holds_order b Q h uid hi lo
     then (\<exists>t. h \<in> set (Q t) \<and> wf b' (Q(t := remove1 h (Q t))) (h # F) \<and>
       (\<forall>x\<in>queued Q - {h}. strip (ord b' x) = strip (ord b x)) \<and> position_of (ob_users b') = position_of (ob_users b))
     else b' = b)"
proof (cases "holds_order b Q h uid hi lo")
  case False
  then show ?thesis using cancel_order_checked_ok [OF wf, of h uid hi lo] by auto
next
  case True
  then obtain t where t: "h \<in> set (Q t)" using queued_elim by (auto simp: holds_order_def)
  obtain b' where "cancel_order b h = Some (True, b')" "wf b' (Q(t := remove1 h (Q t))) (h # F)"
    "\<forall>x\<in>queued Q - {h}. strip (ord b' x) = strip (ord b x)" "same_users b b'" using cancel_order_ok [OF wf t] by blast
  then show ?thesis using True t order_matches_ok [OF wf, of h uid hi lo]
    by (intro exI [of _ b']) (auto simp: cancel_order_checked_def same_users_def)
qed

text \<open>reducing an order keeps its place. \<open>modify_order_qty_down\<close> to a smaller positive quantity leaves
  every queue as it was, changes that order's remaining quantity alone, and keeps the book well-formed; a larger or
  equal quantity, or ids that do not match, are refused without a change.\<close>

theorem qty_down_keeps_priority:
  assumes wf: "wf b Q F" and q: "0 < new_qty"
  shows "\<exists>ok b'. modify_order_qty_down b h new_qty uid hi lo = Some (ok, b') \<and> wf b' Q F \<and>
    (ok \<longleftrightarrow> holds_order b Q h uid hi lo \<and> new_qty < os_remaining_qty (ord b h)) \<and> (\<not> ok \<longrightarrow> b' = b) \<and>
    (ok \<longrightarrow> ord b' h = (ord b h)\<lparr>os_remaining_qty := new_qty\<rparr>) \<and> (\<forall>x. x \<noteq> h \<longrightarrow> ord b' x = ord b x)"
proof (cases "holds_order b Q h uid hi lo")
  case False
  then have "modify_order_qty_down b h new_qty uid hi lo = Some (False, b)"
    using order_matches_ok [OF wf, of h uid hi lo] by (simp add: modify_order_qty_down_def)
  then show ?thesis using wf False by (intro exI [of _ False] exI [of _ b]) simp
next
  case True
  then obtain t where t: "h \<in> set (Q t)" using queued_elim by (auto simp: holds_order_def)
  note m = modify_qty_down_ok [OF wf True t q] and f = reduce_order_facts(1) [OF wfD(1) [OF wf] t]
  show ?thesis
  proof (cases "new_qty < os_remaining_qty (ord b h)")
    case less: True
    then show ?thesis using m True
      by (intro exI [of _ True] exI [of _ "reduce_order b h t (os_remaining_qty (ord b h) - new_qty)"]) (simp add: f)
  qed (use m wf in \<open>intro exI [of _ False] exI [of _ b], simp\<close>)
qed

text \<open>repricing requeues. \<open>modify_order_price\<close> takes the order off its queue and puts its whole
  remaining quantity at the tail of the queue of the new price, under a handle that belongs to no other order.\<close>

theorem reprice_requeues:
  assumes wf: "wf b Q F" and ho: "holds_order b Q h uid hi lo" and p: "price_range price" "cp_tick_size (ob_compression b) dvd price"
    and sum: "\<forall>t. qty_sum (slots (ob_orders b)) (Q t) + os_remaining_qty (ord b h) \<le> i64_max"
  shows "\<exists>h' b' Q' F'. modify_order_price b h price sd tif uid ro ts hi lo = Some (Some h', b') \<and> wf b' Q' F' \<and>
    queued Q' = insert h' (queued Q - {h}) \<and> (\<exists>as. Q' (slot_index (ob_compression b) price) = as @ [h']) \<and>
    fresh_order (ord b' h') price (os_remaining_qty (ord b h)) sd tif uid ro hi lo \<and>
    (\<forall>x\<in>queued Q - {h}. x \<noteq> h' \<and> strip (ord b' x) = strip (ord b x)) \<and> position_of (ob_users b') = position_of (ob_users b)"
proof -
  obtain t where t: "h \<in> set (Q t)" using ho queued_elim by (auto simp: holds_order_def)
  let ?u = "slot_index (ob_compression b) price" and ?Q1 = "Q(t := remove1 h (Q t))"
  obtain h' b' F' where m: "modify_order_price b h price sd tif uid ro ts hi lo = Some (Some h', b')"
    "wf b' (?Q1(?u := ?Q1 ?u @ [h'])) F'" "fresh_order (ord b' h') price (os_remaining_qty (ord b h)) sd tif uid ro hi lo"
    "\<forall>x\<in>queued Q - {h}. x \<noteq> h' \<and> strip (ord b' x) = strip (ord b x)" "same_users b b'"
    using modify_price_ok [OF wf ho t p spec [OF sum], of sd tif ro ts] by blast
  have q: "queued (?Q1(?u := ?Q1 ?u @ [h'])) = insert h' (queued Q - {h})"
    unfolding queued_append queued_remove [OF wfD(1) [OF wf] t] ..
  have l: "\<exists>as. (?Q1(?u := ?Q1 ?u @ [h'])) ?u = as @ [h']" by simp
  show ?thesis using m q l by (intro exI [of _ h'] exI [of _ b'] exI [of _ "?Q1(?u := ?Q1 ?u @ [h'])"] exI [of _ F']) (simp add: same_users_def)
qed

section \<open>Witnesses\<close>

lemma fresh_book:
  "\<exists>b. wf b (\<lambda>t. []) [] \<and> cp_tick_size (ob_compression b) = 1 \<and> bump_next (ob_orders b) = 0 \<and> length (slots (ob_orders b)) = 16 \<and>
    users_room (ob_users b) \<and> orderbook_new \<lparr>bc_symbol_id = 1, bc_tick_size = 1, bc_lot_size = 1\<rparr> 16 5000 = Some b \<and>
    ob_config b = \<lparr>bc_symbol_id = 1, bc_tick_size = 1, bc_lot_size = 1\<rparr>"
  using orderbook_new_ok [of 5000 "\<lparr>bc_symbol_id = 1, bc_tick_size = 1, bc_lot_size = 1\<rparr>" 16]
  by (auto simp: regular_mid_def NONE_def users_room_def user_registry_new_def u32_max_def)

text \<open>The fresh book with one bid of 10 at 5000 by user 7.\<close>

lemma one_order_book:
  "\<exists>b h b1 F. orderbook_new \<lparr>bc_symbol_id = 1, bc_tick_size = 1, bc_lot_size = 1\<rparr> 16 5000 = Some b \<and>
    insert_resting b 5000 10 Buy 0 7 False 1 0 42 = Some (h, b1) \<and> cp_tick_size (ob_compression b1) = 1 \<and>
    wf b1 ((\<lambda>t. [])(slot_index (ob_compression b1) 5000 := [h])) F \<and> fresh_order (ord b1 h) 5000 10 Buy 0 7 False 0 42 \<and>
    ob_config b1 = \<lparr>bc_symbol_id = 1, bc_tick_size = 1, bc_lot_size = 1\<rparr>"
proof -
  obtain b where b: "wf b (\<lambda>t. []) []" "cp_tick_size (ob_compression b) = 1" "bump_next (ob_orders b) = 0" "length (slots (ob_orders b)) = 16"
    "users_room (ob_users b)" "orderbook_new \<lparr>bc_symbol_id = 1, bc_tick_size = 1, bc_lot_size = 1\<rparr> 16 5000 = Some b"
    "ob_config b = \<lparr>bc_symbol_id = 1, bc_tick_size = 1, bc_lot_size = 1\<rparr>" using fresh_book by blast
  have "\<exists>h b' F'. insert_resting b 5000 10 Buy 0 7 False 1 0 42 = Some (h, b') \<and>
      wf b' ((\<lambda>t. [])(slot_index (ob_compression b) 5000 := [] @ [h])) F' \<and> h \<notin> queued (\<lambda>t. []) \<and>
      fresh_order (ord b' h) 5000 10 Buy 0 7 False 0 42 \<and> (\<forall>x\<in>queued (\<lambda>t. []). strip (ord b' x) = strip (ord b x)) \<and> book_sig b b' \<and>
      same_users b b' \<and> (\<forall>s. s \<noteq> Buy \<longrightarrow> best_tick b' s = best_tick b s \<and> best_px b' s = best_px b s)"
    by (rule insert_resting_ok [OF b(1)]) (use b in \<open>simp_all add: price_range_def i64_max_def\<close>)
  then obtain h b1 F where i: "insert_resting b 5000 10 Buy 0 7 False 1 0 42 = Some (h, b1)"
    "wf b1 ((\<lambda>t. [])(slot_index (ob_compression b) 5000 := [h])) F" "fresh_order (ord b1 h) 5000 10 Buy 0 7 False 0 42" "book_sig b b1"
    by auto
  moreover have "ob_compression b1 = ob_compression b" "ob_config b1 = ob_config b" using i(4) by (simp_all add: book_sig_def)
  ultimately show ?thesis using b by (intro exI [of _ b] exI [of _ h] exI [of _ b1] exI [of _ F]) simp
qed

theorem insert_cancel_roundtrip_witness:
  "\<exists>b h b1 b2 F'. orderbook_new \<lparr>bc_symbol_id = 1, bc_tick_size = 1, bc_lot_size = 1\<rparr> 16 5000 = Some b \<and>
    insert_resting b 5003 10 Sell 0 7 False 1 0 42 = Some (h, b1) \<and> cancel_order_checked b1 h 7 0 42 = Some (True, b2) \<and> wf b2 (\<lambda>t. []) F'"
proof -
  obtain b where b: "wf b (\<lambda>t. []) []" "cp_tick_size (ob_compression b) = 1" "bump_next (ob_orders b) = 0" "length (slots (ob_orders b)) = 16"
    "users_room (ob_users b)" "orderbook_new \<lparr>bc_symbol_id = 1, bc_tick_size = 1, bc_lot_size = 1\<rparr> 16 5000 = Some b" using fresh_book by blast
  have pre: "[] \<noteq> ([]::u32 list) \<or> bump_next (ob_orders b) < length (slots (ob_orders b))" "price_range 5003"
    "cp_tick_size (ob_compression b) dvd 5003" "(0::int) < 10" "qty_sum (slots (ob_orders b)) [] + 10 \<le> i64_max"
    "ur_contains (ob_users b) 7 \<or> users_room (ob_users b)" using b by (simp_all add: price_range_def i64_max_def)
  from insert_cancel_roundtrip [OF b(1) pre, of Sell 0 False 1 0 42] b(6) show ?thesis by blast
qed

theorem checked_cancel_exact_witness:
  "\<exists>b h b1 b'. orderbook_new \<lparr>bc_symbol_id = 1, bc_tick_size = 1, bc_lot_size = 1\<rparr> 16 5000 = Some b \<and>
    insert_resting b 5000 10 Buy 0 7 False 1 0 42 = Some (h, b1) \<and>
    cancel_order_checked b1 h 8 0 42 = Some (False, b1) \<and> cancel_order_checked b1 h 7 0 42 = Some (True, b')"
proof -
  obtain b h b1 F where w: "orderbook_new \<lparr>bc_symbol_id = 1, bc_tick_size = 1, bc_lot_size = 1\<rparr> 16 5000 = Some b"
    "insert_resting b 5000 10 Buy 0 7 False 1 0 42 = Some (h, b1)"
    "wf b1 ((\<lambda>t. [])(slot_index (ob_compression b1) 5000 := [h])) F" "fresh_order (ord b1 h) 5000 10 Buy 0 7 False 0 42"
    using one_order_book by blast
  let ?Q = "(\<lambda>t. [])(slot_index (ob_compression b1) 5000 := [h])"
  have "\<not> holds_order b1 ?Q h 8 0 42" "holds_order b1 ?Q h 7 0 42" using w(4) by (auto simp: holds_order_def fresh_order_def queued_def)
  with checked_cancel_exact [OF w(3), of h 8 0 42] checked_cancel_exact [OF w(3), of h 7 0 42] w(1,2) show ?thesis by auto
qed

theorem qty_down_keeps_priority_witness:
  "\<exists>b h b1 b'. orderbook_new \<lparr>bc_symbol_id = 1, bc_tick_size = 1, bc_lot_size = 1\<rparr> 16 5000 = Some b \<and>
    insert_resting b 5000 10 Buy 0 7 False 1 0 42 = Some (h, b1) \<and>
    modify_order_qty_down b1 h 4 7 0 42 = Some (True, b') \<and> os_remaining_qty (ord b' h) = 4"
proof -
  obtain b h b1 F where w: "orderbook_new \<lparr>bc_symbol_id = 1, bc_tick_size = 1, bc_lot_size = 1\<rparr> 16 5000 = Some b"
    "insert_resting b 5000 10 Buy 0 7 False 1 0 42 = Some (h, b1)"
    "wf b1 ((\<lambda>t. [])(slot_index (ob_compression b1) 5000 := [h])) F" "fresh_order (ord b1 h) 5000 10 Buy 0 7 False 0 42"
    using one_order_book by blast
  have "holds_order b1 ((\<lambda>t. [])(slot_index (ob_compression b1) 5000 := [h])) h 7 0 42" "os_remaining_qty (ord b1 h) = 10"
    using w(4) by (auto simp: holds_order_def fresh_order_def queued_def)
  moreover obtain ok b' where "modify_order_qty_down b1 h 4 7 0 42 = Some (ok, b')" "ok \<longrightarrow> ord b' h = (ord b1 h)\<lparr>os_remaining_qty := 4\<rparr>"
    "ok \<longleftrightarrow> holds_order b1 ((\<lambda>t. [])(slot_index (ob_compression b1) 5000 := [h])) h 7 0 42 \<and> 4 < os_remaining_qty (ord b1 h)"
    using qty_down_keeps_priority [OF w(3), of 4 h 7 0 42] by auto
  ultimately show ?thesis using w(1,2) by auto
qed

theorem reprice_requeues_witness:
  "\<exists>b h b1 h' b'. orderbook_new \<lparr>bc_symbol_id = 1, bc_tick_size = 1, bc_lot_size = 1\<rparr> 16 5000 = Some b \<and>
    insert_resting b 5000 10 Buy 0 7 False 1 0 42 = Some (h, b1) \<and>
    modify_order_price b1 h 4990 Buy 0 7 False 2 0 42 = Some (Some h', b') \<and> os_price (ord b' h') = 4990"
proof -
  obtain b h b1 F where w: "orderbook_new \<lparr>bc_symbol_id = 1, bc_tick_size = 1, bc_lot_size = 1\<rparr> 16 5000 = Some b"
    "insert_resting b 5000 10 Buy 0 7 False 1 0 42 = Some (h, b1)" "cp_tick_size (ob_compression b1) = 1"
    "wf b1 ((\<lambda>t. [])(slot_index (ob_compression b1) 5000 := [h])) F" "fresh_order (ord b1 h) 5000 10 Buy 0 7 False 0 42"
    using one_order_book by blast
  let ?Q = "(\<lambda>t. [])(slot_index (ob_compression b1) 5000 := [h])"
  have pre: "holds_order b1 ?Q h 7 0 42" "price_range 4990" "cp_tick_size (ob_compression b1) dvd 4990"
    "\<forall>t. qty_sum (slots (ob_orders b1)) (?Q t) + os_remaining_qty (ord b1 h) \<le> i64_max"
    using w(3,5) by (auto simp: holds_order_def fresh_order_def queued_def price_range_def i64_max_def)
  from reprice_requeues [OF w(4) pre, of Buy 0 False 2] w(1,2) show ?thesis by (auto simp: fresh_order_def)
qed

end
