(* ===== verification/Migration.thy ===== *)
theory Migration
  imports Match_Account Book_Props
begin

text \<open>
  \<open>rsx-book/src/migration.rs\<close>: recentering the compression map. The old levels are walked slot by slot and every
  order is relinked into the new array. While it runs the unmigrated orders are the detached set of \<open>book_rel\<close>;
  \<open>recenter_now\<close> is shown to end, to lose no order, and to keep the time priority of every price.
\<close>

section \<open>Definitions\<close>

definition should_recenter :: "orderbook \<Rightarrow> i64 \<Rightarrow> bool" where
  "should_recenter b current_mid =
     (let zone0_half = cp_thresholds (ob_compression b) ! 0;
          drift = i64_abs (i64_sub current_mid (cp_mid_price (ob_compression b)))
      in drift > zone0_half sdiv 2)"

text \<open>The link part of the loop body: the order becomes the tail of its new level.\<close>

definition relink_tail :: "slab \<Rightarrow> price_level \<Rightarrow> u32 \<Rightarrow> (slab \<times> price_level) option" where
  "relink_tail orders new_level cursor =
     (if pl_order_count new_level = 0 then do {
        s \<leftarrow> slab_get orders cursor;
        orders1 \<leftarrow> slab_put orders cursor (s\<lparr>os_prev := NONE\<rparr>);
        s1 \<leftarrow> slab_get orders1 cursor;
        orders2 \<leftarrow> slab_put orders1 cursor (s1\<lparr>os_next := NONE\<rparr>);
        Some (orders2, new_level\<lparr>pl_head := cursor, pl_tail := cursor\<rparr>)
      }
      else do {
        let old_tail = pl_tail new_level;
        t \<leftarrow> slab_get orders old_tail;
        orders1 \<leftarrow> slab_put orders old_tail (t\<lparr>os_next := cursor\<rparr>);
        s \<leftarrow> slab_get orders1 cursor;
        orders2 \<leftarrow> slab_put orders1 cursor (s\<lparr>os_prev := old_tail\<rparr>);
        s1 \<leftarrow> slab_get orders2 cursor;
        orders3 \<leftarrow> slab_put orders2 cursor (s1\<lparr>os_next := NONE\<rparr>);
        Some (orders3, new_level\<lparr>pl_tail := cursor\<rparr>)
      })"

definition raise_best_u8 :: "orderbook \<Rightarrow> u8 \<Rightarrow> i64 \<Rightarrow> u32 \<Rightarrow> orderbook" where
  "raise_best_u8 b sd price tick =
     (if sd = side_u8 Buy then raise_best b Buy price tick
      else if sd = side_u8 Sell then raise_best b Sell price tick else b)"

definition migrate_order :: "orderbook \<Rightarrow> u32 \<Rightarrow> orderbook option" where
  "migrate_order b cursor = do {
     s \<leftarrow> slab_get (ob_orders b) cursor;
     new_idx \<leftarrow> price_to_index (ob_compression b) (os_price s);
     new_level \<leftarrow> index_of (ob_active_levels b) new_idx;
     (orders1, level1) \<leftarrow> relink_tail (ob_orders b) new_level cursor;
     let (side_was_empty, level2) = count_in level1 (os_side s) (os_remaining_qty s);
     s1 \<leftarrow> slab_get orders1 cursor;
     orders2 \<leftarrow> slab_put orders1 cursor (s1\<lparr>os_tick_index := new_idx\<rparr>);
     let b1 = b\<lparr>ob_orders := orders2, ob_active_levels := (ob_active_levels b)[new_idx := level2]\<rparr>;
     b2 \<leftarrow> (if side_was_empty then occ_mark b1 (os_side s) new_idx else Some b1);
     Some (raise_best_u8 b2 (os_side s) (os_price s) new_idx)
   }"

partial_function (option) migrate_from :: "orderbook \<Rightarrow> u32 \<Rightarrow> orderbook option" where
  "migrate_from b cursor =
     (if cursor \<noteq> NONE then do {
        s \<leftarrow> slab_get (ob_orders b) cursor;
        b' \<leftarrow> migrate_order b cursor;
        migrate_from b' (os_next s)
      }
      else Some b)"

declare migrate_from.simps [code]

definition migrate_single_level :: "orderbook \<Rightarrow> u32 \<Rightarrow> orderbook option" where
  "migrate_single_level b old_idx = (case ob_old_levels b of
     None \<Rightarrow> Some b
   | Some old_levels \<Rightarrow>
       if old_idx \<ge> length old_levels then Some b
       else if pl_order_count (old_levels ! old_idx) = 0 then Some b
       else do {
         b' \<leftarrow> migrate_from b (pl_head (old_levels ! old_idx));
         Some (b'\<lparr>ob_old_levels := map_option (\<lambda>ls. ls[old_idx := price_level_default]) (ob_old_levels b')\<rparr>)
       })"

definition migrate_price :: "orderbook \<Rightarrow> i64 \<Rightarrow> orderbook option" where
  "migrate_price b price = (case ob_old_compression b of
     None \<Rightarrow> Some b
   | Some old_comp \<Rightarrow> do { old_idx \<leftarrow> price_to_index old_comp price; migrate_single_level b old_idx })"

definition recentered :: "orderbook \<Rightarrow> i64 \<Rightarrow> compression_map \<Rightarrow> orderbook" where
  "recentered b new_mid new_compression =
     b\<lparr>ob_active_levels := replicate (total_slots new_compression) price_level_default,
       ob_compression := new_compression,
       ob_staging_levels := replicate (total_slots new_compression) price_level_default,
       ob_old_levels := Some (ob_active_levels b), ob_old_compression := Some (ob_compression b),
       ob_old_min_price := min_price (ob_compression b), ob_old_max_price := max_price (ob_compression b),
       ob_bid_frontier := new_mid, ob_ask_frontier := new_mid, ob_state := Migrating,
       ob_bid_occ := occupancy_new (total_slots new_compression), ob_ask_occ := occupancy_new (total_slots new_compression),
       ob_price_asc := build_price_asc new_compression,
       ob_best_bid_tick := NONE, ob_best_ask_tick := NONE, ob_best_bid_px := 0, ob_best_ask_px := 0\<rparr>"

definition trigger_recenter :: "orderbook \<Rightarrow> i64 \<Rightarrow> orderbook option" where
  "trigger_recenter b new_mid = do {
     new_compression \<leftarrow> compression_new new_mid (bc_tick_size (ob_config b));
     migrate_price (recentered b new_mid new_compression) new_mid
   }"

definition is_within_frontier :: "orderbook \<Rightarrow> i64 \<Rightarrow> bool" where
  "is_within_frontier b price \<longleftrightarrow> price \<ge> ob_bid_frontier b \<and> price \<le> ob_ask_frontier b"

partial_function (option) lower_bid_frontier :: "orderbook \<Rightarrow> i64 \<Rightarrow> orderbook option" where
  "lower_bid_frontier b price =
     (if ob_bid_frontier b > price then do {
        let b1 = b\<lparr>ob_bid_frontier := sat_sub (ob_bid_frontier b) (bc_tick_size (ob_config b))\<rparr>;
        b2 \<leftarrow> migrate_price b1 (ob_bid_frontier b1);
        lower_bid_frontier b2 price
      }
      else Some b)"

declare lower_bid_frontier.simps [code]

partial_function (option) raise_ask_frontier :: "orderbook \<Rightarrow> i64 \<Rightarrow> orderbook option" where
  "raise_ask_frontier b price =
     (if ob_ask_frontier b < price then do {
        let b1 = b\<lparr>ob_ask_frontier := i64_add (ob_ask_frontier b) (bc_tick_size (ob_config b))\<rparr>;
        b2 \<leftarrow> migrate_price b1 (ob_ask_frontier b1);
        raise_ask_frontier b2 price
      }
      else Some b)"

declare raise_ask_frontier.simps [code]

definition advance_frontier_to :: "orderbook \<Rightarrow> i64 \<Rightarrow> orderbook option" where
  "advance_frontier_to b price =
     (if price < ob_bid_frontier b then lower_bid_frontier b price
      else if price > ob_ask_frontier b then raise_ask_frontier b price else Some b)"

definition resolve_level :: "orderbook \<Rightarrow> i64 \<Rightarrow> orderbook option" where
  "resolve_level b price =
     (if ob_state b = Migrating \<and> \<not> is_within_frontier b price then advance_frontier_to b price else Some b)"

definition complete_migration :: "orderbook \<Rightarrow> orderbook" where
  "complete_migration b =
     b\<lparr>ob_staging_levels := map (\<lambda>_. price_level_default) (case ob_old_levels b of None \<Rightarrow> [] | Some ls \<Rightarrow> ls),
       ob_old_levels := None, ob_old_compression := None, ob_state := Normal\<rparr>"

partial_function (option) batch_loop :: "orderbook \<Rightarrow> u32 \<Rightarrow> u32 \<Rightarrow> orderbook option" where
  "batch_loop b batch_size migrated =
     (if migrated < batch_size then do {
        let tick = bc_tick_size (ob_config b);
        (b1, m1) \<leftarrow> (if ob_bid_frontier b > 0 then do {
            let b0 = b\<lparr>ob_bid_frontier := sat_sub (ob_bid_frontier b) tick\<rparr>;
            b1 \<leftarrow> migrate_price b0 (ob_bid_frontier b0);
            Some (b1, u32_add migrated 1)
          } else Some (b, migrated));
        let b2 = b1\<lparr>ob_ask_frontier := i64_add (ob_ask_frontier b1) tick\<rparr>;
        b3 \<leftarrow> migrate_price b2 (ob_ask_frontier b2);
        if ob_bid_frontier b3 \<le> ob_old_min_price b3 \<and> ob_ask_frontier b3 \<ge> ob_old_max_price b3
        then Some (complete_migration b3)
        else batch_loop b3 batch_size (u32_add m1 1)
      }
      else Some b)"

declare batch_loop.simps [code]

definition migrate_batch :: "orderbook \<Rightarrow> u32 \<Rightarrow> orderbook option" where
  "migrate_batch b batch_size = (if ob_state b \<noteq> Migrating then Some b else batch_loop b batch_size 0)"

fun migrate_levels :: "u32 list \<Rightarrow> orderbook \<Rightarrow> orderbook option" where
  "migrate_levels [] b = Some b"
| "migrate_levels (i # is) b = do { b' \<leftarrow> migrate_single_level b i; migrate_levels is b' }"

definition complete_migration_eager :: "orderbook \<Rightarrow> orderbook option" where
  "complete_migration_eager b =
     (if ob_state b \<noteq> Migrating then Some b
      else do {
        let old_len = (case ob_old_levels b of None \<Rightarrow> 0 | Some ls \<Rightarrow> length ls);
        b' \<leftarrow> migrate_levels [0..<u64_as_u32 old_len] b;
        Some (complete_migration b')
      })"

definition recenter_now :: "orderbook \<Rightarrow> i64 \<Rightarrow> orderbook option" where
  "recenter_now b new_mid = do { b' \<leftarrow> trigger_recenter b new_mid; complete_migration_eager b' }"

section \<open>Relinking one order\<close>

definition resettled :: "order_slot \<Rightarrow> nat \<Rightarrow> order_slot" where
  "resettled s t = s\<lparr>os_next := NONE, os_prev := NONE, os_tick_index := t\<rparr>"

lemma resettled_swap: "s\<lparr>os_prev := NONE, os_next := NONE, os_tick_index := t\<rparr> = resettled s t"
  by (cases s) (simp add: resettled_def)

lemma resettled_behind: "s\<lparr>os_prev := p, os_next := NONE, os_tick_index := t\<rparr> = (resettled s t)\<lparr>os_prev := p\<rparr>"
  by (cases s) (simp add: resettled_def)

text \<open>An order without its links and slot: what a migration leaves alone.\<close>

definition essence :: "order_slot \<Rightarrow> order_slot" where
  "essence s = (strip s)\<lparr>os_tick_index := 0\<rparr>"

lemma essence_resettled [simp]: "essence (resettled s t) = essence s"
  by (cases s) (simp add: essence_def resettled_def strip_def)

lemma strip_essence: "strip s = strip t \<Longrightarrow> essence s = essence t"
  by (simp add: essence_def)

lemma essenceD:
  assumes "essence s = essence t"
  shows "os_price s = os_price t" "os_remaining_qty s = os_remaining_qty t" "os_side s = os_side t" "os_user_id s = os_user_id t"
    "is_active s = is_active t" "is_buy s = is_buy t" "on_side sd s = on_side sd t"
  using assms by (cases s; cases t; cases sd; simp add: essence_def strip_def is_active_def is_buy_def on_side_def)+

lemma relink_run:
  assumes rel: "book_rel b Q F D" and h: "h \<in> D" and t: "t < length (ob_active_levels b)"
  defines "l \<equiv> ob_active_levels b ! t" and "v \<equiv> resettled (ord b h) t"
  shows "\<exists>o1. relink_tail (ob_orders b) l h =
      Some (o1, if pl_order_count l = 0 then l\<lparr>pl_head := h, pl_tail := h\<rparr> else l\<lparr>pl_tail := h\<rparr>) \<and> h < length (slots o1) \<and>
    slab_put o1 h ((slots o1 ! h)\<lparr>os_tick_index := t\<rparr>) =
      Some ((ob_orders b)\<lparr>slots := appended ((slots (ob_orders b))[h := v]) (lastp NONE (Q t)) h\<rparr>)"
proof -
  note lo = book_relD(9) [OF rel t] and dt = detached_facts [OF rel h]
  let ?xs = "slots (ob_orders b)" and ?t = "lastp NONE (Q t)"
  show ?thesis
  proof (cases "Q t = []")
    case True
    then have z: "pl_order_count l = 0" "?t = NONE" using lo by (simp_all add: level_ok_def l_def)
    show ?thesis using dt(2) unfolding z
      by (simp add: relink_tail_def z slab_get_def slab_put_def index_of_Some store_at_Some appended_def v_def resettled_swap)
  next
    case False
    have N: "NONE \<notin> set (Q t)" using queue_set_facts(2) [OF rel] by blast
    have tl: "?t \<in> set (Q t)" "?t \<noteq> NONE" using False ends_NONE_iff(1) [OF N] lastp_mem [of "Q t"] by auto
    have lt: "?t < length ?xs" by (rule queue_tick(5) [OF rel tl(1)])
    have ne: "?t \<noteq> h" "h \<noteq> ?t" using tl(1) dt(6) by auto
    have z: "pl_tail l = ?t" "pl_order_count l \<noteq> 0" using lo False by (auto simp: level_ok_def l_def)
    have "?xs[?t := (?xs ! ?t)\<lparr>os_next := h\<rparr>, h := (ord b h)\<lparr>os_prev := ?t, os_next := NONE, os_tick_index := t\<rparr>] =
        appended (?xs[h := v]) ?t h"
      using ne tl(2) lt dt(2,3)
      by (simp add: appended_def set_next_def set_prev_def v_def resettled_behind list_update_swap [of h ?t])
    then show ?thesis using dt(2) lt ne z
      by (simp add: relink_tail_def Let_def slab_get_def slab_put_def index_of_Some store_at_Some)
  qed
qed

definition slot_sound :: "compression_map \<Rightarrow> order_slot \<Rightarrow> bool" where
  "slot_sound c s \<longleftrightarrow> is_active s \<and> os_side s \<le> 1 \<and> price_range (os_price s) \<and> cp_tick_size c dvd os_price s \<and> 0 \<le> os_remaining_qty s"

lemma slot_sound_resettled: "slot_sound c s \<Longrightarrow> slot_ok c (slot_index c (os_price s)) (resettled s (slot_index c (os_price s)))"
  by (cases s) (simp add: slot_sound_def slot_ok_def resettled_def is_active_def)

lemma migrate_order_ok:
  assumes rel: "book_rel b Q F D" and h: "h \<in> D" and s: "slot_sound (ob_compression b) (ord b h)"
    and room: "qty_sum (slots (ob_orders b)) (Q (slot_index (ob_compression b) (os_price (ord b h)))) + os_remaining_qty (ord b h) \<le> i64_max"
  defines "t \<equiv> slot_index (ob_compression b) (os_price (ord b h))"
  shows "\<exists>o2 ls x y. migrate_order b h = Some (raise_best
        (b\<lparr>ob_orders := o2, ob_active_levels := ls, ob_bid_occ := x, ob_ask_occ := y\<rparr>) (side_of (ord b h)) (os_price (ord b h)) t) \<and>
    book_rel (b\<lparr>ob_orders := o2, ob_active_levels := ls, ob_bid_occ := x, ob_ask_occ := y\<rparr>) (Q(t := Q t @ [h])) F (D - {h}) \<and>
    (\<forall>z. essence (slots o2 ! z) = essence (ord b z)) \<and> (\<forall>z\<in>D - {h}. slots o2 ! z = ord b z) \<and>
    length (slots o2) = length (slots (ob_orders b)) \<and> o2\<lparr>slots := []\<rparr> = (ob_orders b)\<lparr>slots := []\<rparr>"
proof -
  note R = book_relD [OF rel] and dt = detached_facts [OF rel h]
  define v where "v = resettled (ord b h) t"
  define b2 where "b2 = b\<lparr>ob_orders := (ob_orders b)\<lparr>slots := (slots (ob_orders b))[h := v]\<rparr>\<rparr>"
  have rel2: "book_rel b2 Q F D" unfolding b2_def by (rule book_rel_write [OF rel h])
  have vh: "ord b2 h = v" using dt(2) by (simp add: b2_def)
  have s2: "slot_ok (ob_compression b2) t (ord b2 h)" unfolding vh v_def t_def using slot_sound_resettled [OF s] by (simp add: b2_def)
  have v: "os_next v = NONE" "os_prev v = NONE" "os_remaining_qty v = os_remaining_qty (ord b h)" "os_side v = os_side (ord b h)"
    "is_buy v = is_buy (ord b h)" by (simp_all add: v_def resettled_def is_buy_def)
  have "ord b2 x = ord b x" if "x \<in> set (Q t)" for x
    using that dt(6) [of t] unfolding b2_def by (cases "x = h") simp_all
  then have "qty_sum (slots (ob_orders b2)) (Q t) = qty_sum (slots (ob_orders b)) (Q t)" by (simp add: qty_sum_def cong: map_cong)
  then have sum2: "qty_sum (slots (ob_orders b2)) (Q t) + os_remaining_qty (ord b2 h) \<le> i64_max" using room v(3) by (simp add: vh t_def)
  let ?l = "ob_active_levels b ! t"
  have l2: "ob_active_levels b2 = ob_active_levels b" by (simp add: b2_def)
  obtain x y where mark: "\<forall>b1. ob_bid_occ b1 = ob_bid_occ b2 \<longrightarrow> ob_ask_occ b1 = ob_ask_occ b2 \<longrightarrow>
      (if was_empty_side ?l (ord b2 h) then occ_mark b1 (os_side (ord b2 h)) t else Some b1) = Some (b1\<lparr>ob_bid_occ := x, ob_ask_occ := y\<rparr>)"
    and rel3: "book_rel (b2\<lparr>ob_orders := (ob_orders b2)\<lparr>slots := appended (slots (ob_orders b2)) (lastp NONE (Q t)) h\<rparr>,
      ob_active_levels := (ob_active_levels b)[t := level_in ?l h (ord b2 h)], ob_bid_occ := x, ob_ask_occ := y\<rparr>) (Q(t := Q t @ [h])) F (D - {h})"
    using attach_ok [OF rel2 h s2 _ _ sum2] v(1,2) unfolding vh l2 by blast
  have t: "t < length (ob_active_levels b)"
    using slot_index_bound [OF R(2), of "os_price (ord b h)"] total_slots_ok [OF R(2)] R(4) by (simp add: t_def)
  define o2 where "o2 = (ob_orders b)\<lparr>slots := appended ((slots (ob_orders b))[h := v]) (lastp NONE (Q t)) h\<rparr>"
  define ls where "ls = (ob_active_levels b)[t := level_in ?l h (ord b2 h)]"
  have o2: "o2 = (ob_orders b2)\<lparr>slots := appended (slots (ob_orders b2)) (lastp NONE (Q t)) h\<rparr>" by (simp add: o2_def b2_def)
  obtain o1 where o1: "relink_tail (ob_orders b) ?l h = Some (o1, if pl_order_count ?l = 0 then ?l\<lparr>pl_head := h, pl_tail := h\<rparr> else ?l\<lparr>pl_tail := h\<rparr>)"
    "h < length (slots o1)" "slab_put o1 h ((slots o1 ! h)\<lparr>os_tick_index := t\<rparr>) = Some o2"
    using relink_run [OF rel h t, folded v_def] by (auto simp: o2_def)
  let ?l1 = "if pl_order_count ?l = 0 then ?l\<lparr>pl_head := h, pl_tail := h\<rparr> else ?l\<lparr>pl_tail := h\<rparr>"
  have cnt: "count_in ?l1 (os_side (ord b h)) (os_remaining_qty (ord b h)) = (was_empty_side ?l (ord b2 h), level_in ?l h (ord b2 h))"
    using v unfolding vh level_in_def Let_def by (auto simp: count_in_def was_empty_side_def is_buy_def Let_def)
  let ?b1 = "b\<lparr>ob_orders := o2, ob_active_levels := ls\<rparr>" and ?b3 = "b\<lparr>ob_orders := o2, ob_active_levels := ls, ob_bid_occ := x, ob_ask_occ := y\<rparr>"
  have mk: "(if was_empty_side ?l (ord b2 h) then occ_mark ?b1 (os_side (ord b h)) t else Some ?b1) = Some ?b3"
    using mark [rule_format, of ?b1] unfolding vh v(4) by (simp add: b2_def)
  have raise: "raise_best_u8 ?b3 (os_side (ord b h)) (os_price (ord b h)) t = raise_best ?b3 (side_of (ord b h)) (os_price (ord b h)) t"
    using s by (auto simp: raise_best_u8_def side_of_def is_buy_def slot_sound_def)
  have gt: "slab_get (ob_orders b) h = Some (ord b h)" "index_of (ob_active_levels b) t = Some ?l"
    "slab_get o1 h = Some (slots o1 ! h)" "price_to_index (ob_compression b) (os_price (ord b h)) = Some t"
    using dt(2) t o1(2) price_to_index_slot [OF R(2)] s by (simp_all add: slab_get_def index_of_Some t_def slot_sound_def)
  have "migrate_order b h = Some (raise_best ?b3 (side_of (ord b h)) (os_price (ord b h)) t)"
    by (simp only: migrate_order_def gt o1(1,3) cnt Let_def Option.bind.simps split_conv ls_def [symmetric] mk raise)
  moreover have "book_rel ?b3 (Q(t := Q t @ [h])) F (D - {h})" using rel3 unfolding ls_def o2 b2_def by simp
  moreover have "essence (slots o2 ! z) = essence (ord b z)" for z
  proof -
    have "essence (slots o2 ! z) = essence (ord b2 z)" unfolding o2 by (rule strip_essence) simp
    also have "\<dots> = essence (ord b z)" using dt(2) by (cases "z = h") (simp_all add: b2_def v_def)
    finally show ?thesis .
  qed
  moreover have "slots o2 ! z = ord b z" if "z \<in> D - {h}" for z
  proof -
    have "z \<notin> set (Q t)" using detached_facts(6) [OF rel, of z] that by blast
    then have "slots o2 ! z = ord b2 z"
      using seg_append_one(2) [of "slots (ob_orders b2)" "Q t" h z] book_relD(9) [OF rel2] t R(10) [of t] dt(3,6) detached_facts(2) [OF rel2 h]
        queue_set_facts [OF rel2, of t] v that unfolding o2 vh by (simp add: level_ok_def l2 vh)
    then show ?thesis using that by (simp add: b2_def)
  qed
  ultimately show ?thesis by (intro exI [of _ o2] exI [of _ ls] exI [of _ x] exI [of _ y]) (simp add: o2_def ls_def)
qed

section \<open>Migrating a queue\<close>

text \<open>
  \<open>moving xs A c b Q F\<close>: the orders \<open>A\<close> of the slab \<open>xs\<close> are on their way into the new map \<open>c\<close>. Those in \<open>Q\<close> have
  arrived; the others still have the slot they had before the recentering.
\<close>

definition moving :: "order_slot list \<Rightarrow> u32 set \<Rightarrow> compression_map \<Rightarrow> orderbook \<Rightarrow> queues \<Rightarrow> u32 list \<Rightarrow> bool" where
  "moving xs A c b Q F \<longleftrightarrow> book_rel b Q F (A - queued Q) \<and> queued Q \<subseteq> A \<and> best_ok b Q Buy \<and> best_ok b Q Sell \<and>
     ob_compression b = c \<and> (\<forall>z. essence (ord b z) = essence (xs ! z)) \<and> (\<forall>z\<in>A - queued Q. ord b z = xs ! z)"

definition movable :: "order_slot list \<Rightarrow> u32 set \<Rightarrow> compression_map \<Rightarrow> bool" where
  "movable xs A c \<longleftrightarrow> finite A \<and> (\<forall>z\<in>A. slot_sound c (xs ! z)) \<and> (\<Sum>z\<in>A. os_remaining_qty (xs ! z)) \<le> i64_max"

text \<open>The part of the book a migration does not touch.\<close>

definition still :: "orderbook \<Rightarrow> orderbook" where
  "still b = b\<lparr>ob_orders := (ob_orders b)\<lparr>slots := []\<rparr>, ob_active_levels := [], ob_bid_occ := occupancy_new 0, ob_ask_occ := occupancy_new 0,
     ob_best_bid_tick := 0, ob_best_ask_tick := 0, ob_best_bid_px := 0, ob_best_ask_px := 0, ob_old_levels := None\<rparr>"

lemma stillD:
  assumes "still b = still b'"
  shows "ob_compression b = ob_compression b'" "ob_state b = ob_state b'" "ob_users b = ob_users b'" "ob_config b = ob_config b'"
    "ob_old_compression b = ob_old_compression b'" "ob_event_buf b = ob_event_buf b'"
  using assms by (cases b; cases b'; simp add: still_def)+

lemma movable_room:
  assumes "movable xs A c" "h \<in> A" "set hs \<subseteq> A - {h}" "distinct hs"
  shows "qty_sum xs hs + os_remaining_qty (xs ! h) \<le> i64_max"
proof -
  have A: "finite A" "\<And>z. z \<in> A \<Longrightarrow> 0 \<le> os_remaining_qty (xs ! z)" "(\<Sum>z\<in>A. os_remaining_qty (xs ! z)) \<le> i64_max"
    using assms(1) by (auto simp: movable_def slot_sound_def)
  have "qty_sum xs hs + os_remaining_qty (xs ! h) = (\<Sum>z\<in>insert h (set hs). os_remaining_qty (xs ! z))"
    using assms(3,4) by (subst sum.insert) (auto simp: qty_sum_def sum_list_distinct_conv_sum_set)
  also have "\<dots> \<le> (\<Sum>z\<in>A. os_remaining_qty (xs ! z))" using A assms(2,3) by (intro sum_mono2) auto
  finally show ?thesis using A(3) by linarith
qed

lemma moving_essence: "moving xs A c b Q F \<Longrightarrow> essence (ord b z) = essence (xs ! z)"
  by (simp add: moving_def)

lemma same_view:
  assumes "ob_orders b' = ob_orders b" "ob_active_levels b' = ob_active_levels b" "ob_compression b' = ob_compression b"
    "ob_price_asc b' = ob_price_asc b" "ob_bid_occ b' = ob_bid_occ b" "ob_ask_occ b' = ob_ask_occ b"
    "ob_best_bid_tick b' = ob_best_bid_tick b" "ob_best_ask_tick b' = ob_best_ask_tick b" "ob_best_bid_px b' = ob_best_bid_px b"
    "ob_best_ask_px b' = ob_best_ask_px b"
  shows "book_rel b' Q F D = book_rel b Q F D" "best_ok b' Q sd = best_ok b Q sd" "moving xs A c b' Q F = moving xs A c b Q F"
proof -
  show rel: "book_rel b' Q F D = book_rel b Q F D" for D by (simp only: book_rel_def assms)
  show best: "best_ok b' Q sd = best_ok b Q sd" for sd by (simp only: best_ok_def resting_def best_tick_def best_px_def assms)
  show "moving xs A c b' Q F = moving xs A c b Q F" by (simp only: moving_def rel best assms)
qed

lemma moving_old_levels [simp]: "moving xs A c (b\<lparr>ob_old_levels := x\<rparr>) Q F = moving xs A c b Q F"
  by (rule same_view(3)) simp_all

lemma moving_step:
  assumes mv: "moving xs A c b Q F" and ok: "movable xs A c" and h: "h \<in> A - queued Q"
  defines "t \<equiv> slot_index c (os_price (xs ! h))"
  shows "\<exists>b'. migrate_order b h = Some b' \<and> moving xs A c b' (Q(t := Q t @ [h])) F \<and> still b' = still b \<and> ob_old_levels b' = ob_old_levels b"
proof -
  let ?Q = "Q(t := Q t @ [h])"
  have rel: "book_rel b Q F (A - queued Q)" and QA: "queued Q \<subseteq> A" and best: "\<And>s. best_ok b Q s" and c: "ob_compression b = c"
    and hs: "ord b h = xs ! h" using mv h unfolding moving_def by (simp, simp, metis (full_types) side.exhaust, simp, simp)
  note es = moving_essence [OF mv]
  have sound: "slot_sound (ob_compression b) (ord b h)" using ok h by (simp add: movable_def hs c)
  have "qty_sum (slots (ob_orders b)) (Q t) = qty_sum xs (Q t)" by (simp add: qty_sum_def essenceD(2) [OF es])
  moreover have "set (Q t) \<subseteq> A - {h}" using QA h by (auto simp: queued_def)
  ultimately have room: "qty_sum (slots (ob_orders b)) (Q (slot_index (ob_compression b) (os_price (ord b h)))) + os_remaining_qty (ord b h) \<le> i64_max"
    using movable_room [OF ok _ _ book_relD(10) [OF rel], of h t] h by (simp add: hs c t_def)
  obtain o2 ls x y where m: "migrate_order b h = Some (raise_best (b\<lparr>ob_orders := o2, ob_active_levels := ls, ob_bid_occ := x, ob_ask_occ := y\<rparr>)
        (side_of (ord b h)) (os_price (ord b h)) t)"
    "book_rel (b\<lparr>ob_orders := o2, ob_active_levels := ls, ob_bid_occ := x, ob_ask_occ := y\<rparr>) ?Q F (A - queued Q - {h})"
    and o2: "\<And>z. essence (slots o2 ! z) = essence (ord b z)" "\<And>z. z \<in> A - queued Q - {h} \<Longrightarrow> slots o2 ! z = ord b z"
    "length (slots o2) = length (slots (ob_orders b))" "o2\<lparr>slots := []\<rparr> = (ob_orders b)\<lparr>slots := []\<rparr>"
    using migrate_order_ok [OF rel h sound room] by (auto simp: hs c t_def)
  let ?b1 = "b\<lparr>ob_orders := o2, ob_active_levels := ls, ob_bid_occ := x, ob_ask_occ := y\<rparr>"
  let ?b2 = "raise_best ?b1 (side_of (ord b h)) (os_price (ord b h)) t"
  have q: "queued ?Q = insert h (queued Q)" by (rule queued_append)
  have rs: "resting ?b1 ?Q s = (if side_of (ord b h) = s then insert h (resting b Q s) else resting b Q s)" for s
    using essenceD(7) [OF o2(1), of s] by (auto simp: resting_def q on_side_of essenceD(6) [OF o2(1)])
  have bt: "best_tick ?b1 s = best_tick b s" "best_px ?b1 s = best_px b s" for s by (simp_all add: best_tick_def best_px_def cong: side.case_cong)
  have best2: "best_ok ?b2 ?Q s" for s
  proof (cases "side_of (ord b h) = s")
    case True
    show ?thesis unfolding True
      by (rule raise_best_ok [OF best, where h = h])
        (use rs [of s] True h essenceD(1) [OF o2(1)] resting_bound [OF rel] bt in \<open>simp_all add: t_def c hs resting_def\<close>)
  next
    case False
    have "best_ok ?b2 ?Q s = best_ok b Q s"
      by (rule best_ok_transfer) (use False rs [of s] raise_best_other [of s "side_of (ord b h)"] essenceD(1) [OF o2(1)] bt in simp_all)
    then show ?thesis using best by simp
  qed
  have "book_rel ?b2 ?Q F (A - queued ?Q)" using m(2) unfolding q Diff_insert [of A h "queued Q"] by simp
  moreover have "essence (ord ?b2 z) = essence (xs ! z)" for z using o2(1) es by simp
  moreover have "ord ?b2 z = xs ! z" if "z \<in> A - queued ?Q" for z using o2(2) [of z] mv that by (simp add: q moving_def)
  ultimately have "moving xs A c ?b2 ?Q F" unfolding moving_def using best2 QA h c by (simp add: q)
  moreover have "still ?b2 = still b" "ob_old_levels ?b2 = ob_old_levels b"
    using o2(4) by (cases b; cases "side_of (ord b h)"; simp add: still_def raise_best_def)+
  ultimately show ?thesis using m(1) by blast
qed

lemma migrate_from_ok:
  assumes "moving xs A c b Q F" "movable xs A c" "seg xs p hs NONE" "set hs \<subseteq> A - queued Q" "distinct hs" "NONE \<notin> set hs"
  shows "\<exists>b'. migrate_from b (first hs NONE) = Some b' \<and>
    moving xs A c b' (\<lambda>t. Q t @ filter (\<lambda>h. slot_index c (os_price (xs ! h)) = t) hs) F \<and> still b' = still b \<and> ob_old_levels b' = ob_old_levels b"
  using assms
proof (induction hs arbitrary: b Q p)
  case Nil
  then show ?case by (simp add: migrate_from.simps [of b NONE])
next
  case (Cons h hs)
  let ?t = "slot_index c (os_price (xs ! h))"
  have h: "h \<in> A - queued Q" "h \<noteq> NONE" using Cons.prems by auto
  obtain b1 where b1: "migrate_order b h = Some b1" "moving xs A c b1 (Q(?t := Q ?t @ [h])) F" "still b1 = still b" "ob_old_levels b1 = ob_old_levels b"
    using moving_step [OF Cons.prems(1,2) h(1)] by blast
  have "book_rel b Q F (A - queued Q)" "ord b h = xs ! h" using Cons.prems(1) h(1) by (auto simp: moving_def)
  then have get: "slab_get (ob_orders b) h = Some (xs ! h)"
    using detached_facts(2) [of b Q F "A - queued Q" h] h(1) by (simp add: slab_get_def index_of_Some)
  obtain b' where b': "migrate_from b1 (first hs NONE) = Some b'" "still b' = still b1" "ob_old_levels b' = ob_old_levels b1"
    "moving xs A c b' (\<lambda>t. (Q(?t := Q ?t @ [h])) t @ filter (\<lambda>h. slot_index c (os_price (xs ! h)) = t) hs) F"
    using Cons.IH [OF b1(2) Cons.prems(2), of h] Cons.prems(3-6) unfolding queued_append by (simp del: fun_upd_apply) blast
  moreover have "(\<lambda>t. (Q(?t := Q ?t @ [h])) t @ filter (\<lambda>h. slot_index c (os_price (xs ! h)) = t) hs) =
      (\<lambda>t. Q t @ filter (\<lambda>h. slot_index c (os_price (xs ! h)) = t) (h # hs))" by auto
  moreover have "os_next (xs ! h) = first hs NONE" using Cons.prems(3) by simp
  ultimately show ?case using b1 h(2) get by (simp add: migrate_from.simps [of b h])
qed

section \<open>Migrating the levels\<close>

text \<open>
  \<open>progress b0 Q0 b1 b Q F S\<close>: of the book \<open>b0\<close> with queues \<open>Q0\<close> exactly the old levels \<open>S\<close> have been moved, the
  remaining old levels are as they were, and every price whose old level was moved has its orders in the old order.
\<close>

definition priced :: "order_slot list \<Rightarrow> i64 \<Rightarrow> u32 list \<Rightarrow> u32 list" where
  "priced xs p hs = filter (\<lambda>h. os_price (xs ! h) = p) hs"

definition progress :: "orderbook \<Rightarrow> queues \<Rightarrow> orderbook \<Rightarrow> orderbook \<Rightarrow> queues \<Rightarrow> u32 list \<Rightarrow> nat set \<Rightarrow> bool" where
  "progress b0 Q0 b1 b Q F S \<longleftrightarrow>
     moving (slots (ob_orders b0)) (queued Q0) (ob_compression b1) b Q F \<and> still b = still b1 \<and> queued Q = (\<Union>u\<in>S. set (Q0 u)) \<and>
     (\<exists>ls. ob_old_levels b = Some ls \<and> length ls = length (ob_active_levels b0) \<and>
       (\<forall>u<length ls. ls ! u = (if u \<in> S then price_level_default else ob_active_levels b0 ! u))) \<and>
     (\<forall>p. priced (slots (ob_orders b0)) p (Q (slot_index (ob_compression b1) p)) =
       (if slot_index (ob_compression b0) p \<in> S then priced (slots (ob_orders b0)) p (Q0 (slot_index (ob_compression b0) p)) else []))"

lemma level_ok_Nil: "level_ok xs l [] \<longleftrightarrow> l = price_level_default"
  by (cases l) (auto simp: level_ok_def price_level_default_def qty_sum_def i64_max_def)

lemma priced_other_level:
  assumes "book_rel b Q F D" "u \<noteq> slot_index (ob_compression b) p"
  shows "priced (slots (ob_orders b)) p (Q u) = []"
  using book_relD(11) [OF assms(1), of _ u] assms(2) by (auto simp: priced_def filter_empty_conv slot_ok_def)

lemma priced_moved: "priced xs p (filter (\<lambda>h. slot_index c (os_price (xs ! h)) = slot_index c p) hs) = priced xs p hs"
  by (auto simp: priced_def intro: filter_cong)

lemma migrate_level_ok:
  assumes rel: "book_rel b0 Q0 F {}" and ok: "movable (slots (ob_orders b0)) (queued Q0) (ob_compression b1)"
    and pr: "progress b0 Q0 b1 b Q F S" and u: "u < length (ob_active_levels b0)"
  shows "\<exists>b' Q'. migrate_single_level b u = Some b' \<and> progress b0 Q0 b1 b' Q' F (insert u S)"
proof -
  let ?xs = "slots (ob_orders b0)" and ?c = "ob_compression b1"
  obtain ls where ls: "ob_old_levels b = Some ls" "length ls = length (ob_active_levels b0)"
    "\<And>u. u < length ls \<Longrightarrow> ls ! u = (if u \<in> S then price_level_default else ob_active_levels b0 ! u)"
    using pr unfolding progress_def by blast
  have mv: "moving ?xs (queued Q0) ?c b Q F" and st: "still b = still b1" and qd: "queued Q = (\<Union>u\<in>S. set (Q0 u))"
    and fifo: "\<And>p. priced ?xs p (Q (slot_index ?c p)) =
       (if slot_index (ob_compression b0) p \<in> S then priced ?xs p (Q0 (slot_index (ob_compression b0) p)) else [])"
    using pr unfolding progress_def by simp_all
  note lo = book_relD(9) [OF rel u]
  show ?thesis
  proof (cases "pl_order_count (ls ! u) = 0")
    case True
    have e: "u \<in> S \<or> Q0 u = []" using True ls(2) ls(3) [of u] u lo by (auto simp: level_ok_def split: if_splits)
    have "migrate_single_level b u = Some b" using True ls(1,2) u by (simp add: migrate_single_level_def)
    moreover have "progress b0 Q0 b1 b Q F (insert u S)"
    proof (cases "u \<in> S")
      case True
      then show ?thesis using pr by (simp add: insert_absorb)
    next
      case False
      then have Qe: "Q0 u = []" using e by simp
      then have "ob_active_levels b0 ! u = price_level_default" using lo by (simp add: level_ok_Nil)
      moreover have "priced ?xs p (Q0 u) = []" for p by (simp add: Qe priced_def)
      ultimately show ?thesis using mv st qd fifo ls unfolding progress_def by (auto simp: Qe)
    qed
    ultimately show ?thesis by blast
  next
    case False
    then have S: "u \<notin> S" and lu: "ls ! u = ob_active_levels b0 ! u"
      using ls(3) [of u] ls(2) u by (auto simp: price_level_default_def)
    have "set (Q0 u) \<subseteq> queued Q0 - queued Q"
      unfolding qd using S queues_disjoint [OF rel] by (auto simp: queued_def)
    then obtain b' where b': "migrate_from b (first (Q0 u) NONE) = Some b'" "still b' = still b" "ob_old_levels b' = ob_old_levels b"
      "moving ?xs (queued Q0) ?c b' (\<lambda>t. Q t @ filter (\<lambda>h. slot_index ?c (os_price (?xs ! h)) = t) (Q0 u)) F"
      using migrate_from_ok [OF mv ok, of NONE "Q0 u"] lo book_relD(10) [OF rel, of u] queue_set_facts(2) [OF rel, of u]
      by (auto simp: level_ok_def)
    let ?Q = "\<lambda>t. Q t @ filter (\<lambda>h. slot_index ?c (os_price (?xs ! h)) = t) (Q0 u)"
    let ?b = "b'\<lparr>ob_old_levels := Some (ls[u := price_level_default])\<rparr>"
    have "migrate_single_level b u = Some ?b" using False ls(1,2) lu u b'(1,3) lo by (simp add: migrate_single_level_def level_ok_def)
    moreover have "progress b0 Q0 b1 ?b ?Q F (insert u S)"
    proof -
      have "moving ?xs (queued Q0) ?c ?b ?Q F" using b'(4) by simp
      moreover have "still ?b = still b1" using b'(2) st by (cases b'; cases b1; simp add: still_def)
      moreover have "queued ?Q = (\<Union>u\<in>insert u S. set (Q0 u))" using qd by (auto simp: queued_def)
      moreover have "\<forall>v<length (ls[u := price_level_default]).
          ls[u := price_level_default] ! v = (if v \<in> insert u S then price_level_default else ob_active_levels b0 ! v)"
      proof (intro allI impI)
        fix v assume "v < length (ls[u := price_level_default])"
        then show "ls[u := price_level_default] ! v = (if v \<in> insert u S then price_level_default else ob_active_levels b0 ! v)"
          using ls(3) [of v] by (cases "v = u") simp_all
      qed
      moreover have "priced ?xs p (?Q (slot_index ?c p)) =
          (if slot_index (ob_compression b0) p \<in> insert u S then priced ?xs p (Q0 (slot_index (ob_compression b0) p)) else [])" for p
      proof -
        have "priced ?xs p (?Q (slot_index ?c p)) = priced ?xs p (Q (slot_index ?c p)) @ priced ?xs p (Q0 u)"
          using priced_moved [of ?xs p ?c "Q0 u"] by (simp add: priced_def)
        then show ?thesis using fifo S priced_other_level [OF rel, of u p] by auto
      qed
      ultimately show ?thesis using ls(2) unfolding progress_def by auto
    qed
    ultimately show ?thesis by blast
  qed
qed

lemma migrate_levels_ok:
  assumes "book_rel b0 Q0 F {}" "movable (slots (ob_orders b0)) (queued Q0) (ob_compression b1)"
    "progress b0 Q0 b1 b Q F S" "\<And>u. u \<in> set us \<Longrightarrow> u < length (ob_active_levels b0)"
  shows "\<exists>b' Q'. migrate_levels us b = Some b' \<and> progress b0 Q0 b1 b' Q' F (S \<union> set us)"
  using assms
proof (induction us arbitrary: b Q S)
  case (Cons u us)
  obtain b' Q' where b': "migrate_single_level b u = Some b'" "progress b0 Q0 b1 b' Q' F (insert u S)"
    using migrate_level_ok [OF Cons.prems(1-3), of u] Cons.prems(4) by auto
  show ?case using Cons.IH [OF Cons.prems(1,2) b'(2)] Cons.prems(4) b'(1) by simp
qed auto

section \<open>The whole recentering\<close>

lemma recentered_progress:
  assumes w: "wf b Q F" and c: "comp_ok c"
  shows "progress b Q (recentered b mid c) (recentered b mid c) (\<lambda>_. []) F {}"
proof -
  note W = wfD [OF w]
  let ?b = "recentered b mid c"
  have q: "queued (\<lambda>_. []) = {}" by (simp add: queued_def)
  have "book_rel ?b (\<lambda>_. []) F (queued Q)"
    using W(1) c occupancy_new_ok [of "total_slots c"]
    by (simp add: book_rel_def recentered_def level_ok_Nil q)
  then show ?thesis unfolding progress_def moving_def
    by (simp add: q resting_def best_ok_def best_tick_def best_px_def priced_def)
      (simp add: recentered_def)
qed

lemma movable_recentered:
  assumes w: "wf b Q F" and c: "cp_tick_size c = cp_tick_size (ob_compression b)" and q: "resting_qty b Q \<le> i64_max"
  shows "movable (slots (ob_orders b)) (queued Q) c"
proof -
  note W = wfD [OF w]
  have "slot_sound c (ord b z)" if z: "z \<in> queued Q" for z
  proof -
    obtain t where "z \<in> set (Q t)" using z by (auto simp: queued_def)
    then show ?thesis using book_relD(11) [OF W(1)] c by (auto simp: slot_ok_def slot_sound_def)
  qed
  then show ?thesis using finite_queued [OF W(1)] q by (simp add: movable_def resting_qty_def rem_def)
qed

lemma progress_complete:
  assumes w: "wf b0 Q0 F" and pr: "progress b0 Q0 b1 b Q F S" and S: "\<And>u. u < length (ob_active_levels b0) \<Longrightarrow> u \<in> S"
    and users: "ob_users b1 = ob_users b0"
  defines "b' \<equiv> complete_migration b"
  shows "wf b' Q F" "queued Q = queued Q0" "essence (ord b' h) = essence (ord b0 h)" "ob_compression b' = ob_compression b1"
    "priced (slots (ob_orders b0)) p (Q (slot_index (ob_compression b1) p)) = priced (slots (ob_orders b0)) p (Q0 (slot_index (ob_compression b0) p))"
    "ob_state b' = Normal" "ob_users b' = ob_users b0" "ob_config b' = ob_config b1"
proof -
  note W = wfD [OF w]
  have Qs: "Q0 u = []" if "u \<notin> S" for u using book_relD(19) [OF W(1), of u] S [of u] that by (cases "u < length (ob_active_levels b0)") auto
  have mv: "moving (slots (ob_orders b0)) (queued Q0) (ob_compression b1) b Q F" and st: "still b = still b1"
    and qd: "queued Q = (\<Union>u\<in>S. set (Q0 u))"
    and fifo: "priced (slots (ob_orders b0)) p (Q (slot_index (ob_compression b1) p)) =
       (if slot_index (ob_compression b0) p \<in> S then priced (slots (ob_orders b0)) p (Q0 (slot_index (ob_compression b0) p)) else [])"
    using pr unfolding progress_def by simp_all
  show q: "queued Q = queued Q0" 
  proof
    show "queued Q \<subseteq> queued Q0" unfolding qd by (auto simp: queued_def)
    show "queued Q0 \<subseteq> queued Q"
    proof
      fix h assume "h \<in> queued Q0"
      then obtain u where "h \<in> set (Q0 u)" by (auto simp: queued_def)
      then show "h \<in> queued Q" unfolding qd using Qs [of u] by (cases "u \<in> S") auto
    qed
  qed
  have same: "ord b' z = ord b z" "resting b' Q sd = resting b Q sd" for z sd by (simp_all add: b'_def complete_migration_def resting_def)
  have es: "essence (ord b z) = essence (ord b0 z)" for z by (rule moving_essence [OF mv])
  show e: "essence (ord b' h) = essence (ord b0 h)" by (simp add: same es)
  show u: "ob_users b' = ob_users b0" "ob_compression b' = ob_compression b1" "ob_config b' = ob_config b1" "ob_state b' = Normal"
    using stillD [OF st] users by (simp_all add: b'_def complete_migration_def)
  show "priced (slots (ob_orders b0)) p (Q (slot_index (ob_compression b1) p)) = priced (slots (ob_orders b0)) p (Q0 (slot_index (ob_compression b0) p))"
    using fifo Qs [of "slot_index (ob_compression b0) p"] by (simp add: priced_def)
  have view: "book_rel b' Q F D = book_rel b Q F D" "best_ok b' Q sd = best_ok b Q sd" for D sd
    by (rule same_view; simp add: b'_def complete_migration_def)+
  have "book_rel b' Q F {}" "best_ok b' Q Buy" "best_ok b' Q Sell" using mv q unfolding view by (simp_all add: moving_def)
  moreover have "positive b' Q" using W(2) by (simp add: positive_def q same essenceD(2) [OF es])
  moreover have "users_rel b' Q" using W(4) by (simp add: users_rel_def q u same essenceD(4) [OF es])
  ultimately show "wf b' Q F" by (simp add: wf_def)
qed

lemma best_price_same:
  assumes "wf b Q F" "wf b' Q' F'" "queued Q' = queued Q" "\<And>h. essence (ord b' h) = essence (ord b h)"
  shows "best_px b' sd = best_px b sd" "uncrossed b' Q' = uncrossed b Q"
proof -
  note p = essenceD(1) [OF assms(4)]
  have r: "resting b' Q' s = resting b Q s" for s using essenceD(7) [OF assms(4)] by (simp add: resting_def assms(3))
  show "uncrossed b' Q' = uncrossed b Q" by (simp add: uncrossed_def r p)
  show "best_px b' sd = best_px b sd"
  proof (cases "resting b Q sd = {}")
    case True
    then show ?thesis using wfD(3) [OF assms(1), of sd] wfD(3) [OF assms(2), of sd] r by (simp add: best_ok_def)
  next
    case False
    then obtain g g' where "g \<in> resting b Q sd" "os_price (ord b g) = best_px b sd" "g' \<in> resting b Q sd" "os_price (ord b g') = best_px b' sd"
      "\<forall>h\<in>resting b Q sd. better sd (best_px b sd) (os_price (ord b h))" "\<forall>h\<in>resting b Q sd. better sd (best_px b' sd) (os_price (ord b h))"
      using wfD(3) [OF assms(1), of sd] wfD(3) [OF assms(2), of sd] by (auto simp: best_ok_def r p)
    then have "key sd (best_px b' sd) = key sd (best_px b sd)" unfolding better_key by (metis order_antisym)
    then show ?thesis by simp
  qed
qed

lemma recenter_now_ok:
  assumes w: "wf b Q F" and tick: "cp_tick_size (ob_compression b) = bc_tick_size (ob_config b)"
    and mid: "regular_mid new_mid (bc_tick_size (ob_config b))" and qty: "resting_qty b Q \<le> i64_max"
  shows "\<exists>b' Q'. recenter_now b new_mid = Some b' \<and> wf b' Q' F \<and> ob_state b' = Normal \<and> cp_mid_price (ob_compression b') = new_mid \<and>
    queued Q' = queued Q \<and> (\<forall>h. essence (ord b' h) = essence (ord b h)) \<and>
    (\<forall>p. priced (slots (ob_orders b')) p (Q' (slot_index (ob_compression b') p)) = priced (slots (ob_orders b)) p (Q (slot_index (ob_compression b) p))) \<and>
    (\<forall>sd. best_px b' sd = best_px b sd) \<and> uncrossed b' Q' = uncrossed b Q \<and> ob_users b' = ob_users b \<and>
    ob_config b' = ob_config b \<and> cp_tick_size (ob_compression b') = cp_tick_size (ob_compression b) \<and> ob_event_buf b' = ob_event_buf b"
proof -
  note W = wfD [OF w]
  let ?n = "length (ob_active_levels b)" and ?u = "slot_index (ob_compression b) new_mid"
  obtain c where c: "compression_new new_mid (bc_tick_size (ob_config b)) = Some c" "comp_ok c" "cp_mid_price c = new_mid"
    "cp_tick_size c = cp_tick_size (ob_compression b)" using compression_new_regular [OF mid] tick by auto
  define b1 where "b1 = recentered b new_mid c"
  have b1: "ob_compression b1 = c" "ob_old_compression b1 = Some (ob_compression b)" "ob_users b1 = ob_users b" "ob_state b1 = Migrating"
    "ob_config b1 = ob_config b" "ob_event_buf b1 = ob_event_buf b"
    by (simp_all add: b1_def recentered_def)
  have ok: "movable (slots (ob_orders b)) (queued Q) (ob_compression b1)" unfolding b1(1) by (rule movable_recentered [OF w c(4) qty])
  have u: "?u < ?n" "price_to_index (ob_compression b) new_mid = Some ?u" "?n < 4294967296"
    using slot_index_bound [OF book_relD(2) [OF W(1)], of new_mid] total_slots_ok [OF book_relD(2) [OF W(1)]] book_relD(4) [OF W(1)]
      price_to_index_slot [OF book_relD(2) [OF W(1)], of new_mid] mid base_top(2) [OF book_relD(2) [OF W(1)]] book_relD(2) [OF W(1)]
    by (auto simp: price_range_def regular_mid_def i64_max_def comp_ok_def NONE_def)
  obtain b2 Q2 where b2: "migrate_single_level b1 ?u = Some b2" "progress b Q b1 b2 Q2 F {?u}"
    using migrate_level_ok [OF W(1) ok recentered_progress [OF w c(2), of new_mid, folded b1_def] u(1)] by blast
  have trig: "trigger_recenter b new_mid = Some b2"
    using c(1) b1(2) u(2) b2(1) by (simp add: trigger_recenter_def b1_def [symmetric] migrate_price_def)
  obtain b3 Q3 where b3: "migrate_levels [0..<?n] b2 = Some b3" "progress b Q b1 b3 Q3 F ({?u} \<union> set [0..<?n])"
    using migrate_levels_ok [OF W(1) ok b2(2), of "[0..<?n]"] by auto
  have st: "ob_state b2 = Migrating" "\<exists>ls. ob_old_levels b2 = Some ls \<and> length ls = ?n"
    using b2(2) b1(4) stillD(2) [of b2 b1] unfolding progress_def by auto
  have run: "recenter_now b new_mid = Some (complete_migration b3)"
    using trig st u(3) b3(1) by (auto simp: recenter_now_def complete_migration_eager_def Let_def u64_as_u32_def)
  note fin = progress_complete [OF w b3(2) _ b1(3)]
  have S: "u \<in> {?u} \<union> set [0..<?n]" if "u < ?n" for u using that by simp
  have w': "wf (complete_migration b3) Q3 F" and q: "queued Q3 = queued Q" and es: "\<And>h. essence (ord (complete_migration b3) h) = essence (ord b h)"
    using fin(1,2,3) S by blast+
  have pr: "priced (slots (ob_orders (complete_migration b3))) p hs = priced (slots (ob_orders b)) p hs" for p hs
    unfolding priced_def essenceD(1) [OF es] ..
  have same: "ob_config (complete_migration b3) = ob_config b" "ob_event_buf (complete_migration b3) = ob_event_buf b"
    "ob_compression (complete_migration b3) = c"
    using b3(2) stillD [of b3 b1] b1 unfolding progress_def by (auto simp: complete_migration_def)
  show ?thesis using run w' q es fin(4-7) [OF S] c(3) best_price_same [OF w w' q es] b1(1)
    by (intro exI [of _ "complete_migration b3"] exI [of _ Q3]) (simp add: pr same c(4))
qed

text \<open>C11: recentering keeps the book. \<open>recenter_now\<close> on a well-formed book whose resting quantity fits an \<open>i64\<close> returns (no
  loop runs away, no index is out of range) a well-formed book in state \<open>Normal\<close> around the new mid, in which exactly the same orders
  rest, each with its price, side, quantities, owner and ids; the orders of every price are in the time order they had; the tracked
  best prices, whether the book is crossed, the users and the free list are unchanged.\<close>

theorem recenter_keeps_book:
  assumes w: "wf b Q F" and tick: "cp_tick_size (ob_compression b) = bc_tick_size (ob_config b)"
    and mid: "regular_mid new_mid (bc_tick_size (ob_config b))" and qty: "resting_qty b Q \<le> i64_max"
  shows "\<exists>b' Q'. recenter_now b new_mid = Some b' \<and> wf b' Q' F \<and> ob_state b' = Normal \<and> cp_mid_price (ob_compression b') = new_mid \<and>
    queued Q' = queued Q \<and> (\<forall>h. essence (ord b' h) = essence (ord b h)) \<and>
    (\<forall>p. priced (slots (ob_orders b')) p (Q' (slot_index (ob_compression b') p)) = priced (slots (ob_orders b)) p (Q (slot_index (ob_compression b) p))) \<and>
    (\<forall>sd. best_px b' sd = best_px b sd) \<and> uncrossed b' Q' = uncrossed b Q \<and> ob_users b' = ob_users b"
  using recenter_now_ok [OF assms] by blast

text \<open>Witness: the book of \<open>one_order_book\<close>, recentered from 5000 to 6000.\<close>


theorem recenter_keeps_book_witness:
  "\<exists>b b1 b2 h Q'. orderbook_new \<lparr>bc_symbol_id = 1, bc_tick_size = 1, bc_lot_size = 1\<rparr> 16 5000 = Some b \<and>
    insert_resting b 5000 10 Buy 0 7 False 1 0 42 = Some (h, b1) \<and> recenter_now b1 6000 = Some b2 \<and> queued Q' = {h} \<and>
    best_px b2 Buy = best_px b1 Buy \<and> essence (ord b2 h) = essence (ord b1 h)"
proof -
  obtain b h b1 F where b: "orderbook_new \<lparr>bc_symbol_id = 1, bc_tick_size = 1, bc_lot_size = 1\<rparr> 16 5000 = Some b"
    "insert_resting b 5000 10 Buy 0 7 False 1 0 42 = Some (h, b1)" "cp_tick_size (ob_compression b1) = 1"
    "wf b1 ((\<lambda>t. [])(slot_index (ob_compression b1) 5000 := [h])) F" "fresh_order (ord b1 h) 5000 10 Buy 0 7 False 0 42"
    "ob_config b1 = \<lparr>bc_symbol_id = 1, bc_tick_size = 1, bc_lot_size = 1\<rparr>"
    using one_order_book by blast
  have q: "queued ((\<lambda>t. [])(slot_index (ob_compression b1) 5000 := [h])) = {h}" by (auto simp: queued_def)
  have "resting_qty b1 ((\<lambda>t. [])(slot_index (ob_compression b1) 5000 := [h])) \<le> i64_max"
    unfolding resting_qty_def q using b(5) by (simp add: rem_def fresh_order_def i64_max_def)
  then obtain b2 Q' where "recenter_now b1 6000 = Some b2" "queued Q' = {h}" "best_px b2 Buy = best_px b1 Buy" "essence (ord b2 h) = essence (ord b1 h)"
    using recenter_keeps_book [OF b(4), of 6000] b(3,6) unfolding q by (auto simp: regular_mid_def)
  then show ?thesis using b(1,2) by blast
qed

end
