(* ===== verification/Risk_Position.thy ===== *)
theory Risk_Position
  imports Rsx_Types
begin

text \<open>
  \<open>rsx-risk/src/position.rs\<close> and \<open>account.rs\<close>: a user's position in one symbol, kept as a long and a short leg with
  their entry costs, and the collateral account. Products of two \<open>i64\<close> are taken in \<open>i128\<close>, where they cannot
  overflow, and clamped to \<open>i64\<close>; the field updates are plain \<open>i64\<close> arithmetic and wrap.
\<close>

section \<open>Definitions\<close>

record position =
  ps_user_id :: u32
  ps_symbol_id :: u32
  ps_long_qty :: i64
  ps_short_qty :: i64
  ps_long_entry_cost :: i64
  ps_short_entry_cost :: i64
  ps_realized_pnl :: i64
  ps_last_fill_seq :: u64
  ps_version :: u64

definition position_new :: "u32 \<Rightarrow> u32 \<Rightarrow> position" where
  "position_new user_id symbol_id = \<lparr>ps_user_id = user_id, ps_symbol_id = symbol_id, ps_long_qty = 0, ps_short_qty = 0,
     ps_long_entry_cost = 0, ps_short_entry_cost = 0, ps_realized_pnl = 0, ps_last_fill_seq = 0, ps_version = 0\<rparr>"

definition apply_buy :: "position \<Rightarrow> i64 \<Rightarrow> i64 \<Rightarrow> position" where
  "apply_buy s price qty =
     (if ps_short_qty s > 0 then
        let close_qty = min qty (ps_short_qty s);
            close_cost = clamp64 ((ps_short_entry_cost s * close_qty) sdiv ps_short_qty s);
            s1 = s\<lparr>ps_realized_pnl := i64_add (ps_realized_pnl s) (clamp64 (close_cost - price * close_qty)),
                   ps_short_qty := i64_sub (ps_short_qty s) close_qty,
                   ps_short_entry_cost := i64_sub (ps_short_entry_cost s) close_cost\<rparr>;
            remaining = i64_sub qty close_qty
        in if remaining > 0 then
             s1\<lparr>ps_long_qty := i64_add (ps_long_qty s1) remaining,
                ps_long_entry_cost := i64_add (ps_long_entry_cost s1) (clamp64 (price * remaining))\<rparr>
           else s1
      else s\<lparr>ps_long_qty := i64_add (ps_long_qty s) qty,
             ps_long_entry_cost := i64_add (ps_long_entry_cost s) (clamp64 (price * qty))\<rparr>)"

definition apply_sell :: "position \<Rightarrow> i64 \<Rightarrow> i64 \<Rightarrow> position" where
  "apply_sell s price qty =
     (if ps_long_qty s > 0 then
        let close_qty = min qty (ps_long_qty s);
            close_cost = clamp64 ((ps_long_entry_cost s * close_qty) sdiv ps_long_qty s);
            s1 = s\<lparr>ps_realized_pnl := i64_add (ps_realized_pnl s) (clamp64 (price * close_qty - close_cost)),
                   ps_long_qty := i64_sub (ps_long_qty s) close_qty,
                   ps_long_entry_cost := i64_sub (ps_long_entry_cost s) close_cost\<rparr>;
            remaining = i64_sub qty close_qty
        in if remaining > 0 then
             s1\<lparr>ps_short_qty := i64_add (ps_short_qty s1) remaining,
                ps_short_entry_cost := i64_add (ps_short_entry_cost s1) (clamp64 (price * remaining))\<rparr>
           else s1
      else s\<lparr>ps_short_qty := i64_add (ps_short_qty s) qty,
             ps_short_entry_cost := i64_add (ps_short_entry_cost s) (clamp64 (price * qty))\<rparr>)"

definition apply_fill :: "position \<Rightarrow> u8 \<Rightarrow> i64 \<Rightarrow> i64 \<Rightarrow> u64 \<Rightarrow> position" where
  "apply_fill s sd price qty seq =
     (let s1 = (if sd = 0 then apply_buy s price qty else apply_sell s price qty)
      in s1\<lparr>ps_version := u64_add (ps_version s1) 1, ps_last_fill_seq := seq\<rparr>)"

definition pos_net_qty :: "position \<Rightarrow> i64" where
  "pos_net_qty s = i64_sub (ps_long_qty s) (ps_short_qty s)"

definition notional :: "position \<Rightarrow> i64 \<Rightarrow> i64 option" where
  "notional s mark_price = try64 (i64_abs (pos_net_qty s) * mark_price)"

definition avg_entry :: "position \<Rightarrow> i64" where
  "avg_entry s =
     (let nq = pos_net_qty s in
      if nq > 0 then if ps_long_qty s = 0 then 0 else wrap64 (ps_long_entry_cost s sdiv ps_long_qty s)
      else if nq < 0 then if ps_short_qty s = 0 then 0 else wrap64 (ps_short_entry_cost s sdiv ps_short_qty s)
      else 0)"

definition unrealized_pnl :: "position \<Rightarrow> i64 \<Rightarrow> i64 option" where
  "unrealized_pnl s mark_price =
     (let nq = pos_net_qty s in if nq = 0 then Some 0 else try64 (nq * i64_sub mark_price (avg_entry s)))"

definition pos_is_empty :: "position \<Rightarrow> bool" where
  "pos_is_empty s \<longleftrightarrow> ps_long_qty s = 0 \<and> ps_short_qty s = 0"

record account =
  ac_user_id :: u32
  ac_collateral :: i64
  ac_version :: u64

definition account_new :: "u32 \<Rightarrow> i64 \<Rightarrow> account" where
  "account_new user_id collateral = \<lparr>ac_user_id = user_id, ac_collateral = collateral, ac_version = 0\<rparr>"

definition deduct_fee :: "account \<Rightarrow> i64 \<Rightarrow> account" where
  "deduct_fee a fee = a\<lparr>ac_collateral := sat_sub (ac_collateral a) fee, ac_version := u64_add (ac_version a) 1\<rparr>"

definition credit :: "account \<Rightarrow> i64 \<Rightarrow> account" where
  "credit a amount = a\<lparr>ac_collateral := sat_add (ac_collateral a) amount, ac_version := u64_add (ac_version a) 1\<rparr>"

section \<open>One fill\<close>

text \<open>
  The invariant of a position: the legs and their costs are not negative, at most one leg is open, and a closed leg
  carries no cost. \<open>exposure_of\<close> is the potential that bounds every field.
\<close>

definition pos_ok :: "position \<Rightarrow> bool" where
  "pos_ok s \<longleftrightarrow> 0 \<le> ps_long_qty s \<and> 0 \<le> ps_short_qty s \<and> 0 \<le> ps_long_entry_cost s \<and> 0 \<le> ps_short_entry_cost s \<and>
     (ps_long_qty s = 0 \<or> ps_short_qty s = 0) \<and>
     (ps_long_qty s = 0 \<longrightarrow> ps_long_entry_cost s = 0) \<and> (ps_short_qty s = 0 \<longrightarrow> ps_short_entry_cost s = 0)"

definition exposure_of :: "position \<Rightarrow> int" where
  "exposure_of s = \<bar>ps_realized_pnl s\<bar> + ps_long_entry_cost s + ps_short_entry_cost s"

text \<open>The cash a position has paid out so far: what was spent on buys less what came in from sells.\<close>

definition cash_of :: "position \<Rightarrow> int" where
  "cash_of s = ps_realized_pnl s - ps_long_entry_cost s + ps_short_entry_cost s"

definition legs :: "position \<Rightarrow> int" where "legs s = ps_long_qty s + ps_short_qty s"

definition signed_net :: "position \<Rightarrow> int" where "signed_net s = ps_long_qty s - ps_short_qty s"

type_synonym fill = "u8 \<times> i64 \<times> i64 \<times> u64"

definition apply_to :: "position \<Rightarrow> fill \<Rightarrow> position" where
  "apply_to s f = (case f of (sd, price, qty, seq) \<Rightarrow> apply_fill s sd price qty seq)"

definition signed_qty :: "fill \<Rightarrow> int" where
  "signed_qty f = (case f of (sd, price, qty, seq) \<Rightarrow> if sd = 0 then qty else - qty)"

definition signed_cash :: "fill \<Rightarrow> int" where
  "signed_cash f = (case f of (sd, price, qty, seq) \<Rightarrow> if sd = 0 then - (price * qty) else price * qty)"

definition fill_value :: "fill \<Rightarrow> int" where
  "fill_value f = (case f of (sd, price, qty, seq) \<Rightarrow> price * qty)"

definition fill_size :: "fill \<Rightarrow> int" where
  "fill_size f = (case f of (sd, price, qty, seq) \<Rightarrow> qty)"

definition fill_ok :: "fill \<Rightarrow> bool" where
  "fill_ok f = (case f of (sd, price, qty, seq) \<Rightarrow> 0 < price \<and> 0 < qty)"

definition fits :: "position \<Rightarrow> fill \<Rightarrow> bool" where
  "fits s f \<longleftrightarrow> fill_ok f \<and> exposure_of s + fill_value f \<le> i64_max \<and> legs s + fill_size f \<le> i64_max"

text \<open>Closing part of a leg releases the pro-rata share of its cost, all of it when the leg closes.\<close>

lemma share_bounds:
  assumes "0 \<le> cost" "0 < k" "k \<le> (q :: int)"
  shows "0 \<le> (cost * k) sdiv q" "(cost * k) sdiv q \<le> cost" "k = q \<Longrightarrow> (cost * k) sdiv q = cost"
proof -
  have e: "(cost * k) sdiv q = cost * k div q" using assms by (intro sdiv_nonneg) auto
  have "cost * k \<le> cost * q" using assms by (intro mult_left_mono) auto
  then have "cost * k div q \<le> cost * q div q" using assms by (intro zdiv_mono1) auto
  then show "(cost * k) sdiv q \<le> cost" using e assms by simp
  show "0 \<le> (cost * k) sdiv q" using e assms by (simp add: pos_imp_zdiv_nonneg_iff)
  show "k = q \<Longrightarrow> (cost * k) sdiv q = cost" using e assms by simp
qed

lemma leg_step:
  fixes price qty q cost pnl :: int
  assumes "0 < price" "0 < qty" "0 < q" "0 \<le> cost" "\<bar>pnl\<bar> + cost + price * qty \<le> i64_max" "q + qty \<le> i64_max"
  defines "k \<equiv> min qty q"
  defines "c \<equiv> clamp64 ((cost * k) sdiv q)"
  shows "c = (cost * k) sdiv q" "0 \<le> c" "c \<le> cost" "k = q \<Longrightarrow> c = cost" "0 < k" "k \<le> q"
    "clamp64 (c - price * k) = c - price * k" "clamp64 (price * k - c) = price * k - c"
    "i64_add pnl (c - price * k) = pnl + (c - price * k)" "i64_add pnl (price * k - c) = pnl + (price * k - c)"
    "i64_sub q k = q - k" "i64_sub cost c = cost - c" "i64_sub qty k = qty - k" "price * k \<le> price * qty" "0 \<le> price * k"
proof -
  show k: "0 < k" "k \<le> q" using assms by (auto simp: k_def)
  have "k \<le> qty" by (simp add: k_def)
  then show pk: "price * k \<le> price * qty" "0 \<le> price * k" using assms(1) k by (auto intro: mult_left_mono)
  note sh = share_bounds [OF assms(4) k]
  have "in_i64 ((cost * k) sdiv q)" using sh(1,2) assms(4,5) pk by (auto simp: in_i64_def i64_bounds)
  then show c: "c = (cost * k) sdiv q" by (simp add: c_def clamp64_id)
  show cb: "0 \<le> c" "c \<le> cost" "k = q \<Longrightarrow> c = cost" using sh c by auto
  have "in_i64 (c - price * k)" "in_i64 (price * k - c)" "in_i64 (pnl + (c - price * k))" "in_i64 (pnl + (price * k - c))"
    "in_i64 (q - k)" "in_i64 (cost - c)" "in_i64 (qty - k)"
    using assms(2-6) cb pk k \<open>k \<le> qty\<close> by (auto simp: in_i64_def i64_bounds)
  then show "clamp64 (c - price * k) = c - price * k" "clamp64 (price * k - c) = price * k - c"
    "i64_add pnl (c - price * k) = pnl + (c - price * k)" "i64_add pnl (price * k - c) = pnl + (price * k - c)"
    "i64_sub q k = q - k" "i64_sub cost c = cost - c" "i64_sub qty k = qty - k"
    by (simp_all add: clamp64_id i64_add_id i64_sub_id)
qed

lemma open_leg:
  fixes price qty q cost :: int
  assumes "0 < price" "0 < qty" "0 \<le> q" "0 \<le> cost" "cost + price * qty \<le> i64_max" "q + qty \<le> i64_max"
  shows "clamp64 (price * qty) = price * qty" "i64_add q qty = q + qty" "i64_add cost (price * qty) = cost + price * qty" "0 \<le> price * qty"
proof -
  show p: "0 \<le> price * qty" using assms by simp
  then have "in_i64 (price * qty)" "in_i64 (q + qty)" "in_i64 (cost + price * qty)" using assms unfolding in_i64_def i64_bounds by linarith+
  then show "clamp64 (price * qty) = price * qty" "i64_add q qty = q + qty" "i64_add cost (price * qty) = cost + price * qty"
    by (simp_all add: clamp64_id i64_add_id)
qed
text \<open>What one side of \<open>apply_fill\<close> does to the legs, seen from either side: buys close the short leg, sells the long one.\<close>

definition step_ok :: "position \<Rightarrow> position \<Rightarrow> int \<Rightarrow> int \<Rightarrow> int \<Rightarrow> bool" where
  "step_ok s s' qty amt sg \<longleftrightarrow> pos_ok s' \<and> signed_net s' = signed_net s + sg * qty \<and> cash_of s' = cash_of s - sg * amt \<and>
     exposure_of s' \<le> exposure_of s + amt \<and> legs s' \<le> legs s + qty"

lemma mult_min_split: "(p :: int) * min a b + p * (a - min a b) = p * a"
  by (simp add: algebra_simps)

lemma apply_buy_ok:
  assumes ok: "pos_ok s" and f: "fits s (0, price, qty, seq)"
  shows "step_ok s (apply_buy s price qty) qty (price * qty) 1"
proof -
  have b: "0 < price" "0 < qty" "exposure_of s + price * qty \<le> i64_max" "legs s + qty \<le> i64_max"
    using f by (simp_all add: fits_def fill_ok_def fill_value_def fill_size_def)
  show ?thesis
  proof (cases "ps_short_qty s > 0")
    case True
    then have l0: "ps_long_qty s = 0" "ps_long_entry_cost s = 0" "0 \<le> ps_short_entry_cost s" using ok by (auto simp: pos_ok_def)
    note L = leg_step [OF b(1,2) True l0(3), of "ps_realized_pnl s"]
    have bounds: "\<bar>ps_realized_pnl s\<bar> + ps_short_entry_cost s + price * qty \<le> i64_max" "ps_short_qty s + qty \<le> i64_max"
      using b(3,4) l0 by (auto simp: exposure_of_def legs_def)
    note L = L [OF bounds]
    define k where "k = min qty (ps_short_qty s)"
    define c where "c = clamp64 ((ps_short_entry_cost s * k) sdiv ps_short_qty s)"
    note L = L [folded k_def, folded c_def]
    have r: "price * (qty - k) = price * qty - price * k" by (simp add: algebra_simps)
    show ?thesis
    proof (cases "qty - k > 0")
      case True
      then have k: "k = ps_short_qty s" by (auto simp: k_def min_def split: if_splits)
      have "price * (qty - k) \<le> i64_max" using L(14,15) bounds r l0(3) by linarith
      then have O: "clamp64 (price * (qty - k)) = price * (qty - k)" "i64_add 0 (qty - k) = qty - k"
        "i64_add 0 (price * (qty - k)) = price * (qty - k)" "0 \<le> price * (qty - k)"
        using open_leg [OF b(1) True, of 0 0] bounds L(5) k by auto
      have run: "apply_buy s price qty = s\<lparr>ps_realized_pnl := ps_realized_pnl s + (c - price * k), ps_short_qty := ps_short_qty s - k,
          ps_short_entry_cost := ps_short_entry_cost s - c, ps_long_qty := qty - k, ps_long_entry_cost := price * (qty - k)\<rparr>"
        unfolding apply_buy_def Let_def k_def [symmetric] c_def [symmetric] using \<open>ps_short_qty s > 0\<close> True by (simp add: L(7,9,11,12,13) l0 O(1-3))
      show ?thesis unfolding run using True L(2,3,5,14,15) L(4) [OF k] k l0 O(4) r
        by (auto simp: step_ok_def pos_ok_def signed_net_def cash_of_def exposure_of_def legs_def)
    next
      case False
      then have "k = qty" by (auto simp: k_def min_def split: if_splits)
      have run: "apply_buy s price qty = s\<lparr>ps_realized_pnl := ps_realized_pnl s + (c - price * k), ps_short_qty := ps_short_qty s - k,
          ps_short_entry_cost := ps_short_entry_cost s - c\<rparr>"
        unfolding apply_buy_def Let_def k_def [symmetric] c_def [symmetric] using \<open>ps_short_qty s > 0\<close> False by (simp add: L(7,9,11,12,13))
      have "k = ps_short_qty s \<longrightarrow> c = ps_short_entry_cost s" using L(4) by blast
      then show ?thesis unfolding run using \<open>k = qty\<close> L(2,3,5,6,14,15) l0
        by (auto simp: step_ok_def pos_ok_def signed_net_def cash_of_def exposure_of_def legs_def)
    qed
  next
    case False
    then have s0: "ps_short_qty s = 0" "ps_short_entry_cost s = 0" "0 \<le> ps_long_qty s" "0 \<le> ps_long_entry_cost s"
      using ok by (auto simp: pos_ok_def)
    note O = open_leg [OF b(1,2) s0(3,4)]
    have "ps_long_entry_cost s + price * qty \<le> i64_max" "ps_long_qty s + qty \<le> i64_max" using b(3,4) s0 by (auto simp: exposure_of_def legs_def)
    note O = O [OF this]
    show ?thesis using False s0 O b(2)
      by (simp add: apply_buy_def step_ok_def pos_ok_def signed_net_def cash_of_def exposure_of_def legs_def)
  qed
qed

text \<open>Selling is buying with the legs exchanged and the result of a close negated.\<close>

lemma apply_sell_ok:
  assumes ok: "pos_ok s" and f: "fits s (1, price, qty, seq)"
  shows "step_ok s (apply_sell s price qty) qty (price * qty) (- 1)"
proof -
  have b: "0 < price" "0 < qty" "exposure_of s + price * qty \<le> i64_max" "legs s + qty \<le> i64_max"
    using f by (simp_all add: fits_def fill_ok_def fill_value_def fill_size_def)
  show ?thesis
  proof (cases "ps_long_qty s > 0")
    case True
    then have l0: "ps_short_qty s = 0" "ps_short_entry_cost s = 0" "0 \<le> ps_long_entry_cost s" using ok by (auto simp: pos_ok_def)
    have bounds: "\<bar>ps_realized_pnl s\<bar> + ps_long_entry_cost s + price * qty \<le> i64_max" "ps_long_qty s + qty \<le> i64_max"
      using b(3,4) l0 by (auto simp: exposure_of_def legs_def)
    define k where "k = min qty (ps_long_qty s)"
    define c where "c = clamp64 ((ps_long_entry_cost s * k) sdiv ps_long_qty s)"
    note L = leg_step [OF b(1,2) True l0(3) bounds, folded k_def, folded c_def]
    have r: "price * (qty - k) = price * qty - price * k" by (simp add: algebra_simps)
    show ?thesis
    proof (cases "qty - k > 0")
      case True
      then have k: "k = ps_long_qty s" by (auto simp: k_def min_def split: if_splits)
      have "price * (qty - k) \<le> i64_max" using L(14,15) bounds r l0(3) by linarith
      then have O: "clamp64 (price * (qty - k)) = price * (qty - k)" "i64_add 0 (qty - k) = qty - k"
        "i64_add 0 (price * (qty - k)) = price * (qty - k)" "0 \<le> price * (qty - k)"
        using open_leg [OF b(1) True, of 0 0] bounds L(5) k by auto
      have run: "apply_sell s price qty = s\<lparr>ps_realized_pnl := ps_realized_pnl s + (price * k - c), ps_long_qty := ps_long_qty s - k,
          ps_long_entry_cost := ps_long_entry_cost s - c, ps_short_qty := qty - k, ps_short_entry_cost := price * (qty - k)\<rparr>"
        unfolding apply_sell_def Let_def k_def [symmetric] c_def [symmetric] using \<open>ps_long_qty s > 0\<close> True by (simp add: L(8,10,11,12,13) l0 O(1-3))
      show ?thesis unfolding run using True L(2,3,5,14,15) L(4) [OF k] k l0 O(4) r
        by (auto simp: step_ok_def pos_ok_def signed_net_def cash_of_def exposure_of_def legs_def)
    next
      case False
      then have "k = qty" by (auto simp: k_def min_def split: if_splits)
      have run: "apply_sell s price qty = s\<lparr>ps_realized_pnl := ps_realized_pnl s + (price * k - c), ps_long_qty := ps_long_qty s - k,
          ps_long_entry_cost := ps_long_entry_cost s - c\<rparr>"
        unfolding apply_sell_def Let_def k_def [symmetric] c_def [symmetric] using \<open>ps_long_qty s > 0\<close> False by (simp add: L(8,10,11,12,13))
      have "k = ps_long_qty s \<longrightarrow> c = ps_long_entry_cost s" using L(4) by blast
      then show ?thesis unfolding run using \<open>k = qty\<close> L(2,3,5,6,14,15) l0
        by (auto simp: step_ok_def pos_ok_def signed_net_def cash_of_def exposure_of_def legs_def)
    qed
  next
    case False
    then have s0: "ps_long_qty s = 0" "ps_long_entry_cost s = 0" "0 \<le> ps_short_qty s" "0 \<le> ps_short_entry_cost s"
      using ok by (auto simp: pos_ok_def)
    have "ps_short_entry_cost s + price * qty \<le> i64_max" "ps_short_qty s + qty \<le> i64_max" using b(3,4) s0 by (auto simp: exposure_of_def legs_def)
    note O = open_leg [OF b(1,2) s0(3,4) this]
    show ?thesis using False s0 O b(2)
      by (simp add: apply_sell_def step_ok_def pos_ok_def signed_net_def cash_of_def exposure_of_def legs_def)
  qed
qed

section \<open>Sequences of fills\<close>

lemma apply_to_ok:
  assumes "pos_ok s" "fits s f"
  shows "pos_ok (apply_to s f)" "signed_net (apply_to s f) = signed_net s + signed_qty f" "cash_of (apply_to s f) = cash_of s + signed_cash f"
    "exposure_of (apply_to s f) \<le> exposure_of s + fill_value f" "legs (apply_to s f) \<le> legs s + fill_size f"
proof -
  obtain sd price qty seq where f: "f = (sd, price, qty, seq)" by (metis prod_cases4)
  have "fits s (0, price, qty, seq)" "fits s (1, price, qty, seq)"
    using assms(2) by (simp_all add: f fits_def fill_ok_def fill_value_def fill_size_def)
  then have "step_ok s (if sd = 0 then apply_buy s price qty else apply_sell s price qty) qty (price * qty) (if sd = 0 then 1 else - 1)"
    using apply_buy_ok [OF assms(1)] apply_sell_ok [OF assms(1)] by simp
  then show "pos_ok (apply_to s f)" "signed_net (apply_to s f) = signed_net s + signed_qty f" "cash_of (apply_to s f) = cash_of s + signed_cash f"
    "exposure_of (apply_to s f) \<le> exposure_of s + fill_value f" "legs (apply_to s f) \<le> legs s + fill_size f"
    by (auto simp: f apply_to_def apply_fill_def Let_def step_ok_def signed_qty_def signed_cash_def fill_value_def fill_size_def
        pos_ok_def signed_net_def cash_of_def exposure_of_def legs_def split: if_splits)
qed

interpretation net_ledger: ledger apply_to pos_ok fits signed_net signed_qty
  by unfold_locales (simp_all add: apply_to_ok)

interpretation cash_ledger: ledger apply_to pos_ok fits cash_of signed_cash
  by unfold_locales (simp_all add: apply_to_ok)

text \<open>A position that starts flat stays within the volume and the value traded so far.\<close>

lemma run_bounds:
  assumes "\<And>f. f \<in> set fs \<Longrightarrow> fill_ok f" "(\<Sum>f\<leftarrow>fs. fill_value f) \<le> i64_max" "(\<Sum>f\<leftarrow>fs. fill_size f) \<le> i64_max"
    "pos_ok s" "exposure_of s = 0" "legs s = 0"
  shows "pos_ok (foldl apply_to s fs) \<and> exposure_of (foldl apply_to s fs) \<le> (\<Sum>f\<leftarrow>fs. fill_value f) \<and>
    legs (foldl apply_to s fs) \<le> (\<Sum>f\<leftarrow>fs. fill_size f)"
  using assms(1-3)
proof (induction fs rule: rev_induct)
  case (snoc f fs)
  have f: "0 \<le> fill_value f" "0 \<le> fill_size f" using snoc.prems(1) [of f] by (auto simp: fill_ok_def fill_value_def fill_size_def split: prod.splits)
  then have IH: "pos_ok (foldl apply_to s fs)" "exposure_of (foldl apply_to s fs) \<le> (\<Sum>f\<leftarrow>fs. fill_value f)"
    "legs (foldl apply_to s fs) \<le> (\<Sum>f\<leftarrow>fs. fill_size f)" using snoc by auto
  have "fits (foldl apply_to s fs) f" using IH(2,3) snoc.prems by (auto simp: fits_def)
  note a = apply_to_ok [OF IH(1) this]
  show ?case using a(1,4,5) IH(2,3) by auto
qed (use assms(4-6) in auto)

lemma sum_take_le:
  fixes g :: "'a \<Rightarrow> int"
  assumes "\<And>x. x \<in> set xs \<Longrightarrow> 0 \<le> g x" and "k < length xs"
  shows "(\<Sum>x\<leftarrow>take k xs. g x) + g (xs ! k) \<le> (\<Sum>x\<leftarrow>xs. g x)"
proof -
  have "(\<Sum>x\<leftarrow>xs. g x) = (\<Sum>x\<leftarrow>take k xs. g x) + (g (xs ! k) + (\<Sum>x\<leftarrow>drop (Suc k) xs. g x))"
    using id_take_nth_drop [OF assms(2)] by (metis (no_types) list.simps(9) map_append sum_list.Cons sum_list.append)
  moreover have "0 \<le> (\<Sum>x\<leftarrow>drop (Suc k) xs. g x)" using assms(1) by (intro sum_list_nonneg) (auto dest: in_set_dropD)
  ultimately show ?thesis by simp
qed

lemma run_fits:
  assumes ok: "\<And>f. f \<in> set fs \<Longrightarrow> fill_ok f" and "(\<Sum>f\<leftarrow>fs. fill_value f) \<le> i64_max" "(\<Sum>f\<leftarrow>fs. fill_size f) \<le> i64_max"
    "pos_ok s" "exposure_of s = 0" "legs s = 0" and k: "k < length fs"
  shows "fits (foldl apply_to s (take k fs)) (fs ! k)"
proof -
  have nn: "0 \<le> fill_value f" "0 \<le> fill_size f" if "f \<in> set fs" for f
    using ok [OF that] by (auto simp: fill_ok_def fill_value_def fill_size_def split: prod.splits)
  note v = sum_take_le [of fs fill_value, OF nn(1) k] and q = sum_take_le [of fs fill_size, OF nn(2) k]
  have "pos_ok (foldl apply_to s (take k fs)) \<and> exposure_of (foldl apply_to s (take k fs)) \<le> (\<Sum>f\<leftarrow>take k fs. fill_value f) \<and>
    legs (foldl apply_to s (take k fs)) \<le> (\<Sum>f\<leftarrow>take k fs. fill_size f)"
    by (rule run_bounds) (use assms v q nn [OF nth_mem [OF k]] in \<open>auto dest: in_set_takeD\<close>)
  then show ?thesis using v q assms(2,3) ok [OF nth_mem [OF k]] by (auto simp: fits_def)
qed

lemma position_new_ok [simp]:
  "pos_ok (position_new u s)" "exposure_of (position_new u s) = 0" "legs (position_new u s) = 0" "signed_net (position_new u s) = 0" "cash_of (position_new u s) = 0"
  by (simp_all add: position_new_def pos_ok_def exposure_of_def legs_def signed_net_def cash_of_def)

lemma net_qty_signed: "pos_ok s \<Longrightarrow> legs s \<le> i64_max \<Longrightarrow> pos_net_qty s = signed_net s"
  by (auto simp: pos_net_qty_def signed_net_def legs_def pos_ok_def in_i64_def i64_bounds intro!: i64_sub_id)

text \<open>C15: a position is the sum of its fills. Starting flat, after any sequence of fills of positive price and quantity whose
  total quantity and total value fit an \<open>i64\<close>, the net quantity is the sum of the signed quantities; at most one leg is open
  and neither a leg nor its cost is negative; realised profit less the cost of the long leg plus the cost of the short leg
  is exactly the signed cash that changed hands, however the divisions rounded; so a flat position has
  realised exactly what its sells brought in less what its buys cost.\<close>

theorem position_is_sum_of_fills:
  fixes u v :: u32 and fs :: "fill list"
  assumes "\<And>f. f \<in> set fs \<Longrightarrow> fill_ok f" "(\<Sum>f\<leftarrow>fs. fill_value f) \<le> i64_max" "(\<Sum>f\<leftarrow>fs. fill_size f) \<le> i64_max"
  defines "s \<equiv> foldl apply_to (position_new u v) fs"
  shows "pos_net_qty s = (\<Sum>f\<leftarrow>fs. signed_qty f) \<and> pos_ok s \<and>
    ps_realized_pnl s - ps_long_entry_cost s + ps_short_entry_cost s = (\<Sum>f\<leftarrow>fs. signed_cash f) \<and>
    (pos_is_empty s \<longrightarrow> ps_realized_pnl s = (\<Sum>f\<leftarrow>fs. signed_cash f))"
proof -
  have F: "fits (foldl apply_to (position_new u v) (take k fs)) (fs ! k)" if "k < length fs" for k
    by (rule run_fits) (use assms that in auto)
  have B: "pos_ok s \<and> exposure_of s \<le> (\<Sum>f\<leftarrow>fs. fill_value f) \<and> legs s \<le> (\<Sum>f\<leftarrow>fs. fill_size f)"
    unfolding s_def by (rule run_bounds) (use assms in auto)
  have n: "signed_net s = (\<Sum>f\<leftarrow>fs. signed_qty f)" and c: "cash_of s = (\<Sum>f\<leftarrow>fs. signed_cash f)"
    using net_ledger.run_adds [of "position_new u v" fs] cash_ledger.run_adds [of "position_new u v" fs] F unfolding s_def by auto
  have "pos_net_qty s = signed_net s" using B assms(3) by (intro net_qty_signed) auto
  then show ?thesis using n c B by (auto simp: cash_of_def pos_is_empty_def pos_ok_def)
qed

theorem position_is_sum_of_fills_witness:
  "let s = foldl apply_to (position_new 7 1) [(0, 100, 3, 1), (1, 110, 5, 2), (0, 90, 2, 3)] in
     pos_net_qty s = 0 \<and> ps_realized_pnl s = 70"
proof -
  let ?fs = "[(0, 100, 3, 1), (1, 110, 5, 2), (0, 90, 2, 3)] :: fill list"
  have e: "pos_is_empty (foldl apply_to (position_new 7 1) ?fs)" by code_simp
  have "fill_ok f" if "f \<in> set ?fs" for f using that by (auto simp: fill_ok_def)
  moreover have "(\<Sum>f\<leftarrow>?fs. fill_value f) \<le> i64_max" "(\<Sum>f\<leftarrow>?fs. fill_size f) \<le> i64_max" by code_simp+
  ultimately have "pos_net_qty (foldl apply_to (position_new 7 1) ?fs) = (\<Sum>f\<leftarrow>?fs. signed_qty f)"
    "ps_realized_pnl (foldl apply_to (position_new 7 1) ?fs) = (\<Sum>f\<leftarrow>?fs. signed_cash f)"
    using position_is_sum_of_fills [of ?fs 7 1] e by blast+
  then show ?thesis by (simp only: Let_def) (simp add: signed_qty_def signed_cash_def)
qed

end
