(* ===== verification/Risk_Margin.thy ===== *)
theory Risk_Margin
  imports Risk_Position
begin

text \<open>
  \<open>rsx-risk/src/margin.rs\<close> and \<open>price.rs\<close>, the parts that do not touch the shard: portfolio margin, the pre-trade
  check, the margin one order needs, the exposure index, and the index price. A rejected order is \<open>Inl\<close> of its reason. Positions come
  as the list an iterator yields; \<open>*\<close> and \<open>/\<close> on \<open>i128\<close> values built from two \<open>i64\<close> are exact.
\<close>

section \<open>Definitions\<close>

datatype reject_reason = InsufficientMarginReason | UserInLiquidationReason | NotInShard | SymbolNotConfigured | OrderTooSmallReason

definition failure_of_reject :: "reject_reason \<Rightarrow> failure_reason" where
  "failure_of_reject reason = (case reason of
     InsufficientMarginReason \<Rightarrow> InsufficientMargin
   | UserInLiquidationReason \<Rightarrow> UserInLiquidation
   | NotInShard \<Rightarrow> WrongShard
   | SymbolNotConfigured \<Rightarrow> SymbolNotFound
   | OrderTooSmallReason \<Rightarrow> OrderTooSmall)"

record symbol_risk_params =
  rp_initial_margin_rate :: i64
  rp_maintenance_margin_rate :: i64
  rp_max_leverage :: i64
  rp_min_notional :: i64

record margin_state =
  ms_equity :: i64
  ms_unrealized_pnl :: i64
  ms_initial_margin :: i64
  ms_maintenance_margin :: i64
  ms_available_margin :: i64
  ms_gross_notional :: i64

record freeze =
  fz_user_id :: u32
  fz_symbol_id :: u32
  fz_amount :: i64

record order_request =
  oq_user_id :: u32
  oq_symbol_id :: u32
  oq_price :: i64
  oq_qty :: i64
  oq_order_id_hi :: u64
  oq_order_id_lo :: u64
  oq_timestamp_ns :: u64
  oq_side :: u8
  oq_tif :: u8
  oq_reduce_only :: bool
  oq_post_only :: bool
  oq_is_liquidation :: bool

type_synonym portfolio_margin = "symbol_risk_params option list"

text \<open>\<open>symbol_params.get(sid)\<close> matched against \<open>Some(Some(params))\<close>.\<close>

definition params_of :: "portfolio_margin \<Rightarrow> nat \<Rightarrow> symbol_risk_params option" where
  "params_of symbol_params sid = (if sid < length symbol_params then symbol_params ! sid else None)"

text \<open>\<open>i64::try_from(v).unwrap_or(d)\<close>.\<close>

definition try64_or :: "i64 \<Rightarrow> i128 \<Rightarrow> i64" where
  "try64_or d v = (case try64 v of Some x \<Rightarrow> x | None \<Rightarrow> d)"

text \<open>The body of the loop of \<open>calculate\<close>; the accumulators are \<open>(upnl, im, mm, gross)\<close>.\<close>

definition margin_step :: "portfolio_margin \<Rightarrow> i64 list \<Rightarrow> i64 \<times> i64 \<times> i64 \<times> i64 \<Rightarrow> position \<Rightarrow> i64 \<times> i64 \<times> i64 \<times> i64" where
  "margin_step symbol_params mark_prices acc pos = (case acc of (upnl, im, mm, gross) \<Rightarrow>
     (case params_of symbol_params (ps_symbol_id pos) of
        None \<Rightarrow> acc
      | Some params \<Rightarrow>
          if ps_symbol_id pos \<ge> length mark_prices then acc
          else
            let mark = mark_prices ! ps_symbol_id pos;
                pos_upnl = (case unrealized_pnl pos mark of Some v \<Rightarrow> v | None \<Rightarrow> i64_min);
                ntl = (case notional pos mark of Some v \<Rightarrow> v | None \<Rightarrow> i64_max);
                im_calc = (ntl * rp_initial_margin_rate params) sdiv 10000;
                mm_calc = (ntl * rp_maintenance_margin_rate params) sdiv 10000
            in (sat_add upnl pos_upnl, sat_add im (try64_or i64_max im_calc), sat_add mm (try64_or i64_max mm_calc), sat_add gross ntl)))"

definition calculate :: "portfolio_margin \<Rightarrow> account \<Rightarrow> position list \<Rightarrow> i64 list \<Rightarrow> i64 \<Rightarrow> margin_state" where
  "calculate symbol_params account positions mark_prices frozen =
     (case foldl (margin_step symbol_params mark_prices) (0, 0, 0, 0) positions of (upnl, im, mm, gross) \<Rightarrow>
        let equity = sat_add (ac_collateral account) upnl;
            available = sat_sub (sat_sub equity im) frozen
        in \<lparr>ms_equity = equity, ms_unrealized_pnl = upnl, ms_initial_margin = im, ms_maintenance_margin = mm,
             ms_available_margin = available, ms_gross_notional = gross\<rparr>)"

definition rests_tif :: "order_request \<Rightarrow> bool" where
  "rests_tif order \<longleftrightarrow> oq_tif order \<noteq> tif_u8 IOC \<and> oq_tif order \<noteq> tif_u8 FOK"

definition closes_whole_position :: "position list \<Rightarrow> order_request \<Rightarrow> bool" where
  "closes_whole_position positions order =
     list_ex (\<lambda>p. ps_symbol_id p = oq_symbol_id order \<and> \<bar>pos_net_qty p\<bar> = oq_qty order) positions"

definition calculate_margin_needed :: "symbol_risk_params \<Rightarrow> i64 \<Rightarrow> i64 \<Rightarrow> i64 \<Rightarrow> i64" where
  "calculate_margin_needed params price qty taker_fee_bps =
     (let order_notional = try64_or i64_max (price * qty);
          order_im_128 = (order_notional * rp_initial_margin_rate params) sdiv 10000;
          order_im = try64_or i64_max order_im_128
      in sat_add order_im (calculate_fee qty price taker_fee_bps))"

definition check_order ::
  "portfolio_margin \<Rightarrow> account \<Rightarrow> position list \<Rightarrow> order_request \<Rightarrow> i64 list \<Rightarrow> i64 \<Rightarrow> i64 \<Rightarrow> reject_reason + i64" where
  "check_order symbol_params account positions order mark_prices taker_fee_bps frozen =
     (if oq_is_liquidation order then Inr 0
      else case params_of symbol_params (oq_symbol_id order) of
        None \<Rightarrow> Inl SymbolNotConfigured
      | Some params \<Rightarrow>
          let notional_128 = oq_price order * oq_qty order;
              below_minimum = (notional_128 < rp_min_notional params)
          in if oq_reduce_only order then
               if below_minimum \<and> rests_tif order \<and> \<not> closes_whole_position positions order then Inl OrderTooSmallReason
               else Inr 0
             else if below_minimum then Inl OrderTooSmallReason
             else
               let state = calculate symbol_params account positions mark_prices frozen;
                   order_notional = try64_or i64_max notional_128;
                   gross_after = sat_add (ms_gross_notional state) order_notional;
                   allowed = max (sat_mul (ms_equity state) (rp_max_leverage params)) 0
               in if rp_max_leverage params > 0 \<and> (ms_equity state \<le> 0 \<or> gross_after > allowed) then Inl InsufficientMarginReason
                  else
                    let margin_needed = calculate_margin_needed params (oq_price order) (oq_qty order) taker_fee_bps
                    in if ms_available_margin state < margin_needed then Inl InsufficientMarginReason
                       else Inr margin_needed)"

definition needs_liquidation :: "margin_state \<Rightarrow> bool" where
  "needs_liquidation state \<longleftrightarrow> ms_equity state < ms_maintenance_margin state"

text \<open>The exposure index: the users with an open position, per symbol.\<close>

type_synonym exposure_index = "u32 list list"

definition exposure_new :: "usize \<Rightarrow> exposure_index" where
  "exposure_new max_symbols = replicate max_symbols []"

definition add_user :: "exposure_index \<Rightarrow> usize \<Rightarrow> u32 \<Rightarrow> exposure_index option" where
  "add_user exposure symbol_idx user_id = do {
     users \<leftarrow> index_of exposure symbol_idx;
     Some (if user_id \<in> set users then exposure else exposure[symbol_idx := users @ [user_id]])
   }"

definition remove_user :: "exposure_index \<Rightarrow> usize \<Rightarrow> u32 \<Rightarrow> exposure_index option" where
  "remove_user exposure symbol_idx user_id = do {
     users \<leftarrow> index_of exposure symbol_idx;
     Some (exposure[symbol_idx := filter (\<lambda>u. u \<noteq> user_id) users])
   }"

definition users_for_symbol :: "exposure_index \<Rightarrow> usize \<Rightarrow> u32 list option" where
  "users_for_symbol exposure symbol_idx = index_of exposure symbol_idx"

text \<open>The index price: the size-weighted mid of the best bid and ask.\<close>

record index_price =
  ix_price :: i64
  ix_valid :: bool

definition index_price_default :: index_price where
  "index_price_default = \<lparr>ix_price = 0, ix_valid = False\<rparr>"

record bbo_update =
  bu_seq :: u64
  bu_symbol_id :: u32
  bu_bid_px :: i64
  bu_bid_qty :: i64
  bu_ask_px :: i64
  bu_ask_qty :: i64

definition calculate_index :: "i64 \<Rightarrow> i64 \<Rightarrow> i64 \<Rightarrow> i64 \<Rightarrow> i64 \<Rightarrow> i64" where
  "calculate_index bid_px bid_qty ask_px ask_qty last_index =
     (let total_qty = bid_qty + ask_qty in
      if total_qty = 0 then last_index
      else if bid_qty = 0 then ask_px
      else if ask_qty = 0 then bid_px
      else clamp64 ((wrap128 (bid_px * ask_qty + ask_px * bid_qty)) sdiv total_qty))"

definition update_from_bbo :: "index_price \<Rightarrow> bbo_update \<Rightarrow> index_price" where
  "update_from_bbo ix bbo = ix\<lparr>ix_price := calculate_index (bu_bid_px bbo) (bu_bid_qty bbo) (bu_ask_px bbo) (bu_ask_qty bbo) (ix_price ix),
     ix_valid := True\<rparr>"

section \<open>The index price\<close>

lemma weighted_mean_between:
  fixes a b p q :: int
  assumes "0 < p" "0 < q" "a \<le> b"
  shows "a \<le> (a * q + b * p) div (p + q)" "(a * q + b * p) div (p + q) \<le> b"
proof -
  have "a * (p + q) \<le> a * q + b * p" "a * q + b * p \<le> b * (p + q)"
    using assms mult_right_mono [of a b p] mult_right_mono [of a b q] by (auto simp: distrib_left)
  then have "a * (p + q) div (p + q) \<le> (a * q + b * p) div (p + q)" "(a * q + b * p) div (p + q) \<le> b * (p + q) div (p + q)"
    using assms by (intro zdiv_mono1; simp)+
  then show "a \<le> (a * q + b * p) div (p + q)" "(a * q + b * p) div (p + q) \<le> b" using assms by simp_all
qed

text \<open>the index price lies inside the spread. For a two-sided or one-sided best bid and offer with positive prices, bid not
  above ask, the size-weighted mid is at least the bid and at most the ask of the sides that have size; with no size on either side
  the last index is kept.\<close>

theorem index_inside_spread:
  assumes "0 < bid_px" "bid_px \<le> ask_px" "ask_px \<le> i64_max" "0 \<le> bid_qty" "bid_qty \<le> i64_max" "0 \<le> ask_qty" "ask_qty \<le> i64_max"
  shows "if bid_qty = 0 \<and> ask_qty = 0 then calculate_index bid_px bid_qty ask_px ask_qty last_index = last_index
    else bid_px \<le> calculate_index bid_px bid_qty ask_px ask_qty last_index \<and> calculate_index bid_px bid_qty ask_px ask_qty last_index \<le> ask_px"
proof (cases "bid_qty = 0 \<or> ask_qty = 0")
  case True
  then show ?thesis using assms by (auto simp: calculate_index_def)
next
  case False
  then have q: "0 < bid_qty" "0 < ask_qty" using assms by auto
  let ?n = "bid_px * ask_qty + ask_px * bid_qty"
  have "bid_px * ask_qty \<le> i64_max * i64_max" "ask_px * bid_qty \<le> i64_max * i64_max" using assms by (intro mult_mono; simp)+
  moreover have n: "0 \<le> ?n" using assms by simp
  ultimately have "in_i128 ?n" by (simp add: in_i128_def i64_max_def)
  then have e: "wrap128 ?n sdiv (bid_qty + ask_qty) = ?n div (bid_qty + ask_qty)" using q n by (simp add: wrap128_id sdiv_nonneg)
  note m = weighted_mean_between [OF q assms(2)]
  then have "clamp64 (?n div (bid_qty + ask_qty)) = ?n div (bid_qty + ask_qty)" using assms by (intro clamp64_id) (auto simp: in_i64_def i64_bounds)
  then show ?thesis using False m q e by (simp add: calculate_index_def Let_def)
qed

theorem index_inside_spread_witness: "100 \<le> calculate_index 100 30 110 10 0 \<and> calculate_index 100 30 110 10 0 \<le> 110"
  using index_inside_spread [of 100 110 30 10 0] by (simp add: i64_max_def)

end
