(* ===== verification/Risk_Liquidation.thy ===== *)
theory Risk_Liquidation
  imports Risk_Margin
begin

text \<open>
  \<open>rsx-risk/src/liquidation.rs\<close>, the engine: the list of liquidations under way, each a small state machine driven by the clock,
  and the cooldown after a socialised loss. The two closures \<open>maybe_process\<close> takes are function arguments.
\<close>

section \<open>Definitions\<close>

definition LIQUIDATION_PLACED :: u8 where "LIQUIDATION_PLACED = 0"
definition LIQUIDATION_SOCIALIZED :: u8 where "LIQUIDATION_SOCIALIZED = 3"

datatype liquidation_status = LqPending | LqActive | LqDone

record liquidation_state =
  lq_user_id :: u32
  lq_symbol_id :: u32
  lq_round :: u32
  lq_status :: liquidation_status
  lq_enqueued_at_ns :: u64
  lq_last_order_ns :: u64

record liquidation_order =
  lo_symbol_id :: u32
  lo_user_id :: u32
  lo_round :: u32
  lo_side :: u8
  lo_price :: i64
  lo_qty :: i64
  lo_slip_bps :: i64

record socialized_loss =
  sl_user_id :: u32
  sl_symbol_id :: u32
  sl_round :: u32
  sl_side :: u8
  sl_price :: i64
  sl_qty :: i64
  sl_timestamp_ns :: u64

record liquidation_engine =
  le_active :: "liquidation_state list"
  le_socialized_cooldown :: "(u32 \<times> u32 \<times> u64) list"
  le_socialized_cooldown_ns :: u64
  le_base_delay_ns :: u64
  le_base_slip_bps :: i64
  le_max_rounds :: u32
  le_max_slip_bps :: i64

definition liquidation_engine_new :: "u64 \<Rightarrow> i64 \<Rightarrow> u32 \<Rightarrow> i64 \<Rightarrow> u64 \<Rightarrow> liquidation_engine" where
  "liquidation_engine_new base_delay_ns base_slip_bps max_rounds max_slip_bps socialized_cooldown_ns =
     \<lparr>le_active = [], le_socialized_cooldown = [], le_socialized_cooldown_ns = socialized_cooldown_ns, le_base_delay_ns = base_delay_ns,
      le_base_slip_bps = base_slip_bps, le_max_rounds = max_rounds, le_max_slip_bps = max_slip_bps\<rparr>"

definition enqueue :: "liquidation_engine \<Rightarrow> u32 \<Rightarrow> u32 \<Rightarrow> u64 \<Rightarrow> liquidation_engine \<times> bool" where
  "enqueue e user_id symbol_id now_ns =
     (let e1 = e\<lparr>le_socialized_cooldown := filter (\<lambda>(_, _, retry_at). now_ns < retry_at) (le_socialized_cooldown e)\<rparr>;
          cooling = list_ex (\<lambda>(u, s, _). u = user_id \<and> s = symbol_id) (le_socialized_cooldown e1);
          already = list_ex (\<lambda>s. lq_user_id s = user_id \<and> lq_symbol_id s = symbol_id \<and> lq_status s \<noteq> LqDone) (le_active e1)
      in if cooling then (e1, False)
         else if already then (e1, False)
         else (e1\<lparr>le_active := le_active e1 @ [\<lparr>lq_user_id = user_id, lq_symbol_id = symbol_id, lq_round = 1, lq_status = LqActive,
                 lq_enqueued_at_ns = now_ns, lq_last_order_ns = 0\<rparr>]\<rparr>, True))"

text \<open>The slippage of a round and the price it gives, for a long (sold) and a short (bought back) position.\<close>

definition round_slip :: "liquidation_engine \<Rightarrow> u32 \<Rightarrow> i64" where
  "round_slip e rnd =
     (case Option.bind (checked_mul (int rnd) (int rnd)) (\<lambda>v. checked_mul v (le_base_slip_bps e)) of
        Some v \<Rightarrow> min v (le_max_slip_bps e)
      | None \<Rightarrow> le_max_slip_bps e)"

definition slip_price :: "i64 \<Rightarrow> i64 \<Rightarrow> i64 \<Rightarrow> u8 \<times> i64" where
  "slip_price net_qty mark slip =
     (if net_qty > 0 then (1, case checked_mul mark (i64_sub 10000 slip) of Some v \<Rightarrow> v sdiv 10000 | None \<Rightarrow> 0)
      else (0, case checked_mul mark (i64_add 10000 slip) of Some v \<Rightarrow> v sdiv 10000 | None \<Rightarrow> i64_max))"

text \<open>The body of the loop of \<open>maybe_process\<close>: the new state of one liquidation and what it emits.\<close>

datatype liq_output = LoNothing | LoOrder liquidation_order | LoLoss socialized_loss

definition process_state ::
  "liquidation_engine \<Rightarrow> u64 \<Rightarrow> (u32 \<Rightarrow> u32 \<Rightarrow> i64) \<Rightarrow> (u32 \<Rightarrow> i64) \<Rightarrow> liquidation_state \<Rightarrow> liquidation_state \<times> liq_output" where
  "process_state e now_ns get_position_fn get_mark_fn st =
     (if lq_status st \<noteq> LqActive then (st, LoNothing)
      else
        let delay = u64_sat_mul (lq_round st) (le_base_delay_ns e) in
        if lq_round st > 1 \<and> now_ns < u64_sat_add (lq_last_order_ns st) delay then (st, LoNothing)
        else
          let net_qty = get_position_fn (lq_user_id st) (lq_symbol_id st) in
          if net_qty = 0 then (st\<lparr>lq_status := LqDone\<rparr>, LoNothing)
          else
            let mark = get_mark_fn (lq_symbol_id st) in
            if mark = 0 then (st, LoNothing)
            else if lq_round st > le_max_rounds e then
              (st\<lparr>lq_status := LqDone\<rparr>,
               LoLoss \<lparr>sl_user_id = lq_user_id st, sl_symbol_id = lq_symbol_id st, sl_round = lq_round st,
                 sl_side = (if net_qty > 0 then 1 else 0), sl_price = mark, sl_qty = i64_abs net_qty, sl_timestamp_ns = now_ns\<rparr>)
            else
              let slip = round_slip e (lq_round st); (sd, price) = slip_price net_qty mark slip in
              (st\<lparr>lq_last_order_ns := now_ns, lq_round := u32_add (lq_round st) 1\<rparr>,
               LoOrder \<lparr>lo_symbol_id = lq_symbol_id st, lo_user_id = lq_user_id st, lo_round = lq_round st, lo_side = sd, lo_price = price,
                 lo_qty = i64_abs net_qty, lo_slip_bps = slip\<rparr>))"

definition orders_of :: "liq_output list \<Rightarrow> liquidation_order list" where
  "orders_of outs = List.map_filter (\<lambda>x. case x of LoOrder v \<Rightarrow> Some v | _ \<Rightarrow> None) outs"

definition losses_of :: "liq_output list \<Rightarrow> socialized_loss list" where
  "losses_of outs = List.map_filter (\<lambda>x. case x of LoLoss v \<Rightarrow> Some v | _ \<Rightarrow> None) outs"

definition maybe_process ::
  "liquidation_engine \<Rightarrow> u64 \<Rightarrow> (u32 \<Rightarrow> u32 \<Rightarrow> i64) \<Rightarrow> (u32 \<Rightarrow> i64) \<Rightarrow> liquidation_engine \<times> liquidation_order list \<times> socialized_loss list" where
  "maybe_process e now_ns get_position_fn get_mark_fn =
     (if le_active e = [] then (e, [], [])
      else
        let rs = map (process_state e now_ns get_position_fn get_mark_fn) (le_active e);
            losses = losses_of (map snd rs);
            retry_at = u64_sat_add now_ns (le_socialized_cooldown_ns e)
        in (e\<lparr>le_active := map fst rs,
              le_socialized_cooldown := le_socialized_cooldown e @ map (\<lambda>l. (sl_user_id l, sl_symbol_id l, retry_at)) losses\<rparr>,
            orders_of (map snd rs), losses))"

definition cancel_if_recovered :: "liquidation_engine \<Rightarrow> u32 \<Rightarrow> u32 \<Rightarrow> liquidation_engine" where
  "cancel_if_recovered e user_id symbol_id =
     e\<lparr>le_active := filter (\<lambda>s. \<not> (lq_user_id s = user_id \<and> lq_symbol_id s = symbol_id)) (le_active e)\<rparr>"

definition remove_done :: "liquidation_engine \<Rightarrow> liquidation_engine" where
  "remove_done e = e\<lparr>le_active := filter (\<lambda>s. lq_status s \<noteq> LqDone) (le_active e)\<rparr>"

definition is_in_liquidation :: "liquidation_engine \<Rightarrow> u32 \<Rightarrow> u32 \<Rightarrow> bool" where
  "is_in_liquidation e user_id symbol_id =
     list_ex (\<lambda>s. lq_user_id s = user_id \<and> lq_symbol_id s = symbol_id \<and> lq_status s = LqActive) (le_active e)"

definition round_to_tick :: "i64 \<Rightarrow> i64 \<Rightarrow> u8 \<Rightarrow> i64" where
  "round_to_tick price tick sd =
     (if tick \<le> 0 then price
      else
        let floored = i64_sub price (price smod tick) in
        if sd = 1 then max floored tick
        else if floored = price then price
        else (case checked_add floored tick of Some v \<Rightarrow> v | None \<Rightarrow> floored))"

section \<open>One liquidation per position\<close>

definition open_key :: "liquidation_state \<Rightarrow> (u32 \<times> u32) option" where
  "open_key s = (if lq_status s = LqDone then None else Some (lq_user_id s, lq_symbol_id s))"

definition open_keys :: "liquidation_engine \<Rightarrow> (u32 \<times> u32) list" where
  "open_keys e = List.map_filter open_key (le_active e)"

inductive engine_step :: "liquidation_engine \<Rightarrow> liquidation_engine \<Rightarrow> bool" where
  step_enqueue: "engine_step e (fst (enqueue e user_id symbol_id now_ns))"
| step_process: "engine_step e (fst (maybe_process e now_ns get_position_fn get_mark_fn))"
| step_cancel: "engine_step e (cancel_if_recovered e user_id symbol_id)"
| step_remove: "engine_step e (remove_done e)"

inductive_cases engine_stepE: "engine_step e e'"

lemma map_filter_Nil [simp]: "List.map_filter f [] = []" by (simp add: List.map_filter_def)

lemma map_filter_Cons: "List.map_filter f (x # xs) = (case f x of None \<Rightarrow> List.map_filter f xs | Some y \<Rightarrow> y # List.map_filter f xs)"
  by (simp add: List.map_filter_def split: option.split)

lemma map_filter_append: "List.map_filter f (xs @ ys) = List.map_filter f xs @ List.map_filter f ys"
  by (simp add: List.map_filter_def)

lemma set_map_filter: "set (List.map_filter f xs) = {y. \<exists>x\<in>set xs. f x = Some y}"
  by (auto simp: List.map_filter_def image_iff) force

text \<open>Dropping entries, or making them \<open>Done\<close>, keeps the open keys a subsequence.\<close>

lemma distinct_open_filter: "distinct (List.map_filter g xs) \<Longrightarrow> distinct (List.map_filter g (filter P xs))"
  by (induction xs) (auto simp: map_filter_Cons set_map_filter split: option.splits)

lemma distinct_open_map:
  assumes "\<And>x. g (f x) = None \<or> g (f x) = g x"
  shows "distinct (List.map_filter g xs) \<Longrightarrow> distinct (List.map_filter g (map f xs))"
proof (induction xs)
  case (Cons x xs)
  have sub: "set (List.map_filter g (map f xs)) \<subseteq> set (List.map_filter g xs)"
    unfolding set_map_filter set_map using assms by (auto, metis option.distinct(1))
  show ?case using Cons assms [of x] sub by (auto simp: map_filter_Cons split: option.splits)
qed simp

lemma process_state_key: "open_key (fst (process_state e now gp gm st)) = None \<or> open_key (fst (process_state e now gp gm st)) = open_key st"
  by (auto simp: process_state_def Let_def open_key_def split: prod.split)

lemma engine_step_distinct: "engine_step e e' \<Longrightarrow> distinct (open_keys e) \<Longrightarrow> distinct (open_keys e')"
proof (induction rule: engine_step.induct)
  case (step_enqueue e user_id symbol_id now_ns)
  then show ?case
    by (auto simp: enqueue_def Let_def open_keys_def map_filter_append map_filter_Cons open_key_def set_map_filter list_ex_iff split: if_splits)
next
  case (step_process e now_ns gp gm)
  have "distinct (List.map_filter open_key (map (\<lambda>s. fst (process_state e now_ns gp gm s)) (le_active e)))"
    by (rule distinct_open_map, rule process_state_key) (use step_process in \<open>simp add: open_keys_def\<close>)
  then show ?case using step_process by (simp add: maybe_process_def Let_def open_keys_def comp_def)
next
  case (step_cancel e user_id symbol_id)
  then show ?case unfolding open_keys_def cancel_if_recovered_def by (simp add: distinct_open_filter)
next
  case (step_remove e)
  then show ?case unfolding open_keys_def remove_done_def by (simp add: distinct_open_filter)
qed

text \<open>C18: no position is liquidated twice at once. In every engine reachable from a new one by enqueuing, processing, cancelling
  and removing finished entries in any order, at most one liquidation that is not \<open>Done\<close> exists for a user and symbol.\<close>

theorem one_liquidation_per_position:
  assumes "engine_step\<^sup>*\<^sup>* (liquidation_engine_new d s r m c) e"
  shows "distinct (open_keys e)"
  using assms
proof (induction rule: rtranclp_induct)
  case base
  then show ?case by (simp add: open_keys_def liquidation_engine_new_def)
next
  case (step e e')
  then show ?case using engine_step_distinct by blast
qed

theorem one_liquidation_per_position_witness:
  "let e = fst (enqueue (fst (enqueue (liquidation_engine_new 100 1 10 9999 1000) 7 1 50)) 7 1 60) in distinct (open_keys e) \<and> length (le_active e) = 1"
proof -
  let ?n = "liquidation_engine_new 100 1 10 9999 1000"
  have "engine_step\<^sup>*\<^sup>* ?n (fst (enqueue (fst (enqueue ?n 7 1 50)) 7 1 60))"
    by (meson engine_step.step_enqueue r_into_rtranclp rtranclp_trans)
  then have "distinct (open_keys (fst (enqueue (fst (enqueue ?n 7 1 50)) 7 1 60)))" by (rule one_liquidation_per_position)
  moreover have "length (le_active (fst (enqueue (fst (enqueue ?n 7 1 50)) 7 1 60))) = 1" by code_simp
  ultimately show ?thesis by (simp only: Let_def simp_thms)
qed

section \<open>The cascade ends\<close>

text \<open>One liquidation processed at the given times, and times at least \<open>d\<close> apart.\<close>

fun cascade :: "liquidation_engine \<Rightarrow> (u32 \<Rightarrow> u32 \<Rightarrow> i64) \<Rightarrow> (u32 \<Rightarrow> i64) \<Rightarrow> u64 list \<Rightarrow> liquidation_state \<Rightarrow> liquidation_state \<times> liq_output list" where
  "cascade e gp gm [] st = (st, [])"
| "cascade e gp gm (t # ts) st =
     (let (st1, out) = process_state e t gp gm st; (st2, outs) = cascade e gp gm ts st1 in (st2, out # outs))"

fun spaced :: "nat \<Rightarrow> nat \<Rightarrow> nat list \<Rightarrow> bool" where
  "spaced d l [] \<longleftrightarrow> True"
| "spaced d l (t # ts) \<longleftrightarrow> l + d \<le> t \<and> spaced d t ts"

lemma process_fires:
  assumes "lq_status st = LqActive" "gp (lq_user_id st) (lq_symbol_id st) \<noteq> 0" "gm (lq_symbol_id st) \<noteq> 0"
    "lq_round st \<le> 1 \<or> lq_last_order_ns st + Suc (le_max_rounds e) * le_base_delay_ns e \<le> t" "lq_round st \<le> Suc (le_max_rounds e)"
    "Suc (le_max_rounds e) < 4294967296"
  shows "if lq_round st \<le> le_max_rounds e
    then \<exists>v. process_state e t gp gm st = (st\<lparr>lq_last_order_ns := t, lq_round := Suc (lq_round st)\<rparr>, LoOrder v) \<and> lo_round v = lq_round st
    else \<exists>v. process_state e t gp gm st = (st\<lparr>lq_status := LqDone\<rparr>, LoLoss v) \<and> sl_round v = lq_round st"
proof -
  have "u64_sat_mul (lq_round st) (le_base_delay_ns e) \<le> lq_round st * le_base_delay_ns e" by (simp add: u64_sat_mul_def)
  also have "\<dots> \<le> Suc (le_max_rounds e) * le_base_delay_ns e" using assms(5) by (rule mult_le_mono1)
  finally have "u64_sat_add (lq_last_order_ns st) (u64_sat_mul (lq_round st) (le_base_delay_ns e)) \<le> lq_last_order_ns st + Suc (le_max_rounds e) * le_base_delay_ns e"
    unfolding u64_sat_add_def by linarith
  then have wait: "\<not> (lq_round st > 1 \<and> t < u64_sat_add (lq_last_order_ns st) (u64_sat_mul (lq_round st) (le_base_delay_ns e)))"
    using assms(4) by linarith
  have "u32_add (lq_round st) 1 = Suc (lq_round st)" if "lq_round st \<le> le_max_rounds e" using that assms(6) by (simp add: u32_add_def)
  then show ?thesis using assms(1-3) wait unfolding process_state_def by (simp add: Let_def split_def)
qed

lemma cascade_run:
  assumes "lq_status st = LqActive" "gp (lq_user_id st) (lq_symbol_id st) \<noteq> 0" "gm (lq_symbol_id st) \<noteq> 0" "Suc (le_max_rounds e) < 4294967296"
    "lq_round st + length ts = Suc (Suc (le_max_rounds e))" "ts \<noteq> []"
    "lq_round st \<le> 1 \<or> lq_last_order_ns st + Suc (le_max_rounds e) * le_base_delay_ns e \<le> hd ts"
    "spaced (Suc (le_max_rounds e) * le_base_delay_ns e) (hd ts) (tl ts)"
  shows "\<exists>st' os l. cascade e gp gm ts st = (st', map LoOrder os @ [LoLoss l]) \<and> lq_status st' = LqDone \<and>
    map lo_round os = [lq_round st..<Suc (le_max_rounds e)] \<and> sl_round l = Suc (le_max_rounds e)"
  using assms
proof (induction ts arbitrary: st)
  case (Cons t ts)
  have r: "lq_round st \<le> Suc (le_max_rounds e)" using Cons.prems(5) by simp
  have "lq_round st \<le> 1 \<or> lq_last_order_ns st + Suc (le_max_rounds e) * le_base_delay_ns e \<le> t" using Cons.prems(7) by simp
  note fire = process_fires [of st gp gm e t, OF Cons.prems(1-3) this r Cons.prems(4)]
  show ?case
  proof (cases "lq_round st \<le> le_max_rounds e")
    case False
    then have "lq_round st = Suc (le_max_rounds e)" using r by linarith
    then have "lq_round st = Suc (le_max_rounds e)" "length ts = 0" using Cons.prems(5) by simp_all
    then show ?thesis using fire by (auto intro!: exI [of _ "[]"])
  next
    case True
    then obtain v where v: "process_state e t gp gm st = (st\<lparr>lq_last_order_ns := t, lq_round := Suc (lq_round st)\<rparr>, LoOrder v)" "lo_round v = lq_round st"
      using fire by auto
    let ?st = "st\<lparr>lq_last_order_ns := t, lq_round := Suc (lq_round st)\<rparr>"
    have "ts \<noteq> []" using True Cons.prems(5) by auto
    then obtain u us where ts: "ts = u # us" by (cases ts) auto
    have "\<exists>st' os l. cascade e gp gm ts ?st = (st', map LoOrder os @ [LoLoss l]) \<and> lq_status st' = LqDone \<and>
        map lo_round os = [lq_round ?st..<Suc (le_max_rounds e)] \<and> sl_round l = Suc (le_max_rounds e)"
      by (rule Cons.IH) (use Cons.prems ts in auto)
    then obtain st' os l where IH: "cascade e gp gm ts ?st = (st', map LoOrder os @ [LoLoss l])" "lq_status st' = LqDone"
      "map lo_round os = [Suc (lq_round st)..<Suc (le_max_rounds e)]" "sl_round l = Suc (le_max_rounds e)" by auto
    then show ?thesis using v True
      by (intro exI [of _ st'] exI [of _ "v # os"] exI [of _ l]) (simp add: upt_conv_Cons)
  qed
qed simp



section \<open>Prices\<close>

lemma round_slip_bounds:
  assumes "0 \<le> le_base_slip_bps e" "0 \<le> le_max_slip_bps e"
  shows "0 \<le> round_slip e rnd" "round_slip e rnd \<le> le_max_slip_bps e"
  using assms by (auto simp: round_slip_def checked_mul_def split: option.splits bind_splits)

lemma floored_tick:
  assumes "0 \<le> x" "x \<le> i64_max" "0 < (tick :: int)"
  shows "i64_sub x (x smod tick) = x div tick * tick"
proof -
  have "0 \<le> x mod tick" "x mod tick \<le> x" using assms by (simp_all add: zmod_le_nonneg_dividend)
  then have "i64_sub x (x mod tick) = x - x mod tick" using assms unfolding i64_bounds by (intro i64_sub_id) (unfold in_i64_def i64_bounds, linarith)
  then show ?thesis using assms by (simp add: smod_nonneg minus_mod_eq_div_mult)
qed

lemma round_sell:
  assumes "0 \<le> x" "x \<le> i64_max" "0 < tick"
  shows "tick dvd round_to_tick x tick 1" "tick \<le> round_to_tick x tick 1" "round_to_tick x tick 1 \<le> x \<or> round_to_tick x tick 1 = tick"
  using assms div_times_le [OF assms(3), of x] by (simp_all add: round_to_tick_def Let_def floored_tick max_def)

lemma round_buy:
  assumes "0 \<le> x" "x + tick \<le> i64_max" "0 < tick"
  shows "tick dvd round_to_tick x tick 0" "x \<le> round_to_tick x tick 0" "round_to_tick x tick 0 < x + tick"
proof -
  let ?f = "x div tick * tick"
  have f: "i64_sub x (x smod tick) = ?f" using assms by (intro floored_tick) auto
  have b: "?f \<le> x" "x < ?f + tick" using div_times_le [OF assms(3), of x] pos_mod_bound [OF assms(3), of x] div_mult_mod_eq [of x tick] by linarith+
  have "0 \<le> ?f" using assms(1,3) by (simp add: pos_imp_zdiv_nonneg_iff)
  have c: "checked_add ?f tick = Some (?f + tick)" using b assms \<open>0 \<le> ?f\<close> by (simp add: checked_add_def try64_def in_i64_def i64_bounds)
  have "round_to_tick x tick 0 = (if ?f = x then x else ?f + tick)" using assms(3) by (simp add: round_to_tick_def Let_def f c)
  then show "tick dvd round_to_tick x tick 0" "x \<le> round_to_tick x tick 0" "round_to_tick x tick 0 < x + tick"
    using b assms(3) by (auto split: if_splits) (metis dvd_triv_right)
qed



end
