(* ===== verification/Risk_Funding.thy ===== *)
theory Risk_Funding
  imports Rsx_Types
begin

text \<open>
  \<open>rsx-risk/src/funding.rs\<close>, the pure part: the funding rate, one user's payment, and the settlement of one symbol, which parks
  the rounding residual on the largest position. The three-factor products are \<open>i128\<close> and wrap there; sums of \<open>i64\<close> values in
  \<open>i128\<close> cannot overflow.
\<close>

section \<open>Definitions\<close>

text \<open>\<open>clamp\<close> panics when its bounds are crossed.\<close>

definition calculate_rate :: "i64 \<Rightarrow> i64 \<Rightarrow> i64 \<Rightarrow> i64 \<Rightarrow> i64 option" where
  "calculate_rate mark index min_bps max_bps =
     (if index = 0 then Some 0
      else do {
        let premium_raw = ((mark - index) * 10000) sdiv index;
        let premium = clamp64 premium_raw;
        assert_that (min_bps \<le> max_bps);
        Some (if premium < min_bps then min_bps else if premium > max_bps then max_bps else premium)
      })"

definition floor_div_10k :: "i128 \<Rightarrow> i64" where
  "floor_div_10k x = clamp64 (x div 10000)"

definition calculate_payment :: "i64 \<Rightarrow> i64 \<Rightarrow> i64 \<Rightarrow> i64" where
  "calculate_payment net_qty mark rate = floor_div_10k (i128_mul (i128_mul net_qty mark) rate)"

definition calculate_payment_i128 :: "i128 \<Rightarrow> i64 \<Rightarrow> i64 \<Rightarrow> i128" where
  "calculate_payment_i128 net_qty mark rate = clamp64 (i128_mul (i128_mul net_qty mark) rate div 10000)"

fun largest_from :: "nat \<Rightarrow> i64 list \<Rightarrow> (nat \<times> i64) option \<Rightarrow> (nat \<times> i64) option" where
  "largest_from i [] best = best"
| "largest_from i (q # qs) best =
     (let mag = sat_abs q in
      largest_from (Suc i) qs (case best of Some (j, b) \<Rightarrow> if mag \<le> b then best else Some (i, mag) | None \<Rightarrow> Some (i, mag)))"

definition largest_idx :: "i64 list \<Rightarrow> nat option" where
  "largest_idx net_qtys = map_option fst (largest_from 0 net_qtys None)"

definition settle_symbol :: "i64 list \<Rightarrow> i64 \<Rightarrow> i64 \<Rightarrow> i64 list" where
  "settle_symbol net_qtys mark rate =
     (let payments = map (\<lambda>q. calculate_payment q mark rate) net_qtys;
          sum_rounded = sum_list payments;
          net_total = sum_list net_qtys;
          agg_payment = calculate_payment_i128 net_total mark rate;
          residual = clamp64 (sum_rounded - agg_payment)
      in if residual \<noteq> 0 then
           (case largest_idx net_qtys of
              Some i \<Rightarrow> payments[i := sat_sub (payments ! i) residual]
            | None \<Rightarrow> payments)
         else payments)"

definition interval_id :: "u64 \<Rightarrow> u64 \<Rightarrow> u64" where
  "interval_id unix_secs interval_secs = (if interval_secs = 0 then 0 else unix_secs div interval_secs)"

definition is_settlement_due :: "u64 \<Rightarrow> u64 \<Rightarrow> u64 \<Rightarrow> bool" where
  "is_settlement_due last_id current_secs interval_secs \<longleftrightarrow> interval_id current_secs interval_secs > last_id"

section \<open>The largest position\<close>

definition largest_upto :: "i64 list \<Rightarrow> (nat \<times> i64) option \<Rightarrow> bool" where
  "largest_upto qs best \<longleftrightarrow> (case best of None \<Rightarrow> qs = []
     | Some (j, b) \<Rightarrow> j < length qs \<and> b = sat_abs (qs ! j) \<and> (\<forall>q\<in>set qs. sat_abs q \<le> b))"

lemma largest_from_ok: "largest_upto ps best \<Longrightarrow> largest_upto (ps @ qs) (largest_from (length ps) qs best)"
proof (induction qs arbitrary: ps best)
  case (Cons q qs)
  let ?best = "case best of Some (j, b) \<Rightarrow> if sat_abs q \<le> b then best else Some (length ps, sat_abs q) | None \<Rightarrow> Some (length ps, sat_abs q)"
  have "largest_upto (ps @ [q]) ?best"
    using Cons.prems by (auto simp: largest_upto_def nth_append split: option.splits prod.splits if_splits)
  from Cons.IH [OF this] show ?case by (simp add: Let_def)
qed simp

lemma largest_idx_ok:
  assumes "qs \<noteq> []" shows "\<exists>i. largest_idx qs = Some i \<and> i < length qs \<and> (\<forall>q\<in>set qs. sat_abs q \<le> sat_abs (qs ! i))"
proof -
  have "largest_upto qs (largest_from 0 qs None)" using largest_from_ok [of "[]" None qs] by (simp add: largest_upto_def)
  then show ?thesis using assms by (auto simp: largest_upto_def largest_idx_def split: option.splits)
qed

section \<open>Rounding\<close>

text \<open>The sum of floors misses the floor of the sum by less than one per term.\<close>

lemma sum_of_floors:
  fixes xs :: "int list"
  shows "(\<Sum>x\<leftarrow>xs. x div 10000) \<le> sum_list xs div 10000 \<and> sum_list xs div 10000 \<le> (\<Sum>x\<leftarrow>xs. x div 10000) + max 0 (int (length xs) - 1)"
proof (induction xs)
  case (Cons x xs)
  define m where "m = (x mod 10000 + sum_list xs mod 10000) div 10000"
  have d: "sum_list (x # xs) div 10000 = x div 10000 + sum_list xs div 10000 + m" unfolding m_def sum_list.Cons by (rule div_add1_eq)
  have "0 \<le> m" unfolding m_def by (simp add: pos_imp_zdiv_nonneg_iff)
  have "x mod 10000 + sum_list xs mod 10000 \<le> 19998" using pos_mod_bound [of 10000 x] pos_mod_bound [of 10000 "sum_list xs"] by linarith
  then have "m \<le> 19998 div 10000" unfolding m_def by (rule zdiv_mono1) simp
  then have "m \<le> 1" by simp
  have e: "m = 0" if "xs = []" using that by (simp add: m_def)
  have s: "(\<Sum>x\<leftarrow>x # xs. x div 10000) = x div 10000 + (\<Sum>x\<leftarrow>xs. x div 10000)" "int (length (x # xs)) = int (length xs) + 1" by simp_all
  show ?case
  proof (cases "xs = []")
    case False
    then have "1 \<le> int (length xs)" by (cases xs) auto
    then show ?thesis using Cons.IH \<open>0 \<le> m\<close> \<open>m \<le> 1\<close> unfolding d s by linarith
  qed simp
qed simp

lemma sum_list_scale: "(\<Sum>q\<leftarrow>qs. q * (c :: int)) = sum_list qs * c"
  by (induction qs) (simp_all add: algebra_simps)

lemma sum_list_set: "i < length xs \<Longrightarrow> sum_list (xs[i := x]) = sum_list xs + x - (xs ! i :: int)"
  by (induction xs arbitrary: i) (auto split: nat.splits)

lemma abs_sum_le: "\<bar>sum_list qs\<bar> \<le> (\<Sum>q\<leftarrow>qs. \<bar>q :: int\<bar>)"
  by (induction qs) auto

lemma member_abs_le:
  assumes "q \<in> set qs" shows "\<bar>q :: int\<bar> \<le> (\<Sum>q\<leftarrow>qs. \<bar>q\<bar>)"
proof -
  have "\<bar>q\<bar> \<in> set (map abs qs)" using assms by simp
  then show ?thesis by (rule member_le_sum_list) auto
qed

text \<open>What the products stay within: the gross exposure times mark and rate, with room for the rounding.\<close>

definition funding_fits :: "i64 list \<Rightarrow> i64 \<Rightarrow> i64 \<Rightarrow> bool" where
  "funding_fits qs mark rate \<longleftrightarrow> in_i64 mark \<and> in_i64 rate \<and>
     (\<Sum>q\<leftarrow>qs. \<bar>q\<bar>) * \<bar>mark\<bar> * \<bar>rate\<bar> + 10000 * int (length qs) \<le> 10000 * i64_max \<and> (\<Sum>q\<leftarrow>qs. \<bar>q\<bar>) \<le> i64_max"

lemma payment_exact:
  assumes fit: "funding_fits qs mark rate" and q: "\<bar>q\<bar> \<le> (\<Sum>q\<leftarrow>qs. \<bar>q\<bar>)"
  shows "i128_mul (i128_mul q mark) rate = q * mark * rate" "in_i64 (q * mark * rate div 10000)"
    "\<bar>q * mark * rate\<bar> \<le> 10000 * (i64_max - int (length qs))"
proof -
  have "\<bar>q * mark * rate\<bar> = \<bar>q\<bar> * \<bar>mark\<bar> * \<bar>rate\<bar>" by (simp add: abs_mult)
  also have "\<dots> \<le> (\<Sum>q\<leftarrow>qs. \<bar>q\<bar>) * \<bar>mark\<bar> * \<bar>rate\<bar>" using q by (intro mult_right_mono) auto
  finally show b: "\<bar>q * mark * rate\<bar> \<le> 10000 * (i64_max - int (length qs))" using fit unfolding funding_fits_def right_diff_distrib by linarith
  have "\<bar>q\<bar> * \<bar>mark\<bar> \<le> i64_max * 9223372036854775808"
    using q fit by (intro mult_mono) (auto simp: funding_fits_def in_i64_iff i64_max_def)
  then have "in_i128 (q * mark)" unfolding in_i128_def abs_mult [symmetric] by (simp add: i64_max_def abs_le_iff)
  moreover have "in_i128 (q * mark * rate)" using b unfolding in_i128_def by (simp add: i64_max_def abs_le_iff)
  ultimately show "i128_mul (i128_mul q mark) rate = q * mark * rate" by (simp add: i128_mul_def wrap128_id)
  have "q * mark * rate \<le> 10000 * i64_max" "- (10000 * i64_max) \<le> q * mark * rate" using b by auto
  then have "q * mark * rate div 10000 \<le> 10000 * i64_max div 10000" "(10000 * (- i64_max)) div 10000 \<le> q * mark * rate div 10000"
    by (intro zdiv_mono1; simp)+
  then show "in_i64 (q * mark * rate div 10000)" by (simp add: in_i64_def i64_bounds)
qed

lemma calculate_payment_exact:
  assumes "funding_fits qs mark rate" "\<bar>q\<bar> \<le> (\<Sum>q\<leftarrow>qs. \<bar>q\<bar>)"
  shows "calculate_payment q mark rate = q * mark * rate div 10000" "calculate_payment_i128 q mark rate = q * mark * rate div 10000"
  using payment_exact [OF assms] by (simp_all add: calculate_payment_def calculate_payment_i128_def floor_div_10k_def clamp64_id)

section \<open>Properties\<close>

text \<open>C16: funding creates and destroys nothing. When the gross exposure times mark and rate stays in range, the payments
  \<open>settle_symbol\<close> makes for one symbol sum up to exactly the floored payment of the shard's net quantity, so they cancel when the net
  is zero; each user pays his own floored amount, except that the user with the largest position also pays the
  rounding residual, which is less than one unit per other user.\<close>

theorem funding_zero_sum:
  fixes qs :: "i64 list" and mark rate :: i64
  assumes fit: "funding_fits qs mark rate"
  defines "ps \<equiv> settle_symbol qs mark rate"
  shows "length ps = length qs \<and> sum_list ps = sum_list qs * mark * rate div 10000 \<and> (sum_list qs = 0 \<longrightarrow> sum_list ps = 0) \<and>
    (\<forall>i<length qs. qs ! i * mark * rate div 10000 \<le> ps ! i \<and> ps ! i < qs ! i * mark * rate div 10000 + int (length qs) \<and>
      (largest_idx qs \<noteq> Some i \<longrightarrow> ps ! i = qs ! i * mark * rate div 10000))"
proof -
  define fl where "fl = map (\<lambda>q. q * mark * rate div 10000) qs"
  have pay: "map (\<lambda>q. calculate_payment q mark rate) qs = fl"
    unfolding fl_def using calculate_payment_exact(1) [OF fit member_abs_le] by (simp cong: map_cong)
  have agg: "calculate_payment_i128 (sum_list qs) mark rate = sum_list qs * mark * rate div 10000"
    by (rule calculate_payment_exact(2) [OF fit abs_sum_le])
  let ?r = "sum_list fl - sum_list qs * mark * rate div 10000"
  have "(\<Sum>x\<leftarrow>map (\<lambda>q. q * (mark * rate)) qs. x div 10000) = sum_list fl" unfolding fl_def by (simp add: comp_def mult.assoc)
  then have r: "?r \<le> 0" "- max 0 (int (length qs) - 1) \<le> ?r"
    using sum_of_floors [of "map (\<lambda>q. q * (mark * rate)) qs"] by (simp_all add: sum_list_scale mult.assoc)
  have len: "int (length qs) \<le> i64_max"
  proof -
    have "0 \<le> (\<Sum>q\<leftarrow>qs. \<bar>q\<bar>) * \<bar>mark\<bar> * \<bar>rate\<bar>" by (intro mult_nonneg_nonneg sum_list_nonneg) auto
    then show ?thesis using fit unfolding funding_fits_def by linarith
  qed
  have cr: "clamp64 ?r = ?r" using r len by (intro clamp64_id) (auto simp: in_i64_def i64_bounds max_def split: if_splits)
  have flb: "in_i64 (fl ! i - ?r)" if "i < length qs" for i
  proof -
    have q: "\<bar>qs ! i\<bar> \<le> (\<Sum>q\<leftarrow>qs. \<bar>q\<bar>)" using that by (intro member_abs_le) simp
    have "qs ! i * mark * rate div 10000 \<le> (10000 * (i64_max - int (length qs))) div 10000"
      using payment_exact(3) [OF fit q] by (intro zdiv_mono1) auto
    then show ?thesis using payment_exact(2) [OF fit q] r that len by (auto simp: fl_def in_i64_def)
  qed
  have ps: "ps = (if ?r \<noteq> 0 then (case largest_idx qs of Some i \<Rightarrow> fl[i := sat_sub (fl ! i) ?r] | None \<Rightarrow> fl) else fl)"
    unfolding ps_def settle_symbol_def Let_def pay agg cr ..
  show ?thesis
  proof (cases "?r = 0")
    case True
    then have "ps = fl" "sum_list fl = sum_list qs * mark * rate div 10000" using ps by simp_all
    then show ?thesis by (auto simp: fl_def)
  next
    case False
    then have "qs \<noteq> []" by (auto simp: fl_def)
    then obtain i where i: "largest_idx qs = Some i" "i < length qs" using largest_idx_ok by blast
    then have ps: "ps = fl[i := fl ! i - ?r]" using ps False flb [of i] by (simp add: sat_sub_id)
    have l: "length fl = length qs" by (simp add: fl_def)
    have s: "sum_list ps = sum_list qs * mark * rate div 10000" unfolding ps using i(2) l by (simp add: sum_list_set)
    have "ps ! j = (if j = i then fl ! i - ?r else fl ! j)" if "j < length qs" for j unfolding ps using that l by simp
    then show ?thesis using s r i l ps by (auto simp: fl_def max_def split: if_splits)
  qed
qed

theorem funding_zero_sum_witness:
  "funding_fits [7, -4, -3] 30001 17 \<and> settle_symbol [7, -4, -3] 30001 17 = [359, -205, -154] \<and> sum_list (settle_symbol [7, -4, -3] 30001 17) = 0"
proof -
  have f: "funding_fits [7, -4, -3] 30001 17" by (simp add: funding_fits_def in_i64_iff i64_max_def)
  then have "sum_list (settle_symbol [7, -4, -3] 30001 17) = 0" using funding_zero_sum [of "[7, -4, -3]" 30001 17] by simp
  moreover have "settle_symbol [7, -4, -3] 30001 17 = [359, -205, -154]" by code_simp
  ultimately show ?thesis using f by simp
qed
end
