(* ===== verification/Risk_Shard.thy ===== *)
theory Risk_Shard
  imports Risk_Liquidation Risk_Funding "HOL-Library.AList"
begin

text \<open>
  \<open>rsx-risk/src/shard.rs\<close> and the \<open>impl RiskShard\<close> blocks of \<open>position.rs\<close>, \<open>account.rs\<close>, \<open>margin.rs\<close>, \<open>price.rs\<close>, \<open>funding.rs\<close>,
  \<open>liquidation.rs\<close>, \<open>insurance.rs\<close>, \<open>config.rs\<close> and \<open>replay.rs\<close>: the state of one risk shard and everything that changes it.

  A hash map is a partial function; a hash set or map whose elements the code iterates over is a list without repetition, and the
  argument \<open>it\<close> of the iterating operations stands for the order in which the table yields its keys (any permutation). The
  persist ring is the log of the events pushed, or \<open>None\<close> when no worker is attached. Every operation that can panic returns an option.
  \<open>shard_count\<close> is positive, which \<open>load_shard_config\<close> enforces.
\<close>

section \<open>State\<close>

record fill_event =
  fe_seq :: u64
  fe_symbol_id :: u32
  fe_taker_user_id :: u32
  fe_maker_user_id :: u32
  fe_price :: i64
  fe_qty :: i64
  fe_taker_side :: u8
  fe_timestamp_ns :: u64

record insurance_fund =
  if_symbol_id :: u32
  if_balance :: i64
  if_version :: u64

record frozen_order_record =
  fo_user_id :: u32
  fo_order_id_hi :: u64
  fo_order_id_lo :: u64
  fo_symbol_id :: u32
  fo_amount :: i64

record persisted_fill =
  pf_symbol_id :: u32
  pf_taker_user_id :: u32
  pf_maker_user_id :: u32
  pf_price :: i64
  pf_qty :: i64
  pf_taker_fee :: i64
  pf_maker_fee :: i64
  pf_taker_side :: u8
  pf_seq :: u64
  pf_timestamp_ns :: u64

record funding_record =
  fr_user_id :: u32
  fr_symbol_id :: u32
  fr_interval_id :: u64
  fr_amount :: i64
  fr_rate :: i64
  fr_settlement_ts :: u64

record funding_settlement =
  fs_symbol_id :: u32
  fs_interval_id :: u64
  fs_payments :: "funding_record list"
  fs_accounts :: "account list"

record liquidation_record =
  lr_user_id :: u32
  lr_symbol_id :: u32
  lr_round :: u32
  lr_side :: u8
  lr_price :: i64
  lr_qty :: i64
  lr_slippage_bps :: i64
  lr_status :: u8
  lr_timestamp_ns :: u64

datatype persist_event =
    PePosition position
  | PeAccount account
  | PeFill persisted_fill
  | PeTip u32 u64
  | PeFundingSettlement funding_settlement
  | PeInsuranceFund insurance_fund
  | PeLiquidation liquidation_record
  | PeFrozenInsert frozen_order_record
  | PeFrozenRemove u32 u64 u64
  | PeConfigReload u32 u64

datatype order_response =
    RspAccepted u32 i64 u64 u64
  | RspRejected u32 reject_reason u64 u64
  | RspLiquidation u32 u32 u8 u32 u8 i64 i64 i64

record cancel_request =
  cr_ts_ns :: u64
  cr_user_id :: u32
  cr_symbol_id :: u32
  cr_order_id_hi :: u64
  cr_order_id_lo :: u64

datatype me_command = MeOrder order_request u64 | MeCancel cancel_request

record symbol_risk_config =
  sc_symbol_id :: u32
  sc_config_version :: u64
  sc_params :: symbol_risk_params
  sc_taker_fee_bps :: i64
  sc_maker_fee_bps :: i64
  sc_tick_size :: i64
  sc_funding_interval_secs :: u64
  sc_funding_min_bps :: i64
  sc_funding_max_bps :: i64

record liquidation_config =
  lc_base_delay_ns :: u64
  lc_base_slip_bps :: u64
  lc_max_rounds :: u32
  lc_socialized_cooldown_ns :: u64
  lc_max_slip_bps :: u64

record shard_config =
  sh_shard_id :: u32
  sh_shard_count :: u32
  sh_max_symbols :: usize
  sh_symbol_params :: portfolio_margin
  sh_taker_fee_bps :: "i64 list"
  sh_maker_fee_bps :: "i64 list"
  sh_liquidation_config :: liquidation_config

record risk_shard =
  rs_shard_id :: u32
  rs_shard_count :: u32
  rs_max_symbols :: usize
  rs_accounts :: "u32 \<rightharpoonup> account"
  rs_positions :: "u32 \<times> u32 \<rightharpoonup> position"
  rs_positions_by_user :: "u32 \<rightharpoonup> u32 list"
  rs_margin :: portfolio_margin
  rs_index_prices :: "index_price list"
  rs_mark_prices :: "i64 list"
  rs_exposure :: exposure_index
  rs_tips :: "u64 list"
  rs_funding_interval_secs :: "u64 list"
  rs_funding_min_bps :: "i64 list"
  rs_funding_max_bps :: "i64 list"
  rs_funding_settled :: "u64 option list"
  rs_funding_checked_secs :: u64
  rs_funding_stalled :: bool
  rs_taker_fee_bps :: "i64 list"
  rs_maker_fee_bps :: "i64 list"
  rs_tick_size :: "i64 list"
  rs_stashed_bbo :: "bbo_update option list"
  rs_insurance_funds :: "u32 \<rightharpoonup> insurance_fund"
  rs_frozen_orders :: "nat \<rightharpoonup> freeze"
  rs_pending_cancels :: "cancel_request list"
  rs_frozen_by_user :: "u32 \<rightharpoonup> (nat \<times> i64) list"
  rs_config_versions :: "u64 list"
  rs_fills_processed :: u64
  rs_orders_processed :: u64
  rs_backpressured :: bool
  rs_persist :: "persist_event list option"
  rs_config_updates :: "symbol_risk_config list option"
  rs_liquidation :: liquidation_engine
  rs_fallback_mark_prices :: "i64 list"
  rs_mark_dirty :: bool

definition risk_shard_new :: "shard_config \<Rightarrow> risk_shard" where
  "risk_shard_new config =
     (let n = sh_max_symbols config; lc = sh_liquidation_config config in
      \<lparr>rs_shard_id = sh_shard_id config, rs_shard_count = sh_shard_count config, rs_max_symbols = n,
       rs_accounts = Map.empty, rs_positions = Map.empty, rs_positions_by_user = Map.empty, rs_margin = sh_symbol_params config,
       rs_index_prices = replicate n index_price_default, rs_mark_prices = replicate n 0, rs_exposure = exposure_new n,
       rs_tips = replicate n 0, rs_funding_interval_secs = replicate n 0, rs_funding_min_bps = replicate n 0,
       rs_funding_max_bps = replicate n 0, rs_funding_settled = replicate n None, rs_funding_checked_secs = u64_max,
       rs_funding_stalled = False, rs_taker_fee_bps = sh_taker_fee_bps config, rs_maker_fee_bps = sh_maker_fee_bps config,
       rs_tick_size = replicate n 0, rs_stashed_bbo = replicate n None, rs_insurance_funds = Map.empty, rs_frozen_orders = Map.empty,
       rs_pending_cancels = [], rs_frozen_by_user = Map.empty, rs_config_versions = replicate n 0, rs_fills_processed = 0,
       rs_orders_processed = 0, rs_backpressured = False, rs_persist = None, rs_config_updates = None,
       rs_liquidation = liquidation_engine_new (lc_base_delay_ns lc) (wrap64 (int (lc_base_slip_bps lc))) (lc_max_rounds lc)
         (wrap64 (int (lc_max_slip_bps lc))) (lc_socialized_cooldown_ns lc),
       rs_fallback_mark_prices = replicate n 0, rs_mark_dirty = True\<rparr>)"

definition user_in_shard :: "risk_shard \<Rightarrow> u32 \<Rightarrow> bool" where
  "user_in_shard s user_id \<longleftrightarrow> user_id mod rs_shard_count s = rs_shard_id s"

definition order_key :: "u64 \<Rightarrow> u64 \<Rightarrow> nat" where
  "order_key order_id_hi order_id_lo = order_id_hi * 18446744073709551616 + order_id_lo"

definition push_persist :: "risk_shard \<Rightarrow> persist_event \<Rightarrow> risk_shard" where
  "push_persist s ev = s\<lparr>rs_persist := map_option (\<lambda>evs. evs @ [ev]) (rs_persist s)\<rparr>"

text \<open>\<open>FxHashSet::insert\<close>, on the list of the set's elements.\<close>

definition set_insert :: "nat \<Rightarrow> nat list \<Rightarrow> nat list" where
  "set_insert x xs = (if x \<in> set xs then xs else xs @ [x])"

section \<open>Accounts, positions and fills\<close>

definition ensure_account :: "risk_shard \<Rightarrow> u32 \<Rightarrow> risk_shard" where
  "ensure_account s user_id = (case rs_accounts s user_id of
     Some _ \<Rightarrow> s | None \<Rightarrow> s\<lparr>rs_accounts := (rs_accounts s)(user_id \<mapsto> account_new user_id 0)\<rparr>)"

definition ensure_position :: "risk_shard \<Rightarrow> u32 \<Rightarrow> u32 \<Rightarrow> risk_shard" where
  "ensure_position s user_id symbol_id = (case rs_positions s (user_id, symbol_id) of
     Some _ \<Rightarrow> s
   | None \<Rightarrow> s\<lparr>rs_positions := (rs_positions s)((user_id, symbol_id) \<mapsto> position_new user_id symbol_id),
       rs_positions_by_user := (rs_positions_by_user s)(user_id \<mapsto>
         set_insert symbol_id (case rs_positions_by_user s user_id of Some syms \<Rightarrow> syms | None \<Rightarrow> []))\<rparr>)"

definition iter_positions_for_user :: "(nat list \<Rightarrow> nat list) \<Rightarrow> risk_shard \<Rightarrow> u32 \<Rightarrow> position list" where
  "iter_positions_for_user it s user_id = (case rs_positions_by_user s user_id of
     None \<Rightarrow> [] | Some symbols \<Rightarrow> List.map_filter (\<lambda>symbol_id. rs_positions s (user_id, symbol_id)) (it symbols))"

definition update_exposure :: "risk_shard \<Rightarrow> u32 \<Rightarrow> u32 \<Rightarrow> risk_shard option" where
  "update_exposure s user_id symbol_id = do {
     pos \<leftarrow> rs_positions s (user_id, symbol_id);
     ex \<leftarrow> (if pos_is_empty pos then remove_user (rs_exposure s) symbol_id user_id
            else add_user (rs_exposure s) symbol_id user_id);
     Some (s\<lparr>rs_exposure := ex\<rparr>)
   }"

section \<open>Prices\<close>

definition process_bbo :: "risk_shard \<Rightarrow> bbo_update \<Rightarrow> risk_shard" where
  "process_bbo s bbo =
     (let sid = bu_symbol_id bbo in
      if sid \<ge> length (rs_index_prices s) then s
      else s\<lparr>rs_index_prices := (rs_index_prices s)[sid := update_from_bbo (rs_index_prices s ! sid) bbo], rs_mark_dirty := True\<rparr>)"

definition update_mark :: "risk_shard \<Rightarrow> u32 \<Rightarrow> i64 \<Rightarrow> risk_shard" where
  "update_mark s symbol_id price =
     (if symbol_id \<ge> length (rs_mark_prices s) then s
      else s\<lparr>rs_mark_prices := (rs_mark_prices s)[symbol_id := price], rs_mark_dirty := True\<rparr>)"

definition stash_bbo :: "risk_shard \<Rightarrow> bbo_update \<Rightarrow> risk_shard" where
  "stash_bbo s bbo =
     (if bu_symbol_id bbo \<ge> length (rs_stashed_bbo s) then s
      else s\<lparr>rs_stashed_bbo := (rs_stashed_bbo s)[bu_symbol_id bbo := Some bbo]\<rparr>)"

definition fallback_at :: "risk_shard \<Rightarrow> nat \<Rightarrow> i64" where
  "fallback_at s i =
     (let v = rs_mark_prices s ! i in
      if v = 0 \<and> i < length (rs_index_prices s) \<and> ix_valid (rs_index_prices s ! i) \<and> ix_price (rs_index_prices s ! i) > 0
      then ix_price (rs_index_prices s ! i) else v)"

definition rebuild_fallback :: "risk_shard \<Rightarrow> risk_shard option" where
  "rebuild_fallback s = do {
     assert_that (length (rs_fallback_mark_prices s) = length (rs_mark_prices s));
     Some (s\<lparr>rs_fallback_mark_prices := map (fallback_at s) [0..<length (rs_mark_prices s)], rs_mark_dirty := False\<rparr>)
   }"

definition fresh_marks :: "risk_shard \<Rightarrow> risk_shard option" where
  "fresh_marks s = (if rs_mark_dirty s then rebuild_fallback s else Some s)"

section \<open>Frozen margin\<close>

definition frozen_for_user :: "(nat list \<Rightarrow> nat list) \<Rightarrow> risk_shard \<Rightarrow> u32 \<Rightarrow> i64" where
  "frozen_for_user it s user_id = (case rs_frozen_by_user s user_id of
     Some per_user \<Rightarrow> foldl sat_add 0 (List.map_filter (map_of per_user) (it (map fst per_user)))
   | None \<Rightarrow> 0)"

definition freeze_order :: "risk_shard \<Rightarrow> u32 \<Rightarrow> u32 \<Rightarrow> u64 \<Rightarrow> u64 \<Rightarrow> i64 \<Rightarrow> risk_shard" where
  "freeze_order s user_id symbol_id order_id_hi order_id_lo amount =
     (let key = order_key order_id_hi order_id_lo in
      s\<lparr>rs_frozen_orders := (rs_frozen_orders s)(key \<mapsto> \<lparr>fz_user_id = user_id, fz_symbol_id = symbol_id, fz_amount = amount\<rparr>),
        rs_frozen_by_user := (rs_frozen_by_user s)(user_id \<mapsto>
          AList.update key amount (case rs_frozen_by_user s user_id of Some m \<Rightarrow> m | None \<Rightarrow> []))\<rparr>)"

definition release_frozen_for_order :: "risk_shard \<Rightarrow> u32 \<Rightarrow> u64 \<Rightarrow> u64 \<Rightarrow> risk_shard" where
  "release_frozen_for_order s user_id order_id_hi order_id_lo =
     (if \<not> user_in_shard s user_id then s
      else
        let key = order_key order_id_hi order_id_lo in
        case rs_frozen_orders s key of
          None \<Rightarrow> s
        | Some entry \<Rightarrow>
            let owner = fz_user_id entry in
            if owner \<noteq> user_id then s
            else
              let s1 = s\<lparr>rs_frozen_orders := (rs_frozen_orders s)(key := None)\<rparr>;
                  s2 = (case rs_frozen_by_user s1 owner of
                          None \<Rightarrow> s1
                        | Some per_user \<Rightarrow>
                            let m = AList.delete key per_user in
                            s1\<lparr>rs_frozen_by_user := (if m = [] then (rs_frozen_by_user s1)(owner := None)
                              else (rs_frozen_by_user s1)(owner \<mapsto> m))\<rparr>)
              in push_persist s2 (PeFrozenRemove user_id order_id_hi order_id_lo))"

definition confirm_freeze :: "risk_shard \<Rightarrow> u32 \<Rightarrow> u64 \<Rightarrow> u64 \<Rightarrow> u32 \<Rightarrow> risk_shard" where
  "confirm_freeze s user_id order_id_hi order_id_lo symbol_id =
     (if \<not> user_in_shard s user_id then s
      else case rs_frozen_orders s (order_key order_id_hi order_id_lo) of
        None \<Rightarrow> s
      | Some fz \<Rightarrow>
          if fz_user_id fz \<noteq> user_id then s
          else push_persist s (PeFrozenInsert \<lparr>fo_user_id = user_id, fo_order_id_hi = order_id_hi, fo_order_id_lo = order_id_lo,
                 fo_symbol_id = symbol_id, fo_amount = fz_amount fz\<rparr>))"

definition replay_freeze_order :: "risk_shard \<Rightarrow> u32 \<Rightarrow> u64 \<Rightarrow> u64 \<Rightarrow> i64 \<Rightarrow> i64 \<Rightarrow> u32 \<Rightarrow> risk_shard option" where
  "replay_freeze_order s user_id order_id_hi order_id_lo price qty symbol_id =
     (let s1 = ensure_account s user_id in
      case params_of (rs_margin s1) symbol_id of
        None \<Rightarrow> Some s1
      | Some params \<Rightarrow> do {
          fee \<leftarrow> index_of (rs_taker_fee_bps s1) symbol_id;
          Some (freeze_order s1 user_id symbol_id order_id_hi order_id_lo (calculate_margin_needed params price qty fee))
        })"

section \<open>The pre-trade check\<close>

definition margin_of :: "(nat list \<Rightarrow> nat list) \<Rightarrow> risk_shard \<Rightarrow> u32 \<Rightarrow> account \<Rightarrow> margin_state" where
  "margin_of it s user_id account =
     calculate (rs_margin s) account (iter_positions_for_user it s user_id) (rs_fallback_mark_prices s) (frozen_for_user it s user_id)"

definition process_order :: "(nat list \<Rightarrow> nat list) \<Rightarrow> risk_shard \<Rightarrow> order_request \<Rightarrow> (risk_shard \<times> order_response) option" where
  "process_order it s order =
     (let rejected = (\<lambda>reason. RspRejected (oq_user_id order) reason (oq_order_id_hi order) (oq_order_id_lo order)) in
      if \<not> user_in_shard s (oq_user_id order) then Some (s, rejected NotInShard)
      else if oq_price order \<le> 0 \<or> oq_qty order \<le> 0 then Some (s, rejected InsufficientMarginReason)
      else do {
        s1 \<leftarrow> fresh_marks (ensure_account s (oq_user_id order));
        account \<leftarrow> rs_accounts s1 (oq_user_id order);
        let frozen = frozen_for_user it s1 (oq_user_id order);
        if needs_liquidation (margin_of it s1 (oq_user_id order) account) \<and> \<not> oq_is_liquidation order
        then Some (s1, rejected UserInLiquidationReason)
        else if oq_symbol_id order \<ge> length (rs_taker_fee_bps s1) then Some (s1, rejected InsufficientMarginReason)
        else case check_order (rs_margin s1) account (iter_positions_for_user it s1 (oq_user_id order)) order
               (rs_fallback_mark_prices s1) (rs_taker_fee_bps s1 ! oq_symbol_id order) frozen of
            Inl reason \<Rightarrow> Some (s1, rejected reason)
          | Inr margin_needed \<Rightarrow>
              let s2 = freeze_order s1 (oq_user_id order) (oq_symbol_id order) (oq_order_id_hi order) (oq_order_id_lo order) margin_needed
              in Some (s2\<lparr>rs_orders_processed := u64_add (rs_orders_processed s2) 1\<rparr>,
                   RspAccepted (oq_user_id order) margin_needed (oq_order_id_hi order) (oq_order_id_lo order))
      })"

section \<open>Liquidation\<close>

definition cancel_step :: "risk_shard \<Rightarrow> u32 \<Rightarrow> u64 \<Rightarrow> (nat \<times> i64) list \<Rightarrow> nat \<Rightarrow> cancel_request option" where
  "cancel_step s user_id now_ns per_user key = (case (map_of per_user key, rs_frozen_orders s key) of
     (Some amount, Some fz) \<Rightarrow>
       if amount = 0 then None
       else Some \<lparr>cr_ts_ns = now_ns, cr_user_id = user_id, cr_symbol_id = fz_symbol_id fz,
              cr_order_id_hi = key div 18446744073709551616, cr_order_id_lo = key mod 18446744073709551616\<rparr>
   | _ \<Rightarrow> None)"

definition queue_cancels :: "(nat list \<Rightarrow> nat list) \<Rightarrow> risk_shard \<Rightarrow> u32 \<Rightarrow> u64 \<Rightarrow> risk_shard" where
  "queue_cancels it s user_id now_ns = (case rs_frozen_by_user s user_id of
     None \<Rightarrow> s
   | Some per_user \<Rightarrow>
       s\<lparr>rs_pending_cancels := rs_pending_cancels s @ List.map_filter (cancel_step s user_id now_ns per_user) (it (map fst per_user))\<rparr>)"

definition liquidation_step :: "risk_shard \<Rightarrow> u32 \<Rightarrow> u64 \<Rightarrow> bool \<Rightarrow> liquidation_engine \<times> bool \<Rightarrow> u32 \<Rightarrow> liquidation_engine \<times> bool" where
  "liquidation_step s user_id now_ns needs_liq acc sid = (case acc of (e, entered) \<Rightarrow>
     (case rs_positions s (user_id, sid) of
        None \<Rightarrow> acc
      | Some p \<Rightarrow>
          if pos_is_empty p then acc
          else if needs_liq then (let (e1, started) = enqueue e user_id sid now_ns in (e1, entered \<or> started))
          else (cancel_if_recovered e user_id sid, entered)))"

definition check_liquidation_for :: "(nat list \<Rightarrow> nat list) \<Rightarrow> risk_shard \<Rightarrow> u32 \<Rightarrow> u64 \<Rightarrow> risk_shard option" where
  "check_liquidation_for it s user_id now_ns =
     (if \<not> user_in_shard s user_id then Some s
      else do {
        s1 \<leftarrow> fresh_marks s;
        case rs_accounts s1 user_id of
          None \<Rightarrow> Some s1
        | Some account \<Rightarrow>
            let needs_liq = needs_liquidation (margin_of it s1 user_id account) in
            case rs_positions_by_user s1 user_id of
              None \<Rightarrow> Some s1
            | Some syms \<Rightarrow>
                let (e, entered) = foldl (liquidation_step s1 user_id now_ns needs_liq) (rs_liquidation s1, False) (it syms);
                    s2 = s1\<lparr>rs_liquidation := e\<rparr>
                in Some (if entered then queue_cancels it s2 user_id now_ns else s2)
      })"

definition liq_to_order :: "risk_shard \<Rightarrow> liquidation_order \<Rightarrow> u64 \<Rightarrow> u64 \<times> u64 \<Rightarrow> order_request" where
  "liq_to_order s liq now_ns fresh_id =
     (let tick = (if lo_symbol_id liq < length (rs_tick_size s) then rs_tick_size s ! lo_symbol_id liq else 0) in
      \<lparr>oq_user_id = lo_user_id liq, oq_symbol_id = lo_symbol_id liq, oq_price = round_to_tick (lo_price liq) tick (lo_side liq),
       oq_qty = lo_qty liq, oq_order_id_hi = fst fresh_id, oq_order_id_lo = snd fresh_id, oq_timestamp_ns = now_ns,
       oq_side = lo_side liq, oq_tif = 1, oq_reduce_only = True, oq_post_only = False, oq_is_liquidation = True\<rparr>)"

section \<open>Fills\<close>

text \<open>The part of \<open>process_fill\<close> that applies one side of the fill, and the part that persists it.\<close>

definition fill_side :: "risk_shard \<Rightarrow> u32 \<Rightarrow> u32 \<Rightarrow> u8 \<Rightarrow> i64 \<Rightarrow> i64 \<Rightarrow> u64 \<Rightarrow> i64 \<Rightarrow> risk_shard option" where
  "fill_side s user_id symbol_id sd price qty seq fee =
     (if \<not> user_in_shard s user_id then Some s
      else do {
        let s1 = ensure_position (ensure_account s user_id) user_id symbol_id;
        pos \<leftarrow> rs_positions s1 (user_id, symbol_id);
        let s2 = s1\<lparr>rs_positions := (rs_positions s1)((user_id, symbol_id) \<mapsto> apply_fill pos sd price qty seq)\<rparr>;
        acct \<leftarrow> rs_accounts s2 user_id;
        let s3 = s2\<lparr>rs_accounts := (rs_accounts s2)(user_id \<mapsto> deduct_fee acct fee)\<rparr>;
        update_exposure s3 user_id symbol_id
      })"

definition persist_side :: "risk_shard \<Rightarrow> u32 \<Rightarrow> u32 \<Rightarrow> risk_shard" where
  "persist_side s user_id symbol_id =
     (let s1 = (case rs_positions s (user_id, symbol_id) of Some p \<Rightarrow> push_persist s (PePosition p) | None \<Rightarrow> s)
      in case rs_accounts s1 user_id of Some a \<Rightarrow> push_persist s1 (PeAccount a) | None \<Rightarrow> s1)"

definition process_fill :: "(nat list \<Rightarrow> nat list) \<Rightarrow> risk_shard \<Rightarrow> fill_event \<Rightarrow> risk_shard option" where
  "process_fill it s fill =
     (let sid = fe_symbol_id fill in
      if sid \<ge> length (rs_tips s) then Some s
      else if fe_seq fill \<le> rs_tips s ! sid then Some s
      else do {
        taker_bps \<leftarrow> index_of (rs_taker_fee_bps s) sid;
        let taker_fee_val = calculate_fee (fe_qty fill) (fe_price fill) taker_bps;
        maker_bps \<leftarrow> index_of (rs_maker_fee_bps s) sid;
        let maker_fee_val = calculate_fee (fe_qty fill) (fe_price fill) maker_bps;
        let maker_side = (if fe_taker_side fill = 0 then 1 else 0);
        s1 \<leftarrow> fill_side s (fe_taker_user_id fill) sid (fe_taker_side fill) (fe_price fill) (fe_qty fill) (fe_seq fill) taker_fee_val;
        s2 \<leftarrow> fill_side s1 (fe_maker_user_id fill) sid maker_side (fe_price fill) (fe_qty fill) (fe_seq fill) maker_fee_val;
        let s3 = s2\<lparr>rs_tips := (rs_tips s2)[sid := fe_seq fill], rs_fills_processed := u64_add (rs_fills_processed s2) 1\<rparr>;
        s4 \<leftarrow> check_liquidation_for it s3 (fe_taker_user_id fill) (fe_timestamp_ns fill);
        s5 \<leftarrow> check_liquidation_for it s4 (fe_maker_user_id fill) (fe_timestamp_ns fill);
        let s6 = (if user_in_shard s5 (fe_taker_user_id fill)
          then persist_side (push_persist s5 (PeFill \<lparr>pf_symbol_id = sid, pf_taker_user_id = fe_taker_user_id fill,
            pf_maker_user_id = fe_maker_user_id fill, pf_price = fe_price fill, pf_qty = fe_qty fill, pf_taker_fee = taker_fee_val,
            pf_maker_fee = maker_fee_val, pf_taker_side = fe_taker_side fill, pf_seq = fe_seq fill,
            pf_timestamp_ns = fe_timestamp_ns fill\<rparr>)) (fe_taker_user_id fill) sid
          else s5);
        let s7 = (if user_in_shard s6 (fe_maker_user_id fill) then persist_side s6 (fe_maker_user_id fill) sid else s6);
        Some (push_persist s7 (PeTip sid (fe_seq fill)))
      })"

end
