(* ===== verification/Risk_Tick.thy ===== *)
theory Risk_Tick
  imports Risk_Shard
begin

text \<open>
  The rest of the shard: configuration (\<open>config.rs\<close>), cold start (\<open>shard.rs\<close>, \<open>set_state\<close>), the margin scan on a best-bid-offer update
  (\<open>price.rs\<close>), funding settlement (\<open>funding.rs\<close>), socialised losses (\<open>insurance.rs\<close>), the replay of the matching engine's log
  (\<open>replay.rs\<close>) and the periodic \<open>tick\<close> (\<open>shard.rs\<close>). The egress rings are bounded lists; order ids for liquidation orders are an argument,
  the \<open>n\<close>-th id drawn in a tick being \<open>fresh_ids n\<close>.
\<close>

section \<open>Configuration\<close>

datatype config_error =
    NotPositive i64 | OutsideInt4 i64 | MaintenanceNotBelowInitial i64 i64 | LeverageTooLow i64
  | FundingIntervalFixed u64 u64 | ScheduledTooEarly u64 u64 | MinNotionalNull | WrongDecimals int
  | FundingIntervalNotPositive i64 | FundingBoundsCrossed i64 i64

datatype config_field =
    TickSize | LotSize | MinNotional | MaxOrderQty | MakerFeeBps | TakerFeeBps | InitialMarginRateBps | MaintenanceMarginRateBps
  | MaxLeverage | FundingIntervalSec | FundingRateMinBps | FundingRateMaxBps

definition config_fields :: "config_field list" where
  "config_fields = [TickSize, LotSize, MinNotional, MaxOrderQty, MakerFeeBps, TakerFeeBps, InitialMarginRateBps, MaintenanceMarginRateBps,
     MaxLeverage, FundingIntervalSec, FundingRateMinBps, FundingRateMaxBps]"

fun column :: "config_field \<Rightarrow> string" where
  "column TickSize = ''tick_size''"
| "column LotSize = ''lot_size''"
| "column MinNotional = ''min_notional''"
| "column MaxOrderQty = ''max_order_qty''"
| "column MakerFeeBps = ''maker_fee_bps''"
| "column TakerFeeBps = ''taker_fee_bps''"
| "column InitialMarginRateBps = ''initial_margin_rate_bps''"
| "column MaintenanceMarginRateBps = ''maintenance_margin_rate_bps''"
| "column MaxLeverage = ''max_leverage''"
| "column FundingIntervalSec = ''funding_interval_sec''"
| "column FundingRateMinBps = ''funding_rate_min_bps''"
| "column FundingRateMaxBps = ''funding_rate_max_bps''"

definition from_column :: "string \<Rightarrow> config_field option" where
  "from_column name = List.find (\<lambda>field. column field = name) config_fields"

fun is_int4 :: "config_field \<Rightarrow> bool" where
  "is_int4 TickSize = False"
| "is_int4 LotSize = False"
| "is_int4 MinNotional = False"
| "is_int4 MaxOrderQty = False"
| "is_int4 _ = True"

fun is_positive :: "config_field \<Rightarrow> bool" where
  "is_positive MakerFeeBps = False"
| "is_positive TakerFeeBps = False"
| "is_positive FundingRateMinBps = False"
| "is_positive FundingRateMaxBps = False"
| "is_positive _ = True"

definition checked_config_value :: "config_field \<Rightarrow> i64 \<Rightarrow> config_error + unit" where
  "checked_config_value field v =
     (if is_positive field \<and> v \<le> 0 then Inl (NotPositive v)
      else if is_int4 field \<and> \<not> (- 2147483648 \<le> v \<and> v \<le> 2147483647) then Inl (OutsideInt4 v)
      else Inr ())"

definition checked_margin_rules :: "symbol_risk_config \<Rightarrow> config_error + unit" where
  "checked_margin_rules config =
     (let params = sc_params config in
      if rp_maintenance_margin_rate params \<ge> rp_initial_margin_rate params
      then Inl (MaintenanceNotBelowInitial (rp_maintenance_margin_rate params) (rp_initial_margin_rate params))
      else if rp_max_leverage params < 1 then Inl (LeverageTooLow (rp_max_leverage params))
      else Inr ())"

definition checked_funding_interval :: "u64 \<Rightarrow> u64 \<Rightarrow> config_error + unit" where
  "checked_funding_interval current requested =
     (if current \<noteq> 0 \<and> requested \<noteq> current then Inl (FundingIntervalFixed current requested) else Inr ())"

definition checked_schedule_time :: "u64 \<Rightarrow> u64 \<Rightarrow> config_error + unit" where
  "checked_schedule_time pending_effective_at_ms effective_at_ms =
     (if effective_at_ms < pending_effective_at_ms then Inl (ScheduledTooEarly pending_effective_at_ms effective_at_ms) else Inr ())"

definition checked_min_notional :: "i64 option \<Rightarrow> config_error + i64" where
  "checked_min_notional v = (case v of
     Some min_notional \<Rightarrow> if min_notional > 0 then Inr min_notional else Inl (NotPositive min_notional)
   | None \<Rightarrow> Inl MinNotionalNull)"

definition NOTIONAL_DECIMALS :: int where "NOTIONAL_DECIMALS = 10"

definition checked_notional_decimals :: "int \<Rightarrow> int \<Rightarrow> config_error + unit" where
  "checked_notional_decimals price_decimals qty_decimals =
     (let s = price_decimals + qty_decimals in if s = NOTIONAL_DECIMALS then Inr () else Inl (WrongDecimals s))"

definition checked_funding :: "i64 \<Rightarrow> i64 \<Rightarrow> i64 \<Rightarrow> config_error + unit" where
  "checked_funding interval_secs min_bps max_bps =
     (if interval_secs \<le> 0 then Inl (FundingIntervalNotPositive interval_secs)
      else if min_bps > max_bps then Inl (FundingBoundsCrossed min_bps max_bps)
      else Inr ())"

definition apply_symbol_config :: "risk_shard \<Rightarrow> symbol_risk_config \<Rightarrow> risk_shard option" where
  "apply_symbol_config s config =
     (let sid = sc_symbol_id config in
      if sid \<ge> length (rs_config_versions s) then Some s
      else do {
        applied_interval \<leftarrow> index_of (rs_funding_interval_secs s) sid;
        case checked_funding_interval applied_interval (sc_funding_interval_secs config) of
          Inl _ \<Rightarrow> Some s
        | Inr _ \<Rightarrow> do {
            params \<leftarrow> store_at (rs_margin s) sid (Some (sc_params config));
            taker \<leftarrow> store_at (rs_taker_fee_bps s) sid (sc_taker_fee_bps config);
            maker \<leftarrow> store_at (rs_maker_fee_bps s) sid (sc_maker_fee_bps config);
            tick \<leftarrow> store_at (rs_tick_size s) sid (sc_tick_size config);
            intervals \<leftarrow> store_at (rs_funding_interval_secs s) sid (sc_funding_interval_secs config);
            mins \<leftarrow> store_at (rs_funding_min_bps s) sid (sc_funding_min_bps config);
            maxs \<leftarrow> store_at (rs_funding_max_bps s) sid (sc_funding_max_bps config);
            versions \<leftarrow> store_at (rs_config_versions s) sid (sc_config_version config);
            Some (s\<lparr>rs_margin := params, rs_taker_fee_bps := taker, rs_maker_fee_bps := maker, rs_tick_size := tick,
                    rs_funding_interval_secs := intervals, rs_funding_min_bps := mins, rs_funding_max_bps := maxs,
                    rs_config_versions := versions\<rparr>)
          }
      })"

definition process_config_applied :: "risk_shard \<Rightarrow> u32 \<Rightarrow> u64 \<Rightarrow> risk_shard" where
  "process_config_applied s symbol_id config_version =
     (if symbol_id \<ge> length (rs_config_versions s) then s
      else if config_version \<le> rs_config_versions s ! symbol_id then s
      else push_persist s (PeConfigReload symbol_id config_version))"

fun apply_configs :: "symbol_risk_config list \<Rightarrow> risk_shard \<Rightarrow> risk_shard option" where
  "apply_configs [] s = Some s"
| "apply_configs (c # cs) s = do { s' \<leftarrow> apply_symbol_config s c; apply_configs cs s' }"

definition drain_config_updates :: "risk_shard \<Rightarrow> risk_shard option" where
  "drain_config_updates s = (case rs_config_updates s of
     None \<Rightarrow> Some s
   | Some updates \<Rightarrow> do {
       s' \<leftarrow> apply_configs updates (s\<lparr>rs_config_updates := None\<rparr>);
       Some (s'\<lparr>rs_config_updates := Some []\<rparr>)
     })"

section \<open>Cold start\<close>

text \<open>The loaded tables, each as the list of its rows in the order the hash map yields them.\<close>

record cold_start_state =
  cs_accounts :: "u32 \<rightharpoonup> account"
  cs_positions :: "((u32 \<times> u32) \<times> position) list"
  cs_tips :: "u64 list"
  cs_insurance_funds :: "u32 \<rightharpoonup> insurance_fund"
  cs_frozen_orders :: "(nat \<times> freeze) list"
  cs_funding_settled :: "u64 option list"

definition index_position :: "(u32 \<rightharpoonup> u32 list) \<Rightarrow> (u32 \<times> u32) \<times> position \<Rightarrow> (u32 \<rightharpoonup> u32 list)" where
  "index_position m row = (case row of ((user_id, symbol_id), _) \<Rightarrow>
     m(user_id \<mapsto> set_insert symbol_id (case m user_id of Some syms \<Rightarrow> syms | None \<Rightarrow> [])))"

definition index_freeze :: "(u32 \<rightharpoonup> (nat \<times> i64) list) \<Rightarrow> nat \<times> freeze \<Rightarrow> (u32 \<rightharpoonup> (nat \<times> i64) list)" where
  "index_freeze m row = (case row of (order_id, fz) \<Rightarrow>
     m(fz_user_id fz \<mapsto> AList.update order_id (fz_amount fz) (case m (fz_user_id fz) of Some per_user \<Rightarrow> per_user | None \<Rightarrow> [])))"

fun index_exposure :: "usize \<Rightarrow> ((u32 \<times> u32) \<times> position) list \<Rightarrow> exposure_index \<Rightarrow> exposure_index option" where
  "index_exposure max_symbols [] ex = Some ex"
| "index_exposure max_symbols (((user_id, symbol_id), position) # rows) ex =
     (if \<not> pos_is_empty position \<and> symbol_id < max_symbols
      then do { ex' \<leftarrow> add_user ex symbol_id user_id; index_exposure max_symbols rows ex' }
      else index_exposure max_symbols rows ex)"

definition overlay :: "'a list \<Rightarrow> 'a list \<Rightarrow> 'a list" where
  "overlay xs ys = take (min (length xs) (length ys)) ys @ drop (min (length xs) (length ys)) xs"

definition set_state :: "risk_shard \<Rightarrow> cold_start_state \<Rightarrow> risk_shard option" where
  "set_state s state = do {
     ex \<leftarrow> index_exposure (rs_max_symbols s) (cs_positions state) (exposure_new (rs_max_symbols s));
     Some (s\<lparr>rs_accounts := cs_accounts state, rs_positions := map_of (cs_positions state),
             rs_insurance_funds := cs_insurance_funds state, rs_frozen_orders := map_of (cs_frozen_orders state),
             rs_positions_by_user := foldl index_position Map.empty (cs_positions state),
             rs_frozen_by_user := foldl index_freeze Map.empty (cs_frozen_orders state),
             rs_exposure := ex,
             rs_funding_settled := overlay (rs_funding_settled s) (cs_funding_settled state),
             rs_tips := overlay (rs_tips s) (cs_tips state)\<rparr>)
   }"

section \<open>The margin scan\<close>

text \<open>The user at each index is read again before each check, as the code does.\<close>

fun scan_users :: "(nat list \<Rightarrow> nat list) \<Rightarrow> usize \<Rightarrow> u64 \<Rightarrow> nat list \<Rightarrow> risk_shard \<Rightarrow> risk_shard option" where
  "scan_users it sid now_ns [] s = Some s"
| "scan_users it sid now_ns (i # is) s = do {
     users \<leftarrow> users_for_symbol (rs_exposure s) sid;
     user_id \<leftarrow> index_of users i;
     s' \<leftarrow> check_liquidation_for it s user_id now_ns;
     scan_users it sid now_ns is s'
   }"

fun drain_bbos :: "(nat list \<Rightarrow> nat list) \<Rightarrow> u64 \<Rightarrow> nat list \<Rightarrow> risk_shard \<Rightarrow> risk_shard option" where
  "drain_bbos it now_ns [] s = Some s"
| "drain_bbos it now_ns (sid # sids) s = do {
     stashed \<leftarrow> index_of (rs_stashed_bbo s) sid;
     case stashed of
       None \<Rightarrow> drain_bbos it now_ns sids s
     | Some bbo \<Rightarrow> do {
         let s1 = process_bbo (s\<lparr>rs_stashed_bbo := (rs_stashed_bbo s)[sid := None]\<rparr>) bbo;
         users \<leftarrow> users_for_symbol (rs_exposure s1) sid;
         s2 \<leftarrow> scan_users it sid now_ns [0..<length users] s1;
         drain_bbos it now_ns sids s2
       }
   }"

definition drain_stashed_bbos :: "(nat list \<Rightarrow> nat list) \<Rightarrow> risk_shard \<Rightarrow> u64 \<Rightarrow> risk_shard option" where
  "drain_stashed_bbos it s now_ns = drain_bbos it now_ns [0..<rs_max_symbols s] s"

section \<open>Funding\<close>

fun charge :: "u32 \<Rightarrow> u64 \<Rightarrow> i64 \<Rightarrow> u64 \<Rightarrow> ((u32 \<times> i64) \<times> i64) list \<Rightarrow> risk_shard \<Rightarrow> risk_shard \<times> funding_record list \<times> account list" where
  "charge sid iid rate now_secs [] s = (s, [], [])"
| "charge sid iid rate now_secs (((user_id, net), amount) # rest) s =
     (let s1 = ensure_account s user_id;
          r = \<lparr>fr_user_id = user_id, fr_symbol_id = sid, fr_interval_id = iid, fr_amount = amount, fr_rate = rate, fr_settlement_ts = now_secs\<rparr>
      in case rs_accounts s1 user_id of
           None \<Rightarrow> (let (s2, rs, as) = charge sid iid rate now_secs rest s1 in (s2, r # rs, as))
         | Some account \<Rightarrow>
             let a = deduct_fee account amount;
                 (s2, rs, as) = charge sid iid rate now_secs rest (s1\<lparr>rs_accounts := (rs_accounts s1)(user_id \<mapsto> a)\<rparr>)
             in (s2, r # rs, a # as))"

definition exposed_users :: "risk_shard \<Rightarrow> nat \<Rightarrow> u32 list \<Rightarrow> (u32 \<times> i64) list" where
  "exposed_users s sid users =
     sort_key fst (List.map_filter (\<lambda>u. map_option (\<lambda>p. (u, pos_net_qty p)) (rs_positions s (u, sid))) users)"

definition try_settle_interval :: "risk_shard \<Rightarrow> nat \<Rightarrow> u64 \<Rightarrow> u64 \<Rightarrow> (risk_shard \<times> bool) option" where
  "try_settle_interval s sid iid now_secs = do {
     users \<leftarrow> users_for_symbol (rs_exposure s) sid;
     let exposed = exposed_users s sid users;
     mark \<leftarrow> index_of (rs_mark_prices s) sid;
     ix \<leftarrow> index_of (rs_index_prices s) sid;
     let index = ix_price ix;
     let is_priced = (mark \<noteq> 0 \<and> index \<noteq> 0);
     let has_exposure = list_ex (\<lambda>(_, net_qty). net_qty \<noteq> 0) exposed;
     if has_exposure \<and> \<not> is_priced then Some (s, False)
     else do {
       rate \<leftarrow> (if is_priced then do {
           min_bps \<leftarrow> index_of (rs_funding_min_bps s) sid;
           max_bps \<leftarrow> index_of (rs_funding_max_bps s) sid;
           calculate_rate mark index min_bps max_bps
         } else Some 0);
       let amounts = settle_symbol (map snd exposed) mark rate;
       let (s1, payments, accounts) = charge sid iid rate now_secs (zip exposed amounts) s;
       let s2 = push_persist s1 (PeFundingSettlement \<lparr>fs_symbol_id = sid, fs_interval_id = iid, fs_payments = payments, fs_accounts = accounts\<rparr>);
       settled \<leftarrow> store_at (rs_funding_settled s2) sid (Some iid);
       Some (s2\<lparr>rs_funding_settled := settled\<rparr>, True)
     }
   }"

fun settle_ids :: "nat \<Rightarrow> u64 \<Rightarrow> u64 list \<Rightarrow> risk_shard \<Rightarrow> (risk_shard \<times> bool) option" where
  "settle_ids sid now_secs [] s = Some (s, False)"
| "settle_ids sid now_secs (iid # iids) s = do {
     (s', settled) \<leftarrow> try_settle_interval s sid iid now_secs;
     if \<not> settled then Some (s', True) else settle_ids sid now_secs iids s'
   }"

fun settle_symbols :: "u64 \<Rightarrow> nat list \<Rightarrow> risk_shard \<Rightarrow> bool \<Rightarrow> (risk_shard \<times> bool) option" where
  "settle_symbols now_secs [] s waiting = Some (s, waiting)"
| "settle_symbols now_secs (sid # sids) s waiting =
     (case params_of (rs_margin s) sid of
        None \<Rightarrow> settle_symbols now_secs sids s waiting
      | Some _ \<Rightarrow> do {
          interval_secs \<leftarrow> index_of (rs_funding_interval_secs s) sid;
          let current_id = interval_id now_secs interval_secs;
          settled \<leftarrow> index_of (rs_funding_settled s) sid;
          if (case settled of Some last_id \<Rightarrow> \<not> is_settlement_due last_id now_secs interval_secs | None \<Rightarrow> False)
          then settle_symbols now_secs sids s waiting
          else do {
            let first_id = (case settled of None \<Rightarrow> current_id | Some last_id \<Rightarrow> u64_add last_id 1);
            (s', stalled) \<leftarrow> settle_ids sid now_secs [first_id..<Suc current_id] s;
            settle_symbols now_secs sids s' (waiting \<or> stalled)
          }
        })"

definition maybe_settle_funding :: "risk_shard \<Rightarrow> u64 \<Rightarrow> risk_shard option" where
  "maybe_settle_funding s now_secs =
     (if now_secs = rs_funding_checked_secs s then Some s
      else do {
        let s1 = s\<lparr>rs_funding_checked_secs := now_secs\<rparr>;
        (s2, waiting) \<leftarrow> settle_symbols now_secs [0..<rs_max_symbols s1] s1 False;
        Some (s2\<lparr>rs_funding_stalled := waiting\<rparr>)
      })"

text \<open>What \<open>follow_funding\<close> does with the settled intervals and the payments it read from the database.\<close>

definition follow_payment :: "risk_shard \<Rightarrow> u32 \<times> i64 \<Rightarrow> risk_shard" where
  "follow_payment s payment = (case payment of (user_id, amount) \<Rightarrow>
     let s1 = ensure_account s user_id in
     case rs_accounts s1 user_id of
       None \<Rightarrow> s1 | Some account \<Rightarrow> s1\<lparr>rs_accounts := (rs_accounts s1)(user_id \<mapsto> deduct_fee account amount)\<rparr>)"

fun follow_intervals :: "nat \<Rightarrow> u64 option list \<Rightarrow> risk_shard \<Rightarrow> risk_shard option" where
  "follow_intervals sid [] s = Some s"
| "follow_intervals sid (None # rest) s = follow_intervals (Suc sid) rest s"
| "follow_intervals sid (Some iid # rest) s = do {
     settled \<leftarrow> store_at (rs_funding_settled s) sid (Some iid);
     follow_intervals (Suc sid) rest (s\<lparr>rs_funding_settled := settled\<rparr>)
   }"

definition follow_funding :: "risk_shard \<Rightarrow> u64 option list \<Rightarrow> (u32 \<times> i64) list \<Rightarrow> risk_shard option" where
  "follow_funding s settled payments = follow_intervals 0 settled (foldl follow_payment s payments)"

section \<open>Socialised losses\<close>

definition insurance_fund_new :: "u32 \<Rightarrow> i64 \<Rightarrow> insurance_fund" where
  "insurance_fund_new symbol_id initial_balance = \<lparr>if_symbol_id = symbol_id, if_balance = initial_balance, if_version = 0\<rparr>"

definition deduct :: "insurance_fund \<Rightarrow> i64 \<Rightarrow> insurance_fund" where
  "deduct f amount = f\<lparr>if_balance := sat_sub (if_balance f) amount, if_version := u64_add (if_version f) 1\<rparr>"

definition add_funds :: "insurance_fund \<Rightarrow> i64 \<Rightarrow> insurance_fund" where
  "add_funds f amount = f\<lparr>if_balance := sat_add (if_balance f) amount, if_version := u64_add (if_version f) 1\<rparr>"

definition process_socialized_loss ::
  "(nat list \<Rightarrow> nat list) \<Rightarrow> risk_shard \<Rightarrow> socialized_loss \<Rightarrow> u64 \<Rightarrow> risk_shard \<times> order_response option" where
  "process_socialized_loss it s loss now_ns = (case rs_accounts s (sl_user_id loss) of
     None \<Rightarrow> (s, None)
   | Some account \<Rightarrow>
       let equity = ms_equity (margin_of it s (sl_user_id loss) account) in
       if equity \<ge> 0 then (s, None)
       else
         let deficit = sat_neg equity;
             fund = deduct (case rs_insurance_funds s (sl_symbol_id loss) of
               Some f \<Rightarrow> f | None \<Rightarrow> insurance_fund_new (sl_symbol_id loss) 0) deficit;
             account' = credit account deficit;
             s1 = s\<lparr>rs_insurance_funds := (rs_insurance_funds s)(sl_symbol_id loss \<mapsto> fund),
                    rs_accounts := (rs_accounts s)(sl_user_id loss \<mapsto> account')\<rparr>;
             s2 = push_persist s1 (PeAccount account');
             s3 = push_persist s2 (PeLiquidation \<lparr>lr_user_id = sl_user_id loss, lr_symbol_id = sl_symbol_id loss, lr_round = sl_round loss,
               lr_side = sl_side loss, lr_price = sl_price loss, lr_qty = sl_qty loss, lr_slippage_bps = 0,
               lr_status = LIQUIDATION_SOCIALIZED, lr_timestamp_ns = now_ns\<rparr>);
             s4 = push_persist s3 (PeInsuranceFund fund)
         in (s4, Some (RspLiquidation (sl_user_id loss) (sl_symbol_id loss) LIQUIDATION_SOCIALIZED (sl_round loss) (sl_side loss)
              (sl_qty loss) (sl_price loss) 0)))"

section \<open>The tick\<close>

record shard_rings =
  sr_response :: "order_response list"
  sr_response_capacity :: nat
  sr_me :: "me_command list"
  sr_me_capacity :: nat

definition me_full :: "shard_rings \<Rightarrow> bool" where "me_full r \<longleftrightarrow> length (sr_me r) \<ge> sr_me_capacity r"
definition response_full :: "shard_rings \<Rightarrow> bool" where "response_full r \<longleftrightarrow> length (sr_response r) \<ge> sr_response_capacity r"

text \<open>A push onto a full ring fails; where the code expects it not to, that is a panic.\<close>

definition push_me :: "shard_rings \<Rightarrow> me_command \<Rightarrow> shard_rings option" where
  "push_me r c = (if me_full r then None else Some (r\<lparr>sr_me := sr_me r @ [c]\<rparr>))"

definition push_response :: "shard_rings \<Rightarrow> order_response \<Rightarrow> shard_rings option" where
  "push_response r x = (if response_full r then None else Some (r\<lparr>sr_response := sr_response r @ [x]\<rparr>))"

fun drain_cancels :: "cancel_request list \<Rightarrow> risk_shard \<Rightarrow> shard_rings \<Rightarrow> cancel_request list \<times> shard_rings" where
  "drain_cancels [] s r = ([], r)"
| "drain_cancels (c # cs) s r =
     (if me_full r then (c # cs, r)
      else if rs_frozen_orders s (order_key (cr_order_id_hi c) (cr_order_id_lo c)) = None then drain_cancels cs s r
      else drain_cancels cs s (r\<lparr>sr_me := sr_me r @ [MeCancel c]\<rparr>))"

definition drain_pending_cancels :: "risk_shard \<Rightarrow> shard_rings \<Rightarrow> risk_shard \<times> shard_rings" where
  "drain_pending_cancels s r = (let (left, r') = drain_cancels (rs_pending_cancels s) s r in (s\<lparr>rs_pending_cancels := left\<rparr>, r'))"

text \<open>The loop over liquidation orders; the flag says whether it ended early because a ring filled up.\<close>

fun place_liquidations :: "(nat list \<Rightarrow> nat list) \<Rightarrow> (nat \<Rightarrow> u64 \<times> u64) \<Rightarrow> u64 \<Rightarrow> nat \<Rightarrow> liquidation_order list \<Rightarrow> risk_shard \<Rightarrow> shard_rings \<Rightarrow>
    (risk_shard \<times> shard_rings \<times> bool) option" where
  "place_liquidations it fresh_ids now_ns n [] s r = Some (s, r, False)"
| "place_liquidations it fresh_ids now_ns n (liq # liqs) s r =
     (if me_full r \<or> response_full r then Some (s\<lparr>rs_backpressured := True\<rparr>, r, True)
      else do {
        let order = liq_to_order s liq now_ns (fresh_ids n);
        (s1, resp) \<leftarrow> process_order it s order;
        r1 \<leftarrow> (case resp of
          RspAccepted _ _ _ _ \<Rightarrow> do {
            r1 \<leftarrow> push_me r (MeOrder order now_ns);
            push_response r1 (RspLiquidation (lo_user_id liq) (lo_symbol_id liq) LIQUIDATION_PLACED (lo_round liq) (lo_side liq) (lo_qty liq)
              (oq_price order) (lo_slip_bps liq))
          }
        | _ \<Rightarrow> Some r);
        place_liquidations it fresh_ids now_ns (Suc n) liqs s1 r1
      })"

fun socialize :: "(nat list \<Rightarrow> nat list) \<Rightarrow> u64 \<Rightarrow> socialized_loss list \<Rightarrow> risk_shard \<Rightarrow> shard_rings \<Rightarrow> risk_shard \<times> shard_rings" where
  "socialize it now_ns [] s r = (s, r)"
| "socialize it now_ns (loss # losses) s r =
     (case process_socialized_loss it s loss now_ns of
        (s1, None) \<Rightarrow> socialize it now_ns losses s1 r
      | (s1, Some notice) \<Rightarrow>
          (case push_response r notice of None \<Rightarrow> socialize it now_ns losses s1 r | Some r1 \<Rightarrow> socialize it now_ns losses s1 r1))"

definition tick :: "(nat list \<Rightarrow> nat list) \<Rightarrow> (nat \<Rightarrow> u64 \<times> u64) \<Rightarrow> risk_shard \<Rightarrow> shard_rings \<Rightarrow> u64 \<Rightarrow> (risk_shard \<times> shard_rings) option" where
  "tick it fresh_ids s rings now_secs = do {
     s0 \<leftarrow> drain_config_updates s;
     if me_full rings \<or> response_full rings then Some (s0\<lparr>rs_backpressured := True\<rparr>, rings)
     else do {
       let (s1, r1) = drain_pending_cancels (s0\<lparr>rs_backpressured := False\<rparr>) rings;
       let now_ns = (now_secs * 1000000000) mod 18446744073709551616;
       s2 \<leftarrow> fresh_marks s1;
       let (e, liq_orders, losses) = maybe_process (rs_liquidation s2) now_ns
         (\<lambda>uid sid. case rs_positions s2 (uid, sid) of Some p \<Rightarrow> pos_net_qty p | None \<Rightarrow> 0)
         (\<lambda>sid. if sid < length (rs_fallback_mark_prices s2) then rs_fallback_mark_prices s2 ! sid else 0);
       (s3, r3, stopped) \<leftarrow> place_liquidations it fresh_ids now_ns 0 liq_orders (s2\<lparr>rs_liquidation := e\<rparr>) r1;
       if stopped then Some (s3, r3)
       else do {
         let (s4, r4) = socialize it now_ns losses s3 r3;
         let s5 = s4\<lparr>rs_liquidation := remove_done (rs_liquidation s4)\<rparr>;
         s6 \<leftarrow> drain_stashed_bbos it s5 now_ns;
         s7 \<leftarrow> maybe_settle_funding s6 now_secs;
         Some (s7, r4)
       }
     }
   }"

section \<open>Replay\<close>

text \<open>The decoded records \<open>apply_record\<close> acts on; any other record type leaves the shard alone.\<close>

datatype me_record =
    RecFill fill_event
  | RecOrderDone u32 u64 u64
  | RecOrderFailed u32 u64 u64
  | RecOrderAccepted u32 u64 u64 i64 i64 u32 u8
  | RecBbo bbo_update
  | RecConfigApplied u32 u64
  | RecOther

fun apply_record :: "(nat list \<Rightarrow> nat list) \<Rightarrow> risk_shard \<Rightarrow> me_record \<Rightarrow> (risk_shard \<times> bool) option" where
  "apply_record it s (RecFill fill) = do { s' \<leftarrow> process_fill it s fill; Some (s', True) }"
| "apply_record it s (RecOrderDone user_id hi lo) = Some (release_frozen_for_order s user_id hi lo, False)"
| "apply_record it s (RecOrderFailed user_id hi lo) = Some (release_frozen_for_order s user_id hi lo, False)"
| "apply_record it s (RecOrderAccepted user_id hi lo price qty symbol_id reduce_only) =
     (if user_in_shard s user_id \<and> reduce_only = 0
      then do { s' \<leftarrow> replay_freeze_order s user_id hi lo price qty symbol_id; Some (s', False) }
      else Some (s, False))"
| "apply_record it s (RecBbo bbo) = Some (process_bbo s bbo, False)"
| "apply_record it s (RecConfigApplied symbol_id config_version) = Some (process_config_applied s symbol_id config_version, False)"
| "apply_record it s RecOther = Some (s, False)"

end
