(* ===== verification/Risk_Inv.thy ===== *)
theory Risk_Inv
  imports Risk_Tick
begin

text \<open>
  The invariant of a risk shard: the per-symbol tables have one entry per symbol, and the three secondary indexes (positions by
  user, frozen margin by user, exposure by symbol) agree with the primary maps they are derived from. Every operation keeps it.
\<close>

section \<open>The invariant\<close>

definition table_sizes :: "risk_shard \<Rightarrow> nat list" where
  "table_sizes s = [length (rs_margin s), length (rs_index_prices s), length (rs_mark_prices s), length (rs_tips s),
     length (rs_funding_interval_secs s), length (rs_funding_min_bps s), length (rs_funding_max_bps s), length (rs_funding_settled s),
     length (rs_taker_fee_bps s), length (rs_maker_fee_bps s), length (rs_tick_size s), length (rs_stashed_bbo s),
     length (rs_config_versions s), length (rs_fallback_mark_prices s)]"

definition tables_ok :: "risk_shard \<Rightarrow> bool" where
  "tables_ok s \<longleftrightarrow> (\<forall>n\<in>set (table_sizes s). n = rs_max_symbols s)"

lemma tables_okD:
  assumes "tables_ok s"
  shows "length (rs_margin s) = rs_max_symbols s" "length (rs_index_prices s) = rs_max_symbols s" "length (rs_mark_prices s) = rs_max_symbols s"
    "length (rs_tips s) = rs_max_symbols s" "length (rs_funding_interval_secs s) = rs_max_symbols s" "length (rs_funding_min_bps s) = rs_max_symbols s"
    "length (rs_funding_max_bps s) = rs_max_symbols s" "length (rs_funding_settled s) = rs_max_symbols s" "length (rs_taker_fee_bps s) = rs_max_symbols s"
    "length (rs_maker_fee_bps s) = rs_max_symbols s" "length (rs_tick_size s) = rs_max_symbols s" "length (rs_stashed_bbo s) = rs_max_symbols s"
    "length (rs_config_versions s) = rs_max_symbols s" "length (rs_fallback_mark_prices s) = rs_max_symbols s"
  using assms by (simp_all add: tables_ok_def table_sizes_def)

definition symbols_of :: "(u32 \<times> u32 \<rightharpoonup> position) \<Rightarrow> u32 \<Rightarrow> u32 set" where
  "symbols_of ps u = {sid. ps (u, sid) \<noteq> None}"

text \<open>The entries an index lists for a user; no entry and an empty one mean the same.\<close>

definition listed :: "(u32 \<rightharpoonup> 'a list) \<Rightarrow> u32 \<Rightarrow> 'a list" where
  "listed idx u = (case idx u of None \<Rightarrow> [] | Some xs \<Rightarrow> xs)"

lemma listed_upd [simp]: "listed (idx(u \<mapsto> xs)) v = (if v = u then xs else listed idx v)" "listed (idx(u := None)) v = (if v = u then [] else listed idx v)"
  by (simp_all add: listed_def)

lemma listed_default: "(case idx u of Some xs \<Rightarrow> xs | None \<Rightarrow> []) = listed idx u"
  by (simp add: listed_def split: option.split)

lemma listed_Some: "idx u = Some xs \<Longrightarrow> listed idx u = xs"
  by (simp add: listed_def)

definition by_user_ok :: "(u32 \<times> u32 \<rightharpoonup> position) \<Rightarrow> (u32 \<rightharpoonup> u32 list) \<Rightarrow> bool" where
  "by_user_ok ps idx \<longleftrightarrow> (\<forall>u. distinct (listed idx u) \<and> set (listed idx u) = symbols_of ps u)"

definition frozen_ok :: "(nat \<rightharpoonup> freeze) \<Rightarrow> (u32 \<rightharpoonup> (nat \<times> i64) list) \<Rightarrow> bool" where
  "frozen_ok fo idx \<longleftrightarrow> (\<forall>u.
     distinct (map fst (listed idx u)) \<and>
     (\<forall>k. map_of (listed idx u) k = (case fo k of None \<Rightarrow> None | Some fz \<Rightarrow> if fz_user_id fz = u then Some (fz_amount fz) else None)))"

definition exposed :: "(u32 \<times> u32 \<rightharpoonup> position) \<Rightarrow> nat \<Rightarrow> u32 set" where
  "exposed ps sid = {u. \<exists>p. ps (u, sid) = Some p \<and> \<not> pos_is_empty p}"

definition exposure_ok :: "nat \<Rightarrow> (u32 \<times> u32 \<rightharpoonup> position) \<Rightarrow> exposure_index \<Rightarrow> bool" where
  "exposure_ok n ps ex \<longleftrightarrow> length ex = n \<and> (\<forall>sid<n. distinct (ex ! sid) \<and> set (ex ! sid) = exposed ps sid)"

definition shard_ok :: "risk_shard \<Rightarrow> bool" where
  "shard_ok s \<longleftrightarrow> tables_ok s \<and> by_user_ok (rs_positions s) (rs_positions_by_user s) \<and>
     frozen_ok (rs_frozen_orders s) (rs_frozen_by_user s) \<and> exposure_ok (rs_max_symbols s) (rs_positions s) (rs_exposure s)"

lemma shard_tables: "shard_ok s \<Longrightarrow> tables_ok s" by (simp add: shard_ok_def)

text \<open>What the operations on prices, accounts, counters, rings and the liquidation engine leave alone.\<close>

definition keeps :: "risk_shard \<Rightarrow> risk_shard \<Rightarrow> bool" where
  "keeps s s' \<longleftrightarrow> rs_max_symbols s' = rs_max_symbols s \<and> rs_shard_id s' = rs_shard_id s \<and> rs_shard_count s' = rs_shard_count s \<and>
     rs_positions s' = rs_positions s \<and> rs_positions_by_user s' = rs_positions_by_user s \<and>
     rs_frozen_orders s' = rs_frozen_orders s \<and> rs_frozen_by_user s' = rs_frozen_by_user s \<and> rs_exposure s' = rs_exposure s \<and>
     table_sizes s' = table_sizes s"

lemma keeps_refl [simp]: "keeps s s" by (simp add: keeps_def)

lemma keeps_trans: "keeps s s' \<Longrightarrow> keeps s' s'' \<Longrightarrow> keeps s s''" by (simp add: keeps_def)

lemma keeps_ok: "keeps s s' \<Longrightarrow> shard_ok s \<Longrightarrow> shard_ok s'" by (simp add: keeps_def shard_ok_def tables_ok_def)

lemma keeps_tables: "keeps s s' \<Longrightarrow> tables_ok s \<Longrightarrow> tables_ok s'" by (simp add: keeps_def tables_ok_def)

lemma keeps_shard: "keeps s s' \<Longrightarrow> user_in_shard s' u = user_in_shard s u" by (simp add: keeps_def user_in_shard_def)

lemmas tables = table_sizes_def Let_def

section \<open>Operations that keep the primaries\<close>

lemma keeps_push [simp]: "keeps s (push_persist s ev)"
  by (simp add: push_persist_def keeps_def tables)

lemma keeps_ensure_account [simp]: "keeps s (ensure_account s u)"
  by (simp add: ensure_account_def keeps_def tables split: option.split)

lemma keeps_process_bbo [simp]: "keeps s (process_bbo s bbo)"
  by (simp add: process_bbo_def keeps_def tables)

lemma keeps_update_mark [simp]: "keeps s (update_mark s sid p)"
  by (simp add: update_mark_def keeps_def tables)

lemma keeps_stash_bbo [simp]: "keeps s (stash_bbo s bbo)"
  by (simp add: stash_bbo_def keeps_def tables)

lemma keeps_fresh_marks: "fresh_marks s = Some s' \<Longrightarrow> keeps s s'"
  by (auto simp: fresh_marks_def rebuild_fallback_def keeps_def tables split: if_splits bind_splits)

lemma fresh_marks_total: "tables_ok s \<Longrightarrow> \<exists>s'. fresh_marks s = Some s'"
  using tables_okD(3,14) [of s] by (simp add: fresh_marks_def rebuild_fallback_def)

lemma fresh_marks_accounts: "fresh_marks s = Some s' \<Longrightarrow> rs_accounts s' = rs_accounts s \<and> rs_margin s' = rs_margin s \<and> rs_taker_fee_bps s' = rs_taker_fee_bps s"
  by (auto simp: fresh_marks_def rebuild_fallback_def split: if_splits bind_splits)

lemma keeps_queue_cancels [simp]: "keeps s (queue_cancels it s u now)"
  by (simp add: queue_cancels_def keeps_def tables split: option.split)

lemma keeps_liquidation [simp]: "keeps s (s\<lparr>rs_liquidation := e\<rparr>)"
  by (simp add: keeps_def tables)

lemma keeps_check_liquidation: "check_liquidation_for it s u now = Some s' \<Longrightarrow> keeps s s'"
  by (auto simp: check_liquidation_for_def Let_def split: if_splits bind_splits option.splits prod.splits
      dest!: keeps_fresh_marks intro: keeps_trans [OF _ keeps_liquidation] keeps_trans [OF keeps_trans [OF _ keeps_liquidation] keeps_queue_cancels])

lemma check_liquidation_total:
  assumes "tables_ok s" shows "\<exists>s'. check_liquidation_for it s u now = Some s'"
proof -
  obtain s1 where "fresh_marks s = Some s1" using fresh_marks_total [OF assms] by blast
  then show ?thesis by (auto simp: check_liquidation_for_def Let_def split: option.split prod.split)
qed

section \<open>Freezing and releasing\<close>

lemma frozen_okD:
  assumes "frozen_ok fo idx"
  shows "distinct (map fst (listed idx u))"
    "map_of (listed idx u) k = (case fo k of None \<Rightarrow> None | Some fz \<Rightarrow> if fz_user_id fz = u then Some (fz_amount fz) else None)"
  using assms unfolding frozen_ok_def by blast+

lemma frozen_ok_insert:
  assumes ok: "frozen_ok fo idx" and own: "\<And>fz. fo k = Some fz \<Longrightarrow> fz_user_id fz = u"
  shows "frozen_ok (fo(k \<mapsto> \<lparr>fz_user_id = u, fz_symbol_id = sid, fz_amount = a\<rparr>)) (idx(u \<mapsto> AList.update k a (listed idx u)))"
  unfolding frozen_ok_def
proof (intro allI conjI)
  fix v j
  note f = frozen_okD(2) [OF ok, of v j]
  show "distinct (map fst (listed (idx(u \<mapsto> AList.update k a (listed idx u))) v))"
    using frozen_okD(1) [OF ok] by (simp add: distinct_update)
  show "map_of (listed (idx(u \<mapsto> AList.update k a (listed idx u))) v) j =
      (case (fo(k \<mapsto> \<lparr>fz_user_id = u, fz_symbol_id = sid, fz_amount = a\<rparr>)) j of None \<Rightarrow> None
       | Some fz \<Rightarrow> if fz_user_id fz = v then Some (fz_amount fz) else None)"
  proof (cases "j = k")
    case True
    then show ?thesis using f own by (cases "fo k") (auto simp: update_conv')
  next
    case False
    then show ?thesis using f by (cases "v = u") (simp_all add: update_conv')
  qed
qed

lemma frozen_ok_delete:
  assumes ok: "frozen_ok fo idx" and k: "fo k = Some fz" "fz_user_id fz = u" and idx: "idx u = Some m"
  shows "frozen_ok (fo(k := None)) (if AList.delete k m = [] then idx(u := None) else idx(u \<mapsto> AList.delete k m))"
  unfolding frozen_ok_def
proof (intro allI conjI)
  fix v j
  let ?idx = "if AList.delete k m = [] then idx(u := None) else idx(u \<mapsto> AList.delete k m)"
  have e: "listed ?idx v = (if v = u then AList.delete k (listed idx u) else listed idx v)" using idx by (simp add: listed_def)
  note f = frozen_okD(2) [OF ok, of v j]
  show "distinct (map fst (listed ?idx v))" unfolding e using frozen_okD(1) [OF ok] by (simp add: distinct_delete)
  show "map_of (listed ?idx v) j = (case (fo(k := None)) j of None \<Rightarrow> None | Some fz \<Rightarrow> if fz_user_id fz = v then Some (fz_amount fz) else None)"
    unfolding e using f k by (cases "j = k"; cases "v = u") (auto simp: delete_conv')
qed

lemma freeze_order_ok:
  assumes "shard_ok s" "\<And>fz. rs_frozen_orders s (order_key hi lo) = Some fz \<Longrightarrow> fz_user_id fz = u"
  shows "shard_ok (freeze_order s u sid hi lo a)"
  using assms frozen_ok_insert [of "rs_frozen_orders s" "rs_frozen_by_user s" "order_key hi lo" u sid a]
  by (simp add: shard_ok_def freeze_order_def tables tables_ok_def listed_default)

lemma release_frozen_ok:
  assumes "shard_ok s" shows "shard_ok (release_frozen_for_order s u hi lo)"
proof (cases "user_in_shard s u \<and> (\<exists>fz. rs_frozen_orders s (order_key hi lo) = Some fz \<and> fz_user_id fz = u)")
  case False
  then show ?thesis using assms by (auto simp: release_frozen_for_order_def Let_def split: option.splits)
next
  case True
  then obtain fz where fz: "rs_frozen_orders s (order_key hi lo) = Some fz" "fz_user_id fz = u" "user_in_shard s u" by blast
  have ok: "frozen_ok (rs_frozen_orders s) (rs_frozen_by_user s)" using assms by (simp add: shard_ok_def)
  have "map_of (listed (rs_frozen_by_user s) u) (order_key hi lo) = Some (fz_amount fz)"
    using frozen_okD(2) [OF ok, of u "order_key hi lo"] fz by simp
  then obtain m where m: "rs_frozen_by_user s u = Some m" by (cases "rs_frozen_by_user s u") (auto simp: listed_def)
  let ?s = "s\<lparr>rs_frozen_orders := (rs_frozen_orders s)(order_key hi lo := None),
    rs_frozen_by_user := (if AList.delete (order_key hi lo) m = [] then (rs_frozen_by_user s)(u := None) else (rs_frozen_by_user s)(u \<mapsto> AList.delete (order_key hi lo) m))\<rparr>"
  have "release_frozen_for_order s u hi lo = push_persist ?s (PeFrozenRemove u hi lo)"
    using fz m by (simp add: release_frozen_for_order_def Let_def)
  moreover have "shard_ok ?s" using assms frozen_ok_delete [OF ok fz(1,2) m] by (simp add: shard_ok_def tables tables_ok_def)
  ultimately show ?thesis using keeps_ok [OF keeps_push] by simp
qed

section \<open>Fills\<close>

text \<open>
  While one side of a fill is being applied the exposure index lags behind the positions by one entry:
  \<open>lagging s u sid\<close> is the invariant except for that entry, which \<open>update_exposure\<close> then puts right.
\<close>

definition lagging :: "risk_shard \<Rightarrow> u32 \<Rightarrow> nat \<Rightarrow> bool" where
  "lagging s u sid \<longleftrightarrow> tables_ok s \<and> by_user_ok (rs_positions s) (rs_positions_by_user s) \<and>
     frozen_ok (rs_frozen_orders s) (rs_frozen_by_user s) \<and> length (rs_exposure s) = rs_max_symbols s \<and>
     (\<forall>i<rs_max_symbols s. distinct (rs_exposure s ! i) \<and>
       (\<forall>v. (v, i) \<noteq> (u, sid) \<longrightarrow> (v \<in> set (rs_exposure s ! i) \<longleftrightarrow> v \<in> exposed (rs_positions s) i)))"

lemma by_user_ok_insert:
  assumes "by_user_ok ps idx"
  shows "by_user_ok (ps((u, sid) \<mapsto> p)) (idx(u \<mapsto> set_insert sid (listed idx u)))"
proof -
  have s: "symbols_of (ps((u, sid) \<mapsto> p)) v = (if v = u then insert sid (symbols_of ps u) else symbols_of ps v)" for v
    by (auto simp: symbols_of_def)
  show ?thesis unfolding by_user_ok_def s using assms by (auto simp: by_user_ok_def set_insert_def)
qed

lemma by_user_ok_update:
  assumes "by_user_ok ps idx" "ps (u, sid) \<noteq> None" shows "by_user_ok (ps((u, sid) \<mapsto> p)) idx"
proof -
  have "symbols_of (ps((u, sid) \<mapsto> p)) v = symbols_of ps v" for v using assms(2) by (auto simp: symbols_of_def)
  then show ?thesis using assms(1) by (simp add: by_user_ok_def)
qed

lemma ensure_position_ok:
  assumes "shard_ok s"
  shows "shard_ok (ensure_position s u sid)" "\<exists>p. rs_positions (ensure_position s u sid) (u, sid) = Some p"
proof -
  have "shard_ok (ensure_position s u sid) \<and> (\<exists>p. rs_positions (ensure_position s u sid) (u, sid) = Some p)"
  proof (cases "rs_positions s (u, sid)")
    case None
    have "exposed ((rs_positions s)((u, sid) \<mapsto> position_new u sid)) i = exposed (rs_positions s) i" for i
      using None by (auto simp: exposed_def position_new_def pos_is_empty_def)
    then show ?thesis using assms by_user_ok_insert [of "rs_positions s" "rs_positions_by_user s" u sid] None
      by (simp add: ensure_position_def shard_ok_def exposure_ok_def tables_ok_def tables listed_default)
  next
    case (Some p)
    then show ?thesis using assms by (simp add: ensure_position_def)
  qed
  then show "shard_ok (ensure_position s u sid)" "\<exists>p. rs_positions (ensure_position s u sid) (u, sid) = Some p" by blast+
qed

lemma ensure_position_frame:
  "rs_accounts (ensure_position s u sid) = rs_accounts s" "rs_tips (ensure_position s u sid) = rs_tips s"
  "rs_max_symbols (ensure_position s u sid) = rs_max_symbols s" "user_in_shard (ensure_position s u sid) v = user_in_shard s v"
  by (simp_all add: ensure_position_def user_in_shard_def split: option.split)

lemma update_exposure_ok:
  assumes lag: "lagging s u sid" and p: "rs_positions s (u, sid) = Some p" and sid: "sid < rs_max_symbols s"
  shows "\<exists>ex. update_exposure s u sid = Some (s\<lparr>rs_exposure := ex\<rparr>) \<and> shard_ok (s\<lparr>rs_exposure := ex\<rparr>)"
proof -
  let ?us = "rs_exposure s ! sid"
  define ex where "ex = (rs_exposure s)[sid := if pos_is_empty p then filter (\<lambda>v. v \<noteq> u) ?us else if u \<in> set ?us then ?us else ?us @ [u]]"
  have L: "length (rs_exposure s) = rs_max_symbols s" using lag by (simp add: lagging_def)
  have LL: "distinct (rs_exposure s ! i)" "(v, i) \<noteq> (u, sid) \<Longrightarrow> v \<in> set (rs_exposure s ! i) \<longleftrightarrow> v \<in> exposed (rs_positions s) i"
    if "i < rs_max_symbols s" for i v using lag that unfolding lagging_def by simp_all
  have up: "update_exposure s u sid = Some (s\<lparr>rs_exposure := ex\<rparr>)"
    using p L sid by (cases "pos_is_empty p"; cases "u \<in> set ?us") (simp_all add: update_exposure_def add_user_def remove_user_def index_of_Some ex_def)
  have x: "u \<in> exposed (rs_positions s) sid \<longleftrightarrow> \<not> pos_is_empty p" using p by (simp add: exposed_def)
  have "exposure_ok (rs_max_symbols s) (rs_positions s) ex" unfolding exposure_ok_def
  proof (intro conjI allI impI)
    show "length ex = rs_max_symbols s" using L by (simp add: ex_def)
    fix i assume i: "i < rs_max_symbols s"
    show "distinct (ex ! i)" using L LL(1) [OF i] sid by (cases "i = sid") (auto simp: ex_def)
    show "set (ex ! i) = exposed (rs_positions s) i"
    proof (cases "i = sid")
      case True
      have "v \<in> set (ex ! sid) \<longleftrightarrow> v \<in> exposed (rs_positions s) sid" for v
        using L LL(2) [OF sid, of v] sid x by (cases "v = u") (auto simp: ex_def)
      then show ?thesis unfolding True by blast
    next
      case False
      have "v \<in> set (ex ! i) \<longleftrightarrow> v \<in> exposed (rs_positions s) i" for v using LL(2) [OF i, of v] False by (simp add: ex_def)
      then show ?thesis by blast
    qed
  qed
  then have "shard_ok (s\<lparr>rs_exposure := ex\<rparr>)" using lag by (simp add: shard_ok_def lagging_def tables_ok_def tables)
  with up show ?thesis by blast
qed

text \<open>One side of a fill: the user's position takes the fill, his account pays the fee, nothing else moves.\<close>

definition pos_or_new :: "risk_shard \<Rightarrow> u32 \<Rightarrow> u32 \<Rightarrow> position" where
  "pos_or_new s u sid = (case rs_positions s (u, sid) of Some p \<Rightarrow> p | None \<Rightarrow> position_new u sid)"

definition account_or_new :: "risk_shard \<Rightarrow> u32 \<Rightarrow> account" where
  "account_or_new s u = (case rs_accounts s u of Some a \<Rightarrow> a | None \<Rightarrow> account_new u 0)"

lemma fill_side_ok:
  assumes ok: "shard_ok s" and sid: "sid < rs_max_symbols s" and u: "user_in_shard s u"
  shows "\<exists>s'. fill_side s u sid sd price qty seq fee = Some s' \<and> shard_ok s' \<and> rs_max_symbols s' = rs_max_symbols s \<and>
    rs_tips s' = rs_tips s \<and> (\<forall>v. user_in_shard s' v = user_in_shard s v) \<and> rs_frozen_orders s' = rs_frozen_orders s \<and>
    rs_fills_processed s' = rs_fills_processed s \<and> rs_taker_fee_bps s' = rs_taker_fee_bps s \<and> rs_maker_fee_bps s' = rs_maker_fee_bps s \<and>
    rs_positions s' = (rs_positions s)((u, sid) \<mapsto> apply_fill (pos_or_new s u sid) sd price qty seq) \<and>
    rs_accounts s' = (rs_accounts s)(u \<mapsto> deduct_fee (account_or_new s u) fee)"
proof -
  define s1 where "s1 = ensure_position (ensure_account s u) u sid"
  have ok1: "shard_ok s1" unfolding s1_def by (rule ensure_position_ok(1)) (rule keeps_ok [OF keeps_ensure_account ok])
  have pos: "rs_positions s1 (u, sid) = Some (pos_or_new s u sid)"
    by (simp add: s1_def ensure_position_def ensure_account_def pos_or_new_def split: option.split)
  have acc: "rs_accounts s1 u = Some (account_or_new s u)"
    by (simp add: s1_def ensure_position_def ensure_account_def account_or_new_def split: option.split)
  define s3 where "s3 = s1\<lparr>rs_positions := (rs_positions s1)((u, sid) \<mapsto> apply_fill (pos_or_new s u sid) sd price qty seq),
    rs_accounts := (rs_accounts s1)(u \<mapsto> deduct_fee (account_or_new s u) fee)\<rparr>"
  have fr: "rs_max_symbols s1 = rs_max_symbols s" "rs_tips s1 = rs_tips s" "rs_shard_id s1 = rs_shard_id s" "rs_shard_count s1 = rs_shard_count s"
    "rs_frozen_orders s1 = rs_frozen_orders s" "rs_fills_processed s1 = rs_fills_processed s" "rs_taker_fee_bps s1 = rs_taker_fee_bps s"
    "rs_maker_fee_bps s1 = rs_maker_fee_bps s"
    "(rs_positions s1)((u, sid) \<mapsto> x) = (rs_positions s)((u, sid) \<mapsto> x)" "(rs_accounts s1)(u \<mapsto> y) = (rs_accounts s)(u \<mapsto> y)" for x y
    by (simp_all add: s1_def ensure_position_def ensure_account_def split: option.split)
  have ex: "exposed (rs_positions s3) i - {w. (w, i) = (u, sid)} = exposed (rs_positions s1) i - {w. (w, i) = (u, sid)}" for i
    by (auto simp: exposed_def s3_def)
  have "by_user_ok (rs_positions s3) (rs_positions_by_user s3)"
    using by_user_ok_update [of "rs_positions s1" "rs_positions_by_user s1" u sid] ok1 pos by (simp add: s3_def shard_ok_def)
  moreover have "\<forall>i<rs_max_symbols s3. distinct (rs_exposure s3 ! i) \<and>
       (\<forall>v. (v, i) \<noteq> (u, sid) \<longrightarrow> (v \<in> set (rs_exposure s3 ! i) \<longleftrightarrow> v \<in> exposed (rs_positions s3) i))"
    using ok1 ex by (auto simp: shard_ok_def exposure_ok_def s3_def)
  ultimately have "lagging s3 u sid" unfolding lagging_def using ok1
    by (simp add: shard_ok_def exposure_ok_def s3_def tables_ok_def tables)
  then obtain e where e: "update_exposure s3 u sid = Some (s3\<lparr>rs_exposure := e\<rparr>)" "shard_ok (s3\<lparr>rs_exposure := e\<rparr>)"
    using update_exposure_ok [of s3 u sid] sid fr(1) by (auto simp: s3_def)
  have "fill_side s u sid sd price qty seq fee = update_exposure s3 u sid"
    using u pos acc by (simp add: fill_side_def Let_def s1_def [symmetric] s3_def)
  then show ?thesis using e fr by (simp add: s3_def user_in_shard_def)
qed

text \<open>The effect of a fill on the positions and the accounts, one side after the other.\<close>

definition side_positions :: "risk_shard \<Rightarrow> u32 \<Rightarrow> u32 \<Rightarrow> (position \<Rightarrow> position) \<Rightarrow> (u32 \<times> u32 \<rightharpoonup> position) \<Rightarrow> (u32 \<times> u32 \<rightharpoonup> position)" where
  "side_positions s u sid f ps =
     (if user_in_shard s u then ps((u, sid) \<mapsto> f (case ps (u, sid) of Some p \<Rightarrow> p | None \<Rightarrow> position_new u sid)) else ps)"

definition side_accounts :: "risk_shard \<Rightarrow> u32 \<Rightarrow> i64 \<Rightarrow> (u32 \<rightharpoonup> account) \<Rightarrow> (u32 \<rightharpoonup> account)" where
  "side_accounts s u fee as =
     (if user_in_shard s u then as(u \<mapsto> deduct_fee (case as u of Some a \<Rightarrow> a | None \<Rightarrow> account_new u 0) fee) else as)"

definition same_books :: "risk_shard \<Rightarrow> risk_shard \<Rightarrow> bool" where
  "same_books s s' \<longleftrightarrow> rs_accounts s' = rs_accounts s \<and> rs_tips s' = rs_tips s \<and> keeps s s'"

lemma same_books_trans: "same_books s s' \<Longrightarrow> same_books s' s'' \<Longrightarrow> same_books s s''"
  by (auto simp: same_books_def intro: keeps_trans)

lemma same_push [simp]: "same_books s (push_persist s ev)"
  by (simp add: same_books_def) (simp add: push_persist_def)

lemma same_persist_side [simp]: "same_books s (persist_side s u sid)"
proof -
  have r: "same_books s s" for s by (simp add: same_books_def)
  have "same_books s (case rs_positions s (u, sid) of Some p \<Rightarrow> push_persist s (PePosition p) | None \<Rightarrow> s)" (is "same_books s ?s1")
    by (auto simp: r split: option.split)
  moreover have "same_books ?s1 (case rs_accounts ?s1 u of Some a \<Rightarrow> push_persist ?s1 (PeAccount a) | None \<Rightarrow> ?s1)"
    by (auto simp: r split: option.split)
  ultimately show ?thesis unfolding persist_side_def Let_def by (rule same_books_trans)
qed

lemma same_check_liquidation:
  assumes "check_liquidation_for it s u now = Some s'" shows "same_books s s'"
proof -
  have "rs_accounts s' = rs_accounts s \<and> rs_tips s' = rs_tips s"
    using assms by (auto simp: check_liquidation_for_def fresh_marks_def rebuild_fallback_def queue_cancels_def Let_def
        split: if_splits bind_splits option.splits prod.splits)
  then show ?thesis using keeps_check_liquidation [OF assms] by (simp add: same_books_def)
qed

lemma fill_side_any:
  assumes ok: "shard_ok s" and sid: "sid < rs_max_symbols s"
  shows "\<exists>s'. fill_side s u sid sd price qty seq fee = Some s' \<and> shard_ok s' \<and> rs_max_symbols s' = rs_max_symbols s \<and>
    rs_tips s' = rs_tips s \<and> (\<forall>v. user_in_shard s' v = user_in_shard s v) \<and>
    rs_positions s' = side_positions s u sid (\<lambda>p. apply_fill p sd price qty seq) (rs_positions s) \<and>
    rs_accounts s' = side_accounts s u fee (rs_accounts s)"
proof (cases "user_in_shard s u")
  case True
  then show ?thesis using fill_side_ok [OF ok sid True, of sd price qty seq fee]
    by (auto simp: side_positions_def side_accounts_def pos_or_new_def account_or_new_def)
next
  case False
  then show ?thesis using ok by (simp add: fill_side_def side_positions_def side_accounts_def)
qed

definition maker_side_of :: "u8 \<Rightarrow> u8" where "maker_side_of sd = (if sd = 0 then 1 else 0)"

definition fill_effect :: "risk_shard \<Rightarrow> fill_event \<Rightarrow> (u32 \<times> u32 \<rightharpoonup> position) \<times> (u32 \<rightharpoonup> account)" where
  "fill_effect s f =
     (let sid = fe_symbol_id f;
          tf = calculate_fee (fe_qty f) (fe_price f) (rs_taker_fee_bps s ! sid);
          mf = calculate_fee (fe_qty f) (fe_price f) (rs_maker_fee_bps s ! sid)
      in (side_positions s (fe_maker_user_id f) sid (\<lambda>p. apply_fill p (maker_side_of (fe_taker_side f)) (fe_price f) (fe_qty f) (fe_seq f))
            (side_positions s (fe_taker_user_id f) sid (\<lambda>p. apply_fill p (fe_taker_side f) (fe_price f) (fe_qty f) (fe_seq f)) (rs_positions s)),
          side_accounts s (fe_maker_user_id f) mf (side_accounts s (fe_taker_user_id f) tf (rs_accounts s))))"

lemma process_fill_ok:
  assumes ok: "shard_ok s" and sid: "fe_symbol_id f < rs_max_symbols s" and new: "rs_tips s ! fe_symbol_id f < fe_seq f"
  shows "\<exists>s'. process_fill it s f = Some s' \<and> shard_ok s' \<and> rs_max_symbols s' = rs_max_symbols s \<and>
    rs_tips s' = (rs_tips s)[fe_symbol_id f := fe_seq f] \<and> (rs_positions s', rs_accounts s') = fill_effect s f"
proof -
  let ?sid = "fe_symbol_id f"
  have T: "tables_ok s" using ok by (simp add: shard_ok_def)
  note L = tables_okD [OF T]
  define tf where "tf = calculate_fee (fe_qty f) (fe_price f) (rs_taker_fee_bps s ! ?sid)"
  define mf where "mf = calculate_fee (fe_qty f) (fe_price f) (rs_maker_fee_bps s ! ?sid)"
  have ix: "index_of (rs_taker_fee_bps s) ?sid = Some (rs_taker_fee_bps s ! ?sid)" "index_of (rs_maker_fee_bps s) ?sid = Some (rs_maker_fee_bps s ! ?sid)"
    using sid L by (simp_all add: index_of_Some)
  have c: "(?sid \<ge> length (rs_tips s)) = False" "(fe_seq f \<le> rs_tips s ! ?sid) = False" using sid new L(4) by simp_all
  obtain s1 where s1: "fill_side s (fe_taker_user_id f) ?sid (fe_taker_side f) (fe_price f) (fe_qty f) (fe_seq f) tf = Some s1" "shard_ok s1"
    "rs_max_symbols s1 = rs_max_symbols s" "rs_tips s1 = rs_tips s" "\<And>v. user_in_shard s1 v = user_in_shard s v"
    "rs_positions s1 = side_positions s (fe_taker_user_id f) ?sid (\<lambda>p. apply_fill p (fe_taker_side f) (fe_price f) (fe_qty f) (fe_seq f)) (rs_positions s)"
    "rs_accounts s1 = side_accounts s (fe_taker_user_id f) tf (rs_accounts s)"
    using fill_side_any [OF ok sid] by blast
  have "?sid < rs_max_symbols s1" using sid s1(3) by simp
  then obtain s2 where s2: "fill_side s1 (fe_maker_user_id f) ?sid (maker_side_of (fe_taker_side f)) (fe_price f) (fe_qty f) (fe_seq f) mf = Some s2" "shard_ok s2"
    "rs_max_symbols s2 = rs_max_symbols s1" "rs_tips s2 = rs_tips s1"
    "rs_positions s2 = side_positions s1 (fe_maker_user_id f) ?sid (\<lambda>p. apply_fill p (maker_side_of (fe_taker_side f)) (fe_price f) (fe_qty f) (fe_seq f)) (rs_positions s1)"
    "rs_accounts s2 = side_accounts s1 (fe_maker_user_id f) mf (rs_accounts s1)"
    using fill_side_any [OF s1(2)] by blast
  define s3 where "s3 = s2\<lparr>rs_tips := (rs_tips s2)[?sid := fe_seq f], rs_fills_processed := u64_add (rs_fills_processed s2) 1\<rparr>"
  have ok3: "shard_ok s3" using s2(2) by (simp add: s3_def shard_ok_def tables_ok_def tables)
  obtain s4 where s4: "check_liquidation_for it s3 (fe_taker_user_id f) (fe_timestamp_ns f) = Some s4"
    using check_liquidation_total [OF shard_tables [OF ok3]] by blast
  note b4 = same_check_liquidation [OF s4]
  have ok4: "shard_ok s4" using keeps_ok [OF _ ok3] b4 by (simp add: same_books_def)
  obtain s5 where s5: "check_liquidation_for it s4 (fe_maker_user_id f) (fe_timestamp_ns f) = Some s5"
    using check_liquidation_total [OF shard_tables [OF ok4]] by blast
  note b5 = same_books_trans [OF b4 same_check_liquidation [OF s5]]
  obtain s8 where s8: "process_fill it s f = Some s8" "same_books s5 s8"
  proof -
    have "\<exists>s8. process_fill it s f = Some s8 \<and> same_books s5 s8"
    proof -
      have r: "same_books s5 s5" by (simp add: same_books_def)
      define ev where "ev = PeFill \<lparr>pf_symbol_id = ?sid, pf_taker_user_id = fe_taker_user_id f,
            pf_maker_user_id = fe_maker_user_id f, pf_price = fe_price f, pf_qty = fe_qty f, pf_taker_fee = tf,
            pf_maker_fee = mf, pf_taker_side = fe_taker_side f, pf_seq = fe_seq f, pf_timestamp_ns = fe_timestamp_ns f\<rparr>"
      define s6 where "s6 = (if user_in_shard s5 (fe_taker_user_id f) then persist_side (push_persist s5 ev) (fe_taker_user_id f) ?sid else s5)"
      define s7 where "s7 = (if user_in_shard s6 (fe_maker_user_id f) then persist_side s6 (fe_maker_user_id f) ?sid else s6)"
      have "same_books s5 s6" unfolding s6_def using r same_books_trans [OF same_push same_persist_side] by simp
      moreover have "same_books s6 s7" unfolding s7_def by (simp add: same_books_def [of s6 s6])
      ultimately have "same_books s5 (push_persist s7 (PeTip ?sid (fe_seq f)))" using same_books_trans same_push by blast
      moreover have "process_fill it s f = Some (push_persist s7 (PeTip ?sid (fe_seq f)))"
        by (simp only: process_fill_def Let_def c if_False ix Option.bind.simps tf_def [symmetric] mf_def [symmetric] maker_side_of_def [symmetric]
            s1(1) s2(1) s3_def [symmetric] s4 s5 ev_def [symmetric] s6_def [symmetric] s7_def [symmetric])
      ultimately show ?thesis by blast
    qed
    then show thesis using that by blast
  qed
  have b8: "same_books s3 s8" by (rule same_books_trans [OF b5 s8(2)])
  have pa: "(rs_positions s3, rs_accounts s3) = fill_effect s f"
    using s1 s2 by (simp add: s3_def fill_effect_def Let_def tf_def mf_def side_positions_def side_accounts_def)
  show ?thesis using s8(1) b8 keeps_ok [OF _ ok3, of s8] pa s1(3,4) s2(3,4)
    by (intro exI [of _ s8]) (simp add: same_books_def keeps_def s3_def)
qed

text \<open>A fill whose sequence number is not new is ignored.\<close>

lemma process_fill_old:
  "length (rs_tips s) \<le> fe_symbol_id f \<or> fe_seq f \<le> rs_tips s ! fe_symbol_id f \<Longrightarrow> process_fill it s f = Some s"
  by (auto simp: process_fill_def Let_def)

section \<open>The pre-trade check and the other operations\<close>

text \<open>The outcome of \<open>process_order\<close>: the shard after the guards and the rebuilt marks, with the reservation when it is accepted.\<close>

lemma process_order_cases:
  assumes ok: "shard_ok s"
  shows "\<exists>s1 resp. keeps s s1 \<and> rs_margin s1 = rs_margin s \<and> rs_taker_fee_bps s1 = rs_taker_fee_bps s \<and>
    (process_order it s order = Some (s1, RspRejected (oq_user_id order) resp (oq_order_id_hi order) (oq_order_id_lo order)) \<or>
     (\<exists>account m. rs_accounts s1 (oq_user_id order) = Some account \<and> user_in_shard s (oq_user_id order) \<and> 0 < oq_price order \<and> 0 < oq_qty order \<and>
       (oq_is_liquidation order \<or> \<not> needs_liquidation (margin_of it s1 (oq_user_id order) account)) \<and> oq_symbol_id order < length (rs_taker_fee_bps s1) \<and>
       check_order (rs_margin s1) account (iter_positions_for_user it s1 (oq_user_id order)) order (rs_fallback_mark_prices s1)
         (rs_taker_fee_bps s1 ! oq_symbol_id order) (frozen_for_user it s1 (oq_user_id order)) = Inr m \<and>
       process_order it s order = Some
         ((freeze_order s1 (oq_user_id order) (oq_symbol_id order) (oq_order_id_hi order) (oq_order_id_lo order) m)
            \<lparr>rs_orders_processed := u64_add (rs_orders_processed s1) 1\<rparr>,
          RspAccepted (oq_user_id order) m (oq_order_id_hi order) (oq_order_id_lo order))))"
proof (cases "user_in_shard s (oq_user_id order) \<and> 0 < oq_price order \<and> 0 < oq_qty order")
  case False
  have "process_order it s order = Some (s, RspRejected (oq_user_id order) (if user_in_shard s (oq_user_id order) then InsufficientMarginReason else NotInShard)
      (oq_order_id_hi order) (oq_order_id_lo order))"
    using False by (auto simp: process_order_def Let_def)
  then show ?thesis using keeps_refl by blast
next
  case True
  let ?u = "oq_user_id order"
  have ok0: "shard_ok (ensure_account s ?u)" by (rule keeps_ok [OF keeps_ensure_account ok])
  obtain s1 where s1: "fresh_marks (ensure_account s ?u) = Some s1" using fresh_marks_total [OF shard_tables [OF ok0]] by blast
  have k: "keeps s s1" by (rule keeps_trans [OF keeps_ensure_account keeps_fresh_marks [OF s1]])
  have mf: "rs_margin s1 = rs_margin s" "rs_taker_fee_bps s1 = rs_taker_fee_bps s"
    using fresh_marks_accounts [OF s1] by (auto simp: ensure_account_def split: option.splits)
  obtain account where a: "rs_accounts s1 ?u = Some account"
    using fresh_marks_accounts [OF s1] by (auto simp: ensure_account_def split: option.splits)
  define resp where "resp = check_order (rs_margin s1) account (iter_positions_for_user it s1 ?u) order (rs_fallback_mark_prices s1)
         (rs_taker_fee_bps s1 ! oq_symbol_id order) (frozen_for_user it s1 ?u)"
  have run: "process_order it s order =
    (if needs_liquidation (margin_of it s1 ?u account) \<and> \<not> oq_is_liquidation order
     then Some (s1, RspRejected ?u UserInLiquidationReason (oq_order_id_hi order) (oq_order_id_lo order))
     else if oq_symbol_id order \<ge> length (rs_taker_fee_bps s1) then Some (s1, RspRejected ?u InsufficientMarginReason (oq_order_id_hi order) (oq_order_id_lo order))
     else case resp of Inl reason \<Rightarrow> Some (s1, RspRejected ?u reason (oq_order_id_hi order) (oq_order_id_lo order))
       | Inr m \<Rightarrow> Some ((freeze_order s1 ?u (oq_symbol_id order) (oq_order_id_hi order) (oq_order_id_lo order) m)
            \<lparr>rs_orders_processed := u64_add (rs_orders_processed s1) 1\<rparr>, RspAccepted ?u m (oq_order_id_hi order) (oq_order_id_lo order)))"
    using True s1 a by (simp add: process_order_def Let_def resp_def freeze_order_def not_le not_less cong: if_cong sum.case_cong)
  show ?thesis
  proof (cases "(needs_liquidation (margin_of it s1 ?u account) \<and> \<not> oq_is_liquidation order) \<or> oq_symbol_id order \<ge> length (rs_taker_fee_bps s1) \<or> (\<exists>r. resp = Inl r)")
    case True
    then show ?thesis unfolding run using k mf by auto
  next
    case False
    then obtain m where "resp = Inr m" by (cases resp) auto
    then show ?thesis using False True a k mf run unfolding resp_def by (intro exI [of _ s1]) auto
  qed
qed

lemma process_order_ok:
  assumes ok: "shard_ok s"
    and own: "\<And>fz. rs_frozen_orders s (order_key (oq_order_id_hi order) (oq_order_id_lo order)) = Some fz \<Longrightarrow> fz_user_id fz = oq_user_id order"
  shows "\<exists>s' resp. process_order it s order = Some (s', resp) \<and> shard_ok s'"
proof -
  have fin: "shard_ok (s'\<lparr>rs_orders_processed := n\<rparr>) = shard_ok s'" for s' n by (simp add: shard_ok_def tables_ok_def tables)
  obtain s1 where s1: "keeps s s1"
    "(\<exists>resp. process_order it s order = Some (s1, resp)) \<or>
      (\<exists>m resp. process_order it s order = Some ((freeze_order s1 (oq_user_id order) (oq_symbol_id order) (oq_order_id_hi order) (oq_order_id_lo order) m)
            \<lparr>rs_orders_processed := u64_add (rs_orders_processed s1) 1\<rparr>, resp))"
    using process_order_cases [OF ok, of it order] by blast
  have "shard_ok (freeze_order s1 (oq_user_id order) (oq_symbol_id order) (oq_order_id_hi order) (oq_order_id_lo order) m)" for m
    by (rule freeze_order_ok [OF keeps_ok [OF s1(1) ok]]) (use own s1(1) in \<open>auto simp: keeps_def\<close>)
  then show ?thesis using s1(2) keeps_ok [OF s1(1) ok] fin by auto
qed

lemma replay_freeze_ok:
  assumes ok: "shard_ok s" and own: "\<And>fz. rs_frozen_orders s (order_key hi lo) = Some fz \<Longrightarrow> fz_user_id fz = u"
  shows "\<exists>s'. replay_freeze_order s u hi lo price qty sid = Some s' \<and> shard_ok s'"
proof -
  let ?s = "ensure_account s u"
  have k: "keeps s ?s" by simp
  note ok1 = keeps_ok [OF k ok]
  show ?thesis
  proof (cases "params_of (rs_margin ?s) sid")
    case None
    then show ?thesis using ok1 by (simp add: replay_freeze_order_def Let_def)
  next
    case (Some params)
    then have "sid < length (rs_taker_fee_bps ?s)"
      using tables_okD(1,9) [OF shard_tables [OF ok1]] by (auto simp: params_of_def split: if_splits)
    moreover have "shard_ok (freeze_order ?s u sid hi lo a)" for a
      by (rule freeze_order_ok [OF ok1]) (use own k in \<open>auto simp: keeps_def\<close>)
    ultimately show ?thesis using Some by (simp add: replay_freeze_order_def Let_def index_of_Some)
  qed
qed

lemma confirm_freeze_keeps [simp]: "keeps s (confirm_freeze s u hi lo sid)"
  by (simp add: confirm_freeze_def split: option.split)

lemma config_applied_keeps [simp]: "keeps s (process_config_applied s sid v)"
  by (simp add: process_config_applied_def)

lemma socialized_keeps: "keeps s (fst (process_socialized_loss it s loss now))"
  by (simp add: process_socialized_loss_def Let_def push_persist_def keeps_def tables split: option.split)

lemma apply_config_ok:
  assumes "shard_ok s" shows "\<exists>s'. apply_symbol_config s c = Some s' \<and> keeps s s'"
proof -
  note L = tables_okD [OF shard_tables [OF assms]]
  show ?thesis
  proof (cases "sc_symbol_id c < rs_max_symbols s")
    case False
    then show ?thesis using L(13) by (simp add: apply_symbol_config_def Let_def)
  next
    case True
    let ?i = "sc_symbol_id c"
    have st: "store_at (rs_margin s) ?i x1 = Some ((rs_margin s)[?i := x1])" "store_at (rs_taker_fee_bps s) ?i x2 = Some ((rs_taker_fee_bps s)[?i := x2])"
      "store_at (rs_maker_fee_bps s) ?i x2 = Some ((rs_maker_fee_bps s)[?i := x2])" "store_at (rs_tick_size s) ?i x2 = Some ((rs_tick_size s)[?i := x2])"
      "store_at (rs_funding_interval_secs s) ?i x3 = Some ((rs_funding_interval_secs s)[?i := x3])" "store_at (rs_funding_min_bps s) ?i x2 = Some ((rs_funding_min_bps s)[?i := x2])"
      "store_at (rs_funding_max_bps s) ?i x2 = Some ((rs_funding_max_bps s)[?i := x2])" "store_at (rs_config_versions s) ?i x3 = Some ((rs_config_versions s)[?i := x3])"
      "index_of (rs_funding_interval_secs s) ?i = Some (rs_funding_interval_secs s ! ?i)" for x1 x2 x3
      using True L by (simp_all only: store_at_Some index_of_Some)
    have g: "(?i \<ge> length (rs_config_versions s)) = False" using True L(13) by simp
    show ?thesis unfolding apply_symbol_config_def Let_def g if_False st Option.bind.simps
      by (cases "checked_funding_interval (rs_funding_interval_secs s ! ?i) (sc_funding_interval_secs c)") (simp_all add: keeps_def tables)
  qed
qed

lemma charge_keeps: "keeps s (fst (charge sid iid rate now rows s))"
proof (induction rows arbitrary: s rule: list.induct)
  case (Cons row rows)
  obtain u net amount where row: "row = ((u, net), amount)" by (metis prod.exhaust)
  let ?s = "ensure_account s u"
  have k: "keeps s (?s\<lparr>rs_accounts := as\<rparr>)" for as
    by (rule keeps_trans [OF keeps_ensure_account [of s u]]) (simp add: keeps_def tables)
  show ?case
  proof (cases "rs_accounts ?s u")
    case None
    then show ?thesis using keeps_trans [OF keeps_ensure_account Cons.IH] by (simp add: row Let_def split_def)
  next
    case (Some a)
    then show ?thesis using keeps_trans [OF k Cons.IH] by (simp add: row Let_def split_def)
  qed
qed simp


text \<open>
  Funding panics only if the configured rate bounds are crossed, which \<open>checked_funding\<close> refuses when a row is loaded.
\<close>

definition bounds_ok :: "risk_shard \<Rightarrow> bool" where
  "bounds_ok s \<longleftrightarrow> (\<forall>i<rs_max_symbols s. rs_funding_min_bps s ! i \<le> rs_funding_max_bps s ! i)"

definition same_bounds :: "risk_shard \<Rightarrow> risk_shard \<Rightarrow> bool" where
  "same_bounds s s' \<longleftrightarrow> keeps s s' \<and> rs_funding_min_bps s' = rs_funding_min_bps s \<and> rs_funding_max_bps s' = rs_funding_max_bps s"

lemma same_bounds_trans: "same_bounds s s' \<Longrightarrow> same_bounds s' s'' \<Longrightarrow> same_bounds s s''"
  by (auto simp: same_bounds_def intro: keeps_trans)

lemma same_bounds_ok: "same_bounds s s' \<Longrightarrow> shard_ok s \<and> bounds_ok s \<Longrightarrow> shard_ok s' \<and> bounds_ok s'"
  by (auto simp: same_bounds_def bounds_ok_def keeps_def intro: keeps_ok)

lemma charge_bounds: "same_bounds s (fst (charge sid iid rate now rows s))"
proof -
  have "rs_funding_min_bps (fst (charge sid iid rate now rows s)) = rs_funding_min_bps s \<and>
    rs_funding_max_bps (fst (charge sid iid rate now rows s)) = rs_funding_max_bps s"
  proof (induction rows arbitrary: s rule: list.induct)
    case (Cons row rows)
    obtain u net amount where row: "row = ((u, net), amount)" by (metis prod.exhaust)
    have e: "rs_funding_min_bps (ensure_account s u) = rs_funding_min_bps s" "rs_funding_max_bps (ensure_account s u) = rs_funding_max_bps s"
      by (simp_all add: ensure_account_def split: option.split)
    show ?case using e Cons.IH by (cases "rs_accounts (ensure_account s u) u") (simp_all add: row Let_def split_def)
  qed simp
  then show ?thesis using charge_keeps by (simp add: same_bounds_def)
qed

lemma calculate_rate_total: "lo \<le> hi \<Longrightarrow> \<exists>r. calculate_rate mark index lo hi = Some r"
  by (simp add: calculate_rate_def Let_def)

lemma try_settle_ok:
  assumes ok: "shard_ok s \<and> bounds_ok s" and sid: "sid < rs_max_symbols s"
  shows "\<exists>s' r. try_settle_interval s sid iid now = Some (s', r) \<and> same_bounds s s'"
proof -
  note L = tables_okD [OF shard_tables [OF conjunct1 [OF ok]]]
  have ex: "length (rs_exposure s) = rs_max_symbols s" using ok by (simp add: shard_ok_def exposure_ok_def)
  let ?us = "rs_exposure s ! sid" and ?mark = "rs_mark_prices s ! sid" and ?ix = "rs_index_prices s ! sid"
  have ix: "users_for_symbol (rs_exposure s) sid = Some ?us" "index_of (rs_mark_prices s) sid = Some ?mark" "index_of (rs_index_prices s) sid = Some ?ix"
    "index_of (rs_funding_min_bps s) sid = Some (rs_funding_min_bps s ! sid)" "index_of (rs_funding_max_bps s) sid = Some (rs_funding_max_bps s ! sid)"
    using L ex sid by (simp_all only: users_for_symbol_def index_of_Some)
  let ?priced = "?mark \<noteq> 0 \<and> ix_price ?ix \<noteq> 0"
  have "rs_funding_min_bps s ! sid \<le> rs_funding_max_bps s ! sid" using ok sid by (simp add: bounds_ok_def)
  then obtain r0 where "calculate_rate ?mark (ix_price ?ix) (rs_funding_min_bps s ! sid) (rs_funding_max_bps s ! sid) = Some r0"
    using calculate_rate_total by blast
  then obtain rate where rate: "(if ?priced then calculate_rate ?mark (ix_price ?ix) (rs_funding_min_bps s ! sid) (rs_funding_max_bps s ! sid) else Some 0) = Some rate"
    by (cases ?priced) auto
  show ?thesis
  proof (cases "list_ex (\<lambda>(_, net_qty). net_qty \<noteq> 0) (exposed_users s sid ?us) \<and> \<not> ?priced")
    case True
    have "try_settle_interval s sid iid now = Some (s, False)"
      unfolding try_settle_interval_def ix Let_def Option.bind.simps using True by simp
    then show ?thesis by (auto simp: same_bounds_def)
  next
    case False
    let ?rows = "zip (exposed_users s sid ?us) (settle_symbol (map snd (exposed_users s sid ?us)) ?mark rate)"
    obtain s1 ps as where ch: "charge sid iid rate now ?rows s = (s1, ps, as)" by (metis prod_cases3)
    have b: "same_bounds s s1" using charge_bounds [of s sid iid rate now ?rows] ch by simp
    let ?s2 = "push_persist s1 (PeFundingSettlement \<lparr>fs_symbol_id = sid, fs_interval_id = iid, fs_payments = ps, fs_accounts = as\<rparr>)"
    have b2: "same_bounds s ?s2" by (rule same_bounds_trans [OF b]) (simp add: same_bounds_def, simp add: push_persist_def)
    have "sid < length (rs_funding_settled ?s2)"
      using tables_okD(8) [OF shard_tables [OF conjunct1 [OF same_bounds_ok [OF b2 ok]]]] sid b2 by (simp add: same_bounds_def keeps_def)
    then have st: "store_at (rs_funding_settled ?s2) sid (Some iid) = Some ((rs_funding_settled ?s2)[sid := Some iid])" by (rule store_at_Some)
    have "try_settle_interval s sid iid now = Some (?s2\<lparr>rs_funding_settled := (rs_funding_settled ?s2)[sid := Some iid]\<rparr>, True)"
      unfolding try_settle_interval_def Let_def
      using False rate by (simp only: ix Option.bind.simps if_False ch split_conv st)
    moreover have "same_bounds ?s2 (?s2\<lparr>rs_funding_settled := (rs_funding_settled ?s2)[sid := Some iid]\<rparr>)"
      by (simp add: same_bounds_def keeps_def tables)
    ultimately show ?thesis using same_bounds_trans [OF b2] by blast
  qed
qed

lemma settle_ids_ok:
  "shard_ok s \<and> bounds_ok s \<Longrightarrow> sid < rs_max_symbols s \<Longrightarrow> \<exists>s' r. settle_ids sid now iids s = Some (s', r) \<and> same_bounds s s'"
proof (induction iids arbitrary: s)
  case Nil
  then show ?case by (intro exI [of _ s] exI [of _ False]) (simp add: same_bounds_def)
next
  case (Cons i iids)
  obtain s1 r where s1: "try_settle_interval s sid i now = Some (s1, r)" "same_bounds s s1" using try_settle_ok [OF Cons.prems] by blast
  have "sid < rs_max_symbols s1" using Cons.prems(2) s1(2) by (simp add: same_bounds_def keeps_def)
  then obtain s2 r2 where s2: "settle_ids sid now iids s1 = Some (s2, r2)" "same_bounds s1 s2"
    using Cons.IH [OF same_bounds_ok [OF s1(2) Cons.prems(1)]] by blast
  have "same_bounds s s2" by (rule same_bounds_trans [OF s1(2) s2(2)])
  then show ?case using s1 s2(1) by (cases r) auto
qed

lemma settle_symbols_ok:
  "shard_ok s \<and> bounds_ok s \<Longrightarrow> (\<And>i. i \<in> set sids \<Longrightarrow> i < rs_max_symbols s) \<Longrightarrow> \<exists>s' r. settle_symbols now sids s w = Some (s', r) \<and> same_bounds s s'"
proof (induction sids arbitrary: s w)
  case Nil
  then show ?case by (simp add: same_bounds_def)
next
  case (Cons sid sids)
  note L = tables_okD [OF shard_tables [OF conjunct1 [OF Cons.prems(1)]]]
  have sid: "sid < rs_max_symbols s" using Cons.prems(2) by simp
  have ix: "index_of (rs_funding_interval_secs s) sid = Some (rs_funding_interval_secs s ! sid)" "index_of (rs_funding_settled s) sid = Some (rs_funding_settled s ! sid)"
    using L sid by (simp_all only: index_of_Some)
  have stay: "\<exists>s' r. settle_symbols now sids s w = Some (s', r) \<and> same_bounds s s'" for w using Cons.IH [OF Cons.prems(1)] Cons.prems(2) by auto
  have go: "\<exists>s' r. Option.bind (settle_ids sid now iids s) (\<lambda>(s', stalled). settle_symbols now sids s' (w \<or> stalled)) = Some (s', r) \<and> same_bounds s s'" for iids
  proof -
    obtain s1 r where s1: "settle_ids sid now iids s = Some (s1, r)" "same_bounds s s1" using settle_ids_ok [OF Cons.prems(1) sid] by blast
    have "i < rs_max_symbols s1" if "i \<in> set sids" for i using Cons.prems(2) that s1(2) by (auto simp: same_bounds_def keeps_def)
    then obtain s2 r2 where s2: "settle_symbols now sids s1 (w \<or> r) = Some (s2, r2)" "same_bounds s1 s2"
      using Cons.IH [OF same_bounds_ok [OF s1(2) Cons.prems(1)]] by blast
    have "same_bounds s s2" by (rule same_bounds_trans [OF s1(2) s2(2)])
    then show ?thesis using s1(1) s2(1) by simp
  qed
  show ?case unfolding settle_symbols.simps Let_def
    by (cases "params_of (rs_margin s) sid") (simp_all only: option.case stay ix Option.bind.simps go split: if_split, simp_all)
qed

lemma maybe_settle_ok:
  assumes "shard_ok s \<and> bounds_ok s" shows "\<exists>s'. maybe_settle_funding s now = Some s' \<and> same_bounds s s'"
proof -
  let ?s = "s\<lparr>rs_funding_checked_secs := now\<rparr>"
  have b: "same_bounds s ?s" by (simp add: same_bounds_def keeps_def tables)
  obtain s2 w where s2: "settle_symbols now [0..<rs_max_symbols ?s] ?s False = Some (s2, w)" "same_bounds ?s s2"
    using settle_symbols_ok [OF same_bounds_ok [OF b assms], of "[0..<rs_max_symbols ?s]" now False] by auto
  have "same_bounds s2 (s2\<lparr>rs_funding_stalled := w\<rparr>)" by (simp add: same_bounds_def keeps_def tables)
  then have "same_bounds s (s2\<lparr>rs_funding_stalled := w\<rparr>)" using same_bounds_trans [OF b s2(2)] same_bounds_trans by blast
  then show ?thesis using s2(1) by (auto simp: maybe_settle_funding_def Let_def same_bounds_def)
qed

end
