(* ===== verification/Risk_Reach.thy ===== *)
theory Risk_Reach
  imports Risk_Inv
begin

text \<open>
  The shard as a state machine: one rule per entry point the service calls. The invariant \<open>shard_ok\<close> holds in every reachable
  state, and no entry point panics in one.
\<close>

section \<open>The tick\<close>

lemma same_books_ok: "same_books s s' \<Longrightarrow> shard_ok s \<Longrightarrow> shard_ok s'"
  by (auto simp: same_books_def intro: keeps_ok)

lemma check_liquidation_ok:
  assumes "shard_ok s" shows "\<exists>s'. check_liquidation_for it s u now = Some s' \<and> keeps s s'"
  using check_liquidation_total [OF shard_tables [OF assms], of it u now] keeps_check_liquidation by blast

lemma keeps_bounds:
  assumes "check_liquidation_for it s u now = Some s'"
  shows "rs_funding_min_bps s' = rs_funding_min_bps s" "rs_funding_max_bps s' = rs_funding_max_bps s"
  using assms by (auto simp: check_liquidation_for_def fresh_marks_def rebuild_fallback_def queue_cancels_def Let_def
      split: if_splits bind_splits option.splits prod.splits)

lemma check_liquidation_bounds:
  assumes "shard_ok s" shows "\<exists>s'. check_liquidation_for it s u now = Some s' \<and> same_bounds s s'"
  using check_liquidation_ok [OF assms, of it u now] keeps_bounds [of it s u now] by (auto simp: same_bounds_def)

lemma scan_users_ok:
  "shard_ok s \<Longrightarrow> sid < rs_max_symbols s \<Longrightarrow> (\<And>i. i \<in> set is \<Longrightarrow> i < length (rs_exposure s ! sid)) \<Longrightarrow>
    \<exists>s'. scan_users it sid now is s = Some s' \<and> same_bounds s s'"
proof (induction "is" arbitrary: s)
  case Nil
  then show ?case by (simp add: same_bounds_def)
next
  case (Cons i "is")
  have u: "users_for_symbol (rs_exposure s) sid = Some (rs_exposure s ! sid)"
    using Cons.prems(1,2) by (simp add: users_for_symbol_def shard_ok_def exposure_ok_def index_of_Some)
  have i: "index_of (rs_exposure s ! sid) i = Some (rs_exposure s ! sid ! i)" using Cons.prems(3) [of i] by (simp add: index_of_Some)
  obtain s1 where s1: "check_liquidation_for it s (rs_exposure s ! sid ! i) now = Some s1" "same_bounds s s1"
    using check_liquidation_bounds [OF Cons.prems(1)] by blast
  have k: "keeps s s1" using s1(2) by (simp add: same_bounds_def)
  have "\<exists>s'. scan_users it sid now is s1 = Some s' \<and> same_bounds s1 s'"
    by (rule Cons.IH) (use keeps_ok [OF k Cons.prems(1)] k Cons.prems(2,3) in \<open>auto simp: keeps_def\<close>)
  then show ?case using u i s1 same_bounds_trans by (auto simp only: scan_users.simps Option.bind.simps)
qed

lemma process_bbo_bounds: "same_bounds s (process_bbo s bbo)"
  using keeps_process_bbo [of s bbo] by (simp add: same_bounds_def process_bbo_def Let_def)

lemma drain_bbos_ok:
  "shard_ok s \<Longrightarrow> (\<And>i. i \<in> set sids \<Longrightarrow> i < rs_max_symbols s) \<Longrightarrow> \<exists>s'. drain_bbos it now sids s = Some s' \<and> same_bounds s s'"
proof (induction sids arbitrary: s)
  case Nil
  then show ?case by (simp add: same_bounds_def)
next
  case (Cons sid sids)
  have sid: "sid < rs_max_symbols s" using Cons.prems(2) by simp
  have x: "index_of (rs_stashed_bbo s) sid = Some (rs_stashed_bbo s ! sid)"
    using tables_okD(12) [OF shard_tables [OF Cons.prems(1)]] sid by (simp only: index_of_Some)
  have rest: "\<exists>s''. drain_bbos it now sids s' = Some s'' \<and> same_bounds s s''" if "same_bounds s s'" for s'
  proof -
    have k: "keeps s s'" using that by (simp add: same_bounds_def)
    have "\<exists>s''. drain_bbos it now sids s' = Some s'' \<and> same_bounds s' s''"
      by (rule Cons.IH) (use keeps_ok [OF k Cons.prems(1)] k Cons.prems(2) in \<open>auto simp: keeps_def\<close>)
    then show ?thesis using same_bounds_trans [OF that] by blast
  qed
  show ?case
  proof (cases "rs_stashed_bbo s ! sid")
    case None
    then show ?thesis using rest [of s] x by (simp only: drain_bbos.simps Option.bind.simps option.case) (simp add: same_bounds_def)
  next
    case (Some bbo)
    let ?cleared = "s\<lparr>rs_stashed_bbo := (rs_stashed_bbo s)[sid := None]\<rparr>"
    let ?s = "process_bbo ?cleared bbo"
    have "same_bounds s ?cleared" by (simp add: same_bounds_def keeps_def tables)
    from same_bounds_trans [OF this process_bbo_bounds] have b: "same_bounds s ?s" .
    then have k: "keeps s ?s" by (simp add: same_bounds_def)
    have ok: "shard_ok ?s" by (rule keeps_ok [OF k Cons.prems(1)])
    have sid': "sid < rs_max_symbols ?s" using sid k by (simp add: keeps_def)
    have u: "users_for_symbol (rs_exposure ?s) sid = Some (rs_exposure ?s ! sid)"
      using ok sid' by (simp add: users_for_symbol_def shard_ok_def exposure_ok_def index_of_Some)
    obtain s2 where s2: "scan_users it sid now [0..<length (rs_exposure ?s ! sid)] ?s = Some s2" "same_bounds ?s s2"
      using scan_users_ok [OF ok sid', of "[0..<length (rs_exposure ?s ! sid)]" it now] by auto
    from rest [OF same_bounds_trans [OF b s2(2)]] show ?thesis using x Some u s2(1)
      by (simp only: drain_bbos.simps Option.bind.simps option.case Let_def)
  qed
qed

lemma drain_stashed_ok: "shard_ok s \<Longrightarrow> \<exists>s'. drain_stashed_bbos it s now = Some s' \<and> same_bounds s s'"
  unfolding drain_stashed_bbos_def by (rule drain_bbos_ok) auto

text \<open>Order ids a tick may draw: each is unused in the shard.\<close>

definition ids_fresh :: "risk_shard \<Rightarrow> (nat \<Rightarrow> u64 \<times> u64) \<Rightarrow> bool" where
  "ids_fresh s ids \<longleftrightarrow> inj (\<lambda>n. order_key (fst (ids n)) (snd (ids n))) \<and> (\<forall>n. rs_frozen_orders s (order_key (fst (ids n)) (snd (ids n))) = None)"

definition same_params :: "risk_shard \<Rightarrow> risk_shard \<Rightarrow> bool" where
  "same_params s s' \<longleftrightarrow> rs_funding_min_bps s' = rs_funding_min_bps s \<and> rs_funding_max_bps s' = rs_funding_max_bps s \<and> rs_max_symbols s' = rs_max_symbols s"

lemma process_order_frame:
  assumes "shard_ok s" "process_order it s order = Some (s', resp)"
  shows "same_params s s'" "\<And>k. k \<noteq> order_key (oq_order_id_hi order) (oq_order_id_lo order) \<Longrightarrow> rs_frozen_orders s' k = rs_frozen_orders s k"
  using assms by (auto simp: process_order_def ensure_account_def fresh_marks_def rebuild_fallback_def freeze_order_def Let_def same_params_def
      split: if_splits bind_splits option.splits sum.splits)

lemma place_ok:
  "shard_ok s \<Longrightarrow> inj (\<lambda>n. order_key (fst (ids n)) (snd (ids n))) \<Longrightarrow>
    (\<And>k. n \<le> k \<Longrightarrow> rs_frozen_orders s (order_key (fst (ids k)) (snd (ids k))) = None) \<Longrightarrow>
    \<exists>s' r' b. place_liquidations it ids now n liqs s r = Some (s', r', b) \<and> shard_ok s' \<and> same_params s s'"
proof (induction liqs arbitrary: s r n)
  case Nil
  then show ?case by (intro exI [of _ s] exI [of _ r] exI [of _ False]) (simp add: same_params_def)
next
  case (Cons liq liqs)
  show ?case
  proof (cases "me_full r \<or> response_full r")
    case True
    have "shard_ok (s\<lparr>rs_backpressured := True\<rparr>)" using Cons.prems(1) by (simp add: shard_ok_def tables_ok_def tables)
    then show ?thesis using True by (intro exI [of _ "s\<lparr>rs_backpressured := True\<rparr>"] exI [of _ r] exI [of _ True]) (simp add: same_params_def)
  next
    case False
    let ?o = "liq_to_order s liq now (ids n)"
    have ids: "oq_order_id_hi ?o = fst (ids n)" "oq_order_id_lo ?o = snd (ids n)" by (simp_all add: liq_to_order_def Let_def)
    obtain s1 resp where s1: "process_order it s ?o = Some (s1, resp)" "shard_ok s1"
      using process_order_ok [OF Cons.prems(1), of ?o it] Cons.prems(3) [of n] unfolding ids by auto
    note fr = process_order_frame [OF Cons.prems(1) s1(1)]
    have "order_key (fst (ids k)) (snd (ids k)) \<noteq> order_key (fst (ids n)) (snd (ids n))" if "Suc n \<le> k" for k
      using injD [OF Cons.prems(2), of k n] that by auto
    then have none: "rs_frozen_orders s1 (order_key (fst (ids k)) (snd (ids k))) = None" if "Suc n \<le> k" for k
      using fr(2) [unfolded ids] Cons.prems(3) [of k] that by auto
    have push: "\<exists>r1. (case resp of RspAccepted _ _ _ _ \<Rightarrow> Option.bind (push_me r (MeOrder ?o now)) (\<lambda>r1. push_response r1 x) | _ \<Rightarrow> Some r) = Some r1" for x
      using False by (cases resp) (simp_all add: push_me_def push_response_def response_full_def)
    then obtain r1 where r1: "(case resp of RspAccepted _ _ _ _ \<Rightarrow> Option.bind (push_me r (MeOrder ?o now)) (\<lambda>r1. push_response r1
        (RspLiquidation (lo_user_id liq) (lo_symbol_id liq) LIQUIDATION_PLACED (lo_round liq) (lo_side liq) (lo_qty liq) (oq_price ?o) (lo_slip_bps liq))) | _ \<Rightarrow> Some r) = Some r1" by blast
    obtain s' r' b where "place_liquidations it ids now (Suc n) liqs s1 r1 = Some (s', r', b)" "shard_ok s'" "same_params s1 s'"
      using Cons.IH [OF s1(2) Cons.prems(2) none] by blast
    moreover from this(1) have "place_liquidations it ids now n (liq # liqs) s r = Some (s', r', b)"
      using False s1(1) r1 by (simp add: Let_def)
    ultimately show ?thesis using fr(1) by (auto simp: same_params_def)
  qed
qed

lemma socialize_ok: "shard_ok s \<Longrightarrow> shard_ok (fst (socialize it now losses s r)) \<and> same_params s (fst (socialize it now losses s r))"
proof (induction losses arbitrary: s r)
  case Nil
  then show ?case by (simp add: same_params_def)
next
  case (Cons l losses)
  obtain s1 x where s1: "process_socialized_loss it s l now = (s1, x)" by (metis prod.exhaust)
  have k: "keeps s s1" using socialized_keeps [of s it l now] s1 by simp
  have "same_params s s1" using s1
    by (auto simp: process_socialized_loss_def Let_def push_persist_def same_params_def split: option.splits if_splits)
  then show ?case using Cons.IH [OF keeps_ok [OF k Cons.prems]] s1
    by (cases x; cases "push_response r (the x)") (auto simp: same_params_def)
qed

lemma drain_config_ok:
  assumes "shard_ok s" shows "\<exists>s'. drain_config_updates s = Some s' \<and> keeps s s'"
proof -
  have run: "shard_ok s \<Longrightarrow> \<exists>s'. apply_configs cs s = Some s' \<and> keeps s s'" for cs s
  proof (induction cs arbitrary: s)
    case (Cons c cs)
    obtain s1 where s1: "apply_symbol_config s c = Some s1" "keeps s s1" using apply_config_ok [OF Cons.prems] by blast
    then obtain s2 where "apply_configs cs s1 = Some s2" "keeps s1 s2" using Cons.IH [OF keeps_ok [OF s1(2) Cons.prems]] by blast
    then show ?case using s1 keeps_trans by auto
  qed simp
  have k: "keeps s (s\<lparr>rs_config_updates := x\<rparr>)" for s x by (simp add: keeps_def tables)
  show ?thesis
  proof (cases "rs_config_updates s")
    case None
    then show ?thesis by (simp add: drain_config_updates_def)
  next
    case (Some updates)
    obtain s1 where s1: "apply_configs updates (s\<lparr>rs_config_updates := None\<rparr>) = Some s1" "keeps (s\<lparr>rs_config_updates := None\<rparr>) s1"
      using run [OF keeps_ok [OF k assms]] by blast
    have "keeps s (s1\<lparr>rs_config_updates := Some []\<rparr>)" by (rule keeps_trans [OF keeps_trans [OF k s1(2)] k])
    then show ?thesis using Some s1(1) by (simp add: drain_config_updates_def)
  qed
qed

lemma tick_ok:
  assumes ok: "shard_ok s" and ids: "ids_fresh s ids" and upd: "\<And>s'. drain_config_updates s = Some s' \<Longrightarrow> bounds_ok s'"
  shows "\<exists>s' r'. tick it ids s r now_secs = Some (s', r') \<and> shard_ok s'"
proof -
  obtain s0 where s0: "drain_config_updates s = Some s0" "keeps s s0" using drain_config_ok [OF ok] by blast
  note ok0 = keeps_ok [OF s0(2) ok] and bounds = upd [OF s0(1)]
  have bp: "keeps s (s\<lparr>rs_backpressured := b\<rparr>)" for s b by (simp add: keeps_def tables)
  show ?thesis
  proof (cases "me_full r \<or> response_full r")
    case True
    then show ?thesis using s0(1) keeps_ok [OF bp ok0] by (simp add: tick_def)
  next
    case False
    then have c: "(me_full r \<or> response_full r) = False" by simp
    let ?now = "(now_secs * 1000000000) mod 18446744073709551616"
    obtain s1 r1 where s1: "drain_pending_cancels (s0\<lparr>rs_backpressured := False\<rparr>) r = (s1, r1)" by (metis prod.exhaust)
    have e1: "\<exists>cs. s1 = s0\<lparr>rs_backpressured := False, rs_pending_cancels := cs\<rparr>" using s1 by (auto simp: drain_pending_cancels_def Let_def split: prod.splits)
    then have k1: "keeps s0 s1" and b1: "same_params s0 s1" by (auto simp: keeps_def tables same_params_def)
    obtain s2 where s2: "fresh_marks s1 = Some s2" using fresh_marks_total [OF shard_tables [OF keeps_ok [OF k1 ok0]]] by blast
    have b2: "same_params s1 s2" using s2 by (auto simp: fresh_marks_def rebuild_fallback_def same_params_def split: if_splits bind_splits)
    have k2: "keeps s s2" by (rule keeps_trans [OF keeps_trans [OF s0(2) k1] keeps_fresh_marks [OF s2]])
    obtain e los losses where e: "maybe_process (rs_liquidation s2) ?now
         (\<lambda>uid sid. case rs_positions s2 (uid, sid) of Some p \<Rightarrow> pos_net_qty p | None \<Rightarrow> 0)
         (\<lambda>sid. if sid < length (rs_fallback_mark_prices s2) then rs_fallback_mark_prices s2 ! sid else 0) = (e, los, losses)" by (rule prod_cases3)
    let ?s = "s2\<lparr>rs_liquidation := e\<rparr>"
    have k3: "keeps s ?s" by (rule keeps_trans [OF k2 keeps_liquidation])
    have "rs_frozen_orders ?s = rs_frozen_orders s" using k3 by (simp add: keeps_def)
    then obtain s3 r3 b where s3: "place_liquidations it ids ?now 0 los ?s r1 = Some (s3, r3, b)" "shard_ok s3" "same_params ?s s3"
      using place_ok [OF keeps_ok [OF k3 ok], of ids 0 it ?now los r1] ids by (auto simp: ids_fresh_def)
    obtain s4 r4 where s4: "socialize it ?now losses s3 r3 = (s4, r4)" by (metis prod.exhaust)
    have ok4: "shard_ok s4" "same_params s3 s4" using socialize_ok [OF s3(2), of it ?now losses r3] s4 by auto
    let ?s5 = "s4\<lparr>rs_liquidation := remove_done (rs_liquidation s4)\<rparr>"
    have ok5: "shard_ok ?s5" by (rule keeps_ok [OF keeps_liquidation ok4(1)])
    have "same_params s0 s4" using b1 b2 s3(3) ok4(2) by (simp add: same_params_def)
    then have bd: "bounds_ok ?s5" using bounds by (simp add: bounds_ok_def same_params_def)
    obtain s6 where s6: "drain_stashed_bbos it ?s5 ?now = Some s6" "same_bounds ?s5 s6" using drain_stashed_ok [OF ok5] by blast
    have ok6: "shard_ok s6 \<and> bounds_ok s6" using same_bounds_ok [OF s6(2)] ok5 bd by blast
    obtain s7 where s7: "maybe_settle_funding s6 now_secs = Some s7" "same_bounds s6 s7" using maybe_settle_ok [OF ok6] by blast
    have "tick it ids s r now_secs = (if b then Some (s3, r3) else Some (s7, r4))"
      unfolding tick_def s0(1) Option.bind.simps c if_False Let_def s1 split_conv s2 e s3(1) s4 s6(1) s7(1) by (rule refl)
    moreover have "shard_ok s7" using same_bounds_ok [OF s7(2) ok6] by (rule conjunct1)
    ultimately show ?thesis using s3(2) by metis
  qed
qed

section \<open>Cold start\<close>

lemma map_of_snoc:
  assumes "distinct (map fst (rows @ [(k, v)]))" shows "map_of (rows @ [(k, v)]) = (map_of rows)(k \<mapsto> v)"
proof -
  have "map_of rows k = None" using assms by (auto simp: map_of_eq_None_iff)
  then show ?thesis by (auto simp: map_add_def fun_eq_iff split: option.split)
qed

lemma index_position_eq: "index_position m ((u, sid), p) = m(u \<mapsto> set_insert sid (listed m u))"
  by (simp add: index_position_def listed_default)

lemma index_freeze_eq: "index_freeze m (k, fz) = m(fz_user_id fz \<mapsto> AList.update k (fz_amount fz) (listed m (fz_user_id fz)))"
  by (simp add: index_freeze_def listed_default)

lemma index_positions_ok: "distinct (map fst rows) \<Longrightarrow> by_user_ok (map_of rows) (foldl index_position Map.empty rows)"
proof (induction rows rule: rev_induct)
  case Nil
  then show ?case by (simp add: by_user_ok_def symbols_of_def listed_def)
next
  case (snoc row rows)
  obtain u sid p where row: "row = ((u, sid), p)" by (metis prod.exhaust)
  have "by_user_ok (map_of rows) (foldl index_position Map.empty rows)" using snoc by simp
  from by_user_ok_insert [OF this, of u sid p] show ?case
    unfolding row foldl_append foldl.simps index_position_eq map_of_snoc [OF snoc.prems [unfolded row]] .
qed

lemma index_freezes_ok: "distinct (map fst rows) \<Longrightarrow> frozen_ok (map_of rows) (foldl index_freeze Map.empty rows)"
proof (induction rows rule: rev_induct)
  case Nil
  then show ?case by (simp add: frozen_ok_def listed_def)
next
  case (snoc row rows)
  obtain k fz where row: "row = (k, fz)" by (metis prod.exhaust)
  have IH: "frozen_ok (map_of rows) (foldl index_freeze Map.empty rows)" using snoc by simp
  have none: "map_of rows k = None" using snoc.prems by (auto simp: row map_of_eq_None_iff)
  have fz: "\<lparr>fz_user_id = fz_user_id fz, fz_symbol_id = fz_symbol_id fz, fz_amount = fz_amount fz\<rparr> = fz" by (cases fz) simp
  have "frozen_ok ((map_of rows)(k \<mapsto> fz)) ((foldl index_freeze Map.empty rows)(fz_user_id fz \<mapsto>
      AList.update k (fz_amount fz) (listed (foldl index_freeze Map.empty rows) (fz_user_id fz))))"
    using frozen_ok_insert [OF IH, of k "fz_user_id fz" "fz_symbol_id fz" "fz_amount fz"] none unfolding fz by simp
  then show ?case unfolding row foldl_append foldl.simps index_freeze_eq map_of_snoc [OF snoc.prems [unfolded row]] .
qed

lemma index_exposure_ok:
  assumes "length ex = n" "\<And>i. i < n \<Longrightarrow> distinct (ex ! i)"
  shows "\<exists>ex'. index_exposure n rows ex = Some ex' \<and> length ex' = n \<and> (\<forall>i<n. distinct (ex' ! i) \<and>
    set (ex' ! i) = set (ex ! i) \<union> {u. \<exists>p. ((u, i), p) \<in> set rows \<and> \<not> pos_is_empty p})"
  using assms
proof (induction rows arbitrary: ex)
  case (Cons row rows)
  obtain u sid p where row: "row = ((u, sid), p)" by (metis prod.exhaust)
  show ?case
  proof (cases "\<not> pos_is_empty p \<and> sid < n")
    case False
    then show ?thesis using Cons.IH [OF Cons.prems] by (auto simp: row)
  next
    case True
    let ?us = "ex ! sid"
    let ?ex = "if u \<in> set ?us then ex else ex[sid := ?us @ [u]]"
    have "add_user ex sid u = Some ?ex" using True Cons.prems(1) by (simp add: add_user_def index_of_Some)
    moreover have "length ?ex = n" "\<And>i. i < n \<Longrightarrow> distinct (?ex ! i)" using Cons.prems True by (auto simp: nth_list_update)
    moreover have "set (?ex ! i) = set (ex ! i) \<union> (if i = sid then {u} else {})" if "i < n" for i
      using that True Cons.prems(1) by auto
    moreover note Cons.IH [of ?ex]
    ultimately obtain ex' where "index_exposure n rows ?ex = Some ex'" "length ex' = n" and
      x: "\<And>i. i < n \<Longrightarrow> distinct (ex' ! i) \<and> set (ex' ! i) = set (ex ! i) \<union> (if i = sid then {u} else {}) \<union> {u. \<exists>p. ((u, i), p) \<in> set rows \<and> \<not> pos_is_empty p}"
      and a: "add_user ex sid u = Some ?ex" by auto
    then have "index_exposure n (row # rows) ex = Some ex'" "length ex' = n" using True by (simp_all add: row)
    moreover have "set (ex' ! i) = set (ex ! i) \<union> {v. \<exists>q. ((v, i), q) \<in> set (row # rows) \<and> \<not> pos_is_empty q}" if "i < n" for i
      using x [OF that] True by (auto simp: row)
    ultimately show ?thesis using x by blast
  qed
qed simp

lemma overlay_length [simp]: "length (overlay xs ys) = length xs"
  by (simp add: overlay_def)

lemma set_state_ok:
  assumes ok: "shard_ok s" and "distinct (map fst (cs_positions c))" "distinct (map fst (cs_frozen_orders c))"
  shows "\<exists>s'. set_state s c = Some s' \<and> shard_ok s'"
proof -
  let ?n = "rs_max_symbols s"
  obtain ex where ex: "index_exposure ?n (cs_positions c) (exposure_new ?n) = Some ex" "length ex = ?n"
    "\<And>i. i < ?n \<Longrightarrow> distinct (ex ! i) \<and> set (ex ! i) = {u. \<exists>p. ((u, i), p) \<in> set (cs_positions c) \<and> \<not> pos_is_empty p}"
    using index_exposure_ok [of "exposure_new ?n" ?n "cs_positions c"] by (auto simp: exposure_new_def)
  have "exposure_ok ?n (map_of (cs_positions c)) ex"
    using ex(2,3) assms(2) by (simp add: exposure_ok_def exposed_def)
  then show ?thesis using ok ex(1) index_positions_ok [OF assms(2)] index_freezes_ok [OF assms(3)]
    by (simp add: set_state_def shard_ok_def tables_ok_def tables)
qed


section \<open>The shard as a state machine\<close>

text \<open>The entry points the service calls, as events, and what each is called with.\<close>

datatype shard_event =
    EvOrder order_request
  | EvFill fill_event
  | EvBbo bbo_update
  | EvStash bbo_update
  | EvMark u32 i64
  | EvRelease u32 u64 u64
  | EvConfirm u32 u64 u64 u32
  | EvReplayFreeze u32 u64 u64 i64 i64 u32
  | EvConfig symbol_risk_config
  | EvConfigApplied u32 u64
  | EvColdStart cold_start_state
  | EvTick "nat \<Rightarrow> u64 \<times> u64" shard_rings u64

fun shard_exec :: "(nat list \<Rightarrow> nat list) \<Rightarrow> risk_shard \<Rightarrow> shard_event \<Rightarrow> risk_shard option" where
  "shard_exec it s (EvOrder order) = map_option fst (process_order it s order)"
| "shard_exec it s (EvFill fill) = process_fill it s fill"
| "shard_exec it s (EvBbo bbo) = Some (process_bbo s bbo)"
| "shard_exec it s (EvStash bbo) = Some (stash_bbo s bbo)"
| "shard_exec it s (EvMark sid price) = Some (update_mark s sid price)"
| "shard_exec it s (EvRelease u hi lo) = Some (release_frozen_for_order s u hi lo)"
| "shard_exec it s (EvConfirm u hi lo sid) = Some (confirm_freeze s u hi lo sid)"
| "shard_exec it s (EvReplayFreeze u hi lo price qty sid) = replay_freeze_order s u hi lo price qty sid"
| "shard_exec it s (EvConfig c) = apply_symbol_config s c"
| "shard_exec it s (EvConfigApplied sid v) = Some (process_config_applied s sid v)"
| "shard_exec it s (EvColdStart c) = set_state s c"
| "shard_exec it s (EvTick ids rings now_secs) = map_option fst (tick it ids s rings now_secs)"

definition own_key :: "risk_shard \<Rightarrow> u32 \<Rightarrow> u64 \<Rightarrow> u64 \<Rightarrow> bool" where
  "own_key s u hi lo \<longleftrightarrow> (case rs_frozen_orders s (order_key hi lo) of None \<Rightarrow> True | Some fz \<Rightarrow> fz_user_id fz = u)"

text \<open>An order id belongs to one user, ids drawn by a tick are unused, loaded tables have unique keys, and loaded funding bounds are not crossed.\<close>

fun event_ok :: "risk_shard \<Rightarrow> shard_event \<Rightarrow> bool" where
  "event_ok s (EvOrder order) = own_key s (oq_user_id order) (oq_order_id_hi order) (oq_order_id_lo order)"
| "event_ok s (EvReplayFreeze u hi lo price qty sid) = own_key s u hi lo"
| "event_ok s (EvColdStart c) = (distinct (map fst (cs_positions c)) \<and> distinct (map fst (cs_frozen_orders c)))"
| "event_ok s (EvTick ids rings now_secs) =
     (ids_fresh s ids \<and> (case drain_config_updates s of None \<Rightarrow> True | Some s' \<Rightarrow> bounds_ok s'))"
| "event_ok s _ = True"

fun shard_run :: "(nat list \<Rightarrow> nat list) \<Rightarrow> shard_event list \<Rightarrow> risk_shard \<Rightarrow> risk_shard option" where
  "shard_run it [] s = Some s"
| "shard_run it (e # es) s = do { s' \<leftarrow> shard_exec it s e; shard_run it es s' }"

fun events_ok :: "(nat list \<Rightarrow> nat list) \<Rightarrow> shard_event list \<Rightarrow> risk_shard \<Rightarrow> bool" where
  "events_ok it [] s \<longleftrightarrow> True"
| "events_ok it (e # es) s \<longleftrightarrow> event_ok s e \<and> (case shard_exec it s e of None \<Rightarrow> True | Some s' \<Rightarrow> events_ok it es s')"

lemma own_keyD: "own_key s u hi lo \<Longrightarrow> rs_frozen_orders s (order_key hi lo) = Some fz \<Longrightarrow> fz_user_id fz = u"
  by (simp add: own_key_def)

lemma process_fill_any: "shard_ok s \<Longrightarrow> \<exists>s'. process_fill it s f = Some s' \<and> shard_ok s'"
  using process_fill_old [of s f it] process_fill_ok [of s f it] tables_okD(4) [OF shard_tables, of s] by (metis not_le)

lemma shard_exec_ok:
  assumes ok: "shard_ok s" and ev: "event_ok s e" shows "\<exists>s'. shard_exec it s e = Some s' \<and> shard_ok s'"
proof (cases e)
  case (EvOrder order)
  then show ?thesis using process_order_ok [OF ok, of order it] ev by (force dest: own_keyD)
next
  case (EvFill fill)
  then show ?thesis using process_fill_any [OF ok] by simp
next
  case (EvReplayFreeze u hi lo price qty sid)
  then have "own_key s u hi lo" using ev by simp
  then show ?thesis using replay_freeze_ok [OF ok own_keyD] EvReplayFreeze by simp
next
  case (EvConfig c)
  then show ?thesis using apply_config_ok [OF ok, of c] keeps_ok [OF _ ok] by auto
next
  case (EvColdStart c)
  then show ?thesis using set_state_ok [OF ok] ev by simp
next
  case (EvTick ids rings now_secs)
  then have "\<And>s'. drain_config_updates s = Some s' \<Longrightarrow> bounds_ok s'" using ev by simp
  then show ?thesis using tick_ok [OF ok, of ids it rings now_secs] ev EvTick by auto
qed (use ok release_frozen_ok keeps_ok [OF _ ok] in auto)

lemma risk_shard_new_ok:
  assumes "length (sh_symbol_params c) = sh_max_symbols c" "length (sh_taker_fee_bps c) = sh_max_symbols c" "length (sh_maker_fee_bps c) = sh_max_symbols c"
  shows "shard_ok (risk_shard_new c)"
  using assms by (simp add: shard_ok_def tables_ok_def table_sizes_def risk_shard_new_def Let_def by_user_ok_def symbols_of_def listed_def frozen_ok_def
      exposure_ok_def exposure_new_def exposed_def)

lemma shard_run_ok: "shard_ok s \<Longrightarrow> events_ok it es s \<Longrightarrow> \<exists>s'. shard_run it es s = Some s' \<and> shard_ok s'"
proof (induction es arbitrary: s)
  case (Cons e es)
  obtain s1 where s1: "shard_exec it s e = Some s1" "shard_ok s1" using shard_exec_ok [OF Cons.prems(1)] Cons.prems(2) by auto
  then show ?case using Cons.IH [OF s1(2)] Cons.prems(2) by simp
qed simp

end
