(* ===== verification/Risk_Props.thy ===== *)
theory Risk_Props
  imports Risk_Reach
begin

text \<open>The properties of the risk shard: its indexes, the solvency of the pre-trade check, the exactly-once application of fills and the accounting of
  socialised losses.\<close>

section \<open>Frozen margin\<close>

text \<open>A table yields each of its keys once, in some order.\<close>

definition yields_keys :: "(nat list \<Rightarrow> nat list) \<Rightarrow> bool" where
  "yields_keys it \<longleftrightarrow> (\<forall>xs. mset (it xs) = mset xs)"

definition frozen_total :: "risk_shard \<Rightarrow> u32 \<Rightarrow> int" where
  "frozen_total s u = (\<Sum>(k, a)\<leftarrow>listed (rs_frozen_by_user s) u. a)"

lemma sat_sum_exact:
  assumes "\<And>x. x \<in> set xs \<Longrightarrow> 0 \<le> x" "0 \<le> t" "t + sum_list xs \<le> i64_max"
  shows "foldl sat_add t xs = t + sum_list xs"
  using assms
proof (induction xs arbitrary: t)
  case (Cons x xs)
  have "0 \<le> sum_list xs" using Cons.prems(1) by (intro sum_list_nonneg) simp
  moreover have "0 \<le> x" using Cons.prems(1) by simp
  ultimately have "sat_add t x = t + x" using Cons.prems(2,3) by (intro sat_add_id) (auto simp: in_i64_def i64_bounds)
  then show ?case using Cons.IH [of "t + x"] Cons.prems by (simp add: add.assoc)
qed simp

lemma mset_map_filter: "mset xs = mset ys \<Longrightarrow> mset (List.map_filter f xs) = mset (List.map_filter f ys)"
  by (simp add: List.map_filter_def mset_filter image_mset_filter_mset_swap cong: mset_map)

lemma map_filter_lookup: "distinct (map fst m) \<Longrightarrow> List.map_filter (map_of m) (map fst m) = map snd m"
proof -
  assume d: "distinct (map fst m)"
  have "List.map_filter (map_of m) (map fst m') = map snd m'" if "set m' \<subseteq> set m" for m'
    using that
  proof (induction m')
    case (Cons kv m')
    then have "map_of m (fst kv) = Some (snd kv)" using d by (simp add: map_of_eq_Some_iff)
    then show ?case using Cons by (simp add: map_filter_Cons)
  qed simp
  then show ?thesis by simp
qed

lemma frozen_for_user_exact:
  assumes ok: "shard_ok s" and it: "yields_keys it" and pos: "\<And>k a. (k, a) \<in> set (listed (rs_frozen_by_user s) u) \<Longrightarrow> 0 \<le> a"
    and fit: "frozen_total s u \<le> i64_max"
  shows "frozen_for_user it s u = frozen_total s u"
proof (cases "rs_frozen_by_user s u")
  case None
  then show ?thesis by (simp add: frozen_for_user_def frozen_total_def listed_def)
next
  case (Some m)
  then have l: "listed (rs_frozen_by_user s) u = m" by (simp add: listed_def)
  have d: "distinct (map fst m)" using ok frozen_okD(1) [of "rs_frozen_orders s" "rs_frozen_by_user s" u] l by (simp add: shard_ok_def)
  let ?vs = "List.map_filter (map_of m) (it (map fst m))"
  have "mset ?vs = mset (map snd m)"
    using mset_map_filter [of "it (map fst m)" "map fst m" "map_of m"] it unfolding map_filter_lookup [OF d] yields_keys_def by blast
  then have e: "sum_list ?vs = frozen_total s u" "set ?vs = snd ` set m"
    using mset_eq_setD [of ?vs "map snd m"] sum_mset_sum_list [of ?vs] sum_mset_sum_list [of "map snd m"]
    by (simp_all add: frozen_total_def l case_prod_unfold comp_def)
  have "foldl sat_add 0 ?vs = 0 + sum_list ?vs" by (rule sat_sum_exact) (use e pos l fit in auto)
  then show ?thesis using Some e by (simp add: frozen_for_user_def)
qed

lemma update_new: "map_of m k = None \<Longrightarrow> AList.update k a m = m @ [(k, a)]"
  by (induction m) (auto split: if_splits)

lemma frozen_total_insert:
  assumes ok: "shard_ok s" and new: "rs_frozen_orders s (order_key hi lo) = None"
  shows "listed (rs_frozen_by_user (freeze_order s u sid hi lo a)) v = listed (rs_frozen_by_user s) v @ (if v = u then [(order_key hi lo, a)] else [])"
    "frozen_total (freeze_order s u sid hi lo a) v = frozen_total s v + (if v = u then a else 0)"
proof -
  have "frozen_ok (rs_frozen_orders s) (rs_frozen_by_user s)" using ok by (simp add: shard_ok_def)
  then have "map_of (listed (rs_frozen_by_user s) u) (order_key hi lo) = None" using frozen_okD(2) [of "rs_frozen_orders s" _ u "order_key hi lo"] new by simp
  note up = update_new [OF this, of a]
  show l: "listed (rs_frozen_by_user (freeze_order s u sid hi lo a)) v = listed (rs_frozen_by_user s) v @ (if v = u then [(order_key hi lo, a)] else [])"
    by (simp add: freeze_order_def Let_def listed_default up)
  show "frozen_total (freeze_order s u sid hi lo a) v = frozen_total s v + (if v = u then a else 0)" by (simp add: frozen_total_def l)
qed

section \<open>Margin\<close>

lemma available_after_freeze:
  assumes "0 \<le> f" "0 \<le> m" "f + m \<le> i64_max" "m \<le> sat_sub x f" "x \<le> i64_max"
  shows "sat_sub x (f + m) = sat_sub x f - m" "0 \<le> sat_sub x (f + m)"
proof -
  have "sat_sub x f = x - f"
  proof (cases "i64_min \<le> x - f")
    case True
    then show ?thesis using assms by (intro sat_sub_id) (auto simp: in_i64_def i64_bounds)
  next
    case False
    then have "sat_sub x f = i64_min" by (simp add: sat_sub_def clamp64_def i64_bounds)
    then show ?thesis using assms(2,4) by (simp add: i64_bounds)
  qed
  moreover from this have "sat_sub x (f + m) = x - (f + m)" using assms by (intro sat_sub_id) (auto simp: in_i64_def i64_bounds)
  ultimately show "sat_sub x (f + m) = sat_sub x f - m" "0 \<le> sat_sub x (f + m)" using assms(4) by auto
qed

lemma calculate_available:
  "\<exists>x. x \<le> i64_max \<and> (\<forall>f. ms_available_margin (calculate ps a pos marks f) = sat_sub x f)"
proof -
  obtain u im mm g where f: "foldl (margin_step ps marks) (0, 0, 0, 0) pos = (u, im, mm, g)" by (metis prod_cases4)
  have "sat_sub (sat_add (ac_collateral a) u) im \<le> i64_max" using in_i64_clamp64 by (simp add: sat_sub_def in_i64_def)
  then show ?thesis by (intro exI [of _ "sat_sub (sat_add (ac_collateral a) u) im"]) (simp add: calculate_def f Let_def)
qed

lemma check_order_margin:
  assumes "check_order ps a pos order marks fee f = Inr m" "\<not> oq_is_liquidation order" "\<not> oq_reduce_only order"
  shows "\<exists>params. params_of ps (oq_symbol_id order) = Some params \<and> m = calculate_margin_needed params (oq_price order) (oq_qty order) fee \<and>
    m \<le> ms_available_margin (calculate ps a pos marks f)"
  using assms by (auto simp: check_order_def Let_def split: option.splits if_splits)

lemma fee_nonneg:
  assumes "0 < price" "0 < qty" "price * qty \<le> i64_max" "0 \<le> fee" "fee \<le> i64_max"
  shows "0 \<le> calculate_fee qty price fee"
proof -
  have b: "0 \<le> qty * price" "qty * price \<le> i64_max" using assms by (simp_all add: mult.commute)
  then have "qty * price * fee \<le> i64_max * i64_max" using assms by (intro mult_mono) auto
  moreover have "0 \<le> qty * price * fee" using b assms(4) by simp
  moreover have "i64_max * i64_max < 2 ^ 127" "i64_max < 2 ^ 127" "- (2 ^ 127) \<le> (0 :: int)" by (simp_all add: i64_max_def)
  ultimately have "in_i128 (qty * price * fee)" "in_i128 (qty * price)" using b unfolding in_i128_def by linarith+
  then have "i128_mul (i128_mul qty price) fee = qty * price * fee" by (simp add: i128_mul_def wrap128_id)
  moreover have "0 \<le> qty * price * fee div 10000" using b assms(4) by (simp add: pos_imp_zdiv_nonneg_iff)
  ultimately show ?thesis by (auto simp: calculate_fee_def Let_def try64_def i64_max_def)
qed

lemma margin_needed_nonneg:
  assumes "0 < price" "0 < qty" "price * qty \<le> i64_max" "0 \<le> rp_initial_margin_rate params" "0 \<le> fee" "fee \<le> i64_max"
  shows "0 \<le> calculate_margin_needed params price qty fee"
proof -
  have n: "0 < price * qty" using assms by simp
  then have "try64_or i64_max (price * qty) = price * qty" using assms(3) by (simp add: try64_or_def try64_def in_i64_def i64_bounds)
  moreover have "0 \<le> (price * qty * rp_initial_margin_rate params) sdiv 10000" using n assms(4) by (simp add: sdiv_nonneg pos_imp_zdiv_nonneg_iff)
  then have "0 \<le> try64_or i64_max ((price * qty * rp_initial_margin_rate params) sdiv 10000)" by (simp add: try64_or_def try64_def i64_max_def)
  ultimately show ?thesis using fee_nonneg [OF assms(1-3,5,6)] by (simp add: calculate_margin_needed_def Let_def sat_add_def clamp64_def i64_bounds)
qed

lemma same_user_view:
  assumes "keeps s s'" shows "iter_positions_for_user it s' u = iter_positions_for_user it s u" "frozen_for_user it s' u = frozen_for_user it s u"
    "frozen_total s' u = frozen_total s u"
proof -
  have e: "rs_positions s' = rs_positions s" "rs_positions_by_user s' = rs_positions_by_user s" "rs_frozen_by_user s' = rs_frozen_by_user s"
    using assms by (simp_all add: keeps_def)
  show "iter_positions_for_user it s' u = iter_positions_for_user it s u" "frozen_for_user it s' u = frozen_for_user it s u" "frozen_total s' u = frozen_total s u"
    unfolding iter_positions_for_user_def frozen_for_user_def frozen_total_def e by (rule refl)+
qed

section \<open>Properties\<close>

text \<open>C12: a risk shard never panics and its indexes never drift. From a fresh shard, every sequence of orders, fills, price updates, stashed
  updates, releases, confirmations, replayed reservations, configurations, cold starts and ticks, each admissible where it happens (an order id belongs to one
  user, loaded tables have unique keys, funding bounds are not crossed), runs to completion; afterwards the positions listed per user, the margin frozen per
  user and the users exposed per symbol are exactly those of the primary tables, whatever order the hash tables iterate in.\<close>

theorem shard_indexes_agree:
  assumes "length (sh_symbol_params c) = sh_max_symbols c" "length (sh_taker_fee_bps c) = sh_max_symbols c" "length (sh_maker_fee_bps c) = sh_max_symbols c"
    and "events_ok it es (risk_shard_new c)"
  shows "\<exists>s. shard_run it es (risk_shard_new c) = Some s \<and>
    (\<forall>u. distinct (listed (rs_positions_by_user s) u) \<and> set (listed (rs_positions_by_user s) u) = {sid. rs_positions s (u, sid) \<noteq> None}) \<and>
    (\<forall>u k. map_of (listed (rs_frozen_by_user s) u) k =
      (case rs_frozen_orders s k of None \<Rightarrow> None | Some fz \<Rightarrow> if fz_user_id fz = u then Some (fz_amount fz) else None)) \<and>
    (\<forall>sid<rs_max_symbols s. distinct (rs_exposure s ! sid) \<and> set (rs_exposure s ! sid) = {u. \<exists>p. rs_positions s (u, sid) = Some p \<and> \<not> pos_is_empty p})"
proof -
  obtain s where s: "shard_run it es (risk_shard_new c) = Some s" "shard_ok s" using shard_run_ok [OF risk_shard_new_ok [OF assms(1-3)] assms(4)] by blast
  then show ?thesis
    by (intro exI [of _ s]) (simp add: shard_ok_def by_user_ok_def symbols_of_def frozen_ok_def exposure_ok_def exposed_def)
qed



text \<open>C14: a fill is applied exactly once. A fill with a new sequence number for its symbol updates exactly the positions and the accounts of its two users that live
  in the shard, by \<open>apply_fill\<close> on opposite sides and by their fees, and advances the symbol's tip to its number; a fill at or below the tip, or for an unknown
  symbol, changes nothing. So applying the same fill again is a no-op and tips never go back.\<close>

theorem fill_applied_once:
  assumes ok: "shard_ok s"
  shows "\<exists>s1. process_fill it s f = Some s1 \<and> shard_ok s1 \<and> process_fill it s1 f = Some s1 \<and>
    (\<forall>i<length (rs_tips s). rs_tips s ! i \<le> rs_tips s1 ! i) \<and>
    (if fe_symbol_id f < rs_max_symbols s \<and> rs_tips s ! fe_symbol_id f < fe_seq f
     then (rs_positions s1, rs_accounts s1) = fill_effect s f \<and> rs_tips s1 = (rs_tips s)[fe_symbol_id f := fe_seq f] else s1 = s)"
proof (cases "fe_symbol_id f < rs_max_symbols s \<and> rs_tips s ! fe_symbol_id f < fe_seq f")
  case True
  have l: "length (rs_tips s) = rs_max_symbols s" by (rule tables_okD(4) [OF shard_tables [OF ok]])
  obtain s1 where s1: "process_fill it s f = Some s1" "shard_ok s1" "rs_tips s1 = (rs_tips s)[fe_symbol_id f := fe_seq f]"
    "(rs_positions s1, rs_accounts s1) = fill_effect s f" using process_fill_ok [OF ok] True by blast
  have "process_fill it s1 f = Some s1" by (rule process_fill_old) (use s1(3) True l in simp)
  moreover have "rs_tips s ! i \<le> rs_tips s1 ! i" if "i < length (rs_tips s)" for i
    using True that unfolding s1(3) by (cases "i = fe_symbol_id f") auto
  ultimately show ?thesis using True s1 by (intro exI [of _ s1]) simp
next
  case False
  have "length (rs_tips s) = rs_max_symbols s" by (rule tables_okD(4) [OF shard_tables [OF ok]])
  then have "process_fill it s f = Some s" using False by (intro process_fill_old) auto
  moreover have "(if fe_symbol_id f < rs_max_symbols s \<and> rs_tips s ! fe_symbol_id f < fe_seq f
     then (rs_positions s, rs_accounts s) = fill_effect s f \<and> rs_tips s = (rs_tips s)[fe_symbol_id f := fe_seq f] else s = s)"
    unfolding if_not_P [OF False] ..
  ultimately show ?thesis using ok by (intro exI [of _ s]) blast
qed

text \<open>C17: a socialised loss moves exactly the deficit. For an account whose equity is negative (and computed without saturation) the insurance fund of the
  symbol pays exactly what the account lacks: collateral and fund balance keep their sum, the account's equity becomes zero, and nothing else of the shard's books moves;
  for an account at or above zero nothing happens at all.\<close>

theorem socialized_loss_exact:
  assumes acc: "rs_accounts s (sl_user_id l) = Some a"
    and eq: "in_i64 (ac_collateral a + ms_unrealized_pnl (margin_of it s (sl_user_id l) a))"
    and range: "in_i64 (ac_collateral a - ms_equity (margin_of it s (sl_user_id l) a))" "i64_min < ms_equity (margin_of it s (sl_user_id l) a)"
      "in_i64 ((case rs_insurance_funds s (sl_symbol_id l) of Some f \<Rightarrow> if_balance f | None \<Rightarrow> 0) + ms_equity (margin_of it s (sl_user_id l) a))"
  defines "e \<equiv> ms_equity (margin_of it s (sl_user_id l) a)"
  shows "(0 \<le> e \<longrightarrow> process_socialized_loss it s l now = (s, None)) \<and>
    (e < 0 \<longrightarrow> (\<exists>s' n a' f'. process_socialized_loss it s l now = (s', Some n) \<and> keeps s s' \<and>
      rs_accounts s' = (rs_accounts s)(sl_user_id l \<mapsto> a') \<and> rs_insurance_funds s' = (rs_insurance_funds s)(sl_symbol_id l \<mapsto> f') \<and>
      ac_collateral a' = ac_collateral a - e \<and>
      ac_collateral a' + if_balance f' = ac_collateral a + (case rs_insurance_funds s (sl_symbol_id l) of Some f \<Rightarrow> if_balance f | None \<Rightarrow> 0) \<and>
      ms_equity (margin_of it s' (sl_user_id l) a') = 0))"
proof (cases "0 \<le> e")
  case True
  then show ?thesis using acc by (simp add: process_socialized_loss_def e_def Let_def)
next
  case False
  let ?u = "sl_user_id l" and ?sid = "sl_symbol_id l"
  have d: "sat_neg e = - e" using False range(2) by (simp add: sat_neg_def clamp64_id in_i64_def i64_bounds e_def)
  define f where "f = (case rs_insurance_funds s ?sid of Some f \<Rightarrow> f | None \<Rightarrow> insurance_fund_new ?sid 0)"
  have fb: "(case rs_insurance_funds s ?sid of Some f \<Rightarrow> if_balance f | None \<Rightarrow> 0) = if_balance f"
    by (simp add: f_def insurance_fund_new_def split: option.split)
  let ?a = "credit a (- e)" and ?f = "deduct f (- e)"
  have ca: "ac_collateral ?a = ac_collateral a - e" using range(1) by (simp add: credit_def e_def sat_add_id)
  have cf: "if_balance ?f = if_balance f + e" using range(3) fb by (simp add: deduct_def e_def sat_sub_id)
  let ?s = "fst (process_socialized_loss it s l now)"
  have run: "\<exists>n. process_socialized_loss it s l now = (?s, Some n)" "rs_accounts ?s = (rs_accounts s)(?u \<mapsto> ?a)"
    "rs_insurance_funds ?s = (rs_insurance_funds s)(?sid \<mapsto> ?f)" "rs_margin ?s = rs_margin s" "rs_fallback_mark_prices ?s = rs_fallback_mark_prices s"
    using acc False d by (simp_all add: process_socialized_loss_def e_def Let_def push_persist_def f_def)
  have k: "keeps s ?s" by (rule socialized_keeps)
  obtain u im mm g where fold: "foldl (margin_step (rs_margin s) (rs_fallback_mark_prices s)) (0, 0, 0, 0) (iter_positions_for_user it s ?u) = (u, im, mm, g)"
    by (metis prod_cases4)
  have e: "e = ac_collateral a + u" using eq by (simp add: e_def margin_of_def calculate_def fold Let_def sat_add_id)
  have "ms_equity (margin_of it ?s ?u ?a) = sat_add (ac_collateral a - e) u"
    unfolding margin_of_def same_user_view(1) [OF k] run(4,5) by (simp add: calculate_def fold Let_def ca)
  also have "\<dots> = 0" using e by (simp add: sat_add_def clamp64_def i64_bounds)
  finally have eq0: "ms_equity (margin_of it ?s ?u ?a) = 0" .
  obtain n where n: "process_socialized_loss it s l now = (?s, Some n)" using run(1) by blast
  have sum: "ac_collateral ?a + if_balance ?f = ac_collateral a + (case rs_insurance_funds s ?sid of Some f \<Rightarrow> if_balance f | None \<Rightarrow> 0)"
    unfolding ca cf fb by simp
  show ?thesis
    by (intro conjI impI exI [of _ ?s] exI [of _ n] exI [of _ ?a] exI [of _ ?f]) (use False n k run(2,3) ca sum eq0 in \<open>blast+\<close>)
qed

section \<open>Witnesses\<close>

text \<open>A one-symbol shard, user 7 with collateral, mark 100.\<close>

definition demo_config :: shard_config where
  "demo_config = \<lparr>sh_shard_id = 0, sh_shard_count = 1, sh_max_symbols = 1,
     sh_symbol_params = [Some \<lparr>rp_initial_margin_rate = 1000, rp_maintenance_margin_rate = 500, rp_max_leverage = 10, rp_min_notional = 1\<rparr>],
     sh_taker_fee_bps = [10], sh_maker_fee_bps = [0],
     sh_liquidation_config = \<lparr>lc_base_delay_ns = 100, lc_base_slip_bps = 1, lc_max_rounds = 10, lc_socialized_cooldown_ns = 1000, lc_max_slip_bps = 9999\<rparr>\<rparr>"

definition demo_shard :: risk_shard where
  "demo_shard = (risk_shard_new demo_config)\<lparr>rs_accounts := [7 \<mapsto> account_new 7 1000000], rs_mark_prices := [100]\<rparr>"

definition demo_req :: order_request where
  "demo_req = \<lparr>oq_user_id = 7, oq_symbol_id = 0, oq_price = 100, oq_qty = 50, oq_order_id_hi = 0, oq_order_id_lo = 1, oq_timestamp_ns = 0,
     oq_side = 0, oq_tif = 0, oq_reduce_only = False, oq_post_only = False, oq_is_liquidation = False\<rparr>"

lemma demo_shard_ok: "shard_ok (risk_shard_new demo_config)" "shard_ok demo_shard"
proof -
  show ok: "shard_ok (risk_shard_new demo_config)" by (rule risk_shard_new_ok) (simp_all add: demo_config_def)
  have "keeps (risk_shard_new demo_config) demo_shard" by (simp add: demo_shard_def keeps_def tables demo_config_def risk_shard_new_def)
  then show "shard_ok demo_shard" using ok by (rule keeps_ok)
qed

theorem shard_indexes_agree_witness:
  "\<exists>s. shard_run (\<lambda>xs. xs) [EvMark 0 100, EvFill \<lparr>fe_seq = 1, fe_symbol_id = 0, fe_taker_user_id = 7, fe_maker_user_id = 8, fe_price = 100, fe_qty = 5,
      fe_taker_side = 0, fe_timestamp_ns = 0\<rparr>] (risk_shard_new demo_config) = Some s \<and> distinct (listed (rs_positions_by_user s) 7)"
proof -
  let ?es = "[EvMark 0 100, EvFill \<lparr>fe_seq = 1, fe_symbol_id = 0, fe_taker_user_id = 7, fe_maker_user_id = 8, fe_price = 100, fe_qty = 5,
      fe_taker_side = 0, fe_timestamp_ns = 0\<rparr>]"
  have "events_ok (\<lambda>xs. xs) ?es (risk_shard_new demo_config)" by (simp split: option.split)
  then show ?thesis using shard_indexes_agree [of demo_config "\<lambda>xs. xs" ?es] by (auto simp: demo_config_def)
qed


theorem fill_applied_once_witness:
  "\<exists>s1. process_fill (\<lambda>xs. xs) demo_shard \<lparr>fe_seq = 1, fe_symbol_id = 0, fe_taker_user_id = 7, fe_maker_user_id = 8, fe_price = 100, fe_qty = 5,
      fe_taker_side = 0, fe_timestamp_ns = 0\<rparr> = Some s1 \<and> rs_tips s1 = [1]"
proof -
  have "rs_tips demo_shard = [0]" "rs_max_symbols demo_shard = 1" by (simp_all add: demo_shard_def risk_shard_new_def Let_def demo_config_def)
  then show ?thesis using fill_applied_once [OF demo_shard_ok(2), of "\<lambda>xs. xs" "\<lparr>fe_seq = 1, fe_symbol_id = 0, fe_taker_user_id = 7, fe_maker_user_id = 8,
      fe_price = 100, fe_qty = 5, fe_taker_side = 0, fe_timestamp_ns = 0\<rparr>"] by auto
qed

theorem socialized_loss_exact_witness:
  "\<exists>s' n a' f'. process_socialized_loss (\<lambda>xs. xs) (demo_shard\<lparr>rs_accounts := [7 \<mapsto> account_new 7 (- 40)]\<rparr>)
      \<lparr>sl_user_id = 7, sl_symbol_id = 0, sl_round = 11, sl_side = 1, sl_price = 100, sl_qty = 5, sl_timestamp_ns = 0\<rparr> 0 = (s', Some n) \<and>
    rs_accounts s' 7 = Some a' \<and> ac_collateral a' = 0 \<and> rs_insurance_funds s' 0 = Some f' \<and> if_balance f' = - 40"
proof -
  let ?s = "demo_shard\<lparr>rs_accounts := [7 \<mapsto> account_new 7 (- 40)]\<rparr>"
  let ?l = "\<lparr>sl_user_id = 7, sl_symbol_id = 0, sl_round = 11, sl_side = 1, sl_price = 100, sl_qty = 5, sl_timestamp_ns = 0\<rparr> :: socialized_loss"
  have acc: "rs_accounts ?s (sl_user_id ?l) = Some (account_new 7 (- 40))" by simp
  have e: "margin_of (\<lambda>xs. xs) ?s 7 (account_new 7 (- 40)) = \<lparr>ms_equity = - 40, ms_unrealized_pnl = 0, ms_initial_margin = 0, ms_maintenance_margin = 0,
      ms_available_margin = - 40, ms_gross_notional = 0\<rparr>" "rs_insurance_funds demo_shard 0 = None" "ac_collateral (account_new 7 (- 40)) = - 40" by code_simp+
  obtain s' n a' f' where "process_socialized_loss (\<lambda>xs. xs) ?s ?l 0 = (s', Some n)" "rs_accounts s' = [7 \<mapsto> a']" "ac_collateral a' = 0"
    "rs_insurance_funds s' = (rs_insurance_funds demo_shard)(0 \<mapsto> f')" "ac_collateral a' + if_balance f' = - 40"
    using socialized_loss_exact [OF acc, of "\<lambda>xs. xs" 0] by (auto simp: e in_i64_iff i64_bounds)
  then show ?thesis by (intro exI [of _ s'] exI [of _ n] exI [of _ a'] exI [of _ f']) simp
qed

end
