(* ===== verification/Wire_Records.thy ===== *)
theory Wire_Records
  imports Match_Props
begin

text \<open>
  The records the matching engine writes to its log and sends downstream (\<open>rsx-messages/src/lib.rs\<close>), the wire conversions of
  \<open>rsx-matching/src/wire.rs\<close> and the translation of book events into records (\<open>emit_events\<close> of \<open>rsx-matching/src/wal.rs\<close>).
  Padding bytes and the unused client id of an accepted order are left out.
\<close>

section \<open>Records\<close>

record fill_record =
  fl_seq :: u64
  fl_ts_ns :: u64
  fl_symbol_id :: u32
  fl_taker_user_id :: u32
  fl_maker_user_id :: u32
  fl_taker_fee_bps :: int
  fl_taker_order_id_hi :: u64
  fl_taker_order_id_lo :: u64
  fl_maker_order_id_hi :: u64
  fl_maker_order_id_lo :: u64
  fl_price :: i64
  fl_qty :: i64
  fl_taker_side :: u8
  fl_reduce_only :: u8
  fl_tif :: u8
  fl_post_only :: u8
  fl_maker_fee_bps :: int
  fl_gw_in_ns :: u64
  fl_risk_in_ns :: u64
  fl_me_in_ns :: u64
  fl_match_done_ns :: u64
  fl_gw_out_ns :: u64

record bbo_record =
  bb_seq :: u64
  bb_ts_ns :: u64
  bb_symbol_id :: u32
  bb_bid_px :: i64
  bb_bid_qty :: i64
  bb_bid_count :: u32
  bb_ask_px :: i64
  bb_ask_qty :: i64
  bb_ask_count :: u32

record order_inserted_record =
  oi_seq :: u64
  oi_ts_ns :: u64
  oi_symbol_id :: u32
  oi_user_id :: u32
  oi_order_id_hi :: u64
  oi_order_id_lo :: u64
  oi_price :: i64
  oi_qty :: i64
  oi_side :: u8
  oi_reduce_only :: u8
  oi_tif :: u8
  oi_post_only :: u8

record order_cancelled_record =
  oc_seq :: u64
  oc_ts_ns :: u64
  oc_symbol_id :: u32
  oc_user_id :: u32
  oc_order_id_hi :: u64
  oc_order_id_lo :: u64
  oc_remaining_qty :: i64
  oc_reason :: u8
  oc_reduce_only :: u8
  oc_tif :: u8
  oc_post_only :: u8

record order_done_record =
  od_seq :: u64
  od_ts_ns :: u64
  od_symbol_id :: u32
  od_user_id :: u32
  od_order_id_hi :: u64
  od_order_id_lo :: u64
  od_filled_qty :: i64
  od_remaining_qty :: i64
  od_final_status :: u8
  od_reduce_only :: u8
  od_tif :: u8
  od_post_only :: u8
  od_cancel_reason :: u8
  od_gw_in_ns :: u64
  od_risk_in_ns :: u64
  od_me_in_ns :: u64
  od_match_done_ns :: u64
  od_gw_out_ns :: u64

record order_accepted_record =
  oa_seq :: u64
  oa_ts_ns :: u64
  oa_user_id :: u32
  oa_symbol_id :: u32
  oa_order_id_hi :: u64
  oa_order_id_lo :: u64
  oa_price :: i64
  oa_qty :: i64
  oa_side :: u8
  oa_tif :: u8
  oa_reduce_only :: u8
  oa_post_only :: u8

record order_failed_record =
  of_seq :: u64
  of_ts_ns :: u64
  of_user_id :: u32
  of_order_id_hi :: u64
  of_order_id_lo :: u64
  of_reason :: u8

record config_applied_record =
  ca_seq :: u64
  ca_ts_ns :: u64
  ca_symbol_id :: u32
  ca_config_version :: u64
  ca_effective_at_ms :: u64
  ca_applied_at_ns :: u64

record order_message =
  om_seq :: u64
  om_price :: i64
  om_qty :: i64
  om_side :: u8
  om_tif :: u8
  om_reduce_only :: u8
  om_post_only :: u8
  om_user_id :: u32
  om_timestamp_ns :: u64
  om_order_id_hi :: u64
  om_order_id_lo :: u64
  om_risk_in_ns :: u64

text \<open>A record of the log with its type; \<open>set_seq\<close> and \<open>record_seq\<close> are the \<open>CastRecord\<close> methods, \<open>record_type\<close> the type code.\<close>

datatype wal_record =
    WrFill fill_record
  | WrBbo bbo_record
  | WrInserted order_inserted_record
  | WrCancelled order_cancelled_record
  | WrDone order_done_record
  | WrAccepted order_accepted_record
  | WrFailed order_failed_record
  | WrConfig config_applied_record

fun set_seq :: "u64 \<Rightarrow> wal_record \<Rightarrow> wal_record" where
  "set_seq n (WrFill r) = WrFill (r\<lparr>fl_seq := n\<rparr>)"
| "set_seq n (WrBbo r) = WrBbo (r\<lparr>bb_seq := n\<rparr>)"
| "set_seq n (WrInserted r) = WrInserted (r\<lparr>oi_seq := n\<rparr>)"
| "set_seq n (WrCancelled r) = WrCancelled (r\<lparr>oc_seq := n\<rparr>)"
| "set_seq n (WrDone r) = WrDone (r\<lparr>od_seq := n\<rparr>)"
| "set_seq n (WrAccepted r) = WrAccepted (r\<lparr>oa_seq := n\<rparr>)"
| "set_seq n (WrFailed r) = WrFailed (r\<lparr>of_seq := n\<rparr>)"
| "set_seq n (WrConfig r) = WrConfig (r\<lparr>ca_seq := n\<rparr>)"

fun record_seq :: "wal_record \<Rightarrow> u64" where
  "record_seq (WrFill r) = fl_seq r"
| "record_seq (WrBbo r) = bb_seq r"
| "record_seq (WrInserted r) = oi_seq r"
| "record_seq (WrCancelled r) = oc_seq r"
| "record_seq (WrDone r) = od_seq r"
| "record_seq (WrAccepted r) = oa_seq r"
| "record_seq (WrFailed r) = of_seq r"
| "record_seq (WrConfig r) = ca_seq r"

fun record_type :: "wal_record \<Rightarrow> nat" where
  "record_type (WrFill r) = 0"
| "record_type (WrBbo r) = 1"
| "record_type (WrInserted r) = 2"
| "record_type (WrCancelled r) = 3"
| "record_type (WrDone r) = 4"
| "record_type (WrAccepted r) = 7"
| "record_type (WrFailed r) = 12"
| "record_type (WrConfig r) = 5"

definition CANCEL_REASON_USER_CANCEL :: u8 where "CANCEL_REASON_USER_CANCEL = 0"
definition CANCEL_REASON_EXPIRY :: u8 where "CANCEL_REASON_EXPIRY = 2"
definition CANCEL_REASON_SYSTEM :: u8 where "CANCEL_REASON_SYSTEM = 3"
definition CANCEL_REASON_POST_ONLY_REJECT :: u8 where "CANCEL_REASON_POST_ONLY_REJECT = 4"

section \<open>Decoding an order\<close>

definition decode_side :: "u8 \<Rightarrow> side" where
  "decode_side x = (if x = 0 then Buy else Sell)"

definition decode_tif :: "u8 \<Rightarrow> time_in_force" where
  "decode_tif x = (if x = 1 then IOC else if x = 2 then FOK else GTC)"

definition to_incoming :: "order_message \<Rightarrow> incoming_order" where
  "to_incoming msg = \<lparr>io_price = om_price msg, io_qty = om_qty msg, io_remaining_qty = om_qty msg,
     io_side = decode_side (om_side msg), io_tif = decode_tif (om_tif msg), io_user_id = om_user_id msg,
     io_reduce_only = (om_reduce_only msg \<noteq> 0), io_post_only = (om_post_only msg \<noteq> 0), io_timestamp_ns = om_timestamp_ns msg,
     io_order_id_hi = om_order_id_hi msg, io_order_id_lo = om_order_id_lo msg\<rparr>"

section \<open>Records of book events\<close>

fun done_status_and_reason :: "order_done_reason \<Rightarrow> u8 \<times> u8" where
  "done_status_and_reason Filled = (0, 0)"
| "done_status_and_reason UserCancel = (2, CANCEL_REASON_USER_CANCEL)"
| "done_status_and_reason Expired = (2, CANCEL_REASON_EXPIRY)"
| "done_status_and_reason PostOnly = (2, CANCEL_REASON_POST_ONLY_REJECT)"
| "done_status_and_reason MatchLimit = (2, CANCEL_REASON_SYSTEM)"

fun failure_reason_code :: "order_failure_reason \<Rightarrow> u8" where
  "failure_reason_code InvalidTick = failure_reason_u8 InvalidTickSize"
| "failure_reason_code InvalidLot = failure_reason_u8 InvalidLotSize"
| "failure_reason_code ReduceOnly = failure_reason_u8 ReduceOnlyViolation"
| "failure_reason_code FillOrKill = failure_reason_u8 FrFillOrKill"
| "failure_reason_code Duplicate = failure_reason_u8 DuplicateOrderId"

definition slot_flags :: "orderbook \<Rightarrow> u32 \<Rightarrow> (u8 \<times> u8) option" where
  "slot_flags b handle =
     (if handle = NONE then Some (0, 0)
      else do { slot \<leftarrow> slab_get (ob_orders b) handle; Some (of_bool (is_reduce_only slot), os_tif slot) })"

text \<open>The four hop timestamps of a match cycle.\<close>

record hops =
  hp_gw_in_ns :: u64
  hp_risk_in_ns :: u64
  hp_me_in_ns :: u64
  hp_match_done_ns :: u64

definition no_hops :: hops where
  "no_hops = \<lparr>hp_gw_in_ns = 0, hp_risk_in_ns = 0, hp_me_in_ns = 0, hp_match_done_ns = 0\<rparr>"

definition record_of_event :: "orderbook \<Rightarrow> u32 \<Rightarrow> u64 \<Rightarrow> hops \<Rightarrow> event \<Rightarrow> wal_record option" where
  "record_of_event b symbol_id ts_ns hp e = (case e of
     Fill maker_handle maker_tif maker_reduce_only maker_user_id taker_user_id price qty sd maker_hi maker_lo taker_hi taker_lo gw_in_ns \<Rightarrow>
       Some (WrFill \<lparr>fl_seq = 0, fl_ts_ns = ts_ns, fl_symbol_id = symbol_id, fl_taker_user_id = taker_user_id,
       fl_maker_user_id = maker_user_id, fl_taker_fee_bps = 0, fl_taker_order_id_hi = taker_hi, fl_taker_order_id_lo = taker_lo,
       fl_maker_order_id_hi = maker_hi, fl_maker_order_id_lo = maker_lo, fl_price = price, fl_qty = qty, fl_taker_side = sd,
       fl_reduce_only = of_bool maker_reduce_only, fl_tif = maker_tif, fl_post_only = 0, fl_maker_fee_bps = 0, fl_gw_in_ns = gw_in_ns,
       fl_risk_in_ns = hp_risk_in_ns hp, fl_me_in_ns = hp_me_in_ns hp, fl_match_done_ns = hp_match_done_ns hp, fl_gw_out_ns = 0\<rparr>)
   | OrderInserted handle user_id sd price qty hi lo \<Rightarrow>
       do {
     (reduce_only, tif) \<leftarrow> slot_flags b handle;
     Some (WrInserted \<lparr>oi_seq = 0, oi_ts_ns = ts_ns, oi_symbol_id = symbol_id, oi_user_id = user_id, oi_order_id_hi = hi,
       oi_order_id_lo = lo, oi_price = price, oi_qty = qty, oi_side = sd, oi_reduce_only = reduce_only, oi_tif = tif, oi_post_only = 0\<rparr>)
   }
   | OrderCancelled handle user_id remaining_qty hi lo \<Rightarrow>
       do {
     (reduce_only, tif) \<leftarrow> slot_flags b handle;
     Some (WrCancelled \<lparr>oc_seq = 0, oc_ts_ns = ts_ns, oc_symbol_id = symbol_id, oc_user_id = user_id, oc_order_id_hi = hi,
       oc_order_id_lo = lo, oc_remaining_qty = remaining_qty, oc_reason = CANCEL_REASON_USER_CANCEL, oc_reduce_only = reduce_only,
       oc_tif = tif, oc_post_only = 0\<rparr>)
   }
   | OrderDone handle tif reduce_only user_id reason filled_qty remaining_qty hi lo \<Rightarrow>
       (let hp' = (if handle = NONE then hp else no_hops);
          (final_status, cancel_reason) = done_status_and_reason reason
      in Some (WrDone \<lparr>od_seq = 0, od_ts_ns = ts_ns, od_symbol_id = symbol_id, od_user_id = user_id, od_order_id_hi = hi,
        od_order_id_lo = lo, od_filled_qty = filled_qty, od_remaining_qty = remaining_qty, od_final_status = final_status,
        od_reduce_only = of_bool reduce_only, od_tif = tif, od_post_only = 0, od_cancel_reason = cancel_reason,
        od_gw_in_ns = hp_gw_in_ns hp', od_risk_in_ns = hp_risk_in_ns hp', od_me_in_ns = hp_me_in_ns hp',
        od_match_done_ns = hp_match_done_ns hp', od_gw_out_ns = 0\<rparr>))
   | OrderFailed user_id reason hi lo \<Rightarrow>
       Some (WrFailed \<lparr>of_seq = 0, of_ts_ns = ts_ns, of_user_id = user_id, of_order_id_hi = hi, of_order_id_lo = lo,
       of_reason = failure_reason_code reason\<rparr>)
   | BBO bid_px bid_qty ask_px ask_qty \<Rightarrow>
       Some (WrBbo \<lparr>bb_seq = 0, bb_ts_ns = ts_ns, bb_symbol_id = symbol_id, bb_bid_px = bid_px, bb_bid_qty = bid_qty, bb_bid_count = 0,
       bb_ask_px = ask_px, bb_ask_qty = ask_qty, bb_ask_count = 0\<rparr>))"

text \<open>The records of a list of events, in order; \<open>None\<close> when a handle is out of range.\<close>

fun emit_events :: "orderbook \<Rightarrow> u32 \<Rightarrow> u64 \<Rightarrow> hops \<Rightarrow> event list \<Rightarrow> wal_record list option" where
  "emit_events b symbol_id ts_ns hp [] = Some []"
| "emit_events b symbol_id ts_ns hp (e # es) = do {
     r \<leftarrow> record_of_event b symbol_id ts_ns hp e;
     rs \<leftarrow> emit_events b symbol_id ts_ns hp es;
     Some (r # rs)
   }"

section \<open>Lemmas\<close>

lemma record_seq_set [simp]: "record_seq (set_seq n r) = n" "record_type (set_seq n r) = record_type r"
  by (cases r; simp)+

text \<open>A record is built for every event whose handle is in the slab or absent.\<close>

definition event_slot :: "event \<Rightarrow> u32" where
  "event_slot e = (case e of OrderInserted h u sd p q hi lo \<Rightarrow> h | OrderCancelled h u q hi lo \<Rightarrow> h | _ \<Rightarrow> NONE)"

lemma record_of_event_total:
  assumes "event_slot e = NONE \<or> event_slot e < length (slots (ob_orders b))"
  shows "\<exists>r. record_of_event b sid ts hp e = Some r"
  using assms by (cases e) (auto simp: record_of_event_def event_slot_def slot_flags_def slab_get_def index_of_def Let_def split: prod.split)

lemma emit_events_total:
  assumes "\<forall>e\<in>set es. event_slot e = NONE \<or> event_slot e < length (slots (ob_orders b))"
  shows "\<exists>rs. emit_events b sid ts hp es = Some rs \<and> length rs = length es"
  using assms
proof (induction es)
  case (Cons e es)
  then show ?case using record_of_event_total [of e b sid ts hp] by force
qed simp

lemma emit_events_nth:
  assumes "emit_events b sid ts hp es = Some rs"
  shows "length rs = length es \<and> (\<forall>i<length es. record_of_event b sid ts hp (es ! i) = Some (rs ! i))"
  using assms
proof (induction es arbitrary: rs)
  case (Cons e es)
  then show ?case by (auto simp: bind_eq_Some_conv nth_Cons split: nat.split)
qed simp

end
