(* ===== verification/Dedup.thy ===== *)
theory Dedup
  imports Prelude
begin

text \<open>
  \<open>rsx-matching/src/dedup.rs\<close>: the keys of the orders accepted in the last hour. An \<open>Instant\<close> is a number of
  nanoseconds since the origin of the monotonic clock, so \<open>checked_sub\<close> fails below zero; the reading of \<open>Instant::now()\<close> in \<open>new\<close> and
  \<open>seed\<close> is an argument.
\<close>

section \<open>The tracker\<close>

type_synonym order_key = "u32 \<times> u64 \<times> u64"

definition DEDUP_WINDOW :: nat where "DEDUP_WINDOW = 3600000000000"
definition DEDUP_CLEANUP_INTERVAL :: nat where "DEDUP_CLEANUP_INTERVAL = 10000000000"

record dedup_tracker =
  dd_seen :: "order_key set"
  dd_pruning_queue :: "(order_key \<times> nat) list"
  dd_last_cleanup :: nat
  dd_now :: nat

definition dedup_new :: "nat \<Rightarrow> dedup_tracker" where
  "dedup_new now = \<lparr>dd_seen = {}, dd_pruning_queue = [], dd_last_cleanup = now, dd_now = now\<rparr>"

definition refresh_clock :: "dedup_tracker \<Rightarrow> nat \<Rightarrow> dedup_tracker" where
  "refresh_clock d now = d\<lparr>dd_now := now\<rparr>"

definition check_and_insert :: "dedup_tracker \<Rightarrow> u32 \<Rightarrow> u64 \<Rightarrow> u64 \<Rightarrow> dedup_tracker \<times> bool" where
  "check_and_insert d user_id order_id_hi order_id_lo =
     (let key = (user_id, order_id_hi, order_id_lo)
      in if key \<in> dd_seen d then (d, True)
         else (d\<lparr>dd_seen := insert key (dd_seen d), dd_pruning_queue := dd_pruning_queue d @ [(key, dd_now d)]\<rparr>, False))"

definition seed :: "dedup_tracker \<Rightarrow> nat \<Rightarrow> u32 \<Rightarrow> u64 \<Rightarrow> u64 \<Rightarrow> nat \<Rightarrow> dedup_tracker" where
  "seed d instant_now user_id order_id_hi order_id_lo inserted_ago =
     (if inserted_ago \<ge> DEDUP_WINDOW then d
      else let key = (user_id, order_id_hi, order_id_lo)
        in if key \<in> dd_seen d then d
           else let inserted_at = (if inserted_ago \<le> instant_now then instant_now - inserted_ago else instant_now)
             in d\<lparr>dd_seen := insert key (dd_seen d), dd_pruning_queue := dd_pruning_queue d @ [(key, inserted_at)]\<rparr>)"

fun evict_loop :: "nat \<Rightarrow> (order_key \<times> nat) list \<Rightarrow> order_key set \<Rightarrow> (order_key \<times> nat) list \<times> order_key set" where
  "evict_loop cutoff [] seen = ([], seen)"
| "evict_loop cutoff ((key, ts) # queue) seen =
     (if ts \<ge> cutoff then ((key, ts) # queue, seen) else evict_loop cutoff queue (seen - {key}))"

definition evict :: "dedup_tracker \<Rightarrow> nat \<Rightarrow> dedup_tracker" where
  "evict d cutoff =
     (let (queue, seen) = evict_loop cutoff (dd_pruning_queue d) (dd_seen d) in d\<lparr>dd_pruning_queue := queue, dd_seen := seen\<rparr>)"

definition maybe_cleanup :: "dedup_tracker \<Rightarrow> dedup_tracker" where
  "maybe_cleanup d =
     (if dd_now d - dd_last_cleanup d < DEDUP_CLEANUP_INTERVAL then d
      else let d1 = (if DEDUP_WINDOW \<le> dd_now d then evict d (dd_now d - DEDUP_WINDOW) else d)
        in d1\<lparr>dd_last_cleanup := dd_now d\<rparr>)"

definition dedup_len :: "dedup_tracker \<Rightarrow> nat" where "dedup_len d = card (dd_seen d)"
definition dedup_is_empty :: "dedup_tracker \<Rightarrow> bool" where "dedup_is_empty d \<longleftrightarrow> dd_seen d = {}"

section \<open>Invariant\<close>

text \<open>The set is the set of queued keys, each once, oldest first and none from the future.\<close>

definition dedup_ok :: "dedup_tracker \<Rightarrow> bool" where
  "dedup_ok d \<longleftrightarrow> dd_seen d = fst ` set (dd_pruning_queue d) \<and> distinct (map fst (dd_pruning_queue d)) \<and>
     sorted (map snd (dd_pruning_queue d)) \<and> (\<forall>x\<in>set (dd_pruning_queue d). snd x \<le> dd_now d)"

text \<open>The abstract state: when each key still known was inserted.\<close>

definition stamp :: "dedup_tracker \<Rightarrow> order_key \<Rightarrow> nat option" where
  "stamp d = map_of (dd_pruning_queue d)"

lemma seen_stamp: "dedup_ok d \<Longrightarrow> k \<in> dd_seen d \<longleftrightarrow> stamp d k \<noteq> None"
  by (simp add: dedup_ok_def stamp_def map_of_eq_None_iff)

lemma evict_loop_eq:
  assumes "distinct (map fst q)" "sorted (map snd q)" "seen = fst ` set q"
  shows "evict_loop c q seen = (filter (\<lambda>x. c \<le> snd x) q, fst ` set (filter (\<lambda>x. c \<le> snd x) q))"
  using assms
proof (induction c q seen rule: evict_loop.induct)
  case (2 c k t q seen)
  show ?case
  proof (cases "c \<le> t")
    case True
    then have "\<forall>x\<in>set q. c \<le> snd x" using 2(3) by fastforce
    then have "filter (\<lambda>x. c \<le> snd x) q = q" by (simp add: filter_id_conv)
    then show ?thesis using True 2(4) by simp
  next
    case False
    have "seen - {k} = fst ` set q" using 2(2,4) by auto
    then show ?thesis using 2(1) [OF False] 2(2,3) False by simp
  qed
qed simp

lemma map_of_filter_snd: "distinct (map fst q) \<Longrightarrow> map_of (filter (\<lambda>x. P (snd x)) q) k =
    (case map_of q k of Some t \<Rightarrow> if P t then Some t else None | None \<Rightarrow> None)"
  by (induction q) (auto simp: map_of_eq_None_iff split: option.split intro: map_of_eq_None_iff [THEN iffD2])

lemma evict_ok:
  assumes "dedup_ok d"
  shows "dedup_ok (evict d c)" "stamp (evict d c) k = (case stamp d k of Some t \<Rightarrow> if c \<le> t then Some t else None | None \<Rightarrow> None)"
    "dd_now (evict d c) = dd_now d"
proof -
  have e: "evict_loop c (dd_pruning_queue d) (dd_seen d) =
      (filter (\<lambda>x. c \<le> snd x) (dd_pruning_queue d), fst ` set (filter (\<lambda>x. c \<le> snd x) (dd_pruning_queue d)))"
    by (rule evict_loop_eq) (use assms in \<open>auto simp: dedup_ok_def\<close>)
  let ?q = "filter (\<lambda>x. c \<le> snd x) (dd_pruning_queue d)"
  have ev: "evict d c = d\<lparr>dd_pruning_queue := ?q, dd_seen := fst ` set ?q\<rparr>" by (simp add: evict_def e)
  have "distinct (map fst (dd_pruning_queue d))" "sorted (map snd (dd_pruning_queue d))" using assms by (auto simp: dedup_ok_def)
  then show "dedup_ok (evict d c)" using assms unfolding ev by (simp add: dedup_ok_def distinct_map_filter sorted_filter)
  show "stamp (evict d c) k = (case stamp d k of Some t \<Rightarrow> if c \<le> t then Some t else None | None \<Rightarrow> None)"
    using map_of_filter_snd [OF \<open>distinct (map fst (dd_pruning_queue d))\<close>] by (simp add: ev stamp_def)
  show "dd_now (evict d c) = dd_now d" by (simp add: ev)
qed

lemma dedup_new_ok: "dedup_ok (dedup_new now)"
  by (simp add: dedup_ok_def dedup_new_def)

lemma dedup_refresh_ok:
  assumes "dedup_ok d" "dd_now d \<le> now"
  shows "dedup_ok (refresh_clock d now)" "stamp (refresh_clock d now) = stamp d"
  using assms by (force simp: dedup_ok_def refresh_clock_def stamp_def)+

text \<open>The step \<open>check_and_insert\<close> and \<open>seed\<close> share: a key not seen goes to the tail of the queue.\<close>

lemma enqueue_key_ok:
  assumes "dedup_ok d" and new: "key \<notin> dd_seen d" and t: "\<forall>x\<in>set (dd_pruning_queue d). snd x \<le> t" "t \<le> dd_now d"
    and e: "e = d\<lparr>dd_seen := insert key (dd_seen d), dd_pruning_queue := dd_pruning_queue d @ [(key, t)]\<rparr>"
  shows "dedup_ok e" "stamp e k = (if k = key \<and> stamp d k = None then Some t else stamp d k)"
proof -
  have n: "key \<notin> fst ` set (dd_pruning_queue d)" using assms(1) new by (simp add: dedup_ok_def)
  then show "dedup_ok e" using assms(1) t unfolding e by (auto simp: dedup_ok_def sorted_append)
  have "map_of (dd_pruning_queue d) key = None" using n by (simp add: map_of_eq_None_iff)
  then show "stamp e k = (if k = key \<and> stamp d k = None then Some t else stamp d k)"
    unfolding e by (auto simp: stamp_def map_add_def split: option.split)
qed

lemma check_ok:
  assumes "dedup_ok d"
  shows "dedup_ok (fst (check_and_insert d u hi lo))" "snd (check_and_insert d u hi lo) \<longleftrightarrow> stamp d (u, hi, lo) \<noteq> None"
    "stamp (fst (check_and_insert d u hi lo)) k =
      (if k = (u, hi, lo) \<and> stamp d k = None then Some (dd_now d) else stamp d k)"
    "dd_now (fst (check_and_insert d u hi lo)) = dd_now d"
proof -
  let ?k = "(u, hi, lo)" and ?q = "dd_pruning_queue d"
  show "snd (check_and_insert d u hi lo) \<longleftrightarrow> stamp d ?k \<noteq> None" using seen_stamp [OF assms, of ?k] by (simp add: check_and_insert_def Let_def)
  show "dd_now (fst (check_and_insert d u hi lo)) = dd_now d" by (simp add: check_and_insert_def Let_def)
  have "dedup_ok (fst (check_and_insert d u hi lo)) \<and> stamp (fst (check_and_insert d u hi lo)) k =
      (if k = (u, hi, lo) \<and> stamp d k = None then Some (dd_now d) else stamp d k)"
  proof (cases "?k \<in> dd_seen d")
    case True
    then show ?thesis using assms seen_stamp [OF assms, of ?k] by (auto simp: check_and_insert_def)
  next
    case False
    have "\<forall>x\<in>set ?q. snd x \<le> dd_now d" using assms by (simp add: dedup_ok_def)
    moreover have "fst (check_and_insert d u hi lo) =
        d\<lparr>dd_seen := insert ?k (dd_seen d), dd_pruning_queue := ?q @ [(?k, dd_now d)]\<rparr>"
      using False by (simp add: check_and_insert_def Let_def)
    ultimately show ?thesis using enqueue_key_ok [OF assms False _ order_refl, of "fst (check_and_insert d u hi lo)"] by blast
  qed
  then show "dedup_ok (fst (check_and_insert d u hi lo))" "stamp (fst (check_and_insert d u hi lo)) k =
      (if k = (u, hi, lo) \<and> stamp d k = None then Some (dd_now d) else stamp d k)" by blast+
qed

lemma cleanup_ok:
  assumes "dedup_ok d"
  shows "dedup_ok (maybe_cleanup d)" "dd_now (maybe_cleanup d) = dd_now d"
    "stamp (maybe_cleanup d) k = (if DEDUP_CLEANUP_INTERVAL \<le> dd_now d - dd_last_cleanup d \<and> DEDUP_WINDOW \<le> dd_now d
      then (case stamp d k of Some t \<Rightarrow> if dd_now d \<le> t + DEDUP_WINDOW then Some t else None | None \<Rightarrow> None) else stamp d k)"
proof -
  have last: "dedup_ok (e\<lparr>dd_last_cleanup := t\<rparr>) = dedup_ok e" "stamp (e\<lparr>dd_last_cleanup := t\<rparr>) = stamp e" for e t
    by (simp_all add: dedup_ok_def stamp_def)
  show "dedup_ok (maybe_cleanup d)" "dd_now (maybe_cleanup d) = dd_now d"
    using assms evict_ok(1,3) [OF assms] by (simp_all add: maybe_cleanup_def Let_def last)
  show "stamp (maybe_cleanup d) k = (if DEDUP_CLEANUP_INTERVAL \<le> dd_now d - dd_last_cleanup d \<and> DEDUP_WINDOW \<le> dd_now d
      then (case stamp d k of Some t \<Rightarrow> if dd_now d \<le> t + DEDUP_WINDOW then Some t else None | None \<Rightarrow> None) else stamp d k)"
    using evict_ok(2) [OF assms] by (auto simp: maybe_cleanup_def Let_def last not_less split: option.split)
qed

lemma seed_ok:
  assumes "dedup_ok d" and late: "\<forall>x\<in>set (dd_pruning_queue d). snd x + ago \<le> instant" and ago: "ago \<le> instant" "instant \<le> dd_now d + ago"
  shows "dedup_ok (seed d instant u hi lo ago)"
    "stamp (seed d instant u hi lo ago) k =
      (if k = (u, hi, lo) \<and> stamp d k = None \<and> ago < DEDUP_WINDOW then Some (instant - ago) else stamp d k)"
proof -
  let ?k = "(u, hi, lo)" and ?q = "dd_pruning_queue d"
  have "dedup_ok (seed d instant u hi lo ago) \<and> stamp (seed d instant u hi lo ago) k =
      (if k = (u, hi, lo) \<and> stamp d k = None \<and> ago < DEDUP_WINDOW then Some (instant - ago) else stamp d k)"
  proof (cases "?k \<in> dd_seen d \<or> DEDUP_WINDOW \<le> ago")
    case True
    then show ?thesis using assms(1) seen_stamp [OF assms(1), of ?k] by (auto simp: seed_def Let_def)
  next
    case False
    have "\<forall>x\<in>set ?q. snd x \<le> instant - ago" using late by force
    moreover have "seed d instant u hi lo ago =
        d\<lparr>dd_seen := insert ?k (dd_seen d), dd_pruning_queue := ?q @ [(?k, instant - ago)]\<rparr>"
      using False ago by (simp add: seed_def Let_def)
    moreover have "instant - ago \<le> dd_now d" using ago by simp
    ultimately show ?thesis using enqueue_key_ok [OF assms(1) _ _ _, of ?k "instant - ago" "seed d instant u hi lo ago"] False by simp
  qed
  then show "dedup_ok (seed d instant u hi lo ago)" "stamp (seed d instant u hi lo ago) k =
      (if k = (u, hi, lo) \<and> stamp d k = None \<and> ago < DEDUP_WINDOW then Some (instant - ago) else stamp d k)" by blast+
qed

section \<open>Runs\<close>

datatype dedup_op = DdClock nat | DdCheck u32 u64 u64 | DdCleanup

fun dedup_do :: "dedup_op \<Rightarrow> dedup_tracker \<Rightarrow> dedup_tracker" where
  "dedup_do (DdClock now) d = refresh_clock d now"
| "dedup_do (DdCheck u hi lo) d = fst (check_and_insert d u hi lo)"
| "dedup_do DdCleanup d = maybe_cleanup d"

definition dedup_run :: "dedup_op list \<Rightarrow> dedup_tracker \<Rightarrow> dedup_tracker" where
  "dedup_run ops d = fold dedup_do ops d"

text \<open>The clock a run feeds never goes back.\<close>

fun clock_ok :: "nat \<Rightarrow> dedup_op list \<Rightarrow> bool" where
  "clock_ok t [] = True"
| "clock_ok t (DdClock now # ops) = (t \<le> now \<and> clock_ok now ops)"
| "clock_ok t (_ # ops) = clock_ok t ops"

lemma dedup_run_ok:
  assumes "dedup_ok d" "clock_ok (dd_now d) ops"
  shows "dedup_ok (dedup_run ops d) \<and> dd_now d \<le> dd_now (dedup_run ops d) \<and>
    (\<forall>k t. stamp d k = Some t \<longrightarrow> dd_now (dedup_run ops d) \<le> t + DEDUP_WINDOW \<longrightarrow> stamp (dedup_run ops d) k = Some t)"
  using assms
proof (induction ops arbitrary: d)
  case (Cons x ops)
  let ?d = "dedup_do x d"
  have step: "dedup_ok ?d \<and> dd_now d \<le> dd_now ?d \<and> clock_ok (dd_now ?d) ops \<and>
      (\<forall>k t. stamp d k = Some t \<longrightarrow> dd_now ?d \<le> t + DEDUP_WINDOW \<longrightarrow> stamp ?d k = Some t)"
  proof (cases x)
    case (DdClock now)
    then show ?thesis using Cons.prems dedup_refresh_ok [OF Cons.prems(1), of now] by (simp add: refresh_clock_def)
  next
    case (DdCheck u hi lo)
    then show ?thesis using Cons.prems check_ok [OF Cons.prems(1)] by simp
  next
    case DdCleanup
    then show ?thesis using Cons.prems cleanup_ok [OF Cons.prems(1)] by simp
  qed
  have "dedup_ok (dedup_run ops ?d) \<and> dd_now ?d \<le> dd_now (dedup_run ops ?d) \<and>
    (\<forall>k t. stamp ?d k = Some t \<longrightarrow> dd_now (dedup_run ops ?d) \<le> t + DEDUP_WINDOW \<longrightarrow> stamp (dedup_run ops ?d) k = Some t)"
    by (rule Cons.IH) (use step in blast)+
  moreover have "dedup_run (x # ops) d = dedup_run ops ?d" by (simp add: dedup_run_def)
  ultimately show ?case using step by (metis order_trans)
qed (simp add: dedup_run_def)

section \<open>Property\<close>

text \<open>C24: an order is let through once per window. From a new tracker, whatever checks and cleanups follow and however the clock
  advances, a key that was let through is reported as a duplicate as long as the clock is at most an hour past its first check; once
  a due cleanup ran later than that, it is let through again.\<close>

theorem duplicate_within_window:
  assumes "clock_ok t0 (ops @ DdCheck u hi lo # ops')"
  defines "d \<equiv> dedup_run ops (dedup_new t0)" and "d' \<equiv> dedup_run (ops @ DdCheck u hi lo # ops') (dedup_new t0)"
  assumes first: "\<not> snd (check_and_insert d u hi lo)"
  shows "(dd_now d' \<le> dd_now d + DEDUP_WINDOW \<longrightarrow> snd (check_and_insert d' u hi lo)) \<and>
    (stamp d' (u, hi, lo) = Some (dd_now d) \<and> dd_now d + DEDUP_WINDOW < dd_now d' \<and> DEDUP_CLEANUP_INTERVAL \<le> dd_now d' - dd_last_cleanup d' \<longrightarrow>
      \<not> snd (check_and_insert (maybe_cleanup d') u hi lo))"
proof -
  have split: "clock_ok t (xs @ ys) \<longleftrightarrow> clock_ok t xs \<and> clock_ok (dd_now (dedup_run xs e)) ys" if "dd_now e = t" for t xs ys e
    using that
  proof (induction xs arbitrary: t e)
    case (Cons x xs)
    show ?case using Cons.IH [of "dedup_do x e"] Cons.prems
      by (cases x) (auto simp: dedup_run_def refresh_clock_def check_and_insert_def maybe_cleanup_def evict_def Let_def split: prod.split)
  qed (simp add: dedup_run_def)
  have n: "dd_now (dedup_new t0) = t0" by (simp add: dedup_new_def)
  have ok: "dedup_ok d" using dedup_run_ok [OF dedup_new_ok, of t0 ops] assms(1) split [OF n, of ops] n by (simp add: d_def)
  let ?e = "fst (check_and_insert d u hi lo)"
  note c = check_ok [OF ok, of u hi lo]
  have d': "d' = dedup_run ops' ?e" by (simp add: d'_def d_def dedup_run_def)
  have ck: "clock_ok (dd_now ?e) ops'" using assms(1) split [OF n, of ops] c(4) by (simp add: d_def)
  have st: "stamp ?e (u, hi, lo) = Some (dd_now d)" using first c(2,3) by simp
  note r = dedup_run_ok [OF c(1) ck, folded d']
  have "snd (check_and_insert d' u hi lo)" if "dd_now d' \<le> dd_now d + DEDUP_WINDOW" using r st that check_ok(2) by simp
  moreover have "\<not> snd (check_and_insert (maybe_cleanup d') u hi lo)"
    if "stamp d' (u, hi, lo) = Some (dd_now d)" "dd_now d + DEDUP_WINDOW < dd_now d'" "DEDUP_CLEANUP_INTERVAL \<le> dd_now d' - dd_last_cleanup d'"
    using that cleanup_ok(1,3) [of d'] r check_ok(2) [of "maybe_cleanup d'"] by simp
  ultimately show ?thesis by blast
qed

theorem duplicate_within_window_witness:
  "let d = dedup_run [DdCheck 7 0 1, DdClock 3600000000000, DdCleanup] (dedup_new 0) in snd (check_and_insert d 7 0 1)"
proof -
  have "clock_ok 0 ([] @ DdCheck 7 0 1 # [DdClock 3600000000000, DdCleanup])" by simp
  moreover have "\<not> snd (check_and_insert (dedup_run [] (dedup_new 0)) 7 0 1)" by (simp add: dedup_run_def dedup_new_def check_and_insert_def Let_def)
  moreover have "dd_now (dedup_run ([] @ DdCheck 7 0 1 # [DdClock 3600000000000, DdCleanup]) (dedup_new 0)) = 3600000000000"
    "dd_now (dedup_run [] (dedup_new 0)) = 0" by code_simp+
  ultimately show ?thesis using duplicate_within_window [of 0 "[]" 7 0 1 "[DdClock 3600000000000, DdCleanup]"] by (simp add: DEDUP_WINDOW_def)
qed

end
