(* ===== verification/Engine.thy ===== *)
theory Engine
  imports Wire_Records Dedup Migration
begin

text \<open>
  The matching engine of one symbol: \<open>rsx-matching/src/order.rs\<close>, \<open>cancel.rs\<close>, and the order index, the log and
  the replay of \<open>wal.rs\<close> and \<open>recovery.rs\<close>.

  The engine keeps the book, the index from order ids to slab handles, the duplicate tracker, and the log.
  The log holds the records appended, each with the sequence number \<open>prepare\<close> gave it; the same frames go to the risk and market data
  streams. Disk and socket errors are not modelled: \<open>append_stalling\<close> retries a full buffer and every other append error stops the
  process. The readings of the clock during one order are \<open>clk 0\<close>, \<open>clk 1\<close>, \<open>\<dots>\<close> in the order the code takes them.
\<close>

section \<open>State\<close>

record engine =
  en_symbol_id :: u32
  en_book :: orderbook
  en_order_index :: "order_key \<rightharpoonup> u32"
  en_dedup :: dedup_tracker
  en_next_seq :: u64
  en_log :: "wal_record list"

definition fan_out :: "engine \<Rightarrow> wal_record \<Rightarrow> engine" where
  "fan_out e record = e\<lparr>en_log := en_log e @ [set_seq (en_next_seq e) record], en_next_seq := u64_add (en_next_seq e) 1\<rparr>"

definition publish_events :: "engine \<Rightarrow> u64 \<Rightarrow> hops \<Rightarrow> engine option" where
  "publish_events e ts_ns hp = do {
     records \<leftarrow> emit_events (en_book e) (en_symbol_id e) ts_ns hp (ob_event_buf (en_book e));
     Some (fold (\<lambda>r e. fan_out e r) records e)
   }"

definition index_event :: "event \<Rightarrow> (order_key \<rightharpoonup> u32) \<Rightarrow> (order_key \<rightharpoonup> u32)" where
  "index_event ev index = (case ev of
     OrderInserted handle user_id sd price qty hi lo \<Rightarrow> index((user_id, hi, lo) \<mapsto> handle)
   | OrderDone handle tif reduce_only user_id reason filled_qty remaining_qty hi lo \<Rightarrow> index((user_id, hi, lo) := None)
   | _ \<Rightarrow> index)"

definition update_order_index :: "event list \<Rightarrow> (order_key \<rightharpoonup> u32) \<Rightarrow> (order_key \<rightharpoonup> u32)" where
  "update_order_index events index = fold index_event events index"

section \<open>Orders\<close>

definition maybe_recenter :: "orderbook \<Rightarrow> orderbook option" where
  "maybe_recenter b =
     (if ob_best_bid_tick b = NONE \<or> ob_best_ask_tick b = NONE then Some b
      else let mid = i64_add (ob_best_bid_px b) (ob_best_ask_px b) sdiv 2
        in if should_recenter b mid then recenter_now b mid else Some b)"

definition duplicate_record :: "order_message \<Rightarrow> u64 \<Rightarrow> wal_record" where
  "duplicate_record msg ts_ns = WrFailed \<lparr>of_seq = 0, of_ts_ns = ts_ns, of_user_id = om_user_id msg, of_order_id_hi = om_order_id_hi msg,
     of_order_id_lo = om_order_id_lo msg, of_reason = failure_reason_code Duplicate\<rparr>"

definition accepted_record :: "u32 \<Rightarrow> order_message \<Rightarrow> u64 \<Rightarrow> wal_record" where
  "accepted_record symbol_id msg ts_ns = WrAccepted \<lparr>oa_seq = 0, oa_ts_ns = ts_ns, oa_user_id = om_user_id msg, oa_symbol_id = symbol_id,
     oa_order_id_hi = om_order_id_hi msg, oa_order_id_lo = om_order_id_lo msg, oa_price = om_price msg, oa_qty = om_qty msg,
     oa_side = om_side msg, oa_tif = om_tif msg, oa_reduce_only = om_reduce_only msg, oa_post_only = om_post_only msg\<rparr>"

definition me_process_order :: "engine \<Rightarrow> order_message \<Rightarrow> (nat \<Rightarrow> u64) \<Rightarrow> engine option" where
  "me_process_order e msg clk = do {
     let me_in_ns = clk 0;
     let (dedup, is_dup) = check_and_insert (en_dedup e) (om_user_id msg) (om_order_id_hi msg) (om_order_id_lo msg);
     let e1 = e\<lparr>en_dedup := dedup\<rparr>;
     if is_dup then Some (fan_out e1 (duplicate_record msg (clk 1)))
     else do {
       let e2 = fan_out e1 (accepted_record (en_symbol_id e1) msg (clk 1));
       r \<leftarrow> process_new_order (en_book e2) (to_incoming msg);
       let match_done_ns = clk 2;
       e3 \<leftarrow> publish_events (e2\<lparr>en_book := fst r\<rparr>) (clk 3) \<lparr>hp_gw_in_ns = om_timestamp_ns msg, hp_risk_in_ns = om_risk_in_ns msg,
         hp_me_in_ns = me_in_ns, hp_match_done_ns = match_done_ns\<rparr>;
       let e4 = e3\<lparr>en_order_index := update_order_index (ob_event_buf (en_book e3)) (en_order_index e3)\<rparr>;
       b \<leftarrow> maybe_recenter (en_book e4);
       Some (e4\<lparr>en_book := b\<rparr>)
     }
   }"

section \<open>Cancels\<close>

definition me_process_cancel :: "engine \<Rightarrow> u32 \<Rightarrow> u64 \<Rightarrow> u64 \<Rightarrow> (nat \<Rightarrow> u64) \<Rightarrow> engine option" where
  "me_process_cancel e user_id order_id_hi order_id_lo clk = (case en_order_index e (user_id, order_id_hi, order_id_lo) of
     None \<Rightarrow> Some e
   | Some found \<Rightarrow> do {
       slot \<leftarrow> slab_get (ob_orders (en_book e)) found;
       let b0 = (en_book e)\<lparr>ob_event_buf := []\<rparr>;
       (cancelled, b1) \<leftarrow> cancel_order_checked b0 found user_id order_id_hi order_id_lo;
       if \<not> cancelled then Some (e\<lparr>en_book := b1\<rparr>)
       else do {
         b2 \<leftarrow> emit b1 (OrderCancelled found user_id (os_remaining_qty slot) order_id_hi order_id_lo);
         b3 \<leftarrow> emit b2 (OrderDone found (os_tif slot) (is_reduce_only slot) user_id UserCancel 0 (os_remaining_qty slot) order_id_hi order_id_lo);
         b4 \<leftarrow> (if best_moved b0 b3 then emit_bbo b3 else Some b3);
         e1 \<leftarrow> publish_events (e\<lparr>en_book := b4\<rparr>) (clk 0) no_hops;
         Some (e1\<lparr>en_order_index := update_order_index (ob_event_buf (en_book e1)) (en_order_index e1)\<rparr>)
       }
     })"

section \<open>Recovery\<close>

definition rebuild_order_index_from_book :: "orderbook \<Rightarrow> (order_key \<rightharpoonup> u32) option" where
  "rebuild_order_index_from_book b = fold (\<lambda>handle acc. do {
       index \<leftarrow> acc;
       slot \<leftarrow> slab_get (ob_orders b) handle;
       Some (if is_active slot then index((os_user_id slot, os_order_id_hi slot, os_order_id_lo slot) \<mapsto> handle) else index)
     }) [0..<slab_len (ob_orders b)] (Some Map.empty)"

definition accepted_incoming :: "order_accepted_record \<Rightarrow> incoming_order" where
  "accepted_incoming rec = \<lparr>io_price = oa_price rec, io_qty = oa_qty rec, io_remaining_qty = oa_qty rec, io_side = decode_side (oa_side rec),
     io_tif = decode_tif (oa_tif rec), io_user_id = oa_user_id rec, io_reduce_only = (oa_reduce_only rec \<noteq> 0),
     io_post_only = (oa_post_only rec \<noteq> 0), io_timestamp_ns = oa_ts_ns rec, io_order_id_hi = oa_order_id_hi rec,
     io_order_id_lo = oa_order_id_lo rec\<rparr>"

fun replay_record :: "wal_record \<Rightarrow> orderbook \<times> (order_key \<rightharpoonup> u32) \<Rightarrow> (orderbook \<times> (order_key \<rightharpoonup> u32)) option" where
  "replay_record (WrAccepted rec) (b, index) = do {
     r \<leftarrow> process_new_order b (accepted_incoming rec);
     Some (fst r, update_order_index (ob_event_buf (fst r)) index)
   }"
| "replay_record (WrCancelled rec) (b, index) =
     (let key = (oc_user_id rec, oc_order_id_hi rec, oc_order_id_lo rec) in case index key of
        None \<Rightarrow> Some (b, index)
      | Some handle \<Rightarrow> do { r \<leftarrow> cancel_order b handle; Some (snd r, index(key := None)) })"
| "replay_record _ s = Some s"

text \<open>The records the reader yields from \<open>start_seq\<close> on are the argument; the highest sequence number read is returned too.\<close>

fun replay_wal_after_snapshot :: "wal_record list \<Rightarrow> u64 \<Rightarrow> orderbook \<times> (order_key \<rightharpoonup> u32) \<Rightarrow> (u64 \<times> orderbook \<times> (order_key \<rightharpoonup> u32)) option" where
  "replay_wal_after_snapshot [] last_seq s = Some (last_seq, s)"
| "replay_wal_after_snapshot (r # rs) last_seq s = do {
     s' \<leftarrow> replay_record r s;
     replay_wal_after_snapshot rs (max last_seq (record_seq r)) s'
   }"

fun rebuild_dedup_window :: "wal_record list \<Rightarrow> nat \<Rightarrow> u64 \<Rightarrow> dedup_tracker \<Rightarrow> dedup_tracker" where
  "rebuild_dedup_window [] instant_now now_unix_ns d = d"
| "rebuild_dedup_window (WrAccepted rec # rs) instant_now now_unix_ns d =
     rebuild_dedup_window rs instant_now now_unix_ns
       (seed d instant_now (oa_user_id rec) (oa_order_id_hi rec) (oa_order_id_lo rec) (now_unix_ns - oa_ts_ns rec))"
| "rebuild_dedup_window (r # rs) instant_now now_unix_ns d = rebuild_dedup_window rs instant_now now_unix_ns d"

definition BOOK_INITIAL_MID_PRICE :: i64 where "BOOK_INITIAL_MID_PRICE = 50000"

text \<open>\<open>recover\<close> on a loaded checkpoint (a book and the last sequence number it covers), or none, and the records on disk.\<close>

definition recover ::
  "book_config \<Rightarrow> u32 \<Rightarrow> (orderbook \<times> u64) option \<Rightarrow> wal_record list \<Rightarrow> nat \<Rightarrow> u64 \<Rightarrow> (engine \<times> u64) option" where
  "recover config book_capacity checkpoint records instant_now now_unix_ns = do {
     (book, index, start_seq, checkpoint_wal_seq) \<leftarrow> (case checkpoint of
       Some (loaded, wal_seq) \<Rightarrow> do { index \<leftarrow> rebuild_order_index_from_book loaded; Some (loaded, index, u64_add wal_seq 1, wal_seq) }
     | None \<Rightarrow> do { b \<leftarrow> orderbook_new config book_capacity BOOK_INITIAL_MID_PRICE; Some (b, Map.empty, 1, 0) });
     (last_seq, book', index') \<leftarrow> replay_wal_after_snapshot (filter (\<lambda>r. start_seq \<le> record_seq r) records) (start_seq - 1) (book, index);
     let dedup = rebuild_dedup_window records instant_now now_unix_ns (dedup_new instant_now);
     Some (\<lparr>en_symbol_id = bc_symbol_id config, en_book = book', en_order_index = index', en_dedup = dedup,
       en_next_seq = u64_add last_seq 1, en_log = []\<rparr>, checkpoint_wal_seq)
   }"

end
