(* ===== verification/Engine_Inv.thy ===== *)
theory Engine_Inv
  imports Engine
begin

text \<open>
  The order index of the engine follows the book: after every order, cancel and recentering it maps exactly the keys of the resting
  orders to their handles. The key lemma follows the index along a run of fills.
\<close>

section \<open>The index and the book\<close>

definition key_of :: "order_slot \<Rightarrow> order_key" where
  "key_of s = (os_user_id s, os_order_id_hi s, os_order_id_lo s)"

definition index_exact :: "orderbook \<Rightarrow> queues \<Rightarrow> (order_key \<rightharpoonup> u32) \<Rightarrow> bool" where
  "index_exact b Q ix \<longleftrightarrow> (\<forall>k h. ix k = Some h \<longleftrightarrow> h \<in> queued Q \<and> key_of (ord b h) = k)"

lemma index_exactI: "(\<And>k h. ix k = Some h \<longleftrightarrow> h \<in> queued Q \<and> key_of (ord b h) = k) \<Longrightarrow> index_exact b Q ix"
  unfolding index_exact_def by blast

lemma index_exact_iff: "index_exact b Q ix \<Longrightarrow> ix k = Some h \<longleftrightarrow> h \<in> queued Q \<and> key_of (ord b h) = k"
  unfolding index_exact_def by blast

lemma index_exact_None: "index_exact b Q ix \<Longrightarrow> ix k = None \<longleftrightarrow> (\<forall>h\<in>queued Q. key_of (ord b h) \<noteq> k)"
  unfolding index_exact_def by (metis not_Some_eq option.distinct(1))

lemma index_exact_inj: "index_exact b Q ix \<Longrightarrow> h \<in> queued Q \<Longrightarrow> x \<in> queued Q \<Longrightarrow> key_of (ord b x) = key_of (ord b h) \<Longrightarrow> x = h"
  unfolding index_exact_def by (metis option.inject)

lemma index_exact_cong:
  assumes "index_exact b Q ix" "queued Q' = queued Q" "\<And>h. h \<in> queued Q \<Longrightarrow> key_of (ord b' h) = key_of (ord b h)"
  shows "index_exact b' Q' ix"
proof (rule index_exactI)
  fix k h show "ix k = Some h \<longleftrightarrow> h \<in> queued Q' \<and> key_of (ord b' h) = k"
    unfolding index_exact_iff [OF assms(1)] assms(2) using assms(3) [of h] by auto
qed

lemma index_exact_remove:
  assumes "index_exact b Q ix" "h \<in> queued Q" "queued Q' = queued Q - {h}" "\<And>x. x \<in> queued Q' \<Longrightarrow> key_of (ord b' x) = key_of (ord b x)"
  shows "index_exact b' Q' (ix(key_of (ord b h) := None))"
proof (rule index_exactI)
  fix k x show "(ix(key_of (ord b h) := None)) k = Some x \<longleftrightarrow> x \<in> queued Q' \<and> key_of (ord b' x) = k"
    using index_exact_inj [OF assms(1,2), of x] assms(2-4) by (auto simp: index_exact_iff [OF assms(1)])
qed

lemma index_exact_add:
  assumes "index_exact b Q ix" "h \<notin> queued Q" "queued Q' = insert h (queued Q)" "\<And>x. x \<in> queued Q \<Longrightarrow> key_of (ord b' x) = key_of (ord b x)"
    "key_of (ord b' h) = k" "ix k = None"
  shows "index_exact b' Q' (ix(k \<mapsto> h))"
proof (rule index_exactI)
  fix k' x show "(ix(k \<mapsto> h)) k' = Some x \<longleftrightarrow> x \<in> queued Q' \<and> key_of (ord b' x) = k'"
    using assms(2-5) index_exact_None [OF assms(1), of k] assms(6) by (auto simp: index_exact_iff [OF assms(1)])
qed

lemma key_of_strip: "strip s = strip s' \<Longrightarrow> key_of s = key_of s'"
  by (cases s; cases s') (simp add: strip_def key_of_def)

lemma key_of_qty [simp]: "key_of (s\<lparr>os_remaining_qty := q\<rparr>) = key_of s"
  by (simp add: key_of_def)

lemma key_of_essence: "essence s = essence s' \<Longrightarrow> key_of s = key_of s'"
  by (cases s; cases s') (simp add: essence_def strip_def key_of_def)

lemma key_of_fresh: "fresh_order s price qty sd tif uid ro hi lo \<Longrightarrow> key_of s = (uid, hi, lo)"
  by (simp add: fresh_order_def key_of_def)

lemma index_exact_orders: "ob_orders b' = ob_orders b \<Longrightarrow> index_exact b' Q ix = index_exact b Q ix"
  unfolding index_exact_def by simp

lemma index_exact_event [simp]: "index_exact (b\<lparr>ob_event_buf := e\<rparr>) Q ix = index_exact b Q ix"
  by (rule index_exact_orders) simp

lemma index_event_simps [simp]:
  "index_event (fill_event oc s h d) ix = ix" "index_event (maker_done s h) ix = ix(key_of s := None)"
  "index_event (bbo_event b Q) ix = ix" "index_event (OrderInserted h u sd p q hi lo) ix = ix((u, hi, lo) \<mapsto> h)"
  "index_event (OrderDone h tif ro u r fq rq hi lo) ix = ix((u, hi, lo) := None)" "index_event (OrderCancelled h u q hi lo) ix = ix"
  by (simp_all add: index_event_def fill_event_def maker_done_def bbo_event_def key_of_def)

section \<open>Fills\<close>

lemma one_fill_index:
  assumes f: "one_fill b Q oc h d b' Q' oc'" and lin: "linear Q" and ix: "index_exact b Q ix"
  shows "\<exists>new. ob_event_buf b' = ob_event_buf b @ new \<and> index_exact b' Q' (update_order_index new ix) \<and>
    (\<forall>e\<in>set new. event_slot e = NONE)"
proof -
  let ?new = "fill_event oc (ord b h) h d # (if d = rem b h then [maker_done (ord b h) h] else [])"
  have ev: "ob_event_buf b' = ob_event_buf b @ ?new" and hq: "h \<in> queued Q"
    and st: "\<And>x. x \<in> queued Q' \<Longrightarrow> strip (ord b' x) = strip (if x = h then (ord b h)\<lparr>os_remaining_qty := rem b h - d\<rparr> else ord b x)"
    using f unfolding one_fill_def by (auto intro: in_queued)
  have ky: "key_of (ord b' x) = key_of (ord b x)" if "x \<in> queued Q'" for x
    using key_of_strip [OF st [OF that]] by (simp split: if_splits)
  have "index_exact b' Q' (update_order_index ?new ix)"
  proof (cases "d = rem b h")
    case True
    then have "queued Q' = queued Q - {h}" using one_fill_linear(2) [OF f lin] by simp
    then show ?thesis using True index_exact_remove [OF ix hq _ ky] by (simp add: update_order_index_def)
  next
    case False
    then have "Q' = Q" using f unfolding one_fill_def by auto
    then show ?thesis using False index_exact_cong [OF ix _ ky] by (simp add: update_order_index_def)
  qed
  moreover have "\<forall>e\<in>set ?new. event_slot e = NONE" by (simp add: event_slot_def fill_event_def maker_done_def)
  ultimately show ?thesis using ev by blast
qed

lemma fills_index:
  "fills b Q oc fs b' Q' oc' \<Longrightarrow> linear Q \<Longrightarrow> index_exact b Q ix \<Longrightarrow>
    \<exists>new. ob_event_buf b' = ob_event_buf b @ new \<and> index_exact b' Q' (update_order_index new ix) \<and> (\<forall>e\<in>set new. event_slot e = NONE)"
proof (induction arbitrary: ix rule: fills.induct)
  case (fills_none b Q oc)
  then show ?case by (intro exI [of _ "[]"]) (simp add: update_order_index_def)
next
  case (fills_step b Q oc h d b1 Q1 oc1 fs b2 Q2 oc2)
  obtain n1 where n1: "ob_event_buf b1 = ob_event_buf b @ n1" "index_exact b1 Q1 (update_order_index n1 ix)" "\<forall>e\<in>set n1. event_slot e = NONE"
    using one_fill_index [OF fills_step.hyps(1) fills_step.prems] by blast
  obtain n2 where n2: "ob_event_buf b2 = ob_event_buf b1 @ n2" "index_exact b2 Q2 (update_order_index n2 (update_order_index n1 ix))"
    "\<forall>e\<in>set n2. event_slot e = NONE"
    using fills_step.IH [OF one_fill_linear(1) [OF fills_step.hyps(1) fills_step.prems(1)] n1(2)] by blast
  have "update_order_index (n1 @ n2) ix = update_order_index n2 (update_order_index n1 ix)" by (simp add: update_order_index_def)
  then show ?case using n1 n2 by (intro exI [of _ "n1 @ n2"]) auto
next
  case (fills_best b oc t p Q fs b2 Q2 oc2)
  have o: "ob_orders (set_best b (opp (io_side oc)) t p) = ob_orders b" "ob_event_buf (set_best b (opp (io_side oc)) t p) = ob_event_buf b"
    by (simp_all add: set_best_def split: side.split)
  then have "index_exact (set_best b (opp (io_side oc)) t p) Q ix" using fills_best.prems(2) index_exact_orders [OF o(1)] by blast
  then show ?case using fills_best.IH [OF fills_best.prems(1)] o(2) by simp
qed


section \<open>One order\<close>

lemma settled_index:
  assumes s: "settled b Q oc fl b' Q' e" and ix: "index_exact b Q ix" and k: "ix (io_user_id oc, io_order_id_hi oc, io_order_id_lo oc) = None"
  shows "index_exact b' Q' (index_event e ix)" "event_slot e = NONE \<or> event_slot e \<in> queued Q'"
proof -
  let ?k = "(io_user_id oc, io_order_id_hi oc, io_order_id_lo oc)"
  have "index_exact b' Q' (index_event e ix) \<and> (event_slot e = NONE \<or> event_slot e \<in> queued Q')"
  proof (cases "rests b oc")
    case True
    then obtain h where h: "h \<notin> queued Q" "queued Q' = insert h (queued Q)" "\<forall>x\<in>queued Q. strip (ord b' x) = strip (ord b x)"
      "fresh_order (ord b' h) (io_price oc) (io_remaining_qty oc) (io_side oc) (tif_u8 (io_tif oc)) (io_user_id oc)
          (io_reduce_only oc) (io_order_id_hi oc) (io_order_id_lo oc)"
      "e = OrderInserted h (io_user_id oc) (side_u8 (io_side oc)) (io_price oc) (io_remaining_qty oc) (io_order_id_hi oc) (io_order_id_lo oc)"
      using s by (simp add: settled_def) blast
    have "index_exact b' Q' (ix(?k \<mapsto> h))"
      by (rule index_exact_add [OF ix h(1,2) _ key_of_fresh [OF h(4)] k]) (use h(3) key_of_strip in blast)
    then show ?thesis using h(2,5) by (simp add: event_slot_def)
  next
    case False
    then have q: "Q' = Q" "b' = b\<lparr>ob_event_buf := ob_event_buf b @ [e]\<rparr>" "e = residual_event b oc fl" using s by (simp_all add: settled_def)
    have "ix(?k := None) = ix" using k by (rule fun_upd_idem)
    then have "index_event e ix = ix" using q(3) by (simp add: residual_event_def order_done_def order_failed_def index_event_def)
    moreover have "event_slot e = NONE" using q(3) by (simp add: residual_event_def order_done_def order_failed_def event_slot_def)
    ultimately show ?thesis using ix q(1,2) by simp
  qed
  then show "index_exact b' Q' (index_event e ix)" "event_slot e = NONE \<or> event_slot e \<in> queued Q'" by blast+
qed

lemma settled_price:
  assumes s: "settled b Q oc fl b' Q' e" and h: "h \<in> queued Q'"
  shows "os_price (ord b' h) = io_price oc \<or> h \<in> queued Q \<and> os_price (ord b' h) = os_price (ord b h)"
proof (cases "rests b oc")
  case True
  then obtain x where x: "queued Q' = insert x (queued Q)" "\<forall>x\<in>queued Q. strip (ord b' x) = strip (ord b x)" "os_price (ord b' x) = io_price oc"
    using s by (simp add: settled_def fresh_order_def) blast
  show ?thesis
  proof (cases "h = x")
    case False
    then have "h \<in> queued Q" using h x(1) by simp
    then show ?thesis using strip_eqD(1) [OF bspec [OF x(2)]] by blast
  qed (use x(3) in simp)
next
  case False
  then show ?thesis using s h by (simp add: settled_def)
qed

lemma update_taker_key:
  assumes "(ix :: order_key \<rightharpoonup> u32) kk = None" "terminal_for oc e" "kk = (io_user_id oc, io_order_id_hi oc, io_order_id_lo oc)" "\<not> is_OrderInserted e"
  shows "index_event e ix = ix" "event_slot e = NONE"
proof -
  have "ix(kk := None) = ix" using assms(1) by (rule fun_upd_idem)
  then show "index_event e ix = ix" "event_slot e = NONE"
    using assms(2-4) by (cases e; simp add: terminal_for_def index_event_def event_slot_def)+
qed

text \<open>The book and the index after an order whose key does not rest.\<close>

lemma process_index:
  assumes g: "good b Q F" and a: "acceptable b Q oc" and ix: "index_exact b Q ix"
    and k: "ix (io_user_id oc, io_order_id_hi oc, io_order_id_lo oc) = None"
  shows "\<exists>b' oc' Q' F'. process_new_order b oc = Some (b', oc') \<and> good b' Q' F' \<and> resting_qty b' Q' \<le> i64_max \<and>
    index_exact b' Q' (update_order_index (ob_event_buf b') ix) \<and> (\<forall>e\<in>set (ob_event_buf b'). event_slot e = NONE \<or> event_slot e \<in> queued Q') \<and>
    (\<forall>h\<in>queued Q'. os_price (ord b' h) = io_price oc \<or> h \<in> queued Q \<and> os_price (ord b' h) = os_price (ord b h)) \<and> ob_config b' = ob_config b"
  using process_cases [OF g a]
proof (elim disjE exE conjE)
  fix e oc' assume p: "gate b Q oc = Inl (e, oc')" "process_new_order b oc = Some (b\<lparr>ob_event_buf := [e]\<rparr>, oc')"
  have "index_event e ix = ix" "event_slot e = NONE" using update_taker_key [of ix _ oc e] k gate_Inl_event(1,2) [OF p(1)] by blast+
  moreover have "resting_qty b Q \<le> i64_max" using a unfolding acceptable_def by linarith
  ultimately show ?thesis using p(2) g ix
    by (intro exI [of _ "b\<lparr>ob_event_buf := [e]\<rparr>"] exI [of _ oc'] exI [of _ Q] exI [of _ F]) (simp add: update_order_index_def)
next
  fix fs e b' Q' oc' F'
  let ?b = "b\<lparr>ob_event_buf := []\<rparr>"
  assume gt: "gate b Q oc = Inr (clamped b oc)" and p: "process_new_order b oc = Some (b', oc')" "good b' Q' F'"
    and x: "executed ?b Q (clamped b oc) fs e b' Q' oc'"
  obtain b1 Q1 F1 b2 where f: "fills ?b Q (clamped b oc) fs b1 Q1 oc'" and s: "settled b1 Q1 oc' (io_remaining_qty (clamped b oc)) b2 Q' e"
    and b': "b' = b2\<lparr>ob_event_buf := ob_event_buf b2 @ (if best_moved ?b b2 then [bbo_event b2 Q'] else [])\<rparr>"
    using x unfolding executed_def by blast
  have rel: "book_rel ?b Q F {}" using g by (simp add: good_def wf_def)
  have ixb: "index_exact ?b Q ix" using ix by simp
  obtain new where new: "ob_event_buf b1 = new" "index_exact b1 Q1 (update_order_index new ix)" "\<forall>e\<in>set new. event_slot e = NONE"
    using fills_index [OF f book_rel_linear [OF rel] ixb] by auto
  have tk: "io_user_id oc' = io_user_id oc" "io_order_id_hi oc' = io_order_id_hi oc" "io_order_id_lo oc' = io_order_id_lo oc" "io_price oc' = io_price oc"
    using fills_taker [OF f] by simp_all
  have "update_order_index new ix (io_user_id oc', io_order_id_hi oc', io_order_id_lo oc') = None"
  proof -
    have "key_of (ord b1 h) \<noteq> (io_user_id oc, io_order_id_hi oc, io_order_id_lo oc)" if "h \<in> queued Q1" for h
    proof -
      have "core_of (ord b1 h) = core_of (ord ?b h)" by (rule fills_core [OF f that])
      then have "key_of (ord b1 h) = key_of (ord b h)" using core_of_eqD [of "ord b1 h" "ord b h"] by (simp add: key_of_def)
      then show ?thesis using index_exact_None [OF ix] k fills_queued [OF f] that by auto
    qed
    then show ?thesis using index_exact_None [OF new(2)] tk by simp
  qed
  note S = settled_index [OF s new(2) this]
  have eb: "ob_event_buf b' = new @ e # (if best_moved ?b b2 then [bbo_event b2 Q'] else [])" using s new(1) b' by (simp add: settled_def)
  have "index_exact b' Q' (update_order_index (ob_event_buf b') ix)" using S(1) unfolding eb by (simp add: update_order_index_def b')
  moreover have "\<forall>e\<in>set (ob_event_buf b'). event_slot e = NONE \<or> event_slot e \<in> queued Q'"
    unfolding eb using S(2) new(3) by (auto simp: bbo_event_def event_slot_def)
  moreover have "resting_qty b' Q' \<le> i64_max"
  proof -
    note A = executed_account [OF x rel]
    have "rested_qty [e] \<le> io_qty oc" if "is_OrderInserted e" using A(2,4,5) gate_ready(3) [OF g a gt] that by simp
    then show ?thesis using A(1,5) a gate_Inr(4) [OF gt] unfolding acceptable_def by (cases "is_OrderInserted e") (simp_all add: max_def)
  qed
  moreover have "os_price (ord b' h) = io_price oc \<or> h \<in> queued Q \<and> os_price (ord b' h) = os_price (ord b h)" if "h \<in> queued Q'" for h
  proof -
    have o: "ord b' h = ord b2 h" by (simp add: b')
    have "os_price (ord b2 h) = io_price oc' \<or> h \<in> queued Q1 \<and> os_price (ord b2 h) = os_price (ord b1 h)" by (rule settled_price [OF s that])
    moreover have "os_price (ord b1 h) = os_price (ord b h)" if "h \<in> queued Q1" using core_of_eqD [OF fills_core [OF f that]] by simp
    ultimately show ?thesis using fills_queued [OF f] o tk(4) by auto
  qed
  ultimately show ?thesis using p executed_config [OF x]
    by (intro exI [of _ b'] exI [of _ oc'] exI [of _ Q'] exI [of _ F']) auto
qed


section \<open>Recentering and publishing\<close>

text \<open>Every resting price could be the centre of the compression map, so the mid can be.\<close>

definition prices_regular :: "orderbook \<Rightarrow> queues \<Rightarrow> bool" where
  "prices_regular b Q \<longleftrightarrow> (\<forall>h\<in>queued Q. regular_mid (os_price (ord b h)) (bc_tick_size (ob_config b)))"

lemma mid_regular:
  assumes g: "good b Q F" and p: "prices_regular b Q" and two: "ob_best_bid_tick b \<noteq> NONE" "ob_best_ask_tick b \<noteq> NONE"
  shows "regular_mid (i64_add (ob_best_bid_px b) (ob_best_ask_px b) sdiv 2) (bc_tick_size (ob_config b))"
proof -
  have w: "wf b Q F" using g by (simp add: good_def)
  have "\<exists>h\<in>resting b Q sd. os_price (ord b h) = best_px b sd" if "best_tick b sd \<noteq> NONE" for sd
    using wfD(3) [OF w, of sd] that by (simp add: best_ok_def split: if_splits)
  then have "regular_mid (best_px b sd) (bc_tick_size (ob_config b))" if "best_tick b sd \<noteq> NONE" for sd
    using p that unfolding prices_regular_def resting_def by force
  from this [of Buy] this [of Sell] have r: "regular_mid (ob_best_bid_px b) (bc_tick_size (ob_config b))"
    "regular_mid (ob_best_ask_px b) (bc_tick_size (ob_config b))" using two by (simp_all add: best_tick_def best_px_def)
  let ?x = "ob_best_bid_px b" and ?y = "ob_best_ask_px b"
  have "i64_add ?x ?y = ?x + ?y" by (rule i64_add_id) (use r in \<open>auto simp: regular_mid_def in_i64_iff\<close>)
  moreover have "0 \<le> ?x + ?y" using r by (auto simp: regular_mid_def)
  ultimately have m: "i64_add ?x ?y sdiv 2 = (?x + ?y) div 2" by (simp add: sdiv_nonneg)
  have "min ?x ?y \<le> (?x + ?y) div 2" "(?x + ?y) div 2 \<le> max ?x ?y" by linarith+
  then show ?thesis unfolding m using r unfolding regular_mid_def by (auto simp: min_le_iff_disj le_max_iff_disj)
qed

lemma maybe_recenter_ok:
  assumes g: "good b Q F" and q: "resting_qty b Q \<le> i64_max" and p: "prices_regular b Q"
  shows "\<exists>b' Q'. maybe_recenter b = Some b' \<and> good b' Q' F \<and> queued Q' = queued Q \<and> (\<forall>h. essence (ord b' h) = essence (ord b h)) \<and>
    ob_config b' = ob_config b \<and> ob_users b' = ob_users b \<and> (\<forall>sd. best_px b' sd = best_px b sd)"
proof -
  let ?mid = "i64_add (ob_best_bid_px b) (ob_best_ask_px b) sdiv 2"
  show ?thesis
  proof (cases "ob_best_bid_tick b = NONE \<or> ob_best_ask_tick b = NONE \<or> \<not> should_recenter b ?mid")
    case True
    then have "maybe_recenter b = Some b" by (auto simp: maybe_recenter_def Let_def)
    then show ?thesis using g by blast
  next
    case False
    have w: "wf b Q F" "cp_tick_size (ob_compression b) = bc_tick_size (ob_config b)" using g by (simp_all add: good_def)
    have m: "regular_mid ?mid (bc_tick_size (ob_config b))" using mid_regular [OF g p] False by blast
    from recenter_now_ok [OF w m q] obtain b' Q' where r: "recenter_now b ?mid = Some b'" "wf b' Q' F" "queued Q' = queued Q"
      "\<forall>h. essence (ord b' h) = essence (ord b h)" "uncrossed b' Q' = uncrossed b Q" "ob_users b' = ob_users b" "ob_config b' = ob_config b"
      "cp_tick_size (ob_compression b') = cp_tick_size (ob_compression b)" "\<forall>sd. best_px b' sd = best_px b sd" by blast
    have "maybe_recenter b = Some b'" using False r(1) by (simp add: maybe_recenter_def Let_def)
    moreover have "good b' Q' F" using g r by (simp add: good_def)
    ultimately show ?thesis using r by blast
  qed
qed

text \<open>The numbers in the log follow each other.\<close>

definition log_ok :: "u64 \<Rightarrow> engine \<Rightarrow> bool" where
  "log_ok n0 e \<longleftrightarrow> en_next_seq e = (n0 + length (en_log e)) mod 18446744073709551616 \<and>
     (\<forall>i<length (en_log e). record_seq (en_log e ! i) = (n0 + i) mod 18446744073709551616)"

lemma fan_out_log:
  assumes "log_ok n0 e"
  shows "log_ok n0 (fan_out e r)" "en_log (fan_out e r) = en_log e @ [set_seq (en_next_seq e) r]"
  using assms by (auto simp: log_ok_def fan_out_def u64_add_def nth_append less_Suc_eq mod_simps)

lemma fan_out_frame [simp]: "en_book (fan_out e r) = en_book e" "en_order_index (fan_out e r) = en_order_index e"
  "en_dedup (fan_out e r) = en_dedup e" "en_symbol_id (fan_out e r) = en_symbol_id e"
  by (simp_all add: fan_out_def)

lemma fan_outs:
  "log_ok n0 e \<Longrightarrow> log_ok n0 (fold (\<lambda>r e. fan_out e r) rs e) \<and> en_book (fold (\<lambda>r e. fan_out e r) rs e) = en_book e \<and>
    en_order_index (fold (\<lambda>r e. fan_out e r) rs e) = en_order_index e \<and> en_dedup (fold (\<lambda>r e. fan_out e r) rs e) = en_dedup e \<and>
    en_symbol_id (fold (\<lambda>r e. fan_out e r) rs e) = en_symbol_id e \<and>
    (\<exists>rs'. en_log (fold (\<lambda>r e. fan_out e r) rs e) = en_log e @ rs' \<and> length rs' = length rs \<and> (\<forall>i<length rs. \<exists>n. rs' ! i = set_seq n (rs ! i)))"
proof (induction rs arbitrary: e)
  case (Cons r rs)
  obtain rs' where rs': "en_log (fold (\<lambda>r e. fan_out e r) rs (fan_out e r)) = en_log (fan_out e r) @ rs'" "length rs' = length rs"
    "\<forall>i<length rs. \<exists>n. rs' ! i = set_seq n (rs ! i)" using Cons.IH [OF fan_out_log(1) [OF Cons.prems, of r]] by blast
  have "\<exists>n. (set_seq (en_next_seq e) r # rs') ! i = set_seq n ((r # rs) ! i)" if "i < Suc (length rs)" for i
    using that rs'(3) by (cases i) auto
  then show ?case using Cons.IH [OF fan_out_log(1) [OF Cons.prems, of r]] rs'(1,2) fan_out_log(2) [OF Cons.prems, of r]
    by (intro conjI exI [of _ "set_seq (en_next_seq e) r # rs'"]) simp_all
qed simp

lemma publish_ok:
  assumes "log_ok n0 e" "\<forall>ev\<in>set (ob_event_buf (en_book e)). event_slot ev = NONE \<or> event_slot ev < length (slots (ob_orders (en_book e)))"
  shows "\<exists>e' rs. publish_events e ts hp = Some e' \<and> log_ok n0 e' \<and> en_book e' = en_book e \<and> en_order_index e' = en_order_index e \<and>
    en_dedup e' = en_dedup e \<and> en_symbol_id e' = en_symbol_id e \<and> en_log e' = en_log e @ rs \<and> length rs = length (ob_event_buf (en_book e)) \<and>
    (\<forall>i<length rs. \<exists>r n. record_of_event (en_book e) (en_symbol_id e) ts hp (ob_event_buf (en_book e) ! i) = Some r \<and> rs ! i = set_seq n r)"
proof -
  obtain rs where rs: "emit_events (en_book e) (en_symbol_id e) ts hp (ob_event_buf (en_book e)) = Some rs"
    using emit_events_total [OF assms(2)] by blast
  note n = emit_events_nth [OF rs] and f = fan_outs [OF assms(1), of rs]
  have p: "publish_events e ts hp = Some (fold (\<lambda>r e. fan_out e r) rs e)" using rs by (simp add: publish_events_def)
  obtain rs' where rs': "en_log (fold (\<lambda>r e. fan_out e r) rs e) = en_log e @ rs'" "length rs' = length rs"
    "\<forall>i<length rs. \<exists>n. rs' ! i = set_seq n (rs ! i)" using f by blast
  show ?thesis using p f n rs' by (intro exI [of _ "fold (\<lambda>r e. fan_out e r) rs e"] exI [of _ rs']) auto
qed

end
