(* ===== verification/Engine_Props.thy ===== *)
theory Engine_Props
  imports Engine_Inv
begin

text \<open>
  The invariant of the matching engine and its preservation by orders, cancels, clock readings, cleanups and replayed records; what
  a cancel does; and the state after recovery.
\<close>

section \<open>The invariant\<close>

text \<open>\<open>book_inv\<close> is what the book and the index need, \<open>engine_inv\<close> adds the duplicate tracker and the log.\<close>

definition book_inv :: "orderbook \<Rightarrow> (order_key \<rightharpoonup> u32) \<Rightarrow> queues \<Rightarrow> u32 list \<Rightarrow> bool" where
  "book_inv b ix Q F \<longleftrightarrow> good b Q F \<and> index_exact b Q ix \<and> resting_qty b Q \<le> i64_max \<and> prices_regular b Q"

definition engine_inv :: "u64 \<Rightarrow> engine \<Rightarrow> queues \<Rightarrow> u32 list \<Rightarrow> bool" where
  "engine_inv n0 e Q F \<longleftrightarrow> book_inv (en_book e) (en_order_index e) Q F \<and> dedup_ok (en_dedup e) \<and> log_ok n0 e"

lemma book_invD:
  assumes "book_inv b ix Q F"
  shows "good b Q F" "index_exact b Q ix" "resting_qty b Q \<le> i64_max" "prices_regular b Q" "wf b Q F" "book_rel b Q F {}" "uncrossed b Q"
  using assms by (simp_all add: book_inv_def good_def wf_def)

lemma book_inv_event [simp]: "book_inv (b\<lparr>ob_event_buf := x\<rparr>) ix Q F = book_inv b ix Q F"
  by (simp add: book_inv_def prices_regular_def)

section \<open>Taking an order out\<close>

text \<open>What holds of a book holds of it with one order fewer.\<close>

lemma book_inv_remove:
  assumes inv: "book_inv b ix Q F" and h: "h \<in> set (Q t)" and w: "wf b' (Q(t := remove1 h (Q t))) F'"
    and st: "\<forall>x\<in>queued Q - {h}. strip (ord b' x) = strip (ord b x)" and sig: "book_sig b b'"
  shows "book_inv b' (ix(key_of (ord b h) := None)) (Q(t := remove1 h (Q t))) F'"
proof -
  note B = book_invD [OF inv]
  let ?Q = "Q(t := remove1 h (Q t))"
  have q: "queued ?Q = queued Q - {h}" by (rule queued_remove [OF B(6) h])
  have hq: "h \<in> queued Q" using h by (rule in_queued)
  have same: "strip (ord b' x) = strip (ord b x)" if "x \<in> queued ?Q" for x using st that q by simp
  have "on_side sd (ord b' x) = on_side sd (ord b x)" if "x \<in> queued ?Q" for x sd
    using strip_eqD(3) [OF same [OF that]] by (cases sd) (simp_all add: on_side_def is_buy_def)
  then have "resting b' ?Q sd \<subseteq> resting b Q sd" for sd using q unfolding resting_def by blast
  moreover have "os_price (ord b' x) = os_price (ord b x)" if "x \<in> resting b' ?Q sd" for x sd
    by (rule strip_eqD(1), rule same) (use that in \<open>simp add: resting_def\<close>)
  ultimately have "uncrossed b' ?Q" using B(7) unfolding uncrossed_def by (simp add: subset_iff)
  then have "good b' ?Q F'" using B(1) w sig by (simp add: good_def book_sig_def)
  moreover have "index_exact b' ?Q (ix(key_of (ord b h) := None))"
    by (rule index_exact_remove [OF B(2) hq q]) (use same key_of_strip in blast)
  moreover have "resting_qty b' ?Q \<le> i64_max"
  proof -
    have "resting_qty b' ?Q = (\<Sum>x\<in>queued Q - {h}. rem b x)"
      unfolding resting_qty_def q using strip_eqD(2) [OF same] q by (intro sum.cong) (simp_all add: rem_def)
    also have "\<dots> \<le> resting_qty b Q" unfolding resting_qty_def
      by (rule sum_mono2) (use finite_queued [OF B(6)] rem_nonneg [OF B(6)] in auto)
    finally show ?thesis using B(3) by simp
  qed
  moreover have "prices_regular b' ?Q" using B(4) strip_eqD(1) [OF same] q sig by (simp add: prices_regular_def book_sig_def)
  ultimately show ?thesis by (simp add: book_inv_def)
qed

lemma cancel_inv:
  assumes inv: "book_inv b ix Q F" and h: "h \<in> set (Q t)"
  shows "\<exists>b' F'. cancel_order b h = Some (True, b') \<and> book_inv b' (ix(key_of (ord b h) := None)) (Q(t := remove1 h (Q t))) F' \<and>
    (\<forall>x\<in>queued Q - {h}. strip (ord b' x) = strip (ord b x)) \<and> book_sig b b'"
  using cancel_order_ok [OF book_invD(5) [OF inv] h] book_inv_remove [OF inv h] by blast

section \<open>The cancel handler\<close>

definition cancel_events :: "orderbook \<Rightarrow> u32 \<Rightarrow> event list" where
  "cancel_events b h = [OrderCancelled h (os_user_id (ord b h)) (rem b h) (os_order_id_hi (ord b h)) (os_order_id_lo (ord b h)),
     OrderDone h (os_tif (ord b h)) (is_reduce_only (ord b h)) (os_user_id (ord b h)) UserCancel 0 (rem b h)
       (os_order_id_hi (ord b h)) (os_order_id_lo (ord b h))]"

lemma event_slot_bbo [simp]: "event_slot (bbo_event b Q) = NONE"
  by (simp add: bbo_event_def event_slot_def)

lemma cancel_found:
  assumes inv: "engine_inv n0 e Q F" and f: "en_order_index e (u, hi, lo) = Some h" and h: "h \<in> set (Q t)"
  shows "\<exists>e' F' rs. me_process_cancel e u hi lo clk = Some e' \<and> engine_inv n0 e' (Q(t := remove1 h (Q t))) F' \<and>
    en_order_index e' = (en_order_index e)((u, hi, lo) := None) \<and> en_dedup e' = en_dedup e \<and>
    (\<forall>x\<in>queued Q - {h}. strip (ord (en_book e') x) = strip (ord (en_book e) x)) \<and>
    (\<exists>bb. ob_event_buf (en_book e') = cancel_events (en_book e) h @ bb \<and> length bb \<le> 1) \<and>
    en_log e' = en_log e @ rs \<and> length rs = length (ob_event_buf (en_book e')) \<and> ob_config (en_book e') = ob_config (en_book e)"
proof -
  let ?b = "en_book e" and ?Q = "Q(t := remove1 h (Q t))" and ?ix = "en_order_index e"
  have bi: "book_inv ?b ?ix Q F" and dd: "dedup_ok (en_dedup e)" and lg: "log_ok n0 e" using inv by (simp_all add: engine_inv_def)
  note B = book_invD [OF bi]
  have k: "key_of (ord ?b h) = (u, hi, lo)" "h \<in> queued Q" using index_exact_iff [OF B(2), of "(u, hi, lo)" h] f by simp_all
  note qt = queue_tick [OF B(6) h]
  let ?bz = "?b\<lparr>ob_event_buf := []\<rparr>"
  have ho: "holds_order ?bz Q h u hi lo" using k by (simp add: holds_order_def key_of_def)
  have "wf ?bz Q F" using B(5) by simp
  from cancel_order_checked_ok [OF this] ho h obtain b1 where c: "cancel_order_checked ?bz h u hi lo = Some (True, b1)" "wf b1 ?Q (h # F)"
    "\<forall>x\<in>queued Q - {h}. strip (ord b1 x) = strip (ord ?bz x)" "book_sig ?bz b1" by blast
  have "book_inv ?bz ?ix Q F" using bi by simp
  from book_inv_remove [OF this h c(2,3,4)] have i1: "book_inv b1 (?ix((u, hi, lo) := None)) ?Q (h # F)" using k(1) by simp
  have eb: "ob_event_buf b1 = []" "length (slots (ob_orders b1)) = length (slots (ob_orders ?b))" "ob_config b1 = ob_config ?b" using c(4) by (simp_all add: book_sig_def)
  define b3 where "b3 = b1\<lparr>ob_event_buf := cancel_events ?b h\<rparr>"
  have sl: "slab_get (ob_orders ?b) h = Some (ord ?b h)" using qt(5) by (simp add: slab_get_def index_of_def)
  have e2: "emit b1 (OrderCancelled h u (rem ?b h) hi lo) = Some (b1\<lparr>ob_event_buf := [OrderCancelled h u (rem ?b h) hi lo]\<rparr>)"
    "emit (b1\<lparr>ob_event_buf := [OrderCancelled h u (rem ?b h) hi lo]\<rparr>)
      (OrderDone h (os_tif (ord ?b h)) (is_reduce_only (ord ?b h)) u UserCancel 0 (rem ?b h) hi lo) = Some b3"
    using eb(1) k(1) by (simp_all add: emit_def assert_that_def MAX_EVENTS_def b3_def cancel_events_def key_of_def)
  obtain b4 bb where b4: "(if best_moved ?bz b3 then emit_bbo b3 else Some b3) = Some b4" "b4 = b1\<lparr>ob_event_buf := cancel_events ?b h @ bb\<rparr>"
    "length bb \<le> 1" "\<forall>ev\<in>set bb. event_slot ev = NONE \<and> (\<forall>ix. index_event ev ix = ix)"
  proof (cases "best_moved ?bz b3")
    case True
    have "emit_bbo b3 = Some (b3\<lparr>ob_event_buf := ob_event_buf b3 @ [bbo_event b3 ?Q]\<rparr>)"
      by (rule emit_bbo_ok [of b3 ?Q "h # F"]) (use book_invD(5,7) [OF i1] in \<open>simp_all add: b3_def cancel_events_def MAX_EVENTS_def\<close>)
    then show ?thesis using True that [of _ "[bbo_event b3 ?Q]"] by (simp add: b3_def)
  next
    case False
    then show ?thesis using that [of b3 "[]"] by (simp add: b3_def)
  qed
  have ev4: "ob_event_buf b4 = cancel_events ?b h @ bb" "ob_orders b4 = ob_orders b1" using b4(2) by simp_all
  have lg4: "log_ok n0 (e\<lparr>en_book := b4\<rparr>)" using lg by (simp add: log_ok_def)
  have sl4: "\<forall>ev\<in>set (ob_event_buf (en_book (e\<lparr>en_book := b4\<rparr>))). event_slot ev = NONE \<or> event_slot ev < length (slots (ob_orders (en_book (e\<lparr>en_book := b4\<rparr>))))"
    using b4(4) ev4 eb(2) qt(5) by (auto simp: cancel_events_def event_slot_def)
  obtain e1 rs where p: "publish_events (e\<lparr>en_book := b4\<rparr>) (clk 0) no_hops = Some e1" "log_ok n0 e1" "en_book e1 = b4" "en_order_index e1 = ?ix"
    "en_dedup e1 = en_dedup e" "en_log e1 = en_log e @ rs" "length rs = length (ob_event_buf b4)"
    using publish_ok [OF lg4 sl4, of "clk 0" no_hops] by auto
  let ?ix' = "update_order_index (ob_event_buf b4) ?ix"
  have "fold index_event bb ix = ix" for ix using b4(4) by (induction bb arbitrary: ix) simp_all
  then have ix': "?ix' = ?ix((u, hi, lo) := None)" using k(1) unfolding ev4 by (simp add: update_order_index_def cancel_events_def key_of_def)
  have run: "me_process_cancel e u hi lo clk = Some (e1\<lparr>en_order_index := ?ix'\<rparr>)"
    unfolding me_process_cancel_def using f sl c(1) e2 b4(1) p(1,3,4) by (simp add: rem_def)
  have "engine_inv n0 (e1\<lparr>en_order_index := ?ix'\<rparr>) ?Q (h # F)"
    using i1 dd p(2,3,5) ix' b4(2) by (simp add: engine_inv_def log_ok_def)
  then show ?thesis using run ix' p(3,5,6,7) ev4 b4(2,3) c(3) eb(3)
    by (intro exI [of _ "e1\<lparr>en_order_index := ?ix'\<rparr>"] exI [of _ "h # F"] exI [of _ rs]) auto
qed

section \<open>Orders\<close>

text \<open>What the engine needs of an order that is not a duplicate: its id does not rest, the book can take it
  (\<open>acceptable\<close>) and its price is one the compression map may be centred on.\<close>

definition order_admissible :: "engine \<Rightarrow> order_message \<Rightarrow> bool" where
  "order_admissible e msg \<longleftrightarrow> snd (check_and_insert (en_dedup e) (om_user_id msg) (om_order_id_hi msg) (om_order_id_lo msg)) \<or>
     en_order_index e (om_user_id msg, om_order_id_hi msg, om_order_id_lo msg) = None \<and>
     (\<forall>Q F. good (en_book e) Q F \<longrightarrow> acceptable (en_book e) Q (to_incoming msg)) \<and>
     regular_mid (om_price msg) (bc_tick_size (ob_config (en_book e)))"

text \<open>An order as the book sees it: the step live processing and replay share.\<close>

lemma order_book_inv:
  assumes inv: "book_inv b ix Q F" and a: "acceptable b Q oc" and k: "ix (io_user_id oc, io_order_id_hi oc, io_order_id_lo oc) = None"
    and r: "regular_mid (io_price oc) (bc_tick_size (ob_config b))"
  shows "\<exists>b' oc' Q' F'. process_new_order b oc = Some (b', oc') \<and> book_inv b' (update_order_index (ob_event_buf b') ix) Q' F' \<and>
    (\<forall>e\<in>set (ob_event_buf b'). event_slot e = NONE \<or> event_slot e < length (slots (ob_orders b'))) \<and> ob_config b' = ob_config b"
proof -
  note B = book_invD [OF inv]
  obtain b' oc' Q' F' where p: "process_new_order b oc = Some (b', oc')" "good b' Q' F'" "resting_qty b' Q' \<le> i64_max"
    "index_exact b' Q' (update_order_index (ob_event_buf b') ix)" "\<forall>e\<in>set (ob_event_buf b'). event_slot e = NONE \<or> event_slot e \<in> queued Q'"
    "\<forall>h\<in>queued Q'. os_price (ord b' h) = io_price oc \<or> h \<in> queued Q \<and> os_price (ord b' h) = os_price (ord b h)" "ob_config b' = ob_config b"
    using process_index [OF B(1) a B(2) k] by blast
  have rel: "book_rel b' Q' F' {}" using p(2) by (simp add: good_def wf_def)
  have "prices_regular b' Q'" unfolding prices_regular_def p(7)
  proof
    fix h assume "h \<in> queued Q'"
    with p(6) show "regular_mid (os_price (ord b' h)) (bc_tick_size (ob_config b))" using r B(4) by (auto simp: prices_regular_def)
  qed
  moreover have "e \<in> set (ob_event_buf b') \<Longrightarrow> event_slot e = NONE \<or> event_slot e < length (slots (ob_orders b'))" for e
    using p(5) queue_tick(5) [OF rel] by (auto simp: queued_def)
  ultimately show ?thesis using p by (auto simp: book_inv_def)
qed

lemma recenter_inv:
  assumes inv: "book_inv b ix Q F"
  shows "\<exists>b' Q'. maybe_recenter b = Some b' \<and> book_inv b' ix Q' F \<and> queued Q' = queued Q \<and> (\<forall>h. essence (ord b' h) = essence (ord b h)) \<and>
    ob_config b' = ob_config b"
proof -
  note B = book_invD [OF inv]
  obtain b' Q' where r: "maybe_recenter b = Some b'" "good b' Q' F" "queued Q' = queued Q" "\<forall>h. essence (ord b' h) = essence (ord b h)"
    "ob_config b' = ob_config b" using maybe_recenter_ok [OF B(1,3,4)] by blast
  have same: "os_price (ord b' h) = os_price (ord b h)" "os_remaining_qty (ord b' h) = os_remaining_qty (ord b h)" "key_of (ord b' h) = key_of (ord b h)" for h
    using essenceD(1,2) [OF spec [OF r(4), of h]] key_of_essence [OF spec [OF r(4), of h]] by blast+
  have "index_exact b' Q' ix" by (rule index_exact_cong [OF B(2) r(3)]) (simp add: same)
  moreover have "resting_qty b' Q' \<le> i64_max" "prices_regular b' Q'"
    using B(3,4) r(3,5) same by (simp_all add: resting_qty_def rem_def prices_regular_def)
  ultimately show ?thesis using r by (auto simp: book_inv_def)
qed

lemma order_step:
  assumes inv: "engine_inv n0 e Q F" and adm: "order_admissible e msg"
  shows "\<exists>e' Q' F'. me_process_order e msg clk = Some e' \<and> engine_inv n0 e' Q' F' \<and> ob_config (en_book e') = ob_config (en_book e)"
proof -
  let ?k = "(om_user_id msg, om_order_id_hi msg, om_order_id_lo msg)"
  obtain d dup where cd: "check_and_insert (en_dedup e) (om_user_id msg) (om_order_id_hi msg) (om_order_id_lo msg) = (d, dup)" by fastforce
  have bi: "book_inv (en_book e) (en_order_index e) Q F" and lg: "log_ok n0 (e\<lparr>en_dedup := d\<rparr>)"
    and de: "dedup_ok (en_dedup e)" using inv by (simp_all add: engine_inv_def log_ok_def)
  have dd: "dedup_ok d" using check_ok(1) [OF de, of "om_user_id msg" "om_order_id_hi msg" "om_order_id_lo msg"] cd by simp
  show ?thesis
  proof (cases dup)
    case True
    then have "me_process_order e msg clk = Some (fan_out (e\<lparr>en_dedup := d\<rparr>) (duplicate_record msg (clk 1)))"
      by (simp add: me_process_order_def cd Let_def)
    then show ?thesis using bi dd fan_out_log(1) [OF lg] by (auto simp: engine_inv_def)
  next
    case False
    define e2 where "e2 = fan_out (e\<lparr>en_dedup := d\<rparr>) (accepted_record (en_symbol_id e) msg (clk 1))"
    have e2: "log_ok n0 e2" "en_book e2 = en_book e" "en_order_index e2 = en_order_index e" "en_dedup e2 = d"
      using fan_out_log(1) [OF lg] by (simp_all add: e2_def)
    have a: "acceptable (en_book e) Q (to_incoming msg)" "en_order_index e ?k = None" "regular_mid (om_price msg) (bc_tick_size (ob_config (en_book e)))"
      using adm False cd book_invD(1) [OF bi] by (auto simp: order_admissible_def)
    have ti: "io_user_id (to_incoming msg) = om_user_id msg" "io_order_id_hi (to_incoming msg) = om_order_id_hi msg"
      "io_order_id_lo (to_incoming msg) = om_order_id_lo msg" "io_price (to_incoming msg) = om_price msg" by (simp_all add: to_incoming_def)
    from order_book_inv [OF bi a(1)] a(2,3) ti obtain b1 oc' Q1 F1 where b1: "process_new_order (en_book e) (to_incoming msg) = Some (b1, oc')"
      "book_inv b1 (update_order_index (ob_event_buf b1) (en_order_index e)) Q1 F1"
      "\<forall>ev\<in>set (ob_event_buf b1). event_slot ev = NONE \<or> event_slot ev < length (slots (ob_orders b1))" "ob_config b1 = ob_config (en_book e)" by metis
    let ?hp = "\<lparr>hp_gw_in_ns = om_timestamp_ns msg, hp_risk_in_ns = om_risk_in_ns msg, hp_me_in_ns = clk 0, hp_match_done_ns = clk 2\<rparr>"
    have "log_ok n0 (e2\<lparr>en_book := b1\<rparr>)" using e2(1) by (simp add: log_ok_def)
    from publish_ok [OF this, of "clk 3" ?hp] b1(3) obtain e3 where e3: "publish_events (e2\<lparr>en_book := b1\<rparr>) (clk 3) ?hp = Some e3"
      "log_ok n0 e3" "en_book e3 = b1" "en_order_index e3 = en_order_index e2" "en_dedup e3 = en_dedup e2" by auto
    from recenter_inv [OF b1(2)] obtain b' Q' where r: "maybe_recenter b1 = Some b'"
      "book_inv b' (update_order_index (ob_event_buf b1) (en_order_index e)) Q' F1" "ob_config b' = ob_config b1" by blast
    have "me_process_order e msg clk =
        Some (e3\<lparr>en_order_index := update_order_index (ob_event_buf b1) (en_order_index e), en_book := b'\<rparr>)"
      using b1(1) e3(1,3,4) r(1) e2 False by (simp add: me_process_order_def cd Let_def e2_def [symmetric] del: One_nat_def)
    then show ?thesis using r(2,3) e3(2,5) e2(4) dd b1(4) by (auto simp: engine_inv_def log_ok_def)
  qed
qed


end
