(* ===== verification/Le_Bytes.thy ===== *)
theory Le_Bytes
  imports Prelude
begin

text \<open>
  Little-endian byte strings: \<open>to_le_bytes\<close> and \<open>from_le_bytes\<close> of the standard library at a given width. A byte is a number
  below 256. Snapshots (\<open>rsx-book\<close>) and the frames of \<open>rsx-cast\<close> are built from them.
\<close>

section \<open>Definitions\<close>

fun to_le_bytes :: "nat \<Rightarrow> nat \<Rightarrow> u8 list" where
  "to_le_bytes 0 x = []"
| "to_le_bytes (Suc w) x = (x mod 256) # to_le_bytes w (x div 256)"

fun from_le_bytes :: "u8 list \<Rightarrow> nat" where
  "from_le_bytes [] = 0"
| "from_le_bytes (c # cs) = c + 256 * from_le_bytes cs"

definition bytes :: "u8 list \<Rightarrow> bool" where
  "bytes cs \<longleftrightarrow> (\<forall>c\<in>set cs. c < 256)"

section \<open>Round trips\<close>

lemma length_to_le_bytes [simp]: "length (to_le_bytes w x) = w"
  by (induction w arbitrary: x) simp_all

lemma bytes_simps [simp]: "bytes []" "bytes (c # cs) \<longleftrightarrow> c < 256 \<and> bytes cs" "bytes (cs @ ds) \<longleftrightarrow> bytes cs \<and> bytes ds"
  by (auto simp: bytes_def)

lemma bytes_to_le [simp]: "bytes (to_le_bytes w x)"
  by (induction w arbitrary: x) simp_all

lemma bytes_sub: "bytes cs \<Longrightarrow> bytes (take n cs)" "bytes cs \<Longrightarrow> bytes (drop n cs)"
  by (auto simp: bytes_def dest: in_set_takeD in_set_dropD)

lemma from_to_le: "x < 256 ^ w \<Longrightarrow> from_le_bytes (to_le_bytes w x) = x"
proof (induction w arbitrary: x)
  case (Suc w)
  have "x div 256 < 256 ^ w" using Suc.prems by (simp add: less_mult_imp_div_less mult.commute)
  then show ?case using Suc.IH [of "x div 256"] by simp
qed simp

lemma from_le_bound: "bytes cs \<Longrightarrow> from_le_bytes cs < 256 ^ length cs"
proof (induction cs)
  case (Cons c cs)
  then have "c < 256" "Suc (from_le_bytes cs) \<le> 256 ^ length cs" by simp_all
  then have "c + 256 * from_le_bytes cs < 256 * Suc (from_le_bytes cs)" "256 * Suc (from_le_bytes cs) \<le> 256 * 256 ^ length cs" by simp_all
  then have "c + 256 * from_le_bytes cs < 256 * 256 ^ length cs" by (rule less_le_trans)
  then show ?case by simp
qed simp

lemma to_from_le: "bytes cs \<Longrightarrow> to_le_bytes (length cs) (from_le_bytes cs) = cs"
  by (induction cs) simp_all

lemma to_le_bytes_inj: "x < 256 ^ w \<Longrightarrow> y < 256 ^ w \<Longrightarrow> to_le_bytes w x = to_le_bytes w y \<Longrightarrow> x = y"
  by (metis from_to_le)

end
