(* ===== verification/Snapshot.thy ===== *)
theory Snapshot
  imports Migration Le_Bytes
begin

text \<open>
  \<open>rsx-book/src/snapshot.rs\<close>: the logical checkpoint of a book. \<open>capture\<close> walks every level and copies the resting orders, the
  free list and the users; \<open>restore\<close> builds a new book, puts the orders into their slots, threads the free list, links the queues and
  recomputes the occupancy and the best prices. A result is \<open>None\<close> for a panic, \<open>Some (Inl e)\<close> for an \<open>io::Error\<close> and \<open>Some (Inr x)\<close>
  for a value. The iteration order of the hash map \<open>user_map\<close> is a parameter: the list of its entries.
\<close>

section \<open>Data\<close>

type_synonym snapshot_u64 = "u8 list"

definition snapshot_u64_new :: "u64 \<Rightarrow> snapshot_u64" where "snapshot_u64_new x = to_le_bytes 8 x"
definition snapshot_u64_get :: "snapshot_u64 \<Rightarrow> u64" where "snapshot_u64_get cs = from_le_bytes cs"

record order_snapshot =
  sn_handle :: u32
  sn_price :: i64
  sn_remaining_qty :: i64
  sn_side :: u8
  sn_tif :: u8
  sn_reduce_only :: bool
  sn_user_id :: u32
  sn_sequence :: u32
  sn_original_qty :: i64
  sn_timestamp_ns :: snapshot_u64
  sn_order_id_hi :: snapshot_u64
  sn_order_id_lo :: snapshot_u64

record user_snapshot =
  usn_index :: u32
  usn_user_id :: u32
  usn_net_qty :: i64
  usn_order_count :: u32
  usn_zero_since_ns :: snapshot_u64

record user_registry_snapshot =
  urs_bump :: u32
  urs_maintenance_cursor :: u32
  urs_users :: "user_snapshot list"
  urs_free_indices :: "u32 list"

record book_snapshot =
  bs_sequence :: snapshot_u64
  bs_config :: book_config
  bs_compression_mid_price :: i64
  bs_slab_capacity :: u32
  bs_slab_bump :: u32
  bs_orders :: "order_snapshot list"
  bs_free_handles :: "u32 list"
  bs_users :: user_registry_snapshot

datatype snapshot_error =
    DuringMigration | InvalidOrderQueue | QueueDisagreesWithSlab | LevelDisagreesWithQueue | SlabDisagreesWithLevels
  | InvalidUserIndex | DuplicateUserId | InvalidUserFreeList | UntrackedUserSlots
  | BumpExceedsCapacity | InvalidAlignment | InvalidOrderHandle | InvalidOrderSide | InvalidSlabFreeList | UntrackedSlabSlots

type_synonym 'a io = "(snapshot_error + 'a) option"

definition and_then :: "'a io \<Rightarrow> ('a \<Rightarrow> 'b io) \<Rightarrow> 'b io" where
  "and_then m f = (case m of None \<Rightarrow> None | Some (Inl e) \<Rightarrow> Some (Inl e) | Some (Inr x) \<Rightarrow> f x)"

section \<open>Capturing\<close>

definition order_snapshot_of :: "u32 \<Rightarrow> order_slot \<Rightarrow> order_snapshot" where
  "order_snapshot_of handle slot = \<lparr>sn_handle = handle, sn_price = os_price slot, sn_remaining_qty = os_remaining_qty slot,
     sn_side = os_side slot, sn_tif = os_tif slot, sn_reduce_only = is_reduce_only slot, sn_user_id = os_user_id slot,
     sn_sequence = os_sequence slot, sn_original_qty = os_original_qty slot, sn_timestamp_ns = snapshot_u64_new (os_timestamp_ns slot),
     sn_order_id_hi = snapshot_u64_new (os_order_id_hi slot), sn_order_id_lo = snapshot_u64_new (os_order_id_lo slot)\<rparr>"

text \<open>The walk along one level. Every step marks a handle that was not visited, so it ends even on a cyclic list.\<close>

function capture_queue ::
  "slab \<Rightarrow> u32 \<Rightarrow> u32 \<Rightarrow> bool list \<Rightarrow> order_snapshot list \<Rightarrow> u32 \<Rightarrow> u32 \<Rightarrow> (bool list \<times> order_snapshot list \<times> u32 \<times> u32) io" where
  "capture_queue s tick handle visited orders cnt tail =
     (if handle = NONE then Some (Inr (visited, orders, cnt, tail))
      else if slab_len s \<le> handle then Some (Inl InvalidOrderQueue)
      else case index_of visited handle of None \<Rightarrow> None
        | Some v \<Rightarrow> if v then Some (Inl InvalidOrderQueue)
          else (case slab_get s handle of None \<Rightarrow> None
            | Some slot \<Rightarrow> if \<not> is_active slot \<or> os_tick_index slot \<noteq> tick then Some (Inl QueueDisagreesWithSlab)
              else capture_queue s tick (os_next slot) (visited[handle := True]) (orders @ [order_snapshot_of handle slot])
                (u32_add cnt 1) handle))"
  by pat_completeness auto

fun unvisited :: "bool list \<Rightarrow> nat" where
  "unvisited [] = 0"
| "unvisited (v # vs) = (if v then 0 else 1) + unvisited vs"

lemma unvisited_mark: "i < length vs \<Longrightarrow> \<not> vs ! i \<Longrightarrow> unvisited (vs[i := True]) < unvisited vs"
  by (induction vs arbitrary: i) (auto simp: nth_Cons' split: nat.split)

termination capture_queue
  by (relation "measure (\<lambda>(s, tick, handle, visited, orders, cnt, tail). unvisited visited)") (simp_all add: unvisited_mark)

fun capture_levels :: "slab \<Rightarrow> nat \<Rightarrow> price_level list \<Rightarrow> bool list \<Rightarrow> order_snapshot list \<Rightarrow> (bool list \<times> order_snapshot list) io" where
  "capture_levels s tick [] visited orders = Some (Inr (visited, orders))"
| "capture_levels s tick (level # levels) visited orders =
     and_then (capture_queue s (u64_as_u32 tick) (pl_head level) visited orders 0 NONE) (\<lambda>(visited', orders', cnt, tail).
       if cnt \<noteq> pl_order_count level \<or> tail \<noteq> pl_tail level then Some (Inl LevelDisagreesWithQueue)
       else capture_levels s (Suc tick) levels visited' orders')"

fun check_visited :: "slab \<Rightarrow> bool list \<Rightarrow> u32 list \<Rightarrow> unit io" where
  "check_visited s visited [] = Some (Inr ())"
| "check_visited s visited (handle # handles) = (case (slab_get s handle, index_of visited handle) of
     (Some slot, Some v) \<Rightarrow> if is_active slot \<noteq> v then Some (Inl SlabDisagreesWithLevels) else check_visited s visited handles
   | _ \<Rightarrow> None)"

fun capture_users :: "user_state list \<Rightarrow> (u32 \<times> u32) list \<Rightarrow> user_snapshot list option" where
  "capture_users states [] = Some []"
| "capture_users states ((user_id, index) # entries) = do {
     state \<leftarrow> index_of states index;
     rest \<leftarrow> capture_users states entries;
     Some (\<lparr>usn_index = index, usn_user_id = user_id, usn_net_qty = us_net_qty state, usn_order_count = us_order_count state,
       usn_zero_since_ns = snapshot_u64_new (us_zero_since_ns state)\<rparr> # rest)
   }"

definition capture :: "orderbook \<Rightarrow> (u32 \<times> u32) list \<Rightarrow> book_snapshot io" where
  "capture b entries =
     (if ob_state b = Migrating then Some (Inl DuringMigration)
      else case free_handles (ob_orders b) of None \<Rightarrow> None
      | Some handles \<Rightarrow>
          (let bump = slab_len (ob_orders b) in
           and_then (capture_levels (ob_orders b) 0 (ob_active_levels b) (replicate bump False) []) (\<lambda>(visited, orders).
           and_then (check_visited (ob_orders b) visited [0..<bump]) (\<lambda>_.
             do {
               users \<leftarrow> capture_users (ur_states (ob_users b)) entries;
               Some (Inr \<lparr>bs_sequence = snapshot_u64_new (ob_sequence b), bs_config = ob_config b,
                 bs_compression_mid_price = cp_mid_price (ob_compression b), bs_slab_capacity = slab_capacity (ob_orders b),
                 bs_slab_bump = bump, bs_orders = orders, bs_free_handles = handles,
                 bs_users = \<lparr>urs_bump = ur_bump (ob_users b), urs_maintenance_cursor = ur_cursor (ob_users b),
                   urs_users = sort_key usn_index users, urs_free_indices = ur_free_list (ob_users b)\<rparr>\<rparr>)
             }))))"

section \<open>Restoring\<close>

definition user_state_of :: "user_snapshot \<Rightarrow> user_state" where
  "user_state_of user = \<lparr>us_user_id = usn_user_id user, us_net_qty = usn_net_qty user, us_order_count = usn_order_count user,
     us_zero_since_ns = snapshot_u64_get (usn_zero_since_ns user)\<rparr>"

fun place_users :: "u32 \<Rightarrow> user_snapshot list \<Rightarrow> bool list \<Rightarrow> user_registry \<Rightarrow> (bool list \<times> user_registry) io" where
  "place_users bump [] occupied registry = Some (Inr (occupied, registry))"
| "place_users bump (user # users) occupied registry =
     (let i = usn_index user in
      if bump \<le> i then Some (Inl InvalidUserIndex)
      else case index_of occupied i of None \<Rightarrow> None
      | Some c \<Rightarrow> if c then Some (Inl InvalidUserIndex)
        else if ur_map registry (usn_user_id user) \<noteq> None then Some (Inl DuplicateUserId)
        else (case store_at (ur_states registry) i (user_state_of user) of None \<Rightarrow> None
          | Some states \<Rightarrow> place_users bump users (occupied[i := True])
              (registry\<lparr>ur_map := (ur_map registry)(usn_user_id user \<mapsto> i), ur_states := states\<rparr>)))"

text \<open>The free-list check that the user registry and the slab share: below the bump, not occupied, not twice.\<close>

fun mark_free :: "snapshot_error \<Rightarrow> u32 \<Rightarrow> bool list \<Rightarrow> u32 list \<Rightarrow> bool list \<Rightarrow> bool list io" where
  "mark_free e bump occupied [] freed = Some (Inr freed)"
| "mark_free e bump occupied (i # is) freed =
     (if bump \<le> i then Some (Inl e)
      else case (index_of occupied i, index_of freed i) of
        (Some c, Some f) \<Rightarrow> if c \<or> f then Some (Inl e) else mark_free e bump occupied is (freed[i := True])
      | _ \<Rightarrow> None)"

definition untracked :: "bool list \<Rightarrow> bool list \<Rightarrow> bool" where
  "untracked occupied freed \<longleftrightarrow> list_ex (\<lambda>(c, f). \<not> c \<and> \<not> f) (zip occupied freed)"

definition restore_users :: "user_registry_snapshot \<Rightarrow> user_registry io" where
  "restore_users snapshot = (let bump = urs_bump snapshot in
     and_then (place_users bump (urs_users snapshot) (replicate bump False) (user_registry_new\<lparr>ur_states := replicate bump user_state_default\<rparr>))
       (\<lambda>(occupied, registry).
     and_then (mark_free InvalidUserFreeList bump occupied (urs_free_indices snapshot) (replicate bump False)) (\<lambda>freed.
       if untracked occupied freed then Some (Inl UntrackedUserSlots)
       else Some (Inr (registry\<lparr>ur_free_list := urs_free_indices snapshot, ur_bump := bump, ur_cursor := urs_maintenance_cursor snapshot\<rparr>)))))"

definition order_slot_of :: "order_snapshot \<Rightarrow> order_slot" where
  "order_slot_of order = \<lparr>os_price = sn_price order, os_remaining_qty = sn_remaining_qty order, os_side = sn_side order,
     os_flags = ORDER_ACTIVE OR (if sn_reduce_only order then ORDER_REDUCE_ONLY else 0), os_tif = sn_tif order,
     os_next = NONE, os_prev = NONE, os_tick_index = 0, os_user_id = sn_user_id order, os_sequence = sn_sequence order,
     os_original_qty = sn_original_qty order, os_timestamp_ns = snapshot_u64_get (sn_timestamp_ns order),
     os_order_id_hi = snapshot_u64_get (sn_order_id_hi order), os_order_id_lo = snapshot_u64_get (sn_order_id_lo order)\<rparr>"

fun place_orders :: "u32 \<Rightarrow> order_snapshot list \<Rightarrow> bool list \<Rightarrow> slab \<Rightarrow> (bool list \<times> slab) io" where
  "place_orders bump [] active s = Some (Inr (active, s))"
| "place_orders bump (order # orders) active s =
     (if bump \<le> sn_handle order then Some (Inl InvalidOrderHandle)
      else case index_of active (sn_handle order) of None \<Rightarrow> None
      | Some a \<Rightarrow> if a then Some (Inl InvalidOrderHandle)
        else if sn_side order \<noteq> side_u8 Buy \<and> sn_side order \<noteq> side_u8 Sell then Some (Inl InvalidOrderSide)
        else (case slab_put s (sn_handle order) (order_slot_of order) of None \<Rightarrow> None
          | Some s' \<Rightarrow> place_orders bump orders (active[sn_handle order := True]) s'))"

definition link_order :: "orderbook \<Rightarrow> order_snapshot \<Rightarrow> orderbook option" where
  "link_order b order = do {
     tick \<leftarrow> price_to_index (ob_compression b) (sn_price order);
     slot \<leftarrow> slab_get (ob_orders b) (sn_handle order);
     orders \<leftarrow> slab_put (ob_orders b) (sn_handle order) (slot\<lparr>os_tick_index := tick\<rparr>);
     level \<leftarrow> index_of (ob_active_levels b) tick;
     (orders', level') \<leftarrow> (if pl_order_count level = 0 then Some (orders, level\<lparr>pl_head := sn_handle order\<rparr>)
       else do {
         let tail = pl_tail level;
         t \<leftarrow> slab_get orders tail;
         orders1 \<leftarrow> slab_put orders tail (t\<lparr>os_next := sn_handle order\<rparr>);
         s \<leftarrow> slab_get orders1 (sn_handle order);
         orders2 \<leftarrow> slab_put orders1 (sn_handle order) (s\<lparr>os_prev := tail\<rparr>);
         Some (orders2, level)
       });
     Some (b\<lparr>ob_orders := orders', ob_active_levels := (ob_active_levels b)[tick := level'\<lparr>pl_tail := sn_handle order,
       pl_total_qty := sat_add (pl_total_qty level') (sn_remaining_qty order), pl_order_count := u32_add (pl_order_count level') 1\<rparr>]\<rparr>)
   }"

fun link_orders :: "order_snapshot list \<Rightarrow> orderbook \<Rightarrow> orderbook option" where
  "link_orders [] b = Some b"
| "link_orders (order # orders) b = do { b' \<leftarrow> link_order b order; link_orders orders b' }"

definition restore :: "book_snapshot \<Rightarrow> u32 \<Rightarrow> orderbook io" where
  "restore snapshot capacity =
     (if bs_slab_bump snapshot > bs_slab_capacity snapshot then Some (Inl BumpExceedsCapacity)
      else if bc_tick_size (bs_config snapshot) \<le> 0 \<or> bc_lot_size (bs_config snapshot) \<le> 0 then Some (Inl InvalidAlignment)
      else case orderbook_new (bs_config snapshot) (max capacity (bs_slab_capacity snapshot)) (bs_compression_mid_price snapshot) of None \<Rightarrow> None
      | Some book \<Rightarrow>
          (let bump = bs_slab_bump snapshot in
           and_then (place_orders bump (bs_orders snapshot) (replicate bump False) (set_bump_next (ob_orders book) bump)) (\<lambda>(active, orders).
           and_then (mark_free InvalidSlabFreeList bump active (bs_free_handles snapshot) (replicate bump False)) (\<lambda>freed.
             if untracked active freed then Some (Inl UntrackedSlabSlots)
             else case restore_free_handles orders (bs_free_handles snapshot) of None \<Rightarrow> None
             | Some orders' \<Rightarrow> and_then (restore_users (bs_users snapshot)) (\<lambda>users.
                 do {
                   b1 \<leftarrow> link_orders (bs_orders snapshot) (book\<lparr>ob_orders := orders', ob_users := users\<rparr>);
                   b2 \<leftarrow> rebuild_occupancy (b1\<lparr>ob_sequence := snapshot_u64_get (bs_sequence snapshot)\<rparr>);
                   b3 \<leftarrow> refresh_best_bid b2;
                   b4 \<leftarrow> refresh_best_ask b3;
                   Some (Inr b4)
                 })))))"

end
