(* ===== verification/Snapshot_Props.thy ===== *)
theory Snapshot_Props
  imports Snapshot Match_Process Book_Props
begin

text \<open>
  A snapshot can be taken of every well-formed book and restored to a book with the same orders, users and best prices. First the
  walk of \<open>capture\<close>, then the loops of \<open>restore\<close>, then the round trip.
\<close>

declare capture_queue.simps [simp del]

section \<open>Capturing\<close>

definition marks :: "u32 list \<Rightarrow> bool list \<Rightarrow> bool list" where
  "marks hs v = fold (\<lambda>h v. v[h := True]) hs v"

lemma marks_simps [simp]: "marks [] v = v" "marks (h # hs) v = marks hs (v[h := True])" "marks (hs @ gs) v = marks gs (marks hs v)"
  by (simp_all add: marks_def)

lemma length_marks [simp]: "length (marks hs v) = length v"
  by (induction hs arbitrary: v) simp_all

lemma marks_nth: "i < length v \<Longrightarrow> marks hs v ! i \<longleftrightarrow> v ! i \<or> i \<in> set hs"
proof (induction hs arbitrary: v)
  case (Cons h hs)
  then show ?case by (cases "i = h") auto
qed simp

abbreviation snap_of :: "slab \<Rightarrow> u32 \<Rightarrow> order_snapshot" where
  "snap_of s h \<equiv> order_snapshot_of h (slots s ! h)"

lemma capture_queue_ok:
  assumes "seg (slots s) p hs NONE" "set hs \<subseteq> {..<bump_next s}" "bump_next s \<le> length (slots s)" "bump_next s \<le> NONE"
    "length vis = bump_next s" "distinct hs" "\<forall>h\<in>set hs. \<not> vis ! h \<and> is_active (slots s ! h) \<and> os_tick_index (slots s ! h) = tick"
    "c + length hs < 4294967296"
  shows "capture_queue s tick (first hs NONE) vis os c tz =
    Some (Inr (marks hs vis, os @ map (snap_of s) hs, c + length hs, lastp tz hs))"
  using assms
proof (induction hs arbitrary: p vis os c tz)
  case Nil
  then show ?case by (simp add: capture_queue.simps)
next
  case (Cons h hs)
  have h: "h < bump_next s" "h < length (slots s)" "h \<noteq> NONE" "u32_add c 1 = Suc c"
    using Cons.prems by (auto simp: u32_add_def)
  have "capture_queue s tick (first hs NONE) (vis[h := True]) (os @ [snap_of s h]) (Suc c) h =
      Some (Inr (marks hs (vis[h := True]), (os @ [snap_of s h]) @ map (snap_of s) hs, Suc c + length hs, lastp h hs))"
    by (rule Cons.IH [where p = h]) (use Cons.prems in \<open>auto simp: nth_list_update\<close>)
  then show ?case using Cons.prems h
    by (subst capture_queue.simps) (simp add: slab_len_def slab_get_def index_of_Some)
qed

text \<open>The orders in the sequence of a snapshot: level by level, each level from its head.\<close>

definition listed :: "orderbook \<Rightarrow> queues \<Rightarrow> u32 list" where
  "listed b Q = concat (map Q [0..<length (ob_active_levels b)])"

lemma set_listed: "book_rel b Q F D \<Longrightarrow> set (listed b Q) = queued Q"
proof -
  assume rel: "book_rel b Q F D"
  have "h \<in> set (Q t) \<Longrightarrow> t < length (ob_active_levels b)" for h t using book_relD(19) [OF rel, of t] by (cases "t < length (ob_active_levels b)") auto
  then show ?thesis by (force simp: listed_def queued_def)
qed

lemma distinct_prefix: "book_rel b Q F D \<Longrightarrow> distinct (concat (map Q [0..<t]))"
proof (induction t)
  case (Suc t)
  have "set (Q u) \<inter> set (Q t) = {}" if "u < t" for u using queues_disjoint [OF Suc.prems, of _ u t] that by auto
  then have "set (concat (map Q [0..<t])) \<inter> set (Q t) = {}" unfolding disjoint_iff by auto
  then show ?case using book_relD(10) [OF Suc.prems, of t] Suc.IH [OF Suc.prems] by simp
qed simp

lemma distinct_listed: "book_rel b Q F D \<Longrightarrow> distinct (listed b Q)"
  unfolding listed_def by (rule distinct_prefix)

lemma total_slots_small: "book_rel b Q F D \<Longrightarrow> length (ob_active_levels b) < 4294967296"
  using total_slots_ok [of "ob_compression b"] book_relD(2,4) [of b Q F D] by (auto simp: comp_ok_def NONE_def)

lemma capture_levels_ok:
  assumes rel: "book_rel b Q F D" and t: "t \<le> length (ob_active_levels b)"
  shows "capture_levels (ob_orders b) t (drop t (ob_active_levels b)) (marks (concat (map Q [0..<t])) (replicate (bump_next (ob_orders b)) False))
      (map (snap_of (ob_orders b)) (concat (map Q [0..<t]))) =
    Some (Inr (marks (listed b Q) (replicate (bump_next (ob_orders b)) False), map (snap_of (ob_orders b)) (listed b Q)))"
  using t
proof (induction rule: inc_induct)
  case base
  then show ?case by (simp add: listed_def)
next
  case (step t)
  let ?s = "ob_orders b" and ?l = "ob_active_levels b ! t" and ?v = "marks (concat (map Q [0..<t])) (replicate (bump_next (ob_orders b)) False)"
  note lo = book_relD(9) [OF rel step.hyps(2)] and so = book_relD(11) [OF rel, of _ t]
  have sb: "bump_next ?s \<le> length (slots ?s)" "bump_next ?s \<le> NONE" using book_relD(1) [OF rel] by (auto simp: slab_rel_def)
  have qt: "h < bump_next ?s" if "h \<in> set (Q t)" for h
    using book_relD(12) [OF rel] in_queued [of h Q t, OF that] by blast
  have fresh: "h \<notin> set (concat (map Q [0..<t]))" if "h \<in> set (Q t)" for h
    using queues_disjoint [OF rel that] by force
  have "length (Q t) = card (set (Q t))" using book_relD(10) [OF rel, of t] by (simp add: distinct_card)
  also have "\<dots> \<le> bump_next ?s" using qt card_mono [of "{..<bump_next ?s}" "set (Q t)"] by auto
  finally have "length (Q t) < 4294967296" using sb(2) by (simp add: NONE_def)
  moreover have cn: "length (Q t) = pl_order_count ?l" "first (Q t) NONE = pl_head ?l" "lastp NONE (Q t) = pl_tail ?l"
    using lo by (simp_all add: level_ok_def)
  ultimately have "capture_queue ?s t (pl_head ?l) ?v (map (snap_of ?s) (concat (map Q [0..<t]))) 0 NONE =
      Some (Inr (marks (Q t) ?v, map (snap_of ?s) (concat (map Q [0..<t])) @ map (snap_of ?s) (Q t), pl_order_count ?l, pl_tail ?l))"
    using capture_queue_ok [of ?s NONE "Q t" ?v t 0 "map (snap_of ?s) (concat (map Q [0..<t]))" NONE] lo sb qt fresh so book_relD(10) [OF rel, of t] cn
    by (auto simp: level_ok_def marks_nth slot_ok_def)
  moreover have "u64_as_u32 t = t" using total_slots_small [OF rel] step.hyps by (simp add: u64_as_u32_def)
  moreover have "drop t (ob_active_levels b) = ?l # drop (Suc t) (ob_active_levels b)" using step.hyps by (simp add: Cons_nth_drop_Suc)
  ultimately show ?case using step.IH by (simp add: and_then_def)
qed

lemma check_visited_ok:
  "\<forall>h\<in>set hs. h < length (slots s) \<and> h < length v \<and> (is_active (slots s ! h) \<longleftrightarrow> v ! h) \<Longrightarrow> check_visited s v hs = Some (Inr ())"
  by (induction hs) (simp_all add: slab_get_def index_of_Some)

definition user_snap :: "user_registry \<Rightarrow> u32 \<times> u32 \<Rightarrow> user_snapshot" where
  "user_snap u = (\<lambda>(user_id, i). \<lparr>usn_index = i, usn_user_id = user_id, usn_net_qty = us_net_qty (ur_states u ! i),
     usn_order_count = us_order_count (ur_states u ! i), usn_zero_since_ns = snapshot_u64_new (us_zero_since_ns (ur_states u ! i))\<rparr>)"

lemma capture_users_ok: "\<forall>(k, i)\<in>set es. i < length (ur_states u) \<Longrightarrow> capture_users (ur_states u) es = Some (map (user_snap u) es)"
  by (induction es) (auto simp: index_of_Some user_snap_def)

text \<open>\<open>es\<close> lists the entries of a hash map, each once, in whatever order the map iterates.\<close>

definition entries_of :: "('a \<rightharpoonup> 'b) \<Rightarrow> ('a \<times> 'b) list \<Rightarrow> bool" where
  "entries_of m es \<longleftrightarrow> distinct (map fst es) \<and> (\<forall>k v. (k, v) \<in> set es \<longleftrightarrow> m k = Some v)"

definition taken :: "orderbook \<Rightarrow> queues \<Rightarrow> u32 list \<Rightarrow> (u32 \<times> u32) list \<Rightarrow> book_snapshot" where
  "taken b Q F es = \<lparr>bs_sequence = snapshot_u64_new (ob_sequence b), bs_config = ob_config b,
     bs_compression_mid_price = cp_mid_price (ob_compression b), bs_slab_capacity = slab_capacity (ob_orders b),
     bs_slab_bump = bump_next (ob_orders b), bs_orders = map (snap_of (ob_orders b)) (listed b Q), bs_free_handles = F,
     bs_users = \<lparr>urs_bump = ur_bump (ob_users b), urs_maintenance_cursor = ur_cursor (ob_users b),
       urs_users = sort_key usn_index (map (user_snap (ob_users b)) es), urs_free_indices = ur_free_list (ob_users b)\<rparr>\<rparr>"

lemma capture_ok:
  assumes w: "wf b Q F" and n: "ob_state b = Normal" and es: "entries_of (ur_map (ob_users b)) es"
  shows "capture b es = Some (Inr (taken b Q F es))"
proof -
  note W = wfD [OF w]
  have rel: "book_rel b Q F {}" by (rule W(1))
  let ?s = "ob_orders b"
  have fr: "free_handles ?s = Some F" by (rule free_handles_rel [OF book_relD(1) [OF rel]])
  have lv: "capture_levels ?s 0 (ob_active_levels b) (replicate (bump_next ?s) False) [] =
      Some (Inr (marks (listed b Q) (replicate (bump_next ?s) False), map (snap_of ?s) (listed b Q)))"
    using capture_levels_ok [OF rel, of 0] by simp
  have sb: "bump_next ?s \<le> length (slots ?s)" using book_relD(1) [OF rel] by (auto simp: slab_rel_def)
  have act: "is_active (ord b h) \<longleftrightarrow> h \<in> queued Q" if "h < length (slots ?s)" for h
    using rel that unfolding book_rel_def queued_def by (auto simp: slot_ok_def)
  have cv: "check_visited ?s (marks (listed b Q) (replicate (bump_next ?s) False)) [0..<bump_next ?s] = Some (Inr ())"
    by (rule check_visited_ok) (use sb act in \<open>auto simp: marks_nth set_listed [OF rel]\<close>)
  have uo: "users_ok (ob_users b)" using W(4) by (simp add: users_rel_def)
  have "i < length (ur_states (ob_users b))" if "(k, i) \<in> set es" for k i
    using es uo that by (fastforce simp: entries_of_def users_ok_def)
  then have cu: "capture_users (ur_states (ob_users b)) es = Some (map (user_snap (ob_users b)) es)" by (intro capture_users_ok) auto
  show ?thesis using n fr lv cv cu by (simp add: capture_def Let_def slab_len_def and_then_def taken_def)
qed

section \<open>Restoring the users\<close>

lemma snapshot_u64_get_new [simp]: "x < 18446744073709551616 \<Longrightarrow> snapshot_u64_get (snapshot_u64_new x) = x"
  by (simp add: snapshot_u64_get_def snapshot_u64_new_def from_to_le)

lemma distinct_map_sort: "distinct (map f ys) \<Longrightarrow> distinct (map f (sort_key g ys))"
  by (simp add: distinct_map)

lemma place_users_ok:
  assumes "distinct (map usn_index us)" "distinct (map usn_user_id us)" "\<forall>x\<in>set us. usn_index x < bump \<and> ur_map r (usn_user_id x) = None \<and> \<not> oc ! usn_index x"
    "length oc = bump" "length (ur_states r) = bump"
  shows "\<exists>r'. place_users bump us oc r = Some (Inr (marks (map usn_index us) oc, r')) \<and> length (ur_states r') = bump \<and>
    ur_map r' = ur_map r ++ map_of (map (\<lambda>x. (usn_user_id x, usn_index x)) us) \<and>
    (\<forall>x\<in>set us. ur_states r' ! usn_index x = user_state_of x) \<and> (\<forall>i. i \<notin> usn_index ` set us \<longrightarrow> ur_states r' ! i = ur_states r ! i)"
  using assms
proof (induction us arbitrary: oc r)
  case Nil
  then show ?case by simp
next
  case (Cons x us)
  let ?i = "usn_index x"
  let ?r = "r\<lparr>ur_map := (ur_map r)(usn_user_id x \<mapsto> ?i), ur_states := (ur_states r)[?i := user_state_of x]\<rparr>"
  have "\<forall>y\<in>set us. usn_index y < bump \<and> ur_map ?r (usn_user_id y) = None \<and> \<not> oc[?i := True] ! usn_index y"
  proof
    fix y assume y: "y \<in> set us"
    then have "usn_index y \<noteq> ?i" "usn_user_id y \<noteq> usn_user_id x" using Cons.prems(1,2) by (auto simp: image_iff)
    then show "usn_index y < bump \<and> ur_map ?r (usn_user_id y) = None \<and> \<not> oc[?i := True] ! usn_index y" using Cons.prems(3) y by simp
  qed
  moreover have "length (oc[?i := True]) = bump" "length (ur_states ?r) = bump" "distinct (map usn_index us)" "distinct (map usn_user_id us)"
    using Cons.prems by simp_all
  ultimately obtain r' where r': "place_users bump us (oc[?i := True]) ?r = Some (Inr (marks (map usn_index us) (oc[?i := True]), r'))"
    "length (ur_states r') = bump" "ur_map r' = ur_map ?r ++ map_of (map (\<lambda>x. (usn_user_id x, usn_index x)) us)"
    "\<forall>y\<in>set us. ur_states r' ! usn_index y = user_state_of y" "\<forall>i. i \<notin> usn_index ` set us \<longrightarrow> ur_states r' ! i = ur_states ?r ! i"
    using Cons.IH by blast
  have xi: "?i < bump" "\<not> oc ! ?i" "ur_map r (usn_user_id x) = None" "?i \<notin> usn_index ` set us" "usn_user_id x \<notin> usn_user_id ` set us"
    using Cons.prems by auto
  have "place_users bump (x # us) oc r = Some (Inr (marks (map usn_index (x # us)) oc, r'))"
    using xi Cons.prems(4,5) r'(1) by (simp add: Let_def index_of_Some store_at_Some)
  moreover have "ur_map r' = ur_map r ++ map_of (map (\<lambda>x. (usn_user_id x, usn_index x)) (x # us))"
    unfolding r'(3) using xi(5) by (simp add: map_add_upd_left dom_map_of_conv_image_fst image_image)
  moreover have "\<forall>y\<in>set (x # us). ur_states r' ! usn_index y = user_state_of y" using r'(4,5) xi Cons.prems(5) by simp
  moreover have "\<forall>i. i \<notin> usn_index ` set (x # us) \<longrightarrow> ur_states r' ! i = ur_states r ! i" using r'(5) by simp
  ultimately show ?case using r'(2) by blast
qed

lemma mark_free_ok:
  assumes "distinct is" "\<forall>i\<in>set is. i < bump \<and> \<not> oc ! i \<and> \<not> fr ! i" "length oc = bump" "length fr = bump"
  shows "mark_free e bump oc is fr = Some (Inr (marks is fr))"
  using assms
proof (induction "is" arbitrary: fr)
  case (Cons i "is")
  have "\<forall>j\<in>set is. \<not> fr[i := True] ! j" using Cons.prems by (auto simp: nth_list_update)
  then show ?case using Cons by (simp add: index_of_Some)
qed simp

lemma untracked_iff: "length oc = length fr \<Longrightarrow> untracked oc fr \<longleftrightarrow> (\<exists>i<length oc. \<not> oc ! i \<and> \<not> fr ! i)"
  by (auto simp: untracked_def list_ex_iff set_zip)

text \<open>The time marks of the users fit a \<open>u64\<close>.\<close>

definition marks_fit :: "user_registry \<Rightarrow> bool" where
  "marks_fit u \<longleftrightarrow> (\<forall>s\<in>set (ur_states u). us_zero_since_ns s < 18446744073709551616)"

lemma restore_users_ok:
  assumes uo: "users_ok u" and es: "entries_of (ur_map u) es" and fit: "marks_fit u"
  shows "\<exists>u'. restore_users \<lparr>urs_bump = ur_bump u, urs_maintenance_cursor = ur_cursor u,
       urs_users = sort_key usn_index (map (user_snap u) es), urs_free_indices = ur_free_list u\<rparr> = Some (Inr u') \<and>
     users_ok u' \<and> ur_map u' = ur_map u \<and> ur_states u' = take (ur_bump u) (ur_states u) \<and> ur_free_list u' = ur_free_list u \<and>
     ur_bump u' = ur_bump u \<and> ur_cursor u' = ur_cursor u"
proof -
  let ?us = "sort_key usn_index (map (user_snap u) es)" and ?n = "ur_bump u" and ?oc = "replicate (ur_bump u) False"
  let ?r = "user_registry_new\<lparr>ur_states := replicate ?n user_state_default\<rparr>"
  have U: "?n \<le> length (ur_states u)" "distinct (ur_free_list u)" "\<And>k i. ur_map u k = Some i \<longleftrightarrow> i < ?n \<and> i \<notin> set (ur_free_list u) \<and> us_user_id (ur_states u ! i) = k"
    "\<And>i. i \<in> set (ur_free_list u) \<Longrightarrow> i < ?n \<and> ur_states u ! i = user_state_default" using uo by (auto simp: users_ok_def)
  have E: "distinct (map fst es)" "\<And>k i. (k, i) \<in> set es \<longleftrightarrow> ur_map u k = Some i" using es by (auto simp: entries_of_def)
  have sel: "usn_index (user_snap u (k, i)) = i" "usn_user_id (user_snap u (k, i)) = k" for k i by (simp_all add: user_snap_def)
  have st: "user_state_of (user_snap u (k, i)) = ur_states u ! i" if "(k, i) \<in> set es" for k i
  proof -
    have "us_user_id (ur_states u ! i) = k" "i < length (ur_states u)" using that E(2) U(1,3) by auto
    moreover have "us_zero_since_ns (ur_states u ! i) < 18446744073709551616" using fit \<open>i < length (ur_states u)\<close> by (simp add: marks_fit_def)
    ultimately show ?thesis by (cases "ur_states u ! i") (simp add: user_state_of_def user_snap_def)
  qed
  have "inj_on snd (set es)" using E(2) U(3) by (auto simp: inj_on_def)
  then have di: "distinct (map snd es)" using distinct_map E(1) by blast
  have "map (usn_index \<circ> user_snap u) es = map snd es" "map (usn_user_id \<circ> user_snap u) es = map fst es" using sel by (auto simp: split_beta)
  then have "distinct (map usn_index (map (user_snap u) es))" "distinct (map usn_user_id (map (user_snap u) es))"
    unfolding map_map using di E(1) by metis+
  then have ds: "distinct (map usn_index ?us)" "distinct (map usn_user_id ?us)" using distinct_map_sort by blast+
  have "\<forall>x\<in>set ?us. usn_index x < ?n \<and> ur_map ?r (usn_user_id x) = None \<and> \<not> ?oc ! usn_index x"
    using E(2) U(3) sel by (auto simp: user_registry_new_def)
  from place_users_ok [OF ds this] obtain r' where r': "place_users ?n ?us ?oc ?r = Some (Inr (marks (map usn_index ?us) ?oc, r'))" "length (ur_states r') = ?n"
    "ur_map r' = map_of (map (\<lambda>x. (usn_user_id x, usn_index x)) ?us)" "\<forall>x\<in>set ?us. ur_states r' ! usn_index x = user_state_of x"
    "\<forall>i. i \<notin> usn_index ` set ?us \<longrightarrow> ur_states r' ! i = ur_states ?r ! i" by (auto simp: user_registry_new_def)
  have ix: "i \<in> usn_index ` set ?us \<longleftrightarrow> i < ?n \<and> i \<notin> set (ur_free_list u)" for i
    using E(2) U(3) sel by (auto simp: image_iff) (metis sel(1))
  have mp: "ur_map r' = ur_map u"
  proof
    fix k
    have "(usn_user_id (user_snap u e), usn_index (user_snap u e)) = e" for e by (cases e) (simp add: sel)
    then have "set (map (\<lambda>x. (usn_user_id x, usn_index x)) ?us) = set es" by (simp add: image_image)
    moreover have "distinct (map fst (map (\<lambda>x. (usn_user_id x, usn_index x)) ?us))" using ds(2) by (simp add: comp_def)
    ultimately have "map_of (map (\<lambda>x. (usn_user_id x, usn_index x)) ?us) k = Some i \<longleftrightarrow> ur_map u k = Some i" for i
      using map_of_eq_Some_iff E(2) by (metis (no_types, lifting))
    then show "ur_map r' k = ur_map u k" unfolding r'(3) by (cases "ur_map u k") (simp_all, metis option.exhaust)
  qed
  have states: "ur_states r' = take ?n (ur_states u)"
  proof (rule nth_equalityI)
    show "length (ur_states r') = length (take ?n (ur_states u))" using r'(2) U(1) by simp
    fix i assume "i < length (ur_states r')"
    then have i: "i < ?n" using r'(2) by simp
    show "ur_states r' ! i = take ?n (ur_states u) ! i"
    proof (cases "i \<in> set (ur_free_list u)")
      case True
      then have "i \<notin> usn_index ` set ?us" using ix by blast
      then show ?thesis using r'(5) U(4) [OF True] i by simp
    next
      case False
      then have "(us_user_id (ur_states u ! i), i) \<in> set es" using E(2) U(3) i by blast
      then have "ur_states r' ! usn_index (user_snap u (us_user_id (ur_states u ! i), i)) = ur_states u ! i" using r'(4) st by auto
      then show ?thesis using i sel by simp
    qed
  qed
  let ?fr = "marks (ur_free_list u) ?oc" and ?mk = "marks (map usn_index ?us) ?oc"
  have mf: "mark_free InvalidUserFreeList ?n ?mk (ur_free_list u) ?oc = Some (Inr ?fr)"
    by (rule mark_free_ok [OF U(2)]) (use U(4) ix in \<open>auto simp: marks_nth\<close>)
  have ut: "\<not> untracked ?mk ?fr" using ix by (auto simp: untracked_iff marks_nth)
  let ?u = "r'\<lparr>ur_free_list := ur_free_list u, ur_bump := ?n, ur_cursor := ur_cursor u\<rparr>"
  have "users_ok ?u" using uo mp states unfolding users_ok_def by auto
  then show ?thesis using r'(1) mf ut mp states by (simp add: restore_users_def Let_def and_then_def)
qed

section \<open>Placing and linking the orders\<close>

lemma place_orders_ok:
  assumes "distinct (map sn_handle os)" "\<forall>x\<in>set os. sn_handle x < bump \<and> sn_side x \<le> 1 \<and> \<not> act ! sn_handle x"
    "length act = bump" "bump \<le> length (slots s)"
  shows "\<exists>xs. place_orders bump os act s = Some (Inr (marks (map sn_handle os) act, s\<lparr>slots := xs\<rparr>)) \<and> length xs = length (slots s) \<and>
    (\<forall>x\<in>set os. xs ! sn_handle x = order_slot_of x) \<and> (\<forall>h. h \<notin> sn_handle ` set os \<longrightarrow> xs ! h = slots s ! h)"
  using assms
proof (induction os arbitrary: act s)
  case Nil
  then show ?case by (intro exI [of _ "slots s"]) simp
next
  case (Cons x os)
  let ?h = "sn_handle x" let ?s = "s\<lparr>slots := (slots s)[?h := order_slot_of x]\<rparr>"
  have "\<forall>y\<in>set os. sn_handle y < bump \<and> sn_side y \<le> 1 \<and> \<not> act[?h := True] ! sn_handle y"
  proof
    fix y assume y: "y \<in> set os"
    then have "sn_handle y \<noteq> ?h" using Cons.prems(1) by (auto simp: image_iff)
    then show "sn_handle y < bump \<and> sn_side y \<le> 1 \<and> \<not> act[?h := True] ! sn_handle y" using Cons.prems(2) y by simp
  qed
  moreover have "distinct (map sn_handle os)" "length (act[?h := True]) = bump" "bump \<le> length (slots ?s)" using Cons.prems by simp_all
  ultimately obtain xs where xs: "place_orders bump os (act[?h := True]) ?s = Some (Inr (marks (map sn_handle os) (act[?h := True]), ?s\<lparr>slots := xs\<rparr>))"
    "length xs = length (slots ?s)" "\<forall>x\<in>set os. xs ! sn_handle x = order_slot_of x" "\<forall>h. h \<notin> sn_handle ` set os \<longrightarrow> xs ! h = slots ?s ! h"
    using Cons.IH by blast
  have x: "?h < bump" "?h < length (slots s)" "\<not> act ! ?h" "sn_side x = side_u8 Buy \<or> sn_side x = side_u8 Sell" "?h \<notin> sn_handle ` set os"
    using Cons.prems by (auto simp: le_Suc_eq)
  have "place_orders bump (x # os) act s = Some (Inr (marks (map sn_handle (x # os)) act, s\<lparr>slots := xs\<rparr>))"
    using x xs(1) Cons.prems(3) by (auto simp: index_of_Some slab_put_def store_at_Some)
  moreover have "\<forall>y\<in>set (x # os). xs ! sn_handle y = order_slot_of y" using xs(3,4) x by simp
  moreover have "\<forall>h. h \<notin> sn_handle ` set (x # os) \<longrightarrow> xs ! h = slots s ! h" using xs(4) by simp
  ultimately show ?case using xs(2) by auto
qed

text \<open>
  \<open>at_slot\<close> is the queue the orders \<open>ds\<close> of the slab \<open>xs0\<close> form in slot \<open>t\<close> of a compression map. \<open>linked\<close>: the orders \<open>ds\<close> have been
  linked, in this sequence; the per-side counts are still zero.
\<close>

definition at_slot :: "compression_map \<Rightarrow> order_slot list \<Rightarrow> u32 list \<Rightarrow> nat \<Rightarrow> u32 list" where
  "at_slot c xs0 ds t = filter (\<lambda>h. slot_index c (os_price (xs0 ! h)) = t) ds"

definition settled_slot :: "compression_map \<Rightarrow> order_slot \<Rightarrow> order_slot" where
  "settled_slot c s = s\<lparr>os_tick_index := slot_index c (os_price s)\<rparr>"

definition linked_level :: "order_slot list \<Rightarrow> order_slot list \<Rightarrow> price_level \<Rightarrow> u32 list \<Rightarrow> bool" where
  "linked_level xs0 xs l hs \<longleftrightarrow> seg xs NONE hs NONE \<and> pl_head l = first hs NONE \<and> pl_tail l = lastp NONE hs \<and>
     pl_total_qty l = qty_sum xs0 hs \<and> pl_order_count l = length hs \<and> pl_bid_count l = 0 \<and> pl_ask_count l = 0"

definition linked :: "compression_map \<Rightarrow> order_slot list \<Rightarrow> u32 list \<Rightarrow> order_slot list \<Rightarrow> price_level list \<Rightarrow> bool" where
  "linked c xs0 ds xs ls \<longleftrightarrow> length xs = length xs0 \<and> (\<forall>t<length ls. linked_level xs0 xs (ls ! t) (at_slot c xs0 ds t)) \<and>
     (\<forall>h\<in>set ds. strip (xs ! h) = strip (settled_slot c (xs0 ! h))) \<and> (\<forall>h. h \<notin> set ds \<longrightarrow> xs ! h = xs0 ! h)"

text \<open>The orders to be linked: distinct unlinked slots with a price and a quantity, together within an \<open>i64\<close>.\<close>

definition linkable :: "order_slot list \<Rightarrow> u32 list \<Rightarrow> bool" where
  "linkable xs0 ds \<longleftrightarrow> distinct ds \<and> set ds \<subseteq> {..<length xs0} \<and> length xs0 \<le> NONE \<and> (\<Sum>h\<leftarrow>ds. os_remaining_qty (xs0 ! h)) \<le> i64_max \<and>
     (\<forall>h\<in>set ds. os_next (xs0 ! h) = NONE \<and> os_prev (xs0 ! h) = NONE \<and> price_range (os_price (xs0 ! h)) \<and> 0 \<le> os_remaining_qty (xs0 ! h))"

lemma linkable_prefix: "linkable xs0 (ds @ es) \<Longrightarrow> linkable xs0 ds"
proof -
  assume a: "linkable xs0 (ds @ es)"
  have "0 \<le> (\<Sum>h\<leftarrow>es. os_remaining_qty (xs0 ! h))" by (rule sum_list_nonneg) (use a in \<open>auto simp: linkable_def\<close>)
  then show ?thesis using a by (auto simp: linkable_def)
qed

lemma qty_sum_filter_le: "\<forall>h\<in>set ds. 0 \<le> os_remaining_qty (xs ! h) \<Longrightarrow> qty_sum xs (filter P ds) \<le> qty_sum xs ds"
  by (induction ds) (auto simp: qty_sum_def)

lemma link_order_ok:
  assumes lk: "linked c xs0 ds xs ls" and ok: "linkable xs0 (ds @ [h])" and c: "comp_ok c" "length ls = total_slots c"
    and o: "sn_handle x = h" "sn_price x = os_price (xs0 ! h)" "sn_remaining_qty x = os_remaining_qty (xs0 ! h)"
    and b: "ob_compression b = c"
  shows "\<exists>xs' ls'. link_order (b\<lparr>ob_orders := (ob_orders b)\<lparr>slots := xs\<rparr>, ob_active_levels := ls\<rparr>) x =
      Some (b\<lparr>ob_orders := (ob_orders b)\<lparr>slots := xs'\<rparr>, ob_active_levels := ls'\<rparr>) \<and> linked c xs0 (ds @ [h]) xs' ls' \<and> length ls' = length ls"
proof -
  define t where "t = slot_index c (os_price (xs0 ! h))"
  define v where "v = settled_slot c (xs0 ! h)"
  let ?g = "at_slot c xs0 ds t" and ?l = "ls ! t"
  have K: "distinct ds" "h \<notin> set ds" "set ds \<subseteq> {..<length xs0}" "h < length xs0" "length xs0 \<le> NONE" "os_next (xs0 ! h) = NONE" "os_prev (xs0 ! h) = NONE"
    "price_range (os_price (xs0 ! h))" "0 \<le> os_remaining_qty (xs0 ! h)" "\<forall>h\<in>set ds. 0 \<le> os_remaining_qty (xs0 ! h)"
    "qty_sum xs0 ds + os_remaining_qty (xs0 ! h) \<le> i64_max" using ok by (auto simp: linkable_def qty_sum_def)
  have t: "t < length ls" using slot_index_bound [OF c(1), of "os_price (xs0 ! h)"] total_slots_ok [OF c(1)] c(2) by (simp add: t_def)
  have L: "length xs = length xs0" "linked_level xs0 xs ?l ?g" "xs ! h = xs0 ! h" using lk t K(2) by (simp_all add: linked_def)
  have G: "distinct ?g" "h \<notin> set ?g" "set ?g \<subseteq> {..<length xs}" "NONE \<notin> set ?g" "h \<noteq> NONE" "set ?g \<subseteq> set ds"
    using K L(1) by (auto simp: at_slot_def)
  have "Suc (length ?g) = card (insert h (set ?g))" using G(1,2) by (simp add: distinct_card)
  also have "\<dots> \<le> length xs0" using G(3) K(4) L(1) card_mono [of "{..<length xs}" "insert h (set ?g)"] by simp
  finally have len: "u32_add (length ?g) 1 = Suc (length ?g)" using K(5) by (simp add: u32_add_def NONE_def)
  have "sat_add (pl_total_qty ?l) (os_remaining_qty (xs0 ! h)) = pl_total_qty ?l + os_remaining_qty (xs0 ! h)"
  proof (rule sat_add_id)
    have "qty_sum xs0 ?g \<le> qty_sum xs0 ds" unfolding at_slot_def by (rule qty_sum_filter_le [OF K(10)])
    moreover have "0 \<le> qty_sum xs0 ?g" unfolding qty_sum_def by (rule sum_list_nonneg) (use K(10) G(6) in auto)
    ultimately show "in_i64 (pl_total_qty ?l + os_remaining_qty (xs0 ! h))" using L(2) K(9,11) by (simp add: linked_level_def in_i64_iff i64_max_def)
  qed
  define xs' where "xs' = appended (xs[h := v]) (lastp NONE ?g) h"
  define l' where "l' = (if ?g = [] then ?l\<lparr>pl_head := h\<rparr> else ?l)\<lparr>pl_tail := h, pl_total_qty := pl_total_qty ?l + os_remaining_qty (xs0 ! h), pl_order_count := Suc (length ?g)\<rparr>"
  have vl: "os_next v = NONE" "os_prev v = NONE" using K(6,7) by (simp_all add: v_def settled_slot_def)
  have hv: "h < length xs" "(xs[h := v]) ! h = v" using K(4) L(1) by simp_all
  have run: "link_order (b\<lparr>ob_orders := (ob_orders b)\<lparr>slots := xs\<rparr>, ob_active_levels := ls\<rparr>) x =
      Some (b\<lparr>ob_orders := (ob_orders b)\<lparr>slots := xs'\<rparr>, ob_active_levels := ls[t := l']\<rparr>)"
  proof (cases "?g = []")
    case True
    have "price_to_index c (sn_price x) = Some t" using price_to_index_slot [OF c(1) K(8)] o(2) by (simp add: t_def)
    then show ?thesis using t hv len L(2,3) o b True \<open>sat_add _ _ = _\<close>
      by (simp add: link_order_def slab_get_def slab_put_def index_of_Some store_at_Some linked_level_def xs'_def appended_def l'_def v_def settled_slot_def t_def)
  next
    case False
    have tl: "lastp NONE ?g \<in> set ?g" "lastp NONE ?g \<noteq> NONE" using False ends_NONE_iff(1) [OF G(4)] lastp_mem [of ?g] by auto
    then have tb: "lastp NONE ?g < length xs" "lastp NONE ?g \<noteq> h" "h \<noteq> lastp NONE ?g" using G(2,3) by auto
    have "price_to_index c (sn_price x) = Some t" using price_to_index_slot [OF c(1) K(8)] o(2) by (simp add: t_def)
    then show ?thesis using t hv len L(2,3) o b False \<open>sat_add _ _ = _\<close> tl(2) tb G(5)
      by (simp add: Let_def link_order_def slab_get_def slab_put_def index_of_Some store_at_Some linked_level_def xs'_def appended_def set_next_def set_prev_def
        l'_def v_def settled_slot_def t_def)
  qed
  have seg: "seg (xs[h := v]) NONE ?g NONE"
    using L(2) seg_cong [of ?g "xs[h := v]" xs NONE NONE] G(2) by (simp add: linked_level_def) (metis nth_list_update_neq)
  note ap = seg_append_one [OF seg G(1,2) _ _ G(4,5), folded xs'_def]
  have bnd: "set ?g \<subseteq> {..<length (xs[h := v])}" "h < length (xs[h := v])" using G(3) hv by simp_all
  have new: "seg xs' NONE (?g @ [h]) NONE" "z \<notin> set ?g \<Longrightarrow> z \<noteq> h \<Longrightarrow> xs' ! z = xs ! z" for z
    using ap(1) [OF bnd] ap(2) [OF bnd, of z] vl hv by simp_all
  have lvl: "linked_level xs0 xs' (ls[t := l'] ! u) (at_slot c xs0 (ds @ [h]) u)" if u: "u < length ls" for u
  proof (cases "u = t")
    case True
    have "at_slot c xs0 (ds @ [h]) t = ?g @ [h]" by (simp add: at_slot_def t_def)
    then show ?thesis using True t new(1) L(2) by (simp add: linked_level_def l'_def lastp_append first_append qty_sum_def)
      (auto simp: first_hd)
  next
    case False
    have q: "at_slot c xs0 (ds @ [h]) u = at_slot c xs0 ds u" using False by (simp add: at_slot_def t_def)
    have "z \<notin> set ?g \<and> z \<noteq> h" if "z \<in> set (at_slot c xs0 ds u)" for z using that False K(2) by (auto simp: at_slot_def)
    then have "seg xs' NONE (at_slot c xs0 ds u) NONE = seg xs NONE (at_slot c xs0 ds u) NONE" using new(2) by (intro seg_cong) simp
    then show ?thesis using lk u False q by (simp add: linked_def linked_level_def)
  qed
  have "strip (xs' ! z) = strip (settled_slot c (xs0 ! z))" if "z \<in> set (ds @ [h])" for z
  proof -
    have "strip (xs' ! z) = strip (xs[h := v] ! z)" by (simp add: xs'_def)
    then show ?thesis using lk that hv by (cases "z = h") (simp_all add: linked_def v_def)
  qed
  moreover have "xs' ! z = xs0 ! z" if "z \<notin> set (ds @ [h])" for z using that new(2) [of z] lk G(6) by (auto simp: linked_def)
  moreover have "length xs' = length xs0" by (simp add: xs'_def L(1))
  ultimately show ?thesis using run lvl by (intro exI [of _ xs'] exI [of _ "ls[t := l']"]) (simp add: linked_def)
qed


lemma link_orders_ok:
  assumes "linked c xs0 ds xs ls" "linkable xs0 (ds @ hs)" "comp_ok c" "length ls = total_slots c" "ob_compression b = c"
    "\<forall>h\<in>set hs. sn_handle (f h) = h \<and> sn_price (f h) = os_price (xs0 ! h) \<and> sn_remaining_qty (f h) = os_remaining_qty (xs0 ! h)"
  shows "\<exists>xs' ls'. link_orders (map f hs) (b\<lparr>ob_orders := (ob_orders b)\<lparr>slots := xs\<rparr>, ob_active_levels := ls\<rparr>) =
      Some (b\<lparr>ob_orders := (ob_orders b)\<lparr>slots := xs'\<rparr>, ob_active_levels := ls'\<rparr>) \<and> linked c xs0 (ds @ hs) xs' ls' \<and> length ls' = length ls"
  using assms
proof (induction hs arbitrary: ds xs ls)
  case Nil
  then show ?case by (intro exI [of _ xs] exI [of _ ls]) simp
next
  case (Cons h hs)
  have ok: "linkable xs0 (ds @ [h])" using linkable_prefix [of xs0 "ds @ [h]" hs] Cons.prems(2) by simp
  obtain xs1 ls1 where 1: "link_order (b\<lparr>ob_orders := (ob_orders b)\<lparr>slots := xs\<rparr>, ob_active_levels := ls\<rparr>) (f h) =
      Some (b\<lparr>ob_orders := (ob_orders b)\<lparr>slots := xs1\<rparr>, ob_active_levels := ls1\<rparr>)" "linked c xs0 (ds @ [h]) xs1 ls1" "length ls1 = length ls"
    using link_order_ok [OF Cons.prems(1) ok Cons.prems(3,4) _ _ _ Cons.prems(5), of "f h"] Cons.prems(6) by auto
  have "linkable xs0 ((ds @ [h]) @ hs)" "length ls1 = total_slots c" using Cons.prems(2,4) 1(3) by simp_all
  from Cons.IH [OF 1(2) this(1) Cons.prems(3) this(2) Cons.prems(5)] Cons.prems(6) 1 show ?case by auto
qed

section \<open>Rebuilding the counts and the occupancy\<close>

lemma count_fold:
  "m + n + length hs < 4294967296 \<Longrightarrow> fold (\<lambda>h. count_step (xs ! h)) hs (m, n) =
    (m + length (filter (\<lambda>h. is_buy (xs ! h)) hs), n + length (filter (\<lambda>h. \<not> is_buy (xs ! h)) hs))"
  by (induction hs arbitrary: m n) (simp_all add: count_step_def is_buy_def u32_add_def)

lemma occ_mark_if:
  assumes oc: "occ_ok (ob_bid_occ b)" "occ_ok (ob_ask_occ b)" "t < occ_n (ob_bid_occ b)" "t < occ_n (ob_ask_occ b)"
  shows "\<exists>x y. (if p then occ_mark b (side_u8 sd) t else Some b) = Some (b\<lparr>ob_bid_occ := x, ob_ask_occ := y\<rparr>) \<and>
    occ_ok x \<and> occ_n x = occ_n (ob_bid_occ b) \<and> members x = members (ob_bid_occ b) \<union> {u. u = t \<and> p \<and> sd = Buy} \<and>
    occ_ok y \<and> occ_n y = occ_n (ob_ask_occ b) \<and> members y = members (ob_ask_occ b) \<union> {u. u = t \<and> p \<and> sd = Sell}"
proof (cases p)
  case True
  then show ?thesis using occ_mark_ok [OF oc, of "order_slot_default\<lparr>os_side := side_u8 sd\<rparr>"] by (cases sd) (auto simp: is_buy_def)
next
  case False
  moreover have "b = b\<lparr>ob_bid_occ := ob_bid_occ b, ob_ask_occ := ob_ask_occ b\<rparr>" by simp
  ultimately show ?thesis using oc by (intro exI [of _ "ob_bid_occ b"] exI [of _ "ob_ask_occ b"]) simp
qed

definition counted :: "order_slot list \<Rightarrow> price_level \<Rightarrow> u32 list \<Rightarrow> price_level" where
  "counted xs l hs = l\<lparr>pl_bid_count := length (filter (\<lambda>h. is_buy (xs ! h)) hs), pl_ask_count := length (filter (\<lambda>h. \<not> is_buy (xs ! h)) hs)\<rparr>"

lemma rebuild_level_ok:
  assumes l: "i < length (ob_active_levels b)" "seg (slots (ob_orders b)) NONE hs NONE" "pl_head (ob_active_levels b ! i) = first hs NONE"
    "set hs \<subseteq> {..<length (slots (ob_orders b))}" "NONE \<notin> set hs" "length hs < 4294967296"
    and oc: "occ_ok (ob_bid_occ b)" "occ_ok (ob_ask_occ b)" "i < occ_n (ob_bid_occ b)" "i < occ_n (ob_ask_occ b)"
  shows "\<exists>x y. rebuild_level b i = Some (b\<lparr>ob_active_levels := (ob_active_levels b)[i := counted (slots (ob_orders b)) (ob_active_levels b ! i) hs],
      ob_bid_occ := x, ob_ask_occ := y\<rparr>) \<and>
    occ_ok x \<and> occ_n x = occ_n (ob_bid_occ b) \<and> members x = members (ob_bid_occ b) \<union> {t. t = i \<and> (\<exists>h\<in>set hs. is_buy (ord b h))} \<and>
    occ_ok y \<and> occ_n y = occ_n (ob_ask_occ b) \<and> members y = members (ob_ask_occ b) \<union> {t. t = i \<and> (\<exists>h\<in>set hs. \<not> is_buy (ord b h))}"
proof -
  let ?nb = "length (filter (\<lambda>h. is_buy (ord b h)) hs)" and ?na = "length (filter (\<lambda>h. \<not> is_buy (ord b h)) hs)"
  let ?b1 = "b\<lparr>ob_active_levels := (ob_active_levels b)[i := counted (slots (ob_orders b)) (ob_active_levels b ! i) hs]\<rparr>"
  have wk: "walk (slots (ob_orders b)) count_step (0, 0) (pl_head (ob_active_levels b ! i)) = Some (?nb, ?na)"
    using walk_seg [OF l(2,4,5), of count_step "(0, 0)"] count_fold [of 0 0 hs "slots (ob_orders b)"] l(3,6) by simp
  have oc1: "occ_ok (ob_bid_occ ?b1)" "occ_ok (ob_ask_occ ?b1)" "i < occ_n (ob_bid_occ ?b1)" "i < occ_n (ob_ask_occ ?b1)" using oc by simp_all
  from occ_mark_if [OF oc1, of "?nb > 0" Buy] obtain x y where 1: "(if ?nb > 0 then occ_mark ?b1 (side_u8 Buy) i else Some ?b1) = Some (?b1\<lparr>ob_bid_occ := x, ob_ask_occ := y\<rparr>)"
    "occ_ok x" "occ_n x = occ_n (ob_bid_occ b)" "members x = members (ob_bid_occ b) \<union> {u. u = i \<and> ?nb > 0}"
    "occ_ok y" "occ_n y = occ_n (ob_ask_occ b)" "members y = members (ob_ask_occ b)" by auto
  let ?b2 = "?b1\<lparr>ob_bid_occ := x, ob_ask_occ := y\<rparr>"
  have oc2: "occ_ok (ob_bid_occ ?b2)" "occ_ok (ob_ask_occ ?b2)" "i < occ_n (ob_bid_occ ?b2)" "i < occ_n (ob_ask_occ ?b2)" using oc 1 by simp_all
  from occ_mark_if [OF oc2, of "?na > 0" Sell] obtain x' y' where 2: "(if ?na > 0 then occ_mark ?b2 (side_u8 Sell) i else Some ?b2) = Some (?b2\<lparr>ob_bid_occ := x', ob_ask_occ := y'\<rparr>)"
    "occ_ok x'" "occ_n x' = occ_n x" "members x' = members x"
    "occ_ok y'" "occ_n y' = occ_n y" "members y' = members y \<union> {u. u = i \<and> ?na > 0}" by auto
  have ne: "?nb > 0 \<longleftrightarrow> (\<exists>h\<in>set hs. is_buy (ord b h))" "?na > 0 \<longleftrightarrow> (\<exists>h\<in>set hs. \<not> is_buy (ord b h))" by (auto simp: filter_empty_conv)
  have "rebuild_level b i = Some (?b2\<lparr>ob_bid_occ := x', ob_ask_occ := y'\<rparr>)"
    by (simp only: rebuild_level_def index_of_Some [OF l(1)] wk Option.bind.simps split_conv Let_def counted_def [symmetric] 1(1) 2(1))
  moreover have "members x' = members (ob_bid_occ b) \<union> {t. t = i \<and> (\<exists>h\<in>set hs. is_buy (ord b h))}"
    "members y' = members (ob_ask_occ b) \<union> {t. t = i \<and> (\<exists>h\<in>set hs. \<not> is_buy (ord b h))}" by (simp_all only: 1(4,7) 2(4,7) ne)
  ultimately show ?thesis using 1(3,6) 2(2,3,5,6) by (intro exI [of _ x'] exI [of _ y'] conjI) simp_all
qed

text \<open>After the levels below \<open>k\<close>: their counts are right and the bitmaps hold exactly them.\<close>

definition rebuilt :: "order_slot list \<Rightarrow> price_level list \<Rightarrow> queues \<Rightarrow> nat \<Rightarrow> orderbook \<Rightarrow> bool" where
  "rebuilt xs ls Q k b \<longleftrightarrow> ob_active_levels b = map (\<lambda>t. if t < k then counted xs (ls ! t) (Q t) else ls ! t) [0..<length ls] \<and>
     occ_ok (ob_bid_occ b) \<and> occ_n (ob_bid_occ b) = length ls \<and> members (ob_bid_occ b) = {t. t < k \<and> (\<exists>h\<in>set (Q t). is_buy (xs ! h))} \<and>
     occ_ok (ob_ask_occ b) \<and> occ_n (ob_ask_occ b) = length ls \<and> members (ob_ask_occ b) = {t. t < k \<and> (\<exists>h\<in>set (Q t). \<not> is_buy (xs ! h))}"

lemma rebuild_levels_ok:
  assumes lv: "\<And>t. t < length ls \<Longrightarrow> seg xs NONE (Q t) NONE \<and> pl_head (ls ! t) = first (Q t) NONE \<and> set (Q t) \<subseteq> {..<length xs} \<and> NONE \<notin> set (Q t) \<and>
      length (Q t) < 4294967296"
    and "rebuilt xs ls Q k b" "slots (ob_orders b) = xs" and k: "k \<le> length ls"
  shows "\<exists>us x y. rebuild_levels [k..<length ls] b = Some (b\<lparr>ob_active_levels := us, ob_bid_occ := x, ob_ask_occ := y\<rparr>) \<and>
     rebuilt xs ls Q (length ls) (b\<lparr>ob_active_levels := us, ob_bid_occ := x, ob_ask_occ := y\<rparr>)"
  using k assms(2,3)
proof (induction arbitrary: b rule: inc_induct)
  case base
  then show ?case by (intro exI [of _ "ob_active_levels b"] exI [of _ "ob_bid_occ b"] exI [of _ "ob_ask_occ b"]) simp
next
  case (step k)
  have R: "length (ob_active_levels b) = length ls" "ob_active_levels b ! k = ls ! k" "k < length ls"
    using step.prems(1) step.hyps by (simp_all add: rebuilt_def)
  obtain x y where 1: "rebuild_level b k = Some (b\<lparr>ob_active_levels := (ob_active_levels b)[k := counted xs (ls ! k) (Q k)], ob_bid_occ := x, ob_ask_occ := y\<rparr>)"
    "occ_ok x" "occ_n x = length ls" "members x = members (ob_bid_occ b) \<union> {t. t = k \<and> (\<exists>h\<in>set (Q k). is_buy (xs ! h))}"
    "occ_ok y" "occ_n y = length ls" "members y = members (ob_ask_occ b) \<union> {t. t = k \<and> (\<exists>h\<in>set (Q k). \<not> is_buy (xs ! h))}"
    using rebuild_level_ok [of k b "Q k"] lv [OF R(3)] R step.prems by (auto simp: rebuilt_def)
  let ?b = "b\<lparr>ob_active_levels := (ob_active_levels b)[k := counted xs (ls ! k) (Q k)], ob_bid_occ := x, ob_ask_occ := y\<rparr>"
  have "(ob_active_levels b)[k := counted xs (ls ! k) (Q k)] = map (\<lambda>t. if t < Suc k then counted xs (ls ! t) (Q t) else ls ! t) [0..<length ls]"
    using step.prems(1) R by (intro nth_equalityI) (auto simp: rebuilt_def nth_list_update less_Suc_eq)
  then have "rebuilt xs ls Q (Suc k) ?b" using 1(2-7) step.prems(1) by (auto simp: rebuilt_def less_Suc_eq)
  from step.IH [OF this] step.prems(2) obtain us x' y' where "rebuild_levels [Suc k..<length ls] ?b = Some (?b\<lparr>ob_active_levels := us, ob_bid_occ := x', ob_ask_occ := y'\<rparr>)"
    "rebuilt xs ls Q (length ls) (?b\<lparr>ob_active_levels := us, ob_bid_occ := x', ob_ask_occ := y'\<rparr>)" by auto
  moreover have "[k..<length ls] = k # [Suc k..<length ls]" using R(3) by (rule upt_conv_Cons)
  ultimately show ?case using 1(1) by (intro exI [of _ us] exI [of _ x'] exI [of _ y']) simp
qed


lemma queued_at_slot [simp]: "queued (at_slot c xs0 ds) = set ds"
  by (auto simp: queued_def at_slot_def)

lemma settled_slot_sound: "slot_sound c s \<Longrightarrow> strip s' = strip (settled_slot c s) \<Longrightarrow> slot_ok c (slot_index c (os_price s)) s'"
  using strip_eqD [of s' "settled_slot c s"] by (simp add: slot_sound_def slot_ok_def settled_slot_def is_active_def)

lemma linked_rebuild:
  assumes lk: "linked c xs0 ds (slots (ob_orders b)) (ob_active_levels b)" and ok: "linkable xs0 ds" and snd: "\<forall>h\<in>set ds. slot_sound c (xs0 ! h)"
    and c: "ob_compression b = c" "comp_ok c" "ob_price_asc b = build_price_asc c" "length (ob_active_levels b) = total_slots c"
    and sl: "slab_rel (ob_orders b) F" "{..<bump_next (ob_orders b)} = set F \<union> set ds" "set F \<inter> set ds = {}"
    and inact: "\<forall>h<length xs0. h \<notin> set ds \<longrightarrow> \<not> is_active (xs0 ! h)"
  shows "\<exists>us x y. rebuild_occupancy b = Some (b\<lparr>ob_active_levels := us, ob_bid_occ := x, ob_ask_occ := y\<rparr>) \<and>
    book_rel (b\<lparr>ob_active_levels := us, ob_bid_occ := x, ob_ask_occ := y\<rparr>) (at_slot c xs0 ds) F {}"
proof -
  let ?xs = "slots (ob_orders b)" and ?ls = "ob_active_levels b" and ?Q = "at_slot c xs0 ds"
  have L: "length ?xs = length xs0" "\<And>t. t < length ?ls \<Longrightarrow> linked_level xs0 ?xs (?ls ! t) (?Q t)"
    "\<And>h. h \<in> set ds \<Longrightarrow> strip (?xs ! h) = strip (settled_slot c (xs0 ! h))" "\<And>h. h \<notin> set ds \<Longrightarrow> ?xs ! h = xs0 ! h"
    using lk by (auto simp: linked_def)
  have K: "distinct ds" "set ds \<subseteq> {..<length xs0}" "length xs0 \<le> NONE" "\<forall>h\<in>set ds. 0 \<le> os_remaining_qty (xs0 ! h)" "qty_sum xs0 ds \<le> i64_max"
    using ok by (auto simp: linkable_def qty_sum_def)
  have G: "distinct (?Q t)" "set (?Q t) \<subseteq> set ds" "set (?Q t) \<subseteq> {..<length ?xs}" "NONE \<notin> set (?Q t)" for t using K L(1) by (auto simp: at_slot_def)
  have len: "length (?Q t) < 4294967296" for t
  proof -
    have "length (?Q t) = card (set (?Q t))" using G(1) by (simp add: distinct_card)
    also have "\<dots> \<le> length xs0" using G(3) L(1) card_mono [of "{..<length ?xs}" "set (?Q t)"] by simp
    finally show ?thesis using K(3) by (simp add: NONE_def)
  qed
  have n: "u64_as_u32 (length ?ls) = length ?ls" using c(2,4) total_slots_ok [OF c(2)] by (auto simp: u64_as_u32_def comp_ok_def NONE_def)
  let ?b0 = "b\<lparr>ob_bid_occ := occupancy_new (length ?ls), ob_ask_occ := occupancy_new (length ?ls)\<rparr>"
  have "rebuilt ?xs ?ls ?Q 0 ?b0" using occupancy_new_ok [of "length ?ls"] by (simp add: rebuilt_def map_nth)
  moreover have "\<And>t. t < length ?ls \<Longrightarrow> seg ?xs NONE (?Q t) NONE \<and> pl_head (?ls ! t) = first (?Q t) NONE \<and> set (?Q t) \<subseteq> {..<length ?xs} \<and> NONE \<notin> set (?Q t) \<and>
      length (?Q t) < 4294967296" using L(2) G(3,4) len by (simp add: linked_level_def)
  ultimately obtain us x y where r: "rebuild_levels [0..<length ?ls] ?b0 = Some (?b0\<lparr>ob_active_levels := us, ob_bid_occ := x, ob_ask_occ := y\<rparr>)"
    "rebuilt ?xs ?ls ?Q (length ?ls) (?b0\<lparr>ob_active_levels := us, ob_bid_occ := x, ob_ask_occ := y\<rparr>)"
    using rebuild_levels_ok [of ?ls ?xs ?Q 0 ?b0] by auto
  let ?b2 = "b\<lparr>ob_active_levels := us, ob_bid_occ := x, ob_ask_occ := y\<rparr>"
  have U: "length us = length ?ls" "\<And>t. t < length ?ls \<Longrightarrow> us ! t = counted ?xs (?ls ! t) (?Q t)" using r(2) by (simp_all add: rebuilt_def)
  have qs: "qty_sum ?xs (?Q t) = qty_sum xs0 (?Q t)" for t
  proof -
    have "os_remaining_qty (?xs ! h) = os_remaining_qty (xs0 ! h)" if "h \<in> set (?Q t)" for h
      using strip_eqD(2) [OF L(3)] G(2) that by (auto simp: settled_slot_def)
    then show ?thesis by (simp add: qty_sum_def cong: map_cong)
  qed
  have "level_ok ?xs (us ! t) (?Q t)" if t: "t < length us" for t
    using L(2) [of t] t U qs qty_sum_filter_le [OF K(4), of "\<lambda>h. slot_index c (os_price (xs0 ! h)) = t"] K(5)
    by (simp add: level_ok_def linked_level_def counted_def at_slot_def)
  moreover have emp: "?Q t = []" if "length us \<le> t" for t
    using slot_index_bound [OF c(2)] total_slots_ok [OF c(2)] that U(1) c(4) by (auto simp: at_slot_def filter_empty_conv not_less [symmetric])
  moreover have "slot_ok c t (?xs ! h)" if "h \<in> set (?Q t)" for t h
    using settled_slot_sound [OF _ L(3), of h] that snd by (auto simp: at_slot_def)
  moreover have "members x = {t. \<exists>h\<in>set (?Q t). is_buy (?xs ! h)}" "members y = {t. \<exists>h\<in>set (?Q t). \<not> is_buy (?xs ! h)}"
  proof -
    have "t < length ?ls" if "h \<in> set (?Q t)" for t h using emp [of t] that U(1) by (cases "t < length ?ls") auto
    then show "members x = {t. \<exists>h\<in>set (?Q t). is_buy (?xs ! h)}" "members y = {t. \<exists>h\<in>set (?Q t). \<not> is_buy (?xs ! h)}"
      using r(2) by (auto simp: rebuilt_def)
  qed
  moreover have "\<not> is_active (?xs ! h)" if "h < length ?xs" "h \<notin> set ds" for h using L(1,4) inact that by simp
  ultimately have "book_rel ?b2 ?Q F {}" using r(2) c sl G(1) U(1) by (simp add: book_rel_def rebuilt_def)
  moreover have "rebuild_occupancy b = Some ?b2" using r(1) n by (simp add: rebuild_occupancy_def Let_def)
  ultimately show ?thesis by blast
qed

lemma refresh_both_ok:
  assumes rel: "book_rel b Q F D"
  shows "\<exists>t p u q. (do { b3 \<leftarrow> refresh_best_bid b; refresh_best_ask b3 }) = Some (set_best (set_best b Buy t p) Sell u q) \<and>
    best_ok (set_best (set_best b Buy t p) Sell u q) Q Buy \<and> best_ok (set_best (set_best b Buy t p) Sell u q) Q Sell"
proof -
  obtain t p where 1: "refresh b Buy = Some (set_best b Buy t p)" "best_ok (set_best b Buy t p) Q Buy" using refresh_ok [OF rel] by blast
  have "book_rel (set_best b Buy t p) Q F D" using rel by simp
  from refresh_ok [OF this] obtain u q where 2: "refresh (set_best b Buy t p) Sell = Some (set_best (set_best b Buy t p) Sell u q)"
    "best_ok (set_best (set_best b Buy t p) Sell u q) Q Sell" by blast
  show ?thesis using 1 2 by (intro exI [of _ t] exI [of _ p] exI [of _ u] exI [of _ q]) (simp add: refresh_def)
qed


section \<open>The round trip\<close>

text \<open>The 64-bit fields hold 64-bit values.\<close>

definition u64_fit :: "orderbook \<Rightarrow> queues \<Rightarrow> bool" where
  "u64_fit b Q \<longleftrightarrow> ob_sequence b < 18446744073709551616 \<and> marks_fit (ob_users b) \<and>
     (\<forall>h\<in>queued Q. os_timestamp_ns (ord b h) < 18446744073709551616 \<and> os_order_id_hi (ord b h) < 18446744073709551616 \<and>
       os_order_id_lo (ord b h) < 18446744073709551616)"

lemma slot_of_flags [simp]: "is_active (order_slot_of x)" "is_reduce_only (order_slot_of x) = sn_reduce_only x"
  by (simp_all add: is_active_def is_reduce_only_def order_slot_of_def flag_bits)

lemma slot_of_sel [simp]:
  "os_price (order_slot_of x) = sn_price x" "os_remaining_qty (order_slot_of x) = sn_remaining_qty x" "os_side (order_slot_of x) = sn_side x"
  "os_next (order_slot_of x) = NONE" "os_prev (order_slot_of x) = NONE" "os_user_id (order_slot_of x) = sn_user_id x"
  by (simp_all add: order_slot_of_def)

lemma snapshot_sel [simp]:
  "sn_handle (order_snapshot_of h s) = h" "sn_price (order_snapshot_of h s) = os_price s" "sn_remaining_qty (order_snapshot_of h s) = os_remaining_qty s"
  "sn_side (order_snapshot_of h s) = os_side s" "sn_user_id (order_snapshot_of h s) = os_user_id s"
  by (simp_all add: order_snapshot_of_def)

lemma order_snapshot_roundtrip:
  assumes "os_timestamp_ns s < 18446744073709551616" "os_order_id_hi s < 18446744073709551616" "os_order_id_lo s < 18446744073709551616"
  shows "order_snapshot_of h (order_slot_of (order_snapshot_of h s)) = order_snapshot_of h s"
  using assms slot_of_flags(2) [of "order_snapshot_of h s"] by (simp add: order_snapshot_of_def order_slot_of_def)

lemma snapshot_eqD:
  assumes "order_snapshot_of h s = order_snapshot_of h s'"
  shows "os_price s = os_price s'" "os_remaining_qty s = os_remaining_qty s'" "os_side s = os_side s'" "os_user_id s = os_user_id s'"
    "on_side sd s = on_side sd s'"
  using assms by (auto simp: order_snapshot_of_def on_side_def is_buy_def split: side.split)

lemma order_snapshot_strip: "strip s = strip s' \<Longrightarrow> order_snapshot_of h s = order_snapshot_of h s'"
  using strip_eqD [of s s'] by (simp add: order_snapshot_of_def is_reduce_only_def)

lemma order_snapshot_settled [simp]: "order_snapshot_of h (settled_slot c s) = order_snapshot_of h s"
  by (simp add: order_snapshot_of_def settled_slot_def is_reduce_only_def)

lemma restore_handles_active: "restore_handles hs s = Some s' \<Longrightarrow> is_active (slots s' ! x) = is_active (slots s ! x)"
proof (induction hs arbitrary: s)
  case (Cons h hs)
  then show ?case by (cases "x = h") (auto simp: slab_get_def slab_put_def nth_list_update split: bind_splits)
qed simp

lemma best_px_unique:
  assumes "best_ok b Q sd" "best_ok b' Q' sd" "resting b' Q' sd = resting b Q sd" "\<forall>h\<in>resting b Q sd. os_price (ord b' h) = os_price (ord b h)"
  shows "best_px b' sd = best_px b sd"
proof (cases "resting b Q sd = {}")
  case False
  then obtain g g' where "g \<in> resting b Q sd" "os_price (ord b g) = best_px b sd" "g' \<in> resting b Q sd" "os_price (ord b g') = best_px b' sd"
    "\<forall>h\<in>resting b Q sd. better sd (best_px b sd) (os_price (ord b h))" "\<forall>h\<in>resting b Q sd. better sd (best_px b' sd) (os_price (ord b h))"
    using assms by (auto simp: best_ok_def)
  then have "key sd (best_px b' sd) = key sd (best_px b sd)" unfolding better_key by (metis order_antisym)
  then show ?thesis by simp
qed (use assms in \<open>simp add: best_ok_def\<close>)

lemma priced_listed:
  assumes rel: "book_rel b Q F D"
  shows "priced (slots (ob_orders b)) p (listed b Q) = priced (slots (ob_orders b)) p (Q (slot_index (ob_compression b) p))"
proof -
  let ?xs = "slots (ob_orders b)" and ?s = "slot_index (ob_compression b) p" and ?n = "length (ob_active_levels b)"
  have "?s < ?n" using slot_index_bound [OF book_relD(2) [OF rel], of p] total_slots_ok [OF book_relD(2) [OF rel]] book_relD(4) [OF rel] by simp
  then have split: "[0..<?n] = [0..<?s] @ ?s # [Suc ?s..<?n]"
    using upt_add_eq_append [of 0 ?s "?n - ?s"] upt_conv_Cons [of ?s ?n] by simp
  have "priced ?xs p (concat (map Q ts)) = []" if "?s \<notin> set ts" for ts
    using that priced_other_level [OF rel, of _ p] by (induction ts) (auto simp: priced_def)
  from this [of "[0..<?s]"] this [of "[Suc ?s..<?n]"] show ?thesis unfolding listed_def split by (simp add: priced_def)
qed


lemma restore_taken:
  assumes w: "wf b Q F" and cfg: "cp_tick_size (ob_compression b) = bc_tick_size (ob_config b)" "0 < bc_tick_size (ob_config b)" "0 < bc_lot_size (ob_config b)"
    and mid: "regular_mid (cp_mid_price (ob_compression b)) (bc_tick_size (ob_config b))" and qty: "resting_qty b Q \<le> i64_max"
    and es: "entries_of (ur_map (ob_users b)) es" and fit: "u64_fit b Q" and cap: "capacity \<le> NONE"
  shows "\<exists>b' Q'. restore (taken b Q F es) capacity = Some (Inr b') \<and> book_rel b' Q' F {} \<and> best_ok b' Q' Buy \<and> best_ok b' Q' Sell \<and>
    queued Q' = queued Q \<and> (\<forall>h\<in>queued Q. order_snapshot_of h (ord b' h) = order_snapshot_of h (ord b h)) \<and>
    (\<forall>p. priced (slots (ob_orders b')) p (Q' (slot_index (ob_compression b') p)) = priced (slots (ob_orders b)) p (Q (slot_index (ob_compression b) p))) \<and>
    users_ok (ob_users b') \<and> position_of (ob_users b') = position_of (ob_users b) \<and> resting_of (ob_users b') = resting_of (ob_users b) \<and>
    ob_config b' = ob_config b \<and> ob_sequence b' = ob_sequence b \<and> ob_state b' = Normal \<and> ob_event_buf b' = [] \<and>
    cp_mid_price (ob_compression b') = cp_mid_price (ob_compression b) \<and> cp_tick_size (ob_compression b') = cp_tick_size (ob_compression b) \<and>
    length (slots (ob_orders b')) = max capacity (length (slots (ob_orders b))) \<and> bump_next (ob_orders b') = bump_next (ob_orders b)"
proof -
  note W = wfD [OF w]
  have rel: "book_rel b Q F {}" by (rule W(1))
  note R = book_relD [OF rel]
  let ?s = "ob_orders b" and ?hs = "listed b Q" and ?cap = "max capacity (length (slots (ob_orders b)))"
  let ?bump = "bump_next ?s"
  have sb: "?bump \<le> length (slots ?s)" "length (slots ?s) \<le> NONE" "distinct F" "set F \<subseteq> {..<?bump}" using R(1) by (auto simp: slab_rel_def)
  have sc: "slab_capacity ?s = length (slots ?s)" using sb(2) by (simp add: slab_capacity_def NONE_def)
  have hs: "set ?hs = queued Q" "distinct ?hs" by (rule set_listed [OF rel], rule distinct_listed [OF rel])
  have hb: "h < ?bump" "slot_sound (ob_compression b) (ord b h)" if "h \<in> queued Q" for h
    using that R(12) R(11) [of h] by (auto simp: queued_def slot_ok_def slot_sound_def)
  obtain c where c: "compression_new (cp_mid_price (ob_compression b)) (bc_tick_size (ob_config b)) = Some c" "comp_ok c"
    "cp_mid_price c = cp_mid_price (ob_compression b)" "cp_tick_size c = cp_tick_size (ob_compression b)"
    using compression_new_regular [OF mid] cfg(1) by auto
  define bk where "bk = the (orderbook_new (ob_config b) ?cap (cp_mid_price (ob_compression b)))"
  have bk: "orderbook_new (ob_config b) ?cap (cp_mid_price (ob_compression b)) = Some bk" "ob_orders bk = slab_new ?cap" "ob_compression bk = c"
    "ob_active_levels bk = replicate (total_slots c) price_level_default" "ob_price_asc bk = build_price_asc c" "ob_config bk = ob_config b"
    "ob_state bk = Normal" "ob_event_buf bk = []"
    using c(1) by (simp_all add: bk_def orderbook_new_def Let_def)
  let ?os = "map (snap_of ?s) ?hs" and ?s1 = "set_bump_next (slab_new ?cap) ?bump" and ?no = "replicate ?bump False"
  have mh: "map sn_handle ?os = ?hs" by (simp add: comp_def)
  have "\<forall>x\<in>set ?os. sn_handle x < ?bump \<and> sn_side x \<le> 1 \<and> \<not> ?no ! sn_handle x"
    using hb hs(1) by (auto simp: slot_sound_def)
  moreover have "?bump \<le> length (slots ?s1)" using sb(1) by (simp add: set_bump_next_def slab_new_def)
  ultimately obtain xs where xs: "place_orders ?bump ?os ?no ?s1 = Some (Inr (marks ?hs ?no, ?s1\<lparr>slots := xs\<rparr>))" "length xs = ?cap"
    "\<forall>h\<in>queued Q. xs ! h = order_slot_of (snap_of ?s h)" "\<forall>h. h \<notin> queued Q \<longrightarrow> xs ! h = slots ?s1 ! h"
    using place_orders_ok [of ?os ?bump ?no ?s1] hs mh by (auto simp: set_bump_next_def slab_new_def image_image)
  have Fq: "set F \<inter> queued Q = {}" by (rule R(14))
  have "i < ?bump \<and> \<not> marks ?hs ?no ! i" if "i \<in> set F" for i
    using that sb(4) Fq hs(1) marks_nth [of i ?no ?hs] by (auto simp: subset_iff)
  then have mf: "mark_free InvalidSlabFreeList ?bump (marks ?hs ?no) F ?no = Some (Inr (marks F ?no))"
    by (intro mark_free_ok [OF sb(3)]) auto
  have ut: "\<not> untracked (marks ?hs ?no) (marks F ?no)" using R(12) hs(1) by (auto simp: untracked_iff marks_nth)
  let ?s2 = "?s1\<lparr>slots := xs, free_head := NONE\<rparr>"
  have "\<forall>h\<in>set (rev F). h < length (slots ?s2)" "length (slots ?s2) \<le> NONE" using sb cap xs(2) by (force, simp)
  then obtain s3 where s3: "restore_handles (rev F) ?s2 = Some s3" "free_chain (slots s3) (free_head s3) F" "bump_next s3 = ?bump" "length (slots s3) = ?cap"
    "\<forall>x. x \<notin> set F \<longrightarrow> slots s3 ! x = xs ! x"
    using free_chain_restore [of "rev F" ?s2 "[]"] sb(3) xs(2) by (auto simp: set_bump_next_def)
  have rf: "restore_free_handles (?s1\<lparr>slots := xs\<rparr>) F = Some s3" using s3(1) by (simp add: restore_free_handles_def)
  let ?xs = "slots s3"
  have xq: "?xs ! h = order_slot_of (snap_of ?s h)" if "h \<in> queued Q" for h using s3(5) xs(3) Fq that by auto
  have xi: "\<not> is_active (?xs ! h)" if "h < length ?xs" "h \<notin> queued Q" for h
    using restore_handles_active [OF s3(1), of h] xs(4) that s3(4) by (simp add: set_bump_next_def slab_new_def)
  from restore_users_ok [OF _ es] W(4) fit obtain u where u: "restore_users (bs_users (taken b Q F es)) = Some (Inr u)" "users_ok u" "ur_map u = ur_map (ob_users b)"
    "ur_states u = take (ur_bump (ob_users b)) (ur_states (ob_users b))" by (auto simp: users_rel_def u64_fit_def taken_def)
  have uv: "position_of u = position_of (ob_users b)" "resting_of u = resting_of (ob_users b)"
  proof -
    have "ur_states u ! i = ur_states (ob_users b) ! i" if "ur_map (ob_users b) k = Some i" for k i
      using that W(4) u(4) by (auto simp: users_rel_def users_ok_def)
    then show "position_of u = position_of (ob_users b)" "resting_of u = resting_of (ob_users b)"
      by (auto simp: position_of_def resting_of_def u(3) fun_eq_iff split: option.split)
  qed
  let ?b1 = "bk\<lparr>ob_orders := s3, ob_users := u\<rparr>"
  have okl: "linkable ?xs ?hs"
  proof -
    have "(\<Sum>h\<leftarrow>?hs. os_remaining_qty (?xs ! h)) = (\<Sum>h\<leftarrow>?hs. rem b h)" using xq hs(1) by (intro arg_cong [where f = sum_list] map_cong) (auto simp: rem_def)
    also have "\<dots> = resting_qty b Q" using hs by (simp add: resting_qty_def sum_list_distinct_conv_sum_set)
    finally show ?thesis using qty hs hb sb s3(4) cap xq by (force simp: linkable_def slot_sound_def)
  qed
  have "linked c ?xs [] ?xs (replicate (total_slots c) price_level_default)"
    by (simp add: linked_def linked_level_def at_slot_def price_level_default_def qty_sum_def)
  from link_orders_ok [OF this _ c(2), of ?hs ?b1 "snap_of ?s"] okl bk(3) xq hs(1) obtain ys ls where lk:
    "link_orders ?os (?b1\<lparr>ob_orders := s3\<lparr>slots := ?xs\<rparr>, ob_active_levels := replicate (total_slots c) price_level_default\<rparr>) =
      Some (?b1\<lparr>ob_orders := s3\<lparr>slots := ys\<rparr>, ob_active_levels := ls\<rparr>)" "linked c ?xs ?hs ys ls" "length ls = total_slots c" by auto
  have b1: "?b1\<lparr>ob_orders := s3\<lparr>slots := ?xs\<rparr>, ob_active_levels := replicate (total_slots c) price_level_default\<rparr> = ?b1"
    using bk(4) by (cases bk; cases s3) simp
  let ?b2 = "?b1\<lparr>ob_orders := s3\<lparr>slots := ys\<rparr>, ob_active_levels := ls, ob_sequence := snapshot_u64_get (snapshot_u64_new (ob_sequence b))\<rparr>"
  have ys: "length ys = ?cap" "\<And>h. h \<notin> queued Q \<Longrightarrow> ys ! h = ?xs ! h" "\<And>h. h \<in> queued Q \<Longrightarrow> strip (ys ! h) = strip (settled_slot c (?xs ! h))"
    using lk(2) s3(4) hs(1) by (auto simp: linked_def)
  have "slab_rel (s3\<lparr>slots := ys\<rparr>) F"
  proof -
    have "free_chain ys (free_head s3) F = free_chain ?xs (free_head s3) F"
      by (rule free_chain_cong) (use ys(1,2) Fq s3(4) in \<open>simp_all add: disjoint_iff\<close>)
    then show ?thesis using s3 sb ys(1) cap by (simp add: slab_rel_def)
  qed
  moreover have "\<forall>h\<in>set ?hs. slot_sound c (?xs ! h)" using hb(2) hs(1) xq c(4) by (auto simp: slot_sound_def)
  ultimately obtain us x y where rb: "rebuild_occupancy ?b2 = Some (?b2\<lparr>ob_active_levels := us, ob_bid_occ := x, ob_ask_occ := y\<rparr>)"
    "book_rel (?b2\<lparr>ob_active_levels := us, ob_bid_occ := x, ob_ask_occ := y\<rparr>) (at_slot c ?xs ?hs) F {}"
    using linked_rebuild [of c ?xs ?hs ?b2 F] lk(2,3) okl c(2) bk(3,5) R(12) Fq hs(1) s3(3) xi by auto
  let ?b3 = "?b2\<lparr>ob_active_levels := us, ob_bid_occ := x, ob_ask_occ := y\<rparr>"
  obtain t p v q where rr: "(do { b3 \<leftarrow> refresh_best_bid ?b3; refresh_best_ask b3 }) = Some (set_best (set_best ?b3 Buy t p) Sell v q)"
    "best_ok (set_best (set_best ?b3 Buy t p) Sell v q) (at_slot c ?xs ?hs) Buy" "best_ok (set_best (set_best ?b3 Buy t p) Sell v q) (at_slot c ?xs ?hs) Sell"
    using refresh_both_ok [OF rb(2)] by blast
  let ?b4 = "set_best (set_best ?b3 Buy t p) Sell v q"
  have run: "restore (taken b Q F es) capacity = Some (Inr ?b4)"
    using sb(1) cfg(2,3) bk(1,2) xs(1) mf ut rf u(1) lk(1) rb(1) rr(1) unfolding b1
    by (simp add: restore_def taken_def Let_def and_then_def sc bind_eq_Some_conv)
  have same: "order_snapshot_of h (ord ?b4 h) = order_snapshot_of h (ord b h)" if h: "h \<in> queued Q" for h
  proof -
    have "order_snapshot_of h (ys ! h) = order_snapshot_of h (?xs ! h)" using order_snapshot_strip [OF ys(3) [OF h], of h] by simp
    also have "\<dots> = order_snapshot_of h (ord b h)" unfolding xq [OF h] by (rule order_snapshot_roundtrip) (use fit h in \<open>auto simp: u64_fit_def\<close>)
    finally show ?thesis by simp
  qed
  have "priced (slots (ob_orders ?b4)) p (at_slot c ?xs ?hs (slot_index c p)) = priced (slots ?s) p (Q (slot_index (ob_compression b) p))" for p
  proof -
    have pr: "os_price (ord ?b4 h) = os_price (ord b h)" "os_price (?xs ! h) = os_price (ord b h)" if "h \<in> set ?hs" for h
      using snapshot_eqD(1) [OF same] xq that hs(1) by simp_all
    have "priced (slots (ob_orders ?b4)) p (at_slot c ?xs ?hs (slot_index c p)) = priced (slots ?s) p ?hs"
      unfolding priced_def at_slot_def filter_filter using pr by (intro filter_cong) auto
    then show ?thesis using priced_listed [OF rel] by simp
  qed
  then show ?thesis using run rb(2) rr(2,3) hs(1) same u(2) uv bk ys(1) s3(3) c fit
    by (intro exI [of _ ?b4] exI [of _ "at_slot c ?xs ?hs"]) (simp add: u64_fit_def set_best_def)
qed

lemma restore_good:
  assumes g: "good b Q F" and qty: "resting_qty b Q \<le> i64_max" and mid: "regular_mid (cp_mid_price (ob_compression b)) (bc_tick_size (ob_config b))"
    and es: "entries_of (ur_map (ob_users b)) es" and fit: "u64_fit b Q" and cap: "capacity \<le> NONE"
  shows "\<exists>b' Q'. restore (taken b Q F es) capacity = Some (Inr b') \<and> good b' Q' F \<and> queued Q' = queued Q \<and>
    (\<forall>h\<in>queued Q. order_snapshot_of h (ord b' h) = order_snapshot_of h (ord b h)) \<and>
    (\<forall>p. priced (slots (ob_orders b')) p (Q' (slot_index (ob_compression b') p)) = priced (slots (ob_orders b)) p (Q (slot_index (ob_compression b) p))) \<and>
    (\<forall>sd. best_px b' sd = best_px b sd) \<and> position_of (ob_users b') = position_of (ob_users b) \<and> resting_of (ob_users b') = resting_of (ob_users b) \<and>
    ob_sequence b' = ob_sequence b \<and> ob_config b' = ob_config b \<and> length (slots (ob_orders b')) = max capacity (length (slots (ob_orders b))) \<and>
    ob_state b' = Normal"
proof -
  have w: "wf b Q F" and un: "uncrossed b Q" and cfg: "cp_tick_size (ob_compression b) = bc_tick_size (ob_config b)" "0 < bc_tick_size (ob_config b)"
    "0 < bc_lot_size (ob_config b)" using g by (simp_all add: good_def)
  note W = wfD [OF w]
  obtain b' Q' where r: "restore (taken b Q F es) capacity = Some (Inr b')" "book_rel b' Q' F {}" "best_ok b' Q' Buy" "best_ok b' Q' Sell"
    "queued Q' = queued Q" "\<forall>h\<in>queued Q. order_snapshot_of h (ord b' h) = order_snapshot_of h (ord b h)"
    "\<forall>p. priced (slots (ob_orders b')) p (Q' (slot_index (ob_compression b') p)) = priced (slots (ob_orders b)) p (Q (slot_index (ob_compression b) p))"
    "users_ok (ob_users b')" "position_of (ob_users b') = position_of (ob_users b)" "resting_of (ob_users b') = resting_of (ob_users b)"
    "ob_config b' = ob_config b" "ob_sequence b' = ob_sequence b" "cp_tick_size (ob_compression b') = cp_tick_size (ob_compression b)"
    "length (slots (ob_orders b')) = max capacity (length (slots (ob_orders b)))" "ob_state b' = Normal"
    using restore_taken [OF w cfg mid qty es fit cap] by blast
  note D = snapshot_eqD [OF bspec [OF r(6)]]
  have rs: "resting b' Q' sd = resting b Q sd" for sd using D(5) r(5) by (auto simp: resting_def)
  have pr: "os_price (ord b' h) = os_price (ord b h)" if "h \<in> resting b Q sd" for h sd using D(1) [of h] that by (simp add: resting_def)
  have bo: "best_ok b Q sd" "best_ok b' Q' sd" for sd using W(3) [of sd] r(3,4) by (simp, cases sd) simp_all
  have "best_px b' sd = best_px b sd" for sd by (rule best_px_unique [OF bo rs]) (use pr in blast)
  moreover have "uncrossed b' Q'" using un rs pr by (simp add: uncrossed_def)
  moreover have "positive b' Q'" using W(2) r(5) D(2) by (simp add: positive_def)
  moreover have "users_rel b' Q'"
  proof -
    have "{h \<in> queued Q. os_user_id (ord b' h) = uid} = {h \<in> queued Q. os_user_id (ord b h) = uid}" for uid using D(4) by auto
    then show ?thesis using W(4) r(5,8,10) by (simp add: users_rel_def)
  qed
  ultimately show ?thesis using r cfg by (auto simp: good_def wf_def)
qed


text \<open>C23: a checkpoint loses nothing. Every book between orders can be captured, and restoring the snapshot into a slab of any allowed
  capacity succeeds and gives a book between orders in which the same handles rest, each order with every captured field it had (price,
  side, quantities, owner, ids, time in force, reduce-only, sequence, time); the orders of each price are in the time order they had;
  the best prices, the free list, the users' positions and counts, the sequence number and the configuration are the same; and the slab
  has the larger of the two capacities. The order in which the user map is iterated does not matter.\<close>

theorem snapshot_roundtrip:
  assumes g: "good b Q F" and n: "ob_state b = Normal" and qty: "resting_qty b Q \<le> i64_max"
    and mid: "regular_mid (cp_mid_price (ob_compression b)) (bc_tick_size (ob_config b))"
    and es: "entries_of (ur_map (ob_users b)) es" and fit: "u64_fit b Q" and cap: "capacity \<le> NONE"
  shows "\<exists>s b' Q'. capture b es = Some (Inr s) \<and> restore s capacity = Some (Inr b') \<and> good b' Q' F \<and> queued Q' = queued Q \<and>
    (\<forall>h\<in>queued Q. order_snapshot_of h (ord b' h) = order_snapshot_of h (ord b h)) \<and>
    (\<forall>p. priced (slots (ob_orders b')) p (Q' (slot_index (ob_compression b') p)) = priced (slots (ob_orders b)) p (Q (slot_index (ob_compression b) p))) \<and>
    (\<forall>sd. best_px b' sd = best_px b sd) \<and> position_of (ob_users b') = position_of (ob_users b) \<and> resting_of (ob_users b') = resting_of (ob_users b) \<and>
    ob_sequence b' = ob_sequence b \<and> ob_config b' = ob_config b \<and> length (slots (ob_orders b')) = max capacity (length (slots (ob_orders b)))"
  using restore_good [OF g qty mid es fit cap] capture_ok [OF _ n es, of Q F] g by (auto simp: good_def)


text \<open>The witness needs the parts of an inserted order that the book invariant does not mention.\<close>

lemma occ_mark_frame:
  "occ_mark b sd t = Some b' \<Longrightarrow> ob_users b' = ob_users b \<and> ob_sequence b' = ob_sequence b \<and> ob_state b' = ob_state b \<and>
    ob_compression b' = ob_compression b \<and> ob_orders b' = ob_orders b"
  by (auto simp: occ_mark_def split: bind_splits if_splits)

lemma raise_best_frame:
  "ob_users (raise_best b sd p t) = ob_users b" "ob_sequence (raise_best b sd p t) = ob_sequence b" "ob_state (raise_best b sd p t) = ob_state b"
  "ob_compression (raise_best b sd p t) = ob_compression b" "ob_orders (raise_best b sd p t) = ob_orders b"
  by (simp_all add: raise_best_def split: side.split)

lemma link_tail_time: "link_tail os l h = Some (os', l') \<Longrightarrow> os_timestamp_ns (slots os' ! x) = os_timestamp_ns (slots os ! x)"
  by (auto simp: link_tail_def Let_def slab_get_def slab_put_def nth_list_update split: bind_splits if_splits)

lemma insert_resting_parts:
  assumes "insert_resting b price qty sd tif uid ro ts hi lo = Some (h, b1)"
  shows "add_order (ob_users b) uid = Some (ob_users b1)" "ob_sequence b1 = u64_add (ob_sequence b) 1" "ob_state b1 = ob_state b"
    "ob_compression b1 = ob_compression b" "os_timestamp_ns (ord b1 h) = ts"
proof -
  obtain tick o0 slot o1 level o2 l1 l2 e b2 where s: "slab_get o0 h = Some slot"
      "slab_put o0 h (new_slot slot price qty sd tif uid ro ts hi lo tick (u64_add (ob_sequence b) 1)) = Some o1"
      "link_tail o1 level h = Some (o2, l1)"
      "(if e then occ_mark (b\<lparr>ob_orders := o2, ob_sequence := u64_add (ob_sequence b) 1, ob_active_levels := (ob_active_levels b)[tick := l2]\<rparr>) (side_u8 sd) tick
        else Some (b\<lparr>ob_orders := o2, ob_sequence := u64_add (ob_sequence b) 1, ob_active_levels := (ob_active_levels b)[tick := l2]\<rparr>)) = Some b2"
      "add_order (ob_users (raise_best b2 sd price tick)) uid = Some (ob_users b1)" "b1 = (raise_best b2 sd price tick)\<lparr>ob_users := ob_users b1\<rparr>"
    using assms by (auto simp: insert_resting_def Let_def simp del: One_nat_def split: bind_splits prod.splits)
  have b2: "ob_users b2 = ob_users b" "ob_sequence b2 = u64_add (ob_sequence b) 1" "ob_state b2 = ob_state b" "ob_compression b2 = ob_compression b" "ob_orders b2 = o2"
    using s(4) occ_mark_frame [of _ "side_u8 sd" tick b2] by (auto split: if_splits)
  show "add_order (ob_users b) uid = Some (ob_users b1)" using s(5) b2 by (simp add: raise_best_frame)
  show "ob_sequence b1 = u64_add (ob_sequence b) 1" "ob_state b1 = ob_state b" "ob_compression b1 = ob_compression b"
    by (subst s(6), simp add: raise_best_frame b2)+
  have "os_timestamp_ns (slots o1 ! h) = ts" using s(1,2) by (auto simp: slab_get_def slab_put_def new_slot_def store_at_Some)
  then show "os_timestamp_ns (ord b1 h) = ts" using link_tail_time [OF s(3)] by (subst s(6)) (simp add: raise_best_frame b2)
qed

theorem snapshot_roundtrip_witness:
  "\<exists>b b1 h s b'. orderbook_new \<lparr>bc_symbol_id = 1, bc_tick_size = 1, bc_lot_size = 1\<rparr> 16 5000 = Some b \<and>
    insert_resting b 5000 10 Buy 0 7 False 1 0 42 = Some (h, b1) \<and> capture b1 [(7, 0)] = Some (Inr s) \<and> restore s 32 = Some (Inr b') \<and>
    order_snapshot_of h (ord b' h) = order_snapshot_of h (ord b1 h) \<and> best_px b' Buy = best_px b1 Buy \<and> length (slots (ob_orders b')) \<ge> 32"
proof -
  obtain b h b1 F where b: "orderbook_new \<lparr>bc_symbol_id = 1, bc_tick_size = 1, bc_lot_size = 1\<rparr> 16 5000 = Some b"
    "insert_resting b 5000 10 Buy 0 7 False 1 0 42 = Some (h, b1)" "cp_tick_size (ob_compression b1) = 1"
    "wf b1 ((\<lambda>t. [])(slot_index (ob_compression b1) 5000 := [h])) F" "fresh_order (ord b1 h) 5000 10 Buy 0 7 False 0 42"
    "ob_config b1 = \<lparr>bc_symbol_id = 1, bc_tick_size = 1, bc_lot_size = 1\<rparr>"
    using one_order_book by blast
  let ?Q = "(\<lambda>t. [])(slot_index (ob_compression b1) 5000 := [h])"
  note P = insert_resting_parts [OF b(2)]
  have q: "queued ?Q = {h}" by (auto simp: queued_def)
  have nb: "ob_users b = user_registry_new" "ob_sequence b = 0" "ob_state b = Normal" "cp_mid_price (ob_compression b) = 5000" "length (slots (ob_orders b)) = 16"
    using b(1) orderbook_new_ok [of 5000 "\<lparr>bc_symbol_id = 1, bc_tick_size = 1, bc_lot_size = 1\<rparr>" 16]
    by (auto simp: orderbook_new_def Let_def regular_mid_def NONE_def split: bind_splits)
  have u: "ob_users b1 = \<lparr>ur_states = [\<lparr>us_user_id = 7, us_net_qty = 0, us_order_count = 1, us_zero_since_ns = 0\<rparr>], ur_map = [7 \<mapsto> 0],
      ur_free_list = [], ur_bump = 1, ur_cursor = 0\<rparr>"
    using P(1) by (simp add: nb(1) add_order_def get_or_assign_def user_registry_new_def u32_max_def user_state_new_def clear_zero_mark_def index_of_Some
      u32_add_def Let_def)
  have un: "uncrossed b1 ?Q" using b(5) by (auto simp: uncrossed_def resting_def q on_side_def is_buy_def fresh_order_def)
  have "good b1 ?Q F" using b(3,4,6) un by (simp add: good_def)
  moreover have "resting_qty b1 ?Q \<le> i64_max" unfolding resting_qty_def q using b(5) by (simp add: rem_def fresh_order_def i64_max_def)
  moreover have "u64_fit b1 ?Q" unfolding u64_fit_def q using b(5) P(2,5) u nb(2) by (simp add: marks_fit_def fresh_order_def u64_add_def)
  moreover have "entries_of (ur_map (ob_users b1)) [(7, 0)]" by (auto simp: u entries_of_def split: if_splits)
  moreover have "regular_mid (cp_mid_price (ob_compression b1)) (bc_tick_size (ob_config b1))" using P(4) nb(4) b(6) by (simp add: regular_mid_def)
  ultimately show ?thesis using snapshot_roundtrip [of b1 ?Q F "[(7, 0)]" 32] P(3) nb(3) b(1,2) unfolding q by (auto simp: NONE_def)
qed

end
