(* ===== verification/Engine_Loop.thy ===== *)
theory Engine_Loop
  imports Engine_Props Snapshot_Props
begin

text \<open>
  The matching loop of \<open>rsx-matching/src/cast_loop.rs\<close>, the configs it applies (\<open>config.rs\<close>) and the checkpoints it captures
  (\<open>checkpoint.rs\<close>). One iteration reads the clock, handles at most one message from the risk stream, maintains one user when idle,
  prunes the duplicate window, applies the due configs and captures a checkpoint when one is due.

  Parameters: \<open>entries\<close> is the iteration order of the hash map of the user registry; a \<open>loop_input\<close> holds what an iteration
  receives from outside: the clock, the datagram, the due configs from the sidecar, whether the checkpoint thread is free. Flushing
  the log, sending frames and logging are not modelled.
\<close>

section \<open>Configs\<close>

record scheduled_config =
  sch_config :: symbol_config
  sch_config_version :: u64
  sch_effective_at_ms :: u64

definition emit_config_applied :: "engine \<Rightarrow> u32 \<Rightarrow> u64 \<Rightarrow> u64 \<Rightarrow> u64 \<Rightarrow> engine" where
  "emit_config_applied e symbol_id config_version effective_at_ms ts =
     fan_out e (WrConfig \<lparr>ca_seq = 0, ca_ts_ns = ts, ca_symbol_id = symbol_id, ca_config_version = config_version,
       ca_effective_at_ms = effective_at_ms, ca_applied_at_ns = ts\<rparr>)"

text \<open>The loop over the ring of due configs, each with the reading of the clock when it is emitted; the result has the last version.\<close>

fun apply_due_configs :: "(scheduled_config \<times> u64) list \<Rightarrow> engine \<Rightarrow> u64 option \<Rightarrow> engine \<times> u64 option" where
  "apply_due_configs [] e applied = (e, applied)"
| "apply_due_configs ((cfg, ts) # due) e applied =
     (let e1 = e\<lparr>en_book := update_config (en_book e) (book_config_from (sch_config cfg))\<rparr>
      in apply_due_configs due (emit_config_applied e1 (en_symbol_id e1) (sch_config_version cfg) (sch_effective_at_ms cfg) ts)
        (Some (sch_config_version cfg)))"

section \<open>Checkpoints\<close>

record matching_checkpoint =
  ck_schema_version :: int
  ck_wal_seq :: snapshot_u64
  ck_book :: book_snapshot

definition CHECKPOINT_SCHEMA_VERSION :: int where "CHECKPOINT_SCHEMA_VERSION = 1"

definition checkpoint_new :: "u64 \<Rightarrow> book_snapshot \<Rightarrow> matching_checkpoint" where
  "checkpoint_new wal_seq book = \<lparr>ck_schema_version = CHECKPOINT_SCHEMA_VERSION, ck_wal_seq = snapshot_u64_new wal_seq, ck_book = book\<rparr>"

definition checkpoint_capture :: "orderbook \<Rightarrow> (u32 \<times> u32) list \<Rightarrow> u64 \<Rightarrow> matching_checkpoint io" where
  "checkpoint_capture b es wal_seq = and_then (capture b es) (\<lambda>book. Some (Inr (checkpoint_new wal_seq book)))"

text \<open>\<open>load_checkpoint\<close> on a file that holds \<open>ck\<close>; \<open>None\<close> in the error is a schema version this code does not know.\<close>

definition load_checkpoint :: "matching_checkpoint \<Rightarrow> u32 \<Rightarrow> (snapshot_error option + orderbook \<times> u64) option" where
  "load_checkpoint ck capacity =
     (if ck_schema_version ck \<noteq> CHECKPOINT_SCHEMA_VERSION then Some (Inl None)
      else case restore (ck_book ck) capacity of None \<Rightarrow> None
        | Some (Inl err) \<Rightarrow> Some (Inl (Some err))
        | Some (Inr book) \<Rightarrow> Some (Inr (book, snapshot_u64_get (ck_wal_seq ck))))"

section \<open>The loop\<close>

datatype loop_recv =
    RecvOrder order_message
  | RecvCancel u32 u64 u64
  | RecvDropped
  | RecvFaulted
  | RecvIdle

record loop_input =
  in_clock :: nat
  in_recv :: loop_recv
  in_times :: "nat \<Rightarrow> u64"
  in_now_ns :: u64
  in_due :: "(scheduled_config \<times> u64) list"
  in_writer_free :: bool

record loop_state =
  lp_engine :: engine
  lp_last_user_maintenance :: nat
  lp_last_snapshot :: nat
  lp_checkpoint_due :: bool
  lp_checkpoints :: "matching_checkpoint list"

definition last_seq :: "engine \<Rightarrow> u64" where "last_seq e = en_next_seq e - 1"

definition loop_handle :: "engine \<Rightarrow> loop_input \<Rightarrow> engine option" where
  "loop_handle e inp = (case in_recv inp of
     RecvOrder msg \<Rightarrow> me_process_order e msg (in_times inp)
   | RecvCancel user_id hi lo \<Rightarrow> me_process_cancel e user_id hi lo (in_times inp)
   | _ \<Rightarrow> Some e)"

definition loop_maintain :: "loop_state \<Rightarrow> loop_input \<Rightarrow> loop_state option" where
  "loop_maintain lp inp =
     (if in_recv inp = RecvIdle \<and> (in_clock inp - lp_last_user_maintenance lp) div 1000000 \<ge> 1 then do {
        (r, book) \<leftarrow> maintain_users (en_book (lp_engine lp)) (in_now_ns inp) False;
        Some (lp\<lparr>lp_engine := (lp_engine lp)\<lparr>en_book := book\<rparr>, lp_last_user_maintenance := in_clock inp\<rparr>)
      } else Some lp)"

definition loop_checkpoint :: "(user_registry \<Rightarrow> (u32 \<times> u32) list) \<Rightarrow> loop_state \<Rightarrow> loop_input \<Rightarrow> loop_state option" where
  "loop_checkpoint entries lp inp =
     (if lp_checkpoint_due lp \<or> (in_clock inp - lp_last_snapshot lp) div 1000000000 \<ge> 10 then do {
        r \<leftarrow> checkpoint_capture (en_book (lp_engine lp)) (entries (ob_users (en_book (lp_engine lp)))) (last_seq (lp_engine lp));
        Some (lp\<lparr>lp_checkpoints := lp_checkpoints lp @ (case r of Inr ck \<Rightarrow> if in_writer_free inp then [ck] else [] | Inl _ \<Rightarrow> []),
          lp_checkpoint_due := False, lp_last_snapshot := in_clock inp\<rparr>)
      } else Some lp)"

definition loop_iter :: "(user_registry \<Rightarrow> (u32 \<times> u32) list) \<Rightarrow> loop_state \<Rightarrow> loop_input \<Rightarrow> loop_state option" where
  "loop_iter entries lp inp = do {
     let e0 = (lp_engine lp)\<lparr>en_dedup := refresh_clock (en_dedup (lp_engine lp)) (in_clock inp)\<rparr>;
     if in_recv inp = RecvFaulted then Some (lp\<lparr>lp_engine := e0\<rparr>)
     else do {
       e1 \<leftarrow> loop_handle e0 inp;
       lp1 \<leftarrow> loop_maintain (lp\<lparr>lp_engine := e1\<rparr>) inp;
       let e2 = (lp_engine lp1)\<lparr>en_dedup := maybe_cleanup (en_dedup (lp_engine lp1))\<rparr>;
       let (e3, applied) = apply_due_configs (in_due inp) e2 None;
       loop_checkpoint entries (lp1\<lparr>lp_engine := e3, lp_checkpoint_due := lp_checkpoint_due lp1 \<or> applied \<noteq> None\<rparr>) inp
     }
   }"

fun loop_run :: "(user_registry \<Rightarrow> (u32 \<times> u32) list) \<Rightarrow> loop_input list \<Rightarrow> loop_state \<Rightarrow> loop_state option" where
  "loop_run entries [] lp = Some lp"
| "loop_run entries (inp # inps) lp = do { lp' \<leftarrow> loop_iter entries lp inp; loop_run entries inps lp' }"

end
