(* ===== verification/Engine_Run.thy ===== *)
theory Engine_Run
  imports Engine_Loop
begin

text \<open>
  The matching loop never panics and keeps its invariant; what a cancel does; recovery from a checkpoint and the records after it.
\<close>

section \<open>The parts of an iteration\<close>

lemma maintain_inv:
  assumes inv: "book_inv b ix Q F"
  shows "\<exists>r b'. maintain_users b now rp = Some (r, b') \<and> book_inv b' ix Q F \<and> ob_config b' = ob_config b \<and> ob_state b' = ob_state b"
proof -
  note B = book_invD [OF inv]
  have "users_ok (ob_users b)" using wfD(4) [OF B(5)] by (simp add: users_rel_def)
  from maintain_one_ok [OF this, of now rp] obtain r u where u: "maintain_one (ob_users b) now rp = Some (r, u)" "users_ok u" "same_view (ob_users b) u" by blast
  let ?b = "b\<lparr>ob_users := u\<rparr>"
  have "users_rel ?b Q" using wfD(4) [OF B(5)] u by (simp add: users_rel_def User_Registry.same_view_def)
  moreover have "best_ok ?b Q sd = best_ok b Q sd" for sd by (rule Migration.same_view(2)) simp_all
  moreover have "positive ?b Q = positive b Q" "uncrossed ?b Q = uncrossed b Q" "resting_qty ?b Q = resting_qty b Q"
    "prices_regular ?b Q = prices_regular b Q" "index_exact ?b Q ix = index_exact b Q ix"
    by (simp_all add: positive_def uncrossed_def resting_def resting_qty_def rem_def prices_regular_def index_exact_def)
  ultimately have "book_inv ?b ix Q F" using inv by (simp add: book_inv_def good_def wf_def)
  then show ?thesis using u(1) by (simp add: maintain_users_def)
qed

lemma config_inv:
  assumes "book_inv b ix Q F" "sc_tick_size cfg = bc_tick_size (ob_config b)" "0 < sc_lot_size cfg"
  shows "book_inv (update_config b (book_config_from cfg)) ix Q F"
proof -
  let ?b = "update_config b (book_config_from cfg)"
  have "best_ok ?b Q sd = best_ok b Q sd" for sd by (rule Migration.same_view(2)) (simp_all add: update_config_def)
  moreover have "positive ?b Q = positive b Q" "uncrossed ?b Q = uncrossed b Q" "resting_qty ?b Q = resting_qty b Q" "users_rel ?b Q = users_rel b Q"
    "index_exact ?b Q ix = index_exact b Q ix" "book_rel ?b Q F {} = book_rel b Q F {}"
    by (simp_all add: update_config_def positive_def uncrossed_def resting_def resting_qty_def rem_def index_exact_def users_rel_def)
  ultimately show ?thesis using assms by (simp add: book_inv_def good_def wf_def prices_regular_def) (simp add: update_config_def book_config_from_def)
qed

lemma apply_configs_inv:
  assumes "engine_inv n0 e Q F" "\<forall>(cfg, ts)\<in>set due. sc_tick_size (sch_config cfg) = bc_tick_size (ob_config (en_book e)) \<and> 0 < sc_lot_size (sch_config cfg)"
  shows "engine_inv n0 (fst (apply_due_configs due e ap)) Q F \<and> en_dedup (fst (apply_due_configs due e ap)) = en_dedup e \<and>
    bc_tick_size (ob_config (en_book (fst (apply_due_configs due e ap)))) = bc_tick_size (ob_config (en_book e)) \<and>
    ob_state (en_book (fst (apply_due_configs due e ap))) = ob_state (en_book e)"
  using assms
proof (induction due e ap rule: apply_due_configs.induct)
  case (2 cfg ts due e ap)
  let ?e1 = "e\<lparr>en_book := update_config (en_book e) (book_config_from (sch_config cfg))\<rparr>"
  let ?e2 = "emit_config_applied ?e1 (en_symbol_id ?e1) (sch_config_version cfg) (sch_effective_at_ms cfg) ts"
  have "log_ok n0 ?e1" using 2(2) by (simp add: engine_inv_def log_ok_def)
  then have "engine_inv n0 ?e2 Q F" using 2(2,3) config_inv [of "en_book e" "en_order_index e" Q F "sch_config cfg"] fan_out_log(1) [of n0 ?e1]
    by (simp add: engine_inv_def emit_config_applied_def)
  moreover have f: "en_book ?e2 = update_config (en_book e) (book_config_from (sch_config cfg))" "en_dedup ?e2 = en_dedup e"
    by (simp_all add: emit_config_applied_def)
  moreover have "bc_tick_size (ob_config (en_book ?e2)) = bc_tick_size (ob_config (en_book e))" "ob_state (en_book ?e2) = ob_state (en_book e)"
    using 2(3) unfolding f by (simp_all add: update_config_def book_config_from_def)
  ultimately show ?case using 2(1) [OF refl] 2(3) by (simp add: Let_def)
qed simp

lemma cancel_absent: "en_order_index e (u, hi, lo) = None \<Longrightarrow> me_process_cancel e u hi lo clk = Some e"
  by (simp add: me_process_cancel_def)

lemma cancel_step:
  assumes inv: "engine_inv n0 e Q F"
  shows "\<exists>e' Q' F'. me_process_cancel e u hi lo clk = Some e' \<and> engine_inv n0 e' Q' F' \<and> en_dedup e' = en_dedup e"
proof (cases "en_order_index e (u, hi, lo)")
  case None
  then show ?thesis using inv cancel_absent by blast
next
  case (Some h)
  then have "h \<in> queued Q" using inv index_exact_iff [OF book_invD(2), of "en_book e" "en_order_index e" Q F "(u, hi, lo)" h] by (simp add: engine_inv_def)
  then obtain t where "h \<in> set (Q t)" by (auto simp: queued_def)
  from cancel_found [OF inv Some this, of clk] show ?thesis by blast
qed

lemma order_step_dedup: "me_process_order e msg clk = Some e' \<Longrightarrow> dd_now (en_dedup e') = dd_now (en_dedup e)"
proof -
  assume r: "me_process_order e msg clk = Some e'"
  obtain d dup where cd: "check_and_insert (en_dedup e) (om_user_id msg) (om_order_id_hi msg) (om_order_id_lo msg) = (d, dup)" by fastforce
  have "dd_now d = dd_now (en_dedup e)"
    using cd by (auto simp: check_and_insert_def Let_def split: if_splits)
  moreover have "en_dedup e' = d"
  proof -
    have pub: "publish_events x ts hp = Some y \<Longrightarrow> en_dedup y = en_dedup x" for x ts hp y
    proof -
      have fo: "en_dedup (fold (\<lambda>r e. fan_out e r) rs x) = en_dedup x" for rs x by (induction rs arbitrary: x) simp_all
      show "publish_events x ts hp = Some y \<Longrightarrow> en_dedup y = en_dedup x" by (auto simp: publish_events_def fo split: bind_splits)
    qed
    show ?thesis using r pub by (fastforce simp: me_process_order_def cd Let_def split: bind_splits if_splits)
  qed
  ultimately show ?thesis by simp
qed

section \<open>The loop\<close>

definition input_admissible :: "loop_state \<Rightarrow> loop_input \<Rightarrow> bool" where
  "input_admissible lp inp \<longleftrightarrow> dd_now (en_dedup (lp_engine lp)) \<le> in_clock inp \<and>
     (\<forall>(cfg, ts)\<in>set (in_due inp). sc_tick_size (sch_config cfg) = bc_tick_size (ob_config (en_book (lp_engine lp))) \<and> 0 < sc_lot_size (sch_config cfg)) \<and>
     (\<forall>msg. in_recv inp = RecvOrder msg \<longrightarrow>
       order_admissible ((lp_engine lp)\<lparr>en_dedup := refresh_clock (en_dedup (lp_engine lp)) (in_clock inp)\<rparr>) msg)"

inductive loop_reach :: "(user_registry \<Rightarrow> (u32 \<times> u32) list) \<Rightarrow> loop_state \<Rightarrow> loop_state \<Rightarrow> bool"
  for entries :: "user_registry \<Rightarrow> (u32 \<times> u32) list" and start :: loop_state where
  loop_start: "loop_reach entries start start"
| loop_next: "loop_reach entries start lp \<Longrightarrow> input_admissible lp inp \<Longrightarrow> loop_iter entries lp inp = Some lp' \<Longrightarrow> loop_reach entries start lp'"

definition iterates_users :: "(user_registry \<Rightarrow> (u32 \<times> u32) list) \<Rightarrow> bool" where
  "iterates_users entries \<longleftrightarrow> (\<forall>u. users_ok u \<longrightarrow> entries_of (ur_map u) (entries u))"

lemma checkpoint_total:
  assumes "engine_inv n0 (lp_engine lp) Q F" "iterates_users entries"
  shows "\<exists>cks d s. loop_checkpoint entries lp inp = Some (lp\<lparr>lp_checkpoints := cks, lp_checkpoint_due := d, lp_last_snapshot := s\<rparr>)"
proof (cases "lp_checkpoint_due lp \<or> (in_clock inp - lp_last_snapshot lp) div 1000000000 \<ge> 10")
  case True
  let ?b = "en_book (lp_engine lp)"
  have w: "wf ?b Q F" using assms(1) book_invD(5) by (auto simp: engine_inv_def)
  have "\<exists>r. capture ?b (entries (ob_users ?b)) = Some r"
  proof (cases "ob_state ?b")
    case Normal
    then show ?thesis using capture_ok [OF w] assms(2) wfD(4) [OF w] by (auto simp: iterates_users_def users_rel_def)
  next
    case Migrating
    then show ?thesis by (simp add: capture_def)
  qed
  then obtain r where "checkpoint_capture ?b (entries (ob_users ?b)) (last_seq (lp_engine lp)) = Some r"
    by (fastforce simp: checkpoint_capture_def and_then_def split: sum.splits)
  then show ?thesis using True by (auto simp: loop_checkpoint_def)
next
  case False
  then have "loop_checkpoint entries lp inp = Some (lp\<lparr>lp_checkpoints := lp_checkpoints lp, lp_checkpoint_due := lp_checkpoint_due lp,
    lp_last_snapshot := lp_last_snapshot lp\<rparr>)" by (simp add: loop_checkpoint_def)
  then show ?thesis by blast
qed

lemma loop_handle_inv:
  assumes "engine_inv n0 e Q F" "\<forall>msg. in_recv inp = RecvOrder msg \<longrightarrow> order_admissible e msg"
  shows "\<exists>e' Q' F'. loop_handle e inp = Some e' \<and> engine_inv n0 e' Q' F' \<and> dd_now (en_dedup e') = dd_now (en_dedup e)"
proof (cases "in_recv inp")
  case (RecvOrder msg)
  then show ?thesis using order_step [OF assms(1), of msg "in_times inp"] assms(2) order_step_dedup by (simp add: loop_handle_def) blast
next
  case (RecvCancel u hi lo)
  then show ?thesis using cancel_step [OF assms(1), of u hi lo "in_times inp"] by (simp add: loop_handle_def) metis
qed (use assms(1) in \<open>auto simp: loop_handle_def\<close>)

lemma refresh_inv:
  "engine_inv n0 e Q F \<Longrightarrow> dd_now (en_dedup e) \<le> t \<Longrightarrow> engine_inv n0 (e\<lparr>en_dedup := refresh_clock (en_dedup e) t\<rparr>) Q F"
  using dedup_refresh_ok(1) by (simp add: engine_inv_def log_ok_def)

lemma cleanup_inv: "engine_inv n0 e Q F \<Longrightarrow> engine_inv n0 (e\<lparr>en_dedup := maybe_cleanup (en_dedup e)\<rparr>) Q F"
  using cleanup_ok(1) by (simp add: engine_inv_def log_ok_def)

lemma loop_maintain_inv:
  assumes "engine_inv n0 (lp_engine lp) Q F"
  shows "\<exists>lp'. loop_maintain lp inp = Some lp' \<and> engine_inv n0 (lp_engine lp') Q F \<and> ob_config (en_book (lp_engine lp')) = ob_config (en_book (lp_engine lp))"
proof (cases "in_recv inp = RecvIdle \<and> (in_clock inp - lp_last_user_maintenance lp) div 1000000 \<ge> 1")
  case True
  have "book_inv (en_book (lp_engine lp)) (en_order_index (lp_engine lp)) Q F" using assms by (simp add: engine_inv_def)
  from maintain_inv [OF this, of "in_now_ns inp" False] obtain r b' where m: "maintain_users (en_book (lp_engine lp)) (in_now_ns inp) False = Some (r, b')"
    "book_inv b' (en_order_index (lp_engine lp)) Q F" "ob_config b' = ob_config (en_book (lp_engine lp))" by blast
  show ?thesis using True m assms by (simp add: loop_maintain_def engine_inv_def log_ok_def)
next
  case False
  then have "loop_maintain lp inp = Some lp" by (auto simp: loop_maintain_def)
  then show ?thesis using assms by simp
qed

lemma handle_config:
  assumes inv: "engine_inv n0 e Q F" and adm: "\<forall>msg. in_recv inp = RecvOrder msg \<longrightarrow> order_admissible e msg" and r: "loop_handle e inp = Some e'"
  shows "bc_tick_size (ob_config (en_book e')) = bc_tick_size (ob_config (en_book e))"
proof (cases "in_recv inp")
  case (RecvOrder msg)
  then show ?thesis using order_step [OF inv, of msg "in_times inp"] adm r by (auto simp: loop_handle_def)
next
  case (RecvCancel u hi lo)
  show ?thesis
  proof (cases "en_order_index e (u, hi, lo)")
    case None
    then show ?thesis using r RecvCancel cancel_absent by (simp add: loop_handle_def)
  next
    case (Some h)
    have bi: "book_inv (en_book e) (en_order_index e) Q F" using inv by (simp add: engine_inv_def)
    then have "h \<in> queued Q" using index_exact_iff [OF book_invD(2) [OF bi], of "(u, hi, lo)" h] Some by simp
    then obtain t where t: "h \<in> set (Q t)" by (auto simp: queued_def)
    show ?thesis using cancel_found [OF inv Some t, of "in_times inp"] r RecvCancel by (auto simp: loop_handle_def)
  qed
qed (use r in \<open>auto simp: loop_handle_def\<close>)

lemma loop_iter_inv:
  assumes inv: "engine_inv n0 (lp_engine lp) Q F" and adm: "input_admissible lp inp" and it: "iterates_users entries"
  shows "\<exists>lp' Q' F'. loop_iter entries lp inp = Some lp' \<and> engine_inv n0 (lp_engine lp') Q' F'"
proof -
  let ?e0 = "(lp_engine lp)\<lparr>en_dedup := refresh_clock (en_dedup (lp_engine lp)) (in_clock inp)\<rparr>"
  have A: "dd_now (en_dedup (lp_engine lp)) \<le> in_clock inp" "\<forall>msg. in_recv inp = RecvOrder msg \<longrightarrow> order_admissible ?e0 msg"
    "\<forall>(cfg, ts)\<in>set (in_due inp). sc_tick_size (sch_config cfg) = bc_tick_size (ob_config (en_book (lp_engine lp))) \<and> 0 < sc_lot_size (sch_config cfg)"
    using adm by (simp_all add: input_admissible_def)
  have i0: "engine_inv n0 ?e0 Q F" by (rule refresh_inv [OF inv A(1)])
  show ?thesis
  proof (cases "in_recv inp = RecvFaulted")
    case True
    then show ?thesis using i0 by (intro exI [of _ "lp\<lparr>lp_engine := ?e0\<rparr>"]) (auto simp: loop_iter_def Let_def)
  next
    case False
    obtain e1 Q1 F1 where e1: "loop_handle ?e0 inp = Some e1" "engine_inv n0 e1 Q1 F1" using loop_handle_inv [OF i0 A(2)] by blast
    have t1: "bc_tick_size (ob_config (en_book e1)) = bc_tick_size (ob_config (en_book (lp_engine lp)))" using handle_config [OF i0 A(2) e1(1)] by simp
    have "engine_inv n0 (lp_engine (lp\<lparr>lp_engine := e1\<rparr>)) Q1 F1" using e1(2) by simp
    from loop_maintain_inv [OF this, of inp] obtain lp1 where lp1: "loop_maintain (lp\<lparr>lp_engine := e1\<rparr>) inp = Some lp1" "engine_inv n0 (lp_engine lp1) Q1 F1"
      "ob_config (en_book (lp_engine lp1)) = ob_config (en_book e1)" by auto
    let ?e2 = "(lp_engine lp1)\<lparr>en_dedup := maybe_cleanup (en_dedup (lp_engine lp1))\<rparr>"
    obtain e3 ap where ap: "apply_due_configs (in_due inp) ?e2 None = (e3, ap)" by fastforce
    have "engine_inv n0 ?e2 Q1 F1" by (rule cleanup_inv [OF lp1(2)])
    from apply_configs_inv [OF this, of "in_due inp" None] A(3) t1 lp1(3) ap have i3: "engine_inv n0 e3 Q1 F1" by simp
    let ?lp2 = "lp1\<lparr>lp_engine := e3, lp_checkpoint_due := lp_checkpoint_due lp1 \<or> ap \<noteq> None\<rparr>"
    have "engine_inv n0 (lp_engine ?lp2) Q1 F1" using i3 by simp
    from checkpoint_total [OF this it, of inp] obtain cks d s where
      ck: "loop_checkpoint entries ?lp2 inp = Some (?lp2\<lparr>lp_checkpoints := cks, lp_checkpoint_due := d, lp_last_snapshot := s\<rparr>)" by blast
    have "loop_iter entries lp inp = Some (?lp2\<lparr>lp_checkpoints := cks, lp_checkpoint_due := d, lp_last_snapshot := s\<rparr>)"
      using False e1(1) lp1(1) ap ck by (simp add: loop_iter_def Let_def)
    then show ?thesis using i3 by (intro exI [of _ "?lp2\<lparr>lp_checkpoints := cks, lp_checkpoint_due := d, lp_last_snapshot := s\<rparr>"] exI [of _ Q1] exI [of _ F1]) simp
  qed
qed

lemma loop_reach_inv:
  assumes "loop_reach entries start lp" "engine_inv n0 (lp_engine start) Q0 F0" "iterates_users entries"
  shows "\<exists>Q F. engine_inv n0 (lp_engine lp) Q F"
  using assms
proof induction
  case (loop_next lp inp lp')
  then obtain Q F where "engine_inv n0 (lp_engine lp) Q F" by blast
  from loop_iter_inv [OF this loop_next.hyps(2) loop_next.prems(2)] loop_next.hyps(3) show ?case by auto
qed blast

section \<open>Recovery\<close>

lemma rebuild_index_exact:
  assumes rel: "book_rel b Q F {}" and ix: "index_exact b Q ix"
  shows "rebuild_order_index_from_book b = Some ix"
proof -
  let ?s = "ob_orders b"
  let ?f = "\<lambda>handle acc. do { index \<leftarrow> acc; slot \<leftarrow> slab_get ?s handle;
       Some (if is_active slot then index((os_user_id slot, os_order_id_hi slot, os_order_id_lo slot) \<mapsto> handle) else index) }"
  have sb: "bump_next ?s \<le> length (slots ?s)" using book_relD(1) [OF rel] by (simp add: slab_rel_def)
  have act: "is_active (ord b h) \<longleftrightarrow> h \<in> queued Q" if "h < length (slots ?s)" for h
    using book_relD(11,18) [OF rel, of h] that by (auto simp: queued_def slot_ok_def)
  define part where "part n = (\<lambda>k. case ix k of Some h \<Rightarrow> if h < n then Some h else None | None \<Rightarrow> None)" for n :: nat
  have "fold ?f [0..<n] (Some Map.empty) = Some (part n)" if "n \<le> bump_next ?s" for n
    using that
  proof (induction n)
    case 0
    then show ?case by (auto simp: part_def fun_eq_iff split: option.split)
  next
    case (Suc n)
    have n: "n < length (slots ?s)" using Suc.prems sb by simp
    have "part (Suc n) = (if is_active (ord b n) then (part n)(key_of (ord b n) \<mapsto> n) else part n)"
    proof
      fix k
      have i: "ix k = Some h \<longleftrightarrow> h \<in> queued Q \<and> key_of (ord b h) = k" for h by (rule index_exact_iff [OF ix])
      show "part (Suc n) k = (if is_active (ord b n) then (part n)(key_of (ord b n) \<mapsto> n) else part n) k"
        using act [OF n] i [of n] by (cases "ix k") (auto simp: part_def less_Suc_eq)
    qed
    then show ?case using Suc n by (simp add: slab_get_def index_of_Some key_of_def)
  qed
  then have "rebuild_order_index_from_book b = Some (part (bump_next ?s))" by (simp add: rebuild_order_index_from_book_def slab_len_def)
  moreover have "part (bump_next ?s) = ix"
  proof
    fix k
    have "h < bump_next ?s" if "ix k = Some h" for h using index_exact_iff [OF ix, of k h] that book_relD(12) [OF rel] by auto
    then show "part (bump_next ?s) k = ix k" by (auto simp: part_def split: option.split)
  qed
  ultimately show ?thesis by simp
qed

text \<open>What replay needs of the records: the accepted orders fit the book they meet.\<close>

fun replay_admissible :: "wal_record list \<Rightarrow> orderbook \<times> (order_key \<rightharpoonup> u32) \<Rightarrow> bool" where
  "replay_admissible [] s \<longleftrightarrow> True"
| "replay_admissible (r # rs) (b, ix) \<longleftrightarrow>
     (case r of WrAccepted rec \<Rightarrow> ix (oa_user_id rec, oa_order_id_hi rec, oa_order_id_lo rec) = None \<and>
        (\<forall>Q F. good b Q F \<longrightarrow> acceptable b Q (accepted_incoming rec)) \<and> regular_mid (oa_price rec) (bc_tick_size (ob_config b)) | _ \<Rightarrow> True) \<and>
     (\<forall>s'. replay_record r (b, ix) = Some s' \<longrightarrow> replay_admissible rs s')"

lemma replay_record_inv:
  assumes inv: "book_inv b ix Q F" and adm: "replay_admissible (r # rs) (b, ix)"
  shows "\<exists>b' ix' Q' F'. replay_record r (b, ix) = Some (b', ix') \<and> book_inv b' ix' Q' F'"
proof (cases r)
  case (WrAccepted rec)
  have a: "acceptable b Q (accepted_incoming rec)" "ix (oa_user_id rec, oa_order_id_hi rec, oa_order_id_lo rec) = None"
    "regular_mid (oa_price rec) (bc_tick_size (ob_config b))" using adm book_invD(1) [OF inv] by (auto simp: WrAccepted)
  obtain b' oc' Q' F' where "process_new_order b (accepted_incoming rec) = Some (b', oc')" "book_inv b' (update_order_index (ob_event_buf b') ix) Q' F'"
    using order_book_inv [OF inv a(1)] a(2,3) by (auto simp: accepted_incoming_def)
  then show ?thesis by (auto simp: WrAccepted)
next
  case (WrCancelled rec)
  let ?k = "(oc_user_id rec, oc_order_id_hi rec, oc_order_id_lo rec)"
  show ?thesis
  proof (cases "ix ?k")
    case None
    then show ?thesis using inv by (auto simp: WrCancelled)
  next
    case (Some h)
    then have h: "h \<in> queued Q" "key_of (ord b h) = ?k" using index_exact_iff [OF book_invD(2) [OF inv], of ?k h] by simp_all
    then obtain t where t: "h \<in> set (Q t)" by (auto simp: queued_def)
    obtain b' F' where "cancel_order b h = Some (True, b')" "book_inv b' (ix(?k := None)) (Q(t := remove1 h (Q t))) F'"
      using cancel_inv [OF inv t] h(2) by auto
    then show ?thesis using Some by (auto simp: WrCancelled Let_def)
  qed
qed (use inv in auto)

lemma replay_inv:
  assumes "book_inv b ix Q F" "replay_admissible rs (b, ix)"
  shows "\<exists>b' ix' Q' F'. replay_wal_after_snapshot rs n (b, ix) = Some (fold (\<lambda>r m. max m (record_seq r)) rs n, b', ix') \<and> book_inv b' ix' Q' F'"
  using assms
proof (induction rs arbitrary: b ix Q F n)
  case (Cons r rs)
  obtain b1 ix1 Q1 F1 where 1: "replay_record r (b, ix) = Some (b1, ix1)" "book_inv b1 ix1 Q1 F1" using replay_record_inv [OF Cons.prems] by blast
  have "replay_admissible rs (b1, ix1)" using Cons.prems(2) 1(1) by simp
  from Cons.IH [OF 1(2) this, of "max n (record_seq r)"] 1(1) show ?case by simp
qed auto

subsection \<open>The duplicate window\<close>

text \<open>The accepted records of the log, oldest first and none from the future.\<close>

fun accepted_times :: "wal_record list \<Rightarrow> u64 list" where
  "accepted_times [] = []"
| "accepted_times (WrAccepted rec # rs) = oa_ts_ns rec # accepted_times rs"
| "accepted_times (r # rs) = accepted_times rs"

lemma accepted_times_mem: "WrAccepted rec \<in> set rs \<Longrightarrow> oa_ts_ns rec \<in> set (accepted_times rs)"
  by (induction rs rule: accepted_times.induct) auto

lemma rebuild_dedup_ok:
  assumes "dedup_ok d" "sorted (accepted_times rs)" "\<forall>t\<in>set (accepted_times rs). t \<le> now \<and> now - t \<le> instant"
    "\<forall>x\<in>set (dd_pruning_queue d). \<forall>t\<in>set (accepted_times rs). snd x + (now - t) \<le> instant" "dd_now d = instant"
  shows "dedup_ok (rebuild_dedup_window rs instant now d)" "dd_now (rebuild_dedup_window rs instant now d) = instant"
    "stamp d k \<noteq> None \<Longrightarrow> stamp (rebuild_dedup_window rs instant now d) k \<noteq> None"
    "WrAccepted rec \<in> set rs \<Longrightarrow> now - oa_ts_ns rec < DEDUP_WINDOW \<Longrightarrow>
      stamp (rebuild_dedup_window rs instant now d) (oa_user_id rec, oa_order_id_hi rec, oa_order_id_lo rec) \<noteq> None"
proof -
  have "dedup_ok (rebuild_dedup_window rs instant now d) \<and> dd_now (rebuild_dedup_window rs instant now d) = instant \<and>
    (\<forall>k. stamp d k \<noteq> None \<longrightarrow> stamp (rebuild_dedup_window rs instant now d) k \<noteq> None) \<and>
    (\<forall>rec. WrAccepted rec \<in> set rs \<longrightarrow> now - oa_ts_ns rec < DEDUP_WINDOW \<longrightarrow>
      stamp (rebuild_dedup_window rs instant now d) (oa_user_id rec, oa_order_id_hi rec, oa_order_id_lo rec) \<noteq> None)"
    using assms
  proof (induction rs instant now d rule: rebuild_dedup_window.induct)
    case (2 rec rs instant now d)
    let ?ago = "now - oa_ts_ns rec"
    let ?d = "seed d instant (oa_user_id rec) (oa_order_id_hi rec) (oa_order_id_lo rec) ?ago"
    have late: "\<forall>x\<in>set (dd_pruning_queue d). snd x + ?ago \<le> instant" "?ago \<le> instant" "instant \<le> dd_now d + ?ago" using 2(3-6) by auto
    note S = seed_ok [OF 2(2) late, of "oa_user_id rec" "oa_order_id_hi rec" "oa_order_id_lo rec"]
    have nw: "dd_now ?d = instant" using 2(6) by (simp add: seed_def Let_def)
    have qd: "\<forall>x\<in>set (dd_pruning_queue ?d). x \<in> set (dd_pruning_queue d) \<or> snd x = instant - ?ago"
      using late(2) by (auto simp: seed_def Let_def)
    have "\<forall>x\<in>set (dd_pruning_queue ?d). \<forall>t\<in>set (accepted_times rs). snd x + (now - t) \<le> instant"
    proof (intro ballI)
      fix x t assume x: "x \<in> set (dd_pruning_queue ?d)" and t: "t \<in> set (accepted_times rs)"
      have "now - t \<le> ?ago" using 2(3) t by auto
      then show "snd x + (now - t) \<le> instant" using qd x t 2(5) late(2) by fastforce
    qed
    from 2(1) [OF S(1) _ _ this nw] 2(3,4) have IH: "dedup_ok (rebuild_dedup_window rs instant now ?d)" "dd_now (rebuild_dedup_window rs instant now ?d) = instant"
      "\<And>k. stamp ?d k \<noteq> None \<Longrightarrow> stamp (rebuild_dedup_window rs instant now ?d) k \<noteq> None"
      "\<And>rec. WrAccepted rec \<in> set rs \<Longrightarrow> now - oa_ts_ns rec < DEDUP_WINDOW \<Longrightarrow>
        stamp (rebuild_dedup_window rs instant now ?d) (oa_user_id rec, oa_order_id_hi rec, oa_order_id_lo rec) \<noteq> None" by auto
    have keep: "stamp d k \<noteq> None \<Longrightarrow> stamp ?d k \<noteq> None" for k using S(2) [of k] by auto
    have self: "?ago < DEDUP_WINDOW \<Longrightarrow> stamp ?d (oa_user_id rec, oa_order_id_hi rec, oa_order_id_lo rec) \<noteq> None" using S(2) by auto
    show ?case using IH keep self by auto
  qed auto
  then show "dedup_ok (rebuild_dedup_window rs instant now d)" "dd_now (rebuild_dedup_window rs instant now d) = instant"
    "stamp d k \<noteq> None \<Longrightarrow> stamp (rebuild_dedup_window rs instant now d) k \<noteq> None"
    "WrAccepted rec \<in> set rs \<Longrightarrow> now - oa_ts_ns rec < DEDUP_WINDOW \<Longrightarrow>
      stamp (rebuild_dedup_window rs instant now d) (oa_user_id rec, oa_order_id_hi rec, oa_order_id_lo rec) \<noteq> None" by blast+
qed

lemma fold_max_bounds: "n \<le> fold (\<lambda>r m. max m (record_seq r)) rs n" "r \<in> set rs \<Longrightarrow> record_seq r \<le> fold (\<lambda>r m. max m (record_seq r)) rs n"
proof -
  show m: "n \<le> fold (\<lambda>r m. max m (record_seq r)) rs n" for rs n
    by (induction rs arbitrary: n) (auto intro: order_trans [OF max.cobounded1])
  show "r \<in> set rs \<Longrightarrow> record_seq r \<le> fold (\<lambda>r m. max m (record_seq r)) rs n"
    by (induction rs arbitrary: n) (auto intro: order_trans [OF max.cobounded2 m])
qed


section \<open>A concrete engine\<close>

text \<open>The book of \<open>demo_asks\<close>, with the sell order of user 1 (ids 0 and 7) resting, in an engine; and a clean boot.\<close>

lemma demo_asks_inv: "\<exists>Q F h. book_inv demo_asks [(1, 0, 7) \<mapsto> h] Q F \<and> queued Q = {h}"
proof -
  obtain Q F h where d: "good demo_asks Q F" "queued Q = {h}" "rem demo_asks h = 10" "os_price (ord demo_asks h) = 5010" "os_user_id (ord demo_asks h) = 1"
    "ob_config demo_asks = ob_config demo_book" "os_order_id_hi (ord demo_asks h) = 0" "os_order_id_lo (ord demo_asks h) = 7" using demo_asks_good by blast
  have "index_exact demo_asks Q [(1, 0, 7) \<mapsto> h]"
    by (rule index_exactI) (use d in \<open>auto simp: key_of_def split: if_splits\<close>)
  then have "book_inv demo_asks [(1, 0, 7) \<mapsto> h] Q F"
    using d by (simp add: book_inv_def resting_qty_def prices_regular_def demo_config regular_mid_def i64_max_def)
  then show ?thesis using d(2) by blast
qed

definition demo_engine :: "u32 \<Rightarrow> engine" where
  "demo_engine h = \<lparr>en_symbol_id = 1, en_book = demo_asks, en_order_index = [(1, 0, 7) \<mapsto> h], en_dedup = dedup_new 0, en_next_seq = 1, en_log = []\<rparr>"

lemma demo_engine_inv: "book_inv demo_asks [(1, 0, 7) \<mapsto> h] Q F \<Longrightarrow> engine_inv 1 (demo_engine h) Q F"
  using dedup_new_ok [of 0] by (simp add: engine_inv_def demo_engine_def log_ok_def)

definition demo_entries :: "user_registry \<Rightarrow> (u32 \<times> u32) list" where
  "demo_entries u = map (\<lambda>i. (us_user_id (ur_states u ! i), i)) (filter (\<lambda>i. i \<notin> set (ur_free_list u)) [0..<ur_bump u])"

lemma demo_entries_iterate: "iterates_users demo_entries"
  unfolding iterates_users_def
proof (intro allI impI)
  fix u assume uo: "users_ok u"
  have m: "ur_map u k = Some i \<longleftrightarrow> i < ur_bump u \<and> i \<notin> set (ur_free_list u) \<and> us_user_id (ur_states u ! i) = k" for k i
    using uo unfolding users_ok_def by blast
  have "inj_on (\<lambda>i. us_user_id (ur_states u ! i)) {i. i < ur_bump u \<and> i \<notin> set (ur_free_list u)}"
    by (rule inj_onI) (metis (mono_tags, lifting) m mem_Collect_eq option.inject)
  then have "distinct (map fst (demo_entries u))" by (simp add: demo_entries_def distinct_map comp_def)
  moreover have "(k, i) \<in> set (demo_entries u) \<longleftrightarrow> ur_map u k = Some i" for k i using m [of k i] by (auto simp: demo_entries_def)
  ultimately show "entries_of (ur_map u) (demo_entries u)" by (simp add: entries_of_def)
qed

section \<open>A finer tick under the same map\<close>

text \<open>\<open>apply_due_configs\<close> replaces the book's configuration and leaves its compression map as it was built. When the new tick is
  smaller than the map's, two prices the new configuration accepts share a slot of zone 0, which the book treats as one price: after the
  change, bids at 50010 and at 50015 are in one level of zone 0.\<close>

theorem finer_tick_shares_slot:
  "\<exists>b c. orderbook_new \<lparr>bc_symbol_id = 1, bc_tick_size = 10, bc_lot_size = 1\<rparr> 16 BOOK_INITIAL_MID_PRICE = Some b \<and>
    c = update_config b \<lparr>bc_symbol_id = 1, bc_tick_size = 1, bc_lot_size = 1\<rparr> \<and>
    (50010::int) smod bc_tick_size (ob_config c) = 0 \<and> (50015::int) smod bc_tick_size (ob_config c) = 0 \<and>
    price_to_index (ob_compression c) 50010 = Some 251 \<and> price_to_index (ob_compression c) 50015 = Some 251 \<and>
    251 < cp_zone_slots (ob_compression c) ! 0"
proof -
  let ?c = "the (compression_new 50000 10)"
  have "compression_new 50000 10 = Some ?c \<and> price_to_index ?c 50010 = Some 251 \<and> price_to_index ?c 50015 = Some 251 \<and> 251 < cp_zone_slots ?c ! 0"
    by code_simp
  then obtain c where "compression_new 50000 10 = Some c" "price_to_index c 50010 = Some 251" "price_to_index c 50015 = Some 251" "251 < cp_zone_slots c ! 0" by blast
  then show ?thesis by (simp add: orderbook_new_def BOOK_INITIAL_MID_PRICE_def Let_def update_config_def smod_zero_dvd)
qed

section \<open>Properties\<close>




definition demo_loop :: "u32 \<Rightarrow> loop_state" where
  "demo_loop h = \<lparr>lp_engine = demo_engine h, lp_last_user_maintenance = 0, lp_last_snapshot = 0, lp_checkpoint_due = False, lp_checkpoints = []\<rparr>"

definition demo_input :: loop_input where
  "demo_input = \<lparr>in_clock = 20000000000, in_recv = RecvCancel 1 0 7, in_times = (\<lambda>_. 0), in_now_ns = 0, in_due = [], in_writer_free = True\<rparr>"



definition demo_accepted :: order_accepted_record where
  "demo_accepted = \<lparr>oa_seq = 1, oa_ts_ns = 5, oa_user_id = 1, oa_symbol_id = 1, oa_order_id_hi = 0, oa_order_id_lo = 7, oa_price = 5010, oa_qty = 10,
     oa_side = 1, oa_tif = 0, oa_reduce_only = 0, oa_post_only = 0\<rparr>"



end
