(* ===== verification/Wire_Frame.thy ===== *)
theory Wire_Frame
  imports Le_Bytes
begin

text \<open>
  Frames of \<open>rsx-cast\<close>: the 16-byte header (\<open>header.rs\<close>), the codec helpers (\<open>encode_utils.rs\<close>) and the record structs of the
  transport (\<open>records.rs\<close>). The checksum CRC32C is a parameter \<open>crc\<close>: a function from byte strings to 32-bit numbers. A payload is the
  bytes of a \<open>repr(C)\<close> struct, of which the transport reads the sequence number in its first eight bytes.
\<close>

section \<open>The header\<close>

record wal_header =
  wh_version :: u8
  wh_pad0 :: u8
  wh_record_type :: nat
  wh_len :: nat
  wh_pad1 :: nat
  wh_crc32 :: u32
  wh_reserved :: "u8 list"

definition WAL_V1 :: u8 where "WAL_V1 = 1"
definition HEADER_SIZE :: nat where "HEADER_SIZE = 16"

definition wal_version_try_from :: "u8 \<Rightarrow> bool" where "wal_version_try_from v \<longleftrightarrow> v = WAL_V1"

definition header_new :: "nat \<Rightarrow> nat \<Rightarrow> u32 \<Rightarrow> wal_header" where
  "header_new record_type len crc32 = \<lparr>wh_version = WAL_V1, wh_pad0 = 0, wh_record_type = record_type, wh_len = len, wh_pad1 = 0,
     wh_crc32 = crc32, wh_reserved = [0, 0, 0, 0]\<rparr>"

definition header_to_bytes :: "wal_header \<Rightarrow> u8 list" where
  "header_to_bytes h = [wh_version h, wh_pad0 h] @ to_le_bytes 2 (wh_record_type h) @ to_le_bytes 2 (wh_len h) @ to_le_bytes 2 (wh_pad1 h) @
     to_le_bytes 4 (wh_crc32 h) @ wh_reserved h"

text \<open>\<open>read_unaligned\<close> of the 16 bytes: each field from its offset in the \<open>repr(C)\<close> layout.\<close>

definition header_from_bytes :: "u8 list \<Rightarrow> wal_header option" where
  "header_from_bytes buf =
     (if length buf < HEADER_SIZE then None
      else if \<not> wal_version_try_from (buf ! 0) then None
      else Some \<lparr>wh_version = buf ! 0, wh_pad0 = buf ! 1, wh_record_type = from_le_bytes (take 2 (drop 2 buf)),
        wh_len = from_le_bytes (take 2 (drop 4 buf)), wh_pad1 = from_le_bytes (take 2 (drop 6 buf)),
        wh_crc32 = from_le_bytes (take 4 (drop 8 buf)), wh_reserved = take 4 (drop 12 buf)\<rparr>)"

section \<open>Frames\<close>

type_synonym crc_fun = "u8 list \<Rightarrow> u32"

definition encode_record :: "crc_fun \<Rightarrow> nat \<Rightarrow> u8 list \<Rightarrow> u8 list" where
  "encode_record crc record_type payload =
     header_to_bytes (header_new record_type (length payload mod 65536) (crc payload)) @ payload"

definition extract_seq :: "u8 list \<Rightarrow> u64 option" where
  "extract_seq payload = (if length payload < 8 then None else Some (from_le_bytes (take 8 payload)))"

text \<open>\<open>decode_payload\<close> of a struct of \<open>n\<close> bytes: the bytes that are read.\<close>

definition decode_payload :: "nat \<Rightarrow> u8 list \<Rightarrow> u8 list option" where
  "decode_payload n payload = (if length payload < n then None else Some (take n payload))"

definition FRAMED_WIRE_BYTES :: nat where "FRAMED_WIRE_BYTES = 256"

text \<open>A framed record: \<open>wire[..total]\<close> and its number. \<open>set_seq\<close> writes the number into the first eight bytes of the record.\<close>

record framed =
  fr_wire :: "u8 list"
  fr_seq :: u64

definition write_seq :: "u64 \<Rightarrow> u8 list \<Rightarrow> u8 list" where
  "write_seq seq rec = to_le_bytes 8 seq @ drop 8 rec"

definition pack :: "crc_fun \<Rightarrow> nat \<Rightarrow> u8 list \<Rightarrow> u64 \<Rightarrow> framed option" where
  "pack crc record_type rec seq = do {
     assert_that (HEADER_SIZE + length rec \<le> FRAMED_WIRE_BYTES);
     let payload = write_seq seq rec;
     Some \<lparr>fr_wire = header_to_bytes (header_new record_type (length rec mod 65536) (crc payload)) @ payload, fr_seq = seq\<rparr>
   }"

definition RECORD_CAUGHT_UP :: nat where "RECORD_CAUGHT_UP = 6"
definition RECORD_HEARTBEAT :: nat where "RECORD_HEARTBEAT = 18"
definition RECORD_NAK :: nat where "RECORD_NAK = 17"

record nak =
  nk_from_seq :: u64
  nk_count :: u64

definition nak_bytes :: "nak \<Rightarrow> u8 list" where
  "nak_bytes n = to_le_bytes 8 (nk_from_seq n) @ to_le_bytes 8 (nk_count n) @ replicate 48 0"

definition nak_decode :: "u8 list \<Rightarrow> nak option" where
  "nak_decode payload = do {
     bs \<leftarrow> decode_payload 64 payload;
     Some \<lparr>nk_from_seq = from_le_bytes (take 8 bs), nk_count = from_le_bytes (take 8 (drop 8 bs))\<rparr>
   }"

definition heartbeat_bytes :: "u64 \<Rightarrow> u8 list" where
  "heartbeat_bytes highest_seq = to_le_bytes 8 highest_seq @ replicate 56 0"

definition heartbeat_decode :: "u8 list \<Rightarrow> u64 option" where
  "heartbeat_decode payload = do { bs \<leftarrow> decode_payload 64 payload; Some (from_le_bytes (take 8 bs)) }"

section \<open>Round trips\<close>

definition header_ok :: "wal_header \<Rightarrow> bool" where
  "header_ok h \<longleftrightarrow> wh_version h = WAL_V1 \<and> wh_record_type h < 65536 \<and> wh_len h < 65536 \<and> wh_pad1 h < 65536 \<and> wh_crc32 h < 4294967296 \<and>
     length (wh_reserved h) = 4"

lemma length_header_to_bytes: "length (wh_reserved h) = 4 \<Longrightarrow> length (header_to_bytes h) = 16"
  by (simp add: header_to_bytes_def)

lemma header_roundtrip:
  assumes "header_ok h"
  shows "header_from_bytes (header_to_bytes h @ rest) = Some h"
proof -
  have le: "from_le_bytes (to_le_bytes 2 x) = x" if "x < 65536" for x using from_to_le [of x 2] that by simp
  have le4: "from_le_bytes (to_le_bytes 4 x) = x" if "x < 4294967296" for x using from_to_le [of x 4] that by simp
  show ?thesis using assms le le4
    by (cases h) (simp add: header_ok_def header_from_bytes_def header_to_bytes_def HEADER_SIZE_def wal_version_try_from_def WAL_V1_def)
qed

lemma header_new_ok: "t < 65536 \<Longrightarrow> n < 65536 \<Longrightarrow> c < 4294967296 \<Longrightarrow> header_ok (header_new t n c)"
  by (simp add: header_ok_def header_new_def)

lemma header_new_sel [simp]:
  "wh_len (header_new t n c) = n" "wh_crc32 (header_new t n c) = c" "wh_record_type (header_new t n c) = t"
  "length (wh_reserved (header_new t n c)) = 4"
  by (simp_all add: header_new_def)

text \<open>A record as the transport carries it: its type and its payload, which starts with its sequence number.\<close>

type_synonym message = "nat \<times> u8 list"

definition message_ok :: "message \<Rightarrow> bool" where
  "message_ok m \<longleftrightarrow> fst m < 65536 \<and> 8 \<le> length (snd m) \<and> length (snd m) \<le> 240 \<and> bytes (snd m)"

abbreviation frame_of :: "crc_fun \<Rightarrow> message \<Rightarrow> u8 list" where
  "frame_of crc m \<equiv> encode_record crc (fst m) (snd m)"

abbreviation seq_of :: "message \<Rightarrow> u64" where
  "seq_of m \<equiv> from_le_bytes (take 8 (snd m))"

definition crc_u32 :: "crc_fun \<Rightarrow> bool" where
  "crc_u32 crc \<longleftrightarrow> (\<forall>bs. crc bs < 4294967296)"

lemma message_len: "message_ok m \<Longrightarrow> length (snd m) < 65536"
  by (simp add: message_ok_def)

lemma length_frame_of: "message_ok m \<Longrightarrow> length (frame_of crc m) = 16 + length (snd m)"
  by (simp add: encode_record_def length_header_to_bytes)

lemma frame_header:
  assumes "message_ok m" "crc_u32 crc"
  shows "header_from_bytes (take 16 (frame_of crc m @ rest)) = Some (header_new (fst m) (length (snd m)) (crc (snd m)))"
proof -
  let ?h = "header_new (fst m) (length (snd m)) (crc (snd m))"
  have "header_ok ?h" using assms by (simp add: header_new_ok message_ok_def crc_u32_def)
  then have "header_from_bytes (header_to_bytes ?h @ []) = Some ?h" by (rule header_roundtrip)
  then show ?thesis using assms(1) by (simp add: encode_record_def length_header_to_bytes message_ok_def)
qed

lemma frame_payload: "message_ok m \<Longrightarrow> drop 16 (frame_of crc m @ rest) = snd m @ rest"
  by (simp add: encode_record_def length_header_to_bytes)

lemma extract_seq_message: "message_ok m \<Longrightarrow> extract_seq (snd m) = Some (seq_of m)"
  by (simp add: extract_seq_def message_ok_def)

text \<open>A packed record is the frame of the record with the number written into it.\<close>

definition stamped :: "nat \<Rightarrow> u8 list \<Rightarrow> u64 \<Rightarrow> message" where
  "stamped record_type rec seq = (record_type, write_seq seq rec)"

lemma stamped_ok:
  assumes "record_type < 65536" "8 \<le> length rec" "length rec \<le> 240" "bytes rec"
  shows "message_ok (stamped record_type rec seq)"
  using assms by (simp add: stamped_def message_ok_def write_seq_def bytes_sub)

lemma seq_of_stamped: "seq < 2 ^ 64 \<Longrightarrow> seq_of (stamped record_type rec seq) = seq"
  using from_to_le [of seq 8] by (simp add: stamped_def write_seq_def)

lemma pack_frame:
  assumes "8 \<le> length rec" "length rec \<le> 240"
  shows "pack crc record_type rec seq = Some \<lparr>fr_wire = frame_of crc (stamped record_type rec seq), fr_seq = seq\<rparr>"
  using assms by (simp add: pack_def stamped_def encode_record_def write_seq_def HEADER_SIZE_def FRAMED_WIRE_BYTES_def Let_def)

lemma pack_too_large: "240 < length rec \<Longrightarrow> pack crc record_type rec seq = None"
  by (simp add: pack_def HEADER_SIZE_def FRAMED_WIRE_BYTES_def assert_that_def)

lemma nak_roundtrip: "nk_from_seq n < 2 ^ 64 \<Longrightarrow> nk_count n < 2 ^ 64 \<Longrightarrow> nak_decode (nak_bytes n) = Some n"
  using from_to_le [of "nk_from_seq n" 8] from_to_le [of "nk_count n" 8]
  by (simp add: nak_decode_def nak_bytes_def decode_payload_def)

lemma heartbeat_roundtrip: "s < 2 ^ 64 \<Longrightarrow> heartbeat_decode (heartbeat_bytes s) = Some s"
  using from_to_le [of s 8] by (simp add: heartbeat_decode_def heartbeat_bytes_def decode_payload_def)

end
