(* ===== verification/Wal_Files.thy ===== *)
theory Wal_Files
  imports Wire_Frame
begin

text \<open>
  The files of the write-ahead log (\<open>rsx-cast/src/wal.rs\<close>): their names, the listing of a stream's directory, the frame reader with its
  torn-tail rule, and the sequential reader. A directory is a list of named byte strings in the order \<open>read_dir\<close> yields them. A reader
  works on the directory as it stands; what a writer appends while a reader is open is not modelled.
\<close>

section \<open>File names\<close>

type_synonym dir = "(string \<times> u8 list) list"

fun decimal_reversed :: "nat \<Rightarrow> string" where
  "decimal_reversed n = char_of (48 + n mod 10) # (if n < 10 then [] else decimal_reversed (n div 10))"

declare decimal_reversed.simps [simp del]

definition decimal :: "nat \<Rightarrow> string" where "decimal n = rev (decimal_reversed n)"

definition digit_of :: "char \<Rightarrow> nat option" where
  "digit_of c = (let k = of_char c :: nat in if 48 \<le> k \<and> k \<le> 57 then Some (k - 48) else None)"

fun parse_digits :: "nat \<Rightarrow> string \<Rightarrow> nat option" where
  "parse_digits acc [] = Some acc"
| "parse_digits acc (c # cs) = do { d \<leftarrow> digit_of c; parse_digits (10 * acc + d) cs }"

text \<open>\<open>str::parse\<close> of an unsigned integer: an optional plus sign, at least one digit, no overflow.\<close>

definition parse_uint :: "nat \<Rightarrow> string \<Rightarrow> nat option" where
  "parse_uint limit cs = do {
     let ds = (case cs of [] \<Rightarrow> [] | c # r \<Rightarrow> if c = CHR ''+'' then r else cs);
     assert_that (ds \<noteq> []);
     v \<leftarrow> parse_digits 0 ds;
     assert_that (v \<le> limit);
     Some v
   }"

fun split_on :: "char \<Rightarrow> string \<Rightarrow> string list" where
  "split_on c [] = [[]]"
| "split_on c (x # xs) = (if x = c then [] # split_on c xs else (case split_on c xs of [] \<Rightarrow> [[x]] | p # ps \<Rightarrow> (x # p) # ps))"

definition ends_with :: "string \<Rightarrow> string \<Rightarrow> bool" where
  "ends_with cs suffix \<longleftrightarrow> length suffix \<le> length cs \<and> drop (length cs - length suffix) cs = suffix"

definition strip_suffix :: "string \<Rightarrow> string \<Rightarrow> string option" where
  "strip_suffix cs suffix = (if ends_with cs suffix then Some (take (length cs - length suffix) cs) else None)"

definition active_filename :: "u32 \<Rightarrow> string" where
  "active_filename stream_id = decimal stream_id @ ''_active.wal''"

definition segment_filename :: "u32 \<Rightarrow> u64 \<Rightarrow> u64 \<Rightarrow> string" where
  "segment_filename stream_id first_seq last_seq =
     decimal stream_id @ ''_'' @ decimal first_seq @ ''_'' @ decimal last_seq @ ''.wal''"

record wal_file_info =
  wf_path :: string
  wf_stream_id :: u32
  wf_first_seq :: u64
  wf_last_seq :: u64
  wf_is_active :: bool

definition parse_wal_filename :: "string \<Rightarrow> wal_file_info option" where
  "parse_wal_filename name = do {
     stem \<leftarrow> strip_suffix name ''.wal'';
     let parts = split_on (CHR ''_'') stem;
     assert_that (length parts = 3);
     stream_id \<leftarrow> parse_uint u32_max (parts ! 0);
     first_seq \<leftarrow> parse_uint u64_max (parts ! 1);
     last_seq \<leftarrow> parse_uint u64_max (parts ! 2);
     Some \<lparr>wf_path = [], wf_stream_id = stream_id, wf_first_seq = first_seq, wf_last_seq = last_seq, wf_is_active = False\<rparr>
   }"

section \<open>Listing\<close>

definition file_info :: "u32 \<Rightarrow> string \<Rightarrow> wal_file_info option" where
  "file_info stream_id name =
     (if ends_with name ''_active.wal'' then
        Some \<lparr>wf_path = name, wf_stream_id = stream_id, wf_first_seq = u64_max, wf_last_seq = u64_max, wf_is_active = True\<rparr>
      else case parse_wal_filename name of
        Some info \<Rightarrow> if wf_stream_id info = stream_id then Some (info\<lparr>wf_path := name\<rparr>) else None
      | None \<Rightarrow> None)"

definition list_wal_files :: "u32 \<Rightarrow> dir \<Rightarrow> wal_file_info list" where
  "list_wal_files stream_id d = List.map_filter (\<lambda>(name, content). file_info stream_id name) d"

definition list_wal_files_across :: "u32 \<Rightarrow> dir list \<Rightarrow> wal_file_info list" where
  "list_wal_files_across stream_id dirs = sort_key wf_first_seq (concat (map (list_wal_files stream_id) dirs))"

definition covers :: "wal_file_info \<Rightarrow> u64 \<Rightarrow> bool" where
  "covers f target_seq \<longleftrightarrow> \<not> wf_is_active f \<and> wf_first_seq f \<le> target_seq \<and> target_seq \<le> wf_last_seq f"

text \<open>The loop of \<open>pick_start_idx\<close>: \<open>i\<close> is the index of the head, \<open>idx\<close> the last index seen.\<close>

fun pick_idx :: "nat \<Rightarrow> nat \<Rightarrow> wal_file_info list \<Rightarrow> u64 \<Rightarrow> nat" where
  "pick_idx i idx [] target_seq = idx"
| "pick_idx i idx (f # fs) target_seq = (if covers f target_seq then i else pick_idx (Suc i) i fs target_seq)"

definition pick_start_idx :: "wal_file_info list \<Rightarrow> u64 \<Rightarrow> nat" where
  "pick_start_idx files target_seq = (if files = [] \<or> target_seq = 0 then 0 else pick_idx 0 0 files target_seq)"

section \<open>Frames of a file\<close>

record raw_wal_record =
  rw_header :: wal_header
  rw_payload :: "u8 list"

datatype bad_frame = PartialHeader | PartialRecord | CrcMismatch

datatype frame =
    FRecord raw_wal_record
  | FEnd
  | FBad bad_frame u64

datatype wal_error =
    MalformedHeader
  | CorruptRecord bad_frame
  | WouldBlock
  | NotFound
  | IoFailed

text \<open>\<open>read_frame\<close> at \<open>offset\<close>, which is also the position of the data handle.\<close>

definition read_frame :: "crc_fun \<Rightarrow> u8 list \<Rightarrow> u64 \<Rightarrow> wal_error + frame" where
  "read_frame crc data offset =
     (let rest = drop offset data in
      if length rest < HEADER_SIZE then Inr (if length data = offset then FEnd else FBad PartialHeader u64_max)
      else case header_from_bytes (take HEADER_SIZE rest) of
        None \<Rightarrow> Inl MalformedHeader
      | Some header \<Rightarrow>
          let tail = drop HEADER_SIZE rest; payload = take (wh_len header) tail in
          if length tail < wh_len header then Inr (FBad PartialRecord u64_max)
          else if crc payload \<noteq> wh_crc32 header then Inr (FBad CrcMismatch (offset + (HEADER_SIZE + length payload)))
          else Inr (FRecord \<lparr>rw_header = header, rw_payload = payload\<rparr>))"

definition is_torn_tail :: "u8 list \<Rightarrow> u64 \<Rightarrow> bool" where
  "is_torn_tail data end_at \<longleftrightarrow> length data \<le> end_at"

definition frame_end :: "u64 \<Rightarrow> raw_wal_record \<Rightarrow> u64" where
  "frame_end offset rec = offset + (HEADER_SIZE + length (rw_payload rec))"

lemma read_frame_FRecord:
  assumes "read_frame crc data offset = Inr (FRecord rec)"
  shows "frame_end offset rec \<le> length data" "offset < frame_end offset rec"
  using assms
  by (auto simp: read_frame_def frame_end_def HEADER_SIZE_def Let_def split: if_splits option.splits)

section \<open>Whole files\<close>

lemma read_frame_shrinks:
  "read_frame crc data offset = Inr (FRecord rec) \<Longrightarrow> length data - frame_end offset rec < length data - offset"
  using read_frame_FRecord [of crc data offset rec] by simp

function cut_from :: "crc_fun \<Rightarrow> u8 list \<Rightarrow> u64 \<Rightarrow> wal_error + u8 list" where
  "cut_from crc data offset = (case read_frame crc data offset of
     Inl e \<Rightarrow> Inl e
   | Inr (FRecord rec) \<Rightarrow> cut_from crc data (frame_end offset rec)
   | Inr FEnd \<Rightarrow> Inr data
   | Inr (FBad what end_at) \<Rightarrow> Inr (if is_torn_tail data end_at then take offset data else data))"
  by pat_completeness auto
termination
  by (relation "measure (\<lambda>(crc, data, offset). length data - offset)") (auto dest: read_frame_shrinks)

declare cut_from.simps [simp del]

definition cut_torn_tail :: "crc_fun \<Rightarrow> u8 list \<Rightarrow> wal_error + u8 list" where
  "cut_torn_tail crc data = cut_from crc data 0"

text \<open>\<open>scan_file_seq_range\<close> stops at the first frame it cannot read.\<close>

definition next_intact :: "crc_fun \<Rightarrow> u8 list \<Rightarrow> u64 \<Rightarrow> raw_wal_record option" where
  "next_intact crc data offset = (case read_frame crc data offset of Inr (FRecord rec) \<Rightarrow> Some rec | _ \<Rightarrow> None)"

lemma next_intact_Some: "next_intact crc data offset = Some rec \<longleftrightarrow> read_frame crc data offset = Inr (FRecord rec)"
  by (auto simp: next_intact_def split: sum.splits frame.splits)

definition widen :: "(u64 \<times> u64) option \<Rightarrow> u64 \<times> u64 \<Rightarrow> (u64 \<times> u64) option" where
  "widen rng new = (case rng of None \<Rightarrow> Some new | Some (lo, hi) \<Rightarrow> Some (min lo (fst new), max hi (snd new)))"

function scan_range :: "crc_fun \<Rightarrow> u8 list \<Rightarrow> u64 \<Rightarrow> (u64 \<times> u64) option \<Rightarrow> (u64 \<times> u64) option" where
  "scan_range crc data offset rng = (case next_intact crc data offset of
     None \<Rightarrow> rng
   | Some rec \<Rightarrow> scan_range crc data (frame_end offset rec)
       (case extract_seq (rw_payload rec) of Some seq \<Rightarrow> widen rng (seq, seq) | None \<Rightarrow> rng))"
  by pat_completeness auto
termination
  by (relation "measure (\<lambda>(crc, data, offset, rng). length data - offset)") (auto simp: next_intact_Some dest: read_frame_shrinks)

declare scan_range.simps [simp del]

definition scan_file_seq_range :: "crc_fun \<Rightarrow> u8 list \<Rightarrow> (u64 \<times> u64) option" where
  "scan_file_seq_range crc data = scan_range crc data 0 None"

definition open_file :: "dir \<Rightarrow> string \<Rightarrow> wal_error + u8 list" where
  "open_file d name = (case map_of d name of None \<Rightarrow> Inl NotFound | Some data \<Rightarrow> Inr data)"

fun seq_bounds :: "crc_fun \<Rightarrow> dir \<Rightarrow> wal_file_info list \<Rightarrow> (u64 \<times> u64) option \<Rightarrow> wal_error + (u64 \<times> u64) option" where
  "seq_bounds crc d [] rng = Inr rng"
| "seq_bounds crc d (f # fs) rng =
     (if wf_is_active f then (case open_file d (wf_path f) of
        Inl e \<Rightarrow> Inl e
      | Inr data \<Rightarrow> seq_bounds crc d fs (case scan_file_seq_range crc data of None \<Rightarrow> rng | Some new \<Rightarrow> widen rng new))
      else seq_bounds crc d fs (widen rng (wf_first_seq f, wf_last_seq f)))"

definition oldest_and_highest_seq :: "crc_fun \<Rightarrow> u32 \<Rightarrow> dir \<Rightarrow> wal_error + (u64 \<times> u64) option" where
  "oldest_and_highest_seq crc stream_id d = seq_bounds crc d (list_wal_files_across stream_id [d]) None"

text \<open>
  \<open>scan_file_for_seq\<close> reads one frame after the other; unlike the reader it passes over a record whose checksum is wrong.
\<close>

function scan_for_seq :: "crc_fun \<Rightarrow> u8 list \<Rightarrow> u64 \<Rightarrow> u64 \<Rightarrow> raw_wal_record option" where
  "scan_for_seq crc data target_seq offset = (case read_frame crc data offset of
     Inr (FRecord rec) \<Rightarrow> (case extract_seq (rw_payload rec) of
         Some seq \<Rightarrow> if seq = target_seq then Some rec else if seq > target_seq then None
           else scan_for_seq crc data target_seq (frame_end offset rec)
       | None \<Rightarrow> scan_for_seq crc data target_seq (frame_end offset rec))
   | Inr (FBad CrcMismatch end_at) \<Rightarrow> scan_for_seq crc data target_seq end_at
   | _ \<Rightarrow> None)"
  by pat_completeness auto
termination
proof (relation "measure (\<lambda>(crc, data, target_seq, offset). length data - offset)", goal_cases)
  case (4 crc data target_seq offset fr what end_at)
  then have "offset < end_at" "end_at \<le> length data"
    by (auto simp: read_frame_def HEADER_SIZE_def Let_def split: if_splits option.splits)
  then show ?case by simp
qed (auto dest: read_frame_shrinks)

declare scan_for_seq.simps [simp del]

definition scan_file_for_seq :: "crc_fun \<Rightarrow> u8 list \<Rightarrow> u64 \<Rightarrow> raw_wal_record option" where
  "scan_file_for_seq crc data target_seq = scan_for_seq crc data target_seq 0"

definition pick_file_for_seq :: "wal_file_info list \<Rightarrow> u64 \<Rightarrow> wal_file_info option" where
  "pick_file_for_seq files target_seq = (case List.find (\<lambda>f. covers f target_seq) files of
     Some f \<Rightarrow> Some f
   | None \<Rightarrow> List.find wf_is_active files)"

definition read_record_at_seq :: "crc_fun \<Rightarrow> u32 \<Rightarrow> u64 \<Rightarrow> dir \<Rightarrow> wal_error + raw_wal_record option" where
  "read_record_at_seq crc stream_id target_seq d =
     (case pick_file_for_seq (list_wal_files_across stream_id [d]) target_seq of
        None \<Rightarrow> Inr None
      | Some f \<Rightarrow> (case open_file d (wf_path f) of
          Inl e \<Rightarrow> Inl e
        | Inr data \<Rightarrow> Inr (scan_file_for_seq crc data target_seq)))"

section \<open>The reader\<close>

record wal_reader =
  rd_file :: "u8 list option"
  rd_files :: "wal_file_info list"
  rd_file_idx :: nat
  rd_offset :: u64
  rd_target_seq :: u64

definition open_from_seq :: "u32 \<Rightarrow> u64 \<Rightarrow> dir \<Rightarrow> wal_error + wal_reader" where
  "open_from_seq stream_id target_seq d =
     (let files = list_wal_files_across stream_id [d]; file_idx = pick_start_idx files target_seq;
          reader = (\<lambda>data. \<lparr>rd_file = data, rd_files = files, rd_file_idx = file_idx, rd_offset = 0, rd_target_seq = target_seq\<rparr>) in
      if file_idx < length files then (case open_file d (wf_path (files ! file_idx)) of
        Inl e \<Rightarrow> Inl e
      | Inr data \<Rightarrow> Inr (reader (Some data)))
      else Inr (reader None))"

definition advance_file :: "dir \<Rightarrow> wal_reader \<Rightarrow> (wal_error + bool) \<times> wal_reader" where
  "advance_file d r =
     (let r1 = r\<lparr>rd_file_idx := Suc (rd_file_idx r), rd_offset := 0, rd_target_seq := 0\<rparr> in
      if rd_file_idx r1 < length (rd_files r1) then (case open_file d (wf_path (rd_files r1 ! rd_file_idx r1)) of
        Inl e \<Rightarrow> (Inl e, r1)
      | Inr data \<Rightarrow> (Inr True, r1\<lparr>rd_file := Some data\<rparr>))
      else (Inr False, r1\<lparr>rd_file := None\<rparr>))"

definition reader_left :: "wal_reader \<Rightarrow> nat \<times> nat" where
  "reader_left r = (length (rd_files r) - rd_file_idx r, case rd_file r of None \<Rightarrow> 0 | Some data \<Rightarrow> Suc (length data - rd_offset r))"

text \<open>
  \<open>next\<close>. The handle's position is \<open>rd_offset\<close>: after a bad frame the code seeks back to it. (After a malformed header it does not; the
  callers stop at that error.)
\<close>

function wal_next :: "crc_fun \<Rightarrow> dir \<Rightarrow> wal_reader \<Rightarrow> (wal_error + raw_wal_record option) \<times> wal_reader" where
  "wal_next crc d r = (case rd_file r of
     None \<Rightarrow> (Inr None, r)
   | Some data \<Rightarrow> (case read_frame crc data (rd_offset r) of
       Inl e \<Rightarrow> (Inl e, r)
     | Inr (FRecord rec) \<Rightarrow>
         let r1 = r\<lparr>rd_offset := frame_end (rd_offset r) rec\<rparr> in
         (case extract_seq (rw_payload rec) of
            Some seq \<Rightarrow> if seq < rd_target_seq r then wal_next crc d r1 else (Inr (Some rec), r1)
          | None \<Rightarrow> (Inr (Some rec), r1))
     | Inr FEnd \<Rightarrow> (case advance_file d r of
         (Inl e, r1) \<Rightarrow> (Inl e, r1)
       | (Inr True, r1) \<Rightarrow> wal_next crc d r1
       | (Inr False, r1) \<Rightarrow> (Inr None, r1))
     | Inr (FBad what end_at) \<Rightarrow>
         if Suc (rd_file_idx r) = length (rd_files r) \<and> is_torn_tail data end_at then (Inr None, r)
         else (Inl (CorruptRecord what), r)))"
  by pat_completeness auto
termination
proof (relation "inv_image (less_than <*lex*> less_than) (\<lambda>(crc, d, r). reader_left r)", goal_cases)
  case (2 crc d r data fr rec r1 seq)
  then show ?case using read_frame_FRecord [of crc data "rd_offset r" rec] by (simp add: reader_left_def)
next
  case (3 crc d r data)
  then show ?case by (auto simp: advance_file_def reader_left_def Let_def split: if_splits sum.splits)
qed auto

declare wal_next.simps [simp del]

end
