(* ===== verification/Wal_Names.thy ===== *)
theory Wal_Names
  imports Wal_Files
begin

text \<open>
  File names of the log: printing a segment's name and parsing it gives back the stream and its range, so a name is told apart from every
  other name and from that of the active file, and the listing of a directory recovers what the writer put there.
\<close>

section \<open>Decimal numbers\<close>

definition is_digit :: "char \<Rightarrow> bool" where "is_digit c \<longleftrightarrow> digit_of c \<noteq> None"

lemma digit_of_char: "d < 10 \<Longrightarrow> digit_of (char_of (48 + d)) = Some d"
  by (simp add: digit_of_def Let_def)

lemma is_digit_char: "(d :: nat) < 10 \<Longrightarrow> is_digit (char_of (48 + d))"
  by (simp add: is_digit_def digit_of_char)

lemma decimal_reversed_digits: "list_all is_digit (decimal_reversed n)"
proof (induction n rule: decimal_reversed.induct)
  case (1 n)
  then show ?case by (subst decimal_reversed.simps) (auto simp: is_digit_char)
qed

lemma decimal_digits: "list_all is_digit (decimal n)"
  using decimal_reversed_digits [of n] by (simp add: decimal_def)

lemma decimal_not_Nil [simp]: "decimal n \<noteq> []"
  by (simp add: decimal_def decimal_reversed.simps [of n])

lemma parse_digits_append: "parse_digits acc (xs @ ys) = do { v \<leftarrow> parse_digits acc xs; parse_digits v ys }"
  by (induction xs arbitrary: acc) (auto split: bind_splits)

lemma parse_decimal: "parse_digits 0 (decimal n) = Some n"
proof (induction n rule: decimal_reversed.induct)
  case (1 n)
  show ?case
  proof (cases "n < 10")
    case True
    then show ?thesis using digit_of_char [of n] by (simp add: decimal_def decimal_reversed.simps [of n])
  next
    case False
    then have "decimal n = decimal (n div 10) @ [char_of (48 + n mod 10)]" by (simp add: decimal_def decimal_reversed.simps [of n])
    then show ?thesis using 1 [OF False] digit_of_char [of "n mod 10"] by (simp add: parse_digits_append)
  qed
qed

lemma digit_chars: "is_digit c \<Longrightarrow> c \<noteq> CHR ''_'' \<and> c \<noteq> CHR ''+'' \<and> c \<noteq> CHR ''e''"
  by (auto simp: is_digit_def digit_of_def Let_def)

lemma parse_uint_decimal: "n \<le> limit \<Longrightarrow> parse_uint limit (decimal n) = Some n"
proof -
  assume "n \<le> limit"
  obtain c cs where c: "decimal n = c # cs" by (cases "decimal n") simp_all
  then have "c \<noteq> CHR ''+''" using decimal_digits [of n] digit_chars [of c] by simp
  then show ?thesis using c parse_decimal [of n] \<open>n \<le> limit\<close> by (simp add: parse_uint_def Let_def)
qed

section \<open>Names\<close>

lemma split_on_none: "CHR ''_'' \<notin> set xs \<Longrightarrow> split_on (CHR ''_'') xs = [xs]"
  by (induction xs) auto

lemma split_on_first: "CHR ''_'' \<notin> set xs \<Longrightarrow> split_on (CHR ''_'') (xs @ CHR ''_'' # ys) = xs # split_on (CHR ''_'') ys"
  by (induction xs) auto

lemma ends_with_iff: "ends_with cs suffix \<longleftrightarrow> (\<exists>p. cs = p @ suffix)"
proof
  assume "ends_with cs suffix"
  then show "\<exists>p. cs = p @ suffix"
    unfolding ends_with_def by (metis append_take_drop_id)
qed (auto simp: ends_with_def)

lemma strip_suffix_append: "strip_suffix (p @ suffix) suffix = Some p"
  by (auto simp: strip_suffix_def ends_with_iff)

lemma decimal_no_sep: "CHR ''_'' \<notin> set (decimal n)"
  using decimal_digits [of n] digit_chars by (auto simp: list_all_iff)

lemma segment_not_active: "\<not> ends_with (segment_filename stream_id a b) ''_active.wal''"
proof
  assume "ends_with (segment_filename stream_id a b) ''_active.wal''"
  then obtain p where "segment_filename stream_id a b = p @ ''_active.wal''" by (auto simp: ends_with_iff)
  then have "(decimal stream_id @ ''_'' @ decimal a @ ''_'' @ decimal b) @ ''.wal'' = (p @ ''_active'') @ ''.wal''"
    by (simp add: segment_filename_def)
  then have "decimal stream_id @ ''_'' @ decimal a @ ''_'' @ decimal b = p @ ''_active''" by (rule append_same_eq [THEN iffD1])
  then have "last (decimal stream_id @ ''_'' @ decimal a @ ''_'' @ decimal b) = CHR ''e''" by simp
  then have "last (decimal b) = CHR ''e''" by simp
  then show False using decimal_digits [of b] digit_chars [of "CHR ''e''"] last_in_set [OF decimal_not_Nil, of b]
    by (simp add: list_all_iff)
qed

lemma parse_segment_filename:
  assumes "stream_id \<le> u32_max" "a \<le> u64_max" "b \<le> u64_max"
  shows "parse_wal_filename (segment_filename stream_id a b) =
    Some \<lparr>wf_path = [], wf_stream_id = stream_id, wf_first_seq = a, wf_last_seq = b, wf_is_active = False\<rparr>"
proof -
  let ?stem = "decimal stream_id @ CHR ''_'' # decimal a @ CHR ''_'' # decimal b"
  have "segment_filename stream_id a b = ?stem @ ''.wal''" by (simp add: segment_filename_def)
  then have "strip_suffix (segment_filename stream_id a b) ''.wal'' = Some ?stem" by (simp only: strip_suffix_append)
  moreover have "split_on (CHR ''_'') ?stem = [decimal stream_id, decimal a, decimal b]"
    by (simp add: split_on_first split_on_none decimal_no_sep)
  ultimately show ?thesis using assms by (simp add: parse_wal_filename_def parse_uint_decimal Let_def)
qed

definition segment_info :: "u32 \<Rightarrow> u64 \<times> u64 \<Rightarrow> wal_file_info" where
  "segment_info stream_id rng = \<lparr>wf_path = segment_filename stream_id (fst rng) (snd rng), wf_stream_id = stream_id,
     wf_first_seq = fst rng, wf_last_seq = snd rng, wf_is_active = False\<rparr>"

definition active_info :: "u32 \<Rightarrow> wal_file_info" where
  "active_info stream_id = \<lparr>wf_path = active_filename stream_id, wf_stream_id = stream_id, wf_first_seq = u64_max,
     wf_last_seq = u64_max, wf_is_active = True\<rparr>"

lemma file_info_segment:
  assumes "stream_id \<le> u32_max" "a \<le> u64_max" "b \<le> u64_max"
  shows "file_info stream_id (segment_filename stream_id a b) = Some (segment_info stream_id (a, b))"
  using assms by (simp add: file_info_def segment_not_active parse_segment_filename segment_info_def)

lemma file_info_active: "file_info stream_id (active_filename stream_id) = Some (active_info stream_id)"
proof -
  have "ends_with (active_filename stream_id) ''_active.wal''" unfolding active_filename_def ends_with_iff by blast
  then show ?thesis by (simp add: file_info_def active_info_def)
qed

lemma file_info_path: "file_info stream_id name = Some info \<Longrightarrow> wf_path info = name"
  by (auto simp: file_info_def split: if_splits option.splits)

lemma segment_filename_inj:
  assumes "stream_id \<le> u32_max" "a \<le> u64_max" "b \<le> u64_max" "a' \<le> u64_max" "b' \<le> u64_max"
  shows "segment_filename stream_id a b = segment_filename stream_id a' b' \<longleftrightarrow> a = a' \<and> b = b'"
proof
  assume "segment_filename stream_id a b = segment_filename stream_id a' b'"
  then have "parse_wal_filename (segment_filename stream_id a b) = parse_wal_filename (segment_filename stream_id a' b')" by (rule arg_cong)
  then show "a = a' \<and> b = b'" using assms by (simp add: parse_segment_filename)
qed simp

lemma segment_not_active_name: "segment_filename stream_id a b \<noteq> active_filename stream_id'"
  using segment_not_active [of stream_id a b] unfolding active_filename_def ends_with_iff by blast

end
