(* ===== verification/Wal_Read.thy ===== *)
theory Wal_Read
  imports Wal_Names
begin

text \<open>
  What the log reader returns. A file that is a sequence of frames, perhaps with a torn prefix of another frame stream behind it, is read
  back record by record; a directory of rotated segments and an active file is read back in the order of the sequence numbers.
\<close>

section \<open>Frames and torn tails\<close>

definition raw_of :: "crc_fun \<Rightarrow> message \<Rightarrow> raw_wal_record" where
  "raw_of crc m = \<lparr>rw_header = header_new (fst m) (length (snd m)) (crc (snd m)), rw_payload = snd m\<rparr>"

definition frames :: "crc_fun \<Rightarrow> message list \<Rightarrow> u8 list" where
  "frames crc ms = concat (map (frame_of crc) ms)"

definition messages_ok :: "message list \<Rightarrow> bool" where
  "messages_ok ms \<longleftrightarrow> (\<forall>m\<in>set ms. message_ok m)"

text \<open>A torn tail: what is left of a frame of which not all bytes were written.\<close>

definition torn :: "crc_fun \<Rightarrow> u8 list \<Rightarrow> bool" where
  "torn crc bs \<longleftrightarrow> (\<exists>m rest. message_ok m \<and> rest \<noteq> [] \<and> frame_of crc m = bs @ rest) \<or> bs = []"

lemma messages_ok_simps [simp]:
  "messages_ok []" "messages_ok (m # ms) \<longleftrightarrow> message_ok m \<and> messages_ok ms"
  "messages_ok (ms @ ns) \<longleftrightarrow> messages_ok ms \<and> messages_ok ns"
  by (auto simp: messages_ok_def)

lemma messages_ok_sub: "messages_ok ms \<Longrightarrow> messages_ok (take n ms)" "messages_ok ms \<Longrightarrow> messages_ok (drop n ms)"
  by (auto simp: messages_ok_def dest: in_set_takeD in_set_dropD)

lemma messages_ok_concat: "messages_ok (concat mss) \<longleftrightarrow> (\<forall>ms\<in>set mss. messages_ok ms)"
  by (auto simp: messages_ok_def)

lemma frames_simps [simp]:
  "frames crc [] = []" "frames crc (m # ms) = frame_of crc m @ frames crc ms" "frames crc (ms @ ns) = frames crc ms @ frames crc ns"
  by (simp_all add: frames_def)

lemma frames_eq_Nil [simp]: "messages_ok ms \<Longrightarrow> frames crc ms = [] \<longleftrightarrow> ms = []"
  by (cases ms) (auto simp: encode_record_def header_to_bytes_def)

lemma torn_Nil [simp]: "torn crc []"
  by (simp add: torn_def)

lemma raw_of_sel [simp]: "rw_payload (raw_of crc m) = snd m"
  by (simp add: raw_of_def)

lemma frame_end_raw: "message_ok m \<Longrightarrow> frame_end offset (raw_of crc m) = offset + length (frame_of crc m)"
  by (simp add: frame_end_def length_frame_of HEADER_SIZE_def)

lemma read_frame_whole:
  assumes "message_ok m" "crc_u32 crc"
  shows "read_frame crc (pre @ frame_of crc m @ rest) (length pre) = Inr (FRecord (raw_of crc m))"
proof -
  have len: "length (frame_of crc m @ rest) = 16 + length (snd m) + length rest" using assms(1) by (simp add: length_frame_of)
  show ?thesis
    using frame_header [OF assms, of rest] frame_payload [OF assms(1), of crc rest] len assms(1)
    by (simp add: read_frame_def HEADER_SIZE_def raw_of_def Let_def)
qed

lemma read_frame_done: "read_frame crc data (length data) = Inr FEnd"
  by (simp add: read_frame_def HEADER_SIZE_def)

lemma read_frame_torn:
  assumes "torn crc bs" "bs \<noteq> []" "crc_u32 crc"
  shows "\<exists>what. read_frame crc (pre @ bs) (length pre) = Inr (FBad what u64_max) \<and> what \<noteq> CrcMismatch"
proof -
  from assms(1,2) obtain m rest where m: "message_ok m" and "rest \<noteq> []" and f: "frame_of crc m = bs @ rest"
    by (auto simp: torn_def)
  then have short: "length bs < 16 + length (snd m)" using length_frame_of [OF m, of crc] by (cases rest) (simp_all add: f)
  show ?thesis
  proof (cases "length bs < 16")
    case True
    then show ?thesis using assms(2) by (simp add: read_frame_def HEADER_SIZE_def)
  next
    case False
    then have "take 16 (frame_of crc m @ []) = take 16 bs" by (simp add: f)
    then have "header_from_bytes (take 16 bs) = Some (header_new (fst m) (length (snd m)) (crc (snd m)))"
      using frame_header [OF m assms(3), of "[]"] by simp
    moreover have "length bs - 16 < length (snd m)" using False short by linarith
    ultimately show ?thesis using False by (simp add: read_frame_def HEADER_SIZE_def Let_def)
  qed
qed

text \<open>Any prefix of a frame stream is a number of whole frames and a torn one.\<close>

lemma prefix_of_frames:
  assumes "messages_ok ms"
  shows "\<exists>k bs. take n (frames crc ms) = frames crc (take k ms) @ bs \<and> torn crc bs \<and> k \<le> length ms"
  using assms
proof (induction ms arbitrary: n)
  case Nil
  then show ?case by auto
next
  case (Cons m ms)
  show ?case
  proof (cases "n < length (frame_of crc m)")
    case True
    then have "frame_of crc m = take n (frame_of crc m) @ drop n (frame_of crc m)" "drop n (frame_of crc m) \<noteq> []" by simp_all
    then have "torn crc (take n (frame_of crc m))" using Cons.prems unfolding torn_def by (metis messages_ok_simps(2))
    then show ?thesis using True by (intro exI [of _ 0]) auto
  next
    case False
    obtain k bs where "take (n - length (frame_of crc m)) (frames crc ms) = frames crc (take k ms) @ bs" "torn crc bs" "k \<le> length ms"
      using Cons by fastforce
    then show ?thesis using False by (intro exI [of _ "Suc k"]) auto
  qed
qed

section \<open>One file\<close>

lemma cut_frames:
  assumes "messages_ok ms" "torn crc bs" "crc_u32 crc" "length (pre @ frames crc ms @ bs) \<le> u64_max"
  shows "cut_from crc (pre @ frames crc ms @ bs) (length pre) = Inr (pre @ frames crc ms)"
  using assms
proof (induction ms arbitrary: pre)
  case Nil
  show ?case
  proof (cases "bs = []")
    case True
    then show ?thesis using read_frame_done [of crc pre] by (subst cut_from.simps) simp
  next
    case False
    with Nil obtain what where "read_frame crc (pre @ bs) (length pre) = Inr (FBad what u64_max)"
      using read_frame_torn by blast
    then show ?thesis using Nil.prems by (subst cut_from.simps) (simp add: is_torn_tail_def)
  qed
next
  case (Cons m ms)
  have "read_frame crc (pre @ frame_of crc m @ frames crc ms @ bs) (length pre) = Inr (FRecord (raw_of crc m))"
    using Cons.prems by (intro read_frame_whole) simp_all
  moreover have "cut_from crc ((pre @ frame_of crc m) @ frames crc ms @ bs) (length (pre @ frame_of crc m)) = Inr ((pre @ frame_of crc m) @ frames crc ms)"
    using Cons.prems by (intro Cons.IH) simp_all
  ultimately show ?case using Cons.prems by (subst cut_from.simps) (simp add: frame_end_raw)
qed

definition seq_range :: "message list \<Rightarrow> (u64 \<times> u64) option" where
  "seq_range ms = (if ms = [] then None else Some (seq_of (hd ms), seq_of (last ms)))"

abbreviation ascending :: "message list \<Rightarrow> bool" where
  "ascending ms \<equiv> sorted_wrt (<) (map seq_of ms)"

lemma next_intact_stop:
  assumes "torn crc bs" "crc_u32 crc"
  shows "next_intact crc (pre @ bs) (length pre) = None"
  using read_frame_torn [OF assms(1) _ assms(2), of pre] read_frame_done [of crc pre]
  by (cases "bs = []") (auto simp: next_intact_def)

lemma scan_frames_from:
  assumes "messages_ok ms" "torn crc bs" "crc_u32 crc" "ascending (ns @ ms)"
  shows "scan_range crc (pre @ frames crc ms @ bs) (length pre) (seq_range ns) = seq_range (ns @ ms)"
  using assms
proof (induction ms arbitrary: pre ns)
  case Nil
  then show ?case using next_intact_stop [of crc bs pre] by (subst scan_range.simps) simp
next
  case (Cons m ms)
  have "read_frame crc (pre @ frame_of crc m @ frames crc ms @ bs) (length pre) = Inr (FRecord (raw_of crc m))"
    using Cons.prems by (intro read_frame_whole) simp_all
  moreover have "scan_range crc ((pre @ frame_of crc m) @ frames crc ms @ bs) (length (pre @ frame_of crc m)) (seq_range (ns @ [m])) =
      seq_range ((ns @ [m]) @ ms)"
    using Cons.prems by (intro Cons.IH) (simp_all add: sorted_wrt_append)
  moreover have "widen (seq_range ns) (seq_of m, seq_of m) = seq_range (ns @ [m])"
  proof (cases "ns = []")
    case False
    then have "seq_of (hd ns) < seq_of m" "seq_of (last ns) < seq_of m" using Cons.prems(4) by (auto simp: sorted_wrt_append)
    then show ?thesis using False by (simp add: seq_range_def widen_def)
  qed (simp add: seq_range_def widen_def)
  ultimately show ?case using Cons.prems
    by (subst scan_range.simps) (simp add: frame_end_raw next_intact_def extract_seq_message)
qed

lemma scan_frames:
  assumes "messages_ok ms" "torn crc bs" "crc_u32 crc" "ascending ms"
  shows "scan_file_seq_range crc (frames crc ms @ bs) = seq_range ms"
  using scan_frames_from [of ms crc bs "[]" "[]"] assms by (simp add: scan_file_seq_range_def seq_range_def)

lemma scan_for_frames:
  assumes "messages_ok ms" "torn crc bs" "crc_u32 crc" "ascending ms"
  shows "scan_for_seq crc (pre @ frames crc ms @ bs) target_seq (length pre) =
    map_option (raw_of crc) (List.find (\<lambda>m. seq_of m = target_seq) ms)"
  using assms
proof (induction ms arbitrary: pre)
  case Nil
  show ?case
  proof (cases "bs = []")
    case True
    then show ?thesis using read_frame_done [of crc pre] by (subst scan_for_seq.simps) simp
  next
    case False
    then obtain what where "read_frame crc (pre @ bs) (length pre) = Inr (FBad what u64_max)" "what \<noteq> CrcMismatch"
      using read_frame_torn Nil by blast
    then show ?thesis by (subst scan_for_seq.simps) (simp split: bad_frame.splits)
  qed
next
  case (Cons m ms)
  have "read_frame crc (pre @ frame_of crc m @ frames crc ms @ bs) (length pre) = Inr (FRecord (raw_of crc m))"
    using Cons.prems by (intro read_frame_whole) simp_all
  moreover have "scan_for_seq crc ((pre @ frame_of crc m) @ frames crc ms @ bs) target_seq (length (pre @ frame_of crc m)) =
      map_option (raw_of crc) (List.find (\<lambda>m. seq_of m = target_seq) ms)"
    using Cons.prems by (intro Cons.IH) simp_all
  moreover have "List.find (\<lambda>m. seq_of m = target_seq) ms = None" if "target_seq < seq_of m"
    using Cons.prems(4) that by (fastforce simp: find_None_iff)
  ultimately show ?case using Cons.prems
    by (subst scan_for_seq.simps) (auto simp: frame_end_raw extract_seq_message)
qed

section \<open>Draining a reader\<close>

lemma wal_next_decreases:
  "wal_next crc d r = (Inr (Some rec), r1) \<Longrightarrow> (reader_left r1, reader_left r) \<in> less_than <*lex*> less_than"
proof (induction crc d r rule: wal_next.induct)
  case (1 crc d r)
  show ?case
  proof (cases "rd_file r")
    case None
    then show ?thesis using 1(3) by (simp add: wal_next.simps [of crc d r])
  next
    case (Some data)
    show ?thesis
    proof (cases "read_frame crc data (rd_offset r)")
      case (Inl e)
      then show ?thesis using 1(3) Some by (simp add: wal_next.simps [of crc d r])
    next
      case (Inr fr)
      show ?thesis
      proof (cases fr)
        case (FRecord rec')
        let ?r = "r\<lparr>rd_offset := frame_end (rd_offset r) rec'\<rparr>"
        have step: "(reader_left ?r, reader_left r) \<in> less_than <*lex*> less_than"
          using read_frame_shrinks [of crc data "rd_offset r" rec'] Inr FRecord Some by (simp add: reader_left_def)
        show ?thesis
        proof (cases "\<exists>seq. extract_seq (rw_payload rec') = Some seq \<and> seq < rd_target_seq r")
          case True
          then obtain seq where "extract_seq (rw_payload rec') = Some seq" "seq < rd_target_seq r" by blast
          moreover from this have "wal_next crc d ?r = (Inr (Some rec), r1)"
            using 1(3) Some Inr FRecord by (simp add: wal_next.simps [of crc d r])
          ultimately have "(reader_left r1, reader_left ?r) \<in> less_than <*lex*> less_than"
            using 1(1) [OF Some Inr FRecord refl, of seq] by simp
          then show ?thesis using step by (auto simp: reader_left_def)
        next
          case False
          then show ?thesis using 1(3) Some Inr FRecord step
            by (auto simp: wal_next.simps [of crc d r] Let_def split: option.splits if_splits)
        qed
      next
        case FEnd
        obtain res r2 where adv: "advance_file d r = (res, r2)" by fastforce
        then have next2: "wal_next crc d r2 = (Inr (Some rec), r1)" "res = Inr True"
          using 1(3) Some Inr FEnd by (auto simp: wal_next.simps [of crc d r] split: sum.splits bool.splits)
        have "(reader_left r2, reader_left r) \<in> less_than <*lex*> less_than"
          using adv next2(2) by (auto simp: advance_file_def reader_left_def Let_def split: if_splits sum.splits)
        moreover have "(reader_left r1, reader_left r2) \<in> less_than <*lex*> less_than"
          using 1(2) [OF Some Inr FEnd adv [symmetric]] next2 by simp
        ultimately show ?thesis by (auto simp: reader_left_def)
      next
        case (FBad what end_at)
        then show ?thesis using 1(3) Some Inr by (simp add: wal_next.simps [of crc d r] split: if_splits)
      qed
    qed
  qed
qed

text \<open>The loop \<open>while let Some(raw) = reader.next()?\<close> of the callers.\<close>

function read_all :: "crc_fun \<Rightarrow> dir \<Rightarrow> wal_reader \<Rightarrow> wal_error + raw_wal_record list" where
  "read_all crc d r = (case wal_next crc d r of
     (Inl e, r1) \<Rightarrow> Inl e
   | (Inr None, r1) \<Rightarrow> Inr []
   | (Inr (Some rec), r1) \<Rightarrow> map_sum id (Cons rec) (read_all crc d r1))"
  by pat_completeness auto
termination
proof (relation "inv_image (less_than <*lex*> less_than) (\<lambda>(crc, d, r). reader_left r)", goal_cases)
  case (2 crc d r x r1 y rec)
  then have "wal_next crc d r = (Inr (Some rec), r1)" by simp
  then show ?case by (auto dest: wal_next_decreases)
qed auto

declare read_all.simps [simp del]


text \<open>What a reader standing at a frame, at the end of a file and at a torn tail does.\<close>

lemma wal_next_record:
  assumes "rd_file r = Some (pre @ frame_of crc m @ rest)" "rd_offset r = length pre" "message_ok m" "crc_u32 crc"
  shows "wal_next crc d r = (let r1 = r\<lparr>rd_offset := length (pre @ frame_of crc m)\<rparr> in
    if seq_of m < rd_target_seq r then wal_next crc d r1 else (Inr (Some (raw_of crc m)), r1))"
  using assms read_frame_whole [OF assms(3,4), of pre rest]
  by (simp add: wal_next.simps [of crc d r] extract_seq_message frame_end_raw Let_def)

lemma read_all_record:
  assumes "rd_file r = Some (pre @ frame_of crc m @ rest)" "rd_offset r = length pre" "message_ok m" "crc_u32 crc"
  shows "read_all crc d r = map_sum id (\<lambda>rs. if seq_of m < rd_target_seq r then rs else raw_of crc m # rs)
    (read_all crc d (r\<lparr>rd_offset := length (pre @ frame_of crc m)\<rparr>))"
proof (cases "seq_of m < rd_target_seq r")
  case True
  then have "wal_next crc d r = wal_next crc d (r\<lparr>rd_offset := length (pre @ frame_of crc m)\<rparr>)"
    using wal_next_record [OF assms, of d] by (simp add: Let_def)
  then show ?thesis using True by (simp add: read_all.simps [of crc d r] read_all.simps [of crc d "r\<lparr>rd_offset := _\<rparr>"] sum.map_ident id_def)
next
  case False
  then show ?thesis using wal_next_record [OF assms, of d] by (simp add: read_all.simps [of crc d r] Let_def)
qed

lemma read_all_frames:
  assumes "rd_file r = Some (pre @ frames crc ms @ rest)" "rd_offset r = length pre" "messages_ok ms" "crc_u32 crc"
  shows "read_all crc d r = map_sum id (\<lambda>rs. map (raw_of crc) (filter (\<lambda>m. rd_target_seq r \<le> seq_of m) ms) @ rs)
    (read_all crc d (r\<lparr>rd_offset := length (pre @ frames crc ms)\<rparr>))"
  using assms
proof (induction ms arbitrary: r pre)
  case Nil
  have "r\<lparr>rd_offset := length pre\<rparr> = r" using Nil by simp
  then show ?case by (simp add: sum.map_ident id_def)
next
  case (Cons m ms)
  let ?r = "r\<lparr>rd_offset := length (pre @ frame_of crc m)\<rparr>"
  have "read_all crc d ?r = map_sum id (\<lambda>rs. map (raw_of crc) (filter (\<lambda>m. rd_target_seq ?r \<le> seq_of m) ms) @ rs)
    (read_all crc d (?r\<lparr>rd_offset := length ((pre @ frame_of crc m) @ frames crc ms)\<rparr>))"
    using Cons.prems by (intro Cons.IH) simp_all
  moreover have "read_all crc d r = map_sum id (\<lambda>rs. if seq_of m < rd_target_seq r then rs else raw_of crc m # rs) (read_all crc d ?r)"
    using Cons.prems by (intro read_all_record [where rest = "frames crc ms @ rest"]) simp_all
  ultimately show ?case by (simp add: sum.map_comp comp_def id_def add.assoc)
qed

lemma read_all_torn:
  assumes "rd_file r = Some (pre @ bs)" "rd_offset r = length pre" "torn crc bs" "bs \<noteq> []" "crc_u32 crc"
    "Suc (rd_file_idx r) = length (rd_files r)" "length (pre @ bs) \<le> u64_max"
  shows "read_all crc d r = Inr []"
proof -
  obtain what where "read_frame crc (pre @ bs) (length pre) = Inr (FBad what u64_max)"
    using read_frame_torn assms(3-5) by blast
  then have "wal_next crc d r = (Inr None, r)"
    using assms by (simp add: wal_next.simps [of crc d r] is_torn_tail_def)
  then show ?thesis by (simp add: read_all.simps [of crc d r])
qed

lemma read_all_done:
  assumes "rd_file r = Some data" "rd_offset r = length data" "Suc (rd_file_idx r) = length (rd_files r)"
  shows "read_all crc d r = Inr []"
  using assms read_frame_done [of crc data]
  by (simp add: read_all.simps [of crc d r] wal_next.simps [of crc d r] advance_file_def Let_def)

lemma read_all_advance:
  assumes "rd_file r = Some data" "rd_offset r = length data" "Suc (rd_file_idx r) < length (rd_files r)"
    "map_of d (wf_path (rd_files r ! Suc (rd_file_idx r))) = Some data'"
  shows "read_all crc d r =
    read_all crc d (r\<lparr>rd_file_idx := Suc (rd_file_idx r), rd_offset := 0, rd_target_seq := 0, rd_file := Some data'\<rparr>)"
proof -
  let ?r = "r\<lparr>rd_file_idx := Suc (rd_file_idx r), rd_offset := 0, rd_target_seq := 0, rd_file := Some data'\<rparr>"
  have "wal_next crc d r = wal_next crc d ?r"
    using assms read_frame_done [of crc data]
    by (simp add: wal_next.simps [of crc d r] advance_file_def open_file_def Let_def)
  then show ?thesis by (simp add: read_all.simps [of crc d r] read_all.simps [of crc d ?r])
qed


text \<open>The files a reader goes through: the content of each is a sequence of frames, the last may have a torn tail.\<close>

definition holds :: "crc_fun \<Rightarrow> dir \<Rightarrow> wal_file_info list \<Rightarrow> message list list \<Rightarrow> u8 list \<Rightarrow> bool" where
  "holds crc d infos contents bs \<longleftrightarrow> length infos = length contents \<and> (\<forall>i < length infos.
     messages_ok (contents ! i) \<and>
     map_of d (wf_path (infos ! i)) = Some (frames crc (contents ! i) @ (if Suc i = length infos then bs else [])) \<and>
     length (frames crc (contents ! i)) + length bs \<le> u64_max)"

lemma read_all_holds:
  assumes "holds crc d (rd_files r) contents bs" "torn crc bs" "crc_u32 crc" "rd_file_idx r < length contents" "rd_offset r = 0"
    "rd_file r = map_of d (wf_path (rd_files r ! rd_file_idx r))"
  shows "read_all crc d r = Inr (map (raw_of crc) (filter (\<lambda>m. rd_target_seq r \<le> seq_of m) (contents ! rd_file_idx r) @
    concat (drop (Suc (rd_file_idx r)) contents)))"
  using assms
proof (induction "length contents - rd_file_idx r" arbitrary: r)
  case 0
  then show ?case by simp
next
  case (Suc n)
  let ?i = "rd_file_idx r" and ?ms = "contents ! rd_file_idx r"
  let ?tail = "if Suc ?i = length contents then bs else []"
  have len: "length (rd_files r) = length contents" using Suc.prems(1) by (simp add: holds_def)
  have ok: "messages_ok ?ms" and data: "rd_file r = Some (frames crc ?ms @ ?tail)" and fits: "length (frames crc ?ms) + length bs \<le> u64_max"
    using Suc.prems(1,4,6) by (auto simp: holds_def)
  let ?r = "r\<lparr>rd_offset := length (frames crc ?ms)\<rparr>"
  have here: "read_all crc d r = map_sum id (\<lambda>rs. map (raw_of crc) (filter (\<lambda>m. rd_target_seq r \<le> seq_of m) ?ms) @ rs) (read_all crc d ?r)"
    using read_all_frames [of r "[]" crc ?ms ?tail d] data ok Suc.prems(3,5) by simp
  show ?case
  proof (cases "Suc ?i = length contents")
    case True
    have "read_all crc d ?r = Inr []"
    proof (cases "bs = []")
      case True
      then show ?thesis using data len \<open>Suc ?i = length contents\<close> by (intro read_all_done [where data = "frames crc ?ms"]) simp_all
    next
      case False
      then show ?thesis using data len True fits Suc.prems(2,3)
        by (intro read_all_torn [where pre = "frames crc ?ms" and bs = bs]) simp_all
    qed
    then show ?thesis using here True by simp
  next
    case False
    then have more: "Suc ?i < length contents" using Suc.prems(4) by simp
    obtain data' where next_data: "map_of d (wf_path (rd_files r ! Suc ?i)) = Some data'"
      using Suc.prems(1) more len by (auto simp: holds_def)
    let ?r2 = "?r\<lparr>rd_file_idx := Suc ?i, rd_offset := 0, rd_target_seq := 0, rd_file := Some data'\<rparr>"
    have "read_all crc d ?r = read_all crc d ?r2"
      using read_all_advance [of ?r "frames crc ?ms" d data' crc] data more len False next_data by simp
    also have "\<dots> = Inr (map (raw_of crc) (filter (\<lambda>m. rd_target_seq ?r2 \<le> seq_of m) (contents ! rd_file_idx ?r2) @
        concat (drop (Suc (rd_file_idx ?r2)) contents)))"
      using Suc.hyps(2) Suc.prems more next_data by (intro Suc.hyps(1)) simp_all
    finally show ?thesis using here more by (simp add: Cons_nth_drop_Suc [symmetric])
  qed
qed


section \<open>A stream's directory\<close>

definition seg_range :: "message list \<Rightarrow> u64 \<times> u64" where
  "seg_range seg = (seq_of (hd seg), seq_of (last seg))"

definition seg_entry :: "crc_fun \<Rightarrow> u32 \<Rightarrow> message list \<Rightarrow> string \<times> u8 list" where
  "seg_entry crc stream_id seg = (segment_filename stream_id (seq_of (hd seg)) (seq_of (last seg)), frames crc seg)"

definition log_entries :: "crc_fun \<Rightarrow> u32 \<Rightarrow> message list list \<Rightarrow> u8 list option \<Rightarrow> dir" where
  "log_entries crc stream_id segs act = map (seg_entry crc stream_id) segs @
     (case act of None \<Rightarrow> [] | Some data \<Rightarrow> [(active_filename stream_id, data)])"

definition segs_ok :: "u32 \<Rightarrow> message list list \<Rightarrow> bool" where
  "segs_ok stream_id segs \<longleftrightarrow> stream_id \<le> u32_max \<and> [] \<notin> set segs \<and> messages_ok (concat segs) \<and> ascending (concat segs) \<and>
     (\<forall>m\<in>set (concat segs). seq_of m < u64_max)"

definition layout :: "crc_fun \<Rightarrow> u32 \<Rightarrow> dir \<Rightarrow> message list list \<Rightarrow> u8 list option \<Rightarrow> bool" where
  "layout crc stream_id d segs act \<longleftrightarrow> distinct (map fst d) \<and>
     (\<forall>name. file_info stream_id name \<noteq> None \<longrightarrow> map_of d name = map_of (log_entries crc stream_id segs act) name)"

definition infos_of :: "u32 \<Rightarrow> message list list \<Rightarrow> u8 list option \<Rightarrow> wal_file_info list" where
  "infos_of stream_id segs act = map (segment_info stream_id \<circ> seg_range) segs @ (if act = None then [] else [active_info stream_id])"

lemma seg_seqs_ok: "segs_ok stream_id segs \<Longrightarrow> seg \<in> set segs \<Longrightarrow> seq_of (hd seg) < u64_max \<and> seq_of (last seg) < u64_max"
  unfolding segs_ok_def by (metis UN_I hd_in_set last_in_set set_concat)

lemma ascending_firsts:
  assumes "[] \<notin> set segs" "ascending (concat segs)"
  shows "sorted_wrt (<) (map (\<lambda>seg. seq_of (hd seg)) segs)"
  using assms
proof (induction segs)
  case (Cons seg segs)
  have "seq_of (hd seg) < seq_of (hd s)" if "s \<in> set segs" for s
  proof -
    have "hd seg \<in> set seg" "hd s \<in> set (concat segs)" using Cons.prems(1) that by (auto intro: hd_in_set)
    then show ?thesis using Cons.prems(2) by (auto simp: sorted_wrt_append)
  qed
  then show ?case using Cons by (auto simp: sorted_wrt_append)
qed simp

lemma names_distinct:
  assumes "segs_ok stream_id segs"
  shows "distinct (map fst (log_entries crc stream_id segs act))"
proof -
  have "inj_on (\<lambda>seg. segment_filename stream_id (seq_of (hd seg)) (seq_of (last seg))) (set segs)"
  proof (rule inj_onI)
    fix s t
    assume st: "s \<in> set segs" "t \<in> set segs" and
      eq: "segment_filename stream_id (seq_of (hd s)) (seq_of (last s)) = segment_filename stream_id (seq_of (hd t)) (seq_of (last t))"
    have "seq_of (hd s) = seq_of (hd t)"
      using eq seg_seqs_ok [OF assms st(1)] seg_seqs_ok [OF assms st(2)] assms by (simp add: segment_filename_inj segs_ok_def)
    moreover have "inj_on (\<lambda>seg. seq_of (hd seg)) (set segs)"
      using ascending_firsts [of segs] assms by (simp add: segs_ok_def strict_sorted_iff distinct_map)
    ultimately show "s = t" using st by (auto dest: inj_onD)
  qed
  moreover have "distinct segs"
    using ascending_firsts [of segs] assms by (simp add: segs_ok_def strict_sorted_iff distinct_map)
  ultimately show ?thesis
    by (auto simp: log_entries_def seg_entry_def comp_def distinct_map segment_not_active_name segment_not_active_name [symmetric] split: option.splits)
qed

lemma log_entry_infos:
  assumes "segs_ok stream_id segs"
  shows "map (\<lambda>e. file_info stream_id (fst e)) (log_entries crc stream_id segs act) = map Some (infos_of stream_id segs act)"
  using assms seg_seqs_ok [OF assms]
  by (auto simp: log_entries_def infos_of_def seg_entry_def seg_range_def file_info_segment file_info_active segs_ok_def less_imp_le split: option.splits)

lemma set_list_wal_files:
  "set (list_wal_files stream_id d) = {info. \<exists>name\<in>dom (map_of d). file_info stream_id name = Some info}"
  unfolding list_wal_files_def List.map_filter_def dom_map_of_conv_image_fst by (force simp: case_prod_beta)

lemma listing:
  assumes "layout crc stream_id d segs act" "segs_ok stream_id segs"
  shows "list_wal_files_across stream_id [d] = infos_of stream_id segs act"
proof -
  let ?es = "log_entries crc stream_id segs act"
  have dist: "distinct (map fst d)" using assms(1) by (simp add: layout_def)
  have "distinct (map wf_path (list_wal_files stream_id d))"
  proof -
    have "map wf_path (list_wal_files stream_id d) = filter (\<lambda>name. file_info stream_id name \<noteq> None) (map fst d)"
      by (induction d) (auto simp: list_wal_files_def List.map_filter_def file_info_path)
    then show ?thesis using dist by simp
  qed
  then have "distinct (list_wal_files stream_id d)" by (simp add: distinct_map)
  moreover have "set (list_wal_files stream_id d) = set (infos_of stream_id segs act)"
  proof -
    have "set (list_wal_files stream_id d) = set (list_wal_files stream_id ?es)"
    proof -
      have "name \<in> dom (map_of d) \<longleftrightarrow> name \<in> dom (map_of ?es)" if "file_info stream_id name = Some info" for name info
      proof -
        have "map_of d name = map_of ?es name" using assms(1) that unfolding layout_def by blast
        then show ?thesis unfolding dom_def by (simp only: mem_Collect_eq)
      qed
      then show ?thesis unfolding set_list_wal_files by blast
    qed
    also have "list_wal_files stream_id ?es = infos_of stream_id segs act"
    proof -
      have "list_wal_files stream_id ?es = map the (filter (\<lambda>x. x \<noteq> None) (map (\<lambda>e. file_info stream_id (fst e)) ?es))"
        by (simp add: list_wal_files_def List.map_filter_def case_prod_beta filter_map comp_def)
      then show ?thesis using log_entry_infos [OF assms(2), of crc act] by (simp add: filter_map comp_def)
    qed
    finally show ?thesis .
  qed
  moreover have "sorted_wrt (<) (map wf_first_seq (infos_of stream_id segs act))"
    using ascending_firsts [of segs] assms(2) seg_seqs_ok [OF assms(2)]
    by (auto simp: infos_of_def segs_ok_def segment_info_def seg_range_def active_info_def sorted_wrt_append comp_def)
  ultimately show ?thesis by (simp add: list_wal_files_across_def sort_key_unique)
qed


text \<open>The contents behind the listed files, and what a reader opened on the directory returns.\<close>

definition contents_of :: "message list list \<Rightarrow> u8 list option \<Rightarrow> message list \<Rightarrow> message list list" where
  "contents_of segs act cur = segs @ (if act = None then [] else [cur])"

definition log_fits :: "crc_fun \<Rightarrow> message list list \<Rightarrow> u8 list \<Rightarrow> bool" where
  "log_fits crc mss bs \<longleftrightarrow> (\<forall>ms\<in>set mss. length (frames crc ms) + length bs \<le> u64_max)"

lemma layout_lookup:
  assumes "layout crc stream_id d segs act" "segs_ok stream_id segs"
  shows "seg \<in> set segs \<Longrightarrow> map_of d (wf_path (segment_info stream_id (seg_range seg))) = Some (frames crc seg)"
    and "map_of d (active_filename stream_id) = act"
proof -
  have same: "map_of d name = map_of (log_entries crc stream_id segs act) name" if "file_info stream_id name \<noteq> None" for name
    using assms(1) that unfolding layout_def by blast
  show "map_of d (wf_path (segment_info stream_id (seg_range seg))) = Some (frames crc seg)" if "seg \<in> set segs"
  proof -
    have "file_info stream_id (segment_filename stream_id (seq_of (hd seg)) (seq_of (last seg))) \<noteq> None"
      using assms(2) seg_seqs_ok [OF assms(2) that] by (simp add: file_info_segment segs_ok_def)
    moreover have "(segment_filename stream_id (seq_of (hd seg)) (seq_of (last seg)), frames crc seg) \<in> set (log_entries crc stream_id segs act)"
      using that by (auto simp: log_entries_def seg_entry_def)
    ultimately show ?thesis using same names_distinct [OF assms(2), of crc act]
      by (simp add: segment_info_def seg_range_def map_of_eq_Some_iff)
  qed
  have "map_of (map (seg_entry crc stream_id) segs) (active_filename stream_id) = None"
    by (auto simp: map_of_eq_None_iff seg_entry_def segment_not_active_name segment_not_active_name [symmetric])
  then have "map_of (log_entries crc stream_id segs act) (active_filename stream_id) = act"
    by (simp add: log_entries_def map_add_def split: option.splits)
  then show "map_of d (active_filename stream_id) = act" using same [of "active_filename stream_id"] by (simp add: file_info_active)
qed

lemma layout_holds:
  assumes "layout crc stream_id d segs act" "segs_ok stream_id segs" "case act of None \<Rightarrow> cur = [] \<and> bs = [] | Some data \<Rightarrow> data = frames crc cur @ bs"
    "messages_ok cur" "log_fits crc (cur # segs) bs"
  shows "holds crc d (infos_of stream_id segs act) (contents_of segs act cur) bs"
proof -
  have seg: "messages_ok (segs ! i) \<and> map_of d (wf_path (segment_info stream_id (seg_range (segs ! i)))) = Some (frames crc (segs ! i)) \<and>
      length (frames crc (segs ! i)) + length bs \<le> u64_max" if "i < length segs" for i
    using assms(2,5) that layout_lookup(1) [OF assms(1,2), of "segs ! i"] by (auto simp: segs_ok_def messages_ok_concat log_fits_def)
  have act: "map_of d (wf_path (active_info stream_id)) = Some (frames crc cur @ bs)" if "act \<noteq> None"
    using assms(3) that layout_lookup(2) [OF assms(1,2)] by (auto simp: active_info_def)
  show ?thesis
    unfolding holds_def
  proof (intro conjI allI impI)
    show "length (infos_of stream_id segs act) = length (contents_of segs act cur)" by (simp add: infos_of_def contents_of_def)
    fix i assume i: "i < length (infos_of stream_id segs act)"
    have bs: "bs = []" if "act = None" using assms(3) that by simp
    show "messages_ok (contents_of segs act cur ! i)" "length (frames crc (contents_of segs act cur ! i)) + length bs \<le> u64_max"
      using i seg [of i] assms(4,5) by (auto simp: infos_of_def contents_of_def nth_append log_fits_def split: if_splits)
    show "map_of d (wf_path (infos_of stream_id segs act ! i)) =
      Some (frames crc (contents_of segs act cur ! i) @ (if Suc i = length (infos_of stream_id segs act) then bs else []))"
      using i seg [of i] act bs by (auto simp: infos_of_def contents_of_def nth_append split: if_splits)
  qed
qed


lemma covers_simps [simp]:
  "covers (segment_info stream_id rng) t \<longleftrightarrow> fst rng \<le> t \<and> t \<le> snd rng" "\<not> covers (active_info stream_id) t"
  by (simp_all add: covers_def segment_info_def active_info_def)

lemma pick_idx_hit:
  assumes "i < length fs" "covers (fs ! i) t" "\<forall>j<i. \<not> covers (fs ! j) t"
  shows "pick_idx k idx fs t = k + i"
  using assms
proof (induction fs arbitrary: k idx i)
  case (Cons f fs)
  show ?case
  proof (cases i)
    case 0
    then show ?thesis using Cons.prems by simp
  next
    case (Suc n)
    then have "\<not> covers f t" using Cons.prems(3) by (metis nth_Cons_0 zero_less_Suc)
    moreover have "\<forall>j<n. \<not> covers (fs ! j) t" using Cons.prems(3) Suc by (metis Suc_less_eq nth_Cons_Suc)
    ultimately show ?thesis using Cons.IH [of n "Suc k" k] Cons.prems Suc by simp
  qed
qed simp

lemma pick_idx_miss: "fs \<noteq> [] \<Longrightarrow> \<forall>f\<in>set fs. \<not> covers f t \<Longrightarrow> pick_idx k idx fs t = k + length fs - 1"
proof (induction fs arbitrary: k idx)
  case (Cons f fs)
  then show ?case by (cases "fs = []") simp_all
qed simp

lemma read_from_idx:
  assumes "list_wal_files_across stream_id [d] = infos" "holds crc d infos contents bs" "torn crc bs" "crc_u32 crc"
    "i = pick_start_idx infos t" "i < length infos"
  shows "\<exists>r. open_from_seq stream_id t d = Inr r \<and>
    read_all crc d r = Inr (map (raw_of crc) (filter (\<lambda>m. t \<le> seq_of m) (contents ! i) @ concat (drop (Suc i) contents)))"
proof -
  obtain data where data: "map_of d (wf_path (infos ! i)) = Some data" and len: "length infos = length contents"
    using assms(2,6) by (auto simp: holds_def)
  let ?r = "\<lparr>rd_file = Some data, rd_files = infos, rd_file_idx = i, rd_offset = 0, rd_target_seq = t\<rparr>"
  have "open_from_seq stream_id t d = Inr ?r"
    using assms(1,5,6) data by (simp add: open_from_seq_def open_file_def Let_def)
  moreover have "read_all crc d ?r = Inr (map (raw_of crc) (filter (\<lambda>m. t \<le> seq_of m) (contents ! i) @ concat (drop (Suc i) contents)))"
    using read_all_holds [of crc d ?r contents bs] assms(2-4,6) data len by simp
  ultimately show ?thesis by blast
qed

text \<open>A target the reader can place: the start, a number inside a rotated segment, or one above every rotated segment.\<close>

definition placeable :: "message list list \<Rightarrow> u64 \<Rightarrow> bool" where
  "placeable segs t \<longleftrightarrow> t = 0 \<or> (\<exists>seg\<in>set segs. fst (seg_range seg) \<le> t \<and> t \<le> snd (seg_range seg)) \<or> (\<forall>m\<in>set (concat segs). seq_of m < t)"

lemma ascending_bounds: "ascending ms \<Longrightarrow> m \<in> set ms \<Longrightarrow> seq_of (hd ms) \<le> seq_of m \<and> seq_of m \<le> seq_of (last ms)"
proof (induction ms)
  case (Cons x ms)
  then show ?case
    by (cases "ms = []") (auto intro: less_imp_le)
qed simp

lemma ascending_split:
  assumes "ascending (concat segs @ cur)" "[] \<notin> set segs" "i < length segs" "seq_of (hd (segs ! i)) \<le> t" "t \<le> seq_of (last (segs ! i))"
  shows "filter (\<lambda>m. t \<le> seq_of m) (concat segs @ cur) = filter (\<lambda>m. t \<le> seq_of m) (segs ! i) @ concat (drop (Suc i) segs) @ cur"
    and "\<forall>j<i. seq_of (last (segs ! j)) < t"
proof -
  let ?seg = "segs ! i" and ?pre = "concat (take i segs)" and ?post = "concat (drop (Suc i) segs) @ cur"
  have split: "concat segs @ cur = ?pre @ ?seg @ ?post"
    using id_take_nth_drop [OF assms(3)] by (metis append.assoc concat.simps(2) concat_append)
  have ne: "?seg \<noteq> []" using assms(2,3) by (metis nth_mem)
  have asc: "sorted_wrt (<) (map seq_of ?pre @ map seq_of ?seg @ map seq_of ?post)"
    using assms(1) unfolding split by (simp only: map_append)
  have below: "seq_of m < t" if "m \<in> set ?pre" for m
  proof -
    have "seq_of m \<in> set (map seq_of ?pre)" "seq_of (hd ?seg) \<in> set (map seq_of ?seg)" using that hd_in_set [OF ne] unfolding set_map by blast+
    then have "seq_of m < seq_of (hd ?seg)" using asc unfolding sorted_wrt_append set_append by blast
    then show ?thesis using assms(4) by simp
  qed
  have above: "t < seq_of m" if "m \<in> set ?post" for m
  proof -
    have "seq_of m \<in> set (map seq_of ?post)" "seq_of (last ?seg) \<in> set (map seq_of ?seg)" using that last_in_set [OF ne] unfolding set_map by blast+
    then have "seq_of (last ?seg) < seq_of m" using asc unfolding sorted_wrt_append by blast
    then show ?thesis using assms(5) by simp
  qed
  have "filter (\<lambda>m. t \<le> seq_of m) ?pre = []" using below unfolding filter_empty_conv not_le by blast
  moreover have "filter (\<lambda>m. t \<le> seq_of m) ?post = ?post" using above by (intro filter_True) (blast intro: less_imp_le)
  ultimately show "filter (\<lambda>m. t \<le> seq_of m) (concat segs @ cur) = filter (\<lambda>m. t \<le> seq_of m) ?seg @ ?post" unfolding split by simp
  show "\<forall>j<i. seq_of (last (segs ! j)) < t"
  proof (intro allI impI)
    fix j assume j: "j < i"
    have "j < length segs" using j assms(3) by simp
    then have "segs ! j \<noteq> []" using assms(2) nth_mem by metis
    moreover have "segs ! j \<in> set (take i segs)" using j assms(3) by (simp add: in_set_conv_nth) (metis nth_take)
    ultimately have "last (segs ! j) \<in> set ?pre" by (simp add: bexI [of _ "segs ! j"])
    then show "seq_of (last (segs ! j)) < t" by (rule below)
  qed
qed


lemma read_from:
  assumes "layout crc stream_id d segs act" "segs_ok stream_id segs" "case act of None \<Rightarrow> cur = [] \<and> bs = [] | Some data \<Rightarrow> data = frames crc cur @ bs"
    "messages_ok cur" "log_fits crc (cur # segs) bs" "torn crc bs" "crc_u32 crc" "ascending (concat segs @ cur)" "placeable segs t"
  shows "\<exists>r. open_from_seq stream_id t d = Inr r \<and>
    read_all crc d r = Inr (map (raw_of crc) (filter (\<lambda>m. t \<le> seq_of m) (concat segs @ cur)))"
proof (cases "infos_of stream_id segs act = []")
  case True
  then have "segs = []" "act = None" by (auto simp: infos_of_def split: if_splits)
  then show ?thesis using listing [OF assms(1,2)] assms(3)
    by (simp add: open_from_seq_def infos_of_def pick_start_idx_def Let_def read_all.simps wal_next.simps)
next
  case False
  let ?infos = "infos_of stream_id segs act" and ?contents = "contents_of segs act cur"
  have len: "length ?infos = length ?contents" and all: "concat ?contents = concat segs @ cur"
    using assms(3) by (auto simp: infos_of_def contents_of_def)
  have nonempty: "[] \<notin> set segs" using assms(2) by (simp add: segs_ok_def)
  have hold: "holds crc d ?infos ?contents bs" using layout_holds [OF assms(1-5)] .
  note from_idx = read_from_idx [OF listing [OF assms(1,2)] hold assms(6,7)]
  consider (zero) "t = 0" | (inside) i where "t \<noteq> 0" "i < length segs" "seq_of (hd (segs ! i)) \<le> t" "t \<le> seq_of (last (segs ! i))"
    | (above) "t \<noteq> 0" "\<forall>m\<in>set (concat segs). seq_of m < t"
    using assms(9) unfolding placeable_def seg_range_def fst_conv snd_conv by (metis in_set_conv_nth)
  then show ?thesis
  proof cases
    case zero
    have "?contents \<noteq> []" using False len by auto
    then have "?contents ! 0 @ concat (drop (Suc 0) ?contents) = concat ?contents" by (cases ?contents) simp_all
    then show ?thesis using from_idx [of 0 t] zero False all by (simp add: pick_start_idx_def)
  next
    case (inside i)
    note split = ascending_split [OF assms(8) nonempty inside(2-4)]
    have at: "j < length segs \<Longrightarrow> ?infos ! j = segment_info stream_id (seg_range (segs ! j))" for j
      by (simp add: infos_of_def nth_append)
    have "pick_start_idx ?infos t = 0 + i"
      unfolding pick_start_idx_def using False inside(1)
    proof (simp, intro pick_idx_hit [where k = 0, simplified])
      show "i < length ?infos" using inside(2) by (simp add: infos_of_def)
      show "covers (?infos ! i) t" using at [OF inside(2)] inside(3,4) by (simp add: seg_range_def)
      show "\<forall>j<i. \<not> covers (?infos ! j) t" using at split(2) inside(2) by (auto simp: seg_range_def not_le)
    qed
    moreover have "i < length ?infos" using inside(2) by (simp add: infos_of_def)
    moreover have "?contents ! i = segs ! i" "concat (drop (Suc i) ?contents) = concat (drop (Suc i) segs) @ cur"
      using inside(2) assms(3) by (auto simp: contents_of_def nth_append)
    ultimately show ?thesis using from_idx [of i t] split(1) by simp
  next
    case above
    have none: "\<forall>f\<in>set ?infos. \<not> covers f t"
    proof -
      have "seq_of (last seg) < t" if "seg \<in> set segs" for seg
        using above(2) that nonempty by (metis UN_I last_in_set set_concat)
      then show ?thesis by (auto simp: infos_of_def seg_range_def not_le)
    qed
    let ?i = "length ?infos - 1"
    have "pick_start_idx ?infos t = ?i"
      using False above(1) pick_idx_miss [OF False none, of 0 0] by (simp add: pick_start_idx_def)
    moreover have "filter (\<lambda>m. t \<le> seq_of m) (?contents ! ?i) @ concat (drop (Suc ?i) ?contents) = filter (\<lambda>m. t \<le> seq_of m) (concat segs @ cur)"
    proof -
      have "filter (\<lambda>m. t \<le> seq_of m) (concat segs) = []" using above(2) by (auto simp: filter_empty_conv not_le)
      moreover have "filter (\<lambda>m. t \<le> seq_of m) (last segs) = []" if "segs \<noteq> []"
        using above(2) last_in_set [OF that] by (fastforce simp: filter_empty_conv not_le)
      ultimately show ?thesis using assms(3) False len
        by (cases act) (auto simp: contents_of_def infos_of_def nth_append last_conv_nth)
    qed
    ultimately show ?thesis using from_idx [of ?i t] False by simp
  qed
qed

end
