(* ===== verification/Wal_Writer.thy ===== *)
theory Wal_Writer
  imports Wal_Read "HOL-Library.AList"
begin

text \<open>
  The writer of the write-ahead log (\<open>WalWriter\<close> of \<open>rsx-cast/src/wal.rs\<close>) over the files of \<open>Wal_Files\<close>. Which of the calls to the
  operating system fail, how much of a failed write reached the file and which rotated segments are old enough to be removed are inputs of
  an operation; the operation returns its result with the writer and the directory it leaves. While a rotation is under way the writer
  holds a handle on \<open>/dev/null\<close>, to which \<open>sync_all\<close> fails.
\<close>

section \<open>State\<close>

datatype file_handle = ActiveFile | DevNull

record wal_writer =
  ww_stream_id :: u32
  ww_next_seq :: u64
  ww_buf :: "u8 list"
  ww_file :: file_handle
  ww_file_size :: u64
  ww_first_seq :: "u64 option"
  ww_flushed_seq :: u64
  ww_buf_first_seq :: "u64 option"
  ww_last_seq :: u64
  ww_max_file_size :: u64
  ww_records_since_flush :: u32

definition FLUSH_RECORD_THRESHOLD :: u32 where "FLUSH_RECORD_THRESHOLD = 1000"

definition content :: "dir \<Rightarrow> string \<Rightarrow> u8 list" where
  "content d name = (case map_of d name of None \<Rightarrow> [] | Some data \<Rightarrow> data)"

definition open_append :: "dir \<Rightarrow> string \<Rightarrow> dir" where
  "open_append d name = (case map_of d name of None \<Rightarrow> AList.update name [] d | Some data \<Rightarrow> d)"

definition rename_file :: "dir \<Rightarrow> string \<Rightarrow> string \<Rightarrow> dir" where
  "rename_file d a b = AList.update b (content d a) (AList.delete a d)"

section \<open>Opening and appending\<close>

definition wal_new :: "crc_fun \<Rightarrow> u32 \<Rightarrow> dir \<Rightarrow> u64 \<Rightarrow> (wal_error + wal_writer) \<times> dir" where
  "wal_new crc stream_id d max_file_size =
     (let active = active_filename stream_id; d1 = open_append d active in
      case cut_torn_tail crc (content d1 active) of
        Inl e \<Rightarrow> (Inl e, d1)
      | Inr data \<Rightarrow>
          let rng = scan_file_seq_range crc data in
          (Inr \<lparr>ww_stream_id = stream_id, ww_next_seq = 1, ww_buf = [], ww_file = ActiveFile, ww_file_size = length data,
             ww_first_seq = map_option fst rng, ww_flushed_seq = (case rng of None \<Rightarrow> 0 | Some (first_seq, last_seq) \<Rightarrow> last_seq),
             ww_buf_first_seq = None, ww_last_seq = 0, ww_max_file_size = max_file_size, ww_records_since_flush = 0\<rparr>,
           AList.update active data d1))"

definition set_next_seq :: "wal_writer \<Rightarrow> u64 \<Rightarrow> wal_writer" where
  "set_next_seq w seq = w\<lparr>ww_next_seq := seq, ww_last_seq := (if ww_last_seq w < seq - 1 then seq - 1 else ww_last_seq w)\<rparr>"

definition prepare :: "crc_fun \<Rightarrow> wal_writer \<Rightarrow> nat \<Rightarrow> u8 list \<Rightarrow> (framed \<times> wal_writer) option" where
  "prepare crc w record_type rec = do {
     framed \<leftarrow> pack crc record_type rec (ww_next_seq w);
     Some (framed, w\<lparr>ww_next_seq := u64_add (ww_next_seq w) 1\<rparr>)
   }"

definition append_framed :: "wal_writer \<Rightarrow> framed \<Rightarrow> (wal_error + unit) \<times> wal_writer" where
  "append_framed w fr =
     (let limit = max (min (ww_max_file_size w * 2) u64_max) 262144 in
      if length (ww_buf w) > limit then (Inl WouldBlock, w)
      else (Inr (), w\<lparr>ww_last_seq := fr_seq fr,
        ww_buf_first_seq := (case ww_buf_first_seq w of None \<Rightarrow> Some (fr_seq fr) | Some s \<Rightarrow> Some s),
        ww_buf := ww_buf w @ fr_wire fr, ww_records_since_flush := (ww_records_since_flush w + 1) mod 4294967296\<rparr>))"

definition should_flush :: "wal_writer \<Rightarrow> bool" where
  "should_flush w \<longleftrightarrow> ww_records_since_flush w \<ge> FLUSH_RECORD_THRESHOLD"

definition wal_last_seq :: "wal_writer \<Rightarrow> u64" where "wal_last_seq w = ww_last_seq w"

section \<open>Rotating and flushing\<close>

text \<open>\<open>ri_aged\<close> holds of the segments whose modification time is past the retention and whose removal succeeds.\<close>

record rotate_io =
  ri_sync_ok :: bool
  ri_null_ok :: bool
  ri_rename_ok :: bool
  ri_open_ok :: bool
  ri_aged :: "string \<Rightarrow> bool"

record flush_io =
  fi_metadata_ok :: bool
  fi_set_len_ok :: bool
  fi_rotate_before :: rotate_io
  fi_written :: "nat option"
  fi_sync_ok :: bool
  fi_rotate_after :: rotate_io

type_synonym wal_step = "(wal_error + unit) \<times> wal_writer \<times> dir"

definition then_do :: "wal_step \<Rightarrow> (wal_writer \<Rightarrow> dir \<Rightarrow> wal_step) \<Rightarrow> wal_step" where
  "then_do s f = (case s of (Inl e, w, d) \<Rightarrow> (Inl e, w, d) | (Inr u, w, d) \<Rightarrow> f w d)"

lemma then_do_simps [simp]: "then_do (Inl e, w, d) f = (Inl e, w, d)" "then_do (Inr u, w, d) f = f w d"
  by (simp_all add: then_do_def)

definition prune_old_segments :: "u32 \<Rightarrow> (string \<Rightarrow> bool) \<Rightarrow> dir \<Rightarrow> dir" where
  "prune_old_segments stream_id aged d = filter (\<lambda>(name, data).
     name = active_filename stream_id \<or>
     (case parse_wal_filename name of Some info \<Rightarrow> wf_stream_id info \<noteq> stream_id | None \<Rightarrow> True) \<or> \<not> aged name) d"

definition rotate :: "rotate_io \<Rightarrow> wal_writer \<Rightarrow> dir \<Rightarrow> wal_step" where
  "rotate io w d =
     (let active_path = active_filename (ww_stream_id w);
          rotated_path = segment_filename (ww_stream_id w) (case ww_first_seq w of None \<Rightarrow> ww_flushed_seq w | Some s \<Rightarrow> s) (ww_flushed_seq w) in
      if ww_file w = DevNull \<or> \<not> ri_sync_ok io then (Inl IoFailed, w, d)
      else if \<not> ri_null_ok io then (Inl IoFailed, w, d)
      else let w1 = w\<lparr>ww_file := DevNull\<rparr> in
        if \<not> ri_rename_ok io \<or> map_of d active_path = None then (Inl IoFailed, w1, d)
        else let d1 = rename_file d active_path rotated_path in
          if \<not> ri_open_ok io then (Inl IoFailed, w1, d1)
          else (Inr (), w1\<lparr>ww_file := ActiveFile, ww_file_size := 0, ww_first_seq := None\<rparr>,
            prune_old_segments (ww_stream_id w) (ri_aged io) (open_append d1 active_path)))"

text \<open>The steps of \<open>flush\<close>: cut off what a failed attempt left, rotate when the buffer does not fit, write, sync, rotate when full.\<close>

definition cut_excess :: "flush_io \<Rightarrow> wal_writer \<Rightarrow> dir \<Rightarrow> wal_step" where
  "cut_excess io w d =
     (let active = active_filename (ww_stream_id w); len = (if ww_file w = DevNull then 0 else length (content d active)) in
      if \<not> fi_metadata_ok io then (Inl IoFailed, w, d)
      else if len > ww_file_size w then
        (if \<not> fi_set_len_ok io then (Inl IoFailed, w, d) else (Inr (), w, AList.update active (take (ww_file_size w) (content d active)) d))
      else (Inr (), w, d))"

definition rotate_if :: "bool \<Rightarrow> rotate_io \<Rightarrow> wal_writer \<Rightarrow> dir \<Rightarrow> wal_step" where
  "rotate_if c io w d = (if c then rotate io w d else (Inr (), w, d))"

definition write_buf :: "flush_io \<Rightarrow> wal_writer \<Rightarrow> dir \<Rightarrow> wal_step" where
  "write_buf io w d =
     (let active = active_filename (ww_stream_id w);
          put = (\<lambda>bs. if ww_file w = DevNull then d else AList.update active (content d active @ bs) d) in
      case fi_written io of
        Some n \<Rightarrow> (Inl IoFailed, w, put (take n (ww_buf w)))
      | None \<Rightarrow>
          if ww_file w = DevNull \<or> \<not> fi_sync_ok io then (Inl IoFailed, w, put (ww_buf w))
          else (Inr (), w\<lparr>ww_file_size := ww_file_size w + length (ww_buf w), ww_buf := [],
            ww_first_seq := (case ww_first_seq w of None \<Rightarrow> ww_buf_first_seq w | Some s \<Rightarrow> Some s), ww_buf_first_seq := None,
            ww_flushed_seq := ww_last_seq w, ww_records_since_flush := 0\<rparr>, put (ww_buf w)))"

definition flush :: "flush_io \<Rightarrow> wal_writer \<Rightarrow> dir \<Rightarrow> wal_step" where
  "flush io w d =
     (if ww_buf w = [] then (Inr (), w, d)
      else then_do (then_do (then_do (cut_excess io w d)
        (\<lambda>w d. rotate_if (ww_file_size w > 0 \<and> ww_file_size w + length (ww_buf w) \<ge> ww_max_file_size w) (fi_rotate_before io) w d))
        (write_buf io))
        (\<lambda>w d. rotate_if (ww_file_size w \<ge> ww_max_file_size w) (fi_rotate_after io) w d))"

end
