(* ===== verification/Wal_Props.thy ===== *)
theory Wal_Props
  imports Wal_Writer
begin

text \<open>
  The log never loses, duplicates or reorders a record it has acknowledged. The invariant ties the writer's counters to the directory:
  the rotated segments and the active file hold the flushed records in order, and behind them there is at most a prefix of the pending
  ones. It is kept by every operation, whatever call to the operating system fails, and by a restart.
\<close>

section \<open>Directory updates\<close>

lemma log_lookup:
  "map_of (log_entries crc stream_id segs act) name =
    (if name = active_filename stream_id then act else map_of (map (seg_entry crc stream_id) segs) name)"
proof -
  have "map_of (map (seg_entry crc stream_id) segs) (active_filename stream_id) = None"
    by (auto simp: map_of_eq_None_iff seg_entry_def segment_not_active_name [symmetric])
  then show ?thesis by (auto simp: log_entries_def map_add_def split: option.splits)
qed

lemma layout_iff:
  "layout crc stream_id d segs act \<longleftrightarrow> distinct (map fst d) \<and> map_of d (active_filename stream_id) = act \<and>
     (\<forall>name. file_info stream_id name \<noteq> None \<longrightarrow> name \<noteq> active_filename stream_id \<longrightarrow>
        map_of d name = map_of (map (seg_entry crc stream_id) segs) name)"
  unfolding layout_def log_lookup using file_info_active [of stream_id] by (metis option.distinct(1))

lemma layout_write:
  "layout crc stream_id d segs act \<Longrightarrow> layout crc stream_id (AList.update (active_filename stream_id) data d) segs (Some data)"
  unfolding layout_iff by (simp add: distinct_update update_conv')

lemma layout_open:
  assumes "layout crc stream_id d segs act"
  shows "layout crc stream_id (open_append d (active_filename stream_id)) segs (Some (case act of None \<Rightarrow> [] | Some data \<Rightarrow> data))"
proof (cases act)
  case None
  then show ?thesis using layout_write [OF assms, of "[]"] assms by (simp add: open_append_def layout_iff)
next
  case (Some data)
  then show ?thesis using assms by (simp add: open_append_def layout_iff)
qed

lemma layout_content: "layout crc stream_id d segs (Some data) \<Longrightarrow> content d (active_filename stream_id) = data"
  by (simp add: layout_iff content_def)

lemma layout_rename:
  assumes "layout crc stream_id d segs (Some (frames crc cur))" "segs_ok stream_id (segs @ [cur])"
  shows "layout crc stream_id (rename_file d (active_filename stream_id) (segment_filename stream_id (seq_of (hd cur)) (seq_of (last cur))))
    (segs @ [cur]) None"
proof -
  let ?nm = "segment_filename stream_id (seq_of (hd cur)) (seq_of (last cur))" and ?act = "active_filename stream_id"
  have "?nm \<notin> fst ` set (map (seg_entry crc stream_id) segs)"
    using names_distinct [OF assms(2), of crc None] by (auto simp: log_entries_def seg_entry_def)
  then have fresh: "map_of (map (seg_entry crc stream_id) segs) ?nm = None" by (simp add: map_of_eq_None_iff)
  have data: "content d ?act = frames crc cur" using layout_content [OF assms(1)] .
  have look: "map_of (rename_file d ?act ?nm) name = (if name = ?nm then Some (frames crc cur) else if name = ?act then None else map_of d name)" for name
    by (simp add: rename_file_def data update_conv' delete_conv')
  show ?thesis
    unfolding layout_iff
  proof (intro conjI allI impI)
    show "distinct (map fst (rename_file d ?act ?nm))"
      using assms(1) by (simp add: rename_file_def layout_iff distinct_update distinct_delete)
    show "map_of (rename_file d ?act ?nm) ?act = None" by (simp add: look segment_not_active_name [symmetric])
    fix name assume "file_info stream_id name \<noteq> None" "name \<noteq> ?act"
    moreover from this have "map_of d name = map_of (map (seg_entry crc stream_id) segs) name" using assms(1) by (simp add: layout_iff)
    ultimately show "map_of (rename_file d ?act ?nm) name = map_of (map (seg_entry crc stream_id) (segs @ [cur])) name"
      using fresh by (simp add: look map_add_def seg_entry_def split: option.splits)
  qed
qed

lemma prune_none: "prune_old_segments stream_id (\<lambda>name. False) d = d"
  by (simp add: prune_old_segments_def case_prod_beta)


section \<open>The invariant\<close>

definition msgs_inv :: "crc_fun \<Rightarrow> u32 \<Rightarrow> message list list \<Rightarrow> message list \<Rightarrow> message list \<Rightarrow> bool" where
  "msgs_inv crc stream_id segs cur pend \<longleftrightarrow> stream_id \<le> u32_max \<and> [] \<notin> set segs \<and> messages_ok (concat segs @ cur @ pend) \<and>
     ascending (concat segs @ cur @ pend) \<and> (\<forall>m\<in>set (concat segs @ cur @ pend). seq_of m < u64_max) \<and>
     length (frames crc (concat segs @ cur @ pend)) \<le> u64_max"

definition buf_inv :: "crc_fun \<Rightarrow> wal_writer \<Rightarrow> message list \<Rightarrow> bool" where
  "buf_inv crc w pend \<longleftrightarrow> ww_buf w = frames crc pend \<and> ww_buf_first_seq w = map_option fst (seq_range pend) \<and>
     (pend \<noteq> [] \<longrightarrow> ww_last_seq w = seq_of (last pend))"

definition file_inv :: "crc_fun \<Rightarrow> wal_writer \<Rightarrow> message list \<Rightarrow> bool" where
  "file_inv crc w cur \<longleftrightarrow> ww_file w = ActiveFile \<and> ww_file_size w = length (frames crc cur) \<and>
     ww_first_seq w = map_option fst (seq_range cur) \<and> (cur \<noteq> [] \<longrightarrow> ww_flushed_seq w = seq_of (last cur))"

definition live :: "crc_fun \<Rightarrow> wal_writer \<Rightarrow> dir \<Rightarrow> message list list \<Rightarrow> message list \<Rightarrow> message list \<Rightarrow> u8 list \<Rightarrow> bool" where
  "live crc w d segs cur pend bs \<longleftrightarrow> msgs_inv crc (ww_stream_id w) segs cur pend \<and> buf_inv crc w pend \<and> file_inv crc w cur \<and>
     layout crc (ww_stream_id w) d segs (Some (frames crc cur @ bs)) \<and> (\<exists>n. bs = take n (frames crc pend))"

text \<open>After a rotation that failed half way the writer has no file, and every later flush fails until the process restarts.\<close>

definition broken :: "crc_fun \<Rightarrow> wal_writer \<Rightarrow> dir \<Rightarrow> message list list \<Rightarrow> message list \<Rightarrow> message list \<Rightarrow> bool" where
  "broken crc w d segs cur pend \<longleftrightarrow> msgs_inv crc (ww_stream_id w) segs cur pend \<and> buf_inv crc w pend \<and> ww_file w = DevNull \<and>
     0 < ww_file_size w \<and> ww_max_file_size w \<le> ww_file_size w + length (ww_buf w) \<and>
     (layout crc (ww_stream_id w) d segs (Some (frames crc cur)) \<or> cur = [] \<and> layout crc (ww_stream_id w) d segs None)"

lemma segs_ok_of:
  assumes "msgs_inv crc stream_id segs cur pend"
  shows "segs_ok stream_id segs" "cur \<noteq> [] \<Longrightarrow> segs_ok stream_id (segs @ [cur])"
  using assms by (auto simp: msgs_inv_def segs_ok_def sorted_wrt_append)

lemma msgs_inv_rotate: "cur \<noteq> [] \<Longrightarrow> msgs_inv crc stream_id segs cur pend \<Longrightarrow> msgs_inv crc stream_id (segs @ [cur]) [] pend"
  by (auto simp: msgs_inv_def)

lemma msgs_inv_flush: "msgs_inv crc stream_id segs cur pend \<Longrightarrow> msgs_inv crc stream_id segs (cur @ pend) []"
  by (simp add: msgs_inv_def)

lemma msgs_inv_cut: "msgs_inv crc stream_id segs cur (p @ q) \<Longrightarrow> msgs_inv crc stream_id segs (cur @ p) []"
proof -
  assume inv: "msgs_inv crc stream_id segs cur (p @ q)"
  have "ascending ((concat segs @ cur @ p) @ q)" using inv by (simp add: msgs_inv_def)
  then have "ascending (concat segs @ cur @ p)" unfolding map_append [of _ _ q] sorted_wrt_append by blast
  moreover have "\<forall>m\<in>set (concat segs @ cur @ p). seq_of m < u64_max" using inv unfolding msgs_inv_def set_append by blast
  ultimately show ?thesis using inv unfolding msgs_inv_def by simp
qed

lemma cut_excess_live:
  assumes "live crc w d segs cur pend bs" "cut_excess io w d = (res, w', d')"
  shows "w' = w" "res = Inr () \<Longrightarrow> live crc w d' segs cur pend []" "res \<noteq> Inr () \<Longrightarrow> d' = d"
proof -
  note live = assms(1) [unfolded live_def]
  have fil: "ww_file w = ActiveFile" "ww_file_size w = length (frames crc cur)" using live by (simp_all add: file_inv_def)
  have data: "content d (active_filename (ww_stream_id w)) = frames crc cur @ bs" using live layout_content by blast
  show "w' = w" "res \<noteq> Inr () \<Longrightarrow> d' = d"
    using assms(2) by (auto simp: cut_excess_def Let_def split: if_splits)
  show "live crc w d' segs cur pend []" if "res = Inr ()"
  proof (cases "bs = []")
    case True
    then have "d' = d" using assms(2) that fil data by (auto simp: cut_excess_def Let_def split: if_splits)
    then show ?thesis using assms(1) True by simp
  next
    case False
    then have d': "d' = AList.update (active_filename (ww_stream_id w)) (frames crc cur) d"
      using assms(2) that fil data by (auto simp: cut_excess_def Let_def split: if_splits)
    have "layout crc (ww_stream_id w) d' segs (Some (frames crc cur))" unfolding d' using live by (blast intro: layout_write)
    moreover have "\<exists>n. [] = take n (frames crc pend)" by (intro exI [of _ 0]) simp
    ultimately show ?thesis using live by (simp add: live_def)
  qed
qed

lemma write_buf_live:
  assumes "live crc w d segs cur pend []" "write_buf io w d = (res, w', d')" "pend \<noteq> []"
  shows "res = Inr () \<Longrightarrow> live crc w' d' segs (cur @ pend) [] [] \<and> ww_buf w' = [] \<and> ww_file_size w' = length (frames crc (cur @ pend)) \<and>
      ww_max_file_size w' = ww_max_file_size w \<and> ww_stream_id w' = ww_stream_id w"
    and "res \<noteq> Inr () \<Longrightarrow> w' = w \<and> (\<exists>bs. live crc w d' segs cur pend bs)"
proof -
  note live = assms(1) [unfolded live_def]
  have fil: "ww_file w = ActiveFile" "ww_file_size w = length (frames crc cur)" and buf: "ww_buf w = frames crc pend"
    using live by (simp_all add: file_inv_def buf_inv_def)
  have data: "content d (active_filename (ww_stream_id w)) = frames crc cur" using live layout_content [of crc "ww_stream_id w" d segs "frames crc cur"] by simp
  have written: "layout crc (ww_stream_id w) (AList.update (active_filename (ww_stream_id w)) (frames crc cur @ xs) d) segs (Some (frames crc cur @ xs))" for xs
    using live by (blast intro: layout_write)
  show "live crc w' d' segs (cur @ pend) [] [] \<and> ww_buf w' = [] \<and> ww_file_size w' = length (frames crc (cur @ pend)) \<and>
      ww_max_file_size w' = ww_max_file_size w \<and> ww_stream_id w' = ww_stream_id w" if "res = Inr ()"
  proof -
    have w': "w' = w\<lparr>ww_file_size := ww_file_size w + length (ww_buf w), ww_buf := [],
        ww_first_seq := (case ww_first_seq w of None \<Rightarrow> ww_buf_first_seq w | Some s \<Rightarrow> Some s), ww_buf_first_seq := None,
        ww_flushed_seq := ww_last_seq w, ww_records_since_flush := 0\<rparr>"
      and d': "d' = AList.update (active_filename (ww_stream_id w)) (frames crc cur @ frames crc pend) d"
      using assms(2) that fil buf data by (auto simp: write_buf_def Let_def split: if_splits option.splits)
    have "file_inv crc w' (cur @ pend)" "buf_inv crc w' []"
      using live assms(3) buf unfolding w' by (auto simp: file_inv_def buf_inv_def seq_range_def)
    then show ?thesis using live written [of "frames crc pend"] fil buf unfolding live_def d'
      by (simp add: w' msgs_inv_flush)
  qed
  show "w' = w \<and> (\<exists>bs. live crc w d' segs cur pend bs)" if err: "res \<noteq> Inr ()"
  proof -
    obtain n where "w' = w" and d': "d' = AList.update (active_filename (ww_stream_id w)) (frames crc cur @ take n (frames crc pend)) d"
    proof (cases "fi_written io")
      case None
      then have "w' = w" "d' = AList.update (active_filename (ww_stream_id w)) (frames crc cur @ take (length (frames crc pend)) (frames crc pend)) d"
        using assms(2) err fil buf data by (auto simp: write_buf_def Let_def split: if_splits)
      then show ?thesis by (rule that)
    next
      case (Some n)
      then have "w' = w" "d' = AList.update (active_filename (ww_stream_id w)) (frames crc cur @ take n (frames crc pend)) d"
        using assms(2) fil buf data by (auto simp: write_buf_def Let_def)
      then show ?thesis by (rule that)
    qed
    then show ?thesis using live written [of "take n (frames crc pend)"] unfolding live_def d' by blast
  qed
qed


lemma rotate_live:
  assumes "live crc w d segs cur pend []" "rotate io w d = (res, w', d')" "cur \<noteq> []"
    "ww_max_file_size w \<le> ww_file_size w + length (ww_buf w)" "ri_aged io = (\<lambda>name. False)"
  shows "res = Inr () \<Longrightarrow> live crc w' d' (segs @ [cur]) [] pend [] \<and> ww_buf w' = ww_buf w"
    and "res \<noteq> Inr () \<Longrightarrow> ww_buf w' = ww_buf w \<and> (live crc w' d' segs cur pend [] \<or> broken crc w' d' segs cur pend \<or> broken crc w' d' (segs @ [cur]) [] pend)"
proof -
  let ?sid = "ww_stream_id w"
  note live = assms(1) [unfolded live_def]
  have fil: "ww_file w = ActiveFile" "ww_file_size w = length (frames crc cur)" "ww_first_seq w = Some (seq_of (hd cur))"
    "ww_flushed_seq w = seq_of (last cur)" using live assms(3) by (auto simp: file_inv_def seq_range_def)
  have inv: "msgs_inv crc ?sid segs cur pend" and lay: "layout crc ?sid d segs (Some (frames crc cur))" and buf: "buf_inv crc w pend"
    using live by simp_all
  have "messages_ok cur" using inv by (simp add: msgs_inv_def)
  then have pos: "0 < ww_file_size w" using assms(3) fil(2) by simp
  let ?d1 = "rename_file d (active_filename ?sid) (segment_filename ?sid (seq_of (hd cur)) (seq_of (last cur)))"
  have renamed: "layout crc ?sid ?d1 (segs @ [cur]) None" using layout_rename [OF lay segs_ok_of(2) [OF inv assms(3)]] .
  have there: "map_of d (active_filename ?sid) \<noteq> None" using lay by (simp add: layout_iff)
  let ?w1 = "w\<lparr>ww_file := DevNull\<rparr>"
  have before: "broken crc ?w1 d segs cur pend" using inv lay buf pos assms(4) by (simp add: broken_def buf_inv_def)
  have after: "broken crc ?w1 ?d1 (segs @ [cur]) [] pend"
    using msgs_inv_rotate [OF assms(3) inv] renamed buf pos assms(4) by (simp add: broken_def buf_inv_def)
  show "live crc w' d' (segs @ [cur]) [] pend [] \<and> ww_buf w' = ww_buf w" if "res = Inr ()"
  proof -
    have "w' = ?w1\<lparr>ww_file := ActiveFile, ww_file_size := 0, ww_first_seq := None\<rparr>" "d' = open_append ?d1 (active_filename ?sid)"
      using assms(2,5) that fil by (auto simp: rotate_def Let_def prune_none split: if_splits)
    moreover have "layout crc ?sid (open_append ?d1 (active_filename ?sid)) (segs @ [cur]) (Some [])" using layout_open [OF renamed] by simp
    moreover have "\<exists>n. [] = take n (frames crc pend)" by (intro exI [of _ 0]) simp
    ultimately show ?thesis using msgs_inv_rotate [OF assms(3) inv] buf
      by (simp add: live_def file_inv_def buf_inv_def seq_range_def)
  qed
  show "ww_buf w' = ww_buf w \<and> (live crc w' d' segs cur pend [] \<or> broken crc w' d' segs cur pend \<or> broken crc w' d' (segs @ [cur]) [] pend)"
    if err: "res \<noteq> Inr ()"
  proof -
    consider "w' = w" "d' = d" | "w' = ?w1" "d' = d" | "w' = ?w1" "d' = ?d1"
      using assms(2) err fil there by (auto simp: rotate_def Let_def split: if_splits)
    then show ?thesis using assms(1) before after by cases simp_all
  qed
qed

section \<open>Operations\<close>

definition wal_state :: "crc_fun \<Rightarrow> wal_writer \<Rightarrow> dir \<Rightarrow> message list \<Rightarrow> message list \<Rightarrow> bool" where
  "wal_state crc w d stored pend \<longleftrightarrow> (\<exists>segs cur. stored = concat segs @ cur \<and>
     ((\<exists>bs. live crc w d segs cur pend bs) \<or> broken crc w d segs cur pend))"

lemma wal_stateI:
  "live crc w d segs cur pend bs \<Longrightarrow> stored = concat segs @ cur \<Longrightarrow> wal_state crc w d stored pend"
  "broken crc w d segs cur pend \<Longrightarrow> stored = concat segs @ cur \<Longrightarrow> wal_state crc w d stored pend"
  by (auto simp: wal_state_def)

definition no_retention :: "flush_io \<Rightarrow> bool" where
  "no_retention io \<longleftrightarrow> ri_aged (fi_rotate_before io) = (\<lambda>name. False) \<and> ri_aged (fi_rotate_after io) = (\<lambda>name. False)"

text \<open>What a flush leaves: either everything pending is stored, or nothing changed; it reports success only in the first case.\<close>

definition flushed :: "crc_fun \<Rightarrow> wal_step \<Rightarrow> message list \<Rightarrow> message list \<Rightarrow> bool" where
  "flushed crc r stored pend \<longleftrightarrow> (case r of (res, w', d') \<Rightarrow>
     (ww_buf w' = [] \<longrightarrow> wal_state crc w' d' (stored @ pend) []) \<and> (ww_buf w' \<noteq> [] \<longrightarrow> wal_state crc w' d' stored pend \<and> res \<noteq> Inr ()))"

lemma flush_write:
  assumes "live crc w d segs cur pend []" "pend \<noteq> []" "no_retention io" "stored = concat segs @ cur"
  shows "flushed crc (then_do (write_buf io w d) (\<lambda>w d. rotate_if (ww_file_size w \<ge> ww_max_file_size w) (fi_rotate_after io) w d)) stored pend"
proof -
  obtain res w1 d1 where wr: "write_buf io w d = (res, w1, d1)" by (cases "write_buf io w d") auto
  have buf: "ww_buf w \<noteq> []" using assms(1,2) by (auto simp: live_def buf_inv_def msgs_inv_def)
  show ?thesis
  proof (cases "res = Inr ()")
    case False
    then have "w1 = w \<and> (\<exists>bs. live crc w d1 segs cur pend bs)" using write_buf_live(2) [OF assms(1) wr assms(2)] by blast
    then show ?thesis using False wr buf assms(4)
      by (cases res) (auto simp: flushed_def intro: wal_stateI)
  next
    case True
    note ok = write_buf_live(1) [OF assms(1) wr assms(2) True]
    obtain res2 w2 d2 where rot: "rotate_if (ww_file_size w1 \<ge> ww_max_file_size w1) (fi_rotate_after io) w1 d1 = (res2, w2, d2)"
      by (metis prod_cases3)
    have "ww_buf w2 = [] \<and> wal_state crc w2 d2 (stored @ pend) []"
    proof (cases "ww_file_size w1 \<ge> ww_max_file_size w1")
      case False
      then show ?thesis using rot ok assms(4) by (auto simp: rotate_if_def intro: wal_stateI)
    next
      case full: True
      then have r: "rotate (fi_rotate_after io) w1 d1 = (res2, w2, d2)" using rot by (simp add: rotate_if_def)
      have live1: "live crc w1 d1 segs (cur @ pend) [] []" and ne: "cur @ pend \<noteq> []" and size: "ww_max_file_size w1 \<le> ww_file_size w1 + length (ww_buf w1)"
        and aged: "ri_aged (fi_rotate_after io) = (\<lambda>name. False)"
        using ok assms(2,3) full by (simp_all add: no_retention_def)
      note rl = rotate_live [OF live1 r ne size aged]
      show ?thesis
      proof (cases "res2 = Inr ()")
        case True
        then show ?thesis using rl(1) ok assms(4) by (auto intro!: wal_stateI(1) [where segs = "segs @ [cur @ pend]" and cur = "[]"])
      next
        case False
        from rl(2) [OF this] show ?thesis using ok assms(4)
          by (auto intro: wal_stateI(1,2) [where segs = segs and cur = "cur @ pend"] wal_stateI(2) [where segs = "segs @ [cur @ pend]" and cur = "[]"])
      qed
    qed
    then show ?thesis using wr True rot by (simp add: flushed_def)
  qed
qed

lemma flush_state:
  assumes "wal_state crc w d stored pend" "no_retention io"
  shows "flushed crc (flush io w d) stored pend"
proof (cases "pend = []")
  case True
  then have "ww_buf w = []" using assms(1) by (auto simp: wal_state_def live_def broken_def buf_inv_def)
  then show ?thesis using assms(1) True by (simp add: flush_def flushed_def)
next
  case False
  then have buf: "ww_buf w \<noteq> []" using assms(1) by (auto simp: wal_state_def live_def broken_def buf_inv_def msgs_inv_def)
  from assms(1) obtain segs cur where stored: "stored = concat segs @ cur"
    and "(\<exists>bs. live crc w d segs cur pend bs) \<or> broken crc w d segs cur pend" by (auto simp: wal_state_def)
  then consider (broken) "broken crc w d segs cur pend" | (live) bs where "live crc w d segs cur pend bs" by blast
  then show ?thesis
  proof cases
    case broken
    then have null: "ww_file w = DevNull" "0 < ww_file_size w" "ww_max_file_size w \<le> ww_file_size w + length (ww_buf w)"
      by (simp_all add: broken_def)
    then have "flush io w d = (Inl IoFailed, w, d)"
      using buf by (simp add: flush_def cut_excess_def rotate_if_def rotate_def Let_def)
    then show ?thesis using buf assms(1) by (simp add: flushed_def)
  next
    case live
    obtain res w1 d1 where cut: "cut_excess io w d = (res, w1, d1)" by (metis prod_cases3)
    note c = cut_excess_live [OF live cut]
    show ?thesis
    proof (cases "res = Inr ()")
      case False
      then obtain e where "res = Inl e" by (cases res) auto
      then have "flush io w d = (Inl e, w, d)" using buf cut c(1) c(3) [OF False] by (simp add: flush_def)
      then show ?thesis using buf assms(1) by (simp add: flushed_def)
    next
      case ok: True
      note live1 = c(2) [OF ok]
      let ?full = "ww_file_size w > 0 \<and> ww_file_size w + length (ww_buf w) \<ge> ww_max_file_size w"
      let ?tail = "\<lambda>s. then_do (then_do s (write_buf io)) (\<lambda>w d. rotate_if (ww_file_size w \<ge> ww_max_file_size w) (fi_rotate_after io) w d)"
      have fl: "flush io w d = ?tail (rotate_if ?full (fi_rotate_before io) w d1)"
        using buf cut ok c(1) by (simp add: flush_def)
      have go: "?tail (Inr (), w', d') = then_do (write_buf io w' d') (\<lambda>w d. rotate_if (ww_file_size w \<ge> ww_max_file_size w) (fi_rotate_after io) w d)" for w' d'
        by (simp add:)
      show ?thesis
      proof (cases ?full)
        case False
        then have "rotate_if ?full (fi_rotate_before io) w d1 = (Inr (), w, d1)" unfolding rotate_if_def by (rule if_not_P)
        then have "flush io w d = ?tail (Inr (), w, d1)" unfolding fl by simp
        then show ?thesis unfolding go using flush_write [OF live1 \<open>pend \<noteq> []\<close> assms(2) stored] by simp
      next
        case True
        obtain res2 w2 d2 where rot: "rotate (fi_rotate_before io) w d1 = (res2, w2, d2)" by (metis prod_cases3)
        have ne: "cur \<noteq> []" using True live1 by (auto simp: live_def file_inv_def)
        have aged: "ri_aged (fi_rotate_before io) = (\<lambda>name. False)" using assms(2) by (simp add: no_retention_def)
        note rl = rotate_live [OF live1 rot ne _ aged]
        have fl2: "flush io w d = ?tail (res2, w2, d2)" unfolding fl rotate_if_def using True rot by simp
        show ?thesis
        proof (cases "res2 = Inr ()")
          case r2: True
          then have "live crc w2 d2 (segs @ [cur]) [] pend []" using rl(1) True by simp
          from flush_write [OF this \<open>pend \<noteq> []\<close> assms(2)] show ?thesis using fl2 r2 stored by (simp add: go)
        next
          case r2: False
          then obtain e where e: "res2 = Inl e" by (cases res2) auto
          then have "flush io w d = (Inl e, w2, d2)" using fl2 by (simp add:)
          moreover have "ww_buf w2 = ww_buf w \<and> wal_state crc w2 d2 stored pend"
            using rl(2) [OF _ r2] True stored
            by (auto intro: wal_stateI(1,2) [where segs = segs and cur = cur] wal_stateI(2) [where segs = "segs @ [cur]" and cur = "[]"])
          ultimately show ?thesis using buf by (simp add: flushed_def)
        qed
      qed
    qed
  qed
qed


lemma msgs_inv_put:
  assumes "msgs_inv crc stream_id segs cur pend" "message_ok m" "\<forall>x\<in>set (concat segs @ cur @ pend). seq_of x < seq_of m" "seq_of m < u64_max"
    "length (frames crc (concat segs @ cur @ pend @ [m])) \<le> u64_max"
  shows "msgs_inv crc stream_id segs cur (pend @ [m])"
proof -
  have split: "concat segs @ cur @ pend @ [m] = (concat segs @ cur @ pend) @ [m]" by simp
  show ?thesis using assms(1-4) assms(5) unfolding msgs_inv_def split by (auto simp: sorted_wrt_append)
qed

lemma buf_inv_put:
  assumes "buf_inv crc w pend"
  shows "buf_inv crc (w\<lparr>ww_next_seq := s, ww_last_seq := seq_of m,
    ww_buf_first_seq := (case ww_buf_first_seq w of None \<Rightarrow> Some (seq_of m) | Some s \<Rightarrow> Some s),
    ww_buf := ww_buf w @ frame_of crc m, ww_records_since_flush := n\<rparr>) (pend @ [m])"
  using assms by (auto simp: buf_inv_def seq_range_def)

lemma put_state:
  assumes "wal_state crc w d stored pend" "prepare crc w record_type rec = Some (fr, w1)" "append_framed w1 fr = (res, w2)"
    "m = stamped record_type rec (ww_next_seq w)" "record_type < 65536" "8 \<le> length rec" "length rec \<le> 240" "bytes rec"
    "\<forall>x\<in>set (stored @ pend). seq_of x < ww_next_seq w" "ww_next_seq w < u64_max" "length (frames crc (stored @ pend @ [m])) \<le> u64_max"
  shows "wal_state crc w2 d stored (if res = Inr () then pend @ [m] else pend)" "ww_next_seq w2 = Suc (ww_next_seq w)"
proof -
  have m: "message_ok m" "seq_of m = ww_next_seq w"
    using assms(4-8,10) by (simp_all add: stamped_ok seq_of_stamped u64_max_def)
  have fr: "fr = \<lparr>fr_wire = frame_of crc m, fr_seq = seq_of m\<rparr>" and w1: "w1 = w\<lparr>ww_next_seq := Suc (ww_next_seq w)\<rparr>"
    using assms(2,4,10) m(2) pack_frame [OF assms(6,7), of crc record_type "ww_next_seq w"]
    by (auto simp: prepare_def u64_add_id u64_max_def)
  show "ww_next_seq w2 = Suc (ww_next_seq w)" using assms(3) w1 by (auto simp: append_framed_def Let_def split: if_splits)
  obtain segs cur where stored: "stored = concat segs @ cur"
    and st: "(\<exists>bs. live crc w d segs cur pend bs) \<or> broken crc w d segs cur pend" using assms(1) by (auto simp: wal_state_def)
  have inv: "msgs_inv crc (ww_stream_id w) segs cur pend" and buf: "buf_inv crc w pend" using st by (auto simp: live_def broken_def)
  have inv': "msgs_inv crc (ww_stream_id w) segs cur (pend @ [m])"
    using inv m assms(9,10,11) stored by (intro msgs_inv_put) simp_all
  show "wal_state crc w2 d stored (if res = Inr () then pend @ [m] else pend)"
  proof (cases "res = Inr ()")
    case False
    then have "w2 = w1" using assms(3) by (auto simp: append_framed_def Let_def split: if_splits)
    then show ?thesis using False assms(1) unfolding w1 by (simp add: wal_state_def live_def broken_def file_inv_def buf_inv_def)
  next
    case True
    then have w2: "w2 = w\<lparr>ww_next_seq := Suc (ww_next_seq w), ww_last_seq := seq_of m,
        ww_buf_first_seq := (case ww_buf_first_seq w of None \<Rightarrow> Some (seq_of m) | Some s \<Rightarrow> Some s),
        ww_buf := ww_buf w @ frame_of crc m, ww_records_since_flush := (ww_records_since_flush w + 1) mod 4294967296\<rparr>"
      using assms(3) by (cases "ww_buf_first_seq w") (auto simp: append_framed_def fr w1 Let_def split: if_splits)
    have buf': "buf_inv crc w2 (pend @ [m])" unfolding w2 by (rule buf_inv_put [OF buf])
    have "(\<exists>bs. live crc w2 d segs cur (pend @ [m]) bs) \<or> broken crc w2 d segs cur (pend @ [m])"
      using st
    proof
      assume "\<exists>bs. live crc w d segs cur pend bs"
      then obtain bs n where l: "live crc w d segs cur pend bs" and bs: "bs = take n (frames crc pend)" by (auto simp: live_def)
      have "bs = take (min n (length (frames crc pend))) (frames crc (pend @ [m]))" using bs by (simp add: min_def)
      then have pre: "\<exists>n. bs = take n (frames crc (pend @ [m]))" by blast
      have same: "ww_stream_id w2 = ww_stream_id w" "file_inv crc w2 cur = file_inv crc w cur" by (simp_all add: w2 file_inv_def)
      have "live crc w2 d segs cur (pend @ [m]) bs" using l inv' buf' pre unfolding live_def same by blast
      then show ?thesis by blast
    next
      assume "broken crc w d segs cur pend"
      then have "broken crc w2 d segs cur (pend @ [m])" using inv' buf' unfolding broken_def w2 by auto
      then show ?thesis by blast
    qed
    then show ?thesis using True stored by (auto simp: wal_state_def)
  qed
qed

section \<open>Reading back\<close>

definition on_disk :: "crc_fun \<Rightarrow> u32 \<Rightarrow> dir \<Rightarrow> message list \<Rightarrow> bool" where
  "on_disk crc stream_id d log \<longleftrightarrow> (\<exists>segs act cur bs. log = concat segs @ cur \<and> layout crc stream_id d segs act \<and>
     msgs_inv crc stream_id segs cur [] \<and> torn crc bs \<and> (case act of None \<Rightarrow> cur = [] \<and> bs = [] | Some data \<Rightarrow> data = frames crc cur @ bs) \<and>
     log_fits crc (cur # segs) bs)"

lemma frames_concat: "frames crc (concat mss) = concat (map (frames crc) mss)"
  by (induction mss) simp_all

lemma log_fitsI:
  assumes "length (frames crc (concat segs @ cur)) + length bs \<le> u64_max"
  shows "log_fits crc (cur # segs) bs"
proof -
  have "length (frames crc seg) \<le> length (frames crc (concat segs))" if "seg \<in> set segs" for seg
    using member_le_sum_list [of "length (frames crc seg)" "map (length \<circ> frames crc) segs"] that
    by (simp add: frames_concat length_concat comp_def)
  then show ?thesis using assms unfolding log_fits_def by fastforce
qed

lemma state_on_disk:
  assumes "wal_state crc w d stored pend"
  shows "\<exists>k. on_disk crc (ww_stream_id w) d (stored @ take k pend)"
proof -
  obtain segs cur where stored: "stored = concat segs @ cur"
    and st: "(\<exists>bs. live crc w d segs cur pend bs) \<or> broken crc w d segs cur pend" using assms by (auto simp: wal_state_def)
  from st show ?thesis
  proof
    assume "\<exists>bs. live crc w d segs cur pend bs"
    then obtain bs n where l: "live crc w d segs cur pend bs" and bs: "bs = take n (frames crc pend)" by (auto simp: live_def)
    have inv: "msgs_inv crc (ww_stream_id w) segs cur pend" using l by (simp add: live_def)
    then have "messages_ok pend" by (simp add: msgs_inv_def)
    then obtain k bs' where k: "bs = frames crc (take k pend) @ bs'" "torn crc bs'"
      using prefix_of_frames [of pend n crc] bs by blast
    have inv': "msgs_inv crc (ww_stream_id w) segs (cur @ take k pend) []"
      using msgs_inv_cut [of crc "ww_stream_id w" segs cur "take k pend" "drop k pend"] inv by simp
    have "length bs \<le> length (frames crc pend)" using bs by simp
    then have "length (frames crc (concat segs @ cur @ take k pend)) + length bs' \<le> u64_max"
      using inv k(1) by (auto simp: msgs_inv_def)
    then have "log_fits crc ((cur @ take k pend) # segs) bs'" by (intro log_fitsI) simp
    moreover have "layout crc (ww_stream_id w) d segs (Some (frames crc (cur @ take k pend) @ bs'))" using l k(1) by (simp add: live_def)
    ultimately have "on_disk crc (ww_stream_id w) d (stored @ take k pend)"
      unfolding on_disk_def using stored inv' k(2)
      by (intro exI [of _ segs] exI [of _ "Some (frames crc (cur @ take k pend) @ bs')"] exI [of _ "cur @ take k pend"] exI [of _ bs']) simp
    then show ?thesis by blast
  next
    assume b: "broken crc w d segs cur pend"
    then have inv: "msgs_inv crc (ww_stream_id w) segs cur []" using msgs_inv_cut [of crc "ww_stream_id w" segs cur "[]" pend] by (simp add: broken_def)
    then have "log_fits crc (cur # segs) []" by (intro log_fitsI) (simp add: msgs_inv_def)
    then have "on_disk crc (ww_stream_id w) d stored"
    proof -
      from b consider "layout crc (ww_stream_id w) d segs (Some (frames crc cur))" | "cur = []" "layout crc (ww_stream_id w) d segs None"
        by (auto simp: broken_def)
      then show ?thesis
      proof cases
        case 1
        then show ?thesis unfolding on_disk_def using inv stored \<open>log_fits crc (cur # segs) []\<close>
          by (intro exI [of _ segs] exI [of _ "Some (frames crc cur)"] exI [of _ cur] exI [of _ "[]"]) simp
      next
        case 2
        then show ?thesis unfolding on_disk_def using inv stored \<open>log_fits crc (cur # segs) []\<close>
          by (intro exI [of _ segs] exI [of _ None] exI [of _ cur] exI [of _ "[]"]) simp
      qed
    qed
    then show ?thesis by (metis append_Nil2 take0)
  qed
qed

lemma read_on_disk:
  assumes "on_disk crc stream_id d log" "crc_u32 crc"
  shows "\<exists>r. open_from_seq stream_id 0 d = Inr r \<and> read_all crc d r = Inr (map (raw_of crc) log)"
proof -
  obtain segs act cur bs where parts: "log = concat segs @ cur" "layout crc stream_id d segs act" "msgs_inv crc stream_id segs cur []" "torn crc bs"
      "case act of None \<Rightarrow> cur = [] \<and> bs = [] | Some data \<Rightarrow> data = frames crc cur @ bs" "log_fits crc (cur # segs) bs"
    using assms(1) by (auto simp: on_disk_def)
  have "messages_ok cur" "ascending (concat segs @ cur)" using parts(3) by (simp_all add: msgs_inv_def)
  then show ?thesis
    using read_from [OF parts(2) segs_ok_of(1) [OF parts(3)] parts(5) _ parts(6,4) assms(2), of 0] parts(1)
    by (simp add: placeable_def)
qed

lemma new_on_disk:
  assumes "on_disk crc stream_id d log" "crc_u32 crc"
  shows "\<exists>w' d'. wal_new crc stream_id d max_file_size = (Inr w', d') \<and> wal_state crc w' d' log [] \<and> ww_stream_id w' = stream_id"
proof -
  obtain segs act cur bs where parts: "log = concat segs @ cur" "layout crc stream_id d segs act" "msgs_inv crc stream_id segs cur []" "torn crc bs"
      "case act of None \<Rightarrow> cur = [] \<and> bs = [] | Some data \<Rightarrow> data = frames crc cur @ bs" "log_fits crc (cur # segs) bs"
    using assms(1) by (auto simp: on_disk_def)
  let ?act = "active_filename stream_id"
  have opened: "layout crc stream_id (open_append d ?act) segs (Some (frames crc cur @ bs))"
    using layout_open [OF parts(2)] parts(5) by (cases act) simp_all
  have ok: "messages_ok cur" "ascending cur" using parts(3) by (auto simp: msgs_inv_def sorted_wrt_append)
  have cut: "cut_torn_tail crc (content (open_append d ?act) ?act) = Inr (frames crc cur)"
    using cut_frames [OF ok(1) parts(4) assms(2), of "[]"] parts(6) layout_content [OF opened]
    by (simp add: cut_torn_tail_def log_fits_def)
  have scan: "scan_file_seq_range crc (frames crc cur) = seq_range cur" using scan_frames [OF ok(1) torn_Nil assms(2) ok(2)] by simp
  let ?w = "\<lparr>ww_stream_id = stream_id, ww_next_seq = 1, ww_buf = [], ww_file = ActiveFile, ww_file_size = length (frames crc cur),
    ww_first_seq = map_option fst (seq_range cur), ww_flushed_seq = (case seq_range cur of None \<Rightarrow> 0 | Some (first_seq, last_seq) \<Rightarrow> last_seq),
    ww_buf_first_seq = None, ww_last_seq = 0, ww_max_file_size = max_file_size, ww_records_since_flush = 0\<rparr>"
  let ?d = "AList.update ?act (frames crc cur) (open_append d ?act)"
  have "wal_new crc stream_id d max_file_size = (Inr ?w, ?d)" using cut scan by (simp add: wal_new_def Let_def)
  moreover have "live crc ?w ?d segs cur [] []"
    using parts(3) layout_write [OF opened, of "frames crc cur"] by (auto simp: live_def buf_inv_def file_inv_def seq_range_def)
  ultimately show ?thesis using parts(1) by (auto intro: wal_stateI)
qed


text \<open>Reading from a number, and reading one record.\<close>

definition contiguous :: "message list \<Rightarrow> bool" where
  "contiguous log \<longleftrightarrow> (\<exists>a. map seq_of log = [a..<a + length log])"

lemma ascending_less: "ascending (xs @ ys) \<Longrightarrow> x \<in> set xs \<Longrightarrow> y \<in> set ys \<Longrightarrow> seq_of x < seq_of y"
  by (simp add: sorted_wrt_append)

lemma contiguous_placeable:
  assumes "contiguous (concat segs @ cur)" "ascending (concat segs @ cur)" "concat segs @ cur \<noteq> []" "seq_of (hd (concat segs @ cur)) \<le> t"
  shows "placeable segs t"
proof (cases "\<forall>m\<in>set (concat segs). seq_of m < t")
  case True
  then show ?thesis by (simp add: placeable_def)
next
  case False
  then obtain m where m: "m \<in> set (concat segs)" "t \<le> seq_of m" by (meson not_le)
  obtain a where a: "map seq_of (concat segs @ cur) = [a..<a + length (concat segs @ cur)]" using assms(1) by (auto simp: contiguous_def)
  then have "seq_of (hd (concat segs @ cur)) = a"
    using assms(3) hd_map [OF assms(3), of seq_of] by simp
  then have at: "a \<le> t" using assms(4) by simp
  have "seq_of m \<in> set [a..<a + length (concat segs @ cur)]" using m(1) unfolding a [symmetric] by simp
  then have "t \<in> set [a..<a + length (concat segs @ cur)]" using at m(2) by simp
  then obtain x where x: "x \<in> set (concat segs @ cur)" "seq_of x = t" unfolding a [symmetric] by auto
  have "x \<notin> set cur"
  proof
    assume "x \<in> set cur"
    then have "seq_of m < seq_of x" using assms(2) m(1) by (auto simp: sorted_wrt_append)
    then show False using x(2) m(2) by simp
  qed
  then obtain seg where seg: "seg \<in> set segs" "x \<in> set seg" using x(1) by auto
  have "ascending seg"
  proof -
    obtain ys zs where "segs = ys @ seg # zs" using seg(1) by (auto dest: split_list)
    then show ?thesis using assms(2) by (simp add: sorted_wrt_append)
  qed
  then have "seq_of (hd seg) \<le> t \<and> t \<le> seq_of (last seg)" using ascending_bounds seg(2) x(2) by blast
  then show ?thesis using seg(1) by (auto simp: placeable_def seg_range_def)
qed

lemma read_from_disk:
  assumes "on_disk crc stream_id d log" "crc_u32 crc" "contiguous log" "log = [] \<or> seq_of (hd log) \<le> t"
  shows "\<exists>r. open_from_seq stream_id t d = Inr r \<and> read_all crc d r = Inr (map (raw_of crc) (filter (\<lambda>m. t \<le> seq_of m) log))"
proof -
  obtain segs act cur bs where parts: "log = concat segs @ cur" "layout crc stream_id d segs act" "msgs_inv crc stream_id segs cur []" "torn crc bs"
      "case act of None \<Rightarrow> cur = [] \<and> bs = [] | Some data \<Rightarrow> data = frames crc cur @ bs" "log_fits crc (cur # segs) bs"
    using assms(1) by (auto simp: on_disk_def)
  have ok: "messages_ok cur" "ascending (concat segs @ cur)" using parts(3) by (simp_all add: msgs_inv_def)
  have "placeable segs t"
  proof (cases "log = []")
    case True
    then have "set (concat segs) = {}" using parts(1) by simp
    then have "\<forall>m\<in>set (concat segs). seq_of m < t" by (simp only: ball_empty)
    then show ?thesis unfolding placeable_def by (intro disjI2)
  next
    case False
    then have "seq_of (hd log) \<le> t" using assms(4) by blast
    then show ?thesis using contiguous_placeable [OF _ ok(2)] False assms(3) unfolding parts(1) by blast
  qed
  then show ?thesis
    using read_from [OF parts(2) segs_ok_of(1) [OF parts(3)] parts(5) ok(1) parts(6,4) assms(2) ok(2)] parts(1) by simp
qed

lemma find_ascending:
  assumes "ascending ms"
  shows "List.find (\<lambda>m. seq_of m = t) ms = Some x \<longleftrightarrow> x \<in> set ms \<and> seq_of x = t"
  using assms
proof (induction ms)
  case (Cons m ms)
  then have "\<forall>y\<in>set ms. seq_of m < seq_of y" by auto
  then show ?case using Cons by (auto split: if_splits)
qed simp

lemma find_same:
  assumes "ascending xs" "ascending ys" "\<And>m. seq_of m = t \<Longrightarrow> m \<in> set xs \<longleftrightarrow> m \<in> set ys"
  shows "List.find (\<lambda>m. seq_of m = t) xs = List.find (\<lambda>m. seq_of m = t) ys"
proof (rule option.expand)
  have same: "List.find (\<lambda>m. seq_of m = t) xs = Some m \<longleftrightarrow> List.find (\<lambda>m. seq_of m = t) ys = Some m" for m
    unfolding find_ascending [OF assms(1)] find_ascending [OF assms(2)] using assms(3) by blast
  then show "(List.find (\<lambda>m. seq_of m = t) xs = None) = (List.find (\<lambda>m. seq_of m = t) ys = None)"
    by (metis not_Some_eq)
  show "the (List.find (\<lambda>m. seq_of m = t) xs) = the (List.find (\<lambda>m. seq_of m = t) ys)" if "List.find (\<lambda>m. seq_of m = t) xs \<noteq> None"
    "List.find (\<lambda>m. seq_of m = t) ys \<noteq> None" using same that by (metis option.sel not_Some_eq)
qed

lemma read_at_disk:
  assumes "on_disk crc stream_id d log" "crc_u32 crc"
  shows "read_record_at_seq crc stream_id t d = Inr (map_option (raw_of crc) (List.find (\<lambda>m. seq_of m = t) log))"
proof -
  obtain segs act cur bs where parts: "log = concat segs @ cur" "layout crc stream_id d segs act" "msgs_inv crc stream_id segs cur []" "torn crc bs"
      "case act of None \<Rightarrow> cur = [] \<and> bs = [] | Some data \<Rightarrow> data = frames crc cur @ bs" "log_fits crc (cur # segs) bs"
    using assms(1) by (auto simp: on_disk_def)
  note so = segs_ok_of(1) [OF parts(3)]
  have asc: "ascending log" and cur: "messages_ok cur" "ascending cur" using parts(1,3) by (auto simp: msgs_inv_def sorted_wrt_append)
  let ?infos = "infos_of stream_id segs act"
  have list: "list_wal_files_across stream_id [d] = ?infos" by (rule listing [OF parts(2) so])
  have seg_ok: "messages_ok seg \<and> ascending seg" if seg: "seg \<in> set segs" for seg
  proof -
    obtain ys zs where "segs = ys @ seg # zs" using seg by (auto dest: split_list)
    then show ?thesis using so by (auto simp: segs_ok_def sorted_wrt_append)
  qed
  have bounds: "seq_of (hd seg) \<le> seq_of m \<and> seq_of m \<le> seq_of (last seg)" if "seg \<in> set segs" "m \<in> set seg" for seg m
    using ascending_bounds seg_ok that by blast
  show ?thesis
  proof (cases "List.find (\<lambda>f. covers f t) ?infos")
    case (Some f)
    then have "f \<in> set ?infos" "covers f t" by (auto simp: find_Some_iff)
    then obtain seg where seg: "seg \<in> set segs" "f = segment_info stream_id (seg_range seg)" "seq_of (hd seg) \<le> t" "t \<le> seq_of (last seg)"
      by (auto simp: infos_of_def seg_range_def split: if_splits)
    have "read_record_at_seq crc stream_id t d = Inr (scan_file_for_seq crc (frames crc seg) t)"
      using Some list layout_lookup(1) [OF parts(2) so seg(1)] seg(2) by (simp add: read_record_at_seq_def pick_file_for_seq_def open_file_def)
    also have "scan_file_for_seq crc (frames crc seg) t = map_option (raw_of crc) (List.find (\<lambda>m. seq_of m = t) seg)"
      using scan_for_frames [of seg crc "[]" "[]" t] seg_ok [OF seg(1)] assms(2) by (simp add: scan_file_for_seq_def)
    also have "List.find (\<lambda>m. seq_of m = t) seg = List.find (\<lambda>m. seq_of m = t) log"
    proof (rule find_same)
      fix m assume m: "seq_of m = t"
      obtain i where i: "i < length segs" "segs ! i = seg" using seg(1) by (auto simp: in_set_conv_nth)
      show "m \<in> set seg \<longleftrightarrow> m \<in> set log"
      proof
        assume "m \<in> set log"
        then have "m \<in> set (filter (\<lambda>m. t \<le> seq_of m) (concat segs @ cur))" using m parts(1) by simp
        also have "filter (\<lambda>m. t \<le> seq_of m) (concat segs @ cur) = filter (\<lambda>m. t \<le> seq_of m) (segs ! i) @ concat (drop (Suc i) segs) @ cur"
          using asc so i seg(3,4) parts(1) by (intro ascending_split(1)) (simp_all add: segs_ok_def)
        finally have "m \<in> set seg \<or> m \<in> set (concat (drop (Suc i) segs) @ cur)" using i(2) unfolding set_append by auto
        moreover have "m \<notin> set (concat (drop (Suc i) segs) @ cur)"
        proof
          assume in_post: "m \<in> set (concat (drop (Suc i) segs) @ cur)"
          have "log = (concat (take i segs) @ seg) @ concat (drop (Suc i) segs) @ cur"
            using id_take_nth_drop [OF i(1)] i(2) parts(1) by (metis append.assoc concat.simps(2) concat_append)
          moreover have "last seg \<in> set (concat (take i segs) @ seg)" using so seg(1) by (metis UnCI last_in_set segs_ok_def set_append)
          ultimately have "seq_of (last seg) < seq_of m" using ascending_less asc in_post by blast
          then show False using m seg(4) by simp
        qed
        ultimately show "m \<in> set seg" by blast
      qed (use seg(1) parts(1) in auto)
    qed (use seg_ok [OF seg(1)] asc in auto)
    finally show ?thesis .
  next
    case None
    then have out: "\<not> (seq_of (hd seg) \<le> t \<and> t \<le> seq_of (last seg))" if "seg \<in> set segs" for seg
      using that by (auto simp: find_None_iff infos_of_def seg_range_def)
    then have same: "List.find (\<lambda>m. seq_of m = t) cur = List.find (\<lambda>m. seq_of m = t) log"
      using bounds parts(1) by (intro find_same) (use cur asc in auto)
    show ?thesis
    proof (cases act)
      case None': None
      then have "List.find wf_is_active ?infos = None" by (auto simp: find_None_iff infos_of_def segment_info_def)
      then show ?thesis using None None' list parts(5) same by (simp add: read_record_at_seq_def pick_file_for_seq_def)
    next
      case (Some data)
      have "List.find wf_is_active (map (segment_info stream_id \<circ> seg_range) segs @ [active_info stream_id]) = Some (active_info stream_id)"
        by (induction segs) (simp_all add: segment_info_def active_info_def)
      then have "read_record_at_seq crc stream_id t d = Inr (scan_file_for_seq crc (frames crc cur @ bs) t)"
        using None list Some parts(5) layout_lookup(2) [OF parts(2) so]
        by (simp add: read_record_at_seq_def pick_file_for_seq_def open_file_def infos_of_def active_info_def)
      then show ?thesis using scan_for_frames [OF cur(1) parts(4) assms(2) cur(2), of "[]" t] same by (simp add: scan_file_for_seq_def)
    qed
  qed
qed


section \<open>Histories\<close>

text \<open>
  What happens to a log: it is opened in a directory without files of the stream, records are put into it, it is flushed, and the process
  is restarted after a crash. A crash while flushing is a flush that fails at that point, followed by a restart; a restart opens the writer
  on what is there, reads the log and sets the number of the next record above everything it read. \<open>stored\<close> collects what a flush took out
  of the buffer, \<open>pending\<close> what is still in it.
\<close>

inductive wal_reach :: "crc_fun \<Rightarrow> u32 \<Rightarrow> u64 \<Rightarrow> wal_writer \<Rightarrow> dir \<Rightarrow> message list \<Rightarrow> message list \<Rightarrow> bool"
  for crc stream_id max_file_size where
  opened: "stream_id \<le> u32_max \<Longrightarrow> layout crc stream_id d [] None \<Longrightarrow> wal_new crc stream_id d max_file_size = (Inr w, d') \<Longrightarrow>
    wal_reach crc stream_id max_file_size w d' [] []"
| put: "wal_reach crc stream_id max_file_size w d stored pending \<Longrightarrow> prepare crc w record_type rec = Some (fr, w1) \<Longrightarrow>
    append_framed w1 fr = (res, w2) \<Longrightarrow> m = stamped record_type rec (ww_next_seq w) \<Longrightarrow>
    record_type < 65536 \<Longrightarrow> 8 \<le> length rec \<Longrightarrow> length rec \<le> 240 \<Longrightarrow> bytes rec \<Longrightarrow> ww_next_seq w < u64_max \<Longrightarrow>
    length (frames crc (stored @ pending @ [m])) \<le> u64_max \<Longrightarrow>
    wal_reach crc stream_id max_file_size w2 d stored (if res = Inr () then pending @ [m] else pending)"
| flushes: "wal_reach crc stream_id max_file_size w d stored pending \<Longrightarrow> flush io w d = (res, w', d') \<Longrightarrow> no_retention io \<Longrightarrow>
    (stored', pending') = (if ww_buf w' = [] then (stored @ pending, []) else (stored, pending)) \<Longrightarrow>
    wal_reach crc stream_id max_file_size w' d' stored' pending'"
| restarts: "wal_reach crc stream_id max_file_size w d stored pending \<Longrightarrow> wal_new crc stream_id d max_file_size = (Inr w', d') \<Longrightarrow>
    open_from_seq stream_id 0 d' = Inr r \<Longrightarrow> read_all crc d' r = Inr (map (raw_of crc) log) \<Longrightarrow>
    \<forall>m\<in>set log. seq_of m < next_seq \<Longrightarrow> wal_reach crc stream_id max_file_size (set_next_seq w' next_seq) d' log []"

lemma raw_of_inj: "raw_of crc m = raw_of crc m' \<Longrightarrow> m = m'"
  by (simp add: raw_of_def header_new_def prod_eq_iff)

lemma map_raw_inj: "map (raw_of crc) ms = map (raw_of crc) ns \<Longrightarrow> ms = ns"
  by (meson injI inj_map_eq_map raw_of_inj)

lemma set_next_seq_state: "wal_state crc w d stored [] \<Longrightarrow> wal_state crc (set_next_seq w s) d stored []"
  by (auto simp: wal_state_def live_def broken_def file_inv_def buf_inv_def set_next_seq_def)

definition keeps_ids :: "wal_writer \<Rightarrow> wal_step \<Rightarrow> bool" where
  "keeps_ids w r \<longleftrightarrow> (case r of (res, w', d') \<Rightarrow> ww_next_seq w' = ww_next_seq w \<and> ww_stream_id w' = ww_stream_id w)"

lemma then_do_keeps: "keeps_ids w r \<Longrightarrow> (\<And>w d. keeps_ids w (f w d)) \<Longrightarrow> keeps_ids w (then_do r f)"
  unfolding keeps_ids_def then_do_def by (fastforce split: prod.splits sum.splits)

lemma steps_keep:
  "keeps_ids w (cut_excess io w d)" "keeps_ids w (rotate_if c rio w d)" "keeps_ids w (write_buf io w d)"
  by (simp_all add: keeps_ids_def cut_excess_def rotate_if_def rotate_def write_buf_def Let_def split: option.split)

lemma flush_next_seq: "flush io w d = (res, w', d') \<Longrightarrow> ww_next_seq w' = ww_next_seq w \<and> ww_stream_id w' = ww_stream_id w"
proof -
  assume "flush io w d = (res, w', d')"
  moreover have "keeps_ids w (flush io w d)"
  proof (cases "ww_buf w = []")
    case True
    then show ?thesis by (simp add: flush_def keeps_ids_def)
  next
    case False
    then show ?thesis by (auto simp: flush_def intro!: then_do_keeps steps_keep)
  qed
  ultimately show ?thesis by (simp add: keeps_ids_def)
qed

lemma wal_reach_state:
  assumes "wal_reach crc stream_id max_file_size w d stored pending" "crc_u32 crc"
  shows "wal_state crc w d stored pending \<and> ww_stream_id w = stream_id \<and> (\<forall>m\<in>set (stored @ pending). seq_of m < ww_next_seq w)"
  using assms
proof (induction rule: wal_reach.induct)
  case (opened d w d')
  then have "on_disk crc stream_id d []"
    unfolding on_disk_def
    by (intro exI [of _ "[]"] exI [of _ None]) (simp add: msgs_inv_def log_fits_def)
  from new_on_disk [OF this opened.prems, of max_file_size] show ?case using opened.hyps by auto
next
  case (put w d stored pending record_type rec fr w1 res w2 m)
  then have IH: "wal_state crc w d stored pending" "ww_stream_id w = stream_id" "\<forall>m\<in>set (stored @ pending). seq_of m < ww_next_seq w" by simp_all
  note st = put_state [OF IH(1) put.hyps(2-8) IH(3) put.hyps(9,10)]
  have "ww_stream_id w2 = ww_stream_id w" using put.hyps(2,3) by (auto simp: prepare_def append_framed_def Let_def split: bind_splits if_splits)
  moreover have "seq_of m = ww_next_seq w" using put.hyps(4,9) by (simp add: seq_of_stamped u64_max_def)
  ultimately show ?case using st IH by (auto simp: less_Suc_eq)
next
  case (flushes w d stored pending io res w' d' stored' pending')
  then have IH: "wal_state crc w d stored pending" "ww_stream_id w = stream_id" "\<forall>m\<in>set (stored @ pending). seq_of m < ww_next_seq w" by simp_all
  show ?case using flush_state [OF IH(1) flushes.hyps(3)] flushes.hyps(2,4) flush_next_seq [OF flushes.hyps(2)] IH
    by (auto simp: flushed_def split: if_splits)
next
  case (restarts w d stored pending w' d' r log next_seq)
  then have IH: "wal_state crc w d stored pending" "ww_stream_id w = stream_id" by simp_all
  obtain k where disk: "on_disk crc stream_id d (stored @ take k pending)" using state_on_disk [OF IH(1)] IH(2) by blast
  then have w': "wal_state crc w' d' (stored @ take k pending) []" "ww_stream_id w' = stream_id"
    using new_on_disk [OF disk restarts.prems, of max_file_size] restarts.hyps(2) by auto
  obtain k' where "on_disk crc stream_id d' (stored @ take k pending @ take k' [])" using state_on_disk [OF w'(1)] w'(2) by auto
  from read_on_disk [OF this restarts.prems] have "map (raw_of crc) log = map (raw_of crc) (stored @ take k pending)"
    using restarts.hyps(3,4) by auto
  then have "log = stored @ take k pending" by (rule map_raw_inj)
  then show ?case using set_next_seq_state [OF w'(1), of next_seq] w'(2) restarts.hyps(5) by (simp add: set_next_seq_def)
qed


section \<open>Properties\<close>

definition demo_crc :: crc_fun where "demo_crc bs = 0"

definition demo_wal :: wal_writer where
  "demo_wal = \<lparr>ww_stream_id = 7, ww_next_seq = 1, ww_buf = [], ww_file = ActiveFile, ww_file_size = 0, ww_first_seq = None,
     ww_flushed_seq = 0, ww_buf_first_seq = None, ww_last_seq = 0, ww_max_file_size = 1000, ww_records_since_flush = 0\<rparr>"

definition demo_message :: message where "demo_message = stamped 9 (replicate 16 0) 1"

definition all_well :: rotate_io where
  "all_well = \<lparr>ri_sync_ok = True, ri_null_ok = True, ri_rename_ok = True, ri_open_ok = True, ri_aged = (\<lambda>name. False)\<rparr>"

definition demo_io :: flush_io where
  "demo_io = \<lparr>fi_metadata_ok = True, fi_set_len_ok = True, fi_rotate_before = all_well, fi_written = None, fi_sync_ok = True,
     fi_rotate_after = all_well\<rparr>"

lemma demo_crc_u32: "crc_u32 demo_crc"
  by (simp add: crc_u32_def demo_crc_def)

lemma demo_opened: "wal_reach demo_crc 7 1000 demo_wal [(active_filename 7, [])] [] []"
proof (rule wal_reach.opened)
  show "layout demo_crc 7 [] [] None" by (simp add: layout_iff)
  have "cut_from demo_crc [] 0 = Inr []" by (simp add: cut_from.simps read_frame_def HEADER_SIZE_def)
  moreover have "scan_range demo_crc [] 0 None = None" by (simp add: scan_range.simps next_intact_def read_frame_def HEADER_SIZE_def)
  ultimately show "wal_new demo_crc 7 [] 1000 = (Inr demo_wal, [(active_filename 7, [])])"
    by (simp add: wal_new_def open_append_def content_def cut_torn_tail_def scan_file_seq_range_def demo_wal_def)
qed (simp add: u32_max_def)

lemma demo_flushed: "\<exists>w d. wal_reach demo_crc 7 1000 w d [demo_message] []"
proof -
  let ?fr = "\<lparr>fr_wire = frame_of demo_crc demo_message, fr_seq = 1\<rparr>"
  let ?w1 = "demo_wal\<lparr>ww_next_seq := 2\<rparr>"
  let ?w2 = "demo_wal\<lparr>ww_next_seq := 2, ww_last_seq := 1, ww_buf_first_seq := Some 1, ww_buf := frame_of demo_crc demo_message, ww_records_since_flush := 1\<rparr>"
  have ok: "message_ok demo_message" unfolding demo_message_def by (intro stamped_ok) (simp_all add: bytes_def)
  have len: "length (frame_of demo_crc demo_message) = 32" using length_frame_of [OF ok] by (simp add: demo_message_def stamped_def write_seq_def)
  have prep: "prepare demo_crc demo_wal 9 (replicate 16 0) = Some (?fr, ?w1)"
    using pack_frame [of "replicate 16 0" demo_crc 9 1] by (simp add: prepare_def demo_wal_def demo_message_def u64_add_def)
  have app: "append_framed ?w1 ?fr = (Inr (), ?w2)"
    by (simp add: append_framed_def demo_wal_def)
  have "wal_reach demo_crc 7 1000 ?w2 [(active_filename 7, [])] [] (if Inr () = (Inr () :: wal_error + unit) then [] @ [demo_message] else [])"
    by (rule wal_reach.put [OF demo_opened prep app])
      (simp_all add: demo_message_def demo_wal_def bytes_def u64_max_def stamped_def length_frame_of len [unfolded demo_message_def stamped_def, simplified])
  then have put: "wal_reach demo_crc 7 1000 ?w2 [(active_filename 7, [])] [] [demo_message]" by simp
  obtain res w' d' where fl: "flush demo_io ?w2 [(active_filename 7, [])] = (res, w', d')" by (metis prod_cases3)
  have "frame_of demo_crc demo_message \<noteq> []" using len by auto
  then have "ww_buf w' = []" using fl len
    by (auto simp: flush_def cut_excess_def rotate_if_def write_buf_def demo_io_def demo_wal_def content_def Let_def)
  then show ?thesis using wal_reach.flushes [OF put fl, of "[demo_message]" "[]"]
    by (auto simp: no_retention_def demo_io_def all_well_def)
qed


text \<open>C26: the log loses nothing it has acknowledged. Whatever happened to it (records put into it, flushes in which any call to the
  operating system may have failed, a write may have been torn or a rotation abandoned half way, crashes and restarts), reading the
  directory from the start returns exactly the records whose flush has been acknowledged, each once and in order, followed at most by the
  first few of those not yet acknowledged; opening the writer again succeeds and leaves the same records to be read; and a flush that
  reports success leaves nothing pending. Retention is not part of the statement: no segment is old enough to be removed.\<close>

theorem wal_keeps_records:
  assumes "wal_reach crc stream_id max_file_size w d stored pending" "crc_u32 crc"
  shows "(\<exists>k. (\<exists>r. open_from_seq stream_id 0 d = Inr r \<and> read_all crc d r = Inr (map (raw_of crc) (stored @ take k pending))) \<and>
      (\<exists>w' d' r. wal_new crc stream_id d max_file_size = (Inr w', d') \<and> open_from_seq stream_id 0 d' = Inr r \<and>
         read_all crc d' r = Inr (map (raw_of crc) (stored @ take k pending)))) \<and>
    (\<forall>io w' d'. no_retention io \<longrightarrow> flush io w d = (Inr (), w', d') \<longrightarrow> ww_buf w' = [])"
proof -
  note st = wal_reach_state [OF assms]
  obtain k where disk: "on_disk crc stream_id d (stored @ take k pending)" using state_on_disk [of crc w d stored pending] st by blast
  obtain w1 d1 where new: "wal_new crc stream_id d max_file_size = (Inr w1, d1)" "wal_state crc w1 d1 (stored @ take k pending) []"
    "ww_stream_id w1 = stream_id" using new_on_disk [OF disk assms(2), of max_file_size] by blast
  have disk1: "on_disk crc stream_id d1 (stored @ take k pending)" using state_on_disk [OF new(2)] new(3) by simp
  have "\<forall>io w' d'. no_retention io \<longrightarrow> flush io w d = (Inr (), w', d') \<longrightarrow> ww_buf w' = []"
    using flush_state [of crc w d stored pending] st by (fastforce simp: flushed_def)
  then show ?thesis using read_on_disk [OF disk assms(2)] read_on_disk [OF disk1 assms(2)] new(1) by blast
qed

theorem wal_keeps_records_witness:
  "\<exists>w d r. wal_reach demo_crc 7 1000 w d [demo_message] [] \<and> open_from_seq 7 0 d = Inr r \<and> read_all demo_crc d r = Inr [raw_of demo_crc demo_message]"
proof -
  obtain w d where "wal_reach demo_crc 7 1000 w d [demo_message] []" using demo_flushed by blast
  then show ?thesis using wal_keeps_records [OF _ demo_crc_u32] by fastforce
qed

text \<open>a reader resumes where it is told. When the numbers in the log have no gap and the target is not below the oldest record, a
  reader opened at the target returns exactly the records numbered from the target on, whether the target lies in a rotated segment, in the
  active file or above everything.\<close>

theorem reader_resumes:
  assumes "wal_reach crc stream_id max_file_size w d stored pending" "crc_u32 crc" "contiguous (stored @ pending)"
    "stored \<noteq> []" "seq_of (hd stored) \<le> target_seq"
  shows "\<exists>k r. open_from_seq stream_id target_seq d = Inr r \<and>
    read_all crc d r = Inr (map (raw_of crc) (filter (\<lambda>m. target_seq \<le> seq_of m) (stored @ take k pending)))"
proof -
  note st = wal_reach_state [OF assms(1,2)]
  obtain k where disk: "on_disk crc stream_id d (stored @ take k pending)" using state_on_disk [of crc w d stored pending] st by blast
  have "contiguous (stored @ take k pending)"
  proof -
    obtain a where "map seq_of (stored @ pending) = [a..<a + length (stored @ pending)]" using assms(3) by (auto simp: contiguous_def)
    moreover define j where "j = min k (length pending)"
    ultimately have "take (length stored + j) (map seq_of (stored @ pending)) = [a..<a + (length stored + j)]" by simp
    moreover have "take k pending = take j pending" by (simp add: j_def min_def)
    ultimately have "map seq_of (stored @ take k pending) = [a..<a + length (stored @ take k pending)]" by (simp add: take_map j_def)
    then show ?thesis unfolding contiguous_def by blast
  qed
  moreover have "seq_of (hd (stored @ take k pending)) \<le> target_seq" using assms(4,5) by simp
  ultimately show ?thesis using read_from_disk [OF disk assms(2)] by blast
qed

text \<open>a single record is found by its number. \<open>read_record_at_seq\<close> returns the record on disk with the number asked for, and nothing
  when there is none.\<close>

theorem read_record_exact:
  assumes "wal_reach crc stream_id max_file_size w d stored pending" "crc_u32 crc"
  shows "\<exists>k. \<forall>target_seq. read_record_at_seq crc stream_id target_seq d =
    Inr (map_option (raw_of crc) (List.find (\<lambda>m. seq_of m = target_seq) (stored @ take k pending)))"
  using state_on_disk [of crc w d stored pending] wal_reach_state [OF assms] read_at_disk [OF _ assms(2)] by metis

theorem reader_resumes_witness:
  "\<exists>w d r. wal_reach demo_crc 7 1000 w d [demo_message] [] \<and> open_from_seq 7 2 d = Inr r \<and> read_all demo_crc d r = Inr []"
proof -
  obtain w d where "wal_reach demo_crc 7 1000 w d [demo_message] []" using demo_flushed by blast
  moreover have "seq_of demo_message = 1" unfolding demo_message_def by (rule seq_of_stamped) simp
  ultimately show ?thesis using reader_resumes [OF _ demo_crc_u32, of 7 1000 w d "[demo_message]" "[]" 2]
    by (auto simp: contiguous_def)
qed

theorem read_record_exact_witness:
  "\<exists>w d. wal_reach demo_crc 7 1000 w d [demo_message] [] \<and> read_record_at_seq demo_crc 7 1 d = Inr (Some (raw_of demo_crc demo_message))"
proof -
  obtain w d where "wal_reach demo_crc 7 1000 w d [demo_message] []" using demo_flushed by blast
  moreover have "seq_of demo_message = 1" unfolding demo_message_def by (rule seq_of_stamped) simp
  ultimately show ?thesis using read_record_exact [OF _ demo_crc_u32, of 7 1000 w d "[demo_message]" "[]"] by fastforce
qed

end
