(* ===== verification/Cast.thy ===== *)
theory Cast
  imports Wire_Frame
begin

text \<open>
  The receiver of the live datagram stream (\<open>CastReceiver\<close> of \<open>rsx-cast/src/cast.rs\<close>). A call of \<open>try_recv_with\<close> is given the datagrams
  waiting in the socket, each with the reading of the clock that would be taken while it is handled, and returns its outcome, the new state
  and the datagrams it left in the socket. The negative acknowledgements it sends are collected in \<open>cr_naks\<close>. The slot of a number is
  \<open>seq & mask\<close> with a mask one below a power of two, written as \<open>mod\<close>; the frame and the length kept in a slot are one byte string.
\<close>

section \<open>State\<close>

definition MAX_PAYLOAD :: nat where "MAX_PAYLOAD = 65535"
definition REORDER_CAPACITY :: nat where "REORDER_CAPACITY = 2048"
definition REORDER_FRAME_BYTES :: nat where "REORDER_FRAME_BYTES = 256"

record cast_config =
  cc_heartbeat_interval_ms :: u64
  cc_max_nak_retries :: nat
  cc_retx_dedup_window_us :: u64
  cc_nak_debounce_us :: u64

definition cast_config_default :: cast_config where
  "cast_config_default = \<lparr>cc_heartbeat_interval_ms = 100, cc_max_nak_retries = 8, cc_retx_dedup_window_us = 1000, cc_nak_debounce_us = 50000\<rparr>"

record cast_receiver =
  cr_expected_seq :: u64
  cr_highest_seen :: u64
  cr_faulted :: bool
  cr_fault_last_delivered_seq :: u64
  cr_fault_gap_start :: u64
  cr_fault_gap_end_inclusive :: u64
  cr_needs_reconnect :: bool
  cr_reconnect_last_delivered_seq :: u64
  cr_nak_sent_at :: "u64 list"
  cr_nak_retries_on_oldest :: nat
  cr_nak_debounce_ns :: u64
  cr_max_nak_retries :: nat
  cr_reorder_seqs :: "u64 list"
  cr_reorder_frames :: "u8 list list"
  cr_naks :: "nak list"

datatype cast_recv =
    CrEmpty
  | CrData wal_header "u8 list"
  | CrFaulted u64 u64 u64
  | CrReconnect u64

abbreviation slot_of :: "u64 \<Rightarrow> nat" where "slot_of seq \<equiv> seq mod REORDER_CAPACITY"

definition receiver_with_config :: "cast_config \<Rightarrow> cast_receiver" where
  "receiver_with_config config = \<lparr>cr_expected_seq = 0, cr_highest_seen = 0, cr_faulted = False, cr_fault_last_delivered_seq = 0,
     cr_fault_gap_start = 0, cr_fault_gap_end_inclusive = 0, cr_needs_reconnect = False, cr_reconnect_last_delivered_seq = 0,
     cr_nak_sent_at = replicate REORDER_CAPACITY 0, cr_nak_retries_on_oldest = 0,
     cr_nak_debounce_ns = min (cc_nak_debounce_us config * 1000) u64_max, cr_max_nak_retries = cc_max_nak_retries config,
     cr_reorder_seqs = replicate REORDER_CAPACITY 0, cr_reorder_frames = replicate REORDER_CAPACITY [], cr_naks = []\<rparr>"

definition reset_after_replay :: "cast_receiver \<Rightarrow> u64 \<Rightarrow> cast_receiver" where
  "reset_after_replay r new_tip = r\<lparr>cr_faulted := False, cr_fault_last_delivered_seq := 0, cr_fault_gap_start := 0,
     cr_fault_gap_end_inclusive := 0, cr_needs_reconnect := False, cr_reconnect_last_delivered_seq := 0, cr_nak_retries_on_oldest := 0,
     cr_expected_seq := u64_add new_tip 1, cr_highest_seen := max (cr_highest_seen r) new_tip,
     cr_reorder_seqs := map (\<lambda>s. 0) (cr_reorder_seqs r), cr_nak_sent_at := map (\<lambda>t. 0) (cr_nak_sent_at r)\<rparr>"

section \<open>Gaps\<close>

definition fault :: "cast_receiver \<Rightarrow> u64 \<Rightarrow> u64 \<Rightarrow> cast_receiver" where
  "fault r gap_start gap_end_inclusive =
     (if cr_faulted r then r
      else r\<lparr>cr_faulted := True, cr_fault_last_delivered_seq := cr_expected_seq r - 1, cr_fault_gap_start := gap_start,
        cr_fault_gap_end_inclusive := gap_end_inclusive\<rparr>)"

text \<open>The loop of \<open>oldest_missing_run\<close>: the first number from \<open>seq\<close> on that is in the ring, or one past \<open>upper\<close>.\<close>

function run_end :: "u64 list \<Rightarrow> u64 \<Rightarrow> u64 \<Rightarrow> u64" where
  "run_end ring seq upper = (if seq \<le> upper \<and> ring ! slot_of seq \<noteq> seq then run_end ring (Suc seq) upper else seq)"
  by pat_completeness auto
termination
  by (relation "measure (\<lambda>(ring, seq, upper). Suc upper - seq)") auto

declare run_end.simps [simp del]

definition oldest_missing_run :: "cast_receiver \<Rightarrow> (u64 \<times> u64) option" where
  "oldest_missing_run r =
     (if cr_expected_seq r = 0 \<or> cr_expected_seq r > cr_highest_seen r then None
      else let from_seq = cr_expected_seq r; upper = min (cr_highest_seen r) (min (from_seq + REORDER_CAPACITY) u64_max);
               seq = run_end (cr_reorder_seqs r) from_seq upper in
        if seq = from_seq then None else Some (from_seq, seq - from_seq))"

definition send_nak :: "cast_receiver \<Rightarrow> u64 \<Rightarrow> u64 \<Rightarrow> cast_receiver" where
  "send_nak r from_seq cnt = r\<lparr>cr_naks := cr_naks r @ [\<lparr>nk_from_seq = from_seq, nk_count = cnt\<rparr>]\<rparr>"

definition maybe_nak :: "cast_receiver \<Rightarrow> u64 \<Rightarrow> cast_receiver" where
  "maybe_nak r now_ns =
     (if cr_faulted r \<or> cr_needs_reconnect r then r
      else case oldest_missing_run r of
        None \<Rightarrow> r
      | Some (from_seq, cnt) \<Rightarrow>
          let slot = slot_of from_seq; last_ns = cr_nak_sent_at r ! slot in
          if last_ns \<noteq> 0 \<and> now_ns - last_ns < cr_nak_debounce_ns r then r
          else
            let r1 = (send_nak r from_seq cnt)\<lparr>cr_nak_sent_at := (cr_nak_sent_at r)[slot := now_ns],
                  cr_nak_retries_on_oldest := min (cr_nak_retries_on_oldest r + 1) 65535\<rparr> in
            if cr_nak_retries_on_oldest r1 > cr_max_nak_retries r1 then fault r1 from_seq (from_seq + cnt - 1) else r1)"

section \<open>Receiving\<close>

text \<open>The checks on a datagram; what fails them is dropped.\<close>

definition parse_datagram :: "crc_fun \<Rightarrow> u8 list \<Rightarrow> (wal_header \<times> u8 list) option" where
  "parse_datagram crc dg = do {
     assert_that (\<not> length dg < HEADER_SIZE);
     hdr \<leftarrow> header_from_bytes (take HEADER_SIZE dg);
     assert_that (\<not> wh_len hdr > MAX_PAYLOAD);
     assert_that (\<not> HEADER_SIZE + wh_len hdr > length dg);
     let payload = take (wh_len hdr) (drop HEADER_SIZE dg);
     assert_that (crc payload = wh_crc32 hdr);
     Some (hdr, payload)
   }"

definition sync_to :: "cast_receiver \<Rightarrow> u64 \<Rightarrow> cast_receiver" where
  "sync_to r seq = (if cr_expected_seq r = 0 then r\<lparr>cr_expected_seq := seq\<rparr> else r)"

definition resync :: "cast_receiver \<Rightarrow> u64 \<Rightarrow> cast_receiver" where
  "resync r seq =
     (if seq < cr_expected_seq r \<and> cr_expected_seq r - seq > 100
      then r\<lparr>cr_reorder_seqs := map (\<lambda>s. 0) (cr_reorder_seqs r), cr_expected_seq := seq\<rparr> else r)"

definition see :: "cast_receiver \<Rightarrow> u64 \<Rightarrow> cast_receiver" where
  "see r seq = (if seq > cr_highest_seen r then r\<lparr>cr_highest_seen := seq\<rparr> else r)"

definition deliver :: "cast_receiver \<Rightarrow> cast_receiver" where
  "deliver r = r\<lparr>cr_expected_seq := u64_add (cr_expected_seq r) 1, cr_nak_retries_on_oldest := 0,
     cr_nak_sent_at := (cr_nak_sent_at r)[slot_of (cr_expected_seq r) := 0]\<rparr>"

text \<open>Buffering a record that came too early; \<open>None\<close> when its slot is taken by another number.\<close>

definition buffer :: "cast_receiver \<Rightarrow> u64 \<Rightarrow> u8 list \<Rightarrow> cast_receiver option" where
  "buffer r seq frame =
     (if length frame \<le> REORDER_FRAME_BYTES then
        let slot = slot_of seq; existing = cr_reorder_seqs r ! slot in
        if existing = 0 \<or> existing = seq then
          Some (r\<lparr>cr_reorder_seqs := (cr_reorder_seqs r)[slot := seq], cr_reorder_frames := (cr_reorder_frames r)[slot := frame]\<rparr>)
        else None
      else Some r)"

text \<open>After the socket is empty: the ring's record for the expected number, if it is there.\<close>

definition drain_ring :: "cast_receiver \<Rightarrow> cast_recv \<times> cast_receiver" where
  "drain_ring r =
     (let slot = slot_of (cr_expected_seq r) in
      if cr_expected_seq r \<noteq> 0 \<and> cr_reorder_seqs r ! slot = cr_expected_seq r then
        (case header_from_bytes (take HEADER_SIZE (cr_reorder_frames r ! slot)) of
           Some hdr \<Rightarrow> (CrData hdr (drop HEADER_SIZE (cr_reorder_frames r ! slot)),
             deliver (r\<lparr>cr_reorder_seqs := (cr_reorder_seqs r)[slot := 0]\<rparr>))
         | None \<Rightarrow> (CrEmpty, r))
      else (CrEmpty, r))"

definition faulted_outcome :: "cast_receiver \<Rightarrow> cast_recv" where
  "faulted_outcome r = CrFaulted (cr_fault_last_delivered_seq r) (cr_fault_gap_start r) (cr_fault_gap_end_inclusive r)"

type_synonym socket = "(u64 \<times> u8 list) list"

fun recv_loop :: "crc_fun \<Rightarrow> cast_receiver \<Rightarrow> socket \<Rightarrow> cast_recv \<times> cast_receiver \<times> socket" where
  "recv_loop crc r [] = (let (out, r1) = drain_ring r in (out, r1, []))"
| "recv_loop crc r ((now_ns, dg) # queue) = (case parse_datagram crc dg of
     None \<Rightarrow> recv_loop crc r queue
   | Some (hdr, payload) \<Rightarrow>
       if wh_record_type hdr = RECORD_HEARTBEAT then (case heartbeat_decode payload of
           Some highest_seq \<Rightarrow> recv_loop crc (maybe_nak (see r highest_seq) now_ns) queue
         | None \<Rightarrow> recv_loop crc r queue)
       else if wh_record_type hdr = RECORD_NAK then recv_loop crc r queue
       else (case extract_seq payload of
           None \<Rightarrow> recv_loop crc r queue
         | Some seq \<Rightarrow>
             if seq = 0 then recv_loop crc r queue
             else let r1 = resync (sync_to r seq) seq in
               if seq < cr_expected_seq r1 then recv_loop crc r1 queue
               else let r2 = see r1 seq in
                 if seq = cr_expected_seq r2 then (CrData hdr payload, deliver r2, queue)
                 else (case buffer r2 seq (take (HEADER_SIZE + length payload) dg) of
                     None \<Rightarrow>
                       let r3 = (if cr_needs_reconnect r2 then r2
                         else r2\<lparr>cr_needs_reconnect := True, cr_reconnect_last_delivered_seq := cr_expected_seq r2 - 1\<rparr>) in
                       (CrReconnect (cr_reconnect_last_delivered_seq r3), r3, queue)
                   | Some r3 \<Rightarrow>
                       let r4 = maybe_nak r3 now_ns in
                       if cr_faulted r4 then (faulted_outcome r4, r4, queue) else recv_loop crc r4 queue)))"

definition try_recv :: "crc_fun \<Rightarrow> cast_receiver \<Rightarrow> socket \<Rightarrow> cast_recv \<times> cast_receiver \<times> socket" where
  "try_recv crc r queue =
     (if cr_needs_reconnect r then (CrReconnect (cr_reconnect_last_delivered_seq r), r, queue)
      else if cr_faulted r then (faulted_outcome r, r, queue)
      else recv_loop crc r queue)"

end
