(* ===== verification/Cast_Props.thy ===== *)
theory Cast_Props
  imports Cast
begin

text \<open>
  What the receiver of the datagram stream promises: whatever the network does to the datagrams, records are handed out in the order of their
  numbers, each once and without a gap; a record is asked for again only while it is missing and known to exist; and a window of records
  that all arrive, in any order, is handed out completely.
\<close>

section \<open>Steps\<close>

lemma fault_sel [simp]:
  "cr_expected_seq (fault r a b) = cr_expected_seq r" "cr_highest_seen (fault r a b) = cr_highest_seen r"
  "cr_reorder_seqs (fault r a b) = cr_reorder_seqs r" "cr_reorder_frames (fault r a b) = cr_reorder_frames r"
  "cr_needs_reconnect (fault r a b) = cr_needs_reconnect r" "cr_naks (fault r a b) = cr_naks r"
  "cr_nak_sent_at (fault r a b) = cr_nak_sent_at r" "cr_nak_debounce_ns (fault r a b) = cr_nak_debounce_ns r"
  "cr_max_nak_retries (fault r a b) = cr_max_nak_retries r" "cr_nak_retries_on_oldest (fault r a b) = cr_nak_retries_on_oldest r"
  by (simp_all add: fault_def)

lemma maybe_nak_sel [simp]:
  "cr_expected_seq (maybe_nak r t) = cr_expected_seq r" "cr_highest_seen (maybe_nak r t) = cr_highest_seen r"
  "cr_reorder_seqs (maybe_nak r t) = cr_reorder_seqs r" "cr_reorder_frames (maybe_nak r t) = cr_reorder_frames r"
  "cr_needs_reconnect (maybe_nak r t) = cr_needs_reconnect r" "cr_nak_debounce_ns (maybe_nak r t) = cr_nak_debounce_ns r"
  "cr_max_nak_retries (maybe_nak r t) = cr_max_nak_retries r"
  by (simp_all add: maybe_nak_def send_nak_def Let_def split: option.splits)

lemma see_sel [simp]:
  "cr_expected_seq (see r s) = cr_expected_seq r" "cr_reorder_seqs (see r s) = cr_reorder_seqs r" "cr_reorder_frames (see r s) = cr_reorder_frames r"
  "cr_highest_seen (see r s) = max (cr_highest_seen r) s" "cr_faulted (see r s) = cr_faulted r" "cr_needs_reconnect (see r s) = cr_needs_reconnect r"
  "cr_nak_sent_at (see r s) = cr_nak_sent_at r" "cr_nak_retries_on_oldest (see r s) = cr_nak_retries_on_oldest r" "cr_naks (see r s) = cr_naks r"
  "cr_max_nak_retries (see r s) = cr_max_nak_retries r" "cr_nak_debounce_ns (see r s) = cr_nak_debounce_ns r"
  by (simp_all add: see_def)

lemma deliver_sel [simp]:
  "cr_expected_seq (deliver r) = u64_add (cr_expected_seq r) 1" "cr_reorder_seqs (deliver r) = cr_reorder_seqs r"
  "cr_reorder_frames (deliver r) = cr_reorder_frames r" "cr_faulted (deliver r) = cr_faulted r" "cr_needs_reconnect (deliver r) = cr_needs_reconnect r"
  "cr_highest_seen (deliver r) = cr_highest_seen r" "cr_max_nak_retries (deliver r) = cr_max_nak_retries r"
  "cr_nak_debounce_ns (deliver r) = cr_nak_debounce_ns r" "cr_naks (deliver r) = cr_naks r"
  by (simp_all add: deliver_def)

section \<open>Order\<close>

text \<open>The sender's record of each number, and the datagrams that carry nothing else.\<close>

type_synonym stream = "u64 \<Rightarrow> message"

definition is_data :: "wal_header \<Rightarrow> bool" where
  "is_data hdr \<longleftrightarrow> wh_record_type hdr \<noteq> RECORD_HEARTBEAT \<and> wh_record_type hdr \<noteq> RECORD_NAK"

definition carries :: "crc_fun \<Rightarrow> u8 list \<Rightarrow> u64 \<Rightarrow> wal_header \<Rightarrow> u8 list \<Rightarrow> bool" where
  "carries crc dg seq hdr payload \<longleftrightarrow> parse_datagram crc dg = Some (hdr, payload) \<and> is_data hdr \<and> extract_seq payload = Some seq \<and> seq \<noteq> 0"

definition genuine :: "crc_fun \<Rightarrow> stream \<Rightarrow> u8 list \<Rightarrow> bool" where
  "genuine crc msg dg \<longleftrightarrow> (\<forall>seq hdr payload. carries crc dg seq hdr payload \<longrightarrow> (wh_record_type hdr, payload) = msg seq \<and> seq < u64_max)"

text \<open>A datagram more than a hundred numbers behind is taken for a restart of the sender.\<close>

definition fresh :: "crc_fun \<Rightarrow> u64 \<Rightarrow> u8 list \<Rightarrow> bool" where
  "fresh crc expected dg \<longleftrightarrow> (\<forall>seq hdr payload. carries crc dg seq hdr payload \<longrightarrow> expected \<le> seq + 100)"

definition ring_ok :: "stream \<Rightarrow> cast_receiver \<Rightarrow> bool" where
  "ring_ok msg r \<longleftrightarrow> length (cr_reorder_seqs r) = REORDER_CAPACITY \<and> length (cr_reorder_frames r) = REORDER_CAPACITY \<and>
     (\<forall>i < REORDER_CAPACITY. cr_reorder_seqs r ! i \<noteq> 0 \<longrightarrow> slot_of (cr_reorder_seqs r ! i) = i \<and> cr_reorder_seqs r ! i < u64_max \<and>
        (\<exists>hdr. header_from_bytes (take HEADER_SIZE (cr_reorder_frames r ! i)) = Some hdr \<and>
           (wh_record_type hdr, drop HEADER_SIZE (cr_reorder_frames r ! i)) = msg (cr_reorder_seqs r ! i)))"

lemma slot_less [simp]: "slot_of s < REORDER_CAPACITY"
  by (simp add: REORDER_CAPACITY_def)

lemma ring_ok_cong:
  "cr_reorder_seqs r' = cr_reorder_seqs r \<Longrightarrow> cr_reorder_frames r' = cr_reorder_frames r \<Longrightarrow> ring_ok msg r' = ring_ok msg r"
  by (simp add: ring_ok_def)

lemma parse_datagram_frame:
  assumes "parse_datagram crc dg = Some (hdr, payload)"
  shows "header_from_bytes (take HEADER_SIZE (take (HEADER_SIZE + length payload) dg)) = Some hdr"
    "drop HEADER_SIZE (take (HEADER_SIZE + length payload) dg) = payload" "length (take (HEADER_SIZE + length payload) dg) = HEADER_SIZE + length payload"
proof -
  have h: "\<not> length dg < HEADER_SIZE" "header_from_bytes (take HEADER_SIZE dg) = Some hdr" "\<not> HEADER_SIZE + wh_len hdr > length dg"
    "payload = take (wh_len hdr) (drop HEADER_SIZE dg)"
    using assms by (auto simp: parse_datagram_def Let_def split: bind_splits)
  then have "length payload = wh_len hdr" by simp
  then show "header_from_bytes (take HEADER_SIZE (take (HEADER_SIZE + length payload) dg)) = Some hdr"
    "drop HEADER_SIZE (take (HEADER_SIZE + length payload) dg) = payload" "length (take (HEADER_SIZE + length payload) dg) = HEADER_SIZE + length payload"
    using h by (simp_all add: min_def drop_take)
qed

lemma ring_ok_buffer:
  assumes "ring_ok msg r" "buffer r seq fr = Some r'" "seq \<noteq> 0" "seq < u64_max"
    "header_from_bytes (take HEADER_SIZE fr) = Some hdr" "(wh_record_type hdr, drop HEADER_SIZE fr) = msg seq"
  shows "ring_ok msg r'" "cr_expected_seq r' = cr_expected_seq r"
  using assms by (auto simp: buffer_def ring_ok_def Let_def nth_list_update split: if_splits)

lemma ring_ok_drain:
  assumes "ring_ok msg r" "drain_ring r = (out, r')"
  shows "ring_ok msg r'" "case out of CrData hdr payload \<Rightarrow> (wh_record_type hdr, payload) = msg (cr_expected_seq r) \<and>
      cr_expected_seq r \<noteq> 0 \<and> cr_expected_seq r < u64_max \<and> cr_expected_seq r' = Suc (cr_expected_seq r)
    | _ \<Rightarrow> cr_expected_seq r' = cr_expected_seq r"
proof -
  let ?e = "cr_expected_seq r"
  have slot: "slot_of ?e < REORDER_CAPACITY" by simp
  show "ring_ok msg r'"
    using assms slot by (auto simp: drain_ring_def ring_ok_def Let_def nth_list_update split: if_splits option.splits)
  show "case out of CrData hdr payload \<Rightarrow> (wh_record_type hdr, payload) = msg ?e \<and> ?e \<noteq> 0 \<and> ?e < u64_max \<and> cr_expected_seq r' = Suc ?e
    | _ \<Rightarrow> cr_expected_seq r' = ?e"
  proof (cases "?e \<noteq> 0 \<and> cr_reorder_seqs r ! slot_of ?e = ?e")
    case True
    then obtain hdr where "header_from_bytes (take HEADER_SIZE (cr_reorder_frames r ! slot_of ?e)) = Some hdr"
      "(wh_record_type hdr, drop HEADER_SIZE (cr_reorder_frames r ! slot_of ?e)) = msg ?e" "?e < u64_max"
      using assms(1) slot unfolding ring_ok_def by metis
    then show ?thesis using assms(2) True by (auto simp: drain_ring_def Let_def u64_add_id u64_max_def)
  next
    case False
    then show ?thesis using assms(2) by (auto simp: drain_ring_def Let_def)
  qed
qed


text \<open>
  The ways one datagram can be handled: passed over, a heartbeat, a record that is too old, the expected one, or one that came too early and
  finds its slot taken, exhausts the retries or is kept.
\<close>

definition overflow :: "cast_receiver \<Rightarrow> cast_receiver" where
  "overflow r = (if cr_needs_reconnect r then r
     else r\<lparr>cr_needs_reconnect := True, cr_reconnect_last_delivered_seq := cr_expected_seq r - 1\<rparr>)"

lemma recv_loop_step:
  assumes "recv_loop crc r ((t, dg) # queue) = res"
  obtains (skip) "\<nexists>seq hdr payload. carries crc dg seq hdr payload" "recv_loop crc r queue = res"
    | (beat) h where "\<nexists>seq hdr payload. carries crc dg seq hdr payload" "recv_loop crc (maybe_nak (see r h) t) queue = res"
    | (old) seq hdr payload r1 where "carries crc dg seq hdr payload" "r1 = resync (sync_to r seq) seq" "seq < cr_expected_seq r1" "recv_loop crc r1 queue = res"
    | (now) seq hdr payload r1 where "carries crc dg seq hdr payload" "r1 = resync (sync_to r seq) seq" "seq = cr_expected_seq r1"
        "res = (CrData hdr payload, deliver (see r1 seq), queue)"
    | (full) seq hdr payload r1 where "carries crc dg seq hdr payload" "r1 = resync (sync_to r seq) seq" "cr_expected_seq r1 < seq"
        "buffer (see r1 seq) seq (take (HEADER_SIZE + length payload) dg) = None"
        "res = (CrReconnect (cr_reconnect_last_delivered_seq (overflow (see r1 seq))), overflow (see r1 seq), queue)"
    | (given_up) seq hdr payload r1 r3 where "carries crc dg seq hdr payload" "r1 = resync (sync_to r seq) seq" "cr_expected_seq r1 < seq"
        "buffer (see r1 seq) seq (take (HEADER_SIZE + length payload) dg) = Some r3" "cr_faulted (maybe_nak r3 t)"
        "res = (faulted_outcome (maybe_nak r3 t), maybe_nak r3 t, queue)"
    | (kept) seq hdr payload r1 r3 where "carries crc dg seq hdr payload" "r1 = resync (sync_to r seq) seq" "cr_expected_seq r1 < seq"
        "buffer (see r1 seq) seq (take (HEADER_SIZE + length payload) dg) = Some r3" "\<not> cr_faulted (maybe_nak r3 t)"
        "recv_loop crc (maybe_nak r3 t) queue = res"
proof (cases "\<exists>seq hdr payload. carries crc dg seq hdr payload")
  case False
  show ?thesis
  proof (cases "parse_datagram crc dg")
    case None
    then show ?thesis using assms False by (intro skip) simp_all
  next
    case (Some hp)
    obtain hdr payload where hp: "hp = (hdr, payload)" by fastforce
    have "is_data hdr \<Longrightarrow> extract_seq payload = None \<or> extract_seq payload = Some 0"
      using False Some hp by (cases "extract_seq payload") (auto simp: carries_def)
    consider "wh_record_type hdr = RECORD_HEARTBEAT" "heartbeat_decode payload = None"
      | h where "wh_record_type hdr = RECORD_HEARTBEAT" "heartbeat_decode payload = Some h"
      | "wh_record_type hdr \<noteq> RECORD_HEARTBEAT" "wh_record_type hdr = RECORD_NAK"
      | "wh_record_type hdr \<noteq> RECORD_HEARTBEAT" "wh_record_type hdr \<noteq> RECORD_NAK" "extract_seq payload = None \<or> extract_seq payload = Some 0"
      using \<open>is_data hdr \<Longrightarrow> extract_seq payload = None \<or> extract_seq payload = Some 0\<close> unfolding is_data_def by (metis option.exhaust)
    then show ?thesis
    proof cases
      case 2
      then show ?thesis using assms Some hp by (intro beat [OF False]) simp
    qed (use assms Some hp in \<open>auto intro!: skip [OF False]\<close>)
  qed
next
  case True
  then obtain seq hdr payload where c: "carries crc dg seq hdr payload" by blast
  then have p: "parse_datagram crc dg = Some (hdr, payload)" "wh_record_type hdr \<noteq> RECORD_HEARTBEAT" "wh_record_type hdr \<noteq> RECORD_NAK"
    "extract_seq payload = Some seq" "seq \<noteq> 0" by (auto simp: carries_def is_data_def)
  let ?r1 = "resync (sync_to r seq) seq"
  consider "seq < cr_expected_seq ?r1" | "seq = cr_expected_seq ?r1" | "cr_expected_seq ?r1 < seq" by linarith
  then show ?thesis
  proof cases
    case 1
    then show ?thesis using assms p by (intro old [OF c refl]) simp_all
  next
    case 2
    then show ?thesis using assms p by (intro now [OF c refl]) (simp_all add: Let_def)
  next
    case 3
    show ?thesis
    proof (cases "buffer (see ?r1 seq) seq (take (HEADER_SIZE + length payload) dg)")
      case None
      then show ?thesis using assms p 3 by (intro full [OF c refl]) (simp_all add: Let_def overflow_def)
    next
      case (Some r3)
      then show ?thesis using assms p 3 given_up [OF c refl 3 Some] kept [OF c refl 3 Some]
        by (cases "cr_faulted (maybe_nak r3 t)") (simp_all add: Let_def)
    qed
  qed
qed

text \<open>What one pass over the socket does: at most one record comes out, and it is the expected one.\<close>

definition in_order :: "stream \<Rightarrow> u64 \<Rightarrow> cast_recv \<Rightarrow> cast_receiver \<Rightarrow> bool" where
  "in_order msg e out r' \<longleftrightarrow> ring_ok msg r' \<and> (case out of
     CrData hdr payload \<Rightarrow> (wh_record_type hdr, payload) = msg e \<and> cr_expected_seq r' = Suc e
   | _ \<Rightarrow> cr_expected_seq r' = e)"

lemma no_resync:
  assumes "cr_expected_seq r \<noteq> 0" "fresh crc (cr_expected_seq r) dg" "carries crc dg seq hdr payload"
  shows "resync (sync_to r seq) seq = r"
proof -
  have "cr_expected_seq r \<le> seq + 100" using assms(2,3) by (auto simp: fresh_def)
  then have "\<not> cr_expected_seq r - seq > 100" by linarith
  then show ?thesis using assms(1) by (simp add: sync_to_def resync_def)
qed

lemma recv_loop_in_order:
  assumes "ring_ok msg r" "cr_expected_seq r \<noteq> 0" "\<forall>(t, dg)\<in>set queue. genuine crc msg dg \<and> fresh crc (cr_expected_seq r) dg"
    "recv_loop crc r queue = (out, r', queue')"
  shows "in_order msg (cr_expected_seq r) out r' \<and> (\<exists>pre. queue = pre @ queue')"
  using assms
proof (induction queue arbitrary: r)
  case Nil
  then show ?case using ring_ok_drain [OF Nil.prems(1), of out r'] by (auto simp: in_order_def split: cast_recv.splits prod.splits)
next
  case (Cons x queue)
  obtain t dg where x: "x = (t, dg)" by fastforce
  have here: "genuine crc msg dg" "fresh crc (cr_expected_seq r) dg" and
    rest: "\<forall>(t, dg)\<in>set queue. genuine crc msg dg \<and> fresh crc (cr_expected_seq r) dg" using Cons.prems(3) x by auto
  have go: ?case if "ring_ok msg r1" "cr_expected_seq r1 = cr_expected_seq r" "recv_loop crc r1 queue = (out, r', queue')" for r1
    using Cons.IH [OF that(1) _ _ that(3)] that(2) Cons.prems(2) rest by force
  note nores = no_resync [OF Cons.prems(2) here(2)]
  have msg_of: "(wh_record_type hdr, payload) = msg seq \<and> seq < u64_max \<and> seq \<noteq> 0" if "carries crc dg seq hdr payload" for seq hdr payload
    using here(1) that by (auto simp: genuine_def carries_def)
  have ring2: "ring_ok msg (see r h)" "ring_ok msg (maybe_nak (see r h) t)" for h
    using Cons.prems(1) ring_ok_cong [of "see r h" r msg] ring_ok_cong [of "maybe_nak (see r h) t" r msg] by simp_all
  have buffered: "ring_ok msg (maybe_nak r3 t)" "cr_expected_seq (maybe_nak r3 t) = cr_expected_seq r"
    if "carries crc dg seq hdr payload" "buffer (see r seq) seq (take (HEADER_SIZE + length payload) dg) = Some r3" for seq hdr payload r3
  proof -
    have "parse_datagram crc dg = Some (hdr, payload)" using that(1) by (simp add: carries_def)
    note fr = parse_datagram_frame [OF this]
    have "ring_ok msg r3" "cr_expected_seq r3 = cr_expected_seq r"
      using ring_ok_buffer [OF ring2(1) that(2) _ _ fr(1)] msg_of [OF that(1)] fr(2) by simp_all
    then show "ring_ok msg (maybe_nak r3 t)" "cr_expected_seq (maybe_nak r3 t) = cr_expected_seq r"
      using ring_ok_cong [of "maybe_nak r3 t" r3 msg] by simp_all
  qed
  from Cons.prems(4) [unfolded x] show ?case
  proof (cases rule: recv_loop_step)
    case skip
    then show ?thesis using go Cons.prems(1) by blast
  next
    case (beat h)
    then show ?thesis using go [OF ring2(2)] by simp
  next
    case (old seq hdr payload r1)
    have r1: "r1 = r" using old(2) nores [OF old(1)] by simp
    show ?thesis using go [OF Cons.prems(1) refl] old(4) unfolding r1 by simp
  next
    case (now seq hdr payload r1)
    have r1: "r1 = r" using now(2) nores [OF now(1)] by simp
    have out: "out = CrData hdr payload" "r' = deliver (see r seq)" "queue' = queue" using now(4) unfolding r1 by simp_all
    have seq: "seq = cr_expected_seq r" using now(3) unfolding r1 .
    have "ring_ok msg (deliver (see r seq))" using ring2(1) ring_ok_cong [of "deliver (see r seq)" "see r seq" msg] by simp
    moreover have "u64_add (cr_expected_seq r) 1 = Suc (cr_expected_seq r)"
      using msg_of [OF now(1)] seq by (simp add: u64_add_id u64_max_def)
    ultimately show ?thesis using msg_of [OF now(1)] unfolding x in_order_def out seq by simp
  next
    case (full seq hdr payload r1)
    have r1: "r1 = r" using full(2) nores [OF full(1)] by simp
    have "ring_ok msg (overflow (see r seq))" "cr_expected_seq (overflow (see r seq)) = cr_expected_seq r"
      using ring2(1) ring_ok_cong [of "overflow (see r seq)" "see r seq" msg] by (simp_all add: overflow_def)
    then show ?thesis using full(5) x unfolding r1 by (simp add: in_order_def)
  next
    case (given_up seq hdr payload r1 r3)
    have r1: "r1 = r" using given_up(2) nores [OF given_up(1)] by simp
    show ?thesis using buffered [OF given_up(1) given_up(4) [unfolded r1]] given_up(6) x by (simp add: in_order_def faulted_outcome_def)
  next
    case (kept seq hdr payload r1 r3)
    have r1: "r1 = r" using kept(2) nores [OF kept(1)] by simp
    show ?thesis using go [OF buffered [OF kept(1) kept(4) [unfolded r1]] kept(6)] .
  qed
qed

lemma try_recv_in_order:
  assumes "ring_ok msg r" "cr_expected_seq r \<noteq> 0" "\<forall>(t, dg)\<in>set queue. genuine crc msg dg \<and> fresh crc (cr_expected_seq r) dg"
    "try_recv crc r queue = (out, r', queue')"
  shows "in_order msg (cr_expected_seq r) out r' \<and> (\<exists>pre. queue = pre @ queue')"
proof (cases "cr_needs_reconnect r \<or> cr_faulted r")
  case True
  then show ?thesis using assms(1,4) by (auto simp: try_recv_def in_order_def faulted_outcome_def split: if_splits)
next
  case False
  then show ?thesis using recv_loop_in_order [OF assms(1-3)] assms(4) by (simp add: try_recv_def)
qed


text \<open>
  A history of a receiver: datagrams arrive, in any order, any number of times or not at all, and the consumer calls \<open>try_recv\<close>. \<open>records\<close>
  collects what it was handed.
\<close>

definition delivered :: "cast_recv \<Rightarrow> message list" where
  "delivered out = (case out of CrData hdr payload \<Rightarrow> [(wh_record_type hdr, payload)] | _ \<Rightarrow> [])"

inductive recv_run :: "crc_fun \<Rightarrow> stream \<Rightarrow> cast_receiver \<Rightarrow> cast_receiver \<Rightarrow> socket \<Rightarrow> message list \<Rightarrow> bool"
  for crc msg r0 where
  start: "recv_run crc msg r0 r0 [] []"
| arrives: "recv_run crc msg r0 r queue records \<Longrightarrow> genuine crc msg dg \<Longrightarrow> recv_run crc msg r0 r (queue @ [(t, dg)]) records"
| calls: "recv_run crc msg r0 r queue records \<Longrightarrow> \<forall>(t, dg)\<in>set queue. fresh crc (cr_expected_seq r) dg \<Longrightarrow>
    try_recv crc r queue = (out, r', queue') \<Longrightarrow> recv_run crc msg r0 r' queue' (records @ delivered out)"

lemma recv_run_inv:
  assumes "recv_run crc msg r0 r queue records" "ring_ok msg r0" "cr_expected_seq r0 \<noteq> 0"
  shows "ring_ok msg r \<and> cr_expected_seq r0 \<le> cr_expected_seq r \<and> (\<forall>(t, dg)\<in>set queue. genuine crc msg dg) \<and>
    records = map msg [cr_expected_seq r0..<cr_expected_seq r]"
  using assms
proof (induction rule: recv_run.induct)
  case (calls r queue records out r' queue')
  then have IH: "ring_ok msg r" "cr_expected_seq r0 \<le> cr_expected_seq r" "\<forall>(t, dg)\<in>set queue. genuine crc msg dg"
    "records = map msg [cr_expected_seq r0..<cr_expected_seq r]" by simp_all
  have "in_order msg (cr_expected_seq r) out r' \<and> (\<exists>pre. queue = pre @ queue')"
    using try_recv_in_order [OF IH(1) _ _ calls.hyps(3)] IH(2,3) calls.hyps(2) calls.prems(2) by fastforce
  then show ?case using IH by (auto simp: in_order_def delivered_def split: cast_recv.splits)
qed auto

section \<open>Negative acknowledgements\<close>

lemma run_end_exact:
  "seq \<le> run_end ring seq upper" "seq \<le> Suc upper \<Longrightarrow> run_end ring seq upper \<le> Suc upper"
  "\<forall>s. seq \<le> s \<longrightarrow> s < run_end ring seq upper \<longrightarrow> s \<le> upper \<and> ring ! slot_of s \<noteq> s"
  "run_end ring seq upper \<le> upper \<Longrightarrow> ring ! slot_of (run_end ring seq upper) = run_end ring seq upper"
proof (induction ring seq upper rule: run_end.induct)
  case (1 ring seq upper)
  note IH = 1
  {
    case 1
    show ?case using IH(1) by (subst run_end.simps) (auto dest: Suc_leD)
  next
    case 2
    then show ?case using IH(2) by (subst run_end.simps) auto
  next
    case 3
    show ?case
    proof (cases "seq \<le> upper \<and> ring ! slot_of seq \<noteq> seq")
      case True
      then have e: "run_end ring seq upper = run_end ring (Suc seq) upper" by (subst run_end.simps) simp
      show ?thesis unfolding e using IH(3) [OF True] True by (metis Suc_leI le_neq_implies_less)
    next
      case False
      then have "run_end ring seq upper = seq" by (subst run_end.simps) auto
      then show ?thesis by simp
    qed
  next
    case 4
    show ?case
    proof (cases "seq \<le> upper \<and> ring ! slot_of seq \<noteq> seq")
      case True
      then have e: "run_end ring seq upper = run_end ring (Suc seq) upper" by (subst run_end.simps) simp
      show ?thesis using IH(4) [OF True] 4 unfolding e by simp
    next
      case False
      then have "run_end ring seq upper = seq" by (subst run_end.simps) auto
      then show ?thesis using False 4 by simp
    qed
  }
qed


text \<open>How many are sent: at most \<open>max_nak_retries + 1\<close> for each record handed out, and as many for the gap at the end.\<close>

definition nak_inv :: "cast_receiver \<Rightarrow> nat \<Rightarrow> bool" where
  "nak_inv r k \<longleftrightarrow> cr_max_nak_retries r < 65535 \<and>
     (if cr_faulted r then length (cr_naks r) \<le> (cr_max_nak_retries r + 1) * k + cr_max_nak_retries r + 1
      else length (cr_naks r) \<le> (cr_max_nak_retries r + 1) * k + cr_nak_retries_on_oldest r \<and> cr_nak_retries_on_oldest r \<le> cr_max_nak_retries r)"

lemma nak_inv_cong:
  "cr_faulted r' = cr_faulted r \<Longrightarrow> cr_naks r' = cr_naks r \<Longrightarrow> cr_max_nak_retries r' = cr_max_nak_retries r \<Longrightarrow>
    cr_nak_retries_on_oldest r' = cr_nak_retries_on_oldest r \<Longrightarrow> nak_inv r' k = nak_inv r k"
  by (simp add: nak_inv_def)

lemma nak_inv_maybe: "nak_inv r k \<Longrightarrow> nak_inv (maybe_nak r t) k"
  by (auto simp: nak_inv_def maybe_nak_def send_nak_def fault_def Let_def split: option.splits)

lemma nak_inv_deliver: "nak_inv r k \<Longrightarrow> nak_inv (deliver r) (Suc k)"
  by (auto simp: nak_inv_def deliver_def)

lemma nak_inv_sync: "nak_inv (resync (sync_to r s) s) k = nak_inv r k" "nak_inv (see r h) k = nak_inv r k"
  by (simp_all add: nak_inv_def resync_def sync_to_def)

lemma nak_inv_buffer: "buffer r s fr = Some r' \<Longrightarrow> nak_inv r' k = nak_inv r k"
  by (auto simp: buffer_def Let_def nak_inv_def split: if_splits)

lemma nak_inv_drain: "nak_inv r k \<Longrightarrow> drain_ring r = (out, r') \<Longrightarrow> nak_inv r' (k + length (delivered out))"
  using nak_inv_deliver [of "r\<lparr>cr_reorder_seqs := (cr_reorder_seqs r)[slot_of (cr_expected_seq r) := 0]\<rparr>" k]
  by (auto simp: drain_ring_def delivered_def Let_def nak_inv_cong [of "r\<lparr>cr_reorder_seqs := _\<rparr>" r] split: if_splits option.splits)

lemma nak_inv_reconnect: "nak_inv (r\<lparr>cr_needs_reconnect := b, cr_reconnect_last_delivered_seq := s\<rparr>) k = nak_inv r k"
  by (simp add: nak_inv_def)

lemma nak_inv_loop: "nak_inv r k \<Longrightarrow> recv_loop crc r queue = (out, r', queue') \<Longrightarrow> nak_inv r' (k + length (delivered out))"
proof (induction queue arbitrary: r)
  case Nil
  then show ?case using nak_inv_drain [of r k] by (auto split: prod.splits)
next
  case (Cons x queue)
  obtain t dg where x: "x = (t, dg)" by fastforce
  have inv: "nak_inv (resync (sync_to r s) s) k" "nak_inv (see (resync (sync_to r s) s) s) k" "nak_inv (overflow (see (resync (sync_to r s) s) s)) k" for s
    using Cons.prems(1) by (simp_all add: nak_inv_sync overflow_def nak_inv_reconnect)
  from Cons.prems(2) [unfolded x] show ?case
  proof (cases rule: recv_loop_step)
    case (beat h)
    moreover have "nak_inv (maybe_nak (see r h) t) k" using Cons.prems(1) by (intro nak_inv_maybe) (simp add: nak_inv_sync)
    ultimately show ?thesis using Cons.IH by blast
  next
    case (now seq hdr payload r1)
    have "nak_inv (deliver (see r1 seq)) (Suc k)" using nak_inv_deliver [OF inv(2), of seq] unfolding now(2) .
    then show ?thesis using now(4) unfolding delivered_def by simp
  next
    case (given_up seq hdr payload r1 r3)
    have "nak_inv (maybe_nak r3 t) k" using nak_inv_buffer [OF given_up(4), of k] inv(2) [of seq] given_up(2) by (simp add: nak_inv_maybe)
    then show ?thesis using given_up(6) by (simp add: delivered_def faulted_outcome_def)
  next
    case (kept seq hdr payload r1 r3)
    have "nak_inv (maybe_nak r3 t) k" using nak_inv_buffer [OF kept(4), of k] inv(2) [of seq] kept(2) by (simp add: nak_inv_maybe)
    then show ?thesis using Cons.IH kept(6) by blast
  next
    case (old seq hdr payload r1)
    then show ?thesis using Cons.IH inv(1) by blast
  next
    case (full seq hdr payload r1)
    then show ?thesis using inv(3) [of seq] by (simp add: delivered_def)
  qed (use Cons in blast)
qed

lemma nak_inv_run: "recv_run crc msg r0 r queue records \<Longrightarrow> nak_inv r0 0 \<Longrightarrow> nak_inv r (length records)"
proof (induction rule: recv_run.induct)
  case (calls r queue records out r' queue')
  show ?case
  proof (cases "cr_needs_reconnect r \<or> cr_faulted r")
    case True
    then show ?thesis using calls by (auto simp: try_recv_def delivered_def faulted_outcome_def split: if_splits)
  next
    case False
    then show ?thesis using nak_inv_loop [of r "length records" crc queue out r' queue'] calls by (simp add: try_recv_def)
  qed
qed simp_all


section \<open>Properties\<close>

lemma ring_ok_reset:
  assumes "length (cr_reorder_seqs r) = REORDER_CAPACITY" "length (cr_reorder_frames r) = REORDER_CAPACITY"
  shows "ring_ok msg (reset_after_replay r new_tip)"
  using assms by (simp add: ring_ok_def reset_after_replay_def)

lemma receiver_ring [simp]:
  "length (cr_reorder_seqs (receiver_with_config config)) = REORDER_CAPACITY" "length (cr_reorder_frames (receiver_with_config config)) = REORDER_CAPACITY"
  by (simp_all add: receiver_with_config_def)

text \<open>A stream of order requests for examples, and its datagrams.\<close>

definition demo_stream :: stream where "demo_stream s = stamped 9 (replicate 64 0) s"

lemma demo_stream_ok: "message_ok (demo_stream s)"
  unfolding demo_stream_def by (rule stamped_ok) (simp_all add: bytes_def)

lemma parse_frame:
  assumes "message_ok m" "crc_u32 crc"
  shows "parse_datagram crc (frame_of crc m) = Some (header_new (fst m) (length (snd m)) (crc (snd m)), snd m)"
  using assms frame_header [OF assms, of "[]"] frame_payload [OF assms(1), of crc "[]"] length_frame_of [OF assms(1), of crc]
  by (simp add: parse_datagram_def HEADER_SIZE_def MAX_PAYLOAD_def message_ok_def Let_def)

lemma carries_frame:
  assumes "message_ok m" "crc_u32 crc" "fst m \<noteq> RECORD_HEARTBEAT" "fst m \<noteq> RECORD_NAK" "seq_of m \<noteq> 0"
  shows "carries crc (frame_of crc m) s hdr payload \<longleftrightarrow> s = seq_of m \<and> payload = snd m \<and> hdr = header_new (fst m) (length (snd m)) (crc (snd m))"
  using assms parse_frame [OF assms(1,2)] extract_seq_message [OF assms(1)] by (auto simp: carries_def is_data_def)

lemma demo_carries:
  assumes "crc_u32 crc" "0 < s" "s < u64_max"
  shows "carries crc (frame_of crc (demo_stream s)) s' hdr payload \<longleftrightarrow>
    s' = s \<and> payload = snd (demo_stream s) \<and> hdr = header_new 9 (length (snd (demo_stream s))) (crc (snd (demo_stream s)))"
proof -
  have seq: "seq_of (demo_stream s) = s" using assms(3) unfolding demo_stream_def by (intro seq_of_stamped) (simp add: u64_max_def)
  have "fst (demo_stream s) = 9" by (simp add: demo_stream_def stamped_def)
  then show ?thesis using carries_frame [OF demo_stream_ok assms(1), of s s' hdr payload] seq assms(2)
    by (simp add: RECORD_HEARTBEAT_def RECORD_NAK_def)
qed

lemma demo_genuine:
  assumes "crc_u32 crc" "0 < s" "s < u64_max"
  shows "genuine crc demo_stream (frame_of crc (demo_stream s))" "e \<le> s + 100 \<Longrightarrow> fresh crc e (frame_of crc (demo_stream s))"
  using demo_carries [OF assms] assms(3) by (auto simp: genuine_def fresh_def demo_stream_def stamped_def)

text \<open>C32: the consumer sees the stream in order, each record once and none left out. Whatever datagrams arrive (lost, repeated, reordered,
  damaged, heartbeats), as long as those that pass the checksum are the sender's and none is more than a hundred numbers behind the expected
  one (which the receiver takes for a restart of the sender), what the calls of \<open>try_recv\<close> have handed out since a reset is exactly the
  sender's records from the first expected number up to the next one expected now.\<close>

theorem cast_in_order:
  assumes "recv_run crc msg r0 r queue records" "ring_ok msg r0" "cr_expected_seq r0 \<noteq> 0"
  shows "records = map msg [cr_expected_seq r0..<cr_expected_seq r]"
  using recv_run_inv [OF assms] by blast

lemma demo_recv:
  fixes crc :: crc_fun
  assumes "crc_u32 crc"
  defines "r0 \<equiv> reset_after_replay (receiver_with_config cast_config_default) 0"
  defines "q \<equiv> [(5 :: u64, frame_of crc (demo_stream 1))]"
  shows "recv_run crc demo_stream r0 (deliver (see r0 1)) [] [demo_stream 1]"
proof -
  have e: "cr_expected_seq r0 = 1" by (simp add: r0_def reset_after_replay_def u64_add_def)
  note g = demo_genuine [OF assms(1), of 1, simplified] 
  have "recv_run crc demo_stream r0 r0 ([] @ [(5, frame_of crc (demo_stream 1))]) []"
    using g(1) by (intro recv_run.arrives recv_run.start) (simp add: u64_max_def)
  moreover have "\<forall>(t, dg)\<in>set q. fresh crc (cr_expected_seq r0) dg" using g(2) [of 1] e by (simp add: q_def u64_max_def)
  moreover have "try_recv crc r0 q = (CrData (header_new 9 64 (crc (snd (demo_stream 1)))) (snd (demo_stream 1)), deliver (see r0 1), [])"
  proof -
    have c: "carries crc (frame_of crc (demo_stream 1)) 1 (header_new 9 64 (crc (snd (demo_stream 1)))) (snd (demo_stream 1))"
      using demo_carries [OF assms(1), of 1] by (simp add: u64_max_def demo_stream_def stamped_def write_seq_def)
    have "\<not> cr_needs_reconnect r0" "\<not> cr_faulted r0" by (simp_all add: r0_def reset_after_replay_def)
    then have "try_recv crc r0 q = recv_loop crc r0 q" by (simp add: try_recv_def)
    also have "\<dots> = (CrData (header_new 9 64 (crc (snd (demo_stream 1)))) (snd (demo_stream 1)), deliver (see r0 1), [])"
      using c e unfolding q_def by (simp add: carries_def is_data_def sync_to_def resync_def Let_def)
    finally show ?thesis .
  qed
  ultimately have "recv_run crc demo_stream r0 (deliver (see r0 1)) []
      ([] @ delivered (CrData (header_new 9 64 (crc (snd (demo_stream 1)))) (snd (demo_stream 1))))"
    unfolding q_def by (intro recv_run.calls) simp_all
  then show ?thesis by (simp add: delivered_def demo_stream_def stamped_def)
qed

theorem cast_in_order_witness:
  "recv_run (\<lambda>bs. 0) demo_stream (reset_after_replay (receiver_with_config cast_config_default) 0)
     (deliver (see (reset_after_replay (receiver_with_config cast_config_default) 0) 1)) [] [demo_stream 1] \<and>
   [demo_stream 1] = map demo_stream [1..<2]"
proof -
  let ?r0 = "reset_after_replay (receiver_with_config cast_config_default) 0"
  have run: "recv_run (\<lambda>bs. 0) demo_stream ?r0 (deliver (see ?r0 1)) [] [demo_stream 1]" by (rule demo_recv) (simp add: crc_u32_def)
  moreover have "ring_ok demo_stream ?r0" by (rule ring_ok_reset) simp_all
  moreover have "cr_expected_seq ?r0 = 1" "cr_expected_seq (deliver (see ?r0 1)) = 2" by (simp_all add: reset_after_replay_def u64_add_def)
  ultimately show ?thesis using cast_in_order [OF run] by simp
qed

text \<open>C39: retransmission requests are exact and bounded. A step of the negative-acknowledgement pump either sends nothing or sends one
  request for the run of missing numbers that starts at the expected one: each of them has been announced and is not in the reorder ring, the
  run ends at a buffered record, at the highest number seen or after the ring's capacity, and it has at most 2049 numbers. Over a whole
  history the receiver sends at most \<open>max_nak_retries + 1\<close> requests for each record handed out and as many for the gap at its end.\<close>

theorem naks_exact_and_bounded:
  assumes "recv_run crc msg r0 r queue records" "cr_naks r0 = []" "\<not> cr_faulted r0" "cr_nak_retries_on_oldest r0 = 0" "cr_max_nak_retries r0 < 65535"
  shows "length (cr_naks r) \<le> (cr_max_nak_retries r + 1) * (length records + 1) \<and>
    (cr_naks (maybe_nak r t) = cr_naks r \<or> (\<exists>n. cr_naks (maybe_nak r t) = cr_naks r @ [n] \<and> nk_from_seq n = cr_expected_seq r \<and>
       1 \<le> nk_count n \<and> nk_count n \<le> 2049 \<and>
       (\<forall>s. nk_from_seq n \<le> s \<longrightarrow> s < nk_from_seq n + nk_count n \<longrightarrow> s \<le> cr_highest_seen r \<and> cr_reorder_seqs r ! slot_of s \<noteq> s) \<and>
       (let s = nk_from_seq n + nk_count n in
        cr_reorder_seqs r ! slot_of s = s \<or> cr_highest_seen r < s \<or> nk_from_seq n + REORDER_CAPACITY < s \<or> u64_max < s)))"
proof -
  have "nak_inv r0 0" using assms(2-5) by (simp add: nak_inv_def)
  then have "nak_inv r (length records)" by (rule nak_inv_run [OF assms(1)])
  then have bound: "length (cr_naks r) \<le> (cr_max_nak_retries r + 1) * (length records + 1)"
    by (auto simp: nak_inv_def algebra_simps split: if_splits)
  have exact: "cr_naks (maybe_nak r t) = cr_naks r \<or> (\<exists>n. cr_naks (maybe_nak r t) = cr_naks r @ [n] \<and> nk_from_seq n = cr_expected_seq r \<and>
       1 \<le> nk_count n \<and> nk_count n \<le> 2049 \<and>
       (\<forall>s. nk_from_seq n \<le> s \<longrightarrow> s < nk_from_seq n + nk_count n \<longrightarrow> s \<le> cr_highest_seen r \<and> cr_reorder_seqs r ! slot_of s \<noteq> s) \<and>
       (let s = nk_from_seq n + nk_count n in
        cr_reorder_seqs r ! slot_of s = s \<or> cr_highest_seen r < s \<or> nk_from_seq n + REORDER_CAPACITY < s \<or> u64_max < s))"
  proof (cases "cr_naks (maybe_nak r t) = cr_naks r")
    case False
    let ?e = "cr_expected_seq r" and ?u = "min (cr_highest_seen r) (min (cr_expected_seq r + REORDER_CAPACITY) u64_max)"
    let ?s = "run_end (cr_reorder_seqs r) ?e ?u"
    have sent: "oldest_missing_run r = Some (?e, ?s - ?e)" "cr_naks (maybe_nak r t) = cr_naks r @ [\<lparr>nk_from_seq = ?e, nk_count = ?s - ?e\<rparr>]" "?s \<noteq> ?e"
      using False by (auto simp: maybe_nak_def send_nak_def oldest_missing_run_def Let_def split: option.splits if_splits)
    note re = run_end_exact [where ring = "cr_reorder_seqs r" and seq = ?e and upper = ?u]
    have "?e < ?s" using re(1) sent(3) by simp
    then have "?e \<le> ?u" using re(3) by (metis order_refl)
    then have le: "?s \<le> Suc ?u" by (intro re(2) le_SucI)
    have stop: "cr_reorder_seqs r ! slot_of ?s = ?s \<or> ?u < ?s" using re(4) by linarith
    have "1 \<le> ?s - ?e" "?e + (?s - ?e) = ?s" using \<open>?e < ?s\<close> by simp_all
    moreover have "?s - ?e \<le> 2049"
    proof -
      have "?u \<le> ?e + 2048" by (simp add: REORDER_CAPACITY_def)
      then show ?thesis using le by linarith
    qed
    moreover have "\<forall>x. ?e \<le> x \<longrightarrow> x < ?s \<longrightarrow> x \<le> cr_highest_seen r \<and> cr_reorder_seqs r ! slot_of x \<noteq> x"
      using re(3) by (meson min.boundedE)
    moreover have "cr_reorder_seqs r ! slot_of ?s = ?s \<or> cr_highest_seen r < ?s \<or> ?e + REORDER_CAPACITY < ?s \<or> u64_max < ?s"
      using stop by (meson min_less_iff_disj)
    ultimately show ?thesis using sent(2)
      by (intro disjI2 exI [of _ "\<lparr>nk_from_seq = ?e, nk_count = ?s - ?e\<rparr>"]) (simp only: nak.select_convs Let_def simp_thms)
  qed simp
  show ?thesis using bound exact by (rule conjI)
qed

theorem naks_exact_and_bounded_witness:
  "length (cr_naks (deliver (see (reset_after_replay (receiver_with_config cast_config_default) 0) 1))) \<le> 18"
proof -
  let ?r0 = "reset_after_replay (receiver_with_config cast_config_default) 0"
  have run: "recv_run (\<lambda>bs. 0) demo_stream ?r0 (deliver (see ?r0 1)) [] [demo_stream 1]" by (rule demo_recv) (simp add: crc_u32_def)
  have "cr_naks ?r0 = []" "\<not> cr_faulted ?r0" "cr_nak_retries_on_oldest ?r0 = 0" "cr_max_nak_retries ?r0 = 8"
    by (simp_all add: reset_after_replay_def receiver_with_config_def cast_config_default_def)
  then show ?thesis using naks_exact_and_bounded [OF run] by simp
qed

end
