(* ===== verification/Cast_Live.thy ===== *)
theory Cast_Live
  imports Cast_Props
begin

text \<open>
  A window of records that all arrive is handed out completely. The datagrams of up to 2048 consecutive numbers may arrive in any order; the
  receiver buffers what comes too early, asks at most once for the number it waits for within the debounce window, and needs one call per
  record to hand out all of them.
\<close>

section \<open>The window\<close>

definition buffered :: "cast_receiver \<Rightarrow> u64 set" where
  "buffered r = {s. s \<noteq> 0 \<and> cr_reorder_seqs r ! slot_of s = s}"

text \<open>No request was sent before \<open>t0\<close>, and at most one for the number expected now.\<close>

definition calm :: "u64 \<Rightarrow> cast_receiver \<Rightarrow> bool" where
  "calm t0 r \<longleftrightarrow> \<not> cr_faulted r \<and> \<not> cr_needs_reconnect r \<and> 1 \<le> cr_max_nak_retries r \<and> 0 < t0 \<and> length (cr_nak_sent_at r) = REORDER_CAPACITY \<and>
     (\<forall>i < REORDER_CAPACITY. cr_nak_sent_at r ! i = 0 \<or> t0 \<le> cr_nak_sent_at r ! i) \<and>
     (cr_nak_retries_on_oldest r = 0 \<or> cr_nak_retries_on_oldest r = 1 \<and> cr_nak_sent_at r ! slot_of (cr_expected_seq r) \<noteq> 0)"

definition brings :: "crc_fun \<Rightarrow> stream \<Rightarrow> u64 \<Rightarrow> u64 \<Rightarrow> u64 \<times> u8 list \<Rightarrow> u64 \<Rightarrow> bool" where
  "brings crc msg t0 debounce x s \<longleftrightarrow> (\<exists>hdr payload. carries crc (snd x) s hdr payload) \<and> genuine crc msg (snd x) \<and> t0 \<le> fst x \<and> fst x < t0 + debounce"

definition window :: "crc_fun \<Rightarrow> stream \<Rightarrow> u64 \<Rightarrow> u64 \<Rightarrow> cast_receiver \<Rightarrow> socket \<Rightarrow> u64 list \<Rightarrow> bool" where
  "window crc msg t0 last_seq r queue seqs \<longleftrightarrow> ring_ok msg r \<and> calm t0 r \<and> cr_expected_seq r \<noteq> 0 \<and> cr_expected_seq r \<le> last_seq \<and>
     last_seq \<le> cr_expected_seq r + REORDER_CAPACITY \<and> (\<forall>s. length (snd (msg s)) \<le> 240) \<and> distinct seqs \<and>
     list_all2 (brings crc msg t0 (cr_nak_debounce_ns r)) queue seqs \<and>
     set seqs \<inter> buffered r = {} \<and> set seqs \<union> buffered r = {cr_expected_seq r..<last_seq}"

lemma calm_sent: "calm t0 r \<Longrightarrow> i < REORDER_CAPACITY \<Longrightarrow> cr_nak_sent_at r ! i = 0 \<or> t0 \<le> cr_nak_sent_at r ! i"
  by (simp add: calm_def)

lemma calm_maybe_nak:
  assumes "calm t0 r" "t0 \<le> t" "t < t0 + cr_nak_debounce_ns r"
  shows "calm t0 (maybe_nak r t)"
proof (cases "maybe_nak r t = r")
  case True
  then show ?thesis using assms(1) by simp
next
  case False
  let ?e = "cr_expected_seq r"
  have "oldest_missing_run r \<noteq> None"
  proof
    assume "oldest_missing_run r = None"
    then have "maybe_nak r t = r" by (simp add: maybe_nak_def)
    then show False using False by contradiction
  qed
  then obtain cnt where run: "oldest_missing_run r = Some (?e, cnt)"
    by (auto simp: oldest_missing_run_def Let_def split: if_splits)
  have first: "cr_nak_sent_at r ! slot_of ?e = 0"
  proof (rule ccontr)
    assume "cr_nak_sent_at r ! slot_of ?e \<noteq> 0"
    moreover from this have "t0 \<le> cr_nak_sent_at r ! slot_of ?e" using calm_sent [OF assms(1) slot_less, of ?e] by auto
    then have "t - cr_nak_sent_at r ! slot_of ?e < cr_nak_debounce_ns r" using assms(2,3) by linarith
    ultimately have "maybe_nak r t = r" using run by (simp add: maybe_nak_def Let_def)
    then show False using False by contradiction
  qed
  then have none: "cr_nak_retries_on_oldest r = 0" using assms(1) by (auto simp: calm_def)
  have "maybe_nak r t = (send_nak r ?e cnt)\<lparr>cr_nak_sent_at := (cr_nak_sent_at r)[slot_of ?e := t], cr_nak_retries_on_oldest := 1\<rparr>"
  proof -
    have "\<not> cr_faulted r" "\<not> cr_needs_reconnect r" "\<not> 1 > cr_max_nak_retries r" using assms(1) by (simp_all add: calm_def)
    then show ?thesis by (simp add: maybe_nak_def run first none send_nak_def Let_def del: One_nat_def)
  qed
  then show ?thesis using assms by (auto simp: calm_def send_nak_def nth_list_update)
qed

lemma calm_see [simp]: "calm t0 (see r s) = calm t0 r"
  by (simp add: calm_def)

lemma calm_deliver: "calm t0 r \<Longrightarrow> calm t0 (deliver r)"
  by (auto simp: calm_def deliver_def nth_list_update)

lemma slots_apart:
  assumes "s \<in> {e..<m}" "s' \<in> {e..<m}" "m \<le> e + REORDER_CAPACITY" "slot_of s = slot_of s'"
  shows "s = s'"
proof (rule ccontr)
  assume "s \<noteq> s'"
  have *: False if "a < b" "a \<in> {e..<m}" "b \<in> {e..<m}" "slot_of a = slot_of b" for a b
  proof -
    have "REORDER_CAPACITY dvd b - a" using that(1,4) by (metis less_imp_le_nat mod_eq_dvd_iff_nat)
    moreover have "0 < b - a" "b - a < REORDER_CAPACITY" using that(1-3) assms(3) by auto
    ultimately show False using nat_dvd_not_less by blast
  qed
  from \<open>s \<noteq> s'\<close> have "s < s' \<or> s' < s" by linarith
  then show False using *[of s s'] *[of s' s] assms by auto
qed


section \<open>Progress\<close>

lemma buffered_cong: "cr_reorder_seqs r' = cr_reorder_seqs r \<Longrightarrow> buffered r' = buffered r"
  by (simp add: buffered_def)

lemma buffer_window:
  assumes "window crc msg t0 last_seq r ((t, dg) # queue) (s # seqs)" "cr_expected_seq r < s" "carries crc dg s hdr payload"
  defines "fr \<equiv> take (HEADER_SIZE + length payload) dg"
  shows "\<exists>r3. buffer (see r s) s fr = Some r3 \<and> \<not> cr_faulted (maybe_nak r3 t) \<and> window crc msg t0 last_seq (maybe_nak r3 t) queue seqs \<and>
    cr_expected_seq (maybe_nak r3 t) = cr_expected_seq r"
proof -
  let ?e = "cr_expected_seq r" and ?ring = "cr_reorder_seqs r"
  note w = assms(1) [unfolded window_def]
  have ring: "ring_ok msg r" and calm: "calm t0 r" and small: "last_seq \<le> ?e + REORDER_CAPACITY" using w by simp_all
  have cover: "set (s # seqs) \<union> buffered r = {?e..<last_seq}" and apart: "set (s # seqs) \<inter> buffered r = {}" using w by blast+
  then have s_in: "s \<in> {?e..<last_seq}" and s_out: "s \<notin> buffered r" by auto
  have seqs: "s \<notin> set seqs" using w by simp
  have br: "brings crc msg t0 (cr_nak_debounce_ns r) (t, dg) s" using w by simp
  have gen: "(wh_record_type hdr, payload) = msg s" "s < u64_max" "s \<noteq> 0"
    using br assms(3) by (auto simp: brings_def genuine_def carries_def)
  have pd: "parse_datagram crc dg = Some (hdr, payload)" using assms(3) by (simp add: carries_def)
  note pf = parse_datagram_frame [OF pd]
  have len: "length fr \<le> REORDER_FRAME_BYTES"
  proof -
    have "length (snd (msg s)) \<le> 240" using w by blast
    then have "length payload \<le> 240" using gen(1) by (metis snd_conv)
    then show ?thesis using pf(3) by (simp add: fr_def HEADER_SIZE_def REORDER_FRAME_BYTES_def)
  qed
  have free: "?ring ! slot_of s = 0"
  proof (rule ccontr)
    let ?x = "?ring ! slot_of s"
    assume nz: "?x \<noteq> 0"
    have slot: "slot_of ?x = slot_of s" using ring nz slot_less unfolding ring_ok_def by blast
    then have "?x \<in> buffered r" using nz by (simp add: buffered_def)
    then have "?x \<in> {?e..<last_seq}" using w by blast
    then have "?x = s" using slots_apart [OF _ s_in small slot] by blast
    then show False using \<open>?x \<in> buffered r\<close> s_out by simp
  qed
  let ?r3 = "(see r s)\<lparr>cr_reorder_seqs := ?ring[slot_of s := s], cr_reorder_frames := (cr_reorder_frames r)[slot_of s := fr]\<rparr>"
  have buf: "buffer (see r s) s fr = Some ?r3" using free len by (simp add: buffer_def Let_def)
  have ring2: "ring_ok msg (see r s)" using ring ring_ok_cong [of "see r s" r msg] by simp
  have ring3: "ring_ok msg ?r3"
    using ring_ok_buffer(1) [OF ring2 buf gen(3,2) pf(1) [folded fr_def]] gen(1) pf(2) by (simp add: fr_def)
  have calm3: "calm t0 ?r3" using calm by (simp add: calm_def)
  have t: "t0 \<le> t" "t < t0 + cr_nak_debounce_ns r" using br by (simp_all add: brings_def)
  have calm4: "calm t0 (maybe_nak ?r3 t)" using calm_maybe_nak [OF calm3 t(1)] t(2) by simp
  have ring4: "ring_ok msg (maybe_nak ?r3 t)" using ring3 ring_ok_cong [of "maybe_nak ?r3 t" ?r3 msg] by simp
  have held: "buffered (maybe_nak ?r3 t) = insert s (buffered r)"
  proof -
    have "length ?ring = REORDER_CAPACITY" using ring by (simp add: ring_ok_def)
    then show ?thesis using free gen(3) by (auto simp: buffered_def nth_list_update split: if_splits)
  qed
  have "window crc msg t0 last_seq (maybe_nak ?r3 t) queue seqs"
    unfolding window_def held using w ring4 calm4 seqs apart cover by auto
  moreover have "\<not> cr_faulted (maybe_nak ?r3 t)" using calm4 by (simp add: calm_def)
  ultimately show ?thesis using buf by auto
qed

lemma deliver_window:
  assumes "window crc msg t0 last_seq r ((t, dg) # queue) (s # seqs)" "cr_expected_seq r = s" "s < u64_max"
  shows "window crc msg t0 last_seq (deliver (see r s)) queue seqs \<and> cr_expected_seq (deliver (see r s)) = Suc s"
proof -
  note w = assms(1) [unfolded window_def]
  have next_seq: "u64_add s 1 = Suc s" using assms(3) by (simp add: u64_add_id u64_max_def)
  have "calm t0 (deliver (see r s))" using calm_deliver [of t0 "see r s"] w by simp
  moreover have "ring_ok msg (deliver (see r s))" using w ring_ok_cong [of "deliver (see r s)" r msg] by simp
  moreover have "buffered (deliver (see r s)) = buffered r" by (rule buffered_cong) simp
  moreover have "set seqs \<union> buffered r = {Suc s..<last_seq} \<and> Suc s \<le> last_seq"
  proof -
    have cover: "insert s (set seqs \<union> buffered r) = {s..<last_seq}" and out: "s \<notin> set seqs \<union> buffered r" using w assms(2) by auto
    have "s \<in> {s..<last_seq}" unfolding cover [symmetric] by simp
    then have "s < last_seq" by simp
    then have "{s..<last_seq} = insert s {Suc s..<last_seq}" by auto
    then have "insert s (set seqs \<union> buffered r) = insert s {Suc s..<last_seq}" using cover by simp
    then show ?thesis using out \<open>s < last_seq\<close> insert_ident [of s "set seqs \<union> buffered r" "{Suc s..<last_seq}"] by simp
  qed
  ultimately show ?thesis using w assms(2) next_seq unfolding window_def by simp
qed

lemma drain_window:
  assumes "window crc msg t0 last_seq r [] []" "cr_expected_seq r < last_seq"
  shows "\<exists>hdr payload r'. drain_ring r = (CrData hdr payload, r') \<and> (wh_record_type hdr, payload) = msg (cr_expected_seq r) \<and>
    window crc msg t0 last_seq r' [] [] \<and> cr_expected_seq r' = Suc (cr_expected_seq r)"
proof -
  let ?e = "cr_expected_seq r"
  note w = assms(1) [unfolded window_def]
  have all: "buffered r = {?e..<last_seq}" using w by simp
  then have "?e \<in> buffered r" using assms(2) by simp
  then have here: "?e \<noteq> 0" "cr_reorder_seqs r ! slot_of ?e = ?e" by (simp_all add: buffered_def)
  have ring: "ring_ok msg r" using w by simp
  obtain hdr where hdr: "header_from_bytes (take HEADER_SIZE (cr_reorder_frames r ! slot_of ?e)) = Some hdr"
    "(wh_record_type hdr, drop HEADER_SIZE (cr_reorder_frames r ! slot_of ?e)) = msg ?e" "?e < u64_max"
    using ring here slot_less unfolding ring_ok_def by metis
  let ?r1 = "r\<lparr>cr_reorder_seqs := (cr_reorder_seqs r)[slot_of ?e := 0]\<rparr>"
  have dr: "drain_ring r = (CrData hdr (drop HEADER_SIZE (cr_reorder_frames r ! slot_of ?e)), deliver ?r1)"
    using here hdr by (simp add: drain_ring_def Let_def)
  have next_seq: "cr_expected_seq (deliver ?r1) = Suc ?e" using hdr(3) by (simp add: u64_add_id u64_max_def)
  have "calm t0 ?r1" using w by (simp add: calm_def)
  then have "calm t0 (deliver ?r1)" by (rule calm_deliver)
  moreover have "ring_ok msg (deliver ?r1)" using ring_ok_drain(1) [OF ring dr] .
  moreover have "buffered (deliver ?r1) = buffered r - {?e}"
  proof -
    have "length (cr_reorder_seqs r) = REORDER_CAPACITY" using ring by (simp add: ring_ok_def)
    then show ?thesis using here by (auto simp: buffered_def nth_list_update split: if_splits)
  qed
  ultimately have "window crc msg t0 last_seq (deliver ?r1) [] []" using w assms(2) next_seq all unfolding window_def by auto
  then show ?thesis using dr hdr(2) next_seq by blast
qed


lemma recv_window:
  assumes "window crc msg t0 last_seq r queue seqs" "cr_expected_seq r < last_seq"
  shows "\<exists>hdr payload r' queue' seqs'. recv_loop crc r queue = (CrData hdr payload, r', queue') \<and> (wh_record_type hdr, payload) = msg (cr_expected_seq r) \<and>
    window crc msg t0 last_seq r' queue' seqs' \<and> cr_expected_seq r' = Suc (cr_expected_seq r)"
  using assms
proof (induction queue arbitrary: r seqs)
  case Nil
  then have "seqs = []" by (simp add: window_def)
  then obtain hdr payload r' where "drain_ring r = (CrData hdr payload, r')" "(wh_record_type hdr, payload) = msg (cr_expected_seq r)"
    "window crc msg t0 last_seq r' [] []" "cr_expected_seq r' = Suc (cr_expected_seq r)"
    using drain_window [of crc msg t0 last_seq r] Nil by blast
  then show ?case by auto
next
  case (Cons x queue)
  obtain t dg where x: "x = (t, dg)" by fastforce
  obtain s rest where seqs: "seqs = s # rest" using Cons.prems(1) by (auto simp: window_def list_all2_Cons1)
  note w = Cons.prems(1) [unfolded x seqs]
  have br: "brings crc msg t0 (cr_nak_debounce_ns r) (t, dg) s" using w by (simp add: window_def)
  then obtain hdr payload where c: "carries crc dg s hdr payload" by (auto simp: brings_def)
  have only: "carries crc dg s' hdr' payload' \<Longrightarrow> s' = s \<and> hdr' = hdr \<and> payload' = payload" for s' hdr' payload'
    using c by (auto simp: carries_def)
  have gen: "(wh_record_type hdr, payload) = msg s" "s < u64_max" using br c by (auto simp: brings_def genuine_def)
  have "s \<in> {cr_expected_seq r..<last_seq}" using w unfolding window_def by (metis UnI1 list.set_intros(1))
  then have le: "cr_expected_seq r \<le> s" by simp
  have nz: "cr_expected_seq r \<noteq> 0" using w by (simp add: window_def)
  have nores: "resync (sync_to r s) s = r" using le nz by (simp add: sync_to_def resync_def)
  obtain res where res: "recv_loop crc r ((t, dg) # queue) = res" by blast
  from res show ?case
  proof (cases rule: recv_loop_step)
    case (now s' hdr' payload' r1)
    have same: "s' = s" "hdr' = hdr" "payload' = payload" using only [OF now(1)] by blast+
    have "r1 = r" using now(2) nores unfolding same by simp
    note eq = same this
    have "s = cr_expected_seq r" "recv_loop crc r ((t, dg) # queue) = (CrData hdr payload, deliver (see r s), queue)"
      using now(3,4) res unfolding eq by simp_all
    then show ?thesis using deliver_window [OF w _ gen(2)] gen(1) x by auto
  next
    case (kept s' hdr' payload' r1 r3)
    have same: "s' = s" "hdr' = hdr" "payload' = payload" using only [OF kept(1)] by blast+
    have "r1 = r" using kept(2) nores unfolding same by simp
    note eq = same this
    have "window crc msg t0 last_seq (maybe_nak r3 t) queue rest" "cr_expected_seq (maybe_nak r3 t) = cr_expected_seq r"
      using buffer_window [OF w _ c] kept(3,4) unfolding eq by auto
    then show ?thesis using Cons.IH [of "maybe_nak r3 t" rest] Cons.prems(2) kept(6) res x by simp
  next
    case (old s' hdr' payload' r1)
    have same: "s' = s" using only [OF old(1)] by blast
    have "r1 = r" using old(2) nores unfolding same by simp
    then show ?thesis using old(3) le same by simp
  next
    case (full s' hdr' payload' r1)
    have same: "s' = s" "hdr' = hdr" "payload' = payload" using only [OF full(1)] by blast+
    have "r1 = r" using full(2) nores unfolding same by simp
    note eq = same this
    show ?thesis using buffer_window [OF w _ c] full(3,4) unfolding eq by auto
  next
    case (given_up s' hdr' payload' r1 r3)
    have same: "s' = s" "hdr' = hdr" "payload' = payload" using only [OF given_up(1)] by blast+
    have "r1 = r" using given_up(2) nores unfolding same by simp
    note eq = same this
    show ?thesis using buffer_window [OF w _ c] given_up(3,4,5) unfolding eq by auto
  qed (use c in blast)+
qed

fun recv_calls :: "crc_fun \<Rightarrow> nat \<Rightarrow> cast_receiver \<Rightarrow> socket \<Rightarrow> message list \<times> cast_receiver \<times> socket" where
  "recv_calls crc 0 r queue = ([], r, queue)"
| "recv_calls crc (Suc n) r queue =
     (let (out, r1, queue1) = try_recv crc r queue; (records, r2, queue2) = recv_calls crc n r1 queue1 in (delivered out @ records, r2, queue2))"

lemma recv_calls_window:
  assumes "window crc msg t0 last_seq r queue seqs" "n = last_seq - cr_expected_seq r"
  shows "fst (recv_calls crc n r queue) = map msg [cr_expected_seq r..<last_seq]"
  using assms
proof (induction n arbitrary: r queue seqs)
  case 0
  then show ?case by (simp add: window_def)
next
  case (Suc n)
  then have lt: "cr_expected_seq r < last_seq" by simp
  obtain hdr payload r' queue' seqs' where step: "recv_loop crc r queue = (CrData hdr payload, r', queue')"
    "(wh_record_type hdr, payload) = msg (cr_expected_seq r)" "window crc msg t0 last_seq r' queue' seqs'" "cr_expected_seq r' = Suc (cr_expected_seq r)"
    using recv_window [OF Suc.prems(1) lt] by blast
  have "try_recv crc r queue = recv_loop crc r queue" using Suc.prems(1) by (simp add: try_recv_def window_def calm_def)
  moreover have "fst (recv_calls crc n r' queue') = map msg [cr_expected_seq r'..<last_seq]"
    using Suc.prems(2) step(4) by (intro Suc.IH [OF step(3)]) simp
  ultimately show ?case using step(1,2,4) lt by (auto simp: delivered_def Let_def upt_conv_Cons split: prod.splits)
qed

text \<open>C36: what arrives is handed out. After a reset to \<open>new_tip\<close>, let the datagrams of the next \<open>n\<close> records, at most 2048 of them, arrive in
  any order within one debounce window. Then \<open>n\<close> calls of \<open>try_recv\<close> hand out all of them, in order: nothing is stuck in the reorder ring, and
  the receiver neither faults nor asks for a reconnect.\<close>

theorem window_delivered:
  assumes "length (cr_reorder_seqs r) = REORDER_CAPACITY" "length (cr_reorder_frames r) = REORDER_CAPACITY" "length (cr_nak_sent_at r) = REORDER_CAPACITY"
    "1 \<le> cr_max_nak_retries r" "0 < t0" "n \<le> REORDER_CAPACITY" "new_tip + n < u64_max" "\<forall>s. length (snd (msg s)) \<le> 240"
    "list_all2 (brings crc msg t0 (cr_nak_debounce_ns r)) queue seqs" "distinct seqs" "set seqs = {Suc new_tip..<Suc new_tip + n}"
  shows "fst (recv_calls crc n (reset_after_replay r new_tip) queue) = map msg [Suc new_tip..<Suc new_tip + n]"
proof -
  let ?r = "reset_after_replay r new_tip"
  have e: "cr_expected_seq ?r = Suc new_tip" using assms(7) by (simp add: reset_after_replay_def u64_add_id u64_max_def)
  have zero: "buffered ?r = {}" using assms(1) by (auto simp: buffered_def reset_after_replay_def)
  have "calm t0 ?r" using assms(3-5) by (simp add: calm_def reset_after_replay_def)
  moreover have "cr_nak_debounce_ns ?r = cr_nak_debounce_ns r" by (simp add: reset_after_replay_def)
  ultimately have "window crc msg t0 (Suc new_tip + n) ?r queue seqs"
    unfolding window_def e zero using assms ring_ok_reset [OF assms(1,2), of msg new_tip] by simp
  then show ?thesis using recv_calls_window [of crc msg t0 "Suc new_tip + n" ?r queue seqs n] e by simp
qed

theorem window_delivered_witness:
  "fst (recv_calls (\<lambda>bs. 0) 2 (reset_after_replay (receiver_with_config cast_config_default) 0)
     [(5, frame_of (\<lambda>bs. 0) (demo_stream 2)), (6, frame_of (\<lambda>bs. 0) (demo_stream 1))]) = [demo_stream 1, demo_stream 2]"
proof -
  let ?r = "receiver_with_config cast_config_default" and ?crc = "\<lambda>bs :: u8 list. 0 :: u32"
  have u32: "crc_u32 ?crc" by (simp add: crc_u32_def)
  have br: "brings ?crc demo_stream 5 (cr_nak_debounce_ns ?r) (t, frame_of ?crc (demo_stream s)) s" if "5 \<le> t" "t < 10" "0 < s" "s < 10" for t s
    using that demo_carries [OF u32, of s] demo_genuine(1) [OF u32, of s]
    by (auto simp: brings_def u64_max_def receiver_with_config_def cast_config_default_def)
  have "fst (recv_calls ?crc 2 (reset_after_replay ?r 0) [(5, frame_of ?crc (demo_stream 2)), (6, frame_of ?crc (demo_stream 1))]) =
    map demo_stream [Suc 0..<Suc 0 + 2]"
  proof (rule window_delivered [where seqs = "[2, 1]" and ?t0.0 = 5])
    show "set [2, 1] = {Suc 0..<Suc 0 + 2}" by auto
    show "\<forall>s. length (snd (demo_stream s)) \<le> 240" by (simp add: demo_stream_def stamped_def write_seq_def)
  qed (use br in \<open>simp_all add: receiver_with_config_def cast_config_default_def REORDER_CAPACITY_def u64_max_def\<close>)
  then show ?thesis by (simp add: upt_conv_Cons numeral_2_eq_2)
qed

end
