(* ===== verification/Cast_Send.thy ===== *)
theory Cast_Send
  imports Wal_Props Cast_Live
begin

text \<open>
  The sender of the live datagram stream (\<open>CastSender\<close> of \<open>rsx-cast/src/cast.rs\<close>). The datagrams it sends are collected in \<open>cs_sent\<close>;
  whether a send succeeds and the readings of the clock (nanoseconds since the sender was made) are inputs. As in the receiver, the frame
  and the length kept in a slot of the ring are one byte string, and the slot \<open>seq & mask\<close> is written as \<open>mod\<close>.
\<close>

section \<open>State\<close>

definition PACKET_BUF_SIZE :: nat where "PACKET_BUF_SIZE = HEADER_SIZE + MAX_PAYLOAD + 1"
definition SEND_RING_FRAME_BYTES :: nat where "SEND_RING_FRAME_BYTES = 128"
definition SEND_RING_CAPACITY :: nat where "SEND_RING_CAPACITY = 4096"

record cast_sender =
  cs_next_seq :: u64
  cs_last_heartbeat :: u64
  cs_heartbeat_interval :: u64
  cs_ring_seqs :: "u64 list"
  cs_ring_frames :: "u8 list list"
  cs_ring_last_retx_ns :: "u64 list"
  cs_retx_dedup_window_ns :: u64
  cs_stream_id :: u32
  cs_sent :: "u8 list list"

abbreviation send_slot :: "u64 \<Rightarrow> nat" where "send_slot seq \<equiv> seq mod SEND_RING_CAPACITY"

definition sender_with_config :: "u32 \<Rightarrow> cast_config \<Rightarrow> cast_sender" where
  "sender_with_config stream_id config = \<lparr>cs_next_seq = 1, cs_last_heartbeat = 0,
     cs_heartbeat_interval = cc_heartbeat_interval_ms config * 1000000,
     cs_ring_seqs = replicate SEND_RING_CAPACITY 0, cs_ring_frames = replicate SEND_RING_CAPACITY [],
     cs_ring_last_retx_ns = replicate SEND_RING_CAPACITY 0,
     cs_retx_dedup_window_ns = min (cc_retx_dedup_window_us config * 1000) u64_max, cs_stream_id = stream_id, cs_sent = []\<rparr>"

section \<open>Sending\<close>

definition send_to :: "cast_sender \<Rightarrow> u8 list \<Rightarrow> cast_sender" where
  "send_to s dg = s\<lparr>cs_sent := cs_sent s @ [dg]\<rparr>"

definition cache_frame :: "cast_sender \<Rightarrow> framed \<Rightarrow> cast_sender" where
  "cache_frame s fr =
     (let slot = send_slot (fr_seq fr) in
      if length (fr_wire fr) \<le> SEND_RING_FRAME_BYTES then
        s\<lparr>cs_ring_seqs := (cs_ring_seqs s)[slot := fr_seq fr], cs_ring_frames := (cs_ring_frames s)[slot := fr_wire fr]\<rparr>
      else s\<lparr>cs_ring_seqs := (cs_ring_seqs s)[slot := 0], cs_ring_frames := (cs_ring_frames s)[slot := []]\<rparr>)"

definition send_framed :: "bool \<Rightarrow> u64 \<Rightarrow> cast_sender \<Rightarrow> framed \<Rightarrow> (wal_error + unit) \<times> cast_sender" where
  "send_framed send_ok now s fr =
     (let s1 = cache_frame s fr in
      if \<not> send_ok then (Inl IoFailed, s1)
      else (Inr (), (send_to s1 (fr_wire fr))\<lparr>cs_next_seq := u64_add (fr_seq fr) 1, cs_last_heartbeat := now\<rparr>))"

definition tick_sender :: "crc_fun \<Rightarrow> bool \<Rightarrow> u64 \<Rightarrow> cast_sender \<Rightarrow> (wal_error + unit) \<times> cast_sender" where
  "tick_sender crc send_ok now s =
     (if now - cs_last_heartbeat s \<ge> cs_heartbeat_interval s then
        if \<not> send_ok then (Inl IoFailed, s)
        else (Inr (), (send_to s (encode_record crc RECORD_HEARTBEAT (heartbeat_bytes (cs_next_seq s - 1))))\<lparr>cs_last_heartbeat := now\<rparr>)
      else (Inr (), s))"

definition send_raw :: "crc_fun \<Rightarrow> bool \<Rightarrow> u64 \<Rightarrow> cast_sender \<Rightarrow> nat \<Rightarrow> u8 list \<Rightarrow> (wal_error + unit) \<times> cast_sender" where
  "send_raw crc send_ok now s record_type payload =
     (if \<not> send_ok then (Inl IoFailed, s) else (Inr (), (send_to s (encode_record crc record_type payload))\<lparr>cs_last_heartbeat := now\<rparr>))"

definition advance_seq :: "cast_sender \<Rightarrow> cast_sender" where
  "advance_seq s = s\<lparr>cs_next_seq := u64_add (cs_next_seq s) 1\<rparr>"

section \<open>Retransmission\<close>

text \<open>One send of the retransmission loop; the slot is stamped only when it succeeds.\<close>

definition resend :: "(u64 \<Rightarrow> bool) \<Rightarrow> u64 \<Rightarrow> u64 \<Rightarrow> u8 list \<Rightarrow> cast_sender \<Rightarrow> cast_sender" where
  "resend send_ok now_ns seq dg s =
     (if send_ok seq then (send_to s dg)\<lparr>cs_ring_last_retx_ns := (cs_ring_last_retx_ns s)[send_slot seq := now_ns]\<rparr> else s)"

definition retransmit :: "crc_fun \<Rightarrow> dir \<Rightarrow> (u64 \<Rightarrow> bool) \<Rightarrow> u64 \<Rightarrow> u64 \<Rightarrow> cast_sender \<Rightarrow> cast_sender" where
  "retransmit crc d send_ok now_ns seq s =
     (let slot = send_slot seq; last_ns = cs_ring_last_retx_ns s ! slot in
      if last_ns \<noteq> 0 \<and> now_ns - last_ns < cs_retx_dedup_window_ns s then s
      else if seq \<noteq> 0 \<and> cs_ring_seqs s ! slot = seq \<and> length (cs_ring_frames s ! slot) > 0 then
        resend send_ok now_ns seq (cs_ring_frames s ! slot) s
      else (case read_record_at_seq crc (cs_stream_id s) seq d of
          Inr (Some rec) \<Rightarrow>
            if HEADER_SIZE + length (rw_payload rec) > PACKET_BUF_SIZE then s
            else resend send_ok now_ns seq (header_to_bytes (rw_header rec) @ rw_payload rec) s
        | Inr None \<Rightarrow> s
        | Inl e \<Rightarrow> s))"

definition nak_seqs :: "nak \<Rightarrow> u64 list" where
  "nak_seqs n = map (\<lambda>i. min (nk_from_seq n + i) u64_max) [0..<min (nk_count n) SEND_RING_CAPACITY]"

definition handle_nak :: "crc_fun \<Rightarrow> dir \<Rightarrow> (u64 \<Rightarrow> bool) \<Rightarrow> u64 \<Rightarrow> nak \<Rightarrow> cast_sender \<Rightarrow> cast_sender" where
  "handle_nak crc d send_ok now_ns n s = fold (retransmit crc d send_ok now_ns) (nak_seqs n) s"

text \<open>The control socket: datagrams are cut at the 256 bytes of the buffer; the checksum is not looked at.\<close>

fun recv_control :: "crc_fun \<Rightarrow> dir \<Rightarrow> (u64 \<Rightarrow> bool) \<Rightarrow> cast_sender \<Rightarrow> socket \<Rightarrow> cast_sender" where
  "recv_control crc d send_ok s [] = s"
| "recv_control crc d send_ok s ((now_ns, dg) # queue) =
     (let cbuf = take 256 dg in
      if length cbuf < HEADER_SIZE then recv_control crc d send_ok s queue
      else case header_from_bytes (take HEADER_SIZE cbuf) of
        None \<Rightarrow> recv_control crc d send_ok s queue
      | Some hdr \<Rightarrow>
          if wh_record_type hdr = RECORD_NAK then (case nak_decode (drop HEADER_SIZE cbuf) of
              Some n \<Rightarrow> recv_control crc d send_ok (handle_nak crc d send_ok now_ns n s) queue
            | None \<Rightarrow> recv_control crc d send_ok s queue)
          else recv_control crc d send_ok s queue)"

end
