(* ===== verification/Cast_Repair.thy ===== *)
theory Cast_Repair
  imports Cast_Send "HOL-Library.Sublist"
begin

text \<open>
  The sender beside its log, and the sender beside a receiver. A sender that publishes what it appends to the log answers a request with
  exactly the records asked for, from its ring or from the log, and the answer closes the gap of the receiver that sent the request.
\<close>

section \<open>The ring caches the log\<close>

definition cast_log_ok :: "message list \<Rightarrow> bool" where
  "cast_log_ok log \<longleftrightarrow> messages_ok log \<and> ascending log \<and> (\<forall>m\<in>set log. seq_of m < u64_max)"

lemma state_cast_log:
  assumes "wal_state crc w d stored pending"
  shows "cast_log_ok (stored @ pending)"
  using assms by (auto simp: wal_state_def live_def broken_def msgs_inv_def cast_log_ok_def)

lemma cast_log_unique:
  assumes "cast_log_ok log" "m \<in> set log" "m' \<in> set log" "seq_of m = seq_of m'"
  shows "m = m'"
proof -
  have "distinct (map seq_of log)" using assms(1) strict_sorted_iff by (auto simp: cast_log_ok_def)
  then show ?thesis using assms(2-4) by (metis distinct_map inj_onD)
qed

definition ring_caches :: "crc_fun \<Rightarrow> message list \<Rightarrow> cast_sender \<Rightarrow> bool" where
  "ring_caches crc log s \<longleftrightarrow> length (cs_ring_seqs s) = SEND_RING_CAPACITY \<and> length (cs_ring_frames s) = SEND_RING_CAPACITY \<and>
     length (cs_ring_last_retx_ns s) = SEND_RING_CAPACITY \<and>
     (\<forall>i < SEND_RING_CAPACITY. cs_ring_seqs s ! i \<noteq> 0 \<longrightarrow> (\<exists>m\<in>set log. seq_of m = cs_ring_seqs s ! i \<and> cs_ring_frames s ! i = frame_of crc m))"

lemma send_slot_less [simp]: "send_slot x < SEND_RING_CAPACITY"
  by (simp add: SEND_RING_CAPACITY_def)

lemma ring_caches_mono: "ring_caches crc log s \<Longrightarrow> set log \<subseteq> set log' \<Longrightarrow> ring_caches crc log' s"
  unfolding ring_caches_def by blast

lemma ring_caches_new: "ring_caches crc log (sender_with_config stream_id config)"
  by (simp add: ring_caches_def sender_with_config_def)

lemma cache_frame_sel [simp]:
  "cs_sent (cache_frame s fr) = cs_sent s" "cs_stream_id (cache_frame s fr) = cs_stream_id s"
  by (simp_all add: cache_frame_def Let_def)

lemma ring_caches_cache:
  assumes "ring_caches crc log s" "m \<in> set log" "seq_of m = fr_seq fr" "fr_wire fr = frame_of crc m"
  shows "ring_caches crc log (cache_frame s fr)"
  using assms by (auto simp: ring_caches_def cache_frame_def Let_def nth_list_update)

lemma ring_caches_cong:
  "cs_ring_seqs s' = cs_ring_seqs s \<Longrightarrow> cs_ring_frames s' = cs_ring_frames s \<Longrightarrow> length (cs_ring_last_retx_ns s') = length (cs_ring_last_retx_ns s) \<Longrightarrow>
    ring_caches crc log s' = ring_caches crc log s"
  by (simp add: ring_caches_def)

section \<open>Answering a request\<close>

definition resendable :: "u64 \<Rightarrow> cast_sender \<Rightarrow> u64 \<Rightarrow> bool" where
  "resendable now_ns s seq \<longleftrightarrow> (let last_ns = cs_ring_last_retx_ns s ! send_slot seq in last_ns = 0 \<or> cs_retx_dedup_window_ns s \<le> now_ns - last_ns)"

lemma raw_frame:
  assumes "message_ok m"
  shows "header_to_bytes (rw_header (raw_of crc m)) @ rw_payload (raw_of crc m) = frame_of crc m"
  using message_len [OF assms] by (simp add: raw_of_def encode_record_def)

definition resent :: "(u64 \<Rightarrow> bool) \<Rightarrow> u64 \<Rightarrow> crc_fun \<Rightarrow> message \<Rightarrow> cast_sender \<Rightarrow> cast_sender" where
  "resent send_ok now_ns crc m s = resend send_ok now_ns (seq_of m) (frame_of crc m) s"

lemma resend_sel [simp]:
  "cs_ring_seqs (resend ok t q dg s) = cs_ring_seqs s" "cs_ring_frames (resend ok t q dg s) = cs_ring_frames s"
  "cs_stream_id (resend ok t q dg s) = cs_stream_id s" "cs_retx_dedup_window_ns (resend ok t q dg s) = cs_retx_dedup_window_ns s"
  "length (cs_ring_last_retx_ns (resend ok t q dg s)) = length (cs_ring_last_retx_ns s)"
  "cs_sent (resend ok t q dg s) = cs_sent s @ (if ok q then [dg] else [])"
  by (simp_all add: resend_def send_to_def)

lemma retransmit_cases:
  assumes "ring_caches crc log s" "cast_log_ok log" "on_disk crc (cs_stream_id s) d disk" "set disk \<subseteq> set log" "crc_u32 crc"
  shows "(retransmit crc d ok t q s = s \<and> (resendable t s q \<longrightarrow> (\<forall>m\<in>set disk. seq_of m \<noteq> q))) \<or>
    (\<exists>m\<in>set log. seq_of m = q \<and> retransmit crc d ok t q s = resend ok t q (frame_of crc m) s)"
proof -
  let ?i = "send_slot q" and ?hit = "q \<noteq> 0 \<and> cs_ring_seqs s ! send_slot q = q \<and> length (cs_ring_frames s ! send_slot q) > 0"
  show ?thesis
  proof (cases "resendable t s q \<and> \<not> ?hit")
    case False
    then consider "\<not> resendable t s q" | "resendable t s q" ?hit by blast
    then show ?thesis
    proof cases
      case 1
      then show ?thesis by (simp add: retransmit_def resendable_def Let_def not_le)
    next
      case 2
      then obtain m where "m \<in> set log" "seq_of m = q" "cs_ring_frames s ! ?i = frame_of crc m"
        using assms(1) unfolding ring_caches_def by (metis send_slot_less)
      then show ?thesis using 2 by (auto simp: retransmit_def resendable_def Let_def not_le)
    qed
  next
    case True
    then have re: "retransmit crc d ok t q s = (case map_option (raw_of crc) (List.find (\<lambda>m. seq_of m = q) disk) of
        Some rec \<Rightarrow> if HEADER_SIZE + length (rw_payload rec) > PACKET_BUF_SIZE then s
          else resend ok t q (header_to_bytes (rw_header rec) @ rw_payload rec) s
      | None \<Rightarrow> s)"
      using read_at_disk [OF assms(3,5), of q] by (auto simp: retransmit_def resendable_def Let_def not_le split: option.split)
    show ?thesis
    proof (cases "List.find (\<lambda>m. seq_of m = q) disk")
      case None
      then have "\<forall>m\<in>set disk. seq_of m \<noteq> q" unfolding find_None_iff by blast
      moreover have "retransmit crc d ok t q s = s" using re None by simp
      ultimately show ?thesis by blast
    next
      case (Some m)
      then have m: "m \<in> set log" "seq_of m = q" using assms(4) by (auto simp: find_Some_iff)
      then have ok: "message_ok m" using assms(2) by (simp add: cast_log_ok_def messages_ok_def)
      have "\<not> HEADER_SIZE + length (rw_payload (raw_of crc m)) > PACKET_BUF_SIZE"
        using ok by (simp add: raw_of_def PACKET_BUF_SIZE_def MAX_PAYLOAD_def message_ok_def)
      then show ?thesis using re Some m raw_frame [OF ok] by auto
    qed
  qed
qed

lemma resendable_resend: "resendable t (resend ok t q dg s) x = resendable t s x" if "send_slot x \<noteq> send_slot q"
  using that by (simp add: resendable_def resend_def send_to_def nth_list_update)

lemma retransmit_all:
  assumes "ring_caches crc log s" "cast_log_ok log" "on_disk crc (cs_stream_id s) d disk" "set disk \<subseteq> set log" "crc_u32 crc"
  shows "\<exists>ms. cs_sent (fold (retransmit crc d ok t) qs s) = cs_sent s @ map (frame_of crc) ms \<and> set ms \<subseteq> set log \<and> subseq (map seq_of ms) qs \<and>
    (distinct (map send_slot qs) \<and> (\<forall>q\<in>set qs. resendable t s q \<and> ok q) \<longrightarrow> (\<forall>m\<in>set disk. seq_of m \<in> set qs \<longrightarrow> m \<in> set ms)) \<and>
    ring_caches crc log (fold (retransmit crc d ok t) qs s) \<and> cs_stream_id (fold (retransmit crc d ok t) qs s) = cs_stream_id s"
  using assms(1,3)
proof (induction qs arbitrary: s)
  case Nil
  then show ?case by (intro exI [of _ "[]"]) simp
next
  case (Cons q qs)
  let ?s = "retransmit crc d ok t q s"
  note rc = retransmit_cases [OF Cons.prems(1) assms(2) Cons.prems(2) assms(4,5), of ok t q]
  have inv: "ring_caches crc log ?s" "cs_stream_id ?s = cs_stream_id s"
    using rc Cons.prems(1) ring_caches_cong [of "resend ok t q dg s" s crc log for dg] by auto
  have keep: "resendable t ?s x = resendable t s x" if "send_slot x \<noteq> send_slot q" for x using rc resendable_resend [OF that] by auto
  obtain ms where IH: "cs_sent (fold (retransmit crc d ok t) qs ?s) = cs_sent ?s @ map (frame_of crc) ms" "set ms \<subseteq> set log" "subseq (map seq_of ms) qs"
      "distinct (map send_slot qs) \<and> (\<forall>q\<in>set qs. resendable t ?s q \<and> ok q) \<longrightarrow> (\<forall>m\<in>set disk. seq_of m \<in> set qs \<longrightarrow> m \<in> set ms)"
      "ring_caches crc log (fold (retransmit crc d ok t) qs ?s)" "cs_stream_id (fold (retransmit crc d ok t) qs ?s) = cs_stream_id s"
    using Cons.IH [of ?s] inv Cons.prems(2) by auto
  have later: "\<forall>m\<in>set disk. seq_of m \<in> set qs \<longrightarrow> m \<in> set ms"
    if "distinct (map send_slot (q # qs))" "\<forall>x\<in>set (q # qs). resendable t s x \<and> ok x"
    using IH(4) that keep by (fastforce simp: image_iff)
  from rc show ?case
  proof (elim disjE conjE bexE)
    assume "?s = s" "resendable t s q \<longrightarrow> (\<forall>m\<in>set disk. seq_of m \<noteq> q)"
    then show ?thesis using IH later by (intro exI [of _ ms]) auto
  next
    fix m assume m: "m \<in> set log" "seq_of m = q" "?s = resend ok t q (frame_of crc m) s"
    have uniq: "m' = m" if "m' \<in> set disk" "seq_of m' = q" for m'
      by (rule cast_log_unique [OF assms(2) subsetD [OF assms(4) that(1)] m(1)]) (simp only: that(2) m(2))
    show ?thesis
    proof (cases "ok q")
      case True
      then show ?thesis using IH m later uniq by (intro exI [of _ "m # ms"]) auto
    next
      case False
      then show ?thesis using IH m by (intro exI [of _ ms]) auto
    qed
  qed
qed

lemma send_slots_apart:
  assumes "n \<le> SEND_RING_CAPACITY"
  shows "distinct (map send_slot [a..<a + n])"
proof -
  have *: False if "x < y" "x \<in> {a..<a + n}" "y \<in> {a..<a + n}" "send_slot x = send_slot y" for x y
  proof -
    have "SEND_RING_CAPACITY dvd y - x" using that(1,4) by (metis less_imp_le_nat mod_eq_dvd_iff_nat)
    moreover have "0 < y - x" "y - x < SEND_RING_CAPACITY" using that(1-3) assms by auto
    ultimately show False using nat_dvd_not_less by blast
  qed
  have "inj_on send_slot (set [a..<a + n])" by (rule inj_onI) (metis * linorder_neqE_nat set_upt)
  then show ?thesis by (simp add: distinct_map)
qed

lemma nak_seqs_upt:
  assumes "nk_from_seq n + min (nk_count n) SEND_RING_CAPACITY \<le> Suc u64_max"
  shows "nak_seqs n = [nk_from_seq n..<nk_from_seq n + min (nk_count n) SEND_RING_CAPACITY]"
  using assms by (intro nth_equalityI) (auto simp: nak_seqs_def min_absorb1)


section \<open>Publishing and answering\<close>

text \<open>
  A sender over a log: a new sender starts on whatever the writer has left, every record goes to the log and then to the sender, and
  flushes, requests and heartbeats come in any order. A failed send is allowed everywhere.
\<close>

inductive pub_reach :: "crc_fun \<Rightarrow> u32 \<Rightarrow> u64 \<Rightarrow> cast_config \<Rightarrow> wal_writer \<Rightarrow> dir \<Rightarrow> message list \<Rightarrow> message list \<Rightarrow> cast_sender \<Rightarrow> bool"
  for crc stream_id max_file_size config where
  starts: "wal_reach crc stream_id max_file_size w d stored pending \<Longrightarrow>
    pub_reach crc stream_id max_file_size config w d stored pending (sender_with_config stream_id config)"
| publishes: "pub_reach crc stream_id max_file_size config w d stored pending s \<Longrightarrow> prepare crc w record_type rec = Some (fr, w1) \<Longrightarrow>
    append_framed w1 fr = (Inr (), w2) \<Longrightarrow> send_framed send_ok now s fr = (res, s') \<Longrightarrow> m = stamped record_type rec (ww_next_seq w) \<Longrightarrow>
    record_type < 65536 \<Longrightarrow> 8 \<le> length rec \<Longrightarrow> length rec \<le> 240 \<Longrightarrow> bytes rec \<Longrightarrow> ww_next_seq w < u64_max \<Longrightarrow>
    length (frames crc (stored @ pending @ [m])) \<le> u64_max \<Longrightarrow>
    pub_reach crc stream_id max_file_size config w2 d stored (pending @ [m]) s'"
| flushes: "pub_reach crc stream_id max_file_size config w d stored pending s \<Longrightarrow> flush io w d = (res, w', d') \<Longrightarrow> no_retention io \<Longrightarrow>
    (stored', pending') = (if ww_buf w' = [] then (stored @ pending, []) else (stored, pending)) \<Longrightarrow>
    pub_reach crc stream_id max_file_size config w' d' stored' pending' s"
| answers: "pub_reach crc stream_id max_file_size config w d stored pending s \<Longrightarrow>
    pub_reach crc stream_id max_file_size config w d stored pending (handle_nak crc d send_oks now_ns n s)"
| beats: "pub_reach crc stream_id max_file_size config w d stored pending s \<Longrightarrow> tick_sender crc send_ok now s = (res, s') \<Longrightarrow>
    pub_reach crc stream_id max_file_size config w d stored pending s'"

text \<open>What was sent: frames of the log's records and heartbeats.\<close>

definition sent_ok :: "crc_fun \<Rightarrow> message list \<Rightarrow> cast_sender \<Rightarrow> bool" where
  "sent_ok crc log s \<longleftrightarrow> (\<forall>dg\<in>set (cs_sent s). (\<exists>m\<in>set log. dg = frame_of crc m) \<or>
     (\<exists>highest_seq. dg = encode_record crc RECORD_HEARTBEAT (heartbeat_bytes highest_seq)))"

lemma pub_wal:
  assumes "pub_reach crc stream_id max_file_size config w d stored pending s"
  shows "wal_reach crc stream_id max_file_size w d stored pending"
  using assms
proof (induction rule: pub_reach.induct)
  case (publishes w d stored pending s record_type rec fr w1 w2 send_ok now res s' m)
  from wal_reach.put [OF publishes.IH publishes.hyps(2,3,5-11)] show ?case by simp
next
  case (flushes w d stored pending s io res w' d' stored' pending')
  then show ?case by (blast intro: wal_reach.flushes)
qed

lemma pub_disk:
  assumes "pub_reach crc stream_id max_file_size config w d stored pending s" "crc_u32 crc"
  obtains k where "on_disk crc stream_id d (stored @ take k pending)" "cast_log_ok (stored @ pending)"
  using wal_reach_state [OF pub_wal [OF assms(1)] assms(2)] state_on_disk state_cast_log by metis

lemma answer_exact:
  assumes "pub_reach crc stream_id max_file_size config w d stored pending s" "crc_u32 crc" "ring_caches crc (stored @ pending) s" "cs_stream_id s = stream_id"
  obtains ms where "cs_sent (handle_nak crc d ok t n s) = cs_sent s @ map (frame_of crc) ms" "set ms \<subseteq> set (stored @ pending)"
    "subseq (map seq_of ms) (nak_seqs n)"
    "distinct (map send_slot (nak_seqs n)) \<Longrightarrow> \<forall>q\<in>set (nak_seqs n). resendable t s q \<and> ok q \<Longrightarrow> \<forall>m\<in>set stored. seq_of m \<in> set (nak_seqs n) \<longrightarrow> m \<in> set ms"
    "ring_caches crc (stored @ pending) (handle_nak crc d ok t n s)" "cs_stream_id (handle_nak crc d ok t n s) = stream_id"
proof -
  obtain k where disk: "on_disk crc stream_id d (stored @ take k pending)" "cast_log_ok (stored @ pending)" using pub_disk [OF assms(1,2)] by blast
  have "set (stored @ take k pending) \<subseteq> set (stored @ pending)" by (auto dest: in_set_takeD)
  from retransmit_all [OF assms(3) disk(2) _ this assms(2), of d ok t "nak_seqs n"] disk(1) assms(4) that
  show ?thesis unfolding handle_nak_def by fastforce
qed

lemma pub_inv:
  assumes "pub_reach crc stream_id max_file_size config w d stored pending s" "crc_u32 crc"
  shows "ring_caches crc (stored @ pending) s \<and> cs_stream_id s = stream_id \<and> sent_ok crc (stored @ pending) s"
  using assms
proof (induction rule: pub_reach.induct)
  case (starts w d stored pending)
  show ?case by (simp add: ring_caches_new) (simp add: sender_with_config_def sent_ok_def)
next
  case (publishes w d stored pending s record_type rec fr w1 w2 send_ok now res s' m)
  let ?log = "stored @ pending @ [m]"
  have fr: "fr_seq fr = ww_next_seq w" "fr_wire fr = frame_of crc m" using publishes.hyps(2,5,7,8) pack_frame [of rec crc record_type "ww_next_seq w"]
    by (auto simp: prepare_def)
  have seq: "seq_of m = fr_seq fr" using publishes.hyps(5,10) fr(1) by (simp add: seq_of_stamped u64_max_def)
  have "ring_caches crc ?log s" using publishes.IH [OF publishes.prems] by (auto intro: ring_caches_mono)
  then have cached: "ring_caches crc ?log (cache_frame s fr)" by (rule ring_caches_cache) (use seq fr in simp_all)
  have "ring_caches crc ?log s'" "cs_stream_id s' = cs_stream_id s" "set (cs_sent s') \<subseteq> insert (frame_of crc m) (set (cs_sent s))"
    using publishes.hyps(4) cached ring_caches_cong [of s' "cache_frame s fr" crc ?log] fr(2)
    by (auto simp: send_framed_def send_to_def Let_def split: if_splits)
  then show ?case using publishes.IH [OF publishes.prems] by (auto simp: sent_ok_def)
next
  case (flushes w d stored pending s io res w' d' stored' pending')
  then have "stored' @ pending' = stored @ pending" by (auto split: if_splits)
  then show ?case using flushes.IH [OF flushes.prems] by simp
next
  case (answers w d stored pending s send_oks now_ns n)
  note IH = answers.IH [OF answers.prems]
  obtain ms where "cs_sent (handle_nak crc d send_oks now_ns n s) = cs_sent s @ map (frame_of crc) ms" "set ms \<subseteq> set (stored @ pending)"
    "ring_caches crc (stored @ pending) (handle_nak crc d send_oks now_ns n s)" "cs_stream_id (handle_nak crc d send_oks now_ns n s) = stream_id"
    using answer_exact [OF answers.hyps answers.prems, where n = n and ok = send_oks and t = now_ns] IH by blast
  then show ?case using IH by (auto simp: sent_ok_def)
next
  case (beats w d stored pending s send_ok now res s')
  then have same: "cs_ring_seqs s' = cs_ring_seqs s" "cs_ring_frames s' = cs_ring_frames s" "cs_ring_last_retx_ns s' = cs_ring_last_retx_ns s"
    "cs_stream_id s' = cs_stream_id s"
    "\<exists>highest_seq. set (cs_sent s') \<subseteq> insert (encode_record crc RECORD_HEARTBEAT (heartbeat_bytes highest_seq)) (set (cs_sent s))"
    by (auto simp: tick_sender_def send_to_def split: if_splits)
  then show ?case using beats.IH [OF beats.prems] ring_caches_cong [OF same(1,2)] unfolding sent_ok_def same by auto
qed



text \<open>The request of the receiver reaches the sender whole.\<close>

lemma nak_names_gap: "cr_naks (maybe_nak r t) = cr_naks r @ [n] \<Longrightarrow> nk_from_seq n = cr_expected_seq r"
  by (auto simp: maybe_nak_def send_nak_def oldest_missing_run_def Let_def split: option.splits if_splits)

lemma recv_control_nak:
  assumes "nk_from_seq n < 2 ^ 64" "nk_count n < 2 ^ 64" "crc_u32 crc"
  shows "recv_control crc d ok s [(t, encode_record crc RECORD_NAK (nak_bytes n))] = handle_nak crc d ok t n s"
proof -
  let ?m = "(RECORD_NAK, nak_bytes n)"
  have len: "length (nak_bytes n) = 64" by (simp add: nak_bytes_def)
  have ok: "message_ok ?m" using len by (simp add: message_ok_def RECORD_NAK_def nak_bytes_def) (simp add: bytes_def)
  have "length (frame_of crc ?m) = 80" using length_frame_of [OF ok] len by simp
  moreover have "header_from_bytes (take 16 (frame_of crc ?m)) = Some (header_new RECORD_NAK 64 (crc (nak_bytes n)))"
    using frame_header [OF ok assms(3), of "[]"] len by simp
  moreover have "drop 16 (frame_of crc ?m) = nak_bytes n" using frame_payload [OF ok, of crc "[]"] by simp
  ultimately show ?thesis using nak_roundtrip [OF assms(1,2)] by (simp add: HEADER_SIZE_def Let_def)
qed

lemma subseq_all:
  assumes "subseq xs ys" "distinct ys" "set ys \<subseteq> set xs"
  shows "xs = ys"
proof -
  have "length ys \<le> length xs" using assms(2,3) by (metis card_length card_mono distinct_card finite_set le_trans)
  then show ?thesis using assms(1) list_emb_length [OF assms(1)] subseq_same_length by (metis le_antisym)
qed

lemma answer_run:
  assumes "pub_reach crc stream_id max_file_size config w d stored pending s" "crc_u32 crc"
    "nk_from_seq n + min (nk_count n) SEND_RING_CAPACITY \<le> Suc u64_max"
  defines "qs \<equiv> [nk_from_seq n..<nk_from_seq n + min (nk_count n) SEND_RING_CAPACITY]"
  shows "\<exists>ms. cs_sent (handle_nak crc d ok t n s) = cs_sent s @ map (frame_of crc) ms \<and> set ms \<subseteq> set (stored @ pending) \<and>
    subseq (map seq_of ms) qs \<and> ((\<forall>q\<in>set qs. resendable t s q \<and> ok q) \<longrightarrow> (\<forall>m\<in>set stored. seq_of m \<in> set qs \<longrightarrow> m \<in> set ms))"
proof -
  have qs: "nak_seqs n = qs" "distinct (map send_slot qs)" unfolding qs_def by (rule nak_seqs_upt [OF assms(3)], rule send_slots_apart) simp
  have inv: "ring_caches crc (stored @ pending) s" "cs_stream_id s = stream_id" using pub_inv [OF assms(1,2)] by blast+
  show ?thesis
    by (rule answer_exact [OF assms(1,2) inv, where n = n and ok = ok and t = t], unfold qs(1))
      (intro exI conjI impI; (assumption | simp only: qs(2) simp_thms True_implies_equals))
qed

text \<open>When everything that is asked for is stored, may be sent and is not held back, the answer is the whole run, in order.\<close>

lemma answer_whole:
  assumes "pub_reach crc stream_id max_file_size config w d stored pending s" "crc_u32 crc" "nk_count n \<le> SEND_RING_CAPACITY"
    "nk_from_seq n + nk_count n \<le> u64_max"
    "\<forall>q\<in>set [nk_from_seq n..<nk_from_seq n + nk_count n]. msg q \<in> set stored \<and> seq_of (msg q) = q \<and> resendable t s q \<and> ok q"
  shows "cs_sent (handle_nak crc d ok t n s) = cs_sent s @ map (\<lambda>q. frame_of crc (msg q)) [nk_from_seq n..<nk_from_seq n + nk_count n]"
proof -
  let ?qs = "[nk_from_seq n..<nk_from_seq n + nk_count n]"
  have c: "min (nk_count n) SEND_RING_CAPACITY = nk_count n" using assms(3) by (rule min_absorb1)
  have "\<forall>q\<in>set ?qs. resendable t s q \<and> ok q" using assms(5) by blast
  then obtain ms where ms: "cs_sent (handle_nak crc d ok t n s) = cs_sent s @ map (frame_of crc) ms" "set ms \<subseteq> set (stored @ pending)"
    "subseq (map seq_of ms) ?qs" "\<forall>m\<in>set stored. seq_of m \<in> set ?qs \<longrightarrow> m \<in> set ms"
    using answer_run [OF assms(1,2), of n ok t, unfolded c] assms(4) by (meson le_SucI)
  have "set ?qs \<subseteq> set (map seq_of ms)"
  proof
    fix q assume q: "q \<in> set ?qs"
    then have m: "msg q \<in> set stored" "seq_of (msg q) = q" using assms(5) by blast+
    then have "msg q \<in> set ms" using ms(4) q by (simp only: simp_thms)
    then show "q \<in> set (map seq_of ms)" unfolding set_map by (rule rev_image_eqI) (simp only: m(2))
  qed
  then have nums: "map seq_of ms = ?qs" using subseq_all [OF ms(3) distinct_upt] by blast
  obtain k where "cast_log_ok (stored @ pending)" using pub_disk [OF assms(1,2)] by blast
  then have "msg (seq_of m) = m" if "m \<in> set ms" for m
  proof -
    have q: "seq_of m \<in> set ?qs" unfolding nums [symmetric] set_map using that by (rule imageI)
    have "msg (seq_of m) \<in> set stored" "seq_of (msg (seq_of m)) = seq_of m" using assms(5) q by blast+
    then show ?thesis using cast_log_unique [OF \<open>cast_log_ok _\<close>, of "msg (seq_of m)" m] that ms(2) by auto
  qed
  then have "ms = map msg ?qs" unfolding nums [symmetric] by (simp add: map_idI)
  then show ?thesis using ms(1) by simp
qed

section \<open>Properties\<close>



definition demo_sender :: cast_sender where "demo_sender = sender_with_config 7 cast_config_default"

lemma demo_resendable: "resendable t demo_sender q"
  by (simp add: resendable_def demo_sender_def sender_with_config_def)

lemma demo_seq: "seq_of demo_message = 1"
  unfolding demo_message_def by (rule seq_of_stamped) simp


text \<open>The datagrams of an answer, in whatever order they arrive, are the missing numbers.\<close>

definition number_in :: "u8 list \<Rightarrow> u64" where "number_in dg = from_le_bytes (take 8 (drop 16 dg))"

lemma number_in_frame: "message_ok m \<Longrightarrow> number_in (frame_of crc m) = seq_of m"
  using frame_payload [of m crc "[]"] by (simp add: number_in_def)

lemma answer_brings:
  assumes "mset (map snd queue) = mset (map (\<lambda>q. frame_of crc (msg q)) qs)" "distinct qs" "crc_u32 crc"
    "\<forall>q\<in>set qs. message_ok (msg q) \<and> seq_of (msg q) = q \<and> fst (msg q) \<noteq> RECORD_HEARTBEAT \<and> fst (msg q) \<noteq> RECORD_NAK \<and> q \<noteq> 0 \<and> q < u64_max"
    "\<forall>x\<in>set queue. t0 \<le> fst x \<and> fst x < t0 + debounce"
  defines "seqs \<equiv> map (number_in \<circ> snd) queue"
  shows "distinct seqs" "set seqs = set qs" "list_all2 (brings crc msg t0 debounce) queue seqs"
proof -
  have num: "number_in (frame_of crc (msg q)) = q" if "q \<in> set qs" for q using assms(4) that number_in_frame [of "msg q" crc] by (simp only:)
  have "mset seqs = image_mset number_in (mset (map snd queue))" by (simp add: seqs_def image_mset.compositionality)
  also have "\<dots> = mset (map (\<lambda>q. number_in (frame_of crc (msg q))) qs)" unfolding assms(1) by (simp add: image_mset.compositionality comp_def)
  also have "map (\<lambda>q. number_in (frame_of crc (msg q))) qs = qs" using num by (intro map_idI)
  finally have m: "mset seqs = mset qs" .
  show "distinct seqs" "set seqs = set qs" using m assms(2) mset_eq_imp_distinct_iff mset_eq_setD by blast+
  have "brings crc msg t0 debounce x (number_in (snd x))" if "x \<in> set queue" for x
  proof -
    have "snd x \<in> set (map snd queue)" using that by simp
    then have "snd x \<in> set (map (\<lambda>q. frame_of crc (msg q)) qs)" using mset_eq_setD [OF assms(1)] by blast
    then obtain q where q: "q \<in> set qs" "snd x = frame_of crc (msg q)" by auto
    note ok = bspec [OF assms(4) q(1)]
    have "seq_of (msg q) \<noteq> 0" using ok by (simp only: simp_thms)
    then have cr: "carries crc (snd x) s hdr payload \<longleftrightarrow> s = q \<and> payload = snd (msg q) \<and> hdr = header_new (fst (msg q)) (length (snd (msg q))) (crc (snd (msg q)))"
      for s hdr payload using carries_frame [OF _ assms(3), of "msg q" s hdr payload] ok unfolding q(2) by (simp only: simp_thms)
    then have "\<exists>hdr payload. carries crc (snd x) q hdr payload" by blast
    moreover have "genuine crc msg (snd x)" using cr ok by (simp add: genuine_def)
    ultimately show ?thesis using assms(5) that num [OF q(1)] unfolding brings_def q(2) by simp
  qed
  then show "list_all2 (brings crc msg t0 debounce) queue seqs" by (simp add: seqs_def list_all2_conv_all_nth)
qed

text \<open>C33: a gap is repaired. A receiver that misses one run of records (and holds everything after it) sends its request; the sender gets
  it on its control socket, and what it sends in answer reaches the receiver in any order before the debounce time is over. Then the next
  calls of \<open>try_recv\<close> hand out every record of the run and every record held behind it, in order. The records of the run are stored in the
  log, and the sender may send them (its sends succeed and it has not answered for their slots within the dedup window).\<close>

theorem gap_repaired:
  assumes "pub_reach crc stream_id max_file_size config w d stored pending s" "crc_u32 crc"
    "ring_ok msg r" "calm t0 r" "cr_expected_seq r \<noteq> 0" "\<forall>q. length (snd (msg q)) \<le> 240"
    "cr_naks (maybe_nak r t) = cr_naks r @ [n]" "t0 \<le> t" "t < t0 + cr_nak_debounce_ns r"
    "buffered r = {cr_expected_seq r + nk_count n..<last_seq}" "cr_expected_seq r + nk_count n \<le> last_seq"
    "last_seq \<le> cr_expected_seq r + REORDER_CAPACITY" "last_seq \<le> u64_max"
    "\<forall>q\<in>{cr_expected_seq r..<cr_expected_seq r + nk_count n}. msg q \<in> set stored \<and> seq_of (msg q) = q \<and>
       fst (msg q) \<noteq> RECORD_HEARTBEAT \<and> fst (msg q) \<noteq> RECORD_NAK \<and> resendable t1 s q \<and> send_ok q"
    "cs_sent (recv_control crc d send_ok s [(t1, encode_record crc RECORD_NAK (nak_bytes n))]) = cs_sent s @ answer"
    "mset (map snd queue) = mset answer" "\<forall>x\<in>set queue. t0 \<le> fst x \<and> fst x < t0 + cr_nak_debounce_ns r"
  shows "fst (recv_calls crc (last_seq - cr_expected_seq r) (maybe_nak r t) queue) = map msg [cr_expected_seq r..<last_seq]"
proof -
  let ?e = "cr_expected_seq r" and ?c = "nk_count n"
  let ?qs = "[?e..<?e + ?c]"
  have from_e: "nk_from_seq n = ?e" using nak_names_gap [OF assms(7)] .
  have small: "?c \<le> SEND_RING_CAPACITY" "?e + ?c \<le> u64_max" "?e < 2 ^ 64" "?c < 2 ^ 64"
    using assms(11-13) by (simp_all add: SEND_RING_CAPACITY_def REORDER_CAPACITY_def u64_max_def)
  have run: "\<forall>q\<in>set ?qs. msg q \<in> set stored \<and> seq_of (msg q) = q \<and> resendable t1 s q \<and> send_ok q" using assms(14) unfolding set_upt by blast
  have "cs_sent s @ answer = cs_sent s @ map (\<lambda>q. frame_of crc (msg q)) ?qs"
    using answer_whole [OF assms(1,2) small(1), unfolded from_e, OF small(2) run]
      recv_control_nak [of n crc d send_ok s t1, unfolded from_e, OF small(3,4) assms(2)] assms(15) by (simp only:)
  then have answer: "mset (map snd queue) = mset (map (\<lambda>q. frame_of crc (msg q)) ?qs)" using assms(16) by simp
  obtain k where "cast_log_ok (stored @ pending)" using pub_disk [OF assms(1,2)] by blast
  then have ok: "\<forall>q\<in>set ?qs. message_ok (msg q)" using run by (simp add: cast_log_ok_def messages_ok_def)
  have fine: "\<forall>q\<in>set ?qs. message_ok (msg q) \<and> seq_of (msg q) = q \<and> fst (msg q) \<noteq> RECORD_HEARTBEAT \<and> fst (msg q) \<noteq> RECORD_NAK \<and> q \<noteq> 0 \<and> q < u64_max"
  proof
    fix q assume q: "q \<in> set ?qs"
    then have "q \<noteq> 0" "q < u64_max" using assms(5) small(2) by auto
    moreover have "q \<in> {?e..<?e + ?c}" using q by simp
    ultimately show "message_ok (msg q) \<and> seq_of (msg q) = q \<and> fst (msg q) \<noteq> RECORD_HEARTBEAT \<and> fst (msg q) \<noteq> RECORD_NAK \<and> q \<noteq> 0 \<and> q < u64_max"
      using bspec [OF assms(14)] bspec [OF ok q] by blast
  qed
  let ?seqs = "map (number_in \<circ> snd) queue"
  note br = answer_brings [OF answer distinct_upt assms(2) fine assms(17)]
  have "buffered (maybe_nak r t) = buffered r" by (rule buffered_cong) simp
  moreover have "ring_ok msg (maybe_nak r t)" using assms(3) ring_ok_cong [of "maybe_nak r t" r msg] by simp
  ultimately have "window crc msg t0 last_seq (maybe_nak r t) queue ?seqs"
    using br calm_maybe_nak [OF assms(4,8,9)] assms(5,6,10-12) unfolding window_def by auto
  from recv_calls_window [OF this] show ?thesis by simp
qed


definition demo_gap :: cast_receiver where
  "demo_gap = see (reset_after_replay (receiver_with_config cast_config_default) 0) 1"

lemma demo_gap_sel:
  "cr_expected_seq demo_gap = 1" "cr_reorder_seqs demo_gap = replicate REORDER_CAPACITY 0" "cr_nak_debounce_ns demo_gap = 50000000"
  "cr_nak_sent_at demo_gap = replicate REORDER_CAPACITY 0" "cr_highest_seen demo_gap = 1" "\<not> cr_faulted demo_gap" "\<not> cr_needs_reconnect demo_gap"
  "cr_max_nak_retries demo_gap = 8" "cr_nak_retries_on_oldest demo_gap = 0"
  by (simp_all add: demo_gap_def reset_after_replay_def receiver_with_config_def cast_config_default_def u64_add_def u64_max_def map_replicate_const)

lemma demo_gap_nak: "cr_naks (maybe_nak demo_gap 5) = cr_naks demo_gap @ [\<lparr>nk_from_seq = 1, nk_count = 1\<rparr>]"
proof -
  have "run_end (replicate REORDER_CAPACITY 0) 1 1 = 2" by (simp add: run_end.simps REORDER_CAPACITY_def nth_replicate)
  then have "oldest_missing_run demo_gap = Some (1, 1)"
    by (simp add: oldest_missing_run_def demo_gap_sel u64_max_def)
  then show ?thesis by (simp add: maybe_nak_def demo_gap_sel send_nak_def Let_def)
qed

theorem gap_repaired_witness:
  "fst (recv_calls demo_crc 1 (maybe_nak demo_gap 5) [(6, frame_of demo_crc demo_message)]) = [demo_message]"
proof -
  let ?msg = "stamped 9 (replicate 16 0)" and ?n = "\<lparr>nk_from_seq = 1, nk_count = 1\<rparr>"
  obtain w d where "wal_reach demo_crc 7 1000 w d [demo_message] []" using demo_flushed by blast
  then have pub: "pub_reach demo_crc 7 1000 cast_config_default w d [demo_message] [] demo_sender"
    unfolding demo_sender_def by (rule pub_reach.starts)
  have one: "?msg 1 = demo_message" by (simp add: demo_message_def)
  have "cs_sent (handle_nak demo_crc d (\<lambda>q. True) 7 ?n demo_sender) = cs_sent demo_sender @ [frame_of demo_crc demo_message]"
    using answer_whole [OF pub demo_crc_u32, of ?n ?msg 7 "\<lambda>q. True"] one demo_seq
    by (simp add: demo_resendable SEND_RING_CAPACITY_def u64_max_def)
  then have answer: "cs_sent (recv_control demo_crc d (\<lambda>q. True) demo_sender [(7, encode_record demo_crc RECORD_NAK (nak_bytes ?n))]) =
      cs_sent demo_sender @ [frame_of demo_crc demo_message]" using recv_control_nak [of ?n demo_crc] demo_crc_u32 by simp
  have ring: "ring_ok ?msg demo_gap" using ring_ok_reset [of "receiver_with_config cast_config_default" ?msg 0]
      ring_ok_cong [of demo_gap "reset_after_replay (receiver_with_config cast_config_default) 0" ?msg] by (simp add: demo_gap_def)
  have calm: "calm 5 demo_gap" by (simp add: calm_def demo_gap_sel)
  have none: "buffered demo_gap = {}" by (auto simp: buffered_def demo_gap_sel)
  have kind: "fst demo_message = 9" by (simp add: demo_message_def stamped_def)
  have "fst (recv_calls demo_crc (2 - cr_expected_seq demo_gap) (maybe_nak demo_gap 5) [(6, frame_of demo_crc demo_message)]) =
      map ?msg [cr_expected_seq demo_gap..<2]"
    by (rule gap_repaired [OF pub demo_crc_u32 ring calm _ _ demo_gap_nak _ _ _ _ _ _ _ answer])
      (use one demo_seq none kind in \<open>simp_all add: demo_gap_sel demo_resendable REORDER_CAPACITY_def u64_max_def RECORD_HEARTBEAT_def RECORD_NAK_def stamped_def write_seq_def\<close>)
  moreover have "map ?msg [1..<2] = [demo_message]" using one by (simp add: upt_rec)
  moreover have "2 - cr_expected_seq demo_gap = 1" by (simp add: demo_gap_sel)
  ultimately show ?thesis by (simp only: demo_gap_sel)
qed

end
