(* ===== verification/Cast_Publish.thy ===== *)
theory Cast_Publish
  imports Cast_Repair
begin

text \<open>
  The path of every record the matching engine writes (\<open>fan_out\<close>, \<open>CastPeer\<close>, \<open>append_stalling\<close>, \<open>flush_if_due\<close> of
  \<open>rsx-matching/src/wal.rs\<close>): numbered and framed once, appended to the log, then sent to risk and to market data. The attempts to flush
  that a full buffer costs are a list of inputs, each with the system calls that fail in it; \<open>None\<close> means that the record is too large
  (the code panics) or that the flushes given run out while the producer is still stalled.
\<close>

section \<open>Operations\<close>

record cast_peer =
  cp_sender :: cast_sender
  cp_failing :: bool
  cp_heartbeat_failing :: bool

definition peer_new :: "cast_sender \<Rightarrow> cast_peer" where
  "peer_new s = \<lparr>cp_sender = s, cp_failing = False, cp_heartbeat_failing = False\<rparr>"

definition peer_tick :: "crc_fun \<Rightarrow> bool \<Rightarrow> u64 \<Rightarrow> cast_peer \<Rightarrow> cast_peer" where
  "peer_tick crc send_ok now p = (case tick_sender crc send_ok now (cp_sender p) of
     (Inr u, s) \<Rightarrow> p\<lparr>cp_sender := s, cp_heartbeat_failing := False\<rparr>
   | (Inl e, s) \<Rightarrow> p\<lparr>cp_sender := s, cp_heartbeat_failing := True\<rparr>)"

definition peer_send :: "bool \<Rightarrow> u64 \<Rightarrow> cast_peer \<Rightarrow> framed \<Rightarrow> cast_peer" where
  "peer_send send_ok now p fr = (case send_framed send_ok now (cp_sender p) fr of
     (Inr u, s) \<Rightarrow> p\<lparr>cp_sender := s, cp_failing := False\<rparr>
   | (Inl e, s) \<Rightarrow> p\<lparr>cp_sender := s, cp_failing := True\<rparr>)"

text \<open>\<open>retry_until_ok\<close> of a flush.\<close>

fun flush_stalling :: "flush_io list \<Rightarrow> wal_writer \<Rightarrow> dir \<Rightarrow> (wal_writer \<times> dir \<times> flush_io list) option" where
  "flush_stalling [] w d = None"
| "flush_stalling (io # ios) w d = (case flush io w d of
     (Inr u, w', d') \<Rightarrow> Some (w', d', ios)
   | (Inl e, w', d') \<Rightarrow> flush_stalling ios w' d')"

lemma flush_stalling_consumes: "flush_stalling ios w d = Some (w', d', ios') \<Longrightarrow> length ios' < length ios"
  by (induction ios arbitrary: w d) (auto split: prod.splits sum.splits intro: less_SucI)

function append_stalling :: "flush_io list \<Rightarrow> wal_writer \<Rightarrow> dir \<Rightarrow> framed \<Rightarrow> ((wal_error + unit) \<times> wal_writer \<times> dir \<times> flush_io list) option" where
  "append_stalling ios w d fr = (case append_framed w fr of
     (Inl WouldBlock, w1) \<Rightarrow> (case flush_stalling ios w1 d of
         None \<Rightarrow> None
       | Some (w2, d2, ios2) \<Rightarrow> append_stalling ios2 w2 d2 fr)
   | (res, w1) \<Rightarrow> Some (res, w1, d, ios))"
  by pat_completeness auto
termination
  by (relation "measure (\<lambda>(ios, w, d, fr). length ios)") (auto dest: flush_stalling_consumes)

declare append_stalling.simps [simp del]

definition fan_out_wire :: "crc_fun \<Rightarrow> flush_io list \<Rightarrow> bool \<Rightarrow> bool \<Rightarrow> u64 \<Rightarrow> wal_writer \<Rightarrow> dir \<Rightarrow> cast_peer \<Rightarrow> cast_peer \<Rightarrow> nat \<Rightarrow> u8 list \<Rightarrow>
    ((wal_error + unit) \<times> wal_writer \<times> dir \<times> cast_peer \<times> cast_peer \<times> flush_io list) option" where
  "fan_out_wire crc ios cmp_ok mkt_ok now w d cmp mkt record_type rec = do {
     (fr, w1) \<leftarrow> prepare crc w record_type rec;
     (res, w2, d2, ios2) \<leftarrow> append_stalling ios w1 d fr;
     case res of
       Inl e \<Rightarrow> Some (Inl e, w2, d2, cmp, mkt, ios2)
     | Inr u \<Rightarrow> Some (Inr (), w2, d2, peer_send cmp_ok now cmp fr, peer_send mkt_ok now mkt fr, ios2)
   }"

text \<open>Ten milliseconds are written in nanoseconds.\<close>

definition flush_if_due :: "flush_io list \<Rightarrow> u64 \<Rightarrow> u64 \<Rightarrow> wal_writer \<Rightarrow> dir \<Rightarrow> (bool \<times> u64 \<times> wal_writer \<times> dir) option" where
  "flush_if_due ios last_flush now w d =
     (if should_flush w \<or> (now - last_flush) div 1000000 \<ge> 10 then do {
        (w1, d1, ios1) \<leftarrow> flush_stalling ios w d;
        Some (True, now, w1, d1)
      } else Some (False, last_flush, w, d))"

section \<open>Stalling\<close>

text \<open>Neither appending nor flushing looks at the next number, so a number taken before a stall is as good as one taken after it.\<close>

definition at_seq :: "u64 \<Rightarrow> wal_step \<Rightarrow> wal_step" where
  "at_seq k r = (case r of (res, w, d) \<Rightarrow> (res, w\<lparr>ww_next_seq := k\<rparr>, d))"

lemma then_do_at_seq:
  assumes "\<And>w d. f (w\<lparr>ww_next_seq := k\<rparr>) d = at_seq k (f w d)"
  shows "then_do (at_seq k r) f = at_seq k (then_do r f)"
  using assms by (auto simp: then_do_def at_seq_def split: prod.splits sum.splits)

lemma steps_at_seq:
  "cut_excess io (w\<lparr>ww_next_seq := k\<rparr>) d = at_seq k (cut_excess io w d)"
  "rotate_if c rio (w\<lparr>ww_next_seq := k\<rparr>) d = at_seq k (rotate_if c rio w d)"
  "write_buf io (w\<lparr>ww_next_seq := k\<rparr>) d = at_seq k (write_buf io w d)"
  by (simp_all add: at_seq_def cut_excess_def rotate_if_def rotate_def write_buf_def Let_def split: option.split)

lemma flush_at_seq: "flush io (w\<lparr>ww_next_seq := k\<rparr>) d = at_seq k (flush io w d)"
proof (cases "ww_buf w = []")
  case True
  then show ?thesis by (simp add: flush_def at_seq_def)
next
  case False
  then show ?thesis by (simp add: flush_def steps_at_seq then_do_at_seq)
qed

lemma flush_stalling_at_seq:
  "flush_stalling ios (w\<lparr>ww_next_seq := k\<rparr>) d = map_option (\<lambda>(w, d, ios). (w\<lparr>ww_next_seq := k\<rparr>, d, ios)) (flush_stalling ios w d)"
  by (induction ios w d rule: flush_stalling.induct) (auto simp: flush_at_seq at_seq_def split: prod.splits sum.splits)

text \<open>Records move from pending to stored, and none is lost.\<close>

definition moves :: "message list \<Rightarrow> message list \<Rightarrow> message list \<Rightarrow> message list \<Rightarrow> bool" where
  "moves stored pending stored' pending' \<longleftrightarrow> stored' @ pending' = stored @ pending \<and> (\<exists>more. stored' = stored @ more)"

lemma moves_trans: "moves a b c e \<Longrightarrow> moves c e f g \<Longrightarrow> moves a b f g"
  by (auto simp: moves_def)

lemma moves_refl: "moves a b a b"
  by (simp add: moves_def)

lemma flush_stalling_reach:
  assumes "flush_stalling ios w d = Some (w', d', ios')" "\<forall>io\<in>set ios. no_retention io" "crc_u32 crc" "s0 \<in> S"
    "\<forall>s\<in>S. pub_reach crc stream_id max_file_size config w d stored pending s"
  shows "set ios' \<subseteq> set ios \<and> ww_next_seq w' = ww_next_seq w \<and> ww_buf w' = [] \<and>
    (\<exists>stored' pending'. moves stored pending stored' pending' \<and> (\<forall>s\<in>S. pub_reach crc stream_id max_file_size config w' d' stored' pending' s))"
  using assms
proof (induction ios arbitrary: w d stored pending)
  case (Cons io ios)
  obtain res w1 d1 where fl: "flush io w d = (res, w1, d1)" by (metis prod_cases3)
  have keep: "no_retention io" "ww_next_seq w1 = ww_next_seq w" using Cons.prems(2) flush_next_seq [OF fl] by simp_all
  obtain stored1 pending1 where new: "(stored1, pending1) = (if ww_buf w1 = [] then (stored @ pending, []) else (stored, pending))" by (metis surj_pair)
  have reach: "\<forall>s\<in>S. pub_reach crc stream_id max_file_size config w1 d1 stored1 pending1 s" using Cons.prems(5) pub_reach.flushes [OF _ fl keep(1) new] by blast
  have same: "moves stored pending stored1 pending1" using new by (auto simp: moves_def split: if_splits)
  show ?case
  proof (cases res)
    case (Inr u)
    have "wal_state crc w d stored pending" using wal_reach_state [OF pub_wal Cons.prems(3)] Cons.prems(4,5) by blast
    then have "ww_buf w1 = []" using flush_state [OF _ keep(1)] fl Inr by (fastforce simp: flushed_def)
    then show ?thesis using Cons.prems(1) fl Inr keep(2) reach same by auto
  next
    case (Inl e)
    then have "flush_stalling ios w1 d1 = Some (w', d', ios')" "\<forall>io\<in>set ios. no_retention io" using Cons.prems(1,2) fl by simp_all
    note IH = Cons.IH [OF this Cons.prems(3,4) reach]
    then have "set ios' \<subseteq> set (io # ios)" "ww_next_seq w' = ww_next_seq w" "ww_buf w' = []" using keep(2) by auto
    moreover from IH have "\<exists>stored' pending'. moves stored pending stored' pending' \<and> (\<forall>s\<in>S. pub_reach crc stream_id max_file_size config w' d' stored' pending' s)"
      using moves_trans [OF same] by blast
    ultimately show ?thesis by blast
  qed
qed simp

lemma append_stalling_reach:
  assumes "append_stalling ios (w\<lparr>ww_next_seq := k\<rparr>) d fr = Some (res, w2, d2, ios2)" "\<forall>io\<in>set ios. no_retention io" "crc_u32 crc" "s0 \<in> S"
    "\<forall>s\<in>S. pub_reach crc stream_id max_file_size config w d stored pending s"
  shows "\<exists>w' stored' pending'. append_framed (w'\<lparr>ww_next_seq := k\<rparr>) fr = (Inr (), w2) \<and> res = Inr () \<and> ww_next_seq w' = ww_next_seq w \<and>
    moves stored pending stored' pending' \<and> (\<forall>s\<in>S. pub_reach crc stream_id max_file_size config w' d2 stored' pending' s)"
  using assms
proof (induction "length ios" arbitrary: ios w d stored pending rule: less_induct)
  case less
  let ?w = "w\<lparr>ww_next_seq := k\<rparr>"
  show ?case
  proof (cases "fst (append_framed ?w fr) = Inl WouldBlock")
    case True
    then have blocked: "append_framed ?w fr = (Inl WouldBlock, ?w)" by (auto simp: append_framed_def Let_def split: if_splits)
    then obtain w1 d1 ios1 where fl: "flush_stalling ios w d = Some (w1, d1, ios1)"
      and go: "append_stalling ios1 (w1\<lparr>ww_next_seq := k\<rparr>) d1 fr = Some (res, w2, d2, ios2)"
      using less.prems(1) by (subst (asm) append_stalling.simps) (auto simp: flush_stalling_at_seq split: option.splits)
    obtain stored1 pending1 where fr: "set ios1 \<subseteq> set ios" "ww_next_seq w1 = ww_next_seq w" "moves stored pending stored1 pending1"
      "\<forall>s\<in>S. pub_reach crc stream_id max_file_size config w1 d1 stored1 pending1 s"
      using flush_stalling_reach [OF fl less.prems(2-5)] by blast
    have "\<forall>io\<in>set ios1. no_retention io" using less.prems(2) fr(1) by blast
    from less.hyps [OF flush_stalling_consumes [OF fl] go this less.prems(3,4) fr(4)] show ?thesis unfolding fr(2) using moves_trans [OF fr(3)] by blast
  next
    case False
    then have "append_framed ?w fr = (Inr (), snd (append_framed ?w fr))" by (auto simp: append_framed_def Let_def split: if_splits)
    then have "append_framed ?w fr = (Inr (), w2)" "res = Inr ()" "d2 = d"
      using less.prems(1) by (subst (asm) append_stalling.simps; auto split: prod.splits sum.splits wal_error.splits)+
    then show ?thesis using less.prems(5) by (intro exI [of _ w] exI [of _ stored] exI [of _ pending]) (simp add: moves_refl)
  qed
qed

lemma prepare_frame:
  assumes "8 \<le> length rec" "length rec \<le> 240"
  shows "prepare crc w record_type rec = Some (\<lparr>fr_wire = frame_of crc (stamped record_type rec (ww_next_seq w)), fr_seq = ww_next_seq w\<rparr>,
    w\<lparr>ww_next_seq := u64_add (ww_next_seq w) 1\<rparr>)"
  using pack_frame [OF assms] by (simp add: prepare_def)

lemma peer_send_sender:
  "cp_sender (peer_send ok now p fr) = snd (send_framed ok now (cp_sender p) fr)"
  "cs_sent (cp_sender (peer_send ok now p fr)) = cs_sent (cp_sender p) @ (if ok then [fr_wire fr] else [])"
  by (simp_all add: peer_send_def send_framed_def send_to_def Let_def split: prod.split sum.split)

lemma append_stalling_returns:
  assumes "length (ww_buf w) \<le> max (min (ww_max_file_size w * 2) u64_max) 262144 \<or> flush_stalling ios w d \<noteq> None"
    "\<forall>io\<in>set ios. no_retention io" "crc_u32 crc" "pub_reach crc stream_id max_file_size config w d stored pending s"
  shows "append_stalling ios (w\<lparr>ww_next_seq := k\<rparr>) d fr \<noteq> None"
proof (cases "length (ww_buf w) \<le> max (min (ww_max_file_size w * 2) u64_max) 262144")
  case True
  then show ?thesis by (subst append_stalling.simps) (auto simp: append_framed_def le_max_iff_disj)
next
  case False
  then obtain w1 d1 ios1 where fl: "flush_stalling ios w d = Some (w1, d1, ios1)" using assms(1) by auto
  have "ww_buf w1 = []" using flush_stalling_reach [OF fl assms(2,3), of s "{s}"] assms(4) by blast
  then have "append_stalling ios1 (w1\<lparr>ww_next_seq := k\<rparr>) d1 fr \<noteq> None" by (subst append_stalling.simps) (simp add: append_framed_def)
  then show ?thesis using False fl by (subst append_stalling.simps) (simp add: append_framed_def flush_stalling_at_seq)
qed

section \<open>Properties\<close>

text \<open>C34: no stream has a hole. A record goes the same way to the log and to both peers: when \<open>fan_out\<close> returns, the record has the next
  number, it is the last record of the log, nothing that was stored or pending before is lost (a stall may have stored it), and each peer
  was sent exactly these bytes unless its send failed, in which case its sender can still answer a request for them. It returns whenever
  the buffer has room or a flush succeeds.\<close>

theorem fan_out_publishes:
  fixes record_type rec w
  defines "m \<equiv> stamped record_type rec (ww_next_seq w)"
  assumes "pub_reach crc stream_id max_file_size config w d stored pending (cp_sender cmp)"
    "pub_reach crc stream_id max_file_size config w d stored pending (cp_sender mkt)" "crc_u32 crc" "\<forall>io\<in>set ios. no_retention io"
    "record_type < 65536" "8 \<le> length rec" "length rec \<le> 240" "bytes rec" "ww_next_seq w < u64_max"
    "length (frames crc (stored @ pending @ [m])) \<le> u64_max"
  shows "(\<forall>res w' d' cmp' mkt' ios'. fan_out_wire crc ios cmp_ok mkt_ok now w d cmp mkt record_type rec = Some (res, w', d', cmp', mkt', ios') \<longrightarrow>
      res = Inr () \<and> ww_next_seq w' = ww_next_seq w + 1 \<and>
      (\<exists>stored' pending'. stored' @ pending' = stored @ pending \<and> (\<exists>more. stored' = stored @ more) \<and>
         pub_reach crc stream_id max_file_size config w' d' stored' (pending' @ [m]) (cp_sender cmp') \<and>
         pub_reach crc stream_id max_file_size config w' d' stored' (pending' @ [m]) (cp_sender mkt')) \<and>
      cs_sent (cp_sender cmp') = cs_sent (cp_sender cmp) @ (if cmp_ok then [frame_of crc m] else []) \<and>
      cs_sent (cp_sender mkt') = cs_sent (cp_sender mkt) @ (if mkt_ok then [frame_of crc m] else [])) \<and>
    (length (ww_buf w) \<le> max (min (ww_max_file_size w * 2) u64_max) 262144 \<or> flush_stalling ios w d \<noteq> None \<longrightarrow>
      (\<exists>result. fan_out_wire crc ios cmp_ok mkt_ok now w d cmp mkt record_type rec = Some result))"
proof -
  let ?k = "u64_add (ww_next_seq w) 1" and ?fr = "\<lparr>fr_wire = frame_of crc m, fr_seq = ww_next_seq w\<rparr>" and ?S = "{cp_sender cmp, cp_sender mkt}"
  have k: "?k = ww_next_seq w + 1" using assms(10) by (simp add: u64_add_id u64_max_def)
  note prep = prepare_frame [OF assms(7,8), of crc _ record_type]
  have both: "\<forall>s\<in>?S. pub_reach crc stream_id max_file_size config w d stored pending s" using assms(2,3) by simp
  have out: "res = Inr () \<and> ww_next_seq w' = ww_next_seq w + 1 \<and>
      (\<exists>stored' pending'. stored' @ pending' = stored @ pending \<and> (\<exists>more. stored' = stored @ more) \<and>
         pub_reach crc stream_id max_file_size config w' d' stored' (pending' @ [m]) (cp_sender cmp') \<and>
         pub_reach crc stream_id max_file_size config w' d' stored' (pending' @ [m]) (cp_sender mkt')) \<and>
      cs_sent (cp_sender cmp') = cs_sent (cp_sender cmp) @ (if cmp_ok then [frame_of crc m] else []) \<and>
      cs_sent (cp_sender mkt') = cs_sent (cp_sender mkt) @ (if mkt_ok then [frame_of crc m] else [])"
    if fo: "fan_out_wire crc ios cmp_ok mkt_ok now w d cmp mkt record_type rec = Some (res, w', d', cmp', mkt', ios')" for res w' d' cmp' mkt' ios'
  proof -
    obtain res2 where ap: "append_stalling ios (w\<lparr>ww_next_seq := ?k\<rparr>) d ?fr = Some (res2, w', d', ios')"
      and rest: "case res2 of Inl e \<Rightarrow> True | Inr u \<Rightarrow> res = Inr () \<and> cmp' = peer_send cmp_ok now cmp ?fr \<and> mkt' = peer_send mkt_ok now mkt ?fr"
      using fo prep [of w] by (auto simp: fan_out_wire_def m_def split: bind_splits sum.splits)
    obtain v stored' pending' where v: "append_framed (v\<lparr>ww_next_seq := ?k\<rparr>) ?fr = (Inr (), w')" "res2 = Inr ()" "ww_next_seq v = ww_next_seq w"
      "moves stored pending stored' pending'" "\<forall>s\<in>?S. pub_reach crc stream_id max_file_size config v d' stored' pending' s"
      using append_stalling_reach [OF ap assms(5,4) _ both, of "cp_sender cmp"] by blast
    have peers: "res = Inr ()" "cmp' = peer_send cmp_ok now cmp ?fr" "mkt' = peer_send mkt_ok now mkt ?fr" using rest v(2) by simp_all
    have log: "stored' @ pending' = stored @ pending" "\<exists>more. stored' = stored @ more" using v(4) by (simp_all add: moves_def)
    have pv: "prepare crc v record_type rec = Some (?fr, v\<lparr>ww_next_seq := ?k\<rparr>)" using prep [of v] v(3) by (simp add: m_def)
    have mv: "m = stamped record_type rec (ww_next_seq v)" using v(3) by (simp add: m_def)
    have bound: "ww_next_seq v < u64_max" "length (frames crc (stored' @ pending' @ [m])) \<le> u64_max"
      using assms(10,11) v(3) log(1) by (simp_all only: append_assoc [symmetric])
    have "pub_reach crc stream_id max_file_size config w' d' stored' (pending' @ [m]) (snd (send_framed ok now s ?fr))" if "s \<in> ?S" for s ok
      by (rule pub_reach.publishes [OF bspec [OF v(5) that] pv v(1) _ mv assms(6-9) bound]) (rule prod.collapse [symmetric])
    then have "pub_reach crc stream_id max_file_size config w' d' stored' (pending' @ [m]) (cp_sender cmp')"
      "pub_reach crc stream_id max_file_size config w' d' stored' (pending' @ [m]) (cp_sender mkt')" unfolding peers peer_send_sender(1) by blast+
    moreover have "ww_next_seq w' = ww_next_seq w + 1" using v(1) k by (auto simp: append_framed_def Let_def split: if_splits)
    ultimately show ?thesis using log peers(1) unfolding peers(2,3) peer_send_sender(2) framed.select_convs by blast
  qed
  have "\<exists>result. fan_out_wire crc ios cmp_ok mkt_ok now w d cmp mkt record_type rec = Some result"
    if "length (ww_buf w) \<le> max (min (ww_max_file_size w * 2) u64_max) 262144 \<or> flush_stalling ios w d \<noteq> None"
    using append_stalling_returns [OF that assms(5,4,2), of ?k ?fr] prep [of w] by (auto simp: fan_out_wire_def m_def split: sum.split)
  then show ?thesis using out by blast
qed


theorem fan_out_publishes_witness:
  "\<exists>w' d' cmp' mkt' ios'. fan_out_wire demo_crc [] True False 5 demo_wal [(active_filename 7, [])] (peer_new demo_sender) (peer_new demo_sender)
     9 (replicate 16 0) = Some (Inr (), w', d', cmp', mkt', ios') \<and>
     cs_sent (cp_sender cmp') = [frame_of demo_crc demo_message] \<and> cs_sent (cp_sender mkt') = []"
proof -
  let ?p = "peer_new demo_sender" and ?d = "[(active_filename 7, [])]"
  have pub: "pub_reach demo_crc 7 1000 cast_config_default demo_wal ?d [] [] (cp_sender ?p)"
    using pub_reach.starts [OF demo_opened, of cast_config_default] by (simp add: peer_new_def demo_sender_def)
  have m: "stamped 9 (replicate 16 0) (ww_next_seq demo_wal) = demo_message" by (simp add: demo_wal_def demo_message_def)
  have ok: "message_ok demo_message" unfolding demo_message_def by (rule stamped_ok) (simp_all add: bytes_def)
  then have "length (frames demo_crc [demo_message]) \<le> u64_max" using length_frame_of [OF ok, of demo_crc]
    by (simp add: message_ok_def u64_max_def frames_def)
  then have fo: "fan_out_wire demo_crc [] True False 5 demo_wal ?d ?p ?p 9 (replicate 16 0) = Some (res, w', d', cmp', mkt', ios') \<Longrightarrow>
      res = Inr () \<and> cs_sent (cp_sender cmp') = cs_sent (cp_sender ?p) @ [frame_of demo_crc demo_message] \<and> cs_sent (cp_sender mkt') = cs_sent (cp_sender ?p)"
    "\<exists>result. fan_out_wire demo_crc [] True False 5 demo_wal ?d ?p ?p 9 (replicate 16 0) = Some result" for res w' d' cmp' mkt' ios'
    using fan_out_publishes [OF pub pub demo_crc_u32, of "[]" 9 "replicate 16 0" True False 5] m
    by (simp_all add: demo_wal_def u64_max_def bytes_def)
  then show ?thesis by (fastforce simp: peer_new_def demo_sender_def sender_with_config_def)
qed

end
