(* ===== verification/Shadow.thy ===== *)
theory Shadow
  imports Engine_Inv "HOL-Library.AList"
begin

text \<open>
  The shadow book of the market data process (\<open>rsx-marketdata/src/shadow.rs\<close>, \<open>types.rs\<close>): an order book rebuilt from the records the
  matching engine publishes, with a map from order ids to handles, and the views derived from it: the best bid and offer with its counts,
  the depth of one price and the depth snapshot. A hash map keyed by price is an association list; its iteration order does not matter,
  since the levels taken out of it are sorted by price. What a function mutates is threaded through it; \<open>None\<close> is a panic.
\<close>

section \<open>State\<close>

record shadow_book =
  sb_book :: orderbook
  sb_symbol_id :: u32
  sb_seq :: u64
  sb_timestamp_ns :: u64
  sb_order_map :: "nat \<rightharpoonup> u32"

record bbo_view =
  bu_symbol_id :: u32
  bu_bid_px :: i64
  bu_bid_qty :: i64
  bu_bid_count :: u32
  bu_ask_px :: i64
  bu_ask_qty :: i64
  bu_ask_count :: u32
  bu_timestamp_ns :: u64
  bu_seq :: u64

record l2_level =
  l2_price :: i64
  l2_qty :: i64
  l2_count :: u32

record l2_snapshot =
  ls_symbol_id :: u32
  ls_bids :: "l2_level list"
  ls_asks :: "l2_level list"
  ls_timestamp_ns :: u64
  ls_seq :: u64

record l2_delta =
  ld_symbol_id :: u32
  ld_side :: u8
  ld_price :: i64
  ld_qty :: i64
  ld_count :: u32
  ld_timestamp_ns :: u64
  ld_seq :: u64

record trade_event =
  te_symbol_id :: u32
  te_price :: i64
  te_qty :: i64
  te_taker_side :: u8
  te_timestamp_ns :: u64
  te_seq :: u64

definition id_key :: "u64 \<Rightarrow> u64 \<Rightarrow> nat" where
  "id_key order_id_hi order_id_lo = order_id_hi * 2 ^ 64 + order_id_lo"

definition shadow_new :: "book_config \<Rightarrow> u32 \<Rightarrow> i64 \<Rightarrow> shadow_book option" where
  "shadow_new config capacity mid_price = do {
     b \<leftarrow> orderbook_new config capacity mid_price;
     Some \<lparr>sb_book = b, sb_symbol_id = bc_symbol_id config, sb_seq = 0, sb_timestamp_ns = 0, sb_order_map = (\<lambda>k. None)\<rparr>
   }"

section \<open>Applying events\<close>

definition stamped_at :: "shadow_book \<Rightarrow> u64 \<Rightarrow> shadow_book" where
  "stamped_at sb timestamp_ns = sb\<lparr>sb_seq := u64_add (sb_seq sb) 1, sb_timestamp_ns := timestamp_ns\<rparr>"

definition shadow_side :: "u8 \<Rightarrow> side" where
  "shadow_side sd = (if sd = 0 then Buy else Sell)"

text \<open>Taking \<open>qty\<close> off the order of a handle; the flag says whether it is gone.\<close>

definition take_off :: "orderbook \<Rightarrow> u32 \<Rightarrow> order_slot \<Rightarrow> i64 \<Rightarrow> (bool \<times> orderbook) option" where
  "take_off b handle slot qty = do {
     let new_qty = i64_sub (os_remaining_qty slot) qty;
     if new_qty \<le> 0 then do {
       (r, b1) \<leftarrow> cancel_order_checked b handle (os_user_id slot) (os_order_id_hi slot) (os_order_id_lo slot);
       Some (True, b1)
     } else do {
       (r, b1) \<leftarrow> modify_order_qty_down b handle new_qty (os_user_id slot) (os_order_id_hi slot) (os_order_id_lo slot);
       Some (False, b1)
     }
   }"

definition shadow_apply_fill :: "shadow_book \<Rightarrow> u32 \<Rightarrow> i64 \<Rightarrow> u64 \<Rightarrow> shadow_book option" where
  "shadow_apply_fill sb maker_handle qty timestamp_ns = do {
     slot \<leftarrow> slab_get (ob_orders (sb_book sb)) maker_handle;
     (gone, b) \<leftarrow> take_off (sb_book sb) maker_handle slot qty;
     Some ((stamped_at sb timestamp_ns)\<lparr>sb_book := b\<rparr>)
   }"

definition shadow_apply_insert :: "shadow_book \<Rightarrow> i64 \<Rightarrow> i64 \<Rightarrow> u8 \<Rightarrow> u32 \<Rightarrow> u64 \<Rightarrow> (u32 \<times> shadow_book) option" where
  "shadow_apply_insert sb price qty sd user_id timestamp_ns = do {
     (h, b) \<leftarrow> insert_resting (sb_book sb) price qty (shadow_side sd) 0 user_id False timestamp_ns 0 0;
     Some (h, (stamped_at sb timestamp_ns)\<lparr>sb_book := b\<rparr>)
   }"

definition shadow_apply_cancel :: "shadow_book \<Rightarrow> u32 \<Rightarrow> u64 \<Rightarrow> shadow_book option" where
  "shadow_apply_cancel sb handle timestamp_ns = do {
     (r, b) \<leftarrow> cancel_order (sb_book sb) handle;
     Some ((stamped_at sb timestamp_ns)\<lparr>sb_book := b\<rparr>)
   }"

definition apply_insert_by_id :: "shadow_book \<Rightarrow> i64 \<Rightarrow> i64 \<Rightarrow> u8 \<Rightarrow> u32 \<Rightarrow> u64 \<Rightarrow> u64 \<Rightarrow> u64 \<Rightarrow> (u32 \<times> shadow_book) option" where
  "apply_insert_by_id sb price qty sd user_id timestamp_ns order_id_hi order_id_lo = do {
     (h, b) \<leftarrow> insert_resting (sb_book sb) price qty (shadow_side sd) 0 user_id False timestamp_ns order_id_hi order_id_lo;
     Some (h, (stamped_at sb timestamp_ns)\<lparr>sb_book := b, sb_order_map := (sb_order_map sb)(id_key order_id_hi order_id_lo \<mapsto> h)\<rparr>)
   }"

definition apply_cancel_by_order_id :: "shadow_book \<Rightarrow> u64 \<Rightarrow> u64 \<Rightarrow> u64 \<Rightarrow> ((u8 \<times> i64) option \<times> shadow_book) option" where
  "apply_cancel_by_order_id sb order_id_hi order_id_lo timestamp_ns = (case sb_order_map sb (id_key order_id_hi order_id_lo) of
     None \<Rightarrow> Some (None, sb)
   | Some handle \<Rightarrow> do {
       slot \<leftarrow> slab_get (ob_orders (sb_book sb)) handle;
       (r, b) \<leftarrow> cancel_order_checked (sb_book sb) handle (os_user_id slot) order_id_hi order_id_lo;
       Some (Some (os_side slot, os_price slot),
         (stamped_at sb timestamp_ns)\<lparr>sb_book := b, sb_order_map := (sb_order_map sb)(id_key order_id_hi order_id_lo := None)\<rparr>)
     })"

definition apply_fill_by_order_id :: "shadow_book \<Rightarrow> u64 \<Rightarrow> u64 \<Rightarrow> i64 \<Rightarrow> u64 \<Rightarrow> ((u8 \<times> i64) option \<times> shadow_book) option" where
  "apply_fill_by_order_id sb order_id_hi order_id_lo qty timestamp_ns = (case sb_order_map sb (id_key order_id_hi order_id_lo) of
     None \<Rightarrow> Some (None, sb)
   | Some handle \<Rightarrow> do {
       slot \<leftarrow> slab_get (ob_orders (sb_book sb)) handle;
       let new_qty = i64_sub (os_remaining_qty slot) qty;
       if new_qty \<le> 0 then do {
         (r, b) \<leftarrow> cancel_order_checked (sb_book sb) handle (os_user_id slot) order_id_hi order_id_lo;
         Some (Some (os_side slot, os_price slot),
           (stamped_at sb timestamp_ns)\<lparr>sb_book := b, sb_order_map := (sb_order_map sb)(id_key order_id_hi order_id_lo := None)\<rparr>)
       } else do {
         (r, b) \<leftarrow> modify_order_qty_down (sb_book sb) handle new_qty (os_user_id slot) order_id_hi order_id_lo;
         Some (Some (os_side slot, os_price slot), (stamped_at sb timestamp_ns)\<lparr>sb_book := b\<rparr>)
       }
     })"

text \<open>The recentering is that of the matching engine.\<close>

definition shadow_recenter :: "shadow_book \<Rightarrow> shadow_book option" where
  "shadow_recenter sb = do { b \<leftarrow> maybe_recenter (sb_book sb); Some (sb\<lparr>sb_book := b\<rparr>) }"

section \<open>Views\<close>

definition level_step :: "u8 \<Rightarrow> i64 \<Rightarrow> order_slot \<Rightarrow> i64 \<times> u32 \<Rightarrow> i64 \<times> u32" where
  "level_step sd price order acc =
     (if os_side order = sd \<and> os_price order = price then (i64_add (fst acc) (os_remaining_qty order), u32_add (snd acc) 1) else acc)"

definition level_at_price :: "shadow_book \<Rightarrow> u32 \<Rightarrow> u8 \<Rightarrow> i64 \<Rightarrow> l2_level option" where
  "level_at_price sb tick sd price =
     (if tick = NONE then Some \<lparr>l2_price = price, l2_qty = 0, l2_count = 0\<rparr>
      else do {
        level \<leftarrow> index_of (ob_active_levels (sb_book sb)) tick;
        (qty, cnt) \<leftarrow> walk (slots (ob_orders (sb_book sb))) (level_step sd price) (0, 0) (pl_head level);
        Some \<lparr>l2_price = price, l2_qty = qty, l2_count = cnt\<rparr>
      })"

definition derive_bbo :: "shadow_book \<Rightarrow> bbo_view option option" where
  "derive_bbo sb =
     (if ob_best_bid_tick (sb_book sb) = NONE \<and> ob_best_ask_tick (sb_book sb) = NONE then Some None
      else do {
        top \<leftarrow> current_bbo (sb_book sb);
        bid \<leftarrow> level_at_price sb (ob_best_bid_tick (sb_book sb)) (side_u8 Buy) (bbo_bid_px top);
        ask \<leftarrow> level_at_price sb (ob_best_ask_tick (sb_book sb)) (side_u8 Sell) (bbo_ask_px top);
        Some (Some \<lparr>bu_symbol_id = sb_symbol_id sb, bu_bid_px = bbo_bid_px top, bu_bid_qty = bbo_bid_qty top, bu_bid_count = l2_count bid,
          bu_ask_px = bbo_ask_px top, bu_ask_qty = bbo_ask_qty top, bu_ask_count = l2_count ask,
          bu_timestamp_ns = sb_timestamp_ns sb, bu_seq = sb_seq sb\<rparr>)
      })"

definition derive_l2_delta :: "shadow_book \<Rightarrow> u8 \<Rightarrow> i64 \<Rightarrow> l2_delta option" where
  "derive_l2_delta sb sd price = do {
     tick \<leftarrow> price_to_index (ob_compression (sb_book sb)) price;
     level \<leftarrow> level_at_price sb tick sd price;
     Some \<lparr>ld_symbol_id = sb_symbol_id sb, ld_side = sd, ld_price = price, ld_qty = l2_qty level, ld_count = l2_count level,
       ld_timestamp_ns = sb_timestamp_ns sb, ld_seq = sb_seq sb\<rparr>
   }"

text \<open>The loop of \<open>side_levels\<close>: one order added to the levels collected so far.\<close>

definition tally :: "side \<Rightarrow> order_slot \<Rightarrow> (i64 \<times> (i64 \<times> u32)) list \<Rightarrow> (i64 \<times> (i64 \<times> u32)) list" where
  "tally sd order levels =
     (if os_side order = side_u8 sd then
        let (qty, cnt) = (case map_of levels (os_price order) of None \<Rightarrow> (0, 0) | Some entry \<Rightarrow> entry) in
        AList.update (os_price order) (i64_add qty (os_remaining_qty order), u32_add cnt 1) levels
      else levels)"

definition side_count :: "side \<Rightarrow> price_level \<Rightarrow> u32" where
  "side_count sd level = (case sd of Buy \<Rightarrow> pl_bid_count level | Sell \<Rightarrow> pl_ask_count level)"

fun collect_side :: "order_slot list \<Rightarrow> side \<Rightarrow> price_level list \<Rightarrow> (i64 \<times> (i64 \<times> u32)) list \<Rightarrow> (i64 \<times> (i64 \<times> u32)) list option" where
  "collect_side xs sd [] levels = Some levels"
| "collect_side xs sd (level # rest) levels =
     (if side_count sd level = 0 then collect_side xs sd rest levels
      else do { levels1 \<leftarrow> walk xs (tally sd) levels (pl_head level); collect_side xs sd rest levels1 })"

definition side_levels :: "shadow_book \<Rightarrow> side \<Rightarrow> l2_level list option" where
  "side_levels sb sd = do {
     levels \<leftarrow> collect_side (slots (ob_orders (sb_book sb))) sd (ob_active_levels (sb_book sb)) [];
     Some (map (\<lambda>(price, (qty, cnt)). \<lparr>l2_price = price, l2_qty = qty, l2_count = cnt\<rparr>) levels)
   }"

definition collect_levels_bid :: "shadow_book \<Rightarrow> nat \<Rightarrow> l2_level list option" where
  "collect_levels_bid sb depth = do { levels \<leftarrow> side_levels sb Buy; Some (take depth (sort_key (\<lambda>l. - l2_price l) levels)) }"

definition collect_levels_ask :: "shadow_book \<Rightarrow> nat \<Rightarrow> l2_level list option" where
  "collect_levels_ask sb depth = do { levels \<leftarrow> side_levels sb Sell; Some (take depth (sort_key l2_price levels)) }"

definition derive_l2_snapshot :: "shadow_book \<Rightarrow> nat \<Rightarrow> l2_snapshot option" where
  "derive_l2_snapshot sb depth = do {
     bids \<leftarrow> collect_levels_bid sb depth;
     asks \<leftarrow> collect_levels_ask sb depth;
     Some \<lparr>ls_symbol_id = sb_symbol_id sb, ls_bids = bids, ls_asks = asks, ls_timestamp_ns = sb_timestamp_ns sb, ls_seq = sb_seq sb\<rparr>
   }"

definition make_trade :: "shadow_book \<Rightarrow> i64 \<Rightarrow> i64 \<Rightarrow> u8 \<Rightarrow> u64 \<Rightarrow> trade_event" where
  "make_trade sb price qty taker_side timestamp_ns = \<lparr>te_symbol_id = sb_symbol_id sb, te_price = price, te_qty = qty,
     te_taker_side = taker_side, te_timestamp_ns = timestamp_ns, te_seq = sb_seq sb\<rparr>"

end
