(* ===== verification/Shadow_Props.thy ===== *)
theory Shadow_Props
  imports Shadow
begin

text \<open>
  What the market data process promises. The shadow book follows the order events of its symbol: as a map from order ids to side, price and
  remaining quantity it does exactly what the events say. The views derived from it agree with the obvious definitions over the resting
  orders: the depth snapshot lists the prices of each side, best first, with the sum and the number of the orders there.
\<close>

section \<open>Depth\<close>

text \<open>The reference: the level of a side at a price, over the resting orders.\<close>

definition orders_at :: "orderbook \<Rightarrow> queues \<Rightarrow> side \<Rightarrow> i64 \<Rightarrow> u32 set" where
  "orders_at b Q sd p = {h \<in> resting b Q sd. os_price (ord b h) = p}"

definition level_of :: "orderbook \<Rightarrow> queues \<Rightarrow> side \<Rightarrow> i64 \<Rightarrow> l2_level" where
  "level_of b Q sd p = \<lparr>l2_price = p, l2_qty = (\<Sum>h\<in>orders_at b Q sd p. rem b h), l2_count = card (orders_at b Q sd p)\<rparr>"

definition prices :: "orderbook \<Rightarrow> queues \<Rightarrow> side \<Rightarrow> i64 set" where
  "prices b Q sd = (\<lambda>h. os_price (ord b h)) ` resting b Q sd"

lemma wrap64_add: "i64_add (wrap64 a) b = wrap64 (a + b)"
  by (simp add: i64_add_def wrap64_def mod_simps ac_simps)

lemma on_side_u8: "os_side s \<le> 1 \<Longrightarrow> os_side s = side_u8 sd \<longleftrightarrow> on_side sd s"
  by (cases sd) (auto simp: on_side_def is_buy_def)

text \<open>The level of a slot: a walk that adds up one price.\<close>

lemma level_fold:
  assumes "\<And>h. h \<in> set hs \<Longrightarrow> os_side (xs ! h) \<le> 1"
  shows "fold (\<lambda>h. level_step (side_u8 sd) p (xs ! h)) hs (wrap64 q, n mod 4294967296) =
    (wrap64 (q + qty_sum xs (at_price xs sd hs p)), (n + length (at_price xs sd hs p)) mod 4294967296)"
  using assms
proof (induction hs arbitrary: q n)
  case (Cons h hs)
  have "level_step (side_u8 sd) p (xs ! h) (wrap64 q, n mod 4294967296) =
      (if on_side sd (xs ! h) \<and> os_price (xs ! h) = p then (wrap64 (q + os_remaining_qty (xs ! h)), (n + 1) mod 4294967296)
       else (wrap64 q, n mod 4294967296))"
    using on_side_u8 [OF Cons.prems, of h sd] by (simp add: level_step_def wrap64_add u32_add_def mod_simps)
  then show ?case using Cons.IH Cons.prems by (simp add: at_price_def qty_sum_def add.assoc)
qed (simp add: at_price_def qty_sum_def)

text \<open>The levels of a side: a walk that keeps one entry per price.\<close>

definition entry_of :: "order_slot list \<Rightarrow> side \<Rightarrow> u32 list \<Rightarrow> i64 \<Rightarrow> (i64 \<times> u32) option" where
  "entry_of xs sd hs p = (let at = at_price xs sd hs p in if at = [] then None else Some (wrap64 (qty_sum xs at), length at mod 4294967296))"

lemma tally_cases:
  "os_side order \<noteq> side_u8 sd \<Longrightarrow> tally sd order levels = levels"
  "os_side order = side_u8 sd \<Longrightarrow> (case map_of levels (os_price order) of None \<Rightarrow> (0, 0) | Some entry \<Rightarrow> entry) = (qty, cnt) \<Longrightarrow>
     tally sd order levels = AList.update (os_price order) (i64_add qty (os_remaining_qty order), u32_add cnt 1) levels"
  by (simp_all add: tally_def)

lemma tally_fold:
  assumes "\<And>h. h \<in> set hs \<Longrightarrow> os_side (xs ! h) \<le> 1"
  shows "map_of (fold (\<lambda>h. tally sd (xs ! h)) hs []) = entry_of xs sd hs \<and> distinct (map fst (fold (\<lambda>h. tally sd (xs ! h)) hs []))"
  using assms
proof (induction hs rule: rev_induct)
  case Nil
  then show ?case by (simp add: entry_of_def at_price_def fun_eq_iff)
next
  case (snoc h hs)
  let ?acc = "fold (\<lambda>h. tally sd (xs ! h)) hs []" and ?p = "os_price (xs ! h)"
  have IH: "map_of ?acc = entry_of xs sd hs" "distinct (map fst ?acc)" using snoc by simp_all
  have side: "os_side (xs ! h) = side_u8 sd \<longleftrightarrow> on_side sd (xs ! h)" using on_side_u8 snoc.prems by simp
  show ?case
  proof (cases "on_side sd (xs ! h)")
    case False
    then have "entry_of xs sd (hs @ [h]) = entry_of xs sd hs" by (simp add: entry_of_def at_price_def fun_eq_iff)
    then show ?thesis using False side IH by (simp add: tally_cases)
  next
    case True
    let ?at = "at_price xs sd hs ?p"
    have at: "at_price xs sd (hs @ [h]) ?p = ?at @ [h]" "p \<noteq> ?p \<Longrightarrow> at_price xs sd (hs @ [h]) p = at_price xs sd hs p" for p
      using True by (auto simp: at_price_def)
    have start: "(case entry_of xs sd hs ?p of None \<Rightarrow> (0, 0) | Some entry \<Rightarrow> entry) = (wrap64 (qty_sum xs ?at), length ?at mod 4294967296)"
      by (simp add: entry_of_def Let_def qty_sum_def wrap64_id in_i64_iff i64_max_def i64_min_def)
    have "i64_add (wrap64 (qty_sum xs ?at)) (os_remaining_qty (xs ! h)) = wrap64 (qty_sum xs (?at @ [h]))" by (simp add: wrap64_add qty_sum_def)
    moreover have "u32_add (length ?at mod 4294967296) 1 = length (?at @ [h]) mod 4294967296" by (simp add: u32_add_def mod_simps)
    ultimately have "fold (\<lambda>h. tally sd (xs ! h)) (hs @ [h]) [] =
        AList.update ?p (wrap64 (qty_sum xs (?at @ [h])), length (?at @ [h]) mod 4294967296) ?acc"
      using tally_cases(2) [of "xs ! h" sd ?acc] True side start IH(1) by simp
    moreover have "(entry_of xs sd hs)(?p \<mapsto> (wrap64 (qty_sum xs (?at @ [h])), length (?at @ [h]) mod 4294967296)) = entry_of xs sd (hs @ [h])"
      using at by (auto simp: entry_of_def fun_eq_iff Let_def)
    ultimately show ?thesis using IH by (simp add: update_conv' distinct_update)
  qed
qed

text \<open>All the orders of the book, slot by slot.\<close>

definition all_orders :: "orderbook \<Rightarrow> queues \<Rightarrow> u32 list" where
  "all_orders b Q = concat (map Q [0..<length (ob_active_levels b)])"

lemma set_all_orders: "book_rel b Q F D \<Longrightarrow> set (all_orders b Q) = queued Q"
  using book_relD(19) by (fastforce simp: all_orders_def queued_def not_le)

lemma side_uninvolved:
  assumes "level_ok xs l hs" "side_count sd l = 0" "\<And>h. h \<in> set hs \<Longrightarrow> os_side (xs ! h) \<le> 1"
  shows "fold (\<lambda>h. tally sd (xs ! h)) hs acc = acc"
proof -
  have none: "\<not> on_side sd (xs ! h)" if "h \<in> set hs" for h
    using assms(1,2) that by (cases sd) (auto simp: level_ok_def side_count_def on_side_def filter_empty_conv)
  have "fold (\<lambda>h. tally sd (xs ! h)) ks acc = acc" if "set ks \<subseteq> set hs" for ks
    using that
  proof (induction ks)
    case (Cons k ks)
    then have "os_side (xs ! k) \<noteq> side_u8 sd" using none [of k] on_side_u8 [OF assms(3), of k sd] by simp
    then show ?case using Cons by (simp add: tally_cases)
  qed simp
  then show ?thesis by blast
qed

lemma collect_side_fold:
  assumes rel: "book_rel b Q F D" and n: "n \<le> length (ob_active_levels b)"
  shows "collect_side (slots (ob_orders b)) sd (drop n (ob_active_levels b)) acc =
    Some (fold (\<lambda>h. tally sd (ord b h)) (concat (map Q [n..<length (ob_active_levels b)])) acc)"
  using n
proof (induction "length (ob_active_levels b) - n" arbitrary: n acc)
  case (Suc k)
  let ?xs = "slots (ob_orders b)" and ?l = "ob_active_levels b ! n"
  have n: "n < length (ob_active_levels b)" "k = length (ob_active_levels b) - Suc n" using Suc.hyps(2) by linarith+
  have split: "drop n (ob_active_levels b) = ?l # drop (Suc n) (ob_active_levels b)" "[n..<length (ob_active_levels b)] = n # [Suc n..<length (ob_active_levels b)]"
    using n by (simp_all add: Cons_nth_drop_Suc upt_conv_Cons)
  have lo: "level_ok ?xs ?l (Q n)" by (rule book_relD(9) [OF rel n(1)])
  have sides: "os_side (ord b h) \<le> 1" if "h \<in> set (Q n)" for h using book_relD(11) [OF rel that] by (simp add: slot_ok_def)
  have w: "walk ?xs (tally sd) acc (pl_head ?l) = Some (fold (\<lambda>h. tally sd (?xs ! h)) (Q n) acc)"
    using walk_seg [of ?xs NONE "Q n"] lo queue_set_facts [OF rel, of n] by (simp add: level_ok_def)
  show ?case using Suc.hyps(1) [OF n(2)] n(1) w side_uninvolved [OF lo _ sides, of sd acc] unfolding split by simp
qed simp

lemma distinct_all_orders:
  assumes rel: "book_rel b Q F D"
  shows "distinct (concat (map Q [0..<n]))"
proof (induction n)
  case (Suc n)
  have "set (Q t) \<inter> set (Q n) = {}" if "t < n" for t using queues_disjoint [OF rel] that by blast
  then have "set (concat (map Q [0..<n])) \<inter> set (Q n) = {}" by fastforce
  then show ?case using Suc book_relD(10) [OF rel, of n] by simp
qed simp

lemma at_price_all:
  assumes rel: "book_rel b Q F D"
  shows "distinct (at_price (slots (ob_orders b)) sd (all_orders b Q) p)" "set (at_price (slots (ob_orders b)) sd (all_orders b Q) p) = orders_at b Q sd p"
proof -
  show "distinct (at_price (slots (ob_orders b)) sd (all_orders b Q) p)" using distinct_all_orders [OF rel] by (simp add: at_price_def all_orders_def)
  show "set (at_price (slots (ob_orders b)) sd (all_orders b Q) p) = orders_at b Q sd p"
    using set_all_orders [OF rel] by (auto simp: at_price_def orders_at_def resting_def)
qed

lemma orders_at_slot:
  assumes rel: "book_rel b Q F D"
  shows "set (at_price (slots (ob_orders b)) sd (Q (slot_index (ob_compression b) p)) p) = orders_at b Q sd p"
    "distinct (at_price (slots (ob_orders b)) sd (Q t) p)"
  using book_relD(11) [OF rel] book_relD(10) [OF rel, of t] by (fastforce simp: at_price_def orders_at_def resting_def queued_def slot_ok_def)+

lemma qty_sum_filter: "(\<And>h. h \<in> set hs \<Longrightarrow> 0 \<le> os_remaining_qty (xs ! h)) \<Longrightarrow> qty_sum xs (filter P hs) \<le> qty_sum xs hs"
  by (induction hs) (auto simp: qty_sum_def intro: add_increasing)

text \<open>The orders of one price share a slot, so their quantities add up without wrapping; and handles are fewer than \<open>2\<^sup>3\<^sup>2\<close>.\<close>

lemma level_of_bounds:
  assumes rel: "book_rel b Q F D"
  shows "0 \<le> l2_qty (level_of b Q sd p)" "l2_qty (level_of b Q sd p) \<le> i64_max" "l2_count (level_of b Q sd p) < 4294967296" "finite (orders_at b Q sd p)"
proof -
  let ?xs = "slots (ob_orders b)" and ?t = "slot_index (ob_compression b) p"
  let ?at = "at_price ?xs sd (Q ?t) p"
  have sum: "l2_qty (level_of b Q sd p) = qty_sum ?xs ?at"
    unfolding level_of_def qty_sum_def rem_def using orders_at_slot [OF rel, where p = p and sd = sd]
    by (simp add: sum_list_distinct_conv_sum_set)
  have sub: "set ?at \<subseteq> set (Q ?t)" by (auto simp: at_price_def)
  show "0 \<le> l2_qty (level_of b Q sd p)" unfolding sum by (rule qty_sum_nonneg [OF rel sub])
  show fin: "finite (orders_at b Q sd p)" using orders_at_slot(1) [OF rel, where p = p and sd = sd] by (metis finite_set)
  show "l2_qty (level_of b Q sd p) \<le> i64_max"
  proof (cases "?t < length (ob_active_levels b)")
    case True
    have "0 \<le> os_remaining_qty (?xs ! h)" if "h \<in> set (Q ?t)" for h using book_relD(11) [OF rel that] by (simp add: slot_ok_def)
    then have "qty_sum ?xs ?at \<le> qty_sum ?xs (Q ?t)" unfolding at_price_def by (rule qty_sum_filter)
    then show ?thesis using book_relD(9) [OF rel True] unfolding sum by (simp add: level_ok_def)
  next
    case False
    then have "Q ?t = []" using book_relD(19) [OF rel] by simp
    then show ?thesis unfolding sum by (simp add: at_price_def qty_sum_def i64_max_def)
  qed
  have "orders_at b Q sd p \<subseteq> {..<length ?xs}" using orders_at_slot(1) [OF rel, where p = p and sd = sd] sub queue_set_facts(1) [OF rel, of ?t] by blast
  then have "card (orders_at b Q sd p) \<le> length ?xs" by (metis card_lessThan card_mono finite_lessThan)
  moreover have "length ?xs \<le> NONE" using book_relD(1) [OF rel] by (simp add: slab_rel_def)
  ultimately show "l2_count (level_of b Q sd p) < 4294967296" by (simp add: level_of_def NONE_def u32_max_def)
qed

lemma entry_level:
  assumes rel: "book_rel b Q F D"
  shows "entry_of (slots (ob_orders b)) sd (all_orders b Q) p =
    (if p \<in> prices b Q sd then Some (l2_qty (level_of b Q sd p), l2_count (level_of b Q sd p)) else None)"
proof -
  let ?at = "at_price (slots (ob_orders b)) sd (all_orders b Q) p"
  have "qty_sum (slots (ob_orders b)) ?at = l2_qty (level_of b Q sd p)"
    unfolding level_of_def qty_sum_def rem_def using at_price_all [OF rel, where p = p and sd = sd] by (simp add: sum_list_distinct_conv_sum_set)
  moreover have "length ?at = l2_count (level_of b Q sd p)" using at_price_all [OF rel, where p = p and sd = sd] distinct_card [of ?at] by (simp add: level_of_def)
  moreover have "?at = [] \<longleftrightarrow> p \<notin> prices b Q sd"
    using at_price_all(2) [OF rel, where p = p and sd = sd] by (auto simp: prices_def orders_at_def simp flip: set_empty)
  ultimately show ?thesis using level_of_bounds [OF rel, where p = p and sd = sd] by (simp add: entry_of_def Let_def wrap64_id in_i64_iff i64_max_def)
qed

lemma side_levels_exact:
  assumes rel: "book_rel (sb_book sb) Q F D"
  shows "\<exists>levels. side_levels sb sd = Some levels \<and> distinct levels \<and> set levels = level_of (sb_book sb) Q sd ` prices (sb_book sb) Q sd"
proof -
  let ?b = "sb_book sb"
  let ?L = "fold (\<lambda>h. tally sd (ord ?b h)) (all_orders ?b Q) []" and ?mk = "\<lambda>(price, (qty, cnt)). \<lparr>l2_price = price, l2_qty = qty, l2_count = cnt\<rparr>"
  have side: "os_side (ord ?b h) \<le> 1" if "h \<in> set (all_orders ?b Q)" for h
    using that book_relD(11) [OF rel] by (auto simp: all_orders_def slot_ok_def)
  note t = tally_fold [where hs = "all_orders ?b Q" and xs = "slots (ob_orders ?b)" and sd = sd, OF side]
  have map: "map_of ?L p = (if p \<in> prices ?b Q sd then Some (l2_qty (level_of ?b Q sd p), l2_count (level_of ?b Q sd p)) else None)" for p
    using t entry_level [OF rel] by simp
  have run: "side_levels sb sd = Some (map ?mk ?L)"
    using collect_side_fold [OF rel, of 0 sd "[]"] by (simp add: side_levels_def all_orders_def)
  have mk: "?mk (p, (l2_qty (level_of ?b Q sd p), l2_count (level_of ?b Q sd p))) = level_of ?b Q sd p" for p by (simp add: level_of_def)
  have "set ?L = {(p, l2_qty (level_of ?b Q sd p), l2_count (level_of ?b Q sd p)) |p. p \<in> prices ?b Q sd}"
    using t map by (auto simp flip: map_of_eq_Some_iff split: if_splits)
  then have "set (map ?mk ?L) = level_of ?b Q sd ` prices ?b Q sd" using mk by (auto simp: image_iff)
  moreover have "distinct (map ?mk ?L)"
  proof -
    have "map l2_price (map ?mk ?L) = map fst ?L" by (auto simp: comp_def split: prod.split)
    then show ?thesis using t by (metis distinct_map)
  qed
  ultimately show ?thesis using run by blast
qed

lemma finite_prices: "book_rel b Q F D \<Longrightarrow> finite (prices b Q sd)"
  by (metis (no_types, lifting) List.finite_set finite_imageI finite_subset mem_Collect_eq prices_def resting_def set_all_orders subsetI)

lemma l2_delta_exact:
  assumes "wf (sb_book sb) Q F" "price_range p"
  shows "\<exists>d. derive_l2_delta sb (side_u8 sd) p = Some d \<and> ld_qty d = l2_qty (level_of (sb_book sb) Q sd p) \<and> ld_count d = l2_count (level_of (sb_book sb) Q sd p)"
proof -
  let ?b = "sb_book sb"
  let ?xs = "slots (ob_orders ?b)" and ?t = "slot_index (ob_compression ?b) p"
  let ?at = "at_price ?xs sd (Q ?t) p"
  note rel = wfD(1) [OF assms(1)]
  have t: "?t < length (ob_active_levels ?b)" using slot_index_bound [OF book_relD(2) [OF rel], of p] total_slots_ok [OF book_relD(2) [OF rel]] book_relD(4) [OF rel] by simp
  have tn: "?t \<noteq> NONE" using t book_relD(4) [OF rel] total_slots_ok [OF book_relD(2) [OF rel]] base_top(2) [OF book_relD(2) [OF rel], of 0] by simp
  have sides: "os_side (?xs ! h) \<le> 1" if "h \<in> set (Q ?t)" for h using book_relD(11) [OF rel that] by (simp add: slot_ok_def)
  have w: "walk ?xs (level_step (side_u8 sd) p) (0, 0) (pl_head (ob_active_levels ?b ! ?t)) = Some (fold (\<lambda>h. level_step (side_u8 sd) p (?xs ! h)) (Q ?t) (0, 0))"
    using walk_seg [of ?xs NONE "Q ?t"] book_relD(9) [OF rel t] queue_set_facts [OF rel, of ?t] by (simp add: level_ok_def)
  have "qty_sum ?xs ?at = l2_qty (level_of ?b Q sd p)"
    unfolding level_of_def qty_sum_def rem_def using orders_at_slot [OF rel, where p = p and sd = sd] by (simp add: sum_list_distinct_conv_sum_set)
  moreover have "length ?at = l2_count (level_of ?b Q sd p)"
    using orders_at_slot(1) [OF rel, where p = p and sd = sd] orders_at_slot(2) [OF rel, where p = p and sd = sd and t = ?t] distinct_card [of ?at]
    by (simp add: level_of_def)
  moreover have "wrap64 0 = 0" by (rule wrap64_id) (simp add: in_i64_iff)
  ultimately have "fold (\<lambda>h. level_step (side_u8 sd) p (?xs ! h)) (Q ?t) (0, 0) = (l2_qty (level_of ?b Q sd p), l2_count (level_of ?b Q sd p))"
    using level_fold [where hs = "Q ?t" and xs = ?xs and sd = sd and p = p and q = 0 and n = 0, OF sides] level_of_bounds [OF rel, where p = p and sd = sd]
    by (simp add: wrap64_id in_i64_iff i64_max_def)
  then show ?thesis using w t tn price_to_index_slot [OF book_relD(2) [OF rel] assms(2)]
    by (simp add: derive_l2_delta_def level_at_price_def index_of_Some)
qed


section \<open>Following the events\<close>

text \<open>The events of one symbol, as \<open>apply_record\<close> hands them to the shadow book, and what they mean for a map from ids to orders.\<close>

datatype md_event =
    MdInserted i64 i64 u8 u32 u64 u64 u64
  | MdCancelled u64 u64 u64
  | MdFilled u64 u64 i64 u64

fun shadow_apply :: "md_event \<Rightarrow> shadow_book \<Rightarrow> shadow_book option" where
  "shadow_apply (MdInserted price qty sd user_id ts_ns hi lo) sb = do {
     (h, sb1) \<leftarrow> apply_insert_by_id sb price qty sd user_id ts_ns hi lo;
     shadow_recenter sb1
   }"
| "shadow_apply (MdCancelled hi lo ts_ns) sb = do { (upd, sb1) \<leftarrow> apply_cancel_by_order_id sb hi lo ts_ns; Some sb1 }"
| "shadow_apply (MdFilled hi lo qty ts_ns) sb = do { (upd, sb1) \<leftarrow> apply_fill_by_order_id sb hi lo qty ts_ns; Some sb1 }"

type_synonym view = "nat \<rightharpoonup> (u8 \<times> i64 \<times> i64)"

fun view_apply :: "md_event \<Rightarrow> view \<Rightarrow> view" where
  "view_apply (MdInserted price qty sd user_id ts_ns hi lo) v = v(id_key hi lo \<mapsto> (side_u8 (shadow_side sd), price, qty))"
| "view_apply (MdCancelled hi lo ts_ns) v = v(id_key hi lo := None)"
| "view_apply (MdFilled hi lo qty ts_ns) v = (case v (id_key hi lo) of
     None \<Rightarrow> v
   | Some (sd, price, rest) \<Rightarrow> if rest \<le> qty then v(id_key hi lo := None) else v(id_key hi lo \<mapsto> (sd, price, rest - qty)))"

definition face :: "order_slot \<Rightarrow> u8 \<times> i64 \<times> i64" where
  "face s = (os_side s, os_price s, os_remaining_qty s)"

definition id_of :: "order_slot \<Rightarrow> nat" where
  "id_of s = id_key (os_order_id_hi s) (os_order_id_lo s)"

definition view_of :: "shadow_book \<Rightarrow> view" where
  "view_of sb k = map_option (\<lambda>h. face (ord (sb_book sb) h)) (sb_order_map sb k)"

definition indexed :: "shadow_book \<Rightarrow> queues \<Rightarrow> bool" where
  "indexed sb Q \<longleftrightarrow> (\<forall>h\<in>queued Q. os_order_id_lo (ord (sb_book sb) h) < 2 ^ 64) \<and>
     (\<forall>k h. sb_order_map sb k = Some h \<longleftrightarrow> h \<in> queued Q \<and> id_of (ord (sb_book sb) h) = k)"

definition shadow_rel :: "shadow_book \<Rightarrow> queues \<Rightarrow> u32 list \<Rightarrow> bool" where
  "shadow_rel sb Q F \<longleftrightarrow> good (sb_book sb) Q F \<and> prices_regular (sb_book sb) Q \<and> indexed sb Q"

lemma id_key_inj: "id_key hi lo = id_key hi' lo' \<Longrightarrow> lo < 2 ^ 64 \<Longrightarrow> lo' < 2 ^ 64 \<Longrightarrow> hi = hi' \<and> lo = lo'"
proof -
  assume a: "id_key hi lo = id_key hi' lo'" "lo < 2 ^ 64" "lo' < 2 ^ 64"
  have "id_key hi lo div 2 ^ 64 = hi" "id_key hi' lo' div 2 ^ 64 = hi'" using a(2,3) by (simp_all add: id_key_def)
  then have "hi = hi'" using a(1) by (simp only:)
  then show ?thesis using a(1) by (simp add: id_key_def)
qed

lemma strip_face: "strip s = strip t \<Longrightarrow> face s = face t \<and> id_of s = id_of t \<and> os_order_id_lo s = os_order_id_lo t"
  using strip_eqD [of s t] by (simp add: face_def id_of_def)

lemma essence_face: "essence s = essence t \<Longrightarrow> face s = face t \<and> id_of s = id_of t \<and> os_order_id_lo s = os_order_id_lo t"
  by (cases s; cases t) (simp add: essence_def strip_def face_def id_of_def)

text \<open>A step that leaves the faces and keys of the orders that stay.\<close>

definition stays :: "orderbook \<Rightarrow> orderbook \<Rightarrow> u32 set \<Rightarrow> bool" where
  "stays b b' H \<longleftrightarrow> (\<forall>h\<in>H. face (ord b' h) = face (ord b h) \<and> id_of (ord b' h) = id_of (ord b h) \<and>
     os_order_id_lo (ord b' h) = os_order_id_lo (ord b h))"

lemma face_side: "face s = face t \<Longrightarrow> on_side sd s = on_side sd t" "face s = face t \<Longrightarrow> os_price s = os_price t" "face s = face t \<Longrightarrow> os_remaining_qty s = os_remaining_qty t"
  by (cases sd; simp add: face_def on_side_def is_buy_def)+

lemma uncrossed_less:
  assumes "uncrossed b Q" "queued Q' \<subseteq> queued Q" "\<And>h. h \<in> queued Q' \<Longrightarrow> face (ord b' h) = face (ord b h)"
  shows "uncrossed b' Q'"
proof -
  have "h \<in> resting b Q sd \<and> os_price (ord b' h) = os_price (ord b h)" if "h \<in> resting b' Q' sd" for h sd
  proof -
    have q: "h \<in> queued Q'" "on_side sd (ord b' h)" using that by (simp_all add: resting_def)
    show ?thesis using face_side(1) [OF assms(3) [OF q(1)], of sd] face_side(2) [OF assms(3) [OF q(1)]] q assms(2) by (auto simp: resting_def)
  qed
  then show ?thesis using assms(1) unfolding uncrossed_def by metis
qed

lemma drop_order:
  assumes "shadow_rel sb Q F" "sb_order_map sb k = Some h" "wf b' Q' F'" "queued Q' = queued Q - {h}" "stays (sb_book sb) b' (queued Q - {h})" "book_sig (sb_book sb) b'"
  shows "shadow_rel (sb\<lparr>sb_seq := n, sb_timestamp_ns := t, sb_book := b', sb_order_map := (sb_order_map sb)(k := None)\<rparr>) Q' F'"
    "view_of (sb\<lparr>sb_seq := n, sb_timestamp_ns := t, sb_book := b', sb_order_map := (sb_order_map sb)(k := None)\<rparr>) = (view_of sb)(k := None)"
proof -
  note rel = assms(1) [unfolded shadow_rel_def indexed_def good_def prices_regular_def]
  have idx: "sb_order_map sb j = Some x \<longleftrightarrow> x \<in> queued Q \<and> id_of (ord (sb_book sb) x) = j" for j x using rel by blast
  have h: "h \<in> queued Q" "id_of (ord (sb_book sb) h) = k" using idx assms(2) by blast+
  have st: "face (ord b' x) = face (ord (sb_book sb) x)" "id_of (ord b' x) = id_of (ord (sb_book sb) x)"
    "os_order_id_lo (ord b' x) = os_order_id_lo (ord (sb_book sb) x)" if "x \<in> queued Q'" for x using assms(4,5) that by (auto simp: stays_def)
  have "uncrossed b' Q'" by (rule uncrossed_less [of "sb_book sb" Q]) (use rel assms(4) st(1) in blast)+
  then have "good b' Q' F'" using assms(3,6) rel by (simp add: good_def book_sig_def)
  moreover have "prices_regular b' Q'" unfolding prices_regular_def
  proof
    fix x assume x: "x \<in> queued Q'"
    then show "regular_mid (os_price (ord b' x)) (bc_tick_size (ob_config b'))"
      using rel assms(4,6) face_side(2) [OF st(1) [OF x]] by (auto simp: book_sig_def)
  qed
  moreover have "(if j = k then None else sb_order_map sb j) = Some x \<longleftrightarrow> x \<in> queued Q' \<and> id_of (ord b' x) = j" for j x
  proof (cases "j = k")
    case True
    have "x = h" if "x \<in> queued Q" "id_of (ord (sb_book sb) x) = k" using idx [of k x] that assms(2) by simp
    then have "\<not> (x \<in> queued Q' \<and> id_of (ord b' x) = k)" using st(2) [of x] unfolding assms(4) by (metis DiffE singletonI)
    then show ?thesis using True by simp
  next
    case False
    then have "x \<noteq> h" if "id_of (ord (sb_book sb) x) = j" using h(2) that by blast
    then have "sb_order_map sb j = Some x \<longleftrightarrow> x \<in> queued Q' \<and> id_of (ord b' x) = j" using idx [of j x] st(2) [of x] unfolding assms(4) by (metis DiffE DiffI singletonD)
    then show ?thesis using False by simp
  qed
  ultimately show "shadow_rel (sb\<lparr>sb_seq := n, sb_timestamp_ns := t, sb_book := b', sb_order_map := (sb_order_map sb)(k := None)\<rparr>) Q' F'"
    using st(3) rel assms(4) by (simp add: shadow_rel_def indexed_def fun_upd_def)
  show "view_of (sb\<lparr>sb_seq := n, sb_timestamp_ns := t, sb_book := b', sb_order_map := (sb_order_map sb)(k := None)\<rparr>) = (view_of sb)(k := None)"
  proof
    fix j
    have "face (ord b' x) = face (ord (sb_book sb) x)" if "j \<noteq> k" "sb_order_map sb j = Some x" for x
      using st(1) [of x] idx [of j x] h(2) that unfolding assms(4) by blast
    then show "view_of (sb\<lparr>sb_seq := n, sb_timestamp_ns := t, sb_book := b', sb_order_map := (sb_order_map sb)(k := None)\<rparr>) j = ((view_of sb)(k := None)) j"
      by (cases "sb_order_map sb j") (auto simp: view_of_def)
  qed
qed


lemma same_orders:
  assumes "shadow_rel sb Q F" "good b' Q' F'" "queued Q' = queued Q" "ob_config b' = ob_config (sb_book sb)"
    "\<And>h. h \<in> queued Q \<Longrightarrow> face (ord b' h) = face (ord (sb_book sb) h) \<and> id_of (ord b' h) = id_of (ord (sb_book sb) h) \<and>
       os_order_id_lo (ord b' h) = os_order_id_lo (ord (sb_book sb) h)"
  shows "shadow_rel (sb\<lparr>sb_book := b'\<rparr>) Q' F'" "view_of (sb\<lparr>sb_book := b'\<rparr>) = view_of sb"
proof -
  note rel = assms(1) [unfolded shadow_rel_def indexed_def prices_regular_def]
  have idx: "sb_order_map sb j = Some x \<longleftrightarrow> x \<in> queued Q \<and> id_of (ord (sb_book sb) x) = j" for j x using rel by blast
  have "os_price (ord b' x) = os_price (ord (sb_book sb) x)" if "x \<in> queued Q" for x using face_side(2) assms(5) that by blast
  then have "prices_regular b' Q'" using rel assms(3,4) by (simp add: prices_regular_def)
  moreover have "sb_order_map sb j = Some x \<longleftrightarrow> x \<in> queued Q' \<and> id_of (ord b' x) = j" for j x
    unfolding assms(3) using idx assms(5) [of x] by (metis (lifting))
  ultimately show "shadow_rel (sb\<lparr>sb_book := b'\<rparr>) Q' F'" using assms(2,3,5) rel by (simp add: shadow_rel_def indexed_def)
  show "view_of (sb\<lparr>sb_book := b'\<rparr>) = view_of sb"
  proof
    fix j
    have "face (ord b' x) = face (ord (sb_book sb) x)" if "sb_order_map sb j = Some x" for x using assms(5) idx that by blast
    then show "view_of (sb\<lparr>sb_book := b'\<rparr>) j = view_of sb j" by (cases "sb_order_map sb j") (simp_all add: view_of_def)
  qed
qed

lemma shadow_recenter_ok:
  assumes "shadow_rel sb Q F" "resting_qty (sb_book sb) Q \<le> i64_max"
  shows "\<exists>sb' Q'. shadow_recenter sb = Some sb' \<and> shadow_rel sb' Q' F \<and> view_of sb' = view_of sb"
proof -
  have g: "good (sb_book sb) Q F" "prices_regular (sb_book sb) Q" using assms(1) by (simp_all add: shadow_rel_def)
  obtain b' Q' where r: "maybe_recenter (sb_book sb) = Some b'" "good b' Q' F" "queued Q' = queued Q"
    "\<forall>h. essence (ord b' h) = essence (ord (sb_book sb) h)" "ob_config b' = ob_config (sb_book sb)"
    using maybe_recenter_ok [OF g(1) assms(2) g(2)] by blast
  from same_orders [OF assms(1) r(2,3,5)] essence_face r(4)
  have "shadow_rel (sb\<lparr>sb_book := b'\<rparr>) Q' F" "view_of (sb\<lparr>sb_book := b'\<rparr>) = view_of sb" by blast+
  then show ?thesis using r(1) by (auto simp: shadow_recenter_def)
qed

lemma reduce_in_shadow:
  assumes "shadow_rel sb Q F" "sb_order_map sb k = Some h" "wf b' Q F" "book_sig (sb_book sb) b'"
    "ord b' h = (ord (sb_book sb) h)\<lparr>os_remaining_qty := r\<rparr>" "\<And>x. x \<noteq> h \<Longrightarrow> ord b' x = ord (sb_book sb) x"
  shows "shadow_rel (sb\<lparr>sb_seq := n, sb_timestamp_ns := t, sb_book := b'\<rparr>) Q F"
    "view_of (sb\<lparr>sb_seq := n, sb_timestamp_ns := t, sb_book := b'\<rparr>) = (view_of sb)(k \<mapsto> (os_side (ord (sb_book sb) h), os_price (ord (sb_book sb) h), r))"
proof -
  note rel = assms(1) [unfolded shadow_rel_def indexed_def good_def prices_regular_def]
  have idx: "sb_order_map sb j = Some x \<longleftrightarrow> x \<in> queued Q \<and> id_of (ord (sb_book sb) x) = j" for j x using rel by blast
  have same: "os_price (ord b' x) = os_price (ord (sb_book sb) x)" "on_side sd (ord b' x) = on_side sd (ord (sb_book sb) x)"
    "id_of (ord b' x) = id_of (ord (sb_book sb) x)" "os_order_id_lo (ord b' x) = os_order_id_lo (ord (sb_book sb) x)" for x sd
    by (cases "x = h"; cases sd; simp add: assms(5,6) on_side_def is_buy_def id_of_def)+
  have "uncrossed b' Q = uncrossed (sb_book sb) Q" by (simp add: uncrossed_def resting_def same)
  then show "shadow_rel (sb\<lparr>sb_seq := n, sb_timestamp_ns := t, sb_book := b'\<rparr>) Q F"
    using rel assms(3,4) by (simp add: shadow_rel_def good_def prices_regular_def indexed_def same book_sig_def)
  have h: "id_of (ord (sb_book sb) h) = k" using idx assms(2) by blast
  show "view_of (sb\<lparr>sb_seq := n, sb_timestamp_ns := t, sb_book := b'\<rparr>) = (view_of sb)(k \<mapsto> (os_side (ord (sb_book sb) h), os_price (ord (sb_book sb) h), r))"
  proof
    fix j
    have "ord b' x = ord (sb_book sb) x" if "j \<noteq> k" "sb_order_map sb j = Some x" for x using assms(6) [of x] idx [of j x] h that by metis
    then show "view_of (sb\<lparr>sb_seq := n, sb_timestamp_ns := t, sb_book := b'\<rparr>) j =
        ((view_of sb)(k \<mapsto> (os_side (ord (sb_book sb) h), os_price (ord (sb_book sb) h), r))) j"
      using assms(2,5) by (cases "sb_order_map sb j") (auto simp: view_of_def face_def)
  qed
qed

lemma insert_in_shadow:
  assumes "shadow_rel sb Q F" "sb_order_map sb k = None" "wf b' Q' F'" "queued Q' = insert h (queued Q)" "h \<notin> queued Q" "book_sig (sb_book sb) b'"
    "\<forall>x\<in>queued Q. strip (ord b' x) = strip (ord (sb_book sb) x)" "fresh_order (ord b' h) price qty sd 0 uid False hi lo" "k = id_key hi lo" "lo < 2 ^ 64"
    "regular_mid price (bc_tick_size (ob_config (sb_book sb)))"
    "\<And>x. x \<in> resting (sb_book sb) Q (if sd = Buy then Sell else Buy) \<Longrightarrow> (if sd = Buy then price < os_price (ord (sb_book sb) x) else os_price (ord (sb_book sb) x) < price)"
  shows "shadow_rel (sb\<lparr>sb_seq := n, sb_timestamp_ns := t, sb_book := b', sb_order_map := (sb_order_map sb)(k \<mapsto> h)\<rparr>) Q' F'"
    "view_of (sb\<lparr>sb_seq := n, sb_timestamp_ns := t, sb_book := b', sb_order_map := (sb_order_map sb)(k \<mapsto> h)\<rparr>) = (view_of sb)(k \<mapsto> (side_u8 sd, price, qty))"
proof -
  note rel = assms(1) [unfolded shadow_rel_def indexed_def good_def prices_regular_def]
  have idx: "sb_order_map sb j = Some x \<longleftrightarrow> x \<in> queued Q \<and> id_of (ord (sb_book sb) x) = j" for j x using rel by blast
  have st: "face (ord b' x) = face (ord (sb_book sb) x)" "id_of (ord b' x) = id_of (ord (sb_book sb) x)"
    "os_order_id_lo (ord b' x) = os_order_id_lo (ord (sb_book sb) x)" if "x \<in> queued Q" for x using strip_face assms(7) that by blast+
  have new: "face (ord b' h) = (side_u8 sd, price, qty)" "id_of (ord b' h) = k" "os_order_id_lo (ord b' h) = lo" "os_price (ord b' h) = price"
    using assms(8,9) by (simp_all add: fresh_order_def face_def id_of_def)
  have hs: "on_side s (ord b' h) \<longleftrightarrow> s = sd" for s using assms(8) by (cases s; cases sd) (simp_all add: fresh_order_def on_side_def is_buy_def)
  have old: "os_price (ord b' x) = os_price (ord (sb_book sb) x)" "on_side s (ord b' x) = on_side s (ord (sb_book sb) x)" if "x \<in> queued Q" for x s
    using face_side(2) [OF st(1) [OF that]] face_side(1) [OF st(1) [OF that], of s] by simp_all
  have "resting b' Q' s = resting (sb_book sb) Q s \<union> (if s = sd then {h} else {})" for s using assms(4) hs old(2) by (auto simp: resting_def)
  moreover have "resting (sb_book sb) Q s \<subseteq> queued Q" for s by (auto simp: resting_def)
  ultimately have "uncrossed b' Q'" using rel assms(12) old(1) new(4) unfolding uncrossed_def by (cases sd) (auto simp: subset_iff)
  then have "good b' Q' F'" using rel assms(3,6) by (simp add: good_def book_sig_def)
  moreover have "prices_regular b' Q'" using rel assms(4,6,11) old(1) new(4) by (simp add: prices_regular_def book_sig_def)
  moreover have "((sb_order_map sb)(k \<mapsto> h)) j = Some x \<longleftrightarrow> x \<in> queued Q' \<and> id_of (ord b' x) = j" for j x
  proof (cases "x = h")
    case True
    have "sb_order_map sb j \<noteq> Some h" using idx assms(5) by blast
    then show ?thesis using True new(2) assms(4) by auto
  next
    case False
    have "sb_order_map sb k \<noteq> Some x" using assms(2) by simp
    then have "((sb_order_map sb)(k \<mapsto> h)) j = Some x \<longleftrightarrow> sb_order_map sb j = Some x" using False by auto
    then show ?thesis using idx [of j x] st(2) [of x] False unfolding assms(4) by (metis insertE insertCI)
  qed
  ultimately show "shadow_rel (sb\<lparr>sb_seq := n, sb_timestamp_ns := t, sb_book := b', sb_order_map := (sb_order_map sb)(k \<mapsto> h)\<rparr>) Q' F'"
    using st(3) rel assms(4,10) new(3) by (simp add: shadow_rel_def indexed_def)
  show "view_of (sb\<lparr>sb_seq := n, sb_timestamp_ns := t, sb_book := b', sb_order_map := (sb_order_map sb)(k \<mapsto> h)\<rparr>) = (view_of sb)(k \<mapsto> (side_u8 sd, price, qty))"
  proof
    fix j
    have "face (ord b' x) = face (ord (sb_book sb) x)" if "sb_order_map sb j = Some x" for x using st(1) idx that by blast
    then show "view_of (sb\<lparr>sb_seq := n, sb_timestamp_ns := t, sb_book := b', sb_order_map := (sb_order_map sb)(k \<mapsto> h)\<rparr>) j =
        ((view_of sb)(k \<mapsto> (side_u8 sd, price, qty))) j"
      using new(1) by (cases "sb_order_map sb j") (auto simp: view_of_def)
  qed
qed


text \<open>What the events of a matching engine satisfy: an inserted order has a fresh id, a regular price that does not cross, and room.\<close>

fun md_admissible :: "md_event \<Rightarrow> shadow_book \<Rightarrow> queues \<Rightarrow> u32 list \<Rightarrow> bool" where
  "md_admissible (MdInserted price qty sd user_id ts_ns hi lo) sb Q F \<longleftrightarrow>
     (let b = sb_book sb; s = shadow_side sd in
      sb_order_map sb (id_key hi lo) = None \<and> lo < 2 ^ 64 \<and> 0 < qty \<and> regular_mid price (bc_tick_size (ob_config b)) \<and>
      bc_tick_size (ob_config b) dvd price \<and> (F \<noteq> [] \<or> bump_next (ob_orders b) < length (slots (ob_orders b))) \<and>
      resting_qty b Q + qty \<le> i64_max \<and> (ur_contains (ob_users b) user_id \<or> users_room (ob_users b)) \<and>
      (\<forall>x\<in>resting b Q (if s = Buy then Sell else Buy). if s = Buy then price < os_price (ord b x) else os_price (ord b x) < price))"
| "md_admissible (MdCancelled hi lo ts_ns) sb Q F \<longleftrightarrow> lo < 2 ^ 64"
| "md_admissible (MdFilled hi lo qty ts_ns) sb Q F \<longleftrightarrow> lo < 2 ^ 64 \<and> 0 < qty \<and> qty \<le> i64_max"

lemma indexed_holds:
  assumes "shadow_rel sb Q F" "sb_order_map sb (id_key hi lo) = Some h" "lo < 2 ^ 64"
  shows "holds_order (sb_book sb) Q h (os_user_id (ord (sb_book sb) h)) hi lo" "slab_get (ob_orders (sb_book sb)) h = Some (ord (sb_book sb) h)"
    "\<exists>t. h \<in> set (Q t)" "0 < os_remaining_qty (ord (sb_book sb) h)" "os_remaining_qty (ord (sb_book sb) h) \<le> i64_max"
proof -
  let ?b = "sb_book sb"
  have idx: "h \<in> queued Q" "id_of (ord ?b h) = id_key hi lo" "os_order_id_lo (ord ?b h) < 2 ^ 64" and w: "wf ?b Q F"
    using assms(1,2) by (auto simp: shadow_rel_def indexed_def good_def)
  then show "holds_order ?b Q h (os_user_id (ord ?b h)) hi lo" using id_key_inj [of "os_order_id_hi (ord ?b h)"] assms(3) by (simp add: holds_order_def id_of_def)
  show t: "\<exists>t. h \<in> set (Q t)" using queued_elim [OF idx(1)] .
  then obtain t where t: "h \<in> set (Q t)" by blast
  show "slab_get (ob_orders ?b) h = Some (ord ?b h)" using queue_set_facts(1) [OF wfD(1) [OF w], of t] t by (auto simp: slab_get_def index_of_Some)
  show "0 < os_remaining_qty (ord ?b h)" using wfD(2) [OF w] idx(1) by (simp add: positive_def)
  show "os_remaining_qty (ord ?b h) \<le> i64_max" using rem_bounds(2) [OF wfD(1) [OF w] t] by (simp add: rem_def)
qed

lemma cancel_in_shadow:
  assumes "shadow_rel sb Q F" "sb_order_map sb (id_key hi lo) = Some h" "lo < 2 ^ 64"
  shows "\<exists>b' Q' F'. cancel_order_checked (sb_book sb) h (os_user_id (ord (sb_book sb) h)) hi lo = Some (True, b') \<and>
    shadow_rel ((stamped_at sb ts)\<lparr>sb_book := b', sb_order_map := (sb_order_map sb)(id_key hi lo := None)\<rparr>) Q' F' \<and>
    view_of ((stamped_at sb ts)\<lparr>sb_book := b', sb_order_map := (sb_order_map sb)(id_key hi lo := None)\<rparr>) = (view_of sb)(id_key hi lo := None)"
proof -
  note i = indexed_holds [OF assms]
  have w: "wf (sb_book sb) Q F" using assms(1) by (simp add: shadow_rel_def good_def)
  obtain t where t: "h \<in> set (Q t)" using i(3) by blast
  obtain b' where c: "cancel_order_checked (sb_book sb) h (os_user_id (ord (sb_book sb) h)) hi lo = Some (True, b')" "wf b' (Q(t := remove1 h (Q t))) (h # F)"
    "\<forall>x\<in>queued Q - {h}. strip (ord b' x) = strip (ord (sb_book sb) x)" "book_sig (sb_book sb) b'"
    using cancel_order_checked_ok [OF w, of h "os_user_id (ord (sb_book sb) h)" hi lo] i(1) t by blast
  have st: "stays (sb_book sb) b' (queued Q - {h})" unfolding stays_def using strip_face c(3) by blast
  from drop_order [OF assms(1,2) c(2) queued_remove [OF wfD(1) [OF w] t] st c(4), where n = "u64_add (sb_seq sb) 1" and t = ts] c(1)
  show ?thesis by (auto simp: stamped_at_def)
qed

lemma fill_in_shadow:
  assumes "shadow_rel sb Q F" "sb_order_map sb (id_key hi lo) = Some h" "lo < 2 ^ 64" "0 < r" "r < os_remaining_qty (ord (sb_book sb) h)"
  shows "\<exists>b'. modify_order_qty_down (sb_book sb) h r (os_user_id (ord (sb_book sb) h)) hi lo = Some (True, b') \<and>
    shadow_rel ((stamped_at sb ts)\<lparr>sb_book := b'\<rparr>) Q F \<and>
    view_of ((stamped_at sb ts)\<lparr>sb_book := b'\<rparr>) = (view_of sb)(id_key hi lo \<mapsto> (os_side (ord (sb_book sb) h), os_price (ord (sb_book sb) h), r))"
proof -
  note i = indexed_holds [OF assms(1-3)]
  have w: "wf (sb_book sb) Q F" using assms(1) by (simp add: shadow_rel_def good_def)
  obtain t where t: "h \<in> set (Q t)" using i(3) by blast
  define b' where "b' = reduce_order (sb_book sb) h t (os_remaining_qty (ord (sb_book sb) h) - r)"
  note m = modify_qty_down_ok [OF w i(1) t assms(4)] and f = reduce_order_facts [OF wfD(1) [OF w] t]
  have o: "ord b' h = (ord (sb_book sb) h)\<lparr>os_remaining_qty := r\<rparr>" "x \<noteq> h \<Longrightarrow> ord b' x = ord (sb_book sb) x" for x by (simp_all add: b'_def f(1))
  have "wf b' Q F" "book_sig (sb_book sb) b'" using m(2) assms(5) f(2) by (simp_all add: b'_def)
  from reduce_in_shadow [OF assms(1,2) this o, where n = "u64_add (sb_seq sb) 1" and t = ts] m(1) assms(5)
  show ?thesis by (intro exI [of _ b']) (simp add: stamped_at_def b'_def)
qed

lemma refinesI: "shadow_apply ev sb = Some sb' \<Longrightarrow> shadow_rel sb' Q' F' \<Longrightarrow> view_of sb' = view_apply ev (view_of sb) \<Longrightarrow>
  \<exists>sb' Q' F'. shadow_apply ev sb = Some sb' \<and> shadow_rel sb' Q' F' \<and> view_of sb' = view_apply ev (view_of sb)"
  by blast

lemma shadow_step:
  assumes "shadow_rel sb Q F" "md_admissible ev sb Q F"
  shows "\<exists>sb' Q' F'. shadow_apply ev sb = Some sb' \<and> shadow_rel sb' Q' F' \<and> view_of sb' = view_apply ev (view_of sb)"
proof (cases ev)
  case (MdCancelled hi lo ts)
  then have lo: "lo < 2 ^ 64" using assms(2) by simp
  show ?thesis
  proof (cases "sb_order_map sb (id_key hi lo)")
    case None
    then have "(view_of sb)(id_key hi lo := None) = view_of sb" by (simp add: fun_eq_iff view_of_def)
    then show ?thesis using None MdCancelled assms(1) by (auto simp: apply_cancel_by_order_id_def)
  next
    case (Some h)
    obtain b' Q' F' where c: "cancel_order_checked (sb_book sb) h (os_user_id (ord (sb_book sb) h)) hi lo = Some (True, b')"
      "shadow_rel ((stamped_at sb ts)\<lparr>sb_book := b', sb_order_map := (sb_order_map sb)(id_key hi lo := None)\<rparr>) Q' F'"
      "view_of ((stamped_at sb ts)\<lparr>sb_book := b', sb_order_map := (sb_order_map sb)(id_key hi lo := None)\<rparr>) = (view_of sb)(id_key hi lo := None)"
      using cancel_in_shadow [OF assms(1) Some lo, of ts] by blast
    show ?thesis by (rule refinesI [OF _ c(2)]) (use MdCancelled Some indexed_holds(2) [OF assms(1) Some lo] c in \<open>simp_all add: apply_cancel_by_order_id_def\<close>)
  qed
next
  case (MdFilled hi lo qty ts)
  then have a: "lo < 2 ^ 64" "0 < qty" "qty \<le> i64_max" using assms(2) by simp_all
  show ?thesis
  proof (cases "sb_order_map sb (id_key hi lo)")
    case None
    then show ?thesis using MdFilled assms(1) by (auto simp: apply_fill_by_order_id_def view_of_def)
  next
    case (Some h)
    let ?s = "ord (sb_book sb) h"
    note i = indexed_holds [OF assms(1) Some a(1)]
    have sub: "i64_sub (os_remaining_qty ?s) qty = os_remaining_qty ?s - qty"
      by (rule i64_sub_id) (use i(4,5) a(2,3) in \<open>auto simp: in_i64_iff i64_max_def\<close>)
    have v: "view_of sb (id_key hi lo) = Some (os_side ?s, os_price ?s, os_remaining_qty ?s)" by (simp add: view_of_def Some face_def)
    show ?thesis
    proof (cases "os_remaining_qty ?s \<le> qty")
      case True
      obtain b' Q' F' where c: "cancel_order_checked (sb_book sb) h (os_user_id ?s) hi lo = Some (True, b')"
        "shadow_rel ((stamped_at sb ts)\<lparr>sb_book := b', sb_order_map := (sb_order_map sb)(id_key hi lo := None)\<rparr>) Q' F'"
        "view_of ((stamped_at sb ts)\<lparr>sb_book := b', sb_order_map := (sb_order_map sb)(id_key hi lo := None)\<rparr>) = (view_of sb)(id_key hi lo := None)"
        using cancel_in_shadow [OF assms(1) Some a(1), of ts] by blast
      show ?thesis by (rule refinesI [OF _ c(2)]) (use MdFilled Some i(2) sub True v c in \<open>simp_all add: apply_fill_by_order_id_def\<close>)
    next
      case False
      then have r: "0 < os_remaining_qty ?s - qty" "os_remaining_qty ?s - qty < os_remaining_qty ?s" using a(2) by simp_all
      obtain b' where c: "modify_order_qty_down (sb_book sb) h (os_remaining_qty ?s - qty) (os_user_id ?s) hi lo = Some (True, b')"
        "shadow_rel ((stamped_at sb ts)\<lparr>sb_book := b'\<rparr>) Q F"
        "view_of ((stamped_at sb ts)\<lparr>sb_book := b'\<rparr>) = (view_of sb)(id_key hi lo \<mapsto> (os_side ?s, os_price ?s, os_remaining_qty ?s - qty))"
        using fill_in_shadow [OF assms(1) Some a(1) r, of ts] by blast
      show ?thesis by (rule refinesI [OF _ c(2)]) (use MdFilled Some i(2) sub False v c in \<open>simp_all add: apply_fill_by_order_id_def\<close>)
    qed
  qed
next
  case (MdInserted price qty sd user_id ts hi lo)
  let ?b = "sb_book sb" and ?s = "shadow_side sd"
  have a: "sb_order_map sb (id_key hi lo) = None" "lo < 2 ^ 64" "0 < qty" "regular_mid price (bc_tick_size (ob_config ?b))"
    "bc_tick_size (ob_config ?b) dvd price" "F \<noteq> [] \<or> bump_next (ob_orders ?b) < length (slots (ob_orders ?b))" "resting_qty ?b Q + qty \<le> i64_max"
    "ur_contains (ob_users ?b) user_id \<or> users_room (ob_users ?b)"
    "\<And>x. x \<in> resting ?b Q (if ?s = Buy then Sell else Buy) \<Longrightarrow> if ?s = Buy then price < os_price (ord ?b x) else os_price (ord ?b x) < price"
    using assms(2) unfolding MdInserted by (auto simp: Let_def)
  have w: "wf ?b Q F" "cp_tick_size (ob_compression ?b) = bc_tick_size (ob_config ?b)" using assms(1) by (simp_all add: shadow_rel_def good_def)
  let ?t = "slot_index (ob_compression ?b) price"
  have pr: "price_range price" "cp_tick_size (ob_compression ?b) dvd price" using a(4,5) w(2) by (auto simp: regular_mid_def price_range_def i64_max_def)
  have sum: "qty_sum (slots (ob_orders ?b)) (Q ?t) + qty \<le> i64_max" using level_le_resting [OF wfD(1) [OF w(1)], of ?t] a(7) by linarith
  obtain h b' F' where ins: "insert_resting ?b price qty ?s 0 user_id False ts hi lo = Some (h, b')" "wf b' (Q(?t := Q ?t @ [h])) F'" "h \<notin> queued Q"
    "fresh_order (ord b' h) price qty ?s 0 user_id False hi lo" "\<forall>x\<in>queued Q. strip (ord b' x) = strip (ord ?b x)" "book_sig ?b b'"
    using insert_resting_ok [OF w(1) a(6) pr a(3) sum a(8)] by blast
  let ?sb = "(stamped_at sb ts)\<lparr>sb_book := b', sb_order_map := (sb_order_map sb)(id_key hi lo \<mapsto> h)\<rparr>" and ?Q = "Q(?t := Q ?t @ [h])"
  have rel: "shadow_rel ?sb ?Q F'" "view_of ?sb = (view_of sb)(id_key hi lo \<mapsto> (side_u8 ?s, price, qty))"
    using insert_in_shadow [OF assms(1) a(1) ins(2) queued_append ins(3,6,5,4) refl a(2,4,9), where n = "u64_add (sb_seq sb) 1" and t = ts] by (simp_all add: stamped_at_def)
  have fin: "finite (queued Q)" using set_all_orders [OF wfD(1) [OF w(1)]] by (metis finite_set)
  have "rem b' x = rem ?b x" if "x \<in> queued Q" for x unfolding rem_def by (rule strip_eqD(2) [OF bspec [OF ins(5) that]])
  then have "resting_qty b' ?Q = resting_qty ?b Q + qty" using ins(3,4) fin unfolding resting_qty_def queued_append by (simp add: rem_def fresh_order_def)
  then have "resting_qty (sb_book ?sb) ?Q \<le> i64_max" using a(7) by simp
  from shadow_recenter_ok [OF rel(1) this] obtain sb' Q' where c: "shadow_recenter ?sb = Some sb'" "shadow_rel sb' Q' F'" "view_of sb' = view_of ?sb" by blast
  have "apply_insert_by_id sb price qty sd user_id ts hi lo = Some (h, ?sb)" by (simp add: apply_insert_by_id_def ins(1))
  then show ?thesis by (intro refinesI [OF _ c(2)]) (simp_all add: MdInserted c(1,3) rel(2))
qed

text \<open>C28: the shadow book follows the events. Seen as a map from order ids to side, price and remaining quantity, the shadow book does
  exactly what an event says: an insertion adds the order, a cancel removes it, a fill takes its quantity off and removes the order
  when nothing is left, and events of unknown orders change nothing; recentering the price map is invisible. No step panics, and the id
  map keeps naming exactly the resting orders.\<close>

theorem shadow_follows:
  assumes "shadow_rel sb Q F" "md_admissible ev sb Q F"
  shows "\<exists>sb' Q' F'. shadow_apply ev sb = Some sb' \<and> shadow_rel sb' Q' F' \<and> view_of sb' = view_apply ev (view_of sb)"
  by (rule shadow_step [OF assms])

text \<open>A fresh shadow book around 5000, and one with a bid of 10 at 5000.\<close>

lemma demo_shadow:
  "\<exists>sb. shadow_new \<lparr>bc_symbol_id = 1, bc_tick_size = 1, bc_lot_size = 1\<rparr> 16 5000 = Some sb \<and> shadow_rel sb (\<lambda>t. []) [] \<and>
    md_admissible (MdInserted 5000 10 0 7 1 0 42) sb (\<lambda>t. []) [] \<and> view_of sb = (\<lambda>k. None)"
proof -
  obtain b where b: "wf b (\<lambda>t. []) []" "cp_tick_size (ob_compression b) = 1" "bump_next (ob_orders b) = 0" "length (slots (ob_orders b)) = 16"
    "users_room (ob_users b)" "orderbook_new \<lparr>bc_symbol_id = 1, bc_tick_size = 1, bc_lot_size = 1\<rparr> 16 5000 = Some b"
    "ob_config b = \<lparr>bc_symbol_id = 1, bc_tick_size = 1, bc_lot_size = 1\<rparr>" using fresh_book by blast
  have q: "queued (\<lambda>t. []) = {}" by (simp add: queued_def)
  let ?sb = "\<lparr>sb_book = b, sb_symbol_id = 1, sb_seq = 0, sb_timestamp_ns = 0, sb_order_map = (\<lambda>k. None)\<rparr>"
  have "shadow_new \<lparr>bc_symbol_id = 1, bc_tick_size = 1, bc_lot_size = 1\<rparr> 16 5000 = Some ?sb" using b(6) by (simp add: shadow_new_def)
  moreover have "shadow_rel ?sb (\<lambda>t. []) []" using b(1,2,7) by (simp add: shadow_rel_def good_def prices_regular_def indexed_def uncrossed_def resting_def q)
  moreover have "md_admissible (MdInserted 5000 10 0 7 1 0 42) ?sb (\<lambda>t. []) []"
    using b(3-5,7) by (simp add: shadow_side_def regular_mid_def resting_qty_def resting_def q i64_max_def)
  ultimately show ?thesis by (intro exI [of _ ?sb]) (simp add: view_of_def fun_eq_iff)
qed

theorem shadow_follows_witness:
  "\<exists>sb sb'. shadow_new \<lparr>bc_symbol_id = 1, bc_tick_size = 1, bc_lot_size = 1\<rparr> 16 5000 = Some sb \<and>
    shadow_apply (MdInserted 5000 10 0 7 1 0 42) sb = Some sb' \<and> view_of sb' = [42 \<mapsto> (0, 5000, 10)]"
proof -
  obtain sb where sb: "shadow_new \<lparr>bc_symbol_id = 1, bc_tick_size = 1, bc_lot_size = 1\<rparr> 16 5000 = Some sb" "shadow_rel sb (\<lambda>t. []) []"
    "md_admissible (MdInserted 5000 10 0 7 1 0 42) sb (\<lambda>t. []) []" "view_of sb = (\<lambda>k. None)" using demo_shadow by blast
  then show ?thesis using shadow_follows [OF sb(2,3)] by (auto simp: shadow_side_def id_key_def)
qed

lemma demo_depth:
  "\<exists>(sb :: shadow_book) Q F. wf (sb_book sb) Q F \<and> prices (sb_book sb) Q Buy = {5000} \<and> level_of (sb_book sb) Q Buy 5000 = \<lparr>l2_price = 5000, l2_qty = 10, l2_count = 1\<rparr>"
proof -
  obtain sb0 where sb0: "shadow_rel sb0 (\<lambda>t. []) []" "md_admissible (MdInserted 5000 10 0 7 1 0 42) sb0 (\<lambda>t. []) []" "view_of sb0 = (\<lambda>k. None)"
    using demo_shadow by blast
  obtain sb Q F where rel: "shadow_rel sb Q F" and v: "view_of sb = [42 \<mapsto> (0, 5000, 10)]"
    using shadow_step [OF sb0(1,2)] sb0(3) by (auto simp: shadow_side_def id_key_def)
  have idx: "sb_order_map sb k = Some h \<longleftrightarrow> h \<in> queued Q \<and> id_of (ord (sb_book sb) h) = k" for k h using rel by (simp add: shadow_rel_def indexed_def)
  obtain h where h: "sb_order_map sb 42 = Some h" "face (ord (sb_book sb) h) = (0, 5000, 10)" using fun_cong [OF v, of 42] by (auto simp: view_of_def)
  have "x = h" if "x \<in> queued Q" for x
  proof -
    have "sb_order_map sb (id_of (ord (sb_book sb) x)) = Some x" using idx that by blast
    then have "id_of (ord (sb_book sb) x) = 42" using fun_cong [OF v, of "id_of (ord (sb_book sb) x)"] by (auto simp: view_of_def split: if_splits)
    then show ?thesis using idx [of 42 x] that h(1) by simp
  qed
  then have q: "queued Q = {h}" using idx h(1) by blast
  have "on_side Buy (ord (sb_book sb) h)" "os_price (ord (sb_book sb) h) = 5000" "os_remaining_qty (ord (sb_book sb) h) = 10"
    using h(2) by (simp_all add: face_def on_side_def is_buy_def)
  then have "resting (sb_book sb) Q Buy = {h}" "prices (sb_book sb) Q Buy = {5000}" "orders_at (sb_book sb) Q Buy 5000 = {h}" "rem (sb_book sb) h = 10"
    by (auto simp: resting_def prices_def orders_at_def rem_def q)
  moreover have "wf (sb_book sb) Q F" using rel by (simp add: shadow_rel_def good_def)
  ultimately show ?thesis by (intro exI [of _ sb] exI [of _ Q] exI [of _ F]) (simp add: level_of_def)
qed


end
