(* ===== verification/Gateway_Ids.thy ===== *)
theory Gateway_Ids
  imports Le_Bytes
begin

text \<open>
  The identities the gateway hands out: order ids in their binary, wire and hexadecimal forms (\<open>rsx-gateway/src/order_id.rs\<close>) and the map
  from client order ids to order ids behind idempotent retries (\<open>rsx-gateway/src/client_ids.rs\<close>). The minting of an id is the \<open>uuid\<close>
  package's: a minted id is an argument of the operations that use one.
\<close>

section \<open>Order ids\<close>

type_synonym order_id = "u8 list"
type_synonym cid = "u8 list"

definition HEX_DIGITS :: string where
  "HEX_DIGITS = ''0123456789abcdef''"

definition split_order_id :: "order_id \<Rightarrow> u64 \<times> u64" where
  "split_order_id oid = (let v = from_le_bytes (rev oid) in (v div 2 ^ 64, v mod 2 ^ 64))"

definition join_order_id :: "u64 \<Rightarrow> u64 \<Rightarrow> order_id" where
  "join_order_id hi lo = rev (to_le_bytes 16 (hi * 2 ^ 64 + lo))"

definition order_id_to_hex :: "order_id \<Rightarrow> string" where
  "order_id_to_hex oid = concat (map (\<lambda>c. [HEX_DIGITS ! (c div 16), HEX_DIGITS ! (c mod 16)]) oid)"

text \<open>\<open>char::to_digit(16)\<close>.\<close>

definition hex_digit :: "char \<Rightarrow> nat option" where
  "hex_digit c =
     (let n = of_char c :: nat in
      if 48 \<le> n \<and> n \<le> 57 then Some (n - 48)
      else if 97 \<le> n \<and> n \<le> 102 then Some (n - 87)
      else if 65 \<le> n \<and> n \<le> 70 then Some (n - 55)
      else None)"

fun hex_bytes :: "string \<Rightarrow> u8 list option" where
  "hex_bytes (h # l # cs) = do {
     high \<leftarrow> hex_digit h;
     low \<leftarrow> hex_digit l;
     rest \<leftarrow> hex_bytes cs;
     Some ((16 * high + low) # rest)
   }"
| "hex_bytes _ = Some []"

definition hex_to_order_id :: "string \<Rightarrow> order_id option" where
  "hex_to_order_id hex = (if length hex \<noteq> 32 then None else hex_bytes hex)"

definition order_id_timestamp_ms :: "order_id \<Rightarrow> u64" where
  "order_id_timestamp_ms oid = from_le_bytes (rev (replicate 2 0 @ take 6 oid))"

definition order_id_ok :: "order_id \<Rightarrow> bool" where
  "order_id_ok oid \<longleftrightarrow> length oid = 16 \<and> bytes oid"

lemma bytes_rev [simp]: "bytes (rev cs) \<longleftrightarrow> bytes cs"
  by (simp add: bytes_def)

lemma join_split: "order_id_ok oid \<Longrightarrow> (case split_order_id oid of (hi, lo) \<Rightarrow> join_order_id hi lo) = oid"
  using to_from_le [of "rev oid"] by (simp add: order_id_ok_def split_order_id_def join_order_id_def Let_def div_mult_mod_eq)

lemma join_order_id_ok [simp]: "order_id_ok (join_order_id hi lo)"
  by (simp add: order_id_ok_def join_order_id_def)

lemma split_join:
  assumes "hi < 2 ^ 64" "lo < 2 ^ 64"
  shows "split_order_id (join_order_id hi lo) = (hi, lo)"
proof -
  have "hi * 2 ^ 64 + lo < 256 ^ 16" using assms by simp
  then show ?thesis using assms by (simp add: split_order_id_def join_order_id_def Let_def from_to_le)
qed

lemma split_bounds: "order_id_ok oid \<Longrightarrow> fst (split_order_id oid) < 2 ^ 64 \<and> snd (split_order_id oid) < 2 ^ 64"
  using from_le_bound [of "rev oid"] by (simp add: order_id_ok_def split_order_id_def Let_def less_mult_imp_div_less)

lemma hex_digit_nth: "n < 16 \<Longrightarrow> hex_digit (HEX_DIGITS ! n) = Some n"
proof -
  have "list_all (\<lambda>n. hex_digit (HEX_DIGITS ! n) = Some n) [0..<16]" by code_simp
  then show "n < 16 \<Longrightarrow> ?thesis" by (simp add: list_all_iff)
qed

lemma hex_bytes_of: "bytes oid \<Longrightarrow> hex_bytes (order_id_to_hex oid) = Some oid"
proof (induction oid)
  case (Cons c oid)
  then have "c div 16 < 16" by (simp add: less_mult_imp_div_less)
  then show ?case using Cons hex_digit_nth [of "c div 16"] hex_digit_nth [of "c mod 16"] by (simp add: order_id_to_hex_def)
qed (simp add: order_id_to_hex_def)

lemma length_hex: "length (order_id_to_hex oid) = 2 * length oid"
  by (induction oid) (simp_all add: order_id_to_hex_def)

lemma hex_roundtrip: "order_id_ok oid \<Longrightarrow> hex_to_order_id (order_id_to_hex oid) = Some oid"
  by (simp add: hex_to_order_id_def order_id_ok_def length_hex hex_bytes_of)

section \<open>Client order ids\<close>

definition WINDOW_NS :: u64 where
  "WINDOW_NS = 3600000000000"

type_synonym cid_key = "u32 \<times> cid"

record binding =
  bn_order_id :: order_id
  bn_bound_ns :: u64

record client_order_ids =
  ci_bindings :: "cid_key \<rightharpoonup> binding"
  ci_inserted :: "(u64 \<times> cid_key) list"

definition client_ids_default :: client_order_ids where
  "client_ids_default = \<lparr>ci_bindings = (\<lambda>k. None), ci_inserted = []\<rparr>"

definition ci_get :: "client_order_ids \<Rightarrow> u32 \<Rightarrow> cid \<Rightarrow> order_id option" where
  "ci_get c user_id k = map_option bn_order_id (ci_bindings c (user_id, k))"

definition ci_insert :: "client_order_ids \<Rightarrow> u32 \<Rightarrow> cid \<Rightarrow> order_id \<Rightarrow> u64 \<Rightarrow> client_order_ids" where
  "ci_insert c user_id k oid now_ns =
     c\<lparr>ci_bindings := (ci_bindings c)((user_id, k) \<mapsto> \<lparr>bn_order_id = oid, bn_bound_ns = now_ns\<rparr>),
       ci_inserted := ci_inserted c @ [(now_ns, (user_id, k))]\<rparr>"

definition ci_release :: "client_order_ids \<Rightarrow> u32 \<Rightarrow> cid \<Rightarrow> order_id \<Rightarrow> client_order_ids" where
  "ci_release c user_id k oid =
     (case ci_bindings c (user_id, k) of
        Some b \<Rightarrow> if bn_order_id b = oid then c\<lparr>ci_bindings := (ci_bindings c)((user_id, k) := None)\<rparr> else c
      | None \<Rightarrow> c)"

fun expire_loop :: "u64 \<Rightarrow> (cid_key \<rightharpoonup> binding) \<Rightarrow> (u64 \<times> cid_key) list \<Rightarrow> client_order_ids" where
  "expire_loop cutoff m [] = \<lparr>ci_bindings = m, ci_inserted = []\<rparr>"
| "expire_loop cutoff m ((bound_ns, k) # ins) =
     (if bound_ns \<ge> cutoff then \<lparr>ci_bindings = m, ci_inserted = (bound_ns, k) # ins\<rparr>
      else expire_loop cutoff
        (case m k of Some b \<Rightarrow> if bn_bound_ns b = bound_ns then m(k := None) else m | None \<Rightarrow> m) ins)"

definition expire :: "client_order_ids \<Rightarrow> u64 \<Rightarrow> client_order_ids" where
  "expire c now_ns = expire_loop (now_ns - WINDOW_NS) (ci_bindings c) (ci_inserted c)"

text \<open>The queue holds every binding's time, oldest first, none later than the clock.\<close>

definition ids_ok :: "client_order_ids \<Rightarrow> u64 \<Rightarrow> bool" where
  "ids_ok c now \<longleftrightarrow> sorted (map fst (ci_inserted c)) \<and> (\<forall>e\<in>set (ci_inserted c). fst e \<le> now) \<and>
     (\<forall>k b. ci_bindings c k = Some b \<longrightarrow> (bn_bound_ns b, k) \<in> set (ci_inserted c))"

lemma ids_ok_default: "ids_ok client_ids_default now"
  by (simp add: ids_ok_def client_ids_default_def)

lemma ids_ok_mono: "ids_ok c now \<Longrightarrow> now \<le> now' \<Longrightarrow> ids_ok c now'"
  unfolding ids_ok_def by (meson le_trans)

lemma ids_ok_insert: "ids_ok c now \<Longrightarrow> ids_ok (ci_insert c u k oid now) now"
  by (auto simp: ids_ok_def ci_insert_def sorted_append)

lemma ids_ok_release: "ids_ok c now \<Longrightarrow> ids_ok (ci_release c u k oid) now"
  by (auto simp: ids_ok_def ci_release_def split: option.splits)

text \<open>\<open>expire\<close> drops exactly the bindings made before the cutoff.\<close>

lemma expire_loop_exact:
  assumes "sorted (map fst ins)" "\<forall>k b. m k = Some b \<longrightarrow> (bn_bound_ns b, k) \<in> set ins \<or> cutoff \<le> bn_bound_ns b"
  shows "ci_bindings (expire_loop cutoff m ins) = (\<lambda>k. case m k of Some b \<Rightarrow> if bn_bound_ns b < cutoff then None else Some b | None \<Rightarrow> None)"
    and "ci_inserted (expire_loop cutoff m ins) = filter (\<lambda>e. cutoff \<le> fst e) ins"
proof -
  have "ci_bindings (expire_loop cutoff m ins) = (\<lambda>k. case m k of Some b \<Rightarrow> if bn_bound_ns b < cutoff then None else Some b | None \<Rightarrow> None) \<and>
      ci_inserted (expire_loop cutoff m ins) = filter (\<lambda>e. cutoff \<le> fst e) ins"
    using assms
  proof (induction cutoff m ins rule: expire_loop.induct)
    case (1 cutoff m)
    have "\<not> bn_bound_ns b < cutoff" if "m k = Some b" for k b using 1(2) that by (metis empty_iff list.set(1) not_le)
    then have "m = (\<lambda>k. case m k of Some b \<Rightarrow> if bn_bound_ns b < cutoff then None else Some b | None \<Rightarrow> None)"
      by (intro ext) (simp split: option.split)
    then show ?case by simp
  next
    case (2 cutoff m t k ins)
    show ?case
    proof (cases "cutoff \<le> t")
      case True
      then have "m = (\<lambda>k. case m k of Some b \<Rightarrow> if bn_bound_ns b < cutoff then None else Some b | None \<Rightarrow> None)"
        using 2(2,3) by (intro ext) (fastforce split: option.split)
      moreover have "filter (\<lambda>e. cutoff \<le> fst e) ins = ins" using True 2(2) by (intro filter_True) fastforce
      ultimately show ?thesis using True by simp
    next
      case False
      let ?m = "case m k of Some b \<Rightarrow> if bn_bound_ns b = t then m(k := None) else m | None \<Rightarrow> m"
      have "\<forall>k' b. ?m k' = Some b \<longrightarrow> (bn_bound_ns b, k') \<in> set ins \<or> cutoff \<le> bn_bound_ns b"
        using 2(3) by (fastforce split: option.splits if_splits)
      moreover have "sorted (map fst ins)" using 2(2) by simp
      ultimately have ih: "ci_bindings (expire_loop cutoff ?m ins) = (\<lambda>k. case ?m k of Some b \<Rightarrow> if bn_bound_ns b < cutoff then None else Some b | None \<Rightarrow> None) \<and>
          ci_inserted (expire_loop cutoff ?m ins) = filter (\<lambda>e. cutoff \<le> fst e) ins"
        using 2(1) False by blast
      have "(\<lambda>k. case ?m k of Some b \<Rightarrow> if bn_bound_ns b < cutoff then None else Some b | None \<Rightarrow> None) =
          (\<lambda>k. case m k of Some b \<Rightarrow> if bn_bound_ns b < cutoff then None else Some b | None \<Rightarrow> None)"
        using False by (intro ext) (auto split: option.split)
      then show ?thesis using ih False by simp
    qed
  qed
  then show "ci_bindings (expire_loop cutoff m ins) = (\<lambda>k. case m k of Some b \<Rightarrow> if bn_bound_ns b < cutoff then None else Some b | None \<Rightarrow> None)"
    and "ci_inserted (expire_loop cutoff m ins) = filter (\<lambda>e. cutoff \<le> fst e) ins" by blast+
qed

lemma expire_exact:
  assumes "ids_ok c now"
  shows "ci_bindings (expire c t) = (\<lambda>k. case ci_bindings c k of Some b \<Rightarrow> if bn_bound_ns b < t - WINDOW_NS then None else Some b | None \<Rightarrow> None)"
    and "ids_ok (expire c t) now"
proof -
  note E = expire_loop_exact [of "ci_inserted c" "ci_bindings c" "t - WINDOW_NS"]
  have p: "sorted (map fst (ci_inserted c))" "\<forall>k b. ci_bindings c k = Some b \<longrightarrow> (bn_bound_ns b, k) \<in> set (ci_inserted c) \<or> t - WINDOW_NS \<le> bn_bound_ns b"
    using assms by (auto simp: ids_ok_def)
  show b: "ci_bindings (expire c t) = (\<lambda>k. case ci_bindings c k of Some b \<Rightarrow> if bn_bound_ns b < t - WINDOW_NS then None else Some b | None \<Rightarrow> None)"
    using E(1) [OF p] by (simp add: expire_def)
  have i: "ci_inserted (expire c t) = filter (\<lambda>e. t - WINDOW_NS \<le> fst e) (ci_inserted c)" using E(2) [OF p] by (simp add: expire_def)
  show "ids_ok (expire c t) now"
    using assms unfolding ids_ok_def b i by (auto simp: sorted_filter split: option.splits if_splits)
qed

end
