(* ===== verification/Gateway_Pending.thy ===== *)
theory Gateway_Pending
  imports Gateway_Ids
begin

text \<open>
  The orders the gateway waits for (\<open>rsx-gateway/src/pending.rs\<close>): one queue per user and counters for the stages. A hash map is a map;
  where the code iterates over one, the order of its keys is the argument \<open>ks\<close>.
\<close>

section \<open>Definitions\<close>

datatype pending_stage = Submitted | Resting | TimedOut

record pending_order =
  po_order_id :: order_id
  po_user_id :: u32
  po_symbol_id :: u32
  po_client_order_id :: cid
  po_timestamp_ns :: u64
  po_stage :: pending_stage

type_synonym user_queues = "u32 \<rightharpoonup> pending_order list"

record pending_orders =
  pd_by_user :: user_queues
  pd_count :: usize
  pd_in_flight :: usize
  pd_timed_out :: usize
  pd_capacity :: usize

definition usize_sub :: "usize \<Rightarrow> usize \<Rightarrow> usize" where
  "usize_sub a b = (a + 18446744073709551616 - b) mod 18446744073709551616"

definition pending_new :: "usize \<Rightarrow> pending_orders" where
  "pending_new capacity = \<lparr>pd_by_user = (\<lambda>u. None), pd_count = 0, pd_in_flight = 0, pd_timed_out = 0, pd_capacity = capacity\<rparr>"

definition pd_is_full :: "pending_orders \<Rightarrow> bool" where
  "pd_is_full p \<longleftrightarrow> pd_in_flight p \<ge> pd_capacity p"

definition enter :: "pending_orders \<Rightarrow> pending_stage \<Rightarrow> pending_orders" where
  "enter p stage =
     (case stage of
        Submitted \<Rightarrow> p\<lparr>pd_in_flight := u64_add (pd_in_flight p) 1\<rparr>
      | TimedOut \<Rightarrow> p\<lparr>pd_timed_out := u64_add (pd_timed_out p) 1\<rparr>
      | Resting \<Rightarrow> p)"

definition leave :: "pending_orders \<Rightarrow> pending_stage \<Rightarrow> pending_orders" where
  "leave p stage =
     (case stage of
        Submitted \<Rightarrow> p\<lparr>pd_in_flight := usize_sub (pd_in_flight p) 1\<rparr>
      | TimedOut \<Rightarrow> p\<lparr>pd_timed_out := usize_sub (pd_timed_out p) 1\<rparr>
      | Resting \<Rightarrow> p)"

definition queue_of :: "user_queues \<Rightarrow> u32 \<Rightarrow> pending_order list" where
  "queue_of m u = (case m u of Some q \<Rightarrow> q | None \<Rightarrow> [])"

definition push_pending :: "pending_orders \<Rightarrow> pending_order \<Rightarrow> bool \<times> pending_orders" where
  "push_pending p order =
     (if po_stage order = Submitted \<and> pd_is_full p then (False, p)
      else
        let p1 = enter (p\<lparr>pd_count := u64_add (pd_count p) 1\<rparr>) (po_stage order) in
        (True, p1\<lparr>pd_by_user := (pd_by_user p1)(po_user_id order \<mapsto> queue_of (pd_by_user p1) (po_user_id order) @ [order])\<rparr>))"

text \<open>The newest order with the id, and the queue without it; the same search for a change in place.\<close>

fun remove_from :: "pending_order list \<Rightarrow> order_id \<Rightarrow> (pending_order \<times> pending_order list) option" where
  "remove_from [] oid = None"
| "remove_from (x # q) oid =
     (case remove_from q oid of
        Some (found, rest) \<Rightarrow> Some (found, x # rest)
      | None \<Rightarrow> if po_order_id x = oid then Some (x, q) else None)"

fun rest_newest :: "pending_order list \<Rightarrow> order_id \<Rightarrow> (pending_stage \<times> pending_order list) option" where
  "rest_newest [] oid = None"
| "rest_newest (x # q) oid =
     (case rest_newest q oid of
        Some (stage, q') \<Rightarrow> Some (stage, x # q')
      | None \<Rightarrow> if po_order_id x = oid then Some (po_stage x, x\<lparr>po_stage := Resting\<rparr> # q) else None)"

text \<open>Try the queues of the given users in turn: the first where the search succeeds is replaced.\<close>

fun in_queues :: "(pending_order list \<Rightarrow> ('a \<times> pending_order list) option) \<Rightarrow> user_queues \<Rightarrow> u32 list \<Rightarrow> ('a \<times> user_queues) option" where
  "in_queues f m [] = None"
| "in_queues f m (k # ks) =
     (case m k of
        Some q \<Rightarrow> (case f q of Some (x, q') \<Rightarrow> Some (x, m(k \<mapsto> q')) | None \<Rightarrow> in_queues f m ks)
      | None \<Rightarrow> in_queues f m ks)"

definition remove_pending :: "u32 list \<Rightarrow> pending_orders \<Rightarrow> u32 \<Rightarrow> order_id \<Rightarrow> pending_order option \<times> pending_orders" where
  "remove_pending ks p user_id oid =
     (case in_queues (\<lambda>q. remove_from q oid) (pd_by_user p) (user_id # ks) of
        Some (order, m) \<Rightarrow>
          (Some order, leave (p\<lparr>pd_by_user := m, pd_count := usize_sub (pd_count p) 1\<rparr>) (po_stage order))
      | None \<Rightarrow> (None, p))"

definition mark_resting :: "u32 list \<Rightarrow> pending_orders \<Rightarrow> u32 \<Rightarrow> order_id \<Rightarrow> bool \<times> pending_orders" where
  "mark_resting ks p user_id oid =
     (case in_queues (\<lambda>q. rest_newest q oid) (pd_by_user p) (user_id # ks) of
        Some (stage, m) \<Rightarrow> (True, leave (p\<lparr>pd_by_user := m\<rparr>) stage)
      | None \<Rightarrow> (False, p))"

definition pd_len :: "pending_orders \<Rightarrow> usize" where "pd_len p = pd_count p"
definition pd_is_empty :: "pending_orders \<Rightarrow> bool" where "pd_is_empty p \<longleftrightarrow> pd_count p = 0"

definition pd_resting :: "pending_orders \<Rightarrow> usize" where
  "pd_resting p = usize_sub (usize_sub (pd_count p) (pd_in_flight p)) (pd_timed_out p)"

definition find_by_order_id :: "pending_orders \<Rightarrow> u32 \<Rightarrow> order_id \<Rightarrow> pending_order option" where
  "find_by_order_id p user_id oid = do { q \<leftarrow> pd_by_user p user_id; find (\<lambda>x. po_order_id x = oid) q }"

definition find_by_client_order_id :: "pending_orders \<Rightarrow> u32 \<Rightarrow> cid \<Rightarrow> pending_order option" where
  "find_by_client_order_id p user_id k = do { q \<leftarrow> pd_by_user p user_id; find (\<lambda>x. po_client_order_id x = k) q }"

definition is_stale :: "u64 \<Rightarrow> pending_order \<Rightarrow> bool" where
  "is_stale cutoff_ns x \<longleftrightarrow> po_stage x = Submitted \<and> po_timestamp_ns x < cutoff_ns"

definition stale_of :: "u64 \<Rightarrow> pending_order list \<Rightarrow> pending_order list" where
  "stale_of cutoff_ns q = map (\<lambda>x. x\<lparr>po_stage := TimedOut\<rparr>) (filter (is_stale cutoff_ns) q)"

definition timed :: "u64 \<Rightarrow> pending_order \<Rightarrow> pending_order" where
  "timed cutoff_ns x = (if is_stale cutoff_ns x then x\<lparr>po_stage := TimedOut\<rparr> else x)"

definition time_out :: "u32 list \<Rightarrow> pending_orders \<Rightarrow> u64 \<Rightarrow> pending_order list \<times> pending_orders" where
  "time_out ks p cutoff_ns =
     (let stale = concat (map (\<lambda>k. stale_of cutoff_ns (queue_of (pd_by_user p) k)) ks) in
      (stale, p\<lparr>pd_by_user := (\<lambda>u. map_option (map (timed cutoff_ns)) (pd_by_user p u)),
                pd_in_flight := usize_sub (pd_in_flight p) (length stale),
                pd_timed_out := u64_add (pd_timed_out p) (length stale)\<rparr>))"

definition is_kept :: "u64 \<Rightarrow> pending_order \<Rightarrow> bool" where
  "is_kept cutoff_ns x \<longleftrightarrow> po_stage x \<noteq> TimedOut \<or> po_timestamp_ns x \<ge> cutoff_ns"

definition drop_timed_out :: "u32 list \<Rightarrow> pending_orders \<Rightarrow> u64 \<Rightarrow> pending_orders" where
  "drop_timed_out ks p cutoff_ns =
     (let dropped = sum_list (map (\<lambda>k. length (queue_of (pd_by_user p) k) - length (filter (is_kept cutoff_ns) (queue_of (pd_by_user p) k))) ks) in
      p\<lparr>pd_by_user := (\<lambda>u. case pd_by_user p u of
                       Some q \<Rightarrow> (let q1 = filter (is_kept cutoff_ns) q in if q1 = [] then None else Some q1)
                     | None \<Rightarrow> None),
        pd_count := usize_sub (pd_count p) dropped,
        pd_timed_out := usize_sub (pd_timed_out p) dropped\<rparr>)"

section \<open>Searching the queues\<close>

lemma queue_of_simps [simp]: "queue_of (m(u \<mapsto> q)) v = (if v = u then q else queue_of m v)" "m u = Some q \<Longrightarrow> queue_of m u = q"
  "m u = None \<Longrightarrow> queue_of m u = []"
  by (simp_all add: queue_of_def)

lemma remove_from_Some:
  "remove_from q oid = Some (x, q') \<Longrightarrow> \<exists>a b. q = a @ x # b \<and> q' = a @ b \<and> po_order_id x = oid"
proof (induction q arbitrary: q')
  case (Cons y q)
  show ?case
  proof (cases "remove_from q oid")
    case None
    then show ?thesis using Cons.prems by (auto split: if_splits intro: exI [of _ "[]"])
  next
    case (Some r)
    then obtain q1 where q1: "remove_from q oid = Some (x, q1)" "q' = y # q1" using Cons.prems by (cases r) auto
    from Cons.IH [OF q1(1)] obtain a b where "q = a @ x # b" "q1 = a @ b" "po_order_id x = oid" by blast
    then show ?thesis using q1(2) by (intro exI [of _ "y # a"] exI [of _ b]) simp
  qed
qed simp

lemma remove_from_None: "remove_from q oid = None \<longleftrightarrow> oid \<notin> po_order_id ` set q"
  by (induction q) (auto split: option.split)

lemma rest_newest_Some:
  "rest_newest q oid = Some (st, q') \<Longrightarrow> \<exists>a x b. q = a @ x # b \<and> q' = a @ x\<lparr>po_stage := Resting\<rparr> # b \<and> po_stage x = st \<and> po_order_id x = oid"
proof (induction q arbitrary: q')
  case (Cons y q)
  show ?case
  proof (cases "rest_newest q oid")
    case None
    then show ?thesis using Cons.prems by (auto split: if_splits intro: exI [of _ "[]"])
  next
    case (Some r)
    then obtain q1 where q1: "rest_newest q oid = Some (st, q1)" "q' = y # q1" using Cons.prems by (cases r) auto
    from Cons.IH [OF q1(1)] obtain a x b where "q = a @ x # b" "q1 = a @ x\<lparr>po_stage := Resting\<rparr> # b" "po_stage x = st" "po_order_id x = oid" by blast
    then show ?thesis using q1(2) by (intro exI [of _ "y # a"] exI [of _ x] exI [of _ b]) simp
  qed
qed simp

lemma in_queues_Some:
  "in_queues f m ks = Some (x, m') \<Longrightarrow> \<exists>k q q'. k \<in> set ks \<and> m k = Some q \<and> f q = Some (x, q') \<and> m' = m(k \<mapsto> q')"
proof (induction ks)
  case (Cons k ks)
  consider (found) q q' where "m k = Some q" "f q = Some (x, q')" "m' = m(k \<mapsto> q')" | (later) "in_queues f m ks = Some (x, m')"
    using Cons.prems by (auto split: option.splits)
  then show ?case
  proof cases
    case found
    then show ?thesis by (intro exI [of _ k]) auto
  next
    case later
    then show ?thesis using Cons.IH by (meson list.set_intros(2))
  qed
qed simp

lemma in_queues_None: "in_queues f m ks = None \<longleftrightarrow> (\<forall>k\<in>set ks. \<forall>q. m k = Some q \<longrightarrow> f q = None)"
  by (induction ks) (auto split: option.split)

section \<open>Counters\<close>

definition headcount :: "(pending_order \<Rightarrow> bool) \<Rightarrow> user_queues \<Rightarrow> nat" where
  "headcount P m = (\<Sum>u\<in>dom m. length (filter P (queue_of m u)))"

definition at_stage :: "pending_stage \<Rightarrow> pending_order \<Rightarrow> bool" where
  "at_stage st x \<longleftrightarrow> po_stage x = st"

lemma at_stage_simps [simp]: "at_stage st (x\<lparr>po_stage := st'\<rparr>) \<longleftrightarrow> st' = st"
  by (auto simp: at_stage_def)

definition pending_ok :: "pending_orders \<Rightarrow> bool" where
  "pending_ok p \<longleftrightarrow> finite (dom (pd_by_user p)) \<and> pd_count p = headcount (\<lambda>x. True) (pd_by_user p) \<and> pd_in_flight p = headcount (at_stage Submitted) (pd_by_user p) \<and>
     pd_timed_out p = headcount (at_stage TimedOut) (pd_by_user p) \<and> pd_in_flight p \<le> pd_capacity p \<and>
     (\<forall>u. \<forall>x\<in>set (queue_of (pd_by_user p) u). po_user_id x = u)"

lemma headcount_over:
  assumes "finite A" "dom m \<subseteq> A"
  shows "headcount P m = (\<Sum>u\<in>A. length (filter P (queue_of m u)))"
  unfolding headcount_def using assms by (intro sum.mono_neutral_left) (auto simp: queue_of_def split: option.split)

lemma headcount_upd:
  assumes "finite (dom m)"
  shows "headcount P (m(u \<mapsto> q)) + length (filter P (queue_of m u)) = headcount P m + length (filter P q)"
proof -
  let ?A = "insert u (dom m)"
  have f: "finite ?A" using assms by simp
  have "headcount P m = (\<Sum>v\<in>?A. length (filter P (queue_of m v)))" by (rule headcount_over [OF f]) auto
  then have 1: "headcount P m = length (filter P (queue_of m u)) + (\<Sum>v\<in>?A - {u}. length (filter P (queue_of m v)))"
    by (simp only: sum.remove [OF f insertI1])
  have "headcount P (m(u \<mapsto> q)) = (\<Sum>v\<in>?A. length (filter P (queue_of (m(u \<mapsto> q)) v)))" by (rule headcount_over [OF f]) auto
  then have 2: "headcount P (m(u \<mapsto> q)) = length (filter P q) + (\<Sum>v\<in>?A - {u}. length (filter P (queue_of (m(u \<mapsto> q)) v)))"
    by (simp only: sum.remove [OF f insertI1]) simp
  have "(\<Sum>v\<in>?A - {u}. length (filter P (queue_of (m(u \<mapsto> q)) v))) = (\<Sum>v\<in>?A - {u}. length (filter P (queue_of m v)))"
    by (rule sum.cong) auto
  then show ?thesis using 1 2 by simp
qed

lemma headcount_part: "finite (dom m) \<Longrightarrow> length (filter P (queue_of m u)) \<le> headcount P m"
  using headcount_upd [of m P u "[]"] by simp

lemma headcount_le: "headcount P m \<le> headcount (\<lambda>x. True) m"
  unfolding headcount_def by (intro sum_mono) simp

lemma usize_sub_id [machine_arith]: "b \<le> a \<Longrightarrow> a < 18446744073709551616 \<Longrightarrow> usize_sub a b = a - b"
proof -
  assume "b \<le> a" "a < 18446744073709551616"
  then have "a + 18446744073709551616 - b = (a - b) + 18446744073709551616" "a - b < 18446744073709551616" by simp_all
  then show "usize_sub a b = a - b" unfolding usize_sub_def by (simp only: mod_add_self2 mod_less)
qed

lemma u64_add_id': "a + b < 18446744073709551616 \<Longrightarrow> u64_add a b = a + b"
  by (simp add: u64_add_def)

lemma pending_new_ok: "pending_ok (pending_new capacity)"
  by (simp add: pending_ok_def pending_new_def headcount_def queue_of_def)

text \<open>Pushing keeps the counters exact, and a submitted order is refused exactly when the capacity is used up.\<close>

lemma push_pending_ok:
  assumes ok: "pending_ok p" and small: "pd_count p < u64_max"
  shows "fst (push_pending p x) \<longleftrightarrow> \<not> (po_stage x = Submitted \<and> pd_is_full p)"
    and "pending_ok (snd (push_pending p x))"
    and "fst (push_pending p x) \<Longrightarrow>
      pd_by_user (snd (push_pending p x)) = (pd_by_user p)(po_user_id x \<mapsto> queue_of (pd_by_user p) (po_user_id x) @ [x])"
    and "pd_count (snd (push_pending p x)) \<le> Suc (pd_count p)"
proof -
  let ?m = "(pd_by_user p)(po_user_id x \<mapsto> queue_of (pd_by_user p) (po_user_id x) @ [x])"
  have f: "finite (dom (pd_by_user p))" using ok by (simp add: pending_ok_def)
  have t: "headcount P ?m = headcount P (pd_by_user p) + (if P x then 1 else 0)" for P
    using headcount_upd [OF f, of P "po_user_id x" "queue_of (pd_by_user p) (po_user_id x) @ [x]"] by (simp split: if_splits)
  have le: "pd_in_flight p \<le> pd_count p" "pd_timed_out p \<le> pd_count p" using ok headcount_le by (simp_all add: pending_ok_def)
  have a: "u64_add n 1 = Suc n" if "n \<le> pd_count p" for n using that small by (subst u64_add_id') (auto simp: u64_max_def)
  show "fst (push_pending p x) \<longleftrightarrow> \<not> (po_stage x = Submitted \<and> pd_is_full p)" by (simp add: push_pending_def Let_def)
  show "pd_by_user (snd (push_pending p x)) = ?m" if "fst (push_pending p x)"
    using that by (auto simp: push_pending_def Let_def enter_def split: pending_stage.splits if_splits)
  show "pd_count (snd (push_pending p x)) \<le> Suc (pd_count p)"
    using a [of "pd_count p"] by (simp add: push_pending_def Let_def enter_def split: pending_stage.split)
  show "pending_ok (snd (push_pending p x))"
    using ok le a t by (auto simp: pending_ok_def push_pending_def Let_def enter_def pd_is_full_def at_stage_def split: pending_stage.split)
qed

text \<open>Replacing one queue where a search found the order, with the counter of the stage it leaves.\<close>

lemma leave_ok:
  assumes ok: "pending_ok p" and small: "pd_count p \<le> u64_max" and q: "pd_by_user p k = Some (a @ x # b)"
    and c: "n1 = pd_count p - (if gone then 1 else 0)"
    and q': "q' = (if gone then a @ b else a @ x\<lparr>po_stage := Resting\<rparr> # b)"
  shows "pending_ok (leave (p\<lparr>pd_by_user := (pd_by_user p)(k \<mapsto> q'), pd_count := n1\<rparr>) (po_stage x))"
proof -
  let ?m = "pd_by_user p" and ?p = "p\<lparr>pd_by_user := (pd_by_user p)(k \<mapsto> q'), pd_count := n1\<rparr>"
  have f: "finite (dom ?m)" using ok by (simp add: pending_ok_def)
  have t: "headcount P (?m(k \<mapsto> q')) + length (filter P (a @ x # b)) = headcount P ?m + length (filter P q')" for P
    using headcount_upd [OF f, of P k q'] q by simp
  have part: "length (filter P (a @ x # b)) \<le> headcount P ?m" for P using headcount_part [OF f, of P k] q by simp
  have le: "pd_in_flight p \<le> pd_count p" "pd_timed_out p \<le> pd_count p" using ok headcount_le by (simp_all add: pending_ok_def)
  have s: "usize_sub n 1 = n - 1" if "0 < n" "n \<le> pd_count p" for n using that small by (intro usize_sub_id) (auto simp: u64_max_def)
  have own: "\<forall>u. \<forall>y\<in>set (queue_of (?m(k \<mapsto> q')) u). po_user_id y = u" using ok q q' by (auto simp: pending_ok_def split: if_splits)
  have cnt: "n1 = headcount (\<lambda>x. True) (?m(k \<mapsto> q'))" using t [of "\<lambda>x. True"] part [of "\<lambda>x. True"] ok c q' by (auto simp: pending_ok_def)
  have stg: "headcount (at_stage st) (?m(k \<mapsto> q')) = headcount (at_stage st) ?m - (if po_stage x = st then 1 else 0)" if "st \<noteq> Resting" for st
    using t [of "at_stage st"] part [of "at_stage st"] q' that by (auto simp: at_stage_def split: if_splits)
  have cap: "headcount (at_stage Submitted) ?m - Suc 0 \<le> pd_capacity p" using ok by (auto simp: pending_ok_def)
  have pos: "0 < headcount (at_stage (po_stage x)) ?m" using part [of "at_stage (po_stage x)"] by (simp add: at_stage_def)
  show ?thesis
  proof (cases "po_stage x")
    case Submitted
    then show ?thesis using ok own cnt stg f s le pos cap by (simp add: leave_def pending_ok_def)
  next
    case Resting
    then show ?thesis using ok own cnt stg f by (simp add: leave_def pending_ok_def)
  next
    case TimedOut
    then show ?thesis using ok own cnt stg f s le pos by (simp add: leave_def pending_ok_def)
  qed
qed

lemma leave_fields [simp]: "pd_by_user (leave p st) = pd_by_user p" "pd_count (leave p st) = pd_count p" "pd_capacity (leave p st) = pd_capacity p"
  by (simp_all add: leave_def split: pending_stage.split)

lemma remove_pending_ok:
  assumes ok: "pending_ok p" and small: "pd_count p \<le> u64_max"
  shows "pending_ok (snd (remove_pending ks p u oid))" "pd_count (snd (remove_pending ks p u oid)) \<le> pd_count p"
    "fst (remove_pending ks p u oid) = Some x \<Longrightarrow>
      \<exists>k a b. pd_by_user p k = Some (a @ x # b) \<and> pd_by_user (snd (remove_pending ks p u oid)) = (pd_by_user p)(k \<mapsto> a @ b) \<and> po_order_id x = oid"
    "fst (remove_pending ks p u oid) = None \<Longrightarrow> snd (remove_pending ks p u oid) = p"
proof -
  have "pending_ok (snd (remove_pending ks p u oid)) \<and> pd_count (snd (remove_pending ks p u oid)) \<le> pd_count p \<and>
    (\<forall>x. fst (remove_pending ks p u oid) = Some x \<longrightarrow>
      (\<exists>k a b. pd_by_user p k = Some (a @ x # b) \<and> pd_by_user (snd (remove_pending ks p u oid)) = (pd_by_user p)(k \<mapsto> a @ b) \<and> po_order_id x = oid)) \<and>
    (fst (remove_pending ks p u oid) = None \<longrightarrow> snd (remove_pending ks p u oid) = p)"
  proof (cases "in_queues (\<lambda>q. remove_from q oid) (pd_by_user p) (u # ks)")
    case None
    then show ?thesis using ok by (simp add: remove_pending_def)
  next
    case (Some r)
    then obtain y m where r: "in_queues (\<lambda>q. remove_from q oid) (pd_by_user p) (u # ks) = Some (y, m)" by (cases r) auto
    then obtain k q q' where k: "pd_by_user p k = Some q" "remove_from q oid = Some (y, q')" "m = (pd_by_user p)(k \<mapsto> q')"
      using in_queues_Some [OF r] by blast
    then obtain a b where ab: "q = a @ y # b" "q' = a @ b" "po_order_id y = oid" using remove_from_Some by blast
    have "length (filter (\<lambda>x. True) (queue_of (pd_by_user p) k)) \<le> headcount (\<lambda>x. True) (pd_by_user p)"
      using ok by (intro headcount_part) (simp add: pending_ok_def)
    then have "1 \<le> pd_count p" using ok k ab by (simp add: pending_ok_def)
    then have c: "usize_sub (pd_count p) 1 = pd_count p - 1" using small by (intro usize_sub_id) (auto simp: u64_max_def)
    have "pending_ok (leave (p\<lparr>pd_by_user := m, pd_count := usize_sub (pd_count p) 1\<rparr>) (po_stage y))"
      using leave_ok [OF ok small, of k a y b _ True q'] k ab c by simp
    moreover have "remove_pending ks p u oid = (Some y, leave (p\<lparr>pd_by_user := m, pd_count := usize_sub (pd_count p) 1\<rparr>) (po_stage y))"
      unfolding remove_pending_def r by simp
    ultimately show ?thesis using k ab c by auto
  qed
  then show "pending_ok (snd (remove_pending ks p u oid))" "pd_count (snd (remove_pending ks p u oid)) \<le> pd_count p"
    "fst (remove_pending ks p u oid) = Some x \<Longrightarrow>
      \<exists>k a b. pd_by_user p k = Some (a @ x # b) \<and> pd_by_user (snd (remove_pending ks p u oid)) = (pd_by_user p)(k \<mapsto> a @ b) \<and> po_order_id x = oid"
    "fst (remove_pending ks p u oid) = None \<Longrightarrow> snd (remove_pending ks p u oid) = p" by blast+
qed


lemma mark_resting_ok:
  assumes ok: "pending_ok p" and small: "pd_count p \<le> u64_max"
  shows "pending_ok (snd (mark_resting ks p u oid)) \<and> pd_count (snd (mark_resting ks p u oid)) = pd_count p"
proof (cases "in_queues (\<lambda>q. rest_newest q oid) (pd_by_user p) (u # ks)")
  case None
  then show ?thesis using ok by (simp add: mark_resting_def)
next
  case (Some r)
  then obtain st m where r: "in_queues (\<lambda>q. rest_newest q oid) (pd_by_user p) (u # ks) = Some (st, m)" by (cases r) auto
  then obtain k q q' where k: "pd_by_user p k = Some q" "rest_newest q oid = Some (st, q')" "m = (pd_by_user p)(k \<mapsto> q')"
    using in_queues_Some [OF r] by blast
  then obtain a x b where ab: "q = a @ x # b" "q' = a @ x\<lparr>po_stage := Resting\<rparr> # b" "po_stage x = st" using rest_newest_Some by blast
  have "p\<lparr>pd_by_user := m, pd_count := pd_count p\<rparr> = p\<lparr>pd_by_user := m\<rparr>" by simp
  then have "pending_ok (leave (p\<lparr>pd_by_user := m\<rparr>) st)"
    using leave_ok [OF ok small, of k a x b "pd_count p" False q'] k ab by simp
  moreover have "mark_resting ks p u oid = (True, leave (p\<lparr>pd_by_user := m\<rparr>) st)" unfolding mark_resting_def r by simp
  ultimately show ?thesis by simp
qed

subsection \<open>Sweeps\<close>

definition iterates :: "u32 list \<Rightarrow> user_queues \<Rightarrow> bool" where
  "iterates ks m \<longleftrightarrow> distinct ks \<and> set ks = dom m"

lemma headcount_keys: "iterates ks m \<Longrightarrow> sum_list (map (\<lambda>k. length (filter P (queue_of m k))) ks) = headcount P m"
  by (simp add: iterates_def headcount_def sum_list_distinct_conv_sum_set)

lemma headcount_cong: "(\<And>x. P x \<longleftrightarrow> Q x) \<Longrightarrow> headcount P m = headcount Q m"
  by presburger

lemma headcount_split:
  assumes "\<And>x. P x \<longleftrightarrow> Q x \<or> R x" "\<And>x. \<not> (Q x \<and> R x)"
  shows "headcount P m = headcount Q m + headcount R m"
proof -
  have "length (filter P q) = length (filter Q q) + length (filter R q)" for q using assms by (induction q) auto
  then show ?thesis unfolding headcount_def by (simp add: sum.distrib)
qed

lemma queue_of_map: "queue_of (\<lambda>u. map_option (map g) (m u)) u = map g (queue_of m u)"
  by (simp add: queue_of_def split: option.split)

lemma headcount_map: "headcount P (\<lambda>u. map_option (map g) (m u)) = headcount (\<lambda>x. P (g x)) m"
proof -
  have "dom (\<lambda>u. map_option (map g) (m u)) = dom m" by (auto simp: dom_def)
  then show ?thesis unfolding headcount_def by (simp add: queue_of_map filter_map comp_def)
qed

definition kept_only :: "(pending_order \<Rightarrow> bool) \<Rightarrow> user_queues \<Rightarrow> user_queues" where
  "kept_only K m = (\<lambda>u. case m u of Some q \<Rightarrow> (let q1 = filter K q in if q1 = [] then None else Some q1) | None \<Rightarrow> None)"

lemma queue_of_kept: "queue_of (kept_only K m) u = filter K (queue_of m u)"
  by (simp add: kept_only_def queue_of_def Let_def split: option.split)

lemma dom_kept: "dom (kept_only K m) \<subseteq> dom m"
  by (auto simp: kept_only_def split: option.splits)

lemma headcount_kept: "finite (dom m) \<Longrightarrow> headcount P (kept_only K m) = headcount (\<lambda>x. K x \<and> P x) m"
  using headcount_over [OF _ dom_kept, of m P K] by (simp add: headcount_def queue_of_kept conj_commute)

lemma length_stale: "iterates ks m \<Longrightarrow> length (concat (map (\<lambda>k. stale_of cutoff (queue_of m k)) ks)) = headcount (is_stale cutoff) m"
  by (simp add: length_concat comp_def stale_of_def headcount_keys)

lemma time_out_ok:
  assumes ok: "pending_ok p" and small: "pd_count p \<le> u64_max" and it: "iterates ks (pd_by_user p)"
  shows "pending_ok (snd (time_out ks p cutoff)) \<and> pd_count (snd (time_out ks p cutoff)) = pd_count p"
proof -
  let ?m = "pd_by_user p" and ?s = "headcount (is_stale cutoff) (pd_by_user p)"
  have sub: "headcount (at_stage Submitted) ?m = headcount (\<lambda>x. at_stage Submitted (timed cutoff x)) ?m + ?s"
    by (rule headcount_split) (auto simp: timed_def is_stale_def at_stage_def)
  have tim: "headcount (\<lambda>x. at_stage TimedOut (timed cutoff x)) ?m = headcount (at_stage TimedOut) ?m + ?s"
    by (rule headcount_split) (auto simp: timed_def is_stale_def at_stage_def)
  have fl: "pd_in_flight p = headcount (at_stage Submitted) ?m" "pd_timed_out p = headcount (at_stage TimedOut) ?m" "pd_count p = headcount (\<lambda>x. True) ?m"
    "finite (dom ?m)" "pd_in_flight p \<le> pd_capacity p"
    using ok by (simp_all add: pending_ok_def)
  have b: "?s \<le> pd_in_flight p" "pd_in_flight p \<le> u64_max" using sub fl small headcount_le [of "at_stage Submitted" ?m] by simp_all
  have "headcount (\<lambda>x. at_stage TimedOut (timed cutoff x)) ?m \<le> u64_max" using headcount_le le_trans small fl(3) by metis
  then have a: "u64_add (pd_timed_out p) ?s = headcount (\<lambda>x. at_stage TimedOut (timed cutoff x)) ?m"
    using tim fl(2) by (subst u64_add_id') (auto simp: u64_max_def)
  have s: "usize_sub (pd_in_flight p) ?s = headcount (\<lambda>x. at_stage Submitted (timed cutoff x)) ?m"
    using sub fl(1) b by (subst usize_sub_id) (auto simp: u64_max_def)
  have own: "\<forall>u. \<forall>x\<in>set (queue_of (\<lambda>u. map_option (map (timed cutoff)) (?m u)) u). po_user_id x = u"
    using ok by (auto simp: pending_ok_def queue_of_map timed_def)
  have d: "dom (\<lambda>u. map_option (map (timed cutoff)) (?m u)) = dom ?m" by (auto simp: dom_def)
  show ?thesis
    using a s own fl d sub by (simp add: time_out_def Let_def pending_ok_def length_stale [OF it] headcount_map)
qed

lemma drop_timed_out_ok:
  assumes ok: "pending_ok p" and small: "pd_count p \<le> u64_max" and it: "iterates ks (pd_by_user p)"
  shows "pending_ok (drop_timed_out ks p cutoff) \<and> pd_count (drop_timed_out ks p cutoff) \<le> pd_count p"
proof -
  let ?m = "pd_by_user p" and ?K = "is_kept cutoff"
  let ?d = "headcount (\<lambda>x. \<not> ?K x) (pd_by_user p)"
  have fl: "pd_in_flight p = headcount (at_stage Submitted) ?m" "pd_timed_out p = headcount (at_stage TimedOut) ?m" "pd_count p = headcount (\<lambda>x. True) ?m"
    "finite (dom ?m)" "pd_in_flight p \<le> pd_capacity p"
    using ok by (simp_all add: pending_ok_def)
  have "length q - length (filter ?K q) = length (filter (\<lambda>x. \<not> ?K x) q)" for q :: "pending_order list"
    using sum_length_filter_compl [of ?K q] by simp
  then have dr: "sum_list (map (\<lambda>k. length (queue_of ?m k) - length (filter ?K (queue_of ?m k))) ks) = ?d"
    using headcount_keys [OF it, of "\<lambda>x. \<not> ?K x"] by simp
  have k: "headcount P (kept_only ?K ?m) = headcount (\<lambda>x. ?K x \<and> P x) ?m" for P by (rule headcount_kept [OF fl(4)])
  have c: "headcount (\<lambda>x. True) ?m = headcount (\<lambda>x. ?K x \<and> True) ?m + ?d" by (rule headcount_split) auto
  have t: "headcount (at_stage TimedOut) ?m = headcount (\<lambda>x. ?K x \<and> at_stage TimedOut x) ?m + ?d"
    by (rule headcount_split) (auto simp: is_kept_def at_stage_def)
  have s: "headcount (\<lambda>x. ?K x \<and> at_stage Submitted x) ?m = headcount (at_stage Submitted) ?m"
    by (rule headcount_cong) (auto simp: is_kept_def at_stage_def)
  have u: "usize_sub n ?d = n - ?d" if "?d \<le> n" "n \<le> pd_count p" for n using that small by (intro usize_sub_id) (auto simp: u64_max_def)
  have "pd_timed_out p \<le> pd_count p" using fl headcount_le by simp
  then have v: "usize_sub (pd_count p) ?d = headcount (\<lambda>x. True) (kept_only ?K ?m)" "usize_sub (pd_timed_out p) ?d = headcount (at_stage TimedOut) (kept_only ?K ?m)"
    using u c t k fl by simp_all
  have "drop_timed_out ks p cutoff = p\<lparr>pd_by_user := kept_only ?K ?m, pd_count := usize_sub (pd_count p) ?d, pd_timed_out := usize_sub (pd_timed_out p) ?d\<rparr>"
    unfolding drop_timed_out_def dr Let_def kept_only_def by simp
  moreover have "finite (dom (kept_only ?K ?m))" using dom_kept fl(4) by (rule finite_subset)
  moreover have "\<forall>u. \<forall>x\<in>set (queue_of (kept_only ?K ?m) u). po_user_id x = u" using ok by (simp add: pending_ok_def queue_of_kept)
  ultimately show ?thesis using v fl s c k by (simp add: pending_ok_def)
qed


end
