(* ===== verification/Gateway_Limits.thy ===== *)
theory Gateway_Limits
  imports Prelude
begin

text \<open>
  What keeps the gateway from being flooded and from flooding risk: the token bucket of \<open>rsx-gateway/src/rate_limit.rs\<close> and the circuit
  breaker of \<open>rsx-gateway/src/circuit.rs\<close>. An \<open>Instant\<close> is the number of nanoseconds of the monotonic clock, passed as \<open>now\<close>; a duration
  between instants saturates at zero, as the subtraction of natural numbers does.
\<close>

section \<open>Token bucket\<close>

definition MICROS_PER_SEC :: i64 where
  "MICROS_PER_SEC = 1000000"

record rate_limiter =
  rl_tokens :: i64
  rl_capacity :: i64
  rl_refill_rate :: i64
  rl_last_refill :: nat

definition limiter_new :: "u32 \<Rightarrow> u32 \<Rightarrow> nat \<Rightarrow> rate_limiter" where
  "limiter_new capacity refill_rate now =
     (let cap_micros = i64_mul (int capacity) MICROS_PER_SEC in
      \<lparr>rl_tokens = cap_micros, rl_capacity = cap_micros, rl_refill_rate = int refill_rate, rl_last_refill = now\<rparr>)"

definition refilled :: "rate_limiter \<Rightarrow> nat \<Rightarrow> i64" where
  "refilled l elapsed =
     (let elapsed_micros = wrap64 (int (elapsed div 1000));
          refill_amount = sat_mul elapsed_micros (rl_refill_rate l)
      in min (sat_add (rl_tokens l) refill_amount) (rl_capacity l))"

definition refill :: "rate_limiter \<Rightarrow> nat \<Rightarrow> rate_limiter" where
  "refill l now = l\<lparr>rl_tokens := refilled l (now - rl_last_refill l), rl_last_refill := now\<rparr>"

definition try_consume :: "rate_limiter \<Rightarrow> nat \<Rightarrow> bool \<times> rate_limiter" where
  "try_consume l now =
     (let l1 = refill l now in
      if rl_tokens l1 \<ge> MICROS_PER_SEC then (True, l1\<lparr>rl_tokens := i64_sub (rl_tokens l1) MICROS_PER_SEC\<rparr>)
      else (False, l1))"

definition tokens_remaining :: "rate_limiter \<Rightarrow> i64" where
  "tokens_remaining l = rl_tokens l sdiv MICROS_PER_SEC"

definition advance_time_by :: "rate_limiter \<Rightarrow> nat \<Rightarrow> rate_limiter" where
  "advance_time_by l duration = l\<lparr>rl_tokens := refilled l duration, rl_last_refill := rl_last_refill l + duration\<rparr>"

definition per_user :: "nat \<Rightarrow> rate_limiter" where
  "per_user now = limiter_new 10 10 now"

definition per_ip :: "nat \<Rightarrow> rate_limiter" where
  "per_ip now = limiter_new 100 100 now"

text \<open>A bucket of \<open>capacity\<close> and \<open>rate\<close> whole tokens, neither empty below zero nor over its rim.\<close>

definition limiter_ok :: "u32 \<Rightarrow> u32 \<Rightarrow> rate_limiter \<Rightarrow> bool" where
  "limiter_ok capacity rate l \<longleftrightarrow> capacity \<le> u32_max \<and> rate \<le> u32_max \<and> rl_capacity l = int capacity * 1000000 \<and> rl_refill_rate l = int rate \<and>
     0 \<le> rl_tokens l \<and> rl_tokens l \<le> rl_capacity l"

lemma limiter_new_ok: "capacity \<le> u32_max \<Longrightarrow> rate \<le> u32_max \<Longrightarrow> limiter_ok capacity rate (limiter_new capacity rate now)"
  by (simp add: limiter_ok_def limiter_new_def Let_def MICROS_PER_SEC_def i64_mul_id in_i64_iff u32_max_def)

text \<open>A refill brings in at most the rate times the whole microseconds that passed, and exactly that below the rim.\<close>

lemma refilled_eq:
  assumes ok: "limiter_ok capacity rate l" and e: "elapsed \<le> u64_max"
  shows "refilled l elapsed = min (rl_tokens l + int rate * int (elapsed div 1000)) (rl_capacity l)"
proof -
  have cap: "0 \<le> rl_capacity l" "rl_capacity l \<le> i64_max" and t: "0 \<le> rl_tokens l" "rl_tokens l \<le> rl_capacity l" and r: "rl_refill_rate l = int rate"
    using ok by (auto simp: limiter_ok_def i64_max_def u32_max_def)
  let ?e = "int (elapsed div 1000)"
  have "elapsed div 1000 \<le> 18446744073709551615 div 1000" using e unfolding u64_max_def by (rule div_le_mono)
  then have w: "wrap64 ?e = ?e" by (intro wrap64_id) (simp add: in_i64_iff)
  have p: "0 \<le> ?e * int rate" by simp
  show ?thesis
  proof (cases "?e * int rate \<le> i64_max")
    case True
    then have s: "sat_mul ?e (int rate) = ?e * int rate" using p unfolding sat_mul_def clamp64_def i64_bounds by linarith
    have "min (clamp64 (rl_tokens l + ?e * int rate)) (rl_capacity l) = min (rl_tokens l + ?e * int rate) (rl_capacity l)"
      using cap t p unfolding clamp64_def i64_min_def by linarith
    then show ?thesis using s by (simp add: refilled_def Let_def w r sat_add_def mult.commute)
  next
    case False
    then have s: "sat_mul ?e (int rate) = i64_max" by (simp add: sat_mul_def clamp64_def i64_bounds)
    have "min (clamp64 (rl_tokens l + i64_max)) (rl_capacity l) = rl_capacity l" using cap t unfolding clamp64_def by linarith
    moreover have "min (rl_tokens l + int rate * ?e) (rl_capacity l) = rl_capacity l"
      using False cap t by (simp add: mult.commute)
    ultimately show ?thesis using s by (simp add: refilled_def Let_def w r sat_add_def)
  qed
qed

lemma refill_ok: "limiter_ok capacity rate l \<Longrightarrow> now \<le> u64_max \<Longrightarrow> limiter_ok capacity rate (refill l now)"
  using refilled_eq [of capacity rate l "now - rl_last_refill l"]
  by (auto simp: limiter_ok_def refill_def le_diff_conv min_def)

lemma try_consume_ok:
  assumes ok: "limiter_ok capacity rate l" and n: "now \<le> u64_max"
  shows "limiter_ok capacity rate (snd (try_consume l now))" "rl_last_refill (snd (try_consume l now)) = now"
    "1000000 * (if fst (try_consume l now) then 1 else 0) + rl_tokens (snd (try_consume l now)) \<le>
       rl_tokens l + int rate * int ((now - rl_last_refill l) div 1000)"
    "fst (try_consume l now) \<longleftrightarrow> 1000000 \<le> rl_tokens l + int rate * int ((now - rl_last_refill l) div 1000) \<and> 0 < capacity"
proof -
  let ?l = "refill l now"
  have ok1: "limiter_ok capacity rate ?l" by (rule refill_ok [OF ok n])
  have t: "rl_tokens ?l = min (rl_tokens l + int rate * int ((now - rl_last_refill l) div 1000)) (rl_capacity l)"
    using refilled_eq [OF ok, of "now - rl_last_refill l"] n by (simp add: refill_def)
  have s: "i64_sub (rl_tokens ?l) 1000000 = rl_tokens ?l - 1000000" if "1000000 \<le> rl_tokens ?l"
    using that ok1 by (intro i64_sub_id) (simp add: in_i64_iff limiter_ok_def u32_max_def)
  show "limiter_ok capacity rate (snd (try_consume l now))"
    using ok1 s by (auto simp: try_consume_def Let_def MICROS_PER_SEC_def limiter_ok_def)
  show "rl_last_refill (snd (try_consume l now)) = now" by (simp add: try_consume_def Let_def refill_def)
  show "1000000 * (if fst (try_consume l now) then 1 else 0) + rl_tokens (snd (try_consume l now)) \<le>
      rl_tokens l + int rate * int ((now - rl_last_refill l) div 1000)"
    using t s by (auto simp: try_consume_def Let_def MICROS_PER_SEC_def)
  show "fst (try_consume l now) \<longleftrightarrow> 1000000 \<le> rl_tokens l + int rate * int ((now - rl_last_refill l) div 1000) \<and> 0 < capacity"
    using t ok by (auto simp: try_consume_def Let_def MICROS_PER_SEC_def limiter_ok_def)
qed

text \<open>A sequence of calls at the given times.\<close>

fun consume_all :: "rate_limiter \<Rightarrow> nat list \<Rightarrow> bool list \<times> rate_limiter" where
  "consume_all l [] = ([], l)"
| "consume_all l (now # ts) = (let (a, l1) = try_consume l now; (as, l2) = consume_all l1 ts in (a # as, l2))"

definition granted :: "bool list \<Rightarrow> nat" where
  "granted as = length (filter id as)"

lemma granted_simps [simp]: "granted [] = 0" "granted (a # as) = (if a then 1 else 0) + granted as"
  by (simp_all add: granted_def)

lemma div_steps: "(a :: nat) \<le> b \<Longrightarrow> b \<le> c \<Longrightarrow> (b - a) div 1000 + (c - b) div 1000 \<le> (c - a) div 1000"
  by (simp add: div_le_mono less_eq_div_iff_mult_less_eq)

lemma consume_all_bound:
  assumes "limiter_ok capacity rate l" "sorted (rl_last_refill l # ts)" "\<forall>t\<in>set ts. t \<le> end" "rl_last_refill l \<le> end" "end \<le> u64_max"
  shows "limiter_ok capacity rate (snd (consume_all l ts)) \<and>
    1000000 * int (granted (fst (consume_all l ts))) \<le> rl_tokens l + int rate * int ((end - rl_last_refill l) div 1000)"
  using assms
proof (induction ts arbitrary: l)
  case Nil
  then show ?case by (simp add: limiter_ok_def)
next
  case (Cons now ts)
  obtain a l1 where t: "try_consume l now = (a, l1)" by fastforce
  obtain as l2 where c: "consume_all l1 ts = (as, l2)" by fastforce
  have n: "now \<le> u64_max" "rl_last_refill l \<le> now" "now \<le> end" using Cons.prems by auto
  note T = try_consume_ok [OF Cons.prems(1) n(1), unfolded t fst_conv snd_conv]
  have ih: "limiter_ok capacity rate l2" "1000000 * int (granted as) \<le> rl_tokens l1 + int rate * int ((end - now) div 1000)"
    using Cons.IH [OF T(1)] Cons.prems T(2) c by auto
  have "int rate * int ((now - rl_last_refill l) div 1000) + int rate * int ((end - now) div 1000)
      \<le> int rate * int ((end - rl_last_refill l) div 1000)"
    using div_steps [OF n(2,3)] by (simp add: distrib_left [symmetric] mult_left_mono del: of_nat_add add: of_nat_add [symmetric])
  then show ?case using ih T(3) t c by (auto split: if_splits)
qed

section \<open>Circuit breaker\<close>

datatype circuit_state = CircuitClosed | CircuitOpen | CircuitHalfOpen

record circuit_breaker =
  cb_state :: circuit_state
  cb_failure_count :: u32
  cb_threshold :: u32
  cb_cooldown :: nat
  cb_last_failure :: "nat option"
  cb_half_open_used :: bool

definition circuit_new :: "u32 \<Rightarrow> nat \<Rightarrow> circuit_breaker" where
  "circuit_new threshold cooldown = \<lparr>cb_state = CircuitClosed, cb_failure_count = 0, cb_threshold = threshold, cb_cooldown = cooldown,
     cb_last_failure = None, cb_half_open_used = False\<rparr>"

text \<open>The branch of \<open>allow\<close> for a half-open breaker; an open one that cooled down turns half-open and takes it as well.\<close>

definition allow_half_open :: "circuit_breaker \<Rightarrow> bool \<times> circuit_breaker" where
  "allow_half_open cb = (if \<not> cb_half_open_used cb then (True, cb\<lparr>cb_half_open_used := True\<rparr>) else (False, cb))"

definition allow :: "circuit_breaker \<Rightarrow> nat \<Rightarrow> bool \<times> circuit_breaker" where
  "allow cb now =
     (case cb_state cb of
        CircuitClosed \<Rightarrow> (True, cb)
      | CircuitOpen \<Rightarrow>
          (case cb_last_failure cb of
             Some failed_at \<Rightarrow>
               if now - failed_at \<ge> cb_cooldown cb then allow_half_open (cb\<lparr>cb_state := CircuitHalfOpen, cb_half_open_used := False\<rparr>)
               else (False, cb)
           | None \<Rightarrow> (False, cb))
      | CircuitHalfOpen \<Rightarrow> allow_half_open cb)"

definition record_success :: "circuit_breaker \<Rightarrow> circuit_breaker" where
  "record_success cb =
     (case cb_state cb of
        CircuitHalfOpen \<Rightarrow> cb\<lparr>cb_state := CircuitClosed, cb_failure_count := 0, cb_half_open_used := False\<rparr>
      | CircuitClosed \<Rightarrow> cb\<lparr>cb_failure_count := 0\<rparr>
      | CircuitOpen \<Rightarrow> cb)"

definition record_failure :: "circuit_breaker \<Rightarrow> nat \<Rightarrow> circuit_breaker" where
  "record_failure cb now =
     (let cb1 = cb\<lparr>cb_failure_count := u32_add (cb_failure_count cb) 1, cb_last_failure := Some now\<rparr> in
      case cb_state cb1 of
        CircuitClosed \<Rightarrow> if cb_failure_count cb1 \<ge> cb_threshold cb1 then cb1\<lparr>cb_state := CircuitOpen\<rparr> else cb1
      | CircuitHalfOpen \<Rightarrow> cb1\<lparr>cb_state := CircuitOpen, cb_half_open_used := False\<rparr>
      | CircuitOpen \<Rightarrow> cb1)"

definition circuit_state_at :: "circuit_breaker \<Rightarrow> nat \<Rightarrow> circuit_state" where
  "circuit_state_at cb now =
     (let cooled = (case cb_last_failure cb of Some failed_at \<Rightarrow> now - failed_at \<ge> cb_cooldown cb | None \<Rightarrow> False) in
      if cb_state cb = CircuitOpen \<and> cooled then CircuitHalfOpen else cb_state cb)"

text \<open>
  What a breaker is for, told without its states: it remembers how many attempts failed in a row and when the last one did, and refuses
  an attempt while that many failures have been seen and the last is younger than the cooldown.
\<close>

type_synonym outage = "nat \<times> nat"

definition outage_allows :: "u32 \<Rightarrow> nat \<Rightarrow> outage \<Rightarrow> nat \<Rightarrow> bool" where
  "outage_allows threshold cooldown o1 now \<longleftrightarrow> fst o1 < max 1 threshold \<or> cooldown \<le> now - snd o1"

fun outage_after :: "bool \<Rightarrow> nat \<Rightarrow> outage \<Rightarrow> outage" where
  "outage_after True now (n, failed_at) = (0, failed_at)"
| "outage_after False now (n, failed_at) = (Suc n, now)"

definition breaker_rel :: "circuit_breaker \<Rightarrow> outage \<Rightarrow> bool" where
  "breaker_rel cb o1 \<longleftrightarrow> cb_threshold cb \<le> u32_max \<and>
     (cb_state cb = CircuitClosed \<and> fst o1 < max 1 (cb_threshold cb) \<and> cb_failure_count cb = fst o1 \<and> (0 < fst o1 \<longrightarrow> cb_last_failure cb = Some (snd o1)) \<or>
      cb_state cb = CircuitOpen \<and> max 1 (cb_threshold cb) \<le> fst o1 \<and> cb_last_failure cb = Some (snd o1))"

text \<open>One attempt as the gateway makes it: ask the breaker, and report the outcome when it let the attempt through.\<close>

definition attempt :: "circuit_breaker \<Rightarrow> nat \<Rightarrow> nat \<Rightarrow> bool \<Rightarrow> bool \<times> circuit_breaker" where
  "attempt cb now done_at success =
     (let (ok, cb1) = allow cb now in
      if ok then (True, if success then record_success cb1 else record_failure cb1 done_at) else (False, cb1))"

lemma circuit_new_rel: "threshold \<le> u32_max \<Longrightarrow> breaker_rel (circuit_new threshold cooldown) (0, 0)"
  by (simp add: breaker_rel_def circuit_new_def)

lemma allow_refines:
  assumes "breaker_rel cb o1"
  shows "fst (allow cb now) \<longleftrightarrow> outage_allows (cb_threshold cb) (cb_cooldown cb) o1 now"
    and "\<not> fst (allow cb now) \<Longrightarrow> snd (allow cb now) = cb"
  using assms
  by (auto simp: breaker_rel_def allow_def allow_half_open_def outage_allows_def split: option.splits if_splits circuit_state.splits)

lemma attempt_refines:
  assumes "breaker_rel cb o1"
  shows "fst (attempt cb now done_at success) \<longleftrightarrow> outage_allows (cb_threshold cb) (cb_cooldown cb) o1 now"
    and "breaker_rel (snd (attempt cb now done_at success))
      (if outage_allows (cb_threshold cb) (cb_cooldown cb) o1 now then outage_after success done_at o1 else o1)"
    and "cb_threshold (snd (attempt cb now done_at success)) = cb_threshold cb" "cb_cooldown (snd (attempt cb now done_at success)) = cb_cooldown cb"
proof -
  obtain n failed_at where o1: "o1 = (n, failed_at)" by fastforce
  show "fst (attempt cb now done_at success) \<longleftrightarrow> outage_allows (cb_threshold cb) (cb_cooldown cb) o1 now"
    using allow_refines(1) [OF assms, of now] by (cases "allow cb now") (simp add: attempt_def)
  show "cb_threshold (snd (attempt cb now done_at success)) = cb_threshold cb" "cb_cooldown (snd (attempt cb now done_at success)) = cb_cooldown cb"
    by (simp_all add: attempt_def allow_def allow_half_open_def record_success_def record_failure_def Let_def
        split: option.split circuit_state.split prod.split)
  have c: "u32_add n 1 = Suc n" if "n < max 1 (cb_threshold cb)"
    using that assms by (subst u32_add_id) (auto simp: breaker_rel_def u32_max_def)
  show "breaker_rel (snd (attempt cb now done_at success))
      (if outage_allows (cb_threshold cb) (cb_cooldown cb) o1 now then outage_after success done_at o1 else o1)"
  proof (cases "cb_state cb")
    case CircuitClosed
    then show ?thesis using assms c
      by (cases success) (auto simp: o1 breaker_rel_def attempt_def allow_def record_success_def record_failure_def Let_def outage_allows_def)
  next
    case CircuitOpen
    then show ?thesis using assms
      by (cases success) (auto simp: o1 breaker_rel_def attempt_def allow_def allow_half_open_def record_success_def record_failure_def Let_def
          outage_allows_def)
  next
    case CircuitHalfOpen
    then show ?thesis using assms by (simp add: breaker_rel_def)
  qed
qed


end
