(* ===== verification/Frames.thy ===== *)
theory Frames
  imports Wal_Names Rsx_Types
begin

text \<open>
  The client-facing order channel of \<open>rsx-messages/src/frames.rs\<close>: the frames, their text form (\<open>serialize\<close>) and the checks of
  \<open>parse\<close>. A frame is a JSON object with one key that names its kind and a positional array. The JSON reader and the escaping of a
  string are those of the \<open>serde_json\<close> package, hence the parameters \<open>from_str\<close> and \<open>esc\<close>. A Rust \<open>String\<close> is the list of its UTF-8 bytes.
\<close>

section \<open>Frames and values\<close>

record cid_order =
  co_order_id :: string
  co_client_order_id :: string

datatype cancel_key = ClientOrderId string | OrderId string

datatype ws_frame =
    WsNewOrder u32 u8 i64 i64 string u8 bool bool
  | WsCancel cancel_key
  | WsOrderUpdate string u8 i64 i64 u8 u64 u64 u64 u64 u64
  | WsFill string string i64 i64 u64 i64 u64 u64 u64 u64 u64
  | WsError u32 string "cid_order option"
  | WsHeartbeat u64
  | WsLiquidation u32 u8 u32 u8 i64 i64 i64

datatype parse_error = InvalidJson | MultipleKeys | UnknownType string | MissingField string | InvalidValue string

text \<open>The values \<open>serde_json\<close> reads: a number is an integer between the least \<open>i64\<close> and the greatest \<open>u64\<close>, or a float.\<close>

datatype json = JNull | JBool bool | JInt int | JFloat | JString string | JArray "json list" | JObject "(string \<times> json) list"

type_synonym 'a parsed = "parse_error + 'a"

definition try_then :: "'a parsed \<Rightarrow> ('a \<Rightarrow> 'b parsed) \<Rightarrow> 'b parsed" where
  "try_then r f = (case r of Inl e \<Rightarrow> Inl e | Inr x \<Rightarrow> f x)"

lemma try_then_simps [simp]: "try_then (Inl e) f = Inl e" "try_then (Inr x) f = f x"
  by (simp_all add: try_then_def)

fun json_u64 :: "json \<Rightarrow> u64 option" where
  "json_u64 (JInt n) = (if 0 \<le> n \<and> n \<le> int u64_max then Some (nat n) else None)"
| "json_u64 _ = None"

fun json_i64 :: "json \<Rightarrow> i64 option" where
  "json_i64 (JInt n) = (if in_i64 n then Some n else None)"
| "json_i64 _ = None"

section \<open>Reading a frame\<close>

definition as_u64 :: "json \<Rightarrow> string \<Rightarrow> u64 parsed" where
  "as_u64 v field = (case json_u64 v of Some n \<Rightarrow> Inr n | None \<Rightarrow> Inl (InvalidValue field))"

definition as_u32 :: "json \<Rightarrow> string \<Rightarrow> u32 parsed" where
  "as_u32 v field = (case json_u64 v of Some n \<Rightarrow> if n \<le> u32_max then Inr n else Inl (InvalidValue field) | None \<Rightarrow> Inl (InvalidValue field))"

definition as_u8 :: "json \<Rightarrow> string \<Rightarrow> u8 parsed" where
  "as_u8 v field = (case json_u64 v of Some n \<Rightarrow> if n \<le> 255 then Inr n else Inl (InvalidValue field) | None \<Rightarrow> Inl (InvalidValue field))"

definition as_i64 :: "json \<Rightarrow> string \<Rightarrow> i64 parsed" where
  "as_i64 v field = (case json_i64 v of Some n \<Rightarrow> Inr n | None \<Rightarrow> Inl (InvalidValue field))"

definition as_str :: "json \<Rightarrow> string \<Rightarrow> string parsed" where
  "as_str v field = (case v of JString s \<Rightarrow> Inr s | _ \<Rightarrow> Inl (InvalidValue field))"

definition arr_get :: "json list \<Rightarrow> nat \<Rightarrow> string \<Rightarrow> json parsed" where
  "arr_get arr i field = (if i < length arr then Inr (arr ! i) else Inl (MissingField field))"

definition require :: "bool \<Rightarrow> parse_error \<Rightarrow> unit parsed" where
  "require ok e = (if ok then Inr () else Inl e)"

definition optional_flag :: "json list \<Rightarrow> nat \<Rightarrow> string \<Rightarrow> bool parsed" where
  "optional_flag arr i field = (if i < length arr then try_then (as_u8 (arr ! i) field) (\<lambda>flag. Inr (flag \<noteq> 0)) else Inr False)"

definition optional_ns :: "json list \<Rightarrow> nat \<Rightarrow> string \<Rightarrow> u64 parsed" where
  "optional_ns arr i field = (if i < length arr then as_u64 (arr ! i) field else Inr 0)"

definition parse_new_order :: "json list \<Rightarrow> ws_frame parsed" where
  "parse_new_order arr =
     try_then (require (6 \<le> length arr) (MissingField ''N requires at least 6 fields'')) (\<lambda>_.
     try_then (as_u32 (arr ! 0) ''sym'') (\<lambda>symbol_id.
     try_then (as_u8 (arr ! 1) ''side'') (\<lambda>side.
     try_then (require (side \<le> 1) (InvalidValue ''side must be 0 or 1'')) (\<lambda>_.
     try_then (as_i64 (arr ! 2) ''px'') (\<lambda>price.
     try_then (as_i64 (arr ! 3) ''qty'') (\<lambda>qty.
     try_then (as_str (arr ! 4) ''cid'') (\<lambda>cid.
     try_then (require (cid \<noteq> [] \<and> length cid \<le> 20) (InvalidValue ''cid must be 1-20 chars'')) (\<lambda>_.
     try_then (as_u8 (arr ! 5) ''tif'') (\<lambda>tif.
     try_then (require (tif \<le> 2) (InvalidValue ''tif must be 0, 1, or 2'')) (\<lambda>_.
     try_then (optional_flag arr 6 ''ro'') (\<lambda>reduce_only.
     try_then (optional_flag arr 7 ''po'') (\<lambda>post_only.
     Inr (WsNewOrder symbol_id side price qty cid tif reduce_only post_only)))))))))))))"

definition parse_cancel :: "json list \<Rightarrow> ws_frame parsed" where
  "parse_cancel arr =
     try_then (arr_get arr 0 ''cid_or_oid'') (\<lambda>v.
     try_then (as_str v ''cid_or_oid'') (\<lambda>s.
     if length s = 32 then Inr (WsCancel (OrderId s))
     else if 1 \<le> length s \<and> length s \<le> 20 then Inr (WsCancel (ClientOrderId s))
     else Inl (InvalidValue ''cancel key must be 1-20 (cid) or 32 (oid) chars'')))"

definition parse_order_update :: "json list \<Rightarrow> ws_frame parsed" where
  "parse_order_update arr =
     try_then (require (5 \<le> length arr) (MissingField ''U requires 5 fields'')) (\<lambda>_.
     try_then (as_str (arr ! 0) ''oid'') (\<lambda>oid.
     try_then (require (length oid = 32) (InvalidValue ''oid must be 32 chars'')) (\<lambda>_.
     try_then (as_u8 (arr ! 1) ''status'') (\<lambda>status.
     try_then (require (status \<le> 3) (InvalidValue ''status must be 0-3'')) (\<lambda>_.
     try_then (as_i64 (arr ! 2) ''filled'') (\<lambda>filled_qty.
     try_then (as_i64 (arr ! 3) ''remaining'') (\<lambda>remaining_qty.
     try_then (as_u8 (arr ! 4) ''reason'') (\<lambda>reason.
     try_then (require (reason \<le> failure_reason_u8 OrderTooSmall) (InvalidValue ''reason must be 0-14'')) (\<lambda>_.
     try_then (optional_ns arr 5 ''gw_in_ns'') (\<lambda>gw_in.
     try_then (optional_ns arr 6 ''risk_in_ns'') (\<lambda>risk_in.
     try_then (optional_ns arr 7 ''me_in_ns'') (\<lambda>me_in.
     try_then (optional_ns arr 8 ''match_done_ns'') (\<lambda>match_done.
     try_then (optional_ns arr 9 ''gw_out_ns'') (\<lambda>gw_out.
     Inr (WsOrderUpdate oid status filled_qty remaining_qty reason gw_in risk_in me_in match_done gw_out)))))))))))))))"

definition parse_fill :: "json list \<Rightarrow> ws_frame parsed" where
  "parse_fill arr =
     try_then (require (6 \<le> length arr) (MissingField ''F requires 6 fields'')) (\<lambda>_.
     try_then (as_str (arr ! 0) ''taker_oid'') (\<lambda>taker.
     try_then (as_str (arr ! 1) ''maker_oid'') (\<lambda>maker.
     try_then (as_i64 (arr ! 2) ''px'') (\<lambda>price.
     try_then (as_i64 (arr ! 3) ''qty'') (\<lambda>qty.
     try_then (as_u64 (arr ! 4) ''ts'') (\<lambda>ts.
     try_then (as_i64 (arr ! 5) ''fee'') (\<lambda>fee.
     try_then (optional_ns arr 6 ''gw_in_ns'') (\<lambda>gw_in.
     try_then (optional_ns arr 7 ''risk_in_ns'') (\<lambda>risk_in.
     try_then (optional_ns arr 8 ''me_in_ns'') (\<lambda>me_in.
     try_then (optional_ns arr 9 ''match_done_ns'') (\<lambda>match_done.
     try_then (optional_ns arr 10 ''gw_out_ns'') (\<lambda>gw_out.
     Inr (WsFill taker maker price qty ts fee gw_in risk_in me_in match_done gw_out)))))))))))))"

definition parse_error_frame :: "json list \<Rightarrow> ws_frame parsed" where
  "parse_error_frame arr =
     try_then (require (2 \<le> length arr) (MissingField ''E requires 2 fields'')) (\<lambda>_.
     try_then (as_u32 (arr ! 0) ''code'') (\<lambda>code.
     try_then (as_str (arr ! 1) ''msg'') (\<lambda>msg.
     if 4 \<le> length arr then
       try_then (as_str (arr ! 2) ''oid'') (\<lambda>order_id.
       try_then (as_str (arr ! 3) ''cid'') (\<lambda>cid.
       Inr (WsError code msg (Some \<lparr>co_order_id = order_id, co_client_order_id = cid\<rparr>))))
     else Inr (WsError code msg None))))"

definition parse_heartbeat :: "json list \<Rightarrow> ws_frame parsed" where
  "parse_heartbeat arr =
     try_then (arr_get arr 0 ''ts'') (\<lambda>v.
     try_then (as_u64 v ''ts'') (\<lambda>ts.
     Inr (WsHeartbeat ts)))"

definition parse_liquidation :: "json list \<Rightarrow> ws_frame parsed" where
  "parse_liquidation arr =
     try_then (require (7 \<le> length arr) (MissingField ''Q requires 7 fields'')) (\<lambda>_.
     try_then (as_u32 (arr ! 0) ''sym'') (\<lambda>symbol_id.
     try_then (as_u8 (arr ! 1) ''status'') (\<lambda>status.
     try_then (require (status \<le> 4) (InvalidValue ''liquidation status must be 0-4'')) (\<lambda>_.
     try_then (as_u32 (arr ! 2) ''round'') (\<lambda>round.
     try_then (as_u8 (arr ! 3) ''side'') (\<lambda>side.
     try_then (require (side \<le> 1) (InvalidValue ''side must be 0 or 1'')) (\<lambda>_.
     try_then (as_i64 (arr ! 4) ''qty'') (\<lambda>qty.
     try_then (as_i64 (arr ! 5) ''price'') (\<lambda>price.
     try_then (as_i64 (arr ! 6) ''slip_bps'') (\<lambda>slip_bps.
     Inr (WsLiquidation symbol_id status round side qty price slip_bps)))))))))))"

definition is_ascii_alphabetic :: "char \<Rightarrow> bool" where
  "is_ascii_alphabetic c \<longleftrightarrow> (let n = of_char c :: nat in 65 \<le> n \<and> n \<le> 90 \<or> 97 \<le> n \<and> n \<le> 122)"

definition parse_kind :: "string \<Rightarrow> json list \<Rightarrow> ws_frame parsed" where
  "parse_kind key arr =
     (if key = ''N'' then parse_new_order arr
      else if key = ''C'' then parse_cancel arr
      else if key = ''U'' then parse_order_update arr
      else if key = ''F'' then parse_fill arr
      else if key = ''E'' then parse_error_frame arr
      else if key = ''H'' then parse_heartbeat arr
      else if key = ''Q'' then parse_liquidation arr
      else Inl (UnknownType key))"

definition parse_frame :: "(string \<Rightarrow> json option) \<Rightarrow> string \<Rightarrow> ws_frame parsed" where
  "parse_frame from_str txt =
     (case from_str txt of
        Some (JObject obj) \<Rightarrow>
          (case obj of
             [(key, v)] \<Rightarrow>
               if \<not> list_all is_ascii_alphabetic key then Inl (UnknownType key)
               else (case v of JArray arr \<Rightarrow> parse_kind key arr | _ \<Rightarrow> Inl InvalidJson)
           | _ \<Rightarrow> Inl MultipleKeys)
      | _ \<Rightarrow> Inl InvalidJson)"

section \<open>Writing a frame\<close>

fun signed_decimal :: "int \<Rightarrow> string" where
  "signed_decimal n = (if n < 0 then CHR ''-'' # decimal (nat (- n)) else decimal (nat n))"

definition quoted :: "string \<Rightarrow> string" where
  "quoted s = CHR 0x22 # s @ [CHR 0x22]"

fun commas :: "string list \<Rightarrow> string" where
  "commas [] = []"
| "commas [x] = x"
| "commas (x # y # xs) = x @ CHR '','' # commas (y # xs)"

text \<open>The format string of every frame: \<open>{"K":[f1,f2,...]}\<close>.\<close>

definition frame_text :: "string \<Rightarrow> string list \<Rightarrow> string" where
  "frame_text key parts = CHR ''{'' # quoted key @ CHR '':'' # CHR ''['' # commas parts @ [CHR '']'', CHR ''}'']"

definition flag_u8 :: "bool \<Rightarrow> u8" where
  "flag_u8 b = (if b then 1 else 0)"

fun serialize :: "(string \<Rightarrow> string) \<Rightarrow> ws_frame \<Rightarrow> string" where
  "serialize esc (WsNewOrder symbol_id side price qty cid tif reduce_only post_only) =
     frame_text ''N'' [decimal symbol_id, decimal side, signed_decimal price, signed_decimal qty, quoted cid, decimal tif,
       decimal (flag_u8 reduce_only), decimal (flag_u8 post_only)]"
| "serialize esc (WsCancel (ClientOrderId key)) = frame_text ''C'' [quoted key]"
| "serialize esc (WsCancel (OrderId key)) = frame_text ''C'' [quoted key]"
| "serialize esc (WsOrderUpdate oid status filled_qty remaining_qty reason gw_in risk_in me_in match_done gw_out) =
     frame_text ''U'' [quoted oid, decimal status, signed_decimal filled_qty, signed_decimal remaining_qty, decimal reason, decimal gw_in,
       decimal risk_in, decimal me_in, decimal match_done, decimal gw_out]"
| "serialize esc (WsFill taker maker price qty ts fee gw_in risk_in me_in match_done gw_out) =
     frame_text ''F'' [quoted taker, quoted maker, signed_decimal price, signed_decimal qty, decimal ts, signed_decimal fee, decimal gw_in,
       decimal risk_in, decimal me_in, decimal match_done, decimal gw_out]"
| "serialize esc (WsError code message None) = frame_text ''E'' [decimal code, quoted message]"
| "serialize esc (WsError code message (Some co)) =
     frame_text ''E'' [decimal code, quoted message, quoted (co_order_id co), esc (co_client_order_id co)]"
| "serialize esc (WsHeartbeat ts) = frame_text ''H'' [decimal ts]"
| "serialize esc (WsLiquidation symbol_id status round side qty price slip_bps) =
     frame_text ''Q'' [decimal symbol_id, decimal status, decimal round, decimal side, signed_decimal qty, signed_decimal price,
       signed_decimal slip_bps]"

section \<open>The text of a frame\<close>

text \<open>
  The compact text of a JSON value, as RFC 8259 defines it, for values whose strings need no escape: no quote, no backslash, no control
  character. This is what \<open>from_str\<close> is documented to read back.
\<close>

definition plain :: "string \<Rightarrow> bool" where
  "plain s \<longleftrightarrow> list_all (\<lambda>c. c \<noteq> CHR 0x22 \<and> c \<noteq> CHR 0x5C \<and> (32 :: nat) \<le> of_char c) s"

fun scalar_text :: "json \<Rightarrow> string" where
  "scalar_text (JInt n) = signed_decimal n"
| "scalar_text (JString s) = quoted s"
| "scalar_text _ = []"

text \<open>The JSON value a frame stands for.\<close>

fun fields_of :: "ws_frame \<Rightarrow> string \<times> json list" where
  "fields_of (WsNewOrder symbol_id side price qty cid tif reduce_only post_only) =
     (''N'', [JInt (int symbol_id), JInt (int side), JInt price, JInt qty, JString cid, JInt (int tif), JInt (int (flag_u8 reduce_only)),
       JInt (int (flag_u8 post_only))])"
| "fields_of (WsCancel (ClientOrderId key)) = (''C'', [JString key])"
| "fields_of (WsCancel (OrderId key)) = (''C'', [JString key])"
| "fields_of (WsOrderUpdate oid status filled_qty remaining_qty reason gw_in risk_in me_in match_done gw_out) =
     (''U'', [JString oid, JInt (int status), JInt filled_qty, JInt remaining_qty, JInt (int reason), JInt (int gw_in), JInt (int risk_in),
       JInt (int me_in), JInt (int match_done), JInt (int gw_out)])"
| "fields_of (WsFill taker maker price qty ts fee gw_in risk_in me_in match_done gw_out) =
     (''F'', [JString taker, JString maker, JInt price, JInt qty, JInt (int ts), JInt fee, JInt (int gw_in), JInt (int risk_in),
       JInt (int me_in), JInt (int match_done), JInt (int gw_out)])"
| "fields_of (WsError code message None) = (''E'', [JInt (int code), JString message])"
| "fields_of (WsError code message (Some co)) =
     (''E'', [JInt (int code), JString message, JString (co_order_id co), JString (co_client_order_id co)])"
| "fields_of (WsHeartbeat ts) = (''H'', [JInt (int ts)])"
| "fields_of (WsLiquidation symbol_id status round side qty price slip_bps) =
     (''Q'', [JInt (int symbol_id), JInt (int status), JInt (int round), JInt (int side), JInt qty, JInt price, JInt slip_bps])"

definition value_of :: "ws_frame \<Rightarrow> json" where
  "value_of f = JObject [(fst (fields_of f), JArray (snd (fields_of f)))]"

definition value_text :: "ws_frame \<Rightarrow> string" where
  "value_text f = frame_text (fst (fields_of f)) (map scalar_text (snd (fields_of f)))"

text \<open>The frames a sender may build: every number in the range of its type, the enumerations in theirs, the keys of the length they must have.\<close>

fun frame_ok :: "ws_frame \<Rightarrow> bool" where
  "frame_ok (WsNewOrder symbol_id side price qty cid tif reduce_only post_only) \<longleftrightarrow>
     symbol_id \<le> u32_max \<and> side \<le> 1 \<and> in_i64 price \<and> in_i64 qty \<and> cid \<noteq> [] \<and> length cid \<le> 20 \<and> tif \<le> 2"
| "frame_ok (WsCancel (ClientOrderId key)) \<longleftrightarrow> 1 \<le> length key \<and> length key \<le> 20"
| "frame_ok (WsCancel (OrderId key)) \<longleftrightarrow> length key = 32"
| "frame_ok (WsOrderUpdate oid status filled_qty remaining_qty reason gw_in risk_in me_in match_done gw_out) \<longleftrightarrow>
     length oid = 32 \<and> status \<le> 3 \<and> in_i64 filled_qty \<and> in_i64 remaining_qty \<and> reason \<le> failure_reason_u8 OrderTooSmall \<and> gw_in \<le> u64_max \<and>
     risk_in \<le> u64_max \<and> me_in \<le> u64_max \<and> match_done \<le> u64_max \<and> gw_out \<le> u64_max"
| "frame_ok (WsFill taker maker price qty ts fee gw_in risk_in me_in match_done gw_out) \<longleftrightarrow>
     in_i64 price \<and> in_i64 qty \<and> ts \<le> u64_max \<and> in_i64 fee \<and> gw_in \<le> u64_max \<and> risk_in \<le> u64_max \<and> me_in \<le> u64_max \<and>
     match_done \<le> u64_max \<and> gw_out \<le> u64_max"
| "frame_ok (WsError code message co) \<longleftrightarrow> code \<le> u32_max"
| "frame_ok (WsHeartbeat ts) \<longleftrightarrow> ts \<le> u64_max"
| "frame_ok (WsLiquidation symbol_id status round side qty price slip_bps) \<longleftrightarrow>
     symbol_id \<le> u32_max \<and> status \<le> 4 \<and> round \<le> u32_max \<and> side \<le> 1 \<and> in_i64 qty \<and> in_i64 price \<and> in_i64 slip_bps"

lemma serialize_text:
  assumes "\<forall>s. plain s \<longrightarrow> esc s = quoted s" and "\<forall>s. JString s \<in> set (snd (fields_of f)) \<longrightarrow> plain s"
  shows "serialize esc f = value_text f"
  using assms
proof (induction esc f rule: serialize.induct)
  case (7 esc code message co)
  then have "plain (co_client_order_id co)" by simp
  then show ?case using 7 by (simp add: value_text_def)
qed (simp_all add: value_text_def)

lemma reads [simp]:
  "as_u64 (JInt (int n)) s = (if n \<le> u64_max then Inr n else Inl (InvalidValue s))"
  "as_u32 (JInt (int n)) s = (if n \<le> u32_max then Inr n else Inl (InvalidValue s))"
  "as_u8 (JInt (int n)) s = (if n \<le> 255 then Inr n else Inl (InvalidValue s))"
  "as_i64 (JInt i) s = (if in_i64 i then Inr i else Inl (InvalidValue s))"
  "as_str (JString x) s = Inr x"
  by (simp_all add: as_u64_def as_u32_def as_u8_def as_i64_def as_str_def u64_max_def u32_max_def)

lemmas parsers = parse_new_order_def parse_cancel_def parse_order_update_def parse_fill_def parse_error_frame_def parse_heartbeat_def
  parse_liquidation_def optional_flag_def optional_ns_def arr_get_def require_def

lemma parse_fields: "frame_ok f \<Longrightarrow> parse_kind (fst (fields_of f)) (snd (fields_of f)) = Inr f"
  by (induction f rule: fields_of.induct) (simp_all add: parse_kind_def parsers flag_u8_def)

lemma kind_alphabetic: "list_all is_ascii_alphabetic (fst (fields_of f))"
  by (induction f rule: fields_of.induct) (simp_all add: is_ascii_alphabetic_def)

text \<open>C37: frames survive the wire. A frame whose numbers are in the range of their types, whose enumerations are in theirs and whose
  strings need no JSON escape is read back from its text as it was: \<open>parse\<close> of \<open>serialize\<close> gives the same frame, for every kind of frame,
  with any JSON reader that reads the text of this one value back and any escape that leaves plain strings as they are.\<close>

theorem frame_roundtrip:
  assumes "frame_ok f"
    and "\<forall>s. JString s \<in> set (snd (fields_of f)) \<longrightarrow> plain s"
    and "\<forall>s. plain s \<longrightarrow> esc s = quoted s"
    and "from_str (value_text f) = Some (value_of f)"
  shows "parse_frame from_str (serialize esc f) = Inr f"
  using assms(4) parse_fields [OF assms(1)] kind_alphabetic [of f]
  by (simp add: serialize_text [OF assms(3,2)] parse_frame_def value_of_def)

theorem frame_roundtrip_witness:
  "let f = WsNewOrder 7 1 (- 12) 30 ''ab12'' 0 True False in
     serialize quoted f = CHR ''{'' # CHR 0x22 # CHR ''N'' # CHR 0x22 # '':[7,1,-12,30,'' @ CHR 0x22 # ''ab12'' @ CHR 0x22 # '',0,1,0]}'' \<and>
     parse_frame (\<lambda>s. if s = value_text f then Some (value_of f) else None) (serialize quoted f) = Inr f"
proof -
  let ?f = "WsNewOrder 7 1 (- 12) 30 ''ab12'' 0 True False"
  have "parse_frame (\<lambda>s. if s = value_text ?f then Some (value_of ?f) else None) (serialize quoted ?f) = Inr ?f"
    by (rule frame_roundtrip) (simp_all add: u32_max_def in_i64_iff plain_def)
  moreover have "serialize quoted ?f = CHR ''{'' # CHR 0x22 # CHR ''N'' # CHR 0x22 # '':[7,1,-12,30,'' @ CHR 0x22 # ''ab12'' @ CHR 0x22 # '',0,1,0]}''"
    by (simp add: frame_text_def quoted_def flag_u8_def decimal_def decimal_reversed.simps char_of_def bit_0)
  ultimately show ?thesis by (simp only: Let_def simp_thms)
qed


end
