(* ===== verification/Gateway.thy ===== *)
theory Gateway
  imports Gateway_Pending Gateway_Limits Frames Wire_Records Risk_Shard "HOL-Library.AList"
begin

text \<open>
  The gateway (\<open>rsx-gateway/src\<close>): the state shared by the sessions and the reactor loop (\<open>state.rs\<close>), the order and cancel paths of a
  session (\<open>handler.rs\<close>), the routing of the records risk answers with (\<open>route.rs\<close>), the counters of \<open>metrics.rs\<close> and the periodic work of
  the reactor loop (\<open>main.rs\<close>). The reactor is single-threaded and a handler never yields between reading the state and writing it back,
  so each of these is one step.

  Arguments stand for what comes from outside: \<open>now\<close> is the monotonic clock and \<open>now_ns\<close> the wall clock, one reading per step, \<open>oid\<close> the
  minted order id, \<open>sent\<close> whether the datagram to risk was accepted by the socket, \<open>ks\<close> the iteration order of the pending queues.
  A hash map whose entries the code counts or visits is an association list with distinct keys; no result depends on the order of the
  entries. The queue of a connection holds frames; their text is that of \<open>serialize\<close>.
\<close>

section \<open>State\<close>

definition IP_LIMITER_MAX :: usize where "IP_LIMITER_MAX = 10000"
definition DEFAULT_MAX_OUTBOUND :: usize where "DEFAULT_MAX_OUTBOUND = 1024"
definition DEFAULT_RATE_LIMIT_PER_INSTANCE :: u32 where "DEFAULT_RATE_LIMIT_PER_INSTANCE = 1000"
definition CLOSE_GRACE_NS :: u64 where "CLOSE_GRACE_NS = 1000000000"

datatype phase = Serving | Draining | Closing

record gw_connection =
  gc_user_id :: u32
  gc_outbound :: "ws_frame list"
  gc_wake :: bool
  gc_last_activity_ns :: u64

record symbol_entry =
  sy_config :: symbol_config
  sy_config_version :: u64

type_synonym symbol_table = "u32 \<rightharpoonup> symbol_entry"

record gw_metrics =
  gm_orders_processed :: u64
  gm_rejects :: "u64 list"
  gm_resting_orders :: u64
  gm_cid_duplicates :: u64
  gm_circuit_state :: u64
  gm_draining :: u64

record gateway_state =
  gs_connections :: "(u64 \<times> gw_connection) list"
  gs_pending :: pending_orders
  gs_client_ids :: client_order_ids
  gs_next_conn_id :: u64
  gs_user_limiters :: "u32 \<rightharpoonup> rate_limiter"
  gs_ip_limiters :: "(nat \<times> rate_limiter) list"
  gs_ip_limiter_order :: "nat list"
  gs_instance_limiter :: rate_limiter
  gs_circuit :: circuit_breaker
  gs_symbols :: symbol_table
  gs_rate_limit_per_user :: u32
  gs_rate_limit_per_ip :: u32
  gs_max_outbound :: usize
  gs_metrics :: gw_metrics
  gs_phase :: phase
  gs_phase_ends_ns :: u64

definition OTHER_SLOT :: usize where
  "OTHER_SLOT = failure_reason_u8 OrderTooSmall + 1"

definition metrics_default :: gw_metrics where
  "metrics_default = \<lparr>gm_orders_processed = 0, gm_rejects = replicate (OTHER_SLOT + 1) 0, gm_resting_orders = 0, gm_cid_duplicates = 0,
     gm_circuit_state = 0, gm_draining = 0\<rparr>"

definition count_reject_code :: "gw_metrics \<Rightarrow> u8 \<Rightarrow> gw_metrics" where
  "count_reject_code m code =
     (let i = min code OTHER_SLOT in m\<lparr>gm_rejects := (gm_rejects m)[i := u64_add (gm_rejects m ! i) 1]\<rparr>)"

definition count_reject :: "gw_metrics \<Rightarrow> failure_reason \<Rightarrow> gw_metrics" where
  "count_reject m reason =
     (let i = failure_reason_u8 reason in m\<lparr>gm_rejects := (gm_rejects m)[i := u64_add (gm_rejects m ! i) 1]\<rparr>)"

definition set_circuit_state :: "gw_metrics \<Rightarrow> circuit_state \<Rightarrow> gw_metrics" where
  "set_circuit_state m st = m\<lparr>gm_circuit_state := (case st of CircuitClosed \<Rightarrow> 0 | CircuitOpen \<Rightarrow> 1 | CircuitHalfOpen \<Rightarrow> 2)\<rparr>"

definition gateway_new :: "usize \<Rightarrow> u32 \<Rightarrow> nat \<Rightarrow> symbol_table \<Rightarrow> nat \<Rightarrow> gateway_state" where
  "gateway_new max_pending circuit_threshold circuit_cooldown_ms symbols now =
     \<lparr>gs_connections = [], gs_pending = pending_new max_pending, gs_client_ids = client_ids_default, gs_next_conn_id = 0,
      gs_user_limiters = (\<lambda>k. None), gs_ip_limiters = [], gs_ip_limiter_order = [],
      gs_instance_limiter = limiter_new DEFAULT_RATE_LIMIT_PER_INSTANCE DEFAULT_RATE_LIMIT_PER_INSTANCE now,
      gs_circuit = circuit_new circuit_threshold (circuit_cooldown_ms * 1000000), gs_symbols = symbols, gs_rate_limit_per_user = 10,
      gs_rate_limit_per_ip = 100, gs_max_outbound = DEFAULT_MAX_OUTBOUND, gs_metrics = metrics_default, gs_phase = Serving,
      gs_phase_ends_ns = 0\<rparr>"

definition set_instance_rate_limit :: "gateway_state \<Rightarrow> u32 \<Rightarrow> nat \<Rightarrow> gateway_state" where
  "set_instance_rate_limit st per_sec now = st\<lparr>gs_instance_limiter := limiter_new per_sec per_sec now\<rparr>"

definition signal :: "gw_connection \<Rightarrow> gw_connection" where
  "signal conn = conn\<lparr>gc_wake := True\<rparr>"

definition advance_shutdown :: "gateway_state \<Rightarrow> u64 \<Rightarrow> u64 \<Rightarrow> bool \<times> gateway_state" where
  "advance_shutdown st now_ns drain_ns =
     (case gs_phase st of
        Serving \<Rightarrow>
          (False, st\<lparr>gs_phase := Draining, gs_phase_ends_ns := u64_add now_ns drain_ns, gs_metrics := (gs_metrics st)\<lparr>gm_draining := 1\<rparr>\<rparr>)
      | Draining \<Rightarrow>
          (False,
           if pd_in_flight (gs_pending st) = 0 \<or> now_ns \<ge> gs_phase_ends_ns st
           then st\<lparr>gs_phase := Closing, gs_phase_ends_ns := u64_add now_ns CLOSE_GRACE_NS,
                   gs_connections := map (\<lambda>(k, conn). (k, signal conn)) (gs_connections st)\<rparr>
           else st)
      | Closing \<Rightarrow> (gs_connections st = [] \<or> now_ns \<ge> gs_phase_ends_ns st, st))"

definition is_config_newer :: "gateway_state \<Rightarrow> u32 \<Rightarrow> u64 \<Rightarrow> bool" where
  "is_config_newer st symbol_id config_version =
     (case gs_symbols st symbol_id of None \<Rightarrow> True | Some entry \<Rightarrow> sy_config_version entry < config_version)"

subsection \<open>Connections\<close>

definition conns_of :: "gateway_state \<Rightarrow> u32 \<Rightarrow> (u64 \<times> gw_connection) list" where
  "conns_of st user_id = filter (\<lambda>(k, c). gc_user_id c = user_id) (gs_connections st)"

definition add_connection :: "gateway_state \<Rightarrow> u32 \<Rightarrow> (string + u64) \<times> gateway_state" where
  "add_connection st user_id =
     (if length (conns_of st user_id) \<ge> 5 then (Inl ''max connections per user'', st)
      else
        (Inr (gs_next_conn_id st),
         st\<lparr>gs_next_conn_id := u64_add (gs_next_conn_id st) 1,
            gs_connections := AList.update (gs_next_conn_id st)
              \<lparr>gc_user_id = user_id, gc_outbound = [], gc_wake = False, gc_last_activity_ns = 0\<rparr> (gs_connections st)\<rparr>))"

definition remove_connection :: "gateway_state \<Rightarrow> u64 \<Rightarrow> gateway_state" where
  "remove_connection st conn_id = st\<lparr>gs_connections := filter (\<lambda>(k, c). k \<noteq> conn_id) (gs_connections st)\<rparr>"

definition queue_outbound :: "gw_connection \<Rightarrow> ws_frame \<Rightarrow> usize \<Rightarrow> gw_connection option" where
  "queue_outbound conn msg max_outbound =
     (if length (gc_outbound conn) \<ge> max_outbound then None
      else Some (signal (conn\<lparr>gc_outbound := gc_outbound conn @ [msg]\<rparr>)))"

text \<open>A connection whose queue is full is removed.\<close>

definition queue_where :: "gateway_state \<Rightarrow> ws_frame \<Rightarrow> (u64 \<Rightarrow> gw_connection \<Rightarrow> bool) \<Rightarrow> gateway_state" where
  "queue_where st msg wanted =
     st\<lparr>gs_connections := List.map_filter (\<lambda>(k, conn).
          if wanted k conn then map_option (Pair k) (queue_outbound conn msg (gs_max_outbound st)) else Some (k, conn)) (gs_connections st)\<rparr>"

definition push_to_user :: "gateway_state \<Rightarrow> u32 \<Rightarrow> ws_frame \<Rightarrow> gateway_state" where
  "push_to_user st user_id msg = queue_where st msg (\<lambda>k conn. gc_user_id conn = user_id)"

definition broadcast_heartbeat :: "gateway_state \<Rightarrow> u64 \<Rightarrow> gateway_state" where
  "broadcast_heartbeat st ts_ms = queue_where st (WsHeartbeat ts_ms) (\<lambda>k conn. True)"

definition queue_heartbeat :: "gateway_state \<Rightarrow> u64 \<Rightarrow> u64 \<Rightarrow> gateway_state" where
  "queue_heartbeat st conn_id ts_ms = queue_where st (WsHeartbeat ts_ms) (\<lambda>k conn. k = conn_id)"

definition is_idle_conn :: "u64 \<Rightarrow> gw_connection \<Rightarrow> bool" where
  "is_idle_conn cutoff_ns conn \<longleftrightarrow> gc_last_activity_ns conn > 0 \<and> gc_last_activity_ns conn < cutoff_ns"

definition reap_idle_connections :: "gateway_state \<Rightarrow> u64 \<Rightarrow> gateway_state" where
  "reap_idle_connections st cutoff_ns =
     st\<lparr>gs_connections := filter (\<lambda>(k, conn). \<not> is_idle_conn cutoff_ns conn) (gs_connections st)\<rparr>"

definition touch_connection :: "gateway_state \<Rightarrow> u64 \<Rightarrow> u64 \<Rightarrow> gateway_state" where
  "touch_connection st conn_id now_ns =
     st\<lparr>gs_connections := AList.map_entry conn_id (\<lambda>conn. conn\<lparr>gc_last_activity_ns := now_ns\<rparr>) (gs_connections st)\<rparr>"

definition drain_outbound :: "gateway_state \<Rightarrow> u64 \<Rightarrow> ws_frame list \<times> gateway_state" where
  "drain_outbound st conn_id =
     (case map_of (gs_connections st) conn_id of
        Some conn \<Rightarrow> (gc_outbound conn, st\<lparr>gs_connections := AList.map_entry conn_id (\<lambda>c. c\<lparr>gc_outbound := []\<rparr>) (gs_connections st)\<rparr>)
      | None \<Rightarrow> ([], st))"

text \<open>The start of a session in \<open>handle_connection\<close>, after the handshake: register, stamp, greet.\<close>

definition open_session :: "gateway_state \<Rightarrow> u32 \<Rightarrow> u64 \<Rightarrow> (string + u64) \<times> gateway_state" where
  "open_session st user_id now_ns =
     (case add_connection st user_id of
        (Inl e, st1) \<Rightarrow> (Inl e, st1)
      | (Inr conn_id, st1) \<Rightarrow> (Inr conn_id, queue_heartbeat (touch_connection st1 conn_id now_ns) conn_id (now_ns div 1000000)))"

section \<open>Admission\<close>

type_synonym rejection = "failure_reason \<times> u32 \<times> string"

definition RATE_LIMITED :: rejection where "RATE_LIMITED = (RateLimit, 1006, ''rate limited'')"
definition OVERLOADED :: rejection where "OVERLOADED = (Overloaded, 5, ''overloaded'')"
definition NETWORK_ERROR :: rejection where "NETWORK_ERROR = (NetworkError, 8, ''network error'')"

text \<open>\<open>ip_limiter_for\<close> returns a reference into the map; here the entry, created if it is new, and the state that holds it.\<close>

definition ip_limiter_for :: "gateway_state \<Rightarrow> nat \<Rightarrow> nat \<Rightarrow> rate_limiter \<times> gateway_state" where
  "ip_limiter_for st ip now =
     (case map_of (gs_ip_limiters st) ip of
        Some l \<Rightarrow> (l, st)
      | None \<Rightarrow>
          let st1 = (if length (gs_ip_limiters st) \<ge> IP_LIMITER_MAX then
                       (case gs_ip_limiter_order st of
                          oldest # ips \<Rightarrow> st\<lparr>gs_ip_limiter_order := ips, gs_ip_limiters := AList.delete oldest (gs_ip_limiters st)\<rparr>
                        | [] \<Rightarrow> st)
                     else st);
              l = limiter_new (gs_rate_limit_per_ip st) (gs_rate_limit_per_ip st) now
          in (l, st1\<lparr>gs_ip_limiter_order := gs_ip_limiter_order st1 @ [ip], gs_ip_limiters := AList.update ip l (gs_ip_limiters st1)\<rparr>))"

definition user_limiter_for :: "gateway_state \<Rightarrow> u32 \<Rightarrow> nat \<Rightarrow> rate_limiter" where
  "user_limiter_for st user_id now =
     (case gs_user_limiters st user_id of
        Some l \<Rightarrow> l
      | None \<Rightarrow> limiter_new (gs_rate_limit_per_user st) (gs_rate_limit_per_user st) now)"

definition admit_request :: "gateway_state \<Rightarrow> nat \<Rightarrow> u32 \<Rightarrow> nat \<Rightarrow> (rejection + unit) \<times> gateway_state" where
  "admit_request st ip user_id now =
     (let (ipl, st1) = ip_limiter_for st ip now;
          (ok, ipl1) = try_consume ipl now;
          st2 = st1\<lparr>gs_ip_limiters := AList.update ip ipl1 (gs_ip_limiters st1)\<rparr>
      in if \<not> ok then (Inl RATE_LIMITED, st2)
         else
           let (ok2, ul) = try_consume (user_limiter_for st2 user_id now) now;
               st3 = st2\<lparr>gs_user_limiters := (gs_user_limiters st2)(user_id \<mapsto> ul)\<rparr>
           in if \<not> ok2 then (Inl RATE_LIMITED, st3)
              else
                let (ok3, il) = try_consume (gs_instance_limiter st3) now;
                    st4 = st3\<lparr>gs_instance_limiter := il\<rparr>
                in if \<not> ok3 then (Inl OVERLOADED, st4) else (Inr (), st4))"

datatype admission = AdmitNew | AdmitDuplicate order_id

definition validate_tick_alignment :: "i64 \<Rightarrow> i64 \<Rightarrow> bool option" where
  "validate_tick_alignment price tick_size = (if \<not> price > 0 then Some False else do { r \<leftarrow> rem_by price tick_size; Some (r = 0) })"

definition validate_lot_alignment :: "i64 \<Rightarrow> i64 \<Rightarrow> bool option" where
  "validate_lot_alignment qty lot_size = (if \<not> qty > 0 then Some False else do { r \<leftarrow> rem_by qty lot_size; Some (r = 0) })"

definition admit_order :: "gateway_state \<Rightarrow> u32 \<Rightarrow> u32 \<Rightarrow> i64 \<Rightarrow> i64 \<Rightarrow> cid \<Rightarrow> nat \<Rightarrow> ((rejection + admission) \<times> gateway_state) option" where
  "admit_order st user_id symbol_id price qty k now =
     (case ci_get (gs_client_ids st) user_id k of
        Some oid \<Rightarrow> Some (Inr (AdmitDuplicate oid), st)
      | None \<Rightarrow>
          if gs_phase st \<noteq> Serving then Some (Inl OVERLOADED, st)
          else
            (case gs_symbols st symbol_id of
               None \<Rightarrow> Some (Inl (SymbolNotFound, 1007, ''unknown symbol''), st)
             | Some entry \<Rightarrow> do {
                 tick_ok \<leftarrow> validate_tick_alignment price (symbol_config.sc_tick_size (sy_config entry));
                 if \<not> tick_ok then Some (Inl (InvalidTickSize, 1008, ''price not tick aligned''), st)
                 else do {
                   lot_ok \<leftarrow> validate_lot_alignment qty (symbol_config.sc_lot_size (sy_config entry));
                   if \<not> lot_ok then Some (Inl (InvalidLotSize, 1009, ''qty not lot aligned''), st)
                   else if pd_is_full (gs_pending st) then Some (Inl OVERLOADED, st)
                   else
                     let (ok, cb) = allow (gs_circuit st) now;
                         st1 = st\<lparr>gs_circuit := cb\<rparr>
                     in if \<not> ok then Some (Inl OVERLOADED, st1) else Some (Inr AdmitNew, st1)
                 }
               }))"

section \<open>Requests\<close>

datatype risk_request = ReqOrder order_request | ReqCancel cancel_request

text \<open>What a step hands out: the frames written to the client's socket and the records forwarded to risk.\<close>

record gw_out =
  go_answer :: "ws_frame list"
  go_forward :: "risk_request list"

definition answer :: "ws_frame \<Rightarrow> gw_out" where
  "answer f = \<lparr>go_answer = [f], go_forward = []\<rparr>"

definition silent :: gw_out where
  "silent = \<lparr>go_answer = [], go_forward = []\<rparr>"

definition cid_bytes :: "string \<Rightarrow> cid" where
  "cid_bytes s = (let src = take 20 (map of_char s) in src @ replicate (20 - length src) 0)"

definition send_error :: "u32 \<Rightarrow> string \<Rightarrow> gw_out" where
  "send_error code message = answer (WsError code message None)"

definition reject_request :: "gateway_state \<Rightarrow> rejection \<Rightarrow> gw_out \<times> gateway_state" where
  "reject_request st r =
     (case r of (reason, code, message) \<Rightarrow> (send_error code message, st\<lparr>gs_metrics := count_reject (gs_metrics st) reason\<rparr>))"

text \<open>The client id is cut at its first zero byte; \<open>String::from_utf8_lossy\<close> leaves valid text as it is.\<close>

definition answer_duplicate :: "gateway_state \<Rightarrow> order_id \<Rightarrow> cid \<Rightarrow> gw_out \<times> gateway_state" where
  "answer_duplicate st oid k =
     (answer (WsError 1011 ''duplicate cid'' (Some \<lparr>co_order_id = order_id_to_hex oid, co_client_order_id = map char_of (takeWhile (\<lambda>c. c \<noteq> 0) k)\<rparr>)),
      st\<lparr>gs_metrics := (gs_metrics st)\<lparr>gm_cid_duplicates := u64_add (gm_cid_duplicates (gs_metrics st)) 1\<rparr>\<rparr>)"

text \<open>What follows a sent order: it is pending, its client id is bound, the breaker and the counter hear of the success.\<close>

definition order_sent :: "gateway_state \<Rightarrow> u32 \<Rightarrow> u32 \<Rightarrow> cid \<Rightarrow> order_id \<Rightarrow> u64 \<Rightarrow> gateway_state" where
  "order_sent st user_id symbol_id k oid now_ns =
     (let pending = snd (push_pending (gs_pending st)
            \<lparr>po_order_id = oid, po_user_id = user_id, po_symbol_id = symbol_id, po_client_order_id = k, po_timestamp_ns = now_ns,
             po_stage = Submitted\<rparr>)
      in st\<lparr>gs_pending := pending, gs_client_ids := ci_insert (gs_client_ids st) user_id k oid now_ns,
            gs_circuit := record_success (gs_circuit st),
            gs_metrics := (gs_metrics st)\<lparr>gm_orders_processed := u64_add (gm_orders_processed (gs_metrics st)) 1\<rparr>\<rparr>)"

text \<open>A \<open>NewOrder\<close> frame of a session.\<close>

definition handle_new_order ::
  "gateway_state \<Rightarrow> nat \<Rightarrow> u32 \<Rightarrow> nat \<Rightarrow> u64 \<Rightarrow> order_id \<Rightarrow> bool \<Rightarrow> u32 \<Rightarrow> u8 \<Rightarrow> i64 \<Rightarrow> i64 \<Rightarrow> string \<Rightarrow> u8 \<Rightarrow> bool \<Rightarrow> bool \<Rightarrow> (gw_out \<times> gateway_state) option" where
  "handle_new_order st ip user_id now now_ns oid sent symbol_id side price qty client_order_id tif reduce_only post_only =
     (let k = cid_bytes client_order_id in
      case admit_request st ip user_id now of
        (Inl rejection, st1) \<Rightarrow> Some (reject_request st1 rejection)
      | (Inr _, st1) \<Rightarrow> do {
          (admitted, st2) \<leftarrow> admit_order st1 user_id symbol_id price qty k now;
          (case admitted of
             Inl rejection \<Rightarrow> Some (reject_request st2 rejection)
           | Inr (AdmitDuplicate bound) \<Rightarrow> Some (answer_duplicate st2 bound k)
           | Inr AdmitNew \<Rightarrow>
               let (order_id_hi, order_id_lo) = split_order_id oid;
                   order = \<lparr>oq_user_id = user_id, oq_symbol_id = symbol_id, oq_price = price, oq_qty = qty, oq_order_id_hi = order_id_hi,
                     oq_order_id_lo = order_id_lo, oq_timestamp_ns = now_ns, oq_side = side, oq_tif = tif, oq_reduce_only = reduce_only,
                     oq_post_only = post_only, oq_is_liquidation = False\<rparr>
               in if \<not> sent then Some (reject_request (st2\<lparr>gs_circuit := record_failure (gs_circuit st2) now\<rparr>) NETWORK_ERROR)
                  else Some (\<lparr>go_answer = [], go_forward = [ReqOrder order]\<rparr>, order_sent st2 user_id symbol_id k oid now_ns))
        })"

text \<open>The order a cancel names: \<open>Inl\<close> is the answer when there is none.\<close>

definition cancel_target :: "gateway_state \<Rightarrow> u32 \<Rightarrow> cancel_key \<Rightarrow> gw_out + (u32 \<times> order_id)" where
  "cancel_target st user_id cancelled =
     (let named = (\<lambda>found. case found of
            Some order \<Rightarrow> Inr (po_symbol_id order, po_order_id order)
          | None \<Rightarrow> Inl (send_error 1005 ''order not found'')) in
      case cancelled of
        OrderId hex \<Rightarrow>
          (case hex_to_order_id hex of
             Some oid \<Rightarrow> named (find_by_order_id (gs_pending st) user_id oid)
           | None \<Rightarrow> Inl (send_error 1005 ''invalid order id''))
      | ClientOrderId k \<Rightarrow> named (find_by_client_order_id (gs_pending st) user_id (cid_bytes k)))"

definition handle_cancel :: "gateway_state \<Rightarrow> nat \<Rightarrow> u32 \<Rightarrow> nat \<Rightarrow> u64 \<Rightarrow> bool \<Rightarrow> cancel_key \<Rightarrow> gw_out \<times> gateway_state" where
  "handle_cancel st ip user_id now now_ns sent cancelled =
     (case admit_request st ip user_id now of
        (Inl rejection, st1) \<Rightarrow> reject_request st1 rejection
      | (Inr _, st1) \<Rightarrow>
          (case cancel_target st1 user_id cancelled of
             Inl out \<Rightarrow> (out, st1)
           | Inr (symbol_id, oid) \<Rightarrow>
               let (order_id_hi, order_id_lo) = split_order_id oid;
                   cancel = \<lparr>cr_ts_ns = now_ns, cr_user_id = user_id, cr_symbol_id = symbol_id, cr_order_id_hi = order_id_hi,
                     cr_order_id_lo = order_id_lo\<rparr>
               in if sent then (\<lparr>go_answer = [], go_forward = [ReqCancel cancel]\<rparr>, st1)
                  else (send_error 8 ''network error'', st1)))"

text \<open>One text frame of a session: \<open>parse\<close> decides, and only orders, cancels and heartbeats are served.\<close>

definition handle_frame ::
  "gateway_state \<Rightarrow> nat \<Rightarrow> u32 \<Rightarrow> nat \<Rightarrow> u64 \<Rightarrow> order_id \<Rightarrow> bool \<Rightarrow> ws_frame \<Rightarrow> (gw_out \<times> gateway_state) option" where
  "handle_frame st ip user_id now now_ns oid sent frame =
     (case frame of
        WsNewOrder symbol_id side price qty client_order_id tif reduce_only post_only \<Rightarrow>
          handle_new_order st ip user_id now now_ns oid sent symbol_id side price qty client_order_id tif reduce_only post_only
      | WsCancel cancelled \<Rightarrow> Some (handle_cancel st ip user_id now now_ns sent cancelled)
      | WsHeartbeat ts \<Rightarrow> Some (answer (WsHeartbeat (now_ns div 1000000)), st)
      | _ \<Rightarrow> Some (send_error 1004 ''unsupported'', st))"

section \<open>Routing\<close>

text \<open>The \<open>LiquidationRecord\<close> of the wire (\<open>rsx-messages/src/lib.rs\<close>).\<close>

record liquidation_wire =
  lw_seq :: u64
  lw_ts_ns :: u64
  lw_user_id :: u32
  lw_symbol_id :: u32
  lw_status :: u8
  lw_side :: u8
  lw_round :: u32
  lw_qty :: i64
  lw_price :: i64
  lw_slip_bps :: i64

datatype cast_event =
    CeFill fill_record
  | CeOrderDone order_done_record
  | CeOrderInserted order_inserted_record
  | CeOrderFailed order_failed_record
  | CeLiquidation liquidation_wire
  | CeConfigApplied u32 u64

definition oid_hex :: "u64 \<Rightarrow> u64 \<Rightarrow> string" where
  "oid_hex hi lo = order_id_to_hex (join_order_id hi lo)"

definition update_frame :: "string \<Rightarrow> u8 \<Rightarrow> i64 \<Rightarrow> i64 \<Rightarrow> u8 \<Rightarrow> ws_frame" where
  "update_frame oid status filled_qty remaining_qty reason = WsOrderUpdate oid status filled_qty remaining_qty reason 0 0 0 0 0"

definition fill_frame :: "fill_record \<Rightarrow> i64 \<Rightarrow> u64 \<Rightarrow> ws_frame" where
  "fill_frame rec fee gw_out_ns =
     WsFill (oid_hex (fl_taker_order_id_hi rec) (fl_taker_order_id_lo rec)) (oid_hex (fl_maker_order_id_hi rec) (fl_maker_order_id_lo rec))
       (fl_price rec) (fl_qty rec) (fl_ts_ns rec) fee (fl_gw_in_ns rec) (fl_risk_in_ns rec) (fl_me_in_ns rec) (fl_match_done_ns rec) gw_out_ns"

definition route_fill :: "gateway_state \<Rightarrow> fill_record \<Rightarrow> u64 \<Rightarrow> gateway_state" where
  "route_fill st rec gw_out_ns =
     (let taker_fee = calculate_fee (fl_qty rec) (fl_price rec) (fl_taker_fee_bps rec);
          maker_fee = calculate_fee (fl_qty rec) (fl_price rec) (fl_maker_fee_bps rec)
      in if fl_maker_user_id rec = fl_taker_user_id rec
         then push_to_user st (fl_taker_user_id rec) (fill_frame rec (sat_add taker_fee maker_fee) gw_out_ns)
         else push_to_user (push_to_user st (fl_taker_user_id rec) (fill_frame rec taker_fee gw_out_ns))
                (fl_maker_user_id rec) (fill_frame rec maker_fee gw_out_ns))"

definition route_order_inserted :: "u32 list \<Rightarrow> gateway_state \<Rightarrow> order_inserted_record \<Rightarrow> gateway_state" where
  "route_order_inserted ks st rec =
     (let oid = join_order_id (oi_order_id_hi rec) (oi_order_id_lo rec);
          st1 = st\<lparr>gs_pending := snd (mark_resting ks (gs_pending st) (oi_user_id rec) oid)\<rparr>
      in push_to_user st1 (oi_user_id rec) (update_frame (order_id_to_hex oid) 1 0 (oi_qty rec) 0))"

definition complete_pending :: "u32 list \<Rightarrow> gateway_state \<Rightarrow> u32 \<Rightarrow> u64 \<Rightarrow> u64 \<Rightarrow> pending_order option \<times> gateway_state" where
  "complete_pending ks st user_id hi lo =
     (let (removed, p) = remove_pending ks (gs_pending st) user_id (join_order_id hi lo) in (removed, st\<lparr>gs_pending := p\<rparr>))"

definition route_order_done :: "u32 list \<Rightarrow> gateway_state \<Rightarrow> order_done_record \<Rightarrow> u64 \<Rightarrow> gateway_state" where
  "route_order_done ks st rec gw_out_ns =
     (if od_final_status rec > 2 then st
      else
        let (removed, st1) = complete_pending ks st (od_user_id rec) (od_order_id_hi rec) (od_order_id_lo rec);
            user_id = (case removed of Some order \<Rightarrow> po_user_id order | None \<Rightarrow> od_user_id rec)
        in push_to_user st1 user_id
             (WsOrderUpdate (oid_hex (od_order_id_hi rec) (od_order_id_lo rec)) (od_final_status rec) (od_filled_qty rec)
               (od_remaining_qty rec) (od_cancel_reason rec) (od_gw_in_ns rec) (od_risk_in_ns rec) (od_me_in_ns rec)
               (od_match_done_ns rec) gw_out_ns))"

definition route_liquidation :: "gateway_state \<Rightarrow> liquidation_wire \<Rightarrow> gateway_state" where
  "route_liquidation st rec =
     push_to_user st (lw_user_id rec)
       (WsLiquidation (lw_symbol_id rec) (lw_status rec) (lw_round rec) (lw_side rec) (lw_qty rec) (lw_price rec) (lw_slip_bps rec))"

definition route_order_failed :: "u32 list \<Rightarrow> gateway_state \<Rightarrow> order_failed_record \<Rightarrow> gateway_state" where
  "route_order_failed ks st rec =
     (let st0 = st\<lparr>gs_metrics := count_reject_code (gs_metrics st) (of_reason rec)\<rparr>;
          (removed, st1) = complete_pending ks st0 (of_user_id rec) (of_order_id_hi rec) (of_order_id_lo rec);
          (user_id, st2) = (case removed of
             Some order \<Rightarrow> (po_user_id order,
               st1\<lparr>gs_client_ids := ci_release (gs_client_ids st1) (po_user_id order) (po_client_order_id order) (po_order_id order)\<rparr>)
           | None \<Rightarrow> (of_user_id rec, st1))
      in push_to_user st2 user_id (update_frame (oid_hex (of_order_id_hi rec) (of_order_id_lo rec)) 3 0 0 (of_reason rec)))"

text \<open>The record that asks for a reload of the symbol table changes nothing here: the table arrives later.\<close>

definition route_event :: "u32 list \<Rightarrow> u64 \<Rightarrow> gateway_state \<Rightarrow> cast_event \<Rightarrow> gateway_state" where
  "route_event ks now_ns st e =
     (case e of
        CeFill rec \<Rightarrow> route_fill st rec now_ns
      | CeOrderDone rec \<Rightarrow> route_order_done ks st rec now_ns
      | CeOrderInserted rec \<Rightarrow> route_order_inserted ks st rec
      | CeOrderFailed rec \<Rightarrow> route_order_failed ks st rec
      | CeLiquidation rec \<Rightarrow> route_liquidation st rec
      | CeConfigApplied symbol_id config_version \<Rightarrow> st)"

section \<open>The reactor loop\<close>

fun notify_timed_out :: "pending_order list \<Rightarrow> gateway_state \<Rightarrow> gateway_state" where
  "notify_timed_out [] st = st"
| "notify_timed_out (order # stale) st =
     notify_timed_out stale
       (push_to_user (st\<lparr>gs_metrics := count_reject (gs_metrics st) Timeout\<rparr>) (po_user_id order)
         (update_frame (order_id_to_hex (po_order_id order)) 3 0 0 (failure_reason_u8 Timeout)))"

definition expire_stale_orders :: "u32 list \<Rightarrow> gateway_state \<Rightarrow> u64 \<Rightarrow> gateway_state" where
  "expire_stale_orders ks st cutoff_ns =
     (let (stale, p) = time_out ks (gs_pending st) cutoff_ns in notify_timed_out stale (st\<lparr>gs_pending := p\<rparr>))"

definition PENDING_SWEEP_INTERVAL_NS :: u64 where
  "PENDING_SWEEP_INTERVAL_NS = 100000000"

definition sweep :: "u32 list \<Rightarrow> gateway_state \<Rightarrow> u64 \<Rightarrow> u64 \<Rightarrow> gateway_state" where
  "sweep ks st now_ns order_timeout_ns =
     (let st1 = expire_stale_orders ks st (now_ns - order_timeout_ns) in
      st1\<lparr>gs_client_ids := expire (gs_client_ids st1) now_ns,
          gs_pending := drop_timed_out ks (gs_pending st1) (now_ns - WINDOW_NS)\<rparr>)"

definition publish_gauges :: "gateway_state \<Rightarrow> nat \<Rightarrow> gateway_state" where
  "publish_gauges st now =
     st\<lparr>gs_metrics := set_circuit_state ((gs_metrics st)\<lparr>gm_resting_orders := pd_resting (gs_pending st)\<rparr>) (circuit_state_at (gs_circuit st) now)\<rparr>"

text \<open>One iteration of the loop in \<open>main\<close>: what it finds in its queues and on its clocks.\<close>

record gw_config =
  gf_max_pending :: usize
  gf_circuit_threshold :: u32
  gf_circuit_cooldown_ms :: u64
  gf_rate_limit_per_user :: u32
  gf_rate_limit_per_ip :: u32
  gf_rate_limit_per_instance :: u32
  gf_max_outbound :: usize
  gf_order_timeout_ns :: u64
  gf_heartbeat_interval_ns :: u64
  gf_heartbeat_timeout_ns :: u64

text \<open>The state \<open>main\<close> builds before its loop starts.\<close>

definition gateway_boot :: "gw_config \<Rightarrow> symbol_table \<Rightarrow> nat \<Rightarrow> gateway_state" where
  "gateway_boot cfg symbols now =
     (let st = gateway_new (gf_max_pending cfg) (gf_circuit_threshold cfg) (gf_circuit_cooldown_ms cfg) symbols now;
          st1 = st\<lparr>gs_rate_limit_per_user := gf_rate_limit_per_user cfg, gs_rate_limit_per_ip := gf_rate_limit_per_ip cfg\<rparr>
      in (set_instance_rate_limit st1 (gf_rate_limit_per_instance cfg) now)\<lparr>gs_max_outbound := gf_max_outbound cfg\<rparr>)"

record gw_timers =
  gt_last_pending_sweep :: u64
  gt_last_heartbeat_ns :: u64

record gw_iteration =
  it_events :: "(u32 list \<times> cast_event) list"
  it_tables :: "symbol_table list"
  it_keys :: "u32 list"
  it_shutdown :: bool
  it_now :: nat
  it_now_ns :: u64

fun route_events :: "u64 \<Rightarrow> (u32 list \<times> cast_event) list \<Rightarrow> gateway_state \<Rightarrow> gateway_state" where
  "route_events now_ns [] st = st"
| "route_events now_ns ((ks, e) # es) st = route_events now_ns es (route_event ks now_ns st e)"

definition load_tables :: "symbol_table list \<Rightarrow> gateway_state \<Rightarrow> gateway_state" where
  "load_tables tables st = (if tables = [] then st else st\<lparr>gs_symbols := last tables\<rparr>)"

definition sweep_due :: "gw_timers \<Rightarrow> u64 \<Rightarrow> bool" where
  "sweep_due t now_ns \<longleftrightarrow> usize_sub now_ns (gt_last_pending_sweep t) \<ge> PENDING_SWEEP_INTERVAL_NS"

definition loop_sweep :: "gw_config \<Rightarrow> gw_iteration \<Rightarrow> gw_timers \<times> gateway_state \<Rightarrow> gw_timers \<times> gateway_state" where
  "loop_sweep cfg it s =
     (case s of (t, st) \<Rightarrow>
        if sweep_due t (it_now_ns it)
        then (t\<lparr>gt_last_pending_sweep := it_now_ns it\<rparr>, sweep (it_keys it) st (it_now_ns it) (gf_order_timeout_ns cfg))
        else (t, st))"

definition loop_heartbeat :: "gw_config \<Rightarrow> gw_iteration \<Rightarrow> gw_timers \<times> gateway_state \<Rightarrow> gw_timers \<times> gateway_state" where
  "loop_heartbeat cfg it s =
     (case s of (t, st) \<Rightarrow>
        if usize_sub (it_now_ns it) (gt_last_heartbeat_ns t) \<ge> gf_heartbeat_interval_ns cfg
        then (t\<lparr>gt_last_heartbeat_ns := it_now_ns it\<rparr>, broadcast_heartbeat st (it_now_ns it div 1000000))
        else (t, st))"

text \<open>The flag says that the process may exit; the loop then ends before the heartbeats.\<close>

definition reactor_iteration :: "gw_config \<Rightarrow> gw_iteration \<Rightarrow> gw_timers \<times> gateway_state \<Rightarrow> bool \<times> gw_timers \<times> gateway_state" where
  "reactor_iteration cfg it s =
     (let st1 = load_tables (it_tables it) (route_events (it_now_ns it) (it_events it) (snd s));
          (t2, st2) = loop_sweep cfg it (fst s, st1);
          (leaving, st3) = (if it_shutdown it
             then advance_shutdown st2 (it_now_ns it) (u64_add (gf_order_timeout_ns cfg) PENDING_SWEEP_INTERVAL_NS) else (False, st2))
      in if leaving then (True, t2, st3)
         else
           let (t4, st4) = loop_heartbeat cfg it (t2, st3);
               st5 = reap_idle_connections st4 (it_now_ns it - gf_heartbeat_timeout_ns cfg)
           in (False, t4, publish_gauges st5 (it_now it)))"

section \<open>Steps of the gateway\<close>

text \<open>
  Sessions and the reactor loop interleave at their await points only: a step is one frame of one session, the start or end of a session,
  the stamp of an inbound frame, the hand-over of queued frames to a socket, or one iteration of the loop.
\<close>

datatype gw_step =
    GsFrame nat u32 nat u64 order_id bool ws_frame
  | GsOpen u32 u64
  | GsClose u64
  | GsTouch u64 u64
  | GsDrain u64
  | GsLoop gw_iteration

fun gw_apply :: "gw_config \<Rightarrow> gw_step \<Rightarrow> gw_timers \<times> gateway_state \<Rightarrow> (gw_out \<times> gw_timers \<times> gateway_state) option" where
  "gw_apply cfg (GsFrame ip user_id now now_ns oid sent frame) (t, st) = do {
     (out, st1) \<leftarrow> handle_frame st ip user_id now now_ns oid sent frame;
     Some (out, t, st1)
   }"
| "gw_apply cfg (GsOpen user_id now_ns) (t, st) = Some (silent, t, snd (open_session st user_id now_ns))"
| "gw_apply cfg (GsClose conn_id) (t, st) = Some (silent, t, remove_connection st conn_id)"
| "gw_apply cfg (GsTouch conn_id now_ns) (t, st) = Some (silent, t, touch_connection st conn_id now_ns)"
| "gw_apply cfg (GsDrain conn_id) (t, st) =
     (case drain_outbound st conn_id of (msgs, st1) \<Rightarrow> Some (\<lparr>go_answer = msgs, go_forward = []\<rparr>, t, st1))"
| "gw_apply cfg (GsLoop it) (t, st) = Some (silent, snd (reactor_iteration cfg it (t, st)))"

fun gw_run :: "gw_config \<Rightarrow> gw_step list \<Rightarrow> gw_timers \<times> gateway_state \<Rightarrow> (gw_out list \<times> gw_timers \<times> gateway_state) option" where
  "gw_run cfg [] s = Some ([], s)"
| "gw_run cfg (e # es) s = do {
     (out, s1) \<leftarrow> gw_apply cfg e s;
     (outs, s2) \<leftarrow> gw_run cfg es s1;
     Some (out # outs, s2)
   }"

end
