(* ===== verification/Gateway_Inv.thy ===== *)
theory Gateway_Inv
  imports Gateway
begin

text \<open>
  The invariant of the gateway: connections and their queues within bounds, limiters within their rims, pending orders counted exactly, the
  breaker related to the failures it has seen. Every step keeps it, and so does every run from the state the process boots with.
\<close>

section \<open>Connections\<close>

definition conns_ok :: "usize \<Rightarrow> u64 \<Rightarrow> (u64 \<times> gw_connection) list \<Rightarrow> bool" where
  "conns_ok max_outbound next_id cs \<longleftrightarrow> distinct (map fst cs) \<and> (\<forall>(k, c)\<in>set cs. k < next_id \<and> length (gc_outbound c) \<le> max_outbound) \<and>
     (\<forall>u. length (filter (\<lambda>(k, c). gc_user_id c = u) cs) \<le> 5)"

lemma conns_ok_tail:
  assumes "conns_ok m n (e # cs)"
  shows "conns_ok m n cs"
proof -
  have "length (filter (\<lambda>(k, c). gc_user_id c = u) cs) \<le> length (filter (\<lambda>(k, c). gc_user_id c = u) (e # cs))" for u by simp
  moreover have "length (filter (\<lambda>(k, c). gc_user_id c = u) (e # cs)) \<le> 5" for u using assms unfolding conns_ok_def by blast
  ultimately have "length (filter (\<lambda>(k, c). gc_user_id c = u) cs) \<le> 5" for u by (rule le_trans)
  moreover have "distinct (map fst cs)" "\<forall>(k, c)\<in>set cs. k < n \<and> length (gc_outbound c) \<le> m" using assms by (simp_all add: conns_ok_def)
  ultimately show ?thesis unfolding conns_ok_def by blast
qed

text \<open>Any step that drops connections and keeps the users of the others, within the bound of the queue.\<close>

lemma conns_ok_filter_map:
  assumes ok: "conns_ok m n cs" and f: "\<And>k c k' c'. (k, c) \<in> set cs \<Longrightarrow> f (k, c) = Some (k', c') \<Longrightarrow> k' = k \<and> gc_user_id c' = gc_user_id c \<and> length (gc_outbound c') \<le> m"
  shows "conns_ok m n (List.map_filter f cs)"
proof -
  have "distinct (map fst (List.map_filter f cs)) \<and> fst ` set (List.map_filter f cs) \<subseteq> fst ` set cs \<and>
      (\<forall>(k, c)\<in>set (List.map_filter f cs). length (gc_outbound c) \<le> m) \<and>
      length (filter (\<lambda>(k, c). gc_user_id c = u) (List.map_filter f cs)) \<le> length (filter (\<lambda>(k, c). gc_user_id c = u) cs)" for u
    using ok f
  proof (induction cs)
    case Nil
    then show ?case by (simp add: List.map_filter_def)
  next
    case (Cons e cs)
    obtain k c where e: "e = (k, c)" by (cases e)
    have ok': "conns_ok m n cs" by (rule conns_ok_tail [OF Cons.prems(1)])
    note ih = Cons.IH [OF ok' Cons.prems(2)]
    show ?case
    proof (cases "f (k, c)")
      case None
      then show ?thesis using ih by (auto simp: e List.map_filter_simps)
    next
      case (Some r)
      obtain k' c' where r: "r = (k', c')" by (cases r)
      have "k' = k" "gc_user_id c' = gc_user_id c" "length (gc_outbound c') \<le> m" using Cons.prems(2) [of k c k' c'] Some r e by auto
      moreover have "k \<notin> fst ` set cs" using Cons.prems(1) by (simp add: conns_ok_def e)
      ultimately show ?thesis using ih Some r by (auto simp: e List.map_filter_simps)
    qed
  qed
  note F = this
  have s: "fst ` set (List.map_filter f cs) \<subseteq> fst ` set cs" using F by blast
  have "k < n \<and> length (gc_outbound c) \<le> m" if "(k, c) \<in> set (List.map_filter f cs)" for k c
  proof -
    have "k \<in> fst ` set cs" using s that by force
    then show ?thesis using ok F that unfolding conns_ok_def by fastforce
  qed
  moreover have "length (filter (\<lambda>(k, c). gc_user_id c = u) (List.map_filter f cs)) \<le> 5" for u
    using F [of u] ok unfolding conns_ok_def by (meson le_trans)
  ultimately show ?thesis using F unfolding conns_ok_def by blast
qed

lemma filter_as_map_filter: "filter P cs = List.map_filter (\<lambda>e. if P e then Some e else None) cs"
  by (induction cs) (simp_all add: List.map_filter_simps)

lemma map_as_map_filter: "map g cs = List.map_filter (\<lambda>e. Some (g e)) cs"
  by (induction cs) (simp_all add: List.map_filter_simps)

lemma map_entry_as_map: "distinct (map fst cs) \<Longrightarrow> AList.map_entry k g cs = map (\<lambda>(k', c). (k', if k' = k then g c else c)) cs"
proof (induction cs)
  case (Cons e cs)
  have "map (\<lambda>(k', c). (k', if k' = fst e then g c else c)) cs = cs"
  proof (rule map_idI)
    fix x assume "x \<in> set cs"
    then have "fst x \<in> fst ` set cs" by (rule imageI)
    moreover have "fst e \<notin> fst ` set cs" using Cons.prems by simp
    ultimately have "fst x \<noteq> fst e" by metis
    then show "(case x of (k', c) \<Rightarrow> (k', if k' = fst e then g c else c)) = x" by (cases x) simp
  qed
  then show ?case using Cons by (cases e) auto
qed simp

lemma conns_ok_filter: "conns_ok m n cs \<Longrightarrow> conns_ok m n (filter P cs)"
  unfolding filter_as_map_filter by (rule conns_ok_filter_map) (auto simp: conns_ok_def split: if_splits)

lemma conns_ok_entry:
  assumes "conns_ok m n cs" "\<And>c. gc_user_id (g c) = gc_user_id c \<and> length (gc_outbound (g c)) \<le> length (gc_outbound c)"
  shows "conns_ok m n (AList.map_entry k g cs)"
proof -
  have d: "distinct (map fst cs)" using assms(1) by (simp add: conns_ok_def)
  show ?thesis unfolding map_entry_as_map [OF d] map_as_map_filter
    by (rule conns_ok_filter_map [OF assms(1)]) (use assms in \<open>fastforce simp: conns_ok_def intro: le_trans split: if_splits\<close>)
qed

lemma conns_ok_queue:
  assumes "conns_ok (gs_max_outbound st) n (gs_connections st)"
  shows "conns_ok (gs_max_outbound st) n (gs_connections (queue_where st msg wanted))"
proof -
  have "gs_connections (queue_where st msg wanted) = List.map_filter (\<lambda>(k, conn).
      if wanted k conn then map_option (Pair k) (queue_outbound conn msg (gs_max_outbound st)) else Some (k, conn)) (gs_connections st)"
    by (simp add: queue_where_def)
  also have "conns_ok (gs_max_outbound st) n \<dots>"
    by (rule conns_ok_filter_map [OF assms])
      (use assms in \<open>fastforce simp: conns_ok_def queue_outbound_def signal_def split: if_splits\<close>)
  finally show ?thesis .
qed

lemma update_fresh_key: "k \<notin> fst ` set cs \<Longrightarrow> AList.update k v cs = cs @ [(k, v)]"
proof (induction cs)
  case (Cons e cs)
  then show ?case by (cases e) auto
qed simp

lemma set_update: "set (AList.update k v cs) \<subseteq> insert (k, v) (set cs)"
  by (induction cs) auto

lemma conns_ok_add:
  assumes ok: "conns_ok m n cs" and few: "length (filter (\<lambda>(k, c). gc_user_id c = u) cs) < 5"
  shows "conns_ok m (Suc n) (AList.update n \<lparr>gc_user_id = u, gc_outbound = [], gc_wake = False, gc_last_activity_ns = t\<rparr> cs)"
proof -
  have "n \<notin> fst ` set cs" using ok by (force simp: conns_ok_def)
  then show ?thesis using ok few by (auto simp: update_fresh_key conns_ok_def less_Suc_eq)
qed

section \<open>The invariant\<close>

definition ip_ok :: "u32 \<Rightarrow> (nat \<times> rate_limiter) list \<Rightarrow> nat list \<Rightarrow> bool" where
  "ip_ok r ls ips \<longleftrightarrow> distinct (map fst ls) \<and> distinct ips \<and> set ips = fst ` set ls \<and> length ls \<le> IP_LIMITER_MAX \<and> r \<le> u32_max \<and>
     (\<forall>e\<in>set ls. limiter_ok r r (snd e))"

definition limiters_ok :: "gateway_state \<Rightarrow> bool" where
  "limiters_ok st \<longleftrightarrow> ip_ok (gs_rate_limit_per_ip st) (gs_ip_limiters st) (gs_ip_limiter_order st) \<and>
     (\<forall>u l. gs_user_limiters st u = Some l \<longrightarrow> limiter_ok (gs_rate_limit_per_user st) (gs_rate_limit_per_user st) l) \<and>
     gs_rate_limit_per_user st \<le> u32_max \<and> (\<exists>rate. limiter_ok rate rate (gs_instance_limiter st))"

lemma ip_ok_add: "ip_ok r ls ips \<Longrightarrow> ip \<notin> fst ` set ls \<Longrightarrow> length ls < IP_LIMITER_MAX \<Longrightarrow> limiter_ok r r l \<Longrightarrow> ip_ok r (AList.update ip l ls) (ips @ [ip])"
  by (auto simp: ip_ok_def update_fresh_key)

lemma ip_ok_set:
  assumes "ip_ok r ls ips" "ip \<in> fst ` set ls" "limiter_ok r r l"
  shows "ip_ok r (AList.update ip l ls) ips"
proof -
  have "map fst (AList.update ip l ls) = map fst ls" using assms(2) by (simp add: update_keys)
  then have "length (AList.update ip l ls) = length ls" "fst ` set (AList.update ip l ls) = fst ` set ls" by (metis length_map, metis list.set_map)
  moreover have "\<forall>e\<in>set (AList.update ip l ls). limiter_ok r r (snd e)"
    using set_update [of ip l ls] assms(1,3) by (auto simp: ip_ok_def)
  ultimately show ?thesis using assms(1) \<open>map fst (AList.update ip l ls) = map fst ls\<close> by (simp add: ip_ok_def)
qed

lemma ip_ok_drop:
  assumes "ip_ok r ls (oldest # ips)"
  shows "ip_ok r (AList.delete oldest ls) ips" "length (AList.delete oldest ls) < length ls" "fst ` set (AList.delete oldest ls) \<subseteq> fst ` set ls"
proof -
  let ?d = "AList.delete oldest ls"
  have d: "set ?d \<subseteq> set ls" "distinct (map fst ?d)" "fst ` set ?d = fst ` set ls - {oldest}"
    using assms by (auto simp: AList.delete_eq ip_ok_def distinct_map_filter image_iff)
  have "oldest \<in> fst ` set ls" using assms by (auto simp: ip_ok_def)
  then have "card (fst ` set ?d) < card (fst ` set ls)" unfolding d(3) by (intro psubset_card_mono) auto
  moreover have "card (fst ` set ?d) = length ?d" "card (fst ` set ls) = length ls"
    using distinct_card [OF d(2)] distinct_card [of "map fst ls"] assms by (simp_all add: ip_ok_def)
  ultimately show l: "length ?d < length ls" by simp
  show "ip_ok r ?d ips" using assms d l by (auto simp: ip_ok_def)
  show "fst ` set ?d \<subseteq> fst ` set ls" using d(1) by (rule image_mono)
qed

definition table_ok :: "symbol_table \<Rightarrow> bool" where
  "table_ok tb \<longleftrightarrow> (\<forall>s e. tb s = Some e \<longrightarrow> symbol_config.sc_tick_size (sy_config e) \<noteq> 0 \<and> symbol_config.sc_lot_size (sy_config e) \<noteq> 0)"

definition gw_ok :: "nat \<Rightarrow> gateway_state \<Rightarrow> bool" where
  "gw_ok n st \<longleftrightarrow> pending_ok (gs_pending st) \<and> pd_count (gs_pending st) \<le> n \<and> gs_next_conn_id st \<le> n \<and>
     conns_ok (gs_max_outbound st) (gs_next_conn_id st) (gs_connections st) \<and> limiters_ok st \<and> table_ok (gs_symbols st) \<and>
     (\<exists>o1. breaker_rel (gs_circuit st) o1) \<and> length (gm_rejects (gs_metrics st)) = Suc OTHER_SLOT"

lemma gw_okI:
  assumes "gw_ok n st" and "pending_ok (gs_pending st')" "pd_count (gs_pending st') \<le> n" and "gs_next_conn_id st' \<le> n"
    "conns_ok (gs_max_outbound st') (gs_next_conn_id st') (gs_connections st')" "limiters_ok st'" "table_ok (gs_symbols st')"
    "\<exists>o1. breaker_rel (gs_circuit st') o1" "length (gm_rejects (gs_metrics st')) = Suc OTHER_SLOT"
  shows "gw_ok n st'"
  using assms by (simp add: gw_ok_def)

lemma gw_ok_mono: "gw_ok n st \<Longrightarrow> n \<le> n' \<Longrightarrow> gw_ok n' st"
  by (auto simp: gw_ok_def)

lemma gw_ok_new:
  assumes "table_ok symbols" "threshold \<le> u32_max"
  shows "gw_ok 0 (gateway_new max_pending threshold cooldown_ms symbols now)"
proof -
  have "limiter_ok 1000 1000 (limiter_new 1000 1000 now)" by (rule limiter_new_ok) (simp_all add: u32_max_def)
  then show ?thesis using assms circuit_new_rel [of threshold] pending_new_ok [of max_pending]
    by (auto simp: gw_ok_def gateway_new_def limiters_ok_def ip_ok_def conns_ok_def pending_new_def metrics_default_def IP_LIMITER_MAX_def
        DEFAULT_RATE_LIMIT_PER_INSTANCE_def u32_max_def)
qed

text \<open>The parts of the state an operation on the connections leaves alone.\<close>

lemma queue_where_fields [simp]:
  "gs_pending (queue_where st msg w) = gs_pending st" "gs_client_ids (queue_where st msg w) = gs_client_ids st"
  "gs_next_conn_id (queue_where st msg w) = gs_next_conn_id st" "gs_user_limiters (queue_where st msg w) = gs_user_limiters st"
  "gs_ip_limiters (queue_where st msg w) = gs_ip_limiters st" "gs_ip_limiter_order (queue_where st msg w) = gs_ip_limiter_order st"
  "gs_instance_limiter (queue_where st msg w) = gs_instance_limiter st" "gs_circuit (queue_where st msg w) = gs_circuit st"
  "gs_symbols (queue_where st msg w) = gs_symbols st" "gs_rate_limit_per_user (queue_where st msg w) = gs_rate_limit_per_user st"
  "gs_rate_limit_per_ip (queue_where st msg w) = gs_rate_limit_per_ip st" "gs_max_outbound (queue_where st msg w) = gs_max_outbound st"
  "gs_metrics (queue_where st msg w) = gs_metrics st" "gs_phase (queue_where st msg w) = gs_phase st"
  by (simp_all add: queue_where_def)

lemma gw_ok_queue [intro]: "gw_ok n st \<Longrightarrow> gw_ok n (queue_where st msg w)"
  by (auto simp: gw_ok_def limiters_ok_def conns_ok_queue)

lemma gw_ok_push [intro]: "gw_ok n st \<Longrightarrow> gw_ok n (push_to_user st u msg)"
  by (auto simp: push_to_user_def)

lemma gw_ok_metrics: "gw_ok n st \<Longrightarrow> length (gm_rejects m) = Suc OTHER_SLOT \<Longrightarrow> gw_ok n (st\<lparr>gs_metrics := m\<rparr>)"
  by (simp add: gw_ok_def limiters_ok_def)

lemma gw_ok_pending: "gw_ok n st \<Longrightarrow> pending_ok p \<Longrightarrow> pd_count p \<le> n' \<Longrightarrow> n \<le> n' \<Longrightarrow> gw_ok n' (st\<lparr>gs_pending := p\<rparr>)"
  by (auto simp: gw_ok_def limiters_ok_def)

lemma gw_ok_ids: "gw_ok n st \<Longrightarrow> gw_ok n (st\<lparr>gs_client_ids := c\<rparr>)"
  by (simp add: gw_ok_def limiters_ok_def)

lemma gw_ok_circuit: "gw_ok n st \<Longrightarrow> breaker_rel cb o1 \<Longrightarrow> gw_ok n (st\<lparr>gs_circuit := cb\<rparr>)"
  by (simp add: gw_ok_def limiters_ok_def del: split_paired_Ex) blast

lemma gw_ok_conns: "gw_ok n st \<Longrightarrow> conns_ok (gs_max_outbound st) (gs_next_conn_id st) cs \<Longrightarrow> gw_ok n (st\<lparr>gs_connections := cs\<rparr>)"
  by (simp add: gw_ok_def limiters_ok_def)

lemma gw_ok_connsD: "gw_ok n st \<Longrightarrow> conns_ok (gs_max_outbound st) (gs_next_conn_id st) (gs_connections st)"
  by (simp add: gw_ok_def)

lemma rejects_length [simp]: "length (gm_rejects (count_reject m r)) = length (gm_rejects m)"
  "length (gm_rejects (count_reject_code m c)) = length (gm_rejects m)" "length (gm_rejects (set_circuit_state m s)) = length (gm_rejects m)"
  by (simp_all add: count_reject_def count_reject_code_def set_circuit_state_def Let_def)

section \<open>Every step keeps the invariant\<close>

lemma ip_limiter_for_ok:
  assumes ok: "limiters_ok st"
  shows "limiters_ok (snd (ip_limiter_for st ip now)) \<and> limiter_ok (gs_rate_limit_per_ip st) (gs_rate_limit_per_ip st) (fst (ip_limiter_for st ip now)) \<and>
    ip \<in> fst ` set (gs_ip_limiters (snd (ip_limiter_for st ip now)))"
proof (cases "map_of (gs_ip_limiters st) ip")
  case (Some l)
  then have m: "(ip, l) \<in> set (gs_ip_limiters st)" by (rule map_of_SomeD)
  then have "limiter_ok (gs_rate_limit_per_ip st) (gs_rate_limit_per_ip st) l"
    using ok unfolding limiters_ok_def ip_ok_def by (metis snd_conv)
  then show ?thesis using ok Some image_eqI [OF _ m, of ip fst] by (simp add: ip_limiter_for_def)
next
  case None
  let ?r = "gs_rate_limit_per_ip st" and ?ls = "gs_ip_limiters st"
  let ?l = "limiter_new ?r ?r now"
  have n: "ip \<notin> fst ` set ?ls" using None by (simp add: map_of_eq_None_iff)
  have io: "ip_ok ?r ?ls (gs_ip_limiter_order st)" using ok by (simp add: limiters_ok_def)
  have new: "limiter_ok ?r ?r ?l" using io by (intro limiter_new_ok) (simp_all add: ip_ok_def)
  obtain ls ips where d: "ip_limiter_for st ip now = (?l, st\<lparr>gs_ip_limiter_order := ips @ [ip], gs_ip_limiters := AList.update ip ?l ls\<rparr>)"
      "ip_ok ?r ls ips" "ip \<notin> fst ` set ls" "length ls < IP_LIMITER_MAX"
  proof (cases "length ?ls \<ge> IP_LIMITER_MAX")
    case False
    then show ?thesis using that [of ?ls "gs_ip_limiter_order st"] io n None by (simp add: ip_limiter_for_def Let_def)
  next
    case True
    then obtain oldest ips where o: "gs_ip_limiter_order st = oldest # ips"
      using io by (cases "gs_ip_limiter_order st") (auto simp: ip_ok_def IP_LIMITER_MAX_def)
    note D = ip_ok_drop [OF io [unfolded o]]
    have "length (AList.delete oldest ?ls) < IP_LIMITER_MAX" using D(2) io by (simp add: ip_ok_def)
    then show ?thesis using that [of "AList.delete oldest ?ls" ips] D n None True o by (auto simp: ip_limiter_for_def Let_def)
  qed
  have "ip_ok ?r (AList.update ip ?l ls) (ips @ [ip])" by (rule ip_ok_add [OF d(2-4) new])
  then show ?thesis using ok d(1,3) new by (simp add: limiters_ok_def update_fresh_key)
qed

text \<open>
  The parts of the state that admission leaves alone, whatever it answers.
\<close>

definition same_ledgers :: "gateway_state \<Rightarrow> gateway_state \<Rightarrow> bool" where
  "same_ledgers st st' \<longleftrightarrow> gs_pending st' = gs_pending st \<and> gs_client_ids st' = gs_client_ids st \<and> gs_connections st' = gs_connections st \<and>
     gs_next_conn_id st' = gs_next_conn_id st \<and> gs_symbols st' = gs_symbols st \<and> gs_max_outbound st' = gs_max_outbound st \<and>
     gs_phase st' = gs_phase st \<and> gs_circuit st' = gs_circuit st \<and> gs_metrics st' = gs_metrics st"

lemma ip_limiter_for_same: "same_ledgers st (snd (ip_limiter_for st ip now))" "gs_rate_limit_per_ip (snd (ip_limiter_for st ip now)) = gs_rate_limit_per_ip st"
  "gs_instance_limiter (snd (ip_limiter_for st ip now)) = gs_instance_limiter st" "gs_user_limiters (snd (ip_limiter_for st ip now)) = gs_user_limiters st"
  "gs_rate_limit_per_user (snd (ip_limiter_for st ip now)) = gs_rate_limit_per_user st"
  by (simp_all add: ip_limiter_for_def same_ledgers_def Let_def split: option.split list.split)

lemma limiters_ok_ip: "limiters_ok st \<Longrightarrow> ip \<in> fst ` set (gs_ip_limiters st) \<Longrightarrow> limiter_ok (gs_rate_limit_per_ip st) (gs_rate_limit_per_ip st) l \<Longrightarrow>
    limiters_ok (st\<lparr>gs_ip_limiters := AList.update ip l (gs_ip_limiters st)\<rparr>)"
  by (simp add: limiters_ok_def ip_ok_set)

lemma limiters_ok_user: "limiters_ok st \<Longrightarrow> limiter_ok (gs_rate_limit_per_user st) (gs_rate_limit_per_user st) l \<Longrightarrow>
    limiters_ok (st\<lparr>gs_user_limiters := (gs_user_limiters st)(u \<mapsto> l)\<rparr>)"
  by (auto simp: limiters_ok_def)

lemma limiters_ok_instance: "limiters_ok st \<Longrightarrow> limiter_ok r r l \<Longrightarrow> limiters_ok (st\<lparr>gs_instance_limiter := l\<rparr>)"
  by (auto simp: limiters_ok_def)

lemma user_limiter_ok: "limiters_ok st \<Longrightarrow> limiter_ok (gs_rate_limit_per_user st) (gs_rate_limit_per_user st) (user_limiter_for st u now)"
  by (simp add: limiters_ok_def user_limiter_for_def limiter_new_ok split: option.split)

text \<open>
  Admission of a request. The limiters stay within their bounds, the rest of the state is untouched, and the instance's bucket is asked
  exactly when the other two let the request pass; it then decides.
\<close>

lemma admit_request_ok:
  assumes ok: "limiters_ok st" and n: "now \<le> u64_max"
  shows "limiters_ok (snd (admit_request st ip u now)) \<and> same_ledgers st (snd (admit_request st ip u now)) \<and>
    (gs_instance_limiter (snd (admit_request st ip u now)) = gs_instance_limiter st \<and> fst (admit_request st ip u now) = Inl RATE_LIMITED \<or>
     gs_instance_limiter (snd (admit_request st ip u now)) = snd (try_consume (gs_instance_limiter st) now) \<and>
       fst (admit_request st ip u now) = (if fst (try_consume (gs_instance_limiter st) now) then Inr () else Inl OVERLOADED))"
proof -
  obtain ipl st1 where 1: "ip_limiter_for st ip now = (ipl, st1)" by fastforce
  obtain a ipl1 where 2: "try_consume ipl now = (a, ipl1)" by fastforce
  note I = ip_limiter_for_ok [OF ok, of ip now, unfolded 1 fst_conv snd_conv] and S = ip_limiter_for_same [of st ip now, unfolded 1 snd_conv]
  define st2 where "st2 = st1\<lparr>gs_ip_limiters := AList.update ip ipl1 (gs_ip_limiters st1)\<rparr>"
  have "limiter_ok (gs_rate_limit_per_ip st1) (gs_rate_limit_per_ip st1) ipl1" using try_consume_ok(1) [of _ _ ipl now] I S(2) 2 n by (metis snd_conv)
  then have ok2: "limiters_ok st2" unfolding st2_def using I by (intro limiters_ok_ip) auto
  have s2: "same_ledgers st st2" "gs_instance_limiter st2 = gs_instance_limiter st" using S(1,3) by (simp_all add: same_ledgers_def st2_def)
  obtain b ul where 3: "try_consume (user_limiter_for st2 u now) now = (b, ul)" by fastforce
  define st3 where "st3 = st2\<lparr>gs_user_limiters := (gs_user_limiters st2)(u \<mapsto> ul)\<rparr>"
  have "limiter_ok (gs_rate_limit_per_user st2) (gs_rate_limit_per_user st2) ul"
    using try_consume_ok(1) [OF user_limiter_ok [OF ok2] n, of u now] 3 by simp
  then have ok3: "limiters_ok st3" unfolding st3_def by (rule limiters_ok_user [OF ok2])
  have s3: "same_ledgers st st3" "gs_instance_limiter st3 = gs_instance_limiter st" using s2 by (simp_all add: same_ledgers_def st3_def)
  obtain c il where 4: "try_consume (gs_instance_limiter st) now = (c, il)" by fastforce
  define st4 where "st4 = st3\<lparr>gs_instance_limiter := il\<rparr>"
  obtain r where "limiter_ok r r (gs_instance_limiter st3)" using ok3 by (auto simp: limiters_ok_def)
  then have "limiter_ok r r il" using try_consume_ok(1) [OF _ n] s3(2) 4 by (metis snd_conv)
  then have ok4: "limiters_ok st4" unfolding st4_def by (rule limiters_ok_instance [OF ok3])
  have s4: "same_ledgers st st4" "gs_instance_limiter st4 = il" using s3 by (simp_all add: same_ledgers_def st4_def)
  have "admit_request st ip u now = (if \<not> a then (Inl RATE_LIMITED, st2) else if \<not> b then (Inl RATE_LIMITED, st3)
      else if \<not> c then (Inl OVERLOADED, st4) else (Inr (), st4))"
    by (simp only: admit_request_def Let_def 1 prod.case 2 st2_def [symmetric] 3 st3_def [symmetric] s3(2) 4 st4_def [symmetric])
  then show ?thesis using ok2 s2 ok3 s3 ok4 s4 4 by simp
qed

lemma aligned_total: "tick \<noteq> 0 \<Longrightarrow> \<exists>r. validate_tick_alignment price tick = Some r" "lot \<noteq> 0 \<Longrightarrow> \<exists>r. validate_lot_alignment qty lot = Some r"
  by (auto simp: validate_tick_alignment_def validate_lot_alignment_def rem_by_def)

text \<open>Admission of an order: total; a repeat is recognised by its client id, and an order is let through only when there is room for it.\<close>

lemma admit_order_cases:
  assumes tb: "table_ok (gs_symbols st)" and cb: "breaker_rel (gs_circuit st) o1"
  obtains (repeated) oid where "admit_order st u s price qty k now = Some (Inr (AdmitDuplicate oid), st)" "ci_get (gs_client_ids st) u k = Some oid"
  | (refused) r where "admit_order st u s price qty k now = Some (Inl r, st)"
  | (admitted) "admit_order st u s price qty k now = Some (Inr AdmitNew, st\<lparr>gs_circuit := snd (allow (gs_circuit st) now)\<rparr>)"
      "ci_get (gs_client_ids st) u k = None" "gs_phase st = Serving" "\<not> pd_is_full (gs_pending st)" "fst (allow (gs_circuit st) now)"
proof (cases "ci_get (gs_client_ids st) u k")
  case (Some oid)
  then show ?thesis by (intro repeated) (simp_all add: admit_order_def)
next
  case None
  show ?thesis
  proof (cases "gs_phase st = Serving")
    case False
    then show ?thesis using None by (intro refused) (simp add: admit_order_def)
  next
    case serving: True
    show ?thesis
    proof (cases "gs_symbols st s")
      case No: None
      then show ?thesis using None serving by (intro refused) (simp add: admit_order_def)
    next
      case (Some e)
      then obtain t l where t: "validate_tick_alignment price (symbol_config.sc_tick_size (sy_config e)) = Some t"
          "validate_lot_alignment qty (symbol_config.sc_lot_size (sy_config e)) = Some l"
        using tb aligned_total unfolding table_ok_def by metis
      obtain ok cb' where a: "allow (gs_circuit st) now = (ok, cb')" by fastforce
      note A = allow_refines(2) [OF cb, of now, unfolded a fst_conv snd_conv]
      have e: "admit_order st u s price qty k now =
          (if \<not> t then Some (Inl (InvalidTickSize, 1008, ''price not tick aligned''), st)
           else if \<not> l then Some (Inl (InvalidLotSize, 1009, ''qty not lot aligned''), st)
           else if pd_is_full (gs_pending st) then Some (Inl OVERLOADED, st)
           else if \<not> ok then Some (Inl OVERLOADED, st\<lparr>gs_circuit := cb'\<rparr>) else Some (Inr AdmitNew, st\<lparr>gs_circuit := cb'\<rparr>))"
        using None serving Some t a by (simp add: admit_order_def)
      show ?thesis
      proof (cases "t \<and> l \<and> \<not> pd_is_full (gs_pending st) \<and> ok")
        case True
        then show ?thesis using e a None serving by (intro admitted) simp_all
      next
        case False
        then have "\<exists>r. admit_order st u s price qty k now = Some (Inl r, st)" using e A by (auto simp: OVERLOADED_def split: if_splits)
        then show ?thesis using refused by blast
      qed
    qed
  qed
qed

lemma attempt_allowed: "fst (allow cb now) \<Longrightarrow> snd (attempt cb now t ok) = (if ok then record_success (snd (allow cb now)) else record_failure (snd (allow cb now)) t)"
  by (cases "allow cb now") (simp add: attempt_def)

definition submitted_order :: "u32 \<Rightarrow> u32 \<Rightarrow> cid \<Rightarrow> order_id \<Rightarrow> u64 \<Rightarrow> pending_order" where
  "submitted_order u s k oid now_ns = \<lparr>po_order_id = oid, po_user_id = u, po_symbol_id = s, po_client_order_id = k, po_timestamp_ns = now_ns, po_stage = Submitted\<rparr>"

text \<open>
  What one request does to the shared state: it forwards no order and leaves the pending orders and the bindings as they were, or it
  forwards one order, which takes a pending slot and binds its client id.
\<close>

definition kept_quiet :: "gateway_state \<Rightarrow> gateway_state \<Rightarrow> gw_out \<Rightarrow> bool" where
  "kept_quiet st st' out \<longleftrightarrow> (\<forall>o1. ReqOrder o1 \<notin> set (go_forward out)) \<and> gs_pending st' = gs_pending st \<and> gs_client_ids st' = gs_client_ids st"

definition took_order :: "u32 \<Rightarrow> u32 \<Rightarrow> cid \<Rightarrow> order_id \<Rightarrow> u64 \<Rightarrow> gateway_state \<Rightarrow> gateway_state \<Rightarrow> gw_out \<Rightarrow> bool" where
  "took_order u s k oid now_ns st st' out \<longleftrightarrow>
     (\<exists>o1. go_forward out = [ReqOrder o1] \<and> oq_user_id o1 = u \<and> (oq_order_id_hi o1, oq_order_id_lo o1) = split_order_id oid) \<and>
     ci_get (gs_client_ids st) u k = None \<and> \<not> pd_is_full (gs_pending st) \<and> gs_phase st = Serving \<and>
     gs_pending st' = snd (push_pending (gs_pending st) (submitted_order u s k oid now_ns)) \<and>
     gs_client_ids st' = ci_insert (gs_client_ids st) u k oid now_ns"

text \<open>How the instance's bucket was used: not at all and nothing went out, or once, and nothing went out unless it gave a token.\<close>

definition metered :: "nat \<Rightarrow> gateway_state \<Rightarrow> gateway_state \<Rightarrow> gw_out \<Rightarrow> bool" where
  "metered now st st' out \<longleftrightarrow>
     gs_instance_limiter st' = gs_instance_limiter st \<and> go_forward out = [] \<or>
     gs_instance_limiter st' = snd (try_consume (gs_instance_limiter st) now) \<and>
       length (go_forward out) \<le> (if fst (try_consume (gs_instance_limiter st) now) then 1 else 0)"

definition others_same :: "gateway_state \<Rightarrow> gateway_state \<Rightarrow> bool" where
  "others_same st st' \<longleftrightarrow> gs_connections st' = gs_connections st \<and> gs_next_conn_id st' = gs_next_conn_id st \<and> gs_symbols st' = gs_symbols st \<and>
     gs_max_outbound st' = gs_max_outbound st \<and> gs_phase st' = gs_phase st"

lemma gw_ok_request:
  assumes ok: "gw_ok n st" and l: "limiters_ok st'" and s: "others_same st st'" and b: "breaker_rel (gs_circuit st') o1"
    and m: "length (gm_rejects (gs_metrics st')) = Suc OTHER_SLOT" and p: "pending_ok (gs_pending st')" "pd_count (gs_pending st') \<le> Suc n"
  shows "gw_ok (Suc n) st'"
  using assms unfolding gw_ok_def others_same_def by (simp del: split_paired_Ex) blast

lemma reject_request_simps [simp]: "go_forward (fst (reject_request st r)) = []" "gs_pending (snd (reject_request st r)) = gs_pending st"
  "gs_client_ids (snd (reject_request st r)) = gs_client_ids st" "gs_instance_limiter (snd (reject_request st r)) = gs_instance_limiter st"
  "limiters_ok (snd (reject_request st r)) = limiters_ok st" "others_same st' (snd (reject_request st r)) = others_same st' st"
  "gs_circuit (snd (reject_request st r)) = gs_circuit st" "length (gm_rejects (gs_metrics (snd (reject_request st r)))) = length (gm_rejects (gs_metrics st))"
  by (simp_all add: reject_request_def send_error_def answer_def limiters_ok_def others_same_def split: prod.split)

lemma answer_duplicate_simps [simp]: "go_forward (fst (answer_duplicate st oid k)) = []" "gs_pending (snd (answer_duplicate st oid k)) = gs_pending st"
  "gs_client_ids (snd (answer_duplicate st oid k)) = gs_client_ids st" "gs_instance_limiter (snd (answer_duplicate st oid k)) = gs_instance_limiter st"
  "limiters_ok (snd (answer_duplicate st oid k)) = limiters_ok st" "others_same st' (snd (answer_duplicate st oid k)) = others_same st' st"
  "gs_circuit (snd (answer_duplicate st oid k)) = gs_circuit st"
  "length (gm_rejects (gs_metrics (snd (answer_duplicate st oid k)))) = length (gm_rejects (gs_metrics st))"
  by (simp_all add: answer_duplicate_def answer_def limiters_ok_def others_same_def)

lemma order_sent_simps [simp]: "gs_pending (order_sent st u s k oid t) = snd (push_pending (gs_pending st) (submitted_order u s k oid t))"
  "gs_client_ids (order_sent st u s k oid t) = ci_insert (gs_client_ids st) u k oid t" "gs_circuit (order_sent st u s k oid t) = record_success (gs_circuit st)"
  "gs_instance_limiter (order_sent st u s k oid t) = gs_instance_limiter st" "limiters_ok (order_sent st u s k oid t) = limiters_ok st"
  "others_same st' (order_sent st u s k oid t) = others_same st' st"
  "length (gm_rejects (gs_metrics (order_sent st u s k oid t))) = length (gm_rejects (gs_metrics st))"
  by (simp_all add: order_sent_def submitted_order_def limiters_ok_def others_same_def Let_def)

lemma circuit_upd_simps [simp]: "limiters_ok (st\<lparr>gs_circuit := cb\<rparr>) = limiters_ok st" "others_same st' (st\<lparr>gs_circuit := cb\<rparr>) = others_same st' st"
  by (simp_all add: limiters_ok_def others_same_def)

lemma new_order_cases:
  assumes ok: "gw_ok n st" and n: "now \<le> u64_max" "n < u64_max"
  shows "\<exists>out st'. handle_new_order st ip u now now_ns oid sent s sd price qty cid tif ro po = Some (out, st') \<and> gw_ok (Suc n) st' \<and>
    (kept_quiet st st' out \<or> took_order u s (cid_bytes cid) oid now_ns st st' out) \<and> metered now st st' out"
proof -
  let ?h = "handle_new_order st ip u now now_ns oid sent s sd price qty cid tif ro po" and ?k = "cid_bytes cid"
  obtain o1 where cb: "breaker_rel (gs_circuit st) o1" using ok by (auto simp: gw_ok_def)
  have G: "limiters_ok st" "table_ok (gs_symbols st)" "length (gm_rejects (gs_metrics st)) = Suc OTHER_SLOT" "pending_ok (gs_pending st)"
    "pd_count (gs_pending st) \<le> n" using ok by (simp_all add: gw_ok_def)
  obtain r st1 where 1: "admit_request st ip u now = (r, st1)" by fastforce
  note A = admit_request_ok [OF G(1) n(1), of ip u, unfolded 1 fst_conv snd_conv]
  have S: "gs_pending st1 = gs_pending st" "gs_client_ids st1 = gs_client_ids st" "others_same st st1" "gs_circuit st1 = gs_circuit st"
    "gs_metrics st1 = gs_metrics st" "gs_symbols st1 = gs_symbols st" "gs_phase st1 = gs_phase st"
    using A by (simp_all add: same_ledgers_def others_same_def)
  have quiet: ?thesis if "?h = Some (out, st')" "kept_quiet st st' out" "limiters_ok st'" "others_same st st'" "breaker_rel (gs_circuit st') o2"
      "length (gm_rejects (gs_metrics st')) = Suc OTHER_SLOT" "metered now st st' out" for out st' o2
    using that gw_ok_request [OF ok that(3-6)] G by (auto simp: kept_quiet_def)
  show ?thesis
  proof (cases r)
    case (Inl rj)
    then have "?h = Some (reject_request st1 rj)" by (simp add: handle_new_order_def 1 Let_def)
    then show ?thesis using quiet [of "fst (reject_request st1 rj)" "snd (reject_request st1 rj)" o1] A S cb G
      by (auto simp: kept_quiet_def metered_def)
  next
    case (Inr w)
    have tok: "gs_instance_limiter st1 = snd (try_consume (gs_instance_limiter st) now)" "fst (try_consume (gs_instance_limiter st) now)"
      using A Inr by (auto split: if_splits)
    have cb1: "breaker_rel (gs_circuit st1) o1" "table_ok (gs_symbols st1)" using cb S G by simp_all
    from cb1(2,1) show ?thesis
    proof (cases rule: admit_order_cases [of st1 o1 u s price qty ?k now, consumes 2, case_names repeated refused admitted])
      case (repeated bound)
      then have "?h = Some (answer_duplicate st1 bound ?k)" by (simp add: handle_new_order_def 1 Inr Let_def)
      then show ?thesis using quiet [of "fst (answer_duplicate st1 bound ?k)" "snd (answer_duplicate st1 bound ?k)" o1] A S cb G tok
        by (simp add: kept_quiet_def metered_def)
    next
      case (refused rj)
      then have "?h = Some (reject_request st1 rj)" by (simp add: handle_new_order_def 1 Inr Let_def)
      then show ?thesis using quiet [of "fst (reject_request st1 rj)" "snd (reject_request st1 rj)" o1] A S cb G tok
        by (simp add: kept_quiet_def metered_def)
    next
      case admitted
      let ?cb = "snd (allow (gs_circuit st1) now)"
      let ?st2 = "st1\<lparr>gs_circuit := ?cb\<rparr>"
      have at: "breaker_rel (if ok then record_success ?cb else record_failure ?cb now)
          (if outage_allows (cb_threshold (gs_circuit st1)) (cb_cooldown (gs_circuit st1)) o1 now then outage_after ok now o1 else o1)" for ok
        using attempt_refines(2) [OF cb1(1), of now now ok] attempt_allowed [OF admitted(5), of now ok] by simp
      show ?thesis
      proof (cases sent)
        case False
        let ?st3 = "?st2\<lparr>gs_circuit := record_failure (gs_circuit ?st2) now\<rparr>"
        have "?h = Some (reject_request ?st3 NETWORK_ERROR)"
          using False admitted by (simp add: handle_new_order_def 1 Inr Let_def split: prod.split)
        then show ?thesis using quiet [of "fst (reject_request ?st3 NETWORK_ERROR)" "snd (reject_request ?st3 NETWORK_ERROR)"] at [of False] A S G tok
          by (simp add: kept_quiet_def metered_def)
      next
        case True
        let ?st3 = "order_sent ?st2 u s ?k oid now_ns"
        obtain hi lo where sp: "split_order_id oid = (hi, lo)" by fastforce
        obtain o2 where h: "?h = Some (\<lparr>go_answer = [], go_forward = [ReqOrder o2]\<rparr>, ?st3)" "oq_user_id o2 = u" "oq_order_id_hi o2 = hi" "oq_order_id_lo o2 = lo"
          using True admitted sp by (simp add: handle_new_order_def 1 Inr Let_def)
        have pc: "pd_count (gs_pending st) < u64_max" using G(5) n(2) by simp
        note P = push_pending_ok(2,4) [OF G(4) pc, of "submitted_order u s ?k oid now_ns"]
        have "gw_ok (Suc n) ?st3"
          by (rule gw_ok_request [OF ok]) (use A S G at [of True] P in \<open>simp_all\<close>)
        moreover have "took_order u s ?k oid now_ns st ?st3 \<lparr>go_answer = [], go_forward = [ReqOrder o2]\<rparr>"
          using admitted S h sp by (simp add: took_order_def)
        ultimately show ?thesis using h(1) tok by (auto simp: metered_def)
      qed
    qed
  qed
qed


lemma cancel_target_answers: "cancel_target st u key1 = Inl out \<Longrightarrow> go_forward out = []"
  by (auto simp: cancel_target_def send_error_def answer_def Let_def split: cancel_key.splits option.splits)

lemma cancel_cases:
  assumes ok: "gw_ok n st" and n: "now \<le> u64_max"
  shows "gw_ok (Suc n) (snd (handle_cancel st ip u now now_ns sent key1)) \<and>
    kept_quiet st (snd (handle_cancel st ip u now now_ns sent key1)) (fst (handle_cancel st ip u now now_ns sent key1)) \<and>
    metered now st (snd (handle_cancel st ip u now now_ns sent key1)) (fst (handle_cancel st ip u now now_ns sent key1))"
proof -
  let ?h = "handle_cancel st ip u now now_ns sent key1"
  obtain o1 where cb: "breaker_rel (gs_circuit st) o1" using ok by (auto simp: gw_ok_def)
  have G: "limiters_ok st" "length (gm_rejects (gs_metrics st)) = Suc OTHER_SLOT" "pending_ok (gs_pending st)" "pd_count (gs_pending st) \<le> n"
    using ok by (simp_all add: gw_ok_def)
  obtain r st1 where 1: "admit_request st ip u now = (r, st1)" by fastforce
  note A = admit_request_ok [OF G(1) n(1), of ip u, unfolded 1 fst_conv snd_conv]
  have S: "gs_pending st1 = gs_pending st" "gs_client_ids st1 = gs_client_ids st" "others_same st st1" "gs_circuit st1 = gs_circuit st" "gs_metrics st1 = gs_metrics st"
    using A by (simp_all add: same_ledgers_def others_same_def)
  show ?thesis
  proof (cases r)
    case (Inl rj)
    then have h: "?h = reject_request st1 rj" by (simp add: handle_cancel_def 1)
    have "gw_ok (Suc n) (snd (reject_request st1 rj))" by (rule gw_ok_request [OF ok]) (use A S G cb in simp_all)
    then show ?thesis using A S by (auto simp: h kept_quiet_def metered_def)
  next
    case (Inr w)
    then have tok: "gs_instance_limiter st1 = snd (try_consume (gs_instance_limiter st) now)" "fst (try_consume (gs_instance_limiter st) now)"
      using A by (auto split: if_splits)
    have ok1: "gw_ok (Suc n) st1" by (rule gw_ok_request [OF ok]) (use A S G cb in simp_all)
    show ?thesis
    proof (cases "cancel_target st1 u key1")
      case no: (Inl out)
      then have "?h = (out, st1)" by (simp add: handle_cancel_def 1 Inr)
      then show ?thesis using ok1 S tok cancel_target_answers [OF no] by (simp add: kept_quiet_def metered_def)
    next
      case found: (Inr t)
      then obtain out where "?h = (out, st1)" "go_forward out = [] \<or> (\<exists>c. go_forward out = [ReqCancel c])"
        using Inr 1 by (cases t; cases "split_order_id (snd t)"; cases sent) (simp_all add: handle_cancel_def send_error_def answer_def)
      then show ?thesis using ok1 S tok by (auto simp: kept_quiet_def metered_def)
    qed
  qed
qed

text \<open>One frame of a session, whatever it is.\<close>

lemma frame_cases:
  assumes ok: "gw_ok n st" and n: "now \<le> u64_max" "n < u64_max"
  shows "\<exists>out st'. handle_frame st ip u now now_ns oid sent f = Some (out, st') \<and> gw_ok (Suc n) st' \<and> metered now st st' out \<and>
    (kept_quiet st st' out \<or>
     (\<exists>s sd price qty cid tif ro po. f = WsNewOrder s sd price qty cid tif ro po \<and> took_order u s (cid_bytes cid) oid now_ns st st' out))"
proof -
  have up: "gw_ok (Suc n) st" using ok by (rule gw_ok_mono) simp
  show ?thesis
  proof (cases f)
    case (WsNewOrder s sd price qty cid tif ro po)
    then show ?thesis using new_order_cases [OF ok n, of ip u now_ns oid sent s sd price qty cid tif ro po] by (simp add: handle_frame_def) blast
  next
    case (WsCancel key1)
    then show ?thesis using cancel_cases [OF ok n(1), of ip u now_ns sent key1]
      by (cases "handle_cancel st ip u now now_ns sent key1") (simp add: handle_frame_def)
  qed (use up in \<open>simp_all add: handle_frame_def kept_quiet_def metered_def send_error_def answer_def\<close>)
qed

subsection \<open>Sessions\<close>

lemma touch_connection_ok: "gw_ok n st \<Longrightarrow> gw_ok n (touch_connection st k t)"
  unfolding touch_connection_def by (intro gw_ok_conns conns_ok_entry gw_ok_connsD) simp_all

lemma open_session_ok:
  assumes ok: "gw_ok n st" and n: "n < u64_max"
  shows "gw_ok (Suc n) (snd (open_session st u now_ns))"
proof (cases "length (conns_of st u) \<ge> 5")
  case True
  then show ?thesis using gw_ok_mono [OF ok] by (simp add: open_session_def add_connection_def)
next
  case False
  let ?c = "\<lparr>gc_user_id = u, gc_outbound = [], gc_wake = False, gc_last_activity_ns = 0\<rparr>"
  let ?st1 = "st\<lparr>gs_next_conn_id := u64_add (gs_next_conn_id st) 1, gs_connections := AList.update (gs_next_conn_id st) ?c (gs_connections st)\<rparr>"
  have "gs_next_conn_id st \<le> n" using ok by (simp add: gw_ok_def)
  then have id: "u64_add (gs_next_conn_id st) 1 = Suc (gs_next_conn_id st)" using n by (subst u64_add_id') (auto simp: u64_max_def)
  have "conns_ok (gs_max_outbound st) (Suc (gs_next_conn_id st)) (AList.update (gs_next_conn_id st) ?c (gs_connections st))"
    using False gw_ok_connsD [OF ok] by (intro conns_ok_add) (simp_all add: conns_of_def)
  then have "gw_ok (Suc n) ?st1" using ok id by (simp add: gw_ok_def limiters_ok_def)
  then have "gw_ok (Suc n) (touch_connection ?st1 i t)" for i t
    by (rule touch_connection_ok)
  then show ?thesis using False by (auto simp: open_session_def add_connection_def queue_heartbeat_def)
qed

lemma remove_connection_ok: "gw_ok n st \<Longrightarrow> gw_ok n (remove_connection st k)"
  unfolding remove_connection_def by (intro gw_ok_conns conns_ok_filter gw_ok_connsD)

lemma drain_outbound_ok: "gw_ok n st \<Longrightarrow> gw_ok n (snd (drain_outbound st k))"
  using gw_ok_conns [OF _ conns_ok_entry [OF gw_ok_connsD, of n st "\<lambda>c. c\<lparr>gc_outbound := []\<rparr>" k], of n]
  by (simp add: drain_outbound_def split: option.split)

subsection \<open>The loop\<close>

lemma route_event_ok:
  assumes ok: "gw_ok n st" and n: "n \<le> u64_max"
  shows "gw_ok n (route_event ks t st e)"
proof -
  have G: "pending_ok (gs_pending st)" "pd_count (gs_pending st) \<le> u64_max" "pd_count (gs_pending st) \<le> n" "length (gm_rejects (gs_metrics st)) = Suc OTHER_SLOT"
    using ok n by (auto simp: gw_ok_def)
  have cp: "gw_ok n (snd (complete_pending ks st' u hi lo))" if "gw_ok n st'" "gs_pending st' = gs_pending st" for st' u hi lo
    using remove_pending_ok(1,2) [OF G(1,2), of ks u "join_order_id hi lo"] that G(3) gw_ok_pending [OF that(1)]
    by (cases "remove_pending ks (gs_pending st) u (join_order_id hi lo)") (auto simp: complete_pending_def)
  show ?thesis
  proof (cases e)
    case (CeOrderInserted rec)
    have "gw_ok n (st\<lparr>gs_pending := snd (mark_resting ks (gs_pending st) (oi_user_id rec) (join_order_id (oi_order_id_hi rec) (oi_order_id_lo rec)))\<rparr>)"
      using mark_resting_ok [OF G(1,2)] G(3) by (intro gw_ok_pending [OF ok]) auto
    then show ?thesis using CeOrderInserted by (auto simp: route_event_def route_order_inserted_def Let_def)
  next
    case (CeOrderDone rec)
    then show ?thesis using ok cp [OF ok refl, of "od_user_id rec" "od_order_id_hi rec" "od_order_id_lo rec"]
      by (auto simp: route_event_def route_order_done_def split: prod.split)
  next
    case (CeOrderFailed rec)
    let ?st0 = "st\<lparr>gs_metrics := count_reject_code (gs_metrics st) (of_reason rec)\<rparr>"
    have "gw_ok n ?st0" using ok G(4) by (intro gw_ok_metrics) simp_all
    then have "gw_ok n (snd (complete_pending ks ?st0 (of_user_id rec) (of_order_id_hi rec) (of_order_id_lo rec)))" by (rule cp) simp
    then show ?thesis using CeOrderFailed gw_ok_ids
      by (auto simp: route_event_def route_order_failed_def Let_def split: prod.split option.split)
  qed (use ok in \<open>auto simp: route_event_def route_fill_def route_liquidation_def Let_def\<close>)
qed

lemma route_events_ok: "gw_ok n st \<Longrightarrow> n \<le> u64_max \<Longrightarrow> gw_ok n (route_events t es st)"
  by (induction t es st rule: route_events.induct) (simp_all add: route_event_ok)

lemma load_tables_ok: "gw_ok n st \<Longrightarrow> \<forall>tb\<in>set tables. table_ok tb \<Longrightarrow> gw_ok n (load_tables tables st)"
  by (auto simp: load_tables_def gw_ok_def limiters_ok_def)

lemma notify_timed_out_ok: "gw_ok n st \<Longrightarrow> gw_ok n (notify_timed_out xs st) \<and> gs_pending (notify_timed_out xs st) = gs_pending st \<and>
    gs_client_ids (notify_timed_out xs st) = gs_client_ids st \<and> gs_instance_limiter (notify_timed_out xs st) = gs_instance_limiter st"
proof (induction xs st rule: notify_timed_out.induct)
  case (2 x xs st)
  have "length (gm_rejects (gs_metrics st)) = Suc OTHER_SLOT" using 2(2) by (simp add: gw_ok_def)
  then have "gw_ok n (push_to_user (st\<lparr>gs_metrics := count_reject (gs_metrics st) Timeout\<rparr>) (po_user_id x)
      (update_frame (order_id_to_hex (po_order_id x)) 3 0 0 (failure_reason_u8 Timeout)))"
    using 2(2) by (intro gw_ok_push gw_ok_metrics) simp_all
  then show ?case using 2(1) by (simp add: push_to_user_def)
qed simp

lemma sweep_ok:
  assumes ok: "gw_ok n st" and n: "n \<le> u64_max" and it: "iterates ks (pd_by_user (gs_pending st))"
  shows "gw_ok n (sweep ks st t timeout)"
proof -
  have G: "pending_ok (gs_pending st)" "pd_count (gs_pending st) \<le> u64_max" "pd_count (gs_pending st) \<le> n" using ok n by (auto simp: gw_ok_def)
  obtain stale p where 1: "time_out ks (gs_pending st) (t - timeout) = (stale, p)" by fastforce
  note P = time_out_ok [OF G(1,2) it, of "t - timeout", unfolded 1 snd_conv]
  have d: "dom (pd_by_user p) = dom (pd_by_user (gs_pending st))" using 1 by (auto simp: time_out_def Let_def dom_def)
  have "gw_ok n (st\<lparr>gs_pending := p\<rparr>)" using P G(3) by (intro gw_ok_pending [OF ok]) auto
  note N = notify_timed_out_ok [OF this, of stale]
  have e: "expire_stale_orders ks st (t - timeout) = notify_timed_out stale (st\<lparr>gs_pending := p\<rparr>)" by (simp add: expire_stale_orders_def 1)
  have "iterates ks (pd_by_user p)" using it d by (simp add: iterates_def)
  then have "pending_ok (drop_timed_out ks p (t - WINDOW_NS)) \<and> pd_count (drop_timed_out ks p (t - WINDOW_NS)) \<le> pd_count p"
    using P G(2) by (intro drop_timed_out_ok) simp_all
  then have "gw_ok n ((notify_timed_out stale (st\<lparr>gs_pending := p\<rparr>))\<lparr>gs_client_ids := expire (gs_client_ids st) t,
      gs_pending := drop_timed_out ks p (t - WINDOW_NS)\<rparr>)"
    using P G(3) by (intro gw_ok_pending [OF gw_ok_ids, of n]) (use N in auto)
  then show ?thesis using N by (simp add: sweep_def e)
qed

lemma advance_shutdown_ok: "gw_ok n st \<Longrightarrow> gw_ok n (snd (advance_shutdown st t d))"
proof -
  assume ok: "gw_ok n st"
  have "conns_ok (gs_max_outbound st) (gs_next_conn_id st) (map (\<lambda>(k, c). (k, signal c)) (gs_connections st))"
    unfolding map_as_map_filter
    by (rule conns_ok_filter_map [OF gw_ok_connsD [OF ok]]) (use gw_ok_connsD [OF ok] in \<open>auto simp: conns_ok_def signal_def\<close>)
  then show "gw_ok n (snd (advance_shutdown st t d))" using ok by (auto simp: advance_shutdown_def gw_ok_def limiters_ok_def split: phase.split)
qed


text \<open>The stages of one iteration.\<close>

lemma reactor_stages:
  obtains t2 st2 lv st3 t4 st4 where
    "loop_sweep cfg it (fst s, load_tables (it_tables it) (route_events (it_now_ns it) (it_events it) (snd s))) = (t2, st2)"
    "(if it_shutdown it then advance_shutdown st2 (it_now_ns it) (u64_add (gf_order_timeout_ns cfg) PENDING_SWEEP_INTERVAL_NS) else (False, st2)) = (lv, st3)"
    "loop_heartbeat cfg it (t2, st3) = (t4, st4)"
    "reactor_iteration cfg it s = (if lv then (True, t2, st3)
       else (False, t4, publish_gauges (reap_idle_connections st4 (it_now_ns it - gf_heartbeat_timeout_ns cfg)) (it_now it)))"
proof -
  obtain t2 st2 where 2: "loop_sweep cfg it (fst s, load_tables (it_tables it) (route_events (it_now_ns it) (it_events it) (snd s))) = (t2, st2)" by fastforce
  obtain lv st3 where 3: "(if it_shutdown it then advance_shutdown st2 (it_now_ns it) (u64_add (gf_order_timeout_ns cfg) PENDING_SWEEP_INTERVAL_NS)
      else (False, st2)) = (lv, st3)" by fastforce
  obtain t4 st4 where 4: "loop_heartbeat cfg it (t2, st3) = (t4, st4)" by fastforce
  show thesis by (rule that [OF 2 3 4]) (simp only: reactor_iteration_def Let_def 2 prod.case 3 4)
qed

lemma reactor_iteration_ok:
  assumes ok: "gw_ok n (snd s)" and n: "n \<le> u64_max" and tb: "\<forall>tb\<in>set (it_tables it). table_ok tb"
    and it: "iterates (it_keys it) (pd_by_user (gs_pending (route_events (it_now_ns it) (it_events it) (snd s))))"
  shows "gw_ok n (snd (snd (reactor_iteration cfg it s)))"
proof -
  let ?st1 = "load_tables (it_tables it) (route_events (it_now_ns it) (it_events it) (snd s))"
  have 1: "gw_ok n ?st1" using load_tables_ok [OF route_events_ok [OF ok n] tb] .
  have "gs_pending ?st1 = gs_pending (route_events (it_now_ns it) (it_events it) (snd s))" by (simp add: load_tables_def)
  then have 2: "gw_ok n (snd (loop_sweep cfg it (fst s, ?st1)))" using sweep_ok [OF 1 n] 1 it by (simp add: loop_sweep_def)
  have 4: "gw_ok n (snd (loop_heartbeat cfg it (t, st)))" if "gw_ok n st" for t st
    using that by (auto simp: loop_heartbeat_def broadcast_heartbeat_def)
  have 5: "gw_ok n (publish_gauges (reap_idle_connections st c) d)" if "gw_ok n st" for st c d
  proof -
    have "gw_ok n (reap_idle_connections st c)"
      unfolding reap_idle_connections_def by (rule gw_ok_conns [OF that conns_ok_filter [OF gw_ok_connsD [OF that]]])
    moreover from this have "length (gm_rejects (gs_metrics (reap_idle_connections st c))) = Suc OTHER_SLOT" by (simp add: gw_ok_def)
    ultimately show ?thesis unfolding publish_gauges_def by (intro gw_ok_metrics) simp_all
  qed
  obtain t2 st2 lv st3 t4 st4 where r: "loop_sweep cfg it (fst s, ?st1) = (t2, st2)"
      "(if it_shutdown it then advance_shutdown st2 (it_now_ns it) (u64_add (gf_order_timeout_ns cfg) PENDING_SWEEP_INTERVAL_NS) else (False, st2)) = (lv, st3)"
      "loop_heartbeat cfg it (t2, st3) = (t4, st4)"
      "reactor_iteration cfg it s = (if lv then (True, t2, st3)
         else (False, t4, publish_gauges (reap_idle_connections st4 (it_now_ns it - gf_heartbeat_timeout_ns cfg)) (it_now it)))"
    by (rule reactor_stages)
  have "gw_ok n st3" using 2 r(1,2) advance_shutdown_ok [of n st2] by (auto split: if_splits) (metis snd_conv)
  then show ?thesis using r(3,4) 4 [of st3 t2] 5 [of st4] by simp
qed

section \<open>Runs\<close>

text \<open>
  What a step may assume of the outside: the monotonic clock fits in 64 bits, a symbol table has no zero tick or lot size, and the
  iteration order of the pending queues is one of that map.
\<close>

fun gw_step_ok :: "gw_step \<Rightarrow> gateway_state \<Rightarrow> bool" where
  "gw_step_ok (GsFrame ip u now now_ns oid sent f) st \<longleftrightarrow> now \<le> u64_max"
| "gw_step_ok (GsLoop it) st \<longleftrightarrow> (\<forall>tb\<in>set (it_tables it). table_ok tb) \<and>
     iterates (it_keys it) (pd_by_user (gs_pending (route_events (it_now_ns it) (it_events it) st)))"
| "gw_step_ok _ st \<longleftrightarrow> True"

fun run_ok :: "gw_config \<Rightarrow> gw_step list \<Rightarrow> gw_timers \<times> gateway_state \<Rightarrow> bool" where
  "run_ok cfg [] s \<longleftrightarrow> True"
| "run_ok cfg (e # es) s \<longleftrightarrow> gw_step_ok e (snd s) \<and> (case gw_apply cfg e s of Some (out, s1) \<Rightarrow> run_ok cfg es s1 | None \<Rightarrow> True)"

lemma gw_apply_ok:
  assumes ok: "gw_ok n (snd s)" and n: "n < u64_max" and e: "gw_step_ok e (snd s)"
  shows "\<exists>out s'. gw_apply cfg e s = Some (out, s') \<and> gw_ok (Suc n) (snd s')"
proof -
  obtain t st where s: "s = (t, st)" by fastforce
  have ok': "gw_ok n st" and up: "gw_ok (Suc n) st" using ok gw_ok_mono [OF ok, of "Suc n"] by (simp_all add: s)
  show ?thesis
  proof (cases e)
    case (GsFrame ip u now now_ns oid sent f)
    then have "now \<le> u64_max" using e by simp
    from frame_cases [OF ok' this n, of ip u now_ns oid sent f] obtain out st' where "handle_frame st ip u now now_ns oid sent f = Some (out, st')" "gw_ok (Suc n) st'" by blast
    then show ?thesis using GsFrame s by simp
  next
    case (GsLoop it)
    have "gw_ok n (snd (snd (reactor_iteration cfg it s)))"
      by (rule reactor_iteration_ok [OF ok]) (use e n GsLoop in simp_all)
    then have "gw_ok (Suc n) (snd (snd (reactor_iteration cfg it s)))" by (rule gw_ok_mono) simp
    then show ?thesis using GsLoop s by simp
  next
    case (GsDrain k)
    then show ?thesis using s drain_outbound_ok [OF up, of k] by (cases "drain_outbound st k") simp
  qed (use s open_session_ok [OF ok' n] remove_connection_ok [OF up] touch_connection_ok [OF up] in simp_all)
qed

lemma gw_run_ok:
  assumes "gw_ok n (snd s)" "n + length es \<le> u64_max" "run_ok cfg es s"
  shows "\<exists>outs s'. gw_run cfg es s = Some (outs, s') \<and> length outs = length es \<and> gw_ok (n + length es) (snd s')"
  using assms
proof (induction es arbitrary: n s)
  case (Cons e es)
  obtain out s1 where 1: "gw_apply cfg e s = Some (out, s1)" "gw_ok (Suc n) (snd s1)"
    using gw_apply_ok [OF Cons.prems(1), of e cfg] Cons.prems(2,3) by auto
  have "run_ok cfg es s1" using Cons.prems(3) 1(1) by simp
  from Cons.IH [OF 1(2) _ this] Cons.prems(2) obtain outs s' where
    "gw_run cfg es s1 = Some (outs, s')" "length outs = length es" "gw_ok (Suc n + length es) (snd s')" by auto
  then show ?case using 1(1) by simp
qed simp

lemma gw_run_ConsE:
  assumes "gw_run cfg (e # es) s = Some (outs, s')" "gw_ok n (snd s)" "n + length (e # es) \<le> u64_max" "run_ok cfg (e # es) s"
  obtains out s1 outs1 where "gw_apply cfg e s = Some (out, s1)" "gw_run cfg es s1 = Some (outs1, s')" "outs = out # outs1"
    "gw_step_ok e (snd s)" "run_ok cfg es s1" "n < u64_max" "Suc n + length es \<le> u64_max" "gw_ok (Suc n) (snd s1)"
proof -
  obtain out s1 outs1 where 1: "gw_apply cfg e s = Some (out, s1)" "gw_run cfg es s1 = Some (outs1, s')" "outs = out # outs1"
    using assms(1) by (auto split: bind_splits)
  have so: "gw_step_ok e (snd s)" "run_ok cfg es s1" and n: "n < u64_max" "Suc n + length es \<le> u64_max" using assms(3,4) 1(1) by auto
  have "gw_ok (Suc n) (snd s1)" using gw_apply_ok [OF assms(2) n(1) so(1), of cfg] 1(1) by auto
  then show thesis using that 1 so n by blast
qed

lemma gw_ok_boot:
  assumes "table_ok symbols" "gf_circuit_threshold cfg \<le> u32_max" "gf_rate_limit_per_user cfg \<le> u32_max" "gf_rate_limit_per_ip cfg \<le> u32_max"
    "gf_rate_limit_per_instance cfg \<le> u32_max"
  shows "gw_ok 0 (gateway_boot cfg symbols now)"
proof -
  have "limiter_ok (gf_rate_limit_per_instance cfg) (gf_rate_limit_per_instance cfg) (limiter_new (gf_rate_limit_per_instance cfg) (gf_rate_limit_per_instance cfg) now)"
    using assms by (intro limiter_new_ok)
  then show ?thesis using assms gw_ok_new [OF assms(1,2), of "gf_max_pending cfg" "gf_circuit_cooldown_ms cfg" now]
    by (auto simp: gw_ok_def gateway_boot_def set_instance_rate_limit_def limiters_ok_def ip_ok_def gateway_new_def conns_ok_def Let_def)
qed


text \<open>The configured bounds never change.\<close>

definition bounds_of :: "gateway_state \<Rightarrow> usize \<times> usize \<times> u32 \<times> u32" where
  "bounds_of st = (pd_capacity (gs_pending st), gs_max_outbound st, gs_rate_limit_per_user st, gs_rate_limit_per_ip st)"

lemma capacity_fixed [simp]:
  "pd_capacity (snd (push_pending p x)) = pd_capacity p" "pd_capacity (snd (remove_pending ks p u oid)) = pd_capacity p"
  "pd_capacity (snd (mark_resting ks p u oid)) = pd_capacity p" "pd_capacity (snd (time_out ks p c)) = pd_capacity p"
  "pd_capacity (drop_timed_out ks p c) = pd_capacity p"
  by (simp_all add: push_pending_def enter_def remove_pending_def mark_resting_def time_out_def drop_timed_out_def Let_def
      split: option.split prod.split pending_stage.split)

lemma bounds_queue [simp]: "bounds_of (queue_where st m w) = bounds_of st" "bounds_of (push_to_user st u m) = bounds_of st"
  by (simp_all add: bounds_of_def push_to_user_def)

lemma bounds_upd [simp]: "bounds_of (st\<lparr>gs_metrics := m\<rparr>) = bounds_of st" "bounds_of (st\<lparr>gs_client_ids := c\<rparr>) = bounds_of st"
  "bounds_of (st\<lparr>gs_circuit := cb\<rparr>) = bounds_of st" "bounds_of (st\<lparr>gs_connections := cs\<rparr>) = bounds_of st"
  "bounds_of (st\<lparr>gs_instance_limiter := l\<rparr>) = bounds_of st" "bounds_of (st\<lparr>gs_user_limiters := ls\<rparr>) = bounds_of st"
  "bounds_of (st\<lparr>gs_ip_limiters := is\<rparr>) = bounds_of st" "bounds_of (st\<lparr>gs_ip_limiter_order := ips\<rparr>) = bounds_of st"
  "bounds_of (st\<lparr>gs_next_conn_id := i\<rparr>) = bounds_of st" "bounds_of (st\<lparr>gs_symbols := tb\<rparr>) = bounds_of st"
  "bounds_of (st\<lparr>gs_phase := ph\<rparr>) = bounds_of st" "bounds_of (st\<lparr>gs_phase_ends_ns := t\<rparr>) = bounds_of st"
  "pd_capacity p = pd_capacity (gs_pending st) \<Longrightarrow> bounds_of (st\<lparr>gs_pending := p\<rparr>) = bounds_of st"
  by (simp_all add: bounds_of_def)

lemma bounds_admit: "bounds_of (snd (admit_request st ip u now)) = bounds_of st"
proof -
  have "bounds_of (snd (ip_limiter_for st ip now)) = bounds_of st"
    by (simp add: ip_limiter_for_def Let_def split: option.split list.split)
  then obtain l st1 where 1: "ip_limiter_for st ip now = (l, st1)" "bounds_of st1 = bounds_of st" by (metis prod.collapse)
  then show ?thesis by (simp add: admit_request_def Let_def split: prod.split)
qed

lemma bounds_frame: "handle_frame st ip u now now_ns oid sent f = Some (out, st') \<Longrightarrow> bounds_of st' = bounds_of st"
proof -
  assume h: "handle_frame st ip u now now_ns oid sent f = Some (out, st')"
  obtain r st1 where 1: "admit_request st ip u now = (r, st1)" by fastforce
  have b: "bounds_of st1 = bounds_of st" using bounds_admit [of st ip u now] 1 by simp
  have o: "bounds_of st2 = bounds_of st1" if "admit_order st1 u s price qty k now = Some (a, st2)" for s price qty k a st2
    using that by (auto simp: admit_order_def Let_def split: option.splits if_splits prod.splits bind_splits)
  show "bounds_of st' = bounds_of st"
  proof (cases f)
    case (WsNewOrder s sd price qty cid tif ro po)
    then have hn: "handle_new_order st ip u now now_ns oid sent s sd price qty cid tif ro po = Some (out, st')" using h by (simp add: handle_frame_def)
    show ?thesis
    proof (cases r)
      case (Inl rj)
      then show ?thesis using hn b by (auto simp: handle_new_order_def 1 reject_request_def Let_def split: prod.splits)
    next
      case (Inr w)
      then obtain a st2 where 2: "admit_order st1 u s price qty (cid_bytes cid) now = Some (a, st2)"
        using hn by (auto simp: handle_new_order_def 1 Let_def split: bind_splits)
      then have "bounds_of st' = bounds_of st2"
        using hn Inr by (auto simp: handle_new_order_def 1 Let_def reject_request_def answer_duplicate_def order_sent_def
            split: sum.splits admission.splits prod.splits if_splits)
      then show ?thesis using o [OF 2] b by simp
    qed
  next
    case (WsCancel key1)
    then show ?thesis using h b by (auto simp: handle_frame_def handle_cancel_def 1 reject_request_def Let_def split: sum.splits prod.splits if_splits)
  qed (use h in \<open>auto simp: handle_frame_def\<close>)
qed

lemma bounds_notify: "bounds_of (notify_timed_out xs st) = bounds_of st"
  by (induction xs st rule: notify_timed_out.induct) simp_all

lemma bounds_route: "bounds_of (route_event ks t st e) = bounds_of st"
proof -
  have "bounds_of (snd (complete_pending ks st' u hi lo)) = bounds_of st'" for st' u hi lo
  proof -
    obtain r p where p: "remove_pending ks (gs_pending st') u (join_order_id hi lo) = (r, p)" by fastforce
    have "pd_capacity p = pd_capacity (gs_pending st')" using capacity_fixed(2) [of ks "gs_pending st'" u "join_order_id hi lo"] p by simp
    then show ?thesis by (simp add: complete_pending_def p)
  qed
  then have "complete_pending ks st' u hi lo = (r, st1) \<Longrightarrow> bounds_of st1 = bounds_of st'" for st' u hi lo r st1 by (metis snd_conv)
  then show ?thesis
    by (auto simp: route_event_def route_fill_def route_order_done_def route_order_inserted_def route_order_failed_def route_liquidation_def Let_def
        split: cast_event.split prod.split option.split)
qed

lemma bounds_loop: "bounds_of (snd (snd (reactor_iteration cfg it s))) = bounds_of (snd s)"
proof -
  have r: "bounds_of (route_events t es st) = bounds_of st" for t es st
    by (induction t es st rule: route_events.induct) (simp_all add: bounds_route)
  have e: "bounds_of (expire_stale_orders ks st c) = bounds_of st" for ks st c
  proof -
    obtain stale p where p: "time_out ks (gs_pending st) c = (stale, p)" by fastforce
    have "pd_capacity p = pd_capacity (gs_pending st)" using capacity_fixed(4) [of ks "gs_pending st" c] p by simp
    then show ?thesis by (simp add: expire_stale_orders_def p bounds_notify)
  qed
  have sw: "bounds_of (snd (loop_sweep cfg it s1)) = bounds_of (snd s1)" for s1
  proof -
    have "bounds_of (sweep ks st t tmo) = bounds_of st" for ks st t tmo
    proof -
      let ?st1 = "expire_stale_orders ks st (t - tmo)"
      have "bounds_of (sweep ks st t tmo) = bounds_of (?st1\<lparr>gs_client_ids := expire (gs_client_ids ?st1) t\<rparr>)"
        by (simp only: sweep_def Let_def) (simp add: bounds_of_def)
      then show ?thesis using e by simp
    qed
    then show ?thesis by (cases s1) (simp add: loop_sweep_def)
  qed
  have sh: "bounds_of (snd (advance_shutdown st t d)) = bounds_of st" for st t d by (simp add: advance_shutdown_def split: phase.split)
  have hb: "bounds_of (snd (loop_heartbeat cfg it s1)) = bounds_of (snd s1)" for s1
    by (cases s1) (simp add: loop_heartbeat_def broadcast_heartbeat_def)
  have "bounds_of (load_tables tables st) = bounds_of st" for tables st by (simp add: load_tables_def)
  moreover have "bounds_of (publish_gauges (reap_idle_connections st c) d) = bounds_of st" for st c d
    by (simp add: publish_gauges_def reap_idle_connections_def)
  ultimately show ?thesis unfolding reactor_iteration_def Let_def using r sw sh hb by (auto split: prod.split) (metis snd_conv)+
qed


lemma bounds_apply: "gw_apply cfg e s = Some (out, s') \<Longrightarrow> bounds_of (snd s') = bounds_of (snd s)"
proof -
  assume a: "gw_apply cfg e s = Some (out, s')"
  obtain t st where s: "s = (t, st)" by fastforce
  show ?thesis
  proof (cases e)
    case (GsFrame ip u now now_ns oid sent f)
    then show ?thesis using a s bounds_frame by (auto split: bind_splits)
  next
    case (GsLoop it)
    then show ?thesis using a s bounds_loop [of cfg it s] by auto
  next
    case (GsOpen u t1)
    have "bounds_of (snd (open_session st u t1)) = bounds_of st"
      by (simp add: open_session_def add_connection_def queue_heartbeat_def touch_connection_def)
    then show ?thesis using a s GsOpen by auto
  qed (use a s in \<open>auto simp: remove_connection_def touch_connection_def drain_outbound_def split: option.splits prod.splits\<close>)
qed

lemma bounds_run: "gw_run cfg es s = Some (outs, s') \<Longrightarrow> bounds_of (snd s') = bounds_of (snd s)"
proof (induction es arbitrary: s outs)
  case (Cons e es)
  then obtain out s1 outs1 where "gw_apply cfg e s = Some (out, s1)" "gw_run cfg es s1 = Some (outs1, s')"
    by (auto split: bind_splits)
  then show ?case using bounds_apply Cons.IH by metis
qed simp

text \<open>C30: the gateway's books stay exact. From the state the process boots with, through any interleaving of client frames, sessions
  opening, closing and draining, and iterations of the reactor loop, with any minted ids, clocks, socket failures and records from risk, no
  step panics, and afterwards the counters of the pending orders are the numbers of orders in each stage, at most the configured number of
  orders is in flight, no user holds more than five connections and no connection queues more than the configured number of frames, the
  limiters per address are bounded and listed in order of arrival, and the circuit breaker is not left waiting for the outcome of a probe.\<close>

theorem gateway_sound:
  assumes "table_ok symbols" "gf_circuit_threshold cfg \<le> u32_max" "gf_rate_limit_per_user cfg \<le> u32_max" "gf_rate_limit_per_ip cfg \<le> u32_max"
    and "gf_rate_limit_per_instance cfg \<le> u32_max" "run_ok cfg es (t, gateway_boot cfg symbols now)" "length es \<le> u64_max"
  shows "\<exists>outs t' st'. gw_run cfg es (t, gateway_boot cfg symbols now) = Some (outs, t', st') \<and>
    pd_count (gs_pending st') = headcount (\<lambda>x. True) (pd_by_user (gs_pending st')) \<and>
    pd_in_flight (gs_pending st') = headcount (at_stage Submitted) (pd_by_user (gs_pending st')) \<and>
    pd_timed_out (gs_pending st') = headcount (at_stage TimedOut) (pd_by_user (gs_pending st')) \<and>
    pd_in_flight (gs_pending st') \<le> gf_max_pending cfg \<and>
    (\<forall>u. length (conns_of st' u) \<le> 5) \<and> (\<forall>(k, c)\<in>set (gs_connections st'). length (gc_outbound c) \<le> gf_max_outbound cfg) \<and>
    length (gs_ip_limiters st') \<le> IP_LIMITER_MAX \<and> set (gs_ip_limiter_order st') = fst ` set (gs_ip_limiters st') \<and>
    cb_state (gs_circuit st') \<noteq> CircuitHalfOpen"
proof -
  have "gw_ok 0 (gateway_boot cfg symbols now)" by (rule gw_ok_boot [OF assms(1-5)])
  with assms(6,7) obtain outs t' st' where r: "gw_run cfg es (t, gateway_boot cfg symbols now) = Some (outs, t', st')" and ok: "gw_ok (length es) st'"
    using gw_run_ok [of 0 "(t, gateway_boot cfg symbols now)" es cfg] by auto
  have "bounds_of st' = bounds_of (gateway_boot cfg symbols now)" using bounds_run [OF r] by simp
  then have b: "pd_capacity (gs_pending st') = gf_max_pending cfg" "gs_max_outbound st' = gf_max_outbound cfg"
    by (simp_all add: bounds_of_def gateway_boot_def gateway_new_def set_instance_rate_limit_def pending_new_def Let_def)
  have "cb_state (gs_circuit st') \<noteq> CircuitHalfOpen" using ok by (auto simp: gw_ok_def breaker_rel_def)
  moreover have "pending_ok (gs_pending st')" "conns_ok (gs_max_outbound st') (gs_next_conn_id st') (gs_connections st')"
    "ip_ok (gs_rate_limit_per_ip st') (gs_ip_limiters st') (gs_ip_limiter_order st')"
    using ok by (simp_all add: gw_ok_def limiters_ok_def)
  ultimately show ?thesis using r b by (intro exI [of _ outs] exI [of _ t'] exI [of _ st'])
      (auto simp: pending_ok_def conns_ok_def conns_of_def ip_ok_def)
qed

definition demo_gw :: gw_config where
  "demo_gw = \<lparr>gf_max_pending = 2, gf_circuit_threshold = 3, gf_circuit_cooldown_ms = 5, gf_rate_limit_per_user = 10, gf_rate_limit_per_ip = 100,
     gf_rate_limit_per_instance = 1000, gf_max_outbound = 8, gf_order_timeout_ns = 1000, gf_heartbeat_interval_ns = 1000,
     gf_heartbeat_timeout_ns = 5000\<rparr>"

definition demo_table :: symbol_table where
  "demo_table = (\<lambda>k. None)(1 \<mapsto> \<lparr>sy_config = symbol_config.make 1 2 2 5 10,
     sy_config_version = 1\<rparr>)"

definition demo_iteration :: gw_iteration where
  "demo_iteration = \<lparr>it_events = [], it_tables = [demo_table], it_keys = [], it_shutdown = False, it_now = 7, it_now_ns = 500000000\<rparr>"

definition demo_frame :: "nat \<Rightarrow> u64 \<Rightarrow> order_id \<Rightarrow> gw_step" where
  "demo_frame now now_ns oid = GsFrame 3 9 now now_ns oid True (WsNewOrder 1 0 50 20 ''a1'' 0 False False)"

definition demo_timers :: gw_timers where
  "demo_timers = \<lparr>gt_last_pending_sweep = 0, gt_last_heartbeat_ns = 0\<rparr>"

lemma demo_table_ok: "table_ok demo_table"
  by (simp add: table_ok_def demo_table_def symbol_config.defs)

lemma demo_limits: "gf_circuit_threshold demo_gw \<le> u32_max" "gf_rate_limit_per_user demo_gw \<le> u32_max" "gf_rate_limit_per_ip demo_gw \<le> u32_max"
  "gf_rate_limit_per_instance demo_gw \<le> u32_max"
  by (simp_all add: demo_gw_def u32_max_def)

lemma demo_run_ok: "run_ok demo_gw [GsOpen 9 400, GsLoop demo_iteration, demo_frame 20 600 (replicate 16 1)] (demo_timers, gateway_boot demo_gw demo_table 5)"
proof -
  have "pd_by_user (gs_pending (snd (open_session (gateway_boot demo_gw demo_table 5) 9 400))) = (\<lambda>u. None)"
    by (simp add: open_session_def add_connection_def queue_heartbeat_def touch_connection_def gateway_boot_def gateway_new_def pending_new_def
        set_instance_rate_limit_def Let_def)
  then show ?thesis
    by (simp add: demo_iteration_def demo_table_ok iterates_def demo_frame_def u64_max_def split: option.split prod.split)
qed

theorem gateway_sound_witness:
  "\<exists>outs t' st'. gw_run demo_gw [GsOpen 9 400, GsLoop demo_iteration, demo_frame 20 600 (replicate 16 1)] (demo_timers, gateway_boot demo_gw demo_table 5) =
      Some (outs, t', st') \<and> pd_in_flight (gs_pending st') \<le> 2"
  using gateway_sound [OF demo_table_ok demo_limits demo_run_ok] by (auto simp: demo_gw_def u64_max_def)

end
