(* ===== verification/Gateway_Props.thy ===== *)
theory Gateway_Props
  imports Gateway_Inv
begin

text \<open>
  What the gateway promises to risk and to its clients, over any interleaving of sessions and loop iterations: no more requests reach risk
  than the instance's rate allows, and a client order id is forwarded once per window.
\<close>

section \<open>Rate of requests\<close>

lemma meter_upd [simp]: "gs_instance_limiter (push_to_user st u m) = gs_instance_limiter st"
  "gs_instance_limiter (load_tables tables st) = gs_instance_limiter st" "gs_instance_limiter (publish_gauges st d) = gs_instance_limiter st"
  "gs_instance_limiter (reap_idle_connections st c) = gs_instance_limiter st" "gs_instance_limiter (broadcast_heartbeat st ts) = gs_instance_limiter st"
  "gs_instance_limiter (snd (advance_shutdown st t1 d1)) = gs_instance_limiter st"
  by (simp_all add: push_to_user_def load_tables_def publish_gauges_def reap_idle_connections_def broadcast_heartbeat_def advance_shutdown_def split: phase.split)

lemma meter_route: "gs_instance_limiter (route_event ks t st e) = gs_instance_limiter st"
  by (simp add: route_event_def route_fill_def route_order_done_def route_order_inserted_def route_order_failed_def route_liquidation_def
      complete_pending_def Let_def split: cast_event.split prod.split option.split)

lemma meter_routes: "gs_instance_limiter (route_events t es st) = gs_instance_limiter st"
  by (induction t es st rule: route_events.induct) (simp_all add: meter_route)

lemma meter_notify: "gs_instance_limiter (notify_timed_out xs st) = gs_instance_limiter st"
  by (induction xs st rule: notify_timed_out.induct) simp_all

lemma meter_loop: "gs_instance_limiter (snd (snd (reactor_iteration cfg it s))) = gs_instance_limiter (snd s)"
proof -
  have "gs_instance_limiter (sweep ks st t tmo) = gs_instance_limiter st" for ks st t tmo
    by (simp add: sweep_def expire_stale_orders_def meter_notify Let_def split: prod.split)
  then have sw: "gs_instance_limiter (snd (loop_sweep cfg it s1)) = gs_instance_limiter (snd s1)" for s1 by (cases s1) (simp add: loop_sweep_def)
  have hb: "gs_instance_limiter (snd (loop_heartbeat cfg it s1)) = gs_instance_limiter (snd s1)" for s1 by (cases s1) (simp add: loop_heartbeat_def)
  obtain t2 st2 lv st3 t4 st4 where r: "loop_sweep cfg it (fst s, load_tables (it_tables it) (route_events (it_now_ns it) (it_events it) (snd s))) = (t2, st2)"
      "(if it_shutdown it then advance_shutdown st2 (it_now_ns it) (u64_add (gf_order_timeout_ns cfg) PENDING_SWEEP_INTERVAL_NS) else (False, st2)) = (lv, st3)"
      "loop_heartbeat cfg it (t2, st3) = (t4, st4)"
      "reactor_iteration cfg it s = (if lv then (True, t2, st3)
         else (False, t4, publish_gauges (reap_idle_connections st4 (it_now_ns it - gf_heartbeat_timeout_ns cfg)) (it_now it)))"
    by (rule reactor_stages)
  have 2: "gs_instance_limiter st2 = gs_instance_limiter (snd s)" using sw [of "(fst s, load_tables (it_tables it) (route_events (it_now_ns it) (it_events it) (snd s)))"] r(1)
    by (simp add: meter_routes)
  have 3: "gs_instance_limiter st3 = gs_instance_limiter st2" using r(2) by (auto split: if_splits) (metis meter_upd(6) snd_conv)
  have "gs_instance_limiter st4 = gs_instance_limiter st3" using hb [of "(t2, st3)"] r(3) by simp
  then show ?thesis using 2 3 r(4) by simp
qed

fun frame_time :: "gw_step \<Rightarrow> nat option" where
  "frame_time (GsFrame ip u now now_ns oid sent f) = Some now"
| "frame_time _ = None"

definition frame_times :: "gw_step list \<Rightarrow> nat list" where
  "frame_times es = List.map_filter frame_time es"

definition forwarded :: "gw_out list \<Rightarrow> nat" where
  "forwarded outs = sum_list (map (\<lambda>out. length (go_forward out)) outs)"

lemma frame_times_simps [simp]: "frame_times [] = []" "frame_times (e # es) = (case frame_time e of Some t \<Rightarrow> t # frame_times es | None \<Rightarrow> frame_times es)"
  by (simp_all add: frame_times_def List.map_filter_simps split: option.split)

lemma metered_apply:
  assumes ok: "gw_ok n (snd s)" and n: "n < u64_max" and so: "gw_step_ok e (snd s)" and a: "gw_apply cfg e s = Some (out, s')"
  shows "case frame_time e of Some now \<Rightarrow> metered now (snd s) (snd s') out | None \<Rightarrow> gs_instance_limiter (snd s') = gs_instance_limiter (snd s) \<and> go_forward out = []"
proof -
  obtain t st where s: "s = (t, st)" by fastforce
  show ?thesis
  proof (cases e)
    case (GsFrame ip u now now_ns oid sent f)
    have "gw_ok n st" "now \<le> u64_max" using ok so GsFrame s by simp_all
    from frame_cases [OF this n, of ip u now_ns oid sent f] obtain out1 st1 where
      "handle_frame st ip u now now_ns oid sent f = Some (out1, st1)" "metered now st st1 out1" by blast
    then show ?thesis using a GsFrame s by auto
  next
    case (GsLoop it)
    then show ?thesis using a s meter_loop [of cfg it s] by (auto simp: silent_def)
  next
    case (GsOpen u t1)
    have "gs_instance_limiter (snd (open_session st u t1)) = gs_instance_limiter st"
      by (simp add: open_session_def add_connection_def queue_heartbeat_def touch_connection_def)
    then show ?thesis using a s GsOpen by (auto simp: silent_def)
  qed (use a s in \<open>auto simp: silent_def remove_connection_def touch_connection_def drain_outbound_def split: option.splits prod.splits\<close>)
qed

lemma run_rate:
  assumes "gw_ok n (snd s)" "n + length es \<le> u64_max" "run_ok cfg es s" "gw_run cfg es s = Some (outs, s')"
    "limiter_ok r r (gs_instance_limiter (snd s))" "sorted (rl_last_refill (gs_instance_limiter (snd s)) # frame_times es)"
    "\<forall>t\<in>set (frame_times es). t \<le> T" "rl_last_refill (gs_instance_limiter (snd s)) \<le> T" "T \<le> u64_max"
  shows "1000000 * int (forwarded outs) \<le> rl_tokens (gs_instance_limiter (snd s)) + int r * int ((T - rl_last_refill (gs_instance_limiter (snd s))) div 1000)"
  using assms
proof (induction es arbitrary: n s outs)
  case Nil
  then show ?case by (simp add: forwarded_def limiter_ok_def)
next
  case (Cons e es)
  let ?l = "gs_instance_limiter (snd s)"
  obtain out s1 outs1 where 1: "gw_apply cfg e s = Some (out, s1)" "gw_run cfg es s1 = Some (outs1, s')" "outs = out # outs1"
      and so: "gw_step_ok e (snd s)" "run_ok cfg es s1" and n: "n < u64_max" "Suc n + length es \<le> u64_max" and ok1: "gw_ok (Suc n) (snd s1)"
    by (rule gw_run_ConsE [OF Cons.prems(4,1-3)])
  let ?l1 = "gs_instance_limiter (snd s1)"
  note M = metered_apply [OF Cons.prems(1) n(1) so(1) 1(1)]
  have same: ?case if "?l1 = ?l" "go_forward out = []"
  proof -
    have "1000000 * int (forwarded outs1) \<le> rl_tokens ?l1 + int r * int ((T - rl_last_refill ?l1) div 1000)"
      by (rule Cons.IH [OF ok1 n(2) so(2) 1(2)]) (use Cons.prems(5-9) that in \<open>auto split: option.splits\<close>)
    then show ?thesis using that 1(3) by (simp add: forwarded_def)
  qed
  show ?case
  proof (cases "frame_time e")
    case None
    then show ?thesis using M same by simp
  next
    case (Some now)
    have w: "now \<le> u64_max" "rl_last_refill ?l \<le> now" "now \<le> T" using Cons.prems(6-9) Some by auto
    show ?thesis
    proof (cases "?l1 = ?l \<and> go_forward out = []")
      case True
      then show ?thesis using same by blast
    next
      case False
      then have l1: "?l1 = snd (try_consume ?l now)" and le: "length (go_forward out) \<le> (if fst (try_consume ?l now) then 1 else 0)"
        using M Some by (auto simp: metered_def)
      note T = try_consume_ok [OF Cons.prems(5) w(1), folded l1]
      have ih: "1000000 * int (forwarded outs1) \<le> rl_tokens ?l1 + int r * int ((T - rl_last_refill ?l1) div 1000)"
        by (rule Cons.IH [OF ok1 n(2) so(2) 1(2) T(1)]) (use Cons.prems(6-9) Some T(2) in auto)
      have "int r * int ((now - rl_last_refill ?l) div 1000) + int r * int ((T - now) div 1000) \<le> int r * int ((T - rl_last_refill ?l) div 1000)"
        using div_steps [OF w(2,3)] by (simp add: distrib_left [symmetric] mult_left_mono del: of_nat_add add: of_nat_add [symmetric])
      moreover have "1000000 * int (length (go_forward out)) \<le> 1000000 * (if fst (try_consume ?l now) then 1 else 0)" using le by (auto split: if_splits)
      ultimately show ?thesis using ih T(2,3) 1(3) by (simp add: forwarded_def distrib_left split: if_splits)
    qed
  qed
qed

text \<open>C31: risk is never flooded. Whatever the clients of a gateway send, from however many users, addresses and connections, the number of
  orders and cancels forwarded to risk between the boot and a time \<open>T\<close> of the monotonic clock is at most the configured rate per second
  times one second more than the time that has passed: a burst of one second's worth, then the rate.\<close>

theorem request_rate_bounded:
  assumes "table_ok symbols" "gf_circuit_threshold cfg \<le> u32_max" "gf_rate_limit_per_user cfg \<le> u32_max" "gf_rate_limit_per_ip cfg \<le> u32_max"
    and "gf_rate_limit_per_instance cfg \<le> u32_max" "run_ok cfg es (t, gateway_boot cfg symbols now)" "length es \<le> u64_max"
    and "gw_run cfg es (t, gateway_boot cfg symbols now) = Some (outs, s')"
    and "sorted (now # frame_times es)" "\<forall>t\<in>set (frame_times es). t \<le> T" "now \<le> T" "T \<le> u64_max"
  shows "1000000 * int (forwarded outs) \<le> int (gf_rate_limit_per_instance cfg) * (1000000 + int ((T - now) div 1000))"
proof -
  let ?r = "gf_rate_limit_per_instance cfg"
  let ?l = "limiter_new ?r ?r now"
  have ok: "gw_ok 0 (gateway_boot cfg symbols now)" by (rule gw_ok_boot [OF assms(1-5)])
  have l: "gs_instance_limiter (gateway_boot cfg symbols now) = ?l" by (simp add: gateway_boot_def set_instance_rate_limit_def Let_def)
  have lo: "limiter_ok ?r ?r ?l" using assms(5) by (intro limiter_new_ok)
  have f: "rl_last_refill ?l = now" "rl_tokens ?l = rl_capacity ?l" by (simp_all add: limiter_new_def Let_def)
  have "1000000 * int (forwarded outs) \<le> rl_tokens ?l + int ?r * int ((T - now) div 1000)"
    using run_rate [of 0 "(t, gateway_boot cfg symbols now)" es cfg outs s' ?r T] ok l lo f assms(6-12) by simp
  then show ?thesis using lo f by (simp add: limiter_ok_def distrib_left mult.commute)
qed

theorem request_rate_bounded_witness:
  "\<exists>outs s'. gw_run demo_gw [GsOpen 9 400, GsLoop demo_iteration, demo_frame 20 600 (replicate 16 1)] (demo_timers, gateway_boot demo_gw demo_table 5) = Some (outs, s') \<and>
     1000000 * int (forwarded outs) \<le> int 1000 * (1000000 + int ((30 - 5) div 1000))"
proof -
  let ?es = "[GsOpen 9 400, GsLoop demo_iteration, demo_frame 20 600 (replicate 16 1)]" and ?s = "(demo_timers, gateway_boot demo_gw demo_table 5)"
  have "length ?es \<le> u64_max" by (simp add: u64_max_def)
  then obtain outs s' where r: "gw_run demo_gw ?es ?s = Some (outs, s')"
    using gw_run_ok [of 0 ?s ?es demo_gw] gw_ok_boot [OF demo_table_ok demo_limits, of 5] demo_run_ok by auto
  have "1000000 * int (forwarded outs) \<le> int (gf_rate_limit_per_instance demo_gw) * (1000000 + int ((30 - 5) div 1000))"
    by (rule request_rate_bounded [OF demo_table_ok demo_limits demo_run_ok _ r]) (simp_all add: demo_frame_def u64_max_def)
  then show ?thesis using r by (auto simp: demo_gw_def)
qed


section \<open>One order per client order id\<close>

definition bound_to :: "u32 \<Rightarrow> cid \<Rightarrow> order_id \<Rightarrow> u64 \<Rightarrow> gateway_state \<Rightarrow> bool" where
  "bound_to u k oid t0 st \<longleftrightarrow> ci_bindings (gs_client_ids st) (u, k) = Some \<lparr>bn_order_id = oid, bn_bound_ns = t0\<rparr>"

lemma remove_pending_id: "fst (remove_pending ks p u oid) = Some x \<Longrightarrow> po_order_id x = oid"
proof -
  assume a: "fst (remove_pending ks p u oid) = Some x"
  then obtain m where r: "in_queues (\<lambda>q. remove_from q oid) (pd_by_user p) (u # ks) = Some (x, m)"
    by (auto simp: remove_pending_def split: option.splits simp del: in_queues.simps)
  then obtain q q' where "remove_from q oid = Some (x, q')" using in_queues_Some [OF r] by blast
  then show "po_order_id x = oid" using remove_from_Some by blast
qed

lemma release_keeps: "ci_bindings c key1 = Some b \<Longrightarrow> bn_order_id b \<noteq> oid \<Longrightarrow> ci_bindings (ci_release c u k oid) key1 = Some b"
  by (auto simp: ci_release_def split: option.split)

lemma expire_keeps: "ci_bindings c key1 = Some b \<Longrightarrow> now - WINDOW_NS \<le> bn_bound_ns b \<Longrightarrow> ci_bindings (expire c now) key1 = Some b"
proof -
  have "m key1 = Some b \<Longrightarrow> cutoff \<le> bn_bound_ns b \<Longrightarrow> ci_bindings (expire_loop cutoff m ins) key1 = Some b" for cutoff m ins
  proof (induction cutoff m ins rule: expire_loop.induct)
    case (2 cutoff m t k ins)
    have "(case m k of Some b1 \<Rightarrow> if bn_bound_ns b1 = t then m(k := None) else m | None \<Rightarrow> m) key1 = Some b" if "\<not> cutoff \<le> t"
      using 2(2,3) that by (cases "key1 = k") (auto split: option.split)
    then show ?case using 2 by simp
  qed simp
  then show "ci_bindings c key1 = Some b \<Longrightarrow> now - WINDOW_NS \<le> bn_bound_ns b \<Longrightarrow> ci_bindings (expire c now) key1 = Some b" by (simp add: expire_def)
qed

text \<open>Nothing in the iteration says that the order failed, and its window is still open.\<close>

fun names_failure :: "order_id \<Rightarrow> cast_event \<Rightarrow> bool" where
  "names_failure oid (CeOrderFailed rec) \<longleftrightarrow> join_order_id (of_order_id_hi rec) (of_order_id_lo rec) = oid"
| "names_failure oid _ \<longleftrightarrow> False"

fun in_window :: "u64 \<Rightarrow> order_id \<Rightarrow> gw_step \<Rightarrow> bool" where
  "in_window t0 oid (GsLoop it) \<longleftrightarrow> it_now_ns it \<le> t0 + WINDOW_NS \<and> list_all (\<lambda>(ks, e). \<not> names_failure oid e) (it_events it)"
| "in_window t0 oid _ \<longleftrightarrow> True"

lemma ids_upd [simp]: "gs_client_ids (push_to_user st u m) = gs_client_ids st"
  "gs_client_ids (load_tables tables st) = gs_client_ids st" "gs_client_ids (publish_gauges st d) = gs_client_ids st"
  "gs_client_ids (reap_idle_connections st c) = gs_client_ids st" "gs_client_ids (broadcast_heartbeat st ts) = gs_client_ids st"
  "gs_client_ids (snd (advance_shutdown st t1 d1)) = gs_client_ids st"
  by (simp_all add: push_to_user_def load_tables_def publish_gauges_def reap_idle_connections_def broadcast_heartbeat_def advance_shutdown_def split: phase.split)

lemma bound_route:
  assumes "bound_to u k oid t0 st" "\<not> names_failure oid e"
  shows "bound_to u k oid t0 (route_event ks t st e)"
proof (cases e)
  case (CeOrderFailed rec)
  let ?st0 = "st\<lparr>gs_metrics := count_reject_code (gs_metrics st) (of_reason rec)\<rparr>" and ?id = "join_order_id (of_order_id_hi rec) (of_order_id_lo rec)"
  obtain rm p where r: "remove_pending ks (gs_pending st) (of_user_id rec) ?id = (rm, p)" by fastforce
  show ?thesis
  proof (cases rm)
    case None
    then show ?thesis using assms r CeOrderFailed
      by (simp add: route_event_def route_order_failed_def complete_pending_def bound_to_def Let_def)
  next
    case (Some x)
    then have "po_order_id x = ?id" using remove_pending_id [of ks "gs_pending st" "of_user_id rec" ?id x] r by simp
    then have "oid \<noteq> po_order_id x" using assms(2) CeOrderFailed by auto
    then show ?thesis using assms(1) r Some CeOrderFailed
      by (simp add: route_event_def route_order_failed_def complete_pending_def bound_to_def Let_def release_keeps)
  qed
qed (use assms in \<open>simp_all add: bound_to_def route_event_def route_fill_def route_order_done_def route_order_inserted_def route_liquidation_def
    complete_pending_def Let_def split: prod.split\<close>)

lemma bound_routes: "bound_to u k oid t0 st \<Longrightarrow> list_all (\<lambda>(ks, e). \<not> names_failure oid e) es \<Longrightarrow> bound_to u k oid t0 (route_events t es st)"
  by (induction t es st rule: route_events.induct) (simp_all add: bound_route)

lemma ids_notify: "gs_client_ids (notify_timed_out xs st) = gs_client_ids st"
  by (induction xs st rule: notify_timed_out.induct) simp_all

lemma bound_loop:
  assumes b: "bound_to u k oid t0 (snd s)" and w: "in_window t0 oid (GsLoop it)"
  shows "bound_to u k oid t0 (snd (snd (reactor_iteration cfg it s)))"
proof -
  obtain t2 st2 lv st3 t4 st4 where r: "loop_sweep cfg it (fst s, load_tables (it_tables it) (route_events (it_now_ns it) (it_events it) (snd s))) = (t2, st2)"
      "(if it_shutdown it then advance_shutdown st2 (it_now_ns it) (u64_add (gf_order_timeout_ns cfg) PENDING_SWEEP_INTERVAL_NS) else (False, st2)) = (lv, st3)"
      "loop_heartbeat cfg it (t2, st3) = (t4, st4)"
      "reactor_iteration cfg it s = (if lv then (True, t2, st3)
         else (False, t4, publish_gauges (reap_idle_connections st4 (it_now_ns it - gf_heartbeat_timeout_ns cfg)) (it_now it)))"
    by (rule reactor_stages)
  have 1: "bound_to u k oid t0 (load_tables (it_tables it) (route_events (it_now_ns it) (it_events it) (snd s)))" (is "bound_to u k oid t0 ?st1")
    using bound_routes [OF b] w by (simp add: bound_to_def)
  have c: "it_now_ns it - WINDOW_NS \<le> t0" using w by (simp add: le_diff_conv)
  have "gs_client_ids (sweep (it_keys it) ?st1 (it_now_ns it) (gf_order_timeout_ns cfg)) = expire (gs_client_ids ?st1) (it_now_ns it)"
    by (simp add: sweep_def expire_stale_orders_def ids_notify Let_def split: prod.split)
  then have "bound_to u k oid t0 (sweep (it_keys it) ?st1 (it_now_ns it) (gf_order_timeout_ns cfg))"
    using 1 c expire_keeps by (simp add: bound_to_def del: ids_upd)
  then have 2: "bound_to u k oid t0 st2" using r(1) 1 by (auto simp: loop_sweep_def split: if_splits)
  have 3: "gs_client_ids st3 = gs_client_ids st2" using r(2) by (auto split: if_splits) (metis ids_upd(6) snd_conv)
  have "gs_client_ids st4 = gs_client_ids st3" using r(3) by (auto simp: loop_heartbeat_def split: if_splits)
  then show ?thesis using 2 3 r(4) by (simp add: bound_to_def)
qed

lemma bound_get: "bound_to u k oid t0 st \<Longrightarrow> ci_get (gs_client_ids st) u k = Some oid"
  by (simp add: bound_to_def ci_get_def)

lemma bound_apply:
  assumes ok: "gw_ok n (snd s)" and n: "n < u64_max" and so: "gw_step_ok e (snd s)" and a: "gw_apply cfg e s = Some (out, s')"
    and b: "bound_to u k oid t0 (snd s)" and w: "in_window t0 oid e"
  shows "bound_to u k oid t0 (snd s')"
proof -
  obtain t st where s: "s = (t, st)" by fastforce
  show ?thesis
  proof (cases e)
    case (GsFrame ip u1 now now_ns oid1 sent f)
    have "gw_ok n st" "now \<le> u64_max" using ok so GsFrame s by simp_all
    from frame_cases [OF this n, of ip u1 now_ns oid1 sent f] obtain out1 st1 where h: "handle_frame st ip u1 now now_ns oid1 sent f = Some (out1, st1)"
      and c: "kept_quiet st st1 out1 \<or> (\<exists>s1 k1. took_order u1 s1 k1 oid1 now_ns st st1 out1)" by blast
    have "bound_to u k oid t0 st1"
      using c
    proof
      assume "kept_quiet st st1 out1"
      then show ?thesis using b s by (simp add: kept_quiet_def bound_to_def)
    next
      assume "\<exists>s1 k1. took_order u1 s1 k1 oid1 now_ns st st1 out1"
      then obtain s1 k1 where tk: "ci_get (gs_client_ids st) u1 k1 = None" "gs_client_ids st1 = ci_insert (gs_client_ids st) u1 k1 oid1 now_ns"
        by (auto simp: took_order_def)
      then have "(u1, k1) \<noteq> (u, k)" using bound_get [OF b] s by auto
      then show ?thesis using b s tk(2) by (auto simp: bound_to_def ci_insert_def)
    qed
    then show ?thesis using a h GsFrame s by auto
  next
    case (GsLoop it)
    then show ?thesis using a s bound_loop [of u k oid t0 s it cfg] b w by auto
  next
    case (GsOpen u1 t1)
    have "gs_client_ids (snd (open_session st u1 t1)) = gs_client_ids st"
      by (simp add: open_session_def add_connection_def queue_heartbeat_def touch_connection_def)
    then show ?thesis using a s b GsOpen by (auto simp: bound_to_def)
  qed (use a s b in \<open>auto simp: bound_to_def remove_connection_def touch_connection_def drain_outbound_def split: option.splits prod.splits\<close>)
qed


text \<open>The answer to a repeated client order id: refused by a limiter, or told the order it stands for.\<close>

definition repeat_answers :: "order_id \<Rightarrow> cid \<Rightarrow> ws_frame list list" where
  "repeat_answers oid k =
     [[WsError 1006 ''rate limited'' None], [WsError 5 ''overloaded'' None],
      [WsError 1011 ''duplicate cid'' (Some \<lparr>co_order_id = order_id_to_hex oid, co_client_order_id = map char_of (takeWhile (\<lambda>c. c \<noteq> 0) k)\<rparr>)]]"

lemma repeat_answered:
  assumes ok: "gw_ok n st" and n: "now \<le> u64_max" and g: "ci_get (gs_client_ids st) u (cid_bytes cid) = Some oid"
    and h: "handle_new_order st ip u now now_ns oid1 sent s sd price qty cid tif ro po = Some (out, st')"
  shows "go_forward out = [] \<and> go_answer out \<in> set (repeat_answers oid (cid_bytes cid))"
proof -
  have "limiters_ok st" using ok by (simp add: gw_ok_def)
  note A = admit_request_ok [OF this n, of ip u]
  obtain r st1 where 1: "admit_request st ip u now = (r, st1)" by fastforce
  show ?thesis
  proof (cases r)
    case (Inl rj)
    then have "rj = RATE_LIMITED \<or> rj = OVERLOADED" using A 1 by (auto split: if_splits)
    then show ?thesis using h Inl 1
      by (auto simp: handle_new_order_def Let_def reject_request_def send_error_def answer_def RATE_LIMITED_def OVERLOADED_def repeat_answers_def)
  next
    case (Inr w)
    have "gs_client_ids st1 = gs_client_ids st" using A 1 by (simp add: same_ledgers_def)
    then have "admit_order st1 u s price qty (cid_bytes cid) now = Some (Inr (AdmitDuplicate oid), st1)" using g by (simp add: admit_order_def)
    then show ?thesis using h Inr 1 by (auto simp: handle_new_order_def Let_def answer_duplicate_def answer_def repeat_answers_def)
  qed
qed

lemma bound_run:
  assumes "gw_ok n (snd s)" "n + length es \<le> u64_max" "run_ok cfg es s" "gw_run cfg es s = Some (outs, s')" "bound_to u (cid_bytes cid) oid t0 (snd s)"
    "list_all (in_window t0 oid) es" "i < length es" "es ! i = GsFrame ip u now now_ns oid1 sent (WsNewOrder sy sd price qty cid1 tif ro po)" "cid_bytes cid1 = cid_bytes cid"
  shows "go_forward (outs ! i) = [] \<and> go_answer (outs ! i) \<in> set (repeat_answers oid (cid_bytes cid))"
  using assms
proof (induction es arbitrary: n s outs i)
  case (Cons e es)
  obtain out s1 outs1 where 1: "gw_apply cfg e s = Some (out, s1)" "gw_run cfg es s1 = Some (outs1, s')" "outs = out # outs1"
      and so: "gw_step_ok e (snd s)" "run_ok cfg es s1" and n: "n < u64_max" "Suc n + length es \<le> u64_max" and ok1: "gw_ok (Suc n) (snd s1)"
    by (rule gw_run_ConsE [OF Cons.prems(4,1-3)])
  have b1: "bound_to u (cid_bytes cid) oid t0 (snd s1)" using bound_apply [OF Cons.prems(1) n(1) so(1) 1(1) Cons.prems(5)] Cons.prems(6) by simp
  show ?case
  proof (cases i)
    case 0
    then have e: "e = GsFrame ip u now now_ns oid1 sent (WsNewOrder sy sd price qty cid1 tif ro po)" using Cons.prems(8) by simp
    obtain t st where s: "s = (t, st)" by fastforce
    obtain st1 where "handle_new_order st ip u now now_ns oid1 sent sy sd price qty cid1 tif ro po = Some (out, st1)"
      using 1(1) e s by (auto simp: handle_frame_def split: bind_splits)
    then show ?thesis using repeat_answered [of n st now u cid1 oid] Cons.prems(1,9) bound_get [OF Cons.prems(5)] s so(1) e 0 1(3) by simp
  next
    case (Suc j)
    then show ?thesis using Cons.IH [OF ok1 n(2) so(2) 1(2) b1, of j] Cons.prems(6-9) 1(3) by simp
  qed
qed simp



lemma demo_forwards:
  "\<exists>out st1. handle_new_order (gateway_boot demo_gw demo_table 5) 3 9 20 600 (replicate 16 1) True 1 0 50 20 ''a1'' 0 False False = Some (out, st1) \<and>
     go_forward out \<noteq> []"
  by (simp add: handle_new_order_def admit_request_def ip_limiter_for_def user_limiter_for_def gateway_boot_def gateway_new_def demo_gw_def
      set_instance_rate_limit_def try_consume_def refill_def refilled_def limiter_new_def MICROS_PER_SEC_def i64_mul_def i64_sub_def sat_mul_def sat_add_def
      clamp64_def wrap64_def i64_bounds admit_order_def client_ids_default_def ci_get_def demo_table_def symbol_config.defs validate_tick_alignment_def
      validate_lot_alignment_def rem_by_def signed_modulo_int_def signed_divide_int_def pending_new_def pd_is_full_def circuit_new_def allow_def IP_LIMITER_MAX_def Let_def
      split: prod.split)



end
